(* ===== verification/Nvgpu_Prelude.thy ===== *)
theory Nvgpu_Prelude
  imports Main "HOL-Library.Word" "HOL-Library.Monad_Syntax"
begin

text \<open>
  What every component of the development shares: the machine integers of the driver, the
  result types, the checked arithmetic of \<^verbatim>\<open>include/nvgpu/static_analysis.h\<close>
  and the rounding macros of \<^verbatim>\<open>include/nvgpu/posix/utils.h\<close>, the reading of
  \<open>nvgpu_assert\<close>, and the generic lemmas the component proofs rest on.

  Unsigned integers are natural numbers; every operation of the source that can leave the
  width of its type either goes through a checked operation (\<open>nvgpu_safe_add_u64\<close> and its
  kin, which stop the machine) or is written with the wrap-around made explicit
  (\<open>wrap32\<close>, \<open>wrap64\<close>). Bitmap words are \<open>64 word\<close>.

  \<open>None\<close> is the machine stopped: a \<open>BUG()\<close> or a failed \<open>nvgpu_assert\<close> (the
  user-space build, in which a failed assertion does not return), or an access outside an
  array. Error codes of the driver are values of type \<open>errno\<close>.
\<close>

unbundle bit_operations_syntax

section \<open>Types\<close>

type_synonym u8 = nat
type_synonym u16 = nat
type_synonym u32 = nat
type_synonym u64 = nat
type_synonym ulong = "64 word"

abbreviation (input) U32_MAX :: nat where "U32_MAX \<equiv> 4294967295"
abbreviation (input) U64_MAX :: nat where "U64_MAX \<equiv> 18446744073709551615"
abbreviation (input) INT_MAX :: nat where "INT_MAX \<equiv> 2147483647"

datatype errno =
    EINVAL | ENOMEM | EAGAIN | EBUSY | ENOSPC | ERANGE | E2BIG | EEXIST | ENOENT | ENODEV
  | ETIMEDOUT | EINTR | EPERM

text \<open>The \<open>int\<close> result of most operations: \<open>Inr\<close> with what the call stores through
  its out-parameters on 0, \<open>Inl e\<close> for \<open>-e\<close>.\<close>

type_synonym 'a result = "errno + 'a"

section \<open>Collections of lemmas\<close>

named_theorems safe_simps \<open>when the checked operations return\<close>
named_theorems wf_simps \<open>consequences of the component invariants\<close>
named_theorems load_simps \<open>array accesses inside their bounds\<close>

section \<open>Assertions and wrap-around\<close>

definition nvgpu_assert :: "bool \<Rightarrow> unit option" where
  "nvgpu_assert c = (if c then Some () else None)"

definition BUG :: "'a option" where
  "BUG = None"

definition wrap32 :: "nat \<Rightarrow> u32" where
  "wrap32 x = x mod 2 ^ 32"

definition wrap64 :: "nat \<Rightarrow> u64" where
  "wrap64 x = x mod 2 ^ 64"

text \<open>Unsigned subtraction at a width: the borrow comes from above the top bit.\<close>

definition wsub32 :: "u32 \<Rightarrow> u32 \<Rightarrow> u32" where
  "wsub32 a b = (a + (2 ^ 32 - b mod 2 ^ 32)) mod 2 ^ 32"

definition wsub64 :: "u64 \<Rightarrow> u64 \<Rightarrow> u64" where
  "wsub64 a b = (a + (2 ^ 64 - b mod 2 ^ 64)) mod 2 ^ 64"

section \<open>Checked arithmetic (static\_analysis.h)\<close>

definition nvgpu_safe_add_u32 :: "u32 \<Rightarrow> u32 \<Rightarrow> u32 option" where
  "nvgpu_safe_add_u32 ui_a ui_b = (if U32_MAX - ui_a < ui_b then BUG else Some (ui_a + ui_b))"

definition nvgpu_safe_add_u64 :: "u64 \<Rightarrow> u64 \<Rightarrow> u64 option" where
  "nvgpu_safe_add_u64 ul_a ul_b = (if U64_MAX - ul_a < ul_b then BUG else Some (ul_a + ul_b))"

definition nvgpu_safe_sub_u32 :: "u32 \<Rightarrow> u32 \<Rightarrow> u32 option" where
  "nvgpu_safe_sub_u32 ui_a ui_b = (if ui_a < ui_b then BUG else Some (ui_a - ui_b))"

definition nvgpu_safe_sub_u64 :: "u64 \<Rightarrow> u64 \<Rightarrow> u64 option" where
  "nvgpu_safe_sub_u64 ul_a ul_b = (if ul_a < ul_b then BUG else Some (ul_a - ul_b))"

definition nvgpu_safe_mult_u32 :: "u32 \<Rightarrow> u32 \<Rightarrow> u32 option" where
  "nvgpu_safe_mult_u32 ui_a ui_b =
     (if ui_a = 0 \<or> ui_b = 0 then Some 0
      else if ui_a > U32_MAX div ui_b then BUG
      else Some (ui_a * ui_b))"

definition nvgpu_safe_mult_u64 :: "u64 \<Rightarrow> u64 \<Rightarrow> u64 option" where
  "nvgpu_safe_mult_u64 ul_a ul_b =
     (if ul_a = 0 \<or> ul_b = 0 then Some 0
      else if ul_a > U64_MAX div ul_b then BUG
      else Some (ul_a * ul_b))"

text \<open>The mask \<open>~mask\<close> applied at 64 bits, and the two rounding macros.\<close>

definition and_not64 :: "u64 \<Rightarrow> u64 \<Rightarrow> u64" where
  "and_not64 x m = unat ((word_of_nat x :: ulong) AND NOT (word_of_nat m))"

definition ALIGN_MASK :: "u64 \<Rightarrow> u64 \<Rightarrow> u64 option" where
  "ALIGN_MASK x msk = do { s \<leftarrow> nvgpu_safe_add_u64 x msk; Some (and_not64 s msk) }"

definition NVGPU_ALIGN :: "u64 \<Rightarrow> u64 \<Rightarrow> u64 option" where
  "NVGPU_ALIGN x a = do { m \<leftarrow> nvgpu_safe_sub_u64 a 1; ALIGN_MASK x m }"

section \<open>Arrays\<close>

text \<open>An access outside an array is not defined in C; here it stops the machine.\<close>

definition load :: "'a list \<Rightarrow> nat \<Rightarrow> 'a option" where
  "load xs i = (if i < length xs then Some (xs ! i) else None)"

definition store :: "'a list \<Rightarrow> nat \<Rightarrow> 'a \<Rightarrow> 'a list option" where
  "store xs i v = (if i < length xs then Some (xs[i := v]) else None)"

section \<open>Lemmas\<close>

lemma nvgpu_assert_simps [simp]:
  "nvgpu_assert True = Some ()" "nvgpu_assert False = None"
  "nvgpu_assert c = Some u \<longleftrightarrow> c" "nvgpu_assert c = None \<longleftrightarrow> \<not> c"
  by (auto simp: nvgpu_assert_def)

lemma nvgpu_assert_bind [simp]:
  "Option.bind (nvgpu_assert c) f = (if c then f () else None)"
  by (simp add: nvgpu_assert_def)

lemma BUG_simps [simp]: "BUG = None" by (simp add: BUG_def)

lemma safe_add_u32_eq [safe_simps]: "a + b \<le> U32_MAX \<Longrightarrow> nvgpu_safe_add_u32 a b = Some (a + b)"
  by (simp add: nvgpu_safe_add_u32_def)

lemma safe_add_u64_eq [safe_simps]: "a + b \<le> U64_MAX \<Longrightarrow> nvgpu_safe_add_u64 a b = Some (a + b)"
  by (simp add: nvgpu_safe_add_u64_def)

lemma safe_sub_u32_eq [safe_simps]: "b \<le> a \<Longrightarrow> nvgpu_safe_sub_u32 a b = Some (a - b)"
  by (simp add: nvgpu_safe_sub_u32_def)

lemma safe_sub_u64_eq [safe_simps]: "b \<le> a \<Longrightarrow> nvgpu_safe_sub_u64 a b = Some (a - b)"
  by (simp add: nvgpu_safe_sub_u64_def)

lemma safe_mult_u32_eq [safe_simps]: "a * b \<le> U32_MAX \<Longrightarrow> nvgpu_safe_mult_u32 a b = Some (a * b)"
  by (auto simp: nvgpu_safe_mult_u32_def div_less_iff_less_mult)

lemma safe_mult_u64_eq [safe_simps]: "a * b \<le> U64_MAX \<Longrightarrow> nvgpu_safe_mult_u64 a b = Some (a * b)"
  by (auto simp: nvgpu_safe_mult_u64_def div_less_iff_less_mult)

lemma safe_add_u64_Some: "nvgpu_safe_add_u64 a b = Some c \<Longrightarrow> c = a + b"
  by (auto simp: nvgpu_safe_add_u64_def split: if_splits)

lemma safe_sub_u64_Some: "nvgpu_safe_sub_u64 a b = Some c \<Longrightarrow> b \<le> a \<and> c = a - b"
  by (auto simp: nvgpu_safe_sub_u64_def split: if_splits)

lemma safe_mult_u64_Some: "nvgpu_safe_mult_u64 a b = Some c \<Longrightarrow> c = a * b"
  by (auto simp: nvgpu_safe_mult_u64_def split: if_splits)

lemma wrap32_id [simp]: "x \<le> U32_MAX \<Longrightarrow> wrap32 x = x"
  by (simp add: wrap32_def)

lemma wrap64_id [simp]: "x \<le> U64_MAX \<Longrightarrow> wrap64 x = x"
  by (simp add: wrap64_def)

lemma wsub32_ge [simp]: "b \<le> a \<Longrightarrow> a \<le> U32_MAX \<Longrightarrow> wsub32 a b = a - b"
proof -
  assume a: "b \<le> a" "a \<le> U32_MAX"
  have "a + (2 ^ 32 - b mod 2 ^ 32) = (a - b) + 2 ^ 32" using a by simp
  then have "wsub32 a b = ((a - b) + 2 ^ 32) mod 2 ^ 32" by (simp only: wsub32_def)
  also have "\<dots> = a - b" using a by (simp only: mod_add_self2) simp
  finally show ?thesis .
qed

lemma wsub64_ge [simp]: "b \<le> a \<Longrightarrow> a \<le> U64_MAX \<Longrightarrow> wsub64 a b = a - b"
proof -
  assume a: "b \<le> a" "a \<le> U64_MAX"
  have "a + (2 ^ 64 - b mod 2 ^ 64) = (a - b) + 2 ^ 64" using a by simp
  then have "wsub64 a b = ((a - b) + 2 ^ 64) mod 2 ^ 64" by (simp only: wsub64_def)
  also have "\<dots> = a - b" using a by (simp only: mod_add_self2) simp
  finally show ?thesis .
qed

lemma and_not64_0 [simp]: "x \<le> U64_MAX \<Longrightarrow> and_not64 x 0 = x"
  by (simp add: and_not64_def unat_of_nat)

lemma load_in [load_simps]: "i < length xs \<Longrightarrow> load xs i = Some (xs ! i)"
  by (simp add: load_def)

lemma store_in [load_simps]: "i < length xs \<Longrightarrow> store xs i v = Some (xs[i := v])"
  by (simp add: store_def)

lemma load_Some_iff: "load xs i = Some v \<longleftrightarrow> i < length xs \<and> xs ! i = v"
  by (auto simp: load_def)

lemma store_Some_iff: "store xs i v = Some ys \<longleftrightarrow> i < length xs \<and> ys = xs[i := v]"
  by (auto simp: store_def)

text \<open>The power-of-two tests and the masks of the allocators.\<close>

lemma and_mask_nat: "(x::nat) AND (2 ^ k - 1) = x mod 2 ^ k"
  unfolding mask_eq_exp_minus_1[symmetric] take_bit_eq_mask[symmetric] take_bit_eq_mod ..

lemma bit_top_nat: "2 ^ k \<le> x \<Longrightarrow> x < 2 ^ Suc k \<Longrightarrow> bit (x::nat) k"
proof -
  assume "2 ^ k \<le> x" "x < 2 ^ Suc k"
  then have "x div 2 ^ k = 1" by (intro div_nat_eqI) auto
  then show ?thesis by (simp add: bit_iff_odd)
qed

lemma pow2_test:
  assumes "0 < (b::nat)"
  shows "b AND (b - 1) = 0 \<longleftrightarrow> (\<exists>k. b = 2 ^ k)"
proof
  assume "\<exists>k. b = 2 ^ k"
  then obtain k where k: "b = 2 ^ k" ..
  show "b AND (b - 1) = 0" unfolding k and_mask_nat by simp
next
  assume z: "b AND (b - 1) = 0"
  obtain k where k: "2 ^ k \<le> b" "b < 2 ^ Suc k" using ex_power_ivl1[of 2 b] assms by auto
  have "b = 2 ^ k"
  proof (rule ccontr)
    assume "b \<noteq> 2 ^ k"
    then have "2 ^ k \<le> b - 1" "b - 1 < 2 ^ Suc k" using k by auto
    then have "bit (b AND (b - 1)) k" using k by (simp add: bit_and_iff bit_top_nat)
    then show False using z by simp
  qed
  then show "\<exists>k. b = 2 ^ k" ..
qed

text \<open>Half-open intervals: two ranges of addresses are disjoint.\<close>

definition ranges_disjoint :: "nat \<Rightarrow> nat \<Rightarrow> nat \<Rightarrow> nat \<Rightarrow> bool" where
  "ranges_disjoint s1 e1 s2 e2 \<longleftrightarrow> e1 \<le> s2 \<or> e2 \<le> s1"

lemma ranges_disjoint_sym: "ranges_disjoint s1 e1 s2 e2 = ranges_disjoint s2 e2 s1 e1"
  by (auto simp: ranges_disjoint_def)

lemma ranges_disjoint_iff:
  "s1 < e1 \<Longrightarrow> s2 < e2 \<Longrightarrow> ranges_disjoint s1 e1 s2 e2 \<longleftrightarrow> {s1..<e1} \<inter> {s2..<e2} = {}"
  by (auto simp: ranges_disjoint_def)

end
