(* ===== verification/Bitops.thy ===== *)
theory Bitops
  imports Nvgpu_Prelude
begin

text \<open>
  The bit operations of \<^verbatim>\<open>os/posix/bitmap.c\<close>: a bitmap is an array of
  \<open>unsigned long\<close>, scanned a word at a time. The reference view of a bitmap is
  \<open>tb\<close>, the value of the bit with a given number; every operation is related to it:
  the word-at-a-time scan finds the next bit, setting and clearing a range change
  exactly that range, and \<open>bitmap_find_next_zero_area\<close> returns the first free area.
\<close>

section \<open>Definitions\<close>

abbreviation (input) BITS_PER_LONG :: nat where "BITS_PER_LONG \<equiv> 64"

definition BITS_TO_LONGS :: "u64 \<Rightarrow> u64 option" where
  "BITS_TO_LONGS bits =
     do { s \<leftarrow> nvgpu_safe_add_u64 bits (BITS_PER_LONG - 1); Some (s div BITS_PER_LONG) }"

definition get_mask :: "u32 \<Rightarrow> ulong" where
  "get_mask b = push_bit (b mod BITS_PER_LONG) 1"

definition get_index :: "u32 \<Rightarrow> u32" where
  "get_index b = b div BITS_PER_LONG"

text \<open>The compiler's builtins: the number of the first set bit counted from 1 (0 for no
  bit), and the number of leading zero bits.\<close>

definition builtin_ffsl :: "ulong \<Rightarrow> nat" where
  "builtin_ffsl w = (case find (\<lambda>i. bit w i) [0..<64] of None \<Rightarrow> 0 | Some i \<Rightarrow> i + 1)"

definition builtin_clzl :: "ulong \<Rightarrow> nat" where
  "builtin_clzl w = (case find (\<lambda>i. bit w (63 - i)) [0..<64] of None \<Rightarrow> 64 | Some i \<Rightarrow> i)"

definition nvgpu_posix_ffs :: "ulong \<Rightarrow> nat" where
  "nvgpu_posix_ffs w =
     (if w AND mask 63 \<noteq> 0 then builtin_ffsl (w AND mask 63)
      else if w > mask 63 then 64
      else 0)"

definition nvgpu_posix_fls :: "ulong \<Rightarrow> nat" where
  "nvgpu_posix_fls w = (if w = 0 then 0 else 64 - builtin_clzl w)"

text \<open>\<open>nvgpu_ffs\<close> and \<open>nvgpu_fls\<close> of a 64 bit quantity, and \<open>nvgpu_ilog2\<close>.\<close>

definition nvgpu_ffs :: "u64 \<Rightarrow> u64" where
  "nvgpu_ffs x = nvgpu_posix_ffs (word_of_nat x)"

definition nvgpu_fls :: "u64 \<Rightarrow> u64" where
  "nvgpu_fls x = nvgpu_posix_fls (word_of_nat x)"

definition nvgpu_ilog2 :: "u64 \<Rightarrow> u64 option" where
  "nvgpu_ilog2 x = do { nvgpu_assert (nvgpu_fls x > 0); Some (nvgpu_fls x - 1) }"

text \<open>The loop of \<open>nvgpu_posix_find_next_bit\<close>: \<open>Some None\<close> is its \<open>return n\<close>.\<close>

function find_nonzero_word ::
    "ulong list \<Rightarrow> ulong \<Rightarrow> nat \<Rightarrow> nat \<Rightarrow> ulong \<Rightarrow> (nat \<times> ulong) option option" where
  "find_nonzero_word address invert_mask idx_max idx w =
     (if w \<noteq> 0 then Some (Some (idx, w))
      else if idx + 1 > idx_max then Some None
      else do {
        v \<leftarrow> load address (idx + 1);
        find_nonzero_word address invert_mask idx_max (idx + 1) (v XOR invert_mask) })"
  by pat_completeness auto
termination
  by (relation "measure (\<lambda>(_, _, m, i, _). m - i)") auto

declare find_nonzero_word.simps [simp del]

definition nvgpu_posix_find_next_bit :: "ulong list \<Rightarrow> u64 \<Rightarrow> u64 \<Rightarrow> bool \<Rightarrow> u64 option" where
  "nvgpu_posix_find_next_bit address n start invert =
     (let invert_mask = (if invert then NOT 0 else 0) in
      if start \<ge> n then Some n
      else do {
        let start_mask = push_bit (start mod BITS_PER_LONG) (NOT 0);
        let idx = start div BITS_PER_LONG;
        v \<leftarrow> load address idx;
        let w = (v XOR invert_mask) AND start_mask;
        let idx_max = (n - 1) div BITS_PER_LONG;
        r \<leftarrow> find_nonzero_word address invert_mask idx_max idx w;
        (case r of
           None \<Rightarrow> Some n
         | Some (idx, w) \<Rightarrow> do {
             m \<leftarrow> nvgpu_safe_mult_u64 idx BITS_PER_LONG;
             p \<leftarrow> nvgpu_safe_add_u64 (nvgpu_posix_ffs w - 1) m;
             Some (min n p) })
      })"

definition find_first_bit :: "ulong list \<Rightarrow> u64 \<Rightarrow> u64 option" where
  "find_first_bit address sz = nvgpu_posix_find_next_bit address sz 0 False"

definition find_first_zero_bit :: "ulong list \<Rightarrow> u64 \<Rightarrow> u64 option" where
  "find_first_zero_bit address sz = nvgpu_posix_find_next_bit address sz 0 True"

definition find_next_bit :: "ulong list \<Rightarrow> u64 \<Rightarrow> u64 \<Rightarrow> u64 option" where
  "find_next_bit address sz offset = nvgpu_posix_find_next_bit address sz offset False"

definition find_next_zero_bit :: "ulong list \<Rightarrow> u64 \<Rightarrow> u64 \<Rightarrow> u64 option" where
  "find_next_zero_bit address sz offset = nvgpu_posix_find_next_bit address sz offset True"

definition nvgpu_test_bit :: "u32 \<Rightarrow> ulong list \<Rightarrow> bool option" where
  "nvgpu_test_bit b address =
     do { v \<leftarrow> load address (get_index b);
          Some (1 AND drop_bit (b mod BITS_PER_LONG) v \<noteq> 0) }"

definition nvgpu_set_bit :: "u32 \<Rightarrow> ulong list \<Rightarrow> ulong list option" where
  "nvgpu_set_bit b address =
     do { v \<leftarrow> load address (get_index b);
          store address (get_index b) (v OR get_mask b) }"

definition nvgpu_clear_bit :: "u32 \<Rightarrow> ulong list \<Rightarrow> ulong list option" where
  "nvgpu_clear_bit b address =
     do { v \<leftarrow> load address (get_index b);
          store address (get_index b) (v AND NOT (get_mask b)) }"

definition nvgpu_test_and_set_bit :: "u32 \<Rightarrow> ulong list \<Rightarrow> (bool \<times> ulong list) option" where
  "nvgpu_test_and_set_bit b address =
     do { v \<leftarrow> load address (get_index b);
          m \<leftarrow> store address (get_index b) (v OR get_mask b);
          Some (v AND get_mask b \<noteq> 0, m) }"

definition nvgpu_test_and_clear_bit :: "u32 \<Rightarrow> ulong list \<Rightarrow> (bool \<times> ulong list) option" where
  "nvgpu_test_and_clear_bit b address =
     do { v \<leftarrow> load address (get_index b);
          m \<leftarrow> store address (get_index b) (v AND NOT (get_mask b));
          Some (v AND get_mask b \<noteq> 0, m) }"

text \<open>\<open>while (start < end) op(start++, map)\<close>, the loop of \<open>nvgpu_bitmap_set\<close> and
  \<open>nvgpu_bitmap_clear\<close>; \<open>end = start + len\<close> is computed in 32 bits.\<close>

function bitmap_loop ::
    "(u32 \<Rightarrow> ulong list \<Rightarrow> ulong list option) \<Rightarrow> u32 \<Rightarrow> u32 \<Rightarrow> ulong list \<Rightarrow> ulong list option" where
  "bitmap_loop f start stop m =
     (if start < stop then do { m' \<leftarrow> f start m; bitmap_loop f (start + 1) stop m' }
      else Some m)"
  by pat_completeness auto
termination
  by (relation "measure (\<lambda>(_, i, n, _). n - i)") auto

declare bitmap_loop.simps [simp del]

definition nvgpu_bitmap_set :: "ulong list \<Rightarrow> u32 \<Rightarrow> u32 \<Rightarrow> ulong list option" where
  "nvgpu_bitmap_set m start len = bitmap_loop nvgpu_set_bit start (wrap32 (start + len)) m"

definition nvgpu_bitmap_clear :: "ulong list \<Rightarrow> u32 \<Rightarrow> u32 \<Rightarrow> ulong list option" where
  "nvgpu_bitmap_clear m start len = bitmap_loop nvgpu_clear_bit start (wrap32 (start + len)) m"

partial_function (option) bitmap_find_next_zero_area ::
    "ulong list \<Rightarrow> u64 \<Rightarrow> u64 \<Rightarrow> u32 \<Rightarrow> u64 \<Rightarrow> u64 option" where
  "bitmap_find_next_zero_area m sz start nbits align_mask =
     do {
       e \<leftarrow> nvgpu_safe_add_u64 start nbits;
       if e \<le> sz then do {
         start \<leftarrow> find_next_zero_bit m sz start;
         start \<leftarrow> ALIGN_MASK start align_mask;
         e \<leftarrow> nvgpu_safe_add_u64 start nbits;
         if e > sz then Some sz
         else do {
           offs \<leftarrow> find_next_bit m sz start;
           if wsub64 offs start \<ge> nbits then Some start
           else bitmap_find_next_zero_area m sz (wrap64 (offs + 1)) nbits align_mask
         }
       } else Some sz
     }"

section \<open>The reference view: bit \<open>i\<close> of a bitmap\<close>

definition tb :: "ulong list \<Rightarrow> nat \<Rightarrow> bool" where
  "tb m i = bit (m ! (i div 64)) (i mod 64)"

text \<open>The first index of a range whose bit has the value sought, or the end of the range.\<close>

definition first_from :: "(nat \<Rightarrow> bool) \<Rightarrow> nat \<Rightarrow> nat \<Rightarrow> nat \<Rightarrow> bool" where
  "first_from P start n r \<longleftrightarrow>
     start \<le> r \<and> r \<le> n \<and> (\<forall>i. start \<le> i \<and> i < r \<longrightarrow> \<not> P i) \<and> (r < n \<longrightarrow> P r)"

lemma first_from_unique:
  assumes "first_from P s n r" "first_from P s n r'"
  shows "r = r'"
  using assms unfolding first_from_def by (metis le_neq_implies_less nat_le_linear order_le_less_trans)

section \<open>Counting bits\<close>

lemma find_upt_Some:
  "find P [0..<n] = Some i \<longleftrightarrow> i < n \<and> P i \<and> (\<forall>j<i. \<not> P j)"
  by (auto simp: find_Some_iff)

lemma builtin_ffsl_correct:
  assumes "(w::ulong) \<noteq> 0"
  shows "\<exists>k<64. builtin_ffsl w = k + 1 \<and> bit w k \<and> (\<forall>j<k. \<not> bit w j)"
proof -
  from assms obtain i where "bit w i" by (auto simp: bit_eq_iff)
  then have "i < 64" using bit_imp_le_length by fastforce
  with \<open>bit w i\<close> have "find (\<lambda>i. bit w i) [0..<64] \<noteq> None"
    by (auto simp: find_None_iff)
  then obtain k where "find (\<lambda>i. bit w i) [0..<64] = Some k" by blast
  moreover from this have "k < 64 \<and> bit w k \<and> (\<forall>j<k. \<not> bit w j)"
    unfolding find_upt_Some .
  ultimately show ?thesis by (auto simp: builtin_ffsl_def)
qed

lemma bit_push_bit_1: "bit (push_bit n 1 :: ulong) j \<longleftrightarrow> j = n \<and> n < 64"
  by (auto simp: bit_simps)

lemma low_bits_zero:
  assumes "(w::ulong) AND mask 63 = 0"
  shows "w = 0 \<or> w = push_bit 63 1"
proof -
  have z: "\<not> bit w i" if "i < 63" for i
  proof -
    have "\<not> bit (w AND mask 63) i" using assms by simp
    then show ?thesis using that by (auto simp: bit_simps)
  qed
  show ?thesis
  proof (cases "bit w 63")
    case True
    have "w = push_bit 63 1"
    proof (rule bit_word_eqI)
      fix n assume "n < LENGTH(64)"
      then show "bit w n = bit (push_bit 63 (1::ulong)) n"
        using z[of n] True unfolding bit_push_bit_1 by (cases "n = 63") auto
    qed
    then show ?thesis by simp
  next
    case False
    have "w = 0"
    proof (rule bit_word_eqI)
      fix n assume "n < LENGTH(64)"
      then show "bit w n = bit (0::ulong) n"
        using z[of n] False by (cases "n = 63") auto
    qed
    then show ?thesis by simp
  qed
qed

lemma nvgpu_posix_ffs_0 [simp]: "nvgpu_posix_ffs 0 = 0"
  by (simp add: nvgpu_posix_ffs_def)

lemma nvgpu_posix_ffs_correct:
  assumes "(w::ulong) \<noteq> 0"
  shows "\<exists>k<64. nvgpu_posix_ffs w = k + 1 \<and> bit w k \<and> (\<forall>j<k. \<not> bit w j)"
proof (cases "w AND mask 63 = 0")
  case True
  with assms have w: "w = push_bit 63 1" using low_bits_zero by blast
  have "nvgpu_posix_ffs w = 64"
    using True unfolding nvgpu_posix_ffs_def w by (simp add: mask_eq_decr_exp)
  moreover have "bit w 63" and "\<forall>j<63. \<not> bit w j" unfolding w bit_push_bit_1 by auto
  ultimately show ?thesis by (intro exI[of _ 63]) simp
next
  case False
  then obtain k where k: "k < 64" "builtin_ffsl (w AND mask 63) = k + 1"
    "bit (w AND mask 63) k" "\<forall>j<k. \<not> bit (w AND mask 63) j"
    using builtin_ffsl_correct by blast
  have "k < 63" using k(3) by (simp add: bit_simps)
  then have "bit w k" and "\<forall>j<k. \<not> bit w j" using k by (auto simp: bit_simps)
  then show ?thesis using k False by (auto simp: nvgpu_posix_ffs_def)
qed

lemma nvgpu_ffs_power2 [simp]:
  assumes "k < 64"
  shows "nvgpu_ffs (2 ^ k) = k + 1"
proof -
  let ?w = "word_of_nat (2 ^ k) :: ulong"
  have w: "?w = push_bit k 1" by (simp add: push_bit_eq_mult)
  have b: "bit ?w k" and nb: "j \<noteq> k \<Longrightarrow> \<not> bit ?w j" for j
    using assms unfolding w bit_push_bit_1 by auto
  from b have "?w \<noteq> 0" by (metis bit_0_eq bot_apply bot_bool_def)
  then obtain j where "nvgpu_posix_ffs ?w = j + 1" "bit ?w j"
    using nvgpu_posix_ffs_correct by blast
  then show ?thesis using nb by (metis nvgpu_ffs_def)
qed

section \<open>The word-at-a-time scan\<close>

lemma first_from_step:
  assumes "\<not> P i" "first_from P (Suc i) n r"
  shows "first_from P i n r"
  using assms unfolding first_from_def by (metis Suc_leD Suc_leI le_neq_implies_less)

lemma find_nonzero_word_correct:
  assumes "idx \<le> idx_max" "idx_max < length m" "W idx = w"
    and "\<And>k. idx < k \<Longrightarrow> k \<le> idx_max \<Longrightarrow> W k = m ! k XOR ivm"
  shows "\<exists>r. first_from (\<lambda>k. W k \<noteq> 0) idx (Suc idx_max) r \<and>
    find_nonzero_word m ivm idx_max idx w = Some (if r \<le> idx_max then Some (r, W r) else None)"
  using assms
proof (induction m ivm idx_max idx w rule: find_nonzero_word.induct)
  case (1 m ivm idx_max idx w)
  show ?case
  proof (cases "w = 0")
    case False
    then have "first_from (\<lambda>k. W k \<noteq> 0) idx (Suc idx_max) idx"
      using "1.prems" by (auto simp: first_from_def)
    then show ?thesis using False "1.prems"
      by (intro exI[of _ idx]) (simp add: find_nonzero_word.simps[of m ivm idx_max idx w])
  next
    case z: True
    show ?thesis
    proof (cases "idx = idx_max")
      case True
      then have "first_from (\<lambda>k. W k \<noteq> 0) idx (Suc idx_max) (Suc idx_max)"
        using z "1.prems" by (auto simp: first_from_def less_Suc_eq)
      then show ?thesis using True z
        by (intro exI[of _ "Suc idx_max"]) (simp add: find_nonzero_word.simps[of m ivm idx_max idx_max 0])
    next
      case False
      with "1.prems" have lt: "idx + 1 \<le> idx_max" by simp
      have l: "load m (idx + 1) = Some (m ! (idx + 1))" using lt "1.prems" by (simp add: load_def)
      obtain r where r: "first_from (\<lambda>k. W k \<noteq> 0) (idx + 1) (Suc idx_max) r"
        and e: "find_nonzero_word m ivm idx_max (idx + 1) (m ! (idx + 1) XOR ivm) =
          Some (if r \<le> idx_max then Some (r, W r) else None)"
        using "1.IH"[of "m ! (idx + 1)"] z lt l "1.prems" by fastforce
      have "first_from (\<lambda>k. W k \<noteq> 0) idx (Suc idx_max) r"
        using first_from_step[of "\<lambda>k. W k \<noteq> 0" idx] z "1.prems" r by simp
      then show ?thesis using e l lt z
        by (intro exI[of _ r]) (simp add: find_nonzero_word.simps[of m ivm idx_max idx 0])
    qed
  qed
qed

lemma div_mod_64: "i div 64 = (k::nat) \<Longrightarrow> i = 64 * k + i mod 64"
  by (metis mult_div_mod_eq)

lemma nvgpu_posix_find_next_bit_correct:
  assumes n: "n \<le> 64 * length m" "n \<le> U64_MAX"
  shows "\<exists>r. nvgpu_posix_find_next_bit m n start invert = Some r \<and>
    (start \<le> n \<longrightarrow> first_from (\<lambda>i. tb m i \<noteq> invert) start n r) \<and> (n < start \<longrightarrow> r = n)"
proof (cases "start \<ge> n")
  case True
  then show ?thesis by (auto simp: nvgpu_posix_find_next_bit_def first_from_def)
next
  case False
  define ivm where "ivm = (if invert then NOT 0 else 0 :: ulong)"
  define idx where "idx = start div 64"
  define idx_max where "idx_max = (n - 1) div 64"
  define smask where "smask = push_bit (start mod 64) (NOT 0 :: ulong)"
  define W where "W k = (if k = idx then (m ! idx XOR ivm) AND smask else m ! k XOR ivm)" for k
  let ?P = "\<lambda>i. tb m i \<noteq> invert"
  have le: "idx \<le> idx_max" using False by (auto simp: idx_def idx_max_def intro: div_le_mono)
  have lt: "idx_max < length m" using False n(1) by (auto simp: idx_max_def)
  have bitW: "bit (W k) j \<longleftrightarrow> ?P (64 * k + j) \<and> (k = idx \<longrightarrow> start mod 64 \<le> j)" if "j < 64" for k j
    using that by (auto simp: W_def ivm_def smask_def tb_def bit_simps)
  obtain r where r: "first_from (\<lambda>k. W k \<noteq> 0) idx (Suc idx_max) r"
    and e: "find_nonzero_word m ivm idx_max idx (W idx) =
      Some (if r \<le> idx_max then Some (r, W r) else None)"
    using find_nonzero_word_correct[of idx idx_max m W "W idx" ivm] le lt by (auto simp: W_def)
  have zero: "\<not> ?P i" if "start \<le> i" "i div 64 < r" for i
  proof -
    have "idx \<le> i div 64" using that by (auto simp: idx_def intro: div_le_mono)
    then have "W (i div 64) = 0" using r that by (auto simp: first_from_def)
    then have "\<not> bit (W (i div 64)) (i mod 64)" by simp
    moreover have "i div 64 = idx \<longrightarrow> start mod 64 \<le> i mod 64"
      using that by (metis add_le_cancel_left idx_def mult_div_mod_eq)
    ultimately show ?thesis using bitW[of "i mod 64" "i div 64"] by simp
  qed
  have red: "nvgpu_posix_find_next_bit m n start invert =
      (case (if r \<le> idx_max then Some (r, W r) else None) of None \<Rightarrow> Some n
       | Some (idx, w) \<Rightarrow> do {
           m \<leftarrow> nvgpu_safe_mult_u64 idx 64;
           p \<leftarrow> nvgpu_safe_add_u64 (nvgpu_posix_ffs w - 1) m;
           Some (min n p) })"
    unfolding nvgpu_posix_find_next_bit_def Let_def idx_def[symmetric] idx_max_def[symmetric]
      ivm_def[symmetric] smask_def[symmetric]
    using False le lt e by (simp add: load_def W_def[of idx])
  show ?thesis
  proof (cases "r \<le> idx_max")
    case rle: True
    then have "W r \<noteq> 0" using r by (auto simp: first_from_def)
    then obtain k where k: "k < 64" "nvgpu_posix_ffs (W r) = k + 1" "bit (W r) k"
      "\<forall>j<k. \<not> bit (W r) j" using nvgpu_posix_ffs_correct by blast
    define p where "p = 64 * r + k"
    have "r \<le> U64_MAX div 64" using rle n(2) by (simp add: idx_max_def)
    then have "p \<le> U64_MAX" using k(1) by (simp add: p_def)
    then have s: "nvgpu_posix_find_next_bit m n start invert = Some (min n p)"
      using rle k(2) by (simp add: red safe_simps p_def mult.commute add.commute)
    have Pp: "?P p" using k bitW by (simp add: p_def)
    have sp: "start \<le> p"
    proof (cases "r = idx")
      case True
      then have "start mod 64 \<le> k" using k bitW by blast
      then show ?thesis using True by (metis add_le_cancel_left idx_def mult_div_mod_eq p_def)
    next
      case False
      then have "idx < r" using r by (auto simp: first_from_def)
      then show ?thesis unfolding p_def idx_def by (simp add: div_less_iff_less_mult)
    qed
    have np: "\<not> ?P i" if "start \<le> i" "i < p" for i
    proof (cases "i div 64 < r")
      case True
      then show ?thesis using zero that by blast
    next
      case False
      have "i div 64 \<le> r" using that(2) k(1) unfolding p_def by linarith
      then have ir: "i div 64 = r" using False by simp
      then have i: "i = 64 * r + i mod 64" by (rule div_mod_64)
      have im: "i mod 64 < k" using that(2) i unfolding p_def by linarith
      have "r = idx \<longrightarrow> start mod 64 \<le> i mod 64"
        using that ir by (metis add_le_cancel_left idx_def mult_div_mod_eq)
      then show ?thesis using k(4) im i bitW[of "i mod 64" r] by auto
    qed
    have "first_from ?P start n (min n p)"
      using False sp np Pp by (auto simp: first_from_def min_def)
    then show ?thesis using s False by auto
  next
    case rgt: False
    then have "\<not> ?P i" if "start \<le> i" "i < n" for i
      using zero[of i] that by (auto simp: idx_max_def not_le intro: order_le_less_trans[OF div_le_mono])
    then have "first_from ?P start n n" using False by (auto simp: first_from_def)
    then show ?thesis using red rgt False by auto
  qed
qed

lemma find_next_bit_correct:
  assumes "n \<le> 64 * length m" "n \<le> U64_MAX" "start \<le> n"
  shows "\<exists>r. find_next_bit m n start = Some r \<and> first_from (tb m) start n r"
  using nvgpu_posix_find_next_bit_correct[of n m start False] assms
  by (auto simp: find_next_bit_def)

lemma find_next_zero_bit_correct:
  assumes "n \<le> 64 * length m" "n \<le> U64_MAX" "start \<le> n"
  shows "\<exists>r. find_next_zero_bit m n start = Some r \<and> first_from (\<lambda>i. \<not> tb m i) start n r"
  using nvgpu_posix_find_next_bit_correct[of n m start True] assms
  by (auto simp: find_next_zero_bit_def)

lemma find_first_zero_bit_correct:
  assumes "n \<le> 64 * length m" "n \<le> U64_MAX"
  shows "\<exists>r. find_first_zero_bit m n = Some r \<and> first_from (\<lambda>i. \<not> tb m i) 0 n r"
  using find_next_zero_bit_correct[of n m 0] assms
  by (auto simp: find_first_zero_bit_def find_next_zero_bit_def)

section \<open>Single bits\<close>

lemma bit_get_mask: "bit (get_mask b) j \<longleftrightarrow> j = b mod 64"
  by (auto simp: get_mask_def bit_simps)

lemma and_get_mask: "(w AND get_mask b \<noteq> 0) \<longleftrightarrow> bit w (b mod 64)"
  unfolding bit_eq_iff by (auto simp: bit_simps bit_get_mask)

lemma tb_update:
  assumes "b < 64 * length m" and "\<And>j. j < 64 \<Longrightarrow> bit v j = (if j = b mod 64 then x else bit (m ! (b div 64)) j)"
  shows "tb (m[b div 64 := v]) i = (if i = b then x else tb m i)"
proof (cases "i div 64 = b div 64")
  case True
  then have "i = b \<longleftrightarrow> i mod 64 = b mod 64" by (metis div_mult_mod_eq)
  then show ?thesis using True assms by (simp add: tb_def less_mult_imp_div_less mult.commute)
next
  case False
  then show ?thesis by (auto simp: tb_def)
qed

lemma nvgpu_set_bit_correct:
  assumes "b < 64 * length m"
  shows "\<exists>m'. nvgpu_set_bit b m = Some m' \<and> length m' = length m \<and> (\<forall>i. tb m' i = (i = b \<or> tb m i))"
proof -
  have "nvgpu_set_bit b m = Some (m[b div 64 := m ! (b div 64) OR get_mask b])"
    using assms by (simp add: nvgpu_set_bit_def load_def store_def get_index_def
        less_mult_imp_div_less mult.commute)
  moreover have "tb (m[b div 64 := m ! (b div 64) OR get_mask b]) i = (if i = b then True else tb m i)" for i
    by (rule tb_update[OF assms]) (auto simp: bit_simps bit_get_mask)
  ultimately show ?thesis by simp
qed

lemma nvgpu_clear_bit_correct:
  assumes "b < 64 * length m"
  shows "\<exists>m'. nvgpu_clear_bit b m = Some m' \<and> length m' = length m \<and> (\<forall>i. tb m' i = (i \<noteq> b \<and> tb m i))"
proof -
  have "nvgpu_clear_bit b m = Some (m[b div 64 := m ! (b div 64) AND NOT (get_mask b)])"
    using assms by (simp add: nvgpu_clear_bit_def load_def store_def get_index_def
        less_mult_imp_div_less mult.commute)
  moreover have "tb (m[b div 64 := m ! (b div 64) AND NOT (get_mask b)]) i = (if i = b then False else tb m i)" for i
    by (rule tb_update[OF assms]) (auto simp: bit_simps bit_get_mask)
  ultimately show ?thesis by simp
qed

lemma nvgpu_test_bit_correct:
  assumes "b < 64 * length m"
  shows "nvgpu_test_bit b m = Some (tb m b)"
proof -
  have "(1 AND drop_bit n w \<noteq> 0) \<longleftrightarrow> bit w n" for n :: nat and w :: ulong
    by (simp add: bit_iff_odd_drop_bit one_and_eq odd_iff_mod_2_eq_one)
  then show ?thesis using assms
    by (simp add: nvgpu_test_bit_def load_def get_index_def tb_def less_mult_imp_div_less mult.commute)
qed

lemma nvgpu_test_and_set_bit_correct:
  assumes "b < 64 * length m"
  shows "\<exists>m'. nvgpu_test_and_set_bit b m = Some (tb m b, m') \<and> nvgpu_set_bit b m = Some m'"
  using assms unfolding nvgpu_test_and_set_bit_def nvgpu_set_bit_def
  by (simp add: load_def store_def get_index_def tb_def and_get_mask less_mult_imp_div_less mult.commute)

lemma nvgpu_test_and_clear_bit_correct:
  assumes "b < 64 * length m"
  shows "\<exists>m'. nvgpu_test_and_clear_bit b m = Some (tb m b, m') \<and> nvgpu_clear_bit b m = Some m'"
  using assms unfolding nvgpu_test_and_clear_bit_def nvgpu_clear_bit_def
  by (simp add: load_def store_def get_index_def tb_def and_get_mask less_mult_imp_div_less mult.commute)

section \<open>Ranges of bits\<close>

lemma bitmap_loop_set:
  assumes "stop \<le> 64 * length m"
  shows "\<exists>m'. bitmap_loop nvgpu_set_bit start stop m = Some m' \<and> length m' = length m \<and>
    (\<forall>i. tb m' i = (start \<le> i \<and> i < stop \<or> tb m i))"
  using assms
proof (induction "stop - start" arbitrary: start m)
  case 0
  then show ?case by (auto simp: bitmap_loop.simps[of _ start])
next
  case (Suc d)
  then have lt: "start < stop" by simp
  obtain m1 where m1: "nvgpu_set_bit start m = Some m1" "length m1 = length m"
    "\<And>i. tb m1 i = (i = start \<or> tb m i)"
    using nvgpu_set_bit_correct[of start m] lt Suc.prems by auto
  have d: "d = stop - (start + 1)" using Suc.hyps(2) by simp
  obtain m2 where "bitmap_loop nvgpu_set_bit (start + 1) stop m1 = Some m2" "length m2 = length m1"
    "\<And>i. tb m2 i = (start + 1 \<le> i \<and> i < stop \<or> tb m1 i)"
    using Suc.hyps(1)[OF d, of m1] Suc.prems m1(2) by auto
  moreover have "bitmap_loop nvgpu_set_bit start stop m = bitmap_loop nvgpu_set_bit (start + 1) stop m1"
    using m1(1) lt by (simp add: bitmap_loop.simps[of _ start])
  ultimately show ?case using m1(2,3) lt by (intro exI[of _ m2]) auto
qed

lemma bitmap_loop_clear:
  assumes "stop \<le> 64 * length m"
  shows "\<exists>m'. bitmap_loop nvgpu_clear_bit start stop m = Some m' \<and> length m' = length m \<and>
    (\<forall>i. tb m' i = (\<not> (start \<le> i \<and> i < stop) \<and> tb m i))"
  using assms
proof (induction "stop - start" arbitrary: start m)
  case 0
  then show ?case by (auto simp: bitmap_loop.simps[of _ start])
next
  case (Suc d)
  then have lt: "start < stop" by simp
  obtain m1 where m1: "nvgpu_clear_bit start m = Some m1" "length m1 = length m"
    "\<And>i. tb m1 i = (i \<noteq> start \<and> tb m i)"
    using nvgpu_clear_bit_correct[of start m] lt Suc.prems by auto
  have d: "d = stop - (start + 1)" using Suc.hyps(2) by simp
  obtain m2 where m2: "bitmap_loop nvgpu_clear_bit (start + 1) stop m1 = Some m2" "length m2 = length m1"
    "\<And>i. tb m2 i = (\<not> (start + 1 \<le> i \<and> i < stop) \<and> tb m1 i)"
    using Suc.hyps(1)[OF d, of m1] Suc.prems m1(2) by auto
  have "bitmap_loop nvgpu_clear_bit start stop m = bitmap_loop nvgpu_clear_bit (start + 1) stop m1"
    using m1(1) lt by (simp add: bitmap_loop.simps[of _ start])
  moreover have "tb m2 i = (\<not> (start \<le> i \<and> i < stop) \<and> tb m i)" for i
    unfolding m2(3) m1(3) using lt by (cases "i = start") auto
  ultimately show ?case using m1(2) m2(1,2) by simp
qed

lemma nvgpu_bitmap_set_correct:
  assumes "start + len \<le> 64 * length m" "start + len \<le> U32_MAX"
  shows "\<exists>m'. nvgpu_bitmap_set m start len = Some m' \<and> length m' = length m \<and>
    (\<forall>i. tb m' i = (start \<le> i \<and> i < start + len \<or> tb m i))"
  using bitmap_loop_set[of "start + len" m start] assms by (simp add: nvgpu_bitmap_set_def)

lemma nvgpu_bitmap_clear_correct:
  assumes "start + len \<le> 64 * length m" "start + len \<le> U32_MAX"
  shows "\<exists>m'. nvgpu_bitmap_clear m start len = Some m' \<and> length m' = length m \<and>
    (\<forall>i. tb m' i = (\<not> (start \<le> i \<and> i < start + len) \<and> tb m i))"
  using bitmap_loop_clear[of "start + len" m start] assms by (simp add: nvgpu_bitmap_clear_def)

section \<open>The first free area\<close>

definition free_area :: "ulong list \<Rightarrow> nat \<Rightarrow> nat \<Rightarrow> bool" where
  "free_area m s k \<longleftrightarrow> (\<forall>i. s \<le> i \<and> i < s + k \<longrightarrow> \<not> tb m i)"

lemma first_from_skip:
  assumes "first_from P b n r" "a \<le> b" "\<And>s. a \<le> s \<Longrightarrow> s < b \<Longrightarrow> \<not> P s"
  shows "first_from P a n r"
  using assms unfolding first_from_def by (metis le_trans not_le_imp_less)

lemma ALIGN_MASK_0: "x \<le> U64_MAX \<Longrightarrow> ALIGN_MASK x 0 = Some x"
  by (simp add: ALIGN_MASK_def safe_simps)

lemma bitmap_find_next_zero_area_first:
  assumes "sz \<le> 64 * length m" "sz + k < U64_MAX" "start \<le> sz" "0 < k"
  shows "\<exists>r. bitmap_find_next_zero_area m sz start k 0 = Some r \<and>
    first_from (\<lambda>s. s + k \<le> sz \<and> free_area m s k) start sz r"
  using assms
proof (induction "sz - start" arbitrary: start rule: less_induct)
  case less
  let ?P = "\<lambda>s. s + k \<le> sz \<and> free_area m s k"
  have e1: "nvgpu_safe_add_u64 start k = Some (start + k)" using less.prems by (simp add: safe_simps)
  show ?case
  proof (cases "start + k \<le> sz")
    case False
    then have "first_from ?P start sz sz" using less.prems by (auto simp: first_from_def)
    then show ?thesis using False e1
      by (intro exI[of _ sz]) (simp add: bitmap_find_next_zero_area.simps[of m sz start])
  next
    case True
    obtain z where z: "find_next_zero_bit m sz start = Some z" "first_from (\<lambda>i. \<not> tb m i) start sz z"
      using find_next_zero_bit_correct[of sz m start] less.prems by auto
    then have zle: "start \<le> z" "z \<le> sz" and busy: "\<And>i. start \<le> i \<Longrightarrow> i < z \<Longrightarrow> tb m i"
      by (auto simp: first_from_def)
    have notP: "\<not> ?P s" if "start \<le> s" "s < z" for s
      using busy[OF that] less.prems(4) by (auto simp: free_area_def)
    have e2: "nvgpu_safe_add_u64 z k = Some (z + k)" "ALIGN_MASK z 0 = Some z"
      using zle less.prems by (simp_all add: safe_simps ALIGN_MASK_0)
    show ?thesis
    proof (cases "z + k > sz")
      case zbig: True
      then have "first_from ?P start sz sz" using notP zle less.prems(3)
        by (auto simp: first_from_def)
      then show ?thesis using True zbig e1 e2 z
        by (intro exI[of _ sz]) (simp add: bitmap_find_next_zero_area.simps[of m sz start])
    next
      case zfit: False
      obtain q where q: "find_next_bit m sz z = Some q" "first_from (tb m) z sz q"
        using find_next_bit_correct[of sz m z] less.prems zle by auto
      then have qle: "z \<le> q" "q \<le> sz" and clear: "\<And>i. z \<le> i \<Longrightarrow> i < q \<Longrightarrow> \<not> tb m i"
        by (auto simp: first_from_def)
      have sub: "wsub64 q z = q - z" using qle less.prems by simp
      show ?thesis
      proof (cases "q - z \<ge> k")
        case found: True
        then have "?P z" using clear zfit by (auto simp: free_area_def)
        then have "first_from ?P start sz z" using zle notP by (auto simp: first_from_def)
        then show ?thesis using True zfit found e1 e2 z q sub
          by (intro exI[of _ z]) (simp add: bitmap_find_next_zero_area.simps[of m sz start])
      next
        case False
        then have "q < sz" using zfit by linarith
        then have tq: "tb m q" using q by (auto simp: first_from_def)
        have skip: "\<not> ?P s" if "start \<le> s" "s < q + 1" for s
        proof (cases "s < z")
          case True
          then show ?thesis using notP that by blast
        next
          case False
          then have "s \<le> q" "q < s + k" using that \<open>\<not> q - z \<ge> k\<close> by auto
          then show ?thesis using tq by (auto simp: free_area_def)
        qed
        obtain r where r: "bitmap_find_next_zero_area m sz (q + 1) k 0 = Some r"
          "first_from ?P (q + 1) sz r"
          using less.hyps[of "q + 1"] \<open>q < sz\<close> qle(1) zle(1) less.prems diff_less_mono2[of start "q + 1" sz]
          by fastforce
        have "wrap64 (q + 1) = q + 1" using \<open>q < sz\<close> less.prems by simp
        then have "bitmap_find_next_zero_area m sz start k 0 = bitmap_find_next_zero_area m sz (q + 1) k 0"
          using True zfit False e1 e2 z(1) q(1) sub
          by (subst bitmap_find_next_zero_area.simps) simp
        moreover have "first_from ?P start sz r"
          by (rule first_from_skip[OF r(2)]) (use qle(1) zle(1) skip in auto)
        ultimately show ?thesis using r(1) by auto
      qed
    qed
  qed
qed

end
