(* ===== verification/Interval_Index.thy ===== *)
theory Interval_Index
  imports Nvgpu_Prelude
begin

text \<open>
  The contract of the trees that hold outstanding allocations: what the clients of
  \<^verbatim>\<open>common/utils/rbtree.c\<close> rely on. An index is the in-order sequence of the
  tree's nodes, keyed by \<open>key_start\<close>: inserting a key that is there changes nothing,
  unlinking removes the node, a search finds the node with that key, and an enumeration
  visits the nodes in the order of their keys. The clients' models work on this view.
\<close>

type_synonym 'a index = "(u64 \<times> 'a) list"

fun idx_insert :: "u64 \<Rightarrow> 'a \<Rightarrow> 'a index \<Rightarrow> 'a index" where
  "idx_insert k v [] = [(k, v)]"
| "idx_insert k v ((k', v') # xs) =
     (if k < k' then (k, v) # (k', v') # xs
      else if k > k' then (k', v') # idx_insert k v xs
      else (k', v') # xs)"

definition idx_search :: "u64 \<Rightarrow> 'a index \<Rightarrow> 'a option" where
  "idx_search k xs = map_of xs k"

definition idx_unlink :: "u64 \<Rightarrow> 'a index \<Rightarrow> 'a index" where
  "idx_unlink k xs = filter (\<lambda>p. fst p \<noteq> k) xs"

text \<open>\<open>enum_start\<close> finds the first node whose key is not below the given one.\<close>

definition idx_enum_start :: "u64 \<Rightarrow> 'a index \<Rightarrow> (u64 \<times> 'a) option" where
  "idx_enum_start k xs = find (\<lambda>p. k \<le> fst p) xs"

definition idx_sorted :: "'a index \<Rightarrow> bool" where
  "idx_sorted xs = sorted_wrt (\<lambda>p q. fst p < fst q) xs"

lemma idx_sorted_simps [simp]:
  "idx_sorted []"
  "idx_sorted (p # xs) \<longleftrightarrow> (\<forall>q\<in>set xs. fst p < fst q) \<and> idx_sorted xs"
  by (simp_all add: idx_sorted_def)

lemma set_idx_insert: "set (idx_insert k v xs) \<subseteq> insert (k, v) (set xs)"
  by (induction k v xs rule: idx_insert.induct) auto

lemma idx_sorted_insert [simp]: "idx_sorted xs \<Longrightarrow> idx_sorted (idx_insert k v xs)"
proof (induction k v xs rule: idx_insert.induct)
  case (2 k v k' v' xs)
  then show ?case using set_idx_insert[of k v xs] by auto
qed simp

lemma idx_search_insert:
  "idx_search k' (idx_insert k v xs) =
     (if k' = k \<and> idx_search k xs = None then Some v else idx_search k' xs)"
  if "idx_sorted xs"
  using that
proof (induction k v xs rule: idx_insert.induct)
  case (2 k v l w xs)
  have "map_of xs k = None" if "k < l"
  proof (rule ccontr)
    assume "map_of xs k \<noteq> None"
    then obtain u where "(k, u) \<in> set xs" by (auto dest: map_of_SomeD)
    then show False using "2.prems" that by auto
  qed
  then show ?case using 2 by (auto simp: idx_search_def)
qed (simp add: idx_search_def)

lemma idx_search_unlink: "idx_search k' (idx_unlink k xs) = (if k' = k then None else idx_search k' xs)"
  by (induction xs) (auto simp: idx_search_def idx_unlink_def)

lemma idx_sorted_unlink [simp]: "idx_sorted xs \<Longrightarrow> idx_sorted (idx_unlink k xs)"
  by (induction xs) (auto simp: idx_unlink_def)

lemma idx_search_in: "idx_search k xs = Some v \<Longrightarrow> (k, v) \<in> set xs"
  by (simp add: idx_search_def map_of_SomeD)

lemma idx_search_iff: "idx_sorted xs \<Longrightarrow> idx_search k xs = Some v \<longleftrightarrow> (k, v) \<in> set xs"
  by (induction xs) (auto simp: idx_search_def dest: map_of_SomeD)

lemma set_idx_unlink: "set (idx_unlink k xs) = {p \<in> set xs. fst p \<noteq> k}"
  by (auto simp: idx_unlink_def)

lemma set_idx_insert_new:
  "idx_search k xs = None \<Longrightarrow> set (idx_insert k v xs) = insert (k, v) (set xs)"
  by (induction k v xs rule: idx_insert.induct) (auto simp: idx_search_def split: if_splits)

lemma length_idx_unlink:
  "(k, v) \<in> set xs \<Longrightarrow> length (idx_unlink k xs) < length xs"
  unfolding idx_unlink_def by (rule length_filter_less) auto

lemma idx_enum_start_None [simp]: "idx_enum_start 0 xs = None \<longleftrightarrow> xs = []"
  by (cases xs) (auto simp: idx_enum_start_def)

lemma idx_enum_start_0: "idx_enum_start 0 xs = (case xs of [] \<Rightarrow> None | p # _ \<Rightarrow> Some p)"
  by (cases xs) (auto simp: idx_enum_start_def)

lemma idx_unlink_head: "idx_sorted ((k, a) # xs) \<Longrightarrow> idx_unlink k ((k, a) # xs) = xs"
  by (fastforce simp: idx_unlink_def intro: filter_True)

section \<open>The interface\<close>

text \<open>What an implementation promises: \<open>ok s xs\<close> says that the store \<open>s\<close> holds the nodes of \<open>xs\<close>, each a key with
  the address of its node; \<open>key s a\<close> is the key of an allocated node.\<close>

locale ordered_index =
  fixes ok :: "'s \<Rightarrow> nat index \<Rightarrow> bool"
    and key :: "'s \<Rightarrow> nat \<Rightarrow> u64 option"
    and insert_node :: "'s \<Rightarrow> nat \<Rightarrow> 's option"
    and unlink_node :: "'s \<Rightarrow> nat \<Rightarrow> 's option"
    and search :: "'s \<Rightarrow> u64 \<Rightarrow> nat option option"
    and enum_start :: "'s \<Rightarrow> u64 \<Rightarrow> nat option option"
    and enum_next :: "'s \<Rightarrow> nat \<Rightarrow> nat option option"
  assumes ok_sorted: "ok s xs \<Longrightarrow> idx_sorted xs"
    and insert_law: "ok s xs \<Longrightarrow> key s a = Some k \<Longrightarrow> a \<notin> snd ` set xs \<Longrightarrow>
      \<exists>s'. insert_node s a = Some s' \<and> ok s' (idx_insert k a xs)"
    and unlink_law: "ok s xs \<Longrightarrow> (k, a) \<in> set xs \<Longrightarrow> \<exists>s'. unlink_node s a = Some s' \<and> ok s' (idx_unlink k xs)"
    and search_law: "ok s xs \<Longrightarrow> search s k = Some (idx_search k xs)"
    and enum_start_law: "ok s xs \<Longrightarrow> enum_start s k = Some (map_option snd (idx_enum_start k xs))"
    and enum_next_law: "ok s (ys @ (k, a) # zs) \<Longrightarrow> enum_next s a = Some (case zs of [] \<Rightarrow> None | z # _ \<Rightarrow> Some (snd z))"
begin

text \<open>An enumeration: \<open>n\<close> nodes from \<open>p\<close> on.\<close>

primrec visit :: "'s \<Rightarrow> nat \<Rightarrow> nat option \<Rightarrow> (nat list \<times> nat option) option" where
  "visit s 0 p = Some ([], p)"
| "visit s (Suc n) p =
     (case p of
        None \<Rightarrow> Some ([], None)
      | Some a \<Rightarrow> do { q \<leftarrow> enum_next s a; (as, r) \<leftarrow> visit s n q; Some (a # as, r) })"

lemma visit_all:
  "ok s (ys @ zs) \<Longrightarrow> visit s (length zs) (case zs of [] \<Rightarrow> None | z # _ \<Rightarrow> Some (snd z)) = Some (map snd zs, None)"
proof (induction zs arbitrary: ys)
  case (Cons z zs)
  obtain k a where z: "z = (k, a)" by fastforce
  have "enum_next s a = Some (case zs of [] \<Rightarrow> None | z # _ \<Rightarrow> Some (snd z))" using enum_next_law Cons.prems z by simp
  then show ?case using Cons.IH[of "ys @ [z]"] Cons.prems z by simp
qed simp

lemma enumerate_all:
  assumes "ok s xs"
  shows "\<exists>p. enum_start s 0 = Some p \<and> visit s (length xs) p = Some (map snd xs, None)"
proof -
  have "map_option snd (idx_enum_start 0 xs) = (case xs of [] \<Rightarrow> None | z # _ \<Rightarrow> Some (snd z))"
    by (simp add: idx_enum_start_0 split: list.splits)
  then show ?thesis using enum_start_law[OF assms, of 0] visit_all[of s "[]" xs] assms by simp
qed

text \<open>The way the allocators empty an index: unlink the first node until there is none.\<close>

primrec drain :: "nat \<Rightarrow> 's \<Rightarrow> (nat list \<times> 's) option" where
  "drain 0 s = Some ([], s)"
| "drain (Suc n) s =
     do {
       p \<leftarrow> enum_start s 0;
       (case p of
          None \<Rightarrow> Some ([], s)
        | Some a \<Rightarrow> do { s \<leftarrow> unlink_node s a; (as, s) \<leftarrow> drain n s; Some (a # as, s) }) }"

lemma drain_all: "ok s xs \<Longrightarrow> \<exists>s'. drain (length xs) s = Some (map snd xs, s') \<and> ok s' []"
proof (induction xs arbitrary: s)
  case (Cons x xs)
  obtain k a where x: "x = (k, a)" by fastforce
  obtain s' where s': "unlink_node s a = Some s'" "ok s' (idx_unlink k (x # xs))" using unlink_law[OF Cons.prems, of k a] x by auto
  have "idx_unlink k (x # xs) = xs" using idx_unlink_head[of k a xs] ok_sorted[OF Cons.prems] x by simp
  then obtain s'' where "drain (length xs) s' = Some (map snd xs, s'')" "ok s'' []" using Cons.IH s'(2) by auto
  then show ?case using s'(1) enum_start_law[OF Cons.prems, of 0] x by (simp add: idx_enum_start_0)
qed simp

end

end
