(* ===== verification/Allocator.thy ===== *)
theory Allocator
  imports Nvgpu_Prelude
begin

text \<open>
  The allocator interface of \<^verbatim>\<open>common/mm/allocators/nvgpu_allocator.c\<close> and
  \<^verbatim>\<open>include/nvgpu/allocator.h\<close>: the table of operations that each kind of allocator
  fills in, the entry points that dispatch through it, and the contract that the clients of
  the entry points (address spaces, semaphore pools, page tables) rely on, as the locale
  \<open>range_allocator\<close>.

  An entry of the table is an \<open>option\<close>: \<open>None\<close> is a NULL function pointer. Calling
  through a NULL pointer stops the machine.
\<close>

section \<open>The table of operations\<close>

record nvgpu_alloc_carveout =
  co_name :: string
  co_base :: u64
  co_length :: u64

record 's nvgpu_allocator_ops =
  op_alloc :: "('s \<Rightarrow> u64 \<Rightarrow> (u64 \<times> 's) option) option"
  op_alloc_pte :: "('s \<Rightarrow> u64 \<Rightarrow> u32 \<Rightarrow> (u64 \<times> 's) option) option"
  op_free_alloc :: "('s \<Rightarrow> u64 \<Rightarrow> 's option) option"
  op_alloc_fixed :: "('s \<Rightarrow> u64 \<Rightarrow> u64 \<Rightarrow> u32 \<Rightarrow> (u64 \<times> 's) option) option"
  op_free_fixed :: "('s \<Rightarrow> u64 \<Rightarrow> u64 \<Rightarrow> 's option) option"
  op_reserve_carveout :: "('s \<Rightarrow> nvgpu_alloc_carveout \<Rightarrow> (unit result \<times> 's) option) option"
  op_release_carveout :: "('s \<Rightarrow> nvgpu_alloc_carveout \<Rightarrow> 's option) option"
  op_base :: "('s \<Rightarrow> u64 option) option"
  op_length :: "('s \<Rightarrow> u64 option) option"
  op_end :: "('s \<Rightarrow> u64 option) option"
  op_inited :: "('s \<Rightarrow> bool) option"
  op_space :: "('s \<Rightarrow> u64 option) option"
  op_fini :: "('s \<Rightarrow> 's) option"

record 's nvgpu_allocator =
  na_ops :: "'s nvgpu_allocator_ops option"
  na_priv :: 's
  na_name :: string
  na_debug :: bool

text \<open>\<open>a->ops->f(a, ...)\<close> for an operation that has no guard: the table and the
  entry are dereferenced.\<close>

definition call_op :: "('s nvgpu_allocator_ops \<Rightarrow> 'f option) \<Rightarrow> 's nvgpu_allocator \<Rightarrow> 'f option" where
  "call_op f a = do { ops \<leftarrow> na_ops a; f ops }"

section \<open>Entry points\<close>

definition nvgpu_alloc_length :: "'s nvgpu_allocator \<Rightarrow> u64 option" where
  "nvgpu_alloc_length a =
     do { ops \<leftarrow> na_ops a; (case op_length ops of Some f \<Rightarrow> f (na_priv a) | None \<Rightarrow> Some 0) }"

definition nvgpu_alloc_base :: "'s nvgpu_allocator \<Rightarrow> u64 option" where
  "nvgpu_alloc_base a =
     do { ops \<leftarrow> na_ops a; (case op_base ops of Some f \<Rightarrow> f (na_priv a) | None \<Rightarrow> Some 0) }"

definition nvgpu_alloc_initialized :: "'s nvgpu_allocator \<Rightarrow> bool" where
  "nvgpu_alloc_initialized a =
     (case na_ops a of
        None \<Rightarrow> False
      | Some ops \<Rightarrow> (case op_inited ops of None \<Rightarrow> False | Some f \<Rightarrow> f (na_priv a)))"

definition nvgpu_alloc_end :: "'s nvgpu_allocator \<Rightarrow> u64 option" where
  "nvgpu_alloc_end a =
     do { ops \<leftarrow> na_ops a; (case op_end ops of Some f \<Rightarrow> f (na_priv a) | None \<Rightarrow> Some 0) }"

definition nvgpu_alloc_space :: "'s nvgpu_allocator \<Rightarrow> u64 option" where
  "nvgpu_alloc_space a =
     do { ops \<leftarrow> na_ops a; (case op_space ops of Some f \<Rightarrow> f (na_priv a) | None \<Rightarrow> Some 0) }"

definition nvgpu_alloc :: "'s nvgpu_allocator \<Rightarrow> u64 \<Rightarrow> (u64 \<times> 's nvgpu_allocator) option" where
  "nvgpu_alloc a len =
     do { f \<leftarrow> call_op op_alloc a; (r, s) \<leftarrow> f (na_priv a) len; Some (r, a\<lparr>na_priv := s\<rparr>) }"

definition nvgpu_alloc_pte ::
    "'s nvgpu_allocator \<Rightarrow> u64 \<Rightarrow> u32 \<Rightarrow> (u64 \<times> 's nvgpu_allocator) option" where
  "nvgpu_alloc_pte a len page_size =
     do { f \<leftarrow> call_op op_alloc_pte a; (r, s) \<leftarrow> f (na_priv a) len page_size;
          Some (r, a\<lparr>na_priv := s\<rparr>) }"

definition nvgpu_free :: "'s nvgpu_allocator \<Rightarrow> u64 \<Rightarrow> 's nvgpu_allocator option" where
  "nvgpu_free a addr =
     do { f \<leftarrow> call_op op_free_alloc a; s \<leftarrow> f (na_priv a) addr; Some (a\<lparr>na_priv := s\<rparr>) }"

definition nvgpu_alloc_fixed ::
    "'s nvgpu_allocator \<Rightarrow> u64 \<Rightarrow> u64 \<Rightarrow> u32 \<Rightarrow> (u64 \<times> 's nvgpu_allocator) option" where
  "nvgpu_alloc_fixed a base len page_size =
     (if U64_MAX - base < len then Some (0, a)
      else do {
        ops \<leftarrow> na_ops a;
        (case op_alloc_fixed ops of
           Some f \<Rightarrow> do { (r, s) \<leftarrow> f (na_priv a) base len page_size; Some (r, a\<lparr>na_priv := s\<rparr>) }
         | None \<Rightarrow> Some (0, a)) })"

definition nvgpu_free_fixed :: "'s nvgpu_allocator \<Rightarrow> u64 \<Rightarrow> u64 \<Rightarrow> 's nvgpu_allocator option" where
  "nvgpu_free_fixed a base len =
     do {
       ops \<leftarrow> na_ops a;
       (case op_free_fixed ops of
          Some f \<Rightarrow> do { s \<leftarrow> f (na_priv a) base len; Some (a\<lparr>na_priv := s\<rparr>) }
        | None \<Rightarrow> Some a) }"

definition nvgpu_alloc_reserve_carveout ::
    "'s nvgpu_allocator \<Rightarrow> nvgpu_alloc_carveout \<Rightarrow> (unit result \<times> 's nvgpu_allocator) option" where
  "nvgpu_alloc_reserve_carveout a co =
     do {
       ops \<leftarrow> na_ops a;
       (case op_reserve_carveout ops of
          Some f \<Rightarrow> do { (r, s) \<leftarrow> f (na_priv a) co; Some (r, a\<lparr>na_priv := s\<rparr>) }
        | None \<Rightarrow> Some (Inl ENODEV, a)) }"

definition nvgpu_alloc_release_carveout ::
    "'s nvgpu_allocator \<Rightarrow> nvgpu_alloc_carveout \<Rightarrow> 's nvgpu_allocator option" where
  "nvgpu_alloc_release_carveout a co =
     do {
       ops \<leftarrow> na_ops a;
       (case op_release_carveout ops of
          Some f \<Rightarrow> do { s \<leftarrow> f (na_priv a) co; Some (a\<lparr>na_priv := s\<rparr>) }
        | None \<Rightarrow> Some a) }"

text \<open>After \<open>fini\<close> the structure is zeroed; the private state, which \<open>fini\<close> has
  freed, stays in the record only as a value nobody can reach through the NULL table.\<close>

definition nvgpu_alloc_destroy :: "'s nvgpu_allocator \<Rightarrow> 's nvgpu_allocator option" where
  "nvgpu_alloc_destroy a =
     do { f \<leftarrow> call_op op_fini a;
          Some \<lparr>na_ops = None, na_priv = f (na_priv a), na_name = [], na_debug = False\<rparr> }"

text \<open>The name field has room for 31 characters and the terminator
  (\<open>char name[32]\<close>).\<close>

definition nvgpu_alloc_common_init ::
    "string \<Rightarrow> 's \<Rightarrow> bool \<Rightarrow> 's nvgpu_allocator_ops option \<Rightarrow> 's nvgpu_allocator result" where
  "nvgpu_alloc_common_init name priv dbg ops =
     (case ops of
        None \<Rightarrow> Inl EINVAL
      | Some t \<Rightarrow>
          if op_alloc t = None \<or> op_free_alloc t = None \<or> op_fini t = None then Inl EINVAL
          else Inr \<lparr>na_ops = Some t, na_priv = priv, na_name = take 31 name, na_debug = dbg\<rparr>)"

section \<open>The contract\<close>

text \<open>
  What a client relies on. \<open>live s\<close> is the set of outstanding allocations as address and
  length; \<open>alloc e s len\<close> is a request under the outcomes \<open>e\<close> of the memory allocations
  it makes, \<open>fits s len\<close> says that \<open>len\<close> is a size the allocator can be asked for, and
  \<open>budget s k\<close> that the statistics counters have room for \<open>k\<close> more requests.
\<close>

datatype 'e alloc_op = Op_alloc 'e u64 | Op_free u64

locale range_allocator =
  fixes inv_s :: "'s \<Rightarrow> bool"
    and live :: "'s \<Rightarrow> (u64 \<times> u64) set"
    and limits :: "'s \<Rightarrow> u64 \<times> u64"
    and fits :: "'s \<Rightarrow> u64 \<Rightarrow> bool"
    and budget :: "'s \<Rightarrow> nat \<Rightarrow> bool"
    and alloc :: "'e \<Rightarrow> 's \<Rightarrow> u64 \<Rightarrow> (u64 \<times> 's) option"
    and free_s :: "'s \<Rightarrow> u64 \<Rightarrow> 's option"
  assumes live_bounds:
      "inv_s s \<Longrightarrow> (a, l) \<in> live s \<Longrightarrow> 0 < a \<and> 0 < l \<and> fst (limits s) \<le> a \<and> a + l \<le> snd (limits s)"
    and live_disjoint:
      "inv_s s \<Longrightarrow> (a, l) \<in> live s \<Longrightarrow> (a', l') \<in> live s \<Longrightarrow> (a, l) \<noteq> (a', l') \<Longrightarrow>
         ranges_disjoint a (a + l) a' (a' + l')"
    and alloc_law:
      "inv_s s \<Longrightarrow> fits s len \<Longrightarrow> budget s (Suc k) \<Longrightarrow>
         \<exists>a s'. alloc e s len = Some (a, s') \<and> inv_s s' \<and> limits s' = limits s \<and>
           (\<forall>n. fits s' n = fits s n) \<and> budget s' k \<and>
           (if a = 0 then live s' = live s
            else \<exists>l\<ge>len. (a, l) \<notin> live s \<and> live s' = insert (a, l) (live s))"
    and free_law:
      "inv_s s \<Longrightarrow> budget s (Suc k) \<Longrightarrow>
         \<exists>s'. free_s s addr = Some s' \<and> inv_s s' \<and> limits s' = limits s \<and>
           (\<forall>n. fits s' n = fits s n) \<and> budget s' k \<and>
           live s' = {p \<in> live s. fst p \<noteq> addr}"
begin

text \<open>A sequence of requests, with the address each allocation returned.\<close>

fun run_ops :: "'e alloc_op list \<Rightarrow> 's \<Rightarrow> (u64 list \<times> 's) option" where
  "run_ops [] s = Some ([], s)"
| "run_ops (Op_alloc e len # ops) s =
     do { (a, s) \<leftarrow> alloc e s len; (rs, s) \<leftarrow> run_ops ops s; Some (a # rs, s) }"
| "run_ops (Op_free addr # ops) s = do { s \<leftarrow> free_s s addr; run_ops ops s }"

fun sizes_fit :: "'s \<Rightarrow> 'e alloc_op list \<Rightarrow> bool" where
  "sizes_fit s [] = True"
| "sizes_fit s (Op_alloc e len # ops) \<longleftrightarrow> fits s len \<and> sizes_fit s ops"
| "sizes_fit s (Op_free addr # ops) \<longleftrightarrow> sizes_fit s ops"

lemma sizes_fit_cong: "(\<And>n. fits s' n = fits s n) \<Longrightarrow> sizes_fit s' ops = sizes_fit s ops"
  by (induction s ops rule: sizes_fit.induct) auto

text \<open>Every sequence of requests runs to its end and keeps the invariant, and an allocation
  that it does not free stays where it is.\<close>

lemma run_ops_total:
  assumes "inv_s s" "budget s (length ops + k)" "sizes_fit s ops"
  shows "\<exists>rs s'. run_ops ops s = Some (rs, s') \<and> inv_s s' \<and> limits s' = limits s \<and>
    (\<forall>n. fits s' n = fits s n) \<and> budget s' k \<and>
    (\<forall>(a, l) \<in> live s. Op_free a \<notin> set ops \<longrightarrow> (a, l) \<in> live s')"
  using assms
proof (induction ops arbitrary: s)
  case Nil
  then show ?case by auto
next
  case (Cons op ops)
  have step: "\<exists>rs s2. run_ops ops s' = Some (rs, s2) \<and> inv_s s2 \<and> limits s2 = limits s \<and>
      (\<forall>n. fits s2 n = fits s n) \<and> budget s2 k \<and>
      (\<forall>(a, l) \<in> live s'. Op_free a \<notin> set ops \<longrightarrow> (a, l) \<in> live s2)"
    if "inv_s s'" "limits s' = limits s" "\<forall>n. fits s' n = fits s n" "budget s' (length ops + k)" for s'
    using Cons.IH[OF that(1,4)] Cons.prems(3) that sizes_fit_cong[of s' s ops] by (cases op) auto
  show ?case
  proof (cases op)
    case (Op_alloc e len)
    obtain a s' where a: "alloc e s len = Some (a, s')" "inv_s s'" "limits s' = limits s"
      "\<forall>n. fits s' n = fits s n" "budget s' (length ops + k)" "live s \<subseteq> live s'"
      using alloc_law[OF Cons.prems(1), of len "length ops + k" e] Cons.prems Op_alloc
      by (auto split: if_splits)
    then show ?thesis using step[OF a(2-5)] Op_alloc by fastforce
  next
    case (Op_free addr)
    obtain s' where f: "free_s s addr = Some s'" "inv_s s'" "limits s' = limits s"
      "\<forall>n. fits s' n = fits s n" "budget s' (length ops + k)" "live s' = {p \<in> live s. fst p \<noteq> addr}"
      using free_law[OF Cons.prems(1), of "length ops + k" addr] Cons.prems by auto
    then show ?thesis using step[OF f(2-5)] Op_free by fastforce
  qed
qed

text \<open>What a client gets: between an allocation and its release nobody else is given any
  address of it.\<close>

lemma alloc_exclusive:
  assumes "inv_s s" "fits s len" "budget s (Suc (length ops + 1))" "sizes_fit s ops" "fits s len2"
    and "alloc e s len = Some (a, s1)" "a \<noteq> 0" "Op_free a \<notin> set ops"
  shows "\<exists>l rs s2 b s3. len \<le> l \<and> run_ops ops s1 = Some (rs, s2) \<and> (a, l) \<in> live s2 \<and>
    alloc e2 s2 len2 = Some (b, s3) \<and>
    (b \<noteq> 0 \<longrightarrow> (\<exists>l2\<ge>len2. (b, l2) \<in> live s3 \<and> ranges_disjoint a (a + l) b (b + l2) \<and>
       fst (limits s) \<le> b \<and> b + l2 \<le> snd (limits s)))"
proof -
  obtain l where l: "len \<le> l" "(a, l) \<in> live s1" "inv_s s1" "limits s1 = limits s"
    "\<forall>n. fits s1 n = fits s n" "budget s1 (length ops + 1)"
    using alloc_law[OF assms(1,2,3), of e] assms(6,7) by auto
  obtain rs s2 where r: "run_ops ops s1 = Some (rs, s2)" "inv_s s2" "limits s2 = limits s"
    "\<forall>n. fits s2 n = fits s n" "budget s2 1" "(a, l) \<in> live s2"
    using run_ops_total[OF l(3,6)] sizes_fit_cong[of s1 s ops] assms(4,8) l by auto
  obtain b s3 where b: "alloc e2 s2 len2 = Some (b, s3)" "inv_s s3" "limits s3 = limits s"
    "if b = 0 then live s3 = live s2
     else \<exists>l\<ge>len2. (b, l) \<notin> live s2 \<and> live s3 = insert (b, l) (live s2)"
    using alloc_law[OF r(2), of len2 0 e2] r assms(5) by auto
  have "\<exists>l2\<ge>len2. (b, l2) \<in> live s3 \<and> ranges_disjoint a (a + l) b (b + l2) \<and>
       fst (limits s) \<le> b \<and> b + l2 \<le> snd (limits s)" if nz: "b \<noteq> 0"
  proof -
    obtain l2 where l2: "len2 \<le> l2" "(b, l2) \<notin> live s2" "live s3 = insert (b, l2) (live s2)"
      using b(4) nz by auto
    then have "(b, l2) \<in> live s3" "(a, l) \<in> live s3" "(a, l) \<noteq> (b, l2)" using r(6) by auto
    then show ?thesis using l2(1) live_bounds[OF b(2), of b l2] live_disjoint[OF b(2), of a l b l2] b(3)
      by auto
  qed
  then show ?thesis using l(1) r b(1) by blast
qed

end

end
