(* ===== verification/Bitmap_Allocator.thy ===== *)
theory Bitmap_Allocator
  imports Bitops Interval_Index Allocator
begin

text \<open>
  The bitmap allocator of \<^verbatim>\<open>common/mm/allocators/bitmap_allocator.c\<close>: a range of
  addresses cut into blocks of a power-of-two size, one bit for each block, and a tree of the
  outstanding allocations when meta-data may be allocated. Every operation runs under the
  allocator's lock and is one step here.

  The invariant \<open>bitmap_inv F a\<close> carries the set \<open>F\<close> of outstanding fixed
  allocations (block offset and number of blocks), which the allocator itself does not
  record: its clients must present them to \<open>free_fixed\<close> again.
\<close>

section \<open>State\<close>

abbreviation (input) GPU_ALLOC_NO_ALLOC_PAGE :: nat where "GPU_ALLOC_NO_ALLOC_PAGE \<equiv> 1"

record nvgpu_bitmap_alloc =
  bal_base :: u64
  bal_length :: u64

record nvgpu_bitmap_allocator =
  ba_base :: u64
  ba_length :: u64
  ba_blk_size :: u64
  ba_blk_shift :: u64
  ba_num_bits :: u64
  ba_bit_offs :: u64
  ba_next_blk :: u64
  ba_bitmap :: "ulong list"
  ba_allocs :: "nvgpu_bitmap_alloc index"
  ba_meta_data_cache :: bool
  ba_flags :: u64
  ba_inited :: bool
  ba_nr_allocs :: u64
  ba_nr_fixed_allocs :: u64
  ba_bytes_alloced :: u64
  ba_bytes_freed :: u64

section \<open>Operations\<close>

definition nvgpu_bitmap_alloc_length :: "nvgpu_bitmap_allocator \<Rightarrow> u64" where
  "nvgpu_bitmap_alloc_length ba = ba_length ba"

definition nvgpu_bitmap_alloc_base :: "nvgpu_bitmap_allocator \<Rightarrow> u64" where
  "nvgpu_bitmap_alloc_base ba = ba_base ba"

definition nvgpu_bitmap_alloc_inited :: "nvgpu_bitmap_allocator \<Rightarrow> bool" where
  "nvgpu_bitmap_alloc_inited ba = ba_inited ba"

definition nvgpu_bitmap_alloc_end :: "nvgpu_bitmap_allocator \<Rightarrow> u64 option" where
  "nvgpu_bitmap_alloc_end ba = nvgpu_safe_add_u64 (ba_base ba) (ba_length ba)"

text \<open>\<open>blks = len >> blk_shift; if (blks * blk_size != len) blks++\<close>, at 64 bits.\<close>

definition bitmap_blks64 :: "nvgpu_bitmap_allocator \<Rightarrow> u64 \<Rightarrow> u64 option" where
  "bitmap_blks64 a len =
     do { let blks = len div 2 ^ ba_blk_shift a;
          p \<leftarrow> nvgpu_safe_mult_u64 blks (ba_blk_size a);
          Some (if p \<noteq> len then wrap64 (blks + 1) else blks) }"

definition nvgpu_bitmap_balloc_fixed ::
    "nvgpu_bitmap_allocator \<Rightarrow> u64 \<Rightarrow> u64 \<Rightarrow> (u64 \<times> nvgpu_bitmap_allocator) option" where
  "nvgpu_bitmap_balloc_fixed a base len =
     do {
       let offs = base div 2 ^ ba_blk_shift a;
       p \<leftarrow> nvgpu_safe_mult_u64 offs (ba_blk_size a);
       if p \<noteq> base then Some (0, a)
       else do {
         offs \<leftarrow> nvgpu_safe_sub_u64 offs (ba_bit_offs a);
         blks \<leftarrow> bitmap_blks64 a len;
         nvgpu_assert (blks \<le> U32_MAX);
         ret \<leftarrow> bitmap_find_next_zero_area (ba_bitmap a) (ba_num_bits a) offs blks 0;
         if ret \<noteq> offs then Some (0, a)
         else do {
           nvgpu_assert (blks \<le> U32_MAX);
           m \<leftarrow> nvgpu_bitmap_set (ba_bitmap a) (wrap32 offs) blks;
           n \<leftarrow> nvgpu_safe_mult_u64 blks (ba_blk_size a);
           b \<leftarrow> nvgpu_safe_add_u64 (ba_bytes_alloced a) n;
           nvgpu_assert (ba_nr_fixed_allocs a < U64_MAX);
           Some (base, a\<lparr>ba_bitmap := m, ba_bytes_alloced := b,
                         ba_nr_fixed_allocs := ba_nr_fixed_allocs a + 1\<rparr>)
         }
       }
     }"

definition nvgpu_bitmap_free_fixed ::
    "nvgpu_bitmap_allocator \<Rightarrow> u64 \<Rightarrow> u64 \<Rightarrow> nvgpu_bitmap_allocator option" where
  "nvgpu_bitmap_free_fixed a base len =
     do {
       let offs = base div 2 ^ ba_blk_shift a;
       p \<leftarrow> nvgpu_safe_mult_u64 offs (ba_blk_size a);
       nvgpu_assert (p = base);
       offs \<leftarrow> nvgpu_safe_sub_u64 offs (ba_bit_offs a);
       blks \<leftarrow> bitmap_blks64 a len;
       nvgpu_assert (offs \<le> U32_MAX);
       nvgpu_assert (blks \<le> INT_MAX);
       m \<leftarrow> nvgpu_bitmap_clear (ba_bitmap a) offs blks;
       n \<leftarrow> nvgpu_safe_mult_u64 blks (ba_blk_size a);
       b \<leftarrow> nvgpu_safe_add_u64 (ba_bytes_freed a) n;
       Some (a\<lparr>ba_bitmap := m, ba_bytes_freed := b\<rparr>)
     }"

definition insert_alloc_metadata ::
    "nvgpu_bitmap_allocator \<Rightarrow> nvgpu_bitmap_alloc \<Rightarrow> nvgpu_bitmap_allocator option" where
  "insert_alloc_metadata a alloc =
     do { key_end \<leftarrow> nvgpu_safe_add_u64 (bal_base alloc) (bal_length alloc);
          Some (a\<lparr>ba_allocs := idx_insert (bal_base alloc) alloc (ba_allocs a)\<rparr>) }"

definition find_alloc_metadata ::
    "nvgpu_bitmap_allocator \<Rightarrow> u64 \<Rightarrow> nvgpu_bitmap_alloc option \<times> nvgpu_bitmap_allocator" where
  "find_alloc_metadata a addr =
     (case idx_search addr (ba_allocs a) of
        None \<Rightarrow> (None, a)
      | Some alloc \<Rightarrow> (Some alloc, a\<lparr>ba_allocs := idx_unlink addr (ba_allocs a)\<rparr>))"

text \<open>\<open>mem_ok\<close> says whether \<open>nvgpu_kmem_cache_alloc\<close> finds memory for the meta-data.\<close>

definition nvgpu_bitmap_store_alloc ::
    "bool \<Rightarrow> nvgpu_bitmap_allocator \<Rightarrow> u64 \<Rightarrow> u64 \<Rightarrow> (unit result \<times> nvgpu_bitmap_allocator) option" where
  "nvgpu_bitmap_store_alloc mem_ok a addr len =
     (if \<not> mem_ok then Some (Inl ENOMEM, a)
      else do {
        a' \<leftarrow> insert_alloc_metadata a \<lparr>bal_base = addr, bal_length = len\<rparr>;
        Some (Inr (), a') })"

text \<open>The search of \<open>nvgpu_bitmap_balloc\<close>: from \<open>next_blk\<close> onwards, then what lies before
  it, up to the first block in use after \<open>next_blk\<close>. \<open>Some None\<close> is its \<open>goto fail\<close>.\<close>

definition bitmap_balloc_search :: "nvgpu_bitmap_allocator \<Rightarrow> u32 \<Rightarrow> u64 option option" where
  "bitmap_balloc_search a blks =
     do {
       offs \<leftarrow> bitmap_find_next_zero_area (ba_bitmap a) (ba_num_bits a) (ba_next_blk a) blks 0;
       if offs \<ge> ba_num_bits a then do {
         limit \<leftarrow> find_next_bit (ba_bitmap a) (ba_num_bits a) (ba_next_blk a);
         offs \<leftarrow> bitmap_find_next_zero_area (ba_bitmap a) limit 0 blks 0;
         Some (if offs \<ge> ba_next_blk a then None else Some offs) }
       else Some (Some offs)
     }"

definition nvgpu_bitmap_balloc ::
    "bool \<Rightarrow> nvgpu_bitmap_allocator \<Rightarrow> u64 \<Rightarrow> (u64 \<times> nvgpu_bitmap_allocator) option" where
  "nvgpu_bitmap_balloc mem_ok a len =
     (if len = 0 then Some (0, a)
      else do {
        let tmp_u64 = len div 2 ^ ba_blk_shift a;
        nvgpu_assert (tmp_u64 \<le> U32_MAX);
        p \<leftarrow> nvgpu_safe_mult_u64 tmp_u64 (ba_blk_size a);
        let blks = (if p \<noteq> len then wrap32 (tmp_u64 + 1) else tmp_u64);
        found \<leftarrow> bitmap_balloc_search a blks;
        (case found of
           None \<Rightarrow> Some (0, a\<lparr>ba_next_blk := 0\<rparr>)
         | Some offs \<Rightarrow> do {
             nvgpu_assert (offs \<le> U32_MAX);
             m \<leftarrow> nvgpu_bitmap_set (ba_bitmap a) offs blks;
             let a1 = a\<lparr>ba_bitmap := m, ba_next_blk := wrap64 (offs + blks)\<rparr>;
             adjusted_offs \<leftarrow> nvgpu_safe_add_u64 offs (ba_bit_offs a);
             addr \<leftarrow> nvgpu_safe_mult_u64 adjusted_offs (ba_blk_size a);
             (err, a2) \<leftarrow>
               (if \<not> bit (ba_flags a) GPU_ALLOC_NO_ALLOC_PAGE
                then nvgpu_bitmap_store_alloc mem_ok a1 addr (wrap64 (blks * ba_blk_size a))
                else Some (Inr (), a1));
             (case err of
                Inl _ \<Rightarrow> do {
                  nvgpu_assert (blks \<le> INT_MAX);
                  nvgpu_assert (offs \<le> U32_MAX);
                  m \<leftarrow> nvgpu_bitmap_clear (ba_bitmap a2) offs blks;
                  Some (0, a2\<lparr>ba_bitmap := m, ba_next_blk := 0\<rparr>) }
              | Inr _ \<Rightarrow> do {
                  nvgpu_assert (ba_nr_allocs a2 < U64_MAX);
                  n \<leftarrow> nvgpu_safe_mult_u64 blks (ba_blk_size a);
                  b \<leftarrow> nvgpu_safe_add_u64 (ba_bytes_alloced a2) n;
                  Some (addr, a2\<lparr>ba_nr_allocs := ba_nr_allocs a2 + 1, ba_bytes_alloced := b\<rparr>) })
           })
      })"

definition nvgpu_bitmap_free ::
    "nvgpu_bitmap_allocator \<Rightarrow> u64 \<Rightarrow> nvgpu_bitmap_allocator option" where
  "nvgpu_bitmap_free a addr =
     (if bit (ba_flags a) GPU_ALLOC_NO_ALLOC_PAGE then Some a
      else (case find_alloc_metadata a addr of
         (None, a1) \<Rightarrow> Some a1
       | (Some alloc, a1) \<Rightarrow> do {
           let adjusted_offs = addr div 2 ^ ba_blk_shift a;
           let offs = wsub64 adjusted_offs (ba_bit_offs a);
           let blks = bal_length alloc div 2 ^ ba_blk_shift a;
           nvgpu_assert (blks \<le> INT_MAX);
           nvgpu_assert (offs \<le> U32_MAX);
           m \<leftarrow> nvgpu_bitmap_clear (ba_bitmap a1) offs blks;
           b \<leftarrow> nvgpu_safe_add_u64 (ba_bytes_freed a1) (bal_length alloc);
           Some (a1\<lparr>ba_bitmap := m, ba_bytes_freed := b\<rparr>) }))"

text \<open>The loop of \<open>nvgpu_bitmap_alloc_destroy\<close> that kills outstanding allocations: it
  unlinks the first node until the tree is empty. The result is how many were freed.\<close>

function bitmap_kill_allocs :: "'a index \<Rightarrow> nat \<Rightarrow> nat \<times> 'a index" where
  "bitmap_kill_allocs allocs n =
     (case idx_enum_start 0 allocs of
        None \<Rightarrow> (n, allocs)
      | Some (k, _) \<Rightarrow> bitmap_kill_allocs (idx_unlink k allocs) (n + 1))"
  by pat_completeness auto
termination
proof (relation "measure (\<lambda>(xs, _). length xs)", simp)
  fix allocs :: "'a index" and n p k v
  assume "idx_enum_start 0 allocs = Some p" "(k, v) = p"
  then have "(k, v) \<in> set allocs" by (auto simp: idx_enum_start_def find_Some_iff)
  then show "((idx_unlink k allocs, n + 1), (allocs, n)) \<in> measure (\<lambda>(xs, _). length xs)"
    by (simp add: length_idx_unlink)
qed

definition nvgpu_bitmap_alloc_destroy :: "nvgpu_bitmap_allocator \<Rightarrow> nat \<times> nvgpu_bitmap_allocator" where
  "nvgpu_bitmap_alloc_destroy a =
     (let (n, allocs) = bitmap_kill_allocs (ba_allocs a) 0
      in (n, a\<lparr>ba_allocs := allocs, ba_bitmap := [], ba_meta_data_cache := False\<rparr>))"

definition nvgpu_bitmap_check_argument_limits :: "u64 \<Rightarrow> u64 \<Rightarrow> u64 \<Rightarrow> unit result option" where
  "nvgpu_bitmap_check_argument_limits base len blk_size =
     do {
       nvgpu_assert (blk_size > 0);
       let is_blk_size_pwr_2 = (blk_size AND (blk_size - 1) = 0);
       let is_base_aligned = (base AND (blk_size - 1) = 0);
       let is_length_aligned = (len AND (blk_size - 1) = 0);
       if \<not> is_blk_size_pwr_2 then do { nvgpu_assert False; Some (Inl EINVAL) }
       else if \<not> is_base_aligned \<or> \<not> is_length_aligned then Some (Inl EINVAL)
       else if len = 0 then Some (Inl EINVAL)
       else Some (Inr ())
     }"

text \<open>The memory allocations of \<open>nvgpu_bitmap_allocator_init\<close> in their order: the allocator
  structure, the meta-data cache and the bitmap. \<open>nvgpu_alloc_common_init\<close> cannot fail
  here: \<open>bitmap_ops\<close> has the three operations it asks for.\<close>

definition nvgpu_bitmap_allocator_init ::
    "bool \<Rightarrow> bool \<Rightarrow> bool \<Rightarrow> u64 \<Rightarrow> u64 \<Rightarrow> u64 \<Rightarrow> u64 \<Rightarrow> nvgpu_bitmap_allocator result option" where
  "nvgpu_bitmap_allocator_init kzalloc_ok cache_ok kcalloc_ok base len blk_size flags =
     do {
       err \<leftarrow> nvgpu_bitmap_check_argument_limits base len blk_size;
       (case err of Inl e \<Rightarrow> Some (Inl e) | Inr _ \<Rightarrow> do {
         (base, len) \<leftarrow> (if base = 0 then do { l \<leftarrow> nvgpu_safe_sub_u64 len blk_size; Some (blk_size, l) }
                         else Some (base, len));
         if \<not> kzalloc_ok then Some (Inl ENOMEM)
         else if \<not> bit flags GPU_ALLOC_NO_ALLOC_PAGE \<and> \<not> cache_ok then Some (Inl ENOMEM)
         else do {
           blk_shift \<leftarrow> nvgpu_safe_sub_u64 (nvgpu_ffs blk_size) 1;
           let num_bits = len div 2 ^ blk_shift;
           let bit_offs = base div 2 ^ blk_shift;
           longs \<leftarrow> BITS_TO_LONGS num_bits;
           if \<not> kcalloc_ok then Some (Inl ENOMEM)
           else Some (Inr \<lparr>ba_base = base, ba_length = len, ba_blk_size = blk_size,
                           ba_blk_shift = blk_shift, ba_num_bits = num_bits, ba_bit_offs = bit_offs,
                           ba_next_blk = 0, ba_bitmap = replicate longs 0, ba_allocs = [],
                           ba_meta_data_cache = (\<not> bit flags GPU_ALLOC_NO_ALLOC_PAGE),
                           ba_flags = flags, ba_inited = True, ba_nr_allocs = 0,
                           ba_nr_fixed_allocs = 0, ba_bytes_alloced = 0, ba_bytes_freed = 0\<rparr>)
         } })
     }"

section \<open>Blocks in use\<close>

text \<open>A set of regions (offset and number of blocks) describes a bitmap when the regions are
  not empty, lie inside it, do not overlap, and the set bits are the blocks they cover.\<close>

definition covered :: "(nat \<times> nat) set \<Rightarrow> nat \<Rightarrow> bool" where
  "covered S i \<longleftrightarrow> (\<exists>(o', n) \<in> S. o' \<le> i \<and> i < o' + n)"

definition blocks_inv :: "ulong list \<Rightarrow> nat \<Rightarrow> (nat \<times> nat) set \<Rightarrow> bool" where
  "blocks_inv m num S \<longleftrightarrow>
     (\<forall>(o', n) \<in> S. 0 < n \<and> o' + n \<le> num) \<and>
     (\<forall>(o1, n1) \<in> S. \<forall>(o2, n2) \<in> S. (o1, n1) \<noteq> (o2, n2) \<longrightarrow>
        ranges_disjoint o1 (o1 + n1) o2 (o2 + n2)) \<and>
     (\<forall>i<num. tb m i \<longleftrightarrow> covered S i)"

definition used_blocks :: "ulong list \<Rightarrow> nat \<Rightarrow> nat" where
  "used_blocks m num = card {i. i < num \<and> tb m i}"

lemma blocks_inv_disjoint:
  assumes "blocks_inv m num S" "(o1, n1) \<in> S" "(o2, n2) \<in> S" "(o1, n1) \<noteq> (o2, n2)"
  shows "ranges_disjoint o1 (o1 + n1) o2 (o2 + n2)"
  using assms unfolding blocks_inv_def by fast

lemma blocks_inv_bounds:
  assumes "blocks_inv m num S" "(o', n) \<in> S"
  shows "0 < n" "o' + n \<le> num" "o' \<le> i \<Longrightarrow> i < o' + n \<Longrightarrow> tb m i"
proof -
  show "0 < n" "o' + n \<le> num" using assms unfolding blocks_inv_def by fast+
  assume i: "o' \<le> i" "i < o' + n"
  then have "covered S i" using assms(2) unfolding covered_def by blast
  moreover have "i < num" using i \<open>o' + n \<le> num\<close> by simp
  ultimately show "tb m i" using assms(1) unfolding blocks_inv_def by simp
qed

lemma covered_insert: "covered (insert (o', n) S) i \<longleftrightarrow> (o' \<le> i \<and> i < o' + n) \<or> covered S i"
  by (auto simp: covered_def)

lemma blocks_inv_add:
  assumes inv: "blocks_inv m num S" and fr: "free_area m o' n" and b: "o' + n \<le> num" "0 < n"
    and m': "\<And>i. tb m' i = (o' \<le> i \<and> i < o' + n \<or> tb m i)"
  shows "blocks_inv m' num (insert (o', n) S)" "(o', n) \<notin> S"
proof -
  have disj: "ranges_disjoint o' (o' + n) o2 (o2 + n2)" if "(o2, n2) \<in> S" for o2 n2
  proof (rule ccontr)
    assume "\<not> ?thesis"
    then have "max o' o2 < o' + n" "max o' o2 < o2 + n2" using blocks_inv_bounds(1)[OF inv that] b
      by (auto simp: ranges_disjoint_def)
    moreover from this have "tb m (max o' o2)" using blocks_inv_bounds(3)[OF inv that] by simp
    ultimately show False using fr by (auto simp: free_area_def)
  qed
  then show "blocks_inv m' num (insert (o', n) S)"
    using inv b unfolding blocks_inv_def by (auto simp: m' covered_insert ranges_disjoint_sym)
  show "(o', n) \<notin> S" using disj[of o' n] b by (auto simp: ranges_disjoint_def)
qed

lemma blocks_inv_remove:
  assumes inv: "blocks_inv m num S" and r: "(o', n) \<in> S"
    and m': "\<And>i. tb m' i = (\<not> (o' \<le> i \<and> i < o' + n) \<and> tb m i)"
  shows "blocks_inv m' num (S - {(o', n)})"
proof -
  have "covered (S - {(o', n)}) i \<longleftrightarrow> \<not> (o' \<le> i \<and> i < o' + n) \<and> covered S i" for i
  proof
    assume "covered (S - {(o', n)}) i"
    then obtain o2 n2 where x: "(o2, n2) \<in> S" "(o2, n2) \<noteq> (o', n)" "o2 \<le> i" "i < o2 + n2"
      by (auto simp: covered_def)
    then have "ranges_disjoint o2 (o2 + n2) o' (o' + n)" using blocks_inv_disjoint[OF inv _ r] by simp
    then show "\<not> (o' \<le> i \<and> i < o' + n) \<and> covered S i"
      using x unfolding covered_def ranges_disjoint_def by fastforce
  next
    assume "\<not> (o' \<le> i \<and> i < o' + n) \<and> covered S i"
    then show "covered (S - {(o', n)}) i" by (auto simp: covered_def)
  qed
  then show ?thesis using inv unfolding blocks_inv_def by (auto simp: m')
qed

lemma used_blocks_set:
  assumes "free_area m o' n" "o' + n \<le> num" "\<And>i. tb m' i = (o' \<le> i \<and> i < o' + n \<or> tb m i)"
  shows "used_blocks m' num = used_blocks m num + n"
proof -
  have "{i. i < num \<and> tb m' i} = {i. i < num \<and> tb m i} \<union> {o'..<o' + n}"
    using assms(2) by (auto simp: assms(3))
  moreover have "{i. i < num \<and> tb m i} \<inter> {o'..<o' + n} = {}"
    using assms(1) by (auto simp: free_area_def)
  ultimately show ?thesis by (simp add: used_blocks_def card_Un_disjoint)
qed

lemma used_blocks_clear:
  assumes "\<And>i. o' \<le> i \<Longrightarrow> i < o' + n \<Longrightarrow> tb m i" "o' + n \<le> num"
    "\<And>i. tb m' i = (\<not> (o' \<le> i \<and> i < o' + n) \<and> tb m i)"
  shows "used_blocks m num = used_blocks m' num + n"
proof (rule used_blocks_set)
  show "free_area m' o' n" by (auto simp: free_area_def assms(3))
  show "tb m i = (o' \<le> i \<and> i < o' + n \<or> tb m' i)" for i using assms(1)[of i] assms(3)[of i] by blast
qed (rule assms(2))

lemma used_blocks_le: "used_blocks m num \<le> num"
proof -
  have "card {i. i < num \<and> tb m i} \<le> card {..<num}" by (rule card_mono) auto
  then show ?thesis by (simp add: used_blocks_def)
qed

section \<open>The invariant\<close>

definition bitmap_cfg :: "nvgpu_bitmap_allocator \<Rightarrow> u64 list" where
  "bitmap_cfg a = [ba_base a, ba_length a, ba_blk_size a, ba_blk_shift a, ba_num_bits a,
                   ba_bit_offs a, ba_flags a]"

definition bitmap_wf :: "nvgpu_bitmap_allocator \<Rightarrow> bool" where
  "bitmap_wf a \<longleftrightarrow>
     ba_blk_shift a < 64 \<and> ba_blk_size a = 2 ^ ba_blk_shift a \<and>
     ba_base a = ba_bit_offs a * ba_blk_size a \<and> 0 < ba_bit_offs a \<and>
     ba_length a = ba_num_bits a * ba_blk_size a \<and> ba_base a + ba_length a \<le> U64_MAX \<and>
     ba_num_bits a \<le> INT_MAX \<and> ba_num_bits a \<le> 64 * length (ba_bitmap a) \<and>
     ba_next_blk a \<le> ba_num_bits a"

definition region_of :: "nvgpu_bitmap_allocator \<Rightarrow> u64 \<Rightarrow> nvgpu_bitmap_alloc \<Rightarrow> nat \<times> nat" where
  "region_of a k al = (k div ba_blk_size a - ba_bit_offs a, bal_length al div ba_blk_size a)"

definition regions :: "nvgpu_bitmap_allocator \<Rightarrow> (nat \<times> nat) set" where
  "regions a = (\<lambda>(k, al). region_of a k al) ` set (ba_allocs a)"

definition alloc_wf :: "nvgpu_bitmap_allocator \<Rightarrow> u64 \<Rightarrow> nvgpu_bitmap_alloc \<Rightarrow> bool" where
  "alloc_wf a k al \<longleftrightarrow> bal_base al = k \<and>
     k = (fst (region_of a k al) + ba_bit_offs a) * ba_blk_size a \<and>
     bal_length al = snd (region_of a k al) * ba_blk_size a"

definition bitmap_inv :: "(nat \<times> nat) set \<Rightarrow> nvgpu_bitmap_allocator \<Rightarrow> bool" where
  "bitmap_inv F a \<longleftrightarrow>
     bitmap_wf a \<and> idx_sorted (ba_allocs a) \<and> (\<forall>(k, al) \<in> set (ba_allocs a). alloc_wf a k al) \<and>
     regions a \<inter> F = {} \<and> blocks_inv (ba_bitmap a) (ba_num_bits a) (regions a \<union> F) \<and>
     ba_bytes_alloced a = ba_bytes_freed a + ba_blk_size a * used_blocks (ba_bitmap a) (ba_num_bits a) \<and>
     ba_bytes_alloced a \<le> U64_MAX"

text \<open>How many blocks a request for \<open>len\<close> bytes takes.\<close>

definition blks_for :: "nvgpu_bitmap_allocator \<Rightarrow> u64 \<Rightarrow> nat" where
  "blks_for a len =
     (if len mod ba_blk_size a = 0 then len div ba_blk_size a else len div ba_blk_size a + 1)"

lemma bitmap_wf_facts:
  assumes "bitmap_wf a"
  shows "0 < ba_blk_size a" "ba_blk_size a \<le> U64_MAX" "ba_num_bits a \<le> U32_MAX"
    "k \<le> U32_MAX \<Longrightarrow> ba_num_bits a + k < U64_MAX"
proof -
  show "0 < ba_blk_size a" using assms by (simp add: bitmap_wf_def)
  have "ba_blk_size a \<le> ba_base a" using assms by (simp add: bitmap_wf_def)
  then show "ba_blk_size a \<le> U64_MAX" using assms unfolding bitmap_wf_def by linarith
  show "ba_num_bits a \<le> U32_MAX" "k \<le> U32_MAX \<Longrightarrow> ba_num_bits a + k < U64_MAX"
    using assms by (auto simp: bitmap_wf_def)
qed

lemma blks_for_eq:
  assumes "bitmap_wf a"
  shows "len div 2 ^ ba_blk_shift a * ba_blk_size a = len \<longleftrightarrow> len mod ba_blk_size a = 0"
  using assms by (metis bitmap_wf_def dvd_div_mult_self dvd_eq_mod_eq_0 dvd_triv_right)

lemma safe_mult_down:
  assumes "x \<le> U64_MAX"
  shows "nvgpu_safe_mult_u64 (x div b) b = Some (x div b * b)"
  by (rule safe_mult_u64_eq) (use assms div_times_less_eq_dividend[of x b] in linarith)

lemma bitmap_balloc_search_correct:
  assumes "bitmap_wf a" "0 < blks" "blks \<le> U32_MAX"
  shows "\<exists>found. bitmap_balloc_search a blks = Some found \<and>
    (case found of
       None \<Rightarrow> \<forall>s. s + blks \<le> ba_num_bits a \<longrightarrow> \<not> free_area (ba_bitmap a) s blks
     | Some offs \<Rightarrow> offs + blks \<le> ba_num_bits a \<and> free_area (ba_bitmap a) offs blks)"
proof -
  define m where "m = ba_bitmap a"
  define n where "n = ba_num_bits a"
  define nx where "nx = ba_next_blk a"
  have b: "n \<le> 64 * length m" "n + blks < U64_MAX" "nx \<le> n" "n \<le> U64_MAX"
    using assms bitmap_wf_facts(4)[OF assms(1) assms(3)] by (auto simp: bitmap_wf_def m_def n_def nx_def)
  let ?P = "\<lambda>s. s + blks \<le> n \<and> free_area m s blks"
  obtain r where r: "bitmap_find_next_zero_area m n nx blks 0 = Some r" "first_from ?P nx n r"
    using bitmap_find_next_zero_area_first[of n m blks nx] b assms(2) by blast
  show ?thesis
  proof (cases "r \<ge> n")
    case False
    then show ?thesis using r b
      by (intro exI[of _ "Some r"]) (auto simp: bitmap_balloc_search_def first_from_def m_def n_def nx_def)
  next
    case True
    then have none1: "\<not> ?P s" if "nx \<le> s" for s
      using r(2) that assms(2) by (cases "s < n") (auto simp: first_from_def)
    obtain l where l: "find_next_bit m n nx = Some l" "first_from (tb m) nx n l"
      using find_next_bit_correct[of n m nx] b by blast
    then have lb: "nx \<le> l" "l \<le> n" by (auto simp: first_from_def)
    let ?Q = "\<lambda>s. s + blks \<le> l \<and> free_area m s blks"
    obtain q where q: "bitmap_find_next_zero_area m l 0 blks 0 = Some q" "first_from ?Q 0 l q"
      using bitmap_find_next_zero_area_first[of l m blks 0] b lb assms(2) by fastforce
    have red: "bitmap_balloc_search a blks = Some (if q \<ge> nx then None else Some q)"
      using r(1) l(1) q(1) True by (simp add: bitmap_balloc_search_def m_def n_def nx_def)
    show ?thesis
    proof (cases "q \<ge> nx")
      case False
      then have "?Q q" using q(2) lb by (auto simp: first_from_def)
      then show ?thesis using red False lb by (auto simp: m_def n_def)
    next
      case qn: True
      have "\<not> ?P s" for s
      proof (cases "s \<ge> nx")
        case True
        then show ?thesis using none1 by blast
      next
        case False
        show ?thesis
        proof
          assume P: "?P s"
          have "s + blks \<le> l"
          proof (rule ccontr)
            assume "\<not> s + blks \<le> l"
            then have "l < n" "s \<le> l" "l < s + blks" using P False lb by auto
            moreover have "tb m l" using l(2) \<open>l < n\<close> by (auto simp: first_from_def)
            ultimately show False using P by (auto simp: free_area_def)
          qed
          then have "?Q s" using P by simp
          moreover have "s < q" using False qn by simp
          ultimately show False using q(2) by (auto simp: first_from_def)
        qed
      qed
      then show ?thesis using red qn by (auto simp: m_def n_def)
    qed
  qed
qed

section \<open>Regions and addresses\<close>

lemma region_bound:
  assumes "bitmap_wf a" "o' + n \<le> ba_num_bits a"
  shows "(o' + ba_bit_offs a) * ba_blk_size a + n * ba_blk_size a \<le> ba_base a + ba_length a"
    "(o' + ba_bit_offs a) * ba_blk_size a + n * ba_blk_size a \<le> U64_MAX"
    "ba_base a \<le> (o' + ba_bit_offs a) * ba_blk_size a" "0 < (o' + ba_bit_offs a) * ba_blk_size a"
    "n * ba_blk_size a \<le> ba_length a"
proof -
  have "(o' + n) * ba_blk_size a \<le> ba_num_bits a * ba_blk_size a" using assms(2) by (rule mult_le_mono1)
  then show "(o' + ba_bit_offs a) * ba_blk_size a + n * ba_blk_size a \<le> ba_base a + ba_length a"
    using assms(1) unfolding bitmap_wf_def by (simp add: algebra_simps)
  then show "(o' + ba_bit_offs a) * ba_blk_size a + n * ba_blk_size a \<le> U64_MAX"
    using assms(1) unfolding bitmap_wf_def by linarith
  show "ba_base a \<le> (o' + ba_bit_offs a) * ba_blk_size a" "0 < (o' + ba_bit_offs a) * ba_blk_size a"
    "n * ba_blk_size a \<le> ba_length a"
    using assms unfolding bitmap_wf_def by (simp_all add: algebra_simps)
qed

lemma region_of_addr:
  assumes "bitmap_wf a"
  shows "region_of a ((o' + ba_bit_offs a) * ba_blk_size a) \<lparr>bal_base = b, bal_length = n * ba_blk_size a\<rparr> = (o', n)"
  using bitmap_wf_facts(1)[OF assms] by (simp add: region_of_def)

lemma cfg_cong:
  assumes "bitmap_cfg a' = bitmap_cfg a"
  shows "region_of a' = region_of a" "alloc_wf a' = alloc_wf a"
    "ba_num_bits a' = ba_num_bits a" "ba_blk_size a' = ba_blk_size a" "ba_bit_offs a' = ba_bit_offs a"
    "ba_base a' = ba_base a" "ba_length a' = ba_length a" "ba_flags a' = ba_flags a"
    "ba_blk_shift a' = ba_blk_shift a"
  using assms by (auto simp: bitmap_cfg_def region_of_def alloc_wf_def fun_eq_iff)

text \<open>An entry of the tree whose region is among the regions of the other entries is one of
  them: the key is determined by the region.\<close>

lemma regions_key:
  assumes "bitmap_inv F a" "(k, al) \<in> set (ba_allocs a)" "(k', al') \<in> set (ba_allocs a)"
    "region_of a k al = region_of a k' al'"
  shows "k = k'"
  using assms unfolding bitmap_inv_def alloc_wf_def by (metis (mono_tags, lifting) case_prodD)

lemma new_region_key:
  assumes "bitmap_inv F a" "(o', n) \<notin> regions a \<union> F" "blocks_inv m' num (insert (o', n) (regions a \<union> F))"
  shows "idx_search ((o' + ba_bit_offs a) * ba_blk_size a) (ba_allocs a) = None"
proof (rule ccontr)
  let ?k = "(o' + ba_bit_offs a) * ba_blk_size a"
  assume "\<not> ?thesis"
  then obtain al where al: "(?k, al) \<in> set (ba_allocs a)" using idx_search_in by fastforce
  then have "region_of a ?k al \<in> regions a" by (force simp: regions_def)
  moreover obtain n2 where r: "region_of a ?k al = (o', n2)"
    using assms(1) bitmap_wf_facts(1)[of a] by (auto simp: region_of_def bitmap_inv_def)
  ultimately have "(o', n2) \<in> regions a \<union> F" "(o', n2) \<noteq> (o', n)" using assms(2) by auto
  then show False using blocks_inv_disjoint[OF assms(3), of o' n2 o' n]
      blocks_inv_bounds(1)[OF assms(3), of o' n2] blocks_inv_bounds(1)[OF assms(3), of o' n]
    by (auto simp: ranges_disjoint_def)
qed

section \<open>The state changes\<close>

lemma bitmap_inv_add_fixed:
  assumes inv: "bitmap_inv F a" and fr: "free_area (ba_bitmap a) o' n" and b: "o' + n \<le> ba_num_bits a" "0 < n"
    and m': "\<And>i. tb m' i = (o' \<le> i \<and> i < o' + n \<or> tb (ba_bitmap a) i)" "length m' = length (ba_bitmap a)"
    and a': "bitmap_cfg a' = bitmap_cfg a" "ba_bitmap a' = m'" "ba_allocs a' = ba_allocs a"
      "ba_next_blk a' \<le> ba_num_bits a" "ba_bytes_freed a' = ba_bytes_freed a"
      "ba_bytes_alloced a' = ba_bytes_alloced a + n * ba_blk_size a"
      "ba_bytes_alloced a + n * ba_blk_size a \<le> U64_MAX"
  shows "bitmap_inv (insert (o', n) F) a'" "(o', n) \<notin> regions a \<union> F"
proof -
  note c = cfg_cong[OF a'(1)]
  have bl: "blocks_inv (ba_bitmap a) (ba_num_bits a) (regions a \<union> F)" using inv by (simp add: bitmap_inv_def)
  note add = blocks_inv_add[OF bl fr b m'(1)]
  show "(o', n) \<notin> regions a \<union> F" by (rule add(2))
  have "regions a' = regions a" by (simp add: regions_def a' c cong: image_cong)
  then show "bitmap_inv (insert (o', n) F) a'"
    using inv add a' m'(2) used_blocks_set[OF fr b(1) m'(1)]
    by (auto simp: bitmap_inv_def bitmap_wf_def c algebra_simps)
qed

lemma bitmap_inv_add_alloc:
  assumes inv: "bitmap_inv F a" and fr: "free_area (ba_bitmap a) o' n" and b: "o' + n \<le> ba_num_bits a" "0 < n"
    and m': "\<And>i. tb m' i = (o' \<le> i \<and> i < o' + n \<or> tb (ba_bitmap a) i)" "length m' = length (ba_bitmap a)"
    and addr: "addr = (o' + ba_bit_offs a) * ba_blk_size a"
    and al: "al = \<lparr>bal_base = addr, bal_length = n * ba_blk_size a\<rparr>"
    and a': "bitmap_cfg a' = bitmap_cfg a" "ba_bitmap a' = m'" "ba_allocs a' = idx_insert addr al (ba_allocs a)"
      "ba_next_blk a' \<le> ba_num_bits a" "ba_bytes_freed a' = ba_bytes_freed a"
      "ba_bytes_alloced a' = ba_bytes_alloced a + n * ba_blk_size a"
      "ba_bytes_alloced a + n * ba_blk_size a \<le> U64_MAX"
  shows "bitmap_inv F a'" "regions a' = insert (o', n) (regions a)"
    "set (ba_allocs a') = insert (addr, al) (set (ba_allocs a))"
proof -
  note c = cfg_cong[OF a'(1)]
  have wf: "bitmap_wf a" and bl: "blocks_inv (ba_bitmap a) (ba_num_bits a) (regions a \<union> F)"
    using inv by (simp_all add: bitmap_inv_def)
  note add = blocks_inv_add[OF bl fr b m'(1)]
  have new: "idx_search addr (ba_allocs a) = None"
    using new_region_key[OF inv add(2) add(1)] addr by simp
  show s: "set (ba_allocs a') = insert (addr, al) (set (ba_allocs a))"
    unfolding a'(3) by (rule set_idx_insert_new[OF new])
  have reg: "region_of a addr al = (o', n)" using region_of_addr[OF wf] by (simp add: addr al)
  show r: "regions a' = insert (o', n) (regions a)"
    unfolding regions_def s by (simp add: c reg)
  have "alloc_wf a addr al" using reg by (simp add: alloc_wf_def addr[symmetric] al)
  then show "bitmap_inv F a'"
    using inv add a' m'(2) used_blocks_set[OF fr b(1) m'(1)] s r
    by (auto simp: bitmap_inv_def bitmap_wf_def c algebra_simps insert_commute)
qed

lemma bitmap_inv_del:
  assumes inv: "bitmap_inv F a" and r: "(o', n) \<in> regions a \<union> F"
    and m': "\<And>i. tb m' i = (\<not> (o' \<le> i \<and> i < o' + n) \<and> tb (ba_bitmap a) i)" "length m' = length (ba_bitmap a)"
    and a': "bitmap_cfg a' = bitmap_cfg a" "ba_bitmap a' = m'" "ba_next_blk a' \<le> ba_num_bits a"
      "regions a' \<union> F' = regions a \<union> F - {(o', n)}" "regions a' \<inter> F' = {}"
      "idx_sorted (ba_allocs a')" "set (ba_allocs a') \<subseteq> set (ba_allocs a)"
      "ba_bytes_freed a' = ba_bytes_freed a + n * ba_blk_size a"
      "ba_bytes_alloced a' = ba_bytes_alloced a"
  shows "bitmap_inv F' a'"
proof -
  note c = cfg_cong[OF a'(1)]
  have bl: "blocks_inv (ba_bitmap a) (ba_num_bits a) (regions a \<union> F)" using inv by (simp add: bitmap_inv_def)
  have "used_blocks (ba_bitmap a) (ba_num_bits a) = used_blocks m' (ba_num_bits a) + n"
    using blocks_inv_bounds[OF bl r] m'(1) by (intro used_blocks_clear) auto
  then show ?thesis
    using inv blocks_inv_remove[OF bl r m'(1)] a' m'(2)
    by (auto simp: bitmap_inv_def bitmap_wf_def c algebra_simps)
qed

lemma bitmap_inv_same:
  assumes inv: "bitmap_inv F a" and m': "\<And>i. tb (ba_bitmap a') i = tb (ba_bitmap a) i"
    and a': "length (ba_bitmap a') = length (ba_bitmap a)" "bitmap_cfg a' = bitmap_cfg a"
      "ba_allocs a' = ba_allocs a" "ba_next_blk a' \<le> ba_num_bits a"
      "ba_bytes_freed a' = ba_bytes_freed a" "ba_bytes_alloced a' = ba_bytes_alloced a"
  shows "bitmap_inv F a'"
proof -
  note c = cfg_cong[OF a'(2)]
  have "regions a' = regions a" by (simp add: regions_def a' c)
  then show ?thesis
    using inv a' by (auto simp: bitmap_inv_def bitmap_wf_def c blocks_inv_def used_blocks_def m')
qed

section \<open>Correctness of the operations\<close>

text \<open>What a request leaves behind when it fails, and when it succeeds with the blocks from
  \<open>o'\<close> on; a tracked allocator keeps the allocation in its tree.\<close>

definition balloc_failed :: "(nat \<times> nat) set \<Rightarrow> nvgpu_bitmap_allocator \<Rightarrow> nvgpu_bitmap_allocator \<Rightarrow> bool" where
  "balloc_failed F a a' \<longleftrightarrow> bitmap_inv F a' \<and> bitmap_cfg a' = bitmap_cfg a \<and>
     ba_allocs a' = ba_allocs a \<and> (\<forall>i. tb (ba_bitmap a') i = tb (ba_bitmap a) i) \<and>
     ba_bytes_alloced a' = ba_bytes_alloced a \<and> ba_nr_allocs a' = ba_nr_allocs a"

definition tracked :: "nvgpu_bitmap_allocator \<Rightarrow> bool" where
  "tracked a \<longleftrightarrow> \<not> bit (ba_flags a) GPU_ALLOC_NO_ALLOC_PAGE"

definition balloc_done ::
    "(nat \<times> nat) set \<Rightarrow> nvgpu_bitmap_allocator \<Rightarrow> nat \<Rightarrow> nat \<Rightarrow> nvgpu_bitmap_allocator \<Rightarrow> bool" where
  "balloc_done F a o' n a' \<longleftrightarrow>
     o' + n \<le> ba_num_bits a \<and> free_area (ba_bitmap a) o' n \<and> bitmap_cfg a' = bitmap_cfg a \<and>
     ba_bytes_alloced a' = ba_bytes_alloced a + n * ba_blk_size a \<and> ba_nr_allocs a' = ba_nr_allocs a + 1 \<and>
     (if tracked a
      then bitmap_inv F a' \<and> regions a' = insert (o', n) (regions a) \<and>
        (let addr = (o' + ba_bit_offs a) * ba_blk_size a in
         set (ba_allocs a') =
           insert (addr, \<lparr>bal_base = addr, bal_length = n * ba_blk_size a\<rparr>) (set (ba_allocs a)))
      else bitmap_inv (insert (o', n) F) a' \<and> ba_allocs a' = ba_allocs a)"

lemma blks_for_pos: "bitmap_wf a \<Longrightarrow> 0 < len \<Longrightarrow> 0 < blks_for a len"
  using bitmap_wf_facts(1)[of a] by (auto simp: blks_for_def)

lemma blks_for_code:
  assumes "bitmap_wf a" "blks_for a len \<le> U32_MAX"
  shows "(if len div 2 ^ ba_blk_shift a * ba_blk_size a \<noteq> len then wrap32 (len div 2 ^ ba_blk_shift a + 1)
          else len div 2 ^ ba_blk_shift a) = blks_for a len" "len div 2 ^ ba_blk_shift a \<le> U32_MAX"
proof -
  have s: "2 ^ ba_blk_shift a = ba_blk_size a" using assms(1) by (simp add: bitmap_wf_def)
  show "len div 2 ^ ba_blk_shift a \<le> U32_MAX"
    using assms(2) by (auto simp: blks_for_def s split: if_splits)
  show "(if len div 2 ^ ba_blk_shift a * ba_blk_size a \<noteq> len then wrap32 (len div 2 ^ ba_blk_shift a + 1)
          else len div 2 ^ ba_blk_shift a) = blks_for a len"
    using assms blks_for_eq[OF assms(1), of len] by (auto simp: blks_for_def s split: if_splits)
qed

text \<open>The arithmetic of a request that found its blocks stays inside the machine integers.\<close>

lemma balloc_found_bounds:
  assumes "bitmap_wf a" "o' + n \<le> ba_num_bits a"
  shows "o' \<le> U32_MAX" "o' + n \<le> 64 * length (ba_bitmap a)" "o' + n \<le> U32_MAX" "n \<le> INT_MAX"
  using assms by (auto simp: bitmap_wf_def)

lemma balloc_found_arith:
  assumes wf: "bitmap_wf a" and o': "o' + n \<le> ba_num_bits a" and st: "ba_bytes_alloced a + ba_length a \<le> U64_MAX"
  shows "nvgpu_safe_add_u64 o' (ba_bit_offs a) = Some (o' + ba_bit_offs a)"
    "nvgpu_safe_mult_u64 (o' + ba_bit_offs a) (ba_blk_size a) = Some ((o' + ba_bit_offs a) * ba_blk_size a)"
    "nvgpu_safe_mult_u64 n (ba_blk_size a) = Some (n * ba_blk_size a)"
    "wrap64 (n * ba_blk_size a) = n * ba_blk_size a" "wrap64 (o' + n) = o' + n"
    "nvgpu_safe_add_u64 ((o' + ba_bit_offs a) * ba_blk_size a) (n * ba_blk_size a) =
       Some ((o' + ba_bit_offs a) * ba_blk_size a + n * ba_blk_size a)"
    "nvgpu_safe_add_u64 (ba_bytes_alloced a) (n * ba_blk_size a) = Some (ba_bytes_alloced a + n * ba_blk_size a)"
proof -
  note rb = region_bound[OF wf o'] and ob = balloc_found_bounds[OF wf o']
  have "o' + ba_bit_offs a \<le> (o' + ba_bit_offs a) * ba_blk_size a" using bitmap_wf_facts(1)[OF wf] by simp
  then have "o' + ba_bit_offs a \<le> U64_MAX" using rb(2) by linarith
  then show "nvgpu_safe_add_u64 o' (ba_bit_offs a) = Some (o' + ba_bit_offs a)"
    "nvgpu_safe_mult_u64 (o' + ba_bit_offs a) (ba_blk_size a) = Some ((o' + ba_bit_offs a) * ba_blk_size a)"
    "nvgpu_safe_mult_u64 n (ba_blk_size a) = Some (n * ba_blk_size a)"
    "wrap64 (n * ba_blk_size a) = n * ba_blk_size a" "wrap64 (o' + n) = o' + n"
    "nvgpu_safe_add_u64 ((o' + ba_bit_offs a) * ba_blk_size a) (n * ba_blk_size a) =
       Some ((o' + ba_bit_offs a) * ba_blk_size a + n * ba_blk_size a)"
    "nvgpu_safe_add_u64 (ba_bytes_alloced a) (n * ba_blk_size a) = Some (ba_bytes_alloced a + n * ba_blk_size a)"
    using rb(2,5) st ob(3) by (simp_all add: safe_simps)
qed

lemma nvgpu_bitmap_balloc_spec:
  assumes inv: "bitmap_inv F a" and len: "0 < len" "len \<le> U64_MAX" "blks_for a len \<le> U32_MAX"
    and st: "ba_bytes_alloced a + ba_length a \<le> U64_MAX" "ba_nr_allocs a < U64_MAX"
  shows "\<exists>addr a'. nvgpu_bitmap_balloc mem_ok a len = Some (addr, a') \<and>
    (addr = 0 \<and> balloc_failed F a a' \<and>
       (tracked a \<and> \<not> mem_ok \<or>
        (\<forall>s. s + blks_for a len \<le> ba_num_bits a \<longrightarrow> \<not> free_area (ba_bitmap a) s (blks_for a len)))
     \<or> (\<exists>o'. addr = (o' + ba_bit_offs a) * ba_blk_size a \<and> balloc_done F a o' (blks_for a len) a'))"
proof -
  define n where "n = blks_for a len"
  have wf: "bitmap_wf a" using inv by (simp add: bitmap_inv_def)
  have n: "0 < n" "n \<le> U32_MAX" using blks_for_pos[OF wf len(1)] len(3) by (simp_all add: n_def)
  obtain found where f: "bitmap_balloc_search a n = Some found"
    "case found of None \<Rightarrow> \<forall>s. s + n \<le> ba_num_bits a \<longrightarrow> \<not> free_area (ba_bitmap a) s n
     | Some offs \<Rightarrow> offs + n \<le> ba_num_bits a \<and> free_area (ba_bitmap a) offs n"
    using bitmap_balloc_search_correct[OF wf n] by blast
  have sm: "nvgpu_safe_mult_u64 (len div 2 ^ ba_blk_shift a) (ba_blk_size a) =
      Some (len div 2 ^ ba_blk_shift a * ba_blk_size a)"
    using safe_mult_down[OF len(2), of "ba_blk_size a"] wf by (simp add: bitmap_wf_def)
  note code = blks_for_code[OF wf len(3), folded n_def]
  show ?thesis
  proof (cases found)
    case None
    have "balloc_failed F a (a\<lparr>ba_next_blk := 0\<rparr>)"
      unfolding balloc_failed_def by (auto intro!: bitmap_inv_same[OF inv] simp: bitmap_cfg_def)
    then show ?thesis using None f sm code len(1)
      by (intro exI[of _ 0] exI[of _ "a\<lparr>ba_next_blk := 0\<rparr>"])
        (simp add: nvgpu_bitmap_balloc_def Let_def n_def)
  next
    case (Some o')
    then have o': "o' + n \<le> ba_num_bits a" "free_area (ba_bitmap a) o' n" using f(2) by auto
    note ob = balloc_found_bounds[OF wf o'(1)]
    obtain m where m: "nvgpu_bitmap_set (ba_bitmap a) o' n = Some m" "length m = length (ba_bitmap a)"
      "\<And>i. tb m i = (o' \<le> i \<and> i < o' + n \<or> tb (ba_bitmap a) i)"
      using nvgpu_bitmap_set_correct[OF ob(2,3)] by blast
    define addr where "addr = (o' + ba_bit_offs a) * ba_blk_size a"
    note rb = region_bound[OF wf o'(1)]
    note arith = balloc_found_arith[OF wf o'(1) st(1), folded addr_def]
    define al where "al = \<lparr>bal_base = addr, bal_length = n * ba_blk_size a\<rparr>"
    define a1 where "a1 = a\<lparr>ba_bitmap := m, ba_next_blk := o' + n\<rparr>"
    define a2 where "a2 = a1\<lparr>ba_nr_allocs := ba_nr_allocs a + 1,
                             ba_bytes_alloced := ba_bytes_alloced a + n * ba_blk_size a\<rparr>"
    define a3 where "a3 = a1\<lparr>ba_allocs := idx_insert addr al (ba_allocs a), ba_nr_allocs := ba_nr_allocs a + 1,
                             ba_bytes_alloced := ba_bytes_alloced a + n * ba_blk_size a\<rparr>"
    consider "tracked a" "mem_ok" | "tracked a" "\<not> mem_ok" | "\<not> tracked a" by blast
    then show ?thesis
    proof cases
      case 1
      have "nvgpu_bitmap_balloc mem_ok a len = Some (addr, a3)"
        using 1 Some f(1) sm code len(1) arith m(1) ob(1) st(2)
        by (simp add: nvgpu_bitmap_balloc_def Let_def tracked_def nvgpu_bitmap_store_alloc_def
            insert_alloc_metadata_def a3_def a1_def al_def)
      moreover have "balloc_done F a o' n a3"
        using bitmap_inv_add_alloc[OF inv o'(2,1) n(1) m(3,2) addr_def al_def, of a3] o' 1 rb(5) st(1)
        by (auto simp: balloc_done_def a3_def a1_def bitmap_cfg_def addr_def al_def Let_def)
      ultimately show ?thesis by (auto simp: addr_def n_def)
    next
      case 2
      obtain m2 where m2: "nvgpu_bitmap_clear m o' n = Some m2" "length m2 = length m"
        "\<And>i. tb m2 i = (\<not> (o' \<le> i \<and> i < o' + n) \<and> tb m i)"
        using nvgpu_bitmap_clear_correct[of o' n m] ob m(2) by auto
      have "nvgpu_bitmap_balloc mem_ok a len = Some (0, a1\<lparr>ba_bitmap := m2, ba_next_blk := 0\<rparr>)"
        using 2 Some f(1) sm code len(1) arith m(1) ob(1,4) m2(1)
        by (simp add: nvgpu_bitmap_balloc_def Let_def tracked_def nvgpu_bitmap_store_alloc_def a1_def)
      moreover have t: "tb m2 i = tb (ba_bitmap a) i" for i
        using o'(2) by (auto simp: m2(3) m(3) free_area_def)
      have "bitmap_inv F (a1\<lparr>ba_bitmap := m2, ba_next_blk := 0\<rparr>)"
        by (rule bitmap_inv_same[OF inv]) (simp_all add: t m(2) m2(2) bitmap_cfg_def a1_def)
      then have "balloc_failed F a (a1\<lparr>ba_bitmap := m2, ba_next_blk := 0\<rparr>)"
        by (simp add: balloc_failed_def t bitmap_cfg_def a1_def)
      ultimately show ?thesis using 2 by auto
    next
      case 3
      have "nvgpu_bitmap_balloc mem_ok a len = Some (addr, a2)"
        using 3 Some f(1) sm code len(1) arith m(1) ob(1) st(2)
        by (simp add: nvgpu_bitmap_balloc_def Let_def tracked_def a2_def a1_def)
      moreover have "balloc_done F a o' n a2"
        using bitmap_inv_add_fixed[OF inv o'(2,1) n(1) m(3,2), of a2] o' 3 rb(5) st(1)
        by (auto simp: balloc_done_def a2_def a1_def bitmap_cfg_def)
      ultimately show ?thesis by (auto simp: addr_def n_def)
    qed
  qed
qed

text \<open>The bits after a request that succeeded, from the invariant on both sides.\<close>

lemma blocks_inv_tb: "blocks_inv m num S \<Longrightarrow> i < num \<Longrightarrow> tb m i = covered S i"
  by (simp add: blocks_inv_def)

lemma balloc_done_bits:
  assumes inv: "bitmap_inv F a" and d: "balloc_done F a o' n a'" and i: "i < ba_num_bits a"
  shows "tb (ba_bitmap a') i = (o' \<le> i \<and> i < o' + n \<or> tb (ba_bitmap a) i)"
proof -
  have c: "ba_num_bits a' = ba_num_bits a" "region_of a' = region_of a"
    using d by (auto simp: balloc_done_def bitmap_cfg_def region_of_def fun_eq_iff)
  have "\<exists>F'. bitmap_inv F' a' \<and> regions a' \<union> F' = insert (o', n) (regions a \<union> F)"
    using d c by (cases "tracked a") (auto simp: balloc_done_def regions_def)
  then obtain F' where F': "bitmap_inv F' a'" "regions a' \<union> F' = insert (o', n) (regions a \<union> F)" by blast
  then have b: "blocks_inv (ba_bitmap a') (ba_num_bits a) (insert (o', n) (regions a \<union> F))"
    using c by (simp add: bitmap_inv_def)
  have "blocks_inv (ba_bitmap a) (ba_num_bits a) (regions a \<union> F)" using inv by (simp add: bitmap_inv_def)
  then show ?thesis using blocks_inv_tb[OF b i] blocks_inv_tb[OF _ i] by (simp add: covered_insert)
qed

lemma bytes_room:
  assumes inv: "bitmap_inv F a" and r: "(o', n) \<in> regions a \<union> F"
  shows "ba_bytes_freed a + n * ba_blk_size a \<le> U64_MAX"
proof -
  have bl: "blocks_inv (ba_bitmap a) (ba_num_bits a) (regions a \<union> F)" using inv by (simp add: bitmap_inv_def)
  note b = blocks_inv_bounds[OF bl r]
  have "{o'..<o' + n} \<subseteq> {i. i < ba_num_bits a \<and> tb (ba_bitmap a) i}" using b by auto
  then have "n \<le> used_blocks (ba_bitmap a) (ba_num_bits a)"
    unfolding used_blocks_def using card_mono[of "{i. i < ba_num_bits a \<and> tb (ba_bitmap a) i}" "{o'..<o' + n}"]
    by simp
  then have "n * ba_blk_size a \<le> used_blocks (ba_bitmap a) (ba_num_bits a) * ba_blk_size a"
    by (rule mult_le_mono1)
  moreover have "ba_bytes_freed a + used_blocks (ba_bitmap a) (ba_num_bits a) * ba_blk_size a \<le> U64_MAX"
    using inv unfolding bitmap_inv_def by (metis mult.commute)
  ultimately show ?thesis by linarith
qed

lemma clear_region:
  assumes inv: "bitmap_inv F a" and r: "(o', n) \<in> regions a \<union> F"
  shows "\<exists>m. nvgpu_bitmap_clear (ba_bitmap a) o' n = Some m \<and> length m = length (ba_bitmap a) \<and>
    (\<forall>i. tb m i = (\<not> (o' \<le> i \<and> i < o' + n) \<and> tb (ba_bitmap a) i))" "n \<le> INT_MAX" "o' \<le> U32_MAX"
    "nvgpu_safe_mult_u64 n (ba_blk_size a) = Some (n * ba_blk_size a)"
    "nvgpu_safe_add_u64 (ba_bytes_freed a) (n * ba_blk_size a) = Some (ba_bytes_freed a + n * ba_blk_size a)"
proof -
  have bl: "blocks_inv (ba_bitmap a) (ba_num_bits a) (regions a \<union> F)" and wf: "bitmap_wf a"
    using inv by (simp_all add: bitmap_inv_def)
  have b: "o' + n \<le> ba_num_bits a" using blocks_inv_bounds[OF bl r] by simp
  then show "n \<le> INT_MAX" "o' \<le> U32_MAX" using wf by (auto simp: bitmap_wf_def)
  show "\<exists>m. nvgpu_bitmap_clear (ba_bitmap a) o' n = Some m \<and> length m = length (ba_bitmap a) \<and>
    (\<forall>i. tb m i = (\<not> (o' \<le> i \<and> i < o' + n) \<and> tb (ba_bitmap a) i))"
    using b wf by (intro nvgpu_bitmap_clear_correct) (auto simp: bitmap_wf_def)
  show "nvgpu_safe_mult_u64 n (ba_blk_size a) = Some (n * ba_blk_size a)"
    "nvgpu_safe_add_u64 (ba_bytes_freed a) (n * ba_blk_size a) = Some (ba_bytes_freed a + n * ba_blk_size a)"
    using bytes_room[OF inv r] by (simp_all add: safe_simps)
qed

lemma regions_unlink:
  assumes inv: "bitmap_inv F a" and k: "(k, al) \<in> set (ba_allocs a)"
  shows "regions (a\<lparr>ba_allocs := idx_unlink k (ba_allocs a)\<rparr>) = regions a - {region_of a k al}"
proof -
  have s: "idx_sorted (ba_allocs a)" using inv by (simp add: bitmap_inv_def)
  have same: "al' = al" if "(k, al') \<in> set (ba_allocs a)" for al'
    using that k s by (metis idx_search_iff option.inject)
  let ?f = "\<lambda>(k, al). region_of a k al"
  have inj: "k' = k \<and> al' = al"
    if "(k', al') \<in> set (ba_allocs a)" "region_of a k' al' = region_of a k al" for k' al'
    using regions_key[OF inv that(1) k that(2)] that(1) same by blast
  have "{p \<in> set (ba_allocs a). fst p \<noteq> k} = set (ba_allocs a) - {(k, al)}" by (auto dest: same)
  then have "regions (a\<lparr>ba_allocs := idx_unlink k (ba_allocs a)\<rparr>) = ?f ` (set (ba_allocs a) - {(k, al)})"
    by (simp add: regions_def region_of_def set_idx_unlink)
  also have "\<dots> = ?f ` set (ba_allocs a) - {region_of a k al}" by (auto dest: inj)
  finally show ?thesis by (simp add: regions_def)
qed

lemma nvgpu_bitmap_free_spec:
  assumes inv: "bitmap_inv F a" and t: "tracked a" and k: "(k, al) \<in> set (ba_allocs a)"
  shows "\<exists>a'. nvgpu_bitmap_free a k = Some a' \<and> bitmap_inv F a' \<and> bitmap_cfg a' = bitmap_cfg a \<and>
    ba_allocs a' = idx_unlink k (ba_allocs a) \<and> regions a' = regions a - {region_of a k al} \<and>
    ba_bytes_alloced a' = ba_bytes_alloced a \<and> ba_nr_allocs a' = ba_nr_allocs a"
proof -
  have wf: "bitmap_wf a" and s: "idx_sorted (ba_allocs a)" and aw: "alloc_wf a k al"
    using inv k by (auto simp: bitmap_inv_def)
  obtain o' n where rg: "region_of a k al = (o', n)" by force
  have rin: "region_of a k al \<in> regions a" using k by (force simp: regions_def)
  then have r: "(o', n) \<in> regions a \<union> F" using rg by simp
  have kk: "k = (o' + ba_bit_offs a) * ba_blk_size a" "bal_length al = n * ba_blk_size a"
    using aw rg by (simp_all add: alloc_wf_def)
  have sh: "2 ^ ba_blk_shift a = ba_blk_size a" using wf by (simp add: bitmap_wf_def)
  have bl: "blocks_inv (ba_bitmap a) (ba_num_bits a) (regions a \<union> F)" using inv by (simp add: bitmap_inv_def)
  have kb: "k \<le> U64_MAX" using region_bound(2)[OF wf blocks_inv_bounds(2)[OF bl r]] kk by linarith
  have "o' + ba_bit_offs a \<le> k" using bitmap_wf_facts(1)[OF wf] by (simp add: kk(1))
  then have obu: "o' + ba_bit_offs a \<le> U64_MAX" using kb by (rule order_trans)
  have offs: "wsub64 (k div ba_blk_size a) (ba_bit_offs a) = o'" "bal_length al div ba_blk_size a = n"
    using bitmap_wf_facts(1)[OF wf] obu by (simp_all add: kk)
  obtain m where m: "nvgpu_bitmap_clear (ba_bitmap a) o' n = Some m" "length m = length (ba_bitmap a)"
    "\<And>i. tb m i = (\<not> (o' \<le> i \<and> i < o' + n) \<and> tb (ba_bitmap a) i)" using clear_region(1)[OF inv r] by blast
  define a' where "a' = a\<lparr>ba_allocs := idx_unlink k (ba_allocs a), ba_bitmap := m,
                          ba_bytes_freed := ba_bytes_freed a + n * ba_blk_size a\<rparr>"
  have "nvgpu_bitmap_free a k = Some a'"
    using t m(1) clear_region(2-5)[OF inv r] idx_search_iff[OF s, of k al] k offs
    by (simp add: nvgpu_bitmap_free_def tracked_def find_alloc_metadata_def sh kk(2) a'_def)
  moreover have rr: "regions a' = regions a - {region_of a k al}"
    using regions_unlink[OF inv k] by (simp add: a'_def regions_def region_of_def)
  moreover have "bitmap_inv F a'"
  proof (rule bitmap_inv_del[OF inv r m(3,2)])
    show "regions a' \<union> F = regions a \<union> F - {(o', n)}" "regions a' \<inter> F = {}"
      using inv rin rg by (auto simp: rr bitmap_inv_def)
    show "idx_sorted (ba_allocs a')" "set (ba_allocs a') \<subseteq> set (ba_allocs a)"
      using s by (auto simp: a'_def set_idx_unlink)
  qed (use wf in \<open>auto simp: a'_def bitmap_cfg_def bitmap_wf_def\<close>)
  ultimately show ?thesis by (auto simp: a'_def bitmap_cfg_def)
qed

lemma blks64_eq:
  assumes "bitmap_wf a" "len \<le> U64_MAX"
  shows "bitmap_blks64 a len = Some (blks_for a len)"
proof -
  have s: "2 ^ ba_blk_shift a = ba_blk_size a" using assms(1) by (simp add: bitmap_wf_def)
  have "len div ba_blk_size a + 1 \<le> U64_MAX" if "len mod ba_blk_size a \<noteq> 0"
  proof -
    have "ba_blk_size a \<noteq> 1" using that by auto
    then have "1 < ba_blk_size a" using bitmap_wf_facts(1)[OF assms(1)] by linarith
    then have "len div ba_blk_size a \<le> U64_MAX div 2"
      using assms(2) by (metis One_nat_def Suc_1 Suc_leI div_le_mono div_le_mono2 le_trans zero_less_numeral)
    then show ?thesis by simp
  qed
  then show ?thesis
    using safe_mult_down[OF assms(2), of "ba_blk_size a"] blks_for_eq[OF assms(1), of len]
    by (auto simp: bitmap_blks64_def Let_def s blks_for_def)
qed

lemma find_area_fixed:
  assumes "sz \<le> 64 * length m" "sz + k < U64_MAX" "0 < k" "start + k \<le> U64_MAX" "start \<noteq> sz"
  shows "\<exists>r. bitmap_find_next_zero_area m sz start k 0 = Some r \<and>
    (r = start \<longleftrightarrow> start + k \<le> sz \<and> free_area m start k)"
proof (cases "start < sz")
  case True
  then obtain r where "bitmap_find_next_zero_area m sz start k 0 = Some r"
    and ff: "first_from (\<lambda>s. s + k \<le> sz \<and> free_area m s k) start sz r"
    using bitmap_find_next_zero_area_first[of sz m k start] assms by auto
  moreover have "r = start \<longleftrightarrow> start + k \<le> sz \<and> free_area m start k"
    using ff True unfolding first_from_def by (metis le_neq_implies_less order_refl)
  ultimately show ?thesis by blast
next
  case False
  then have "bitmap_find_next_zero_area m sz start k 0 = Some sz"
    using assms(3,4) by (subst bitmap_find_next_zero_area.simps) (simp add: safe_simps)
  then show ?thesis using False assms(5) by auto
qed

text \<open>A search that starts at the end of the bitmap returns the end: the value that says
  \<open>nothing found\<close> is then also the offset asked for.\<close>

lemma find_area_at_end:
  assumes "0 < k" "sz + k \<le> U64_MAX"
  shows "bitmap_find_next_zero_area m sz sz k 0 = Some sz"
  using assms by (subst bitmap_find_next_zero_area.simps) (simp add: safe_simps)

lemma nvgpu_bitmap_balloc_fixed_spec:
  assumes inv: "bitmap_inv F a"
    and len: "0 < len" "blks_for a len \<le> U32_MAX"
    and base: "base = (o' + ba_bit_offs a) * ba_blk_size a" "base + len \<le> U64_MAX" "o' \<noteq> ba_num_bits a"
    and st: "ba_bytes_alloced a + ba_length a \<le> U64_MAX" "ba_nr_fixed_allocs a < U64_MAX"
  shows "\<exists>a'. bitmap_cfg a' = bitmap_cfg a \<and>
    (if o' + blks_for a len \<le> ba_num_bits a \<and> free_area (ba_bitmap a) o' (blks_for a len)
     then nvgpu_bitmap_balloc_fixed a base len = Some (base, a') \<and>
       bitmap_inv (insert (o', blks_for a len) F) a' \<and> ba_allocs a' = ba_allocs a \<and>
       (o', blks_for a len) \<notin> regions a \<union> F
     else nvgpu_bitmap_balloc_fixed a base len = Some (0, a') \<and> a' = a)"
proof -
  define n where "n = blks_for a len"
  have wf: "bitmap_wf a" using inv by (simp add: bitmap_inv_def)
  have n: "0 < n" "n \<le> U32_MAX" using blks_for_pos[OF wf len(1)] len(2) by (simp_all add: n_def)
  have s: "2 ^ ba_blk_shift a = ba_blk_size a" using wf by (simp add: bitmap_wf_def)
  have bo: "base div ba_blk_size a = o' + ba_bit_offs a" "base \<le> U64_MAX" "len \<le> U64_MAX"
    using bitmap_wf_facts(1)[OF wf] base by auto
  have nl: "n \<le> len" using bitmap_wf_facts(1)[OF wf] unfolding n_def blks_for_def
    by (metis One_nat_def Suc_eq_plus1 Suc_leI div_eq_dividend_iff div_le_dividend le_neq_implies_less len(1) mod_by_1 nat_less_le)
  have "(o' + ba_bit_offs a) * 1 \<le> base"
    unfolding base(1) using bitmap_wf_facts(1)[OF wf] by (intro mult_le_mono2) simp
  then have "o' \<le> base" by simp
  then have on: "o' + n \<le> U64_MAX" using nl base(2) by linarith
  have pre: "nvgpu_safe_mult_u64 (base div ba_blk_size a) (ba_blk_size a) = Some base"
    "nvgpu_safe_sub_u64 (base div ba_blk_size a) (ba_bit_offs a) = Some o'"
    using safe_mult_down[OF bo(2), of "ba_blk_size a"] bo(1) base(1) by (simp_all add: safe_simps)
  obtain r where r: "bitmap_find_next_zero_area (ba_bitmap a) (ba_num_bits a) o' n 0 = Some r"
    "r = o' \<longleftrightarrow> o' + n \<le> ba_num_bits a \<and> free_area (ba_bitmap a) o' n"
    using find_area_fixed[of "ba_num_bits a" "ba_bitmap a" n o'] wf n bitmap_wf_facts(4)[OF wf n(2)] on base(3)
    by (auto simp: bitmap_wf_def)
  note b64 = blks64_eq[OF wf bo(3), folded n_def]
  show ?thesis
  proof (cases "r = o'")
    case False
    then have nf: "\<not> (o' + n \<le> ba_num_bits a \<and> free_area (ba_bitmap a) o' n)" using r(2) by blast
    have "nvgpu_bitmap_balloc_fixed a base len = Some (0, a)"
      using False r(1) pre b64 n by (simp add: nvgpu_bitmap_balloc_fixed_def Let_def s)
    then show ?thesis using nf by (intro exI[of _ a]) (auto simp: n_def)
  next
    case True
    then have o': "o' + n \<le> ba_num_bits a" "free_area (ba_bitmap a) o' n" using r(2) by auto
    obtain m where m: "nvgpu_bitmap_set (ba_bitmap a) o' n = Some m" "length m = length (ba_bitmap a)"
      "\<And>i. tb m i = (o' \<le> i \<and> i < o' + n \<or> tb (ba_bitmap a) i)"
      using nvgpu_bitmap_set_correct[of o' n "ba_bitmap a"] o'(1) wf by (auto simp: bitmap_wf_def)
    have "n * ba_blk_size a \<le> ba_length a" using o'(1) wf by (simp add: bitmap_wf_def)
    then have ar: "ba_bytes_alloced a + n * ba_blk_size a \<le> U64_MAX" "n * ba_blk_size a \<le> U64_MAX" "wrap32 o' = o'"
      using st(1) o'(1) bitmap_wf_facts(3)[OF wf] by simp_all
    define a' where "a' = a\<lparr>ba_bitmap := m, ba_bytes_alloced := ba_bytes_alloced a + n * ba_blk_size a,
                            ba_nr_fixed_allocs := ba_nr_fixed_allocs a + 1\<rparr>"
    have "nvgpu_bitmap_balloc_fixed a base len = Some (base, a')"
      using r(1) True pre b64 n m(1) ar st(2)
      by (simp add: nvgpu_bitmap_balloc_fixed_def Let_def s safe_simps a'_def)
    moreover have "bitmap_inv (insert (o', n) F) a'" "(o', n) \<notin> regions a \<union> F"
      using bitmap_inv_add_fixed[OF inv o'(2,1) n(1) m(3,2), of a'] ar wf
      by (simp_all add: a'_def bitmap_cfg_def bitmap_wf_def)
    ultimately show ?thesis using o' by (intro exI[of _ a']) (auto simp: n_def a'_def bitmap_cfg_def)
  qed
qed

lemma nvgpu_bitmap_free_fixed_spec:
  assumes inv: "bitmap_inv F a" and r: "(o', n) \<in> F"
    and len: "blks_for a len = n" "len \<le> U64_MAX"
    and base: "base = (o' + ba_bit_offs a) * ba_blk_size a"
  shows "\<exists>a'. nvgpu_bitmap_free_fixed a base len = Some a' \<and> bitmap_inv (F - {(o', n)}) a' \<and>
    bitmap_cfg a' = bitmap_cfg a \<and> ba_allocs a' = ba_allocs a"
proof -
  have wf: "bitmap_wf a" and bl: "blocks_inv (ba_bitmap a) (ba_num_bits a) (regions a \<union> F)"
    using inv by (simp_all add: bitmap_inv_def)
  have r': "(o', n) \<in> regions a \<union> F" using r by simp
  have s: "2 ^ ba_blk_shift a = ba_blk_size a" using wf by (simp add: bitmap_wf_def)
  have "base \<le> U64_MAX" using region_bound(2)[OF wf blocks_inv_bounds(2)[OF bl r']] base by linarith
  then have pre: "nvgpu_safe_mult_u64 (base div ba_blk_size a) (ba_blk_size a) = Some base"
    "nvgpu_safe_sub_u64 (base div ba_blk_size a) (ba_bit_offs a) = Some o'"
    using safe_mult_down[of base "ba_blk_size a"] bitmap_wf_facts(1)[OF wf]
    by (simp_all add: base safe_simps)
  obtain m where m: "nvgpu_bitmap_clear (ba_bitmap a) o' n = Some m" "length m = length (ba_bitmap a)"
    "\<And>i. tb m i = (\<not> (o' \<le> i \<and> i < o' + n) \<and> tb (ba_bitmap a) i)" using clear_region(1)[OF inv r'] by blast
  define a' where "a' = a\<lparr>ba_bitmap := m, ba_bytes_freed := ba_bytes_freed a + n * ba_blk_size a\<rparr>"
  have "nvgpu_bitmap_free_fixed a base len = Some a'"
    using pre blks64_eq[OF wf len(2)] len(1) m(1) clear_region(2-5)[OF inv r']
    by (simp add: nvgpu_bitmap_free_fixed_def Let_def s a'_def)
  moreover have "regions a' = regions a" by (simp add: regions_def region_of_def a'_def)
  then have "bitmap_inv (F - {(o', n)}) a'"
    using inv r wf by (intro bitmap_inv_del[OF inv r' m(3,2)])
      (auto simp: a'_def bitmap_cfg_def bitmap_inv_def bitmap_wf_def)
  ultimately show ?thesis by (auto simp: a'_def bitmap_cfg_def)
qed

lemma tb_replicate_0: "i < 64 * n \<Longrightarrow> \<not> tb (replicate n 0) i"
  by (simp add: tb_def less_mult_imp_div_less mult.commute)

lemma nvgpu_bitmap_allocator_init_spec:
  assumes "blk_size = 2 ^ s" "s < 64" "base + len \<le> U64_MAX" "len div blk_size \<le> INT_MAX"
  shows "nvgpu_bitmap_check_argument_limits base len blk_size =
      Some (if base mod blk_size = 0 \<and> len mod blk_size = 0 \<and> 0 < len then Inr () else Inl EINVAL)"
    "base mod blk_size = 0 \<Longrightarrow> len mod blk_size = 0 \<Longrightarrow> 0 < len \<Longrightarrow>
     \<exists>a. nvgpu_bitmap_allocator_init True True True base len blk_size flags = Some (Inr a) \<and>
       bitmap_inv {} a \<and> ba_allocs a = [] \<and> ba_flags a = flags \<and>
       ba_base a = (if base = 0 then blk_size else base) \<and>
       ba_base a + ba_length a = base + len \<and> ba_bytes_alloced a = 0"
proof -
  have p2: "blk_size AND (blk_size - 1) = 0" "0 < blk_size" using pow2_test[of blk_size] assms(1) by auto
  have am: "x AND (blk_size - 1) = x mod blk_size" for x unfolding assms(1) by (rule and_mask_nat)
  show chk: "nvgpu_bitmap_check_argument_limits base len blk_size =
      Some (if base mod blk_size = 0 \<and> len mod blk_size = 0 \<and> 0 < len then Inr () else Inl EINVAL)"
    using p2 by (simp add: nvgpu_bitmap_check_argument_limits_def am[simplified] Let_def)
  assume al: "base mod blk_size = 0" "len mod blk_size = 0" "0 < len"
  define base' where "base' = (if base = 0 then blk_size else base)"
  define len' where "len' = (if base = 0 then len - blk_size else len)"
  have "blk_size \<le> len" using al p2 by (metis dvd_imp_le mod_0_imp_dvd)
  then have bl: "base' + len' = base + len" "len' \<le> len" by (auto simp: base'_def len'_def)
  have m0: "base' mod blk_size = 0" "len' mod blk_size = 0" "0 < base'"
    using al p2 \<open>blk_size \<le> len\<close> by (auto simp: base'_def len'_def mod_diff_right_eq mod_0_imp_dvd
        dvd_imp_mod_0 dvd_diff_nat)
  have nb: "len' div blk_size \<le> INT_MAX" using assms(4) bl(2) div_le_mono le_trans by blast
  define a where "a = \<lparr>ba_base = base', ba_length = len', ba_blk_size = blk_size, ba_blk_shift = s,
    ba_num_bits = len' div blk_size, ba_bit_offs = base' div blk_size, ba_next_blk = 0,
    ba_bitmap = replicate ((len' div blk_size + 63) div 64) 0, ba_allocs = [],
    ba_meta_data_cache = (\<not> bit flags GPU_ALLOC_NO_ALLOC_PAGE), ba_flags = flags, ba_inited = True,
    ba_nr_allocs = 0, ba_nr_fixed_allocs = 0, ba_bytes_alloced = 0, ba_bytes_freed = 0\<rparr>"
  have ffs: "nvgpu_safe_sub_u64 (nvgpu_ffs blk_size) 1 = Some s"
    using nvgpu_ffs_power2[OF assms(2)] by (simp add: assms(1) safe_simps)
  have sa: "nvgpu_safe_add_u64 (len' div blk_size) 63 = Some (len' div blk_size + 63)"
    using nb by (simp add: safe_simps)
  have "nvgpu_bitmap_allocator_init True True True base len blk_size flags = Some (Inr a)"
  proof (cases "base = 0")
    case True
    then have l: "len' = len - blk_size" "base' = blk_size" by (simp_all add: len'_def base'_def)
    show ?thesis using chk al ffs sa True \<open>blk_size \<le> len\<close> p2 assms(1)
      by (simp add: nvgpu_bitmap_allocator_init_def BITS_TO_LONGS_def Let_def safe_simps a_def l)
  next
    case False
    then have l: "len' = len" "base' = base" by (simp_all add: len'_def base'_def)
    show ?thesis using chk al ffs sa False p2 assms(1)
      by (simp add: nvgpu_bitmap_allocator_init_def BITS_TO_LONGS_def Let_def safe_simps a_def l)
  qed
  moreover have "used_blocks (ba_bitmap a) (ba_num_bits a) = 0"
    using tb_replicate_0 by (auto simp: used_blocks_def a_def)
  moreover have "0 < base' div blk_size" using m0 p2 by (auto simp: div_greater_zero_iff dvd_imp_le mod_0_imp_dvd)
  ultimately show "\<exists>a. nvgpu_bitmap_allocator_init True True True base len blk_size flags = Some (Inr a) \<and>
       bitmap_inv {} a \<and> ba_allocs a = [] \<and> ba_flags a = flags \<and>
       ba_base a = (if base = 0 then blk_size else base) \<and>
       ba_base a + ba_length a = base + len \<and> ba_bytes_alloced a = 0"
    using m0 bl nb assms p2 tb_replicate_0
    by (intro exI[of _ a]) (auto simp: bitmap_inv_def bitmap_wf_def a_def regions_def blocks_inv_def
        covered_def base'_def[symmetric])
qed

section \<open>The allocator contract\<close>

definition bitmap_live :: "nvgpu_bitmap_allocator \<Rightarrow> (u64 \<times> u64) set" where
  "bitmap_live a = (\<lambda>(k, al). (k, bal_length al)) ` set (ba_allocs a)"

definition bitmap_limits :: "nvgpu_bitmap_allocator \<Rightarrow> u64 \<times> u64" where
  "bitmap_limits a = (ba_base a, ba_base a + ba_length a)"

definition bitmap_fits :: "nvgpu_bitmap_allocator \<Rightarrow> u64 \<Rightarrow> bool" where
  "bitmap_fits a len \<longleftrightarrow> 0 < len \<and> len \<le> U64_MAX \<and> blks_for a len \<le> U32_MAX"

definition bitmap_budget :: "nvgpu_bitmap_allocator \<Rightarrow> nat \<Rightarrow> bool" where
  "bitmap_budget a k \<longleftrightarrow> ba_bytes_alloced a + k * ba_length a \<le> U64_MAX \<and> ba_nr_allocs a + k \<le> U64_MAX"

definition bitmap_tracked_inv :: "nvgpu_bitmap_allocator \<Rightarrow> bool" where
  "bitmap_tracked_inv a \<longleftrightarrow> bitmap_inv {} a \<and> tracked a"

lemma bitmap_live_bounds:
  assumes "bitmap_inv F a" "(k, l) \<in> bitmap_live a"
  obtains o' n where "(o', n) \<in> regions a" "k = (o' + ba_bit_offs a) * ba_blk_size a" "l = n * ba_blk_size a"
    "0 < n" "o' + n \<le> ba_num_bits a"
proof -
  obtain al where al: "(k, al) \<in> set (ba_allocs a)" "l = bal_length al" using assms(2) by (auto simp: bitmap_live_def)
  then have aw: "alloc_wf a k al" "region_of a k al \<in> regions a" using assms(1)
    by (auto simp: bitmap_inv_def regions_def)
  obtain o' n where r: "region_of a k al = (o', n)" by force
  have "blocks_inv (ba_bitmap a) (ba_num_bits a) (regions a \<union> F)" using assms(1) by (simp add: bitmap_inv_def)
  then show ?thesis using that[of o' n] aw r al blocks_inv_bounds[of _ _ "regions a \<union> F" o' n]
    by (auto simp: alloc_wf_def)
qed

lemma bitmap_live_disjoint:
  assumes inv: "bitmap_inv F a" and m: "(k, l) \<in> bitmap_live a" "(k', l') \<in> bitmap_live a" "(k, l) \<noteq> (k', l')"
  shows "ranges_disjoint k (k + l) k' (k' + l')"
proof -
  obtain o1 n1 where 1: "(o1, n1) \<in> regions a" "k = (o1 + ba_bit_offs a) * ba_blk_size a" "l = n1 * ba_blk_size a"
    by (rule bitmap_live_bounds[OF inv m(1)])
  obtain o2 n2 where 2: "(o2, n2) \<in> regions a" "k' = (o2 + ba_bit_offs a) * ba_blk_size a" "l' = n2 * ba_blk_size a"
    by (rule bitmap_live_bounds[OF inv m(2)])
  have "ranges_disjoint o1 (o1 + n1) o2 (o2 + n2)"
    using inv 1 2 m(3) by (intro blocks_inv_disjoint[of "ba_bitmap a" "ba_num_bits a" "regions a \<union> F"])
      (auto simp: bitmap_inv_def)
  then have "(o1 + n1) * ba_blk_size a \<le> o2 * ba_blk_size a \<or> (o2 + n2) * ba_blk_size a \<le> o1 * ba_blk_size a"
    unfolding ranges_disjoint_def by (meson mult_le_mono1)
  then show ?thesis by (auto simp: ranges_disjoint_def 1 2 algebra_simps)
qed

lemma bitmap_cfg_eqs:
  assumes "bitmap_cfg a' = bitmap_cfg a"
  shows "bitmap_limits a' = bitmap_limits a" "bitmap_fits a' n = bitmap_fits a n" "tracked a' = tracked a"
    "ba_length a' = ba_length a" "blks_for a' n = blks_for a n"
  using assms by (simp_all add: bitmap_cfg_def bitmap_limits_def bitmap_fits_def tracked_def blks_for_def)

lemma bitmap_free_unknown:
  assumes "addr \<notin> fst ` set (ba_allocs a)"
  shows "nvgpu_bitmap_free a addr = Some a"
  using assms by (auto simp: nvgpu_bitmap_free_def find_alloc_metadata_def dest!: idx_search_in
      split: option.splits) force

lemma blks_for_covers: "bitmap_wf a \<Longrightarrow> len \<le> blks_for a len * ba_blk_size a"
proof -
  assume "bitmap_wf a"
  then have b: "0 < ba_blk_size a" by (rule bitmap_wf_facts(1))
  have "len div ba_blk_size a * ba_blk_size a + len mod ba_blk_size a = len" by simp
  moreover have "len mod ba_blk_size a < ba_blk_size a" using b by simp
  ultimately have "len \<le> (len div ba_blk_size a + 1) * ba_blk_size a" unfolding add_mult_distrib by linarith
  then show ?thesis unfolding blks_for_def by auto
qed

lemma free_area_not_live:
  assumes inv: "bitmap_inv F a" and fr: "free_area (ba_bitmap a) o' n" and n: "0 < n"
  shows "((o' + ba_bit_offs a) * ba_blk_size a, l) \<notin> bitmap_live a"
proof
  assume live: "((o' + ba_bit_offs a) * ba_blk_size a, l) \<in> bitmap_live a"
  have wf: "bitmap_wf a" and bl: "blocks_inv (ba_bitmap a) (ba_num_bits a) (regions a \<union> F)"
    using inv by (simp_all add: bitmap_inv_def)
  obtain o2 n2 where r: "(o2, n2) \<in> regions a"
    "(o' + ba_bit_offs a) * ba_blk_size a = (o2 + ba_bit_offs a) * ba_blk_size a" "0 < n2"
    by (rule bitmap_live_bounds[OF inv live])
  then have "o2 = o'" using bitmap_wf_facts(1)[OF wf] by simp
  then have "tb (ba_bitmap a) o'" using blocks_inv_bounds(3)[OF bl, of o2 n2 o'] r by auto
  then show False using fr n by (auto simp: free_area_def)
qed

interpretation bitmap: range_allocator bitmap_tracked_inv bitmap_live bitmap_limits bitmap_fits bitmap_budget
  nvgpu_bitmap_balloc nvgpu_bitmap_free
proof
  fix s k l
  assume inv: "bitmap_tracked_inv s" and kl: "(k, l) \<in> bitmap_live s"
  then have i: "bitmap_inv {} s" "bitmap_wf s" by (auto simp: bitmap_tracked_inv_def bitmap_inv_def)
  obtain o' n where "k = (o' + ba_bit_offs s) * ba_blk_size s" "l = n * ba_blk_size s" "0 < n" "o' + n \<le> ba_num_bits s"
    by (rule bitmap_live_bounds[OF i(1) kl])
  then show "0 < k \<and> 0 < l \<and> fst (bitmap_limits s) \<le> k \<and> k + l \<le> snd (bitmap_limits s)"
    using region_bound[OF i(2), of o' n] bitmap_wf_facts(1)[OF i(2)] by (auto simp: bitmap_limits_def)
next
  fix s k l k' l'
  assume "bitmap_tracked_inv s" "(k, l) \<in> bitmap_live s" "(k', l') \<in> bitmap_live s" "(k, l) \<noteq> (k', l')"
  then show "ranges_disjoint k (k + l) k' (k' + l')"
    using bitmap_live_disjoint unfolding bitmap_tracked_inv_def by blast
next
  fix s len k mem_ok
  assume "bitmap_tracked_inv s" and fit: "bitmap_fits s len" and bud: "bitmap_budget s (Suc k)"
  then have i: "bitmap_inv {} s" "tracked s" "bitmap_wf s" by (auto simp: bitmap_tracked_inv_def bitmap_inv_def)
  have fit': "0 < len" "len \<le> U64_MAX" "blks_for s len \<le> U32_MAX" using fit by (simp_all add: bitmap_fits_def)
  have st: "ba_bytes_alloced s + ba_length s \<le> U64_MAX" "ba_nr_allocs s < U64_MAX"
    using bud by (auto simp: bitmap_budget_def)
  obtain addr s' where r: "nvgpu_bitmap_balloc mem_ok s len = Some (addr, s')"
    "(addr = 0 \<and> balloc_failed {} s s') \<or>
     (\<exists>o'. addr = (o' + ba_bit_offs s) * ba_blk_size s \<and> balloc_done {} s o' (blks_for s len) s')"
    using nvgpu_bitmap_balloc_spec[OF i(1) fit' st, of mem_ok] by blast
  show "\<exists>a s'. nvgpu_bitmap_balloc mem_ok s len = Some (a, s') \<and> bitmap_tracked_inv s' \<and>
         bitmap_limits s' = bitmap_limits s \<and> (\<forall>n. bitmap_fits s' n = bitmap_fits s n) \<and> bitmap_budget s' k \<and>
         (if a = 0 then bitmap_live s' = bitmap_live s
          else \<exists>l\<ge>len. (a, l) \<notin> bitmap_live s \<and> bitmap_live s' = insert (a, l) (bitmap_live s))"
    using r(2)
  proof
    assume f: "addr = 0 \<and> balloc_failed {} s s'"
    then have c: "bitmap_cfg s' = bitmap_cfg s" by (simp add: balloc_failed_def)
    show ?thesis using f r(1) bud i(2) bitmap_cfg_eqs[OF c]
      by (auto simp: balloc_failed_def bitmap_tracked_inv_def bitmap_budget_def bitmap_live_def)
  next
    assume "\<exists>o'. addr = (o' + ba_bit_offs s) * ba_blk_size s \<and> balloc_done {} s o' (blks_for s len) s'"
    then obtain o' where d: "addr = (o' + ba_bit_offs s) * ba_blk_size s" "balloc_done {} s o' (blks_for s len) s'" by blast
    have c: "bitmap_cfg s' = bitmap_cfg s" and ob: "o' + blks_for s len \<le> ba_num_bits s"
      using d(2) by (simp_all add: balloc_done_def)
    note rb = region_bound[OF i(3) ob]
    have bud': "bitmap_budget s' k" using bud d(2) rb(5) bitmap_cfg_eqs(4)[OF c]
      by (auto simp: bitmap_budget_def balloc_done_def)
    have live: "bitmap_live s' = insert (addr, blks_for s len * ba_blk_size s) (bitmap_live s)"
      using d i(2) by (auto simp: balloc_done_def bitmap_live_def Let_def)
    have "(addr, blks_for s len * ba_blk_size s) \<notin> bitmap_live s"
      using free_area_not_live[OF i(1) _ blks_for_pos[OF i(3) fit'(1)]] d by (auto simp: balloc_done_def)
    then show ?thesis using r(1) d bud' live i(2) bitmap_cfg_eqs[OF c] rb(4) blks_for_covers[OF i(3), of len]
      by (auto simp: bitmap_tracked_inv_def balloc_done_def)
  qed
next
  fix s k addr
  assume "bitmap_tracked_inv s" and bud: "bitmap_budget s (Suc k)"
  then have i: "bitmap_inv {} s" "tracked s" by (auto simp: bitmap_tracked_inv_def)
  show "\<exists>s'. nvgpu_bitmap_free s addr = Some s' \<and> bitmap_tracked_inv s' \<and> bitmap_limits s' = bitmap_limits s \<and>
         (\<forall>n. bitmap_fits s' n = bitmap_fits s n) \<and> bitmap_budget s' k \<and>
         bitmap_live s' = {p \<in> bitmap_live s. fst p \<noteq> addr}"
  proof (cases "addr \<in> fst ` set (ba_allocs s)")
    case False
    then have "bitmap_live s = {p \<in> bitmap_live s. fst p \<noteq> addr}" by (force simp: bitmap_live_def)
    then show ?thesis using bitmap_free_unknown[OF False] i bud
      by (intro exI[of _ s]) (auto simp: bitmap_tracked_inv_def bitmap_budget_def)
  next
    case True
    then obtain al where "(addr, al) \<in> set (ba_allocs s)" by auto
    then obtain s' where f: "nvgpu_bitmap_free s addr = Some s'" "bitmap_inv {} s'" "bitmap_cfg s' = bitmap_cfg s"
      "ba_allocs s' = idx_unlink addr (ba_allocs s)"
      "ba_bytes_alloced s' = ba_bytes_alloced s" "ba_nr_allocs s' = ba_nr_allocs s"
      using nvgpu_bitmap_free_spec[OF i] by blast
    then show ?thesis using i bud bitmap_cfg_eqs[OF f(3)]
      by (auto simp: bitmap_tracked_inv_def bitmap_budget_def bitmap_live_def set_idx_unlink)
  qed
qed

end
