(* ===== verification/Bitmap_Properties.thy ===== *)
theory Bitmap_Properties
  imports Bitmap_Allocator
begin

text \<open>The properties of the bitmap operations and of the bitmap allocator, each with a
  concrete use on a small allocator: eight blocks of 4 KiB from \<open>0x1000\<close> on.\<close>

definition small_bitmap :: nvgpu_bitmap_allocator where
  "small_bitmap = \<lparr>ba_base = 4096, ba_length = 32768, ba_blk_size = 4096, ba_blk_shift = 12,
     ba_num_bits = 8, ba_bit_offs = 1, ba_next_blk = 0, ba_bitmap = [0], ba_allocs = [],
     ba_meta_data_cache = True, ba_flags = 0, ba_inited = True, ba_nr_allocs = 0,
     ba_nr_fixed_allocs = 0, ba_bytes_alloced = 0, ba_bytes_freed = 0\<rparr>"

lemma tb_zero [simp]: "i < 64 \<Longrightarrow> \<not> tb [0] i"
  by (simp add: tb_def)

lemma free_area_zero [simp]: "s + k \<le> 64 \<Longrightarrow> free_area [0] s k"
  by (simp add: free_area_def)

lemma small_bitmap_inv [simp]: "bitmap_inv {} small_bitmap" "tracked small_bitmap"
  by (simp_all add: bitmap_inv_def bitmap_wf_def small_bitmap_def regions_def blocks_inv_def covered_def
      used_blocks_def tracked_def cong: conj_cong)

lemma small_bitmap_sel [simp]:
  "ba_base small_bitmap = 4096" "ba_length small_bitmap = 32768" "ba_blk_size small_bitmap = 4096"
  "ba_num_bits small_bitmap = 8" "ba_bit_offs small_bitmap = 1" "ba_bitmap small_bitmap = [0]"
  "ba_allocs small_bitmap = []" "ba_nr_allocs small_bitmap = 0" "ba_nr_fixed_allocs small_bitmap = 0"
  "ba_bytes_alloced small_bitmap = 0"
  by (simp_all add: small_bitmap_def)

lemma small_bitmap_blks [simp]: "blks_for small_bitmap 5000 = 2" "blks_for small_bitmap 4096 = 1"
  by (simp_all add: blks_for_def)

lemma kill_allocs_all: "idx_sorted xs \<Longrightarrow> bitmap_kill_allocs xs n = (n + length xs, [])"
proof (induction xs arbitrary: n)
  case (Cons p xs)
  obtain k v where p: "p = (k, v)" by force
  have "idx_unlink k (p # xs) = xs" using Cons.prems p by (force simp: idx_unlink_def filter_id_conv)
  then show ?case using Cons p by (subst bitmap_kill_allocs.simps) (simp add: idx_enum_start_0 del: bitmap_kill_allocs.simps)
qed (simp add: bitmap_kill_allocs.simps idx_enum_start_def)

lemma balloc_done_free:
  assumes inv: "bitmap_inv F a" and t: "tracked a" and d: "balloc_done F a o' n a1" and n: "0 < n"
    and addr: "addr = (o' + ba_bit_offs a) * ba_blk_size a"
  shows "\<exists>a2. nvgpu_bitmap_free a1 addr = Some a2 \<and> bitmap_inv F a2 \<and>
    set (ba_allocs a2) = set (ba_allocs a) \<and>
    (\<forall>i<ba_num_bits a. tb (ba_bitmap a2) i = tb (ba_bitmap a) i) \<and>
    ba_bytes_freed a2 + ba_bytes_alloced a = ba_bytes_freed a + ba_bytes_alloced a1"
proof -
  define al where "al = \<lparr>bal_base = addr, bal_length = n * ba_blk_size a\<rparr>"
  have d': "bitmap_inv F a1" "bitmap_cfg a1 = bitmap_cfg a" "set (ba_allocs a1) = insert (addr, al) (set (ba_allocs a))"
    using d t by (auto simp: balloc_done_def addr al_def Let_def)
  obtain a2 where a2: "nvgpu_bitmap_free a1 addr = Some a2" "bitmap_inv F a2" "bitmap_cfg a2 = bitmap_cfg a1"
    "ba_allocs a2 = idx_unlink addr (ba_allocs a1)" "ba_bytes_alloced a2 = ba_bytes_alloced a1"
    using nvgpu_bitmap_free_spec[OF d'(1), of addr al] d' t bitmap_cfg_eqs(3)[OF d'(2)] by auto
  have "(addr, l) \<notin> bitmap_live a" for l
    using free_area_not_live[OF inv _ n, of o'] d by (simp add: addr balloc_done_def)
  then have set_eq: "set (ba_allocs a2) = set (ba_allocs a)"
    using a2(4) d'(3) by (force simp: set_idx_unlink bitmap_live_def)
  have c: "bitmap_cfg a2 = bitmap_cfg a" using a2(3) d'(2) by simp
  then have r: "regions a2 = regions a" "ba_num_bits a2 = ba_num_bits a" "ba_blk_size a2 = ba_blk_size a"
    using set_eq by (auto simp: regions_def region_of_def bitmap_cfg_def)
  have bits: "tb (ba_bitmap a2) i = tb (ba_bitmap a) i" if "i < ba_num_bits a" for i
    using blocks_inv_tb[of "ba_bitmap a2" "ba_num_bits a" "regions a \<union> F" i]
      blocks_inv_tb[of "ba_bitmap a" "ba_num_bits a" "regions a \<union> F" i] inv a2(2) r that
    by (simp add: bitmap_inv_def)
  then have "used_blocks (ba_bitmap a2) (ba_num_bits a) = used_blocks (ba_bitmap a) (ba_num_bits a)"
    unfolding used_blocks_def by (metis (mono_tags, lifting) Collect_cong)
  then have "ba_bytes_freed a2 + ba_bytes_alloced a = ba_bytes_freed a + ba_bytes_alloced a1"
    using inv a2(2,5) r by (simp add: bitmap_inv_def)
  then show ?thesis using a2(1,2) set_eq bits by blast
qed

section \<open>Searching a bitmap\<close>

text \<open>C22: \<open>bitmap_find_next_zero_area\<close> with no alignment returns the first run of \<open>nr\<close> clear
  bits at or after \<open>start\<close>, and the size of the bitmap exactly when there is no such run.\<close>

theorem find_next_zero_area_first_fit:
  assumes "sz \<le> 64 * length m" "sz + nr < U64_MAX" "start \<le> sz" "0 < nr"
  shows "\<exists>r. bitmap_find_next_zero_area m sz start nr 0 = Some r \<and>
    (if \<exists>s\<ge>start. s + nr \<le> sz \<and> free_area m s nr
     then start \<le> r \<and> r + nr \<le> sz \<and> free_area m r nr \<and>
       (\<forall>s. start \<le> s \<and> s < r \<longrightarrow> \<not> (s + nr \<le> sz \<and> free_area m s nr))
     else r = sz)"
proof -
  obtain r where r: "bitmap_find_next_zero_area m sz start nr 0 = Some r"
    "first_from (\<lambda>s. s + nr \<le> sz \<and> free_area m s nr) start sz r"
    using bitmap_find_next_zero_area_first[OF assms] by blast
  have "r = sz" if "\<not> (\<exists>s\<ge>start. s + nr \<le> sz \<and> free_area m s nr)"
    using r(2) that unfolding first_from_def by (metis le_neq_implies_less)
  moreover have "r < sz" if s: "\<exists>s\<ge>start. s + nr \<le> sz \<and> free_area m s nr"
    using r(2) s assms(4) unfolding first_from_def
    by (metis add_leE le_add1 le_neq_implies_less less_add_same_cancel1 not_less order_le_less_trans)
  ultimately show ?thesis using r unfolding first_from_def by (intro exI[of _ r]) auto
qed

theorem find_next_zero_area_first_fit_witness:
  "bitmap_find_next_zero_area [0] 60 3 50 0 = Some 3"
proof -
  have e: "\<exists>s\<ge>3. s + 50 \<le> 60 \<and> free_area [0] s 50" by (rule exI[of _ 3]) simp
  obtain r where r: "bitmap_find_next_zero_area [0] 60 3 50 0 = Some r" "3 \<le> r"
    "\<forall>s. 3 \<le> s \<and> s < r \<longrightarrow> \<not> (s + 50 \<le> 60 \<and> free_area [0] s 50)"
    using find_next_zero_area_first_fit[of 60 "[0]" 50 3] e by auto
  then have "r = 3" using spec[OF r(3), of 3] by force
  then show ?thesis using r(1) by simp
qed

section \<open>Allocation\<close>

text \<open>C19: A request of \<open>nvgpu_bitmap_balloc\<close> always returns. It returns 0 and leaves the
  allocations and the bitmap alone only when no run of enough free blocks exists anywhere in
  the range, or when a tracking allocator finds no memory for its meta-data. Otherwise the
  address is a multiple of the block size, the whole blocks that cover the request lie inside the
  range and were free, and they are the only blocks whose state changes.\<close>

theorem bitmap_balloc_correct:
  assumes "bitmap_inv F a" "0 < len" "len \<le> U64_MAX" "blks_for a len \<le> U32_MAX"
    "ba_bytes_alloced a + ba_length a \<le> U64_MAX" "ba_nr_allocs a < U64_MAX"
  shows "\<exists>addr a'. nvgpu_bitmap_balloc mem_ok a len = Some (addr, a') \<and>
    (if addr = 0
     then bitmap_inv F a' \<and> ba_allocs a' = ba_allocs a \<and> (\<forall>i. tb (ba_bitmap a') i = tb (ba_bitmap a) i) \<and>
       (tracked a \<and> \<not> mem_ok \<or>
        (\<forall>s. s + blks_for a len \<le> ba_num_bits a \<longrightarrow> \<not> free_area (ba_bitmap a) s (blks_for a len)))
     else addr mod ba_blk_size a = 0 \<and> ba_base a \<le> addr \<and>
       addr + blks_for a len * ba_blk_size a \<le> ba_base a + ba_length a \<and>
       len \<le> blks_for a len * ba_blk_size a \<and>
       ba_bytes_alloced a' = ba_bytes_alloced a + blks_for a len * ba_blk_size a \<and>
       (\<exists>o'. addr = (o' + ba_bit_offs a) * ba_blk_size a \<and> free_area (ba_bitmap a) o' (blks_for a len) \<and>
         (\<forall>i<ba_num_bits a. tb (ba_bitmap a') i = (o' \<le> i \<and> i < o' + blks_for a len \<or> tb (ba_bitmap a) i)) \<and>
         bitmap_inv (if tracked a then F else insert (o', blks_for a len) F) a'))"
proof -
  have wf: "bitmap_wf a" using assms(1) by (simp add: bitmap_inv_def)
  obtain addr a' where r: "nvgpu_bitmap_balloc mem_ok a len = Some (addr, a')"
    "(addr = 0 \<and> balloc_failed F a a' \<and>
       (tracked a \<and> \<not> mem_ok \<or>
        (\<forall>s. s + blks_for a len \<le> ba_num_bits a \<longrightarrow> \<not> free_area (ba_bitmap a) s (blks_for a len)))) \<or>
     (\<exists>o'. addr = (o' + ba_bit_offs a) * ba_blk_size a \<and> balloc_done F a o' (blks_for a len) a')"
    using nvgpu_bitmap_balloc_spec[OF assms, of mem_ok] by blast
  show ?thesis using r(2)
  proof
    assume "\<exists>o'. addr = (o' + ba_bit_offs a) * ba_blk_size a \<and> balloc_done F a o' (blks_for a len) a'"
    then obtain o' where o': "addr = (o' + ba_bit_offs a) * ba_blk_size a"
      "balloc_done F a o' (blks_for a len) a'" by blast
    then have b: "o' + blks_for a len \<le> ba_num_bits a" by (simp add: balloc_done_def)
    show ?thesis using r(1) o' region_bound[OF wf b] blks_for_covers[OF wf, of len] balloc_done_bits[OF assms(1) o'(2)]
      by (intro exI[of _ addr] exI[of _ a']) (auto simp: balloc_done_def)
  qed (use r(1) in \<open>auto simp: balloc_failed_def\<close>)
qed

theorem bitmap_balloc_correct_witness:
  "\<exists>addr a'. nvgpu_bitmap_balloc True small_bitmap 5000 = Some (addr, a') \<and> addr mod 4096 = 0 \<and>
     4096 \<le> addr \<and> addr + 8192 \<le> 36864 \<and> ba_bytes_alloced a' = 8192"
proof -
  obtain addr a' where r: "nvgpu_bitmap_balloc True small_bitmap 5000 = Some (addr, a')"
    "if addr = 0
     then \<forall>s. s + 2 \<le> (8::nat) \<longrightarrow> \<not> free_area [0] s 2
     else addr mod 4096 = 0 \<and> 4096 \<le> addr \<and> addr + 8192 \<le> 36864 \<and> ba_bytes_alloced a' = 8192"
    using bitmap_balloc_correct[of "{}" small_bitmap 5000 True] by (force split: if_splits)
  moreover have "\<not> (\<forall>s. s + 2 \<le> (8::nat) \<longrightarrow> \<not> free_area [0] s 2)"
    using free_area_zero[of 0 2] by (intro notI) (drule spec[of _ 0], simp)
  then have "addr \<noteq> 0" using r(2) by presburger
  ultimately show ?thesis by auto
qed

text \<open>C3: Between a successful allocation and its release, whatever other allocations and
  releases happen in between and whichever meta-data allocations fail, every later allocation
  is given a range inside the allocator's limits that does not meet it.\<close>

theorem bitmap_alloc_exclusive:
  assumes "bitmap_inv {} s" "tracked s" "bitmap_fits s len" "bitmap_budget s (Suc (length ops + 1))"
    "bitmap.sizes_fit s ops" "bitmap_fits s len2"
    and "nvgpu_bitmap_balloc e s len = Some (a, s1)" "a \<noteq> 0" "Op_free a \<notin> set ops"
  shows "\<exists>l rs s2 b s3. len \<le> l \<and> bitmap.run_ops ops s1 = Some (rs, s2) \<and> (a, l) \<in> bitmap_live s2 \<and>
    nvgpu_bitmap_balloc e2 s2 len2 = Some (b, s3) \<and>
    (b \<noteq> 0 \<longrightarrow> (\<exists>l2\<ge>len2. (b, l2) \<in> bitmap_live s3 \<and> ranges_disjoint a (a + l) b (b + l2) \<and>
       ba_base s \<le> b \<and> b + l2 \<le> ba_base s + ba_length s))"
  using bitmap.alloc_exclusive[of s len ops len2 e a s1 e2] assms
  by (simp add: bitmap_tracked_inv_def bitmap_limits_def)

lemma small_bitmap_first: "\<exists>s1. nvgpu_bitmap_balloc True small_bitmap 4096 = Some (4096, s1)"
proof -
  have a: "bitmap_find_next_zero_area [0] 8 0 1 0 = Some 0"
    using bitmap_find_next_zero_area_first[of 8 "[0]" 1 0]
    by (auto simp: first_from_def dest: spec[of _ 0])
  show ?thesis using nvgpu_bitmap_set_correct[of 0 1 "[0]"] a
    by (auto simp: nvgpu_bitmap_balloc_def bitmap_balloc_search_def small_bitmap_def safe_simps
        nvgpu_bitmap_store_alloc_def insert_alloc_metadata_def Let_def)
qed

theorem bitmap_alloc_exclusive_witness:
  "\<exists>s1 s2 rs l b s3. nvgpu_bitmap_balloc True small_bitmap 4096 = Some (4096, s1) \<and>
     bitmap.run_ops [Op_alloc False 4096, Op_alloc True 5000, Op_free 8192] s1 = Some (rs, s2) \<and>
     4096 \<le> l \<and> (4096, l) \<in> bitmap_live s2 \<and> nvgpu_bitmap_balloc True s2 5000 = Some (b, s3)"
proof -
  obtain s1 where s1: "nvgpu_bitmap_balloc True small_bitmap 4096 = Some (4096, s1)" using small_bitmap_first by blast
  show ?thesis
    using bitmap_alloc_exclusive[of small_bitmap 4096 "[Op_alloc False 4096, Op_alloc True 5000, Op_free 8192]"
        5000 True 4096 s1 True] s1
    by (auto simp: bitmap_fits_def bitmap_budget_def)
qed

section \<open>Release\<close>

text \<open>C20: Freeing what \<open>nvgpu_bitmap_balloc\<close> returned gives back exactly the state the request
  found: the same blocks in use and the same outstanding allocations, and the bytes freed grow by the
  bytes the request took.\<close>

theorem bitmap_alloc_free_roundtrip:
  assumes "bitmap_inv F a" "tracked a" "bitmap_fits a len" "bitmap_budget a 1"
    and "nvgpu_bitmap_balloc mem_ok a len = Some (addr, a1)" "addr \<noteq> 0"
  shows "\<exists>a2. nvgpu_bitmap_free a1 addr = Some a2 \<and> bitmap_inv F a2 \<and>
    set (ba_allocs a2) = set (ba_allocs a) \<and>
    (\<forall>i<ba_num_bits a. tb (ba_bitmap a2) i = tb (ba_bitmap a) i) \<and>
    ba_bytes_freed a2 + ba_bytes_alloced a = ba_bytes_freed a + ba_bytes_alloced a1"
proof -
  have st: "ba_bytes_alloced a + ba_length a \<le> U64_MAX" "ba_nr_allocs a < U64_MAX"
    using assms(4) by (auto simp: bitmap_budget_def)
  obtain o' where o': "addr = (o' + ba_bit_offs a) * ba_blk_size a" "balloc_done F a o' (blks_for a len) a1"
    using nvgpu_bitmap_balloc_spec[OF assms(1) _ _ _ st, of len mem_ok] assms(3,5,6) by (auto simp: bitmap_fits_def)
  show ?thesis using balloc_done_free[OF assms(1,2) o'(2) _ o'(1)] blks_for_pos assms(1,3)
    by (auto simp: bitmap_fits_def bitmap_inv_def)
qed

theorem bitmap_alloc_free_roundtrip_witness:
  "\<exists>a1 a2. nvgpu_bitmap_balloc True small_bitmap 4096 = Some (4096, a1) \<and>
     nvgpu_bitmap_free a1 4096 = Some a2 \<and> set (ba_allocs a2) = {} \<and> (\<forall>i<8. tb (ba_bitmap a2) i = tb [0] i)"
proof -
  obtain s1 where s1: "nvgpu_bitmap_balloc True small_bitmap 4096 = Some (4096, s1)" using small_bitmap_first by blast
  show ?thesis using bitmap_alloc_free_roundtrip[of "{}" small_bitmap 4096 True 4096 s1] s1
    by (auto simp: bitmap_fits_def bitmap_budget_def)
qed

section \<open>Fixed allocations\<close>

text \<open>At the end of the range the search answers with the offset it was asked for.\<close>

lemma fixed_at_end:
  assumes "bitmap_inv F a" "0 < len" "blks_for a len \<le> U32_MAX"
    and "base = (o' + ba_bit_offs a) * ba_blk_size a" "base + len \<le> U64_MAX" "o' = ba_num_bits a"
  shows "nvgpu_bitmap_balloc_fixed a base len = Some (r, a') \<Longrightarrow> r = base" "base \<noteq> 0"
proof -
  have wf: "bitmap_wf a" using assms(1) by (simp add: bitmap_inv_def)
  have s: "2 ^ ba_blk_shift a = ba_blk_size a" "0 < ba_blk_size a"
    using wf bitmap_wf_facts(1)[OF wf] by (simp_all add: bitmap_wf_def)
  have n: "0 < blks_for a len" by (rule blks_for_pos[OF wf assms(2)])
  have bo: "base = (ba_num_bits a + ba_bit_offs a) * ba_blk_size a" "len \<le> U64_MAX" "base \<le> U64_MAX" using assms(4-6) by auto
  have pre: "nvgpu_safe_mult_u64 (base div ba_blk_size a) (ba_blk_size a) = Some base"
    "nvgpu_safe_sub_u64 (base div ba_blk_size a) (ba_bit_offs a) = Some (ba_num_bits a)"
    "bitmap_blks64 a len = Some (blks_for a len)"
    using safe_mult_down[OF bo(3), of "ba_blk_size a"] bo s blks64_eq[OF wf bo(2)] by (simp_all add: safe_simps)
  have f: "bitmap_find_next_zero_area (ba_bitmap a) (ba_num_bits a) (ba_num_bits a) (blks_for a len) 0 = Some (ba_num_bits a)"
    using find_area_at_end[OF n] bitmap_wf_facts(4)[OF wf assms(3)] by simp
  show "r = base" if "nvgpu_bitmap_balloc_fixed a base len = Some (r, a')"
    using that pre f s(1) by (auto simp: nvgpu_bitmap_balloc_fixed_def Let_def split: Option.bind_splits if_splits)
  show "base \<noteq> 0" using bo(1) s(2) wf by (auto simp: bitmap_wf_def)
qed

text \<open>C21: \<open>nvgpu_bitmap_balloc_fixed\<close> for an aligned address: when all its blocks lie in the range and
  are free it takes exactly them. Otherwise it returns 0 and changes nothing, with one exception: a request
  that starts exactly at the end of the range is never refused. It is granted beyond the range or stops at an
  access outside the bitmap or an overflow.\<close>

theorem bitmap_balloc_fixed_correct:
  assumes "bitmap_inv F a" "0 < len" "blks_for a len \<le> U32_MAX"
    and "base = (o' + ba_bit_offs a) * ba_blk_size a" "base + len \<le> U64_MAX"
    and "ba_bytes_alloced a + ba_length a \<le> U64_MAX" "ba_nr_fixed_allocs a < U64_MAX"
  shows "\<exists>a'. if o' + blks_for a len \<le> ba_num_bits a \<and> free_area (ba_bitmap a) o' (blks_for a len)
     then nvgpu_bitmap_balloc_fixed a base len = Some (base, a') \<and>
       bitmap_inv (insert (o', blks_for a len) F) a' \<and> (o', blks_for a len) \<notin> F \<and>
       ba_allocs a' = ba_allocs a
     else if o' = ba_num_bits a then nvgpu_bitmap_balloc_fixed a base len \<in> {None, Some (base, a')} \<and> base \<noteq> 0
     else nvgpu_bitmap_balloc_fixed a base len = Some (0, a)"
proof (cases "o' = ba_num_bits a")
  case False
  then show ?thesis using nvgpu_bitmap_balloc_fixed_spec[OF assms(1-5) False assms(6,7)] by auto
next
  case True
  have n: "0 < blks_for a len" using blks_for_pos assms(1,2) by (auto simp: bitmap_inv_def)
  show ?thesis using fixed_at_end[OF assms(1-5) True] n True by (cases "nvgpu_bitmap_balloc_fixed a base len") auto
qed

theorem bitmap_balloc_fixed_correct_witness:
  "(\<exists>a'. nvgpu_bitmap_balloc_fixed small_bitmap 8192 5000 = Some (8192, a') \<and> bitmap_inv {(1, 2)} a') \<and>
   nvgpu_bitmap_balloc_fixed small_bitmap 32768 5000 = Some (0, small_bitmap) \<and>
   (\<forall>a'. nvgpu_bitmap_balloc_fixed small_bitmap 36864 5000 \<noteq> Some (0, a'))"
  using bitmap_balloc_fixed_correct[of "{}" small_bitmap 5000 8192 1]
    bitmap_balloc_fixed_correct[of "{}" small_bitmap 5000 32768 7]
    bitmap_balloc_fixed_correct[of "{}" small_bitmap 5000 36864 8] by auto

text \<open>C23: At the very end of the range the search for a free area returns the size of the
  bitmap, its answer for \<open>nothing found\<close>, which is also the offset asked for: when the last
  word of the bitmap has room, \<open>nvgpu_bitmap_balloc_fixed\<close> hands out addresses beyond the end
  of the range and counts them as allocated.\<close>

theorem bitmap_balloc_fixed_past_end:
  assumes "bitmap_inv F a" "0 < len" "blks_for a len \<le> U32_MAX"
    and "base = ba_base a + ba_length a" "base + len \<le> U64_MAX" "ba_num_bits a + blks_for a len \<le> U32_MAX"
    and "ba_num_bits a + blks_for a len \<le> 64 * length (ba_bitmap a)"
    and "ba_bytes_alloced a + blks_for a len * ba_blk_size a \<le> U64_MAX" "ba_nr_fixed_allocs a < U64_MAX"
  shows "\<exists>a'. nvgpu_bitmap_balloc_fixed a base len = Some (base, a') \<and>
    ba_base a' + ba_length a' = base \<and>
    ba_bytes_alloced a' = ba_bytes_alloced a + blks_for a len * ba_blk_size a"
proof -
  have wf: "bitmap_wf a" using assms(1) by (simp add: bitmap_inv_def)
  have s: "2 ^ ba_blk_shift a = ba_blk_size a" "0 < ba_blk_size a"
    using wf bitmap_wf_facts(1)[OF wf] by (simp_all add: bitmap_wf_def)
  have n: "0 < blks_for a len" by (rule blks_for_pos[OF wf assms(2)])
  have bo: "base = (ba_num_bits a + ba_bit_offs a) * ba_blk_size a" "len \<le> U64_MAX" "base \<le> U64_MAX"
    using wf assms(4,5) by (auto simp: bitmap_wf_def algebra_simps)
  have pre: "nvgpu_safe_mult_u64 (base div ba_blk_size a) (ba_blk_size a) = Some base"
    "nvgpu_safe_sub_u64 (base div ba_blk_size a) (ba_bit_offs a) = Some (ba_num_bits a)"
    "bitmap_blks64 a len = Some (blks_for a len)" "wrap32 (ba_num_bits a) = ba_num_bits a"
    using safe_mult_down[OF bo(3), of "ba_blk_size a"] bo s blks64_eq[OF wf bo(2)] bitmap_wf_facts(3)[OF wf]
    by (simp_all add: safe_simps)
  have f: "bitmap_find_next_zero_area (ba_bitmap a) (ba_num_bits a) (ba_num_bits a) (blks_for a len) 0 =
      Some (ba_num_bits a)"
    using find_area_at_end[OF n] bitmap_wf_facts(4)[OF wf assms(3)] by simp
  obtain m where "nvgpu_bitmap_set (ba_bitmap a) (ba_num_bits a) (blks_for a len) = Some m"
    using nvgpu_bitmap_set_correct[OF assms(7,6)] by blast
  then show ?thesis using pre f assms(3,4,8,9) s(1)
    by (simp add: nvgpu_bitmap_balloc_fixed_def Let_def safe_simps)
qed

theorem bitmap_balloc_fixed_past_end_witness:
  "\<exists>a'. nvgpu_bitmap_balloc_fixed small_bitmap 36864 4096 = Some (36864, a') \<and>
     ba_base small_bitmap + ba_length small_bitmap = 36864 \<and> ba_bytes_alloced a' = 4096"
  using bitmap_balloc_fixed_past_end[of "{}" small_bitmap 4096 36864] by auto

section \<open>Start and end of an allocator\<close>

text \<open>\<open>nvgpu_bitmap_allocator_init\<close> accepts exactly the arguments that are multiples of the
  power-of-two block size with a length above 0, and then makes an empty allocator that satisfies the
  invariant and never hands out the block at address 0.\<close>

theorem bitmap_init_correct:
  assumes "blk_size = 2 ^ s" "s < 64" "base + len \<le> U64_MAX" "len div blk_size \<le> INT_MAX"
  shows "if base mod blk_size = 0 \<and> len mod blk_size = 0 \<and> 0 < len
    then \<exists>a. nvgpu_bitmap_allocator_init True True True base len blk_size flags = Some (Inr a) \<and>
       bitmap_inv {} a \<and> ba_allocs a = [] \<and> 0 < ba_base a \<and>
       ba_base a = (if base = 0 then blk_size else base) \<and>
       ba_base a + ba_length a = base + len
    else nvgpu_bitmap_allocator_init True True True base len blk_size flags = Some (Inl EINVAL)"
proof (cases "base mod blk_size = 0 \<and> len mod blk_size = 0 \<and> 0 < len")
  case True
  have "0 < blk_size" using assms(1) by simp
  then show ?thesis using nvgpu_bitmap_allocator_init_spec(2)[OF assms, of flags] True by fastforce
next
  case False
  then show ?thesis using nvgpu_bitmap_allocator_init_spec(1)[OF assms]
    by (simp add: nvgpu_bitmap_allocator_init_def del: de_Morgan_conj)
qed

theorem bitmap_init_correct_witness:
  "(\<exists>a. nvgpu_bitmap_allocator_init True True True 0 1048576 4096 0 = Some (Inr a) \<and> bitmap_inv {} a \<and>
      ba_base a = 4096) \<and>
   nvgpu_bitmap_allocator_init True True True 100 1048576 4096 0 = Some (Inl EINVAL)"
  using bitmap_init_correct[of 4096 12 0 1048576 0] bitmap_init_correct[of 4096 12 100 1048576 0] by auto

text \<open>C24: \<open>nvgpu_bitmap_alloc_destroy\<close> ends, frees the meta-data of every outstanding allocation and
  leaves none.\<close>

theorem bitmap_destroy_frees_all:
  assumes "idx_sorted (ba_allocs a)"
  shows "fst (nvgpu_bitmap_alloc_destroy a) = length (ba_allocs a) \<and>
    ba_allocs (snd (nvgpu_bitmap_alloc_destroy a)) = [] \<and> ba_bitmap (snd (nvgpu_bitmap_alloc_destroy a)) = []"
  using kill_allocs_all[OF assms, of 0] by (simp add: nvgpu_bitmap_alloc_destroy_def)

theorem bitmap_destroy_frees_all_witness:
  "fst (nvgpu_bitmap_alloc_destroy (small_bitmap\<lparr>ba_allocs :=
      [(4096, \<lparr>bal_base = 4096, bal_length = 4096\<rparr>), (12288, \<lparr>bal_base = 12288, bal_length = 8192\<rparr>)]\<rparr>)) = 2"
  using bitmap_destroy_frees_all[of "small_bitmap\<lparr>ba_allocs :=
      [(4096, \<lparr>bal_base = 4096, bal_length = 4096\<rparr>), (12288, \<lparr>bal_base = 12288, bal_length = 8192\<rparr>)]\<rparr>"] by simp

end
