(* ===== verification/Ring.thy ===== *)
theory Ring
  imports Nvgpu_Prelude
begin

text \<open>
  Ring buffers indexed by \<open>get\<close> and \<open>put\<close>, as the job list, the private command buffers
  and the engine queues use them: how many slots are in use, the content as a list, and the
  effect of moving an index by one. The locale \<open>bounded_fifo\<close> is the contract of a ring
  that its clients see.
\<close>

definition ring_used :: "nat \<Rightarrow> nat \<Rightarrow> nat \<Rightarrow> nat" where
  "ring_used n get put = (put + n - get) mod n"

definition ring_content :: "'a list \<Rightarrow> nat \<Rightarrow> nat \<Rightarrow> 'a list" where
  "ring_content xs get put =
     map (\<lambda>i. xs ! ((get + i) mod length xs)) [0..<ring_used (length xs) get put]"

lemma ring_used_less: "0 < n \<Longrightarrow> ring_used n get put < n"
  by (simp add: ring_used_def)

lemma ring_index: "(get::nat) < n \<Longrightarrow> i \<le> n \<Longrightarrow> (get + i) mod n = (if get + i < n then get + i else get + i - n)"
  using le_mod_geq[of n "get + i"] mod_less[of "get + i" n] mod_less[of "get + i - n" n] by auto

lemma ring_used_cases:
  assumes "get < n" "put < n"
  shows "ring_used n get put = (if get \<le> put then put - get else put + n - get)"
proof -
  have e: "put + n - get = put + (n - get)" using assms by simp
  show ?thesis unfolding ring_used_def e using assms by (subst ring_index) auto
qed

lemma ring_used_0: "get < n \<Longrightarrow> put < n \<Longrightarrow> ring_used n get put = 0 \<longleftrightarrow> get = put"
  by (auto simp: ring_used_cases split: if_splits)

lemma ring_put_pos: "get < n \<Longrightarrow> put < n \<Longrightarrow> (get + ring_used n get put) mod n = put"
  using ring_used_less[of n get put] by (auto simp: ring_used_cases ring_index)

lemma ring_next_cases: "i < n \<Longrightarrow> Suc i mod n = (if Suc i = n then 0 else Suc i)"
  by (simp add: mod_Suc)

lemma ring_full: "get < n \<Longrightarrow> put < n \<Longrightarrow> Suc put mod n = get \<longleftrightarrow> ring_used n get put = n - 1"
  by (auto simp: ring_used_cases ring_next_cases split: if_splits)

lemma ring_used_push:
  "get < n \<Longrightarrow> put < n \<Longrightarrow> Suc put mod n \<noteq> get \<Longrightarrow>
     ring_used n get (Suc put mod n) = Suc (ring_used n get put)"
  by (auto simp: ring_used_cases ring_next_cases split: if_splits)

lemma ring_used_pop:
  "get < n \<Longrightarrow> put < n \<Longrightarrow> get \<noteq> put \<Longrightarrow>
     ring_used n get put = Suc (ring_used n (Suc get mod n) put)"
  by (auto simp: ring_used_cases ring_next_cases split: if_splits)

lemma length_ring_content [simp]: "length (ring_content xs get put) = ring_used (length xs) get put"
  by (simp add: ring_content_def)

lemma ring_content_empty [simp]: "get < length xs \<Longrightarrow> ring_content xs get get = []"
  by (simp add: ring_content_def ring_used_cases)

lemma ring_slot_outside:
  assumes "get < n" "put < n" "i < ring_used n get put"
  shows "(get + i) mod n \<noteq> put"
  using assms ring_used_less[of n get put] by (auto simp: ring_used_cases ring_index split: if_splits)

lemma ring_content_store_outside:
  assumes "\<And>i. i < ring_used (length xs) get put \<Longrightarrow> (get + i) mod length xs \<noteq> k"
  shows "ring_content (xs[k := v]) get put = ring_content xs get put"
proof -
  have "xs[k := v] ! ((get + i) mod length xs) = xs ! ((get + i) mod length xs)"
    if "i < ring_used (length xs) get put" for i
    using assms[OF that] by (metis nth_list_update_neq)
  then show ?thesis by (simp add: ring_content_def)
qed

lemma ring_content_store:
  assumes "get < length xs" "put < length xs"
  shows "ring_content (xs[put := v]) get put = ring_content xs get put"
  by (rule ring_content_store_outside) (rule ring_slot_outside[OF assms])

text \<open>The slot that a pop has left is outside the ring as well.\<close>

lemma ring_content_store_popped:
  assumes "get < length xs" "put < length xs" "get \<noteq> put"
  shows "ring_content (xs[get := v]) (Suc get mod length xs) put = ring_content xs (Suc get mod length xs) put"
proof (rule ring_content_store_outside)
  fix i
  let ?n = "length xs"
  assume i: "i < ring_used ?n (Suc get mod ?n) put"
  have u: "Suc (ring_used ?n (Suc get mod ?n) put) < ?n"
    using ring_used_pop[OF assms] ring_used_less[of ?n get put] assms by linarith
  have "(Suc get mod ?n + i) mod ?n = (get + Suc i) mod ?n" by (simp add: mod_add_left_eq)
  also have "\<dots> = (if get + Suc i < ?n then get + Suc i else get + Suc i - ?n)"
    using i u assms by (intro ring_index) auto
  finally show "(Suc get mod ?n + i) mod ?n \<noteq> get" using i u by (auto split: if_splits)
qed

lemma ring_content_push:
  assumes "get < length xs" "put < length xs" "Suc put mod length xs \<noteq> get"
  shows "ring_content xs get (Suc put mod length xs) = ring_content xs get put @ [xs ! put]"
  using assms by (simp add: ring_content_def ring_used_push ring_put_pos)

lemma ring_content_pop:
  assumes "get < length xs" "put < length xs" "get \<noteq> put"
  shows "ring_content xs get put = xs ! get # ring_content xs (Suc get mod length xs) put"
proof -
  let ?u = "ring_used (length xs) (Suc get mod length xs) put"
  have "ring_content xs get put = map (\<lambda>i. xs ! ((get + i) mod length xs)) (0 # map Suc [0..<?u])"
    unfolding ring_content_def ring_used_pop[OF assms] by (simp only: upt_conv_Cons map_Suc_upt zero_less_Suc)
  then show ?thesis using assms by (simp add: ring_content_def mod_add_left_eq)
qed

text \<open>The last slot in use, for the operations that take back a push.\<close>

lemma ring_prev:
  assumes "put < n" "get < n" "Suc put mod n \<noteq> get"
  shows "(Suc put mod n + n - 1) mod n = put"
  using assms by (auto simp: ring_next_cases)

section \<open>Arcs\<close>

text \<open>\<open>t\<close> consecutive positions of a ring of \<open>n\<close> from \<open>g\<close> on.\<close>

definition arc :: "nat \<Rightarrow> nat \<Rightarrow> nat \<Rightarrow> nat set" where
  "arc n g t = (\<lambda>x. (g + x) mod n) ` {0..<t}"

lemma arc_append: "arc n g (s + t) = arc n g s \<union> arc n ((g + s) mod n) t"
proof -
  have "{0..<s + t} = {0..<s} \<union> (+) s ` {0..<t}" by (simp add: ivl_disj_un_two(3) add.commute)
  then show ?thesis by (simp only: arc_def image_Un image_image mod_add_left_eq add.assoc)
qed

lemma mod_window_inj:
  assumes "x < n" "y < n" "(g + x) mod n = (g + y) mod n"
  shows "x = (y::nat)"
proof -
  have g: "g mod n < n" using assms by simp
  have "(g mod n + x) mod n = (g mod n + y) mod n" using assms(3) by (simp only: mod_add_left_eq)
  then show ?thesis using assms(1,2) ring_index[OF g, of x] ring_index[OF g, of y] by (auto split: if_splits)
qed

lemma arc_disjoint:
  assumes "s + t \<le> n"
  shows "arc n g s \<inter> arc n ((g + s) mod n) t = {}"
proof -
  have "(g + x) mod n \<noteq> ((g + s) mod n + y) mod n" if "x < s" "y < t" for x y
    using mod_window_inj[of x n "s + y" g] that assms by (auto simp: mod_add_left_eq add.assoc)
  then show ?thesis by (fastforce simp: arc_def)
qed

lemma arc_mono: "s \<le> t \<Longrightarrow> arc n g s \<subseteq> arc n g t"
  by (auto simp: arc_def)

lemma arc_linear:
  assumes "g + t \<le> n"
  shows "arc n g t = {g..<g + t}"
proof -
  have "arc n g t = (+) g ` {0..<t}" unfolding arc_def using assms by (intro image_cong) auto
  then show ?thesis by (simp add: add.commute)
qed

section \<open>The contract of a bounded queue\<close>

locale bounded_fifo =
  fixes ok :: "'s \<Rightarrow> bool"
    and content :: "'s \<Rightarrow> 'a list"
    and capacity :: "'s \<Rightarrow> nat"
    and push :: "'a \<Rightarrow> 's \<Rightarrow> (unit result \<times> 's) option"
    and pop :: "'s \<Rightarrow> ('a option \<times> 's) option"
  assumes push_law:
      "ok s \<Longrightarrow> \<exists>r s'. push x s = Some (r, s') \<and> ok s' \<and> capacity s' = capacity s \<and>
         (if length (content s) < capacity s then r = Inr () \<and> content s' = content s @ [x]
          else (\<exists>e. r = Inl e) \<and> content s' = content s)"
    and pop_law:
      "ok s \<Longrightarrow> \<exists>r s'. pop s = Some (r, s') \<and> ok s' \<and> capacity s' = capacity s \<and>
         (case content s of [] \<Rightarrow> r = None \<and> content s' = []
          | x # xs \<Rightarrow> r = Some x \<and> content s' = xs)"
    and content_le: "ok s \<Longrightarrow> length (content s) \<le> capacity s"
begin

fun push_all :: "'a list \<Rightarrow> 's \<Rightarrow> 's option" where
  "push_all [] s = Some s"
| "push_all (x # xs) s = do { (r, s) \<leftarrow> push x s; (case r of Inl _ \<Rightarrow> None | Inr _ \<Rightarrow> push_all xs s) }"

fun pop_all :: "nat \<Rightarrow> 's \<Rightarrow> ('a list \<times> 's) option" where
  "pop_all 0 s = Some ([], s)"
| "pop_all (Suc n) s =
     do { (r, s) \<leftarrow> pop s;
          (case r of None \<Rightarrow> None | Some x \<Rightarrow> do { (xs, s) \<leftarrow> pop_all n s; Some (x # xs, s) }) }"

lemma push_all_content:
  assumes "ok s" "length (content s) + length xs \<le> capacity s"
  shows "\<exists>s'. push_all xs s = Some s' \<and> ok s' \<and> capacity s' = capacity s \<and> content s' = content s @ xs"
  using assms
proof (induction xs arbitrary: s)
  case (Cons x xs)
  obtain s' where s': "push x s = Some (Inr (), s')" "ok s'" "capacity s' = capacity s" "content s' = content s @ [x]"
    using push_law[OF Cons.prems(1), of x] Cons.prems(2) by auto
  then show ?case using Cons.IH[of s'] Cons.prems(2) by auto
qed auto

lemma pop_all_content:
  assumes "ok s" "content s = xs @ ys"
  shows "\<exists>s'. pop_all (length xs) s = Some (xs, s') \<and> ok s' \<and> content s' = ys \<and> capacity s' = capacity s"
  using assms
proof (induction xs arbitrary: s)
  case (Cons x xs)
  obtain s' where s': "pop s = Some (Some x, s')" "ok s'" "capacity s' = capacity s" "content s' = xs @ ys"
    using pop_law[OF Cons.prems(1)] Cons.prems(2) by auto
  then show ?case using Cons.IH[of s'] by auto
qed auto

text \<open>What goes in comes out, in the same order, whatever was there before.\<close>

lemma fifo_order:
  assumes "ok s" "length (content s) + length xs \<le> capacity s"
  shows "\<exists>s1 s2. push_all xs s = Some s1 \<and>
    pop_all (length (content s) + length xs) s1 = Some (content s @ xs, s2) \<and> content s2 = []"
proof -
  obtain s1 where s1: "push_all xs s = Some s1" "ok s1" "content s1 = content s @ xs"
    using push_all_content[OF assms] by blast
  then show ?thesis using pop_all_content[OF s1(2), of "content s @ xs" "[]"] by auto
qed

end

end
