(* ===== verification/Job_List.thy ===== *)
theory Job_List
  imports Ring
begin

text \<open>
  The job list of a channel, \<^verbatim>\<open>common/fifo/job.c\<close>: a ring of preallocated jobs.
  The submit path takes a slot with \<open>nvgpu_channel_alloc_job\<close>, fills it in and publishes it
  with \<open>nvgpu_channel_joblist_add\<close>; the cleanup worker, under the read lock, peeks at the oldest
  job and retires it with \<open>nvgpu_channel_joblist_delete\<close>. The two run concurrently, so the
  protocol is a step relation in which the worker may run between any two steps of a
  submit.
\<close>

section \<open>State and operations\<close>

text \<open>A job; pointers to other objects are their numbers, NULL is \<open>None\<close>.\<close>

record nvgpu_channel_job =
  mapped_buffers :: "nat option"
  num_mapped_buffers :: u32
  post_fence :: u64
  wait_cmd :: "nat option"
  incr_cmd :: "nat option"

definition zero_job :: nvgpu_channel_job where
  "zero_job = \<lparr>mapped_buffers = None, num_mapped_buffers = 0, post_fence = 0, wait_cmd = None, incr_cmd = None\<rparr>"

record nvgpu_channel_joblist =
  jl_length :: u32
  jl_put :: u32
  jl_get :: u32
  jl_jobs :: "nvgpu_channel_job list option"

definition zero_joblist :: nvgpu_channel_joblist where
  "zero_joblist = \<lparr>jl_length = 0, jl_put = 0, jl_get = 0, jl_jobs = None\<rparr>"

text \<open>\<open>x % n\<close>, which is not defined for a zero divisor.\<close>

definition umod :: "nat \<Rightarrow> nat \<Rightarrow> nat option" where
  "umod x n = (if n = 0 then None else Some (x mod n))"

text \<open>The slot is returned by its index, after it has been zeroed.\<close>

definition nvgpu_channel_alloc_job ::
    "nvgpu_channel_joblist \<Rightarrow> (u32 result \<times> nvgpu_channel_joblist) option" where
  "nvgpu_channel_alloc_job c =
     do {
       let put = jl_put c;
       let get = jl_get c;
       nxt \<leftarrow> umod (wrap32 (put + 1)) (jl_length c);
       if nxt = get then Some (Inl EAGAIN, c)
       else do {
         jobs \<leftarrow> jl_jobs c;
         jobs \<leftarrow> store jobs put zero_job;
         Some (Inr put, c\<lparr>jl_jobs := Some jobs\<rparr>) }
     }"

definition nvgpu_channel_joblist_peek ::
    "nvgpu_channel_joblist \<Rightarrow> u32 option" where
  "nvgpu_channel_joblist_peek c =
     (let get = jl_get c; put = jl_put c; empty = (get = put) in if empty then None else Some get)"

definition nvgpu_channel_joblist_add :: "nvgpu_channel_joblist \<Rightarrow> nvgpu_channel_joblist option" where
  "nvgpu_channel_joblist_add c =
     do { put \<leftarrow> umod (wrap32 (jl_put c + 1)) (jl_length c); Some (c\<lparr>jl_put := put\<rparr>) }"

definition nvgpu_channel_joblist_delete :: "nvgpu_channel_joblist \<Rightarrow> nvgpu_channel_joblist option" where
  "nvgpu_channel_joblist_delete c =
     do { get \<leftarrow> umod (wrap32 (jl_get c + 1)) (jl_length c); Some (c\<lparr>jl_get := get\<rparr>) }"

text \<open>\<open>job_size\<close> is \<open>sizeof(struct nvgpu_channel_job)\<close>, \<open>mem_ok\<close> the outcome of
  \<open>nvgpu_vzalloc\<close>.\<close>

definition nvgpu_channel_joblist_init ::
    "u32 \<Rightarrow> bool \<Rightarrow> u32 \<Rightarrow> (unit result \<times> nvgpu_channel_joblist) option" where
  "nvgpu_channel_joblist_init job_size mem_ok num_jobs =
     do {
       nvgpu_assert (job_size \<noteq> 0);
       lim \<leftarrow> nvgpu_safe_sub_u32 (U32_MAX div job_size) 1;
       if num_jobs > lim then Some (Inl ERANGE, zero_joblist)
       else do {
         n \<leftarrow> nvgpu_safe_add_u32 num_jobs 1;
         bytes \<leftarrow> nvgpu_safe_mult_u32 n job_size;
         if \<not> mem_ok then Some (Inl ENOMEM, zero_joblist)
         else Some (Inr (), \<lparr>jl_length = n, jl_put = 0, jl_get = 0, jl_jobs = Some (replicate n zero_job)\<rparr>) }
     }"

definition nvgpu_channel_joblist_deinit :: "nvgpu_channel_joblist \<Rightarrow> nvgpu_channel_joblist" where
  "nvgpu_channel_joblist_deinit c = (if jl_jobs c \<noteq> None then c\<lparr>jl_jobs := None\<rparr> else c)"

section \<open>Invariant and content\<close>

definition joblist_ok :: "nvgpu_channel_joblist \<Rightarrow> bool" where
  "joblist_ok c \<longleftrightarrow> jl_put c < jl_length c \<and> jl_get c < jl_length c \<and> jl_length c \<le> U32_MAX \<and>
     (\<exists>jobs. jl_jobs c = Some jobs \<and> length jobs = jl_length c)"

definition joblist_content :: "nvgpu_channel_joblist \<Rightarrow> nvgpu_channel_job list" where
  "joblist_content c = ring_content (the (jl_jobs c)) (jl_get c) (jl_put c)"

lemma joblist_okE:
  assumes "joblist_ok c"
  obtains jobs where "jl_jobs c = Some jobs" "length jobs = jl_length c" "jl_put c < length jobs"
    "jl_get c < length jobs" "jl_length c \<le> U32_MAX" "joblist_content c = ring_content jobs (jl_get c) (jl_put c)"
  using assms by (auto simp: joblist_ok_def joblist_content_def)

lemma umod_pos [simp]: "0 < n \<Longrightarrow> umod x n = Some (x mod n)"
  by (simp add: umod_def)

lemma wrap32_next: "i < n \<Longrightarrow> n \<le> U32_MAX \<Longrightarrow> wrap32 (Suc i) = Suc i"
  by simp

lemma alloc_job_cases:
  assumes "joblist_ok c"
  shows "if Suc (length (joblist_content c)) = jl_length c
    then nvgpu_channel_alloc_job c = Some (Inl EAGAIN, c)
    else \<exists>c'. nvgpu_channel_alloc_job c = Some (Inr (jl_put c), c') \<and> joblist_ok c' \<and>
      joblist_content c' = joblist_content c \<and> jl_put c' = jl_put c \<and> jl_get c' = jl_get c \<and>
      jl_length c' = jl_length c \<and> the (jl_jobs c') = (the (jl_jobs c))[jl_put c := zero_job]"
  using assms
proof (rule joblist_okE)
  fix jobs
  assume j: "jl_jobs c = Some jobs" "length jobs = jl_length c" "jl_put c < length jobs" "jl_get c < length jobs"
    "jl_length c \<le> U32_MAX" "joblist_content c = ring_content jobs (jl_get c) (jl_put c)"
  have w: "wrap32 (Suc (jl_put c)) = Suc (jl_put c)" using j by (intro wrap32_next) auto
  have full: "Suc (jl_put c) mod jl_length c = jl_get c \<longleftrightarrow> Suc (length (joblist_content c)) = jl_length c"
    using ring_full[of "jl_get c" "jl_length c" "jl_put c"] j by auto
  show ?thesis using j full w assms ring_content_store[OF j(4,3), of zero_job]
    by (auto simp: nvgpu_channel_alloc_job_def Let_def store_in joblist_ok_def joblist_content_def)
qed

text \<open>Filling in the slot that the submit path holds is invisible to the reader.\<close>

definition fill_job :: "u32 \<Rightarrow> nvgpu_channel_job \<Rightarrow> nvgpu_channel_joblist \<Rightarrow> nvgpu_channel_joblist option" where
  "fill_job i j c = do { jobs \<leftarrow> jl_jobs c; jobs \<leftarrow> store jobs i j; Some (c\<lparr>jl_jobs := Some jobs\<rparr>) }"

lemma fill_job_invisible:
  assumes "joblist_ok c"
  shows "\<exists>c'. fill_job (jl_put c) j c = Some c' \<and> joblist_ok c' \<and> joblist_content c' = joblist_content c \<and>
    jl_put c' = jl_put c \<and> jl_get c' = jl_get c \<and> jl_length c' = jl_length c \<and> the (jl_jobs c') ! jl_put c = j"
  using assms
proof (rule joblist_okE)
  fix jobs
  assume j: "jl_jobs c = Some jobs" "length jobs = jl_length c" "jl_put c < length jobs" "jl_get c < length jobs"
    "jl_length c \<le> U32_MAX" "joblist_content c = ring_content jobs (jl_get c) (jl_put c)"
  show ?thesis using j assms ring_content_store[OF j(4,3), of j]
    by (auto simp: fill_job_def store_in joblist_ok_def joblist_content_def)
qed

lemma joblist_add_content:
  assumes "joblist_ok c" "Suc (length (joblist_content c)) \<noteq> jl_length c"
  shows "\<exists>c'. nvgpu_channel_joblist_add c = Some c' \<and> joblist_ok c' \<and> jl_length c' = jl_length c \<and>
    jl_jobs c' = jl_jobs c \<and> joblist_content c' = joblist_content c @ [the (jl_jobs c) ! jl_put c]"
  using assms(1)
proof (rule joblist_okE)
  fix jobs
  assume j: "jl_jobs c = Some jobs" "length jobs = jl_length c" "jl_put c < length jobs" "jl_get c < length jobs"
    "jl_length c \<le> U32_MAX" "joblist_content c = ring_content jobs (jl_get c) (jl_put c)"
  have w: "wrap32 (Suc (jl_put c)) = Suc (jl_put c)" using j by (intro wrap32_next) auto
  have n: "Suc (jl_put c) mod jl_length c \<noteq> jl_get c"
    using ring_full[of "jl_get c" "jl_length c" "jl_put c"] j assms(2) by auto
  then show ?thesis using j w ring_content_push[OF j(4,3)]
    by (auto simp: nvgpu_channel_joblist_add_def joblist_ok_def joblist_content_def)
qed

lemma joblist_peek_delete:
  assumes "joblist_ok c"
  shows "case joblist_content c of
      [] \<Rightarrow> nvgpu_channel_joblist_peek c = None
    | j # js \<Rightarrow> nvgpu_channel_joblist_peek c = Some (jl_get c) \<and> the (jl_jobs c) ! jl_get c = j \<and>
        (\<exists>c'. nvgpu_channel_joblist_delete c = Some c' \<and> joblist_ok c' \<and> joblist_content c' = js \<and>
          jl_length c' = jl_length c \<and> jl_jobs c' = jl_jobs c \<and> jl_put c' = jl_put c)"
  using assms
proof (rule joblist_okE)
  fix jobs
  assume j: "jl_jobs c = Some jobs" "length jobs = jl_length c" "jl_put c < length jobs" "jl_get c < length jobs"
    "jl_length c \<le> U32_MAX" "joblist_content c = ring_content jobs (jl_get c) (jl_put c)"
  have w: "wrap32 (Suc (jl_get c)) = Suc (jl_get c)" using j by (intro wrap32_next) auto
  show ?thesis
  proof (cases "jl_get c = jl_put c")
    case True
    then show ?thesis using j by (simp add: nvgpu_channel_joblist_peek_def)
  next
    case False
    then show ?thesis using j w ring_content_pop[OF j(4,3) False]
      by (auto simp: nvgpu_channel_joblist_peek_def nvgpu_channel_joblist_delete_def joblist_ok_def
          joblist_content_def)
  qed
qed

section \<open>The contract of a queue\<close>

definition joblist_submit :: "nvgpu_channel_job \<Rightarrow> nvgpu_channel_joblist \<Rightarrow> (unit result \<times> nvgpu_channel_joblist) option" where
  "joblist_submit j c =
     do {
       (r, c) \<leftarrow> nvgpu_channel_alloc_job c;
       (case r of Inl e \<Rightarrow> Some (Inl e, c)
        | Inr i \<Rightarrow> do { c \<leftarrow> fill_job i j c; c \<leftarrow> nvgpu_channel_joblist_add c; Some (Inr (), c) }) }"

definition joblist_retire :: "nvgpu_channel_joblist \<Rightarrow> (nvgpu_channel_job option \<times> nvgpu_channel_joblist) option" where
  "joblist_retire c =
     (case nvgpu_channel_joblist_peek c of None \<Rightarrow> Some (None, c)
      | Some i \<Rightarrow> do { jobs \<leftarrow> jl_jobs c; j \<leftarrow> load jobs i; c \<leftarrow> nvgpu_channel_joblist_delete c; Some (Some j, c) })"

lemma joblist_submit_cases:
  assumes ok: "joblist_ok c"
  shows "if Suc (length (joblist_content c)) = jl_length c then joblist_submit j c = Some (Inl EAGAIN, c)
    else \<exists>c'. joblist_submit j c = Some (Inr (), c') \<and> joblist_ok c' \<and> jl_length c' = jl_length c \<and>
      joblist_content c' = joblist_content c @ [j]"
proof (cases "Suc (length (joblist_content c)) = jl_length c")
  case True
  then show ?thesis using alloc_job_cases[OF ok] by (simp add: joblist_submit_def)
next
  case False
  obtain c1 where 1: "nvgpu_channel_alloc_job c = Some (Inr (jl_put c), c1)" "joblist_ok c1"
    "joblist_content c1 = joblist_content c" "jl_put c1 = jl_put c" "jl_length c1 = jl_length c"
    using alloc_job_cases[OF ok] False by auto
  obtain c2 where 2: "fill_job (jl_put c) j c1 = Some c2" "joblist_ok c2" "joblist_content c2 = joblist_content c"
    "jl_length c2 = jl_length c" "the (jl_jobs c2) ! jl_put c = j" "jl_put c2 = jl_put c"
    using fill_job_invisible[OF 1(2), of j] 1 by auto
  obtain c3 where "nvgpu_channel_joblist_add c2 = Some c3" "joblist_ok c3" "jl_length c3 = jl_length c"
    "joblist_content c3 = joblist_content c @ [j]"
    using joblist_add_content[OF 2(2)] 2 False by auto
  then show ?thesis using 1(1) 2(1) False by (simp add: joblist_submit_def)
qed

lemma joblist_content_less: "joblist_ok c \<Longrightarrow> length (joblist_content c) < jl_length c"
  by (elim joblist_okE) (simp add: ring_used_less)

interpretation joblist: bounded_fifo joblist_ok joblist_content "\<lambda>c. jl_length c - 1" joblist_submit joblist_retire
proof
  fix c j
  assume ok: "joblist_ok c"
  show "\<exists>r c'. joblist_submit j c = Some (r, c') \<and> joblist_ok c' \<and> jl_length c' - 1 = jl_length c - 1 \<and>
      (if length (joblist_content c) < jl_length c - 1 then r = Inr () \<and> joblist_content c' = joblist_content c @ [j]
       else (\<exists>e. r = Inl e) \<and> joblist_content c' = joblist_content c)"
  proof (cases "Suc (length (joblist_content c)) = jl_length c")
    case True
    then show ?thesis using joblist_submit_cases[OF ok, of j] ok by auto
  next
    case False
    then have "length (joblist_content c) < jl_length c - 1" using joblist_content_less[OF ok] by simp
    then show ?thesis using joblist_submit_cases[OF ok, of j] False by auto
  qed
next
  fix c
  assume ok: "joblist_ok c"
  show "length (joblist_content c) \<le> jl_length c - 1" using joblist_content_less[OF ok] by simp
  obtain jobs where j: "jl_jobs c = Some jobs" "jl_get c < length jobs" using ok by (rule joblist_okE)
  show "\<exists>r c'. joblist_retire c = Some (r, c') \<and> joblist_ok c' \<and> jl_length c' - 1 = jl_length c - 1 \<and>
      (case joblist_content c of [] \<Rightarrow> r = None \<and> joblist_content c' = []
       | x # xs \<Rightarrow> r = Some x \<and> joblist_content c' = xs)"
  proof (cases "joblist_content c")
    case Nil
    then show ?thesis using joblist_peek_delete[OF ok] ok by (simp add: joblist_retire_def)
  next
    case (Cons x xs)
    then show ?thesis using joblist_peek_delete[OF ok] j by (auto simp: joblist_retire_def load_in)
  qed
qed

section \<open>The concurrent protocol\<close>

datatype submitter = Sub_idle | Sub_slot u32 | Sub_filled u32 nvgpu_channel_job
datatype worker = Wrk_idle | Wrk_peeked u32

text \<open>\<open>jw_published\<close> and \<open>jw_retired\<close> record the jobs in the order in which they were added and
  in which the worker has retired them.\<close>

record job_world =
  jw_list :: nvgpu_channel_joblist
  jw_sub :: submitter
  jw_wrk :: worker
  jw_published :: "nvgpu_channel_job list"
  jw_retired :: "nvgpu_channel_job list"

inductive job_step :: "job_world \<Rightarrow> job_world \<Rightarrow> bool" where
  Sub_alloc: "jw_sub w = Sub_idle \<Longrightarrow> nvgpu_channel_alloc_job (jw_list w) = Some (Inr i, c) \<Longrightarrow>
     job_step w (w\<lparr>jw_list := c, jw_sub := Sub_slot i\<rparr>)"
| Sub_full: "jw_sub w = Sub_idle \<Longrightarrow> nvgpu_channel_alloc_job (jw_list w) = Some (Inl e, c) \<Longrightarrow>
     job_step w (w\<lparr>jw_list := c\<rparr>)"
| Sub_fill: "jw_sub w = Sub_slot i \<Longrightarrow> fill_job i j (jw_list w) = Some c \<Longrightarrow>
     job_step w (w\<lparr>jw_list := c, jw_sub := Sub_filled i j\<rparr>)"
| Sub_abort: "jw_sub w \<noteq> Sub_idle \<Longrightarrow> job_step w (w\<lparr>jw_sub := Sub_idle\<rparr>)"
| Sub_add: "jw_sub w = Sub_filled i j \<Longrightarrow> nvgpu_channel_joblist_add (jw_list w) = Some c \<Longrightarrow>
     job_step w (w\<lparr>jw_list := c, jw_sub := Sub_idle, jw_published := jw_published w @ [j]\<rparr>)"
| Wrk_peek: "jw_wrk w = Wrk_idle \<Longrightarrow> nvgpu_channel_joblist_peek (jw_list w) = Some i \<Longrightarrow>
     job_step w (w\<lparr>jw_wrk := Wrk_peeked i\<rparr>)"
| Wrk_leave: "job_step w (w\<lparr>jw_wrk := Wrk_idle\<rparr>)"
| Wrk_delete: "jw_wrk w = Wrk_peeked i \<Longrightarrow> jl_jobs (jw_list w) = Some jobs \<Longrightarrow> load jobs i = Some j \<Longrightarrow>
     nvgpu_channel_joblist_delete (jw_list w) = Some c \<Longrightarrow>
     job_step w (w\<lparr>jw_list := c, jw_wrk := Wrk_idle, jw_retired := jw_retired w @ [j]\<rparr>)"

definition job_start :: "nvgpu_channel_joblist \<Rightarrow> job_world" where
  "job_start c = \<lparr>jw_list = c, jw_sub = Sub_idle, jw_wrk = Wrk_idle, jw_published = [], jw_retired = []\<rparr>"

definition sub_inv :: "job_world \<Rightarrow> bool" where
  "sub_inv w \<longleftrightarrow> (case jw_sub w of
     Sub_idle \<Rightarrow> True
   | Sub_slot i \<Rightarrow> i = jl_put (jw_list w) \<and> Suc (length (joblist_content (jw_list w))) \<noteq> jl_length (jw_list w)
   | Sub_filled i j \<Rightarrow> i = jl_put (jw_list w) \<and> Suc (length (joblist_content (jw_list w))) \<noteq> jl_length (jw_list w) \<and>
       the (jl_jobs (jw_list w)) ! i = j)"

definition wrk_inv :: "job_world \<Rightarrow> bool" where
  "wrk_inv w \<longleftrightarrow> (case jw_wrk w of
     Wrk_idle \<Rightarrow> True
   | Wrk_peeked i \<Rightarrow> i = jl_get (jw_list w) \<and> joblist_content (jw_list w) \<noteq> [])"

definition job_inv :: "u32 \<Rightarrow> job_world \<Rightarrow> bool" where
  "job_inv n w \<longleftrightarrow> joblist_ok (jw_list w) \<and> jl_length (jw_list w) = n \<and> sub_inv w \<and> wrk_inv w \<and>
     jw_published w = jw_retired w @ joblist_content (jw_list w)"

lemmas job_inv_defs = job_inv_def sub_inv_def wrk_inv_def

lemma job_inv_alloc:
  assumes "job_inv n w" "nvgpu_channel_alloc_job (jw_list w) = Some (r, c)" "jw_sub w = Sub_idle"
  shows "case r of Inl e \<Rightarrow> job_inv n (w\<lparr>jw_list := c\<rparr>) | Inr i \<Rightarrow> job_inv n (w\<lparr>jw_list := c, jw_sub := Sub_slot i\<rparr>)"
  using assms alloc_job_cases[of "jw_list w"] by (auto simp: job_inv_defs split: if_splits worker.splits)

lemma job_inv_step:
  assumes "job_step w w'" "job_inv n w"
  shows "job_inv n w'"
  using assms
proof (induction rule: job_step.induct)
  case (Sub_alloc w i c)
  then show ?case using job_inv_alloc by fastforce
next
  case (Sub_full w e c)
  then show ?case using job_inv_alloc by fastforce
next
  case (Sub_fill w i j c)
  then have "i = jl_put (jw_list w)" "joblist_ok (jw_list w)" by (simp_all add: job_inv_defs)
  then show ?case using Sub_fill fill_job_invisible[of "jw_list w" j]
    by (auto simp: job_inv_defs split: worker.splits)
next
  case (Sub_add w i j c)
  then have "Suc (length (joblist_content (jw_list w))) \<noteq> jl_length (jw_list w)" "joblist_ok (jw_list w)"
    by (simp_all add: job_inv_defs)
  then show ?case using Sub_add joblist_add_content[of "jw_list w"]
    by (auto simp: job_inv_defs nvgpu_channel_joblist_add_def umod_def split: worker.splits if_splits)
next
  case (Wrk_peek w i)
  then have ok: "joblist_ok (jw_list w)" by (simp add: job_inv_defs)
  show ?case using Wrk_peek joblist_peek_delete[OF ok] by (auto simp: job_inv_defs split: list.splits submitter.splits)
next
  case (Wrk_delete w i jobs j c)
  then have ok: "joblist_ok (jw_list w)" and i: "i = jl_get (jw_list w)" and ne: "joblist_content (jw_list w) \<noteq> []"
    by (simp_all add: job_inv_defs)
  obtain x xs where x: "joblist_content (jw_list w) = x # xs" using ne by (cases "joblist_content (jw_list w)") auto
  have "length (joblist_content (jw_list w)) < jl_length (jw_list w)" by (rule joblist_content_less[OF ok])
  then show ?case using Wrk_delete joblist_peek_delete[OF ok] i x
    by (auto simp: job_inv_defs load_Some_iff split: submitter.splits)
qed (auto simp: job_inv_defs split: worker.splits submitter.splits)

lemma job_inv_reachable: "job_step\<^sup>*\<^sup>* w w' \<Longrightarrow> job_inv n w \<Longrightarrow> job_inv n w'"
  by (induction rule: rtranclp_induct) (auto intro: job_inv_step)

lemma job_inv_peeked:
  assumes "job_inv n w" "jw_wrk w = Wrk_peeked i"
  shows "the (jl_jobs (jw_list w)) ! i = jw_published w ! length (jw_retired w)"
    "jw_sub w \<noteq> Sub_slot i" "jw_sub w \<noteq> Sub_filled i j"
proof -
  have ok: "joblist_ok (jw_list w)" and i: "i = jl_get (jw_list w)" and ne: "joblist_content (jw_list w) \<noteq> []"
    using assms by (simp_all add: job_inv_defs)
  obtain x xs where x: "joblist_content (jw_list w) = x # xs" using ne by (cases "joblist_content (jw_list w)") auto
  then have "jl_get (jw_list w) \<noteq> jl_put (jw_list w)" using joblist_peek_delete[OF ok]
    by (auto simp: nvgpu_channel_joblist_peek_def split: if_splits)
  then show "jw_sub w \<noteq> Sub_slot i" "jw_sub w \<noteq> Sub_filled i j" using assms(1) i by (auto simp: job_inv_defs)
  show "the (jl_jobs (jw_list w)) ! i = jw_published w ! length (jw_retired w)"
    using assms(1) joblist_peek_delete[OF ok] x i by (simp add: job_inv_def)
qed

section \<open>Properties\<close>

lemma joblist_init_ok:
  assumes "nvgpu_channel_joblist_init sz True n = Some (Inr (), c)"
  shows "joblist_ok c" "joblist_content c = []" "jl_length c = n + 1"
proof -
  have "nvgpu_safe_add_u32 n 1 = Some (jl_length c)" "c = \<lparr>jl_length = jl_length c, jl_put = 0, jl_get = 0,
      jl_jobs = Some (replicate (jl_length c) zero_job)\<rparr>"
    using assms by (auto simp: nvgpu_channel_joblist_init_def bind_eq_Some_conv split: if_splits)
  moreover from this have "jl_length c = n + 1" "n + 1 \<le> U32_MAX"
    by (auto simp: nvgpu_safe_add_u32_def split: if_splits)
  ultimately show "joblist_ok c" "joblist_content c = []" "jl_length c = n + 1"
    by (metis joblist_ok_def joblist_content_def nvgpu_channel_joblist.select_convs length_replicate option.sel
        ring_content_empty zero_less_Suc Suc_eq_plus1)+
qed

text \<open>C27: In every interleaving of the submit path and the cleanup worker on a fresh job list, the jobs
  retired so far followed by those in the ring are exactly the jobs published, in order; the job the worker
  looks at is the oldest one published and not retired; and the slot being filled in by a
  submit is never the one the worker looks at.\<close>

theorem joblist_interleaving_fifo:
  assumes "nvgpu_channel_joblist_init sz True n = Some (Inr (), c)" "job_step\<^sup>*\<^sup>* (job_start c) w"
  shows "jw_published w = jw_retired w @ joblist_content (jw_list w) \<and> length (joblist_content (jw_list w)) \<le> n \<and>
    (\<forall>i. jw_wrk w = Wrk_peeked i \<longrightarrow>
       the (jl_jobs (jw_list w)) ! i = jw_published w ! length (jw_retired w) \<and>
       (\<forall>j. jw_sub w \<noteq> Sub_slot i \<and> jw_sub w \<noteq> Sub_filled i j))"
proof -
  have "job_inv (n + 1) (job_start c)" using joblist_init_ok[OF assms(1)]
    by (simp add: job_inv_defs job_start_def)
  then have inv: "job_inv (n + 1) w" using job_inv_reachable[OF assms(2)] by blast
  then show ?thesis using job_inv_peeked[OF inv] joblist_content_less[of "jw_list w"]
    by (auto simp: job_inv_def)
qed

definition sample_job :: "nat \<Rightarrow> nvgpu_channel_job" where
  "sample_job f = zero_job\<lparr>post_fence := f\<rparr>"

definition sample_list :: nvgpu_channel_joblist where
  "sample_list = \<lparr>jl_length = 3, jl_put = 0, jl_get = 0, jl_jobs = Some [zero_job, zero_job, zero_job]\<rparr>"

lemma sample_run:
  "\<exists>w. job_step\<^sup>*\<^sup>* (job_start sample_list) w \<and> jw_wrk w = Wrk_peeked 0 \<and> jw_retired w = [] \<and>
     jw_published w = [sample_job 7]"
proof -
  let ?c = "sample_list\<lparr>jl_jobs := Some [sample_job 7, zero_job, zero_job]\<rparr>"
  let ?w1 = "(job_start sample_list)\<lparr>jw_list := sample_list, jw_sub := Sub_slot 0\<rparr>"
  let ?w2 = "?w1\<lparr>jw_list := ?c, jw_sub := Sub_filled 0 (sample_job 7)\<rparr>"
  let ?w3 = "?w2\<lparr>jw_list := ?c\<lparr>jl_put := 1\<rparr>, jw_sub := Sub_idle, jw_published := jw_published ?w2 @ [sample_job 7]\<rparr>"
  have "job_step (job_start sample_list) ?w1"
    by (rule Sub_alloc) (simp_all add: job_start_def sample_list_def nvgpu_channel_alloc_job_def store_def Let_def)
  moreover have "job_step ?w1 ?w2"
    by (rule Sub_fill) (simp_all add: job_start_def sample_list_def fill_job_def store_def)
  moreover have "job_step ?w2 ?w3"
    by (rule Sub_add) (simp_all add: job_start_def sample_list_def nvgpu_channel_joblist_add_def)
  moreover have "job_step ?w3 (?w3\<lparr>jw_wrk := Wrk_peeked 0\<rparr>)"
    by (rule Wrk_peek) (simp_all add: job_start_def sample_list_def nvgpu_channel_joblist_peek_def)
  ultimately have "job_step\<^sup>*\<^sup>* (job_start sample_list) (?w3\<lparr>jw_wrk := Wrk_peeked 0\<rparr>)"
    by (meson rtranclp.rtrancl_into_rtrancl rtranclp.rtrancl_refl)
  then show ?thesis by (rule exI[rotated, of _ "?w3\<lparr>jw_wrk := Wrk_peeked 0\<rparr>", OF conjI]) (simp add: job_start_def)
qed

theorem joblist_interleaving_fifo_witness:
  "\<exists>w. nvgpu_channel_joblist_init 64 True 2 = Some (Inr (), sample_list) \<and> job_step\<^sup>*\<^sup>* (job_start sample_list) w \<and>
     jw_published w = [sample_job 7] \<and> jw_wrk w = Wrk_peeked 0 \<and> the (jl_jobs (jw_list w)) ! 0 = sample_job 7"
proof -
  have i: "nvgpu_channel_joblist_init 64 True 2 = Some (Inr (), sample_list)"
    by (simp add: nvgpu_channel_joblist_init_def sample_list_def safe_simps numeral_3_eq_3)
  obtain w where w: "job_step\<^sup>*\<^sup>* (job_start sample_list) w" "jw_wrk w = Wrk_peeked 0" "jw_retired w = []"
    "jw_published w = [sample_job 7]" using sample_run by blast
  show ?thesis using joblist_interleaving_fifo[OF i w(1)] w i by auto
qed

text \<open>As a queue the job list keeps its order: \<open>length - 1\<close> jobs can be submitted to an
  empty list, one more is refused with \<open>EAGAIN\<close>, and the jobs are retired in the order of their
  submission.\<close>

theorem joblist_fifo_capacity:
  assumes "joblist_ok c" "length (joblist_content c) + length js \<le> jl_length c - 1"
  shows "\<exists>c1 c2. joblist.push_all js c = Some c1 \<and>
    joblist.pop_all (length (joblist_content c) + length js) c1 = Some (joblist_content c @ js, c2) \<and>
    joblist_content c2 = [] \<and>
    (length (joblist_content c) + length js = jl_length c - 1 \<longrightarrow>
       (\<forall>j. joblist_submit j c1 = Some (Inl EAGAIN, c1)))"
proof -
  obtain c1 where c1: "joblist.push_all js c = Some c1" "joblist_ok c1" "jl_length c1 - 1 = jl_length c - 1"
    "joblist_content c1 = joblist_content c @ js"
    using joblist.push_all_content[OF assms] by blast
  have "joblist_submit j c1 = Some (Inl EAGAIN, c1)"
    if "length (joblist_content c) + length js = jl_length c - 1" for j
  proof -
    have "Suc (length (joblist_content c1)) = jl_length c1"
      using c1 that joblist_content_less[OF c1(2)] by simp
    then show ?thesis using joblist_submit_cases[OF c1(2), of j] by simp
  qed
  then show ?thesis using joblist.fifo_order[OF assms] c1(1) by auto
qed

theorem joblist_fifo_capacity_witness:
  "\<exists>c1 c2. joblist.push_all [sample_job 1, sample_job 2]
      \<lparr>jl_length = 3, jl_put = 2, jl_get = 2, jl_jobs = Some [zero_job, zero_job, zero_job]\<rparr> = Some c1 \<and>
     joblist.pop_all 2 c1 = Some ([sample_job 1, sample_job 2], c2) \<and>
     joblist_submit (sample_job 3) c1 = Some (Inl EAGAIN, c1)"
  using joblist_fifo_capacity[of "\<lparr>jl_length = 3, jl_put = 2, jl_get = 2,
      jl_jobs = Some [zero_job, zero_job, zero_job]\<rparr>" "[sample_job 1, sample_job 2]"]
  by (auto simp: joblist_ok_def joblist_content_def numeral_2_eq_2)

end
