(* ===== verification/Log2.thy ===== *)
theory Log2
  imports Bitops
begin

text \<open>
  The logarithms and power-of-two roundings of \<^verbatim>\<open>include/nvgpu/posix/log2.h\<close> and the page
  rounding of \<^verbatim>\<open>include/nvgpu/posix/utils.h\<close>. \<open>nvgpu_fls\<close> and \<open>nvgpu_ffs\<close> are
  characterised over natural numbers here, for the components that compute with orders.
\<close>

abbreviation (input) PAGE_SIZE :: nat where "PAGE_SIZE \<equiv> 4096"

definition PAGE_ALIGN :: "u64 \<Rightarrow> u64 option" where
  "PAGE_ALIGN x = NVGPU_ALIGN x PAGE_SIZE"

text \<open>\<open>1UL << n\<close> is not defined for a shift by the width.\<close>

definition roundup_pow_of_two :: "u64 \<Rightarrow> u64 option" where
  "roundup_pow_of_two x =
     (if x = 0 then BUG
      else if nvgpu_fls (x - 1) \<ge> BITS_PER_LONG then None
      else Some (2 ^ nvgpu_fls (x - 1)))"

definition rounddown_pow_of_two :: "u64 \<Rightarrow> u64 option" where
  "rounddown_pow_of_two x = (if x = 0 then BUG else Some (2 ^ (nvgpu_fls x - 1)))"

definition is_power_of_2 :: "u64 \<Rightarrow> bool" where
  "is_power_of_2 x \<longleftrightarrow> x \<noteq> 0 \<and> x AND (x - 1) = 0"

lemma is_power_of_2_iff: "is_power_of_2 x \<longleftrightarrow> (\<exists>k. x = 2 ^ k)"
  using pow2_test[of x] by (cases "x = 0") (auto simp: is_power_of_2_def)

lemma bit_word_of_nat: "k < 64 \<Longrightarrow> bit (word_of_nat x :: ulong) k = bit x k"
  by transfer (simp add: bit_take_bit_iff bit_of_nat_iff)

lemma builtin_clzl_correct:
  assumes "w \<noteq> 0"
  shows "\<exists>k<64. builtin_clzl w = k \<and> bit w (63 - k) \<and> (\<forall>j<k. \<not> bit w (63 - j))"
proof -
  obtain n where n: "bit w n" using assms by (metis bit_eq_iff bit_0_eq bot_apply bot_bool_def)
  then have "n < 64" using bit_imp_le_length by fastforce
  then have "bit w (63 - (63 - n))" "63 - n < 64" using n by auto
  then have "find (\<lambda>i. bit w (63 - i)) [0..<64] \<noteq> None" by (auto simp: find_None_iff)
  then obtain k where k: "find (\<lambda>i. bit w (63 - i)) [0..<64] = Some k" by auto
  then have "k < 64" "bit w (63 - k)" "\<forall>j<k. \<not> bit w (63 - j)"
    by (auto simp: find_Some_iff)
  then show ?thesis using k by (auto simp: builtin_clzl_def)
qed

lemma nvgpu_fls_0 [simp]: "nvgpu_fls 0 = 0"
  by (simp add: nvgpu_fls_def nvgpu_posix_fls_def)

lemma nat_eq_top_bit:
  assumes "bit (x::nat) k" "\<And>j. k < j \<Longrightarrow> \<not> bit x j"
  shows "2 ^ k \<le> x \<and> x < 2 ^ Suc k"
proof -
  have "x = take_bit (Suc k) x" by (rule bit_eqI) (use assms(2) not_le in \<open>auto simp: bit_take_bit_iff less_Suc_eq_le\<close>)
  then have "x < 2 ^ Suc k" by (metis take_bit_nat_less_exp)
  moreover have "2 ^ k \<le> x"
  proof (rule ccontr)
    assume "\<not> 2 ^ k \<le> x"
    then have "x div 2 ^ k = 0" by simp
    then show False using assms(1) by (simp add: bit_iff_odd)
  qed
  ultimately show ?thesis by simp
qed

lemma nvgpu_fls_correct:
  assumes "0 < x" "x \<le> U64_MAX"
  shows "1 \<le> nvgpu_fls x" "nvgpu_fls x \<le> 64" "2 ^ (nvgpu_fls x - 1) \<le> x" "x < 2 ^ nvgpu_fls x"
proof -
  let ?w = "word_of_nat x :: ulong"
  have u: "unat ?w = x" using assms(2) by (simp add: unat_of_nat)
  then have w: "?w \<noteq> 0" using assms(1) by (metis unat_0 less_irrefl)
  then obtain k where k: "k < 64" "builtin_clzl ?w = k" "bit ?w (63 - k)" "\<forall>j<k. \<not> bit ?w (63 - j)"
    using builtin_clzl_correct by blast
  have f: "nvgpu_fls x = Suc (63 - k)" using w k by (simp add: nvgpu_fls_def nvgpu_posix_fls_def)
  have "\<not> bit x j" if "63 - k < j" for j
  proof (cases "j < 64")
    case True
    then have "63 - j < k" "63 - (63 - j) = j" using that by auto
    then show ?thesis using k(4) bit_word_of_nat[OF True] by metis
  next
    case False
    have "x < 2 ^ 64" using assms(2) by simp
    also have "(2::nat) ^ 64 \<le> 2 ^ j" using False by (intro power_increasing) auto
    finally show ?thesis by (simp add: bit_iff_odd)
  qed
  moreover have "bit x (63 - k)" using k bit_word_of_nat[of "63 - k" x] by simp
  ultimately have "2 ^ (63 - k) \<le> x \<and> x < 2 ^ Suc (63 - k)" using nat_eq_top_bit by blast
  then show "1 \<le> nvgpu_fls x" "nvgpu_fls x \<le> 64" "2 ^ (nvgpu_fls x - 1) \<le> x" "x < 2 ^ nvgpu_fls x"
    unfolding f by simp_all
qed

lemma nvgpu_ffs_0 [simp]: "nvgpu_ffs 0 = 0"
  by (simp add: nvgpu_ffs_def)

lemma bit_mod_lower:
  assumes "bit (x::nat) k" "\<And>j. j < k \<Longrightarrow> \<not> bit x j"
  shows "x mod 2 ^ k = 0" "odd (x div 2 ^ k)"
proof -
  have "take_bit k x = 0" by (rule bit_eqI) (use assms(2) in \<open>auto simp: bit_take_bit_iff\<close>)
  then show "x mod 2 ^ k = 0" by (simp add: take_bit_eq_mod)
  show "odd (x div 2 ^ k)" using assms(1) by (simp add: bit_iff_odd)
qed

text \<open>\<open>nvgpu_ffs x - 1\<close> is the largest order that \<open>x\<close> is aligned to.\<close>

lemma nvgpu_ffs_correct:
  assumes "0 < x" "x \<le> U64_MAX"
  shows "1 \<le> nvgpu_ffs x" "nvgpu_ffs x \<le> 64" "x mod 2 ^ (nvgpu_ffs x - 1) = 0" "odd (x div 2 ^ (nvgpu_ffs x - 1))"
proof -
  let ?w = "word_of_nat x :: ulong"
  have u: "unat ?w = x" using assms(2) by (simp add: unat_of_nat)
  then have w: "?w \<noteq> 0" using assms(1) by (metis unat_0 less_irrefl)
  then obtain k where k: "k < 64" "nvgpu_posix_ffs ?w = k + 1" "bit ?w k" "\<forall>j<k. \<not> bit ?w j"
    using nvgpu_posix_ffs_correct by blast
  then have "bit x k" "\<And>j. j < k \<Longrightarrow> \<not> bit x j" using bit_word_of_nat by auto
  then have "x mod 2 ^ k = 0" "odd (x div 2 ^ k)" using bit_mod_lower by blast+
  then show "1 \<le> nvgpu_ffs x" "nvgpu_ffs x \<le> 64" "x mod 2 ^ (nvgpu_ffs x - 1) = 0" "odd (x div 2 ^ (nvgpu_ffs x - 1))"
    using k by (simp_all add: nvgpu_ffs_def)
qed

lemma roundup_pow_of_two_correct:
  assumes "0 < x" "x \<le> 2 ^ 63"
  shows "\<exists>k\<le>63. roundup_pow_of_two x = Some (2 ^ k) \<and> x \<le> 2 ^ k \<and> 2 ^ k < 2 * x"
proof (cases "x = 1")
  case True
  then show ?thesis by (intro exI[of _ 0]) (simp add: roundup_pow_of_two_def)
next
  case False
  have b: "0 < x - 1" "x - 1 \<le> U64_MAX" using assms False by auto
  note f = nvgpu_fls_correct[OF b]
  obtain k where k: "nvgpu_fls (x - 1) = Suc k" using f(1) by (cases "nvgpu_fls (x - 1)") auto
  have lo: "2 ^ k \<le> x - 1" "x - 1 < 2 ^ Suc k" using f(3,4) k by simp_all
  have "(2::nat) ^ k < 2 ^ 63" using lo(1) assms by linarith
  then have "k < 63" by (rule power_less_imp_less_exp[rotated]) simp
  then show ?thesis using k lo assms(1) False by (intro exI[of _ "Suc k"]) (auto simp: roundup_pow_of_two_def)
qed

text \<open>\<open>NVGPU_ALIGN\<close> for a power of two is the least multiple above.\<close>

lemma and_not64_mask:
  assumes "x \<le> U64_MAX" "s < 64"
  shows "and_not64 x (2 ^ s - 1) = x - x mod 2 ^ s"
proof -
  let ?w = "word_of_nat x :: ulong"
  have m: "(word_of_nat (2 ^ s - 1) :: ulong) = mask s"
    by (simp add: mask_eq_exp_minus_1 of_nat_diff)
  have "NOT ?w AND (?w AND mask s) = 0" by (rule bit_eqI) (auto simp: bit_simps)
  then have "?w - (?w AND mask s) = ?w AND NOT (?w AND mask s)" by (rule disjunctive_diff_eq_and_not)
  also have "\<dots> = ?w AND NOT (mask s)" by (rule bit_eqI) (auto simp: bit_simps)
  finally have eq: "?w AND NOT (mask s) = ?w - take_bit s ?w" by (simp add: take_bit_eq_mask)
  have u: "unat ?w = x" using assms(1) by (simp add: unat_of_nat)
  have t: "unat (take_bit s ?w) = x mod 2 ^ s" unfolding unsigned_take_bit_eq u by (rule take_bit_eq_mod)
  have "take_bit s ?w \<le> ?w" unfolding word_le_nat_alt t u by simp
  then have "unat (?w - take_bit s ?w) = x - x mod 2 ^ s" by (simp add: unat_sub t u)
  then show ?thesis by (simp only: and_not64_def m eq)
qed

lemma NVGPU_ALIGN_power2:
  assumes "s < 64" "x + 2 ^ s \<le> U64_MAX"
  shows "\<exists>y. NVGPU_ALIGN x (2 ^ s) = Some y \<and> x \<le> y \<and> y < x + 2 ^ s \<and> y mod 2 ^ s = 0"
proof -
  define b where "b = (2::nat) ^ s"
  define z where "z = x + (b - 1)"
  have b: "0 < b" "x + b \<le> U64_MAX" using assms by (simp_all add: b_def)
  then have z: "z \<le> U64_MAX" "z < x + b" "x \<le> z" by (simp_all add: z_def)
  have "NVGPU_ALIGN x b = Some (and_not64 z (b - 1))" using b z(1)
    by (simp add: NVGPU_ALIGN_def ALIGN_MASK_def safe_simps z_def)
  then have e: "NVGPU_ALIGN x b = Some (z - z mod b)" using and_not64_mask[OF z(1) assms(1)] by (simp add: b_def)
  have "z mod b < b" "z mod b \<le> z" using b by simp_all
  then have "x \<le> z - z mod b" "z - z mod b < x + b" using z(2) b(1) unfolding z_def by linarith+
  moreover have "(z - z mod b) mod b = 0" unfolding minus_mod_eq_mult_div by (rule mod_mult_self1_is_0)
  ultimately show ?thesis using e unfolding b_def by (intro exI conjI)
qed

lemma NVGPU_ALIGN_aligned:
  assumes "s < 64" "x + 2 ^ s \<le> U64_MAX" "x mod 2 ^ s = 0"
  shows "NVGPU_ALIGN x (2 ^ s) = Some x"
proof -
  obtain y where y: "NVGPU_ALIGN x (2 ^ s) = Some y" "x \<le> y" "y < x + 2 ^ s" "y mod 2 ^ s = 0"
    using NVGPU_ALIGN_power2[OF assms(1,2)] by (elim exE conjE) (rule that)
  have d: "2 ^ s dvd y - x" by (rule dvd_diff_nat[OF mod_0_imp_dvd[OF y(4)] mod_0_imp_dvd[OF assms(3)]])
  have "y - x < 2 ^ s" using y(2,3) by linarith
  then have "y - x = 0" using nat_dvd_not_less[of "y - x" "2 ^ s"] d by linarith
  then have "y = x" using y(2) by linarith
  then show ?thesis using y(1) by simp
qed

end
