(* ===== verification/Priv_Cmdbuf.thy ===== *)
theory Priv_Cmdbuf
  imports Ring Log2
begin

text \<open>
  The private command buffers of \<^verbatim>\<open>common/fifo/priv_cmdbuf.c\<close>: one push buffer per
  channel, cut into the fragments that hold the synchronisation commands around a submit, and a
  ring of entries that describe the fragments in use. A fragment has to be contiguous, so an
  allocation that does not fit before the end of the buffer skips the rest and starts
  at 0.

  Entries are named by their index in the ring. The chip's command sizes and the DMA
  allocator, which reports the GPU address and the size it gave, are parameters.
\<close>

section \<open>State\<close>

record priv_cmd_entry =
  pe_mem :: bool
  pe_off :: u32
  pe_fill_off :: u32
  pe_size :: u32
  pe_alloc_size :: u32

definition zero_entry :: priv_cmd_entry where
  "zero_entry = \<lparr>pe_mem = False, pe_off = 0, pe_fill_off = 0, pe_size = 0, pe_alloc_size = 0\<rparr>"

record priv_cmd_queue =
  pq_words :: "u32 list"
  pq_gpu_va :: u64
  pq_size :: u32
  pq_put :: u32
  pq_get :: u32
  pq_entries :: "priv_cmd_entry list"
  pq_entries_len :: u32
  pq_entry_put :: u32
  pq_entry_get :: u32

section \<open>Operations\<close>

definition umod32 :: "u32 \<Rightarrow> u32 \<Rightarrow> u32 option" where
  "umod32 x n = (if n = 0 then None else Some (x mod n))"

definition nvgpu_priv_cmdbuf_queue_alloc ::
    "u32 \<Rightarrow> u32 \<Rightarrow> bool \<Rightarrow> bool \<Rightarrow> (u64 \<Rightarrow> (u64 \<times> u64) result) \<Rightarrow> u32 \<Rightarrow> priv_cmd_queue result option" where
  "nvgpu_priv_cmdbuf_queue_alloc wait_size incr_size kzalloc_ok vzalloc_ok dma job_count =
     do {
       s1 \<leftarrow> nvgpu_safe_add_u32 wait_size incr_size;
       s2 \<leftarrow> nvgpu_safe_add_u32 s1 1;
       mem_per_job \<leftarrow> nvgpu_safe_mult_u32 s2 4;
       sz \<leftarrow> nvgpu_safe_mult_u64 job_count mem_per_job;
       r \<leftarrow> roundup_pow_of_two sz;
       tmp_size \<leftarrow> PAGE_ALIGN r;
       if tmp_size > U32_MAX then Some (Inl ERANGE)
       else if \<not> kzalloc_ok then Some (Inl ENOMEM)
       else if job_count > U32_MAX div 2 - 1 then Some (Inl ERANGE)
       else do {
         j1 \<leftarrow> nvgpu_safe_add_u32 job_count 1;
         entries_len \<leftarrow> nvgpu_safe_mult_u32 2 j1;
         if \<not> vzalloc_ok then Some (Inl ENOMEM)
         else (case dma tmp_size of
             Inl e \<Rightarrow> Some (Inl e)
           | Inr (gpu_va, mem_size) \<Rightarrow> do {
               nvgpu_assert (mem_size div 4 \<le> U32_MAX);
               Some (Inr \<lparr>pq_words = replicate (mem_size div 4) 0, pq_gpu_va = gpu_va,
                          pq_size = mem_size div 4, pq_put = 0, pq_get = 0,
                          pq_entries = replicate entries_len zero_entry,
                          pq_entries_len = entries_len, pq_entry_put = 0, pq_entry_get = 0\<rparr>) })
       }
     }"

definition nvgpu_priv_cmdbuf_alloc_buf ::
    "priv_cmd_queue \<Rightarrow> u32 \<Rightarrow> u32 \<Rightarrow> (unit result \<times> priv_cmd_queue) option" where
  "nvgpu_priv_cmdbuf_alloc_buf q orig_size e =
     do {
       s \<leftarrow> nvgpu_safe_add_u32 (pq_put q) orig_size;
       let sz = (if s > pq_size q then wrap32 (orig_size + wsub32 (pq_size q) (pq_put q)) else orig_size);
       nvgpu_assert (pq_put q < pq_size q);
       nvgpu_assert (pq_get q < pq_size q);
       nvgpu_assert (pq_size q > 0);
       let free_count = wrap32 (pq_size q - pq_put q + pq_get q - 1) AND (pq_size q - 1);
       if sz > free_count then Some (Inl EAGAIN, q)
       else do {
         let off = (if sz \<noteq> orig_size then 0 else pq_put q);
         let put = (if sz \<noteq> orig_size then orig_size
                    else wrap32 (pq_put q + orig_size) AND (pq_size q - 1));
         entries \<leftarrow> store (pq_entries q) e
           \<lparr>pe_mem = True, pe_off = off, pe_fill_off = 0, pe_size = orig_size, pe_alloc_size = sz\<rparr>;
         nvgpu_assert (\<not> put > pq_size q);
         Some (Inr (), q\<lparr>pq_put := put, pq_entries := entries\<rparr>) }
     }"

definition nvgpu_priv_cmdbuf_alloc ::
    "priv_cmd_queue \<Rightarrow> u32 \<Rightarrow> (u32 result \<times> priv_cmd_queue) option" where
  "nvgpu_priv_cmdbuf_alloc q sz =
     do {
       p1 \<leftarrow> nvgpu_safe_add_u32 (pq_entry_put q) 1;
       next_put \<leftarrow> umod32 p1 (pq_entries_len q);
       if next_put = pq_entry_get q then Some (Inl EAGAIN, q)
       else do {
         let entry = pq_entry_put q;
         (err, q1) \<leftarrow> nvgpu_priv_cmdbuf_alloc_buf q sz entry;
         (case err of Inl x \<Rightarrow> Some (Inl x, q1)
          | Inr _ \<Rightarrow> Some (Inr entry, q1\<lparr>pq_entry_put := next_put\<rparr>)) }
     }"

definition nvgpu_priv_cmdbuf_rollback :: "priv_cmd_queue \<Rightarrow> u32 \<Rightarrow> priv_cmd_queue option" where
  "nvgpu_priv_cmdbuf_rollback q i =
     do {
       e \<leftarrow> load (pq_entries q) i;
       nvgpu_assert (pq_put q < pq_size q);
       nvgpu_assert (pq_size q > 0);
       nvgpu_assert (pe_alloc_size e \<le> pq_size q);
       let put = wrap32 (pq_put q + pq_size q - pe_alloc_size e) AND (pq_size q - 1);
       entries \<leftarrow> store (pq_entries q) i zero_entry;
       nvgpu_assert (pq_entry_put q < pq_entries_len q);
       nvgpu_assert (pq_entries_len q > 0);
       entry_put \<leftarrow> umod32 (wrap32 (pq_entry_put q + pq_entries_len q - 1)) (pq_entries_len q);
       Some (q\<lparr>pq_put := put, pq_entries := entries, pq_entry_put := entry_put\<rparr>)
     }"

text \<open>A release out of order is reported in the log and carried out all the same.\<close>

definition nvgpu_priv_cmdbuf_free :: "priv_cmd_queue \<Rightarrow> u32 \<Rightarrow> priv_cmd_queue option" where
  "nvgpu_priv_cmdbuf_free q i =
     do {
       e \<leftarrow> load (pq_entries q) i;
       nvgpu_assert (pq_size q > 0);
       s \<leftarrow> nvgpu_safe_add_u32 (pe_off e) (pe_size e);
       let get = s AND (pq_size q - 1);
       g1 \<leftarrow> nvgpu_safe_add_u32 (pq_entry_get q) 1;
       entry_get \<leftarrow> umod32 g1 (pq_entries_len q);
       entries \<leftarrow> store (pq_entries q) i zero_entry;
       Some (q\<lparr>pq_get := get, pq_entry_get := entry_get, pq_entries := entries\<rparr>)
     }"

text \<open>\<open>nvgpu_mem_wr_n\<close> of whole words into the push buffer.\<close>

definition wr_n :: "u32 list \<Rightarrow> nat \<Rightarrow> u32 list \<Rightarrow> u32 list option" where
  "wr_n ws off data =
     (if off + length data \<le> length ws then Some (take off ws @ data @ drop (off + length data) ws) else None)"

definition nvgpu_priv_cmdbuf_append :: "priv_cmd_queue \<Rightarrow> u32 \<Rightarrow> u32 list \<Rightarrow> priv_cmd_queue option" where
  "nvgpu_priv_cmdbuf_append q i data =
     do {
       e \<leftarrow> load (pq_entries q) i;
       let entries = length data;
       nvgpu_assert (wrap32 (pe_fill_off e + entries) \<le> pe_size e);
       ws \<leftarrow> wr_n (pq_words q) (wrap32 (pe_off e + pe_fill_off e)) data;
       es \<leftarrow> store (pq_entries q) i (e\<lparr>pe_fill_off := wrap32 (pe_fill_off e + entries)\<rparr>);
       Some (q\<lparr>pq_words := ws, pq_entries := es\<rparr>)
     }"

definition nvgpu_priv_cmdbuf_append_zeros :: "priv_cmd_queue \<Rightarrow> u32 \<Rightarrow> u32 \<Rightarrow> priv_cmd_queue option" where
  "nvgpu_priv_cmdbuf_append_zeros q i entries =
     do {
       e \<leftarrow> load (pq_entries q) i;
       nvgpu_assert (wrap32 (pe_fill_off e + entries) \<le> pe_size e);
       ws \<leftarrow> wr_n (pq_words q) (wrap32 (pe_off e + pe_fill_off e)) (replicate entries 0);
       es \<leftarrow> store (pq_entries q) i (e\<lparr>pe_fill_off := wrap32 (pe_fill_off e + entries)\<rparr>);
       Some (q\<lparr>pq_words := ws, pq_entries := es\<rparr>)
     }"

definition nvgpu_priv_cmdbuf_finish :: "priv_cmd_queue \<Rightarrow> u32 \<Rightarrow> (u64 \<times> u32) option" where
  "nvgpu_priv_cmdbuf_finish q i =
     do {
       e \<leftarrow> load (pq_entries q) i;
       nvgpu_assert (pe_fill_off e = pe_size e);
       b \<leftarrow> nvgpu_safe_mult_u64 (pe_off e) 4;
       gva \<leftarrow> nvgpu_safe_add_u64 (pq_gpu_va q) b;
       Some (gva, pe_size e)
     }"

section \<open>Invariant\<close>

text \<open>An entry that starts when the push buffer is used up to \<open>g\<close>: at \<open>g\<close> itself, or at 0 with the
  rest of the buffer accounted to it. A chain of entries leads from \<open>get\<close> to \<open>put\<close>.\<close>

definition cmd_at :: "nat \<Rightarrow> nat \<Rightarrow> priv_cmd_entry \<Rightarrow> bool" where
  "cmd_at n g e \<longleftrightarrow> pe_off e + pe_size e \<le> n \<and>
     (if g + pe_size e \<le> n then pe_off e = g \<and> pe_alloc_size e = pe_size e
      else pe_off e = 0 \<and> pe_alloc_size e = pe_size e + (n - g))"

fun cmd_chain :: "nat \<Rightarrow> nat \<Rightarrow> priv_cmd_entry list \<Rightarrow> nat \<Rightarrow> bool" where
  "cmd_chain n g [] p \<longleftrightarrow> g = p"
| "cmd_chain n g (e # es) p \<longleftrightarrow> cmd_at n g e \<and> cmd_chain n ((pe_off e + pe_size e) mod n) es p"

definition pq_content :: "priv_cmd_queue \<Rightarrow> priv_cmd_entry list" where
  "pq_content q = ring_content (pq_entries q) (pq_entry_get q) (pq_entry_put q)"

definition pq_alloced :: "priv_cmd_queue \<Rightarrow> nat" where
  "pq_alloced q = sum_list (map pe_alloc_size (pq_content q))"

definition pq_ok :: "priv_cmd_queue \<Rightarrow> bool" where
  "pq_ok q \<longleftrightarrow> (\<exists>k\<le>31. pq_size q = 2 ^ k) \<and> length (pq_words q) = pq_size q \<and>
     pq_put q < pq_size q \<and> pq_get q < pq_size q \<and>
     length (pq_entries q) = pq_entries_len q \<and> pq_entries_len q \<le> 2 ^ 31 \<and>
     pq_entry_put q < pq_entries_len q \<and> pq_entry_get q < pq_entries_len q \<and>
     cmd_chain (pq_size q) (pq_get q) (pq_content q) (pq_put q) \<and>
     pq_alloced q < pq_size q"

lemma cmd_at_end: "cmd_at n g e \<Longrightarrow> g < n \<Longrightarrow> (pe_off e + pe_size e) mod n = (g + pe_alloc_size e) mod n"
  by (auto simp: cmd_at_def split: if_splits)

lemma cmd_at_words:
  assumes "cmd_at n g e" "g < n"
  shows "{pe_off e..<pe_off e + pe_size e} \<subseteq> arc n g (pe_alloc_size e)"
proof (cases "g + pe_size e \<le> n")
  case True
  then show ?thesis using assms by (simp add: cmd_at_def arc_linear)
next
  case False
  then have e: "pe_off e = 0" "pe_alloc_size e = (n - g) + pe_size e" "pe_size e \<le> n" using assms by (auto simp: cmd_at_def)
  have "(g + (n - g)) mod n = 0" using assms(2) by simp
  then have "arc n 0 (pe_size e) \<subseteq> arc n g (pe_alloc_size e)" unfolding e(2) arc_append by simp
  then show ?thesis using arc_linear[of 0 "pe_size e" n] e by simp
qed

lemma cmd_chain_append:
  "cmd_chain n g (es @ fs) p \<longleftrightarrow> (\<exists>m. cmd_chain n g es m \<and> cmd_chain n m fs p)"
  by (induction n g es p rule: cmd_chain.induct) auto

lemma cmd_chain_put:
  "cmd_chain n g es p \<Longrightarrow> g < n \<Longrightarrow> p = (g + sum_list (map pe_alloc_size es)) mod n"
proof (induction es arbitrary: g)
  case (Cons e es)
  have "p = ((g + pe_alloc_size e) mod n + sum_list (map pe_alloc_size es)) mod n"
    using Cons.IH[of "(g + pe_alloc_size e) mod n"] Cons.prems cmd_at_end[of n g e] by auto
  then show ?case by (simp add: mod_add_left_eq add.assoc)
qed simp

text \<open>The fragments of a chain that does not fill the ring do not overlap.\<close>

lemma cmd_chain_disjoint:
  assumes "cmd_chain n g es p" "g < n" "sum_list (map pe_alloc_size es) \<le> n"
  shows "(\<forall>e\<in>set es. {pe_off e..<pe_off e + pe_size e} \<subseteq> arc n g (sum_list (map pe_alloc_size es))) \<and>
    sorted_wrt (\<lambda>e f. {pe_off e..<pe_off e + pe_size e} \<inter> {pe_off f..<pe_off f + pe_size f} = {}) es"
  using assms
proof (induction es arbitrary: g)
  case (Cons e es)
  let ?s = "sum_list (map pe_alloc_size es)" and ?g = "(g + pe_alloc_size e) mod n"
  have at: "cmd_at n g e" and ch: "cmd_chain n ?g es p" and n: "?g < n"
    using Cons.prems cmd_at_end[of n g e] by auto
  have IH: "\<forall>f\<in>set es. {pe_off f..<pe_off f + pe_size f} \<subseteq> arc n ?g ?s"
    "sorted_wrt (\<lambda>e f. {pe_off e..<pe_off e + pe_size e} \<inter> {pe_off f..<pe_off f + pe_size f} = {}) es"
    using Cons.IH[OF ch n] Cons.prems(3) by auto
  have w: "{pe_off e..<pe_off e + pe_size e} \<subseteq> arc n g (pe_alloc_size e)"
    by (rule cmd_at_words[OF at Cons.prems(2)])
  have "arc n g (pe_alloc_size e) \<inter> arc n ?g ?s = {}" using Cons.prems(3) by (intro arc_disjoint) simp
  then have "{pe_off e..<pe_off e + pe_size e} \<inter> {pe_off f..<pe_off f + pe_size f} = {}" if "f \<in> set es" for f
    using w IH(1) that by blast
  then show ?case using w IH by (auto simp: arc_append)
qed simp

section \<open>Correctness of the operations\<close>

definition cmd_need :: "priv_cmd_queue \<Rightarrow> u32 \<Rightarrow> nat" where
  "cmd_need q sz = (if pq_put q + sz \<le> pq_size q then sz else sz + (pq_size q - pq_put q))"

definition cmd_entry :: "priv_cmd_queue \<Rightarrow> u32 \<Rightarrow> priv_cmd_entry" where
  "cmd_entry q sz = \<lparr>pe_mem = True, pe_off = (if pq_put q + sz \<le> pq_size q then pq_put q else 0), pe_fill_off = 0,
                     pe_size = sz, pe_alloc_size = cmd_need q sz\<rparr>"

lemma ring_used_unique: "g < n \<Longrightarrow> a < n \<Longrightarrow> ring_used n g ((g + a) mod n) = a"
  by (subst ring_used_cases) (auto simp: ring_index)

lemma pq_ok_alloced:
  assumes "pq_ok q"
  shows "pq_alloced q = ring_used (pq_size q) (pq_get q) (pq_put q)"
    "pq_put q = (pq_get q + pq_alloced q) mod pq_size q"
proof -
  have c: "cmd_chain (pq_size q) (pq_get q) (pq_content q) (pq_put q)" "pq_get q < pq_size q" "pq_alloced q < pq_size q"
    using assms by (simp_all add: pq_ok_def)
  show p: "pq_put q = (pq_get q + pq_alloced q) mod pq_size q" using cmd_chain_put[OF c(1,2)] by (simp add: pq_alloced_def)
  show "pq_alloced q = ring_used (pq_size q) (pq_get q) (pq_put q)" unfolding p ring_used_unique[OF c(2,3)] ..
qed

lemma pq_size_and: "pq_ok q \<Longrightarrow> x AND (pq_size q - 1) = x mod pq_size q"
  by (auto simp: pq_ok_def and_mask_nat[simplified])

lemma pq_size_le: "pq_ok q \<Longrightarrow> 0 < pq_size q \<and> pq_size q \<le> 2 ^ 31"
  unfolding pq_ok_def by (metis one_le_numeral power_increasing gr0I not_less_zero)

lemma pq_free_count:
  assumes "pq_ok q"
  shows "wrap32 (pq_size q - pq_put q + pq_get q - 1) AND (pq_size q - 1) = pq_size q - 1 - pq_alloced q"
proof -
  have n: "0 < pq_size q" "pq_size q \<le> 2 ^ 31" using pq_size_le[OF assms] by auto
  have pg: "pq_put q < pq_size q" "pq_get q < pq_size q" using assms by (auto simp: pq_ok_def)
  have "pq_size q - pq_put q + pq_get q - 1 \<le> U32_MAX" using n pg by simp
  then have "wrap32 (pq_size q - pq_put q + pq_get q - 1) = pq_size q - pq_put q + pq_get q - 1" by (rule wrap32_id)
  moreover have "(pq_size q - pq_put q + pq_get q - 1) mod pq_size q = pq_size q - 1 - pq_alloced q"
    unfolding pq_ok_alloced(1)[OF assms] ring_used_cases[OF pg(2,1)] using pg le_mod_geq[of "pq_size q"]
    by (cases "pq_get q \<le> pq_put q") auto
  ultimately show ?thesis by (simp add: pq_size_and[OF assms, simplified])
qed

lemma cmd_at_entry:
  assumes "pq_put q < pq_size q" "cmd_need q sz \<le> pq_size q"
  shows "cmd_at (pq_size q) (pq_put q) (cmd_entry q sz)"
  using assms by (auto simp: cmd_at_def cmd_entry_def cmd_need_def split: if_splits)

lemma alloc_buf_spec:
  assumes ok: "pq_ok q" and sz: "sz + pq_size q \<le> U32_MAX" and i: "i < length (pq_entries q)"
  shows "nvgpu_priv_cmdbuf_alloc_buf q sz i =
    (if pq_size q \<le> pq_alloced q + cmd_need q sz then Some (Inl EAGAIN, q)
     else Some (Inr (), q\<lparr>pq_put := (pq_put q + cmd_need q sz) mod pq_size q,
                          pq_entries := (pq_entries q)[i := cmd_entry q sz]\<rparr>))"
proof -
  have b: "pq_put q < pq_size q" "pq_get q < pq_size q" "pq_alloced q < pq_size q" using ok by (auto simp: pq_ok_def)
  have sa: "nvgpu_safe_add_u32 (pq_put q) sz = Some (pq_put q + sz)" using sz b by (simp add: safe_simps)
  have need: "(if pq_put q + sz > pq_size q then wrap32 (sz + wsub32 (pq_size q) (pq_put q)) else sz) = cmd_need q sz"
    using sz b by (simp add: cmd_need_def)
  have big: "pq_size q - 1 - pq_alloced q < cmd_need q sz \<longleftrightarrow> pq_size q \<le> pq_alloced q + cmd_need q sz"
    using b by linarith
  show ?thesis
  proof (cases "pq_size q \<le> pq_alloced q + cmd_need q sz")
    case True
    then show ?thesis
      unfolding nvgpu_priv_cmdbuf_alloc_buf_def sa Let_def Option.bind.bind_lunit need pq_free_count[OF ok]
      using b big by simp
  next
    case False
    then have fits: "cmd_need q sz < pq_size q" by simp
    have skip: "cmd_need q sz \<noteq> sz \<longleftrightarrow> \<not> pq_put q + sz \<le> pq_size q" using b by (auto simp: cmd_need_def)
    have w: "wrap32 (pq_put q + sz) = pq_put q + sz" using sz b by simp
    have p: "(if cmd_need q sz \<noteq> sz then sz else wrap32 (pq_put q + sz) AND (pq_size q - 1)) =
        (pq_put q + cmd_need q sz) mod pq_size q"
    proof (cases "pq_put q + sz \<le> pq_size q")
      case True
      then show ?thesis using w by (simp add: cmd_need_def pq_size_and[OF ok, simplified])
    next
      case False
      then have "pq_put q + cmd_need q sz = sz + pq_size q" "sz < pq_size q" using b fits by (auto simp: cmd_need_def)
      then show ?thesis using False skip by simp
    qed
    have "(pq_put q + cmd_need q sz) mod pq_size q \<le> pq_size q" using b by (simp add: less_imp_le)
    then show ?thesis
      unfolding nvgpu_priv_cmdbuf_alloc_buf_def sa Let_def Option.bind.bind_lunit need pq_free_count[OF ok] p
      using b i False big skip by (simp add: store_in cmd_entry_def not_less)
  qed
qed

lemma umod32_pos [simp]: "0 < n \<Longrightarrow> umod32 x n = Some (x mod n)"
  by (simp add: umod32_def)

definition pq_full :: "priv_cmd_queue \<Rightarrow> u32 \<Rightarrow> bool" where
  "pq_full q sz \<longleftrightarrow> Suc (length (pq_content q)) = pq_entries_len q \<or> pq_size q \<le> pq_alloced q + cmd_need q sz"

lemma pq_ring:
  assumes "pq_ok q"
  shows "pq_entry_get q < length (pq_entries q)" "pq_entry_put q < length (pq_entries q)"
    "length (pq_entries q) = pq_entries_len q"
    "Suc (pq_entry_put q) mod pq_entries_len q = pq_entry_get q \<longleftrightarrow> Suc (length (pq_content q)) = pq_entries_len q"
  using assms ring_full[of "pq_entry_get q" "pq_entries_len q" "pq_entry_put q"] by (auto simp: pq_ok_def pq_content_def)

lemma priv_cmdbuf_alloc_spec:
  assumes ok: "pq_ok q" and sz: "sz + pq_size q \<le> U32_MAX"
  defines "q' \<equiv> q\<lparr>pq_put := (pq_put q + cmd_need q sz) mod pq_size q,
                    pq_entries := (pq_entries q)[pq_entry_put q := cmd_entry q sz],
                    pq_entry_put := Suc (pq_entry_put q) mod pq_entries_len q\<rparr>"
  shows "pq_full q sz \<Longrightarrow> nvgpu_priv_cmdbuf_alloc q sz = Some (Inl EAGAIN, q)"
    "\<not> pq_full q sz \<Longrightarrow> nvgpu_priv_cmdbuf_alloc q sz = Some (Inr (pq_entry_put q), q')"
    "\<not> pq_full q sz \<Longrightarrow> pq_content q' = pq_content q @ [cmd_entry q sz]"
    "\<not> pq_full q sz \<Longrightarrow> pq_ok q'"
proof -
  note r = pq_ring[OF ok]
  have sa: "nvgpu_safe_add_u32 (pq_entry_put q) (Suc 0) = Some (Suc (pq_entry_put q))"
    using ok by (simp add: safe_simps pq_ok_def)
  have pos: "0 < pq_entries_len q" using r by simp
  note ab = alloc_buf_spec[OF ok sz r(2)]
  show "pq_full q sz \<Longrightarrow> nvgpu_priv_cmdbuf_alloc q sz = Some (Inl EAGAIN, q)"
    using r(4) pos by (auto simp: nvgpu_priv_cmdbuf_alloc_def sa ab pq_full_def Let_def)
  assume nf: "\<not> pq_full q sz"
  then have ne: "Suc (pq_entry_put q) mod pq_entries_len q \<noteq> pq_entry_get q"
    and fit: "pq_alloced q + cmd_need q sz < pq_size q" using r(4) by (auto simp: pq_full_def)
  show "nvgpu_priv_cmdbuf_alloc q sz = Some (Inr (pq_entry_put q), q')"
    using ne fit pos by (simp add: nvgpu_priv_cmdbuf_alloc_def sa ab Let_def q'_def)
  have len: "length ((pq_entries q)[pq_entry_put q := cmd_entry q sz]) = pq_entries_len q" using r(3) by simp
  have "pq_content q' = ring_content ((pq_entries q)[pq_entry_put q := cmd_entry q sz]) (pq_entry_get q)
      (Suc (pq_entry_put q) mod length ((pq_entries q)[pq_entry_put q := cmd_entry q sz]))"
    using len by (simp add: pq_content_def q'_def)
  also have "\<dots> = ring_content ((pq_entries q)[pq_entry_put q := cmd_entry q sz]) (pq_entry_get q) (pq_entry_put q) @
      [cmd_entry q sz]" using r ne by (subst ring_content_push) auto
  finally show c: "pq_content q' = pq_content q @ [cmd_entry q sz]"
    using ring_content_store[OF r(1,2)] by (simp add: pq_content_def)
  have b: "pq_put q < pq_size q" "cmd_chain (pq_size q) (pq_get q) (pq_content q) (pq_put q)"
    using ok by (simp_all add: pq_ok_def)
  have at: "cmd_at (pq_size q) (pq_put q) (cmd_entry q sz)" using b fit by (intro cmd_at_entry) auto
  have "cmd_chain (pq_size q) (pq_get q) (pq_content q') ((pq_put q + cmd_need q sz) mod pq_size q)"
    unfolding c cmd_chain_append using b(2) at cmd_at_end[OF at b(1)]
    by (intro exI[of _ "pq_put q"]) (simp add: cmd_entry_def)
  moreover have "pq_alloced q' < pq_size q" using fit by (simp add: pq_alloced_def c cmd_entry_def)
  ultimately show "pq_ok q'" using ok pos by (simp add: pq_ok_def q'_def)
qed

text \<open>The oldest entry is released.\<close>

lemma priv_cmdbuf_free_spec:
  assumes ok: "pq_ok q" and c: "pq_content q = e # es"
  shows "\<exists>q'. nvgpu_priv_cmdbuf_free q (pq_entry_get q) = Some q' \<and> pq_ok q' \<and> pq_content q' = es \<and>
    pq_size q' = pq_size q \<and> pq_put q' = pq_put q \<and> pq_entries_len q' = pq_entries_len q \<and> pq_words q' = pq_words q"
proof -
  note r = pq_ring[OF ok]
  have pos: "0 < pq_entries_len q" "pq_entries_len q \<le> 2 ^ 31" "0 < pq_size q" "pq_size q \<le> 2 ^ 31"
    using r ok pq_size_le[OF ok] by (auto simp: pq_ok_def)
  have ne: "pq_entry_get q \<noteq> pq_entry_put q" using c r by (auto simp: pq_content_def)
  have pop: "pq_entries q ! pq_entry_get q = e"
    "ring_content (pq_entries q) (Suc (pq_entry_get q) mod length (pq_entries q)) (pq_entry_put q) = es"
    using c ring_content_pop[OF r(1,2) ne] by (simp_all add: pq_content_def)
  have at: "cmd_at (pq_size q) (pq_get q) e" and
    ch: "cmd_chain (pq_size q) ((pe_off e + pe_size e) mod pq_size q) es (pq_put q)"
    using ok c by (simp_all add: pq_ok_def)
  have "pe_off e + pe_size e \<le> U32_MAX" using at pos by (simp add: cmd_at_def)
  then have sa: "nvgpu_safe_add_u32 (pe_off e) (pe_size e) = Some (pe_off e + pe_size e)"
    "nvgpu_safe_add_u32 (pq_entry_get q) (Suc 0) = Some (Suc (pq_entry_get q))"
    using r pos by (simp_all add: safe_simps)
  define q' where "q' = q\<lparr>pq_get := (pe_off e + pe_size e) mod pq_size q,
      pq_entry_get := Suc (pq_entry_get q) mod pq_entries_len q,
      pq_entries := (pq_entries q)[pq_entry_get q := zero_entry]\<rparr>"
  have "nvgpu_priv_cmdbuf_free q (pq_entry_get q) = Some q'"
    using r pos pop(1) sa by (simp add: nvgpu_priv_cmdbuf_free_def load_in store_in Let_def
        pq_size_and[OF ok, simplified] q'_def)
  moreover have c': "pq_content q' = es" using ring_content_store_popped[OF r(1,2) ne] pop(2) r(3)
    by (simp add: pq_content_def q'_def)
  moreover have "pq_ok q'" using ok ch c pos c' by (simp add: pq_ok_def pq_alloced_def q'_def)
  ultimately show ?thesis by (auto simp: q'_def)
qed

text \<open>Taking back the newest entry.\<close>

lemma mod_back: "(a::nat) < n \<Longrightarrow> b \<le> n \<Longrightarrow> ((a + b) mod n + n - b) mod n = a"
  using ring_index[of a n b] by (cases "a + b < n") auto

lemma priv_cmdbuf_rollback_spec:
  assumes ok: "pq_ok q" and sz: "sz + pq_size q \<le> U32_MAX" and nf: "\<not> pq_full q sz"
    and q1: "nvgpu_priv_cmdbuf_alloc q sz = Some (Inr i, q1)"
  shows "nvgpu_priv_cmdbuf_rollback q1 i = Some (q\<lparr>pq_entries := (pq_entries q)[pq_entry_put q := zero_entry]\<rparr>)"
proof -
  note r = pq_ring[OF ok] and n = pq_size_le[OF ok]
  have b: "pq_put q < pq_size q" "cmd_need q sz < pq_size q" "pq_entry_put q < pq_entries_len q" "pq_entries_len q \<le> 2 ^ 31"
    using ok nf by (auto simp: pq_ok_def pq_full_def)
  have i: "i = pq_entry_put q" and q1: "q1 = q\<lparr>pq_put := (pq_put q + cmd_need q sz) mod pq_size q,
      pq_entries := (pq_entries q)[pq_entry_put q := cmd_entry q sz],
      pq_entry_put := Suc (pq_entry_put q) mod pq_entries_len q\<rparr>"
    using priv_cmdbuf_alloc_spec(2)[OF ok sz nf] q1 by auto
  have sz_q: "pq_size q1 = pq_size q" and ok1: "pq_ok q1" using priv_cmdbuf_alloc_spec(4)[OF ok sz nf] q1 by auto
  have w: "wrap32 ((pq_put q + cmd_need q sz) mod pq_size q + pq_size q - cmd_need q sz) =
      (pq_put q + cmd_need q sz) mod pq_size q + pq_size q - cmd_need q sz"
  proof (rule wrap32_id)
    have "(pq_put q + cmd_need q sz) mod pq_size q < pq_size q" using n by simp
    moreover have "pq_size q \<le> 2147483648" using n by simp
    ultimately show "(pq_put q + cmd_need q sz) mod pq_size q + pq_size q - cmd_need q sz \<le> U32_MAX"
      by linarith
  qed
  have p: "wrap32 ((pq_put q + cmd_need q sz) mod pq_size q + pq_size q - cmd_need q sz) AND (pq_size q - 1) = pq_put q"
    unfolding w pq_size_and[OF ok] using mod_back[of "pq_put q" "pq_size q" "cmd_need q sz"] b by simp
  have ep: "(wrap32 (Suc (pq_entry_put q) mod pq_entries_len q + pq_entries_len q - 1)) mod pq_entries_len q = pq_entry_put q"
    using b(3,4) by (auto simp: ring_next_cases)
  show ?thesis unfolding i q1 nvgpu_priv_cmdbuf_rollback_def
    using r b n p ep by (simp add: load_in store_in cmd_entry_def Let_def)
qed

section \<open>Properties\<close>

definition words_of :: "priv_cmd_entry \<Rightarrow> nat set" where
  "words_of e = {pe_off e..<pe_off e + pe_size e}"

definition fragments_ok :: "priv_cmd_queue \<Rightarrow> bool" where
  "fragments_ok q \<longleftrightarrow> (\<forall>e\<in>set (pq_content q). pe_off e + pe_size e \<le> length (pq_words q)) \<and>
     sorted_wrt (\<lambda>e f. words_of e \<inter> words_of f = {}) (pq_content q)"

lemma cmd_chain_bound: "cmd_chain n g es p \<Longrightarrow> e \<in> set es \<Longrightarrow> pe_off e + pe_size e \<le> n"
  by (induction n g es p rule: cmd_chain.induct) (auto simp: cmd_at_def)

lemma pq_ok_fragments: "pq_ok q \<Longrightarrow> fragments_ok q"
  using cmd_chain_disjoint[of "pq_size q" "pq_get q" "pq_content q" "pq_put q"] cmd_chain_bound
  by (auto simp: pq_ok_def pq_alloced_def words_of_def fragments_ok_def)

text \<open>C30: \<open>nvgpu_priv_cmdbuf_alloc\<close> refuses a request with \<open>EAGAIN\<close>, changing nothing, exactly when the
  ring of entries is full or the words it would take, with the skipped end of the buffer,
  are not free. Otherwise the new entry comes last, has the size asked for, is contiguous
  inside the push buffer, and no two fragments in use overlap.\<close>

theorem priv_cmdbuf_alloc_disjoint:
  assumes "pq_ok q" "sz + pq_size q \<le> U32_MAX"
  shows "if Suc (length (pq_content q)) = pq_entries_len q \<or>
        pq_size q \<le> pq_alloced q + (if pq_put q + sz \<le> pq_size q then sz else sz + (pq_size q - pq_put q))
     then nvgpu_priv_cmdbuf_alloc q sz = Some (Inl EAGAIN, q)
     else \<exists>i q' e. nvgpu_priv_cmdbuf_alloc q sz = Some (Inr i, q') \<and> pq_ok q' \<and>
       pq_content q' = pq_content q @ [e] \<and> pq_entries q' ! i = e \<and> pe_size e = sz \<and>
       pe_off e + sz \<le> length (pq_words q') \<and> fragments_ok q'"
proof (cases "pq_full q sz")
  case True
  then show ?thesis using priv_cmdbuf_alloc_spec(1)[OF assms] by (simp add: pq_full_def cmd_need_def)
next
  case False
  note sp = priv_cmdbuf_alloc_spec[OF assms]
  have "fragments_ok q'" if "pq_ok q'" for q' using pq_ok_fragments that by blast
  then show ?thesis using False sp(2-4)[OF False] pq_ring(2)[OF assms(1)] pq_ok_fragments[OF sp(4)[OF False]]
    by (auto simp: pq_full_def cmd_need_def cmd_entry_def fragments_ok_def)
qed

definition sample_queue :: priv_cmd_queue where
  "sample_queue = \<lparr>pq_words = replicate 8 0, pq_gpu_va = 65536, pq_size = 8, pq_put = 6, pq_get = 6,
     pq_entries = [zero_entry, zero_entry, zero_entry], pq_entries_len = 3, pq_entry_put = 1, pq_entry_get = 1\<rparr>"

lemma sample_queue_ok: "pq_ok sample_queue"
  by (simp add: pq_ok_def sample_queue_def pq_content_def pq_alloced_def) (rule exI[of _ 3], simp)

theorem priv_cmdbuf_alloc_disjoint_witness:
  "\<exists>q'. nvgpu_priv_cmdbuf_alloc sample_queue 3 = Some (Inr 1, q') \<and> pq_ok q' \<and> fragments_ok q'"
  using priv_cmdbuf_alloc_disjoint[OF sample_queue_ok, of 3] priv_cmdbuf_alloc_spec(2)[OF sample_queue_ok, of 3]
  by (auto simp: sample_queue_def pq_content_def pq_alloced_def pq_full_def cmd_need_def)

text \<open>Releasing the oldest fragment is always possible, removes exactly it and keeps the others where they
  are; its words are free for the next allocation.\<close>

theorem priv_cmdbuf_free_fifo:
  assumes "pq_ok q" "pq_content q = e # es"
  shows "\<exists>q'. nvgpu_priv_cmdbuf_free q (pq_entry_get q) = Some q' \<and> pq_ok q' \<and> pq_content q' = es \<and>
    pq_alloced q' + pe_alloc_size e = pq_alloced q"
  using priv_cmdbuf_free_spec[OF assms] assms(2) by (auto simp: pq_alloced_def)

theorem priv_cmdbuf_free_fifo_witness:
  "\<exists>q' q''. nvgpu_priv_cmdbuf_alloc sample_queue 3 = Some (Inr 1, q') \<and>
     nvgpu_priv_cmdbuf_free q' (pq_entry_get q') = Some q'' \<and> pq_content q'' = [] \<and> pq_alloced q'' + 5 = pq_alloced q'"
proof -
  have nf: "\<not> pq_full sample_queue 3"
    by (simp add: sample_queue_def pq_content_def pq_alloced_def pq_full_def cmd_need_def)
  have sz: "3 + pq_size sample_queue \<le> U32_MAX" by (simp add: sample_queue_def)
  note sp = priv_cmdbuf_alloc_spec[OF sample_queue_ok sz]
  have c: "pq_content sample_queue = []" "pe_alloc_size (cmd_entry sample_queue 3) = 5" "pq_entry_put sample_queue = 1"
    by (simp_all add: sample_queue_def pq_content_def cmd_entry_def cmd_need_def)
  show ?thesis using sp(2)[OF nf] priv_cmdbuf_free_fifo[OF sp(4)[OF nf], of "cmd_entry sample_queue 3" "[]"] sp(3)[OF nf]
    unfolding c by auto
qed

text \<open>\<open>nvgpu_priv_cmdbuf_rollback\<close> of the entry just allocated undoes the allocation: the queue is as before,
  with the same fragments in use, up to the content of a slot that is not in use.\<close>

theorem priv_cmdbuf_rollback_undoes:
  assumes "pq_ok q" "sz + pq_size q \<le> U32_MAX" "nvgpu_priv_cmdbuf_alloc q sz = Some (Inr i, q1)"
  shows "\<exists>q2. nvgpu_priv_cmdbuf_rollback q1 i = Some q2 \<and> pq_ok q2 \<and> pq_content q2 = pq_content q \<and>
    q2 = q\<lparr>pq_entries := pq_entries q2\<rparr> \<and> pq_entries q2 = (pq_entries q)[i := zero_entry]"
proof -
  have nf: "\<not> pq_full q sz" using priv_cmdbuf_alloc_spec(1)[OF assms(1,2)] assms(3) by auto
  have i: "i = pq_entry_put q" using priv_cmdbuf_alloc_spec(2)[OF assms(1,2) nf] assms(3) by simp
  let ?q2 = "q\<lparr>pq_entries := (pq_entries q)[i := zero_entry]\<rparr>"
  have c: "pq_content ?q2 = pq_content q"
    using ring_content_store[OF pq_ring(1,2)[OF assms(1)], of zero_entry] by (simp add: pq_content_def i)
  have "pq_ok ?q2" using assms(1) c by (simp add: pq_ok_def pq_alloced_def)
  then show ?thesis using priv_cmdbuf_rollback_spec[OF assms(1,2) nf assms(3)] c i by (intro exI[of _ ?q2]) simp
qed

theorem priv_cmdbuf_rollback_undoes_witness:
  "\<exists>q1 q2. nvgpu_priv_cmdbuf_alloc sample_queue 3 = Some (Inr 1, q1) \<and>
     nvgpu_priv_cmdbuf_rollback q1 1 = Some q2 \<and> pq_put q2 = 6 \<and> pq_entry_put q2 = 1 \<and> pq_content q2 = []"
proof -
  have nf: "\<not> pq_full sample_queue 3"
    by (simp add: sample_queue_def pq_content_def pq_alloced_def pq_full_def cmd_need_def)
  have sz: "3 + pq_size sample_queue \<le> U32_MAX" by (simp add: sample_queue_def)
  obtain q1 where q1: "nvgpu_priv_cmdbuf_alloc sample_queue 3 = Some (Inr 1, q1)"
    using priv_cmdbuf_alloc_spec(2)[OF sample_queue_ok sz nf] by (simp add: sample_queue_def)
  obtain q2 where q2: "nvgpu_priv_cmdbuf_rollback q1 1 = Some q2" "pq_content q2 = pq_content sample_queue"
    "q2 = sample_queue\<lparr>pq_entries := pq_entries q2\<rparr>"
    using priv_cmdbuf_rollback_undoes[OF sample_queue_ok sz q1] by blast
  have "pq_put q2 = 6" "pq_entry_put q2 = 1" by (subst q2(3), simp add: sample_queue_def)+
  then show ?thesis using q1 q2(1,2) by (simp add: sample_queue_def pq_content_def)
qed

end
