(* ===== verification/Engine_Mem_Queue.thy ===== *)
theory Engine_Mem_Queue
  imports Log2
begin

text \<open>
  The command queues between the driver and the falcon microcontrollers,
  \<^verbatim>\<open>common/engine_queues/engine_mem_queue.c\<close>: a byte ring in the falcon's data memory with
  a head and a tail register. A command is contiguous, so when it does not fit before
  the end of the ring the writer puts a REWIND command there and starts again at the offset of
  the queue.

  The other end of the format is in the driver too: it opens the message queues for reading and
  takes the messages out with \<open>pmu_read_message\<close> of \<^verbatim>\<open>common/pmu/ipc/pmu_msg.c\<close>. (Queues in
  a frame buffer, \<^verbatim>\<open>engine_fb_queue.c\<close>, are another implementation and not modelled.)

  The device is the two registers and the memory. The operations that the queue calls
  through pointers (\<open>head\<close>, \<open>tail\<close>, \<open>push\<close>, \<open>pop\<close>) can fail: each call has its outcome in
  the record \<open>emq_env\<close>.
\<close>

section \<open>State\<close>

abbreviation (input) OFLAG_READ :: nat where "OFLAG_READ \<equiv> 0"
abbreviation (input) OFLAG_WRITE :: nat where "OFLAG_WRITE \<equiv> 1"
abbreviation (input) QUEUE_TYPE_DMEM :: nat where "QUEUE_TYPE_DMEM \<equiv> 0"
abbreviation (input) QUEUE_TYPE_EMEM :: nat where "QUEUE_TYPE_EMEM \<equiv> 1"
abbreviation (input) QUEUE_ALIGNMENT :: nat where "QUEUE_ALIGNMENT \<equiv> 4"
abbreviation (input) PMU_CMD_HDR_SIZE :: nat where "PMU_CMD_HDR_SIZE \<equiv> 4"
abbreviation (input) PMU_MSG_HDR_SIZE :: nat where "PMU_MSG_HDR_SIZE \<equiv> 4"
abbreviation (input) PMU_UNIT_END :: nat where "PMU_UNIT_END \<equiv> 0x23"
abbreviation (input) PMU_UNIT_TEST_START :: nat where "PMU_UNIT_TEST_START \<equiv> 0xFE"
abbreviation (input) PMU_UNIT_REWIND :: nat where "PMU_UNIT_REWIND \<equiv> 0"

record nvgpu_engine_mem_queue =
  emq_position :: u32
  emq_offset :: u32
  emq_size :: u32
  emq_id :: u32
  emq_index :: u32
  emq_oflag :: u32
  emq_type :: u8

record emq_dev =
  ed_head :: u32
  ed_tail :: u32
  ed_mem :: "nat \<Rightarrow> u8"

text \<open>The outcomes of the calls, \<open>None\<close> for success, and the two bytes of the REWIND header that
  the source leaves uninitialised.\<close>

record emq_env =
  en_head_get :: "errno option"
  en_tail_get :: "errno option"
  en_position_get :: "errno option"
  en_rewind_push :: "errno option"
  en_push :: "errno option"
  en_head_set :: "errno option"
  en_pop :: "errno option"
  en_tail_set :: "errno option"
  en_junk :: "u8 \<times> u8"

definition mem_write :: "(nat \<Rightarrow> u8) \<Rightarrow> nat \<Rightarrow> u8 list \<Rightarrow> nat \<Rightarrow> u8" where
  "mem_write m p ds = (\<lambda>a. if p \<le> a \<and> a < p + length ds then ds ! (a - p) else m a)"

definition mem_read :: "(nat \<Rightarrow> u8) \<Rightarrow> nat \<Rightarrow> nat \<Rightarrow> u8 list" where
  "mem_read m p n = map m [p..<p + n]"

section \<open>Operations\<close>

definition ALIGN_u32 :: "u32 \<Rightarrow> u32 \<Rightarrow> u32 option" where
  "ALIGN_u32 x a = do { m \<leftarrow> nvgpu_safe_sub_u32 a 1; s \<leftarrow> nvgpu_safe_add_u32 x m; Some (and_not64 s m) }"

definition mem_queue_get_head_tail :: "emq_env \<Rightarrow> emq_dev \<Rightarrow> (u32 \<times> u32) result" where
  "mem_queue_get_head_tail env d =
     (case en_head_get env of Some e \<Rightarrow> Inl e
      | None \<Rightarrow> (case en_tail_get env of Some e \<Rightarrow> Inl e | None \<Rightarrow> Inr (ed_head d, ed_tail d)))"

definition engine_mem_queue_has_room ::
    "emq_env \<Rightarrow> emq_dev \<Rightarrow> nvgpu_engine_mem_queue \<Rightarrow> u32 \<Rightarrow> (bool \<times> bool) option" where
  "engine_mem_queue_has_room env d queue sz =
     do {
       sz \<leftarrow> ALIGN_u32 sz QUEUE_ALIGNMENT;
       (case mem_queue_get_head_tail env d of
          Inl e \<Rightarrow> Some (sz \<le> 0, False)
        | Inr (q_head, q_tail) \<Rightarrow>
            (let (q_free, q_rewind, q_head) =
               (if q_head \<ge> q_tail
                then (let q_free = wsub32 (wsub32 (wrap32 (emq_offset queue + emq_size queue)) q_head)
                                     PMU_CMD_HDR_SIZE
                      in if sz > q_free then (q_free, True, emq_offset queue) else (q_free, False, q_head))
                else (0, False, q_head));
              q_free = (if q_head < q_tail then wsub32 (wsub32 q_tail q_head) 1 else q_free)
             in Some (sz \<le> q_free, q_rewind)))
     }"

definition engine_mem_queue_rewind ::
    "emq_env \<Rightarrow> nvgpu_engine_mem_queue \<Rightarrow> emq_dev \<Rightarrow>
       unit result \<times> nvgpu_engine_mem_queue \<times> emq_dev" where
  "engine_mem_queue_rewind env queue d =
     (let (err, queue, d) =
        (if emq_oflag queue = OFLAG_WRITE
         then (let cmd = [PMU_UNIT_REWIND, PMU_CMD_HDR_SIZE, fst (en_junk env), snd (en_junk env)]
               in case en_rewind_push env of
                    Some e \<Rightarrow> (Some e, queue, d)
                  | None \<Rightarrow> (None, queue\<lparr>emq_position := wrap32 (emq_position queue + 4)\<rparr>,
                               d\<lparr>ed_mem := mem_write (ed_mem d) (emq_position queue) cmd\<rparr>))
         else (None, queue, d))
      in case err of
           Some e \<Rightarrow> (Inl e, queue, d)
         | None \<Rightarrow>
             (let queue = queue\<lparr>emq_position := emq_offset queue\<rparr> in
              if emq_oflag queue = OFLAG_READ
              then (case en_tail_set env of
                      Some e \<Rightarrow> (Inl e, queue, d)
                    | None \<Rightarrow> (Inr (), queue, d\<lparr>ed_tail := emq_position queue\<rparr>))
              else (Inr (), queue, d)))"

definition engine_mem_queue_prepare_write ::
    "emq_env \<Rightarrow> nvgpu_engine_mem_queue \<Rightarrow> emq_dev \<Rightarrow> u32 \<Rightarrow>
       (unit result \<times> nvgpu_engine_mem_queue \<times> emq_dev) option" where
  "engine_mem_queue_prepare_write env queue d sz =
     do {
       (room, q_rewind) \<leftarrow> engine_mem_queue_has_room env d queue sz;
       Some (if \<not> room then (Inl EAGAIN, queue, d)
             else (case en_position_get env of
                Some e \<Rightarrow> (Inl e, queue, d)
              | None \<Rightarrow>
                  (let queue = queue\<lparr>emq_position := ed_head d\<rparr> in
                   if q_rewind then engine_mem_queue_rewind env queue d else (Inr (), queue, d))))
     }"

definition nvgpu_engine_mem_queue_push ::
    "emq_env \<Rightarrow> nvgpu_engine_mem_queue \<Rightarrow> emq_dev \<Rightarrow> u8 list \<Rightarrow>
       (unit result \<times> nvgpu_engine_mem_queue \<times> emq_dev) option" where
  "nvgpu_engine_mem_queue_push env queue d data =
     (let sz = length data in
      if emq_oflag queue \<noteq> OFLAG_WRITE then Some (Inl EINVAL, queue, d)
      else do {
        (err, queue, d) \<leftarrow> engine_mem_queue_prepare_write env queue d sz;
        (case err of
           Inl e \<Rightarrow> Some (Inl e, queue, d)
         | Inr _ \<Rightarrow>
             (case en_push env of
                Some e \<Rightarrow> Some (Inl e, queue, d)
              | None \<Rightarrow> do {
                  let d = d\<lparr>ed_mem := mem_write (ed_mem d) (emq_position queue) data\<rparr>;
                  al \<leftarrow> ALIGN_u32 sz QUEUE_ALIGNMENT;
                  let queue = queue\<lparr>emq_position := wrap32 (emq_position queue + al)\<rparr>;
                  Some (case en_head_set env of
                          Some e \<Rightarrow> (Inl e, queue, d)
                        | None \<Rightarrow> (Inr (), queue, d\<lparr>ed_head := emq_position queue\<rparr>)) }))
      })"

text \<open>The bytes read, no more than \<open>sz\<close>; \<open>*bytes_read\<close> is their number.\<close>

definition nvgpu_engine_mem_queue_pop ::
    "emq_env \<Rightarrow> nvgpu_engine_mem_queue \<Rightarrow> emq_dev \<Rightarrow> u32 \<Rightarrow>
       (u8 list result \<times> nvgpu_engine_mem_queue \<times> emq_dev) option" where
  "nvgpu_engine_mem_queue_pop env queue d sz =
     (if emq_oflag queue \<noteq> OFLAG_READ then Some (Inl EINVAL, queue, d)
      else (case mem_queue_get_head_tail env d of
         Inl e \<Rightarrow> Some (Inl e, queue, d)
       | Inr (q_head, q_tail) \<Rightarrow>
           (let queue = queue\<lparr>emq_position := q_tail\<rparr> in
            if q_head = q_tail then Some (Inr [], queue, d)
            else do {
              let used = (if q_head > q_tail then q_head - q_tail
                          else wsub32 (wrap32 (emq_offset queue + emq_size queue)) q_tail);
              let sz = (if sz > used then used else sz);
              (case en_pop env of
                 Some e \<Rightarrow> Some (Inl e, queue, d)
               | None \<Rightarrow> do {
                   al \<leftarrow> ALIGN_u32 sz QUEUE_ALIGNMENT;
                   let queue = queue\<lparr>emq_position := wrap32 (emq_position queue + al)\<rparr>;
                   Some (case en_tail_set env of
                           Some e \<Rightarrow> (Inl e, queue, d)
                         | None \<Rightarrow> (Inr (mem_read (ed_mem d) q_tail sz), queue,
                                     d\<lparr>ed_tail := emq_position queue\<rparr>)) }) })))"

definition nvgpu_engine_mem_queue_rewind ::
    "emq_env \<Rightarrow> nvgpu_engine_mem_queue \<Rightarrow> emq_dev \<Rightarrow>
       unit result \<times> nvgpu_engine_mem_queue \<times> emq_dev" where
  "nvgpu_engine_mem_queue_rewind env queue d = engine_mem_queue_rewind env queue d"

definition nvgpu_engine_mem_queue_is_empty :: "emq_env \<Rightarrow> emq_dev \<Rightarrow> bool" where
  "nvgpu_engine_mem_queue_is_empty env d =
     (case mem_queue_get_head_tail env d of
        Inl e \<Rightarrow> (if en_head_get env \<noteq> None then True else ed_head d = 0)
      | Inr (q_head, q_tail) \<Rightarrow> q_head = q_tail)"

definition nvgpu_engine_mem_queue_get_size :: "nvgpu_engine_mem_queue \<Rightarrow> u32" where
  "nvgpu_engine_mem_queue_get_size queue = emq_size queue"

definition nvgpu_engine_mem_queue_init ::
    "bool \<Rightarrow> nvgpu_engine_mem_queue \<Rightarrow> nvgpu_engine_mem_queue result" where
  "nvgpu_engine_mem_queue_init mem_ok params =
     (if \<not> mem_ok then Inl ENOMEM
      else if emq_type params = QUEUE_TYPE_DMEM \<or> emq_type params = QUEUE_TYPE_EMEM then Inr params
      else Inl EINVAL)"

text \<open>The reader of \<^verbatim>\<open>pmu_msg.c\<close> for a queue in falcon memory. Its result is the message with its
  header, \<open>None\<close> for an empty queue, or the error it leaves in \<open>*status\<close>. The outcomes of its up to
  five calls of the queue are \<open>env 0\<close> to \<open>env 4\<close>.\<close>

definition PMU_UNIT_ID_IS_VALID :: "u8 \<Rightarrow> bool" where
  "PMU_UNIT_ID_IS_VALID unit_id \<longleftrightarrow> unit_id < PMU_UNIT_END \<or> unit_id \<ge> PMU_UNIT_TEST_START"

definition pmu_engine_mem_queue_read ::
    "emq_env \<Rightarrow> nvgpu_engine_mem_queue \<Rightarrow> emq_dev \<Rightarrow> u32 \<Rightarrow>
       (u8 list result \<times> nvgpu_engine_mem_queue \<times> emq_dev) option" where
  "pmu_engine_mem_queue_read env queue d bytes_to_read =
     do {
       (res, queue, d) \<leftarrow> nvgpu_engine_mem_queue_pop env queue d bytes_to_read;
       Some (case res of
               Inl e \<Rightarrow> (Inl e, queue, d)
             | Inr bytes \<Rightarrow> (if length bytes \<noteq> bytes_to_read then Inl EINVAL else Inr bytes, queue, d))
     }"

definition pmu_read_message ::
    "(nat \<Rightarrow> emq_env) \<Rightarrow> nvgpu_engine_mem_queue \<Rightarrow> emq_dev \<Rightarrow>
       (u8 list option result \<times> nvgpu_engine_mem_queue \<times> emq_dev) option" where
  "pmu_read_message env queue d =
     (if nvgpu_engine_mem_queue_is_empty (env 0) d then Some (Inr None, queue, d)
      else do {
        (res, queue, d) \<leftarrow> pmu_engine_mem_queue_read (env 1) queue d PMU_MSG_HDR_SIZE;
        (case res of
           Inl e \<Rightarrow> Some (Inl e, queue, d)
         | Inr hdr \<Rightarrow> do {
             (res, queue, d) \<leftarrow>
               (if hdr ! 0 = PMU_UNIT_REWIND
                then (case nvgpu_engine_mem_queue_rewind (env 2) queue d of
                        (Inl e, queue, d) \<Rightarrow> Some (Inl e, queue, d)
                      | (Inr _, queue, d) \<Rightarrow> pmu_engine_mem_queue_read (env 3) queue d PMU_MSG_HDR_SIZE)
                else Some (Inr hdr, queue, d));
             (case res of
                Inl e \<Rightarrow> Some (Inl e, queue, d)
              | Inr hdr \<Rightarrow>
                  if \<not> PMU_UNIT_ID_IS_VALID (hdr ! 0) then Some (Inl EINVAL, queue, d)
                  else if hdr ! 1 > PMU_MSG_HDR_SIZE
                  then do {
                    (res, queue, d) \<leftarrow> pmu_engine_mem_queue_read (env 4) queue d (hdr ! 1 - PMU_MSG_HDR_SIZE);
                    Some (case res of Inl e \<Rightarrow> (Inl e, queue, d)
                                    | Inr body \<Rightarrow> (Inr (Some (hdr @ body)), queue, d)) }
                  else Some (Inr (Some hdr), queue, d)) }) })"

section \<open>The commands in a queue\<close>

definition align4 :: "nat \<Rightarrow> nat" where
  "align4 n = (n + 3) div 4 * 4"

lemma align4_bounds: "n \<le> align4 n" "align4 n < n + 4"
  by (simp_all add: align4_def)

lemma ALIGN_u32_4:
  assumes "n + 3 \<le> U32_MAX"
  shows "ALIGN_u32 n 4 = Some (align4 n)"
proof -
  have "and_not64 (n + 3) (2 ^ 2 - 1) = (n + 3) - (n + 3) mod 2 ^ 2" using assms by (intro and_not64_mask) auto
  also have "\<dots> = align4 n" by (simp add: align4_def minus_mod_eq_div_mult)
  finally show ?thesis using assms by (simp add: ALIGN_u32_def safe_simps)
qed

text \<open>Commands one after the other from \<open>p\<close> up to \<open>q\<close>, and the commands that wait in a queue: from
  the tail to the head, or from the tail to a REWIND and then from the offset to the head.\<close>

fun emq_linear :: "(nat \<Rightarrow> u8) \<Rightarrow> nat \<Rightarrow> u8 list list \<Rightarrow> nat \<Rightarrow> bool" where
  "emq_linear m p [] q \<longleftrightarrow> p = q"
| "emq_linear m p (s # ss) q \<longleftrightarrow> s \<noteq> [] \<and> mem_read m p (length s) = s \<and> emq_linear m (p + align4 (length s)) ss q"

definition emq_wrapped :: "nat \<Rightarrow> nat \<Rightarrow> emq_dev \<Rightarrow> u8 list list \<Rightarrow> bool" where
  "emq_wrapped off lim d ss \<longleftrightarrow> ed_head d < ed_tail d \<and>
     (\<exists>ss1 ss2 r. ss = ss1 @ ss2 \<and> ss2 \<noteq> [] \<and> emq_linear (ed_mem d) (ed_tail d) ss1 r \<and> r + 4 \<le> lim \<and>
        ed_mem d r = PMU_UNIT_REWIND \<and> emq_linear (ed_mem d) off ss2 (ed_head d))"

definition emq_pending :: "nvgpu_engine_mem_queue \<Rightarrow> emq_dev \<Rightarrow> u8 list list \<Rightarrow> bool" where
  "emq_pending q d ss \<longleftrightarrow>
     (let off = emq_offset q; lim = emq_offset q + emq_size q in
      lim \<le> U32_MAX \<and> off \<le> ed_head d \<and> ed_head d + 4 \<le> lim \<and> off \<le> ed_tail d \<and> ed_tail d + 4 \<le> lim \<and>
      (ed_tail d \<le> ed_head d \<and> emq_linear (ed_mem d) (ed_tail d) ss (ed_head d) \<or> emq_wrapped off lim d ss))"

lemma emq_linear_le: "emq_linear m p ss q \<Longrightarrow> p \<le> q"
  by (induction m p ss q rule: emq_linear.induct) auto

lemma emq_linear_frame:
  assumes "emq_linear m p ss q" "\<And>a. p \<le> a \<Longrightarrow> a < q \<Longrightarrow> m' a = m a"
  shows "emq_linear m' p ss q"
  using assms
proof (induction m p ss q rule: emq_linear.induct)
  case (2 m p s ss q)
  have "p + align4 (length s) \<le> q" using 2(2) emq_linear_le by auto
  then have "\<And>a. p \<le> a \<Longrightarrow> a < p + length s \<Longrightarrow> m' a = m a" using 2(3) align4_bounds(1)[of "length s"] by auto
  then have "mem_read m' p (length s) = mem_read m p (length s)" by (auto simp: mem_read_def)
  moreover have "emq_linear m' (p + align4 (length s)) ss q" using 2 by auto
  ultimately show ?case using 2(2) by simp
qed simp

lemma emq_linear_snoc:
  "emq_linear m p (ss @ [s]) q \<longleftrightarrow>
     (\<exists>r. emq_linear m p ss r \<and> s \<noteq> [] \<and> mem_read m r (length s) = s \<and> q = r + align4 (length s))"
  by (induction ss arbitrary: p) auto

lemma mem_read_write [simp]: "mem_read (mem_write m p ds) p (length ds) = ds"
  by (rule nth_equalityI) (auto simp: mem_read_def mem_write_def)

lemma mem_write_other: "a < p \<or> p + length ds \<le> a \<Longrightarrow> mem_write m p ds a = m a"
  by (auto simp: mem_write_def)

text \<open>A write where no command waits leaves the commands alone.\<close>

lemma emq_linear_write:
  assumes "emq_linear m p ss q" "w + length ds \<le> p \<or> q \<le> w"
  shows "emq_linear (mem_write m w ds) p ss q"
  by (rule emq_linear_frame[OF assms(1)]) (use assms(2) in \<open>auto simp: mem_write_def\<close>)

section \<open>Room\<close>

text \<open>Room for a command that takes \<open>n\<close> bytes: after the head, or before the tail after a rewind.\<close>

definition emq_room :: "nvgpu_engine_mem_queue \<Rightarrow> emq_dev \<Rightarrow> nat \<Rightarrow> (bool \<times> bool)" where
  "emq_room q d n =
     (if ed_tail d \<le> ed_head d
      then if ed_head d + n + 4 \<le> emq_offset q + emq_size q then (True, False)
           else (emq_offset q + n < ed_tail d, True)
      else (ed_head d + n < ed_tail d, False))"

lemma has_room_eq:
  assumes p: "emq_pending q d ss" and n: "n + 3 \<le> U32_MAX"
    and env: "en_head_get env = None" "en_tail_get env = None"
  shows "engine_mem_queue_has_room env d q n = Some (emq_room q d (align4 n))"
proof -
  have b: "emq_offset q + emq_size q \<le> U32_MAX" "emq_offset q \<le> ed_head d" "ed_head d + 4 \<le> emq_offset q + emq_size q"
    "emq_offset q \<le> ed_tail d" "ed_tail d + 4 \<le> emq_offset q + emq_size q"
    using p by (auto simp: emq_pending_def Let_def)
  have w: "wsub32 (wsub32 (wrap32 (emq_offset q + emq_size q)) (ed_head d)) 4 = emq_offset q + emq_size q - ed_head d - 4"
    using b by (subst wrap32_id, simp, subst wsub32_ge, simp, simp, subst wsub32_ge) auto
  have w2: "wsub32 (wsub32 (ed_tail d) x) 1 = ed_tail d - x - 1" if "x < ed_tail d" for x
    using b that by (subst wsub32_ge, simp, simp, subst wsub32_ge) auto
  have ht: "mem_queue_get_head_tail env d = Inr (ed_head d, ed_tail d)" using env by (simp add: mem_queue_get_head_tail_def)
  show ?thesis
  proof (cases "ed_tail d \<le> ed_head d")
    case True
    then show ?thesis using b w w2[of "emq_offset q"]
      by (auto simp: engine_mem_queue_has_room_def ALIGN_u32_4[OF n] ht Let_def emq_room_def)
  next
    case False
    then show ?thesis using b w2[of "ed_head d"]
      by (auto simp: engine_mem_queue_has_room_def ALIGN_u32_4[OF n] ht Let_def emq_room_def)
  qed
qed

section \<open>Writing\<close>

lemma emq_pending_cong:
  "emq_offset q' = emq_offset q \<Longrightarrow> emq_size q' = emq_size q \<Longrightarrow> emq_pending q' d ss = emq_pending q d ss"
  by (simp add: emq_pending_def Let_def)

text \<open>The free bytes: after the head and before the tail, or between head and tail when the
  writer is behind.\<close>

definition emq_free :: "emq_dev \<Rightarrow> nat \<Rightarrow> nat \<Rightarrow> bool" where
  "emq_free d w n \<longleftrightarrow> (if ed_tail d \<le> ed_head d then ed_head d \<le> w \<or> w + n \<le> ed_tail d else ed_head d \<le> w \<and> w + n \<le> ed_tail d)"

lemma emq_pending_write:
  assumes p: "emq_pending q d ss" and f: "emq_free d w (length ds)"
  shows "emq_pending q (d\<lparr>ed_mem := mem_write (ed_mem d) w ds\<rparr>) ss"
proof (cases "ed_tail d \<le> ed_head d")
  case True
  then have "emq_linear (ed_mem d) (ed_tail d) ss (ed_head d)" using p by (auto simp: emq_pending_def Let_def emq_wrapped_def)
  then have "emq_linear (mem_write (ed_mem d) w ds) (ed_tail d) ss (ed_head d)"
    by (rule emq_linear_write) (use f True in \<open>auto simp: emq_free_def\<close>)
  then show ?thesis using p True by (auto simp: emq_pending_def Let_def)
next
  case False
  then obtain ss1 ss2 r where w: "ss = ss1 @ ss2" "emq_linear (ed_mem d) (ed_tail d) ss1 r"
    "r + 4 \<le> emq_offset q + emq_size q" "ed_mem d r = PMU_UNIT_REWIND" "emq_linear (ed_mem d) (emq_offset q) ss2 (ed_head d)"
    "ss2 \<noteq> []" using p by (auto simp: emq_pending_def Let_def emq_wrapped_def)
  have fr: "ed_head d \<le> w" "w + length ds \<le> ed_tail d" using f False by (auto simp: emq_free_def)
  have "ed_tail d \<le> r" using emq_linear_le[OF w(2)] .
  then have "emq_linear (mem_write (ed_mem d) w ds) (ed_tail d) ss1 r"
    "emq_linear (mem_write (ed_mem d) w ds) (emq_offset q) ss2 (ed_head d)"
    "mem_write (ed_mem d) w ds r = PMU_UNIT_REWIND"
    using w fr emq_linear_write by (auto simp: mem_write_other)
  then show ?thesis using p False w(1,3,6) by (auto simp: emq_pending_def Let_def emq_wrapped_def)
qed

lemma emq_wrappedI:
  "ed_head d < ed_tail d \<Longrightarrow> emq_linear (ed_mem d) (ed_tail d) ss1 r \<Longrightarrow> r + 4 \<le> lim \<Longrightarrow>
   ed_mem d r = PMU_UNIT_REWIND \<Longrightarrow> emq_linear (ed_mem d) off ss2 (ed_head d) \<Longrightarrow> ss2 \<noteq> [] \<Longrightarrow> emq_wrapped off lim d (ss1 @ ss2)"
  unfolding emq_wrapped_def by blast

lemma emq_pending_push:
  assumes p: "emq_pending q d ss" and ne: "ds \<noteq> []" and room: "emq_room q d (align4 (length ds)) = (True, False)"
  shows "emq_pending q (d\<lparr>ed_mem := mem_write (ed_mem d) (ed_head d) ds, ed_head := ed_head d + align4 (length ds)\<rparr>) (ss @ [ds])"
    "ed_head d + align4 (length ds) + 4 \<le> emq_offset q + emq_size q" "emq_free d (ed_head d) (length ds)"
proof -
  note al = align4_bounds[of "length ds"]
  show b: "ed_head d + align4 (length ds) + 4 \<le> emq_offset q + emq_size q"
    using room p by (auto simp: emq_room_def emq_pending_def Let_def split: if_splits)
  show f: "emq_free d (ed_head d) (length ds)"
    using room al by (auto simp: emq_room_def emq_free_def split: if_splits)
  let ?m = "mem_write (ed_mem d) (ed_head d) ds"
  have p': "emq_pending q (d\<lparr>ed_mem := ?m\<rparr>) ss" by (rule emq_pending_write[OF p f])
  have snoc: "emq_linear ?m x xs (ed_head d) \<Longrightarrow> emq_linear ?m x (xs @ [ds]) (ed_head d + align4 (length ds))" for x xs
    using ne by (auto simp: emq_linear_snoc)
  show "emq_pending q (d\<lparr>ed_mem := ?m, ed_head := ed_head d + align4 (length ds)\<rparr>) (ss @ [ds])"
  proof (cases "ed_tail d \<le> ed_head d")
    case True
    then show ?thesis using p' b snoc by (auto simp: emq_pending_def Let_def emq_wrapped_def)
  next
    case False
    then have lt: "ed_head d + align4 (length ds) < ed_tail d" using room by (simp add: emq_room_def)
    obtain ss1 ss2 r where w: "ss = ss1 @ ss2" "emq_linear ?m (ed_tail d) ss1 r"
      "r + 4 \<le> emq_offset q + emq_size q" "?m r = PMU_UNIT_REWIND" "emq_linear ?m (emq_offset q) ss2 (ed_head d)"
      "ss2 \<noteq> []" using p' False by (auto simp: emq_pending_def Let_def emq_wrapped_def)
    have "emq_wrapped (emq_offset q) (emq_offset q + emq_size q)
        (d\<lparr>ed_mem := ?m, ed_head := ed_head d + align4 (length ds)\<rparr>) (ss1 @ (ss2 @ [ds]))"
      by (rule emq_wrappedI[of _ _ r]) (use lt w snoc[OF w(5)] in simp_all)
    then show ?thesis using p' b w(1) by (auto simp: emq_pending_def Let_def)
  qed
qed

lemma emq_pending_push_rewind:
  assumes p: "emq_pending q d ss" and ne: "ds \<noteq> []" and room: "emq_room q d (align4 (length ds)) = (True, True)"
    and cmd: "length cmd = 4" "cmd ! 0 = PMU_UNIT_REWIND"
  defines "m1 \<equiv> mem_write (ed_mem d) (ed_head d) cmd"
  defines "m2 \<equiv> mem_write m1 (emq_offset q) ds"
  shows "emq_pending q (d\<lparr>ed_mem := m1\<rparr>) ss" "emq_pending q (d\<lparr>ed_mem := m2\<rparr>) ss"
    "emq_pending q (d\<lparr>ed_mem := m2, ed_head := emq_offset q + align4 (length ds)\<rparr>) (ss @ [ds])"
    "emq_offset q + align4 (length ds) < ed_tail d"
proof -
  note al = align4_bounds[of "length ds"]
  have lin: "ed_tail d \<le> ed_head d" and lt: "emq_offset q + align4 (length ds) < ed_tail d"
    using room by (auto simp: emq_room_def split: if_splits)
  show "emq_offset q + align4 (length ds) < ed_tail d" by (rule lt)
  show p1: "emq_pending q (d\<lparr>ed_mem := m1\<rparr>) ss"
    unfolding m1_def using emq_pending_write[OF p, of "ed_head d" cmd] lin by (auto simp: emq_free_def)
  show p2: "emq_pending q (d\<lparr>ed_mem := m2\<rparr>) ss"
    unfolding m2_def using emq_pending_write[OF p1, of "emq_offset q" ds] lin lt al by (auto simp: emq_free_def)
  have l2: "emq_linear m2 (ed_tail d) ss (ed_head d)"
    using p2 lin by (auto simp: emq_pending_def Let_def emq_wrapped_def)
  have rw: "m2 (ed_head d) = PMU_UNIT_REWIND"
    using lin lt al cmd by (simp add: m2_def m1_def mem_write_def)
  have ld: "emq_linear m2 (emq_offset q) [ds] (emq_offset q + align4 (length ds))"
    using ne by (simp add: m2_def)
  have "emq_wrapped (emq_offset q) (emq_offset q + emq_size q)
      (d\<lparr>ed_mem := m2, ed_head := emq_offset q + align4 (length ds)\<rparr>) (ss @ [ds])"
    by (rule emq_wrappedI[of _ _ "ed_head d"]) (use lt l2 rw ld p in \<open>simp_all add: emq_pending_def Let_def\<close>)
  then show "emq_pending q (d\<lparr>ed_mem := m2, ed_head := emq_offset q + align4 (length ds)\<rparr>) (ss @ [ds])"
    using p lt by (auto simp: emq_pending_def Let_def)
qed

text \<open>What a push leaves behind, whichever of its calls fails.\<close>

definition emq_pushed :: "nvgpu_engine_mem_queue \<Rightarrow> emq_dev \<Rightarrow> u8 list list \<Rightarrow> u8 list \<Rightarrow>
    unit result \<times> nvgpu_engine_mem_queue \<times> emq_dev \<Rightarrow> bool" where
  "emq_pushed q d ss ds = (\<lambda>(r, q', d').
     q'\<lparr>emq_position := emq_position q\<rparr> = q \<and> ed_tail d' = ed_tail d \<and>
     (case r of Inl e \<Rightarrow> emq_pending q d' ss \<and> ed_head d' = ed_head d | Inr _ \<Rightarrow> emq_pending q d' (ss @ [ds])))"

lemma emq_push_spec:
  assumes p: "emq_pending q d ss" and w: "emq_oflag q = OFLAG_WRITE" and ds: "ds \<noteq> []" "length ds + 3 \<le> U32_MAX"
  shows "\<exists>res. nvgpu_engine_mem_queue_push env q d ds = Some res \<and> emq_pushed q d ss ds res"
proof -
  have al: "0 < align4 (length ds)" using align4_bounds(1)[of "length ds"] ds(1) by (cases ds) auto
  have lim: "emq_offset q + emq_size q \<le> U32_MAX" "ed_tail d \<le> U32_MAX" using p by (auto simp: emq_pending_def Let_def)
  obtain room rw where hr: "engine_mem_queue_has_room env d q (length ds) = Some (room, rw)"
    "room \<Longrightarrow> emq_room q d (align4 (length ds)) = (True, rw)"
  proof (cases "en_head_get env = None \<and> en_tail_get env = None")
    case True
    then have "engine_mem_queue_has_room env d q (length ds) = Some (emq_room q d (align4 (length ds)))"
      using has_room_eq[OF p ds(2)] by blast
    then show ?thesis using that by (cases "emq_room q d (align4 (length ds))") auto
  next
    case False
    then have "engine_mem_queue_has_room env d q (length ds) = Some (False, False)"
      using al by (auto simp: engine_mem_queue_has_room_def ALIGN_u32_4[OF ds(2)] mem_queue_get_head_tail_def
          split: option.splits)
    then show ?thesis using that[of False False] by simp
  qed
  note sim = nvgpu_engine_mem_queue_push_def engine_mem_queue_prepare_write_def engine_mem_queue_rewind_def
    Let_def hr(1) w ALIGN_u32_4[OF ds(2)] emq_pushed_def
  show ?thesis
  proof (cases "room \<and> en_position_get env = None")
    case False
    then show ?thesis using p by (auto simp: sim split: option.splits)
  next
    case ok: True
    show ?thesis
    proof (cases rw)
      case False
      then have room: "emq_room q d (align4 (length ds)) = (True, False)" using hr(2) ok by simp
      note pp = emq_pending_push[OF p ds(1) room]
      have "wrap32 (ed_head d + align4 (length ds)) = ed_head d + align4 (length ds)" using pp(2) lim by simp
      then show ?thesis using ok False p pp(1) emq_pending_write[OF p pp(3)]
        by (auto simp: sim split: option.splits)
    next
      case True
      then have room: "emq_room q d (align4 (length ds)) = (True, True)" using hr(2) ok by simp
      note pp = emq_pending_push_rewind[OF p ds(1) room, of "[0, 4, fst (en_junk env), snd (en_junk env)]", simplified]
      have "wrap32 (emq_offset q + align4 (length ds)) = emq_offset q + align4 (length ds)" using pp(4) lim by simp
      then show ?thesis using ok True p pp(1-3)
        by (auto simp: sim split: option.splits)
    qed
  qed
qed

section \<open>Reading\<close>

text \<open>A header names its command: the unit, which is neither a REWIND nor invalid, and the length.\<close>

definition command_wf :: "u8 list \<Rightarrow> bool" where
  "command_wf c \<longleftrightarrow> 4 \<le> length c \<and> length c \<le> 255 \<and> c ! 0 \<noteq> PMU_UNIT_REWIND \<and> PMU_UNIT_ID_IS_VALID (c ! 0) \<and>
     c ! 1 = length c"

lemma emq_linear_ConsD:
  assumes "emq_linear m p (c # cs) q"
  shows "mem_read m p (length c) = c" "emq_linear m (p + align4 (length c)) cs q" "p + align4 (length c) \<le> q" "p < q"
proof -
  show c: "mem_read m p (length c) = c" and l: "emq_linear m (p + align4 (length c)) cs q" using assms by auto
  show "p + align4 (length c) \<le> q" using emq_linear_le[OF l] .
  moreover have "0 < length c" using assms by auto
  ultimately show "p < q" using align4_bounds(1)[of "length c"] by linarith
qed

lemma mem_read_split: "mem_read m p (a + b) = mem_read m p a @ mem_read m (p + a) b"
proof -
  have "[p..<p + (a + b)] = [p..<p + a] @ [p + a..<p + a + b]" using upt_add_eq_append[of p "p + a" b] by (simp add: add.assoc)
  then show ?thesis by (simp add: mem_read_def)
qed

lemma mem_read_length [simp]: "length (mem_read m p n) = n"
  by (simp add: mem_read_def)

lemma mem_read_nth: "i < n \<Longrightarrow> mem_read m p n ! i = m (p + i)"
  by (simp add: mem_read_def)

text \<open>The bytes that can be read from the tail on without a rewind, and what a pop does.\<close>

definition emq_avail :: "nvgpu_engine_mem_queue \<Rightarrow> emq_dev \<Rightarrow> nat" where
  "emq_avail q d = (if ed_tail d \<le> ed_head d then ed_head d - ed_tail d else emq_offset q + emq_size q - ed_tail d)"

definition emq_env_ok :: "u8 \<times> u8 \<Rightarrow> emq_env" where
  "emq_env_ok junk = \<lparr>en_head_get = None, en_tail_get = None, en_position_get = None, en_rewind_push = None,
      en_push = None, en_head_set = None, en_pop = None, en_tail_set = None, en_junk = junk\<rparr>"

lemma emq_env_ok_simps [simp]:
  "en_head_get (emq_env_ok j) = None" "en_tail_get (emq_env_ok j) = None" "en_pop (emq_env_ok j) = None"
  "en_tail_set (emq_env_ok j) = None"
  by (simp_all add: emq_env_ok_def)

lemma emq_read_cases:
  assumes b: "emq_oflag q = OFLAG_READ" "emq_offset q + emq_size q \<le> U32_MAX" "ed_head d \<le> emq_offset q + emq_size q"
      "ed_tail d \<le> emq_offset q + emq_size q" "ed_tail d + align4 n \<le> U32_MAX"
    and n: "0 < n" "n \<le> 255" "ed_head d \<noteq> ed_tail d \<Longrightarrow> n \<le> emq_avail q d"
  shows "(\<exists>e x. pmu_engine_mem_queue_read env q d n = Some (Inl e, q\<lparr>emq_position := x\<rparr>, d) \<and>
            (ed_head d = ed_tail d \<or> (\<forall>j. env \<noteq> emq_env_ok j))) \<or>
    ed_head d \<noteq> ed_tail d \<and> pmu_engine_mem_queue_read env q d n =
      Some (Inr (mem_read (ed_mem d) (ed_tail d) n), q\<lparr>emq_position := ed_tail d + align4 n\<rparr>, d\<lparr>ed_tail := ed_tail d + align4 n\<rparr>)"
proof -
  have al: "ALIGN_u32 n 4 = Some (align4 n)" using n(2) by (intro ALIGN_u32_4) simp
  have q: "\<exists>x. q = q\<lparr>emq_position := x\<rparr>" by (rule exI[of _ "emq_position q"]) simp
  have used: "(if ed_tail d < ed_head d then ed_head d - ed_tail d
      else wsub32 (wrap32 (emq_offset q + emq_size q)) (ed_tail d)) = emq_avail q d" if "ed_head d \<noteq> ed_tail d"
    using b(2-4) that by (subst wrap32_id, simp, subst wsub32_ge) (auto simp: emq_avail_def)
  note sim = pmu_engine_mem_queue_read_def nvgpu_engine_mem_queue_pop_def mem_queue_get_head_tail_def Let_def b(1)
  show ?thesis
  proof (cases "en_head_get env = None \<and> en_tail_get env = None")
    case False
    then show ?thesis using q by (auto simp: sim split: option.splits)
  next
    case get: True
    show ?thesis
    proof (cases "ed_head d = ed_tail d")
      case True
      then show ?thesis using get n(1) by (auto simp: sim)
    next
      case False
      then have "\<not> emq_avail q d < n" using n(3) by simp
      then show ?thesis using get False al used[OF False] b(5)
        by (auto simp: sim split: option.splits)
    qed
  qed
qed

lemma emq_read_ok:
  assumes "emq_oflag q = OFLAG_READ" "emq_offset q + emq_size q \<le> U32_MAX" "ed_head d \<le> emq_offset q + emq_size q"
      "ed_tail d \<le> emq_offset q + emq_size q" "ed_tail d + align4 n \<le> U32_MAX"
    and "0 < n" "n \<le> 255" "n \<le> emq_avail q d" "ed_head d \<noteq> ed_tail d"
  shows "pmu_engine_mem_queue_read (emq_env_ok j) q d n =
    Some (Inr (mem_read (ed_mem d) (ed_tail d) n), q\<lparr>emq_position := ed_tail d + align4 n\<rparr>, d\<lparr>ed_tail := ed_tail d + align4 n\<rparr>)"
  using emq_read_cases[OF assms(1-7), of "emq_env_ok j"] assms(8,9) by blast

text \<open>The command \<open>c\<close> stands at the tail, complete and before the end of the ring.\<close>

definition emq_at :: "nvgpu_engine_mem_queue \<Rightarrow> emq_dev \<Rightarrow> u8 list \<Rightarrow> bool" where
  "emq_at q d c \<longleftrightarrow> emq_oflag q = OFLAG_READ \<and> emq_offset q + emq_size q \<le> U32_MAX \<and>
     ed_head d \<le> emq_offset q + emq_size q \<and> ed_tail d \<le> emq_offset q + emq_size q \<and> ed_head d \<noteq> ed_tail d \<and>
     command_wf c \<and> mem_read (ed_mem d) (ed_tail d) (length c) = c \<and> align4 (length c) \<le> emq_avail q d"

lemma align4_4 [simp]: "align4 4 = 4"
  by (simp add: align4_def)

lemma align4_split: "4 \<le> n \<Longrightarrow> 4 + align4 (n - 4) = align4 n"
  unfolding align4_def by presburger

lemma emq_at_bytes:
  assumes "emq_at q d c"
  shows "mem_read (ed_mem d) (ed_tail d) 4 = take 4 c" "mem_read (ed_mem d) (ed_tail d + 4) (length c - 4) = drop 4 c"
    "take 4 c ! 0 = c ! 0" "take 4 c ! 1 = length c" "ed_mem d (ed_tail d) = c ! 0"
    "4 \<le> length c" "length c \<le> 255" "c ! 0 \<noteq> PMU_UNIT_REWIND" "PMU_UNIT_ID_IS_VALID (c ! 0)"
    "ed_tail d + align4 (length c) \<le> emq_offset q + emq_size q" "4 \<le> emq_avail q d"
proof -
  have wf: "command_wf c" and c: "mem_read (ed_mem d) (ed_tail d) (length c) = c" and av: "align4 (length c) \<le> emq_avail q d"
    and le: "ed_head d \<le> emq_offset q + emq_size q" "ed_tail d \<le> emq_offset q + emq_size q" using assms by (auto simp: emq_at_def)
  show len: "4 \<le> length c" "length c \<le> 255" "c ! 0 \<noteq> PMU_UNIT_REWIND" "PMU_UNIT_ID_IS_VALID (c ! 0)"
    using wf by (auto simp: command_wf_def)
  have "mem_read (ed_mem d) (ed_tail d) 4 @ mem_read (ed_mem d) (ed_tail d + 4) (length c - 4) = c"
    using mem_read_split[of "ed_mem d" "ed_tail d" 4 "length c - 4"] c len(1) by simp
  then show "mem_read (ed_mem d) (ed_tail d) 4 = take 4 c" "mem_read (ed_mem d) (ed_tail d + 4) (length c - 4) = drop 4 c"
    by (simp_all add: append_eq_conv_conj)
  show "take 4 c ! 0 = c ! 0" "take 4 c ! 1 = length c" using wf by (auto simp: command_wf_def)
  show "ed_mem d (ed_tail d) = c ! 0" using mem_read_nth[of 0 "length c" "ed_mem d" "ed_tail d"] c len(1) by (cases c) auto
  show "ed_tail d + align4 (length c) \<le> emq_offset q + emq_size q"
    using av le by (auto simp: emq_avail_def split: if_splits)
  show "4 \<le> emq_avail q d" using av len(1) align4_bounds(1)[of "length c"] by linarith
qed

lemma emq_at_header:
  assumes "emq_at q d c"
  shows "(\<exists>e x. pmu_engine_mem_queue_read env q d 4 = Some (Inl e, q\<lparr>emq_position := x\<rparr>, d) \<and> (\<forall>j. env \<noteq> emq_env_ok j)) \<or>
    pmu_engine_mem_queue_read env q d 4 = Some (Inr (take 4 c), q\<lparr>emq_position := ed_tail d + 4\<rparr>, d\<lparr>ed_tail := ed_tail d + 4\<rparr>)"
proof -
  note b = emq_at_bytes[OF assms]
  have "ed_tail d + 4 \<le> U32_MAX" using b(6,10) assms align4_bounds(1)[of "length c"] by (auto simp: emq_at_def)
  then show ?thesis using emq_read_cases[of q d 4 env] assms b(1,11) by (auto simp: emq_at_def)
qed

lemma emq_at_body:
  assumes "emq_at q d c" "4 < length c"
  shows "pmu_engine_mem_queue_read (emq_env_ok j) (q\<lparr>emq_position := x\<rparr>) (d\<lparr>ed_tail := ed_tail d + 4\<rparr>) (length c - 4) =
    Some (Inr (drop 4 c), q\<lparr>emq_position := ed_tail d + align4 (length c)\<rparr>, d\<lparr>ed_tail := ed_tail d + align4 (length c)\<rparr>)"
proof -
  note b = emq_at_bytes[OF assms(1)]
  have al: "ed_tail d + 4 + align4 (length c - 4) = ed_tail d + align4 (length c)" using align4_split[OF b(6)] by simp
  have n: "length c - 4 \<le> align4 (length c) - 4" "4 < align4 (length c)" using align4_bounds(1)[of "length c"] assms(2) by linarith+
  let ?d = "d\<lparr>ed_tail := ed_tail d + 4\<rparr>"
  have av: "align4 (length c) \<le> emq_avail q d" and ne: "ed_head d \<noteq> ed_tail d" using assms(1) by (auto simp: emq_at_def)
  have "ed_head d \<noteq> ed_tail d + 4" "align4 (length c) - 4 \<le> emq_avail q ?d"
    using av n(2) ne by (auto simp: emq_avail_def split: if_splits)
  moreover have "emq_avail (q\<lparr>emq_position := x\<rparr>) ?d = emq_avail q ?d" by (simp add: emq_avail_def)
  ultimately have "pmu_engine_mem_queue_read (emq_env_ok j) (q\<lparr>emq_position := x\<rparr>) ?d (length c - 4) =
    Some (Inr (mem_read (ed_mem ?d) (ed_tail ?d) (length c - 4)), q\<lparr>emq_position := x\<rparr>\<lparr>emq_position := ed_tail ?d + align4 (length c - 4)\<rparr>,
      ?d\<lparr>ed_tail := ed_tail ?d + align4 (length c - 4)\<rparr>)"
    using assms b(7,10) al n by (intro emq_read_ok) (auto simp: emq_at_def)
  then show ?thesis using b(2) al by simp
qed

text \<open>The reader takes the command at the tail, unless its first access fails and it leaves the queue
  as it is.\<close>

lemma emq_at_read:
  assumes "emq_at q d c" "env 4 = emq_env_ok j" and ne: "\<not> nvgpu_engine_mem_queue_is_empty (env 0) d"
  shows "(\<exists>e x. pmu_read_message env q d = Some (Inl e, q\<lparr>emq_position := x\<rparr>, d) \<and> (\<forall>j. env 1 \<noteq> emq_env_ok j)) \<or>
    pmu_read_message env q d = Some (Inr (Some c), q\<lparr>emq_position := ed_tail d + align4 (length c)\<rparr>, d\<lparr>ed_tail := ed_tail d + align4 (length c)\<rparr>)"
proof -
  note b = emq_at_bytes[OF assms(1)]
  have 4: "length c = 4 \<Longrightarrow> take 4 c = c" by simp
  from emq_at_header[OF assms(1), of "env 1"] show ?thesis
  proof (elim disjE exE conjE)
    fix e x assume "pmu_engine_mem_queue_read (env 1) q d 4 = Some (Inl e, q\<lparr>emq_position := x\<rparr>, d)" "\<forall>j. env 1 \<noteq> emq_env_ok j"
    then show ?thesis using ne by (auto simp: pmu_read_message_def)
  next
    assume h: "pmu_engine_mem_queue_read (env 1) q d 4 = Some (Inr (take 4 c), q\<lparr>emq_position := ed_tail d + 4\<rparr>, d\<lparr>ed_tail := ed_tail d + 4\<rparr>)"
    show ?thesis
    proof (cases "length c = 4")
      case True
      then show ?thesis using ne h b(3,4,8,9) 4 by (simp add: pmu_read_message_def)
    next
      case False
      then show ?thesis using ne h b(3,4,6,8,9) emq_at_body[OF assms(1)] assms(2) by (simp add: pmu_read_message_def)
    qed
  qed
qed

lemma emq_at_cong: "emq_at (q\<lparr>emq_position := x\<rparr>) d c = emq_at q d c"
  by (simp add: emq_at_def emq_avail_def)

text \<open>At the tail of a queue that is not empty stands the next command, or a REWIND with the next command
  at the offset of the queue.\<close>

lemma emq_next_linear:
  assumes p: "emq_pending q d ss" and wf: "\<forall>c\<in>set ss. command_wf c" and r: "emq_oflag q = OFLAG_READ"
    and ne: "ed_tail d < ed_head d"
  shows "\<exists>c cs. ss = c # cs \<and> emq_at q d c \<and> emq_pending q (d\<lparr>ed_tail := ed_tail d + align4 (length c)\<rparr>) cs"
proof -
  have l: "emq_linear (ed_mem d) (ed_tail d) ss (ed_head d)" using p ne by (auto simp: emq_pending_def Let_def emq_wrapped_def)
  then obtain c cs where ss: "ss = c # cs" using ne by (cases ss) auto
  note n = emq_linear_ConsD[OF l[unfolded ss]]
  have "emq_at q d c" using p n(1,3,4) ss wf r by (auto simp: emq_at_def emq_pending_def Let_def emq_avail_def)
  moreover have "emq_pending q (d\<lparr>ed_tail := ed_tail d + align4 (length c)\<rparr>) cs" using p n by (auto simp: emq_pending_def Let_def)
  ultimately show ?thesis using ss by blast
qed

lemma emq_next:
  assumes p: "emq_pending q d ss" and wf: "\<forall>c\<in>set ss. command_wf c" and r: "emq_oflag q = OFLAG_READ"
    and ne: "ed_head d \<noteq> ed_tail d"
  shows "(\<exists>c cs. ss = c # cs \<and> emq_at q d c \<and> emq_pending q (d\<lparr>ed_tail := ed_tail d + align4 (length c)\<rparr>) cs) \<or>
    ed_mem d (ed_tail d) = PMU_UNIT_REWIND \<and> ed_head d < ed_tail d \<and> emq_offset q < ed_head d \<and> emq_pending q (d\<lparr>ed_tail := emq_offset q\<rparr>) ss"
proof (cases "ed_tail d < ed_head d")
  case True
  then show ?thesis using emq_next_linear[OF p wf r] by blast
next
  case False
  then have lt: "ed_head d < ed_tail d" using ne by simp
  then obtain ss1 ss2 r where w: "ss = ss1 @ ss2" "emq_linear (ed_mem d) (ed_tail d) ss1 r"
    "r + 4 \<le> emq_offset q + emq_size q" "ed_mem d r = PMU_UNIT_REWIND" "emq_linear (ed_mem d) (emq_offset q) ss2 (ed_head d)"
    "ss2 \<noteq> []" using p by (auto simp: emq_pending_def Let_def emq_wrapped_def)
  show ?thesis
  proof (cases ss1)
    case Nil
    then have "emq_pending q (d\<lparr>ed_tail := emq_offset q\<rparr>) ss" using p w by (auto simp: emq_pending_def Let_def)
    moreover have "emq_offset q < ed_head d" using w(5,6) emq_linear_ConsD(4) by (cases ss2) blast+
    ultimately show ?thesis using w(2,4) Nil lt by auto
  next
    case (Cons c cs)
    note n = emq_linear_ConsD[OF w(2)[unfolded Cons]]
    have "emq_at q d c" using p n(1,3,4) w(1,3) Cons wf assms(3) lt by (auto simp: emq_at_def emq_pending_def Let_def emq_avail_def)
    moreover have "emq_wrapped (emq_offset q) (emq_offset q + emq_size q) (d\<lparr>ed_tail := ed_tail d + align4 (length c)\<rparr>) (cs @ ss2)"
      by (rule emq_wrappedI[of _ _ r]) (use lt w n in simp_all)
    then have "emq_pending q (d\<lparr>ed_tail := ed_tail d + align4 (length c)\<rparr>) (cs @ ss2)"
      using p n(3) w(3) by (auto simp: emq_pending_def Let_def)
    ultimately show ?thesis using w(1) Cons by auto
  qed
qed

text \<open>The reader follows a REWIND to the command at the offset.\<close>

lemma emq_rewind_read:
  assumes at: "emq_at q (d\<lparr>ed_tail := emq_offset q\<rparr>) c" and ok: "\<forall>i\<ge>2. env i = emq_env_ok j"
    and rw: "ed_mem d (ed_tail d) = PMU_UNIT_REWIND" "ed_head d < ed_tail d" "ed_tail d + 4 \<le> emq_offset q + emq_size q"
    and ne: "\<not> nvgpu_engine_mem_queue_is_empty (env 0) d"
  shows "(\<exists>e x. pmu_read_message env q d = Some (Inl e, q\<lparr>emq_position := x\<rparr>, d) \<and> (\<forall>j. env 1 \<noteq> emq_env_ok j)) \<or>
    pmu_read_message env q d = Some (Inr (Some c), q\<lparr>emq_position := emq_offset q + align4 (length c)\<rparr>,
      d\<lparr>ed_tail := emq_offset q + align4 (length c)\<rparr>)"
proof -
  have q: "emq_oflag q = OFLAG_READ" "emq_offset q + emq_size q \<le> U32_MAX" using at by (auto simp: emq_at_def)
  have bytes: "mem_read (ed_mem d) (ed_tail d) 4 ! 0 = 0" using rw(1) mem_read_nth[of 0 4 "ed_mem d" "ed_tail d"] by simp
  have "(\<exists>e x. pmu_engine_mem_queue_read (env 1) q d 4 = Some (Inl e, q\<lparr>emq_position := x\<rparr>, d) \<and> (\<forall>j. env 1 \<noteq> emq_env_ok j)) \<or>
    pmu_engine_mem_queue_read (env 1) q d 4 = Some (Inr (mem_read (ed_mem d) (ed_tail d) 4), q\<lparr>emq_position := ed_tail d + 4\<rparr>, d\<lparr>ed_tail := ed_tail d + 4\<rparr>)"
    using emq_read_cases[of q d 4 "env 1"] q rw by (auto simp: emq_avail_def)
  then show ?thesis
  proof (elim disjE exE conjE)
    fix e x assume "pmu_engine_mem_queue_read (env 1) q d 4 = Some (Inl e, q\<lparr>emq_position := x\<rparr>, d)" "\<forall>j. env 1 \<noteq> emq_env_ok j"
    then show ?thesis using ne by (auto simp: pmu_read_message_def)
  next
    let ?q = "q\<lparr>emq_position := emq_offset q\<rparr>" and ?d = "d\<lparr>ed_tail := emq_offset q\<rparr>"
    assume h: "pmu_engine_mem_queue_read (env 1) q d 4 = Some (Inr (mem_read (ed_mem d) (ed_tail d) 4), q\<lparr>emq_position := ed_tail d + 4\<rparr>, d\<lparr>ed_tail := ed_tail d + 4\<rparr>)"
    have rewind: "nvgpu_engine_mem_queue_rewind (env 2) (q\<lparr>emq_position := ed_tail d + 4\<rparr>) (d\<lparr>ed_tail := ed_tail d + 4\<rparr>) = (Inr (), ?q, ?d)"
      using q(1) ok by (simp add: nvgpu_engine_mem_queue_rewind_def engine_mem_queue_rewind_def Let_def)
    have at': "emq_at ?q ?d c" using at by (simp add: emq_at_cong)
    note b = emq_at_bytes[OF at']
    have 3: "env 3 = emq_env_ok j" using ok by simp
    have hdr: "pmu_engine_mem_queue_read (env 3) ?q ?d 4 = Some (Inr (take 4 c), ?q\<lparr>emq_position := ed_tail ?d + 4\<rparr>, ?d\<lparr>ed_tail := ed_tail ?d + 4\<rparr>)"
      using emq_at_header[OF at', of "env 3"] 3 by blast
    show ?thesis
    proof (cases "length c = 4")
      case True
      then show ?thesis using ne h bytes rewind hdr b(3,4,8,9) by (simp add: pmu_read_message_def)
    next
      case False
      then show ?thesis using ne h bytes rewind hdr b(3,4,6,8,9) emq_at_body[OF at', of j "emq_offset q + 4"] ok
        by (simp add: pmu_read_message_def)
    qed
  qed
qed

text \<open>What a call of the reader does when none of its accesses after the first header fails.\<close>

lemma emq_pending_read:
  assumes p: "emq_pending q d ss" and wf: "\<forall>c\<in>set ss. command_wf c" and r: "emq_oflag q = OFLAG_READ"
    and ok: "\<forall>i\<ge>2. env i = emq_env_ok j"
  shows "\<exists>res x d'. pmu_read_message env q d = Some (res, q\<lparr>emq_position := x\<rparr>, d') \<and>
    (case res of Inr (Some c) \<Rightarrow> \<exists>cs. ss = c # cs \<and> emq_pending q d' cs
     | _ \<Rightarrow> d' = d \<and> (ed_head d = ed_tail d \<or> env 0 \<noteq> emq_env_ok j \<or> env 1 \<noteq> emq_env_ok j))"
proof (cases "nvgpu_engine_mem_queue_is_empty (env 0) d")
  case True
  then have "pmu_read_message env q d = Some (Inr None, q\<lparr>emq_position := emq_position q\<rparr>, d)" by (simp add: pmu_read_message_def)
  moreover have "ed_head d = ed_tail d \<or> env 0 \<noteq> emq_env_ok j"
    using True by (auto simp: nvgpu_engine_mem_queue_is_empty_def mem_queue_get_head_tail_def)
  ultimately show ?thesis by (intro exI[of _ "Inr None"] exI[of _ "emq_position q"] exI[of _ d]) auto
next
  case go: False
  have b: "emq_offset q + emq_size q \<le> U32_MAX" "ed_head d + 4 \<le> emq_offset q + emq_size q" "ed_tail d + 4 \<le> emq_offset q + emq_size q"
    using p by (auto simp: emq_pending_def Let_def)
  have res: ?thesis if c: "ss = c # cs" "emq_pending q d' cs" and
    "(\<exists>e x. pmu_read_message env q d = Some (Inl e, q\<lparr>emq_position := x\<rparr>, d) \<and> (\<forall>j. env 1 \<noteq> emq_env_ok j)) \<or>
     pmu_read_message env q d = Some (Inr (Some c), q\<lparr>emq_position := y\<rparr>, d')" for c cs y d'
    using that(3)
  proof (elim disjE exE conjE)
    fix e x assume "pmu_read_message env q d = Some (Inl e, q\<lparr>emq_position := x\<rparr>, d)" "\<forall>j. env 1 \<noteq> emq_env_ok j"
    moreover have "env 1 \<noteq> emq_env_ok j" using calculation(2) by blast
    ultimately show ?thesis by (intro exI[of _ "Inl e"] exI[of _ x] exI[of _ d]) simp
  next
    assume "pmu_read_message env q d = Some (Inr (Some c), q\<lparr>emq_position := y\<rparr>, d')"
    then show ?thesis using c by (intro exI[of _ "Inr (Some c)"] exI[of _ y] exI[of _ d']) simp
  qed
  show ?thesis
  proof (cases "ed_head d = ed_tail d")
    case True
    then obtain e x where "pmu_engine_mem_queue_read (env 1) q d 4 = Some (Inl e, q\<lparr>emq_position := x\<rparr>, d)"
      using emq_read_cases[of q d 4 "env 1"] r b by auto
    then show ?thesis using go True by (auto simp: pmu_read_message_def)
  next
    case False
    from emq_next[OF p wf r False] show ?thesis
    proof (elim disjE exE conjE)
      fix c cs assume c: "ss = c # cs" "emq_at q d c" "emq_pending q (d\<lparr>ed_tail := ed_tail d + align4 (length c)\<rparr>) cs"
      then show ?thesis using res[OF c(1,3) emq_at_read[of q d c env j]] ok go by simp
    next
      assume rw: "ed_mem d (ed_tail d) = PMU_UNIT_REWIND" "ed_head d < ed_tail d" "emq_offset q < ed_head d"
        "emq_pending q (d\<lparr>ed_tail := emq_offset q\<rparr>) ss"
      obtain c cs where c: "ss = c # cs" "emq_at q (d\<lparr>ed_tail := emq_offset q\<rparr>) c"
        "emq_pending q (d\<lparr>ed_tail := emq_offset q + align4 (length c)\<rparr>) cs"
        using emq_next_linear[OF rw(4) wf r] rw(3) by auto
      show ?thesis by (rule res[OF c(1,3) emq_rewind_read[OF c(2) ok rw(1,2) b(3) go]])
    qed
  qed
qed

lemma emq_pending_read_next:
  assumes "emq_pending q d ss" "\<forall>c\<in>set ss. command_wf c" "emq_oflag q = OFLAG_READ" "ed_head d \<noteq> ed_tail d"
  shows "\<exists>q' d'. pmu_read_message (\<lambda>_. emq_env_ok j) q d = Some (Inr (Some (hd ss)), q', d')"
proof -
  obtain res q' d' where r: "pmu_read_message (\<lambda>_. emq_env_ok j) q d = Some (res, q', d')"
    "case res of Inr (Some c) \<Rightarrow> \<exists>cs. ss = c # cs | _ \<Rightarrow> False"
    using emq_pending_read[OF assms(1-3), of "\<lambda>_. emq_env_ok j" j] assms(4) by (fastforce split: sum.splits option.splits)
  then show ?thesis by (cases res) (auto split: option.splits)
qed

section \<open>Writer and reader on one ring\<close>

text \<open>One ring with a descriptor opened for writing and one opened for reading. A push may fail in any
  of its accesses. A read may fail up to and including the access to the first header, and then leaves
  the ring as it is; a failure behind that, when the tail is already past the header, loses the message
  and is not a step. Each call is one step: a push between the accesses of one read is not considered.\<close>

record emq_world =
  ew_queue :: nvgpu_engine_mem_queue
  ew_reader :: nvgpu_engine_mem_queue
  ew_dev :: emq_dev
  ew_sent :: "u8 list list"
  ew_received :: "u8 list list"

inductive emq_step :: "emq_world \<Rightarrow> emq_world \<Rightarrow> bool" where
  Push_ok: "command_wf c \<Longrightarrow> nvgpu_engine_mem_queue_push env (ew_queue w) (ew_dev w) c = Some (Inr u, q, d) \<Longrightarrow>
     emq_step w (w\<lparr>ew_queue := q, ew_dev := d, ew_sent := ew_sent w @ [c]\<rparr>)"
| Push_fail: "command_wf c \<Longrightarrow> nvgpu_engine_mem_queue_push env (ew_queue w) (ew_dev w) c = Some (Inl e, q, d) \<Longrightarrow>
     emq_step w (w\<lparr>ew_queue := q, ew_dev := d\<rparr>)"
| Read_message: "\<forall>i\<ge>2. envs i = emq_env_ok j \<Longrightarrow>
     pmu_read_message envs (ew_reader w) (ew_dev w) = Some (Inr (Some c), q, d) \<Longrightarrow>
     emq_step w (w\<lparr>ew_reader := q, ew_dev := d, ew_received := ew_received w @ [c]\<rparr>)"
| Read_nothing: "\<forall>i\<ge>2. envs i = emq_env_ok j \<Longrightarrow>
     pmu_read_message envs (ew_reader w) (ew_dev w) = Some (r, q, d) \<Longrightarrow> r = Inr None \<or> r = Inl e \<Longrightarrow>
     emq_step w (w\<lparr>ew_reader := q, ew_dev := d\<rparr>)"

definition emq_start :: "nvgpu_engine_mem_queue \<Rightarrow> (nat \<Rightarrow> u8) \<Rightarrow> emq_world" where
  "emq_start q m = \<lparr>ew_queue = q, ew_reader = q\<lparr>emq_oflag := OFLAG_READ\<rparr>,
                    ew_dev = \<lparr>ed_head = emq_offset q, ed_tail = emq_offset q, ed_mem = m\<rparr>,
                    ew_sent = [], ew_received = []\<rparr>"

definition emq_inv :: "emq_world \<Rightarrow> bool" where
  "emq_inv w \<longleftrightarrow> emq_oflag (ew_queue w) = OFLAG_WRITE \<and> emq_oflag (ew_reader w) = OFLAG_READ \<and>
     emq_offset (ew_reader w) = emq_offset (ew_queue w) \<and> emq_size (ew_reader w) = emq_size (ew_queue w) \<and>
     (\<exists>ss. emq_pending (ew_queue w) (ew_dev w) ss \<and> (\<forall>c\<in>set ss. command_wf c) \<and> ew_sent w = ew_received w @ ss)"

lemma emq_inv_push:
  assumes "emq_inv w" "command_wf c" "nvgpu_engine_mem_queue_push env (ew_queue w) (ew_dev w) c = Some (r, q, d)"
  shows "\<exists>ss. emq_pending q d (case r of Inl _ \<Rightarrow> ss | Inr _ \<Rightarrow> ss @ [c]) \<and> (\<forall>c\<in>set ss. command_wf c) \<and>
    ew_sent w = ew_received w @ ss \<and> emq_oflag q = OFLAG_WRITE \<and>
    emq_offset q = emq_offset (ew_queue w) \<and> emq_size q = emq_size (ew_queue w)"
proof -
  obtain ss where ss: "emq_pending (ew_queue w) (ew_dev w) ss" "\<forall>c\<in>set ss. command_wf c" "ew_sent w = ew_received w @ ss"
    "emq_oflag (ew_queue w) = OFLAG_WRITE" using assms(1) by (auto simp: emq_inv_def)
  have c: "c \<noteq> []" "length c + 3 \<le> U32_MAX" using assms(2) by (auto simp: command_wf_def)
  have pushed: "emq_pushed (ew_queue w) (ew_dev w) ss c (r, q, d)" using emq_push_spec[OF ss(1,4) c, of env] assms(3) by auto
  then have "q\<lparr>emq_position := emq_position (ew_queue w)\<rparr> = ew_queue w" by (simp add: emq_pushed_def)
  then have eq: "emq_offset q = emq_offset (ew_queue w)" "emq_size q = emq_size (ew_queue w)" "emq_oflag q = emq_oflag (ew_queue w)"
    by (metis nvgpu_engine_mem_queue.select_convs(2,3,6) nvgpu_engine_mem_queue.surjective nvgpu_engine_mem_queue.update_convs(1))+
  show ?thesis using pushed ss eq emq_pending_cong[OF eq(1,2)]
    by (intro exI[of _ ss]) (auto simp: emq_pushed_def split: sum.splits)
qed

lemma emq_inv_read:
  assumes "emq_inv w" "\<forall>i\<ge>2. envs i = emq_env_ok j" "pmu_read_message envs (ew_reader w) (ew_dev w) = Some (r, q, d)"
  shows "emq_inv (w\<lparr>ew_reader := q, ew_dev := d, ew_received := ew_received w @ (case r of Inr (Some c) \<Rightarrow> [c] | _ \<Rightarrow> [])\<rparr>)"
proof -
  obtain ss where ss: "emq_pending (ew_queue w) (ew_dev w) ss" "\<forall>c\<in>set ss. command_wf c" "ew_sent w = ew_received w @ ss"
    using assms(1) by (auto simp: emq_inv_def)
  have rd: "emq_oflag (ew_reader w) = OFLAG_READ" "emq_offset (ew_reader w) = emq_offset (ew_queue w)" "emq_size (ew_reader w) = emq_size (ew_queue w)"
    using assms(1) by (auto simp: emq_inv_def)
  note cong = emq_pending_cong[OF rd(2,3)]
  obtain x where q: "q = (ew_reader w)\<lparr>emq_position := x\<rparr>" and
    d: "case r of Inr (Some c) \<Rightarrow> \<exists>cs. ss = c # cs \<and> emq_pending (ew_queue w) d cs | _ \<Rightarrow> d = ew_dev w"
    using emq_pending_read[OF _ ss(2) rd(1) assms(2), of "ew_dev w"] ss(1) assms(3) by (auto simp: cong split: sum.splits option.splits)
  obtain cs where "ss = (case r of Inr (Some c) \<Rightarrow> [c] | _ \<Rightarrow> []) @ cs" "emq_pending (ew_queue w) d cs"
    using d ss(1) by (cases r) (auto split: option.splits)
  then show ?thesis using assms(1) ss(2,3) q rd by (auto simp: emq_inv_def)
qed

lemma emq_inv_step: "emq_step w w' \<Longrightarrow> emq_inv w \<Longrightarrow> emq_inv w'"
proof (induction rule: emq_step.induct)
  case (Push_ok c env w u q d)
  then obtain ss where "emq_pending q d (ss @ [c])" "\<forall>c\<in>set ss. command_wf c" "ew_sent w = ew_received w @ ss"
    "emq_oflag q = OFLAG_WRITE" "emq_offset q = emq_offset (ew_queue w)" "emq_size q = emq_size (ew_queue w)" using emq_inv_push by fastforce
  then show ?case using Push_ok(1,3) by (auto simp: emq_inv_def intro!: exI[of _ "ss @ [c]"])
next
  case (Push_fail c env w e q d)
  then obtain ss where "emq_pending q d ss" "\<forall>c\<in>set ss. command_wf c" "ew_sent w = ew_received w @ ss"
    "emq_oflag q = OFLAG_WRITE" "emq_offset q = emq_offset (ew_queue w)" "emq_size q = emq_size (ew_queue w)" using emq_inv_push by fastforce
  then show ?case using Push_fail(3) by (auto simp: emq_inv_def)
next
  case (Read_message envs j w c q d)
  then show ?case using emq_inv_read[OF _ Read_message(1,2)] by simp
next
  case (Read_nothing envs j w r q d e)
  then have "(case r of Inr (Some c) \<Rightarrow> [c] | _ \<Rightarrow> []) = ([] :: u8 list list)" by auto
  then show ?case using emq_inv_read[OF _ Read_nothing(1,2)] Read_nothing(4) by simp
qed

lemma emq_inv_reachable: "emq_step\<^sup>*\<^sup>* w w' \<Longrightarrow> emq_inv w \<Longrightarrow> emq_inv w'"
  by (induction rule: rtranclp_induct) (auto intro: emq_inv_step)

lemma emq_pending_empty:
  assumes "emq_pending q d ss" shows "ed_head d = ed_tail d \<longleftrightarrow> ss = []"
proof (cases ss)
  case Nil
  then show ?thesis using assms by (auto simp: emq_pending_def Let_def emq_wrapped_def)
next
  case (Cons c cs)
  then show ?thesis using assms emq_linear_ConsD(4)[of "ed_mem d" "ed_tail d" c cs "ed_head d"]
    by (auto simp: emq_pending_def Let_def emq_wrapped_def)
qed

lemma emq_start_inv:
  "emq_oflag q = OFLAG_WRITE \<Longrightarrow> 4 \<le> emq_size q \<Longrightarrow> emq_offset q + emq_size q \<le> U32_MAX \<Longrightarrow> emq_inv (emq_start q m)"
  by (auto simp: emq_inv_def emq_start_def emq_pending_def Let_def)

section \<open>Properties\<close>

definition sample_emq :: nvgpu_engine_mem_queue where
  "sample_emq = \<lparr>emq_position = 0, emq_offset = 16, emq_size = 64, emq_id = 0, emq_index = 0,
     emq_oflag = OFLAG_WRITE, emq_type = QUEUE_TYPE_DMEM\<rparr>"

lemma sample_emq_push:
  "nvgpu_engine_mem_queue_push (emq_env_ok (0, 0)) sample_emq \<lparr>ed_head = 16, ed_tail = 16, ed_mem = \<lambda>_. 0\<rparr> [1, 4, 0, 7] =
     Some (Inr (), sample_emq\<lparr>emq_position := 20\<rparr>,
           \<lparr>ed_head = 20, ed_tail = 16, ed_mem = mem_write (\<lambda>_. 0) 16 [1, 4, 0, 7]\<rparr>)"
proof -
  have "ALIGN_u32 (Suc (Suc (Suc (Suc 0)))) 4 = Some 4" by (simp add: ALIGN_u32_4 align4_def)
  then show ?thesis
    by (simp add: nvgpu_engine_mem_queue_push_def engine_mem_queue_prepare_write_def engine_mem_queue_has_room_def
        mem_queue_get_head_tail_def Let_def sample_emq_def emq_env_ok_def)
qed

lemma sample_emq_read:
  "pmu_read_message (\<lambda>_. emq_env_ok (0, 0)) (sample_emq\<lparr>emq_oflag := OFLAG_READ\<rparr>)
      \<lparr>ed_head = 20, ed_tail = 16, ed_mem = mem_write (\<lambda>_. 0) 16 [1, 4, 0, 7]\<rparr> =
   Some (Inr (Some [1, 4, 0, 7]), sample_emq\<lparr>emq_oflag := OFLAG_READ, emq_position := 20\<rparr>,
         \<lparr>ed_head = 20, ed_tail = 20, ed_mem = mem_write (\<lambda>_. 0) 16 [1, 4, 0, 7]\<rparr>)" (is "pmu_read_message ?env ?q ?d = _")
proof -
  have at: "emq_at ?q ?d [1, 4, 0, 7]"
    using mem_read_write[of "\<lambda>_. 0" 16 "[1, 4, 0, 7]"]
    by (simp add: emq_at_def sample_emq_def command_wf_def PMU_UNIT_ID_IS_VALID_def emq_avail_def align4_def del: mem_read_write)
  have "\<not> nvgpu_engine_mem_queue_is_empty (emq_env_ok (0, 0)) ?d"
    by (simp add: nvgpu_engine_mem_queue_is_empty_def mem_queue_get_head_tail_def)
  with emq_at_read[OF at, of ?env "(0, 0)"] show ?thesis by (auto simp: align4_def sample_emq_def)
qed

text \<open>C29: The two ends of the ring agree. Take any ring of at least four bytes, any
  pushes, each of them with any of its register and memory accesses failing, and between them any
  calls of the driver's reader \<open>pmu_read_message\<close> whose accesses behind the first header succeed. Then the messages
  read are the first of those whose push succeeded, complete and in order; head and tail are equal exactly when all
  were read; and when some are left, a read without a failing access returns the next one. The head
  never leaves the ring, with room for a REWIND header behind it.\<close>

theorem emq_commands_in_order:
  assumes "emq_oflag q = OFLAG_WRITE" "4 \<le> emq_size q" "emq_offset q + emq_size q \<le> U32_MAX"
    and "emq_step\<^sup>*\<^sup>* (emq_start q m) w"
  shows "(\<exists>ss. ew_sent w = ew_received w @ ss \<and> (ed_head (ew_dev w) = ed_tail (ew_dev w) \<longleftrightarrow> ss = []) \<and>
      (ss \<noteq> [] \<longrightarrow> (\<exists>q' d'. pmu_read_message (\<lambda>_. emq_env_ok j) (ew_reader w) (ew_dev w) = Some (Inr (Some (hd ss)), q', d')))) \<and>
    emq_offset (ew_queue w) \<le> ed_head (ew_dev w) \<and>
    ed_head (ew_dev w) + 4 \<le> emq_offset (ew_queue w) + emq_size (ew_queue w)"
proof -
  have inv: "emq_inv w" using emq_inv_reachable[OF assms(4)] emq_start_inv[OF assms(1-3)] by blast
  then obtain ss where ss: "emq_pending (ew_queue w) (ew_dev w) ss" "\<forall>c\<in>set ss. command_wf c"
    "ew_sent w = ew_received w @ ss" by (auto simp: emq_inv_def)
  have rd: "emq_oflag (ew_reader w) = OFLAG_READ" "emq_pending (ew_reader w) (ew_dev w) ss"
    using inv ss(1) emq_pending_cong[of "ew_reader w" "ew_queue w"] by (auto simp: emq_inv_def)
  note empty = emq_pending_empty[OF ss(1)]
  have "\<exists>q' d'. pmu_read_message (\<lambda>_. emq_env_ok j) (ew_reader w) (ew_dev w) = Some (Inr (Some (hd ss)), q', d')" if "ss \<noteq> []"
    using emq_pending_read_next[OF rd(2) ss(2) rd(1)] that empty by blast
  then show ?thesis using ss(1,3) empty by (auto simp: emq_pending_def Let_def)
qed

theorem emq_commands_in_order_witness:
  "\<exists>w. emq_step\<^sup>*\<^sup>* (emq_start sample_emq (\<lambda>_. 0)) w \<and> ew_sent w = [[1, 4, 0, 7]] \<and> ew_received w = [[1, 4, 0, 7]] \<and>
     ed_tail (ew_dev w) = 20 \<and> ed_head (ew_dev w) = ed_tail (ew_dev w) \<and> ed_head (ew_dev w) + 4 \<le> 80"
proof -
  let ?s = "emq_start sample_emq (\<lambda>_. 0)" and ?m = "mem_write (\<lambda>_. 0) 16 [1, 4, 0, 7]"
  let ?w = "?s\<lparr>ew_queue := sample_emq\<lparr>emq_position := 20\<rparr>, ew_dev := \<lparr>ed_head = 20, ed_tail = 16, ed_mem = ?m\<rparr>,
      ew_sent := ew_sent ?s @ [[1, 4, 0, 7]]\<rparr>"
  let ?v = "?w\<lparr>ew_reader := sample_emq\<lparr>emq_oflag := OFLAG_READ, emq_position := 20\<rparr>,
      ew_dev := \<lparr>ed_head = 20, ed_tail = 20, ed_mem = ?m\<rparr>, ew_received := ew_received ?w @ [[1, 4, 0, 7]]\<rparr>"
  have "emq_step ?s ?w"
    by (rule Push_ok) (use sample_emq_push in \<open>simp_all add: command_wf_def PMU_UNIT_ID_IS_VALID_def emq_start_def sample_emq_def\<close>)
  moreover have "emq_step ?w ?v"
    by (rule Read_message[of "\<lambda>_. emq_env_ok (0, 0)" "(0, 0)"]) (use sample_emq_read in \<open>simp_all add: emq_start_def\<close>)
  ultimately have st: "emq_step\<^sup>*\<^sup>* ?s ?v" by (meson converse_rtranclp_into_rtranclp rtranclp.rtrancl_refl)
  have pre: "emq_oflag sample_emq = OFLAG_WRITE" "4 \<le> emq_size sample_emq" "emq_offset sample_emq + emq_size sample_emq \<le> U32_MAX"
    by (simp_all add: sample_emq_def)
  show ?thesis using emq_commands_in_order[OF pre st] st
    by (intro exI[of _ ?v]) (simp add: emq_start_def sample_emq_def)
qed

text \<open>When no access fails, a push succeeds exactly when the aligned command fits behind the head
  with room for a REWIND, or, after a rewind, before the tail; otherwise it reports \<open>EAGAIN\<close> and
  touches nothing.\<close>

theorem emq_push_iff_room:
  assumes "emq_pending q d ss" "emq_oflag q = OFLAG_WRITE" "ds \<noteq> []" "length ds + 3 \<le> U32_MAX"
  defines "n \<equiv> align4 (length ds)" and "lim \<equiv> emq_offset q + emq_size q"
  shows "if (if ed_tail d \<le> ed_head d then ed_head d + n + 4 \<le> lim \<or> emq_offset q + n < ed_tail d
             else ed_head d + n < ed_tail d)
     then \<exists>q' d'. nvgpu_engine_mem_queue_push (emq_env_ok junk) q d ds = Some (Inr (), q', d') \<and> emq_pending q d' (ss @ [ds])
     else nvgpu_engine_mem_queue_push (emq_env_ok junk) q d ds = Some (Inl EAGAIN, q, d)"
proof -
  have hr: "engine_mem_queue_has_room (emq_env_ok junk) d q (length ds) = Some (emq_room q d n)"
    unfolding n_def by (rule has_room_eq[OF assms(1,4)]) (simp_all add: emq_env_ok_def)
  obtain room rw where r: "emq_room q d n = (room, rw)" by force
  have iff: "room \<longleftrightarrow> (if ed_tail d \<le> ed_head d then ed_head d + n + 4 \<le> lim \<or> emq_offset q + n < ed_tail d
             else ed_head d + n < ed_tail d)" using r by (auto simp: emq_room_def lim_def split: if_splits)
  obtain res q' d' where res: "nvgpu_engine_mem_queue_push (emq_env_ok junk) q d ds = Some (res, q', d')" "emq_pushed q d ss ds (res, q', d')"
    using emq_push_spec[OF assms(1-4), of "emq_env_ok junk"] by auto
  show ?thesis
  proof (cases room)
    case True
    then have "res = Inr ()" using res(1) assms(2) hr r
      by (auto simp: nvgpu_engine_mem_queue_push_def engine_mem_queue_prepare_write_def engine_mem_queue_rewind_def
          Let_def emq_env_ok_def ALIGN_u32_4[OF assms(4)] split: if_splits)
    then show ?thesis using True iff res by (auto simp: emq_pushed_def)
  next
    case False
    then have "nvgpu_engine_mem_queue_push (emq_env_ok junk) q d ds = Some (Inl EAGAIN, q, d)"
      using assms(2) hr r by (simp add: nvgpu_engine_mem_queue_push_def engine_mem_queue_prepare_write_def Let_def)
    then show ?thesis using False iff by simp
  qed
qed

theorem emq_push_iff_room_witness:
  "\<exists>q' d'. nvgpu_engine_mem_queue_push (emq_env_ok (0, 0)) sample_emq \<lparr>ed_head = 76, ed_tail = 40, ed_mem = \<lambda>_. 1\<rparr> [1, 4, 0, 7] =
     Some (Inr (), q', d') \<and> emq_pending sample_emq d' [replicate 36 1, [1, 4, 0, 7]]"
proof -
  have "mem_read (\<lambda>_. 1) p n = replicate n 1" for p n by (simp add: mem_read_def map_replicate_const)
  then have "emq_linear (\<lambda>_. 1) 40 [replicate 36 1] 76" by (simp add: align4_def)
  then have "emq_pending sample_emq \<lparr>ed_head = 76, ed_tail = 40, ed_mem = \<lambda>_. 1\<rparr> [replicate 36 1]"
    by (simp add: emq_pending_def sample_emq_def Let_def)
  from emq_push_iff_room[OF this, of "[1, 4, 0, 7]" "(0, 0)"] show ?thesis
    by (simp add: sample_emq_def align4_def)
qed

end
