(* ===== verification/Semaphore.thy ===== *)
theory Semaphore
  imports Bitops Allocator
begin

text \<open>
  The software semaphores of \<^verbatim>\<open>common/semaphore/\<close>: one sea of memory pages for the
  GPU, a pool (one page of the sea) for each address space, hardware semaphores (16 bytes of
  a pool) for each channel, and semaphores, a hardware semaphore with the value to wait for. Pools and
  semaphores are reference counted.

  Objects live in maps from their address. An allocation takes the result of
  \<open>nvgpu_kzalloc\<close> as an argument: \<open>None\<close> is NULL, an address is one that is not in use.
  The results of the mapping functions of the memory manager are arguments too.
\<close>

section \<open>Counters\<close>

abbreviation (input) SEMAPHORE_SIZE :: nat where "SEMAPHORE_SIZE \<equiv> 16"
abbreviation (input) SEMAPHORE_POOL_COUNT :: nat where "SEMAPHORE_POOL_COUNT \<equiv> 512"
abbreviation (input) NVGPU_CPU_PAGE_SIZE :: nat where "NVGPU_CPU_PAGE_SIZE \<equiv> 4096"
abbreviation (input) SEMAS_PER_POOL :: nat where "SEMAS_PER_POOL \<equiv> 256"

definition nvgpu_semaphore_value_released :: "u32 \<Rightarrow> u32 \<Rightarrow> bool" where
  "nvgpu_semaphore_value_released goal racer \<longleftrightarrow> wsub32 racer goal < 2147483648"

definition semaphore_bitmap_alloc :: "ulong list \<Rightarrow> u64 \<Rightarrow> (u32 result \<times> ulong list) option" where
  "semaphore_bitmap_alloc bitmap len =
     do {
       idx \<leftarrow> find_first_zero_bit bitmap len;
       if idx = len then Some (Inl ENOSPC, bitmap)
       else do { bitmap \<leftarrow> nvgpu_set_bit (wrap32 idx) bitmap; Some (Inr idx, bitmap) } }"

section \<open>State\<close>

record nvgpu_semaphore_sea =
  sea_pool_list :: "nat list"
  sea_size :: nat
  sea_gpu_va :: u64
  sea_map_size :: u64
  sea_page_count :: int
  sea_mem :: "nat \<Rightarrow> u32"
  sea_pools_alloced :: "ulong list"

record nvgpu_semaphore_pool =
  pool_gpu_va :: u64
  pool_gpu_va_ro :: u64
  pool_page_idx :: u64
  pool_semas_alloced :: "ulong list"
  pool_mapped :: bool
  pool_rw_mem :: bool
  pool_ref :: nat

record nvgpu_semaphore_loc =
  loc_pool :: nat
  loc_offset :: u32

record nvgpu_hw_semaphore =
  hw_location :: nvgpu_semaphore_loc
  hw_next_value :: u32
  hw_chid :: u32

record nvgpu_semaphore =
  sema_location :: nvgpu_semaphore_loc
  sema_value :: u32
  sema_ready_to_wait :: bool
  sema_ref :: nat

record sema_world =
  w_sea :: "nvgpu_semaphore_sea option"
  w_pools :: "nat \<rightharpoonup> nvgpu_semaphore_pool"
  w_hw :: "nat \<rightharpoonup> nvgpu_hw_semaphore"
  w_semas :: "nat \<rightharpoonup> nvgpu_semaphore"

section \<open>The sea\<close>

text \<open>The loop that sets every word to a value close to overflow.\<close>

definition sea_fill :: "(nat \<Rightarrow> u32) \<Rightarrow> nat \<Rightarrow> u32" where
  "sea_fill m = (\<lambda>i. if i < NVGPU_CPU_PAGE_SIZE * SEMAPHORE_POOL_COUNT \<and> i mod 4 = 0 then 0xfffffff0 else m i)"

definition semaphore_sea_grow ::
    "errno option \<Rightarrow> nvgpu_semaphore_sea \<Rightarrow> unit result \<times> nvgpu_semaphore_sea" where
  "semaphore_sea_grow dma sea =
     (case dma of
        Some e \<Rightarrow> (Inl e, sea)
      | None \<Rightarrow> (Inr (), sea\<lparr>sea_size := SEMAPHORE_POOL_COUNT,
                            sea_map_size := SEMAPHORE_POOL_COUNT * NVGPU_CPU_PAGE_SIZE,
                            sea_mem := sea_fill (sea_mem sea)\<rparr>))"

definition nvgpu_semaphore_sea_create :: "bool \<Rightarrow> errno option \<Rightarrow> sema_world \<Rightarrow> bool \<times> sema_world" where
  "nvgpu_semaphore_sea_create kzalloc_ok dma w =
     (case w_sea w of
        Some _ \<Rightarrow> (True, w)
      | None \<Rightarrow>
          if \<not> kzalloc_ok then (False, w)
          else (let sea = \<lparr>sea_pool_list = [], sea_size = 0, sea_gpu_va = 0, sea_map_size = 0,
                           sea_page_count = 0, sea_mem = (\<lambda>_. 0),
                           sea_pools_alloced = replicate 8 0\<rparr>
                in case semaphore_sea_grow dma sea of
                     (Inl _, _) \<Rightarrow> (False, w\<lparr>w_sea := None\<rparr>)
                   | (Inr _, sea) \<Rightarrow> (True, w\<lparr>w_sea := Some sea\<rparr>)))"

definition nvgpu_semaphore_sea_destroy :: "sema_world \<Rightarrow> sema_world" where
  "nvgpu_semaphore_sea_destroy w = (case w_sea w of None \<Rightarrow> w | Some _ \<Rightarrow> w\<lparr>w_sea := None\<rparr>)"

definition nvgpu_semaphore_sea_allocate_gpu_va ::
    "nvgpu_semaphore_sea \<Rightarrow> 's nvgpu_allocator \<Rightarrow> u64 \<Rightarrow> u64 \<Rightarrow> u32 \<Rightarrow>
       (nvgpu_semaphore_sea \<times> 's nvgpu_allocator) option" where
  "nvgpu_semaphore_sea_allocate_gpu_va s a base len page_size =
     do { (va, a) \<leftarrow> nvgpu_alloc_fixed a base len page_size; Some (s\<lparr>sea_gpu_va := va\<rparr>, a) }"

section \<open>Pools\<close>

definition nvgpu_semaphore_pool_alloc ::
    "nat option \<Rightarrow> sema_world \<Rightarrow> (nat result \<times> sema_world) option" where
  "nvgpu_semaphore_pool_alloc addr w =
     do {
       sea \<leftarrow> w_sea w;
       (case addr of
          None \<Rightarrow> Some (Inl ENOMEM, w)
        | Some p \<Rightarrow> do {
            (ret, bits) \<leftarrow> semaphore_bitmap_alloc (sea_pools_alloced sea) SEMAPHORE_POOL_COUNT;
            (case ret of
               Inl e \<Rightarrow> Some (Inl e, w)
             | Inr page_idx \<Rightarrow>
                 (let pool = \<lparr>pool_gpu_va = 0, pool_gpu_va_ro = 0, pool_page_idx = page_idx,
                              pool_semas_alloced = replicate 4 0, pool_mapped = False, pool_rw_mem = False, pool_ref = 1\<rparr>;
                      sea = sea\<lparr>sea_pools_alloced := bits, sea_page_count := sea_page_count sea + 1,
                                sea_pool_list := p # sea_pool_list sea\<rparr>
                  in Some (Inr p, w\<lparr>w_sea := Some sea, w_pools := (w_pools w)(p \<mapsto> pool)\<rparr>))) }) }"

text \<open>\<open>ro\<close> and \<open>rw\<close> are the addresses the two mappings get (0 when they fail), \<open>create\<close> the outcome of
  \<open>nvgpu_mem_create_from_mem\<close>, which makes the pool's own view of its page (\<open>rw_mem\<close>); when the private mapping fails it is freed again.\<close>

definition nvgpu_semaphore_pool_map ::
    "u64 \<Rightarrow> errno option \<Rightarrow> u64 \<Rightarrow> nat \<Rightarrow> sema_world \<Rightarrow> (unit result \<times> sema_world) option" where
  "nvgpu_semaphore_pool_map ro create rw pid w =
     do {
       p \<leftarrow> w_pools w pid;
       Some (if pool_mapped p then (Inl EBUSY, w)
             else if ro = 0 then (Inl ENOMEM, w)
             else (let p = p\<lparr>pool_gpu_va_ro := ro, pool_mapped := True\<rparr>;
                       w = w\<lparr>w_pools := (w_pools w)(pid \<mapsto> p)\<rparr>
                   in case create of
                        Some e \<Rightarrow> (Inl e, w)
                      | None \<Rightarrow>
                          if rw = 0 then (Inl ENOMEM, w)
                          else (Inr (), w\<lparr>w_pools := (w_pools w)(pid \<mapsto> p\<lparr>pool_rw_mem := True, pool_gpu_va := rw\<rparr>)\<rparr>)))
     }"

definition nvgpu_semaphore_pool_unmap :: "nat \<Rightarrow> sema_world \<Rightarrow> sema_world option" where
  "nvgpu_semaphore_pool_unmap pid w =
     do {
       p \<leftarrow> w_pools w pid;
       Some (w\<lparr>w_pools := (w_pools w)(pid \<mapsto> p\<lparr>pool_rw_mem := False, pool_gpu_va := 0, pool_gpu_va_ro := 0, pool_mapped := False\<rparr>)\<rparr>)
     }"

definition nvgpu_semaphore_pool_free :: "nat \<Rightarrow> sema_world \<Rightarrow> sema_world option" where
  "nvgpu_semaphore_pool_free pid w =
     do {
       p \<leftarrow> w_pools w pid;
       s \<leftarrow> w_sea w;
       bits \<leftarrow> nvgpu_clear_bit (wrap32 (pool_page_idx p)) (sea_pools_alloced s);
       let s = s\<lparr>sea_pool_list := removeAll pid (sea_pool_list s), sea_pools_alloced := bits,
                 sea_page_count := sea_page_count s - 1\<rparr>;
       Some (w\<lparr>w_sea := Some s, w_pools := (w_pools w)(pid := None)\<rparr>)
     }"

definition nvgpu_semaphore_pool_get :: "nat \<Rightarrow> sema_world \<Rightarrow> sema_world option" where
  "nvgpu_semaphore_pool_get pid w =
     do { p \<leftarrow> w_pools w pid; Some (w\<lparr>w_pools := (w_pools w)(pid \<mapsto> p\<lparr>pool_ref := pool_ref p + 1\<rparr>)\<rparr>) }"

definition nvgpu_semaphore_pool_put :: "nat \<Rightarrow> sema_world \<Rightarrow> sema_world option" where
  "nvgpu_semaphore_pool_put pid w =
     do {
       p \<leftarrow> w_pools w pid;
       nvgpu_assert (pool_ref p > 0);
       let w = w\<lparr>w_pools := (w_pools w)(pid \<mapsto> p\<lparr>pool_ref := pool_ref p - 1\<rparr>)\<rparr>;
       if pool_ref p - 1 = 0 then nvgpu_semaphore_pool_free pid w else Some w }"

definition nvgpu_semaphore_pool_gpu_va :: "nvgpu_semaphore_pool \<Rightarrow> bool \<Rightarrow> u64" where
  "nvgpu_semaphore_pool_gpu_va p global =
     (if \<not> global then pool_gpu_va p
      else wrap64 (pool_gpu_va_ro p + wrap64 (NVGPU_CPU_PAGE_SIZE * pool_page_idx p)))"

definition nvgpu_semaphore_pool_get_page_idx :: "nvgpu_semaphore_pool \<Rightarrow> u64" where
  "nvgpu_semaphore_pool_get_page_idx p = pool_page_idx p"

text \<open>A word of a pool's page, which is page \<open>page_idx\<close> of the sea. It is accessed through \<open>rw_mem\<close>, which exists while the pool is mapped: an access
  to a memory object that is not there is an assertion in \<open>nvgpu_mem_rd32\<close> and \<open>nvgpu_mem_wr32\<close>.\<close>

definition loc_addr :: "nvgpu_semaphore_pool \<Rightarrow> u32 \<Rightarrow> nat" where
  "loc_addr p offs = NVGPU_CPU_PAGE_SIZE * pool_page_idx p + offs"

definition loc_read :: "sema_world \<Rightarrow> nvgpu_semaphore_loc \<Rightarrow> u32 option" where
  "loc_read w l =
     do { p \<leftarrow> w_pools w (loc_pool l); s \<leftarrow> w_sea w; nvgpu_assert (pool_rw_mem p); Some (sea_mem s (loc_addr p (loc_offset l))) }"

definition loc_write :: "sema_world \<Rightarrow> nvgpu_semaphore_loc \<Rightarrow> u32 \<Rightarrow> sema_world option" where
  "loc_write w l v =
     do { p \<leftarrow> w_pools w (loc_pool l); s \<leftarrow> w_sea w; nvgpu_assert (pool_rw_mem p);
          Some (w\<lparr>w_sea := Some (s\<lparr>sea_mem := (sea_mem s)(loc_addr p (loc_offset l) := v)\<rparr>)\<rparr>) }"

section \<open>Hardware semaphores\<close>

definition nvgpu_hw_semaphore_init ::
    "nat option \<Rightarrow> nat \<Rightarrow> u32 \<Rightarrow> sema_world \<Rightarrow> (nat result \<times> sema_world) option" where
  "nvgpu_hw_semaphore_init addr pid chid w =
     do {
       p \<leftarrow> w_pools w pid;
       (idx, bits) \<leftarrow> semaphore_bitmap_alloc (pool_semas_alloced p) SEMAS_PER_POOL;
       (case idx of
          Inl e \<Rightarrow> Some (Inl e, w)
        | Inr hw_sema_idx \<Rightarrow>
            (case addr of
               None \<Rightarrow> do {
                 bits \<leftarrow> nvgpu_clear_bit hw_sema_idx bits;
                 Some (Inl ENOMEM, w\<lparr>w_pools := (w_pools w)(pid \<mapsto> p\<lparr>pool_semas_alloced := bits\<rparr>)\<rparr>) }
             | Some h \<Rightarrow> do {
                 let l = \<lparr>loc_pool = pid, loc_offset = SEMAPHORE_SIZE * hw_sema_idx\<rparr>;
                 let w = w\<lparr>w_pools := (w_pools w)(pid \<mapsto> p\<lparr>pool_semas_alloced := bits\<rparr>)\<rparr>;
                 v \<leftarrow> loc_read w l;
                 Some (Inr h, w\<lparr>w_hw := (w_hw w)(h \<mapsto> \<lparr>hw_location = l, hw_next_value = v, hw_chid = chid\<rparr>)\<rparr>) }))
     }"

definition nvgpu_hw_semaphore_free :: "nat \<Rightarrow> sema_world \<Rightarrow> sema_world option" where
  "nvgpu_hw_semaphore_free h w =
     do {
       hw \<leftarrow> w_hw w h;
       let pid = loc_pool (hw_location hw);
       p \<leftarrow> w_pools w pid;
       let idx = loc_offset (hw_location hw) div SEMAPHORE_SIZE;
       bits \<leftarrow> nvgpu_clear_bit idx (pool_semas_alloced p);
       Some (w\<lparr>w_pools := (w_pools w)(pid \<mapsto> p\<lparr>pool_semas_alloced := bits\<rparr>), w_hw := (w_hw w)(h := None)\<rparr>)
     }"

definition nvgpu_hw_semaphore_addr :: "sema_world \<Rightarrow> nvgpu_hw_semaphore \<Rightarrow> u64 option" where
  "nvgpu_hw_semaphore_addr w hw =
     do { p \<leftarrow> w_pools w (loc_pool (hw_location hw));
          Some (wrap64 (nvgpu_semaphore_pool_gpu_va p True + loc_offset (hw_location hw))) }"

definition nvgpu_hw_semaphore_read :: "sema_world \<Rightarrow> nvgpu_hw_semaphore \<Rightarrow> u32 option" where
  "nvgpu_hw_semaphore_read w hw = loc_read w (hw_location hw)"

definition nvgpu_hw_semaphore_reset :: "nat \<Rightarrow> sema_world \<Rightarrow> (bool \<times> sema_world) option" where
  "nvgpu_hw_semaphore_reset h w =
     do {
       hw \<leftarrow> w_hw w h;
       let threshold = hw_next_value hw;
       current_val \<leftarrow> nvgpu_hw_semaphore_read w hw;
       let is_released = nvgpu_semaphore_value_released (wrap32 (threshold + 1)) current_val;
       nvgpu_assert (\<not> is_released);
       if is_released then Some (False, w)
       else if current_val = threshold then Some (False, w)
       else do { w \<leftarrow> loc_write w (hw_location hw) threshold; Some (True, w) }
     }"

definition nvgpu_hw_semaphore_read_next :: "nvgpu_hw_semaphore \<Rightarrow> u32" where
  "nvgpu_hw_semaphore_read_next hw = hw_next_value hw"

definition nvgpu_hw_semaphore_update_next :: "nat \<Rightarrow> sema_world \<Rightarrow> (u32 \<times> sema_world) option" where
  "nvgpu_hw_semaphore_update_next h w =
     do {
       hw \<leftarrow> w_hw w h;
       let nxt = wrap32 (hw_next_value hw + 1);
       Some (nxt, w\<lparr>w_hw := (w_hw w)(h \<mapsto> hw\<lparr>hw_next_value := nxt\<rparr>)\<rparr>)
     }"

section \<open>Semaphores\<close>

definition nvgpu_semaphore_alloc ::
    "nat option \<Rightarrow> nat \<Rightarrow> sema_world \<Rightarrow> (nat option \<times> sema_world) option" where
  "nvgpu_semaphore_alloc addr h w =
     do {
       hw \<leftarrow> w_hw w h;
       (case addr of
          None \<Rightarrow> Some (None, w)
        | Some s \<Rightarrow> do {
            let sema = \<lparr>sema_location = hw_location hw, sema_value = 0, sema_ready_to_wait = False, sema_ref = 1\<rparr>;
            w \<leftarrow> nvgpu_semaphore_pool_get (loc_pool (hw_location hw)) (w\<lparr>w_semas := (w_semas w)(s \<mapsto> sema)\<rparr>);
            Some (Some s, w) }) }"

definition nvgpu_semaphore_free :: "nat \<Rightarrow> sema_world \<Rightarrow> sema_world option" where
  "nvgpu_semaphore_free s w =
     do {
       sema \<leftarrow> w_semas w s;
       w \<leftarrow> nvgpu_semaphore_pool_put (loc_pool (sema_location sema)) w;
       Some (w\<lparr>w_semas := (w_semas w)(s := None)\<rparr>) }"

definition nvgpu_semaphore_put :: "nat \<Rightarrow> sema_world \<Rightarrow> sema_world option" where
  "nvgpu_semaphore_put s w =
     do {
       sema \<leftarrow> w_semas w s;
       nvgpu_assert (sema_ref sema > 0);
       let w = w\<lparr>w_semas := (w_semas w)(s \<mapsto> sema\<lparr>sema_ref := sema_ref sema - 1\<rparr>)\<rparr>;
       if sema_ref sema - 1 = 0 then nvgpu_semaphore_free s w else Some w }"

definition nvgpu_semaphore_get :: "nat \<Rightarrow> sema_world \<Rightarrow> sema_world option" where
  "nvgpu_semaphore_get s w =
     do { sema \<leftarrow> w_semas w s;
          Some (w\<lparr>w_semas := (w_semas w)(s \<mapsto> sema\<lparr>sema_ref := sema_ref sema + 1\<rparr>)\<rparr>) }"

definition nvgpu_semaphore_gpu_rw_va :: "sema_world \<Rightarrow> nvgpu_semaphore \<Rightarrow> u64 option" where
  "nvgpu_semaphore_gpu_rw_va w s =
     do { p \<leftarrow> w_pools w (loc_pool (sema_location s));
          Some (wrap64 (nvgpu_semaphore_pool_gpu_va p False + loc_offset (sema_location s))) }"

definition nvgpu_semaphore_gpu_ro_va :: "sema_world \<Rightarrow> nvgpu_semaphore \<Rightarrow> u64 option" where
  "nvgpu_semaphore_gpu_ro_va w s =
     do { p \<leftarrow> w_pools w (loc_pool (sema_location s));
          Some (wrap64 (nvgpu_semaphore_pool_gpu_va p True + loc_offset (sema_location s))) }"

definition nvgpu_semaphore_read :: "sema_world \<Rightarrow> nvgpu_semaphore \<Rightarrow> u32 option" where
  "nvgpu_semaphore_read w s = loc_read w (sema_location s)"

definition nvgpu_semaphore_get_value :: "nvgpu_semaphore \<Rightarrow> u32" where
  "nvgpu_semaphore_get_value s = sema_value s"

definition nvgpu_semaphore_is_released :: "sema_world \<Rightarrow> nvgpu_semaphore \<Rightarrow> bool option" where
  "nvgpu_semaphore_is_released w s =
     do { sema_val \<leftarrow> nvgpu_semaphore_read w s;
          Some (nvgpu_semaphore_value_released (nvgpu_semaphore_get_value s) sema_val) }"

definition nvgpu_semaphore_is_acquired :: "sema_world \<Rightarrow> nvgpu_semaphore \<Rightarrow> bool option" where
  "nvgpu_semaphore_is_acquired w s = map_option Not (nvgpu_semaphore_is_released w s)"

definition nvgpu_semaphore_can_wait :: "nvgpu_semaphore \<Rightarrow> bool" where
  "nvgpu_semaphore_can_wait s = sema_ready_to_wait s"

definition nvgpu_semaphore_prepare :: "nat \<Rightarrow> nat \<Rightarrow> sema_world \<Rightarrow> sema_world option" where
  "nvgpu_semaphore_prepare s h w =
     do {
       hw \<leftarrow> w_hw w h;
       sema \<leftarrow> w_semas w s;
       let nxt = wrap32 (nvgpu_hw_semaphore_read_next hw + 1);
       Some (w\<lparr>w_semas := (w_semas w)(s \<mapsto> sema\<lparr>sema_value := nxt, sema_ready_to_wait := True\<rparr>)\<rparr>) }"

definition nvgpu_semaphore_get_hw_pool_page_idx :: "sema_world \<Rightarrow> nvgpu_semaphore \<Rightarrow> u64 option" where
  "nvgpu_semaphore_get_hw_pool_page_idx w s =
     map_option nvgpu_semaphore_pool_get_page_idx (w_pools w (loc_pool (sema_location s)))"

end
