(* ===== verification/Semaphore_Proofs.thy ===== *)
theory Semaphore_Proofs
  imports Semaphore
begin

text \<open>
  The invariant of the semaphores: every live pool has its own page of the sea, every live
  hardware semaphore its own slot of its pool, and a pool's reference count is the number of
  its owners (address spaces) and of the semaphores that point to it. Every operation keeps it.
\<close>

section \<open>Slots\<close>

text \<open>A bitmap of \<open>n\<close> slots and who holds which.\<close>

definition slots :: "ulong list \<Rightarrow> nat \<Rightarrow> (nat \<rightharpoonup> nat) \<Rightarrow> bool" where
  "slots bits n f \<longleftrightarrow> n \<le> 64 * length bits \<and> inj_on f (dom f) \<and> ran f = {i. i < n \<and> tb bits i}"

lemma slots_empty: "n \<le> 64 * length bits \<Longrightarrow> (\<And>i. i < n \<Longrightarrow> \<not> tb bits i) \<Longrightarrow> slots bits n Map.empty"
  by (auto simp: slots_def)

lemma slots_cong: "slots bits n f \<Longrightarrow> (\<And>k. g k = f k) \<Longrightarrow> slots bits n g"
  by (metis ext)

lemma slots_distinct: "slots bits n f \<Longrightarrow> f k = Some i \<Longrightarrow> f k' = Some i \<Longrightarrow> k = k'"
  unfolding slots_def inj_on_def by (metis domI)

lemma slots_less: "slots bits n f \<Longrightarrow> f k = Some i \<Longrightarrow> i < n"
  unfolding slots_def ran_def by blast

lemma bitmap_alloc_cases:
  assumes "n \<le> 64 * length bits" "n \<le> U32_MAX"
  shows "(\<forall>i<n. tb bits i) \<and> semaphore_bitmap_alloc bits n = Some (Inl ENOSPC, bits) \<or>
    (\<exists>i bits'. i < n \<and> \<not> tb bits i \<and> (\<forall>j<i. tb bits j) \<and> semaphore_bitmap_alloc bits n = Some (Inr i, bits') \<and>
      length bits' = length bits \<and> (\<forall>j. tb bits' j = (j = i \<or> tb bits j)))"
proof -
  obtain r where r: "find_first_zero_bit bits n = Some r" "first_from (\<lambda>i. \<not> tb bits i) 0 n r"
    using find_first_zero_bit_correct[OF assms(1)] assms(2) by auto
  show ?thesis
  proof (cases "r = n")
    case True
    then show ?thesis using r by (simp add: semaphore_bitmap_alloc_def first_from_def)
  next
    case False
    then have b: "r < n" "\<not> tb bits r" "\<forall>j<r. tb bits j" using r(2) by (auto simp: first_from_def)
    then obtain bits' where "nvgpu_set_bit r bits = Some bits'" "length bits' = length bits"
      "\<forall>i. tb bits' i = (i = r \<or> tb bits i)" using nvgpu_set_bit_correct[of r bits] assms(1) by auto
    moreover have "wrap32 r = r" using b(1) assms(2) by simp
    ultimately show ?thesis using r(1) b False by (auto simp: semaphore_bitmap_alloc_def)
  qed
qed

lemma slots_alloc:
  assumes s: "slots bits n f" and n: "n \<le> U32_MAX" and k: "f k = None"
  shows "(\<forall>i<n. tb bits i) \<and> semaphore_bitmap_alloc bits n = Some (Inl ENOSPC, bits) \<or>
    (\<exists>i bits'. i < n \<and> semaphore_bitmap_alloc bits n = Some (Inr i, bits') \<and> length bits' = length bits \<and>
      i \<notin> ran f \<and> slots bits' n (f(k \<mapsto> i)) \<and> (\<forall>j. tb bits' j = (j = i \<or> tb bits j)))"
proof -
  have nb: "n \<le> 64 * length bits" using s by (simp add: slots_def)
  from bitmap_alloc_cases[OF nb n] show ?thesis
  proof
    assume "\<exists>i bits'. i < n \<and> \<not> tb bits i \<and> (\<forall>j<i. tb bits j) \<and> semaphore_bitmap_alloc bits n = Some (Inr i, bits') \<and>
      length bits' = length bits \<and> (\<forall>j. tb bits' j = (j = i \<or> tb bits j))"
    then obtain i bits' where i: "i < n" "\<not> tb bits i" "semaphore_bitmap_alloc bits n = Some (Inr i, bits')"
      "length bits' = length bits" "\<forall>j. tb bits' j = (j = i \<or> tb bits j)" by blast
    have nr: "i \<notin> ran f" using s i(2) by (auto simp: slots_def)
    have "inj_on (f(k \<mapsto> i)) (dom (f(k \<mapsto> i)))"
      using s nr k unfolding slots_def inj_on_def by (auto simp: ran_def)
    moreover have "ran (f(k \<mapsto> i)) = {j. j < n \<and> tb bits' j}" using s k i(1,5) by (auto simp: slots_def)
    ultimately have "slots bits' n (f(k \<mapsto> i))" using nb i(4) by (simp add: slots_def)
    then show ?thesis using i nr by blast
  qed blast
qed

lemma slots_free:
  assumes s: "slots bits n f" and k: "f k = Some i"
  shows "\<exists>bits'. nvgpu_clear_bit i bits = Some bits' \<and> length bits' = length bits \<and> slots bits' n (f(k := None)) \<and>
    (\<forall>j. tb bits' j = (j \<noteq> i \<and> tb bits j))"
proof -
  have i: "i < n" "n \<le> 64 * length bits" using s slots_less[OF s k] by (simp_all add: slots_def)
  then obtain bits' where b: "nvgpu_clear_bit i bits = Some bits'" "length bits' = length bits"
    "\<forall>j. tb bits' j = (j \<noteq> i \<and> tb bits j)" using nvgpu_clear_bit_correct[of i bits] by auto
  have "inj_on (f(k := None)) (dom (f(k := None)))" using s unfolding slots_def inj_on_def by auto
  moreover have "ran (f(k := None)) = ran f - {i}"
    using slots_distinct[OF s] k unfolding ran_def by (auto split: if_splits) (metis option.inject)+
  then have "ran (f(k := None)) = {j. j < n \<and> tb bits' j}" using s b(3) by (auto simp: slots_def)
  ultimately have "slots bits' n (f(k := None))" using i b(2) by (simp add: slots_def)
  then show ?thesis using b by blast
qed

section \<open>The invariant\<close>

definition pool_slot :: "sema_world \<Rightarrow> nat \<rightharpoonup> nat" where
  "pool_slot w = (\<lambda>pid. map_option pool_page_idx (w_pools w pid))"

definition hw_slot :: "sema_world \<Rightarrow> nat \<Rightarrow> nat \<rightharpoonup> nat" where
  "hw_slot w pid = (\<lambda>h. case w_hw w h of
      None \<Rightarrow> None
    | Some hw \<Rightarrow> if loc_pool (hw_location hw) = pid then Some (loc_offset (hw_location hw) div 16) else None)"

definition sema_refs :: "sema_world \<Rightarrow> nat \<Rightarrow> nat set" where
  "sema_refs w pid = {s. \<exists>x. w_semas w s = Some x \<and> loc_pool (sema_location x) = pid}"

definition pool_inv :: "(nat \<Rightarrow> nat) \<Rightarrow> sema_world \<Rightarrow> nat \<Rightarrow> nvgpu_semaphore_pool \<Rightarrow> bool" where
  "pool_inv own w pid p \<longleftrightarrow> slots (pool_semas_alloced p) 256 (hw_slot w pid) \<and>
     pool_ref p = own pid + card (sema_refs w pid) \<and> 0 < own pid + card (sema_refs w pid)"

definition sea_inv :: "sema_world \<Rightarrow> bool" where
  "sea_inv w \<longleftrightarrow> (\<exists>sea. w_sea w = Some sea \<and> slots (sea_pools_alloced sea) 512 (pool_slot w) \<and>
     sea_page_count sea = int (card (dom (w_pools w)))) \<and> finite (dom (w_pools w)) \<and> finite (dom (w_semas w))"

definition hw_inv :: "(nat \<Rightarrow> nat) \<Rightarrow> sema_world \<Rightarrow> bool" where
  "hw_inv own w \<longleftrightarrow> (\<forall>h hw. w_hw w h = Some hw \<longrightarrow> loc_offset (hw_location hw) mod 16 = 0 \<and>
     w_pools w (loc_pool (hw_location hw)) \<noteq> None \<and> 0 < own (loc_pool (hw_location hw)))"

definition semas_inv :: "sema_world \<Rightarrow> bool" where
  "semas_inv w \<longleftrightarrow> (\<forall>s x. w_semas w s = Some x \<longrightarrow> w_pools w (loc_pool (sema_location x)) \<noteq> None \<and> 0 < sema_ref x)"

definition sema_inv :: "(nat \<Rightarrow> nat) \<Rightarrow> sema_world \<Rightarrow> bool" where
  "sema_inv own w \<longleftrightarrow> sea_inv w \<and> (\<forall>pid p. w_pools w pid = Some p \<longrightarrow> pool_inv own w pid p) \<and> hw_inv own w \<and> semas_inv w"

lemma pool_invD: "sema_inv own w \<Longrightarrow> w_pools w pid = Some p \<Longrightarrow> pool_inv own w pid p"
  by (simp add: sema_inv_def)

lemma pool_inv_cong:
  assumes "pool_inv own w pid p" "own' pid = own pid" "hw_slot w' pid = hw_slot w pid" "sema_refs w' pid = sema_refs w pid"
    "pool_semas_alloced q = pool_semas_alloced p" "pool_ref q = pool_ref p"
  shows "pool_inv own' w' pid q"
  using assms unfolding pool_inv_def by metis

lemma finite_sema_refs: "finite (dom (w_semas w)) \<Longrightarrow> finite (sema_refs w pid)"
  by (rule finite_subset[of _ "dom (w_semas w)"]) (auto simp: sema_refs_def)

lemma sema_refs_dead: "semas_inv w \<Longrightarrow> w_pools w pid = None \<Longrightarrow> sema_refs w pid = {}"
  by (fastforce simp: semas_inv_def sema_refs_def)

lemma hw_slot_dead: "hw_inv own w \<Longrightarrow> w_pools w pid = None \<Longrightarrow> hw_slot w pid = Map.empty"
  by (force simp: hw_inv_def hw_slot_def split: option.splits)

section \<open>Every operation keeps it\<close>

lemma tb_zeros: "i < 64 * n \<Longrightarrow> \<not> tb (replicate n 0) i"
  by (simp add: tb_def less_mult_imp_div_less mult.commute)

lemma sea_create_inv:
  assumes "nvgpu_semaphore_sea_create True None \<lparr>w_sea = None, w_pools = Map.empty, w_hw = Map.empty, w_semas = Map.empty\<rparr> = (True, w)"
  shows "sema_inv own w"
proof -
  have "slots (replicate 8 0) 512 Map.empty" by (rule slots_empty) (auto simp: tb_zeros)
  then show ?thesis using assms
    by (auto simp: nvgpu_semaphore_sea_create_def semaphore_sea_grow_def Let_def sema_inv_def sea_inv_def hw_inv_def
        semas_inv_def pool_slot_def)
qed

lemma pool_alloc_inv:
  assumes inv: "sema_inv own w" and p: "w_pools w p = None"
  shows "(\<exists>e. nvgpu_semaphore_pool_alloc (Some p) w = Some (Inl e, w)) \<or>
    (\<exists>w'. nvgpu_semaphore_pool_alloc (Some p) w = Some (Inr p, w') \<and> sema_inv (own(p := 1)) w')"
proof -
  obtain sea where sea: "w_sea w = Some sea" "slots (sea_pools_alloced sea) 512 (pool_slot w)"
    "sea_page_count sea = int (card (dom (w_pools w)))"
    and fin: "finite (dom (w_pools w))" "finite (dom (w_semas w))"
    using inv by (auto simp: sema_inv_def sea_inv_def)
  have hs: "hw_slot w p = Map.empty" and sr: "sema_refs w p = {}"
    using inv p hw_slot_dead sema_refs_dead by (auto simp: sema_inv_def)
  have k: "pool_slot w p = None" using p by (simp add: pool_slot_def)
  from slots_alloc[OF sea(2) _ k] show ?thesis
  proof
    assume "(\<forall>i<512. tb (sea_pools_alloced sea) i) \<and>
      semaphore_bitmap_alloc (sea_pools_alloced sea) 512 = Some (Inl ENOSPC, sea_pools_alloced sea)"
    then show ?thesis using sea(1) by (simp add: nvgpu_semaphore_pool_alloc_def)
  next
    assume "\<exists>i bits'. i < 512 \<and> semaphore_bitmap_alloc (sea_pools_alloced sea) 512 = Some (Inr i, bits') \<and>
      length bits' = length (sea_pools_alloced sea) \<and> i \<notin> ran (pool_slot w) \<and>
      slots bits' 512 ((pool_slot w)(p \<mapsto> i)) \<and> (\<forall>j. tb bits' j = (j = i \<or> tb (sea_pools_alloced sea) j))"
    then obtain i bits' where i: "semaphore_bitmap_alloc (sea_pools_alloced sea) 512 = Some (Inr i, bits')"
      "slots bits' 512 ((pool_slot w)(p \<mapsto> i))" by blast
    define pool where "pool = \<lparr>pool_gpu_va = 0, pool_gpu_va_ro = 0, pool_page_idx = i,
                              pool_semas_alloced = replicate 4 0, pool_mapped = False, pool_rw_mem = False, pool_ref = 1\<rparr>"
    define sea' where "sea' = sea\<lparr>sea_pools_alloced := bits', sea_page_count := sea_page_count sea + 1,
                                sea_pool_list := p # sea_pool_list sea\<rparr>"
    define w' where "w' = w\<lparr>w_sea := Some sea', w_pools := (w_pools w)(p \<mapsto> pool)\<rparr>"
    have alloc: "nvgpu_semaphore_pool_alloc (Some p) w = Some (Inr p, w')"
      using sea(1) i(1) by (simp add: nvgpu_semaphore_pool_alloc_def Let_def w'_def sea'_def pool_def)
    have "slots bits' 512 (pool_slot w')"
      by (rule slots_cong[OF i(2)]) (simp add: pool_slot_def w'_def pool_def)
    then have sea_ok: "sea_inv w'" using sea(3) fin p by (simp add: sea_inv_def w'_def sea'_def card_insert_if domIff)
    have hs': "hw_slot w' = hw_slot w" and sr': "sema_refs w' = sema_refs w"
      by (simp_all add: fun_eq_iff hw_slot_def sema_refs_def w'_def)
    have "slots (replicate 4 0) 256 Map.empty" by (rule slots_empty) (auto simp: tb_zeros)
    then have "pool_inv (own(p := 1)) w' p pool" using hs hs' sr sr' by (simp add: pool_inv_def pool_def)
    moreover have "pool_inv (own(p := 1)) w' pid q" if "w_pools w pid = Some q" "pid \<noteq> p" for pid q
      by (rule pool_inv_cong[OF pool_invD[OF inv that(1)]]) (simp_all add: that hs' sr')
    ultimately have "\<forall>pid q. w_pools w' pid = Some q \<longrightarrow> pool_inv (own(p := 1)) w' pid q"
      by (simp add: w'_def)
    moreover have "hw_inv (own(p := 1)) w'" "semas_inv w'"
      using inv by (auto simp: sema_inv_def hw_inv_def semas_inv_def w'_def)
    ultimately show ?thesis using alloc sea_ok by (auto simp: sema_inv_def)
  qed simp
qed

text \<open>An operation that changes one pool and the objects that point to it.\<close>

lemma sema_inv_change:
  assumes inv: "sema_inv own w" and p: "w_pools w pid = Some p"
    and w': "w_pools w' = (w_pools w)(pid \<mapsto> q)" "w_sea w' = w_sea w" "pool_page_idx q = pool_page_idx p"
    and fin: "finite (dom (w_semas w'))"
    and q: "pool_inv own' w' pid q"
    and oth: "\<And>k. k \<noteq> pid \<Longrightarrow> own' k = own k \<and> hw_slot w' k = hw_slot w k \<and> sema_refs w' k = sema_refs w k"
    and rest: "hw_inv own' w'" "semas_inv w'"
  shows "sema_inv own' w'"
proof -
  have "pool_slot w' = pool_slot w" "dom (w_pools w') = dom (w_pools w)"
    using p w' by (auto simp: fun_eq_iff pool_slot_def split: if_splits)
  then have "sea_inv w'" using inv w'(2) fin by (auto simp: sema_inv_def sea_inv_def)
  moreover have "pool_inv own' w' k r" if "w_pools w' k = Some r" for k r
  proof (cases "k = pid")
    case True
    then show ?thesis using that q w'(1) by simp
  next
    case False
    then have "w_pools w k = Some r" using that w'(1) by simp
    then show ?thesis using oth[OF False] by (intro pool_inv_cong[OF pool_invD[OF inv]]) simp_all
  qed
  ultimately show ?thesis using rest by (simp add: sema_inv_def)
qed

lemma pool_update_inv:
  assumes inv: "sema_inv own w" and p: "w_pools w pid = Some p"
    and q: "pool_page_idx q = pool_page_idx p" "pool_ref q = pool_ref p" "slots (pool_semas_alloced q) 256 (hw_slot w pid)"
  shows "sema_inv own (w\<lparr>w_pools := (w_pools w)(pid \<mapsto> q)\<rparr>)"
proof (rule sema_inv_change[OF inv p])
  let ?w = "w\<lparr>w_pools := (w_pools w)(pid \<mapsto> q)\<rparr>"
  have e: "hw_slot ?w = hw_slot w" "sema_refs ?w = sema_refs w" by (simp_all add: fun_eq_iff hw_slot_def sema_refs_def)
  then show "pool_inv own ?w pid q" using pool_invD[OF inv p] q unfolding pool_inv_def by metis
  show "own k = own k \<and> hw_slot ?w k = hw_slot w k \<and> sema_refs ?w k = sema_refs w k" for k using e by simp
  show "hw_inv own ?w" "semas_inv ?w" "finite (dom (w_semas ?w))"
    using inv by (auto simp: sema_inv_def hw_inv_def semas_inv_def sea_inv_def)
qed (use q in simp_all)

text \<open>A world in which one reference to \<open>pid\<close> has lost its holder: dropping it restores the
  invariant, and frees the pool when it was the last.\<close>

definition sema_inv_loose :: "(nat \<Rightarrow> nat) \<Rightarrow> sema_world \<Rightarrow> nat \<Rightarrow> bool" where
  "sema_inv_loose own w pid \<longleftrightarrow> sea_inv w \<and> hw_inv own w \<and> semas_inv w \<and>
     (\<forall>k p. k \<noteq> pid \<longrightarrow> w_pools w k = Some p \<longrightarrow> pool_inv own w k p) \<and>
     (\<exists>p. w_pools w pid = Some p \<and> slots (pool_semas_alloced p) 256 (hw_slot w pid) \<and>
        pool_ref p = Suc (own pid + card (sema_refs w pid)))"

lemma pool_free_inv:
  assumes sea: "sea_inv w" and hw: "hw_inv own w" and se: "semas_inv w" and own: "own pid = 0"
    and refs: "sema_refs w pid = {}" and p: "w_pools w pid = Some p"
    and oth: "\<And>k q. k \<noteq> pid \<Longrightarrow> w_pools w k = Some q \<Longrightarrow> pool_inv own w k q"
  shows "\<exists>w'. nvgpu_semaphore_pool_free pid w = Some w' \<and> sema_inv own w' \<and> w_semas w' = w_semas w \<and>
    w_pools w' = (w_pools w)(pid := None)"
proof -
  obtain sea where s: "w_sea w = Some sea" "slots (sea_pools_alloced sea) 512 (pool_slot w)"
    "sea_page_count sea = int (card (dom (w_pools w)))" "finite (dom (w_pools w))" "finite (dom (w_semas w))"
    using sea by (auto simp: sea_inv_def)
  have k: "pool_slot w pid = Some (pool_page_idx p)" using p by (simp add: pool_slot_def)
  obtain bits where b: "nvgpu_clear_bit (pool_page_idx p) (sea_pools_alloced sea) = Some bits"
    "slots bits 512 ((pool_slot w)(pid := None))" using slots_free[OF s(2) k] by blast
  define sea' where "sea' = sea\<lparr>sea_pool_list := removeAll pid (sea_pool_list sea), sea_pools_alloced := bits,
                 sea_page_count := sea_page_count sea - 1\<rparr>"
  define w' where "w' = w\<lparr>w_sea := Some sea', w_pools := (w_pools w)(pid := None)\<rparr>"
  have "wrap32 (pool_page_idx p) = pool_page_idx p" using slots_less[OF s(2) k] by simp
  then have free: "nvgpu_semaphore_pool_free pid w = Some w'"
    using p s(1) b(1) by (simp add: nvgpu_semaphore_pool_free_def Let_def w'_def sea'_def)
  have "slots bits 512 (pool_slot w')" by (rule slots_cong[OF b(2)]) (simp add: pool_slot_def w'_def)
  moreover have "card (dom (w_pools w)) = Suc (card (dom (w_pools w) - {pid}))"
    using s(4) p by (metis card.remove domI)
  ultimately have "sea_inv w'" using s by (simp add: sea_inv_def w'_def sea'_def)
  moreover have "pool_inv own w' k q" if "w_pools w' k = Some q" for k q
  proof -
    have "k \<noteq> pid" "w_pools w k = Some q" using that by (auto simp: w'_def split: if_splits)
    then show ?thesis by (intro pool_inv_cong[OF oth]) (auto simp: w'_def hw_slot_def sema_refs_def)
  qed
  moreover have "hw_inv own w'" using hw own by (fastforce simp: hw_inv_def w'_def)
  moreover have "semas_inv w'" using se refs by (fastforce simp: semas_inv_def sema_refs_def w'_def)
  ultimately show ?thesis using free by (auto simp: sema_inv_def w'_def)
qed

lemma pool_put_inv:
  assumes l: "sema_inv_loose own w pid"
  shows "\<exists>w'. nvgpu_semaphore_pool_put pid w = Some w' \<and> sema_inv own w' \<and> w_semas w' = w_semas w"
proof -
  obtain p where p: "w_pools w pid = Some p" "slots (pool_semas_alloced p) 256 (hw_slot w pid)"
    "pool_ref p = Suc (own pid + card (sema_refs w pid))" using l by (auto simp: sema_inv_loose_def)
  define q where "q = p\<lparr>pool_ref := pool_ref p - 1\<rparr>"
  define w1 where "w1 = w\<lparr>w_pools := (w_pools w)(pid \<mapsto> q)\<rparr>"
  have e: "pool_slot w1 = pool_slot w" "hw_slot w1 = hw_slot w" "sema_refs w1 = sema_refs w" "dom (w_pools w1) = dom (w_pools w)"
    using p(1) by (auto simp: fun_eq_iff pool_slot_def hw_slot_def sema_refs_def w1_def q_def)
  have inv1: "sea_inv w1" "hw_inv own w1" "semas_inv w1"
    using l e by (auto simp: sema_inv_loose_def sea_inv_def hw_inv_def semas_inv_def w1_def)
  have oth: "pool_inv own w1 k r" if "k \<noteq> pid" "w_pools w1 k = Some r" for k r
  proof -
    have "pool_inv own w k r" using l that by (simp add: sema_inv_loose_def w1_def)
    then show ?thesis by (rule pool_inv_cong) (simp_all add: e)
  qed
  have put: "nvgpu_semaphore_pool_put pid w = (if pool_ref q = 0 then nvgpu_semaphore_pool_free pid w1 else Some w1)"
    using p by (simp add: nvgpu_semaphore_pool_put_def Let_def w1_def q_def)
  show ?thesis
  proof (cases "pool_ref q = 0")
    case True
    have "finite (sema_refs w pid)" using l finite_sema_refs by (auto simp: sema_inv_loose_def sea_inv_def)
    then have z: "own pid = 0" "sema_refs w1 pid = {}" using True p(3) e(3) by (auto simp: q_def)
    have pq: "w_pools w1 pid = Some q" by (simp add: w1_def)
    obtain w' where "nvgpu_semaphore_pool_free pid w1 = Some w'" "sema_inv own w'" "w_semas w' = w_semas w1"
      using pool_free_inv[OF inv1 z pq oth] by blast
    then show ?thesis using put True by (simp add: w1_def)
  next
    case False
    then have "pool_inv own w1 pid q" using p e by (auto simp: pool_inv_def q_def)
    then have "sema_inv own w1" using inv1 oth by (auto simp: sema_inv_def w1_def)
    then show ?thesis using put False by (simp add: w1_def)
  qed
qed

lemma owner_put_inv:
  assumes inv: "sema_inv own w" and p: "w_pools w pid = Some p" and own: "0 < own pid"
    and hw: "own pid = 1 \<Longrightarrow> hw_slot w pid = Map.empty"
  shows "\<exists>w'. nvgpu_semaphore_pool_put pid w = Some w' \<and> sema_inv (own(pid := own pid - 1)) w'"
proof -
  let ?o = "own(pid := own pid - 1)"
  have "hw_inv ?o w" unfolding hw_inv_def
  proof (intro allI impI)
    fix h x
    assume h: "w_hw w h = Some x"
    have "own pid \<noteq> 1" if "loc_pool (hw_location x) = pid"
    proof
      assume "own pid = 1"
      then have "hw_slot w pid h = None" using hw by simp
      then show False using h that by (simp add: hw_slot_def)
    qed
    then have "0 < ?o (loc_pool (hw_location x))" using inv own h by (auto simp: sema_inv_def hw_inv_def)
    then show "loc_offset (hw_location x) mod 16 = 0 \<and> w_pools w (loc_pool (hw_location x)) \<noteq> None \<and>
        0 < ?o (loc_pool (hw_location x))" using inv h by (simp add: sema_inv_def hw_inv_def)
  qed
  moreover have "pool_inv ?o w k q" if "k \<noteq> pid" "w_pools w k = Some q" for k q
    using that by (intro pool_inv_cong[OF pool_invD[OF inv]]) auto
  moreover have "pool_inv own w pid p" by (rule pool_invD[OF inv p])
  ultimately have "sema_inv_loose ?o w pid"
    using inv p own by (auto simp: sema_inv_loose_def sema_inv_def pool_inv_def)
  then show ?thesis using pool_put_inv by blast
qed

lemma owner_get_inv:
  assumes inv: "sema_inv own w" and p: "w_pools w pid = Some p"
  shows "\<exists>w'. nvgpu_semaphore_pool_get pid w = Some w' \<and> sema_inv (own(pid := own pid + 1)) w'"
proof -
  let ?o = "own(pid := own pid + 1)"
  let ?w = "w\<lparr>w_pools := (w_pools w)(pid \<mapsto> p\<lparr>pool_ref := pool_ref p + 1\<rparr>)\<rparr>"
  have "sema_inv ?o ?w"
  proof (rule sema_inv_change[OF inv p])
    have e: "hw_slot ?w = hw_slot w" "sema_refs ?w = sema_refs w" by (simp_all add: fun_eq_iff hw_slot_def sema_refs_def)
    then show "pool_inv ?o ?w pid (p\<lparr>pool_ref := pool_ref p + 1\<rparr>)" using pool_invD[OF inv p] by (simp add: pool_inv_def)
    show "?o k = own k \<and> hw_slot ?w k = hw_slot w k \<and> sema_refs ?w k = sema_refs w k" if "k \<noteq> pid" for k using e that by simp
    show "hw_inv ?o ?w" "semas_inv ?w" "finite (dom (w_semas ?w))"
      using inv by (auto simp: sema_inv_def hw_inv_def semas_inv_def sea_inv_def)
  qed simp_all
  then show ?thesis using p by (simp add: nvgpu_semaphore_pool_get_def)
qed

text \<open>Hardware semaphores. When there is no memory for the object, the bit goes back.\<close>

lemma hw_init_nomem_inv:
  assumes inv: "sema_inv own w" and p: "w_pools w pid = Some p"
  shows "\<exists>e w'. nvgpu_hw_semaphore_init None pid chid w = Some (Inl e, w') \<and> sema_inv own w'"
proof -
  have sl: "slots (pool_semas_alloced p) 256 (hw_slot w pid)" using pool_invD[OF inv p] by (simp add: pool_inv_def)
  then have nb: "256 \<le> 64 * length (pool_semas_alloced p)" by (simp add: slots_def)
  from bitmap_alloc_cases[OF nb] show ?thesis
  proof
    assume "\<exists>i bits'. i < 256 \<and> \<not> tb (pool_semas_alloced p) i \<and> (\<forall>j<i. tb (pool_semas_alloced p) j) \<and>
      semaphore_bitmap_alloc (pool_semas_alloced p) 256 = Some (Inr i, bits') \<and>
      length bits' = length (pool_semas_alloced p) \<and> (\<forall>j. tb bits' j = (j = i \<or> tb (pool_semas_alloced p) j))"
    then obtain i bits' where i: "i < 256" "\<not> tb (pool_semas_alloced p) i"
      "semaphore_bitmap_alloc (pool_semas_alloced p) 256 = Some (Inr i, bits')"
      "length bits' = length (pool_semas_alloced p)" "\<forall>j. tb bits' j = (j = i \<or> tb (pool_semas_alloced p) j)" by blast
    obtain b2 where b2: "nvgpu_clear_bit i bits' = Some b2" "length b2 = length bits'" "\<forall>j. tb b2 j = (j \<noteq> i \<and> tb bits' j)"
      using nvgpu_clear_bit_correct[of i bits'] i nb by auto
    have "tb b2 j = tb (pool_semas_alloced p) j" for j using b2(3) i(2,5) by auto
    then have "slots b2 256 (hw_slot w pid)" using sl b2(2) i(4) by (simp add: slots_def)
    then have "sema_inv own (w\<lparr>w_pools := (w_pools w)(pid \<mapsto> p\<lparr>pool_semas_alloced := b2\<rparr>)\<rparr>)"
      by (intro pool_update_inv[OF inv p]) simp_all
    then show ?thesis using p i(3) b2(1) by (simp add: nvgpu_hw_semaphore_init_def)
  qed (use p inv in \<open>simp_all add: nvgpu_hw_semaphore_init_def\<close>)
qed

lemma hw_init_inv:
  assumes inv: "sema_inv own w" and p: "w_pools w pid = Some p" and own: "0 < own pid" and h: "w_hw w h = None"
  shows "\<not> pool_rw_mem p \<and> nvgpu_hw_semaphore_init (Some h) pid chid w = None \<or>
    (\<forall>i<256. tb (pool_semas_alloced p) i) \<and> nvgpu_hw_semaphore_init (Some h) pid chid w = Some (Inl ENOSPC, w) \<or>
    (\<exists>w'. nvgpu_hw_semaphore_init (Some h) pid chid w = Some (Inr h, w') \<and> sema_inv own w')"
proof -
  have sl: "slots (pool_semas_alloced p) 256 (hw_slot w pid)" using pool_invD[OF inv p] by (simp add: pool_inv_def)
  have k: "hw_slot w pid h = None" using h by (simp add: hw_slot_def)
  obtain sea where sea: "w_sea w = Some sea" using inv by (auto simp: sema_inv_def sea_inv_def)
  from slots_alloc[OF sl _ k] show ?thesis
  proof
    assume "\<exists>i bits'. i < 256 \<and> semaphore_bitmap_alloc (pool_semas_alloced p) 256 = Some (Inr i, bits') \<and>
      length bits' = length (pool_semas_alloced p) \<and> i \<notin> ran (hw_slot w pid) \<and>
      slots bits' 256 ((hw_slot w pid)(h \<mapsto> i)) \<and> (\<forall>j. tb bits' j = (j = i \<or> tb (pool_semas_alloced p) j))"
    then obtain i bits' where i: "semaphore_bitmap_alloc (pool_semas_alloced p) 256 = Some (Inr i, bits')"
      "slots bits' 256 ((hw_slot w pid)(h \<mapsto> i))" by blast
    define q where "q = p\<lparr>pool_semas_alloced := bits'\<rparr>"
    define l where "l = \<lparr>loc_pool = pid, loc_offset = 16 * i\<rparr>"
    define w' where "w' = w\<lparr>w_pools := (w_pools w)(pid \<mapsto> q), w_hw := (w_hw w)(h \<mapsto>
        \<lparr>hw_location = l, hw_next_value = sea_mem sea (loc_addr q (16 * i)), hw_chid = chid\<rparr>)\<rparr>"
    have init: "nvgpu_hw_semaphore_init (Some h) pid chid w = (if pool_rw_mem p then Some (Inr h, w') else None)"
      using p i(1) sea by (simp add: nvgpu_hw_semaphore_init_def loc_read_def Let_def w'_def q_def l_def)
    have hs: "hw_slot w' k = (if k = pid then (hw_slot w pid)(h \<mapsto> i) else hw_slot w k)" for k
      using h by (auto simp: fun_eq_iff hw_slot_def w'_def l_def)
    have sr: "sema_refs w' = sema_refs w" by (simp add: fun_eq_iff sema_refs_def w'_def)
    have "sema_inv own w'"
    proof (rule sema_inv_change[OF inv p, of w' q])
      show "pool_inv own w' pid q" using pool_invD[OF inv p] i(2) by (simp add: pool_inv_def hs sr q_def)
      show "hw_inv own w'" using inv own p by (auto simp: sema_inv_def hw_inv_def w'_def l_def)
      show "semas_inv w'" "finite (dom (w_semas w'))" using inv p by (auto simp: sema_inv_def semas_inv_def sea_inv_def w'_def)
    qed (simp_all add: hs sr, simp_all add: w'_def q_def)
    then show ?thesis using init by (cases "pool_rw_mem p") auto
  qed (use p in \<open>simp_all add: nvgpu_hw_semaphore_init_def\<close>)
qed

lemma hw_free_inv:
  assumes inv: "sema_inv own w" and h: "w_hw w h = Some hw"
  shows "\<exists>w'. nvgpu_hw_semaphore_free h w = Some w' \<and> sema_inv own w' \<and> w_hw w' = (w_hw w)(h := None)"
proof -
  define pid where "pid = loc_pool (hw_location hw)"
  obtain p where p: "w_pools w pid = Some p" using inv h by (fastforce simp: sema_inv_def hw_inv_def pid_def)
  have sl: "slots (pool_semas_alloced p) 256 (hw_slot w pid)" using pool_invD[OF inv p] by (simp add: pool_inv_def)
  have k: "hw_slot w pid h = Some (loc_offset (hw_location hw) div 16)" using h by (simp add: hw_slot_def pid_def)
  obtain bits where b: "nvgpu_clear_bit (loc_offset (hw_location hw) div 16) (pool_semas_alloced p) = Some bits"
    "slots bits 256 ((hw_slot w pid)(h := None))" using slots_free[OF sl k] by blast
  define q where "q = p\<lparr>pool_semas_alloced := bits\<rparr>"
  define w' where "w' = w\<lparr>w_pools := (w_pools w)(pid \<mapsto> q), w_hw := (w_hw w)(h := None)\<rparr>"
  have free: "nvgpu_hw_semaphore_free h w = Some w'"
    using h p b(1) by (simp add: nvgpu_hw_semaphore_free_def Let_def w'_def q_def pid_def)
  have hs: "hw_slot w' k = (if k = pid then (hw_slot w pid)(h := None) else hw_slot w k)" for k
    using h by (auto simp: fun_eq_iff hw_slot_def w'_def pid_def)
  have sr: "sema_refs w' = sema_refs w" by (simp add: fun_eq_iff sema_refs_def w'_def)
  have "sema_inv own w'"
  proof (rule sema_inv_change[OF inv p, of w' q])
    show "pool_inv own w' pid q" using pool_invD[OF inv p] b(2) by (simp add: pool_inv_def hs sr q_def)
    show "hw_inv own w'" "semas_inv w'" "finite (dom (w_semas w'))"
      using inv by (auto simp: sema_inv_def hw_inv_def semas_inv_def sea_inv_def w'_def)
  qed (simp_all add: hs sr, simp_all add: w'_def q_def)
  then show ?thesis using free by (auto simp: w'_def)
qed

text \<open>Semaphores.\<close>

lemma sema_refs_insert:
  "w_semas w s = None \<Longrightarrow> sema_refs (w\<lparr>w_semas := (w_semas w)(s \<mapsto> x)\<rparr>) pid =
     (if loc_pool (sema_location x) = pid then insert s (sema_refs w pid) else sema_refs w pid)"
  by (auto simp: sema_refs_def)

lemma sema_alloc_inv:
  assumes inv: "sema_inv own w" and h: "w_hw w h = Some hw" and s: "w_semas w s = None"
  shows "\<exists>w'. nvgpu_semaphore_alloc (Some s) h w = Some (Some s, w') \<and> sema_inv own w'"
proof -
  define pid where "pid = loc_pool (hw_location hw)"
  define x where "x = \<lparr>sema_location = hw_location hw, sema_value = 0, sema_ready_to_wait = False, sema_ref = 1\<rparr>"
  obtain p where p: "w_pools w pid = Some p" using inv h by (fastforce simp: sema_inv_def hw_inv_def pid_def)
  define q where "q = p\<lparr>pool_ref := pool_ref p + 1\<rparr>"
  define w' where "w' = w\<lparr>w_semas := (w_semas w)(s \<mapsto> x), w_pools := (w_pools w)(pid \<mapsto> q)\<rparr>"
  have al: "nvgpu_semaphore_alloc (Some s) h w = Some (Some s, w')"
    using h p by (simp add: nvgpu_semaphore_alloc_def nvgpu_semaphore_pool_get_def Let_def w'_def x_def q_def pid_def)
  have hs: "hw_slot w' = hw_slot w" by (simp add: fun_eq_iff hw_slot_def w'_def)
  have sr: "sema_refs w' k = (if k = pid then insert s (sema_refs w pid) else sema_refs w k)" for k
    using s by (auto simp: sema_refs_def w'_def x_def pid_def)
  have fin: "finite (dom (w_semas w))" using inv by (simp add: sema_inv_def sea_inv_def)
  have "s \<notin> sema_refs w pid" using s by (simp add: sema_refs_def)
  then have c: "card (sema_refs w' pid) = Suc (card (sema_refs w pid))" using finite_sema_refs[OF fin] by (simp add: sr)
  have "sema_inv own w'"
  proof (rule sema_inv_change[OF inv p, of w' q])
    show "pool_inv own w' pid q" using pool_invD[OF inv p] c by (simp add: pool_inv_def hs q_def)
    show "hw_inv own w'" "semas_inv w'" "finite (dom (w_semas w'))"
      using inv fin p by (auto simp: sema_inv_def hw_inv_def semas_inv_def sea_inv_def w'_def x_def pid_def)
  qed (simp_all add: hs sr, simp_all add: w'_def q_def)
  then show ?thesis using al by blast
qed

text \<open>A change of a semaphore that keeps where it points to.\<close>

lemma sema_update_inv:
  assumes inv: "sema_inv own w" and s: "w_semas w s = Some x"
    and y: "sema_location y = sema_location x" "0 < sema_ref y"
  shows "sema_inv own (w\<lparr>w_semas := (w_semas w)(s \<mapsto> y)\<rparr>)"
proof -
  let ?w = "w\<lparr>w_semas := (w_semas w)(s \<mapsto> y)\<rparr>"
  have e: "hw_slot ?w = hw_slot w" "pool_slot ?w = pool_slot w" "sema_refs ?w = sema_refs w" "dom (w_semas ?w) = dom (w_semas w)"
    using s y by (auto simp: fun_eq_iff hw_slot_def pool_slot_def sema_refs_def)
  have "pool_inv own ?w k p" if "w_pools ?w k = Some p" for k p
    using that by (intro pool_inv_cong[OF pool_invD[OF inv, of k p]]) (simp_all add: e)
  moreover have "sea_inv ?w" "hw_inv own ?w" "semas_inv ?w"
    using inv s y e by (auto simp: sema_inv_def sea_inv_def hw_inv_def semas_inv_def)
  ultimately show ?thesis by (simp add: sema_inv_def)
qed

lemma pool_put_semas:
  "nvgpu_semaphore_pool_put pid (w\<lparr>w_semas := S\<rparr>) =
     map_option (\<lambda>w. w\<lparr>w_semas := S\<rparr>) (nvgpu_semaphore_pool_put pid w)"
  by (cases "w_pools w pid"; cases "w_sea w")
    (auto simp: nvgpu_semaphore_pool_put_def nvgpu_semaphore_pool_free_def Let_def nvgpu_assert_def
      split: option.splits bind_splits)

lemma sema_put_inv:
  assumes inv: "sema_inv own w" and s: "w_semas w s = Some x"
  shows "\<exists>w'. nvgpu_semaphore_put s w = Some w' \<and> sema_inv own w' \<and>
    (w_semas w' s = None \<longleftrightarrow> sema_ref x = 1) \<and> (\<forall>t. t \<noteq> s \<longrightarrow> w_semas w' t = w_semas w t)"
proof (cases "sema_ref x = 1")
  case False
  have pos: "0 < sema_ref x" using inv s by (auto simp: sema_inv_def semas_inv_def)
  then have "sema_inv own (w\<lparr>w_semas := (w_semas w)(s \<mapsto> x\<lparr>sema_ref := sema_ref x - 1\<rparr>)\<rparr>)"
    using False by (intro sema_update_inv[OF inv s]) auto
  then show ?thesis using s pos False by (simp add: nvgpu_semaphore_put_def Let_def)
next
  case True
  define pid where "pid = loc_pool (sema_location x)"
  define w1 where "w1 = w\<lparr>w_semas := (w_semas w)(s := None)\<rparr>"
  have fin: "finite (dom (w_semas w))" using inv by (simp add: sema_inv_def sea_inv_def)
  have e: "hw_slot w1 = hw_slot w" "pool_slot w1 = pool_slot w" by (simp_all add: fun_eq_iff hw_slot_def pool_slot_def w1_def)
  have sr: "sema_refs w1 k = (if k = pid then sema_refs w pid - {s} else sema_refs w k)" for k
    using s by (auto simp: sema_refs_def w1_def pid_def)
  have "s \<in> sema_refs w pid" using s by (simp add: sema_refs_def pid_def)
  then have c: "card (sema_refs w pid) = Suc (card (sema_refs w1 pid))"
    using card.remove[OF finite_sema_refs[OF fin], of s pid] by (simp add: sr)
  obtain p where p: "w_pools w pid = Some p" using inv s by (fastforce simp: sema_inv_def semas_inv_def pid_def)
  have oth: "pool_inv own w1 k r" if "k \<noteq> pid" "w_pools w1 k = Some r" for k r
    using that by (intro pool_inv_cong[OF pool_invD[OF inv, of k r]]) (simp_all add: e sr, simp_all add: w1_def)
  have "sea_inv w1" "hw_inv own w1" "semas_inv w1"
    using inv e fin by (auto simp: sema_inv_def sea_inv_def hw_inv_def semas_inv_def w1_def)
  moreover have "w_pools w1 pid = Some p" "slots (pool_semas_alloced p) 256 (hw_slot w1 pid)"
    "pool_ref p = Suc (own pid + card (sema_refs w1 pid))"
    using p pool_invD[OF inv p] c by (simp_all add: pool_inv_def e, simp add: w1_def)
  ultimately have "sema_inv_loose own w1 pid" using oth by (simp add: sema_inv_loose_def)
  then obtain w' where w': "nvgpu_semaphore_pool_put pid w1 = Some w'" "sema_inv own w'" "w_semas w' = w_semas w1"
    using pool_put_inv by blast
  obtain w2 where w2: "nvgpu_semaphore_pool_put pid w = Some w2" "w' = w2\<lparr>w_semas := (w_semas w)(s := None)\<rparr>"
    using w'(1) by (auto simp: w1_def pool_put_semas)
  have "nvgpu_semaphore_put s w = Some w'"
    unfolding w2(2) using s True w2(1)
    by (simp add: nvgpu_semaphore_put_def nvgpu_semaphore_free_def Let_def pool_put_semas pid_def)
  then show ?thesis using w'(2,3) True by (simp add: w1_def)
qed

section \<open>Isolation\<close>

lemma slot_ranges_disjoint:
  assumes "i < 256" "j < 256" "(a, i) \<noteq> (b, (j::nat))"
  shows "ranges_disjoint (4096 * a + 16 * i) (4096 * a + 16 * i + 16) (4096 * b + 16 * j) (4096 * b + 16 * j + 16)"
proof (cases a b rule: linorder_cases)
  case less
  then have "4096 * a + 4096 \<le> 4096 * b" by simp
  then show ?thesis using assms(1) by (simp add: ranges_disjoint_def)
next
  case greater
  then have "4096 * b + 4096 \<le> 4096 * a" by simp
  then show ?thesis using assms(2) by (simp add: ranges_disjoint_def)
next
  case equal
  then have "i < j \<or> j < i" using assms(3) by auto
  then show ?thesis using equal by (auto simp: ranges_disjoint_def)
qed

lemma hw_disjoint:
  assumes inv: "sema_inv own w" and h: "w_hw w h1 = Some x1" "w_hw w h2 = Some x2" "h1 \<noteq> h2"
  shows "\<exists>p1 p2. w_pools w (loc_pool (hw_location x1)) = Some p1 \<and> w_pools w (loc_pool (hw_location x2)) = Some p2 \<and>
    ranges_disjoint (loc_addr p1 (loc_offset (hw_location x1))) (loc_addr p1 (loc_offset (hw_location x1)) + 16)
      (loc_addr p2 (loc_offset (hw_location x2))) (loc_addr p2 (loc_offset (hw_location x2)) + 16)"
proof -
  define a b where "a = loc_pool (hw_location x1)" and "b = loc_pool (hw_location x2)"
  define i j where "i = loc_offset (hw_location x1) div 16" and "j = loc_offset (hw_location x2) div 16"
  have hw: "hw_inv own w" using inv by (simp add: sema_inv_def)
  then have o: "loc_offset (hw_location x1) = 16 * i" "loc_offset (hw_location x2) = 16 * j"
    using h unfolding i_def j_def hw_inv_def by fastforce+
  obtain p1 where p1: "w_pools w a = Some p1" using hw h(1) unfolding a_def hw_inv_def by fastforce
  obtain p2 where p2: "w_pools w b = Some p2" using hw h(2) unfolding b_def hw_inv_def by fastforce
  note p = p1 p2
  have s: "hw_slot w a h1 = Some i" "hw_slot w b h2 = Some j" using h by (simp_all add: hw_slot_def a_def b_def i_def j_def)
  have sl: "slots (pool_semas_alloced p1) 256 (hw_slot w a)" "slots (pool_semas_alloced p2) 256 (hw_slot w b)"
    using pool_invD[OF inv p(1)] pool_invD[OF inv p(2)] by (simp_all add: pool_inv_def)
  obtain sea :: nvgpu_semaphore_sea where sea: "slots (sea_pools_alloced sea) 512 (pool_slot w)"
    using inv by (auto simp: sema_inv_def sea_inv_def)
  have "a = b" if "pool_page_idx p1 = pool_page_idx p2"
    using slots_distinct[OF sea, of a "pool_page_idx p1" b] p that by (simp add: pool_slot_def)
  then have "(pool_page_idx p1, i) \<noteq> (pool_page_idx p2, j)"
    using slots_distinct[OF sl(1), of h1 i h2] s h(3) by auto
  then have "ranges_disjoint (4096 * pool_page_idx p1 + 16 * i) (4096 * pool_page_idx p1 + 16 * i + 16)
      (4096 * pool_page_idx p2 + 16 * j) (4096 * pool_page_idx p2 + 16 * j + 16)"
    using slots_less[OF sl(1) s(1)] slots_less[OF sl(2) s(2)] by (intro slot_ranges_disjoint)
  then show ?thesis using p unfolding a_def b_def by (simp add: loc_addr_def o)
qed

section \<open>All sequences of operations\<close>

lemma hw_update_inv:
  assumes inv: "sema_inv own w" and h: "w_hw w h = Some x" and y: "hw_location y = hw_location x"
  shows "sema_inv own (w\<lparr>w_hw := (w_hw w)(h \<mapsto> y)\<rparr>)"
proof -
  let ?w = "w\<lparr>w_hw := (w_hw w)(h \<mapsto> y)\<rparr>"
  have e: "hw_slot ?w = hw_slot w" "pool_slot ?w = pool_slot w" "sema_refs ?w = sema_refs w"
    using h y by (auto simp: fun_eq_iff hw_slot_def pool_slot_def sema_refs_def)
  have "pool_inv own ?w k p" if "w_pools ?w k = Some p" for k p
    using that by (intro pool_inv_cong[OF pool_invD[OF inv, of k p]]) (simp_all add: e)
  moreover have "sea_inv ?w" "hw_inv own ?w" "semas_inv ?w"
    using inv h y e by (auto simp: sema_inv_def sea_inv_def hw_inv_def semas_inv_def)
  ultimately show ?thesis by (simp add: sema_inv_def)
qed

lemma mem_update_inv:
  assumes inv: "sema_inv own w" and s: "w_sea w = Some sea"
  shows "sema_inv own (w\<lparr>w_sea := Some (sea\<lparr>sea_mem := m\<rparr>)\<rparr>)"
proof -
  let ?w = "w\<lparr>w_sea := Some (sea\<lparr>sea_mem := m\<rparr>)\<rparr>"
  have e: "hw_slot ?w = hw_slot w" "pool_slot ?w = pool_slot w" "sema_refs ?w = sema_refs w"
    by (auto simp: fun_eq_iff hw_slot_def pool_slot_def sema_refs_def)
  have "pool_inv own ?w k p" if "w_pools ?w k = Some p" for k p
    using that by (intro pool_inv_cong[OF pool_invD[OF inv, of k p]]) (simp_all add: e)
  moreover have "sea_inv ?w" "hw_inv own ?w" "semas_inv ?w"
    using inv s e by (auto simp: sema_inv_def sea_inv_def hw_inv_def semas_inv_def)
  ultimately show ?thesis by (simp add: sema_inv_def)
qed

lemma loc_write_inv: "sema_inv own w \<Longrightarrow> loc_write w l v = Some w' \<Longrightarrow> sema_inv own w'"
  by (auto simp: loc_write_def bind_eq_Some_conv split: if_splits intro: mem_update_inv)

text \<open>The steps of the driver, with the number of owners of each pool, and of the GPU, which writes
  the location of a hardware semaphore. An address space gives its pool up only after the
  channels in it have freed their hardware semaphores.\<close>

inductive sema_step :: "(nat \<Rightarrow> nat) \<times> sema_world \<Rightarrow> (nat \<Rightarrow> nat) \<times> sema_world \<Rightarrow> bool" where
  Pool_alloc: "w_pools w p = None \<Longrightarrow> nvgpu_semaphore_pool_alloc (Some p) w = Some (Inr p, w') \<Longrightarrow>
     sema_step (own, w) (own(p := 1), w')"
| Pool_alloc_fail: "(case addr of None \<Rightarrow> True | Some p \<Rightarrow> w_pools w p = None) \<Longrightarrow>
     nvgpu_semaphore_pool_alloc addr w = Some (Inl e, w') \<Longrightarrow> sema_step (own, w) (own, w')"
| Owner_get: "nvgpu_semaphore_pool_get pid w = Some w' \<Longrightarrow> sema_step (own, w) (own(pid := own pid + 1), w')"
| Owner_put: "0 < own pid \<Longrightarrow> (own pid = 1 \<Longrightarrow> hw_slot w pid = Map.empty) \<Longrightarrow>
     nvgpu_semaphore_pool_put pid w = Some w' \<Longrightarrow> sema_step (own, w) (own(pid := own pid - 1), w')"
| Pool_map: "nvgpu_semaphore_pool_map ro create rw pid w = Some (r, w') \<Longrightarrow> sema_step (own, w) (own, w')"
| Pool_unmap: "nvgpu_semaphore_pool_unmap pid w = Some w' \<Longrightarrow> sema_step (own, w) (own, w')"
| Hw_init: "0 < own pid \<Longrightarrow> (case addr of None \<Rightarrow> True | Some h \<Rightarrow> w_hw w h = None) \<Longrightarrow>
     nvgpu_hw_semaphore_init addr pid chid w = Some (r, w') \<Longrightarrow> sema_step (own, w) (own, w')"
| Hw_free: "nvgpu_hw_semaphore_free h w = Some w' \<Longrightarrow> sema_step (own, w) (own, w')"
| Hw_update_next: "nvgpu_hw_semaphore_update_next h w = Some (n, w') \<Longrightarrow> sema_step (own, w) (own, w')"
| Hw_reset: "nvgpu_hw_semaphore_reset h w = Some (b, w') \<Longrightarrow> sema_step (own, w) (own, w')"
| Gpu_write: "w_hw w h = Some hw \<Longrightarrow> loc_write w (hw_location hw) v = Some w' \<Longrightarrow> sema_step (own, w) (own, w')"
| Sema_alloc: "(case addr of None \<Rightarrow> True | Some s \<Rightarrow> w_semas w s = None) \<Longrightarrow>
     nvgpu_semaphore_alloc addr h w = Some (r, w') \<Longrightarrow> sema_step (own, w) (own, w')"
| Sema_get: "nvgpu_semaphore_get s w = Some w' \<Longrightarrow> sema_step (own, w) (own, w')"
| Sema_put: "nvgpu_semaphore_put s w = Some w' \<Longrightarrow> sema_step (own, w) (own, w')"
| Sema_prepare: "nvgpu_semaphore_prepare s h w = Some w' \<Longrightarrow> sema_step (own, w) (own, w')"

lemma pool_map_inv:
  assumes inv: "sema_inv own w" and m: "nvgpu_semaphore_pool_map ro create rw pid w = Some (r, w')"
  shows "sema_inv own w'"
proof -
  obtain p where p: "w_pools w pid = Some p" using m by (auto simp: nvgpu_semaphore_pool_map_def bind_eq_Some_conv)
  have sl: "slots (pool_semas_alloced p) 256 (hw_slot w pid)" using pool_invD[OF inv p] by (simp add: pool_inv_def)
  have u: "sema_inv own (w\<lparr>w_pools := (w_pools w)(pid \<mapsto> q)\<rparr>)"
    if "pool_page_idx q = pool_page_idx p" "pool_ref q = pool_ref p" "pool_semas_alloced q = pool_semas_alloced p" for q
    using pool_update_inv[OF inv p, of q] sl that by simp
  show ?thesis using m p inv u
    by (auto simp: nvgpu_semaphore_pool_map_def Let_def split: if_splits option.splits)
qed

lemma sema_step_inv: "sema_step x y \<Longrightarrow> sema_inv (fst x) (snd x) \<Longrightarrow> sema_inv (fst y) (snd y)"
proof (induction rule: sema_step.induct)
  case (Pool_alloc w p w' own)
  then show ?case using pool_alloc_inv[of own w p] by (auto simp: fun_upd_def)
next
  case (Pool_alloc_fail addr w e w' own)
  show ?case
  proof (cases addr)
    case None
    then show ?thesis using Pool_alloc_fail by (auto simp: nvgpu_semaphore_pool_alloc_def bind_eq_Some_conv)
  next
    case (Some p)
    then show ?thesis using Pool_alloc_fail pool_alloc_inv[of own w p] by auto
  qed
next
  case (Owner_get pid w w' own)
  then obtain p where "w_pools w pid = Some p" by (auto simp: nvgpu_semaphore_pool_get_def bind_eq_Some_conv)
  then show ?case using owner_get_inv[of own w pid p] Owner_get by (auto simp: fun_upd_def)
next
  case (Owner_put own pid w w')
  then obtain p where "w_pools w pid = Some p" by (auto simp: nvgpu_semaphore_pool_put_def bind_eq_Some_conv)
  then show ?case using owner_put_inv[of own w pid] Owner_put by (auto simp: fun_upd_def)
next
  case (Pool_map ro create rw pid w r w' own)
  then show ?case using pool_map_inv by auto
next
  case (Pool_unmap pid w w' own)
  then obtain p where p: "w_pools w pid = Some p" by (auto simp: nvgpu_semaphore_pool_unmap_def bind_eq_Some_conv)
  then show ?case using pool_update_inv[of own w pid p] Pool_unmap pool_invD[of own w pid p]
    by (auto simp: nvgpu_semaphore_pool_unmap_def pool_inv_def)
next
  case (Hw_init own pid addr w chid r w')
  then obtain p where "w_pools w pid = Some p" by (auto simp: nvgpu_hw_semaphore_init_def bind_eq_Some_conv)
  then show ?case using hw_init_nomem_inv[of own w pid p chid] hw_init_inv[of own w pid p "the addr" chid] Hw_init
    by (cases addr) auto
next
  case (Hw_free h w w' own)
  then obtain hw where "w_hw w h = Some hw" by (auto simp: nvgpu_hw_semaphore_free_def bind_eq_Some_conv)
  then show ?case using hw_free_inv Hw_free by fastforce
next
  case (Hw_update_next h w n w' own)
  then show ?case by (auto simp: nvgpu_hw_semaphore_update_next_def bind_eq_Some_conv Let_def intro: hw_update_inv)
next
  case (Hw_reset h w b w' own)
  then show ?case
    by (auto simp: nvgpu_hw_semaphore_reset_def bind_eq_Some_conv Let_def intro: loc_write_inv split: if_splits)
next
  case (Gpu_write w h hw v w' own)
  then show ?case by (auto intro: loc_write_inv)
next
  case (Sema_alloc addr w h r w' own)
  then obtain hw where "w_hw w h = Some hw" by (auto simp: nvgpu_semaphore_alloc_def bind_eq_Some_conv)
  then show ?case using sema_alloc_inv[of own w h hw "the addr"] Sema_alloc
    by (cases addr) (auto simp: nvgpu_semaphore_alloc_def[of None])
next
  case (Sema_get s w w' own)
  then show ?case by (auto simp: nvgpu_semaphore_get_def bind_eq_Some_conv intro!: sema_update_inv)
next
  case (Sema_put s w w' own)
  then obtain x where "w_semas w s = Some x" by (auto simp: nvgpu_semaphore_put_def bind_eq_Some_conv)
  then show ?case using sema_put_inv Sema_put by fastforce
next
  case (Sema_prepare s h w w' own)
  then obtain x where x: "w_semas w s = Some x" by (auto simp: nvgpu_semaphore_prepare_def bind_eq_Some_conv)
  moreover have "0 < sema_ref x" using x Sema_prepare by (auto simp: sema_inv_def semas_inv_def)
  ultimately show ?case using Sema_prepare
    by (auto simp: nvgpu_semaphore_prepare_def bind_eq_Some_conv Let_def intro!: sema_update_inv)
qed

lemma sema_reachable_inv: "sema_step\<^sup>*\<^sup>* x y \<Longrightarrow> sema_inv (fst x) (snd x) \<Longrightarrow> sema_inv (fst y) (snd y)"
  by (induction rule: rtranclp_induct) (auto intro: sema_step_inv)

section \<open>Counters that wrap around\<close>

lemma wsub32_wrap: "b \<le> a \<Longrightarrow> wsub32 (wrap32 a) (wrap32 b) = (a - b) mod 2 ^ 32"
proof -
  assume "b \<le> a"
  then obtain d where d: "a = b + d" using le_Suc_ex by blast
  define n where "n = (2::nat) ^ 32"
  have "b mod n \<le> n" unfolding n_def by simp
  then have e: "b + (n - b mod n) = n * (1 + b div n)"
    using mult_div_mod_eq[of n b] unfolding distrib_left by linarith
  have "wsub32 (wrap32 a) (wrap32 b) = ((b + d) mod n + (n - b mod n)) mod n"
    unfolding wsub32_def wrap32_def d n_def by simp
  also have "\<dots> = (d + (b + (n - b mod n))) mod n" unfolding mod_add_left_eq by (simp add: ac_simps)
  also have "\<dots> = d mod n" unfolding e by (rule mod_mult_self2)
  finally show ?thesis by (simp add: d n_def)
qed

lemma value_released_ahead: "V \<le> M \<Longrightarrow> M < V + 2 ^ 31 \<Longrightarrow> nvgpu_semaphore_value_released (wrap32 V) (wrap32 M)"
  by (simp add: nvgpu_semaphore_value_released_def wsub32_wrap)

lemma value_released_behind:
  assumes "M < V" "V \<le> M + 2 ^ 31"
  shows "\<not> nvgpu_semaphore_value_released (wrap32 V) (wrap32 M)"
proof -
  have w: "wrap32 M = wrap32 (M + 2 ^ 32)" by (simp add: wrap32_def)
  have "wsub32 (wrap32 (M + 2 ^ 32)) (wrap32 V) = (M + 2 ^ 32 - V) mod 2 ^ 32" using assms by (intro wsub32_wrap) simp
  also have "\<dots> = M + 2 ^ 32 - V" using assms by simp
  finally show ?thesis using assms unfolding nvgpu_semaphore_value_released_def w by simp
qed

section \<open>Properties\<close>

text \<open>C31: The released test is exact across the wrap-around of the 32-bit counter: for a threshold
  \<open>V\<close> and a count \<open>M\<close> of increments that are less than half the range apart, the
  semaphore counts as released exactly when the count has reached the threshold.\<close>

theorem semaphore_value_released_wraparound:
  assumes "M < V + 2 ^ 31" "V \<le> M + 2 ^ 31"
  shows "nvgpu_semaphore_value_released (V mod 2 ^ 32) (M mod 2 ^ 32) \<longleftrightarrow> V \<le> M"
  using value_released_ahead[of V M] value_released_behind[of M V] assms unfolding wrap32_def by fastforce

theorem semaphore_value_released_wraparound_witness:
  "nvgpu_semaphore_value_released 4294967290 3 \<and> \<not> nvgpu_semaphore_value_released 3 4294967290"
  using semaphore_value_released_wraparound[of 4294967299 4294967290]
    semaphore_value_released_wraparound[of 4294967290 4294967299] by simp

text \<open>C28: In every state the driver can reach from a new sea, whichever allocations fail, two hardware
  semaphores never share a byte of the sea, the pool a semaphore points to is alive, and the page
  count is the number of live pools.\<close>

theorem semaphores_isolated:
  assumes "nvgpu_semaphore_sea_create True None
      \<lparr>w_sea = None, w_pools = Map.empty, w_hw = Map.empty, w_semas = Map.empty\<rparr> = (True, w0)"
    and "sema_step\<^sup>*\<^sup>* (own0, w0) (own, w)"
  shows "(\<forall>h1 h2 x1 x2. w_hw w h1 = Some x1 \<and> w_hw w h2 = Some x2 \<and> h1 \<noteq> h2 \<longrightarrow>
      (\<exists>p1 p2. w_pools w (loc_pool (hw_location x1)) = Some p1 \<and> w_pools w (loc_pool (hw_location x2)) = Some p2 \<and>
        ranges_disjoint (loc_addr p1 (loc_offset (hw_location x1))) (loc_addr p1 (loc_offset (hw_location x1)) + 16)
          (loc_addr p2 (loc_offset (hw_location x2))) (loc_addr p2 (loc_offset (hw_location x2)) + 16))) \<and>
    (\<forall>s x. w_semas w s = Some x \<longrightarrow> w_pools w (loc_pool (sema_location x)) \<noteq> None) \<and>
    (\<exists>sea. w_sea w = Some sea \<and> sea_page_count sea = int (card (dom (w_pools w))))"
proof -
  have inv: "sema_inv own w" using sema_reachable_inv[OF assms(2)] sea_create_inv[OF assms(1)] by simp
  show ?thesis using hw_disjoint[OF inv] inv by (auto simp: sema_inv_def semas_inv_def sea_inv_def)
qed

text \<open>A run: a pool is allocated and mapped, two channels get a hardware semaphore each.\<close>

lemma first_zero_bit:
  assumes "n \<le> 64 * length m" "n \<le> U64_MAX" "k < n" "\<not> tb m k" "\<forall>i<k. tb m i"
  shows "find_first_zero_bit m n = Some k"
proof -
  obtain r where r: "find_first_zero_bit m n = Some r" "first_from (\<lambda>i. \<not> tb m i) 0 n r" using find_first_zero_bit_correct[OF assms(1,2)] by blast
  have "r = k" using r(2) assms(3-5) unfolding first_from_def by (metis le0 less_or_eq_imp_le linorder_cases nat_less_le)
  then show ?thesis using r(1) by simp
qed

lemma sample_bits:
  "semaphore_bitmap_alloc (replicate 8 0) 512 = Some (Inr 0, 1 # replicate 7 0)"
  "semaphore_bitmap_alloc (replicate 4 0) 256 = Some (Inr 0, 1 # replicate 3 0)"
  "semaphore_bitmap_alloc (1 # replicate 3 0) 256 = Some (Inr 1, 3 # replicate 3 0)"
proof -
  have "find_first_zero_bit (replicate 8 0) 512 = Some 0" "find_first_zero_bit (replicate 4 0) 256 = Some 0"
    by (rule first_zero_bit; simp add: tb_def)+
  moreover have "find_first_zero_bit (1 # replicate 3 0) 256 = Some 1" by (rule first_zero_bit) (simp_all add: tb_def)
  moreover have "replicate 8 (0::ulong) = 0 # replicate 7 0" "replicate 4 (0::ulong) = 0 # replicate 3 0"
    using replicate_Suc[of 7 "0::ulong"] replicate_Suc[of 3 "0::ulong"] by simp_all
  ultimately show "semaphore_bitmap_alloc (replicate 8 0) 512 = Some (Inr 0, 1 # replicate 7 0)"
    "semaphore_bitmap_alloc (replicate 4 0) 256 = Some (Inr 0, 1 # replicate 3 0)"
    "semaphore_bitmap_alloc (1 # replicate 3 0) 256 = Some (Inr 1, 3 # replicate 3 0)"
    by (simp_all add: semaphore_bitmap_alloc_def nvgpu_set_bit_def load_def store_def get_index_def get_mask_def wrap32_def)
qed

lemma sample_sema_run:
  "\<exists>w0 own w x1 x2. nvgpu_semaphore_sea_create True None
      \<lparr>w_sea = None, w_pools = Map.empty, w_hw = Map.empty, w_semas = Map.empty\<rparr> = (True, w0) \<and> sema_step\<^sup>*\<^sup>* (\<lambda>_. 0, w0) (own, w) \<and>
     w_hw w 2 = Some x1 \<and> w_hw w 3 = Some x2 \<and> hw_location x1 = \<lparr>loc_pool = 1, loc_offset = 0\<rparr> \<and> hw_location x2 = \<lparr>loc_pool = 1, loc_offset = 16\<rparr>"
proof -
  obtain w0 sea where w0: "nvgpu_semaphore_sea_create True None
      \<lparr>w_sea = None, w_pools = Map.empty, w_hw = Map.empty, w_semas = Map.empty\<rparr> = (True, w0)" "w_sea w0 = Some sea" "w_pools w0 = Map.empty" "w_hw w0 = Map.empty"
    "sea_pools_alloced sea = replicate 8 0"
    by (simp add: nvgpu_semaphore_sea_create_def semaphore_sea_grow_def Let_def)
  obtain w1 p1 where w1: "nvgpu_semaphore_pool_alloc (Some 1) w0 = Some (Inr 1, w1)" "w_pools w1 1 = Some p1" "pool_semas_alloced p1 = replicate 4 0"
    "\<not> pool_mapped p1" "w_hw w1 = Map.empty" "w_sea w1 \<noteq> None"
    using w0 sample_bits(1) by (simp add: nvgpu_semaphore_pool_alloc_def Let_def)
  obtain w2 p2 where w2: "nvgpu_semaphore_pool_map 4096 None 8192 1 w1 = Some (Inr (), w2)" "w_pools w2 1 = Some p2" "pool_semas_alloced p2 = replicate 4 0"
    "pool_rw_mem p2" "w_hw w2 = Map.empty" "w_sea w2 \<noteq> None"
    using w1 by (simp add: nvgpu_semaphore_pool_map_def Let_def)
  obtain w3 p3 x1 where w3: "nvgpu_hw_semaphore_init (Some 2) 1 5 w2 = Some (Inr 2, w3)" "w_pools w3 1 = Some p3" "pool_semas_alloced p3 = 1 # replicate 3 0"
    "pool_rw_mem p3" "w_hw w3 = [2 \<mapsto> x1]" "hw_location x1 = \<lparr>loc_pool = 1, loc_offset = 0\<rparr>" "w_sea w3 \<noteq> None"
    using w2 sample_bits(2) by (auto simp: nvgpu_hw_semaphore_init_def loc_read_def Let_def)
  obtain w4 x2 where w4: "nvgpu_hw_semaphore_init (Some 3) 1 6 w3 = Some (Inr 3, w4)" "w_hw w4 = [2 \<mapsto> x1, 3 \<mapsto> x2]"
    "hw_location x2 = \<lparr>loc_pool = 1, loc_offset = 16\<rparr>"
    using w3 sample_bits(3) by (auto simp: nvgpu_hw_semaphore_init_def loc_read_def Let_def)
  let ?own = "(\<lambda>_. 0)(1 := 1) :: nat \<Rightarrow> nat"
  have "sema_step (\<lambda>_. 0, w0) (?own, w1)" by (rule Pool_alloc) (use w0 w1 in simp_all)
  moreover have "sema_step (?own, w1) (?own, w2)" by (rule Pool_map[OF w2(1)])
  moreover have "sema_step (?own, w2) (?own, w3)" by (rule Hw_init[OF _ _ w3(1)]) (use w2 in simp_all)
  moreover have "sema_step (?own, w3) (?own, w4)" by (rule Hw_init[OF _ _ w4(1)]) (use w3 in simp_all)
  ultimately have "sema_step\<^sup>*\<^sup>* (\<lambda>_. 0, w0) (?own, w4)" by (meson converse_rtranclp_into_rtranclp rtranclp.rtrancl_refl)
  then show ?thesis using w0(1) w4(2,3) w3(6) by (intro exI[of _ w0] exI[of _ ?own] exI[of _ w4] exI[of _ x1] exI[of _ x2]) simp
qed

theorem semaphores_isolated_witness:
  "\<exists>(w::sema_world) x1 x2 p. w_hw w 2 = Some x1 \<and> w_hw w 3 = Some x2 \<and> w_pools w 1 = Some p \<and> hw_location x1 = \<lparr>loc_pool = 1, loc_offset = 0\<rparr> \<and>
     hw_location x2 = \<lparr>loc_pool = 1, loc_offset = 16\<rparr> \<and>
     ranges_disjoint (loc_addr p 0) (loc_addr p 0 + 16) (loc_addr p 16) (loc_addr p 16 + 16)"
proof -
  obtain w0 own w x1 x2 where r: "nvgpu_semaphore_sea_create True None
      \<lparr>w_sea = None, w_pools = Map.empty, w_hw = Map.empty, w_semas = Map.empty\<rparr> = (True, w0)" "sema_step\<^sup>*\<^sup>* (\<lambda>_. 0, w0) (own, w)"
    "w_hw w 2 = Some x1" "w_hw w 3 = Some x2" "hw_location x1 = \<lparr>loc_pool = 1, loc_offset = 0\<rparr>" "hw_location x2 = \<lparr>loc_pool = 1, loc_offset = 16\<rparr>"
    using sample_sema_run by blast
  obtain p1 p2 where p: "w_pools w 1 = Some p1" "w_pools w 1 = Some p2"
    "ranges_disjoint (loc_addr p1 0) (loc_addr p1 0 + 16) (loc_addr p2 16) (loc_addr p2 16 + 16)"
    using conjunct1[OF semaphores_isolated[OF r(1,2)], rule_format, of 2 x1 3 x2] r(3-6) by auto
  then have "p2 = p1" by simp
  then show ?thesis using p(1,3) r(3-6) by blast
qed

text \<open>The protocol of a submit: a semaphore prepared on a hardware semaphore whose tracked value is
  \<open>N\<close> waits for \<open>N + 1\<close>, so with at most half the range of increments outstanding it is not released
  before the GPU has made that increment, and is released from then on.\<close>

theorem semaphore_prepare_threshold:
  assumes "w_hw w h = Some hw" "hw_next_value hw = N mod 2 ^ 32"
    and "nvgpu_semaphore_prepare s h w = Some w'"
    and "w_semas w' s = Some x" "nvgpu_semaphore_read w'' x = Some (M mod 2 ^ 32)"
    and "M < N + 1 + 2 ^ 31" "N + 1 \<le> M + 2 ^ 31"
  shows "nvgpu_semaphore_is_released w'' x = Some (N < M) \<and> nvgpu_semaphore_can_wait x"
proof -
  have v: "sema_value x = (N + 1) mod 2 ^ 32" "sema_ready_to_wait x"
    using assms(1-4) by (auto simp: nvgpu_semaphore_prepare_def bind_eq_Some_conv Let_def
        nvgpu_hw_semaphore_read_next_def wrap32_def mod_Suc_eq)
  have "nvgpu_semaphore_value_released ((N + 1) mod 2 ^ 32) (M mod 2 ^ 32) \<longleftrightarrow> N + 1 \<le> M"
    using value_released_ahead[of "N + 1" M] value_released_behind[of M "N + 1"] assms(6,7) unfolding wrap32_def by fastforce
  then show ?thesis using v assms(5)
    by (auto simp: nvgpu_semaphore_is_released_def nvgpu_semaphore_get_value_def nvgpu_semaphore_can_wait_def)
qed

definition sample_world :: "u32 \<Rightarrow> sema_world" where
  "sample_world v = \<lparr>
     w_sea = Some \<lparr>sea_pool_list = [7], sea_size = 512, sea_gpu_va = 0, sea_map_size = 2097152, sea_page_count = 1,
                   sea_mem = (\<lambda>_. v), sea_pools_alloced = 1 # replicate 7 0\<rparr>,
     w_pools = [7 \<mapsto> \<lparr>pool_gpu_va = 0, pool_gpu_va_ro = 0, pool_page_idx = 0, pool_semas_alloced = 1 # replicate 3 0,
                     pool_mapped = True, pool_rw_mem = True, pool_ref = 2\<rparr>],
     w_hw = [8 \<mapsto> \<lparr>hw_location = \<lparr>loc_pool = 7, loc_offset = 0\<rparr>, hw_next_value = 4294967295, hw_chid = 3\<rparr>],
     w_semas = [9 \<mapsto> \<lparr>sema_location = \<lparr>loc_pool = 7, loc_offset = 0\<rparr>, sema_value = 0, sema_ready_to_wait = False, sema_ref = 1\<rparr>]\<rparr>"

theorem semaphore_prepare_threshold_witness:
  "\<exists>w' x. nvgpu_semaphore_prepare 9 8 (sample_world 4294967295) = Some w' \<and> w_semas w' 9 = Some x \<and>
     nvgpu_semaphore_is_released (sample_world 4294967295) x = Some False \<and>
     nvgpu_semaphore_is_released (sample_world 0) x = Some True"
proof -
  let ?hw = "\<lparr>hw_location = \<lparr>loc_pool = 7, loc_offset = 0\<rparr>, hw_next_value = 4294967295, hw_chid = 3\<rparr>"
  let ?w = "sample_world 4294967295"
  obtain w' x where w': "nvgpu_semaphore_prepare 9 8 ?w = Some w'" "w_semas w' 9 = Some x"
    "sema_location x = \<lparr>loc_pool = 7, loc_offset = 0\<rparr>"
    by (simp add: nvgpu_semaphore_prepare_def sample_world_def Let_def)
  have h: "w_hw ?w 8 = Some ?hw" "hw_next_value ?hw = 4294967295 mod 2 ^ 32" by (simp_all add: sample_world_def)
  have r: "nvgpu_semaphore_read (sample_world v) x = Some v" for v
    using w'(3) by (simp add: nvgpu_semaphore_read_def loc_read_def sample_world_def)
  have "nvgpu_semaphore_is_released ?w x = Some (4294967295 < (4294967295::nat))"
    using semaphore_prepare_threshold[OF h w'(1,2), of ?w 4294967295] r[of 4294967295] by simp
  moreover have "nvgpu_semaphore_is_released (sample_world 0) x = Some (4294967295 < (4294967296::nat))"
    using semaphore_prepare_threshold[OF h w'(1,2), of "sample_world 0" 4294967296] r[of 0] by simp
  ultimately show ?thesis using w' by auto
qed

text \<open>When the private mapping of a pool fails, \<open>nvgpu_semaphore_pool_map\<close> takes back the global
  mapping but leaves the pool marked as mapped: the error is permanent, every later attempt to map the
  pool reports \<open>EBUSY\<close>.\<close>

theorem semaphore_pool_map_failure_sticks:
  assumes "w_pools w pid = Some p" "\<not> pool_mapped p" "ro \<noteq> 0" "create \<noteq> None \<or> rw = 0"
  shows "\<exists>e w'. nvgpu_semaphore_pool_map ro create rw pid w = Some (Inl e, w') \<and>
    (\<forall>ro' create' rw'. nvgpu_semaphore_pool_map ro' create' rw' pid w' = Some (Inl EBUSY, w'))"
  using assms by (cases create) (auto simp: nvgpu_semaphore_pool_map_def Let_def)

theorem semaphore_pool_map_failure_sticks_witness:
  "\<exists>e w'. nvgpu_semaphore_pool_map 4096 None 0 7 (the (nvgpu_semaphore_pool_unmap 7 (sample_world 0))) = Some (Inl e, w') \<and>
     nvgpu_semaphore_pool_map 4096 None 8192 7 w' = Some (Inl EBUSY, w')"
  using semaphore_pool_map_failure_sticks[of "the (nvgpu_semaphore_pool_unmap 7 (sample_world 0))" 7
      "\<lparr>pool_gpu_va = 0, pool_gpu_va_ro = 0, pool_page_idx = 0, pool_semas_alloced = 1 # replicate 3 0,
        pool_mapped = False, pool_rw_mem = False, pool_ref = 2\<rparr>" 4096 None 0]
  by (auto simp: sample_world_def nvgpu_semaphore_pool_unmap_def)

end
