(* ===== verification/Runlist.thy ===== *)
theory Runlist
  imports Bitops
begin

text \<open>
  The construction and update of hardware runlists, \<^verbatim>\<open>common/fifo/runlist.c\<close>, with the
  scaling of time slices of \<^verbatim>\<open>common/ptimer/ptimer.c\<close>. A runlist buffer is the sequence of
  its entries, one TSG entry followed by the entries of the TSG's active channels; the bit
  layout of an entry is the business of each chip's HAL, here an entry is the data the HAL is
  given.

  The entry pointer and the number of entries left are explicit state; \<open>None\<close> as a count
  is \<open>RUNLIST_APPEND_FAILURE\<close>, which the source encodes as the largest \<open>u32\<close>: a count that is
  not a failure stays below it as long as the buffer has fewer entries.
\<close>

section \<open>Time slices\<close>

abbreviation (input) PTIMER_REF_FREQ_HZ :: nat where "PTIMER_REF_FREQ_HZ \<equiv> 31250000"

definition ptimer_scalingfactor10x :: "u32 \<Rightarrow> u32 option" where
  "ptimer_scalingfactor10x ptimer_src_freq =
     (let v = PTIMER_REF_FREQ_HZ * 10 div ptimer_src_freq in do { nvgpu_assert (v \<le> U32_MAX); Some v })"

definition nvgpu_ptimer_scale :: "u32 \<Rightarrow> u32 \<Rightarrow> u32 result option" where
  "nvgpu_ptimer_scale ptimer_src_freq timeout =
     (if timeout > U32_MAX div 10 then Some (Inl EINVAL)
      else if ptimer_src_freq = 0 then Some (Inl EINVAL)
      else do {
        scale10x \<leftarrow> ptimer_scalingfactor10x ptimer_src_freq;
        Some (if scale10x = 0 then Inl EINVAL
              else if timeout * 10 mod scale10x \<ge> scale10x div 2 then Inr (wrap32 (timeout * 10 div scale10x + 1))
              else Inr (timeout * 10 div scale10x)) })"

section \<open>State\<close>

abbreviation (input) LEVEL_LOW :: nat where "LEVEL_LOW \<equiv> 0"
abbreviation (input) LEVEL_MEDIUM :: nat where "LEVEL_MEDIUM \<equiv> 1"
abbreviation (input) LEVEL_HIGH :: nat where "LEVEL_HIGH \<equiv> 2"
abbreviation (input) INTERLEAVE_NUM_LEVELS :: nat where "INTERLEAVE_NUM_LEVELS \<equiv> 3"

text \<open>An entry of the buffer: what \<open>get_tsg_entry\<close> is given of the TSG (its number, the number of
  channels announced to follow, the scaled time slice), or what \<open>get_ch_entry\<close> is given of a channel.\<close>

datatype rl_entry = Tsg_entry u32 u32 u32 | Ch_entry u32

record nvgpu_tsg =
  tsgid :: u32
  interleave_level :: u32
  timeslice_us :: u32
  ch_list :: "u32 list"
  num_active_channels :: u32
  tsg_rl_domain :: "nat option"

record nvgpu_runlist_mem =
  rm_entries :: "rl_entry list"
  rm_count :: u32

record nvgpu_runlist_domain =
  rd_name :: string
  rd_active_channels :: "ulong list"
  rd_active_tsgs :: "ulong list"
  rd_mem :: nvgpu_runlist_mem
  rd_mem_hw :: nvgpu_runlist_mem

record nvgpu_fifo =
  f_num_channels :: u32
  f_runlist_entry_size :: u32
  f_num_runlist_entries :: u32
  f_tsg :: "nvgpu_tsg list"
  f_ch_tsg :: "u32 \<rightharpoonup> u32"
  f_runlist_interleave :: bool
  f_ptimer_src_freq :: u32

text \<open>Where the next entry goes: the buffer, the entry pointer and the entries left.\<close>

record rl_cursor =
  cur_mem :: "rl_entry list"
  cur_pos :: nat
  cur_left :: u32

section \<open>Building a runlist\<close>

text \<open>\<open>for_each_set_bit\<close>: the bits its body runs for. A next bit that is not beyond the last cannot
  be (\<open>find_next_bit\<close> starts behind it).\<close>

function next_set_bits :: "ulong list \<Rightarrow> u64 \<Rightarrow> u64 \<Rightarrow> u64 list option" where
  "next_set_bits bits sz b =
     (if b < sz
      then do { nx \<leftarrow> find_next_bit bits sz (b + 1);
                if nx \<le> b then None else do { rest \<leftarrow> next_set_bits bits sz nx; Some (b # rest) } }
      else Some [])"
  by pat_completeness auto
termination by (relation "measure (\<lambda>(_, sz, b). sz - b)") auto

definition for_each_set_bit :: "ulong list \<Rightarrow> u64 \<Rightarrow> u64 list option" where
  "for_each_set_bit bits sz = do { b \<leftarrow> find_first_bit bits sz; next_set_bits bits sz b }"

definition emit :: "rl_entry \<Rightarrow> rl_cursor \<Rightarrow> rl_cursor option" where
  "emit e c = do { m \<leftarrow> store (cur_mem c) (cur_pos c) e;
                   Some (c\<lparr>cur_mem := m, cur_pos := cur_pos c + 1, cur_left := cur_left c - 1\<rparr>) }"

fun append_channels ::
    "nvgpu_runlist_domain \<Rightarrow> u32 list \<Rightarrow> u32 \<Rightarrow> rl_cursor \<Rightarrow> (u32 option \<times> rl_cursor) option" where
  "append_channels domain [] count c = Some (Some count, c)"
| "append_channels domain (ch # chs) count c =
     do {
       active \<leftarrow> nvgpu_test_bit ch (rd_active_channels domain);
       if \<not> active then append_channels domain chs count c
       else if cur_left c = 0 then Some (None, c)
       else do {
         c \<leftarrow> emit (Ch_entry ch) c;
         count \<leftarrow> nvgpu_safe_add_u32 count 1;
         append_channels domain chs count c } }"

definition nvgpu_runlist_append_tsg ::
    "nvgpu_fifo \<Rightarrow> nvgpu_runlist_domain \<Rightarrow> nvgpu_tsg \<Rightarrow> rl_cursor \<Rightarrow> (u32 option \<times> rl_cursor) option" where
  "nvgpu_runlist_append_tsg f domain tsg c =
     (if cur_left c = 0 then Some (None, c)
      else do {
        r \<leftarrow> nvgpu_ptimer_scale (f_ptimer_src_freq f) (timeslice_us tsg);
        (case r of
           Inl _ \<Rightarrow> Some (None, c)
         | Inr timeslice \<Rightarrow> do {
             c \<leftarrow> emit (Tsg_entry (tsgid tsg) (num_active_channels tsg) timeslice) c;
             append_channels domain (ch_list tsg) 1 c }) })"

text \<open>\<open>count += entries\<close> after a step that did not fail.\<close>

definition add_count ::
    "u32 \<Rightarrow> (u32 option \<times> rl_cursor) option \<Rightarrow> (u32 \<Rightarrow> rl_cursor \<Rightarrow> (u32 option \<times> rl_cursor) option) \<Rightarrow>
       (u32 option \<times> rl_cursor) option" where
  "add_count count step k =
     do { (entries, c) \<leftarrow> step;
          (case entries of None \<Rightarrow> Some (None, c) | Some n \<Rightarrow> k (wrap32 (count + n)) c) }"

fun append_prio_loop ::
    "nvgpu_fifo \<Rightarrow> nvgpu_runlist_domain \<Rightarrow> u32 \<Rightarrow> u64 list \<Rightarrow> u32 \<Rightarrow> rl_cursor \<Rightarrow> (u32 option \<times> rl_cursor) option" where
  "append_prio_loop f domain level [] count c = Some (Some count, c)"
| "append_prio_loop f domain level (k # ids) count c =
     do {
       tsg \<leftarrow> load (f_tsg f) k;
       if interleave_level tsg = level
       then add_count count (nvgpu_runlist_append_tsg f domain tsg c) (append_prio_loop f domain level ids)
       else append_prio_loop f domain level ids count c }"

definition nvgpu_runlist_append_prio ::
    "nvgpu_fifo \<Rightarrow> nvgpu_runlist_domain \<Rightarrow> u32 \<Rightarrow> rl_cursor \<Rightarrow> (u32 option \<times> rl_cursor) option" where
  "nvgpu_runlist_append_prio f domain level c =
     do { ids \<leftarrow> for_each_set_bit (rd_active_tsgs domain) (f_num_channels f);
          append_prio_loop f domain level ids 0 c }"

definition nvgpu_runlist_append_hi ::
    "nvgpu_fifo \<Rightarrow> nvgpu_runlist_domain \<Rightarrow> rl_cursor \<Rightarrow> (u32 option \<times> rl_cursor) option" where
  "nvgpu_runlist_append_hi f domain c = nvgpu_runlist_append_prio f domain LEVEL_HIGH c"

fun append_med_loop ::
    "nvgpu_fifo \<Rightarrow> nvgpu_runlist_domain \<Rightarrow> u64 list \<Rightarrow> u32 \<Rightarrow> rl_cursor \<Rightarrow> (u32 option \<times> rl_cursor) option" where
  "append_med_loop f domain [] count c = Some (Some count, c)"
| "append_med_loop f domain (k # ids) count c =
     do {
       tsg \<leftarrow> load (f_tsg f) k;
       if interleave_level tsg \<noteq> LEVEL_MEDIUM then append_med_loop f domain ids count c
       else add_count count (nvgpu_runlist_append_hi f domain c) (\<lambda>count c.
              add_count count (nvgpu_runlist_append_tsg f domain tsg c) (append_med_loop f domain ids)) }"

definition nvgpu_runlist_append_med ::
    "nvgpu_fifo \<Rightarrow> nvgpu_runlist_domain \<Rightarrow> rl_cursor \<Rightarrow> (u32 option \<times> rl_cursor) option" where
  "nvgpu_runlist_append_med f domain c =
     do { ids \<leftarrow> for_each_set_bit (rd_active_tsgs domain) (f_num_channels f);
          append_med_loop f domain ids 0 c }"

fun append_low_loop ::
    "nvgpu_fifo \<Rightarrow> nvgpu_runlist_domain \<Rightarrow> u64 list \<Rightarrow> u32 \<Rightarrow> rl_cursor \<Rightarrow> (u32 option \<times> rl_cursor) option" where
  "append_low_loop f domain [] count c = Some (Some count, c)"
| "append_low_loop f domain (k # ids) count c =
     do {
       tsg \<leftarrow> load (f_tsg f) k;
       if interleave_level tsg \<noteq> LEVEL_LOW then append_low_loop f domain ids count c
       else add_count count (nvgpu_runlist_append_med f domain c) (\<lambda>count c.
              add_count count (nvgpu_runlist_append_hi f domain c) (\<lambda>count c.
                add_count count (nvgpu_runlist_append_tsg f domain tsg c) (append_low_loop f domain ids))) }"

definition nvgpu_runlist_append_low ::
    "nvgpu_fifo \<Rightarrow> nvgpu_runlist_domain \<Rightarrow> rl_cursor \<Rightarrow> (u32 option \<times> rl_cursor) option" where
  "nvgpu_runlist_append_low f domain c =
     do {
       ids \<leftarrow> for_each_set_bit (rd_active_tsgs domain) (f_num_channels f);
       (count, c) \<leftarrow> append_low_loop f domain ids 0 c;
       if count = Some 0 then do {
         (count, c) \<leftarrow> nvgpu_runlist_append_med f domain c;
         if count = Some 0 then nvgpu_runlist_append_hi f domain c else Some (count, c) }
       else Some (count, c) }"

text \<open>The loop over the levels from high to low: \<open>i\<close> counts them.\<close>

function append_flat_loop ::
    "nvgpu_fifo \<Rightarrow> nvgpu_runlist_domain \<Rightarrow> nat \<Rightarrow> u32 \<Rightarrow> rl_cursor \<Rightarrow> (u32 option \<times> rl_cursor) option" where
  "append_flat_loop f domain i count c =
     (if i < INTERLEAVE_NUM_LEVELS
      then add_count count (nvgpu_runlist_append_prio f domain (LEVEL_HIGH - i) c)
             (append_flat_loop f domain (i + 1))
      else Some (Some count, c))"
  by pat_completeness auto
termination by (relation "measure (\<lambda>(_, _, i, _, _). 3 - i)") auto

definition nvgpu_runlist_append_flat ::
    "nvgpu_fifo \<Rightarrow> nvgpu_runlist_domain \<Rightarrow> rl_cursor \<Rightarrow> (u32 option \<times> rl_cursor) option" where
  "nvgpu_runlist_append_flat f domain c = append_flat_loop f domain 0 0 c"

definition nvgpu_runlist_construct_locked ::
    "nvgpu_fifo \<Rightarrow> nvgpu_runlist_domain \<Rightarrow> u32 \<Rightarrow> (u32 option \<times> nvgpu_runlist_domain) option" where
  "nvgpu_runlist_construct_locked f domain max_entries =
     do {
       let c = \<lparr>cur_mem = rm_entries (rd_mem domain), cur_pos = 0, cur_left = max_entries\<rparr>;
       (n, c) \<leftarrow> (if f_runlist_interleave f then nvgpu_runlist_append_low f domain c
                  else nvgpu_runlist_append_flat f domain c);
       Some (n, domain\<lparr>rd_mem := (rd_mem domain)\<lparr>rm_entries := cur_mem c\<rparr>\<rparr>) }"

section \<open>Updating a runlist\<close>

definition set_tsg :: "nvgpu_fifo \<Rightarrow> u32 \<Rightarrow> nvgpu_tsg \<Rightarrow> nvgpu_fifo option" where
  "set_tsg f k t = do { ts \<leftarrow> store (f_tsg f) k t; Some (f\<lparr>f_tsg := ts\<rparr>) }"

definition nvgpu_runlist_modify_active_locked ::
    "nvgpu_fifo \<Rightarrow> nvgpu_runlist_domain \<Rightarrow> u32 \<Rightarrow> bool \<Rightarrow> (bool \<times> nvgpu_fifo \<times> nvgpu_runlist_domain) option" where
  "nvgpu_runlist_modify_active_locked f domain chid add =
     (case f_ch_tsg f chid of
        None \<Rightarrow> Some (False, f, domain)
      | Some k \<Rightarrow> do {
          tsg \<leftarrow> load (f_tsg f) k;
          if add then do {
            (was, bits) \<leftarrow> nvgpu_test_and_set_bit chid (rd_active_channels domain);
            let domain = domain\<lparr>rd_active_channels := bits\<rparr>;
            if was then Some (False, f, domain)
            else do {
              tbits \<leftarrow> nvgpu_set_bit (tsgid tsg) (rd_active_tsgs domain);
              n \<leftarrow> nvgpu_safe_add_u32 (num_active_channels tsg) 1;
              f \<leftarrow> set_tsg f k (tsg\<lparr>num_active_channels := n\<rparr>);
              Some (True, f, domain\<lparr>rd_active_tsgs := tbits\<rparr>) } }
          else do {
            (was, bits) \<leftarrow> nvgpu_test_and_clear_bit chid (rd_active_channels domain);
            let domain = domain\<lparr>rd_active_channels := bits\<rparr>;
            if \<not> was then Some (False, f, domain)
            else do {
              n \<leftarrow> nvgpu_safe_sub_u32 (num_active_channels tsg) 1;
              f \<leftarrow> set_tsg f k (tsg\<lparr>num_active_channels := n\<rparr>);
              if n = 0 then do {
                tbits \<leftarrow> nvgpu_clear_bit (tsgid tsg) (rd_active_tsgs domain);
                Some (True, f, domain\<lparr>rd_active_tsgs := tbits\<rparr>) }
              else Some (True, f, domain) } } })"

definition nvgpu_runlist_reconstruct_locked ::
    "nvgpu_fifo \<Rightarrow> nvgpu_runlist_domain \<Rightarrow> bool \<Rightarrow> (unit result \<times> nvgpu_runlist_domain) option" where
  "nvgpu_runlist_reconstruct_locked f domain add_entries =
     (if \<not> add_entries then Some (Inr (), domain\<lparr>rd_mem := (rd_mem domain)\<lparr>rm_count := 0\<rparr>\<rparr>)
      else do {
        (num_entries, domain) \<leftarrow> nvgpu_runlist_construct_locked f domain (f_num_runlist_entries f);
        Some (case num_entries of
                None \<Rightarrow> (Inl E2BIG, domain)
              | Some n \<Rightarrow> (Inr (), domain\<lparr>rd_mem := (rd_mem domain)\<lparr>rm_count := n\<rparr>\<rparr>)) })"

text \<open>\<open>hw_submit\<close> gives the hardware the address and the count of the active domain's \<open>mem_hw\<close>: the entries it is to fetch.\<close>

definition gk20a_runlist_hw_submit :: "nvgpu_runlist_domain \<Rightarrow> rl_entry list" where
  "gk20a_runlist_hw_submit active = take (rm_count (rd_mem_hw active)) (rm_entries (rd_mem_hw active))"

text \<open>\<open>other\<close> is the active domain of the runlist when that is not the domain updated, and \<open>None\<close> when it is; \<open>wait_ret\<close> is what
  \<open>wait_pending\<close> returns. The buffers of the domain updated are swapped, then the hardware is given what the active domain's \<open>mem_hw\<close>
  holds by then, then it is waited for; the result says what the call reports and what was submitted, if anything.\<close>

definition nvgpu_runlist_update_locked ::
    "nvgpu_runlist_domain option \<Rightarrow> unit result \<Rightarrow> nvgpu_fifo \<Rightarrow> nvgpu_runlist_domain \<Rightarrow> u32 option \<Rightarrow> bool \<Rightarrow> bool \<Rightarrow>
       (unit result \<times> rl_entry list option \<times> nvgpu_fifo \<times> nvgpu_runlist_domain) option" where
  "nvgpu_runlist_update_locked other wait_ret f domain ch add wait_for_finish =
     do {
       (update, add_entries, f, domain) \<leftarrow>
         (case ch of
            Some chid \<Rightarrow> do {
              (u, f, domain) \<leftarrow> nvgpu_runlist_modify_active_locked f domain chid add;
              Some (u, True, f, domain) }
          | None \<Rightarrow> Some (True, add, f, domain));
       if \<not> update then Some (Inr (), None, f, domain)
       else do {
         (ret, domain) \<leftarrow> nvgpu_runlist_reconstruct_locked f domain add_entries;
         (case ret of
            Inl e \<Rightarrow> Some (Inl e, None, f, domain)
          | Inr _ \<Rightarrow>
              (let domain = domain\<lparr>rd_mem := rd_mem_hw domain, rd_mem_hw := rd_mem domain\<rparr>;
                   submitted = gk20a_runlist_hw_submit (case other of None \<Rightarrow> domain | Some active \<Rightarrow> active)
               in Some (if wait_for_finish then wait_ret else Inr (), Some submitted, f, domain))) } }"

end
