(* ===== verification/Runlist_Proofs.thy ===== *)
theory Runlist_Proofs
  imports Runlist
begin

text \<open>
  What the runlist code builds, stated as a function on lists, and the proof that the
  cursor-driven code of \<^verbatim>\<open>common/fifo/runlist.c\<close> writes exactly that sequence or reports that it
  does not fit; the bookkeeping of active channels; the double buffer of an update.
\<close>

section \<open>The set bits of a bitmap\<close>

lemma find_first_bit_correct:
  assumes "n \<le> 64 * length m" "n \<le> U64_MAX"
  shows "\<exists>r. find_first_bit m n = Some r \<and> first_from (tb m) 0 n r"
  using find_next_bit_correct[of n m 0] assms by (auto simp: find_first_bit_def find_next_bit_def)

lemma filter_from:
  assumes "first_from P s n r"
  shows "filter P [s..<n] = filter P [r..<n]"
proof -
  have r: "s \<le> r" "r \<le> n" "\<And>i. s \<le> i \<Longrightarrow> i < r \<Longrightarrow> \<not> P i" using assms by (auto simp: first_from_def)
  have "[s..<n] = [s..<r] @ [r..<n]" using r(1,2) by (metis le_Suc_ex upt_add_eq_append)
  moreover have "filter P [s..<r] = []" using r(3) by (auto simp: filter_empty_conv)
  ultimately show ?thesis by simp
qed

lemma next_set_bits_correct:
  assumes "n \<le> 64 * length m" "n \<le> U64_MAX"
  shows "b \<le> n \<Longrightarrow> (b < n \<Longrightarrow> tb m b) \<Longrightarrow> next_set_bits m n b = Some (filter (tb m) [b..<n])"
proof (induction "n - b" arbitrary: b rule: less_induct)
  case less
  show ?case
  proof (cases "b < n")
    case True
    then obtain r where r: "find_next_bit m n (b + 1) = Some r" "first_from (tb m) (b + 1) n r"
      using find_next_bit_correct[OF assms, of "b + 1"] by auto
    then have "b < r" "r \<le> n" "r < n \<Longrightarrow> tb m r" by (auto simp: first_from_def)
    then have "next_set_bits m n r = Some (filter (tb m) [r..<n])"
      using less.hyps[of r] True by auto
    moreover have "filter (tb m) [b..<n] = b # filter (tb m) [Suc b..<n]"
      using True less.prems(2) by (simp add: upt_conv_Cons)
    ultimately show ?thesis using True r \<open>b < r\<close> filter_from[OF r(2)]
      by (subst next_set_bits.simps) simp
  next
    case False
    then show ?thesis by (subst next_set_bits.simps) simp
  qed
qed

lemma for_each_set_bit_correct:
  assumes "n \<le> 64 * length m" "n \<le> U64_MAX"
  shows "for_each_set_bit m n = Some (filter (tb m) [0..<n])"
proof -
  obtain r where r: "find_first_bit m n = Some r" "first_from (tb m) 0 n r"
    using find_first_bit_correct[OF assms] by auto
  then have "next_set_bits m n r = Some (filter (tb m) [r..<n])"
    by (intro next_set_bits_correct[OF assms]) (auto simp: first_from_def)
  then show ?thesis using r filter_from[OF r(2)] by (simp add: for_each_set_bit_def)
qed

section \<open>The sequence a runlist should hold\<close>

definition tsg_timeslice :: "nvgpu_fifo \<Rightarrow> nvgpu_tsg \<Rightarrow> u32" where
  "tsg_timeslice f tsg =
     (case nvgpu_ptimer_scale (f_ptimer_src_freq f) (timeslice_us tsg) of Some (Inr t) \<Rightarrow> t | _ \<Rightarrow> 0)"

definition active_chs :: "nvgpu_runlist_domain \<Rightarrow> nvgpu_tsg \<Rightarrow> u32 list" where
  "active_chs d tsg = filter (tb (rd_active_channels d)) (ch_list tsg)"

definition tsg_seq :: "nvgpu_fifo \<Rightarrow> nvgpu_runlist_domain \<Rightarrow> nat \<Rightarrow> rl_entry list" where
  "tsg_seq f d i =
     (let tsg = f_tsg f ! i in
      Tsg_entry (tsgid tsg) (num_active_channels tsg) (tsg_timeslice f tsg) # map Ch_entry (active_chs d tsg))"

definition level_ids :: "nvgpu_fifo \<Rightarrow> nvgpu_runlist_domain \<Rightarrow> u32 \<Rightarrow> nat list" where
  "level_ids f d l =
     filter (\<lambda>i. interleave_level (f_tsg f ! i) = l) (filter (tb (rd_active_tsgs d)) [0..<f_num_channels f])"

definition prio_seq :: "nvgpu_fifo \<Rightarrow> nvgpu_runlist_domain \<Rightarrow> u32 \<Rightarrow> rl_entry list" where
  "prio_seq f d l = concat (map (tsg_seq f d) (level_ids f d l))"

definition med_seq :: "nvgpu_fifo \<Rightarrow> nvgpu_runlist_domain \<Rightarrow> rl_entry list" where
  "med_seq f d = concat (map (\<lambda>i. prio_seq f d LEVEL_HIGH @ tsg_seq f d i) (level_ids f d LEVEL_MEDIUM))"

definition low_seq :: "nvgpu_fifo \<Rightarrow> nvgpu_runlist_domain \<Rightarrow> rl_entry list" where
  "low_seq f d = concat (map (\<lambda>i. med_seq f d @ prio_seq f d LEVEL_HIGH @ tsg_seq f d i) (level_ids f d LEVEL_LOW))"

definition interleaved_seq :: "nvgpu_fifo \<Rightarrow> nvgpu_runlist_domain \<Rightarrow> rl_entry list" where
  "interleaved_seq f d =
     (if level_ids f d LEVEL_LOW \<noteq> [] then low_seq f d
      else if level_ids f d LEVEL_MEDIUM \<noteq> [] then med_seq f d
      else prio_seq f d LEVEL_HIGH)"

definition runlist_seq :: "nvgpu_fifo \<Rightarrow> nvgpu_runlist_domain \<Rightarrow> rl_entry list" where
  "runlist_seq f d =
     (if f_runlist_interleave f then interleaved_seq f d
      else prio_seq f d LEVEL_HIGH @ prio_seq f d LEVEL_MEDIUM @ prio_seq f d LEVEL_LOW)"

text \<open>What the code relies on: the bitmaps and the table of TSGs cover every number, and every
  time slice can be scaled.\<close>

definition scalable :: "nvgpu_fifo \<Rightarrow> nvgpu_tsg \<Rightarrow> bool" where
  "scalable f tsg \<longleftrightarrow>
     timeslice_us tsg \<le> U32_MAX div 10 \<and> 0 < f_ptimer_src_freq f \<and> f_ptimer_src_freq f \<le> PTIMER_REF_FREQ_HZ * 10"

definition runlist_ok :: "nvgpu_fifo \<Rightarrow> nvgpu_runlist_domain \<Rightarrow> bool" where
  "runlist_ok f d \<longleftrightarrow>
     f_num_channels f \<le> U32_MAX \<and> length (f_tsg f) = f_num_channels f \<and>
     f_num_channels f \<le> 64 * length (rd_active_tsgs d) \<and>
     f_num_channels f \<le> 64 * length (rd_active_channels d) \<and>
     (\<forall>tsg\<in>set (f_tsg f). scalable f tsg \<and> (\<forall>ch\<in>set (ch_list tsg). ch < f_num_channels f))"

lemma ptimer_scale_scalable:
  assumes "scalable f tsg"
  shows "nvgpu_ptimer_scale (f_ptimer_src_freq f) (timeslice_us tsg) = Some (Inr (tsg_timeslice f tsg))"
proof -
  let ?s = "PTIMER_REF_FREQ_HZ * 10 div f_ptimer_src_freq f"
  have "?s \<noteq> 0" using assms by (auto simp: scalable_def div_eq_0_iff)
  moreover have "?s \<le> U32_MAX" by (rule order_trans[OF div_le_dividend]) simp
  ultimately have "\<exists>t. nvgpu_ptimer_scale (f_ptimer_src_freq f) (timeslice_us tsg) = Some (Inr t)"
    using assms by (simp add: scalable_def nvgpu_ptimer_scale_def ptimer_scalingfactor10x_def Let_def)
  then show ?thesis by (auto simp: tsg_timeslice_def)
qed

section \<open>Steps that append a sequence\<close>

fun put :: "rl_entry list \<Rightarrow> rl_cursor \<Rightarrow> rl_cursor" where
  "put [] c = c"
| "put (e # es) c =
     put es (c\<lparr>cur_mem := (cur_mem c)[cur_pos c := e], cur_pos := cur_pos c + 1, cur_left := cur_left c - 1\<rparr>)"

definition cur_ok :: "rl_cursor \<Rightarrow> bool" where
  "cur_ok c \<longleftrightarrow> cur_pos c + cur_left c \<le> length (cur_mem c)"

definition appends :: "(rl_cursor \<Rightarrow> (u32 option \<times> rl_cursor) option) \<Rightarrow> rl_entry list \<Rightarrow> bool" where
  "appends s es \<longleftrightarrow> (\<forall>c. cur_ok c \<longrightarrow> cur_left c \<le> U32_MAX \<longrightarrow>
     s c = Some (if length es \<le> cur_left c then Some (length es) else None, put (take (cur_left c) es) c))"

definition appends_count :: "(u32 \<Rightarrow> rl_cursor \<Rightarrow> (u32 option \<times> rl_cursor) option) \<Rightarrow> rl_entry list \<Rightarrow> bool" where
  "appends_count s es \<longleftrightarrow> (\<forall>n c. cur_ok c \<longrightarrow> n + cur_left c \<le> U32_MAX \<longrightarrow>
     s n c = Some (if length es \<le> cur_left c then Some (n + length es) else None, put (take (cur_left c) es) c))"

lemma put_append: "put (xs @ ys) c = put ys (put xs c)"
  by (induction xs arbitrary: c) auto

lemma put_simps [simp]:
  "cur_left (put xs c) = cur_left c - length xs"
  "cur_pos (put xs c) = cur_pos c + length xs"
  "length (cur_mem (put xs c)) = length (cur_mem c)"
  by (induction xs arbitrary: c) auto

lemma put_mem:
  "cur_pos c + length xs \<le> length (cur_mem c) \<Longrightarrow>
   cur_mem (put xs c) = take (cur_pos c) (cur_mem c) @ xs @ drop (cur_pos c + length xs) (cur_mem c)"
proof (induction xs arbitrary: c)
  case (Cons e xs)
  let ?m = "cur_mem c" and ?p = "cur_pos c"
  have "?p < length ?m" using Cons.prems by simp
  then have "take (Suc ?p) (?m[?p := e]) = take ?p ?m @ [e]" by (simp add: take_Suc_conv_app_nth)
  moreover have "drop (Suc ?p + length xs) (?m[?p := e]) = drop (Suc ?p + length xs) ?m" by simp
  ultimately show ?case using Cons by simp
qed simp

lemma put_cur_ok: "cur_ok c \<Longrightarrow> length xs \<le> cur_left c \<Longrightarrow> cur_ok (put xs c)"
  by (auto simp: cur_ok_def)

lemma emit_put: "cur_ok c \<Longrightarrow> 0 < cur_left c \<Longrightarrow> emit e c = Some (put [e] c)"
  by (auto simp: emit_def cur_ok_def store_def)

lemma appends_countI: "appends_count s es \<Longrightarrow> appends (s 0) es"
  by (simp add: appends_def appends_count_def)

lemma appends_count_Nil: "appends_count (\<lambda>n c. Some (Some n, c)) []"
  by (simp add: appends_count_def)

lemma appends_add_count:
  assumes s: "appends s es1" and k: "appends_count k es2"
  shows "appends_count (\<lambda>n c. add_count n (s c) k) (es1 @ es2)"
  unfolding appends_count_def
proof (intro allI impI)
  fix n c assume ok: "cur_ok c" and b: "n + cur_left c \<le> U32_MAX"
  have s1: "s c = Some (if length es1 \<le> cur_left c then Some (length es1) else None, put (take (cur_left c) es1) c)"
    using s ok b by (simp add: appends_def)
  show "add_count n (s c) k = Some (if length (es1 @ es2) \<le> cur_left c then Some (n + length (es1 @ es2)) else None,
      put (take (cur_left c) (es1 @ es2)) c)"
  proof (cases "length es1 \<le> cur_left c")
    case True
    have "k (n + length es1) (put es1 c) = Some (if length es2 \<le> cur_left c - length es1
        then Some (n + length es1 + length es2) else None, put (take (cur_left c - length es1) es2) (put es1 c))"
      using k put_cur_ok[OF ok True] b True by (simp add: appends_count_def)
    then show ?thesis using True s1 b by (auto simp: add_count_def put_append)
  next
    case False
    then show ?thesis using s1 by (simp add: add_count_def)
  qed
qed

section \<open>Every append function appends its sequence\<close>

lemma append_channels_appends:
  assumes "\<forall>ch\<in>set chs. ch < 64 * length (rd_active_channels d)"
  shows "appends_count (append_channels d chs) (map Ch_entry (filter (tb (rd_active_channels d)) chs))"
  using assms
proof (induction chs)
  case Nil
  then show ?case by (simp add: appends_count_def)
next
  case (Cons ch chs)
  then have IH: "appends_count (append_channels d chs) (map Ch_entry (filter (tb (rd_active_channels d)) chs))" by simp
  have t: "nvgpu_test_bit ch (rd_active_channels d) = Some (tb (rd_active_channels d) ch)"
    using Cons.prems by (simp add: nvgpu_test_bit_correct)
  show ?case
  proof (cases "tb (rd_active_channels d) ch")
    case False
    then show ?thesis using IH t by (simp add: appends_count_def)
  next
    case True
    show ?thesis unfolding appends_count_def
    proof (intro allI impI)
      fix n c assume ok: "cur_ok c" and b: "n + cur_left c \<le> U32_MAX"
      let ?r = "map Ch_entry (filter (tb (rd_active_channels d)) chs)"
      show "append_channels d (ch # chs) n c =
        Some (if length (map Ch_entry (filter (tb (rd_active_channels d)) (ch # chs))) \<le> cur_left c
              then Some (n + length (map Ch_entry (filter (tb (rd_active_channels d)) (ch # chs)))) else None,
              put (take (cur_left c) (map Ch_entry (filter (tb (rd_active_channels d)) (ch # chs)))) c)"
      proof (cases "cur_left c")
        case 0
        then show ?thesis using True t by simp
      next
        case (Suc l)
        let ?c = "put [Ch_entry ch] c"
        have "cur_ok ?c" using put_cur_ok[OF ok, of "[Ch_entry ch]"] Suc by simp
        then have "append_channels d chs (n + 1) ?c =
            Some (if length ?r \<le> l then Some (n + 1 + length ?r) else None, put (take l ?r) ?c)"
          using IH b Suc unfolding appends_count_def by (auto simp del: put.simps)
        then show ?thesis using True t b Suc emit_put[OF ok, of "Ch_entry ch"] by (simp add: safe_add_u32_eq)
      qed
    qed
  qed
qed

lemma append_tsg_appends:
  assumes "scalable f (f_tsg f ! i)" "\<forall>ch\<in>set (ch_list (f_tsg f ! i)). ch < 64 * length (rd_active_channels d)"
  shows "appends (nvgpu_runlist_append_tsg f d (f_tsg f ! i)) (tsg_seq f d i)"
  unfolding appends_def
proof (intro allI impI)
  fix c assume ok: "cur_ok c" and b: "cur_left c \<le> U32_MAX"
  let ?t = "f_tsg f ! i"
  let ?e = "Tsg_entry (tsgid ?t) (num_active_channels ?t) (tsg_timeslice f ?t)" and ?r = "map Ch_entry (active_chs d ?t)"
  show "nvgpu_runlist_append_tsg f d ?t c = Some (if length (tsg_seq f d i) \<le> cur_left c
      then Some (length (tsg_seq f d i)) else None, put (take (cur_left c) (tsg_seq f d i)) c)"
  proof (cases "cur_left c")
    case 0
    then show ?thesis by (simp add: nvgpu_runlist_append_tsg_def tsg_seq_def Let_def)
  next
    case (Suc l)
    have "cur_ok (put [?e] c)" using put_cur_ok[OF ok, of "[?e]"] Suc by simp
    then have "append_channels d (ch_list ?t) 1 (put [?e] c) =
        Some (if length ?r \<le> l then Some (1 + length ?r) else None, put (take l ?r) (put [?e] c))"
      using append_channels_appends[OF assms(2)] b Suc
      unfolding appends_count_def active_chs_def by (auto simp del: put.simps)
    then show ?thesis using Suc emit_put[OF ok, of ?e] ptimer_scale_scalable[OF assms(1)]
      by (simp add: nvgpu_runlist_append_tsg_def tsg_seq_def Let_def)
  qed
qed

text \<open>In a state where the tables cover every number, the loops over the TSGs append theirs.\<close>

lemma runlist_ok_tsg:
  assumes "runlist_ok f d" "i < f_num_channels f"
  shows "load (f_tsg f) i = Some (f_tsg f ! i)" "appends (nvgpu_runlist_append_tsg f d (f_tsg f ! i)) (tsg_seq f d i)"
proof -
  have l: "i < length (f_tsg f)" and m: "f_tsg f ! i \<in> set (f_tsg f)" using assms by (auto simp: runlist_ok_def)
  show "load (f_tsg f) i = Some (f_tsg f ! i)" using l by (simp add: load_in)
  show "appends (nvgpu_runlist_append_tsg f d (f_tsg f ! i)) (tsg_seq f d i)"
    using assms(1) m by (intro append_tsg_appends) (auto simp: runlist_ok_def intro: less_le_trans)
qed

lemma runlist_ok_bits:
  "runlist_ok f d \<Longrightarrow> for_each_set_bit (rd_active_tsgs d) (f_num_channels f) =
     Some (filter (tb (rd_active_tsgs d)) [0..<f_num_channels f])"
  by (rule for_each_set_bit_correct) (auto simp: runlist_ok_def)

lemma append_prio_loop_appends:
  assumes ok: "runlist_ok f d" and ids: "\<forall>i\<in>set ids. i < f_num_channels f"
  shows "appends_count (append_prio_loop f d l ids)
    (concat (map (tsg_seq f d) (filter (\<lambda>i. interleave_level (f_tsg f ! i) = l) ids)))"
  using ids
proof (induction ids)
  case Nil
  then show ?case by (simp add: appends_count_def)
next
  case (Cons i ids)
  then have IH: "appends_count (append_prio_loop f d l ids)
    (concat (map (tsg_seq f d) (filter (\<lambda>i. interleave_level (f_tsg f ! i) = l) ids)))" by simp
  have i: "i < f_num_channels f" using Cons.prems by simp
  show ?case
  proof (cases "interleave_level (f_tsg f ! i) = l")
    case True
    then show ?thesis using appends_add_count[OF runlist_ok_tsg(2)[OF ok i] IH] runlist_ok_tsg(1)[OF ok i]
      by (simp add: appends_count_def)
  next
    case False
    then show ?thesis using IH runlist_ok_tsg(1)[OF ok i] by (simp add: appends_count_def)
  qed
qed

lemma append_prio_appends:
  assumes "runlist_ok f d"
  shows "appends (nvgpu_runlist_append_prio f d l) (prio_seq f d l)"
proof -
  have "appends (append_prio_loop f d l (filter (tb (rd_active_tsgs d)) [0..<f_num_channels f]) 0) (prio_seq f d l)"
    unfolding prio_seq_def level_ids_def by (rule appends_countI, rule append_prio_loop_appends[OF assms]) simp
  then show ?thesis using runlist_ok_bits[OF assms] by (simp add: appends_def nvgpu_runlist_append_prio_def)
qed

lemma append_hi_appends:
  "runlist_ok f d \<Longrightarrow> appends (nvgpu_runlist_append_hi f d) (prio_seq f d LEVEL_HIGH)"
  using append_prio_appends[of f d LEVEL_HIGH] by (simp add: appends_def nvgpu_runlist_append_hi_def)

lemma append_med_loop_appends:
  assumes ok: "runlist_ok f d" and ids: "\<forall>i\<in>set ids. i < f_num_channels f"
  shows "appends_count (append_med_loop f d ids)
    (concat (map (\<lambda>i. prio_seq f d LEVEL_HIGH @ tsg_seq f d i)
       (filter (\<lambda>i. interleave_level (f_tsg f ! i) = LEVEL_MEDIUM) ids)))"
  using ids
proof (induction ids)
  case Nil
  then show ?case by (simp add: appends_count_def)
next
  case (Cons i ids)
  then have i: "i < f_num_channels f" and IH: "appends_count (append_med_loop f d ids)
    (concat (map (\<lambda>i. prio_seq f d LEVEL_HIGH @ tsg_seq f d i)
       (filter (\<lambda>i. interleave_level (f_tsg f ! i) = LEVEL_MEDIUM) ids)))" by simp_all
  show ?case
  proof (cases "interleave_level (f_tsg f ! i) = LEVEL_MEDIUM")
    case True
    then show ?thesis
      using appends_add_count[OF append_hi_appends[OF ok] appends_add_count[OF runlist_ok_tsg(2)[OF ok i] IH]]
        runlist_ok_tsg(1)[OF ok i] by (simp add: appends_count_def)
  next
    case False
    then show ?thesis using IH runlist_ok_tsg(1)[OF ok i] by (simp add: appends_count_def)
  qed
qed

lemma append_med_appends:
  assumes "runlist_ok f d"
  shows "appends (nvgpu_runlist_append_med f d) (med_seq f d)"
proof -
  have "appends (append_med_loop f d (filter (tb (rd_active_tsgs d)) [0..<f_num_channels f]) 0) (med_seq f d)"
    unfolding med_seq_def level_ids_def by (rule appends_countI, rule append_med_loop_appends[OF assms]) simp
  then show ?thesis using runlist_ok_bits[OF assms] by (simp add: appends_def nvgpu_runlist_append_med_def)
qed

lemma append_low_loop_appends:
  assumes ok: "runlist_ok f d" and ids: "\<forall>i\<in>set ids. i < f_num_channels f"
  shows "appends_count (append_low_loop f d ids)
    (concat (map (\<lambda>i. med_seq f d @ prio_seq f d LEVEL_HIGH @ tsg_seq f d i)
       (filter (\<lambda>i. interleave_level (f_tsg f ! i) = LEVEL_LOW) ids)))"
  using ids
proof (induction ids)
  case Nil
  then show ?case by (simp add: appends_count_def)
next
  case (Cons i ids)
  then have i: "i < f_num_channels f" and IH: "appends_count (append_low_loop f d ids)
    (concat (map (\<lambda>i. med_seq f d @ prio_seq f d LEVEL_HIGH @ tsg_seq f d i)
       (filter (\<lambda>i. interleave_level (f_tsg f ! i) = LEVEL_LOW) ids)))" by simp_all
  show ?case
  proof (cases "interleave_level (f_tsg f ! i) = LEVEL_LOW")
    case True
    then show ?thesis
      using appends_add_count[OF append_med_appends[OF ok] appends_add_count[OF append_hi_appends[OF ok]
          appends_add_count[OF runlist_ok_tsg(2)[OF ok i] IH]]]
        runlist_ok_tsg(1)[OF ok i] by (simp add: appends_count_def)
  next
    case False
    then show ?thesis using IH runlist_ok_tsg(1)[OF ok i] by (simp add: appends_count_def)
  qed
qed

lemma tsg_seq_not_Nil [simp]: "tsg_seq f d i \<noteq> []"
  by (simp add: tsg_seq_def Let_def)

lemma seq_Nil_iff:
  "low_seq f d = [] \<longleftrightarrow> level_ids f d LEVEL_LOW = []" "med_seq f d = [] \<longleftrightarrow> level_ids f d LEVEL_MEDIUM = []"
  unfolding low_seq_def med_seq_def by (cases "level_ids f d LEVEL_LOW"; cases "level_ids f d LEVEL_MEDIUM"; simp)+

lemma append_low_appends:
  assumes ok: "runlist_ok f d"
  shows "appends (nvgpu_runlist_append_low f d) (interleaved_seq f d)"
proof -
  let ?ids = "filter (tb (rd_active_tsgs d)) [0..<f_num_channels f]"
  have l: "appends (append_low_loop f d ?ids 0) (low_seq f d)"
    unfolding low_seq_def level_ids_def by (rule appends_countI, rule append_low_loop_appends[OF ok]) simp
  note m = append_med_appends[OF ok] and h = append_hi_appends[OF ok]
  consider (low) "low_seq f d \<noteq> []" | (med) "low_seq f d = []" "med_seq f d \<noteq> []" | (high) "low_seq f d = []" "med_seq f d = []"
    by blast
  then show ?thesis
  proof cases
    case low
    then have "interleaved_seq f d = low_seq f d" by (simp add: interleaved_seq_def seq_Nil_iff)
    then show ?thesis using l low runlist_ok_bits[OF ok]
      by (auto simp: appends_def nvgpu_runlist_append_low_def)
  next
    case med
    then have "interleaved_seq f d = med_seq f d" by (simp add: interleaved_seq_def seq_Nil_iff)
    then show ?thesis using l m med runlist_ok_bits[OF ok]
      by (auto simp: appends_def nvgpu_runlist_append_low_def)
  next
    case high
    then have "interleaved_seq f d = prio_seq f d LEVEL_HIGH" by (simp add: interleaved_seq_def seq_Nil_iff)
    then show ?thesis using l m h high runlist_ok_bits[OF ok]
      by (auto simp: appends_def nvgpu_runlist_append_low_def)
  qed
qed

lemma append_flat_appends:
  assumes ok: "runlist_ok f d"
  shows "appends (nvgpu_runlist_append_flat f d)
    (prio_seq f d LEVEL_HIGH @ prio_seq f d LEVEL_MEDIUM @ prio_seq f d LEVEL_LOW)"
proof -
  note [simp del] = append_flat_loop.simps
  have step: "append_flat_loop f d i = (\<lambda>n c. if i < 3 then
      add_count n (nvgpu_runlist_append_prio f d (2 - i) c) (append_flat_loop f d (i + 1)) else Some (Some n, c))" for i
    by (intro ext) (simp add: append_flat_loop.simps[of f d i])
  have 3: "appends_count (append_flat_loop f d 3) []" unfolding step[of 3] by (simp add: appends_count_def)
  have 2: "appends_count (append_flat_loop f d 2) (prio_seq f d LEVEL_LOW @ [])"
    unfolding step[of 2] using appends_add_count[OF append_prio_appends[OF ok] 3, of LEVEL_LOW] by simp
  have 1: "appends_count (append_flat_loop f d 1) (prio_seq f d LEVEL_MEDIUM @ prio_seq f d LEVEL_LOW @ [])"
    unfolding step[of 1] using appends_add_count[OF append_prio_appends[OF ok] 2, of LEVEL_MEDIUM]
    by (simp add: numeral_2_eq_2)
  have "appends_count (append_flat_loop f d 0) (prio_seq f d LEVEL_HIGH @ prio_seq f d LEVEL_MEDIUM @ prio_seq f d LEVEL_LOW @ [])"
    unfolding step[of 0] using appends_add_count[OF append_prio_appends[OF ok] 1, of LEVEL_HIGH] by simp
  from appends_countI[OF this] show ?thesis by (simp add: appends_def nvgpu_runlist_append_flat_def)
qed

text \<open>The cursor starts at the front of the buffer, so what is written is a prefix of it.\<close>

lemma construct_eq:
  assumes ok: "runlist_ok f d" and mem: "max_entries \<le> length (rm_entries (rd_mem d))" "max_entries \<le> U32_MAX"
  shows "nvgpu_runlist_construct_locked f d max_entries =
    (let w = take max_entries (runlist_seq f d) in
     Some (if length (runlist_seq f d) \<le> max_entries then Some (length (runlist_seq f d)) else None,
           d\<lparr>rd_mem := (rd_mem d)\<lparr>rm_entries := w @ drop (length w) (rm_entries (rd_mem d))\<rparr>\<rparr>))"
proof -
  let ?c = "\<lparr>cur_mem = rm_entries (rd_mem d), cur_pos = 0, cur_left = max_entries\<rparr>"
  let ?s = "\<lambda>c. if f_runlist_interleave f then nvgpu_runlist_append_low f d c else nvgpu_runlist_append_flat f d c"
  have "appends ?s (runlist_seq f d)"
    using append_low_appends[OF ok] append_flat_appends[OF ok] by (simp add: runlist_seq_def)
  moreover have "cur_ok ?c" using mem by (simp add: cur_ok_def)
  ultimately have "?s ?c = Some (if length (runlist_seq f d) \<le> max_entries then Some (length (runlist_seq f d)) else None,
      put (take max_entries (runlist_seq f d)) ?c)"
    using mem(2) unfolding appends_def by (metis rl_cursor.select_convs(3))
  then show ?thesis using put_mem[of ?c "take max_entries (runlist_seq f d)"] mem
    by (simp add: nvgpu_runlist_construct_locked_def Let_def)
qed

section \<open>Bookkeeping of active channels\<close>

text \<open>\<open>S\<close> are the TSGs bound to the domain. Their counters and bits agree with the bitmap of active
  channels, and only their channels are active in the domain.\<close>

definition tsg_sync :: "nvgpu_runlist_domain \<Rightarrow> nvgpu_tsg \<Rightarrow> bool" where
  "tsg_sync d t \<longleftrightarrow> num_active_channels t = length (active_chs d t) \<and> (tb (rd_active_tsgs d) (tsgid t) \<longleftrightarrow> active_chs d t \<noteq> [])"

definition tsgs_ok :: "nvgpu_fifo \<Rightarrow> bool" where
  "tsgs_ok f \<longleftrightarrow> (\<forall>i<f_num_channels f. tsgid (f_tsg f ! i) = i \<and> distinct (ch_list (f_tsg f ! i)) \<and>
       (\<forall>ch. f_ch_tsg f ch = Some i \<longleftrightarrow> ch \<in> set (ch_list (f_tsg f ! i))))"

definition active_ok :: "nat set \<Rightarrow> nvgpu_fifo \<Rightarrow> nvgpu_runlist_domain \<Rightarrow> bool" where
  "active_ok S f d \<longleftrightarrow> runlist_ok f d \<and> tsgs_ok f \<and> S \<subseteq> {..<f_num_channels f} \<and>
     (\<forall>i\<in>S. tsg_sync d (f_tsg f ! i)) \<and>
     (\<forall>i<f_num_channels f. i \<notin> S \<longrightarrow> \<not> tb (rd_active_tsgs d) i) \<and>
     (\<forall>ch<f_num_channels f. tb (rd_active_channels d) ch \<longrightarrow> (\<exists>i\<in>S. f_ch_tsg f ch = Some i))"

lemma length_filter_upd:
  assumes "distinct xs" "ch \<in> set xs" "\<And>x. P' x = (if x = ch then v else P x)"
  shows "length (filter P' xs) + (if P ch then 1 else 0) = length (filter P xs) + (if v then 1 else 0)"
  using assms(1,2)
proof (induction xs)
  case (Cons x xs)
  show ?case
  proof (cases "x = ch")
    case True
    then have "filter P' xs = filter P xs" using Cons.prems assms(3) by (intro filter_cong) auto
    moreover have "P' ch = v" using assms(3) by simp
    ultimately show ?thesis using True by simp
  next
    case False
    then show ?thesis using Cons assms(3) by auto
  qed
qed simp

lemma filter_upd_other:
  "ch \<notin> set xs \<Longrightarrow> (\<And>x. P' x = (if x = ch then v else P x)) \<Longrightarrow> filter P' xs = filter P xs"
  by (rule filter_cong) auto

lemma runlist_ok_ch:
  assumes "runlist_ok f d" "i < f_num_channels f"
  shows "scalable f (f_tsg f ! i)" "ch \<in> set (ch_list (f_tsg f ! i)) \<Longrightarrow> ch < f_num_channels f"
proof -
  have "f_tsg f ! i \<in> set (f_tsg f)" using assms by (simp add: runlist_ok_def)
  then show "scalable f (f_tsg f ! i)" "ch \<in> set (ch_list (f_tsg f ! i)) \<Longrightarrow> ch < f_num_channels f"
    using assms by (auto simp: runlist_ok_def)
qed

lemma active_ok_upd:
  assumes ok: "active_ok S f d" and i: "i \<in> S" and ch: "f_ch_tsg f ch = Some i"
    and bits: "length abits = length (rd_active_channels d)" "\<And>x. tb abits x = (if x = ch then v else tb (rd_active_channels d) x)"
    and tbits: "length tbits = length (rd_active_tsgs d)"
      "\<And>x. tb tbits x = (if x = i then n \<noteq> 0 else tb (rd_active_tsgs d) x)"
    and n: "n + (if tb (rd_active_channels d) ch then 1 else 0) = num_active_channels (f_tsg f ! i) + (if v then 1 else 0)"
  shows "active_ok S (f\<lparr>f_tsg := (f_tsg f)[i := (f_tsg f ! i)\<lparr>num_active_channels := n\<rparr>]\<rparr>)
           (d\<lparr>rd_active_channels := abits, rd_active_tsgs := tbits\<rparr>)"
    (is "active_ok S ?f ?d")
proof -
  let ?t = "f_tsg f ! i"
  have rok: "runlist_ok f d" and tok: "tsgs_ok f" and S: "S \<subseteq> {..<f_num_channels f}" using ok by (auto simp: active_ok_def)
  have il: "i < f_num_channels f" "i < length (f_tsg f)" using i S rok by (auto simp: runlist_ok_def)
  have chi: "ch \<in> set (ch_list ?t)" "distinct (ch_list ?t)" using tok il ch by (auto simp: tsgs_ok_def)
  have nth: "f_tsg ?f ! j = (if j = i then ?t\<lparr>num_active_channels := n\<rparr> else f_tsg f ! j)" for j
    using il by (simp add: nth_list_update)
  have "runlist_ok ?f ?d"
    using rok bits(1) tbits(1) il runlist_ok_ch[OF rok il(1)] unfolding runlist_ok_def
    by (auto simp: scalable_def dest!: set_update_subset_insert[THEN subsetD])
  moreover have "tsgs_ok ?f" using tok nth by (auto simp: tsgs_ok_def)
  moreover have "tsg_sync ?d (f_tsg ?f ! j)" if j: "j \<in> S" for j
  proof (cases "j = i")
    case True
    have "length (active_chs ?d ?t) + (if tb (rd_active_channels d) ch then 1 else 0) = length (active_chs d ?t) + (if v then 1 else 0)"
      using length_filter_upd[OF chi(2,1), of "tb abits" v "tb (rd_active_channels d)"] bits(2) by (simp add: active_chs_def)
    moreover have "num_active_channels ?t = length (active_chs d ?t)" using ok i by (simp add: active_ok_def tsg_sync_def)
    ultimately have "n = length (active_chs ?d ?t)" using n by simp
    then show ?thesis using True nth tbits(2) tok il by (auto simp: tsg_sync_def tsgs_ok_def active_chs_def)
  next
    case False
    have "j < f_num_channels f" using S j by auto
    then have "f_ch_tsg f ch = Some j \<longleftrightarrow> ch \<in> set (ch_list (f_tsg f ! j))" using tok by (simp add: tsgs_ok_def)
    then have "ch \<notin> set (ch_list (f_tsg f ! j))" using ch False by simp
    then have "active_chs ?d (f_tsg f ! j) = active_chs d (f_tsg f ! j)"
      using filter_upd_other[of ch _ "tb abits" v] bits(2) by (simp add: active_chs_def)
    moreover have "tsgid (f_tsg f ! j) = j" using tok S j by (auto simp: tsgs_ok_def)
    moreover have "tsg_sync d (f_tsg f ! j)" using ok j by (simp add: active_ok_def)
    ultimately show ?thesis using False nth tbits(2) by (simp add: tsg_sync_def)
  qed
  moreover have "\<not> tb tbits j" if "j < f_num_channels f" "j \<notin> S" for j using that ok i tbits(2) by (auto simp: active_ok_def)
  moreover have "\<exists>j\<in>S. f_ch_tsg f c = Some j" if "c < f_num_channels f" "tb abits c" for c
    using that ok bits(2) ch i by (cases "c = ch") (auto simp: active_ok_def)
  ultimately show ?thesis using S by (simp add: active_ok_def)
qed

lemma modify_active_eq:
  assumes ok: "active_ok S f d" and i: "i \<in> S" and ch: "f_ch_tsg f ch = Some i" and m: "num_active_channels (f_tsg f ! i) < U32_MAX"
  shows "\<exists>f' d'. nvgpu_runlist_modify_active_locked f d ch add = Some (tb (rd_active_channels d) ch \<noteq> add, f', d') \<and>
    active_ok S f' d' \<and> (\<forall>x. tb (rd_active_channels d') x = (if x = ch then add else tb (rd_active_channels d) x)) \<and>
    rd_mem d' = rd_mem d \<and> rd_mem_hw d' = rd_mem_hw d \<and> rd_name d' = rd_name d \<and>
    f_num_channels f' = f_num_channels f \<and> f_num_runlist_entries f' = f_num_runlist_entries f \<and>
    f_runlist_interleave f' = f_runlist_interleave f \<and> f_ptimer_src_freq f' = f_ptimer_src_freq f \<and> f_ch_tsg f' = f_ch_tsg f"
proof -
  let ?t = "f_tsg f ! i" and ?a = "rd_active_channels d" and ?b = "rd_active_tsgs d"
  have rok: "runlist_ok f d" and tok: "tsgs_ok f" and S: "S \<subseteq> {..<f_num_channels f}" using ok by (auto simp: active_ok_def)
  have il: "i < f_num_channels f" "i < length (f_tsg f)" using i S rok by (auto simp: runlist_ok_def)
  have t: "tsgid ?t = i" "ch \<in> set (ch_list ?t)" using tok il ch by (auto simp: tsgs_ok_def)
  have cl: "ch < 64 * length ?a" "i < 64 * length ?b"
    using rok runlist_ok_ch(2)[OF rok il(1) t(2)] il by (auto simp: runlist_ok_def)
  obtain sb where sb: "nvgpu_test_and_set_bit ch ?a = Some (tb ?a ch, sb)" "nvgpu_set_bit ch ?a = Some sb"
    using nvgpu_test_and_set_bit_correct[OF cl(1)] by auto
  then have sb': "length sb = length ?a" "\<And>x. tb sb x = (if x = ch then True else tb ?a x)" using nvgpu_set_bit_correct[OF cl(1)] by auto
  obtain cb where cb: "nvgpu_test_and_clear_bit ch ?a = Some (tb ?a ch, cb)" "nvgpu_clear_bit ch ?a = Some cb"
    using nvgpu_test_and_clear_bit_correct[OF cl(1)] by auto
  then have cb': "length cb = length ?a" "\<And>x. tb cb x = (if x = ch then False else tb ?a x)" using nvgpu_clear_bit_correct[OF cl(1)] by auto
  obtain st where st: "nvgpu_set_bit i ?b = Some st" "length st = length ?b" "\<And>x. tb st x = (x = i \<or> tb ?b x)"
    using nvgpu_set_bit_correct[OF cl(2)] by auto
  obtain ct where ct: "nvgpu_clear_bit i ?b = Some ct" "length ct = length ?b" "\<And>x. tb ct x = (x \<noteq> i \<and> tb ?b x)"
    using nvgpu_clear_bit_correct[OF cl(2)] by auto
  have sync: "num_active_channels ?t = length (active_chs d ?t)" "tb ?b i \<longleftrightarrow> active_chs d ?t \<noteq> []"
    using ok i t by (auto simp: active_ok_def tsg_sync_def)
  have pos: "tb ?a ch \<Longrightarrow> active_chs d ?t \<noteq> []" using t(2) by (auto simp: active_chs_def filter_empty_conv)
  let ?up = "\<lambda>n. f\<lparr>f_tsg := (f_tsg f)[i := ?t\<lparr>num_active_channels := n\<rparr>]\<rparr>"
  note U = active_ok_upd[OF ok i ch]
  have idf: "?up (num_active_channels ?t) = f" by simp
  note D = nvgpu_runlist_modify_active_locked_def set_tsg_def load_def store_def Let_def
  consider (addn) "add" "\<not> tb ?a ch" | (same) "tb ?a ch = add" | (del) "\<not> add" "tb ?a ch" by blast
  then show ?thesis
  proof cases
    case addn
    have "active_ok S (?up (num_active_channels ?t + 1)) (d\<lparr>rd_active_channels := sb, rd_active_tsgs := st\<rparr>)"
      using addn by (intro U[OF sb' st(2)]) (auto simp: st(3))
    then show ?thesis using addn ch sb st(1) t(1) il m sb'(2) by (simp add: D safe_add_u32_eq)
  next
    case same
    have "active_ok S f (d\<lparr>rd_active_channels := (if add then sb else cb), rd_active_tsgs := ?b\<rparr>)"
      using same U[of "if add then sb else cb" add ?b "num_active_channels ?t"] sb' cb' sync
      unfolding idf by auto
    then show ?thesis using same ch sb cb t(1) il sb'(2) cb'(2) by (cases add) (simp_all add: D)
  next
    case del
    let ?n = "num_active_channels ?t - 1"
    have p: "1 \<le> num_active_channels ?t" using pos del sync by (simp add: Suc_le_eq)
    have "active_ok S (?up ?n) (d\<lparr>rd_active_channels := cb, rd_active_tsgs := (if ?n = 0 then ct else ?b)\<rparr>)"
      using del p pos sync by (intro U[OF cb']) (auto simp: ct)
    then show ?thesis using del p ch cb ct(1) t(1) il cb'(2)
      by (cases "num_active_channels ?t = Suc 0") (simp_all add: D safe_sub_u32_eq)
  qed
qed

section \<open>How often a TSG is scheduled\<close>

fun is_tsg :: "u32 \<Rightarrow> rl_entry \<Rightarrow> bool" where
  "is_tsg i (Tsg_entry t _ _) = (t = i)"
| "is_tsg i (Ch_entry _) = False"

definition tsg_runs :: "u32 \<Rightarrow> rl_entry list \<Rightarrow> nat" where
  "tsg_runs i es = length (filter (is_tsg i) es)"

lemma tsg_runs_append [simp]: "tsg_runs i (xs @ ys) = tsg_runs i xs + tsg_runs i ys" "tsg_runs i [] = 0"
  by (simp_all add: tsg_runs_def)

lemma tsg_runs_concat: "tsg_runs i (concat (map g js)) = sum_list (map (\<lambda>j. tsg_runs i (g j)) js)"
  by (induction js) auto

lemma tsg_runs_tsg_seq: "tsg_runs i (tsg_seq f d j) = (if tsgid (f_tsg f ! j) = i then 1 else 0)"
  by (simp add: tsg_runs_def tsg_seq_def Let_def filter_map comp_def)

lemma sum_list_if_distinct: "distinct js \<Longrightarrow> sum_list (map (\<lambda>j. if j = i then 1 else 0) js) = (if i \<in> set js then 1 else (0::nat))"
  by (induction js) auto

lemma level_ids_simps: "distinct (level_ids f d l)"
  "i \<in> set (level_ids f d l) \<longleftrightarrow> i < f_num_channels f \<and> tb (rd_active_tsgs d) i \<and> interleave_level (f_tsg f ! i) = l"
  by (auto simp: level_ids_def)

lemma runs_level:
  assumes "tsgs_ok f"
  shows "sum_list (map (\<lambda>j. tsg_runs i (tsg_seq f d j)) (level_ids f d l)) = (if i \<in> set (level_ids f d l) then 1 else 0)"
proof -
  have "map (\<lambda>j. tsg_runs i (tsg_seq f d j)) (level_ids f d l) = map (\<lambda>j. if j = i then 1 else 0) (level_ids f d l)"
    using assms by (auto simp: tsg_runs_tsg_seq tsgs_ok_def level_ids_simps)
  then show ?thesis by (simp only: sum_list_if_distinct[OF level_ids_simps(1)])
qed

lemma sum_list_add_const: "sum_list (map (\<lambda>j. (c::nat) + g j) js) = length js * c + sum_list (map g js)"
  by (induction js) auto

lemma runs_prio: "tsgs_ok f \<Longrightarrow> tsg_runs i (prio_seq f d l) = (if i \<in> set (level_ids f d l) then 1 else 0)"
  by (simp add: prio_seq_def tsg_runs_concat runs_level)

lemma runs_med: "tsgs_ok f \<Longrightarrow> tsg_runs i (med_seq f d) =
    length (level_ids f d LEVEL_MEDIUM) * (if i \<in> set (level_ids f d LEVEL_HIGH) then 1 else 0) +
    (if i \<in> set (level_ids f d LEVEL_MEDIUM) then 1 else 0)"
  by (simp add: med_seq_def tsg_runs_concat sum_list_add_const runs_prio runs_level)

lemma runs_low: "tsgs_ok f \<Longrightarrow> tsg_runs i (low_seq f d) =
    length (level_ids f d LEVEL_LOW) * (tsg_runs i (med_seq f d) + (if i \<in> set (level_ids f d LEVEL_HIGH) then 1 else 0)) +
    (if i \<in> set (level_ids f d LEVEL_LOW) then 1 else 0)"
  by (simp add: low_seq_def tsg_runs_concat sum_list_add_const runs_prio runs_level flip: add.assoc)

section \<open>How the hardware reads a runlist\<close>

text \<open>A TSG entry announces how many channel entries belong to it.\<close>

fun entry_ch :: "rl_entry \<Rightarrow> u32 option" where
  "entry_ch (Ch_entry c) = Some c"
| "entry_ch (Tsg_entry _ _ _) = None"

function hw_read :: "rl_entry list \<Rightarrow> (u32 \<times> u32 list) list option" where
  "hw_read [] = Some []"
| "hw_read (Ch_entry c # es) = None"
| "hw_read (Tsg_entry t n ts # es) =
     (if length es < n then None
      else do { chs \<leftarrow> those (map entry_ch (take n es)); rest \<leftarrow> hw_read (drop n es); Some ((t, chs) # rest) })"
  by pat_completeness auto
termination by (relation "measure length") auto

lemma those_map_Ch: "those (map entry_ch (map Ch_entry cs)) = Some cs"
  by (induction cs) auto

lemma hw_read_tsg_seq:
  assumes "num_active_channels (f_tsg f ! i) = length (active_chs d (f_tsg f ! i))"
  shows "hw_read (tsg_seq f d i @ es) =
    map_option ((#) (tsgid (f_tsg f ! i), active_chs d (f_tsg f ! i))) (hw_read es)"
  using assms those_map_Ch[of "active_chs d (f_tsg f ! i)"]
  by (cases "hw_read es") (simp_all add: tsg_seq_def Let_def)

lemma hw_read_concat:
  assumes "\<forall>i\<in>set is. num_active_channels (f_tsg f ! i) = length (active_chs d (f_tsg f ! i))"
  shows "hw_read (concat (map (tsg_seq f d) is)) = Some (map (\<lambda>i. (tsgid (f_tsg f ! i), active_chs d (f_tsg f ! i))) is)"
  using assms by (induction "is") (simp_all add: hw_read_tsg_seq)

text \<open>The order of the TSGs in a runlist.\<close>

definition runlist_order :: "nvgpu_fifo \<Rightarrow> nvgpu_runlist_domain \<Rightarrow> nat list" where
  "runlist_order f d =
     (let high = level_ids f d LEVEL_HIGH; med = level_ids f d LEVEL_MEDIUM; low = level_ids f d LEVEL_LOW;
          meds = concat (map (\<lambda>m. high @ [m]) med)
      in if \<not> f_runlist_interleave f then high @ med @ low
         else if low \<noteq> [] then concat (map (\<lambda>l. meds @ high @ [l]) low)
         else if med \<noteq> [] then meds else high)"

lemma concat_concat_map: "concat (map g (concat (map h xs))) = concat (map (\<lambda>x. concat (map g (h x))) xs)"
  by (induction xs) auto

lemma runlist_seq_order: "runlist_seq f d = concat (map (tsg_seq f d) (runlist_order f d))"
  by (simp add: runlist_seq_def runlist_order_def interleaved_seq_def prio_seq_def med_seq_def low_seq_def
      Let_def concat_concat_map)

lemma runlist_order_active:
  assumes "i \<in> set (runlist_order f d)"
  shows "i < f_num_channels f \<and> tb (rd_active_tsgs d) i"
  using assms by (auto simp: runlist_order_def Let_def level_ids_simps split: if_splits)

lemma active_ok_order:
  assumes "active_ok S f d" "i \<in> set (runlist_order f d)"
  shows "num_active_channels (f_tsg f ! i) = length (active_chs d (f_tsg f ! i))" "tsgid (f_tsg f ! i) = i"
proof -
  have "i < f_num_channels f" "tb (rd_active_tsgs d) i" using runlist_order_active[OF assms(2)] by auto
  then show "num_active_channels (f_tsg f ! i) = length (active_chs d (f_tsg f ! i))" "tsgid (f_tsg f ! i) = i"
    using assms(1) by (auto simp: active_ok_def tsg_sync_def tsgs_ok_def)
qed

lemma hw_read_runlist:
  assumes "active_ok S f d"
  shows "hw_read (runlist_seq f d) = Some (map (\<lambda>i. (i, active_chs d (f_tsg f ! i))) (runlist_order f d))"
  using hw_read_concat[of "runlist_order f d" f d] active_ok_order[OF assms] by (simp add: runlist_seq_order)

section \<open>Updates\<close>

text \<open>What the buffers hold is no part of the bookkeeping.\<close>

lemma active_chs_mem [simp]:
  "active_chs (d\<lparr>rd_mem := m\<rparr>) t = active_chs d t" "active_chs (d\<lparr>rd_mem_hw := m\<rparr>) t = active_chs d t"
  by (simp_all add: active_chs_def)

lemma runlist_ok_mem [simp]:
  "runlist_ok f (d\<lparr>rd_mem := m\<rparr>) = runlist_ok f d" "runlist_ok f (d\<lparr>rd_mem_hw := m\<rparr>) = runlist_ok f d"
  by (simp_all add: runlist_ok_def)

lemma active_ok_mem [simp]:
  "active_ok S f (d\<lparr>rd_mem := m\<rparr>) = active_ok S f d" "active_ok S f (d\<lparr>rd_mem_hw := m\<rparr>) = active_ok S f d"
  by (simp_all add: active_ok_def tsg_sync_def)

lemma level_ids_mem [simp]:
  "level_ids f (d\<lparr>rd_mem := m\<rparr>) l = level_ids f d l" "level_ids f (d\<lparr>rd_mem_hw := m\<rparr>) l = level_ids f d l"
  by (simp_all add: level_ids_def)

lemma runlist_order_mem [simp]:
  "runlist_order f (d\<lparr>rd_mem := m\<rparr>) = runlist_order f d" "runlist_order f (d\<lparr>rd_mem_hw := m\<rparr>) = runlist_order f d"
  by (simp_all add: runlist_order_def)

lemma tsg_seq_mem [simp]:
  "tsg_seq f (d\<lparr>rd_mem := m\<rparr>) = tsg_seq f d" "tsg_seq f (d\<lparr>rd_mem_hw := m\<rparr>) = tsg_seq f d"
  by (auto simp: tsg_seq_def Let_def)

lemma runlist_seq_mem [simp]:
  "runlist_seq f (d\<lparr>rd_mem := m\<rparr>) = runlist_seq f d" "runlist_seq f (d\<lparr>rd_mem_hw := m\<rparr>) = runlist_seq f d"
  by (simp_all add: runlist_seq_order)

text \<open>The buffer of a domain shows the sequence its bookkeeping asks for.\<close>

definition shows_runlist :: "nvgpu_fifo \<Rightarrow> nvgpu_runlist_domain \<Rightarrow> nvgpu_runlist_mem \<Rightarrow> bool" where
  "shows_runlist f d m \<longleftrightarrow> take (rm_count m) (rm_entries m) = runlist_seq f d"

lemma reconstruct_correct:
  assumes "runlist_ok f d" "f_num_runlist_entries f \<le> length (rm_entries (rd_mem d))" "f_num_runlist_entries f \<le> U32_MAX"
  shows "\<exists>m. length (rm_entries m) = length (rm_entries (rd_mem d)) \<and>
    nvgpu_runlist_reconstruct_locked f d True =
      Some (if length (runlist_seq f d) \<le> f_num_runlist_entries f then Inr () else Inl E2BIG, d\<lparr>rd_mem := m\<rparr>) \<and>
    (length (runlist_seq f d) \<le> f_num_runlist_entries f \<longrightarrow> shows_runlist f d m)"
proof (cases "length (runlist_seq f d) \<le> f_num_runlist_entries f")
  case True
  let ?m = "(rd_mem d)\<lparr>rm_entries := runlist_seq f d @ drop (length (runlist_seq f d)) (rm_entries (rd_mem d)),
                       rm_count := length (runlist_seq f d)\<rparr>"
  show ?thesis using construct_eq[OF assms] assms(2) True
    by (intro exI[of _ ?m]) (simp add: nvgpu_runlist_reconstruct_locked_def Let_def shows_runlist_def)
next
  case False
  let ?w = "take (f_num_runlist_entries f) (runlist_seq f d)"
  let ?m = "(rd_mem d)\<lparr>rm_entries := ?w @ drop (length ?w) (rm_entries (rd_mem d))\<rparr>"
  show ?thesis using construct_eq[OF assms] assms(2) False
    by (intro exI[of _ ?m]) (simp add: nvgpu_runlist_reconstruct_locked_def Let_def)
qed

text \<open>The active domain when \<open>hw_submit\<close> runs.\<close>

definition active_dom :: "nvgpu_runlist_domain option \<Rightarrow> nvgpu_runlist_domain \<Rightarrow> nvgpu_runlist_domain" where
  "active_dom other d = (case other of None \<Rightarrow> d | Some a \<Rightarrow> a)"

lemma update_eq:
  assumes ok: "active_ok S f d" and ch: "\<And>c. ch = Some c \<Longrightarrow> \<exists>i\<in>S. f_ch_tsg f c = Some i \<and> num_active_channels (f_tsg f ! i) < U32_MAX"
    and e: "f_num_runlist_entries f \<le> length (rm_entries (rd_mem d))" "f_num_runlist_entries f \<le> U32_MAX"
  shows "\<exists>ret sub f' d'. nvgpu_runlist_update_locked other wait_ret f d ch add w = Some (ret, sub, f', d') \<and>
    active_ok S f' d' \<and> f_ch_tsg f' = f_ch_tsg f \<and>
    (\<forall>x. tb (rd_active_channels d') x = (if ch = Some x then add else tb (rd_active_channels d) x)) \<and>
    (if \<exists>c. ch = Some c \<and> tb (rd_active_channels d) c = add
     then ret = Inr () \<and> sub = None \<and> rd_mem d' = rd_mem d \<and> rd_mem_hw d' = rd_mem_hw d
     else if ch = None \<and> \<not> add \<or> length (runlist_seq f' d') \<le> f_num_runlist_entries f
     then sub = Some (gk20a_runlist_hw_submit (active_dom other d')) \<and> ret = (if w then wait_ret else Inr ()) \<and> rd_mem d' = rd_mem_hw d \<and>
       gk20a_runlist_hw_submit d' = (if ch = None \<and> \<not> add then [] else runlist_seq f' d')
     else ret = Inl E2BIG \<and> sub = None \<and> rd_mem_hw d' = rd_mem_hw d)"
proof -
  obtain u f1 d1 where s: "(case ch of Some c \<Rightarrow> nvgpu_runlist_modify_active_locked f d c add | None \<Rightarrow> Some (True, f, d)) = Some (u, f1, d1)"
    "u \<longleftrightarrow> \<not> (\<exists>c. ch = Some c \<and> tb (rd_active_channels d) c = add)"
    "active_ok S f1 d1" "\<forall>x. tb (rd_active_channels d1) x = (if ch = Some x then add else tb (rd_active_channels d) x)"
    "rd_mem d1 = rd_mem d" "rd_mem_hw d1 = rd_mem_hw d" "f_num_runlist_entries f1 = f_num_runlist_entries f" "f_ch_tsg f1 = f_ch_tsg f"
  proof (cases ch)
    case None
    then show ?thesis using that[of True f d] ok by simp
  next
    case (Some c)
    then obtain i where i: "i \<in> S" "f_ch_tsg f c = Some i" "num_active_channels (f_tsg f ! i) < U32_MAX" using ch by blast
    obtain f1 d1 where "nvgpu_runlist_modify_active_locked f d c add = Some (tb (rd_active_channels d) c \<noteq> add, f1, d1)"
      "active_ok S f1 d1" "\<forall>x. tb (rd_active_channels d1) x = (if x = c then add else tb (rd_active_channels d) x)"
      "rd_mem d1 = rd_mem d" "rd_mem_hw d1 = rd_mem_hw d" "f_num_runlist_entries f1 = f_num_runlist_entries f" "f_ch_tsg f1 = f_ch_tsg f"
      using modify_active_eq[OF ok i, of add] by blast
    then show ?thesis using that[of "tb (rd_active_channels d) c \<noteq> add" f1 d1] Some by simp
  qed
  have upd: "nvgpu_runlist_update_locked other wait_ret f d ch add w =
    (if \<not> u then Some (Inr (), None, f1, d1)
     else do { (ret, d2) \<leftarrow> nvgpu_runlist_reconstruct_locked f1 d1 (ch \<noteq> None \<or> add);
       (case ret of Inl e \<Rightarrow> Some (Inl e, None, f1, d2)
        | Inr _ \<Rightarrow> (let d3 = d2\<lparr>rd_mem := rd_mem_hw d2, rd_mem_hw := rd_mem d2\<rparr>
            in Some (if w then wait_ret else Inr (), Some (gk20a_runlist_hw_submit (active_dom other d3)), f1, d3))) })"
    using s(1) unfolding nvgpu_runlist_update_locked_def active_dom_def Let_def by (cases ch) simp_all
  have "runlist_ok f1 d1" using s(3) by (simp add: active_ok_def)
  then obtain mm where r: "nvgpu_runlist_reconstruct_locked f1 d1 True =
      Some (if length (runlist_seq f1 d1) \<le> f_num_runlist_entries f1 then Inr () else Inl E2BIG, d1\<lparr>rd_mem := mm\<rparr>)"
    "length (runlist_seq f1 d1) \<le> f_num_runlist_entries f1 \<longrightarrow> shows_runlist f1 d1 mm"
    using reconstruct_correct[of f1 d1] e s(5,7) by auto
  consider (same) "\<not> u" | (clear) "u" "ch = None" "\<not> add"
    | (fits) "u" "ch \<noteq> None \<or> add" "length (runlist_seq f1 d1) \<le> f_num_runlist_entries f"
    | (big) "u" "ch \<noteq> None \<or> add" "\<not> length (runlist_seq f1 d1) \<le> f_num_runlist_entries f" by blast
  then show ?thesis
  proof cases
    case same
    then have "\<exists>c. ch = Some c \<and> tb (rd_active_channels d) c = add" using s(2) by simp
    note c = if_P[OF this]
    have "nvgpu_runlist_update_locked other wait_ret f d ch add w = Some (Inr (), None, f1, d1)" using same upd by simp
    then show ?thesis unfolding c using s(3-8) by (intro exI[of _ "Inr ()"] exI[of _ None] exI[of _ f1] exI[of _ d1]) simp
  next
    case clear
    let ?d = "d1\<lparr>rd_mem := rd_mem_hw d1, rd_mem_hw := (rd_mem d1)\<lparr>rm_count := 0\<rparr>\<rparr>"
    have "nvgpu_runlist_update_locked other wait_ret f d ch add w = Some (if w then wait_ret else Inr (), Some (gk20a_runlist_hw_submit (active_dom other ?d)), f1, ?d)"
      using clear upd by (simp add: nvgpu_runlist_reconstruct_locked_def Let_def)
    moreover have "gk20a_runlist_hw_submit ?d = []" by (simp add: gk20a_runlist_hw_submit_def)
    ultimately show ?thesis using clear s(3-8)
      by (intro exI[of _ "if w then wait_ret else Inr ()"] exI[of _ "Some (gk20a_runlist_hw_submit (active_dom other ?d))"] exI[of _ f1] exI[of _ ?d]) simp
  next
    case fits
    then have "\<not> (\<exists>c. ch = Some c \<and> tb (rd_active_channels d) c = add)" using s(2) by simp
    note c = if_not_P[OF this]
    let ?d = "d1\<lparr>rd_mem := rd_mem_hw d1, rd_mem_hw := mm\<rparr>"
    have "nvgpu_runlist_update_locked other wait_ret f d ch add w =
      Some (if w then wait_ret else Inr (), Some (gk20a_runlist_hw_submit (active_dom other ?d)), f1, ?d)" using fits s(7) upd r by (simp add: Let_def)
    moreover have "gk20a_runlist_hw_submit ?d = runlist_seq f1 ?d" using fits(3) r(2) s(7) by (simp add: gk20a_runlist_hw_submit_def shows_runlist_def)
    ultimately show ?thesis unfolding c using fits(2,3) s(3-8)
      by (intro exI[of _ "if w then wait_ret else Inr ()"] exI[of _ "Some (gk20a_runlist_hw_submit (active_dom other ?d))"] exI[of _ f1] exI[of _ ?d]) auto
  next
    case big
    then have "\<not> (\<exists>c. ch = Some c \<and> tb (rd_active_channels d) c = add)" using s(2) by simp
    note c = if_not_P[OF this]
    have "nvgpu_runlist_update_locked other wait_ret f d ch add w = Some (Inl E2BIG, None, f1, d1\<lparr>rd_mem := mm\<rparr>)" using big s(7) upd r by simp
    then show ?thesis unfolding c using big(2,3) s(3-8)
      by (intro exI[of _ "Inl E2BIG"] exI[of _ None] exI[of _ f1] exI[of _ "d1\<lparr>rd_mem := mm\<rparr>"]) auto
  qed
qed

lemma update_ch_eq:
  assumes ok: "active_ok S f d" and i: "i \<in> S" and ch: "f_ch_tsg f ch = Some i" and m: "num_active_channels (f_tsg f ! i) < U32_MAX"
    and e: "f_num_runlist_entries f \<le> length (rm_entries (rd_mem d))" "f_num_runlist_entries f \<le> U32_MAX"
  shows "\<exists>ret sub f' d'. nvgpu_runlist_update_locked other wait_ret f d (Some ch) add w = Some (ret, sub, f', d') \<and>
    active_ok S f' d' \<and> f_ch_tsg f' = f_ch_tsg f \<and>
    (\<forall>x. tb (rd_active_channels d') x = (if x = ch then add else tb (rd_active_channels d) x)) \<and>
    (ret = Inl E2BIG \<and> sub = None \<longrightarrow> rd_mem_hw d' = rd_mem_hw d)"
proof -
  have "\<exists>i\<in>S. f_ch_tsg f c = Some i \<and> num_active_channels (f_tsg f ! i) < U32_MAX" if "Some ch = Some c" for c using that i ch m by auto
  from update_eq[where other = other and wait_ret = wait_ret and add = add and w = w and ch = "Some ch", OF ok this e] show ?thesis by (auto split: if_splits)
qed

end
