(* ===== verification/Runlist_Properties.thy ===== *)
theory Runlist_Properties
  imports Runlist_Proofs
begin

text \<open>
  The properties of runlist construction and update, each with a witness on a domain of three
  TSGs, one per interleave level.
\<close>

section \<open>A small domain\<close>

definition demo_tsg :: "u32 \<Rightarrow> u32 \<Rightarrow> u32 list \<Rightarrow> u32 \<Rightarrow> nvgpu_tsg" where
  "demo_tsg i level chs n = \<lparr>tsgid = i, interleave_level = level, timeslice_us = 1000, ch_list = chs,
     num_active_channels = n, tsg_rl_domain = Some 0\<rparr>"

definition demo_fifo :: "u32 \<Rightarrow> nvgpu_fifo" where
  "demo_fifo n = \<lparr>f_num_channels = 4, f_runlist_entry_size = 16, f_num_runlist_entries = n,
     f_tsg = [demo_tsg 0 LEVEL_LOW [0, 3] 1, demo_tsg 1 LEVEL_MEDIUM [1] 1, demo_tsg 2 LEVEL_HIGH [2] 1,
              demo_tsg 3 LEVEL_LOW [] 0],
     f_ch_tsg = [0 \<mapsto> 0, 1 \<mapsto> 1, 2 \<mapsto> 2, 3 \<mapsto> 0], f_runlist_interleave = True,
     f_ptimer_src_freq = 31250000\<rparr>"

definition demo_domain :: "nvgpu_runlist_domain" where
  "demo_domain = \<lparr>rd_name = ''(default)'', rd_active_channels = [7], rd_active_tsgs = [7],
     rd_mem = \<lparr>rm_entries = replicate 16 (Ch_entry 0), rm_count = 0\<rparr>,
     rd_mem_hw = \<lparr>rm_entries = replicate 16 (Ch_entry 0), rm_count = 0\<rparr>\<rparr>"

lemma tb_demo: "tb [7] i \<longleftrightarrow> i < 3" if "i < 64"
proof -
  have "bit (7 :: ulong) i \<longleftrightarrow> i < 3"
    using bit_mask_iff[where 'a = ulong, of 3 i] that by (simp add: mask_eq_exp_minus_1)
  then show ?thesis using that by (simp add: tb_def)
qed

lemma less_4_cases: "i < (4::nat) \<longleftrightarrow> i = 0 \<or> i = 1 \<or> i = 2 \<or> i = 3" by auto

lemma demo_active: "active_chs demo_domain (demo_tsg 0 LEVEL_LOW [0, 3] 1) = [0]"
  "active_chs demo_domain (demo_tsg 1 LEVEL_MEDIUM [1] 1) = [1]"
  "active_chs demo_domain (demo_tsg 2 LEVEL_HIGH [2] 1) = [2]"
  "active_chs demo_domain (demo_tsg 3 LEVEL_LOW [] 0) = []"
  by (simp_all add: active_chs_def demo_tsg_def demo_domain_def tb_demo)

lemma demo_runlist_ok: "runlist_ok (demo_fifo n) demo_domain"
  by (simp add: runlist_ok_def demo_fifo_def demo_domain_def demo_tsg_def scalable_def)

lemma demo_nth: "f_tsg (demo_fifo n) ! 0 = demo_tsg 0 LEVEL_LOW [0, 3] 1" "f_tsg (demo_fifo n) ! 1 = demo_tsg 1 LEVEL_MEDIUM [1] 1"
  "f_tsg (demo_fifo n) ! 2 = demo_tsg 2 LEVEL_HIGH [2] 1" "f_tsg (demo_fifo n) ! 3 = demo_tsg 3 LEVEL_LOW [] 0"
  by (simp_all add: demo_fifo_def)

lemma demo_tsgs_ok: "tsgs_ok (demo_fifo n)"
  unfolding tsgs_ok_def
proof (intro allI impI)
  fix i assume "i < f_num_channels (demo_fifo n)"
  then consider "i = 0" | "i = 1" | "i = 2" | "i = 3" by (auto simp: demo_fifo_def less_4_cases)
  then show "tsgid (f_tsg (demo_fifo n) ! i) = i \<and> distinct (ch_list (f_tsg (demo_fifo n) ! i)) \<and>
      (\<forall>ch. f_ch_tsg (demo_fifo n) ch = Some i \<longleftrightarrow> ch \<in> set (ch_list (f_tsg (demo_fifo n) ! i)))"
    by cases (auto simp: demo_fifo_def demo_tsg_def split: if_splits)
qed

lemma demo_active_ok: "active_ok {0, 1, 2, 3} (demo_fifo n) demo_domain"
proof -
  have "tsg_sync demo_domain (f_tsg (demo_fifo n) ! i)" if "i \<in> {0, 1, 2, 3}" for i
  proof -
    have "tb (rd_active_tsgs demo_domain) j \<longleftrightarrow> j < 3" if "j < 64" for j using that by (simp add: demo_domain_def tb_demo)
    then have s: "tsg_sync demo_domain (demo_tsg 0 LEVEL_LOW [0, 3] 1)" "tsg_sync demo_domain (demo_tsg 1 LEVEL_MEDIUM [1] 1)"
      "tsg_sync demo_domain (demo_tsg 2 LEVEL_HIGH [2] 1)" "tsg_sync demo_domain (demo_tsg 3 LEVEL_LOW [] 0)"
      unfolding tsg_sync_def demo_active by (simp_all add: demo_tsg_def)
    consider "i = 0" | "i = 1" | "i = 2" | "i = 3" using \<open>i \<in> {0, 1, 2, 3}\<close> by auto
    then show ?thesis using s by cases (simp_all only: demo_nth)
  qed
  moreover have "\<exists>i\<in>{0, 1, 2, 3}. f_ch_tsg (demo_fifo n) ch = Some i" if "ch < 4" for ch
    using that by (auto simp: demo_fifo_def less_4_cases)
  ultimately show ?thesis unfolding active_ok_def using demo_runlist_ok demo_tsgs_ok
    by (simp add: less_4_cases) (simp add: demo_fifo_def less_4_cases)
qed

lemma demo_levels: "level_ids (demo_fifo n) demo_domain LEVEL_LOW = [0]" "level_ids (demo_fifo n) demo_domain LEVEL_MEDIUM = [1]"
  "level_ids (demo_fifo n) demo_domain LEVEL_HIGH = [2]"
proof -
  have "filter (tb (rd_active_tsgs demo_domain)) [0..<f_num_channels (demo_fifo n)] = [0, 1, 2]"
    by (simp add: demo_domain_def demo_fifo_def upt_rec tb_demo)
  then show "level_ids (demo_fifo n) demo_domain LEVEL_LOW = [0]" "level_ids (demo_fifo n) demo_domain LEVEL_MEDIUM = [1]"
    "level_ids (demo_fifo n) demo_domain LEVEL_HIGH = [2]"
    by (simp_all add: level_ids_def demo_fifo_def demo_tsg_def)
qed

lemma demo_order: "runlist_order (demo_fifo n) demo_domain = [2, 1, 2, 0]"
  using demo_levels by (simp add: runlist_order_def Let_def) (simp add: demo_fifo_def)

lemma demo_length: "length (runlist_seq (demo_fifo n) demo_domain) = 8"
  unfolding runlist_seq_order demo_order
  by (simp add: tsg_seq_def Let_def demo_nth[simplified] demo_active[simplified])

section \<open>Construction\<close>

text \<open>C25: \<open>nvgpu_runlist_construct_locked\<close> always returns, and writes exactly the sequence of the reference
  definition: in interleaved mode the active high TSGs before every medium one and before every low
  one, otherwise the levels from high to low. It reports the number of entries when they fit in
  \<open>max_entries\<close> and a failure exactly when they do not; nothing beyond \<open>max_entries\<close> is written and
  the buffer the hardware reads is not touched.\<close>

theorem runlist_construct_correct:
  assumes "runlist_ok f d" "max_entries \<le> length (rm_entries (rd_mem d))" "max_entries < U32_MAX"
  shows "\<exists>n d'. nvgpu_runlist_construct_locked f d max_entries = Some (n, d') \<and>
    (n = None \<longleftrightarrow> max_entries < length (runlist_seq f d)) \<and>
    (\<forall>k. n = Some k \<longrightarrow> k < U32_MAX \<and> take k (rm_entries (rd_mem d')) = runlist_seq f d) \<and>
    length (rm_entries (rd_mem d')) = length (rm_entries (rd_mem d)) \<and>
    drop max_entries (rm_entries (rd_mem d')) = drop max_entries (rm_entries (rd_mem d)) \<and>
    rd_mem_hw d' = rd_mem_hw d"
  using construct_eq[OF assms(1,2)] assms(2,3) by (auto simp: Let_def)

theorem runlist_construct_correct_witness:
  "\<exists>d'. nvgpu_runlist_construct_locked (demo_fifo 16) demo_domain 16 = Some (Some 8, d') \<and>
     take 8 (rm_entries (rd_mem d')) = runlist_seq (demo_fifo 16) demo_domain"
proof -
  have "16 \<le> length (rm_entries (rd_mem demo_domain))" by (simp add: demo_domain_def)
  then obtain n d' where n: "nvgpu_runlist_construct_locked (demo_fifo 16) demo_domain 16 = Some (n, d')"
      "n = None \<longleftrightarrow> 16 < length (runlist_seq (demo_fifo 16) demo_domain)"
      "\<forall>k. n = Some k \<longrightarrow> k < U32_MAX \<and> take k (rm_entries (rd_mem d')) = runlist_seq (demo_fifo 16) demo_domain"
      "length (rm_entries (rd_mem d')) = length (rm_entries (rd_mem demo_domain))"
    using runlist_construct_correct[OF demo_runlist_ok, of 16 16] by auto
  then obtain k where k: "n = Some k" using demo_length by (cases n) auto
  moreover have "nvgpu_runlist_construct_locked (demo_fifo 16) demo_domain 16 \<noteq> Some (Some k, d') \<or> k = 8"
    using construct_eq[OF demo_runlist_ok, of 16 16] by (auto simp: demo_domain_def[symmetric] demo_length Let_def)
      (simp add: demo_domain_def)
  ultimately show ?thesis using n by auto
qed

text \<open>C32: How often a TSG is scheduled in one pass of an interleaved runlist: a low TSG once, a medium
  TSG once for every low one, a high TSG once for every low TSG and once more for every pair of a low
  and a medium one (with no low TSGs, once per medium; with neither, once). Without interleaving
  every active TSG appears exactly once; an inactive TSG never does.\<close>

theorem runlist_interleave_frequency:
  assumes "runlist_ok f d" "tsgs_ok f" "max_entries \<le> length (rm_entries (rd_mem d))" "max_entries < U32_MAX"
    and "nvgpu_runlist_construct_locked f d max_entries = Some (Some n, d')" "i < f_num_channels f"
  shows "tsg_runs i (take n (rm_entries (rd_mem d'))) =
    (let L = length (level_ids f d LEVEL_LOW); M = length (level_ids f d LEVEL_MEDIUM); l = interleave_level (f_tsg f ! i) in
     if \<not> tb (rd_active_tsgs d) i \<or> LEVEL_HIGH < l then 0
     else if \<not> f_runlist_interleave f \<or> l = LEVEL_LOW then 1
     else if l = LEVEL_MEDIUM then (if L = 0 then 1 else L)
     else if 0 < L then L * (M + 1) else if 0 < M then M else 1)"
proof -
  have t: "take n (rm_entries (rd_mem d')) = runlist_seq f d"
    using construct_eq[OF assms(1,3)] assms(3,4,5) by (auto simp: Let_def split: if_splits)
  have m: "i \<in> set (level_ids f d l) \<longleftrightarrow> tb (rd_active_tsgs d) i \<and> interleave_level (f_tsg f ! i) = l" for l
    using assms(6) by (simp add: level_ids_simps)
  have z: "length (level_ids f d l) = 0 \<Longrightarrow> \<not> (tb (rd_active_tsgs d) i \<and> interleave_level (f_tsg f ! i) = l)" for l
    using m[of l] by auto
  show ?thesis
  proof (cases "f_runlist_interleave f")
    case True
    show ?thesis using z[of 0] z[of 1] z[of 2] True unfolding t runlist_seq_def interleaved_seq_def
      by (auto simp: Let_def runs_prio[OF assms(2)] runs_med[OF assms(2)] runs_low[OF assms(2)] m algebra_simps)
  next
    case False
    then show ?thesis unfolding t runlist_seq_def by (auto simp: Let_def runs_prio[OF assms(2)] m)
  qed
qed

theorem runlist_interleave_frequency_witness:
  "\<exists>d'. nvgpu_runlist_construct_locked (demo_fifo 16) demo_domain 16 = Some (Some 8, d') \<and>
     tsg_runs 2 (take 8 (rm_entries (rd_mem d'))) = 2"
proof -
  obtain d' where d: "nvgpu_runlist_construct_locked (demo_fifo 16) demo_domain 16 = Some (Some 8, d')"
    using construct_eq[OF demo_runlist_ok, of 16 16] by (auto simp: demo_length Let_def) (simp add: demo_domain_def)
  have "tsg_runs 2 (take 8 (rm_entries (rd_mem d'))) = 2"
    using runlist_interleave_frequency[OF demo_runlist_ok demo_tsgs_ok _ _ d, of 2]
    by (simp add: demo_levels[simplified] demo_nth Let_def)
       (simp add: demo_fifo_def demo_domain_def demo_tsg_def tb_demo)
  then show ?thesis using d by blast
qed

section \<open>Updates\<close>

text \<open>C26: What \<open>nvgpu_runlist_update_locked\<close> does for one channel (\<open>ch = Some c\<close>), for all (\<open>None\<close>, \<open>add\<close>) or to clear the runlist (\<open>None\<close>,
  not \<open>add\<close>). The bookkeeping of active channels, counters and active TSGs is consistent again afterwards, with exactly that channel's bit
  changed. A channel already in the asked state changes nothing and nothing is submitted. Otherwise, when the new runlist fits (or is to be empty), the
  buffers of the domain are swapped, and \<^emph>\<open>after that\<close> the buffer of the runlist's active domain is submitted: what this domain would submit reads back
  as every TSG with its active channels, and that is what the hardware gets when this domain is the active one (\<open>other = None\<close>); when another
  domain is active, the hardware gets that domain's buffer again. When the runlist does not fit the call fails with \<open>E2BIG\<close>, nothing is
  submitted, and the buffer the hardware reads is unchanged.\<close>

theorem runlist_update_correct:
  assumes "active_ok S f d" "\<And>c. ch = Some c \<Longrightarrow> \<exists>i\<in>S. f_ch_tsg f c = Some i \<and> num_active_channels (f_tsg f ! i) < U32_MAX"
    and "f_num_runlist_entries f \<le> length (rm_entries (rd_mem d))" "f_num_runlist_entries f < U32_MAX"
  shows "\<exists>ret sub f' d'. nvgpu_runlist_update_locked other wait_ret f d ch add w = Some (ret, sub, f', d') \<and>
    active_ok S f' d' \<and>
    (\<forall>x. tb (rd_active_channels d') x = (if ch = Some x then add else tb (rd_active_channels d) x)) \<and>
    (if \<exists>c. ch = Some c \<and> tb (rd_active_channels d) c = add
     then ret = Inr () \<and> sub = None \<and> rd_mem d' = rd_mem d \<and> rd_mem_hw d' = rd_mem_hw d
     else if ch = None \<and> \<not> add \<or> length (runlist_seq f' d') \<le> f_num_runlist_entries f
     then ret = (if w then wait_ret else Inr ()) \<and> rd_mem d' = rd_mem_hw d \<and>
       hw_read (gk20a_runlist_hw_submit d') =
         Some (if ch = None \<and> \<not> add then [] else map (\<lambda>t. (t, active_chs d' (f_tsg f' ! t))) (runlist_order f' d')) \<and>
       sub = Some (gk20a_runlist_hw_submit (case other of None \<Rightarrow> d' | Some a \<Rightarrow> a))
     else ret = Inl E2BIG \<and> sub = None \<and> rd_mem_hw d' = rd_mem_hw d)"
proof -
  have e: "f_num_runlist_entries f \<le> U32_MAX" using assms(4) by simp
  obtain ret sub f' d' where u:
    "nvgpu_runlist_update_locked other wait_ret f d ch add w = Some (ret, sub, f', d')" "active_ok S f' d'"
    "\<forall>x. tb (rd_active_channels d') x = (if ch = Some x then add else tb (rd_active_channels d) x)"
    "if \<exists>c. ch = Some c \<and> tb (rd_active_channels d) c = add
     then ret = Inr () \<and> sub = None \<and> rd_mem d' = rd_mem d \<and> rd_mem_hw d' = rd_mem_hw d
     else if ch = None \<and> \<not> add \<or> length (runlist_seq f' d') \<le> f_num_runlist_entries f
     then sub = Some (gk20a_runlist_hw_submit (active_dom other d')) \<and> ret = (if w then wait_ret else Inr ()) \<and> rd_mem d' = rd_mem_hw d \<and>
       gk20a_runlist_hw_submit d' = (if ch = None \<and> \<not> add then [] else runlist_seq f' d')
     else ret = Inl E2BIG \<and> sub = None \<and> rd_mem_hw d' = rd_mem_hw d"
    using update_eq[where ch = ch and other = other and wait_ret = wait_ret and add = add and w = w, OF assms(1-3) e] by blast
  have n: "hw_read [] = Some []" by simp
  show ?thesis using u hw_read_runlist[OF u(2)] n
    by (intro exI[of _ ret] exI[of _ sub] exI[of _ f'] exI[of _ d']) (auto simp: active_dom_def split: if_splits)
qed

theorem runlist_update_correct_witness:
  "\<exists>ret sub f' d'. nvgpu_runlist_update_locked None (Inr ()) (demo_fifo 16) demo_domain (Some 3) True True = Some (ret, sub, f', d') \<and>
     active_ok {0, 1, 2, 3} f' d' \<and> tb (rd_active_channels d') 3"
proof -
  have "\<exists>i\<in>{0, 1, 2, 3}. f_ch_tsg (demo_fifo 16) c = Some i \<and> num_active_channels (f_tsg (demo_fifo 16) ! i) < U32_MAX" if "Some 3 = Some c" for c
    using that by (intro bexI[of _ 0]) (auto simp: demo_fifo_def demo_tsg_def)
  moreover have "f_num_runlist_entries (demo_fifo 16) \<le> length (rm_entries (rd_mem demo_domain))" "f_num_runlist_entries (demo_fifo 16) < U32_MAX"
    by (simp_all add: demo_fifo_def demo_domain_def)
  ultimately show ?thesis using runlist_update_correct[OF demo_active_ok, of "Some 3" 16 None "Inr ()" True True] by auto
qed

text \<open>C33: When the new runlist does not fit, \<open>nvgpu_runlist_update_locked\<close> reports \<open>E2BIG\<close> but keeps the
  channel's bit in its new state: asking for the same change again is then taken for no change, and
  reports success without ever having submitted the channel to the hardware.\<close>

theorem runlist_update_e2big_retry:
  assumes "active_ok S f d" "i \<in> S" "f_ch_tsg f ch = Some i" "num_active_channels (f_tsg f ! i) < U32_MAX"
    and "f_num_runlist_entries f \<le> length (rm_entries (rd_mem d))" "f_num_runlist_entries f < U32_MAX"
    and "nvgpu_runlist_update_locked other wait_ret f d (Some ch) add w = Some (Inl E2BIG, None, f', d')"
    and "num_active_channels (f_tsg f' ! i) < U32_MAX"
    and "tb (rd_active_channels d) ch \<noteq> add"
  shows "\<exists>f2 d2. nvgpu_runlist_update_locked other wait_ret f' d' (Some ch) add w = Some (Inr (), None, f2, d2) \<and>
    rd_mem_hw d2 = rd_mem_hw d"
proof -
  have e: "f_num_runlist_entries f \<le> U32_MAX" using assms(6) by simp
  have u: "active_ok S f' d'" "f_ch_tsg f' = f_ch_tsg f" "tb (rd_active_channels d') ch = add" "rd_mem_hw d' = rd_mem_hw d"
    using update_ch_eq[OF assms(1-5) e, of other wait_ret add w] assms(7,9) by (auto split: if_splits)
  obtain f2 d2 where m: "nvgpu_runlist_modify_active_locked f' d' ch add = Some (False, f2, d2)" "rd_mem_hw d2 = rd_mem_hw d'"
    using modify_active_eq[OF u(1) assms(2) _ assms(8), of ch add] u(2,3) assms(3) by auto
  then show ?thesis using u(4) by (simp add: nvgpu_runlist_update_locked_def)
qed

definition demo_fifo_added :: "u32 \<Rightarrow> nvgpu_fifo" where
  "demo_fifo_added n = (demo_fifo n)\<lparr>f_tsg := (f_tsg (demo_fifo n))[0 := demo_tsg 0 LEVEL_LOW [0, 3] 2]\<rparr>"

lemma demo_modify: "nvgpu_runlist_modify_active_locked (demo_fifo n) demo_domain 3 True =
    Some (True, demo_fifo_added n, demo_domain\<lparr>rd_active_channels := [15]\<rparr>)"
  by (simp add: nvgpu_runlist_modify_active_locked_def demo_fifo_added_def demo_fifo_def demo_domain_def demo_tsg_def
      nvgpu_test_and_set_bit_def nvgpu_set_bit_def load_def store_def get_index_def get_mask_def set_tsg_def
      nvgpu_safe_add_u32_def Let_def)

lemma demo_added_ok: "runlist_ok (demo_fifo_added n) (demo_domain\<lparr>rd_active_channels := [15]\<rparr>)"
  by (simp add: runlist_ok_def demo_fifo_added_def demo_fifo_def demo_domain_def demo_tsg_def scalable_def)

lemma demo_added_big: "0 < length (runlist_seq (demo_fifo_added 0) (demo_domain\<lparr>rd_active_channels := [15]\<rparr>))"
proof -
  have "filter (tb (rd_active_tsgs demo_domain)) [0..<f_num_channels (demo_fifo 0)] = [0, 1, 2]"
    by (simp add: demo_domain_def demo_fifo_def upt_rec tb_demo)
  then have "level_ids (demo_fifo_added 0) (demo_domain\<lparr>rd_active_channels := [15]\<rparr>) LEVEL_LOW = [0]"
    by (simp add: level_ids_def demo_fifo_added_def) (simp add: demo_fifo_def demo_tsg_def)
  then have "runlist_order (demo_fifo_added 0) (demo_domain\<lparr>rd_active_channels := [15]\<rparr>) \<noteq> []"
    by (simp add: runlist_order_def Let_def)
  then show ?thesis by (auto simp: runlist_seq_order)
qed

theorem runlist_update_e2big_retry_witness:
  "\<exists>f' d' f2 d2. nvgpu_runlist_update_locked None (Inr ()) (demo_fifo 0) demo_domain (Some 3) True True = Some (Inl E2BIG, None, f', d') \<and>
     nvgpu_runlist_update_locked None (Inr ()) f' d' (Some 3) True True = Some (Inr (), None, f2, d2) \<and>
     rd_mem_hw d2 = rd_mem_hw demo_domain"
proof -
  have r: "nvgpu_runlist_reconstruct_locked (demo_fifo_added 0) (demo_domain\<lparr>rd_active_channels := [15]\<rparr>) True =
      Some (Inl E2BIG, d')" if "d' = demo_domain\<lparr>rd_active_channels := [15]\<rparr>" for d'
    using construct_eq[OF demo_added_ok, of 0 0] demo_added_big that
    by (simp add: nvgpu_runlist_reconstruct_locked_def Let_def) (simp add: demo_fifo_added_def demo_fifo_def)
  then have u: "nvgpu_runlist_update_locked None (Inr ()) (demo_fifo 0) demo_domain (Some 3) True True =
      Some (Inl E2BIG, None, demo_fifo_added 0, demo_domain\<lparr>rd_active_channels := [15]\<rparr>)"
    by (simp add: nvgpu_runlist_update_locked_def demo_modify)
  have h: "f_ch_tsg (demo_fifo 0) 3 = Some 0" "num_active_channels (f_tsg (demo_fifo 0) ! 0) < U32_MAX"
    "f_num_runlist_entries (demo_fifo 0) \<le> length (rm_entries (rd_mem demo_domain))"
    "f_num_runlist_entries (demo_fifo 0) < U32_MAX" "num_active_channels (f_tsg (demo_fifo_added 0) ! 0) < U32_MAX"
    "tb (rd_active_channels demo_domain) 3 \<noteq> True"
    by (simp_all add: demo_fifo_def demo_fifo_added_def demo_tsg_def demo_domain_def tb_demo)
  from runlist_update_e2big_retry[OF demo_active_ok _ h(1-4) u h(5,6)] u show ?thesis by blast
qed

end
