(* ===== verification/Nvsched.thy ===== *)
theory Nvsched
  imports Ring
begin

text \<open>
  The scheduler core of \<^verbatim>\<open>nvsched/src\<close>: the event log (\<^verbatim>\<open>logging.c\<close>), the singly linked list of
  domains with its tail pointer (\<^verbatim>\<open>domain.c\<close>) and the life of a scheduler (\<^verbatim>\<open>sched.c\<close>).

  Domains live in an explicit store from addresses to records, so that the \<open>next\<close> and \<open>last\<close> pointers
  of the code are pointers here too; \<open>sd_fresh\<close> is the address the next successful \<open>nvs_malloc\<close>
  returns. Reading through an address that holds nothing stops the machine. Whether an allocation
  fails and what the clock shows are arguments.
\<close>

section \<open>The event log\<close>

datatype nvs_event = NVS_EV_NO_EVENT | NVS_EV_CREATE_SCHED | NVS_EV_CREATE_DOMAIN | NVS_EV_REMOVE_DOMAIN

record nvs_log_event =
  ev_timestamp :: u64
  ev_data :: u32
  ev_event :: nvs_event

record nvs_log_buffer =
  lb_events :: "nvs_log_event list"
  lb_entries :: u32
  lb_get :: u32
  lb_put :: u32
  lb_ts_offset :: u64

abbreviation (input) NVS_LOG_ENTRIES :: nat where "NVS_LOG_ENTRIES \<equiv> 65536"

definition LOG_INC :: "u32 \<Rightarrow> u32 \<Rightarrow> u32" where
  "LOG_INC v mx = (let v' = wrap32 (v + 1) in if v' \<ge> mx then 0 else v')"

definition nvs_log_full :: "nvs_log_buffer \<Rightarrow> bool" where
  "nvs_log_full logger = (LOG_INC (lb_put logger) (lb_entries logger) = lb_get logger)"

definition zero_event :: nvs_log_event where
  "zero_event = \<lparr>ev_timestamp = 0, ev_data = 0, ev_event = NVS_EV_NO_EVENT\<rparr>"

text \<open>\<open>now\<close> is \<open>nvs_timestamp()\<close>; the two flags say whether the two allocations fail.\<close>

definition nvs_log_init :: "bool \<Rightarrow> bool \<Rightarrow> u64 \<Rightarrow> nvs_log_buffer result" where
  "nvs_log_init oom_logger oom_events now =
     (if oom_logger then Inl ENOMEM
      else if oom_events then Inl ENOMEM
      else Inr \<lparr>lb_events = replicate NVS_LOG_ENTRIES zero_event, lb_entries = NVS_LOG_ENTRIES,
                lb_get = 0, lb_put = 0, lb_ts_offset = now\<rparr>)"

definition nvs_log_event_op :: "u64 \<Rightarrow> nvs_log_buffer \<Rightarrow> nvs_event \<Rightarrow> u32 \<Rightarrow> nvs_log_buffer option" where
  "nvs_log_event_op now logger event dat =
     do {
       let logger = (if nvs_log_full logger then logger\<lparr>lb_get := LOG_INC (lb_get logger) (lb_entries logger)\<rparr> else logger);
       es \<leftarrow> store (lb_events logger) (lb_put logger)
              \<lparr>ev_timestamp = wsub64 now (lb_ts_offset logger), ev_data = dat, ev_event = event\<rparr>;
       Some (logger\<lparr>lb_events := es, lb_put := LOG_INC (lb_put logger) (lb_entries logger)\<rparr>) }"

text \<open>\<open>None\<close> as an event is \<open>NVS_EV_NO_EVENT\<close>, whose other fields the call leaves as they were.\<close>

definition nvs_log_get :: "nvs_log_buffer \<Rightarrow> (nvs_log_event option \<times> nvs_log_buffer) option" where
  "nvs_log_get logger =
     (if lb_get logger = lb_put logger then Some (None, logger)
      else do {
        ev \<leftarrow> load (lb_events logger) (lb_get logger);
        Some (Some ev, logger\<lparr>lb_get := LOG_INC (lb_get logger) (lb_entries logger)\<rparr>) })"

section \<open>Domains\<close>

record nvs_domain =
  nd_name :: string
  nd_next :: "nat option"
  nd_timeslice_ns :: u64
  nd_preempt_grace_ns :: u64
  nd_priv :: nat

record nvs_sched =
  sd_heap :: "nat \<rightharpoonup> nvs_domain"
  sd_nr :: u32
  sd_domains :: "nat option"
  sd_last :: "nat option"
  sd_log :: nvs_log_buffer
  sd_fresh :: nat

text \<open>\<open>strncpy\<close> into a zeroed array of 32 characters, of which the last is left.\<close>

definition copy_name :: "string \<Rightarrow> string" where
  "copy_name name = take 31 name"

definition upd_dom :: "nat \<Rightarrow> (nvs_domain \<Rightarrow> nvs_domain) \<Rightarrow> nvs_sched \<Rightarrow> nvs_sched option" where
  "upd_dom p g sched = do { d \<leftarrow> sd_heap sched p; Some (sched\<lparr>sd_heap := (sd_heap sched)(p \<mapsto> g d)\<rparr>) }"

definition nvs_sched_create :: "bool \<Rightarrow> bool \<Rightarrow> bool \<Rightarrow> u64 \<Rightarrow> u64 \<Rightarrow> nvs_sched result option" where
  "nvs_sched_create oom_list oom_logger oom_events now now' =
     (if oom_list then Some (Inl ENOMEM)
      else case nvs_log_init oom_logger oom_events now of
        Inl e \<Rightarrow> Some (Inl e)
      | Inr logger \<Rightarrow> do {
          logger \<leftarrow> nvs_log_event_op now' logger NVS_EV_CREATE_SCHED 0;
          Some (Inr \<lparr>sd_heap = Map.empty, sd_nr = 0, sd_domains = None, sd_last = None, sd_log = logger, sd_fresh = 0\<rparr>) })"

definition nvs_domain_create ::
    "bool \<Rightarrow> u64 \<Rightarrow> nvs_sched \<Rightarrow> string \<Rightarrow> u64 \<Rightarrow> u64 \<Rightarrow> nat \<Rightarrow> (nat option \<times> nvs_sched) option" where
  "nvs_domain_create oom now sched name timeslice preempt_grace priv =
     (if oom then Some (None, sched)
      else do {
        let dm = sd_fresh sched;
        let d = \<lparr>nd_name = copy_name name, nd_next = None, nd_timeslice_ns = timeslice,
                 nd_preempt_grace_ns = preempt_grace, nd_priv = priv\<rparr>;
        logger \<leftarrow> nvs_log_event_op now (sd_log sched) NVS_EV_CREATE_DOMAIN 0;
        let sched = sched\<lparr>sd_heap := (sd_heap sched)(dm \<mapsto> d), sd_fresh := dm + 1, sd_log := logger,
                          sd_nr := wrap32 (sd_nr sched + 1)\<rparr>;
        (if sd_domains sched = None
         then Some (Some dm, sched\<lparr>sd_domains := Some dm, sd_last := Some dm\<rparr>)
         else do {
           l \<leftarrow> sd_last sched;
           sched \<leftarrow> upd_dom l (\<lambda>x. x\<lparr>nd_next := Some dm\<rparr>) sched;
           Some (Some dm, sched\<lparr>sd_last := Some dm\<rparr>) }) })"

text \<open>The walk of \<open>nvs_domain_unlink\<close> from \<open>tmp\<close>; nothing happens when the end is reached.\<close>

partial_function (option) unlink_loop :: "nat \<Rightarrow> nvs_domain \<Rightarrow> nat option \<Rightarrow> nvs_sched \<Rightarrow> nvs_sched option" where
  "unlink_loop dm d tmp sched =
     (case tmp of
        None \<Rightarrow> Some sched
      | Some t \<Rightarrow> Option.bind (sd_heap sched t) (\<lambda>td.
          if nd_next td = Some dm
          then Option.bind (upd_dom t (\<lambda>x. x\<lparr>nd_next := nd_next d\<rparr>) sched) (\<lambda>sched.
            Some (if sd_last sched = Some dm then sched\<lparr>sd_last := Some t\<rparr> else sched))
          else unlink_loop dm d (nd_next td) sched))"

definition nvs_domain_unlink :: "nvs_sched \<Rightarrow> nat \<Rightarrow> nvs_sched option" where
  "nvs_domain_unlink sched dm =
     do {
       d \<leftarrow> sd_heap sched dm;
       if sd_domains sched = Some dm
       then do {
         let sched = sched\<lparr>sd_domains := nd_next d\<rparr>;
         Some (if sd_last sched = Some dm then sched\<lparr>sd_last := None\<rparr> else sched) }
       else unlink_loop dm d (sd_domains sched) sched }"

definition nvs_domain_destroy :: "u64 \<Rightarrow> nvs_sched \<Rightarrow> nat \<Rightarrow> nvs_sched option" where
  "nvs_domain_destroy now sched dm =
     do {
       logger \<leftarrow> nvs_log_event_op now (sd_log sched) NVS_EV_REMOVE_DOMAIN 0;
       sched \<leftarrow> nvs_domain_unlink (sched\<lparr>sd_log := logger\<rparr>) dm;
       Some (sched\<lparr>sd_heap := (sd_heap sched)(dm := None), sd_nr := wsub32 (sd_nr sched) 1\<rparr>) }"

partial_function (option) nvs_domain_clear_all :: "u64 \<Rightarrow> nvs_sched \<Rightarrow> nvs_sched option" where
  "nvs_domain_clear_all now sched =
     (case sd_domains sched of
        None \<Rightarrow> Some sched
      | Some p \<Rightarrow> Option.bind (nvs_domain_destroy now sched p) (nvs_domain_clear_all now))"

text \<open>Closing frees the list head and the log as well: what is left is what is still in the store.\<close>

definition nvs_sched_close :: "u64 \<Rightarrow> nvs_sched \<Rightarrow> (nat \<rightharpoonup> nvs_domain) option" where
  "nvs_sched_close now sched = do { sched \<leftarrow> nvs_domain_clear_all now sched; Some (sd_heap sched) }"

definition nvs_domain_count :: "nvs_sched \<Rightarrow> u32" where
  "nvs_domain_count sched = sd_nr sched"

partial_function (option) by_name_loop :: "(nat \<rightharpoonup> nvs_domain) \<Rightarrow> string \<Rightarrow> nat option \<Rightarrow> nat option option" where
  "by_name_loop h name p =
     (case p of
        None \<Rightarrow> Some None
      | Some q \<Rightarrow> Option.bind (h q) (\<lambda>d. if nd_name d = name then Some (Some q) else by_name_loop h name (nd_next d)))"

definition nvs_domain_by_name :: "nvs_sched \<Rightarrow> string \<Rightarrow> nat option option" where
  "nvs_domain_by_name sched name = by_name_loop (sd_heap sched) name (sd_domains sched)"

section \<open>The log keeps the latest events\<close>

definition log_ok :: "nvs_log_buffer \<Rightarrow> bool" where
  "log_ok l \<longleftrightarrow> length (lb_events l) = lb_entries l \<and> 1 < lb_entries l \<and> lb_entries l \<le> U32_MAX \<and>
     lb_get l < lb_entries l \<and> lb_put l < lb_entries l"

definition log_content :: "nvs_log_buffer \<Rightarrow> nvs_log_event list" where
  "log_content l = ring_content (lb_events l) (lb_get l) (lb_put l)"

lemma LOG_INC_mod: "v < n \<Longrightarrow> n \<le> U32_MAX \<Longrightarrow> LOG_INC v n = Suc v mod n"
  by (auto simp: LOG_INC_def Let_def ring_next_cases)

text \<open>The newest \<open>k\<close> of a list, oldest first.\<close>

definition latest :: "nat \<Rightarrow> 'a list \<Rightarrow> 'a list" where
  "latest k xs = drop (length xs - k) xs"

lemma log_event_correct:
  assumes ok: "log_ok l"
  shows "\<exists>l'. nvs_log_event_op now l ev dat = Some l' \<and> log_ok l' \<and> lb_entries l' = lb_entries l \<and> lb_ts_offset l' = lb_ts_offset l \<and>
    log_content l' = latest (lb_entries l - 1)
      (log_content l @ [\<lparr>ev_timestamp = wsub64 now (lb_ts_offset l), ev_data = dat, ev_event = ev\<rparr>])"
proof -
  let ?n = "lb_entries l" and ?g = "lb_get l" and ?p = "lb_put l" and ?xs = "lb_events l"
  let ?e = "\<lparr>ev_timestamp = wsub64 now (lb_ts_offset l), ev_data = dat, ev_event = ev\<rparr>"
  have b: "?g < ?n" "?p < ?n" "1 < ?n" "length ?xs = ?n" "?n \<le> U32_MAX" using ok by (auto simp: log_ok_def)
  have inc: "LOG_INC ?p ?n = Suc ?p mod ?n" "LOG_INC ?g ?n = Suc ?g mod ?n" using b by (auto simp: LOG_INC_mod)
  have len: "length (log_content l) = ring_used ?n ?g ?p" using b by (simp add: log_content_def)
  show ?thesis
  proof (cases "Suc ?p mod ?n = ?g")
    case False
    let ?l = "l\<lparr>lb_events := ?xs[?p := ?e], lb_put := Suc ?p mod ?n\<rparr>"
    have "nvs_log_event_op now l ev dat = Some ?l" using False b inc
      by (simp add: nvs_log_event_op_def nvs_log_full_def store_def)
    moreover have "log_content ?l = log_content l @ [?e]"
      using ring_content_push[of ?g "?xs[?p := ?e]" ?p] ring_content_store[of ?g ?xs ?p ?e] False b
      by (simp add: log_content_def)
    moreover have "ring_used ?n ?g ?p < ?n - 1"
      using ring_full[OF b(1,2)] ring_used_less[of ?n ?g ?p] False b by auto
    ultimately show ?thesis using b len by (auto simp: log_ok_def latest_def)
  next
    case True
    let ?g' = "Suc ?g mod ?n"
    let ?l = "l\<lparr>lb_get := ?g', lb_events := ?xs[?p := ?e], lb_put := Suc ?p mod ?n\<rparr>"
    have ne: "?g \<noteq> ?p" using True b by (auto simp: ring_next_cases split: if_splits)
    have ne': "Suc ?p mod ?n \<noteq> ?g'" using True b by (auto simp: ring_next_cases split: if_splits)
    have u: "ring_used ?n ?g ?p = ?n - 1" using ring_full[OF b(1,2)] True by simp
    have "nvs_log_event_op now l ev dat = Some ?l" using True b inc
      by (simp add: nvs_log_event_op_def nvs_log_full_def store_def)
    moreover have "log_content ?l = ring_content ?xs ?g' ?p @ [?e]"
      using ring_content_push[of ?g' "?xs[?p := ?e]" ?p] ring_content_store[of ?g' ?xs ?p ?e] ne' b
      by (simp add: log_content_def)
    moreover have "log_content l = ?xs ! ?g # ring_content ?xs ?g' ?p"
      using ring_content_pop[of ?g ?xs ?p] ne b by (simp add: log_content_def)
    ultimately show ?thesis using b len u by (auto simp: log_ok_def latest_def)
  qed
qed

lemma log_get_correct:
  assumes ok: "log_ok l"
  shows "\<exists>l'. nvs_log_get l = Some (case log_content l of [] \<Rightarrow> None | e # _ \<Rightarrow> Some e, l') \<and> log_ok l' \<and>
    lb_entries l' = lb_entries l \<and> log_content l' = tl (log_content l)"
proof -
  let ?n = "lb_entries l" and ?g = "lb_get l" and ?p = "lb_put l" and ?xs = "lb_events l"
  have b: "?g < ?n" "?p < ?n" "length ?xs = ?n" "?n \<le> U32_MAX" using ok by (auto simp: log_ok_def)
  show ?thesis
  proof (cases "?g = ?p")
    case True
    then show ?thesis using ok b by (simp add: nvs_log_get_def log_content_def)
  next
    case False
    then show ?thesis using ring_content_pop[of ?g ?xs ?p] b ok
      by (simp add: nvs_log_get_def log_content_def load_def LOG_INC_mod log_ok_def)
  qed
qed

lemma log_init_correct: "nvs_log_init False False now = Inr l \<Longrightarrow> log_ok l \<and> log_content l = []"
  by (auto simp: nvs_log_init_def log_ok_def log_content_def)

fun log_all :: "nvs_log_buffer \<Rightarrow> (u64 \<times> nvs_event \<times> u32) list \<Rightarrow> nvs_log_buffer option" where
  "log_all l [] = Some l"
| "log_all l ((now, ev, dat) # es) = do { l \<leftarrow> nvs_log_event_op now l ev dat; log_all l es }"

definition log_entry :: "u64 \<Rightarrow> u64 \<times> nvs_event \<times> u32 \<Rightarrow> nvs_log_event" where
  "log_entry off e = (case e of (now, ev, dat) \<Rightarrow> \<lparr>ev_timestamp = wsub64 now off, ev_data = dat, ev_event = ev\<rparr>)"

lemma latest_append: "latest k (latest k xs @ ys) = latest k (xs @ ys)"
  by (cases "length xs \<le> k") (auto simp: latest_def add.commute)

lemma log_all_correct:
  "log_ok l \<Longrightarrow> \<exists>l'. log_all l es = Some l' \<and> log_ok l' \<and>
    log_content l' = latest (lb_entries l - 1) (log_content l @ map (log_entry (lb_ts_offset l)) es)"
proof (induction es arbitrary: l)
  case Nil
  have "length (log_content l) < lb_entries l" using Nil ring_used_less[of "lb_entries l" "lb_get l" "lb_put l"]
    by (auto simp: log_content_def log_ok_def)
  then show ?case using Nil by (simp add: latest_def)
next
  case (Cons e es)
  obtain now ev dat where e: "e = (now, ev, dat)" by (cases e)
  obtain l1 where l1: "nvs_log_event_op now l ev dat = Some l1" "log_ok l1" "lb_entries l1 = lb_entries l"
    "lb_ts_offset l1 = lb_ts_offset l" "log_content l1 = latest (lb_entries l - 1) (log_content l @ [log_entry (lb_ts_offset l) e])"
    using log_event_correct[OF Cons.prems, of now ev dat] by (auto simp: e log_entry_def)
  then show ?case using Cons.IH[OF l1(2)] by (simp add: e latest_append)
qed

section \<open>The linked list of domains\<close>

text \<open>\<open>path h p xs q\<close>: following \<open>next\<close> from \<open>p\<close> passes the addresses \<open>xs\<close> and arrives at \<open>q\<close>.\<close>

fun path :: "(nat \<rightharpoonup> nvs_domain) \<Rightarrow> nat option \<Rightarrow> nat list \<Rightarrow> nat option \<Rightarrow> bool" where
  "path h p [] q \<longleftrightarrow> p = q"
| "path h p (x # xs) q \<longleftrightarrow> p = Some x \<and> (\<exists>d. h x = Some d \<and> path h (nd_next d) xs q)"

lemma path_append: "path h p (xs @ ys) r \<longleftrightarrow> (\<exists>q. path h p xs q \<and> path h q ys r)"
  by (induction xs arbitrary: p) auto

lemma path_upd [simp]: "x \<notin> set xs \<Longrightarrow> path (h(x := v)) p xs q = path h p xs q"
  by (induction xs arbitrary: p) auto

lemma path_dom: "path h p xs q \<Longrightarrow> set xs \<subseteq> dom h"
  by (induction xs arbitrary: p) auto

text \<open>A scheduler that holds the domains \<open>ps\<close>, in this order.\<close>

definition sched_ok :: "nvs_sched \<Rightarrow> nat list \<Rightarrow> bool" where
  "sched_ok s ps \<longleftrightarrow> path (sd_heap s) (sd_domains s) ps None \<and> distinct ps \<and> dom (sd_heap s) = set ps \<and>
     sd_last s = (if ps = [] then None else Some (last ps)) \<and> sd_nr s = length ps \<and> length ps \<le> U32_MAX \<and>
     (\<forall>p\<in>set ps. p < sd_fresh s) \<and> log_ok (sd_log s)"

text \<open>What a domain is apart from its link.\<close>

definition dom_info :: "(nat \<rightharpoonup> nvs_domain) \<Rightarrow> nat \<Rightarrow> nvs_domain" where
  "dom_info h p = (the (h p))\<lparr>nd_next := None\<rparr>"

lemma by_name_loop_path:
  "path h p ps None \<Longrightarrow> by_name_loop h name p = Some (find (\<lambda>q. nd_name (dom_info h q) = name) ps)"
proof (induction ps arbitrary: p)
  case Nil
  then show ?case by (simp add: by_name_loop.simps)
next
  case (Cons x xs)
  then obtain d where d: "p = Some x" "h x = Some d" "path h (nd_next d) xs None" by auto
  then show ?case using Cons.IH[OF d(3)] by (subst by_name_loop.simps) (simp add: dom_info_def)
qed

lemma by_name_correct:
  "sched_ok s ps \<Longrightarrow> nvs_domain_by_name s name = Some (find (\<lambda>q. nd_name (dom_info (sd_heap s) q) = name) ps)"
  by (simp add: sched_ok_def nvs_domain_by_name_def by_name_loop_path)

lemma sched_create_ok:
  assumes "nvs_sched_create False False False now now' = Some (Inr s)"
  shows "sched_ok s []"
proof -
  obtain l where l: "nvs_log_init False False now = Inr l" by (simp add: nvs_log_init_def)
  obtain l' where l': "nvs_log_event_op now' l NVS_EV_CREATE_SCHED 0 = Some l'" "log_ok l'"
    using log_event_correct log_init_correct[OF l] by blast
  then show ?thesis using assms l by (auto simp: nvs_sched_create_def sched_ok_def)
qed

lemma domain_create_ok:
  assumes ok: "sched_ok s ps" and nr: "length ps < U32_MAX"
  shows "\<exists>s'. nvs_domain_create False now s name ts gr priv = Some (Some (sd_fresh s), s') \<and> sched_ok s' (ps @ [sd_fresh s]) \<and>
    sd_fresh s' = sd_fresh s + 1 \<and>
    dom_info (sd_heap s') (sd_fresh s) = \<lparr>nd_name = copy_name name, nd_next = None, nd_timeslice_ns = ts,
      nd_preempt_grace_ns = gr, nd_priv = priv\<rparr> \<and>
    (\<forall>p\<in>set ps. dom_info (sd_heap s') p = dom_info (sd_heap s) p)"
proof -
  let ?f = "sd_fresh s" and ?d = "\<lparr>nd_name = copy_name name, nd_next = None, nd_timeslice_ns = ts, nd_preempt_grace_ns = gr, nd_priv = priv\<rparr>"
  obtain l' where l': "nvs_log_event_op now (sd_log s) NVS_EV_CREATE_DOMAIN 0 = Some l'" "log_ok l'"
    using log_event_correct ok unfolding sched_ok_def by blast
  have f: "?f \<notin> set ps" using ok by (auto simp: sched_ok_def)
  show ?thesis
  proof (cases ps rule: rev_cases)
    case Nil
    then have "sd_domains s = None" using ok by (simp add: sched_ok_def)
    then show ?thesis using Nil ok l' by (auto simp: nvs_domain_create_def sched_ok_def dom_info_def Let_def)
  next
    case (snoc xs x)
    obtain q d where q: "path (sd_heap s) (sd_domains s) xs q" "q = Some x" "sd_heap s x = Some d" "nd_next d = None"
      using ok snoc by (auto simp: sched_ok_def path_append)
    have x: "x \<notin> set xs" "x \<noteq> ?f" "?f \<notin> set xs" "sd_domains s \<noteq> None" "sd_last s = Some x"
      using ok snoc f q by (auto simp: sched_ok_def path_append) (cases xs; auto)
    let ?h = "(sd_heap s)(?f \<mapsto> ?d, x \<mapsto> d\<lparr>nd_next := Some ?f\<rparr>)"
    let ?s = "s\<lparr>sd_heap := ?h, sd_fresh := ?f + 1, sd_log := l', sd_nr := wrap32 (sd_nr s + 1), sd_last := Some ?f\<rparr>"
    have c: "nvs_domain_create False now s name ts gr priv = Some (Some ?f, ?s)"
      using l' x q by (auto simp: nvs_domain_create_def upd_dom_def Let_def)
    have "path ?h (sd_domains s) (ps @ [?f]) None" using q x snoc by (auto simp: path_append)
    then have "sched_ok ?s (ps @ [?f])" using ok nr l' f by (auto simp: sched_ok_def snoc)
    moreover have "dom_info ?h p = dom_info (sd_heap s) p" if "p \<in> set ps" for p
      using that f q by (auto simp: dom_info_def)
    moreover have "dom_info ?h ?f = ?d" using x by (simp add: dom_info_def)
    ultimately show ?thesis using c by auto
  qed
qed

lemma unlink_loop_path:
  assumes "path (sd_heap s) p (xs @ [t]) (Some dm)" "distinct (xs @ [t])" "dm \<notin> set (xs @ [t])"
  shows "unlink_loop dm d p s = do { s' \<leftarrow> upd_dom t (\<lambda>x. x\<lparr>nd_next := nd_next d\<rparr>) s;
           Some (if sd_last s' = Some dm then s'\<lparr>sd_last := Some t\<rparr> else s') }"
  using assms
proof (induction xs arbitrary: p)
  case Nil
  then show ?case by (subst unlink_loop.simps) auto
next
  case (Cons x xs)
  then obtain dx where x: "p = Some x" "sd_heap s x = Some dx" "path (sd_heap s) (nd_next dx) (xs @ [t]) (Some dm)" by auto
  then have "nd_next dx \<noteq> Some dm" using Cons.prems(3) by (cases xs) auto
  then show ?case using x Cons.IH[OF x(3)] Cons.prems by (subst unlink_loop.simps) simp
qed

lemma domain_unlink_ok:
  assumes ok: "sched_ok s (as @ dm # bs)"
  shows "\<exists>s'. nvs_domain_unlink s dm = Some s' \<and> path (sd_heap s') (sd_domains s') (as @ bs) None \<and>
    dom (sd_heap s') = dom (sd_heap s) \<and> sd_last s' = (if as @ bs = [] then None else Some (last (as @ bs))) \<and>
    sd_nr s' = sd_nr s \<and> sd_fresh s' = sd_fresh s \<and> sd_log s' = sd_log s \<and>
    (\<forall>p. dom_info (sd_heap s') p = dom_info (sd_heap s) p)"
proof -
  let ?h = "sd_heap s"
  obtain d where p: "path ?h (sd_domains s) as (Some dm)" "?h dm = Some d" "path ?h (nd_next d) bs None"
    using ok by (auto simp: sched_ok_def path_append)
  have dist: "distinct (as @ dm # bs)" and last: "sd_last s = Some (last (dm # bs))" using ok by (auto simp: sched_ok_def)
  show ?thesis
  proof (cases as rule: rev_cases)
    case Nil
    then have "sd_domains s = Some dm" using p by simp
    moreover have "last (dm # bs) = dm \<longleftrightarrow> bs = []" using dist by (cases bs) (auto dest: last_in_set)
    ultimately show ?thesis using p last Nil by (auto simp: nvs_domain_unlink_def Let_def)
  next
    case (snoc xs t)
    have hd: "sd_domains s \<noteq> Some dm" using p(1) dist snoc by (cases xs) auto
    obtain dt where t: "?h t = Some dt" "path ?h (sd_domains s) xs (Some t)" "nd_next dt = Some dm"
      using p(1) snoc by (auto simp: path_append)
    let ?h' = "?h(t \<mapsto> dt\<lparr>nd_next := nd_next d\<rparr>)"
    let ?s = "s\<lparr>sd_heap := ?h', sd_last := (if bs = [] then Some t else sd_last s)\<rparr>"
    have l: "last (dm # bs) = dm \<longleftrightarrow> bs = []" using dist by (cases bs) (auto dest: last_in_set)
    have "nvs_domain_unlink s dm = Some ?s"
      using unlink_loop_path[of s "sd_domains s" xs t dm d] p snoc dist hd t last l
      by (auto simp: nvs_domain_unlink_def upd_dom_def)
    moreover have "path ?h' (sd_domains s) (as @ bs) None"
      using t p(3) dist snoc by (auto simp: path_append)
    moreover have "dom_info ?h' q = dom_info ?h q" for q using t by (simp add: dom_info_def)
    moreover have "last (as @ bs) = (if bs = [] then t else last bs)" using snoc by simp
    ultimately show ?thesis using t snoc last by (auto simp: insert_absorb domI)
  qed
qed

lemma domain_destroy_ok:
  assumes ok: "sched_ok s (as @ dm # bs)"
  shows "\<exists>s'. nvs_domain_destroy now s dm = Some s' \<and> sched_ok s' (as @ bs) \<and> sd_fresh s' = sd_fresh s \<and>
    (\<forall>p. p \<noteq> dm \<longrightarrow> dom_info (sd_heap s') p = dom_info (sd_heap s) p)"
proof -
  obtain l' where l': "nvs_log_event_op now (sd_log s) NVS_EV_REMOVE_DOMAIN 0 = Some l'" "log_ok l'"
    using log_event_correct ok unfolding sched_ok_def by blast
  have ok': "sched_ok (s\<lparr>sd_log := l'\<rparr>) (as @ dm # bs)" using ok l' by (simp add: sched_ok_def)
  obtain s1 where s1: "nvs_domain_unlink (s\<lparr>sd_log := l'\<rparr>) dm = Some s1" "path (sd_heap s1) (sd_domains s1) (as @ bs) None"
    "dom (sd_heap s1) = dom (sd_heap s)" "sd_last s1 = (if as @ bs = [] then None else Some (last (as @ bs)))"
    "sd_nr s1 = sd_nr s" "sd_fresh s1 = sd_fresh s" "sd_log s1 = l'" "\<forall>p. dom_info (sd_heap s1) p = dom_info (sd_heap s) p"
    using domain_unlink_ok[OF ok'] by auto
  have d: "dm \<notin> set (as @ bs)" "distinct (as @ bs)" using ok by (auto simp: sched_ok_def)
  have nr: "sd_nr s = Suc (length (as @ bs))" "Suc (length (as @ bs)) \<le> U32_MAX" using ok by (auto simp: sched_ok_def)
  let ?s = "s1\<lparr>sd_heap := (sd_heap s1)(dm := None), sd_nr := length (as @ bs)\<rparr>"
  have "nvs_domain_destroy now s dm = Some ?s" using l' s1(1,5) nr by (simp add: nvs_domain_destroy_def)
  moreover have "sched_ok ?s (as @ bs)" using ok s1 d nr l'(2) by (auto simp: sched_ok_def)
  moreover have "dom_info ((sd_heap s1)(dm := None)) p = dom_info (sd_heap s) p" if "p \<noteq> dm" for p
    using that s1(8) by (simp add: dom_info_def)
  ultimately show ?thesis using s1(6) by auto
qed

lemma clear_all_ok: "sched_ok s ps \<Longrightarrow> \<exists>s'. nvs_domain_clear_all now s = Some s' \<and> sched_ok s' []"
proof (induction ps arbitrary: s)
  case Nil
  then have "sd_domains s = None" by (simp add: sched_ok_def)
  then show ?case using Nil by (subst nvs_domain_clear_all.simps) simp
next
  case (Cons p ps)
  then have p: "sd_domains s = Some p" by (simp add: sched_ok_def)
  obtain s1 where "nvs_domain_destroy now s p = Some s1" "sched_ok s1 ps" using domain_destroy_ok[of s "[]" p ps] Cons.prems by auto
  then show ?case using Cons.IH[of s1] p by (subst nvs_domain_clear_all.simps) simp
qed

section \<open>Properties\<close>

text \<open>Every state the operations reach, with the list of domains the specification asks for.\<close>

inductive sched_reach :: "nvs_sched \<Rightarrow> nat list \<Rightarrow> bool" where
  start: "nvs_sched_create False False False now now' = Some (Inr s) \<Longrightarrow> sched_reach s []"
| create: "sched_reach s ps \<Longrightarrow> length ps < U32_MAX \<Longrightarrow>
     nvs_domain_create oom now s name ts gr priv = Some (r, s') \<Longrightarrow>
     sched_reach s' (case r of None \<Rightarrow> ps | Some p \<Rightarrow> ps @ [p])"
| destroy: "sched_reach s ps \<Longrightarrow> p \<in> set ps \<Longrightarrow> nvs_domain_destroy now s p = Some s' \<Longrightarrow>
     sched_reach s' (remove1 p ps)"

lemma sched_reach_ok: "sched_reach s ps \<Longrightarrow> sched_ok s ps"
proof (induction rule: sched_reach.induct)
  case (start now now' s)
  then show ?case by (rule sched_create_ok)
next
  case (create s ps oom now name ts gr priv r s')
  then show ?case using domain_create_ok[OF create.IH create.hyps(2), of now name ts gr priv]
    by (cases oom) (auto simp: nvs_domain_create_def)
next
  case (destroy s ps p now s')
  then obtain as bs where ps: "ps = as @ p # bs" "p \<notin> set as" using split_list_first by metis
  then show ?case using domain_destroy_ok[of s as p bs now] destroy by (auto simp: remove1_append)
qed

text \<open>C38: The linked list of scheduling domains refines a list. Whatever domains are created and destroyed,
  in whatever order and with whichever allocations failing, the \<open>next\<close> pointers from the head pass
  exactly the domains of the specification's list in order, the tail pointer and the count agree with
  it, a lookup finds the first domain of that name, a further destroy or create always returns, and
  clearing the scheduler ends and leaves no domain allocated.\<close>

theorem nvs_domain_list_refines:
  assumes "sched_reach s ps"
  shows "path (sd_heap s) (sd_domains s) ps None \<and> distinct ps \<and> dom (sd_heap s) = set ps \<and>
    sd_last s = (if ps = [] then None else Some (last ps)) \<and> nvs_domain_count s = length ps \<and>
    nvs_domain_by_name s name = Some (find (\<lambda>q. nd_name (dom_info (sd_heap s) q) = name) ps) \<and>
    (\<forall>p\<in>set ps. nvs_domain_destroy now s p \<noteq> None) \<and>
    (length ps < U32_MAX \<longrightarrow> nvs_domain_create oom now s name ts gr priv \<noteq> None) \<and>
    nvs_sched_close now s = Some Map.empty"
proof -
  note ok = sched_reach_ok[OF assms]
  have "nvs_domain_destroy now s p \<noteq> None" if p: "p \<in> set ps" for p
  proof -
    obtain as bs where "ps = as @ p # bs" using split_list[OF p] by blast
    then show ?thesis using domain_destroy_ok[of s as p bs now] ok by auto
  qed
  moreover have "nvs_domain_create oom now s name ts gr priv \<noteq> None" if "length ps < U32_MAX"
    using domain_create_ok[OF ok that, of now name ts gr priv] by (cases oom) (auto simp: nvs_domain_create_def)
  moreover have "nvs_sched_close now s = Some Map.empty"
    using clear_all_ok[OF ok, of now] by (auto simp: nvs_sched_close_def sched_ok_def)
  moreover note by_name_correct[OF ok, of name]
  ultimately show ?thesis using ok by (simp add: sched_ok_def nvs_domain_count_def)
qed

theorem nvs_domain_list_refines_witness:
  "\<exists>s s1 s2. nvs_sched_create False False False 0 0 = Some (Inr s) \<and>
     nvs_domain_create False 1 s ''a'' 100 0 7 = Some (Some 0, s1) \<and>
     nvs_domain_create False 2 s1 ''b'' 100 0 8 = Some (Some 1, s2) \<and>
     path (sd_heap s2) (sd_domains s2) [0, 1] None \<and> nvs_domain_count s2 = 2"
proof -
  obtain l where l: "nvs_log_init False False 0 = Inr l" by (simp add: nvs_log_init_def)
  obtain s where s: "nvs_sched_create False False False 0 0 = Some (Inr s)" "sd_fresh s = 0"
    using log_event_correct[of l 0 NVS_EV_CREATE_SCHED 0] log_init_correct[OF l] l by (auto simp: nvs_sched_create_def)
  have r0: "sched_reach s []" using s by (auto intro: sched_reach.start)
  obtain s1 where s1: "nvs_domain_create False 1 s ''a'' 100 0 7 = Some (Some 0, s1)" "sd_fresh s1 = 1"
    using domain_create_ok[OF sched_reach_ok[OF r0]] s(2) by fastforce
  have r1: "sched_reach s1 [0]" using sched_reach.create[OF r0 _ s1(1)] by simp
  obtain s2 where s2: "nvs_domain_create False 2 s1 ''b'' 100 0 8 = Some (Some 1, s2)"
    using domain_create_ok[OF sched_reach_ok[OF r1], of 2 "''b''" 100 0 8] s1(2) by auto
  have r2: "sched_reach s2 [0, 1]" using sched_reach.create[OF r1 _ s2] by simp
  show ?thesis using s(1) s1(1) s2 nvs_domain_list_refines[OF r2] by auto
qed

fun log_take :: "nat \<Rightarrow> nvs_log_buffer \<Rightarrow> (nvs_log_event option list \<times> nvs_log_buffer) option" where
  "log_take 0 l = Some ([], l)"
| "log_take (Suc n) l = do { (e, l) \<leftarrow> nvs_log_get l; (es, l) \<leftarrow> log_take n l; Some (e # es, l) }"

lemma log_take_correct:
  "log_ok l \<Longrightarrow> \<exists>l'. log_take (length (log_content l)) l = Some (map Some (log_content l), l') \<and> log_ok l' \<and> log_content l' = []"
proof (induction "log_content l" arbitrary: l)
  case (Cons e es)
  have c: "log_content l = e # es" by (rule Cons.hyps(2)[symmetric])
  obtain l1 where l1: "nvs_log_get l = Some (Some e, l1)" "log_ok l1" "log_content l1 = es"
    using log_get_correct[OF Cons.prems] by (auto simp: c)
  then obtain l2 where "log_take (length es) l1 = Some (map Some es, l2)" "log_ok l2" "log_content l2 = []"
    using Cons.hyps(1)[of l1] by auto
  then show ?case using l1 by (simp add: c)
next
  case Nil
  then show ?case by (metis length_0_conv list.map(1) log_take.simps(1))
qed

text \<open>C39: The event log drops the oldest events and nothing else: after any events have been recorded, a
  reader that empties the log gets the latest \<open>entries - 1\<close> of what was in it and what was recorded,
  in order, and then no event.\<close>

theorem nvs_log_keeps_latest:
  assumes "log_ok l"
  shows "\<exists>l1 l2. log_all l es = Some l1 \<and>
    (let evs = latest (lb_entries l - 1) (log_content l @ map (log_entry (lb_ts_offset l)) es) in
     log_take (length evs) l1 = Some (map Some evs, l2) \<and> nvs_log_get l2 = Some (None, l2))"
proof -
  obtain l1 where l1: "log_all l es = Some l1" "log_ok l1"
    "log_content l1 = latest (lb_entries l - 1) (log_content l @ map (log_entry (lb_ts_offset l)) es)"
    using log_all_correct[OF assms] by blast
  obtain l2 where l2: "log_take (length (log_content l1)) l1 = Some (map Some (log_content l1), l2)" "log_ok l2" "log_content l2 = []"
    using log_take_correct[OF l1(2)] by blast
  have "lb_get l2 = lb_put l2" using l2(2,3) ring_used_0[of "lb_get l2" "lb_entries l2" "lb_put l2"]
    by (auto simp: log_content_def log_ok_def ring_content_def)
  then show ?thesis using l1 l2 by (auto simp: nvs_log_get_def Let_def)
qed

definition tiny_log :: nvs_log_buffer where
  "tiny_log = \<lparr>lb_events = replicate 3 zero_event, lb_entries = 3, lb_get = 2, lb_put = 2, lb_ts_offset = 10\<rparr>"

theorem nvs_log_keeps_latest_witness:
  "\<exists>l1 l2. log_all tiny_log [(11, NVS_EV_CREATE_SCHED, 0), (12, NVS_EV_CREATE_DOMAIN, 0), (13, NVS_EV_REMOVE_DOMAIN, 0)] = Some l1 \<and>
     log_take 2 l1 = Some ([Some \<lparr>ev_timestamp = 2, ev_data = 0, ev_event = NVS_EV_CREATE_DOMAIN\<rparr>,
       Some \<lparr>ev_timestamp = 3, ev_data = 0, ev_event = NVS_EV_REMOVE_DOMAIN\<rparr>], l2) \<and> nvs_log_get l2 = Some (None, l2)"
proof -
  have ok: "log_ok tiny_log" and c: "log_content tiny_log = []" by (auto simp: log_ok_def tiny_log_def log_content_def)
  from nvs_log_keeps_latest[OF ok, of "[(11, NVS_EV_CREATE_SCHED, 0), (12, NVS_EV_CREATE_DOMAIN, 0), (13, NVS_EV_REMOVE_DOMAIN, 0)]"]
  show ?thesis unfolding c by (simp add: latest_def log_entry_def Let_def tiny_log_def numeral_2_eq_2 del: log_take.simps log_all.simps)
qed

end
