(* ===== verification/Runlist_Domains.thy ===== *)
theory Runlist_Domains
  imports Runlist Log2
begin

text \<open>
  The runlists of the chip and their scheduling domains, the rest of \<^verbatim>\<open>common/fifo/runlist.c\<close>: setup
  and cleanup, creating, finding and deleting a domain on every runlist, switching to the next domain
  on a tick, the entry points that update or reload a runlist, and the masks and locks recovery uses.

  Domains live in a store from addresses to records; \<open>w_next\<close> is the address the next successful
  allocation of a domain returns, and \<open>w_live\<close> counts the allocations that have not been freed. The
  intrusive list of a runlist's domains is the list of their addresses. An operation runs under the
  lock of its runlist and is one step; \<open>rl_locked\<close> is there for recovery, which holds the locks across
  calls. Which allocations fail, the state of the power and what the hardware answers are arguments.
\<close>

section \<open>State\<close>

record nvgpu_device =
  dev_engine_id :: u32
  dev_runlist_id :: u32
  dev_rl_pri_base :: u32
  dev_rleng_id :: u32
  dev_pbdma_id :: "u32 list"

record nvgpu_runlist =
  rl_id :: u32
  rl_domain :: "nat option"
  rl_domains :: "nat list"
  rl_pbdma_bitmask :: u32
  rl_eng_bitmask :: u32
  rl_runlist_pri_base :: u32
  rl_chram_bar0_offset :: u32
  rl_pbdma_info :: "u32 list option"
  rl_dev_list :: "u32 option list"
  rl_locked :: bool

record rl_world =
  w_fifo :: nvgpu_fifo
  w_active :: "nvgpu_runlist list option"
  w_num_runlists :: u32
  w_runlists :: "nat option list option"
  w_max_runlists :: u32
  w_dom :: "nat \<rightharpoonup> nvgpu_runlist_domain"
  w_next :: nat
  w_live :: nat
  w_submits :: "(u32 \<times> nat option) list"
  w_rc :: "u32 list"

record rl_power =
  pw_off :: bool
  pw_busy :: "errno option"

abbreviation (input) RLENG_PER_RUNLIST_SIZE :: nat where "RLENG_PER_RUNLIST_SIZE \<equiv> 3"
abbreviation (input) NVGPU_INVALID_PBDMA_ID :: nat where "NVGPU_INVALID_PBDMA_ID \<equiv> U32_MAX"

definition get_rl :: "rl_world \<Rightarrow> nat \<Rightarrow> nvgpu_runlist option" where
  "get_rl w i = do { rls \<leftarrow> w_active w; load rls i }"

definition set_rl :: "nat \<Rightarrow> nvgpu_runlist \<Rightarrow> rl_world \<Rightarrow> rl_world option" where
  "set_rl i rl w = do { rls \<leftarrow> w_active w; rls \<leftarrow> store rls i rl; Some (w\<lparr>w_active := Some rls\<rparr>) }"

text \<open>A shift of a 32-bit value by 32 or more is not defined.\<close>

definition BIT32 :: "u32 \<Rightarrow> u32 option" where
  "BIT32 i = (if i < 32 then Some (2 ^ i) else None)"

text \<open>A loop over the active runlists; the body may end it with a result.\<close>

function for_runlists ::
    "(nat \<Rightarrow> 's \<Rightarrow> ('r option \<times> 's) option) \<Rightarrow> nat \<Rightarrow> nat \<Rightarrow> 's \<Rightarrow> ('r option \<times> 's) option" where
  "for_runlists body i n s =
     (if i < n then do { (r, s) \<leftarrow> body i s; (case r of None \<Rightarrow> for_runlists body (i + 1) n s | Some x \<Rightarrow> Some (Some x, s)) }
      else Some (None, s))"
  by pat_completeness auto
termination by (relation "measure (\<lambda>(_, i, n, _). n - i)") auto

declare for_runlists.simps [simp del]

section \<open>Locks and masks\<close>

definition nvgpu_runlist_lock_active_runlists :: "rl_world \<Rightarrow> rl_world option" where
  "nvgpu_runlist_lock_active_runlists w =
     do { (_, w) \<leftarrow> for_runlists (\<lambda>i w. do {
            rl \<leftarrow> get_rl w i; nvgpu_assert (\<not> rl_locked rl);
            w \<leftarrow> set_rl i (rl\<lparr>rl_locked := True\<rparr>) w; Some (None :: unit option, w) }) 0 (w_num_runlists w) w;
          Some w }"

definition nvgpu_runlist_unlock_active_runlists :: "rl_world \<Rightarrow> rl_world option" where
  "nvgpu_runlist_unlock_active_runlists w =
     do { (_, w) \<leftarrow> for_runlists (\<lambda>i w. do {
            rl \<leftarrow> get_rl w i; nvgpu_assert (rl_locked rl);
            w \<leftarrow> set_rl i (rl\<lparr>rl_locked := False\<rparr>) w; Some (None :: unit option, w) }) 0 (w_num_runlists w) w;
          Some w }"

definition nvgpu_runlist_unlock_runlists :: "rl_world \<Rightarrow> u32 \<Rightarrow> rl_world option" where
  "nvgpu_runlist_unlock_runlists w runlists_mask =
     do { (_, w) \<leftarrow> for_runlists (\<lambda>i w. do {
            rl \<leftarrow> get_rl w i;
            b \<leftarrow> BIT32 i;
            (if b AND runlists_mask \<noteq> 0
             then do { nvgpu_assert (rl_locked rl); w \<leftarrow> set_rl i (rl\<lparr>rl_locked := False\<rparr>) w; Some (None :: unit option, w) }
             else Some (None, w)) }) 0 (w_num_runlists w) w;
          Some w }"

datatype id_type = ID_TYPE_CHANNEL | ID_TYPE_TSG | ID_TYPE_UNKNOWN

text \<open>\<open>tsg_rl\<close> and \<open>ch_rl\<close> give the runlist of a TSG or channel, by its index.\<close>

definition nvgpu_runlist_get_runlists_mask ::
    "(u32 \<Rightarrow> nat option) \<Rightarrow> (u32 \<Rightarrow> nat option) \<Rightarrow> rl_world \<Rightarrow> u32 \<Rightarrow> id_type \<Rightarrow> u32 \<Rightarrow> u32 \<Rightarrow> u32 option" where
  "nvgpu_runlist_get_runlists_mask tsg_rl ch_rl w i idt act_eng_bitmask pbdma_bitmask =
     (let bitmask_disabled = (act_eng_bitmask = 0 \<and> pbdma_bitmask = 0) in do {
       (_, msk) \<leftarrow> (if \<not> bitmask_disabled
          then for_runlists (\<lambda>i msk. do {
                 rl \<leftarrow> get_rl w i; b \<leftarrow> BIT32 (rl_id rl);
                 let msk = (if rl_eng_bitmask rl AND act_eng_bitmask \<noteq> 0 then msk OR b else msk);
                 let msk = (if rl_pbdma_bitmask rl AND pbdma_bitmask \<noteq> 0 then msk OR b else msk);
                 Some (None :: unit option, msk) }) 0 (w_num_runlists w) 0
          else Some (None, 0));
       (if idt \<noteq> ID_TYPE_UNKNOWN
        then (case (if idt = ID_TYPE_TSG then tsg_rl i else ch_rl i) of
                None \<Rightarrow> do { nvgpu_assert False; Some msk }
              | Some k \<Rightarrow> do { rl \<leftarrow> get_rl w k; b \<leftarrow> BIT32 (rl_id rl); Some (msk OR b) })
        else if bitmask_disabled
        then do { (_, msk) \<leftarrow> for_runlists (\<lambda>i msk. do {
                    rl \<leftarrow> get_rl w i; b \<leftarrow> BIT32 (rl_id rl); Some (None :: unit option, msk OR b) }) 0 (w_num_runlists w) msk;
                  Some msk }
        else Some msk) })"

section \<open>Switching domains\<close>

definition runlist_select_locked :: "rl_power \<Rightarrow> rl_world \<Rightarrow> nat \<Rightarrow> nat \<Rightarrow> rl_world option" where
  "runlist_select_locked pw w i next_domain =
     do {
       rl \<leftarrow> get_rl w i;
       let rl = rl\<lparr>rl_domain := Some next_domain\<rparr>;
       w \<leftarrow> set_rl i rl w;
       Some (if pw_off pw then w
             else if pw_busy pw \<noteq> None then w
             else w\<lparr>w_submits := w_submits w @ [(rl_id rl, rl_domain rl)]\<rparr>) }"

text \<open>\<open>nvgpu_list_next_entry\<close> of an element that is not the last.\<close>

fun list_next_entry :: "nat list \<Rightarrow> nat \<Rightarrow> nat option" where
  "list_next_entry (x # y # xs) p = (if x = p then Some y else list_next_entry (y # xs) p)"
| "list_next_entry _ p = None"

definition runlist_switch_domain_locked :: "rl_power \<Rightarrow> rl_world \<Rightarrow> nat \<Rightarrow> rl_world option" where
  "runlist_switch_domain_locked pw w i =
     do {
       rl \<leftarrow> get_rl w i;
       if rl_domains rl = [] then Some w
       else do {
         d \<leftarrow> (if rl_domain rl = Some (last (rl_domains rl)) then Some (hd (rl_domains rl))
               else do { p \<leftarrow> rl_domain rl; list_next_entry (rl_domains rl) p });
         if Some d \<noteq> rl_domain rl then runlist_select_locked pw w i d else Some w } }"

definition nvgpu_runlist_tick :: "rl_power \<Rightarrow> rl_world \<Rightarrow> rl_world option" where
  "nvgpu_runlist_tick pw w =
     do { (_, w) \<leftarrow> for_runlists (\<lambda>i w. do { w \<leftarrow> runlist_switch_domain_locked pw w i; Some (None :: unit option, w) })
            0 (w_num_runlists w) w;
          Some w }"

section \<open>Creating, finding and deleting domains\<close>

text \<open>Two allocations, the record and its DMA memory of \<open>sz\<close> entries, which is handed out zeroed.\<close>

definition init_rl_mem :: "bool \<Rightarrow> bool \<Rightarrow> nat \<Rightarrow> rl_world \<Rightarrow> nvgpu_runlist_mem option \<times> rl_world" where
  "init_rl_mem oom_mem oom_dma sz w =
     (if oom_mem then (None, w)
      else if oom_dma then (None, w)
      else (Some \<lparr>rm_entries = replicate sz (Ch_entry 0), rm_count = 0\<rparr>, w\<lparr>w_live := w_live w + 2\<rparr>))"

definition free_rl_mem :: "rl_world \<Rightarrow> rl_world" where
  "free_rl_mem w = w\<lparr>w_live := w_live w - 2\<rparr>"

definition kfree :: "rl_world \<Rightarrow> rl_world" where
  "kfree w = w\<lparr>w_live := w_live w - 1\<rparr>"

definition rl_strncpy :: "string \<Rightarrow> string" where
  "rl_strncpy name = take 31 name"

text \<open>\<open>oom k\<close>: the \<open>k\<close>-th allocation of the call fails. A bitmap has \<open>DIV_ROUND_UP(num_channels, 8)\<close> bytes, of which only whole words of 64 bits are accessible as such: a trailing part of a word is
  left out (there is none on any chip, where the number of channels is a multiple of 64).\<close>

definition nvgpu_runlist_domain_alloc ::
    "(nat \<Rightarrow> bool) \<Rightarrow> rl_world \<Rightarrow> nat \<Rightarrow> string \<Rightarrow> (nat option \<times> rl_world) option" where
  "nvgpu_runlist_domain_alloc oom w i name =
     (if oom 0 then Some (None, w)
      else do {
        let w = w\<lparr>w_live := w_live w + 1\<rparr>;
        let f = w_fifo w;
        let sz = wrap32 (f_runlist_entry_size f * f_num_runlist_entries f) div f_runlist_entry_size f;
        let words = (f_num_channels f + 7) div 8 div 8;
        (case init_rl_mem (oom 1) (oom 2) sz w of
           (None, w) \<Rightarrow> Some (None, kfree w)
         | (Some mem, w) \<Rightarrow>
             (case init_rl_mem (oom 3) (oom 4) sz w of
                (None, w) \<Rightarrow> Some (None, kfree (free_rl_mem w))
              | (Some mem_hw, w) \<Rightarrow>
                  if oom 5 then Some (None, kfree (free_rl_mem (free_rl_mem w)))
                  else do {
                    let w = w\<lparr>w_live := w_live w + 1\<rparr>;
                    if oom 6 then Some (None, kfree (free_rl_mem (free_rl_mem (kfree w))))
                    else do {
                      let w = w\<lparr>w_live := w_live w + 1\<rparr>;
                      let d = w_next w;
                      let dv = \<lparr>rd_name = rl_strncpy name, rd_active_channels = replicate words 0,
                                rd_active_tsgs = replicate words 0, rd_mem = mem, rd_mem_hw = mem_hw\<rparr>;
                      let w = w\<lparr>w_dom := (w_dom w)(d \<mapsto> dv), w_next := d + 1\<rparr>;
                      rl \<leftarrow> get_rl w i;
                      let rl = rl\<lparr>rl_domains := rl_domains rl @ [d]\<rparr>;
                      let rl = (if rl_domain rl = None then rl\<lparr>rl_domain := Some d\<rparr> else rl);
                      w \<leftarrow> set_rl i rl w;
                      Some (Some d, w) } })) })"

definition nvgpu_runlist_domain_free :: "rl_world \<Rightarrow> nat \<Rightarrow> nat \<Rightarrow> rl_world option" where
  "nvgpu_runlist_domain_free w i d =
     do {
       _ \<leftarrow> w_dom w d;
       rl \<leftarrow> get_rl w i;
       w \<leftarrow> set_rl i (rl\<lparr>rl_domains := remove1 d (rl_domains rl)\<rparr>) w;
       let w = kfree (kfree (free_rl_mem (free_rl_mem w)));
       Some (kfree (w\<lparr>w_dom := (w_dom w)(d := None)\<rparr>)) }"

fun find_domain :: "(nat \<rightharpoonup> nvgpu_runlist_domain) \<Rightarrow> nat list \<Rightarrow> string \<Rightarrow> nat option option" where
  "find_domain h [] name = Some None"
| "find_domain h (p # ps) name = do { d \<leftarrow> h p; if rd_name d = name then Some (Some p) else find_domain h ps name }"

definition nvgpu_rl_domain_get :: "rl_world \<Rightarrow> u32 \<Rightarrow> string \<Rightarrow> nat option option" where
  "nvgpu_rl_domain_get w runlist_id name =
     do {
       rs \<leftarrow> w_runlists w;
       r \<leftarrow> load rs runlist_id;
       i \<leftarrow> r;
       rl \<leftarrow> get_rl w i;
       find_domain (w_dom w) (rl_domains rl) name }"

definition nvgpu_rl_domain_delete :: "rl_power \<Rightarrow> rl_world \<Rightarrow> string \<Rightarrow> (unit result \<times> rl_world) option" where
  "nvgpu_rl_domain_delete pw w name =
     do { (r, w) \<leftarrow> for_runlists (\<lambda>i w. do {
            rl \<leftarrow> get_rl w i;
            found \<leftarrow> nvgpu_rl_domain_get w (rl_id rl) name;
            (case found of
               None \<Rightarrow> Some (None, w)
             | Some d \<Rightarrow>
                 if hd (rl_domains rl) = last (rl_domains rl) then Some (Some EINVAL, w)
                 else do {
                   w \<leftarrow> (if rl_domain rl = Some d then runlist_switch_domain_locked pw w i else Some w);
                   w \<leftarrow> nvgpu_runlist_domain_free w i d;
                   Some (None, w) }) }) 0 (w_num_runlists w) w;
          Some (case r of None \<Rightarrow> Inr () | Some e \<Rightarrow> Inl e, w) }"

text \<open>\<open>oom i k\<close>: the \<open>k\<close>-th allocation for runlist \<open>i\<close> fails.\<close>

definition nvgpu_rl_domain_alloc ::
    "rl_power \<Rightarrow> (nat \<Rightarrow> nat \<Rightarrow> bool) \<Rightarrow> rl_world \<Rightarrow> string \<Rightarrow> (unit result \<times> rl_world) option" where
  "nvgpu_rl_domain_alloc pw oom w name =
     do { (r, w) \<leftarrow> for_runlists (\<lambda>i w. do {
            rl \<leftarrow> get_rl w i;
            found \<leftarrow> nvgpu_rl_domain_get w (rl_id rl) name;
            if found \<noteq> None then Some (Some EEXIST, w)
            else do {
              (d, w) \<leftarrow> nvgpu_runlist_domain_alloc (oom i) w i name;
              Some (if d = None then Some ENOMEM else None, w) } }) 0 (w_num_runlists w) w;
          (case r of
             None \<Rightarrow> Some (Inr (), w)
           | Some EEXIST \<Rightarrow> Some (Inl EEXIST, w)
           | Some e \<Rightarrow> do { (_, w) \<leftarrow> nvgpu_rl_domain_delete pw w name; Some (Inl e, w) }) }"

section \<open>Updates of a runlist\<close>

text \<open>\<open>rl\<close> is the index of the runlist, \<open>domain\<close> the address of the domain, \<open>wait_ret\<close> what the wait for the
  hardware returns. The currently active domain of the runlist is what is submitted. A timeout
  starts recovery, recorded in \<open>w_rc\<close>.\<close>

definition nvgpu_runlist_do_update ::
    "unit result \<Rightarrow> rl_world \<Rightarrow> nat \<Rightarrow> nat \<Rightarrow> u32 option \<Rightarrow> bool \<Rightarrow> bool \<Rightarrow> (unit result \<times> rl_world) option" where
  "nvgpu_runlist_do_update wait_ret w i domain ch add wait_for_finish =
     do {
       rl \<leftarrow> get_rl w i;
       d \<leftarrow> w_dom w domain;
       other \<leftarrow> (if rl_domain rl = Some domain then Some None else do { q \<leftarrow> rl_domain rl; a \<leftarrow> w_dom w q; Some (Some a) });
       (ret, submitted, f, d) \<leftarrow> nvgpu_runlist_update_locked other wait_ret (w_fifo w) d ch add wait_for_finish;
       let w = w\<lparr>w_fifo := f, w_dom := (w_dom w)(domain \<mapsto> d),
                 w_submits := w_submits w @ (if submitted \<noteq> None then [(rl_id rl, rl_domain rl)] else []),
                 w_rc := w_rc w @ (if ret = Inl ETIMEDOUT then [rl_id rl] else [])\<rparr>;
       Some (ret, w) }"

definition nvgpu_runlist_update ::
    "unit result \<Rightarrow> rl_world \<Rightarrow> nat \<Rightarrow> u32 option \<Rightarrow> bool \<Rightarrow> bool \<Rightarrow> (unit result \<times> rl_world) option" where
  "nvgpu_runlist_update wait_ret w i ch add wait_for_finish =
     do {
       nvgpu_assert (ch \<noteq> None);
       chid \<leftarrow> ch;
       (case f_ch_tsg (w_fifo w) chid of
          None \<Rightarrow> Some (Inl EINVAL, w)
        | Some t \<Rightarrow> do {
            tsg \<leftarrow> load (f_tsg (w_fifo w)) t;
            (case tsg_rl_domain tsg of
               None \<Rightarrow> Some (Inr (), w)
             | Some d \<Rightarrow> nvgpu_runlist_do_update wait_ret w i d ch add wait_for_finish) }) }"

definition nvgpu_runlist_reload ::
    "unit result \<Rightarrow> rl_world \<Rightarrow> nat \<Rightarrow> nat \<Rightarrow> bool \<Rightarrow> bool \<Rightarrow> (unit result \<times> rl_world) option" where
  "nvgpu_runlist_reload wait_ret w i domain add wait_for_finish =
     nvgpu_runlist_do_update wait_ret w i domain None add wait_for_finish"

text \<open>The loop of \<open>nvgpu_runlist_reload_ids\<close>: the last error is the one returned. \<open>wr\<close> is what the wait
  returns for each runlist.\<close>

fun reload_ids_loop ::
    "(u32 \<Rightarrow> unit result) \<Rightarrow> u64 list \<Rightarrow> bool \<Rightarrow> unit result \<Rightarrow> rl_world \<Rightarrow> (unit result \<times> rl_world) option" where
  "reload_ids_loop wr [] add ret w = Some (ret, w)"
| "reload_ids_loop wr (runlist_id # ids) add ret w =
     do {
       rs \<leftarrow> w_runlists w;
       r \<leftarrow> load rs runlist_id;
       i \<leftarrow> r;
       rl \<leftarrow> get_rl w i;
       domain \<leftarrow> rl_domain rl;
       (errcode, w) \<leftarrow> nvgpu_runlist_reload (wr runlist_id) w i domain add True;
       reload_ids_loop wr ids add (if errcode \<noteq> Inr () then errcode else ret) w }"

definition nvgpu_runlist_reload_ids ::
    "(u32 \<Rightarrow> unit result) \<Rightarrow> rl_world \<Rightarrow> u32 \<Rightarrow> bool \<Rightarrow> (unit result \<times> rl_world) option" where
  "nvgpu_runlist_reload_ids wr w runlist_ids add =
     do { ids \<leftarrow> for_each_set_bit [word_of_nat runlist_ids] 32; reload_ids_loop wr ids add (Inr ()) w }"

definition nvgpu_runlist_interleave_level_name :: "u32 \<Rightarrow> string" where
  "nvgpu_runlist_interleave_level_name level =
     (if level = LEVEL_LOW then ''LOW'' else if level = LEVEL_MEDIUM then ''MEDIUM''
      else if level = LEVEL_HIGH then ''HIGH'' else ''?'')"

section \<open>Setup and cleanup\<close>

definition nvgpu_engine_is_valid_runlist_id :: "nvgpu_device list \<Rightarrow> u32 \<Rightarrow> bool" where
  "nvgpu_engine_is_valid_runlist_id devs runlist_id = (\<exists>dev\<in>set devs. dev_runlist_id dev = runlist_id)"

text \<open>\<open>chram\<close> is \<open>get_chram_bar0_offset\<close>, present from Ampere on together with the mapping of engine numbers.\<close>

definition nvgpu_runlist_init_engine_info ::
    "(u32 \<Rightarrow> u32) option \<Rightarrow> nvgpu_runlist \<Rightarrow> nvgpu_device \<Rightarrow> nvgpu_runlist option" where
  "nvgpu_runlist_init_engine_info chram rl dev =
     (case chram of
        None \<Rightarrow> Some rl
      | Some c \<Rightarrow> do {
          devs \<leftarrow> store (rl_dev_list rl) (dev_rleng_id dev) (Some (dev_engine_id dev));
          Some (rl\<lparr>rl_runlist_pri_base := dev_rl_pri_base dev, rl_chram_bar0_offset := c (dev_rl_pri_base dev),
                   rl_pbdma_info := Some (dev_pbdma_id dev), rl_dev_list := devs\<rparr>) })"

fun pbdma_mask_loop :: "u32 list \<Rightarrow> u32 \<Rightarrow> u32 option" where
  "pbdma_mask_loop [] msk = Some msk"
| "pbdma_mask_loop (p # ps) msk =
     do { msk \<leftarrow> (if p \<noteq> NVGPU_INVALID_PBDMA_ID then do { b \<leftarrow> BIT32 p; Some (msk OR b) } else Some msk);
          pbdma_mask_loop ps msk }"

definition nvgpu_runlist_get_pbdma_mask :: "nvgpu_runlist \<Rightarrow> u32 option" where
  "nvgpu_runlist_get_pbdma_mask rl = do { ids \<leftarrow> rl_pbdma_info rl; pbdma_mask_loop ids 0 }"

fun enginfo_devs :: "(u32 \<Rightarrow> u32) option \<Rightarrow> nvgpu_device list \<Rightarrow> nvgpu_runlist \<Rightarrow> nvgpu_runlist option" where
  "enginfo_devs chram [] rl = Some rl"
| "enginfo_devs chram (dev # devs) rl =
     do { rl \<leftarrow> (if dev_runlist_id dev = rl_id rl
                 then do { b \<leftarrow> BIT32 (dev_engine_id dev);
                           nvgpu_runlist_init_engine_info chram (rl\<lparr>rl_eng_bitmask := rl_eng_bitmask rl OR b\<rparr>) dev }
                 else Some rl);
          enginfo_devs chram devs rl }"

text \<open>\<open>find_pbdma\<close> is the legacy probe of the chip, when it has one.\<close>

definition nvgpu_runlist_init_enginfo ::
    "bool \<Rightarrow> (u32 \<Rightarrow> u32) option \<Rightarrow> (u32 \<Rightarrow> u32) option \<Rightarrow> nvgpu_device list \<Rightarrow> rl_world \<Rightarrow> rl_world option" where
  "nvgpu_runlist_init_enginfo is_virtual chram find_pbdma devs w =
     (if is_virtual then Some w
      else do {
        (_, w) \<leftarrow> for_runlists (\<lambda>i w. do {
          rl \<leftarrow> get_rl w i;
          rl \<leftarrow> enginfo_devs chram devs rl;
          msk \<leftarrow> (case find_pbdma of Some p \<Rightarrow> Some (p (rl_id rl)) | None \<Rightarrow> nvgpu_runlist_get_pbdma_mask rl);
          w \<leftarrow> set_rl i (rl\<lparr>rl_pbdma_bitmask := msk\<rparr>) w;
          Some (None :: unit option, w) }) 0 (w_num_runlists w) w;
        Some w })"

fun free_domains :: "nat \<Rightarrow> nat list \<Rightarrow> rl_world \<Rightarrow> rl_world option" where
  "free_domains i [] w = Some w"
| "free_domains i (d # ds) w = do { w \<leftarrow> nvgpu_runlist_domain_free w i d; free_domains i ds w }"

text \<open>The \<open>while\<close> loop frees the first domain until the list is empty: it frees the list front to back.\<close>

definition nvgpu_runlist_cleanup_sw :: "rl_world \<Rightarrow> rl_world option" where
  "nvgpu_runlist_cleanup_sw w =
     (if w_runlists w = None \<or> w_active w = None then Some w
      else do {
        (_, w) \<leftarrow> for_runlists (\<lambda>i w. do {
          rl \<leftarrow> get_rl w i;
          w \<leftarrow> free_domains i (rl_domains rl) w;
          rl \<leftarrow> get_rl w i;
          w \<leftarrow> set_rl i (rl\<lparr>rl_domain := None\<rparr>) w;
          rs \<leftarrow> w_runlists w;
          rs \<leftarrow> store rs (rl_id rl) None;
          Some (None :: unit option, w\<lparr>w_runlists := Some rs\<rparr>) }) 0 (w_num_runlists w) w;
        let w = kfree (w\<lparr>w_active := None, w_num_runlists := 0\<rparr>);
        Some (kfree (w\<lparr>w_runlists := None, w_max_runlists := 0\<rparr>)) })"

definition zero_runlist :: nvgpu_runlist where
  "zero_runlist = \<lparr>rl_id = 0, rl_domain = None, rl_domains = [], rl_pbdma_bitmask = 0, rl_eng_bitmask = 0,
     rl_runlist_pri_base = 0, rl_chram_bar0_offset = 0, rl_pbdma_info = None,
     rl_dev_list = replicate RLENG_PER_RUNLIST_SIZE None, rl_locked = False\<rparr>"

function active_mapping_loop :: "nvgpu_device list \<Rightarrow> u32 \<Rightarrow> u32 \<Rightarrow> u32 \<Rightarrow> rl_world \<Rightarrow> rl_world option" where
  "active_mapping_loop devs runlist_id mx i w =
     (if runlist_id < mx
      then if \<not> nvgpu_engine_is_valid_runlist_id devs runlist_id then active_mapping_loop devs (runlist_id + 1) mx i w
      else do {
        rl \<leftarrow> get_rl w i;
        w \<leftarrow> set_rl i (rl\<lparr>rl_id := runlist_id, rl_domains := [], rl_locked := False\<rparr>) w;
        rs \<leftarrow> w_runlists w;
        rs \<leftarrow> store rs runlist_id (Some i);
        i \<leftarrow> nvgpu_safe_add_u32 i 1;
        active_mapping_loop devs (runlist_id + 1) mx i (w\<lparr>w_runlists := Some rs\<rparr>) }
      else Some w)"
  by pat_completeness auto
termination by (relation "measure (\<lambda>(_, r, m, _, _). m - r)") auto

declare active_mapping_loop.simps [simp del]

definition nvgpu_init_active_runlist_mapping :: "nvgpu_device list \<Rightarrow> rl_world \<Rightarrow> rl_world option" where
  "nvgpu_init_active_runlist_mapping devs w = active_mapping_loop devs 0 (w_max_runlists w) 0 w"

definition nvgpu_runlist_alloc_default_domain ::
    "bool \<Rightarrow> (nat \<Rightarrow> nat \<Rightarrow> bool) \<Rightarrow> rl_world \<Rightarrow> (unit result \<times> rl_world) option" where
  "nvgpu_runlist_alloc_default_domain nvs_present oom w =
     (if nvs_present then Some (Inr (), w)
      else do {
        (r, w) \<leftarrow> for_runlists (\<lambda>i w. do {
          (d, w) \<leftarrow> nvgpu_runlist_domain_alloc (oom i) w i ''(default)'';
          rl \<leftarrow> get_rl w i;
          w \<leftarrow> set_rl i (rl\<lparr>rl_domain := d\<rparr>) w;
          Some (if d = None then Some ENOMEM else None, w) }) 0 (w_num_runlists w) w;
        Some (case r of None \<Rightarrow> Inr () | Some e \<Rightarrow> Inl e, w) })"

text \<open>What the chip and the build give \<open>nvgpu_runlist_setup_sw\<close>.\<close>

record rl_setup =
  su_entry_size :: u32
  su_length_max :: u32
  su_count_max :: u32
  su_oom_runlists :: bool
  su_oom_active :: bool
  su_nvs_present :: bool
  su_oom_domain :: "nat \<Rightarrow> nat \<Rightarrow> bool"
  su_devs :: "nvgpu_device list"
  su_virtual :: bool
  su_chram :: "(u32 \<Rightarrow> u32) option"
  su_find_pbdma :: "(u32 \<Rightarrow> u32) option"

fun count_runlists :: "nvgpu_device list \<Rightarrow> u32 list \<Rightarrow> u32 \<Rightarrow> u32 option" where
  "count_runlists devs [] n = Some n"
| "count_runlists devs (r # rs) n =
     (if nvgpu_engine_is_valid_runlist_id devs r then do { n \<leftarrow> nvgpu_safe_add_u32 n 1; count_runlists devs rs n }
      else count_runlists devs rs n)"

definition nvgpu_runlist_setup_sw :: "rl_setup \<Rightarrow> rl_world \<Rightarrow> (unit result \<times> rl_world) option" where
  "nvgpu_runlist_setup_sw su w =
     do {
       let f = (w_fifo w)\<lparr>f_runlist_entry_size := su_entry_size su, f_num_runlist_entries := su_length_max su\<rparr>;
       let w = w\<lparr>w_fifo := f, w_max_runlists := su_count_max su\<rparr>;
       if su_oom_runlists su
       then do { w \<leftarrow> nvgpu_runlist_cleanup_sw (w\<lparr>w_runlists := None\<rparr>); Some (Inl ENOMEM, w) }
       else do {
         let w = w\<lparr>w_runlists := Some (replicate (w_max_runlists w) None), w_live := w_live w + 1\<rparr>;
         n \<leftarrow> count_runlists (su_devs su) [0..<w_max_runlists w] 0;
         let w = w\<lparr>w_num_runlists := n\<rparr>;
         if su_oom_active su
         then do { w \<leftarrow> nvgpu_runlist_cleanup_sw (w\<lparr>w_active := None\<rparr>); Some (Inl ENOMEM, w) }
         else do {
           let w = w\<lparr>w_active := Some (replicate n zero_runlist), w_live := w_live w + 1\<rparr>;
           w \<leftarrow> nvgpu_init_active_runlist_mapping (su_devs su) w;
           (err, w) \<leftarrow> nvgpu_runlist_alloc_default_domain (su_nvs_present su) (su_oom_domain su) w;
           (case err of
              Inl e \<Rightarrow> do { w \<leftarrow> nvgpu_runlist_cleanup_sw w; Some (Inl e, w) }
            | Inr _ \<Rightarrow> do {
                w \<leftarrow> nvgpu_runlist_init_enginfo (su_virtual su) (su_chram su) (su_find_pbdma su) (su_devs su) w;
                Some (Inr (), w) }) } } }"

end
