(* ===== verification/Nvs_Scheduler.thy ===== *)
theory Nvs_Scheduler
  imports Nvsched Runlist_Domains
begin

text \<open>
  The domain scheduler of the driver, \<^verbatim>\<open>common/nvs/nvs_sched.c\<close>: it keeps a list of scheduling domains
  in the core of \<open>Nvsched\<close>, creates and deletes the matching domain on every runlist through
  \<open>Runlist_Domains\<close>, and on every tick moves the runlists and itself to the next domain.

  The driver's part of a domain lives in its own store; the core's domain points to it with \<open>priv\<close> and
  it points back with \<open>parent\<close>. All operations run under the scheduler's mutex. The worker thread is
  present as the step it takes when it wakes up; allocations that fail, the clock and the power are
  arguments.
\<close>

section \<open>State\<close>

record nvgpu_nvs_domain =
  vd_id :: u64
  vd_parent :: "nat option"
  vd_ref :: u32

record nvgpu_nvs_scheduler =
  vs_sched :: nvs_sched
  vs_id_counter :: u64
  vs_active_domain :: "nat option"
  vs_doms :: "nat \<rightharpoonup> nvgpu_nvs_domain"
  vs_fresh :: nat
  vs_current_timeout :: u32

record nvs_gpu =
  g_scheduler :: "nvgpu_nvs_scheduler option"
  g_rl :: rl_world

abbreviation (input) NSEC_PER_MSEC :: nat where "NSEC_PER_MSEC \<equiv> 1000000"

definition set_ref :: "nat \<Rightarrow> (u32 \<Rightarrow> u32) \<Rightarrow> nvgpu_nvs_scheduler \<Rightarrow> nvgpu_nvs_scheduler option" where
  "set_ref p g s = do { v \<leftarrow> vs_doms s p; Some (s\<lparr>vs_doms := (vs_doms s)(p \<mapsto> v\<lparr>vd_ref := g (vd_ref v)\<rparr>)\<rparr>) }"

section \<open>Ticks\<close>

definition nvgpu_nvs_tick :: "rl_power \<Rightarrow> nvs_gpu \<Rightarrow> (u64 \<times> nvs_gpu) option" where
  "nvgpu_nvs_tick pw g =
     do {
       s \<leftarrow> g_scheduler g;
       (case vs_active_domain s of
          None \<Rightarrow> Some (100 * NSEC_PER_MSEC, g)
        | Some a \<Rightarrow> do {
            v \<leftarrow> vs_doms s a;
            par \<leftarrow> vd_parent v;
            pd \<leftarrow> sd_heap (vs_sched s) par;
            n \<leftarrow> (case nd_next pd of Some q \<Rightarrow> Some q | None \<Rightarrow> sd_domains (vs_sched s));
            nd \<leftarrow> sd_heap (vs_sched s) n;
            rl \<leftarrow> nvgpu_runlist_tick pw (g_rl g);
            Some (nd_timeslice_ns nd,
                  g\<lparr>g_rl := rl, g_scheduler := Some (s\<lparr>vs_active_domain := Some (nd_priv nd)\<rparr>)\<rparr>) }) }"

text \<open>The worker keeps the time slice in 32 bits. \<open>expired\<close> says whether its timer has run out.\<close>

definition nvgpu_nvs_worker_wakeup_post_process :: "bool \<Rightarrow> rl_power \<Rightarrow> nvs_gpu \<Rightarrow> nvs_gpu option" where
  "nvgpu_nvs_worker_wakeup_post_process expired pw g =
     (if expired
      then do {
        (t, g) \<leftarrow> nvgpu_nvs_tick pw g;
        let next_timeout_ns = wrap32 t;
        s \<leftarrow> g_scheduler g;
        Some (if next_timeout_ns \<noteq> 0
              then g\<lparr>g_scheduler := Some (s\<lparr>vs_current_timeout := wrap32 ((next_timeout_ns + NSEC_PER_MSEC - 1) div NSEC_PER_MSEC)\<rparr>)\<rparr>
              else g) }
      else Some g)"

definition nvgpu_nvs_worker_poll_init :: "nvgpu_nvs_scheduler \<Rightarrow> nvgpu_nvs_scheduler" where
  "nvgpu_nvs_worker_poll_init s = s\<lparr>vs_current_timeout := 100\<rparr>"

definition nvgpu_nvs_worker_wakeup_timeout :: "nvgpu_nvs_scheduler \<Rightarrow> u32" where
  "nvgpu_nvs_worker_wakeup_timeout s = vs_current_timeout s"

section \<open>Domains\<close>

definition nvgpu_nvs_new_id :: "nvgpu_nvs_scheduler \<Rightarrow> u64 \<times> nvgpu_nvs_scheduler" where
  "nvgpu_nvs_new_id s = (let i = wrap64 (vs_id_counter s + 1) in (i, s\<lparr>vs_id_counter := i\<rparr>))"

text \<open>Which of the allocations of \<open>nvgpu_nvs_add_domain\<close> fail.\<close>

record add_env =
  ae_oom_dom :: bool
  ae_oom_nvs :: bool
  ae_oom_rl :: "nat \<Rightarrow> nat \<Rightarrow> bool"
  ae_now :: u64
  ae_now2 :: u64

definition nvgpu_nvs_add_domain ::
    "add_env \<Rightarrow> rl_power \<Rightarrow> nvs_gpu \<Rightarrow> string \<Rightarrow> u64 \<Rightarrow> u64 \<Rightarrow> (nat result \<times> nvs_gpu) option" where
  "nvgpu_nvs_add_domain env pw g name timeslice preempt_grace =
     do {
       s \<leftarrow> g_scheduler g;
       found \<leftarrow> nvs_domain_by_name (vs_sched s) name;
       if found \<noteq> None then Some (Inl EEXIST, g)
       else if ae_oom_dom env then Some (Inl ENOMEM, g)
       else do {
         let nvgpu_dom = vs_fresh s;
         let (i, s) = nvgpu_nvs_new_id s;
         let s = s\<lparr>vs_fresh := nvgpu_dom + 1, vs_doms := (vs_doms s)(nvgpu_dom \<mapsto> \<lparr>vd_id = i, vd_parent = None, vd_ref = 1\<rparr>)\<rparr>;
         (nvs_dom, sched) \<leftarrow> nvs_domain_create (ae_oom_nvs env) (ae_now env) (vs_sched s) name timeslice preempt_grace nvgpu_dom;
         let s = s\<lparr>vs_sched := sched\<rparr>;
         (case nvs_dom of
            None \<Rightarrow> Some (Inl ENOMEM, g\<lparr>g_scheduler := Some (s\<lparr>vs_doms := (vs_doms s)(nvgpu_dom := None)\<rparr>)\<rparr>)
          | Some nd \<Rightarrow> do {
              (err, rl) \<leftarrow> nvgpu_rl_domain_alloc pw (ae_oom_rl env) (g_rl g) name;
              let g = g\<lparr>g_rl := rl\<rparr>;
              (case err of
                 Inl e \<Rightarrow> do {
                   sched \<leftarrow> nvs_domain_destroy (ae_now2 env) (vs_sched s) nd;
                   Some (Inl e, g\<lparr>g_scheduler := Some (s\<lparr>vs_sched := sched, vs_doms := (vs_doms s)(nvgpu_dom := None)\<rparr>)\<rparr>) }
               | Inr _ \<Rightarrow>
                   (let s = s\<lparr>vs_doms := (vs_doms s)(nvgpu_dom \<mapsto> \<lparr>vd_id = i, vd_parent = Some nd, vd_ref = 1\<rparr>)\<rparr>;
                        s = (if vs_active_domain s = None then s\<lparr>vs_active_domain := Some nvgpu_dom\<rparr> else s)
                    in Some (Inr nvgpu_dom, g\<lparr>g_scheduler := Some s\<rparr>))) }) } }"

partial_function (option) by_id_loop ::
    "(nat \<rightharpoonup> nvs_domain) \<Rightarrow> (nat \<rightharpoonup> nvgpu_nvs_domain) \<Rightarrow> nat option \<Rightarrow> u64 \<Rightarrow> nat option option" where
  "by_id_loop h v p i =
     (case p of
        None \<Rightarrow> Some None
      | Some q \<Rightarrow> (case h q of
          None \<Rightarrow> None
        | Some d \<Rightarrow> (case v (nd_priv d) of
            None \<Rightarrow> None
          | Some x \<Rightarrow> if vd_id x = i then Some (Some (nd_priv d)) else by_id_loop h v (nd_next d) i)))"

definition nvgpu_nvs_domain_by_id_locked :: "nvs_gpu \<Rightarrow> u64 \<Rightarrow> nat option option" where
  "nvgpu_nvs_domain_by_id_locked g domain_id =
     do { s \<leftarrow> g_scheduler g; by_id_loop (sd_heap (vs_sched s)) (vs_doms s) (sd_domains (vs_sched s)) domain_id }"

definition nvgpu_nvs_domain_by_id :: "nvs_gpu \<Rightarrow> u64 \<Rightarrow> (nat option \<times> nvs_gpu) option" where
  "nvgpu_nvs_domain_by_id g domain_id =
     do {
       d \<leftarrow> nvgpu_nvs_domain_by_id_locked g domain_id;
       (case d of
          None \<Rightarrow> Some (None, g)
        | Some p \<Rightarrow> do { s \<leftarrow> g_scheduler g; s \<leftarrow> set_ref p (\<lambda>r. wrap32 (r + 1)) s; Some (Some p, g\<lparr>g_scheduler := Some s\<rparr>) }) }"

definition nvgpu_nvs_domain_by_name :: "nvs_gpu \<Rightarrow> string \<Rightarrow> (nat option \<times> nvs_gpu) option" where
  "nvgpu_nvs_domain_by_name g name =
     do {
       s \<leftarrow> g_scheduler g;
       d \<leftarrow> nvs_domain_by_name (vs_sched s) name;
       (case d of
          None \<Rightarrow> Some (None, g)
        | Some q \<Rightarrow> do {
            nd \<leftarrow> sd_heap (vs_sched s) q;
            s \<leftarrow> set_ref (nd_priv nd) (\<lambda>r. wrap32 (r + 1)) s;
            Some (Some (nd_priv nd), g\<lparr>g_scheduler := Some s\<rparr>) }) }"

text \<open>Taking and dropping a reference only warn when they meet a count of 0.\<close>

definition nvgpu_nvs_domain_get :: "nvs_gpu \<Rightarrow> nat \<Rightarrow> nvs_gpu option" where
  "nvgpu_nvs_domain_get g p =
     do { s \<leftarrow> g_scheduler g; s \<leftarrow> set_ref p (\<lambda>r. wrap32 (r + 1)) s; Some (g\<lparr>g_scheduler := Some s\<rparr>) }"

definition nvgpu_nvs_domain_put :: "nvs_gpu \<Rightarrow> nat \<Rightarrow> nvs_gpu option" where
  "nvgpu_nvs_domain_put g p =
     do { s \<leftarrow> g_scheduler g; s \<leftarrow> set_ref p (\<lambda>r. wsub32 r 1) s; Some (g\<lparr>g_scheduler := Some s\<rparr>) }"

definition nvgpu_nvs_del_domain :: "u64 \<Rightarrow> rl_power \<Rightarrow> nvs_gpu \<Rightarrow> u64 \<Rightarrow> (unit result \<times> nvs_gpu) option" where
  "nvgpu_nvs_del_domain now pw g dom_id =
     do {
       s \<leftarrow> g_scheduler g;
       found \<leftarrow> nvgpu_nvs_domain_by_id_locked g dom_id;
       (case found of
          None \<Rightarrow> Some (Inl ENOENT, g)
        | Some nvgpu_dom \<Rightarrow> do {
            v \<leftarrow> vs_doms s nvgpu_dom;
            if vd_ref v \<noteq> 1 then Some (Inl EBUSY, g)
            else do {
              nvs_dom \<leftarrow> vd_parent v;
              nd \<leftarrow> sd_heap (vs_sched s) nvs_dom;
              (err, rl) \<leftarrow> nvgpu_rl_domain_delete pw (g_rl g) (nd_name nd);
              let g = g\<lparr>g_rl := rl\<rparr>;
              (case err of
                 Inl e \<Rightarrow> Some (Inl e, g)
               | Inr _ \<Rightarrow> do {
                   s \<leftarrow> set_ref nvgpu_dom (\<lambda>_. 0) s;
                   s \<leftarrow> (if vs_active_domain s = Some nvgpu_dom
                          then do {
                            n \<leftarrow> (case nd_next nd of Some q \<Rightarrow> Some q | None \<Rightarrow> sd_domains (vs_sched s));
                            nx \<leftarrow> sd_heap (vs_sched s) n;
                            Some (s\<lparr>vs_active_domain := Some (nd_priv nx)\<rparr>) }
                          else Some s);
                   sched \<leftarrow> nvs_domain_destroy now (vs_sched s) nvs_dom;
                   Some (Inr (), g\<lparr>g_scheduler := Some (s\<lparr>vs_sched := sched, vs_doms := (vs_doms s)(nvgpu_dom := None)\<rparr>)\<rparr>) }) } }) }"

definition nvgpu_nvs_domain_count :: "nvs_gpu \<Rightarrow> u32 option" where
  "nvgpu_nvs_domain_count g = do { s \<leftarrow> g_scheduler g; Some (nvs_domain_count (vs_sched s)) }"

definition nvgpu_nvs_domain_get_name :: "nvs_gpu \<Rightarrow> nat \<Rightarrow> string option" where
  "nvgpu_nvs_domain_get_name g p =
     do { s \<leftarrow> g_scheduler g; v \<leftarrow> vs_doms s p; q \<leftarrow> vd_parent v; d \<leftarrow> sd_heap (vs_sched s) q; Some (nd_name d) }"

section \<open>Opening and closing\<close>

record open_env =
  oe_oom_scheduler :: bool
  oe_oom_sched :: bool
  oe_worker :: "errno option"
  oe_oom_list :: bool
  oe_oom_logger :: bool
  oe_oom_events :: bool
  oe_now :: u64
  oe_now2 :: u64

definition nvgpu_nvs_open :: "open_env \<Rightarrow> nvs_gpu \<Rightarrow> (unit result \<times> nvs_gpu) option" where
  "nvgpu_nvs_open env g =
     (if g_scheduler g \<noteq> None then Some (Inr (), g)
      else if oe_oom_scheduler env \<or> oe_oom_sched env then Some (Inl ENOMEM, g)
      else case oe_worker env of
        Some e \<Rightarrow> Some (Inl e, g)
      | None \<Rightarrow> do {
          r \<leftarrow> nvs_sched_create (oe_oom_list env) (oe_oom_logger env) (oe_oom_events env) (oe_now env) (oe_now2 env);
          (case r of
             Inl e \<Rightarrow> Some (Inl e, g)
           | Inr sched \<Rightarrow>
               Some (Inr (), g\<lparr>g_scheduler := Some (nvgpu_nvs_worker_poll_init
                 \<lparr>vs_sched = sched, vs_id_counter = 0, vs_active_domain = None, vs_doms = Map.empty, vs_fresh = 0, vs_current_timeout = 0\<rparr>)\<rparr>)) })"

definition nvgpu_nvs_init :: "open_env \<Rightarrow> add_env \<Rightarrow> rl_power \<Rightarrow> nvs_gpu \<Rightarrow> (unit result \<times> nvs_gpu) option" where
  "nvgpu_nvs_init oenv aenv pw g =
     do {
       (err, g) \<leftarrow> nvgpu_nvs_open oenv g;
       (case err of
          Inl e \<Rightarrow> Some (Inl e, g)
        | Inr _ \<Rightarrow> do {
            d \<leftarrow> nvgpu_rl_domain_get (g_rl g) 0 ''(default)'';
            if d = None
            then do {
              (r, g) \<leftarrow> nvgpu_nvs_add_domain aenv pw g ''(default)'' (100 * NSEC_PER_MSEC) 0;
              Some (case r of Inl e \<Rightarrow> Inl e | Inr _ \<Rightarrow> Inr (), g) }
            else Some (Inr (), g) }) }"

partial_function (option) remove_loop ::
    "(nat \<rightharpoonup> nvs_domain) \<Rightarrow> (nat \<rightharpoonup> nvgpu_nvs_domain) \<Rightarrow> nat option \<Rightarrow> (nat \<rightharpoonup> nvgpu_nvs_domain) option" where
  "remove_loop h v p =
     (case p of
        None \<Rightarrow> Some v
      | Some q \<Rightarrow> (case h q of
          None \<Rightarrow> None
        | Some d \<Rightarrow> (case v (nd_priv d) of
            None \<Rightarrow> None
          | Some _ \<Rightarrow> remove_loop h (v(nd_priv d := None)) (nd_next d))))"

text \<open>The result is what is left allocated of either kind of domain.\<close>

definition nvgpu_nvs_remove_support ::
    "u64 \<Rightarrow> nvs_gpu \<Rightarrow> (((nat \<rightharpoonup> nvgpu_nvs_domain) \<times> (nat \<rightharpoonup> nvs_domain)) option \<times> nvs_gpu) option" where
  "nvgpu_nvs_remove_support now g =
     (case g_scheduler g of
        None \<Rightarrow> Some (None, g)
      | Some s \<Rightarrow> do {
          v \<leftarrow> remove_loop (sd_heap (vs_sched s)) (vs_doms s) (sd_domains (vs_sched s));
          h \<leftarrow> nvs_sched_close now (vs_sched s);
          Some (Some (v, h), g\<lparr>g_scheduler := None\<rparr>) })"

end
