(* ===== verification/Runlist_Domains_Proofs.thy ===== *)
theory Runlist_Domains_Proofs
  imports Runlist_Domains
begin

text \<open>
  What the domains of the runlists look like from outside: for every runlist the names of its domains
  in order and the position of the active one. The lemmas give the effect of each operation of
  \<open>Runlist_Domains\<close> on that view, first on one runlist and then, over the loops, on all of them.
\<close>

section \<open>Loops over the runlists\<close>

lemma for_runlists_step:
  "i < n \<Longrightarrow> body i s = Some (None, s') \<Longrightarrow> for_runlists body i n s = for_runlists body (i + 1) n s'"
  by (subst for_runlists.simps) simp

lemma for_runlists_stop: "i < n \<Longrightarrow> body i s = Some (Some x, s') \<Longrightarrow> for_runlists body i n s = Some (Some x, s')"
  by (subst for_runlists.simps) simp

lemma for_runlists_end: "n \<le> i \<Longrightarrow> for_runlists body i n s = Some (None, s)"
  by (subst for_runlists.simps) simp

text \<open>A loop whose body keeps going: an invariant indexed by the counter is carried to the end.\<close>

lemma for_runlists_inv:
  assumes "P i s" "i \<le> n" and "\<And>j s. i \<le> j \<Longrightarrow> j < n \<Longrightarrow> P j s \<Longrightarrow> \<exists>s'. body j s = Some (None, s') \<and> P (Suc j) s'"
  shows "\<exists>s'. for_runlists body i n s = Some (None, s') \<and> P n s'"
  using assms
proof (induction "n - i" arbitrary: i s)
  case 0
  then show ?case by (simp add: for_runlists_end)
next
  case (Suc m)
  then have "i < n" by simp
  obtain s' where s': "body i s = Some (None, s')" "P (Suc i) s'" using Suc.prems(3)[OF order_refl \<open>i < n\<close> Suc.prems(1)] by blast
  have "\<exists>s''. for_runlists body (Suc i) n s' = Some (None, s'') \<and> P n s''"
    using Suc.hyps(2) s'(2) \<open>i < n\<close> Suc.prems(3) by (intro Suc.hyps(1)) auto
  then show ?case using for_runlists_step[of i n body s s'] \<open>i < n\<close> s'(1) by simp
qed

section \<open>The view\<close>

definition all_domains :: "nvgpu_runlist list \<Rightarrow> nat list" where
  "all_domains rls = concat (map rl_domains rls)"

definition wok :: "rl_world \<Rightarrow> nvgpu_runlist list \<Rightarrow> bool" where
  "wok w rls \<longleftrightarrow> w_active w = Some rls \<and> w_num_runlists w = length rls \<and>
     (\<exists>rs. w_runlists w = Some rs \<and> (\<forall>i<length rls. rl_id (rls ! i) < length rs \<and> rs ! rl_id (rls ! i) = Some i)) \<and>
     distinct (all_domains rls) \<and> dom (w_dom w) = set (all_domains rls) \<and>
     (\<forall>p\<in>set (all_domains rls). p < w_next w) \<and> 7 * length (all_domains rls) \<le> w_live w"

definition dview :: "rl_world \<Rightarrow> string list \<Rightarrow> nat \<Rightarrow> nvgpu_runlist \<Rightarrow> bool" where
  "dview w ns k rl \<longleftrightarrow> map (\<lambda>p. map_option rd_name (w_dom w p)) (rl_domains rl) = map Some ns \<and> distinct ns \<and>
     rl_domain rl = (if ns = [] then None else Some (rl_domains rl ! k)) \<and> (ns \<noteq> [] \<longrightarrow> k < length ns)"

definition dom_view :: "rl_world \<Rightarrow> (nat \<Rightarrow> string list \<times> nat) \<Rightarrow> bool" where
  "dom_view w V \<longleftrightarrow> (\<exists>rls. wok w rls \<and> (\<forall>i<length rls. dview w (fst (V i)) (snd (V i)) (rls ! i)))"

text \<open>What the operations on domains leave alone.\<close>

definition rl_frame :: "rl_world \<Rightarrow> rl_world \<Rightarrow> bool" where
  "rl_frame w w' \<longleftrightarrow> w_num_runlists w' = w_num_runlists w \<and> w_runlists w' = w_runlists w \<and>
     w_max_runlists w' = w_max_runlists w \<and> w_fifo w' = w_fifo w \<and> w_rc w' = w_rc w"

lemma rl_frame_refl [simp]: "rl_frame w w" by (simp add: rl_frame_def)

lemma rl_frame_trans: "rl_frame w w' \<Longrightarrow> rl_frame w' w'' \<Longrightarrow> rl_frame w w''" by (simp add: rl_frame_def)

lemma dview_length: "dview w ns k rl \<Longrightarrow> length (rl_domains rl) = length ns"
  unfolding dview_def by (metis length_map)

lemma dview_nth: "dview w ns k rl \<Longrightarrow> j < length ns \<Longrightarrow> \<exists>d. w_dom w (rl_domains rl ! j) = Some d \<and> rd_name d = ns ! j"
proof -
  assume a: "dview w ns k rl" "j < length ns"
  have "map (\<lambda>p. map_option rd_name (w_dom w p)) (rl_domains rl) ! j = map Some ns ! j" using a by (simp add: dview_def)
  then show ?thesis using a dview_length[OF a(1)] by auto
qed

lemma dview_cong: "(\<And>p. p \<in> set (rl_domains rl) \<Longrightarrow> w_dom w' p = w_dom w p) \<Longrightarrow> dview w' ns k rl = dview w ns k rl"
proof -
  assume "\<And>p. p \<in> set (rl_domains rl) \<Longrightarrow> w_dom w' p = w_dom w p"
  then have "map (\<lambda>p. map_option rd_name (w_dom w' p)) (rl_domains rl) = map (\<lambda>p. map_option rd_name (w_dom w p)) (rl_domains rl)" by simp
  then show ?thesis by (simp only: dview_def)
qed

lemma all_domains_split:
  assumes "i < length rls"
  shows "all_domains rls = all_domains (take i rls) @ rl_domains (rls ! i) @ all_domains (drop (Suc i) rls)"
    "all_domains (rls[i := rl]) = all_domains (take i rls) @ rl_domains rl @ all_domains (drop (Suc i) rls)"
proof -
  have "all_domains (take i rls @ rls ! i # drop (Suc i) rls) = all_domains (take i rls) @ rl_domains (rls ! i) @ all_domains (drop (Suc i) rls)"
    by (simp add: all_domains_def)
  then show "all_domains rls = all_domains (take i rls) @ rl_domains (rls ! i) @ all_domains (drop (Suc i) rls)"
    by (simp add: id_take_nth_drop[OF assms, symmetric])
  show "all_domains (rls[i := rl]) = all_domains (take i rls) @ rl_domains rl @ all_domains (drop (Suc i) rls)"
    by (simp add: all_domains_def upd_conv_take_nth_drop[OF assms])
qed

lemma all_domains_other:
  assumes "j < length rls" "j \<noteq> i"
  shows "set (rl_domains (rls ! j)) \<subseteq> set (all_domains (take i rls)) \<union> set (all_domains (drop (Suc i) rls))"
proof -
  have "rls ! j \<in> set (take i rls) \<union> set (drop (Suc i) rls)"
  proof (cases "j < i")
    case True
    then have "take i rls ! j = rls ! j" "j < length (take i rls)" using assms by auto
    then show ?thesis by (metis UnI1 nth_mem)
  next
    case False
    then have "drop (Suc i) rls ! (j - Suc i) = rls ! j" "j - Suc i < length (drop (Suc i) rls)" using assms by auto
    then show ?thesis by (metis UnI2 nth_mem)
  qed
  then show ?thesis by (auto simp: all_domains_def)
qed

lemma list_next_entry_nth: "distinct xs \<Longrightarrow> Suc k < length xs \<Longrightarrow> list_next_entry xs (xs ! k) = Some (xs ! Suc k)"
proof (induction xs "xs ! k" arbitrary: k rule: list_next_entry.induct)
  case (1 x y xs)
  show ?case
  proof (cases k)
    case (Suc n)
    then have "(y # xs) ! n \<in> set (y # xs)" using 1(3) by (intro nth_mem) simp
    then have "x \<noteq> (y # xs) ! n" using 1(2) by auto
    then show ?thesis using 1 Suc by auto
  qed (use 1 in auto)
qed auto

section \<open>One runlist\<close>

lemma get_rl_ok: "w_active w = Some rls \<Longrightarrow> i < length rls \<Longrightarrow> get_rl w i = Some (rls ! i)"
  by (simp add: get_rl_def load_def)

lemma set_rl_ok: "w_active w = Some rls \<Longrightarrow> i < length rls \<Longrightarrow> set_rl i rl w = Some (w\<lparr>w_active := Some (rls[i := rl])\<rparr>)"
  by (simp add: set_rl_def store_def)

lemma wok_set_active:
  assumes "wok w rls" "i < length rls" "rl_domains rl = rl_domains (rls ! i)" "rl_id rl = rl_id (rls ! i)"
  shows "wok (w\<lparr>w_active := Some (rls[i := rl]), w_submits := sub\<rparr>) (rls[i := rl])"
proof -
  have "all_domains (rls[i := rl]) = all_domains rls" using all_domains_split[OF assms(2)] assms(3) by simp
  then show ?thesis using assms unfolding wok_def by (auto simp: nth_list_update)
qed

lemma dom_viewI:
  assumes "wok w' (rls[i := rl'])" "i < length rls" "dview w' ns' k' rl'"
    and "\<And>j. j < length rls \<Longrightarrow> j \<noteq> i \<Longrightarrow> dview w' (fst (V j)) (snd (V j)) (rls ! j)"
  shows "dom_view w' (V(i := (ns', k')))"
  unfolding dom_view_def
proof (intro exI[of _ "rls[i := rl']"] conjI allI impI)
  show "dview w' (fst ((V(i := (ns', k'))) j)) (snd ((V(i := (ns', k'))) j)) (rls[i := rl'] ! j)"
    if "j < length (rls[i := rl'])" for j
    using assms that by (cases "j = i") simp_all
qed (rule assms(1))

lemma switch_domain_view:
  assumes v: "dom_view w V" and i: "i < w_num_runlists w"
  shows "\<exists>w'. runlist_switch_domain_locked pw w i = Some w' \<and>
    dom_view w' (V(i := (fst (V i), if fst (V i) = [] then snd (V i) else Suc (snd (V i)) mod length (fst (V i))))) \<and>
    rl_frame w w' \<and> w_dom w' = w_dom w \<and> w_next w' = w_next w \<and> w_live w' = w_live w"
proof -
  obtain rls where ok: "wok w rls" and dv: "\<forall>j<length rls. dview w (fst (V j)) (snd (V j)) (rls ! j)" using v by (auto simp: dom_view_def)
  obtain ns k where V: "V i = (ns, k)" by (cases "V i")
  let ?rl = "rls ! i" and ?ds = "rl_domains (rls ! i)"
  have il: "i < length rls" and act: "w_active w = Some rls" using ok i by (auto simp: wok_def)
  have dvi: "dview w ns k ?rl" using dv il V by (metis fst_conv snd_conv)
  have len: "length ?ds = length ns" by (rule dview_length[OF dvi])
  have dist: "distinct ?ds" using ok all_domains_split(1)[OF il] by (auto simp: wok_def)
  note g = get_rl_ok[OF act il] set_rl_ok[OF act il]
  show ?thesis
  proof (cases "ns = []")
    case True
    then have "runlist_switch_domain_locked pw w i = Some w" using len g by (simp add: runlist_switch_domain_locked_def)
    then show ?thesis using True v V by (simp add: fun_upd_idem)
  next
    case False
    let ?k = "Suc k mod length ns"
    have k: "k < length ns" "rl_domain ?rl = Some (?ds ! k)" using dvi False by (auto simp: dview_def)
    have ne: "?ds \<noteq> []" using False len by auto
    have lst: "?ds ! k = last ?ds \<longleftrightarrow> Suc k = length ns"
      using k(1) len dist ne by (simp add: last_conv_nth nth_eq_iff_index_eq) linarith
    have nxt: "(if rl_domain ?rl = Some (last ?ds) then Some (hd ?ds) else do { p \<leftarrow> rl_domain ?rl; list_next_entry ?ds p }) = Some (?ds ! ?k)"
      using k lst list_next_entry_nth[OF dist, of k] len ne by (auto simp: hd_conv_nth)
    show ?thesis
    proof (cases "?k = k")
      case True
      then have "runlist_switch_domain_locked pw w i = Some w" using g nxt k ne by (simp add: runlist_switch_domain_locked_def)
      then show ?thesis using True False v V by (simp add: fun_upd_idem)
    next
      case False
      let ?rl' = "?rl\<lparr>rl_domain := Some (?ds ! ?k)\<rparr>"
      define sub where "sub = (if pw_off pw \<or> pw_busy pw \<noteq> None then w_submits w else w_submits w @ [(rl_id ?rl, Some (?ds ! ?k))])"
      let ?w = "w\<lparr>w_active := Some (rls[i := ?rl']), w_submits := sub\<rparr>"
      have kl: "?k < length ns" using \<open>ns \<noteq> []\<close> by simp
      have "?ds ! ?k \<noteq> ?ds ! k" using False kl k(1) len dist by (simp add: nth_eq_iff_index_eq)
      then have "runlist_switch_domain_locked pw w i = Some ?w"
        using g nxt k ne by (simp add: runlist_switch_domain_locked_def runlist_select_locked_def sub_def Let_def)
      moreover have "wok ?w (rls[i := ?rl'])" using ok il by (intro wok_set_active) auto
      moreover have "dview ?w ns ?k ?rl'" using dvi kl by (auto simp: dview_def)
      moreover have "dview ?w (fst (V j)) (snd (V j)) (rls ! j)" if "j < length rls" for j
        using dv that dview_cong[of "rls ! j" ?w w] by simp
      ultimately show ?thesis using V \<open>ns \<noteq> []\<close> dom_viewI[of ?w rls i ?rl' ns ?k V] il
        by (intro exI[of _ ?w]) (simp add: rl_frame_def)
    qed
  qed
qed

lemma domain_alloc_fail:
  assumes "\<exists>k<7. oom k"
  shows "nvgpu_runlist_domain_alloc oom w i name = Some (None, w)"
proof -
  have "oom 0 \<or> oom 1 \<or> oom 2 \<or> oom 3 \<or> oom 4 \<or> oom 5 \<or> oom 6"
  proof -
    obtain k where "k < 7" "oom k" using assms by blast
    then have "k = 0 \<or> k = 1 \<or> k = 2 \<or> k = 3 \<or> k = 4 \<or> k = 5 \<or> k = 6" by auto
    then show ?thesis using \<open>oom k\<close> by auto
  qed
  then show ?thesis
    by (auto simp: nvgpu_runlist_domain_alloc_def init_rl_mem_def kfree_def free_rl_mem_def Let_def numeral_2_eq_2)
qed

lemma dview_other:
  assumes ok: "wok w rls" and i: "i < length rls" and j: "j < length rls" "j \<noteq> i" and dv: "dview w ns k (rls ! j)"
    and dom: "\<And>p. w_dom w' p \<noteq> w_dom w p \<Longrightarrow> p \<in> set (rl_domains (rls ! i)) \<or> w_next w \<le> p"
  shows "dview w' ns k (rls ! j)"
proof -
  have "w_dom w' p = w_dom w p" if p: "p \<in> set (rl_domains (rls ! j))" for p
  proof (rule ccontr)
    assume "w_dom w' p \<noteq> w_dom w p"
    then consider "p \<in> set (rl_domains (rls ! i))" | "w_next w \<le> p" using dom by blast
    then show False
    proof cases
      case 1
      then show ?thesis using ok all_domains_split(1)[OF i] all_domains_other[OF j] p by (auto simp: wok_def)
    next
      case 2
      have "p \<in> set (all_domains rls)" using p j(1) by (auto simp: all_domains_def)
      then show ?thesis using ok 2 by (auto simp: wok_def)
    qed
  qed
  then show ?thesis using dv dview_cong by blast
qed

lemma domain_alloc_view:
  assumes v: "dom_view w V" and i: "i < w_num_runlists w" and no: "\<forall>k<7. \<not> oom k" and nm: "rl_strncpy name \<notin> set (fst (V i))"
  shows "\<exists>w'. nvgpu_runlist_domain_alloc oom w i name = Some (Some (w_next w), w') \<and>
    dom_view w' (V(i := (fst (V i) @ [rl_strncpy name], if fst (V i) = [] then 0 else snd (V i)))) \<and>
    rl_frame w w' \<and> w_live w' = w_live w + 7"
proof -
  obtain rls where ok: "wok w rls" and dv: "\<forall>j<length rls. dview w (fst (V j)) (snd (V j)) (rls ! j)" using v by (auto simp: dom_view_def)
  obtain ns k where V: "V i = (ns, k)" by (cases "V i")
  let ?rl = "rls ! i" and ?ds = "rl_domains (rls ! i)" and ?d = "w_next w"
  have il: "i < length rls" and act: "w_active w = Some rls" using ok i by (auto simp: wok_def)
  have dvi: "dview w ns k ?rl" using dv il V by (metis fst_conv snd_conv)
  let ?f = "w_fifo w"
  let ?sz = "wrap32 (f_runlist_entry_size ?f * f_num_runlist_entries ?f) div f_runlist_entry_size ?f"
  let ?m = "\<lparr>rm_entries = replicate ?sz (Ch_entry 0), rm_count = 0\<rparr>" and ?b = "replicate ((f_num_channels ?f + 7) div 8 div 8) 0"
  let ?dv = "\<lparr>rd_name = rl_strncpy name, rd_active_channels = ?b, rd_active_tsgs = ?b, rd_mem = ?m, rd_mem_hw = ?m\<rparr>"
  let ?rl' = "?rl\<lparr>rl_domains := ?ds @ [?d], rl_domain := (if rl_domain ?rl = None then Some ?d else rl_domain ?rl)\<rparr>"
  let ?w = "w\<lparr>w_live := w_live w + 7, w_dom := (w_dom w)(?d \<mapsto> ?dv), w_next := ?d + 1, w_active := Some (rls[i := ?rl'])\<rparr>"
  have o: "\<not> oom 0" "\<not> oom (Suc 0)" "\<not> oom 2" "\<not> oom 3" "\<not> oom 4" "\<not> oom 5" "\<not> oom 6" using no by auto
  have "nvgpu_runlist_domain_alloc oom w i name = Some (Some ?d, ?w)"
    using o act il by (simp add: nvgpu_runlist_domain_alloc_def init_rl_mem_def get_rl_def set_rl_def load_def store_def Let_def)
  moreover have ok': "wok ?w (rls[i := ?rl'])"
  proof -
    have f: "?d \<notin> set (all_domains rls)" using ok by (auto simp: wok_def)
    have "all_domains (rls[i := ?rl']) = all_domains (take i rls) @ (?ds @ [?d]) @ all_domains (drop (Suc i) rls)"
      using all_domains_split(2)[OF il, of ?rl'] by simp
    then show ?thesis using ok f il all_domains_split(1)[OF il]
      unfolding wok_def by (auto simp: nth_list_update less_Suc_eq)
  qed
  moreover have dv': "dview ?w (ns @ [rl_strncpy name]) (if ns = [] then 0 else k) ?rl'"
  proof -
    have "?d \<notin> set ?ds" using ok all_domains_split(1)[OF il] by (auto simp: wok_def)
    then have "map (\<lambda>p. map_option rd_name (w_dom ?w p)) ?ds = map (\<lambda>p. map_option rd_name (w_dom w p)) ?ds" by auto
    moreover have "length ?ds = length ns" by (rule dview_length[OF dvi])
    ultimately show ?thesis using dvi nm V unfolding dview_def by (auto simp: nth_append simp del: fun_upd_apply) auto
  qed
  moreover have oth: "dview ?w (fst (V j)) (snd (V j)) (rls ! j)" if j: "j < length rls" "j \<noteq> i" for j
  proof (rule dview_other[OF ok il j])
    show "dview w (fst (V j)) (snd (V j)) (rls ! j)" using dv j by simp
    show "p \<in> set ?ds \<or> w_next w \<le> p" if "w_dom ?w p \<noteq> w_dom w p" for p using that by (cases "p = w_next w") auto
  qed
  moreover have "dom_view ?w (V(i := (ns @ [rl_strncpy name], if ns = [] then 0 else k)))"
    by (rule dom_viewI[where V = V, OF ok' il dv' oth])
  moreover have "rl_frame w ?w" "w_live ?w = w_live w + 7" by (simp_all add: rl_frame_def)
  ultimately show ?thesis unfolding V fst_conv snd_conv by blast
qed

definition remove_at :: "nat \<Rightarrow> 'a list \<Rightarrow> 'a list" where
  "remove_at j xs = take j xs @ drop (Suc j) xs"

lemma remove_at_simps [simp]:
  "j < length xs \<Longrightarrow> length (remove_at j xs) = length xs - 1" "map f (remove_at j xs) = remove_at j (map f xs)"
  by (auto simp: remove_at_def take_map drop_map)

lemma remove_at_set: "distinct xs \<Longrightarrow> j < length xs \<Longrightarrow> set (remove_at j xs) = set xs - {xs ! j} \<and> distinct (remove_at j xs)"
proof -
  assume a: "distinct xs" "j < length xs"
  then have d: "distinct (take j xs @ xs ! j # drop (Suc j) xs)" and e: "take j xs @ xs ! j # drop (Suc j) xs = xs"
    using id_take_nth_drop[OF a(2)] by simp_all
  have "set xs = set (take j xs) \<union> {xs ! j} \<union> set (drop (Suc j) xs)" by (subst e[symmetric]) auto
  then show ?thesis using d by (auto simp: remove_at_def)
qed

lemma remove1_nth: "distinct xs \<Longrightarrow> j < length xs \<Longrightarrow> remove1 (xs ! j) xs = remove_at j xs"
proof -
  assume a: "distinct xs" "j < length xs"
  have e: "take j xs @ xs ! j # drop (Suc j) xs = xs" using id_take_nth_drop[OF a(2)] by simp
  have "xs ! j \<notin> set (take j xs)" using a(1) e by (metis distinct.simps(2) distinct_append disjoint_insert(2) list.set(2))
  then have "remove1 (xs ! j) (take j xs @ xs ! j # drop (Suc j) xs) = remove_at j xs" by (simp add: remove1_append remove_at_def)
  then show ?thesis by (simp only: e)
qed

lemma nth_remove_at: "j < length xs \<Longrightarrow> k < length xs \<Longrightarrow> j \<noteq> k \<Longrightarrow> remove_at j xs ! (if j < k then k - 1 else k) = xs ! k"
  by (auto simp: remove_at_def nth_append)

lemma find_domain_None: "map (\<lambda>p. map_option rd_name (h p)) ds = map Some ns \<Longrightarrow> name \<notin> set ns \<Longrightarrow> find_domain h ds name = Some None"
proof (induction ds arbitrary: ns)
  case (Cons p ds)
  then obtain n ns' where "ns = n # ns'" by (cases ns) auto
  then show ?case using Cons by auto
qed simp

lemma find_domain_Some:
  "map (\<lambda>p. map_option rd_name (h p)) ds = map Some ns \<Longrightarrow> distinct ns \<Longrightarrow> j < length ns \<Longrightarrow> find_domain h ds (ns ! j) = Some (Some (ds ! j))"
proof (induction ds arbitrary: ns j)
  case (Cons p ds)
  then obtain n ns' where ns: "ns = n # ns'" by (cases ns) auto
  show ?case
  proof (cases j)
    case 0
    then show ?thesis using Cons ns by auto
  next
    case (Suc k)
    then have "ns' ! k \<in> set ns'" using Cons.prems ns by simp
    then have "n \<noteq> ns' ! k" using Cons.prems ns by auto
    then show ?thesis using Cons ns Suc by auto
  qed
qed simp

lemma rl_domain_get_view:
  assumes ok: "wok w rls" and i: "i < length rls" and dv: "dview w ns k (rls ! i)"
  shows "name \<notin> set ns \<Longrightarrow> nvgpu_rl_domain_get w (rl_id (rls ! i)) name = Some None"
    "j < length ns \<Longrightarrow> nvgpu_rl_domain_get w (rl_id (rls ! i)) (ns ! j) = Some (Some (rl_domains (rls ! i) ! j))"
proof -
  obtain rs where rs: "w_runlists w = Some rs" "rl_id (rls ! i) < length rs" "rs ! rl_id (rls ! i) = Some i" "w_active w = Some rls"
    using ok i by (auto simp: wok_def)
  then have e: "nvgpu_rl_domain_get w (rl_id (rls ! i)) nm = find_domain (w_dom w) (rl_domains (rls ! i)) nm" for nm
    using i by (simp add: nvgpu_rl_domain_get_def load_def get_rl_def)
  show "name \<notin> set ns \<Longrightarrow> nvgpu_rl_domain_get w (rl_id (rls ! i)) name = Some None"
    using dv unfolding e by (auto simp: dview_def intro: find_domain_None)
  show "j < length ns \<Longrightarrow> nvgpu_rl_domain_get w (rl_id (rls ! i)) (ns ! j) = Some (Some (rl_domains (rls ! i) ! j))"
    using dv unfolding e by (auto simp: dview_def intro: find_domain_Some)
qed

lemma domain_free_view:
  assumes v: "dom_view w V" and rls: "w_active w = Some rls" and i: "i < length rls" and V: "V i = (ns, k)" and j: "j < length ns" "j \<noteq> k"
  shows "\<exists>w'. nvgpu_runlist_domain_free w i (rl_domains (rls ! i) ! j) = Some w' \<and>
    dom_view w' (V(i := (remove_at j ns, if j < k then k - 1 else k))) \<and> rl_frame w w' \<and> w_live w' = w_live w - 7 \<and> 7 \<le> w_live w"
proof -
  have ok: "wok w rls" and dv: "\<forall>j<length rls. dview w (fst (V j)) (snd (V j)) (rls ! j)" using v rls by (auto simp: dom_view_def wok_def)
  let ?rl = "rls ! i" and ?ds = "rl_domains (rls ! i)"
  let ?d = "?ds ! j" and ?k = "if j < k then k - 1 else k"
  have dvi: "dview w ns k ?rl" using dv i V by (metis fst_conv snd_conv)
  have len: "length ?ds = length ns" by (rule dview_length[OF dvi])
  have k: "k < length ns" "rl_domain ?rl = Some (?ds ! k)" using dvi j by (auto simp: dview_def)
  have dist: "distinct ?ds" using ok all_domains_split(1)[OF i] by (auto simp: wok_def)
  have rem: "remove1 ?d ?ds = remove_at j ?ds" using dist j len by (simp add: remove1_nth)
  have set: "set (remove_at j ?ds) = set ?ds - {?d}" "distinct (remove_at j ?ds)" using remove_at_set[OF dist, of j] j len by auto
  obtain dv0 where d0: "w_dom w ?d = Some dv0" using dview_nth[OF dvi j(1)] by blast
  have live: "7 \<le> w_live w"
  proof -
    have "length ?ds \<le> length (all_domains rls)" using all_domains_split(1)[OF i] by simp
    then show ?thesis using ok j len unfolding wok_def by linarith
  qed
  let ?rl' = "?rl\<lparr>rl_domains := remove_at j ?ds\<rparr>"
  let ?w = "w\<lparr>w_active := Some (rls[i := ?rl']), w_live := w_live w - 7, w_dom := (w_dom w)(?d := None)\<rparr>"
  have "nvgpu_runlist_domain_free w i ?d = Some ?w"
    using d0 rls i live rem by (simp add: nvgpu_runlist_domain_free_def get_rl_def set_rl_def load_def store_def kfree_def free_rl_mem_def)
  moreover have ok': "wok ?w (rls[i := ?rl'])"
  proof -
    have a: "all_domains (rls[i := ?rl']) = all_domains (take i rls) @ remove_at j ?ds @ all_domains (drop (Suc i) rls)"
      using all_domains_split(2)[OF i, of ?rl'] by simp
    have "7 * length (all_domains (rls[i := ?rl'])) \<le> w_live w - 7"
    proof -
      have "length (all_domains rls) = Suc (length (all_domains (rls[i := ?rl'])))"
        using all_domains_split(1)[OF i] j len unfolding a by simp
      moreover have "7 * length (all_domains rls) \<le> w_live w" using ok by (simp add: wok_def)
      ultimately show ?thesis by linarith
    qed
    moreover have "distinct (all_domains (rls[i := ?rl']))" "set (all_domains (rls[i := ?rl'])) = set (all_domains rls) - {?d}"
    proof -
      have "distinct (all_domains (take i rls) @ ?ds @ all_domains (drop (Suc i) rls))"
        using ok all_domains_split(1)[OF i] by (simp add: wok_def)
      moreover have "?d \<in> set ?ds" using j len by simp
      ultimately show "distinct (all_domains (rls[i := ?rl']))" "set (all_domains (rls[i := ?rl'])) = set (all_domains rls) - {?d}"
        unfolding a all_domains_split(1)[OF i] using set by (simp, blast, auto)
    qed
    moreover have "rl_id (rls[i := ?rl'] ! l) = rl_id (rls ! l)" for l using i by (cases "l = i") simp_all
    ultimately show ?thesis using ok unfolding wok_def by simp
  qed
  moreover have dv': "dview ?w (remove_at j ns) ?k ?rl'"
  proof -
    have "map (\<lambda>p. map_option rd_name (w_dom ?w p)) (remove_at j ?ds) = map (\<lambda>p. map_option rd_name (w_dom w p)) (remove_at j ?ds)"
      using set by (intro map_cong) auto
    also have "\<dots> = map Some (remove_at j ns)" using dvi by (simp add: dview_def)
    finally have m: "map (\<lambda>p. map_option rd_name (w_dom ?w p)) (remove_at j ?ds) = map Some (remove_at j ns)" .
    have l: "length (remove_at j ns) = length ns - 1" "?k < length ns - 1" using j k by auto
    then have "remove_at j ns \<noteq> []" by (metis length_0_conv not_less_zero)
    moreover have "remove_at j ?ds ! ?k = ?ds ! k" using nth_remove_at[of j ?ds k] j k len by simp
    ultimately show ?thesis using m l dvi k remove_at_set[of ns j] j unfolding dview_def by simp
  qed
  moreover have oth: "dview ?w (fst (V l)) (snd (V l)) (rls ! l)" if l: "l < length rls" "l \<noteq> i" for l
  proof (rule dview_other[OF ok i l])
    show "dview w (fst (V l)) (snd (V l)) (rls ! l)" using dv l by simp
    show "p \<in> set ?ds \<or> w_next w \<le> p" if "w_dom ?w p \<noteq> w_dom w p" for p using that j len by (cases "p = ?d") auto
  qed
  moreover have "dom_view ?w (V(i := (remove_at j ns, ?k)))" by (rule dom_viewI[where V = V, OF ok' i dv' oth])
  moreover have "rl_frame w ?w" "w_live ?w = w_live w - 7" by (simp_all add: rl_frame_def)
  ultimately show ?thesis using live by blast
qed

section \<open>All runlists\<close>

text \<open>The next domain, and what is left when the \<open>j\<close>-th is deleted, moving on first if it is the active one.\<close>

fun tick_view :: "string list \<times> nat \<Rightarrow> string list \<times> nat" where
  "tick_view (ns, k) = (ns, if ns = [] then k else Suc k mod length ns)"

fun del_view :: "nat \<Rightarrow> string list \<times> nat \<Rightarrow> string list \<times> nat" where
  "del_view j (ns, k) =
     (remove_at j ns, if j < k then k - 1 else if j = k \<and> Suc k = length ns then 0 else k)"

fun add_view :: "string \<Rightarrow> string list \<times> nat \<Rightarrow> string list \<times> nat" where
  "add_view n (ns, k) = (ns @ [n], if ns = [] then 0 else k)"

lemma dom_view_num: "dom_view w V \<Longrightarrow> \<exists>rls. w_active w = Some rls \<and> wok w rls \<and> length rls = w_num_runlists w \<and>
    (\<forall>i<length rls. dview w (fst (V i)) (snd (V i)) (rls ! i))"
  by (auto simp: dom_view_def wok_def)

lemma dom_view_cong:
  assumes "dom_view w V" "\<And>i. i < w_num_runlists w \<Longrightarrow> V i = V' i"
  shows "dom_view w V'"
proof -
  obtain rls where "wok w rls" "length rls = w_num_runlists w" "\<forall>i<length rls. dview w (fst (V i)) (snd (V i)) (rls ! i)"
    using dom_view_num[OF assms(1)] by blast
  then show ?thesis using assms(2) unfolding dom_view_def by auto
qed

lemma tick_views:
  assumes v: "dom_view w V"
  shows "\<exists>w'. nvgpu_runlist_tick pw w = Some w' \<and> dom_view w' (\<lambda>i. tick_view (V i)) \<and> rl_frame w w' \<and>
    w_dom w' = w_dom w \<and> w_next w' = w_next w \<and> w_live w' = w_live w"
proof -
  let ?n = "w_num_runlists w"
  let ?P = "\<lambda>j x. dom_view x (\<lambda>i. if i < j then tick_view (V i) else V i) \<and> rl_frame w x \<and>
    w_dom x = w_dom w \<and> w_next x = w_next w \<and> w_live x = w_live w"
  have "\<exists>w'. for_runlists (\<lambda>i w. do { w \<leftarrow> runlist_switch_domain_locked pw w i; Some (None :: unit option, w) }) 0 ?n w = Some (None, w') \<and> ?P ?n w'"
  proof (rule for_runlists_inv)
    show "?P 0 w" using v by simp
    fix j x assume j: "j < ?n" and P: "?P j x"
    let ?V = "\<lambda>i. if i < j then tick_view (V i) else V i"
    have n: "j < w_num_runlists x" using j P by (simp add: rl_frame_def)
    obtain x' where x': "runlist_switch_domain_locked pw x j = Some x'"
      "dom_view x' (?V(j := (fst (?V j), if fst (?V j) = [] then snd (?V j) else Suc (snd (?V j)) mod length (fst (?V j)))))"
      "rl_frame x x'" "w_dom x' = w_dom x" "w_next x' = w_next x" "w_live x' = w_live x"
      using switch_domain_view[OF _ n, of ?V pw] P by blast
    have "?V(j := (fst (?V j), if fst (?V j) = [] then snd (?V j) else Suc (snd (?V j)) mod length (fst (?V j)))) =
        (\<lambda>i. if i < Suc j then tick_view (V i) else V i)"
      by (cases "V j") (auto simp: fun_eq_iff less_Suc_eq)
    then show "\<exists>s'. do { w \<leftarrow> runlist_switch_domain_locked pw x j; Some (None :: unit option, w) } = Some (None, s') \<and> ?P (Suc j) s'"
      using x' P rl_frame_trans by auto
  qed simp
  then obtain w' where w': "for_runlists (\<lambda>i w. do { w \<leftarrow> runlist_switch_domain_locked pw w i; Some (None :: unit option, w) }) 0 ?n w = Some (None, w')"
    "?P ?n w'" by blast
  have "w_num_runlists w' = ?n" using w'(2) by (simp add: rl_frame_def)
  then have "dom_view w' (\<lambda>i. tick_view (V i))" using w'(2) by (auto intro: dom_view_cong)
  then show ?thesis using w' by (simp add: nvgpu_runlist_tick_def)
qed

text \<open>The body of the deletion loop on one runlist.\<close>

definition delete_body :: "rl_power \<Rightarrow> string \<Rightarrow> nat \<Rightarrow> rl_world \<Rightarrow> (errno option \<times> rl_world) option" where
  "delete_body pw name i w = do {
            rl \<leftarrow> get_rl w i;
            found \<leftarrow> nvgpu_rl_domain_get w (rl_id rl) name;
            (case found of
               None \<Rightarrow> Some (None, w)
             | Some d \<Rightarrow>
                 if hd (rl_domains rl) = last (rl_domains rl) then Some (Some EINVAL, w)
                 else do {
                   w \<leftarrow> (if rl_domain rl = Some d then runlist_switch_domain_locked pw w i else Some w);
                   w \<leftarrow> nvgpu_runlist_domain_free w i d;
                   Some (None, w) }) }"

lemma rl_domain_delete_body:
  "nvgpu_rl_domain_delete pw w name = do { (r, w) \<leftarrow> for_runlists (delete_body pw name) 0 (w_num_runlists w) w;
     Some (case r of None \<Rightarrow> Inr () | Some e \<Rightarrow> Inl e, w) }"
  unfolding nvgpu_rl_domain_delete_def delete_body_def[abs_def] ..

lemma delete_body_missing:
  assumes "dom_view w V" "i < w_num_runlists w" "name \<notin> set (fst (V i))"
  shows "delete_body pw name i w = Some (None, w)"
proof -
  obtain rls where r: "w_active w = Some rls" "wok w rls" "i < length rls" "dview w (fst (V i)) (snd (V i)) (rls ! i)"
    using dom_view_num[OF assms(1)] assms(2) by auto
  show ?thesis using rl_domain_get_view(1)[OF r(2,3,4) assms(3)] get_rl_ok[OF r(1,3)] by (simp add: delete_body_def)
qed

lemma delete_body_last:
  assumes "dom_view w V" "i < w_num_runlists w" "V i = ([name], 0)"
  shows "delete_body pw name i w = Some (Some EINVAL, w)"
proof -
  obtain rls where r: "w_active w = Some rls" "wok w rls" "i < length rls" "dview w [name] 0 (rls ! i)"
    using dom_view_num[OF assms(1)] assms(2,3) by (metis fst_conv snd_conv)
  obtain d where "rl_domains (rls ! i) = [d]" using dview_length[OF r(4)] by (auto simp: length_Suc_conv)
  then show ?thesis using rl_domain_get_view(2)[OF r(2,3,4), of 0] get_rl_ok[OF r(1,3)] by (simp add: delete_body_def)
qed

lemma switch_active:
  assumes "runlist_switch_domain_locked pw w i = Some w'" "w_active w = Some rls" "i < length rls"
  shows "w_active w' = Some rls \<or> (\<exists>x. w_active w' = Some (rls[i := (rls ! i)\<lparr>rl_domain := x\<rparr>]))"
  using assms by (auto simp: runlist_switch_domain_locked_def runlist_select_locked_def get_rl_def set_rl_def
      load_def store_def Let_def split: if_splits bind_splits)

lemma delete_body_view:
  assumes v: "dom_view w V" and i: "i < w_num_runlists w" and V: "V i = (ns, k)" and j: "j < length ns" and l: "1 < length ns"
  shows "\<exists>w'. delete_body pw (ns ! j) i w = Some (None, w') \<and> dom_view w' (V(i := del_view j (ns, k))) \<and> rl_frame w w' \<and>
    w_live w' + 7 = w_live w"
proof -
  obtain rls where r: "w_active w = Some rls" "wok w rls" "i < length rls" "dview w ns k (rls ! i)"
    using dom_view_num[OF v] i V by (metis fst_conv snd_conv)
  let ?ds = "rl_domains (rls ! i)"
  have len: "length ?ds = length ns" by (rule dview_length[OF r(4)])
  have dist: "distinct ?ds" using r(2) all_domains_split(1)[OF r(3)] by (auto simp: wok_def)
  have k: "k < length ns" "rl_domain (rls ! i) = Some (?ds ! k)" using r(4) l by (auto simp: dview_def)
  have ne: "?ds \<noteq> []" using len l by auto
  have nsne: "ns \<noteq> []" using l by auto
  have hl: "hd ?ds \<noteq> last ?ds"
    using nsne nth_eq_iff_index_eq[OF dist, of 0 "length ns - 1"] len l ne by (auto simp: hd_conv_nth last_conv_nth)
  have cur: "rl_domain (rls ! i) = Some (?ds ! j) \<longleftrightarrow> j = k" using k j len dist by (auto simp: nth_eq_iff_index_eq)
  note b = rl_domain_get_view(2)[OF r(2,3,4) j] get_rl_ok[OF r(1,3)] hl cur
  show ?thesis
  proof (cases "j = k")
    case False
    have "(remove_at j ns, if j < k then k - 1 else k) = del_view j (ns, k)" using False by simp
    then show ?thesis using b domain_free_view[OF v r(1,3) V j False] False by (auto simp: delete_body_def)
  next
    case True
    let ?k = "Suc k mod length ns"
    have k': "?k < length ns" "?k \<noteq> k" using k l by (auto simp: mod_Suc)
    obtain w1 where w1: "runlist_switch_domain_locked pw w i = Some w1" "dom_view w1 (V(i := (ns, ?k)))" "rl_frame w w1"
      "w_dom w1 = w_dom w" "w_live w1 = w_live w"
      using switch_domain_view[OF v i, of pw] V l by (auto simp: split: if_splits)
    obtain rls1 where r1: "w_active w1 = Some rls1" "wok w1 rls1" "i < length rls1"
      using dom_view_num[OF w1(2)] w1(3) i by (auto simp: rl_frame_def)
    have ds: "rl_domains (rls1 ! i) = ?ds"
    proof -
      have "w_active w1 = Some rls \<or> (\<exists>x. w_active w1 = Some (rls[i := (rls ! i)\<lparr>rl_domain := x\<rparr>]))"
        by (rule switch_active[OF w1(1) r(1,3)])
      then show ?thesis using r1(1) r(3) by auto
    qed
    obtain w2 where w2: "nvgpu_runlist_domain_free w1 i (?ds ! j) = Some w2"
      "dom_view w2 ((V(i := (ns, ?k)))(i := (remove_at j ns, if j < ?k then ?k - 1 else ?k)))" "rl_frame w1 w2"
      "w_live w2 = w_live w1 - 7" "7 \<le> w_live w1"
      using domain_free_view[OF w1(2) r1(1,3), of ns ?k j] ds j k' True by auto
    have "(remove_at j ns, if j < ?k then ?k - 1 else ?k) = del_view j (ns, k)"
      using True k l by (auto simp: mod_Suc)
    then show ?thesis using b w1 w2 True rl_frame_trans[OF w1(3) w2(3)] by (auto simp: delete_body_def)
  qed
qed

lemma delete_loop_view:
  assumes v: "dom_view w V" and n: "n = w_num_runlists w"
    and V: "\<And>i. i < n \<Longrightarrow> name \<notin> set (fst (V i)) \<and> V' i = V i \<or>
      (\<exists>ns k j. V i = (ns, k) \<and> j < length ns \<and> ns ! j = name \<and> 1 < length ns \<and> V' i = del_view j (ns, k))"
  shows "\<exists>w'. nvgpu_rl_domain_delete pw w name = Some (Inr (), w') \<and> dom_view w' V' \<and> rl_frame w w' \<and>
    w_live w' + 7 * card {i. i < n \<and> name \<in> set (fst (V i))} = w_live w"
proof -
  let ?C = "\<lambda>j. {i. i < j \<and> name \<in> set (fst (V i))}"
  let ?P = "\<lambda>j x. dom_view x (\<lambda>i. if i < j then V' i else V i) \<and> rl_frame w x \<and> w_live x + 7 * card (?C j) = w_live w"
  have C: "card (?C (Suc j)) = card (?C j) + (if name \<in> set (fst (V j)) then 1 else 0)" for j
  proof -
    have "?C (Suc j) = (if name \<in> set (fst (V j)) then insert j (?C j) else ?C j)" by (auto simp: less_Suc_eq)
    then show ?thesis by simp
  qed
  have "\<exists>w'. for_runlists (delete_body pw name) 0 n w = Some (None, w') \<and> ?P n w'"
  proof (rule for_runlists_inv)
    show "?P 0 w" using v by simp
    fix j x assume j: "j < n" and P: "?P j x"
    let ?V = "\<lambda>i. if i < j then V' i else V i"
    have jn: "j < w_num_runlists x" using j n P by (simp add: rl_frame_def)
    from V[OF j] show "\<exists>s'. delete_body pw name j x = Some (None, s') \<and> ?P (Suc j) s'"
    proof (elim disjE conjE exE)
      assume a: "name \<notin> set (fst (V j))" "V' j = V j"
      then have "(\<lambda>i. if i < Suc j then V' i else V i) = ?V" by (auto simp: fun_eq_iff less_Suc_eq)
      then show ?thesis using delete_body_missing[OF conjunct1[OF P] jn, of name pw] a P C[of j] by simp
    next
      fix ns k l assume a: "V j = (ns, k)" "l < length ns" "ns ! l = name" "1 < length ns" "V' j = del_view l (ns, k)"
      have m: "name \<in> set (fst (V j))" using a nth_mem[of l ns] by simp
      have "?V j = (ns, k)" using a by simp
      from delete_body_view[OF conjunct1[OF P] jn this a(2,4), of pw]
      obtain x' where x': "delete_body pw name j x = Some (None, x')" "dom_view x' (?V(j := del_view l (ns, k)))" "rl_frame x x'"
        "w_live x' + 7 = w_live x" using a(3) by blast
      have "?V(j := del_view l (ns, k)) = (\<lambda>i. if i < Suc j then V' i else V i)" using a by (auto simp: fun_eq_iff less_Suc_eq)
      then show ?thesis using x' P C[of j] m rl_frame_trans[OF _ x'(3), of w] by auto
    qed
  qed simp
  then obtain w' where w': "for_runlists (delete_body pw name) 0 n w = Some (None, w')" "?P n w'" by blast
  have "w_num_runlists w' = n" using w'(2) n by (simp add: rl_frame_def)
  then have "dom_view w' V'" using w'(2) by (auto intro: dom_view_cong)
  then show ?thesis using w' n by (simp add: rl_domain_delete_body)
qed

lemma delete_loop_refused:
  assumes "dom_view w V" "0 < w_num_runlists w" "V 0 = ([name], 0)"
  shows "nvgpu_rl_domain_delete pw w name = Some (Inl EINVAL, w)"
  using for_runlists_stop[OF assms(2), of "delete_body pw name" w] delete_body_last[OF assms]
  by (simp add: rl_domain_delete_body)

definition alloc_body :: "(nat \<Rightarrow> nat \<Rightarrow> bool) \<Rightarrow> string \<Rightarrow> nat \<Rightarrow> rl_world \<Rightarrow> (errno option \<times> rl_world) option" where
  "alloc_body oom name i w = do {
            rl \<leftarrow> get_rl w i;
            found \<leftarrow> nvgpu_rl_domain_get w (rl_id rl) name;
            if found \<noteq> None then Some (Some EEXIST, w)
            else do {
              (d, w) \<leftarrow> nvgpu_runlist_domain_alloc (oom i) w i name;
              Some (if d = None then Some ENOMEM else None, w) } }"

lemma rl_domain_alloc_body:
  "nvgpu_rl_domain_alloc pw oom w name =
     do { (r, w) \<leftarrow> for_runlists (alloc_body oom name) 0 (w_num_runlists w) w;
          (case r of
             None \<Rightarrow> Some (Inr (), w)
           | Some EEXIST \<Rightarrow> Some (Inl EEXIST, w)
           | Some e \<Rightarrow> do { (_, w) \<leftarrow> nvgpu_rl_domain_delete pw w name; Some (Inl e, w) }) }"
  unfolding nvgpu_rl_domain_alloc_def alloc_body_def[abs_def] ..

lemma alloc_body_view:
  assumes v: "dom_view w V" and i: "i < w_num_runlists w" and nm: "name \<notin> set (fst (V i))" "length name \<le> 31"
  shows "(\<exists>k<7. oom i k) \<Longrightarrow> alloc_body oom name i w = Some (Some ENOMEM, w)"
    "\<forall>k<7. \<not> oom i k \<Longrightarrow> \<exists>w'. alloc_body oom name i w = Some (None, w') \<and> dom_view w' (V(i := add_view name (V i))) \<and>
       rl_frame w w' \<and> w_live w' = w_live w + 7"
proof -
  obtain rls where r: "w_active w = Some rls" "wok w rls" "i < length rls" "dview w (fst (V i)) (snd (V i)) (rls ! i)"
    using dom_view_num[OF v] i by auto
  have cp: "rl_strncpy name = name" using nm by (simp add: rl_strncpy_def)
  have av: "add_view name (V i) = (fst (V i) @ [name], if fst (V i) = [] then 0 else snd (V i))" by (cases "V i") simp
  note b = rl_domain_get_view(1)[OF r(2,3,4) nm(1)] get_rl_ok[OF r(1,3)]
  show "(\<exists>k<7. oom i k) \<Longrightarrow> alloc_body oom name i w = Some (Some ENOMEM, w)"
    using b domain_alloc_fail[of "oom i" w i name] by (simp add: alloc_body_def)
  show "\<exists>w'. alloc_body oom name i w = Some (None, w') \<and> dom_view w' (V(i := add_view name (V i))) \<and>
       rl_frame w w' \<and> w_live w' = w_live w + 7" if "\<forall>k<7. \<not> oom i k"
    using b domain_alloc_view[OF v i that, of name] nm(1) unfolding cp av by (auto simp: alloc_body_def)
qed

text \<open>Until the first failing runlist, every runlist gets the domain.\<close>

lemma alloc_loop_view:
  assumes v: "dom_view w (\<lambda>_. (ns, k))" and m: "m \<le> w_num_runlists w" and nm: "name \<notin> set ns" "length name \<le> 31"
    and no: "\<forall>i<m. \<forall>l<7. \<not> oom i l"
  shows "\<exists>w'. for_runlists (alloc_body oom name) 0 m w = Some (None, w') \<and>
    dom_view w' (\<lambda>i. if i < m then add_view name (ns, k) else (ns, k)) \<and> rl_frame w w' \<and> w_live w' = w_live w + 7 * m"
proof (rule for_runlists_inv[where P = "\<lambda>j x. dom_view x (\<lambda>i. if i < j then add_view name (ns, k) else (ns, k)) \<and>
    rl_frame w x \<and> w_live x = w_live w + 7 * j"])
  show "dom_view w (\<lambda>i. if i < 0 then add_view name (ns, k) else (ns, k)) \<and> rl_frame w w \<and> w_live w = w_live w + 7 * 0" using v by simp
  fix j x assume j: "j < m" and P: "dom_view x (\<lambda>i. if i < j then add_view name (ns, k) else (ns, k)) \<and> rl_frame w x \<and> w_live x = w_live w + 7 * j"
  let ?V = "\<lambda>i. if i < j then add_view name (ns, k) else (ns, k)"
  have jn: "j < w_num_runlists x" using j m P by (simp add: rl_frame_def)
  have "\<forall>l<7. \<not> oom j l" using no j by simp
  then obtain x' where x': "alloc_body oom name j x = Some (None, x')" "dom_view x' (?V(j := add_view name (?V j)))" "rl_frame x x'"
    "w_live x' = w_live x + 7" using alloc_body_view(2)[OF conjunct1[OF P] jn, of name oom] nm by auto
  have "?V(j := add_view name (?V j)) = (\<lambda>i. if i < Suc j then add_view name (ns, k) else (ns, k))" by (auto simp: fun_eq_iff less_Suc_eq)
  then show "\<exists>s'. alloc_body oom name j x = Some (None, s') \<and> dom_view s' (\<lambda>i. if i < Suc j then add_view name (ns, k) else (ns, k)) \<and>
      rl_frame w s' \<and> w_live s' = w_live w + 7 * Suc j" using x' P rl_frame_trans[OF _ x'(3), of w] by auto
qed simp

lemma for_runlists_prefix:
  assumes "for_runlists body i m s = Some (None, s')" "i \<le> m" "m < n" "body m s' = Some (Some x, s'')"
  shows "for_runlists body i n s = Some (Some x, s'')"
  using assms
proof (induction "m - i" arbitrary: i s)
  case 0
  then have "i = m" "s' = s" by (auto simp: for_runlists_end)
  then show ?case using 0 by (simp add: for_runlists_stop)
next
  case (Suc k)
  then have im: "i < m" by simp
  obtain s1 where s1: "body i s = Some (None, s1)" "for_runlists body (i + 1) m s1 = Some (None, s')"
    using Suc.prems(1) im by (subst (asm) for_runlists.simps) (auto split: bind_splits option.splits)
  then have "for_runlists body (i + 1) n s1 = Some (Some x, s'')"
    using Suc.hyps(2) Suc.prems im by (intro Suc.hyps(1)) auto
  then show ?case using for_runlists_step[of i n body s s1] s1(1) im Suc.prems by simp
qed

lemma del_add_view: "name \<notin> set ns \<Longrightarrow> k < length ns \<Longrightarrow> del_view (length ns) (add_view name (ns, k)) = (ns, k)"
proof -
  assume "name \<notin> set ns" "k < length ns"
  moreover have "remove_at (length ns) (ns @ [name]) = ns" by (simp add: remove_at_def)
  moreover have "ns \<noteq> []" using \<open>k < length ns\<close> by auto
  ultimately show ?thesis by simp
qed

lemma dom_view_pos:
  assumes "dom_view w (\<lambda>_. (ns, k))" "0 < w_num_runlists w"
  shows "distinct ns" "ns \<noteq> [] \<Longrightarrow> k < length ns"
proof -
  obtain rls where "dview w ns k (rls ! 0)" using dom_view_num[OF assms(1)] assms(2) by (metis fst_conv snd_conv)
  then show "distinct ns" "ns \<noteq> [] \<Longrightarrow> k < length ns" by (auto simp: dview_def)
qed

lemma rl_domain_alloc_exists:
  assumes v: "dom_view w (\<lambda>_. (ns, k))" and n: "0 < w_num_runlists w" and nm: "name \<in> set ns"
  shows "nvgpu_rl_domain_alloc pw oom w name = Some (Inl EEXIST, w)"
proof -
  obtain rls where r: "w_active w = Some rls" "wok w rls" "0 < length rls" "dview w ns k (rls ! 0)"
    using dom_view_num[OF v] n by (metis fst_conv snd_conv)
  obtain j where j: "j < length ns" "ns ! j = name" using nm by (auto simp: in_set_conv_nth)
  have "alloc_body oom name 0 w = Some (Some EEXIST, w)"
    using rl_domain_get_view(2)[OF r(2,3,4) j(1)] j(2) get_rl_ok[OF r(1,3)] by (simp add: alloc_body_def)
  then show ?thesis using for_runlists_stop[OF n, of "alloc_body oom name" w] by (simp add: rl_domain_alloc_body)
qed

lemma rl_domain_alloc_succeeds:
  assumes v: "dom_view w (\<lambda>_. (ns, k))" and nm: "name \<notin> set ns" "length name \<le> 31"
    and no: "\<forall>i<w_num_runlists w. \<forall>l<7. \<not> oom i l"
  shows "\<exists>w'. nvgpu_rl_domain_alloc pw oom w name = Some (Inr (), w') \<and> dom_view w' (\<lambda>_. add_view name (ns, k)) \<and>
    rl_frame w w' \<and> w_live w' = w_live w + 7 * w_num_runlists w"
proof -
  obtain w' where w': "for_runlists (alloc_body oom name) 0 (w_num_runlists w) w = Some (None, w')"
    "dom_view w' (\<lambda>i. if i < w_num_runlists w then add_view name (ns, k) else (ns, k))" "rl_frame w w'"
    "w_live w' = w_live w + 7 * w_num_runlists w"
    using alloc_loop_view[OF v order_refl nm no] by blast
  have "dom_view w' (\<lambda>_. add_view name (ns, k))" using dom_view_cong[OF w'(2), of "\<lambda>_. add_view name (ns, k)"] w'(3)
    by (simp add: rl_frame_def)
  then show ?thesis using w' by (simp add: rl_domain_alloc_body)
qed

text \<open>A failure on runlist \<open>m\<close> after the earlier ones succeeded is undone as long as another domain exists.\<close>

lemma rl_domain_alloc_fails:
  assumes v: "dom_view w (\<lambda>_. (ns, k))" and nm: "name \<notin> set ns" "length name \<le> 31"
    and m: "m < w_num_runlists w" "\<forall>i<m. \<forall>l<7. \<not> oom i l" "\<exists>l<7. oom m l" and ne: "ns \<noteq> [] \<or> m = 0"
  shows "\<exists>w'. nvgpu_rl_domain_alloc pw oom w name = Some (Inl ENOMEM, w') \<and> dom_view w' (\<lambda>_. (ns, k)) \<and>
    rl_frame w w' \<and> w_live w' = w_live w"
proof -
  let ?V = "\<lambda>i. if i < m then add_view name (ns, k) else (ns, k)"
  obtain w1 where w1: "for_runlists (alloc_body oom name) 0 m w = Some (None, w1)" "dom_view w1 ?V" "rl_frame w w1" "w_live w1 = w_live w + 7 * m"
    using alloc_loop_view[OF v _ nm m(2)] m(1) by auto
  have n1: "w_num_runlists w1 = w_num_runlists w" using w1(3) by (simp add: rl_frame_def)
  have "alloc_body oom name m w1 = Some (Some ENOMEM, w1)"
    using alloc_body_view(1)[OF w1(2), of m name oom] m n1 nm by simp
  then have loop: "for_runlists (alloc_body oom name) 0 (w_num_runlists w) w = Some (Some ENOMEM, w1)"
    using for_runlists_prefix[OF w1(1)] m(1) by simp
  have "\<exists>w'. nvgpu_rl_domain_delete pw w1 name = Some (Inr (), w') \<and> dom_view w' (\<lambda>_. (ns, k)) \<and> rl_frame w1 w' \<and>
      w_live w' + 7 * card {i. i < w_num_runlists w1 \<and> name \<in> set (fst (?V i))} = w_live w1"
  proof (rule delete_loop_view[OF w1(2) refl])
    fix i assume "i < w_num_runlists w1"
    show "name \<notin> set (fst (?V i)) \<and> (ns, k) = ?V i \<or>
      (\<exists>ns' k' j. ?V i = (ns', k') \<and> j < length ns' \<and> ns' ! j = name \<and> 1 < length ns' \<and> (ns, k) = del_view j (ns', k'))"
    proof (cases "i < m")
      case True
      then have ne': "ns \<noteq> []" using ne by auto
      have "k < length ns" using dom_view_pos(2)[OF v] m(1) ne' by simp
      then have "(ns, k) = del_view (length ns) (ns @ [name], k)" using del_add_view[OF nm(1)] ne' by simp
      then show ?thesis using True ne' by (intro disjI2 exI[of _ "ns @ [name]"] exI[of _ k] exI[of _ "length ns"])
          (simp add: Suc_lessI)
    next
      case False
      then show ?thesis using nm by simp
    qed
  qed
  moreover have "{i. i < w_num_runlists w1 \<and> name \<in> set (fst (?V i))} = {..<m}" using m(1) n1 nm by auto
  ultimately obtain w' where w': "nvgpu_rl_domain_delete pw w1 name = Some (Inr (), w')" "dom_view w' (\<lambda>_. (ns, k))" "rl_frame w1 w'"
      "w_live w' + 7 * m = w_live w1" by auto
  then show ?thesis using loop w1 rl_frame_trans[OF w1(3) w'(3)] by (auto simp: rl_domain_alloc_body)
qed

text \<open>A failure on a later runlist when there was no domain yet leaves the domain on the earlier runlists.\<close>

lemma rl_domain_alloc_stuck:
  assumes v: "dom_view w (\<lambda>_. ([], k))" and nm: "length name \<le> 31"
    and m: "0 < m" "m < w_num_runlists w" "\<forall>i<m. \<forall>l<7. \<not> oom i l" "\<exists>l<7. oom m l"
  shows "\<exists>w'. nvgpu_rl_domain_alloc pw oom w name = Some (Inl ENOMEM, w') \<and>
    dom_view w' (\<lambda>i. if i < m then ([name], 0) else ([], k)) \<and> rl_frame w w' \<and> w_live w' = w_live w + 7 * m"
proof -
  let ?V = "\<lambda>i. if i < m then add_view name ([], k) else ([], k)"
  obtain w1 where w1: "for_runlists (alloc_body oom name) 0 m w = Some (None, w1)" "dom_view w1 ?V" "rl_frame w w1" "w_live w1 = w_live w + 7 * m"
    using alloc_loop_view[OF v _ _ nm m(3)] m(2) by auto
  have n1: "w_num_runlists w1 = w_num_runlists w" using w1(3) by (simp add: rl_frame_def)
  have "alloc_body oom name m w1 = Some (Some ENOMEM, w1)"
    using alloc_body_view(1)[OF w1(2), of m name oom] m n1 nm by simp
  then have loop: "for_runlists (alloc_body oom name) 0 (w_num_runlists w) w = Some (Some ENOMEM, w1)"
    using for_runlists_prefix[OF w1(1)] m(2) by simp
  have "nvgpu_rl_domain_delete pw w1 name = Some (Inl EINVAL, w1)"
    using delete_loop_refused[OF w1(2), of name pw] m n1 by simp
  moreover have "?V = (\<lambda>i. if i < m then ([name], 0) else ([], k))" by (auto simp: fun_eq_iff)
  ultimately show ?thesis using loop w1 by (simp add: rl_domain_alloc_body)
qed

lemma rl_domain_delete_all:
  assumes v: "dom_view w (\<lambda>_. (ns, k))" and j: "j < length ns" "1 < length ns" "distinct ns"
  shows "\<exists>w'. nvgpu_rl_domain_delete pw w (ns ! j) = Some (Inr (), w') \<and> dom_view w' (\<lambda>_. del_view j (ns, k)) \<and>
    rl_frame w w' \<and> w_live w' + 7 * w_num_runlists w = w_live w"
proof -
  have "{i. i < w_num_runlists w \<and> ns ! j \<in> set (fst (ns, k))} = {..<w_num_runlists w}" using j by auto
  then show ?thesis using delete_loop_view[OF v refl, of "ns ! j" "\<lambda>_. del_view j (ns, k)" pw] j by fastforce
qed

end
