(* ===== verification/Runlist_Setup_Proofs.thy ===== *)
theory Runlist_Setup_Proofs
  imports Runlist_Domains_Proofs
begin

text \<open>
  Setup of the runlists, their locks during recovery, and the properties of \<open>Runlist_Domains\<close>.
\<close>

section \<open>Setup\<close>

definition valid_ids :: "nvgpu_device list \<Rightarrow> nat \<Rightarrow> nat \<Rightarrow> nat list" where
  "valid_ids devs r mx = filter (nvgpu_engine_is_valid_runlist_id devs) [r..<mx]"

lemma valid_ids_step: "r < mx \<Longrightarrow> valid_ids devs r mx =
    (if nvgpu_engine_is_valid_runlist_id devs r then r # valid_ids devs (Suc r) mx else valid_ids devs (Suc r) mx)"
  by (simp add: valid_ids_def upt_conv_Cons)

lemma count_runlists_eq:
  "n + length (filter (nvgpu_engine_is_valid_runlist_id devs) rs) \<le> U32_MAX \<Longrightarrow>
   count_runlists devs rs n = Some (n + length (filter (nvgpu_engine_is_valid_runlist_id devs) rs))"
  by (induction rs arbitrary: n) (auto simp: safe_add_u32_eq split: if_splits)

text \<open>The loop numbers the valid runlists from \<open>i\<close> on.\<close>

lemma active_mapping_loop_eq:
  assumes "w_active w = Some rls" "w_runlists w = Some rs" "length rls = i + length (valid_ids devs r mx)" "mx \<le> length rs"
    "i + length (valid_ids devs r mx) \<le> U32_MAX"
  shows "\<exists>rls' rs'. active_mapping_loop devs r mx i w = Some (w\<lparr>w_active := Some rls', w_runlists := Some rs'\<rparr>) \<and>
    length rls' = length rls \<and> length rs' = length rs \<and>
    (\<forall>t<i. rls' ! t = rls ! t) \<and> (\<forall>x<r. rs' ! x = rs ! x) \<and>
    (\<forall>t<length (valid_ids devs r mx).
       rls' ! (i + t) = (rls ! (i + t))\<lparr>rl_id := valid_ids devs r mx ! t, rl_domains := [], rl_locked := False\<rparr> \<and>
       rs' ! (valid_ids devs r mx ! t) = Some (i + t))"
  using assms
proof (induction "mx - r" arbitrary: r i w rls rs)
  case 0
  then have e: "valid_ids devs r mx = []" by (simp add: valid_ids_def)
  have "active_mapping_loop devs r mx i w = Some w" using 0 by (subst active_mapping_loop.simps) simp
  moreover have "w = w\<lparr>w_active := Some rls, w_runlists := Some rs\<rparr>" using 0 by simp
  ultimately show ?case unfolding e by (intro exI[of _ rls] exI[of _ rs]) simp
next
  case (Suc n)
  then have r: "r < mx" "n = mx - Suc r" by auto
  show ?case
  proof (cases "nvgpu_engine_is_valid_runlist_id devs r")
    case False
    then have v: "valid_ids devs r mx = valid_ids devs (Suc r) mx" using valid_ids_step[OF r(1)] by simp
    have "active_mapping_loop devs r mx i w = active_mapping_loop devs (Suc r) mx i w"
      using r False by (subst active_mapping_loop.simps) simp
    moreover obtain rls' rs' where IH: "active_mapping_loop devs (Suc r) mx i w = Some (w\<lparr>w_active := Some rls', w_runlists := Some rs'\<rparr>)"
      "length rls' = length rls" "length rs' = length rs" "\<forall>t<i. rls' ! t = rls ! t" "\<forall>x<Suc r. rs' ! x = rs ! x"
      "\<forall>t<length (valid_ids devs (Suc r) mx).
         rls' ! (i + t) = (rls ! (i + t))\<lparr>rl_id := valid_ids devs (Suc r) mx ! t, rl_domains := [], rl_locked := False\<rparr> \<and>
         rs' ! (valid_ids devs (Suc r) mx ! t) = Some (i + t)"
      using Suc.hyps(1)[OF r(2), of w rls rs i] Suc.prems unfolding v by blast
    ultimately show ?thesis unfolding v by (intro exI[of _ rls'] exI[of _ rs']) simp
  next
    case True
    let ?ids = "valid_ids devs (Suc r) mx"
    have v: "valid_ids devs r mx = r # ?ids" using valid_ids_step[OF r(1)] True by simp
    let ?rl = "(rls ! i)\<lparr>rl_id := r, rl_domains := [], rl_locked := False\<rparr>"
    let ?w = "w\<lparr>w_active := Some (rls[i := ?rl]), w_runlists := Some (rs[r := Some i])\<rparr>"
    have "active_mapping_loop devs r mx i w = active_mapping_loop devs (Suc r) mx (Suc i) ?w"
      using r True Suc.prems v by (subst active_mapping_loop.simps)
        (simp add: get_rl_def set_rl_def load_def store_def safe_add_u32_eq)
    moreover obtain rls' rs' where IH: "active_mapping_loop devs (Suc r) mx (Suc i) ?w =
        Some (?w\<lparr>w_active := Some rls', w_runlists := Some rs'\<rparr>)" "length rls' = length rls" "length rs' = length rs"
      "\<forall>t<Suc i. rls' ! t = rls[i := ?rl] ! t" "\<forall>x<Suc r. rs' ! x = rs[r := Some i] ! x"
      "\<forall>t<length ?ids. rls' ! (Suc i + t) = (rls[i := ?rl] ! (Suc i + t))\<lparr>rl_id := ?ids ! t, rl_domains := [], rl_locked := False\<rparr> \<and>
         rs' ! (?ids ! t) = Some (Suc i + t)"
      using Suc.hyps(1)[OF r(2), of ?w "rls[i := ?rl]" "rs[r := Some i]" "Suc i"] Suc.prems unfolding v by auto
    moreover have "rls' ! (i + t) = (rls ! (i + t))\<lparr>rl_id := (r # ?ids) ! t, rl_domains := [], rl_locked := False\<rparr> \<and>
        rs' ! ((r # ?ids) ! t) = Some (i + t)" if "t < length (r # ?ids)" for t
      using IH(4-6) that Suc.prems r by (cases t) (auto simp: v)
    ultimately show ?thesis unfolding v by (intro exI[of _ rls'] exI[of _ rs']) auto
  qed
qed

lemma valid_ids_props: "distinct (valid_ids devs 0 mx)" "t < length (valid_ids devs 0 mx) \<Longrightarrow> valid_ids devs 0 mx ! t < mx"
proof -
  show "distinct (valid_ids devs 0 mx)" by (simp add: valid_ids_def)
  show "valid_ids devs 0 mx ! t < mx" if "t < length (valid_ids devs 0 mx)" using nth_mem[OF that] by (auto simp: valid_ids_def)
qed

text \<open>The engine information leaves the domains alone.\<close>

definition same_domains :: "nvgpu_runlist \<Rightarrow> nvgpu_runlist \<Rightarrow> bool" where
  "same_domains a b \<longleftrightarrow> rl_id a = rl_id b \<and> rl_domain a = rl_domain b \<and> rl_domains a = rl_domains b \<and> length (rl_dev_list a) = length (rl_dev_list b)"

definition devs_ok :: "(u32 \<Rightarrow> u32) option \<Rightarrow> nvgpu_device list \<Rightarrow> bool" where
  "devs_ok chram devs \<longleftrightarrow> (\<forall>dev\<in>set devs. dev_engine_id dev < 32 \<and> (chram = None \<or> dev_rleng_id dev < RLENG_PER_RUNLIST_SIZE))"

definition engine_mask :: "nvgpu_device list \<Rightarrow> u32 \<Rightarrow> u32" where
  "engine_mask devs r = fold (\<lambda>dev m. if dev_runlist_id dev = r then m OR 2 ^ dev_engine_id dev else m) devs 0"

lemma enginfo_devs_eq:
  assumes "devs_ok chram devs" "length (rl_dev_list rl) = RLENG_PER_RUNLIST_SIZE"
  shows "\<exists>rl'. enginfo_devs chram devs rl = Some rl' \<and> same_domains rl' rl \<and> rl_locked rl' = rl_locked rl \<and>
    rl_eng_bitmask rl' = fold (\<lambda>dev m. if dev_runlist_id dev = rl_id rl then m OR 2 ^ dev_engine_id dev else m) devs (rl_eng_bitmask rl)"
  using assms
proof (induction devs arbitrary: rl)
  case Nil
  then show ?case by (simp add: same_domains_def)
next
  case (Cons dev devs)
  have ok: "devs_ok chram devs" "dev_engine_id dev < 32" "chram = None \<or> dev_rleng_id dev < 3" using Cons.prems by (auto simp: devs_ok_def)
  show ?case
  proof (cases "dev_runlist_id dev = rl_id rl")
    case False
    then show ?thesis using Cons.IH[OF ok(1) Cons.prems(2)] by simp
  next
    case True
    obtain rl1 where rl1: "nvgpu_runlist_init_engine_info chram (rl\<lparr>rl_eng_bitmask := rl_eng_bitmask rl OR 2 ^ dev_engine_id dev\<rparr>) dev = Some rl1"
      "same_domains rl1 rl" "rl_locked rl1 = rl_locked rl" "rl_eng_bitmask rl1 = rl_eng_bitmask rl OR 2 ^ dev_engine_id dev"
      using ok Cons.prems(2) by (cases chram) (auto simp: nvgpu_runlist_init_engine_info_def store_def same_domains_def)
    then have l: "length (rl_dev_list rl1) = 3" "rl_id rl1 = rl_id rl" using Cons.prems(2) by (auto simp: same_domains_def)
    then show ?thesis using Cons.IH[OF ok(1) l(1)] True rl1 ok(2) by (auto simp: BIT32_def same_domains_def)
  qed
qed

lemma init_enginfo_ok:
  assumes act: "w_active w = Some rls" "w_num_runlists w = length rls" and d: "devs_ok chram devs"
    and rl: "\<forall>rl\<in>set rls. length (rl_dev_list rl) = RLENG_PER_RUNLIST_SIZE"
  shows "\<exists>rls'. nvgpu_runlist_init_enginfo False chram (Some pb) devs w = Some (w\<lparr>w_active := Some rls'\<rparr>) \<and> length rls' = length rls \<and>
    (\<forall>i<length rls. same_domains (rls' ! i) (rls ! i) \<and> rl_locked (rls' ! i) = rl_locked (rls ! i) \<and>
       rl_pbdma_bitmask (rls' ! i) = pb (rl_id (rls ! i)) \<and> rl_eng_bitmask (rls' ! i) =
       fold (\<lambda>dev m. if dev_runlist_id dev = rl_id (rls ! i) then m OR 2 ^ dev_engine_id dev else m) devs (rl_eng_bitmask (rls ! i)))"
proof -
  let ?g = "\<lambda>i. fold (\<lambda>dev m. if dev_runlist_id dev = rl_id (rls ! i) then m OR 2 ^ dev_engine_id dev else m) devs (rl_eng_bitmask (rls ! i))"
  let ?Q = "\<lambda>i rl. same_domains rl (rls ! i) \<and> rl_locked rl = rl_locked (rls ! i) \<and> rl_pbdma_bitmask rl = pb (rl_id (rls ! i)) \<and> rl_eng_bitmask rl = ?g i"
  let ?P = "\<lambda>j x. \<exists>rls'. x = w\<lparr>w_active := Some rls'\<rparr> \<and> length rls' = length rls \<and> (\<forall>i<j. ?Q i (rls' ! i)) \<and>
    (\<forall>i. j \<le> i \<longrightarrow> i < length rls \<longrightarrow> rls' ! i = rls ! i)"
  let ?body = "\<lambda>i w. do { rl \<leftarrow> get_rl w i; rl \<leftarrow> enginfo_devs chram devs rl;
          msk \<leftarrow> (case Some pb of Some p \<Rightarrow> Some (p (rl_id rl)) | None \<Rightarrow> nvgpu_runlist_get_pbdma_mask rl);
          w \<leftarrow> set_rl i (rl\<lparr>rl_pbdma_bitmask := msk\<rparr>) w; Some (None :: unit option, w) }"
  have "\<exists>w'. for_runlists ?body 0 (length rls) w = Some (None, w') \<and> ?P (length rls) w'"
  proof (rule for_runlists_inv[where P = ?P])
    show "?P 0 w" using act by (intro exI[of _ rls]) simp
    fix j x assume j: "j < length rls" and "?P j x"
    then obtain rls' where x: "x = w\<lparr>w_active := Some rls'\<rparr>" "length rls' = length rls" "\<forall>i<j. ?Q i (rls' ! i)"
      "\<forall>i. j \<le> i \<longrightarrow> i < length rls \<longrightarrow> rls' ! i = rls ! i" by blast
    have "length (rl_dev_list (rls ! j)) = 3" using rl j by simp
    then obtain rl' where rl': "enginfo_devs chram devs (rls ! j) = Some rl'" "same_domains rl' (rls ! j)" "rl_locked rl' = rl_locked (rls ! j)"
      "rl_eng_bitmask rl' = ?g j" using enginfo_devs_eq[OF d] by blast
    let ?rl = "rl'\<lparr>rl_pbdma_bitmask := pb (rl_id rl')\<rparr>"
    have "?body j x = Some (None, w\<lparr>w_active := Some (rls'[j := ?rl])\<rparr>)"
      using x j rl'(1) by (simp add: get_rl_def set_rl_def load_def store_def)
    moreover have "?Q j ?rl" using rl' by (auto simp: same_domains_def)
    then have "\<forall>i<Suc j. ?Q i (rls'[j := ?rl] ! i)" using x j by (auto simp: nth_list_update less_Suc_eq)
    ultimately show "\<exists>s'. ?body j x = Some (None, s') \<and> ?P (Suc j) s'" using x by auto
  qed simp
  then show ?thesis using act(2) by (auto simp: nvgpu_runlist_init_enginfo_def)
qed

lemma all_domains_empty: "\<forall>rl\<in>set rls. rl_domains rl = [] \<Longrightarrow> all_domains rls = []"
  by (simp add: all_domains_def)

lemma setup_ok:
  assumes su: "su_nvs_present su" "\<not> su_virtual su" "su_find_pbdma su = Some pb" "\<not> su_oom_runlists su" "\<not> su_oom_active su"
    and d: "devs_ok (su_chram su) (su_devs su)" and n: "su_count_max su \<le> U32_MAX" and e: "w_dom w = Map.empty"
  shows "\<exists>w' rls. nvgpu_runlist_setup_sw su w = Some (Inr (), w') \<and> w_active w' = Some rls \<and> dom_view w' (\<lambda>_. ([], 0)) \<and>
    w_live w' = w_live w + 2 \<and> map rl_id rls = valid_ids (su_devs su) 0 (su_count_max su) \<and>
    (\<forall>rl\<in>set rls. rl_eng_bitmask rl = engine_mask (su_devs su) (rl_id rl) \<and> rl_pbdma_bitmask rl = pb (rl_id rl) \<and> \<not> rl_locked rl)"
proof -
  let ?mx = "su_count_max su" and ?devs = "su_devs su"
  let ?ids = "valid_ids ?devs 0 ?mx"
  have ll: "length ?ids \<le> ?mx" unfolding valid_ids_def using length_filter_le[of _ "[0..<?mx]"] by (simp add: le_trans)
  have cnt: "count_runlists ?devs [0..<?mx] 0 = Some (length ?ids)"
    using count_runlists_eq[of 0 ?devs "[0..<?mx]"] ll n by (simp add: valid_ids_def)
  let ?f = "(w_fifo w)\<lparr>f_runlist_entry_size := su_entry_size su, f_num_runlist_entries := su_length_max su\<rparr>"
  let ?w1 = "w\<lparr>w_fifo := ?f, w_max_runlists := ?mx, w_runlists := Some (replicate ?mx None),
      w_num_runlists := length ?ids, w_active := Some (replicate (length ?ids) zero_runlist), w_live := w_live w + 2\<rparr>"
  obtain rls rs where m: "nvgpu_init_active_runlist_mapping ?devs ?w1 = Some (?w1\<lparr>w_active := Some rls, w_runlists := Some rs\<rparr>)"
    "length rls = length ?ids" "length rs = ?mx"
    "\<forall>t<length ?ids. rls ! t = zero_runlist\<lparr>rl_id := ?ids ! t, rl_domains := [], rl_locked := False\<rparr> \<and> rs ! (?ids ! t) = Some t"
    using active_mapping_loop_eq[of ?w1 "replicate (length ?ids) zero_runlist" "replicate ?mx None" 0 ?devs 0 ?mx] ll n
    by (auto simp: nvgpu_init_active_runlist_mapping_def)
  let ?w2 = "?w1\<lparr>w_active := Some rls, w_runlists := Some rs\<rparr>"
  have "\<forall>rl\<in>set rls. length (rl_dev_list rl) = 3" using m(2,4) by (auto simp: in_set_conv_nth zero_runlist_def)
  then obtain rls' where i: "nvgpu_runlist_init_enginfo False (su_chram su) (Some pb) ?devs ?w2 = Some (?w2\<lparr>w_active := Some rls'\<rparr>)"
    "length rls' = length rls" "\<forall>i<length rls. same_domains (rls' ! i) (rls ! i) \<and> rl_locked (rls' ! i) = rl_locked (rls ! i) \<and>
       rl_pbdma_bitmask (rls' ! i) = pb (rl_id (rls ! i)) \<and> rl_eng_bitmask (rls' ! i) =
       fold (\<lambda>dev m. if dev_runlist_id dev = rl_id (rls ! i) then m OR 2 ^ dev_engine_id dev else m) ?devs (rl_eng_bitmask (rls ! i))"
    using init_enginfo_ok[of ?w2 rls "su_chram su" ?devs pb] d m(2) by auto
  let ?w3 = "?w2\<lparr>w_active := Some rls'\<rparr>"
  have "nvgpu_runlist_setup_sw su w = Some (Inr (), ?w3)"
    using su cnt m(1) i(1) by (simp add: nvgpu_runlist_setup_sw_def nvgpu_runlist_alloc_default_domain_def)
  moreover have nth: "rl_id (rls' ! t) = ?ids ! t \<and> rl_domains (rls' ! t) = [] \<and> rl_domain (rls' ! t) = None \<and>
      rl_eng_bitmask (rls' ! t) = engine_mask ?devs (?ids ! t) \<and> rl_pbdma_bitmask (rls' ! t) = pb (?ids ! t) \<and> \<not> rl_locked (rls' ! t)"
    if "t < length ?ids" for t
    using i(3) m(2,4) that by (auto simp: same_domains_def zero_runlist_def engine_mask_def)
  moreover have "dom_view ?w3 (\<lambda>_. ([], 0))"
    unfolding dom_view_def
  proof (intro exI[of _ rls'] conjI allI impI)
    have "all_domains rls' = []" using nth i(2) m(2) by (intro all_domains_empty) (auto simp: in_set_conv_nth)
    then show "wok ?w3 rls'" using e i(2) m nth valid_ids_props(2)[of _ ?devs ?mx] by (auto simp: wok_def)
    show "dview ?w3 (fst ([], 0)) (snd ([], 0)) (rls' ! t)" if "t < length rls'" for t
      using nth that i(2) m(2) by (auto simp: dview_def)
  qed
  moreover have "map rl_id rls' = ?ids" using nth i(2) m(2) by (intro nth_equalityI) auto
  moreover have "\<forall>rl\<in>set rls'. rl_eng_bitmask rl = engine_mask ?devs (rl_id rl) \<and> rl_pbdma_bitmask rl = pb (rl_id rl) \<and> \<not> rl_locked rl"
    using nth i(2) m(2) by (auto simp: in_set_conv_nth)
  ultimately show ?thesis by (intro exI[of _ ?w3] exI[of _ rls']) simp
qed

section \<open>Locks held during recovery\<close>

lemma and_pow2: "(2 ^ i AND m \<noteq> (0::nat)) \<longleftrightarrow> bit m i"
  using and_exp_eq_0_iff_not_bit[of m i] by (simp add: and.commute)

definition lock_state :: "rl_world \<Rightarrow> nvgpu_runlist list \<Rightarrow> (nat \<Rightarrow> bool) \<Rightarrow> rl_world" where
  "lock_state w rls L = w\<lparr>w_active := Some (map (\<lambda>i. (rls ! i)\<lparr>rl_locked := L i\<rparr>) [0..<length rls])\<rparr>"

lemma lock_state_id: "w_active w = Some rls \<Longrightarrow> lock_state w rls (\<lambda>i. rl_locked (rls ! i)) = w"
  by (simp add: lock_state_def map_nth)

lemma lock_state_get: "i < length rls \<Longrightarrow> get_rl (lock_state w rls L) i = Some ((rls ! i)\<lparr>rl_locked := L i\<rparr>)"
  by (simp add: lock_state_def get_rl_def load_def)

lemma lock_state_set: "i < length rls \<Longrightarrow> set_rl i ((rls ! i)\<lparr>rl_locked := b\<rparr>) (lock_state w rls L) = Some (lock_state w rls (L(i := b)))"
proof -
  assume i: "i < length rls"
  have "(map (\<lambda>j. (rls ! j)\<lparr>rl_locked := L j\<rparr>) [0..<length rls])[i := (rls ! i)\<lparr>rl_locked := b\<rparr>] =
      map (\<lambda>j. (rls ! j)\<lparr>rl_locked := (L(i := b)) j\<rparr>) [0..<length rls]"
    using i by (intro nth_equalityI) (auto simp: nth_list_update)
  then show ?thesis using i by (simp add: lock_state_def set_rl_def store_def)
qed

lemma lock_state_num [simp]: "w_num_runlists (lock_state w rls L) = w_num_runlists w"
  by (simp add: lock_state_def)

lemma lock_active_eq:
  assumes "\<And>i. i < length rls \<Longrightarrow> \<not> L i" "w_num_runlists w = length rls"
  shows "\<exists>L'. nvgpu_runlist_lock_active_runlists (lock_state w rls L) = Some (lock_state w rls L') \<and> (\<forall>i<length rls. L' i)"
proof -
  let ?P = "\<lambda>j x. \<exists>L'. x = lock_state w rls L' \<and> (\<forall>i<length rls. L' i \<longleftrightarrow> i < j)"
  let ?body = "\<lambda>i w. do { rl \<leftarrow> get_rl w i; nvgpu_assert (\<not> rl_locked rl);
            w \<leftarrow> set_rl i (rl\<lparr>rl_locked := True\<rparr>) w; Some (None :: unit option, w) }"
  have "\<exists>x. for_runlists ?body 0 (length rls) (lock_state w rls L) = Some (None, x) \<and> ?P (length rls) x"
  proof (rule for_runlists_inv[where P = ?P])
    show "?P 0 (lock_state w rls L)" using assms(1) by auto
    fix j x assume j: "j < length rls" and "?P j x"
    then obtain L' where x: "x = lock_state w rls L'" "\<forall>i<length rls. L' i \<longleftrightarrow> i < j" by blast
    then have "?body j x = Some (None, lock_state w rls (L'(j := True)))"
      using j lock_state_set[OF j, of True w L'] by (simp add: lock_state_get)
    moreover have "?P (Suc j) (lock_state w rls (L'(j := True)))" using x j by (intro exI[of _ "L'(j := True)"]) (auto simp: less_Suc_eq)
    ultimately show "\<exists>s'. ?body j x = Some (None, s') \<and> ?P (Suc j) s'" by blast
  qed simp
  then show ?thesis using assms(2) by (auto simp: nvgpu_runlist_lock_active_runlists_def)
qed

lemma unlock_runlists_eq:
  assumes "\<And>i. i < length rls \<Longrightarrow> bit m i \<Longrightarrow> L i" "w_num_runlists w = length rls" "length rls \<le> 32"
  shows "\<exists>L'. nvgpu_runlist_unlock_runlists (lock_state w rls L) m = Some (lock_state w rls L') \<and> (\<forall>i<length rls. L' i \<longleftrightarrow> L i \<and> \<not> bit m i)"
proof -
  let ?P = "\<lambda>j x. \<exists>L'. x = lock_state w rls L' \<and> (\<forall>i<length rls. L' i \<longleftrightarrow> L i \<and> \<not> (i < j \<and> bit m i))"
  let ?body = "\<lambda>i w. do { rl \<leftarrow> get_rl w i; b \<leftarrow> BIT32 i;
            (if b AND m \<noteq> 0
             then do { nvgpu_assert (rl_locked rl); w \<leftarrow> set_rl i (rl\<lparr>rl_locked := False\<rparr>) w; Some (None :: unit option, w) }
             else Some (None, w)) }"
  have "\<exists>x. for_runlists ?body 0 (length rls) (lock_state w rls L) = Some (None, x) \<and> ?P (length rls) x"
  proof (rule for_runlists_inv[where P = ?P])
    show "?P 0 (lock_state w rls L)" by auto
    fix j x assume j: "j < length rls" and "?P j x"
    then obtain L' where x: "x = lock_state w rls L'" "\<forall>i<length rls. L' i \<longleftrightarrow> L i \<and> \<not> (i < j \<and> bit m i)" by blast
    let ?L = "if bit m j then L'(j := False) else L'"
    have "L' j" if "bit m j" using x(2) j assms(1)[OF j that] by simp
    then have "?body j x = Some (None, lock_state w rls ?L)"
      using x(1) j assms(3) lock_state_set[OF j, of False w L'] and_pow2[of j m] by (auto simp: lock_state_get BIT32_def)
    moreover have "?P (Suc j) (lock_state w rls ?L)" using x(2) j by (intro exI[of _ ?L]) (auto simp: less_Suc_eq)
    ultimately show "\<exists>s'. ?body j x = Some (None, s') \<and> ?P (Suc j) s'" by blast
  qed simp
  then show ?thesis using assms(2) by (auto simp: nvgpu_runlist_unlock_runlists_def)
qed

section \<open>Properties\<close>

definition demo_rl :: "u32 \<Rightarrow> nvgpu_runlist" where
  "demo_rl i = zero_runlist\<lparr>rl_id := i, rl_eng_bitmask := 2 ^ i\<rparr>"

definition demo_rl_fifo :: nvgpu_fifo where
  "demo_rl_fifo = \<lparr>f_num_channels = 64, f_runlist_entry_size = 16, f_num_runlist_entries = 8, f_tsg = [],
     f_ch_tsg = Map.empty, f_runlist_interleave = False, f_ptimer_src_freq = 31250000\<rparr>"

text \<open>Two runlists without domains, with the given identifiers.\<close>

definition demo_rls :: "u32 \<Rightarrow> u32 \<Rightarrow> rl_world" where
  "demo_rls a b = \<lparr>w_fifo = demo_rl_fifo, w_active = Some [demo_rl a, demo_rl b], w_num_runlists = 2,
     w_runlists = Some ((replicate 4 None)[a := Some 0, b := Some 1]), w_max_runlists = 4, w_dom = Map.empty, w_next = 0,
     w_live = 2, w_submits = [], w_rc = []\<rparr>"

lemma demo_rls_view: "dom_view (demo_rls 0 1) (\<lambda>_. ([], 0))"
  by (auto simp: dom_view_def wok_def dview_def demo_rls_def demo_rl_def zero_runlist_def all_domains_def less_Suc_eq numeral_2_eq_2)

lemma demo_rls_added:
  assumes "length name \<le> 31"
  obtains w where "nvgpu_rl_domain_alloc pw (\<lambda>_ _. False) (demo_rls 0 1) name = Some (Inr (), w)"
    "dom_view w (\<lambda>_. ([name], 0))" "w_num_runlists w = 2" "w_live w = 16"
  using rl_domain_alloc_succeeds[OF demo_rls_view, of name "\<lambda>_ _. False" pw] assms
  by (auto simp: rl_frame_def demo_rls_def)

text \<open>The first runlist an allocation fails on.\<close>

lemma first_failure:
  assumes "\<not> (\<forall>i<n. \<forall>l<7. \<not> oom i l)"
  obtains m :: nat where "m < n" "\<forall>i<m. \<forall>l<7. \<not> oom i l" "\<exists>l<(7::nat). oom m l"
proof -
  define m where "m = (LEAST i. i < n \<and> (\<exists>l<7. oom i l))"
  have m: "m < n" "\<exists>l<7. oom m l" using LeastI_ex[of "\<lambda>i. i < n \<and> (\<exists>l<7. oom i l)"] assms by (auto simp: m_def)
  moreover have "\<forall>i<m. \<forall>l<7. \<not> oom i l" using not_less_Least m(1) unfolding m_def by (metis (mono_tags, lifting) order_less_trans)
  ultimately show ?thesis using that by blast
qed

text \<open>No domain yet, and the failure comes on a later runlist, when the first has its domain already.\<close>

definition splits_first :: "(nat \<Rightarrow> nat \<Rightarrow> bool) \<Rightarrow> u32 \<Rightarrow> string list \<Rightarrow> bool" where
  "splits_first oom n ns \<longleftrightarrow> ns = [] \<and> (\<forall>l<7. \<not> oom 0 l) \<and> (\<exists>i<n. \<exists>l<7. oom i l)"

lemma rl_domain_alloc_outcomes:
  assumes "dom_view w (\<lambda>_. (ns, k))" "0 < w_num_runlists w" "length name \<le> 31"
  shows "\<exists>ret w'. nvgpu_rl_domain_alloc pw oom w name = Some (ret, w') \<and> rl_frame w w' \<and>
    (if name \<in> set ns then ret = Inl EEXIST \<and> w' = w
     else if \<forall>i<w_num_runlists w. \<forall>l<7. \<not> oom i l
     then ret = Inr () \<and> dom_view w' (\<lambda>_. (ns @ [name], if ns = [] then 0 else k)) \<and> w_live w' = w_live w + 7 * w_num_runlists w
     else ret = Inl ENOMEM \<and> (\<exists>m<w_num_runlists w. (\<forall>i<m. \<forall>l<7. \<not> oom i l) \<and> (\<exists>l<7. oom m l) \<and>
       (if ns = [] \<and> 0 < m then dom_view w' (\<lambda>i. if i < m then ([name], 0) else ([], k)) \<and> w_live w' = w_live w + 7 * m
        else dom_view w' (\<lambda>_. (ns, k)) \<and> w_live w' = w_live w)))"
proof -
  consider (ex) "name \<in> set ns" | (ok) "name \<notin> set ns" "\<forall>i<w_num_runlists w. \<forall>l<7. \<not> oom i l"
    | (oom) "name \<notin> set ns" "\<not> (\<forall>i<w_num_runlists w. \<forall>l<7. \<not> oom i l)" by blast
  then show ?thesis
  proof cases
    case ex
    then show ?thesis using rl_domain_alloc_exists[OF assms(1,2)] by simp
  next
    case ok
    then show ?thesis using rl_domain_alloc_succeeds[OF assms(1) ok(1) assms(3) ok(2), of pw] by auto
  next
    case oom
    obtain m where m: "m < w_num_runlists w" "\<forall>i<m. \<forall>l<7. \<not> oom i l" "\<exists>l<7. oom m l" by (rule first_failure[OF oom(2)])
    show ?thesis
    proof (cases "ns = [] \<and> 0 < m")
      case True
      then obtain w' where "nvgpu_rl_domain_alloc pw oom w name = Some (Inl ENOMEM, w')" "dom_view w' (\<lambda>i. if i < m then ([name], 0) else ([], k))"
        "rl_frame w w'" "w_live w' = w_live w + 7 * m" using rl_domain_alloc_stuck[OF _ assms(3) _ m, of k pw] assms(1) by auto
      then show ?thesis using oom m True by (intro exI[of _ "Inl ENOMEM"] exI[of _ w']) auto
    next
      case False
      then have "ns \<noteq> [] \<or> m = 0" by simp
      from rl_domain_alloc_fails[OF assms(1) oom(1) assms(3) m this, of pw] obtain w' where
        "nvgpu_rl_domain_alloc pw oom w name = Some (Inl ENOMEM, w')" "dom_view w' (\<lambda>_. (ns, k))" "rl_frame w w'" "w_live w' = w_live w" by blast
      then show ?thesis using oom m False by (intro exI[of _ "Inl ENOMEM"] exI[of _ w']) auto
    qed
  qed
qed

lemma rl_domain_alloc_cases:
  assumes "dom_view w (\<lambda>_. (ns, k))" "0 < w_num_runlists w" "length name \<le> 31" "\<not> splits_first oom (w_num_runlists w) ns"
  shows "\<exists>ret w'. nvgpu_rl_domain_alloc pw oom w name = Some (ret, w') \<and> rl_frame w w' \<and>
    (if name \<in> set ns then ret = Inl EEXIST \<and> w' = w
     else if \<forall>i<w_num_runlists w. \<forall>l<7. \<not> oom i l
     then ret = Inr () \<and> dom_view w' (\<lambda>_. (ns @ [name], if ns = [] then 0 else k)) \<and> w_live w' = w_live w + 7 * w_num_runlists w
     else ret = Inl ENOMEM \<and> dom_view w' (\<lambda>_. (ns, k)) \<and> w_live w' = w_live w)"
proof -
  have "\<not> (ns = [] \<and> 0 < m)" if "m < w_num_runlists w" "\<forall>i<m. \<forall>l<7. \<not> oom i l" "\<exists>l<7. oom m l" for m
    using assms(4) that unfolding splits_first_def by blast
  then show ?thesis using rl_domain_alloc_outcomes[OF assms(1-3), of pw oom] by (auto split: if_splits)
qed

text \<open>C36: What \<open>nvgpu_rl_domain_alloc\<close> of a name of at most 31 characters comes to when every runlist holds the same domains, whatever
  allocations fail. It refuses a known name. When every allocation succeeds, it gives every runlist the new domain at the end of its list, keeping
  the active one. When an allocation fails, \<open>m\<close> being the first runlist it fails on, it takes back what it had created on the runlists before,
  leaving every list, every active domain and the number of allocations as they were; except that the clean-up is refused when there was no
  domain before and some runlist has got its first one (\<open>0 < m\<close>): then the runlists before \<open>m\<close> keep the domain and its memory although the call
  reports \<open>ENOMEM\<close>.\<close>

theorem rl_domain_alloc_outcome:
  assumes "dom_view w (\<lambda>_. (ns, k))" "0 < w_num_runlists w" "length name \<le> 31"
  shows "\<exists>ret w'. nvgpu_rl_domain_alloc pw oom w name = Some (ret, w') \<and>
    (if name \<in> set ns then ret = Inl EEXIST \<and> w' = w
     else if \<forall>i<w_num_runlists w. \<forall>l<7. \<not> oom i l
     then ret = Inr () \<and> dom_view w' (\<lambda>_. (ns @ [name], if ns = [] then 0 else k)) \<and> w_live w' = w_live w + 7 * w_num_runlists w
     else ret = Inl ENOMEM \<and> (\<exists>m<w_num_runlists w. (\<forall>i<m. \<forall>l<7. \<not> oom i l) \<and> (\<exists>l<7. oom m l) \<and>
       (if ns = [] \<and> 0 < m then dom_view w' (\<lambda>i. if i < m then ([name], 0) else ([], k)) \<and> w_live w' = w_live w + 7 * m
        else dom_view w' (\<lambda>_. (ns, k)) \<and> w_live w' = w_live w)))"
  using rl_domain_alloc_outcomes[OF assms] by blast

theorem rl_domain_alloc_outcome_witness:
  "\<exists>w w'. nvgpu_rl_domain_alloc \<lparr>pw_off = True, pw_busy = None\<rparr> (\<lambda>_ _. False) (demo_rls 0 1) ''a'' = Some (Inr (), w) \<and>
     nvgpu_rl_domain_alloc \<lparr>pw_off = True, pw_busy = None\<rparr> (\<lambda>i l. i = 1 \<and> l = 3) w ''b'' = Some (Inl ENOMEM, w') \<and> w_live w' = 16"
proof -
  obtain w where w: "nvgpu_rl_domain_alloc \<lparr>pw_off = True, pw_busy = None\<rparr> (\<lambda>_ _. False) (demo_rls 0 1) ''a'' = Some (Inr (), w)"
    "dom_view w (\<lambda>_. ([''a''], 0))" "w_num_runlists w = 2" "w_live w = 16"
    using demo_rls_added[of "''a''" "\<lparr>pw_off = True, pw_busy = None\<rparr>"] by auto
  have "\<not> (\<forall>i<w_num_runlists w. \<forall>l<7. \<not> (i = 1 \<and> l = (3::nat)))" using w(3) by (auto intro!: exI[of _ 1])
  note no = if_not_P[OF this]
  have "\<not> ''b'' \<in> set [''a'']" by simp
  note nb = if_not_P[OF this]
  show ?thesis
    using rl_domain_alloc_outcome[OF w(2), of "''b''" "\<lparr>pw_off = True, pw_busy = None\<rparr>" "\<lambda>i l. i = 1 \<and> l = 3"] w
    unfolding no nb by auto
qed

text \<open>When the runlists have no domain yet and the allocation fails on a later runlist, the clean-up is
  refused because the new domain is the only one: \<open>nvgpu_rl_domain_alloc\<close> reports \<open>ENOMEM\<close> with the
  domain left on the earlier runlists, its memory still allocated, and a second attempt reports
  \<open>EEXIST\<close>.\<close>

theorem rl_domain_alloc_first_stuck:
  assumes "dom_view w (\<lambda>_. ([], k))" "length name \<le> 31"
    and "0 < m" "m < w_num_runlists w" "\<forall>i<m. \<forall>l<7. \<not> oom i l" "\<exists>l<7. oom m l"
  shows "\<exists>w'. nvgpu_rl_domain_alloc pw oom w name = Some (Inl ENOMEM, w') \<and>
    dom_view w' (\<lambda>i. if i < m then ([name], 0) else ([], k)) \<and> w_live w' = w_live w + 7 * m \<and>
    nvgpu_rl_domain_alloc pw oom' w' name = Some (Inl EEXIST, w')"
proof -
  obtain w' where w': "nvgpu_rl_domain_alloc pw oom w name = Some (Inl ENOMEM, w')"
    "dom_view w' (\<lambda>i. if i < m then ([name], 0) else ([], k))" "rl_frame w w'" "w_live w' = w_live w + 7 * m"
    using rl_domain_alloc_stuck[OF assms] by blast
  have n: "0 < w_num_runlists w'" using w'(3) assms(3,4) by (simp add: rl_frame_def)
  obtain rls where r0: "w_active w' = Some rls" "wok w' rls" "length rls = w_num_runlists w'"
    "\<forall>i<length rls. dview w' (fst (if i < m then ([name], 0) else ([], k))) (snd (if i < m then ([name], 0) else ([], k))) (rls ! i)"
    using dom_view_num[OF w'(2)] by blast
  have r: "w_active w' = Some rls" "wok w' rls" "0 < length rls" "dview w' [name] 0 (rls ! 0)"
    using r0 n spec[OF r0(4), of 0] assms(3) by auto
  have "alloc_body oom' name 0 w' = Some (Some EEXIST, w')"
    using rl_domain_get_view(2)[OF r(2,3,4), of 0] get_rl_ok[OF r(1,3)] by (simp add: alloc_body_def)
  then have "nvgpu_rl_domain_alloc pw oom' w' name = Some (Inl EEXIST, w')"
    using for_runlists_stop[OF n, of "alloc_body oom' name" w'] by (simp add: rl_domain_alloc_body)
  then show ?thesis using w' by blast
qed

theorem rl_domain_alloc_first_stuck_witness:
  "\<exists>w'. nvgpu_rl_domain_alloc \<lparr>pw_off = True, pw_busy = None\<rparr> (\<lambda>i l. i = 1 \<and> l = 0) (demo_rls 0 1) ''(default)'' = Some (Inl ENOMEM, w') \<and>
     nvgpu_rl_domain_alloc \<lparr>pw_off = True, pw_busy = None\<rparr> (\<lambda>_ _. False) w' ''(default)'' = Some (Inl EEXIST, w')"
proof -
  have n: "(1::nat) < w_num_runlists (demo_rls 0 1)" by (simp add: demo_rls_def)
  show ?thesis
    using rl_domain_alloc_first_stuck[OF demo_rls_view _ _ n, of "''(default)''" "\<lambda>i l. i = 1 \<and> l = 0"
        "\<lparr>pw_off = True, pw_busy = None\<rparr>" "\<lambda>_ _. False"] by auto
qed

fun ticks :: "rl_power list \<Rightarrow> rl_world \<Rightarrow> rl_world option" where
  "ticks [] w = Some w"
| "ticks (pw # pws) w = do { w \<leftarrow> nvgpu_runlist_tick pw w; ticks pws w }"

text \<open>The name of the domain runlist \<open>i\<close> runs.\<close>

definition active_name :: "rl_world \<Rightarrow> nat \<Rightarrow> string option" where
  "active_name w i = do { rl \<leftarrow> get_rl w i; p \<leftarrow> rl_domain rl; d \<leftarrow> w_dom w p; Some (rd_name d) }"

lemma active_name_view:
  assumes v: "dom_view w (\<lambda>_. (ns, k))" and i: "i < w_num_runlists w" and ne: "ns \<noteq> []"
  shows "active_name w i = Some (ns ! k)"
proof -
  obtain rls where r: "w_active w = Some rls" "i < length rls" "dview w ns k (rls ! i)"
    using dom_view_num[OF v] i by (metis fst_conv snd_conv)
  have k: "k < length ns" "rl_domain (rls ! i) = Some (rl_domains (rls ! i) ! k)" using r(3) ne by (auto simp: dview_def)
  show ?thesis using get_rl_ok[OF r(1,2)] k dview_nth[OF r(3) k(1)] by (auto simp: active_name_def)
qed

lemma ticks_view:
  assumes "dom_view w (\<lambda>_. (ns, k))" "0 < w_num_runlists w" "ns \<noteq> []"
  shows "\<exists>w'. ticks pws w = Some w' \<and> dom_view w' (\<lambda>_. (ns, (k + length pws) mod length ns)) \<and> w_num_runlists w' = w_num_runlists w"
  using assms
proof (induction pws arbitrary: w k)
  case Nil
  then show ?case using dom_view_pos(2)[OF Nil.prems(1,2)] by simp
next
  case (Cons pw pws)
  obtain w1 where w1: "nvgpu_runlist_tick pw w = Some w1" "dom_view w1 (\<lambda>_. (ns, Suc k mod length ns))" "w_num_runlists w1 = w_num_runlists w"
    using tick_views[OF Cons.prems(1), of pw] Cons.prems(3) by (auto simp: rl_frame_def)
  have "(Suc k mod length ns + length pws) mod length ns = (k + length (pw # pws)) mod length ns" by (simp add: mod_add_left_eq)
  then show ?case using Cons.IH[OF w1(2)] w1 Cons.prems by auto
qed

text \<open>C37: The domain tick is a fair round robin. When every runlist holds the same domains and runs the
  same one, then after any number of ticks, whatever the state of the power, all runlists run the same
  domain, the one that many places further in the list, and every domain is reached by every runlist
  within as many ticks as there are domains.\<close>

theorem runlist_tick_round_robin:
  assumes "dom_view w (\<lambda>_. (ns, k))" "0 < w_num_runlists w" "ns \<noteq> []"
  shows "(\<forall>pws. \<exists>w'. ticks pws w = Some w' \<and> (\<forall>i<w_num_runlists w. active_name w' i = Some (ns ! ((k + length pws) mod length ns)))) \<and>
    (\<forall>name\<in>set ns. \<exists>t<length ns. \<forall>pws. length pws = t \<longrightarrow>
      (\<exists>w'. ticks pws w = Some w' \<and> (\<forall>i<w_num_runlists w. active_name w' i = Some name)))"
proof -
  have *: "\<exists>w'. ticks pws w = Some w' \<and> (\<forall>i<w_num_runlists w. active_name w' i = Some (ns ! ((k + length pws) mod length ns)))" for pws
  proof -
    obtain w' where "ticks pws w = Some w'" "dom_view w' (\<lambda>_. (ns, (k + length pws) mod length ns))" "w_num_runlists w' = w_num_runlists w"
      using ticks_view[OF assms] by blast
    then show ?thesis using active_name_view[of w' ns] assms(3) by auto
  qed
  have "\<forall>name\<in>set ns. \<exists>t<length ns. \<forall>pws. length pws = t \<longrightarrow>
      (\<exists>w'. ticks pws w = Some w' \<and> (\<forall>i<w_num_runlists w. active_name w' i = Some name))"
  proof
    fix name assume "name \<in> set ns"
    then obtain j where j: "j < length ns" "ns ! j = name" by (auto simp: in_set_conv_nth)
    have k: "k < length ns" using dom_view_pos(2)[OF assms(1,2,3)] .
    let ?t = "(j + length ns - k) mod length ns"
    have "(k + ?t) mod length ns = (k + (j + length ns - k)) mod length ns" by (simp add: mod_add_right_eq)
    then have "(k + ?t) mod length ns = j" using k j(1) by simp
    then have "\<exists>w'. ticks pws w = Some w' \<and> (\<forall>i<w_num_runlists w. active_name w' i = Some name)" if "length pws = ?t" for pws
      using *[of pws] that j(2) by simp
    moreover have "?t < length ns" using assms(3) by (intro mod_less_divisor) simp
    ultimately show "\<exists>t<length ns. \<forall>pws. length pws = t \<longrightarrow> (\<exists>w'. ticks pws w = Some w' \<and> (\<forall>i<w_num_runlists w. active_name w' i = Some name))"
      by blast
  qed
  then show ?thesis using * by blast
qed

theorem runlist_tick_round_robin_witness:
  "\<exists>w w'. nvgpu_rl_domain_alloc \<lparr>pw_off = False, pw_busy = None\<rparr> (\<lambda>_ _. False) (demo_rls 0 1) ''a'' = Some (Inr (), w) \<and>
     ticks (replicate 5 \<lparr>pw_off = False, pw_busy = None\<rparr>) w = Some w' \<and> active_name w' 1 = Some ''a''"
proof -
  obtain w where w: "nvgpu_rl_domain_alloc \<lparr>pw_off = False, pw_busy = None\<rparr> (\<lambda>_ _. False) (demo_rls 0 1) ''a'' = Some (Inr (), w)"
    "dom_view w (\<lambda>_. ([''a''], 0))" "w_num_runlists w = 2"
    using demo_rls_added[of "''a''" "\<lparr>pw_off = False, pw_busy = None\<rparr>"] by auto
  have n: "0 < w_num_runlists w" using w(3) by simp
  obtain w' where "ticks (replicate 5 \<lparr>pw_off = False, pw_busy = None\<rparr>) w = Some w'"
    "\<forall>i<w_num_runlists w. active_name w' i = Some ([''a''] ! ((0 + length (replicate 5 \<lparr>pw_off = False, pw_busy = None\<rparr>)) mod length [''a'']))"
    using conjunct1[OF runlist_tick_round_robin[OF w(2) n]] by blast
  then show ?thesis using w by auto
qed

text \<open>Recovery takes the locks of all runlists and releases those outside its mask: when the identifiers of
  the active runlists are their positions, exactly the runlists named by the mask stay locked, and
  releasing the mask at the end leaves none locked.\<close>

theorem runlist_recovery_locks:
  assumes "w_active w = Some rls" "w_num_runlists w = length rls" "length rls \<le> 32"
    and "\<forall>i<length rls. \<not> rl_locked (rls ! i) \<and> rl_id (rls ! i) = i" "m \<le> U32_MAX"
  shows "\<exists>w1 w2 w3. nvgpu_runlist_lock_active_runlists w = Some w1 \<and>
    nvgpu_runlist_unlock_runlists w1 (U32_MAX - m) = Some w2 \<and>
    (\<forall>i<length rls. \<exists>rl. get_rl w2 i = Some rl \<and> rl_id rl = i \<and> (rl_locked rl \<longleftrightarrow> bit m (rl_id rl))) \<and>
    nvgpu_runlist_unlock_runlists w2 m = Some w3 \<and> (\<forall>i<length rls. \<exists>rl. get_rl w3 i = Some rl \<and> \<not> rl_locked rl)"
proof -
  let ?L = "\<lambda>i. rl_locked (rls ! i)"
  have c: "bit (U32_MAX - m) i \<longleftrightarrow> \<not> bit m i" if "i < 32" for i
  proof -
    have "nat (2 ^ 32 - 1 - int m) = U32_MAX - m" using assms(5) by simp
    moreover have "2 ^ 32 - 1 - int m = mask 32 - int m" by (simp add: mask_eq_exp_minus_1)
    moreover have "take_bit 32 (NOT (int m)) = mask 32 - int m"
      using assms(5) by (simp add: take_bit_not_eq_mask_diff take_bit_int_eq_self)
    ultimately have "int (U32_MAX - m) = take_bit 32 (NOT (int m))" using assms(5) by simp
    then have "bit (int (U32_MAX - m)) i = bit (take_bit 32 (NOT (int m))) i" by simp
    then show ?thesis using that by (simp add: bit_simps bit_of_nat_iff_bit)
  qed
  have s: "w = lock_state w rls ?L" using lock_state_id[OF assms(1)] by simp
  obtain L1 where l1: "nvgpu_runlist_lock_active_runlists w = Some (lock_state w rls L1)" "\<forall>i<length rls. L1 i"
    using lock_active_eq[of rls ?L w] assms(2,4) s by auto
  obtain L2 where l2: "nvgpu_runlist_unlock_runlists (lock_state w rls L1) (U32_MAX - m) = Some (lock_state w rls L2)"
    "\<forall>i<length rls. L2 i \<longleftrightarrow> L1 i \<and> \<not> bit (U32_MAX - m) i"
    using unlock_runlists_eq[of rls "U32_MAX - m" L1 w] l1(2) assms(2,3) by blast
  have L2: "L2 i \<longleftrightarrow> bit m i" if "i < length rls" for i using l2(2) l1(2) that c[of i] assms(3) by auto
  obtain L3 where l3: "nvgpu_runlist_unlock_runlists (lock_state w rls L2) m = Some (lock_state w rls L3)"
    "\<forall>i<length rls. L3 i \<longleftrightarrow> L2 i \<and> \<not> bit m i"
    using unlock_runlists_eq[of rls m L2 w] L2 assms(2,3) by blast
  show ?thesis using l1(1) l2(1) l3 L2 assms(4)
    by (intro exI[of _ "lock_state w rls L1"] exI[of _ "lock_state w rls L2"] exI[of _ "lock_state w rls L3"]) (simp add: lock_state_get)
qed

theorem runlist_recovery_locks_witness:
  "\<exists>w1 w2. nvgpu_runlist_lock_active_runlists (demo_rls 0 1) = Some w1 \<and>
     nvgpu_runlist_unlock_runlists w1 (U32_MAX - 2) = Some w2 \<and> (\<exists>rl. get_rl w2 1 = Some rl \<and> rl_locked rl)"
proof -
  have h: "w_active (demo_rls 0 1) = Some [demo_rl 0, demo_rl 1]" "w_num_runlists (demo_rls 0 1) = length [demo_rl 0, demo_rl 1]"
    "\<forall>i<length [demo_rl 0, demo_rl 1]. \<not> rl_locked ([demo_rl 0, demo_rl 1] ! i) \<and> rl_id ([demo_rl 0, demo_rl 1] ! i) = i"
    by (auto simp: demo_rls_def demo_rl_def zero_runlist_def less_Suc_eq)
  have b: "bit (2 :: nat) 1" by (simp add: bit_iff_odd)
  obtain w1 w2 where w: "nvgpu_runlist_lock_active_runlists (demo_rls 0 1) = Some w1" "nvgpu_runlist_unlock_runlists w1 (U32_MAX - 2) = Some w2"
    "\<forall>i<length [demo_rl 0, demo_rl 1]. \<exists>rl. get_rl w2 i = Some rl \<and> rl_id rl = i \<and> (rl_locked rl \<longleftrightarrow> bit (2::nat) (rl_id rl))"
    using runlist_recovery_locks[OF h(1,2) _ h(3), of 2] by auto
  have "\<exists>rl. get_rl w2 1 = Some rl \<and> rl_id rl = 1 \<and> (rl_locked rl \<longleftrightarrow> bit (2::nat) (rl_id rl))" using w(3) by simp
  then show ?thesis using w(1,2) b by auto
qed

text \<open>\<open>nvgpu_runlist_unlock_runlists\<close> tests the position of a runlist where the mask speaks of identifiers.
  With active runlists 0 and 3, recovery of an engine of runlist 3 computes the mask of runlist 3 but
  gives up the lock of exactly that runlist before it starts, and keeps none.\<close>

theorem runlist_recovery_wrong_lock:
  "\<exists>w1 w2. nvgpu_runlist_get_runlists_mask (\<lambda>_. None) (\<lambda>_. None) (demo_rls 0 3) 0 ID_TYPE_UNKNOWN 8 0 = Some 8 \<and>
     nvgpu_runlist_lock_active_runlists (demo_rls 0 3) = Some w1 \<and>
     nvgpu_runlist_unlock_runlists w1 (U32_MAX - 8) = Some w2 \<and>
     map_option rl_locked (get_rl w2 0) = Some False \<and> map_option rl_locked (get_rl w2 1) = Some False"
proof -
  let ?rls = "[demo_rl 0, demo_rl 3]" and ?w = "demo_rls 0 3"
  have a: "w_active ?w = Some ?rls" "w_num_runlists ?w = length ?rls" by (simp_all add: demo_rls_def)
  have mask: "nvgpu_runlist_get_runlists_mask (\<lambda>_. None) (\<lambda>_. None) ?w 0 ID_TYPE_UNKNOWN 8 0 = Some 8"
    by (simp add: nvgpu_runlist_get_runlists_mask_def demo_rls_def demo_rl_def zero_runlist_def for_runlists.simps get_rl_def load_def
        BIT32_def Let_def)
  have s: "?w = lock_state ?w ?rls (\<lambda>i. rl_locked (?rls ! i))" using lock_state_id[OF a(1)] by simp
  have "\<not> rl_locked (?rls ! i)" if "i < length ?rls" for i using that by (auto simp: demo_rl_def zero_runlist_def less_Suc_eq)
  then obtain L1 where l1: "nvgpu_runlist_lock_active_runlists ?w = Some (lock_state ?w ?rls L1)" "\<forall>i<length ?rls. L1 i"
    using lock_active_eq[of ?rls "\<lambda>i. rl_locked (?rls ! i)" ?w] a(2) s by auto
  obtain L2 where l2: "nvgpu_runlist_unlock_runlists (lock_state ?w ?rls L1) (U32_MAX - 8) = Some (lock_state ?w ?rls L2)"
    "\<forall>i<length ?rls. L2 i \<longleftrightarrow> L1 i \<and> \<not> bit (U32_MAX - 8 :: nat) i"
    using unlock_runlists_eq[of ?rls "U32_MAX - 8" L1 ?w] l1(2) a(2) by auto
  have "bit (U32_MAX - 8 :: nat) 0" "bit (U32_MAX - 8 :: nat) 1" by (simp_all add: bit_iff_odd)
  then have "\<not> L2 0" "\<not> L2 1" using l2(2) by (auto simp: less_Suc_eq)
  then have "map_option rl_locked (get_rl (lock_state ?w ?rls L2) 0) = Some False" "map_option rl_locked (get_rl (lock_state ?w ?rls L2) 1) = Some False"
    using lock_state_get[of 0 ?rls ?w L2] lock_state_get[of 1 ?rls ?w L2] by auto
  then show ?thesis using mask l1(1) l2(1) by blast
qed

text \<open>C40: \<open>nvgpu_runlist_setup_sw\<close> on a chip with the legacy probe and the domain scheduler present finds exactly
  the runlists some engine uses, numbers them in order, gives each the mask of its engines, and leaves
  every runlist without a domain and every lock free.\<close>

theorem runlist_setup_correct:
  assumes "su_nvs_present su" "\<not> su_virtual su" "su_find_pbdma su = Some pb" "\<not> su_oom_runlists su" "\<not> su_oom_active su"
    and "devs_ok (su_chram su) (su_devs su)" "su_count_max su \<le> U32_MAX" "w_dom w = Map.empty"
  shows "\<exists>w' rls. nvgpu_runlist_setup_sw su w = Some (Inr (), w') \<and> w_active w' = Some rls \<and> dom_view w' (\<lambda>_. ([], 0)) \<and>
    w_live w' = w_live w + 2 \<and>
    map rl_id rls = filter (\<lambda>r. \<exists>dev\<in>set (su_devs su). dev_runlist_id dev = r) [0..<su_count_max su] \<and>
    (\<forall>rl\<in>set rls. rl_eng_bitmask rl = engine_mask (su_devs su) (rl_id rl) \<and> rl_pbdma_bitmask rl = pb (rl_id rl) \<and> \<not> rl_locked rl)"
  using setup_ok[OF assms] unfolding valid_ids_def nvgpu_engine_is_valid_runlist_id_def .

definition demo_setup :: "bool \<Rightarrow> rl_setup" where
  "demo_setup oom = \<lparr>su_entry_size = 16, su_length_max = 64, su_count_max = 4, su_oom_runlists = False, su_oom_active = oom,
     su_nvs_present = True, su_oom_domain = (\<lambda>_ _. False),
     su_devs = [\<lparr>dev_engine_id = 0, dev_runlist_id = 0, dev_rl_pri_base = 0, dev_rleng_id = 0, dev_pbdma_id = [0, 1]\<rparr>,
                \<lparr>dev_engine_id = 2, dev_runlist_id = 3, dev_rl_pri_base = 0, dev_rleng_id = 0, dev_pbdma_id = [2, 3]\<rparr>],
     su_virtual = False, su_chram = None, su_find_pbdma = Some (\<lambda>r. r)\<rparr>"

definition empty_world :: rl_world where
  "empty_world = \<lparr>w_fifo = demo_rl_fifo, w_active = None, w_num_runlists = 0, w_runlists = None, w_max_runlists = 0,
     w_dom = Map.empty, w_next = 0, w_live = 0, w_submits = [], w_rc = []\<rparr>"

theorem runlist_setup_correct_witness:
  "\<exists>w' rls. nvgpu_runlist_setup_sw (demo_setup False) empty_world = Some (Inr (), w') \<and> w_active w' = Some rls \<and> map rl_id rls = [0, 3]"
proof -
  have f: "filter (\<lambda>r. \<exists>dev\<in>set (su_devs (demo_setup False)). dev_runlist_id dev = r) [0..<su_count_max (demo_setup False)] = [0, 3]"
    by (simp add: demo_setup_def upt_rec)
  have "\<exists>w' rls. nvgpu_runlist_setup_sw (demo_setup False) empty_world = Some (Inr (), w') \<and> w_active w' = Some rls \<and>
      dom_view w' (\<lambda>_. ([], 0)) \<and> w_live w' = w_live empty_world + 2 \<and>
      map rl_id rls = filter (\<lambda>r. \<exists>dev\<in>set (su_devs (demo_setup False)). dev_runlist_id dev = r) [0..<su_count_max (demo_setup False)] \<and>
      (\<forall>rl\<in>set rls. rl_eng_bitmask rl = engine_mask (su_devs (demo_setup False)) (rl_id rl) \<and> rl_pbdma_bitmask rl = rl_id rl \<and> \<not> rl_locked rl)"
    by (rule runlist_setup_correct) (auto simp: demo_setup_def empty_world_def devs_ok_def)
  then show ?thesis unfolding f by (elim exE conjE) (intro exI conjI, assumption+)
qed

text \<open>When the table of active runlists cannot be allocated, \<open>nvgpu_runlist_setup_sw\<close> reports \<open>ENOMEM\<close>, but
  its clean-up returns at once because that table is missing: the table of runlists stays allocated.\<close>

theorem runlist_setup_leaks:
  assumes "su_oom_active su" "\<not> su_oom_runlists su" "su_count_max su \<le> U32_MAX"
  shows "\<exists>w'. nvgpu_runlist_setup_sw su w = Some (Inl ENOMEM, w') \<and> w_live w' = w_live w + 1 \<and> w_runlists w' \<noteq> None"
proof -
  have "length (filter (nvgpu_engine_is_valid_runlist_id (su_devs su)) [0..<su_count_max su]) \<le> U32_MAX"
    using length_filter_le[of "nvgpu_engine_is_valid_runlist_id (su_devs su)" "[0..<su_count_max su]"] assms(3) by simp
  then show ?thesis using assms count_runlists_eq[of 0 "su_devs su" "[0..<su_count_max su]"]
    by (simp add: nvgpu_runlist_setup_sw_def nvgpu_runlist_cleanup_sw_def)
qed

theorem runlist_setup_leaks_witness:
  "\<exists>w'. nvgpu_runlist_setup_sw (demo_setup True) empty_world = Some (Inl ENOMEM, w') \<and> w_live w' = 1"
  using runlist_setup_leaks[of "demo_setup True" empty_world] by (auto simp: demo_setup_def empty_world_def)

end
