(* ===== verification/Nvs_Scheduler_Proofs.thy ===== *)
theory Nvs_Scheduler_Proofs
  imports Nvs_Scheduler Runlist_Setup_Proofs
begin

text \<open>
  The domain scheduler and the runlists stay in step: the scheduler's list of domains and the list on
  every runlist have the same names in the same order, and the scheduler's active domain is the one
  every runlist runs.
\<close>

section \<open>The invariant\<close>

definition vinfo :: "nvgpu_nvs_scheduler \<Rightarrow> nat \<Rightarrow> nvs_domain" where
  "vinfo s p = dom_info (sd_heap (vs_sched s)) p"

definition vnames :: "nvgpu_nvs_scheduler \<Rightarrow> nat list \<Rightarrow> string list" where
  "vnames s ps = map (\<lambda>p. nd_name (vinfo s p)) ps"

definition vprivs :: "nvgpu_nvs_scheduler \<Rightarrow> nat list \<Rightarrow> nat list" where
  "vprivs s ps = map (\<lambda>p. nd_priv (vinfo s p)) ps"

definition privs_ok :: "nvgpu_nvs_scheduler \<Rightarrow> nat list \<Rightarrow> bool" where
  "privs_ok s ps \<longleftrightarrow> distinct (vprivs s ps) \<and> dom (vs_doms s) = set (vprivs s ps) \<and> (\<forall>x\<in>dom (vs_doms s). x < vs_fresh s) \<and>
     (\<forall>p\<in>set ps. \<exists>v. vs_doms s (nd_priv (vinfo s p)) = Some v \<and> vd_parent v = Some p)"

definition nvs_ok :: "nvs_gpu \<Rightarrow> nvgpu_nvs_scheduler \<Rightarrow> nat list \<Rightarrow> nat \<Rightarrow> bool" where
  "nvs_ok g s ps k \<longleftrightarrow> g_scheduler g = Some s \<and> sched_ok (vs_sched s) ps \<and> privs_ok s ps \<and>
     dom_view (g_rl g) (\<lambda>_. (vnames s ps, k)) \<and> 0 < w_num_runlists (g_rl g) \<and>
     vs_active_domain s = (if ps = [] then None else Some (vprivs s ps ! k))"

lemma path_next:
  "path h p ps None \<Longrightarrow> k < length ps \<Longrightarrow>
   \<exists>d. h (ps ! k) = Some d \<and> nd_next d = (if Suc k < length ps then Some (ps ! Suc k) else None)"
proof (induction ps arbitrary: p k)
  case (Cons x xs)
  then obtain d where d: "h x = Some d" "path h (nd_next d) xs None" by auto
  show ?case
  proof (cases k)
    case 0
    then show ?thesis using d by (cases xs) auto
  next
    case (Suc j)
    then show ?thesis using Cons.IH[OF d(2), of j] Cons.prems by auto
  qed
qed simp

lemma nvs_ok_k: "nvs_ok g s ps k \<Longrightarrow> ps \<noteq> [] \<Longrightarrow> k < length ps"
  using dom_view_pos(2)[of "g_rl g" "vnames s ps" k] by (auto simp: nvs_ok_def vnames_def)

lemma nvs_ok_distinct: "nvs_ok g s ps k \<Longrightarrow> distinct (vnames s ps)"
  using dom_view_pos(1)[of "g_rl g" "vnames s ps" k] by (auto simp: nvs_ok_def)

text \<open>The domain at a position, from the code's side.\<close>

lemma nvs_ok_nth:
  assumes ok: "nvs_ok g s ps k" and j: "j < length ps"
  obtains v d where "vs_doms s (vprivs s ps ! j) = Some v" "vd_parent v = Some (ps ! j)" "sd_heap (vs_sched s) (ps ! j) = Some d"
    "nd_next d = (if Suc j < length ps then Some (ps ! Suc j) else None)" "nd_name d = vnames s ps ! j" "nd_priv d = vprivs s ps ! j"
    "nd_timeslice_ns d = nd_timeslice_ns (vinfo s (ps ! j))"
proof -
  obtain d where d: "sd_heap (vs_sched s) (ps ! j) = Some d" "nd_next d = (if Suc j < length ps then Some (ps ! Suc j) else None)"
    using path_next[of "sd_heap (vs_sched s)" "sd_domains (vs_sched s)" ps j] ok j by (auto simp: nvs_ok_def sched_ok_def)
  have i: "vinfo s (ps ! j) = d\<lparr>nd_next := None\<rparr>" using d by (simp add: vinfo_def dom_info_def)
  obtain v where v: "vs_doms s (nd_priv (vinfo s (ps ! j))) = Some v" "vd_parent v = Some (ps ! j)"
    using ok nth_mem[OF j] unfolding nvs_ok_def privs_ok_def by blast
  have n: "vprivs s ps ! j = nd_priv d" "vnames s ps ! j = nd_name d" "nd_priv (vinfo s (ps ! j)) = nd_priv d"
    "nd_timeslice_ns (vinfo s (ps ! j)) = nd_timeslice_ns d" using i j by (simp_all add: vprivs_def vnames_def)
  show ?thesis by (rule that[of v d]) (use d v n in simp_all)
qed

lemma nvs_ok_head: "nvs_ok g s ps k \<Longrightarrow> ps \<noteq> [] \<Longrightarrow> sd_domains (vs_sched s) = Some (ps ! 0)"
  by (cases ps) (auto simp: nvs_ok_def sched_ok_def)

section \<open>Ticks\<close>

lemma nvs_next:
  assumes ok: "nvs_ok g s ps k" and j: "j < length ps" and d: "nd_next d = (if Suc j < length ps then Some (ps ! Suc j) else None)"
  shows "(case nd_next d of Some q \<Rightarrow> Some q | None \<Rightarrow> sd_domains (vs_sched s)) = Some (ps ! (Suc j mod length ps))"
proof -
  have "ps \<noteq> []" using j by auto
  then show ?thesis using nvs_ok_head[OF ok] d j by (auto simp: mod_Suc)
qed

lemma nvs_tick_ok:
  assumes ok: "nvs_ok g s ps k"
  shows "\<exists>t g' s'. nvgpu_nvs_tick pw g = Some (t, g') \<and> nvs_ok g' s' ps (if ps = [] then k else Suc k mod length ps) \<and>
    vs_sched s' = vs_sched s \<and> vs_doms s' = vs_doms s \<and>
    t = (if ps = [] then 100 * NSEC_PER_MSEC else nd_timeslice_ns (vinfo s (ps ! (Suc k mod length ps))))"
proof (cases "ps = []")
  case True
  then show ?thesis using ok by (auto simp: nvgpu_nvs_tick_def nvs_ok_def)
next
  case False
  let ?k = "Suc k mod length ps"
  have k: "k < length ps" "?k < length ps" using nvs_ok_k[OF ok False] False by (simp_all add: mod_less_divisor)
  obtain v d where v: "vs_doms s (vprivs s ps ! k) = Some v" "vd_parent v = Some (ps ! k)" "sd_heap (vs_sched s) (ps ! k) = Some d"
    "nd_next d = (if Suc k < length ps then Some (ps ! Suc k) else None)" by (rule nvs_ok_nth[OF ok k(1)])
  obtain v' d' where v': "sd_heap (vs_sched s) (ps ! ?k) = Some d'" "nd_priv d' = vprivs s ps ! ?k"
    "nd_timeslice_ns d' = nd_timeslice_ns (vinfo s (ps ! ?k))" by (rule nvs_ok_nth[OF ok k(2)])
  have nne: "vnames s ps \<noteq> []" "length (vnames s ps) = length ps" using False by (auto simp: vnames_def)
  obtain rl where rl: "nvgpu_runlist_tick pw (g_rl g) = Some rl" "dom_view rl (\<lambda>_. (vnames s ps, ?k))" "w_num_runlists rl = w_num_runlists (g_rl g)"
    using tick_views[of "g_rl g" "\<lambda>_. (vnames s ps, k)" pw] ok nne by (auto simp: nvs_ok_def rl_frame_def)
  let ?s = "s\<lparr>vs_active_domain := Some (vprivs s ps ! ?k)\<rparr>" and ?g = "g\<lparr>g_rl := rl, g_scheduler := Some (s\<lparr>vs_active_domain := Some (vprivs s ps ! ?k)\<rparr>)\<rparr>"
  have "nvgpu_nvs_tick pw g = Some (nd_timeslice_ns d', ?g)"
    using ok False v v' nvs_next[OF ok k(1) v(4)] rl(1) by (simp add: nvgpu_nvs_tick_def nvs_ok_def)
  moreover have "nvs_ok ?g ?s ps ?k"
    using ok rl(2,3) False by (simp add: nvs_ok_def privs_ok_def vprivs_def vnames_def vinfo_def)
  ultimately show ?thesis using False v'(3) by (intro exI[of _ "nd_timeslice_ns d'"] exI[of _ ?g] exI[of _ ?s]) simp
qed

lemma nvs_tick_runlists:
  assumes "nvgpu_nvs_tick pw g = Some (t, g')" "nvs_ok g s ps k"
  shows "w_num_runlists (g_rl g') = w_num_runlists (g_rl g)"
  using tick_views[of "g_rl g" "\<lambda>_. (vnames s ps, k)" pw] assms
  by (cases "ps = []") (auto simp: nvgpu_nvs_tick_def nvs_ok_def bind_eq_Some_conv rl_frame_def vnames_def split: option.splits)

section \<open>References\<close>

lemma set_ref_ok:
  assumes ok: "nvs_ok g s ps k" and v: "vs_doms s p = Some v"
  shows "\<exists>s'. set_ref p f s = Some s' \<and> nvs_ok (g\<lparr>g_scheduler := Some s'\<rparr>) s' ps k \<and> vs_sched s' = vs_sched s \<and>
    vs_doms s' = (vs_doms s)(p \<mapsto> v\<lparr>vd_ref := f (vd_ref v)\<rparr>)"
proof -
  let ?s = "s\<lparr>vs_doms := (vs_doms s)(p \<mapsto> v\<lparr>vd_ref := f (vd_ref v)\<rparr>)\<rparr>"
  have "dom (vs_doms ?s) = dom (vs_doms s)" using v by auto
  then have "privs_ok ?s ps" using ok v unfolding nvs_ok_def privs_ok_def vprivs_def vinfo_def by auto
  then have "nvs_ok (g\<lparr>g_scheduler := Some ?s\<rparr>) ?s ps k"
    using ok by (simp add: nvs_ok_def vprivs_def vnames_def vinfo_def)
  then show ?thesis using v by (simp add: set_ref_def)
qed

section \<open>Adding a domain\<close>

lemma vinfo_cong: "(\<And>p. p \<in> set ps \<Longrightarrow> dom_info (sd_heap (vs_sched s')) p = dom_info (sd_heap (vs_sched s)) p) \<Longrightarrow>
    vnames s' ps = vnames s ps \<and> vprivs s' ps = vprivs s ps"
  by (simp add: vnames_def vprivs_def vinfo_def)

lemma privs_ok_cong:
  assumes "privs_ok s ps" "\<And>p. p \<in> set ps \<Longrightarrow> dom_info (sd_heap (vs_sched s')) p = dom_info (sd_heap (vs_sched s)) p"
    "vs_doms s' = vs_doms s" "vs_fresh s \<le> vs_fresh s'"
  shows "privs_ok s' ps"
  using assms vinfo_cong[of ps s' s] unfolding privs_ok_def by (force simp: vinfo_def)

lemma nvs_ok_unchanged:
  assumes ok: "nvs_ok g s ps k" and s': "sched_ok (vs_sched s') ps" "\<And>p. p \<in> set ps \<Longrightarrow> dom_info (sd_heap (vs_sched s')) p = dom_info (sd_heap (vs_sched s)) p"
    "vs_doms s' = vs_doms s" "vs_fresh s \<le> vs_fresh s'" "vs_active_domain s' = vs_active_domain s"
    and rl: "dom_view rl (\<lambda>_. (vnames s ps, k))" "w_num_runlists rl = w_num_runlists (g_rl g)"
  shows "nvs_ok (g\<lparr>g_rl := rl, g_scheduler := Some s'\<rparr>) s' ps k"
  using ok s' rl vinfo_cong[of ps s' s] privs_ok_cong[of s ps s'] by (simp add: nvs_ok_def)

text \<open>What is asked of a call: a name that fits, and no failure on a later runlist while there is no domain.\<close>

definition add_safe :: "add_env \<Rightarrow> nvs_gpu \<Rightarrow> nat list \<Rightarrow> string \<Rightarrow> bool" where
  "add_safe env g ps name \<longleftrightarrow> length name \<le> 31 \<and> length ps < U32_MAX \<and>
     \<not> (ps = [] \<and> (\<forall>l<7. \<not> ae_oom_rl env 0 l) \<and> (\<exists>i<w_num_runlists (g_rl g). \<exists>l<7. ae_oom_rl env i l))"

lemma nvs_add_ok:
  assumes ok: "nvs_ok g s ps k" and safe: "add_safe env g ps name"
  shows "\<exists>r g' s' ps'. nvgpu_nvs_add_domain env pw g name ts gr = Some (r, g') \<and> w_num_runlists (g_rl g') = w_num_runlists (g_rl g) \<and>
    (case r of
       Inl e \<Rightarrow> nvs_ok g' s' ps k \<and> vnames s' ps = vnames s ps \<and> (e = EEXIST \<longleftrightarrow> name \<in> set (vnames s ps))
     | Inr p \<Rightarrow> name \<notin> set (vnames s ps) \<and> nvs_ok g' s' (ps @ [ps']) (if ps = [] then 0 else k) \<and>
         vnames s' (ps @ [ps']) = vnames s ps @ [name] \<and> vprivs s' (ps @ [ps']) = vprivs s ps @ [p])"
proof -
  let ?sc = "vs_sched s" and ?ns = "vnames s ps"
  have sok: "sched_ok ?sc ps" and gs: "g_scheduler g = Some s" and pok: "privs_ok s ps"
    and dv: "dom_view (g_rl g) (\<lambda>_. (?ns, k))" "0 < w_num_runlists (g_rl g)" using ok by (auto simp: nvs_ok_def)
  have nm: "length name \<le> 31" "length ps < U32_MAX" and cond: "\<not> splits_first (ae_oom_rl env) (w_num_runlists (g_rl g)) ?ns"
    using safe by (auto simp: add_safe_def splits_first_def vnames_def)
  have bn: "nvs_domain_by_name ?sc name = Some (find (\<lambda>q. nd_name (dom_info (sd_heap ?sc) q) = name) ps)" by (rule by_name_correct[OF sok])
  have fn: "find (\<lambda>q. nd_name (dom_info (sd_heap ?sc) q) = name) ps = None \<longleftrightarrow> name \<notin> set ?ns"
    by (auto simp: find_None_iff vnames_def vinfo_def)
  note D = nvgpu_nvs_add_domain_def Let_def
  consider (ex) "name \<in> set ?ns" | (oom) "name \<notin> set ?ns" "ae_oom_dom env" | (oom_nvs) "name \<notin> set ?ns" "\<not> ae_oom_dom env" "ae_oom_nvs env"
    | (go) "name \<notin> set ?ns" "\<not> ae_oom_dom env" "\<not> ae_oom_nvs env" by blast
  then show ?thesis
  proof cases
    case ex
    then have "nvgpu_nvs_add_domain env pw g name ts gr = Some (Inl EEXIST, g)" using bn fn gs by (auto simp: D)
    then show ?thesis using ok ex by (intro exI[of _ "Inl EEXIST"] exI[of _ g] exI[of _ s]) simp
  next
    case oom
    then have "nvgpu_nvs_add_domain env pw g name ts gr = Some (Inl ENOMEM, g)" using bn fn gs by (auto simp: D)
    then show ?thesis using ok oom by (intro exI[of _ "Inl ENOMEM"] exI[of _ g] exI[of _ s]) simp
  next
    case oom_nvs
    let ?f = "vs_fresh s"
    have "vs_doms s ?f = None" using pok by (auto simp: privs_ok_def)
    then have id: "(vs_doms s)(?f := None) = vs_doms s" by auto
    let ?s = "s\<lparr>vs_id_counter := wrap64 (vs_id_counter s + 1), vs_fresh := ?f + 1\<rparr>"
    have "nvgpu_nvs_add_domain env pw g name ts gr = Some (Inl ENOMEM, g\<lparr>g_scheduler := Some ?s\<rparr>)"
      using oom_nvs bn fn gs id by (simp add: D nvs_domain_create_def nvgpu_nvs_new_id_def)
    moreover have "nvs_ok (g\<lparr>g_rl := g_rl g, g_scheduler := Some ?s\<rparr>) ?s ps k" using sok dv by (intro nvs_ok_unchanged[OF ok]) simp_all
    ultimately show ?thesis using oom_nvs by (intro exI[of _ "Inl ENOMEM"] exI[of _ "g\<lparr>g_scheduler := Some ?s\<rparr>"] exI[of _ ?s])
        (simp add: vnames_def vinfo_def)
  next
    case go
    let ?f = "vs_fresh s" and ?i = "wrap64 (vs_id_counter s + 1)" and ?q = "sd_fresh ?sc"
    obtain sc where sc: "nvs_domain_create False (ae_now env) ?sc name ts gr ?f = Some (Some ?q, sc)" "sched_ok sc (ps @ [?q])"
      "dom_info (sd_heap sc) ?q = \<lparr>nd_name = copy_name name, nd_next = None, nd_timeslice_ns = ts, nd_preempt_grace_ns = gr, nd_priv = ?f\<rparr>"
      "\<forall>p\<in>set ps. dom_info (sd_heap sc) p = dom_info (sd_heap ?sc) p"
      using domain_create_ok[OF sok nm(2), of "ae_now env" name ts gr ?f] by blast
    have cp: "copy_name name = name" using nm by (simp add: copy_name_def)
    let ?C = "\<forall>i<w_num_runlists (g_rl g). \<forall>l<7. \<not> ae_oom_rl env i l"
    obtain ret rl where r0: "nvgpu_rl_domain_alloc pw (ae_oom_rl env) (g_rl g) name = Some (ret, rl)" "rl_frame (g_rl g) rl"
      "if name \<in> set ?ns then ret = Inl EEXIST \<and> rl = g_rl g
       else if ?C then ret = Inr () \<and> dom_view rl (\<lambda>_. (?ns @ [name], if ?ns = [] then 0 else k)) \<and>
         w_live rl = w_live (g_rl g) + 7 * w_num_runlists (g_rl g)
       else ret = Inl ENOMEM \<and> dom_view rl (\<lambda>_. (?ns, k)) \<and> w_live rl = w_live (g_rl g)"
      using rl_domain_alloc_cases[OF dv nm(1) cond, of pw] by blast
    have rl: "nvgpu_rl_domain_alloc pw (ae_oom_rl env) (g_rl g) name = Some (ret, rl)"
      "if ?C then ret = Inr () \<and> dom_view rl (\<lambda>_. (?ns @ [name], if ?ns = [] then 0 else k)) else ret = Inl ENOMEM \<and> dom_view rl (\<lambda>_. (?ns, k))"
      "w_num_runlists rl = w_num_runlists (g_rl g)"
      using r0 go(1) by (cases ?C; simp add: rl_frame_def)+
    have fd: "vs_doms s ?f = None" "?f \<notin> set (vprivs s ps)" using pok by (auto simp: privs_ok_def)
    show ?thesis
    proof (cases ret)
      case (Inl e)
      then have e: "e = ENOMEM" "dom_view rl (\<lambda>_. (?ns, k))" using rl(2) by (auto split: if_splits)
      obtain sc2 where sc2: "nvs_domain_destroy (ae_now2 env) sc ?q = Some sc2" "sched_ok sc2 ps"
        "\<forall>p. p \<noteq> ?q \<longrightarrow> dom_info (sd_heap sc2) p = dom_info (sd_heap sc) p"
        using domain_destroy_ok[of sc ps ?q "[]" "ae_now2 env"] sc(2) by auto
      have id: "(vs_doms s)(?f := None) = vs_doms s" using fd by auto
      let ?s = "s\<lparr>vs_id_counter := ?i, vs_fresh := ?f + 1, vs_sched := sc2\<rparr>"
      have "?q \<notin> set ps" using sc(2) by (simp add: sched_ok_def)
      then have inf: "dom_info (sd_heap sc2) p = dom_info (sd_heap ?sc) p" if "p \<in> set ps" for p using sc(4) sc2(3) that by metis
      have "nvgpu_nvs_add_domain env pw g name ts gr = Some (Inl ENOMEM, g\<lparr>g_rl := rl, g_scheduler := Some ?s\<rparr>)"
        using go bn fn gs id sc(1) rl(1) Inl e sc2(1) by (simp add: D nvgpu_nvs_new_id_def)
      moreover have "nvs_ok (g\<lparr>g_rl := rl, g_scheduler := Some ?s\<rparr>) ?s ps k"
        using sc2(2) inf e(2) rl(3) by (intro nvs_ok_unchanged[OF ok]) simp_all
      moreover have "vnames ?s ps = ?ns" using inf vinfo_cong[of ps ?s s] by simp
      ultimately show ?thesis using go rl(3) by (intro exI[of _ "Inl ENOMEM"] exI[of _ "g\<lparr>g_rl := rl, g_scheduler := Some ?s\<rparr>"] exI[of _ ?s]) simp
    next
      case (Inr u)
      then have e: "dom_view rl (\<lambda>_. (?ns @ [name], if ?ns = [] then 0 else k))" using rl(2) by (auto split: if_splits)
      let ?d = "(vs_doms s)(?f \<mapsto> \<lparr>vd_id = ?i, vd_parent = Some ?q, vd_ref = 1\<rparr>)"
      define s1 where "s1 = s\<lparr>vs_id_counter := ?i, vs_fresh := ?f + 1, vs_sched := sc, vs_doms := ?d,
        vs_active_domain := (if vs_active_domain s = None then Some ?f else vs_active_domain s)\<rparr>"
      have f1: "vs_sched s1 = sc" "vs_doms s1 = ?d" "vs_fresh s1 = ?f + 1"
        "vs_active_domain s1 = (if vs_active_domain s = None then Some ?f else vs_active_domain s)" by (simp_all add: s1_def)
      have "nvgpu_nvs_add_domain env pw g name ts gr = Some (Inr ?f, g\<lparr>g_rl := rl, g_scheduler := Some s1\<rparr>)"
        using go bn fn gs sc(1) rl(1) Inr by (simp add: D nvgpu_nvs_new_id_def s1_def)
      moreover have vn: "vnames s1 (ps @ [?q]) = ?ns @ [name]" "vprivs s1 (ps @ [?q]) = vprivs s ps @ [?f]"
        using sc(3,4) cp f1(1) by (auto simp: vnames_def vprivs_def vinfo_def)
      moreover have "privs_ok s1 (ps @ [?q])"
      proof -
        have "\<exists>v. vs_doms s1 (nd_priv (vinfo s1 p)) = Some v \<and> vd_parent v = Some p" if "p \<in> set (ps @ [?q])" for p
        proof (cases "p = ?q")
          case True
          then show ?thesis using sc(3) f1 by (simp add: vinfo_def)
        next
          case False
          then have p: "p \<in> set ps" using that by simp
          then obtain v where "vs_doms s (nd_priv (vinfo s p)) = Some v" "vd_parent v = Some p" using pok by (auto simp: privs_ok_def)
          moreover have "vinfo s1 p = vinfo s p" using sc(4) p f1 by (simp add: vinfo_def)
          ultimately show ?thesis using fd f1(2) by auto
        qed
        then show ?thesis using pok fd f1 unfolding privs_ok_def vn by (auto simp: less_Suc_eq)
      qed
      moreover have "nvs_ok (g\<lparr>g_rl := rl, g_scheduler := Some s1\<rparr>) s1 (ps @ [?q]) (if ps = [] then 0 else k)"
        unfolding nvs_ok_def vn using ok sc(2) calculation(4) e f1 rl(3) nvs_ok_k[OF ok]
        by (auto simp: nvs_ok_def vnames_def vprivs_def nth_append)
      ultimately show ?thesis using go rl(3)
        by (intro exI[of _ "Inr ?f"] exI[of _ "g\<lparr>g_rl := rl, g_scheduler := Some s1\<rparr>"] exI[of _ s1] exI[of _ ?q]) simp
    qed
  qed
qed

section \<open>Deleting a domain\<close>

lemma by_id_loop_path:
  assumes "path h p ps None" "\<forall>q\<in>set ps. v (nd_priv (dom_info h q)) \<noteq> None"
  shows "\<exists>r. by_id_loop h v p i = Some r \<and>
    (r = None \<or> (\<exists>j<length ps. r = Some (nd_priv (dom_info h (ps ! j))) \<and> map_option vd_id (v (nd_priv (dom_info h (ps ! j)))) = Some i))"
  using assms
proof (induction ps arbitrary: p)
  case Nil
  then show ?case by (simp add: by_id_loop.simps)
next
  case (Cons x xs)
  obtain d where d: "p = Some x" "h x = Some d" "path h (nd_next d) xs None" using Cons.prems by auto
  have pr: "nd_priv (dom_info h x) = nd_priv d" using d by (simp add: dom_info_def)
  obtain y where y: "v (nd_priv d) = Some y" using Cons.prems(2) pr by auto
  show ?case
  proof (cases "vd_id y = i")
    case True
    then have "by_id_loop h v p i = Some (Some (nd_priv d))" using d y by (subst by_id_loop.simps) simp
    then show ?thesis using True y pr by (auto intro!: exI[of _ 0])
  next
    case False
    have "by_id_loop h v p i = by_id_loop h v (nd_next d) i" using d y False by (subst by_id_loop.simps) simp
    moreover obtain r where r: "by_id_loop h v (nd_next d) i = Some r"
      "r = None \<or> (\<exists>j<length xs. r = Some (nd_priv (dom_info h (xs ! j))) \<and> map_option vd_id (v (nd_priv (dom_info h (xs ! j)))) = Some i)"
      using Cons.IH[OF d(3)] Cons.prems(2) by auto
    moreover have "r = None \<or> (\<exists>j<length (x # xs). r = Some (nd_priv (dom_info h ((x # xs) ! j))) \<and>
        map_option vd_id (v (nd_priv (dom_info h ((x # xs) ! j)))) = Some i)"
      using r(2) by (metis Suc_less_eq length_Cons nth_Cons_Suc)
    ultimately show ?thesis by auto
  qed
qed

lemma by_id_ok:
  assumes ok: "nvs_ok g s ps k"
  obtains (none) "nvgpu_nvs_domain_by_id_locked g i = Some None"
    | (found) j v where "nvgpu_nvs_domain_by_id_locked g i = Some (Some (vprivs s ps ! j))" "j < length ps"
        "vs_doms s (vprivs s ps ! j) = Some v" "vd_id v = i"
proof -
  have p: "path (sd_heap (vs_sched s)) (sd_domains (vs_sched s)) ps None" "\<forall>q\<in>set ps. vs_doms s (nd_priv (dom_info (sd_heap (vs_sched s)) q)) \<noteq> None"
    using ok by (auto simp: nvs_ok_def sched_ok_def privs_ok_def vinfo_def)
  have pv: "vprivs s ps ! j = nd_priv (dom_info (sd_heap (vs_sched s)) (ps ! j))" if "j < length ps" for j
    using that by (simp add: vprivs_def vinfo_def)
  obtain r where r0: "by_id_loop (sd_heap (vs_sched s)) (vs_doms s) (sd_domains (vs_sched s)) i = Some r"
    "r = None \<or> (\<exists>j<length ps. r = Some (nd_priv (dom_info (sd_heap (vs_sched s)) (ps ! j))) \<and>
       map_option vd_id (vs_doms s (nd_priv (dom_info (sd_heap (vs_sched s)) (ps ! j)))) = Some i)"
    using by_id_loop_path[OF p, of i] by blast
  have r: "by_id_loop (sd_heap (vs_sched s)) (vs_doms s) (sd_domains (vs_sched s)) i = Some r"
    "r = None \<or> (\<exists>j<length ps. r = Some (vprivs s ps ! j) \<and> map_option vd_id (vs_doms s (vprivs s ps ! j)) = Some i)"
    using r0 pv by (simp, metis)
  have e: "nvgpu_nvs_domain_by_id_locked g i = Some r" using ok r(1) by (simp add: nvgpu_nvs_domain_by_id_locked_def nvs_ok_def)
  from r(2) show ?thesis
  proof (elim disjE exE conjE)
    assume "r = None"
    then show ?thesis using e none by simp
  next
    fix j assume j: "j < length ps" "r = Some (vprivs s ps ! j)" "map_option vd_id (vs_doms s (vprivs s ps ! j)) = Some i"
    then obtain v where "vs_doms s (vprivs s ps ! j) = Some v" "vd_id v = i" by auto
    then show ?thesis using found[of j v] e j by simp
  qed
qed

lemma remove_at_split: "j < length xs \<Longrightarrow> xs = take j xs @ xs ! j # drop (Suc j) xs"
  by (rule id_take_nth_drop)

text \<open>The deletion proper, once the domain has been found unused and is not the only one.\<close>

lemma nvs_del_found:
  assumes ok: "nvs_ok g s ps k" and j: "j < length ps" "1 < length ps" and v: "vs_doms s (vprivs s ps ! j) = Some v" "vd_ref v = 1"
    and f: "nvgpu_nvs_domain_by_id_locked g i = Some (Some (vprivs s ps ! j))"
  shows "\<exists>g' s'. nvgpu_nvs_del_domain now pw g i = Some (Inr (), g') \<and> nvs_ok g' s' (remove_at j ps) (snd (del_view j (vnames s ps, k))) \<and>
    vnames s' (remove_at j ps) = remove_at j (vnames s ps) \<and> w_num_runlists (g_rl g') = w_num_runlists (g_rl g)"
proof -
  let ?x = "vprivs s ps ! j" and ?sc = "vs_sched s" and ?ns = "vnames s ps"
  let ?k = "if j < k then k - 1 else if j = k \<and> Suc k = length ps then 0 else k" and ?K = "Suc k mod length ps"
  have gs: "g_scheduler g = Some s" and sok: "sched_ok ?sc ps" and pok: "privs_ok s ps" and dv: "dom_view (g_rl g) (\<lambda>_. (?ns, k))"
    and act: "vs_active_domain s = Some (vprivs s ps ! k)" using ok j by (auto simp: nvs_ok_def)
  have len: "length ?ns = length ps" "length (vprivs s ps) = length ps" by (simp_all add: vnames_def vprivs_def)
  have k: "k < length ps" using nvs_ok_k[OF ok] j by (cases ps) auto
  have K: "?K < length ps" using k by (metis mod_less_divisor less_nat_zero_code neq0_conv)
  obtain v' d where d: "vs_doms s ?x = Some v'" "vd_parent v' = Some (ps ! j)" "sd_heap ?sc (ps ! j) = Some d"
    "nd_next d = (if Suc j < length ps then Some (ps ! Suc j) else None)" "nd_name d = ?ns ! j" by (rule nvs_ok_nth[OF ok j(1)])
  obtain v2 d2 where d2: "sd_heap ?sc (ps ! (Suc j mod length ps)) = Some d2" "nd_priv d2 = vprivs s ps ! (Suc j mod length ps)"
    using nvs_ok_nth[OF ok, of "Suc j mod length ps"] j by (metis mod_less_divisor less_trans zero_less_one)
  obtain rl where rl: "nvgpu_rl_domain_delete pw (g_rl g) (?ns ! j) = Some (Inr (), rl)" "dom_view rl (\<lambda>_. del_view j (?ns, k))" "rl_frame (g_rl g) rl"
    using rl_domain_delete_all[OF dv, of j pw] j len nvs_ok_distinct[OF ok] by auto
  obtain sc where sc: "nvs_domain_destroy now ?sc (ps ! j) = Some sc" "sched_ok sc (remove_at j ps)"
    "\<forall>p. p \<noteq> ps ! j \<longrightarrow> dom_info (sd_heap sc) p = dom_info (sd_heap ?sc) p"
    using domain_destroy_ok[of ?sc "take j ps" "ps ! j" "drop (Suc j) ps" now] sok remove_at_split[OF j(1)] by (auto simp: remove_at_def)
  have dist: "distinct ps" "distinct (vprivs s ps)" using sok pok by (auto simp: sched_ok_def privs_ok_def)
  have cur: "vs_active_domain s = Some ?x \<longleftrightarrow> k = j" using act dist(2) k j len by (auto simp: nth_eq_iff_index_eq)
  let ?a = "if k = j then Some (vprivs s ps ! ?K) else vs_active_domain s"
  define s1 where "s1 = s\<lparr>vs_active_domain := ?a, vs_sched := sc, vs_doms := (vs_doms s)(?x := None)\<rparr>"
  let ?g = "g\<lparr>g_rl := rl, g_scheduler := Some s1\<rparr>"
  have "nvgpu_nvs_del_domain now pw g i = Some (Inr (), ?g)"
  proof (cases "k = j")
    case True
    then show ?thesis using gs f v d(1-3,5) d2 rl(1) cur sc(1) nvs_next[OF ok j(1) d(4)]
      by (simp add: nvgpu_nvs_del_domain_def set_ref_def s1_def cong: option.case_cong)
  next
    case False
    then show ?thesis using gs f v d rl(1) cur sc(1) by (simp add: nvgpu_nvs_del_domain_def set_ref_def s1_def)
  qed
  moreover have inf: "dom_info (sd_heap (vs_sched s1)) p = dom_info (sd_heap ?sc) p" if "p \<in> set (remove_at j ps)" for p
    using that sc(3) remove_at_set[OF dist(1) j(1)] by (auto simp: s1_def)
  then have vn: "vnames s1 (remove_at j ps) = remove_at j ?ns" "vprivs s1 (remove_at j ps) = remove_at j (vprivs s ps)"
  proof -
    have "vnames s1 (remove_at j ps) = vnames s (remove_at j ps) \<and> vprivs s1 (remove_at j ps) = vprivs s (remove_at j ps)"
      by (rule vinfo_cong) (rule inf)
    then show "vnames s1 (remove_at j ps) = remove_at j ?ns" "vprivs s1 (remove_at j ps) = remove_at j (vprivs s ps)"
      by (simp_all add: vnames_def vprivs_def)
  qed
  moreover have "privs_ok s1 (remove_at j ps)"
  proof -
    have r: "set (remove_at j (vprivs s ps)) = set (vprivs s ps) - {?x}" "distinct (remove_at j (vprivs s ps))"
      using remove_at_set[OF dist(2), of j] j len by auto
    have "\<exists>v. vs_doms s1 (nd_priv (vinfo s1 p)) = Some v \<and> vd_parent v = Some p" if p: "p \<in> set (remove_at j ps)" for p
    proof -
      have "vinfo s1 p = vinfo s p" using inf[OF p] by (simp add: vinfo_def)
      moreover have "nd_priv (vinfo s1 p) \<noteq> ?x"
      proof -
        have "nd_priv (vinfo s1 p) \<in> set (vprivs s1 (remove_at j ps))" unfolding vprivs_def set_map using p by (rule imageI)
        then show ?thesis using r(1) vn(2) by auto
      qed
      moreover obtain w where "vs_doms s (nd_priv (vinfo s p)) = Some w" "vd_parent w = Some p"
        using pok p remove_at_set[OF dist(1) j(1)] by (auto simp: privs_ok_def)
      ultimately show ?thesis by (simp add: s1_def)
    qed
    then show ?thesis using pok r unfolding privs_ok_def vn by (auto simp: s1_def)
  qed
  moreover have "vs_active_domain s1 = Some (remove_at j (vprivs s ps) ! ?k)"
  proof (cases "k = j")
    case True
    have "?K \<noteq> j" using True k j(2) by (auto simp: mod_Suc split: if_splits)
    then have "remove_at j (vprivs s ps) ! (if j < ?K then ?K - 1 else ?K) = vprivs s ps ! ?K"
      using nth_remove_at[of j "vprivs s ps" ?K] K j len by simp
    moreover have "(if j < ?K then ?K - 1 else ?K) = ?k" using True k j(2) by (auto simp: mod_Suc)
    ultimately show ?thesis using True by (simp add: s1_def)
  next
    case False
    then have "remove_at j (vprivs s ps) ! (if j < k then k - 1 else k) = vprivs s ps ! k"
      using nth_remove_at[of j "vprivs s ps" k] k j len by simp
    then show ?thesis using False act by (auto simp: s1_def)
  qed
  moreover have "remove_at j ps \<noteq> []" using j by (metis length_0_conv remove_at_simps(1) zero_less_diff less_not_refl)
  ultimately show ?thesis using sc(2) rl(2,3) ok len
    by (intro exI[of _ ?g] exI[of _ s1]) (simp add: nvs_ok_def s1_def rl_frame_def)
qed

lemma nvs_del_ok:
  assumes ok: "nvs_ok g s ps k"
  shows "\<exists>r g'. nvgpu_nvs_del_domain now pw g i = Some (r, g') \<and> w_num_runlists (g_rl g') = w_num_runlists (g_rl g) \<and>
    (case r of
       Inl e \<Rightarrow> g' = g \<and> e \<in> {ENOENT, EBUSY, EINVAL} \<and> (e = EINVAL \<longrightarrow> length ps = 1)
     | Inr _ \<Rightarrow> \<exists>j s'. j < length ps \<and> 1 < length ps \<and> nvs_ok g' s' (remove_at j ps) (snd (del_view j (vnames s ps, k))) \<and>
         vnames s' (remove_at j ps) = remove_at j (vnames s ps) \<and>
         map_option vd_id (vs_doms s (vprivs s ps ! j)) = Some i \<and> map_option vd_ref (vs_doms s (vprivs s ps ! j)) = Some 1)"
proof (cases rule: by_id_ok[OF ok, of i, case_names none found])
  case none
  then show ?thesis using ok by (simp add: nvgpu_nvs_del_domain_def nvs_ok_def)
next
  case (found j v)
  have gs: "g_scheduler g = Some s" using ok by (simp add: nvs_ok_def)
  consider (busy) "vd_ref v \<noteq> 1" | (only) "vd_ref v = 1" "length ps = 1" | (go) "vd_ref v = 1" "1 < length ps" using found(2) by linarith
  then show ?thesis
  proof cases
    case busy
    then have "nvgpu_nvs_del_domain now pw g i = Some (Inl EBUSY, g)" using found gs by (simp add: nvgpu_nvs_del_domain_def)
    then show ?thesis by simp
  next
    case only
    then obtain q where q: "ps = [q]" by (auto simp: length_Suc_conv)
    have j: "j = 0" "k = 0" using found(2) only nvs_ok_k[OF ok] q by auto
    obtain v' d where d: "vs_doms s (vprivs s ps ! j) = Some v'" "vd_parent v' = Some (ps ! j)" "sd_heap (vs_sched s) (ps ! j) = Some d"
      "nd_name d = vnames s ps ! j" by (rule nvs_ok_nth[OF ok found(2)])
    have ns: "vnames s ps = [vnames s ps ! j]" using q j by (simp add: vnames_def)
    have "nvgpu_rl_domain_delete pw (g_rl g) (vnames s ps ! j) = Some (Inl EINVAL, g_rl g)"
    proof (rule delete_loop_refused)
      show "dom_view (g_rl g) (\<lambda>_. (vnames s ps, k))" "0 < w_num_runlists (g_rl g)" using ok by (auto simp: nvs_ok_def)
      show "(vnames s ps, k) = ([vnames s ps ! j], 0)" using ns j(2) by simp
    qed
    then have "nvgpu_nvs_del_domain now pw g i = Some (Inl EINVAL, g)"
      using found gs only d by (simp add: nvgpu_nvs_del_domain_def)
    then show ?thesis using only by simp
  next
    case go
    from nvs_del_found[OF ok found(2) go(2) found(3) go(1) found(1), of now pw]
    obtain g' s' where "nvgpu_nvs_del_domain now pw g i = Some (Inr (), g')"
      "nvs_ok g' s' (remove_at j ps) (snd (del_view j (vnames s ps, k)))" "vnames s' (remove_at j ps) = remove_at j (vnames s ps)"
      "w_num_runlists (g_rl g') = w_num_runlists (g_rl g)" by blast
    then show ?thesis using found go by (auto simp del: del_view.simps intro!: exI[of _ j] exI[of _ s'])
  qed
qed

section \<open>Reachable states\<close>

text \<open>The one request that breaks the bookkeeping (see \<open>Runlist_Setup_Proofs\<close>): the first domain is added, the first runlist gets it, and the memory
  for it on a later runlist can not be had.\<close>

definition first_add_splits :: "add_env \<Rightarrow> nvs_gpu \<Rightarrow> bool" where
  "first_add_splits env g \<longleftrightarrow> (\<exists>s. g_scheduler g = Some s \<and> sd_domains (vs_sched s) = None) \<and>
     (\<forall>l<7. \<not> ae_oom_rl env 0 l) \<and> (\<exists>i<w_num_runlists (g_rl g). \<exists>l<7. ae_oom_rl env i l)"

text \<open>The requests to add a domain that are considered: a name of at most 31 characters, a count that does not overflow, and not that request.\<close>

definition add_request_ok :: "add_env \<Rightarrow> nvs_gpu \<Rightarrow> string \<Rightarrow> bool" where
  "add_request_ok env g name \<longleftrightarrow> length name \<le> 31 \<and>
     (case g_scheduler g of None \<Rightarrow> False | Some s \<Rightarrow> nvs_domain_count (vs_sched s) < U32_MAX) \<and> \<not> first_add_splits env g"

inductive nvs_reach :: "rl_world \<Rightarrow> nvs_gpu \<Rightarrow> bool" for w where
  opened: "nvgpu_nvs_open oe \<lparr>g_scheduler = None, g_rl = w\<rparr> = Some (Inr (), g) \<Longrightarrow> nvs_reach w g"
| added: "nvs_reach w g \<Longrightarrow> add_request_ok env g name \<Longrightarrow> nvgpu_nvs_add_domain env pw g name ts gr = Some (r, g') \<Longrightarrow> nvs_reach w g'"
| deleted: "nvs_reach w g \<Longrightarrow> nvgpu_nvs_del_domain now pw g i = Some (r, g') \<Longrightarrow> nvs_reach w g'"
| woken: "nvs_reach w g \<Longrightarrow> nvgpu_nvs_worker_wakeup_post_process expired pw g = Some g' \<Longrightarrow> nvs_reach w g'"
| looked_up_id: "nvs_reach w g \<Longrightarrow> nvgpu_nvs_domain_by_id g i = Some (r, g') \<Longrightarrow> nvs_reach w g'"
| looked_up_name: "nvs_reach w g \<Longrightarrow> nvgpu_nvs_domain_by_name g name = Some (r, g') \<Longrightarrow> nvs_reach w g'"
| taken: "nvs_reach w g \<Longrightarrow> nvgpu_nvs_domain_get g p = Some g' \<Longrightarrow> nvs_reach w g'"
| dropped: "nvs_reach w g \<Longrightarrow> nvgpu_nvs_domain_put g p = Some g' \<Longrightarrow> nvs_reach w g'"

definition nvs_synced :: "nat \<Rightarrow> nvs_gpu \<Rightarrow> bool" where
  "nvs_synced n g \<longleftrightarrow> w_num_runlists (g_rl g) = n \<and> (\<exists>s ps k. nvs_ok g s ps k)"

lemma nvs_syncedI: "nvs_ok g s ps k \<Longrightarrow> w_num_runlists (g_rl g) = n \<Longrightarrow> nvs_synced n g"
  by (auto simp: nvs_synced_def)

lemma nvs_syncedE:
  assumes "nvs_synced n g"
  obtains s ps k where "nvs_ok g s ps k" "w_num_runlists (g_rl g) = n" "g_scheduler g = Some s"
  using assms by (auto simp: nvs_synced_def nvs_ok_def)

lemma add_request_safe: "nvs_ok g s ps k \<Longrightarrow> add_request_ok env g name \<Longrightarrow> add_safe env g ps name"
  by (cases ps) (auto simp: add_request_ok_def first_add_splits_def add_safe_def nvs_ok_def sched_ok_def nvs_domain_count_def)

lemma nvs_open_synced:
  assumes "dom_view w (\<lambda>_. ([], 0))" "0 < w_num_runlists w" "nvgpu_nvs_open oe \<lparr>g_scheduler = None, g_rl = w\<rparr> = Some (Inr (), g)"
  shows "nvs_synced (w_num_runlists w) g"
proof -
  obtain sd where sd: "nvs_sched_create (oe_oom_list oe) (oe_oom_logger oe) (oe_oom_events oe) (oe_now oe) (oe_now2 oe) = Some (Inr sd)"
    "g = \<lparr>g_scheduler = Some (nvgpu_nvs_worker_poll_init
        \<lparr>vs_sched = sd, vs_id_counter = 0, vs_active_domain = None, vs_doms = Map.empty, vs_fresh = 0, vs_current_timeout = 0\<rparr>), g_rl = w\<rparr>"
    using assms(3) by (auto simp: nvgpu_nvs_open_def bind_eq_Some_conv split: if_splits option.split_asm sum.split_asm) (metis sum.exhaust)
  then have "\<not> oe_oom_list oe \<and> \<not> oe_oom_logger oe \<and> \<not> oe_oom_events oe"
    by (auto simp: nvs_sched_create_def nvs_log_init_def split: if_splits)
  then have "sched_ok sd []" using sd(1) sched_create_ok by auto
  then show ?thesis using sd(2) assms(1,2)
    by (intro nvs_syncedI[of _ _ "[]" 0]) (auto simp: nvs_ok_def privs_ok_def vprivs_def vnames_def nvgpu_nvs_worker_poll_init_def)
qed

lemma nvs_add_synced:
  assumes "nvs_synced n g" "add_request_ok env g name"
  shows "\<exists>r g'. nvgpu_nvs_add_domain env pw g name ts gr = Some (r, g') \<and> nvs_synced n g'"
proof -
  obtain s ps k where ok: "nvs_ok g s ps k" "w_num_runlists (g_rl g) = n" using assms(1) by (rule nvs_syncedE)
  obtain r g' s' q where r: "nvgpu_nvs_add_domain env pw g name ts gr = Some (r, g')" "w_num_runlists (g_rl g') = w_num_runlists (g_rl g)"
    "case r of Inl e \<Rightarrow> nvs_ok g' s' ps k | Inr p \<Rightarrow> nvs_ok g' s' (ps @ [q]) (if ps = [] then 0 else k)"
    using nvs_add_ok[OF ok(1) add_request_safe[OF ok(1) assms(2)], of pw ts gr] by (fastforce split: sum.splits)
  then show ?thesis using ok(2) by (cases r) (auto intro: nvs_syncedI)
qed

lemma nvs_del_synced:
  assumes "nvs_synced n g"
  shows "\<exists>r g'. nvgpu_nvs_del_domain now pw g i = Some (r, g') \<and> nvs_synced n g'"
proof -
  obtain s ps k where ok: "nvs_ok g s ps k" "w_num_runlists (g_rl g) = n" using assms by (rule nvs_syncedE)
  obtain r g' where r: "nvgpu_nvs_del_domain now pw g i = Some (r, g')" "w_num_runlists (g_rl g') = w_num_runlists (g_rl g)"
    "case r of Inl e \<Rightarrow> g' = g | Inr _ \<Rightarrow> \<exists>j s'. nvs_ok g' s' (remove_at j ps) (snd (del_view j (vnames s ps, k)))"
    using nvs_del_ok[OF ok(1), of now pw i] by (fastforce split: sum.splits simp del: del_view.simps)
  then show ?thesis using ok assms by (cases r) (auto simp del: del_view.simps intro: nvs_syncedI)
qed

lemma nvs_ok_timeout:
  "nvs_ok g s ps k \<Longrightarrow> nvs_ok (g\<lparr>g_scheduler := Some (s\<lparr>vs_current_timeout := t\<rparr>)\<rparr>) (s\<lparr>vs_current_timeout := t\<rparr>) ps k"
  by (simp add: nvs_ok_def privs_ok_def vprivs_def vnames_def vinfo_def)

lemma nvs_wake_synced:
  assumes "nvs_synced n g"
  shows "\<exists>g'. nvgpu_nvs_worker_wakeup_post_process expired pw g = Some g' \<and> nvs_synced n g'"
proof -
  obtain s ps k where ok: "nvs_ok g s ps k" "w_num_runlists (g_rl g) = n" using assms by (rule nvs_syncedE)
  obtain t g' s' k' where t: "nvgpu_nvs_tick pw g = Some (t, g')" "nvs_ok g' s' ps k'" using nvs_tick_ok[OF ok(1), of pw] by blast
  have n: "w_num_runlists (g_rl g') = n" using nvs_tick_runlists[OF t(1) ok(1)] ok(2) by simp
  have "g_scheduler g' = Some s'" using t(2) by (simp add: nvs_ok_def)
  then show ?thesis using t n assms
    by (auto simp: nvgpu_nvs_worker_wakeup_post_process_def Let_def intro: nvs_syncedI nvs_syncedI[OF nvs_ok_timeout])
qed

lemma set_ref_synced:
  assumes "nvs_synced n g" "g_scheduler g = Some s" "set_ref p f s = Some s'"
  shows "nvs_synced n (g\<lparr>g_scheduler := Some s'\<rparr>)"
proof -
  obtain ps k where ok: "nvs_ok g s ps k" "w_num_runlists (g_rl g) = n" using assms(1,2) by (auto elim!: nvs_syncedE)
  obtain v where v: "vs_doms s p = Some v" using assms(3) by (auto simp: set_ref_def bind_eq_Some_conv)
  show ?thesis using set_ref_ok[OF ok(1) v, of f] assms(3) ok(2) by (auto intro!: nvs_syncedI)
qed

lemma nvs_reach_synced:
  assumes "nvs_reach w g" "dom_view w (\<lambda>_. ([], 0))" "0 < w_num_runlists w"
  shows "nvs_synced (w_num_runlists w) g"
  using assms(1)
proof (induction rule: nvs_reach.induct)
  case (opened oe g)
  then show ?case by (rule nvs_open_synced[OF assms(2,3)])
next
  case (added g env name pw ts gr r g')
  then show ?case using nvs_add_synced[OF added.IH added.hyps(2), of pw ts gr] by auto
next
  case (deleted g now pw i r g')
  then show ?case using nvs_del_synced[OF deleted.IH, of now pw i] by auto
next
  case (woken g expired pw g')
  then show ?case using nvs_wake_synced[OF woken.IH, of expired pw] by auto
next
  case (looked_up_id g i r g')
  then show ?case by (auto simp: nvgpu_nvs_domain_by_id_def bind_eq_Some_conv split: option.splits intro: set_ref_synced)
next
  case (looked_up_name g name r g')
  then show ?case by (auto simp: nvgpu_nvs_domain_by_name_def bind_eq_Some_conv split: option.splits intro: set_ref_synced)
next
  case (taken g p g')
  then show ?case by (auto simp: nvgpu_nvs_domain_get_def bind_eq_Some_conv intro: set_ref_synced)
next
  case (dropped g p g')
  then show ?case by (auto simp: nvgpu_nvs_domain_put_def bind_eq_Some_conv intro: set_ref_synced)
qed

section \<open>Closing\<close>

lemma remove_loop_path:
  "path h p ps None \<Longrightarrow> distinct (map (\<lambda>q. nd_priv (dom_info h q)) ps) \<Longrightarrow> set (map (\<lambda>q. nd_priv (dom_info h q)) ps) \<subseteq> dom v \<Longrightarrow>
   remove_loop h v p = Some (v |` (- set (map (\<lambda>q. nd_priv (dom_info h q)) ps)))"
proof (induction ps arbitrary: p v)
  case Nil
  then show ?case by (simp add: remove_loop.simps)
next
  case (Cons x xs)
  then obtain d where d: "p = Some x" "h x = Some d" "path h (nd_next d) xs None" by auto
  have pr: "nd_priv (dom_info h x) = nd_priv d" using d(2) by (simp add: dom_info_def)
  obtain y where y: "v (nd_priv d) = Some y" using Cons.prems(3) pr by auto
  have "remove_loop h (v(nd_priv d := None)) (nd_next d) =
      Some (v(nd_priv d := None) |` (- set (map (\<lambda>q. nd_priv (dom_info h q)) xs)))"
  proof (rule Cons.IH[OF d(3)])
    show "distinct (map (\<lambda>q. nd_priv (dom_info h q)) xs)" using Cons.prems(2) by simp
    show "set (map (\<lambda>q. nd_priv (dom_info h q)) xs) \<subseteq> dom (v(nd_priv d := None))" using Cons.prems(2,3) pr by (auto, metis image_eqI)
  qed
  moreover have "v(nd_priv d := None) |` (- set (map (\<lambda>q. nd_priv (dom_info h q)) xs)) = v |` (- set (map (\<lambda>q. nd_priv (dom_info h q)) (x # xs)))"
    using pr by (auto simp: restrict_map_def)
  ultimately show ?case using d y by (subst remove_loop.simps) simp
qed

lemma nvs_remove_ok:
  assumes "nvs_synced n g"
  shows "nvgpu_nvs_remove_support now g = Some (Some (Map.empty, Map.empty), g\<lparr>g_scheduler := None\<rparr>)"
proof -
  obtain s ps k where ok: "nvs_ok g s ps k" "g_scheduler g = Some s" using assms by (rule nvs_syncedE)
  let ?h = "sd_heap (vs_sched s)"
  have v: "map (\<lambda>q. nd_priv (dom_info ?h q)) ps = vprivs s ps" by (simp add: vprivs_def vinfo_def)
  have "remove_loop ?h (vs_doms s) (sd_domains (vs_sched s)) = Some (vs_doms s |` (- set (vprivs s ps)))"
    using remove_loop_path[of ?h "sd_domains (vs_sched s)" ps "vs_doms s"] ok(1) unfolding v nvs_ok_def privs_ok_def sched_ok_def by simp
  moreover have "vs_doms s |` (- set (vprivs s ps)) = Map.empty"
    using ok(1) by (auto simp: nvs_ok_def privs_ok_def restrict_map_def fun_eq_iff)
  moreover have "nvs_sched_close now (vs_sched s) = Some Map.empty"
    using clear_all_ok[of "vs_sched s" ps now] ok(1) by (auto simp: nvs_sched_close_def sched_ok_def nvs_ok_def)
  ultimately show ?thesis using ok(2) by (simp add: nvgpu_nvs_remove_support_def)
qed

section \<open>Properties\<close>

lemma nvs_ok_rl:
  assumes "nvs_ok g s ps k" "i < w_num_runlists (g_rl g)"
  obtains rl where "get_rl (g_rl g) i = Some rl" "dview (g_rl g) (vnames s ps) k rl"
proof -
  obtain rls where r: "wok (g_rl g) rls" "\<forall>i<length rls. dview (g_rl g) (vnames s ps) k (rls ! i)"
    using assms(1) by (auto simp: nvs_ok_def dom_view_def)
  have "length rls = w_num_runlists (g_rl g)" using r(1) by (simp add: wok_def)
  then show ?thesis using that[of "rls ! i"] r assms(2) get_rl_ok[of "g_rl g" rls i] by (auto simp: wok_def)
qed

lemma nvs_ok_names: "nvs_ok g s ps k \<Longrightarrow> map (\<lambda>p. map_option nd_name (sd_heap (vs_sched s) p)) ps = map Some (vnames s ps)"
  unfolding nvs_ok_def sched_ok_def vnames_def vinfo_def dom_info_def by (auto dest!: equalityD2 simp: subset_iff)

lemma nvs_ok_active:
  assumes ok: "nvs_ok g s ps k" and i: "i < w_num_runlists (g_rl g)"
  shows "active_name (g_rl g) i = do { a \<leftarrow> vs_active_domain s; nvgpu_nvs_domain_get_name g a }"
proof (cases "ps = []")
  case True
  obtain rl where "get_rl (g_rl g) i = Some rl" "dview (g_rl g) (vnames s ps) k rl" by (rule nvs_ok_rl[OF ok i])
  then show ?thesis using True ok by (simp add: active_name_def dview_def vnames_def nvs_ok_def)
next
  case False
  note k = nvs_ok_k[OF ok False]
  obtain v d where d: "vs_doms s (vprivs s ps ! k) = Some v" "vd_parent v = Some (ps ! k)" "sd_heap (vs_sched s) (ps ! k) = Some d"
    "nd_name d = vnames s ps ! k" by (rule nvs_ok_nth[OF ok k])
  have n: "vnames s ps \<noteq> []" using False by (simp add: vnames_def)
  have a: "active_name (g_rl g) i = Some (vnames s ps ! k)"
    using active_name_view[of "g_rl g" "vnames s ps" k i] ok i n by (simp add: nvs_ok_def)
  show ?thesis using a d ok False by (simp add: nvs_ok_def nvgpu_nvs_domain_get_name_def)
qed

text \<open>C34: The domain scheduler and the runlists do not drift apart. From the moment the scheduler is opened over runlists without domains, whatever
  domains are added, deleted, looked up, referenced or released, in whatever order and however often the worker wakes up, with the power on or
  off, the scheduler's list and the list on every runlist hold the same names in the same order, no name twice, and the domain every runlist
  runs is the scheduler's active one. Names have at most 31 characters; allocations may fail anywhere, with one exception
  (\<open>first_add_splits\<close>): while there is no domain, the addition of the first one does not fail on a later runlist after the first runlist has got it.
  In that case the code does drift: the runlists before keep a domain the scheduler does not have.\<close>

theorem nvs_runlists_in_sync:
  assumes "nvs_reach w g" "dom_view w (\<lambda>_. ([], 0))" "0 < w_num_runlists w"
  shows "\<exists>s ps ns. g_scheduler g = Some s \<and> path (sd_heap (vs_sched s)) (sd_domains (vs_sched s)) ps None \<and>
    map (\<lambda>p. map_option nd_name (sd_heap (vs_sched s) p)) ps = map Some ns \<and> distinct ns \<and>
    (\<forall>i<w_num_runlists w. \<exists>rl. get_rl (g_rl g) i = Some rl \<and>
       map (\<lambda>p. map_option rd_name (w_dom (g_rl g) p)) (rl_domains rl) = map Some ns \<and>
       active_name (g_rl g) i = do { a \<leftarrow> vs_active_domain s; nvgpu_nvs_domain_get_name g a })"
proof -
  obtain s ps k where ok: "nvs_ok g s ps k" "w_num_runlists (g_rl g) = w_num_runlists w" "g_scheduler g = Some s"
    using nvs_reach_synced[OF assms] by (rule nvs_syncedE)
  have "\<exists>rl. get_rl (g_rl g) i = Some rl \<and> map (\<lambda>p. map_option rd_name (w_dom (g_rl g) p)) (rl_domains rl) = map Some (vnames s ps) \<and>
      active_name (g_rl g) i = do { a \<leftarrow> vs_active_domain s; nvgpu_nvs_domain_get_name g a }" if i: "i < w_num_runlists w" for i
    using nvs_ok_active[OF ok(1), of i] nvs_ok_rl[OF ok(1), of i] i ok(2) unfolding dview_def by metis
  then show ?thesis using ok nvs_ok_names[OF ok(1)] nvs_ok_distinct[OF ok(1)] unfolding nvs_ok_def sched_ok_def by blast
qed

text \<open>A run over two runlists: open, add two domains, let the timer expire.\<close>

definition demo_open :: open_env where
  "demo_open = \<lparr>oe_oom_scheduler = False, oe_oom_sched = False, oe_worker = None, oe_oom_list = False, oe_oom_logger = False,
     oe_oom_events = False, oe_now = 0, oe_now2 = 0\<rparr>"

definition demo_add :: add_env where
  "demo_add = \<lparr>ae_oom_dom = False, ae_oom_nvs = False, ae_oom_rl = (\<lambda>_ _. False), ae_now = 0, ae_now2 = 0\<rparr>"

definition demo_power :: rl_power where
  "demo_power = \<lparr>pw_off = False, pw_busy = None\<rparr>"

lemma demo_opened:
  obtains g s where "nvgpu_nvs_open demo_open \<lparr>g_scheduler = None, g_rl = demo_rls 0 1\<rparr> = Some (Inr (), g)"
    "g_scheduler g = Some s" "g_rl g = demo_rls 0 1" "vs_active_domain s = None" "sd_domains (vs_sched s) = None" "sd_nr (vs_sched s) = 0"
proof -
  obtain l where l: "nvs_log_init False False 0 = Inr l" by (simp add: nvs_log_init_def)
  obtain l' where "nvs_log_event_op 0 l NVS_EV_CREATE_SCHED 0 = Some l'" using log_event_correct log_init_correct[OF l] by blast
  then show ?thesis using l that by (simp add: nvgpu_nvs_open_def demo_open_def nvs_sched_create_def nvgpu_nvs_worker_poll_init_def)
qed

lemma demo_reach: "\<exists>g1 g2 g3 p. nvgpu_nvs_open demo_open \<lparr>g_scheduler = None, g_rl = demo_rls 0 1\<rparr> = Some (Inr (), g1) \<and>
  nvgpu_nvs_add_domain demo_add demo_power g1 ''a'' 5000000 0 = Some (p, g2) \<and> nvgpu_nvs_worker_wakeup_post_process True demo_power g2 = Some g3 \<and>
  nvs_reach (demo_rls 0 1) g1 \<and> nvs_reach (demo_rls 0 1) g2 \<and> nvs_reach (demo_rls 0 1) g3"
proof -
  obtain g s where g: "nvgpu_nvs_open demo_open \<lparr>g_scheduler = None, g_rl = demo_rls 0 1\<rparr> = Some (Inr (), g)"
    "g_scheduler g = Some s" "g_rl g = demo_rls 0 1" "vs_active_domain s = None" "sd_domains (vs_sched s) = None" "sd_nr (vs_sched s) = 0"
    by (rule demo_opened)
  have n: "0 < w_num_runlists (demo_rls 0 1)" by (simp add: demo_rls_def)
  note r1 = nvs_reach.opened[OF g(1)]
  note y1 = nvs_reach_synced[OF r1 demo_rls_view n]
  have a: "add_request_ok demo_add g ''a''" using g by (simp add: add_request_ok_def first_add_splits_def demo_add_def nvs_domain_count_def)
  obtain r g' where g': "nvgpu_nvs_add_domain demo_add demo_power g ''a'' 5000000 0 = Some (r, g')"
    using nvs_add_synced[OF y1 a] by blast
  note r2 = nvs_reach.added[OF r1 a g']
  obtain g'' where g'': "nvgpu_nvs_worker_wakeup_post_process True demo_power g' = Some g''"
    using nvs_wake_synced[OF nvs_reach_synced[OF r2 demo_rls_view n]] by blast
  show ?thesis using g(1) g' g'' r1 r2 nvs_reach.woken[OF r2 g''] by blast
qed

theorem nvs_runlists_in_sync_witness:
  "\<exists>g1 g2 g3 p. nvgpu_nvs_open demo_open \<lparr>g_scheduler = None, g_rl = demo_rls 0 1\<rparr> = Some (Inr (), g1) \<and>
     nvgpu_nvs_add_domain demo_add demo_power g1 ''a'' 5000000 0 = Some (p, g2) \<and>
     nvgpu_nvs_worker_wakeup_post_process True demo_power g2 = Some g3 \<and> active_name (g_rl g3) 0 = active_name (g_rl g3) 1"
proof -
  obtain g1 g2 g3 p where g: "nvgpu_nvs_open demo_open \<lparr>g_scheduler = None, g_rl = demo_rls 0 1\<rparr> = Some (Inr (), g1)"
    "nvgpu_nvs_add_domain demo_add demo_power g1 ''a'' 5000000 0 = Some (p, g2)"
    "nvgpu_nvs_worker_wakeup_post_process True demo_power g2 = Some g3" "nvs_reach (demo_rls 0 1) g3" using demo_reach by blast
  have "w_num_runlists (demo_rls 0 1) = 2" by (simp add: demo_rls_def)
  then show ?thesis using nvs_runlists_in_sync[OF g(4) demo_rls_view] g(1-3)
    by simp (metis One_nat_def lessI numeral_2_eq_2 zero_less_Suc)
qed

lemma nvs_lookups_ok:
  assumes ok: "nvs_ok g s ps k"
  shows "nvgpu_nvs_domain_by_id g i \<noteq> None" "nvgpu_nvs_domain_by_name g name \<noteq> None"
    "vs_doms s p \<noteq> None \<Longrightarrow> nvgpu_nvs_domain_get g p \<noteq> None \<and> nvgpu_nvs_domain_put g p \<noteq> None"
proof -
  have gs: "g_scheduler g = Some s" and sok: "sched_ok (vs_sched s) ps" using ok by (simp_all add: nvs_ok_def)
  have rf: "\<exists>s'. set_ref p f s = Some s'" if "vs_doms s p \<noteq> None" for p f using set_ref_ok[OF ok, of p] that by blast
  show "nvgpu_nvs_domain_by_id g i \<noteq> None"
  proof (cases rule: by_id_ok[OF ok, of i, case_names none found])
    case (found j v)
    obtain s' where "set_ref (vprivs s ps ! j) (\<lambda>r. wrap32 (r + 1)) s = Some s'" using rf[of "vprivs s ps ! j"] found(3) by blast
    then show ?thesis using gs found(1) by (simp add: nvgpu_nvs_domain_by_id_def)
  qed (simp add: nvgpu_nvs_domain_by_id_def)
  show "nvgpu_nvs_domain_by_name g name \<noteq> None"
  proof (cases "find (\<lambda>q. nd_name (dom_info (sd_heap (vs_sched s)) q) = name) ps")
    case None
    then show ?thesis using by_name_correct[OF sok, of name] gs by (simp add: nvgpu_nvs_domain_by_name_def)
  next
    case (Some q)
    then have "q \<in> set ps" by (metis find_Some_iff nth_mem)
    then obtain j where j: "j < length ps" "ps ! j = q" by (auto simp: in_set_conv_nth)
    obtain v d where d: "vs_doms s (vprivs s ps ! j) = Some v" "sd_heap (vs_sched s) q = Some d" using nvs_ok_nth[OF ok j(1)] j(2) by metis
    have "nd_priv d = vprivs s ps ! j" using d(2) j by (simp add: vprivs_def vinfo_def dom_info_def)
    moreover obtain s' where "set_ref (vprivs s ps ! j) (\<lambda>r. wrap32 (r + 1)) s = Some s'" using rf[of "vprivs s ps ! j"] d(1) by blast
    ultimately show ?thesis using by_name_correct[OF sok, of name] Some gs d by (simp add: nvgpu_nvs_domain_by_name_def)
  qed
  show "vs_doms s p \<noteq> None \<Longrightarrow> nvgpu_nvs_domain_get g p \<noteq> None \<and> nvgpu_nvs_domain_put g p \<noteq> None"
    using gs rf[of p "\<lambda>r. wrap32 (r + 1)"] rf[of p "\<lambda>r. wsub32 r 1"] unfolding nvgpu_nvs_domain_get_def nvgpu_nvs_domain_put_def by auto
qed

text \<open>C35: The operations of the domain scheduler return, in every state of the claim above: adding a domain (other than the request excluded there),
  deleting one, looking one up by identifier or by name, taking and dropping a reference to a domain there is, counting, the step of the worker, and
  the removal of the scheduler. Deleting a domain fails only because there is none with that identifier (\<open>ENOENT\<close>), because someone still refers to
  it (\<open>EBUSY\<close>) or because it is the last one (\<open>EINVAL\<close>), and then changes nothing. The removal frees all the scheduler's own memory of domains,
  the user-visible and the nvsched ones; it leaves the runlists and the domains on them as they are.\<close>

theorem nvs_operations_return:
  assumes "nvs_reach w g" "dom_view w (\<lambda>_. ([], 0))" "0 < w_num_runlists w"
  shows "(add_request_ok env g name \<longrightarrow> nvgpu_nvs_add_domain env pw g name ts gr \<noteq> None) \<and>
    (\<exists>r g'. nvgpu_nvs_del_domain now pw g i = Some (r, g') \<and> (\<forall>e. r = Inl e \<longrightarrow> g' = g \<and> e \<in> {ENOENT, EBUSY, EINVAL})) \<and>
    nvgpu_nvs_domain_by_id g i \<noteq> None \<and> nvgpu_nvs_domain_by_name g name \<noteq> None \<and> nvgpu_nvs_domain_count g \<noteq> None \<and>
    (\<forall>s p. g_scheduler g = Some s \<longrightarrow> vs_doms s p \<noteq> None \<longrightarrow> nvgpu_nvs_domain_get g p \<noteq> None \<and> nvgpu_nvs_domain_put g p \<noteq> None) \<and>
    nvgpu_nvs_worker_wakeup_post_process expired pw g \<noteq> None \<and>
    nvgpu_nvs_remove_support now g = Some (Some (Map.empty, Map.empty), g\<lparr>g_scheduler := None\<rparr>)"
proof -
  note y = nvs_reach_synced[OF assms]
  obtain s ps k where ok: "nvs_ok g s ps k" "g_scheduler g = Some s" using y by (rule nvs_syncedE)
  have "\<exists>r g'. nvgpu_nvs_del_domain now pw g i = Some (r, g') \<and> (\<forall>e. r = Inl e \<longrightarrow> g' = g \<and> e \<in> {ENOENT, EBUSY, EINVAL})"
    using nvs_del_ok[OF ok(1), of now pw i] by (fastforce split: sum.splits simp del: del_view.simps)
  moreover have "add_request_ok env g name \<longrightarrow> nvgpu_nvs_add_domain env pw g name ts gr \<noteq> None" using nvs_add_synced[OF y, of env name pw ts gr] by auto
  moreover have "nvgpu_nvs_worker_wakeup_post_process expired pw g \<noteq> None" using nvs_wake_synced[OF y, of expired pw] by auto
  moreover have "nvgpu_nvs_domain_count g \<noteq> None" using ok(2) by (simp add: nvgpu_nvs_domain_count_def)
  ultimately show ?thesis using nvs_remove_ok[OF y, of now] nvs_lookups_ok[OF ok(1)] ok(2) by auto
qed

theorem nvs_operations_return_witness:
  "\<exists>g1 g2 p. nvgpu_nvs_open demo_open \<lparr>g_scheduler = None, g_rl = demo_rls 0 1\<rparr> = Some (Inr (), g1) \<and>
     nvgpu_nvs_add_domain demo_add demo_power g1 ''a'' 5000000 0 = Some (p, g2) \<and>
     nvgpu_nvs_remove_support 0 g2 = Some (Some (Map.empty, Map.empty), g2\<lparr>g_scheduler := None\<rparr>)"
proof -
  obtain g1 g2 p where g: "nvgpu_nvs_open demo_open \<lparr>g_scheduler = None, g_rl = demo_rls 0 1\<rparr> = Some (Inr (), g1)"
    "nvgpu_nvs_add_domain demo_add demo_power g1 ''a'' 5000000 0 = Some (p, g2)" "nvs_reach (demo_rls 0 1) g2" using demo_reach by blast
  have "0 < w_num_runlists (demo_rls 0 1)" by (simp add: demo_rls_def)
  then show ?thesis using nvs_operations_return[OF g(3) demo_rls_view, of demo_add "''b''" demo_power 0 0 0 0 True] g(1,2) by blast
qed

text \<open>The worker sleeps for the time slice of the domain it switched to, rounded up to milliseconds, when the
  slice is below 2^32 ns. A longer one is cut to 32 bits, so the worker never sleeps longer than 4295 ms, and
  a multiple of 2^32 ns leaves the time-out of the previous domain in force.\<close>

theorem nvs_worker_timeout:
  assumes "nvgpu_nvs_tick pw g = Some (t, g1)" "g_scheduler g1 = Some s1"
  shows "\<exists>s2. nvgpu_nvs_worker_wakeup_post_process True pw g = Some (g1\<lparr>g_scheduler := Some s2\<rparr>) \<and>
    (0 < t \<and> t < 2 ^ 32 \<longrightarrow> t \<le> NSEC_PER_MSEC * vs_current_timeout s2 \<and> NSEC_PER_MSEC * vs_current_timeout s2 < t + NSEC_PER_MSEC) \<and>
    (t mod 2 ^ 32 \<noteq> 0 \<longrightarrow> vs_current_timeout s2 \<le> 4295) \<and> (t mod 2 ^ 32 = 0 \<longrightarrow> s2 = s1)"
proof -
  let ?n = "wrap32 t"
  let ?q = "(?n + NSEC_PER_MSEC - 1) div NSEC_PER_MSEC"
  define s2 where "s2 = (if ?n \<noteq> 0 then s1\<lparr>vs_current_timeout := wrap32 ?q\<rparr> else s1)"
  have n: "?n = t mod 2 ^ 32" "?n < 2 ^ 32" by (simp_all add: wrap32_def)
  have q: "?q \<le> 4295" using n(2) by simp
  then have w: "wrap32 ?q = ?q" by (simp add: wrap32_def)
  have "g1\<lparr>g_scheduler := Some s1\<rparr> = g1" using assms(2) by simp
  then have "nvgpu_nvs_worker_wakeup_post_process True pw g = Some (g1\<lparr>g_scheduler := Some s2\<rparr>)"
    using assms by (simp add: nvgpu_nvs_worker_wakeup_post_process_def Let_def s2_def)
  moreover have "t \<le> NSEC_PER_MSEC * ?q \<and> NSEC_PER_MSEC * ?q < t + NSEC_PER_MSEC" if "0 < t \<and> t < 2 ^ 32"
  proof -
    have e: "?n = t" using that n(1) by simp
    show ?thesis unfolding e
      using that div_mult_mod_eq[of "t + NSEC_PER_MSEC - 1" NSEC_PER_MSEC] mod_less_divisor[of NSEC_PER_MSEC "t + NSEC_PER_MSEC - 1"] by linarith
  qed
  ultimately show ?thesis using n q w by (intro exI[of _ s2]) (auto simp: s2_def)
qed

theorem nvs_worker_timeout_witness:
  "\<exists>g s. nvgpu_nvs_open demo_open \<lparr>g_scheduler = None, g_rl = demo_rls 0 1\<rparr> = Some (Inr (), g) \<and>
     nvgpu_nvs_worker_wakeup_post_process True demo_power g = Some (g\<lparr>g_scheduler := Some s\<rparr>) \<and> vs_current_timeout s = 100"
proof -
  obtain g s where g: "nvgpu_nvs_open demo_open \<lparr>g_scheduler = None, g_rl = demo_rls 0 1\<rparr> = Some (Inr (), g)"
    "g_scheduler g = Some s" "vs_active_domain s = None" by (rule demo_opened)
  have "nvgpu_nvs_tick demo_power g = Some (100 * NSEC_PER_MSEC, g)" using g by (simp add: nvgpu_nvs_tick_def)
  from nvs_worker_timeout[OF this g(2)] obtain s2 where s2:
    "nvgpu_nvs_worker_wakeup_post_process True demo_power g = Some (g\<lparr>g_scheduler := Some s2\<rparr>)"
    "100 * NSEC_PER_MSEC \<le> NSEC_PER_MSEC * vs_current_timeout s2" "NSEC_PER_MSEC * vs_current_timeout s2 < 100 * NSEC_PER_MSEC + NSEC_PER_MSEC" by auto
  then have "vs_current_timeout s2 = 100" by linarith
  then show ?thesis using g(1) s2(1) by blast
qed

end
