(* ===== verification/Rbtree.thy ===== *)
theory Rbtree
  imports Nvgpu_Prelude
begin

text \<open>
  The red-black tree of the driver, \<^verbatim>\<open>common/utils/rbtree.c\<close>, on a store of nodes with parent, left and right
  pointers. The nodes are embedded in the objects of the clients, which allocate them; a pointer is \<open>None\<close>
  (\<open>NULL\<close>) or the address of a node. Every access through a pointer is written out, in the order of the
  code, and stops the machine when the pointer is null or dangling.
\<close>

section \<open>Nodes and accesses\<close>

type_synonym ptr = "nat option"

record nvgpu_rbtree_node =
  key_start :: u64
  key_end :: u64
  is_red :: bool
  parent :: ptr
  left :: ptr
  right :: ptr

record rbtree =
  rb_heap :: "nat \<rightharpoonup> nvgpu_rbtree_node"
  rb_root :: ptr

definition rd :: "(nvgpu_rbtree_node \<Rightarrow> 'a) \<Rightarrow> rbtree \<Rightarrow> ptr \<Rightarrow> 'a option" where
  "rd f s p = do { a \<leftarrow> p; n \<leftarrow> rb_heap s a; Some (f n) }"

definition wr :: "(nvgpu_rbtree_node \<Rightarrow> nvgpu_rbtree_node) \<Rightarrow> rbtree \<Rightarrow> ptr \<Rightarrow> rbtree option" where
  "wr f s p = do { a \<leftarrow> p; n \<leftarrow> rb_heap s a; Some (s\<lparr>rb_heap := (rb_heap s)(a \<mapsto> f n)\<rparr>) }"

abbreviation set_left :: "ptr \<Rightarrow> nvgpu_rbtree_node \<Rightarrow> nvgpu_rbtree_node" where "set_left q n \<equiv> n\<lparr>left := q\<rparr>"
abbreviation set_right :: "ptr \<Rightarrow> nvgpu_rbtree_node \<Rightarrow> nvgpu_rbtree_node" where "set_right q n \<equiv> n\<lparr>right := q\<rparr>"
abbreviation set_parent :: "ptr \<Rightarrow> nvgpu_rbtree_node \<Rightarrow> nvgpu_rbtree_node" where "set_parent q n \<equiv> n\<lparr>parent := q\<rparr>"
abbreviation set_red :: "bool \<Rightarrow> nvgpu_rbtree_node \<Rightarrow> nvgpu_rbtree_node" where "set_red c n \<equiv> n\<lparr>is_red := c\<rparr>"

section \<open>Rotations\<close>

definition rotate_left :: "rbtree \<Rightarrow> ptr \<Rightarrow> rbtree option" where
  "rotate_left s x =
     do {
       y \<leftarrow> rd right s x;
       yl \<leftarrow> rd left s y;
       s \<leftarrow> wr (set_right yl) s x;
       yl \<leftarrow> rd left s y;
       s \<leftarrow> (if yl \<noteq> None then wr (set_parent x) s yl else Some s);
       xp \<leftarrow> rd parent s x;
       s \<leftarrow> wr (set_parent xp) s y;
       xp \<leftarrow> rd parent s x;
       s \<leftarrow> (if xp \<noteq> None
              then do {
                xpl \<leftarrow> rd left s xp;
                if x = xpl then wr (set_left y) s xp else wr (set_right y) s xp }
              else Some (s\<lparr>rb_root := y\<rparr>));
       s \<leftarrow> wr (set_left x) s y;
       wr (set_parent y) s x }"

definition rotate_right :: "rbtree \<Rightarrow> ptr \<Rightarrow> rbtree option" where
  "rotate_right s x =
     do {
       y \<leftarrow> rd left s x;
       yr \<leftarrow> rd right s y;
       s \<leftarrow> wr (set_left yr) s x;
       yr \<leftarrow> rd right s y;
       s \<leftarrow> (if yr \<noteq> None then wr (set_parent x) s yr else Some s);
       xp \<leftarrow> rd parent s x;
       s \<leftarrow> wr (set_parent xp) s y;
       xp \<leftarrow> rd parent s x;
       s \<leftarrow> (if xp \<noteq> None
              then do {
                xpr \<leftarrow> rd right s xp;
                if x = xpr then wr (set_right y) s xp else wr (set_left y) s xp }
              else Some (s\<lparr>rb_root := y\<rparr>));
       s \<leftarrow> wr (set_right x) s y;
       wr (set_parent y) s x }"

section \<open>Insertion\<close>

text \<open>The body of the loop of \<open>insert_fixup\<close>: the new \<open>x\<close> and the store.\<close>

definition insert_fixup_step :: "rbtree \<Rightarrow> ptr \<Rightarrow> (ptr \<times> rbtree) option" where
  "insert_fixup_step s x =
     do {
       xp \<leftarrow> rd parent s x;
       xpp \<leftarrow> rd parent s xp;
       xppl \<leftarrow> rd left s xpp;
       if xp = xppl
       then do {
         y \<leftarrow> rd right s xpp;
         y_red \<leftarrow> (if y \<noteq> None then rd is_red s y else Some False);
         if y_red
         then do {
           s \<leftarrow> wr (set_red False) s xp;
           s \<leftarrow> wr (set_red False) s y;
           s \<leftarrow> wr (set_red True) s xpp;
           Some (xpp, s) }
         else do {
           xpr \<leftarrow> rd right s xp;
           (x, s) \<leftarrow> (if x = xpr then do { s \<leftarrow> rotate_left s xp; Some (xp, s) } else Some (x, s));
           xp \<leftarrow> rd parent s x;
           s \<leftarrow> wr (set_red False) s xp;
           xpp \<leftarrow> rd parent s xp;
           s \<leftarrow> wr (set_red True) s xpp;
           s \<leftarrow> rotate_right s xpp;
           Some (x, s) } }
       else do {
         y \<leftarrow> rd left s xpp;
         y_red \<leftarrow> (if y \<noteq> None then rd is_red s y else Some False);
         if y_red
         then do {
           s \<leftarrow> wr (set_red False) s xp;
           s \<leftarrow> wr (set_red False) s y;
           s \<leftarrow> wr (set_red True) s xpp;
           Some (xpp, s) }
         else do {
           xpl \<leftarrow> rd left s xp;
           (x, s) \<leftarrow> (if x = xpl then do { s \<leftarrow> rotate_right s xp; Some (xp, s) } else Some (x, s));
           xp \<leftarrow> rd parent s x;
           s \<leftarrow> wr (set_red False) s xp;
           xpp \<leftarrow> rd parent s xp;
           s \<leftarrow> wr (set_red True) s xpp;
           s \<leftarrow> rotate_left s xpp;
           Some (x, s) } } }"

partial_function (option) insert_fixup :: "rbtree \<Rightarrow> ptr \<Rightarrow> rbtree option" where
  "insert_fixup s x =
     Option.bind (if x \<noteq> rb_root s then Option.bind (rd parent s x) (rd is_red s) else Some False) (\<lambda>violation.
       if violation
       then Option.bind (insert_fixup_step s x) (\<lambda>(x, s). insert_fixup s x)
       else wr (set_red False) s (rb_root s))"

text \<open>The descent to the place of a key: \<open>Inl\<close> when the key is there, otherwise the future parent.\<close>

partial_function (option) insert_find :: "rbtree \<Rightarrow> u64 \<Rightarrow> ptr \<Rightarrow> ptr \<Rightarrow> (unit + ptr) option" where
  "insert_find s k cur par =
     (if cur \<noteq> None
      then Option.bind (rd key_start s cur) (\<lambda>ck.
        if k < ck then Option.bind (rd left s cur) (\<lambda>l. insert_find s k l cur)
        else if k > ck then Option.bind (rd right s cur) (\<lambda>r. insert_find s k r cur)
        else Some (Inl ()))
      else Some (Inr par))"

definition nvgpu_rbtree_insert :: "rbtree \<Rightarrow> ptr \<Rightarrow> rbtree option" where
  "nvgpu_rbtree_insert s new_node =
     do {
       k \<leftarrow> rd key_start s new_node;
       found \<leftarrow> insert_find s k (rb_root s) None;
       (case found of
          Inl _ \<Rightarrow> Some s
        | Inr par \<Rightarrow> do {
            s \<leftarrow> wr (set_parent par) s new_node;
            s \<leftarrow> wr (set_left None) s new_node;
            s \<leftarrow> wr (set_right None) s new_node;
            s \<leftarrow> wr (set_red True) s new_node;
            s \<leftarrow> (if par \<noteq> None
                   then do {
                     k \<leftarrow> rd key_start s new_node;
                     pk \<leftarrow> rd key_start s par;
                     if k < pk then wr (set_left new_node) s par else wr (set_right new_node) s par }
                   else Some (s\<lparr>rb_root := new_node\<rparr>));
            insert_fixup s new_node }) }"

section \<open>Removal\<close>

definition black_child :: "(nvgpu_rbtree_node \<Rightarrow> ptr) \<Rightarrow> rbtree \<Rightarrow> ptr \<Rightarrow> bool option" where
  "black_child side s w =
     do { c \<leftarrow> rd side s w; if c = None then Some True else do { r \<leftarrow> rd is_red s c; Some (\<not> r) } }"

definition has_no_red_children :: "rbtree \<Rightarrow> ptr \<Rightarrow> bool option" where
  "has_no_red_children s w =
     (if w = None then Some True
      else do { l \<leftarrow> black_child left s w; if l then black_child right s w else Some False })"

definition delete_fixup_left_child :: "rbtree \<Rightarrow> ptr \<Rightarrow> (ptr \<times> rbtree) option" where
  "delete_fixup_left_child s parent_of_x =
     do {
       w \<leftarrow> rd right s parent_of_x;
       w_red \<leftarrow> (if w \<noteq> None then rd is_red s w else Some False);
       (w, s) \<leftarrow>
         (if w_red
          then do {
            s \<leftarrow> wr (set_red False) s w;
            s \<leftarrow> wr (set_red True) s parent_of_x;
            s \<leftarrow> rotate_left s parent_of_x;
            w \<leftarrow> rd right s parent_of_x;
            Some (w, s) }
          else Some (w, s));
       no_red \<leftarrow> has_no_red_children s w;
       if no_red
       then do {
         s \<leftarrow> (if w \<noteq> None then wr (set_red True) s w else Some s);
         Some (parent_of_x, s) }
       else do {
         far_black \<leftarrow> black_child right s w;
         (w, s) \<leftarrow>
           (if far_black
            then do {
              wl \<leftarrow> rd left s w;
              s \<leftarrow> wr (set_red False) s wl;
              s \<leftarrow> wr (set_red True) s w;
              s \<leftarrow> rotate_right s w;
              w \<leftarrow> rd right s parent_of_x;
              Some (w, s) }
            else Some (w, s));
         c \<leftarrow> rd is_red s parent_of_x;
         s \<leftarrow> wr (set_red c) s w;
         s \<leftarrow> wr (set_red False) s parent_of_x;
         wr' \<leftarrow> rd right s w;
         s \<leftarrow> wr (set_red False) s wr';
         s \<leftarrow> rotate_left s parent_of_x;
         Some (rb_root s, s) } }"

definition delete_fixup_right_child :: "rbtree \<Rightarrow> ptr \<Rightarrow> (ptr \<times> rbtree) option" where
  "delete_fixup_right_child s parent_of_x =
     do {
       w \<leftarrow> rd left s parent_of_x;
       w_red \<leftarrow> (if w \<noteq> None then rd is_red s w else Some False);
       (w, s) \<leftarrow>
         (if w_red
          then do {
            s \<leftarrow> wr (set_red False) s w;
            s \<leftarrow> wr (set_red True) s parent_of_x;
            s \<leftarrow> rotate_right s parent_of_x;
            w \<leftarrow> rd left s parent_of_x;
            Some (w, s) }
          else Some (w, s));
       no_red \<leftarrow> has_no_red_children s w;
       if no_red
       then do {
         s \<leftarrow> (if w \<noteq> None then wr (set_red True) s w else Some s);
         Some (parent_of_x, s) }
       else do {
         far_black \<leftarrow> black_child left s w;
         (w, s) \<leftarrow>
           (if far_black
            then do {
              w_r \<leftarrow> rd right s w;
              s \<leftarrow> wr (set_red False) s w_r;
              s \<leftarrow> wr (set_red True) s w;
              s \<leftarrow> rotate_left s w;
              w \<leftarrow> rd left s parent_of_x;
              Some (w, s) }
            else Some (w, s));
         c \<leftarrow> rd is_red s parent_of_x;
         s \<leftarrow> wr (set_red c) s w;
         s \<leftarrow> wr (set_red False) s parent_of_x;
         wl \<leftarrow> rd left s w;
         s \<leftarrow> wr (set_red False) s wl;
         s \<leftarrow> rotate_right s parent_of_x;
         Some (rb_root s, s) } }"

partial_function (option) delete_fixup :: "rbtree \<Rightarrow> ptr \<Rightarrow> ptr \<Rightarrow> rbtree option" where
  "delete_fixup s parent_of_x x =
     Option.bind (if x = rb_root s then Some False else if x = None then Some True else map_option Not (rd is_red s x)) (\<lambda>continue.
       if continue
       then (if parent_of_x = None
             then Option.bind (rd parent s x) (\<lambda>p. delete_fixup s p x)
             else Option.bind (rd left s parent_of_x) (\<lambda>l.
               Option.bind (if x = l then delete_fixup_left_child s parent_of_x else delete_fixup_right_child s parent_of_x) (\<lambda>(x, s).
                 Option.bind (rd parent s x) (\<lambda>p. delete_fixup s p x))))
       else if x \<noteq> None then wr (set_red False) s x else Some s)"

definition swap_in_new_child :: "rbtree \<Rightarrow> ptr \<Rightarrow> ptr \<Rightarrow> rbtree option" where
  "swap_in_new_child s old new =
     do {
       p \<leftarrow> rd parent s old;
       if p \<noteq> None
       then do { l \<leftarrow> rd left s p; if old = l then wr (set_left new) s p else wr (set_right new) s p }
       else Some (s\<lparr>rb_root := new\<rparr>) }"

definition adopt_children :: "rbtree \<Rightarrow> ptr \<Rightarrow> ptr \<Rightarrow> rbtree option" where
  "adopt_children s old new =
     do {
       l \<leftarrow> rd left s old;
       s \<leftarrow> wr (set_left l) s new;
       l \<leftarrow> rd left s old;
       s \<leftarrow> (if l \<noteq> None then wr (set_parent new) s l else Some s);
       r \<leftarrow> rd right s old;
       s \<leftarrow> wr (set_right r) s new;
       r \<leftarrow> rd right s old;
       if r \<noteq> None then wr (set_parent new) s r else Some s }"

text \<open>The leftmost node below \<open>y\<close>.\<close>

partial_function (option) leftmost :: "rbtree \<Rightarrow> ptr \<Rightarrow> ptr option" where
  "leftmost s y = Option.bind (rd left s y) (\<lambda>l. if l \<noteq> None then leftmost s l else Some y)"

definition nvgpu_rbtree_unlink :: "rbtree \<Rightarrow> ptr \<Rightarrow> rbtree option" where
  "nvgpu_rbtree_unlink s z =
     do {
       zl \<leftarrow> rd left s z;
       zr \<leftarrow> rd right s z;
       y \<leftarrow> (if zl = None \<or> zr = None then Some z else leftmost s zr);
       yl \<leftarrow> rd left s y;
       yr \<leftarrow> rd right s y;
       let x = (if yl \<noteq> None then yl else yr);
       parent_of_x \<leftarrow> rd parent s y;
       s \<leftarrow> (if x \<noteq> None then wr (set_parent parent_of_x) s x else Some s);
       s \<leftarrow> swap_in_new_child s y x;
       y_red \<leftarrow> rd is_red s y;
       let y_was_black = (\<not> y_red);
       (parent_of_x, s) \<leftarrow>
         (if y \<noteq> z
          then do {
            zp \<leftarrow> rd parent s z;
            s \<leftarrow> wr (set_parent zp) s y;
            s \<leftarrow> swap_in_new_child s z y;
            z_red \<leftarrow> rd is_red s z;
            s \<leftarrow> wr (set_red z_red) s y;
            s \<leftarrow> adopt_children s z y;
            Some (if parent_of_x = z then y else parent_of_x, s) }
          else Some (parent_of_x, s));
       if y_was_black then delete_fixup s parent_of_x x else Some s }"

section \<open>Searching\<close>

partial_function (option) rb_search :: "rbtree \<Rightarrow> u64 \<Rightarrow> ptr \<Rightarrow> ptr option" where
  "rb_search s k cur =
     (if cur \<noteq> None
      then Option.bind (rd key_start s cur) (\<lambda>ck.
        if k < ck then Option.bind (rd left s cur) (rb_search s k)
        else if k > ck then Option.bind (rd right s cur) (rb_search s k)
        else Some cur)
      else Some None)"

definition nvgpu_rbtree_search :: "rbtree \<Rightarrow> u64 \<Rightarrow> ptr option" where
  "nvgpu_rbtree_search s k = rb_search s k (rb_root s)"

partial_function (option) rb_range_search :: "rbtree \<Rightarrow> u64 \<Rightarrow> ptr \<Rightarrow> ptr option" where
  "rb_range_search s k cur =
     (if cur \<noteq> None
      then Option.bind (rd key_start s cur) (\<lambda>ks. Option.bind (rd key_end s cur) (\<lambda>ke.
        if k \<ge> ks \<and> k < ke then Some cur
        else if k < ks then Option.bind (rd left s cur) (rb_range_search s k)
        else Option.bind (rd right s cur) (rb_range_search s k)))
      else Some None)"

definition nvgpu_rbtree_range_search :: "rbtree \<Rightarrow> u64 \<Rightarrow> ptr option" where
  "nvgpu_rbtree_range_search s k = rb_range_search s k (rb_root s)"

text \<open>\<open>node\<close> is what the variable of the caller holds: it keeps it when there is no smaller key.\<close>

partial_function (option) rb_less_than :: "rbtree \<Rightarrow> u64 \<Rightarrow> ptr \<Rightarrow> ptr \<Rightarrow> ptr option" where
  "rb_less_than s k cur node =
     (if cur \<noteq> None
      then Option.bind (rd key_start s cur) (\<lambda>ck.
        if k \<le> ck then Option.bind (rd left s cur) (\<lambda>l. rb_less_than s k l node)
        else Option.bind (rd right s cur) (\<lambda>r. rb_less_than s k r cur))
      else Some node)"

definition nvgpu_rbtree_less_than_search :: "rbtree \<Rightarrow> u64 \<Rightarrow> ptr \<Rightarrow> ptr option" where
  "nvgpu_rbtree_less_than_search s k node = rb_less_than s k (rb_root s) node"

partial_function (option) rb_enum_start :: "rbtree \<Rightarrow> u64 \<Rightarrow> ptr \<Rightarrow> ptr \<Rightarrow> ptr option" where
  "rb_enum_start s k cur node =
     (if cur \<noteq> None
      then Option.bind (rd key_start s cur) (\<lambda>ck.
        if k < ck then Option.bind (rd left s cur) (\<lambda>l. rb_enum_start s k l cur)
        else if k > ck then Option.bind (rd right s cur) (\<lambda>r. rb_enum_start s k r node)
        else Some cur)
      else Some node)"

definition nvgpu_rbtree_enum_start :: "rbtree \<Rightarrow> u64 \<Rightarrow> ptr option" where
  "nvgpu_rbtree_enum_start s k = rb_enum_start s k (rb_root s) None"

text \<open>Up from \<open>cur\<close> to the first node with a greater key.\<close>

partial_function (option) climb :: "rbtree \<Rightarrow> u64 \<Rightarrow> ptr \<Rightarrow> ptr option" where
  "climb s k cur =
     (if cur \<noteq> None
      then Option.bind (rd key_start s cur) (\<lambda>ck.
        if ck > k then Some cur else Option.bind (rd parent s cur) (climb s k))
      else Some None)"

definition nvgpu_rbtree_enum_next :: "rbtree \<Rightarrow> ptr \<Rightarrow> ptr option" where
  "nvgpu_rbtree_enum_next s node =
     (if rb_root s \<noteq> None \<and> node \<noteq> None
      then do {
        r \<leftarrow> rd right s node;
        if r \<noteq> None then leftmost s r
        else do { k \<leftarrow> rd key_start s node; p \<leftarrow> rd parent s node; climb s k p } }
      else Some None)"

end
