(* ===== verification/Rbtree_Proofs.thy ===== *)
theory Rbtree_Proofs
  imports Rbtree "HOL-Library.Multiset"
begin

text \<open>
  The store of \<open>Rbtree\<close> seen as a tree: the shape a store represents, a position in it as a path of frames
  to the root, what the writes and the rotations do to the shape, and that insertion and removal keep the
  sequence of nodes ordered and the tree balanced.
\<close>

section \<open>Shapes\<close>

text \<open>A node is its address with its two keys.\<close>

type_synonym item = "nat \<times> u64 \<times> u64"

datatype rbt = Lf | Nd bool rbt item rbt

datatype dir = L | R

datatype frame = Fr dir bool item rbt

fun nd :: "dir \<Rightarrow> bool \<Rightarrow> rbt \<Rightarrow> item \<Rightarrow> rbt \<Rightarrow> rbt" where
  "nd L c t x u = Nd c t x u"
| "nd R c t x u = Nd c u x t"

fun plug :: "frame list \<Rightarrow> rbt \<Rightarrow> rbt" where
  "plug [] t = t"
| "plug (Fr d c x u # fs) t = plug fs (nd d c t x u)"

fun ptr :: "rbt \<Rightarrow> ptr" where
  "ptr Lf = None"
| "ptr (Nd c l x r) = Some (fst x)"

fun cpar :: "frame list \<Rightarrow> ptr" where
  "cpar [] = None"
| "cpar (Fr d c x u # fs) = Some (fst x)"

fun croot :: "ptr \<Rightarrow> frame list \<Rightarrow> ptr" where
  "croot p [] = p"
| "croot p (Fr d c x u # fs) = croot (Some (fst x)) fs"

fun addrs :: "rbt \<Rightarrow> nat list" where
  "addrs Lf = []"
| "addrs (Nd c l x r) = fst x # addrs l @ addrs r"

fun caddrs :: "frame list \<Rightarrow> nat list" where
  "caddrs [] = []"
| "caddrs (Fr d c x u # fs) = fst x # addrs u @ caddrs fs"

fun inorder :: "rbt \<Rightarrow> item list" where
  "inorder Lf = []"
| "inorder (Nd c l x r) = inorder l @ x # inorder r"

section \<open>Stores that represent a shape\<close>

definition node :: "item \<Rightarrow> bool \<Rightarrow> ptr \<Rightarrow> ptr \<Rightarrow> ptr \<Rightarrow> nvgpu_rbtree_node" where
  "node x c p l r = \<lparr>key_start = fst (snd x), key_end = snd (snd x), is_red = c, parent = p, left = l, right = r\<rparr>"

lemma node_simps [simp]:
  "key_start (node x c p l r) = fst (snd x)" "key_end (node x c p l r) = snd (snd x)" "is_red (node x c p l r) = c"
  "parent (node x c p l r) = p" "left (node x c p l r) = l" "right (node x c p l r) = r"
  "set_red c' (node x c p l r) = node x c' p l r" "set_parent q (node x c p l r) = node x c q l r"
  "set_left q (node x c p l r) = node x c p q r" "set_right q (node x c p l r) = node x c p l q"
  by (simp_all add: node_def)

fun lay :: "ptr \<Rightarrow> rbt \<Rightarrow> (nat \<times> nvgpu_rbtree_node) list" where
  "lay p Lf = []"
| "lay p (Nd c l x r) = (fst x, node x c p (ptr l) (ptr r)) # lay (Some (fst x)) l @ lay (Some (fst x)) r"

fun layc :: "ptr \<Rightarrow> frame list \<Rightarrow> (nat \<times> nvgpu_rbtree_node) list" where
  "layc p [] = []"
| "layc p (Fr d c x u # fs) =
     (fst x, node x c (cpar fs) (case d of L \<Rightarrow> p | R \<Rightarrow> ptr u) (case d of L \<Rightarrow> ptr u | R \<Rightarrow> p)) #
     lay (Some (fst x)) u @ layc (Some (fst x)) fs"

definition holds :: "(nat \<rightharpoonup> nvgpu_rbtree_node) \<Rightarrow> (nat \<times> nvgpu_rbtree_node) list \<Rightarrow> bool" where
  "holds h xs \<longleftrightarrow> (\<forall>p\<in>set xs. h (fst p) = Some (snd p))"

lemma holds_simps [simp]:
  "holds h []" "holds h (p # xs) \<longleftrightarrow> h (fst p) = Some (snd p) \<and> holds h xs" "holds h (xs @ ys) \<longleftrightarrow> holds h xs \<and> holds h ys"
  by (auto simp: holds_def)

lemma lay_addrs: "map fst (lay p t) = addrs t"
  by (induction t arbitrary: p) auto

lemma layc_addrs: "map fst (layc p fs) = caddrs fs"
  by (induction p fs rule: layc.induct) (auto simp: lay_addrs)

lemma holds_upd: "a \<notin> fst ` set xs \<Longrightarrow> holds (h(a := v)) xs = holds h xs"
  by (force simp: holds_def)

lemma holds_upd_lay [simp]: "a \<notin> set (addrs t) \<Longrightarrow> holds (h(a := v)) (lay p t) = holds h (lay p t)"
  using arg_cong[OF lay_addrs[of p t], of set] by (simp add: holds_upd)

lemma holds_upd_layc [simp]: "a \<notin> set (caddrs fs) \<Longrightarrow> holds (h(a := v)) (layc p fs) = holds h (layc p fs)"
  using arg_cong[OF layc_addrs[of p fs], of set] by (simp add: holds_upd)

lemma ptr_in [simp]: "a \<notin> set (addrs t) \<Longrightarrow> ptr t \<noteq> Some a" "a \<notin> set (addrs t) \<Longrightarrow> Some a \<noteq> ptr t"
  by (cases t; simp)+

text \<open>The store \<open>s\<close> has the tree \<open>t\<close> below the frames \<open>fs\<close>; \<open>Q\<close> is what it holds elsewhere.\<close>

definition zrep :: "(nat \<rightharpoonup> nvgpu_rbtree_node) \<Rightarrow> rbtree \<Rightarrow> frame list \<Rightarrow> rbt \<Rightarrow> bool" where
  "zrep Q s fs t \<longleftrightarrow> holds (rb_heap s) (lay (cpar fs) t) \<and> holds (rb_heap s) (layc (ptr t) fs) \<and>
     rb_root s = croot (ptr t) fs \<and> distinct (addrs t @ caddrs fs) \<and>
     (\<forall>a. a \<notin> set (addrs t @ caddrs fs) \<longrightarrow> rb_heap s a = Q a)"

abbreviation rep :: "(nat \<rightharpoonup> nvgpu_rbtree_node) \<Rightarrow> rbtree \<Rightarrow> rbt \<Rightarrow> bool" where
  "rep Q s t \<equiv> zrep Q s [] t"

lemma zrep_up: "zrep Q s (Fr d c x u # fs) t \<longleftrightarrow> zrep Q s fs (nd d c t x u)"
  by (cases d) (auto simp: zrep_def)

lemma zrep_plug: "zrep Q s fs t \<longleftrightarrow> rep Q s (plug fs t)"
  by (induction fs t rule: plug.induct) (auto simp: zrep_up)

lemma zrep_up_L: "zrep Q s fs (Nd c l x r) \<longleftrightarrow> zrep Q s (Fr L c x r # fs) l" by (simp add: zrep_up)

lemma zrep_up_R: "zrep Q s fs (Nd c l x r) \<longleftrightarrow> zrep Q s (Fr R c x l # fs) r" by (simp add: zrep_up)

lemma rd_simps [simp]: "rd f s None = None" "rd f s (Some a) = map_option f (rb_heap s a)"
  by (auto simp: rd_def map_option_case split: Option.bind_split)

lemma wr_simps [simp]:
  "wr f s None = None" "wr f s (Some a) = (case rb_heap s a of None \<Rightarrow> None | Some n \<Rightarrow> Some (s\<lparr>rb_heap := (rb_heap s)(a \<mapsto> f n)\<rparr>))"
  by (auto simp: wr_def split: Option.bind_split option.splits)

section \<open>Colours and rotations\<close>

lemma zrep_here: "zrep Q s fs (Nd c l x r) \<Longrightarrow> rb_heap s (fst x) = Some (node x c (cpar fs) (ptr l) (ptr r))"
  by (simp add: zrep_def)

lemma zrep_red:
  assumes "zrep Q s fs (Nd c l x r)"
  obtains s' where "wr (set_red c') s (Some (fst x)) = Some s'" "zrep Q s' fs (Nd c' l x r)"
  using assms by (auto simp: zrep_def)

lemma rotate_left_ok:
  assumes "zrep Q s fs (Nd c A x (Nd c' B y C))"
  obtains s' where "rotate_left s (Some (fst x)) = Some s'" "zrep Q s' fs (Nd c' (Nd c A x B) y C)"
proof -
  have "\<exists>s'. rotate_left s (Some (fst x)) = Some s' \<and> zrep Q s' fs (Nd c' (Nd c A x B) y C)"
  proof (cases fs)
    case Nil
    then show ?thesis using assms by (cases B) (auto simp: zrep_def rotate_left_def)
  next
    case (Cons f fs')
    obtain d e z u where f: "f = Fr d e z u" by (cases f)
    show ?thesis using assms unfolding Cons f by (cases B; cases d) (auto simp: zrep_def rotate_left_def)
  qed
  then show ?thesis using that by blast
qed

lemma rotate_right_ok:
  assumes "zrep Q s fs (Nd c' (Nd c A x B) y C)"
  obtains s' where "rotate_right s (Some (fst y)) = Some s'" "zrep Q s' fs (Nd c A x (Nd c' B y C))"
proof -
  have "\<exists>s'. rotate_right s (Some (fst y)) = Some s' \<and> zrep Q s' fs (Nd c A x (Nd c' B y C))"
  proof (cases fs)
    case Nil
    then show ?thesis using assms by (cases B) (auto simp: zrep_def rotate_right_def)
  next
    case (Cons f fs')
    obtain d e z u where f: "f = Fr d e z u" by (cases f)
    show ?thesis using assms unfolding Cons f by (cases B; cases d) (auto simp: zrep_def rotate_right_def)
  qed
  then show ?thesis using that by blast
qed

section \<open>Balance\<close>

fun red :: "rbt \<Rightarrow> bool" where
  "red Lf = False"
| "red (Nd c l x r) = c"

fun bh :: "rbt \<Rightarrow> nat" where
  "bh Lf = 0"
| "bh (Nd c l x r) = bh l + (if c then 0 else 1)"

fun rb :: "rbt \<Rightarrow> bool" where
  "rb Lf = True"
| "rb (Nd c l x r) \<longleftrightarrow> rb l \<and> rb r \<and> bh l = bh r \<and> (c \<longrightarrow> \<not> red l \<and> \<not> red r)"

fun cred :: "frame list \<Rightarrow> bool" where
  "cred [] = False"
| "cred (Fr d c x u # fs) = c"

text \<open>Frames into which a tree of black height \<open>n\<close> fits.\<close>

fun cok :: "frame list \<Rightarrow> nat \<Rightarrow> bool" where
  "cok [] n = True"
| "cok (Fr d c x u # fs) n \<longleftrightarrow> rb u \<and> bh u = n \<and> (c \<longrightarrow> \<not> red u \<and> \<not> cred fs \<and> fs \<noteq> []) \<and> cok fs (if c then n else Suc n)"

fun blacken :: "rbt \<Rightarrow> rbt" where
  "blacken Lf = Lf"
| "blacken (Nd c l x r) = Nd False l x r"

lemma blacken_simps [simp]:
  "inorder (blacken t) = inorder t" "rb t \<Longrightarrow> rb (blacken t)" "\<not> red (blacken t)" "\<not> red t \<Longrightarrow> blacken t = t"
  by (cases t; simp)+

lemma nd_simps [simp]:
  "red (nd d c t x u) = c" "ptr (nd d c t x u) = Some (fst x)" "nd d c t x u \<noteq> Lf"
  by (cases d; simp)+

lemma rb_nd: "rb (nd d c t x u) \<longleftrightarrow> rb t \<and> rb u \<and> bh t = bh u \<and> (c \<longrightarrow> \<not> red t \<and> \<not> red u)"
  by (cases d) auto

lemma bh_nd: "bh t = bh u \<Longrightarrow> bh (nd d c t x u) = bh u + (if c then 0 else 1)"
  by (cases d) auto

lemma rb_plug: "cok fs (bh t) \<Longrightarrow> rb t \<Longrightarrow> (red t \<Longrightarrow> \<not> cred fs) \<Longrightarrow> rb (plug fs t)"
proof (induction fs t rule: plug.induct)
  case (2 d c x u fs t)
  have b: "bh (nd d c t x u) = (if c then bh t else Suc (bh t))" using "2.prems"(1) by (simp add: bh_nd)
  have "rb (plug fs (nd d c t x u))"
    by (rule "2.IH") (use "2.prems" b in \<open>auto simp: rb_nd split: if_splits\<close>)
  then show ?case by simp
qed simp

lemma plug_Lf: "plug fs t = Lf \<longleftrightarrow> fs = [] \<and> t = Lf"
  by (induction fs t rule: plug.induct) auto

lemma red_plug: "cok fs n \<Longrightarrow> fs \<noteq> [] \<Longrightarrow> \<not> red (plug fs t)"
proof (induction fs t arbitrary: n rule: plug.induct)
  case (2 d c x u fs t)
  then show ?case by (cases fs) auto
qed simp

lemma inorder_nd: "inorder t = inorder t' \<Longrightarrow> inorder (nd d c t x u) = inorder (nd d c' t' x u)"
  by (cases d) auto

lemma inorder_plug: "inorder t = inorder t' \<Longrightarrow> inorder (plug fs t) = inorder (plug fs t')"
proof (induction fs t arbitrary: t' rule: plug.induct)
  case (2 d c x u fs t)
  show ?case using "2.IH"[OF inorder_nd[OF "2.prems"], of c] by simp
qed simp

section \<open>Restoring the balance after an insertion\<close>

lemma fixup_rotate_right:
  assumes "zrep Q s (Fr L c2 g u # fs) (Nd c1 (Nd c A x B) y C)"
  shows "\<exists>s'. do { xp \<leftarrow> rd parent s (Some (fst x)); s \<leftarrow> wr (set_red False) s xp; xpp \<leftarrow> rd parent s xp; s \<leftarrow> wr (set_red True) s xpp;
      s \<leftarrow> rotate_right s xpp; Some (Some (fst x), s) } = Some (Some (fst x), s') \<and>
    zrep Q s' fs (Nd False (Nd c A x B) y (Nd True C g u))"
proof -
  have x: "rd parent s (Some (fst x)) = Some (Some (fst y))"
    using zrep_here[of Q s "Fr L c1 y C # Fr L c2 g u # fs" c A x B] assms by (simp add: zrep_up)
  obtain s1 where s1: "wr (set_red False) s (Some (fst y)) = Some s1" "zrep Q s1 (Fr L c2 g u # fs) (Nd False (Nd c A x B) y C)"
    by (rule zrep_red[OF assms])
  have y: "rd parent s1 (Some (fst y)) = Some (Some (fst g))" using zrep_here[OF s1(2)] by simp
  obtain s2 where s2: "wr (set_red True) s1 (Some (fst g)) = Some s2" "zrep Q s2 fs (Nd True (Nd False (Nd c A x B) y C) g u)"
    using s1(2) zrep_red[of Q s1 fs c2 "Nd False (Nd c A x B) y C" g u] by (auto simp: zrep_up)
  obtain s3 where s3: "rotate_right s2 (Some (fst g)) = Some s3" "zrep Q s3 fs (Nd False (Nd c A x B) y (Nd True C g u))"
    by (rule rotate_right_ok[OF s2(2)])
  show ?thesis unfolding x y s1(1) s2(1) s3(1) bind.bind_lunit using y s2(1) s3 by (simp del: wr_simps rd_simps)
qed

lemma fixup_rotate_left:
  assumes "zrep Q s (Fr R c2 g u # fs) (Nd c1 C y (Nd c A x B))"
  shows "\<exists>s'. do { xp \<leftarrow> rd parent s (Some (fst x)); s \<leftarrow> wr (set_red False) s xp; xpp \<leftarrow> rd parent s xp; s \<leftarrow> wr (set_red True) s xpp;
      s \<leftarrow> rotate_left s xpp; Some (Some (fst x), s) } = Some (Some (fst x), s') \<and>
    zrep Q s' fs (Nd False (Nd True u g C) y (Nd c A x B))"
proof -
  have x: "rd parent s (Some (fst x)) = Some (Some (fst y))"
    using zrep_here[of Q s "Fr R c1 y C # Fr R c2 g u # fs" c A x B] assms by (simp add: zrep_up)
  obtain s1 where s1: "wr (set_red False) s (Some (fst y)) = Some s1" "zrep Q s1 (Fr R c2 g u # fs) (Nd False C y (Nd c A x B))"
    by (rule zrep_red[OF assms])
  have y: "rd parent s1 (Some (fst y)) = Some (Some (fst g))" using zrep_here[OF s1(2)] by simp
  obtain s2 where s2: "wr (set_red True) s1 (Some (fst g)) = Some s2" "zrep Q s2 fs (Nd True u g (Nd False C y (Nd c A x B)))"
    using s1(2) zrep_red[of Q s1 fs c2 u g "Nd False C y (Nd c A x B)"] by (auto simp: zrep_up)
  obtain s3 where s3: "rotate_left s2 (Some (fst g)) = Some s3" "zrep Q s3 fs (Nd False (Nd True u g C) y (Nd c A x B))"
    by (rule rotate_left_ok[OF s2(2)])
  show ?thesis unfolding x y s1(1) s2(1) s3(1) bind.bind_lunit using y s2(1) s3 by (simp del: wr_simps rd_simps)
qed

fun opp :: "dir \<Rightarrow> dir" where
  "opp L = R"
| "opp R = L"

lemma zrep_other: "zrep Q s (Fr d c x u # fs) t \<longleftrightarrow> zrep Q s (Fr (opp d) c x t # fs) u"
  by (cases d) (simp_all add: zrep_up)

lemma zrep_here_nd:
  "zrep Q s fs (nd d c t x u) \<Longrightarrow>
   rb_heap s (fst x) = Some (node x c (cpar fs) (case d of L \<Rightarrow> ptr t | R \<Rightarrow> ptr u) (case d of L \<Rightarrow> ptr u | R \<Rightarrow> ptr t))"
  by (cases d) (auto simp: zrep_here)

lemma zrep_red_nd:
  assumes "zrep Q s fs (nd d c t x u)"
  obtains s' where "wr (set_red c') s (Some (fst x)) = Some s'" "zrep Q s' fs (nd d c' t x u)"
  using assms by (cases d) (auto simp del: wr_simps elim: zrep_red)

lemma zrep_distinct: "zrep Q s fs t \<Longrightarrow> distinct (addrs t @ caddrs fs)"
  by (simp add: zrep_def)

text \<open>What the code reads at a node, its parent and its grandparent.\<close>

lemma zrep_family:
  assumes z: "zrep Q s (Fr d1 c1 p v # Fr d2 c2 g u # fs) (Nd ct A x B)"
  shows "rd parent s (Some (fst x)) = Some (Some (fst p))" "rd parent s (Some (fst p)) = Some (Some (fst g))"
    "rd is_red s (Some (fst p)) = Some c1"
    "rd left s (Some (fst g)) = Some (case d2 of L \<Rightarrow> Some (fst p) | R \<Rightarrow> ptr u)"
    "rd right s (Some (fst g)) = Some (case d2 of L \<Rightarrow> ptr u | R \<Rightarrow> Some (fst p))"
    "rd left s (Some (fst p)) = Some (case d1 of L \<Rightarrow> Some (fst x) | R \<Rightarrow> ptr v)"
    "rd right s (Some (fst p)) = Some (case d1 of L \<Rightarrow> ptr v | R \<Rightarrow> Some (fst x))"
    "ptr u \<noteq> None \<Longrightarrow> rd is_red s (ptr u) = Some (red u)"
    "ptr u \<noteq> Some (fst p)" "ptr v \<noteq> Some (fst x)"
proof -
  have zp: "zrep Q s (Fr d2 c2 g u # fs) (nd d1 c1 (Nd ct A x B) p v)" using z by (simp only: zrep_up)
  have zg: "zrep Q s fs (nd d2 c2 (nd d1 c1 (Nd ct A x B) p v) g u)" using zp by (simp only: zrep_up)
  have zu: "zrep Q s (Fr (opp d2) c2 g (nd d1 c1 (Nd ct A x B) p v) # fs) u" using zp by (subst (asm) zrep_other)
  show "rd parent s (Some (fst x)) = Some (Some (fst p))" using zrep_here[OF z] by simp
  show "rd parent s (Some (fst p)) = Some (Some (fst g))" "rd is_red s (Some (fst p)) = Some c1"
    "rd left s (Some (fst p)) = Some (case d1 of L \<Rightarrow> Some (fst x) | R \<Rightarrow> ptr v)"
    "rd right s (Some (fst p)) = Some (case d1 of L \<Rightarrow> ptr v | R \<Rightarrow> Some (fst x))"
    using zrep_here_nd[OF zp] by (simp_all split: dir.splits)
  show "rd left s (Some (fst g)) = Some (case d2 of L \<Rightarrow> Some (fst p) | R \<Rightarrow> ptr u)"
    "rd right s (Some (fst g)) = Some (case d2 of L \<Rightarrow> ptr u | R \<Rightarrow> Some (fst p))"
    using zrep_here_nd[OF zg] by (simp_all split: dir.splits)
  show "rd is_red s (ptr u) = Some (red u)" if "ptr u \<noteq> None" using zu zrep_here that by (cases u) fastforce+
  show "ptr u \<noteq> Some (fst p)" "ptr v \<noteq> Some (fst x)" using zrep_distinct[OF z] by simp_all
qed

lemma insert_step_recolour:
  assumes z: "zrep Q s (Fr d1 c1 p v # Fr d2 c2 g u # fs) (Nd ct A x B)" and u: "u = Nd True ul ux ur"
  shows "\<exists>s'. insert_fixup_step s (Some (fst x)) = Some (Some (fst g), s') \<and>
    zrep Q s' fs (nd d2 True (nd d1 False (Nd ct A x B) p v) g (Nd False ul ux ur))"
proof -
  note F = zrep_family[OF z]
  have zp: "zrep Q s (Fr d2 c2 g u # fs) (nd d1 c1 (Nd ct A x B) p v)" using z by (simp only: zrep_up)
  obtain s1 where s1: "wr (set_red False) s (Some (fst p)) = Some s1" "zrep Q s1 (Fr d2 c2 g u # fs) (nd d1 False (Nd ct A x B) p v)"
    by (rule zrep_red_nd[OF zp])
  have zu: "zrep Q s1 (Fr (opp d2) c2 g (nd d1 False (Nd ct A x B) p v) # fs) (Nd True ul ux ur)" using s1(2) by (subst (asm) zrep_other) (simp only: u)
  obtain s2 where s2: "wr (set_red False) s1 (Some (fst ux)) = Some s2"
    "zrep Q s2 (Fr (opp d2) c2 g (nd d1 False (Nd ct A x B) p v) # fs) (Nd False ul ux ur)" by (rule zrep_red[OF zu])
  have zg: "zrep Q s2 fs (nd d2 c2 (nd d1 False (Nd ct A x B) p v) g (Nd False ul ux ur))"
    using s2(2) by (cases d2) (simp_all add: zrep_up)
  obtain s3 where s3: "wr (set_red True) s2 (Some (fst g)) = Some s3" "zrep Q s3 fs (nd d2 True (nd d1 False (Nd ct A x B) p v) g (Nd False ul ux ur))"
    by (rule zrep_red_nd[OF zg])
  show ?thesis using F u s1(1) s2(1) s3 by (cases d2) (simp_all add: insert_fixup_step_def del: rd_simps wr_simps)
qed

lemma black_uncle: "zrep Q s (Fr d1 c1 p v # Fr d2 c2 g u # fs) (Nd ct A x B) \<Longrightarrow> \<not> red u \<Longrightarrow>
    (if ptr u \<noteq> None then rd is_red s (ptr u) else Some False) = Some False"
  using zrep_family(8)[of Q s d1 c1 p v d2 c2 g u fs ct A x B] by auto

lemma insert_step_LL:
  assumes z: "zrep Q s (Fr L c1 p v # Fr L c2 g u # fs) (Nd ct A x B)" and u: "\<not> red u"
  shows "\<exists>s'. insert_fixup_step s (Some (fst x)) = Some (Some (fst x), s') \<and>
    zrep Q s' fs (Nd False (Nd ct A x B) p (Nd True v g u))"
proof -
  have z': "zrep Q s (Fr L c2 g u # fs) (Nd c1 (Nd ct A x B) p v)" using z by (simp add: zrep_up)
  show ?thesis using zrep_family[OF z] black_uncle[OF z u] fixup_rotate_right[OF z']
    by (simp add: insert_fixup_step_def del: rd_simps wr_simps)
qed

lemma insert_step_RR:
  assumes z: "zrep Q s (Fr R c1 p v # Fr R c2 g u # fs) (Nd ct A x B)" and u: "\<not> red u"
  shows "\<exists>s'. insert_fixup_step s (Some (fst x)) = Some (Some (fst x), s') \<and>
    zrep Q s' fs (Nd False (Nd True u g v) p (Nd ct A x B))"
proof -
  have z': "zrep Q s (Fr R c2 g u # fs) (Nd c1 v p (Nd ct A x B))" using z by (simp add: zrep_up)
  show ?thesis using zrep_family[OF z] black_uncle[OF z u] fixup_rotate_left[OF z']
    by (simp add: insert_fixup_step_def del: rd_simps wr_simps)
qed

lemma insert_step_LR:
  assumes z: "zrep Q s (Fr R c1 p v # Fr L c2 g u # fs) (Nd ct A x B)" and u: "\<not> red u"
  shows "\<exists>s'. insert_fixup_step s (Some (fst x)) = Some (Some (fst p), s') \<and>
    zrep Q s' fs (Nd False (Nd c1 v p A) x (Nd True B g u))"
proof -
  have z': "zrep Q s (Fr L c2 g u # fs) (Nd c1 v p (Nd ct A x B))" using z by (simp add: zrep_up)
  obtain s1 where s1: "rotate_left s (Some (fst p)) = Some s1" "zrep Q s1 (Fr L c2 g u # fs) (Nd ct (Nd c1 v p A) x B)"
    by (rule rotate_left_ok[OF z'])
  show ?thesis using zrep_family[OF z] black_uncle[OF z u] s1(1) fixup_rotate_right[OF s1(2)]
    by (simp add: insert_fixup_step_def del: rd_simps wr_simps)
qed

lemma insert_step_RL:
  assumes z: "zrep Q s (Fr L c1 p v # Fr R c2 g u # fs) (Nd ct A x B)" and u: "\<not> red u"
  shows "\<exists>s'. insert_fixup_step s (Some (fst x)) = Some (Some (fst p), s') \<and>
    zrep Q s' fs (Nd False (Nd True u g A) x (Nd c1 B p v))"
proof -
  have z': "zrep Q s (Fr R c2 g u # fs) (Nd c1 (Nd ct A x B) p v)" using z by (simp add: zrep_up)
  obtain s1 where s1: "rotate_right s (Some (fst p)) = Some s1" "zrep Q s1 (Fr R c2 g u # fs) (Nd ct A x (Nd c1 B p v))"
    by (rule rotate_right_ok[OF z'])
  show ?thesis using zrep_family[OF z] black_uncle[OF z u] s1(1) fixup_rotate_left[OF s1(2)]
    by (simp add: insert_fixup_step_def del: rd_simps wr_simps)
qed

text \<open>The loop ends when \<open>x\<close> is the root or has a black parent; the root is then made black.\<close>

lemma zrep_root: "zrep Q s fs t \<Longrightarrow> rb_root s = ptr (plug fs t)"
  by (subst (asm) zrep_plug) (simp add: zrep_def)

lemma blacken_root:
  assumes "zrep Q s fs t" "plug fs t \<noteq> Lf"
  obtains s' where "wr (set_red False) s (rb_root s) = Some s'" "rep Q s' (blacken (plug fs t))"
proof -
  have z: "rep Q s (plug fs t)" using assms(1) zrep_plug by blast
  obtain c l x r where n: "plug fs t = Nd c l x r" using assms(2) by (cases "plug fs t") auto
  have "rb_root s = Some (fst x)" using zrep_root[OF assms(1)] n by simp
  then show ?thesis using zrep_red[of Q s "[]" c l x r False] z n that by (auto simp del: wr_simps)
qed

lemma not_root: "zrep Q s (Fr d c p v # fs) (Nd ct A x B) \<Longrightarrow> rb_root s \<noteq> Some (fst x)"
proof -
  assume z: "zrep Q s (Fr d c p v # fs) (Nd ct A x B)"
  have "croot (Some a) gs \<in> insert (Some a) (Some ` set (caddrs gs))" for a gs
    by (induction "Some a :: ptr" gs arbitrary: a rule: croot.induct) auto
  from this[of "fst p" fs] show ?thesis using z by (auto simp: zrep_def)
qed

lemma insert_fixup_exit:
  assumes z: "zrep Q s fs (Nd c l x r)" and b: "\<not> cred fs"
  obtains s' where "insert_fixup s (Some (fst x)) = Some s'" "rep Q s' (blacken (plug fs (Nd c l x r)))"
proof -
  obtain s' where s': "wr (set_red False) s (rb_root s) = Some s'" "rep Q s' (blacken (plug fs (Nd c l x r)))"
    using blacken_root[OF z] by (auto simp: plug_Lf)
  have "(if Some (fst x) \<noteq> rb_root s then Option.bind (rd parent s (Some (fst x))) (rd is_red s) else Some False) = Some False"
  proof (cases fs)
    case Nil
    then show ?thesis using z by (simp add: zrep_def)
  next
    case (Cons f gs)
    obtain d c1 p v where f: "f = Fr d c1 p v" by (cases f)
    have "zrep Q s gs (nd d c1 (Nd c l x r) p v)" using z Cons f by (simp add: zrep_up)
    then show ?thesis using zrep_here[OF z] b Cons f zrep_here_nd[of Q s gs d c1] by simp
  qed
  then have "insert_fixup s (Some (fst x)) = Some s'" using s'(1) by (subst insert_fixup.simps) simp
  then show ?thesis using that s'(2) by blast
qed

lemma insert_fixup_go:
  assumes z: "zrep Q s (Fr d c p v # fs) (Nd ct A x B)" and c
    and st: "insert_fixup_step s (Some (fst x)) = Some (x', s')"
  shows "insert_fixup s (Some (fst x)) = insert_fixup s' x'"
proof -
  have "zrep Q s fs (nd d c (Nd ct A x B) p v)" using z by (simp add: zrep_up)
  then have "Option.bind (rd parent s (Some (fst x))) (rd is_red s) = Some True"
    using zrep_here[OF z] zrep_here_nd[of Q s fs d c] \<open>c\<close> by simp
  then show ?thesis using not_root[OF z] st by (subst insert_fixup.simps) (simp del: rd_simps wr_simps)
qed

lemma insert_finish:
  assumes z: "zrep Q s fs (Nd False C y D)" and x: "C = Nd e l x r \<or> D = Nd e l x r"
    and b: "rb (Nd False C y D)" "cok fs (bh (Nd False C y D))" and i: "inorder (Nd False C y D) = inorder t"
  shows "\<exists>s' T. insert_fixup s (Some (fst x)) = Some s' \<and> rep Q s' T \<and> rb T \<and> \<not> red T \<and> inorder T = inorder (plug fs t)"
proof -
  let ?t = "Nd False C y D"
  have r: "rb (plug fs ?t)" by (rule rb_plug[OF b(2,1)]) simp
  obtain gs where gs: "zrep Q s gs (Nd e l x r)" "\<not> cred gs" "plug gs (Nd e l x r) = plug fs ?t"
    using x z by (metis cred.simps(2) nd.simps plug.simps(2) zrep_up)
  obtain s' where "insert_fixup s (Some (fst x)) = Some s'" "rep Q s' (blacken (plug fs ?t))"
    using insert_fixup_exit[OF gs(1,2)] gs(3) by auto
  then show ?thesis using r inorder_plug[OF i, of fs] by (metis blacken_simps(1-3))
qed

lemma insert_fixup_ok:
  assumes "zrep Q s fs (Nd True l x r)" "rb (Nd True l x r)" "cok fs (bh (Nd True l x r))"
  shows "\<exists>s' T. insert_fixup s (Some (fst x)) = Some s' \<and> rep Q s' T \<and> rb T \<and> \<not> red T \<and> inorder T = inorder (plug fs (Nd True l x r))"
  using assms
proof (induction "length fs" arbitrary: fs s l x r rule: less_induct)
  case less
  note z = less.prems(1) and b = less.prems(2) and k = less.prems(3)
  let ?t = "Nd True l x r"
  show ?case
  proof (cases "cred fs")
    case False
    then show ?thesis using insert_fixup_exit[OF z False] rb_plug[OF k b] by (metis blacken_simps(1-3))
  next
    case True
    then obtain d1 p v fs1 where f1: "fs = Fr d1 True p v # fs1" by (cases fs rule: cred.cases) auto
    then obtain d2 c2 g u fs2 where f2: "fs1 = Fr d2 c2 g u # fs2" using k by (cases fs1 rule: cred.cases) auto
    have c: "\<not> c2" "rb v" "\<not> red v" "bh v = bh l" "rb u" "bh u = bh l" "cok fs2 (Suc (bh l))" using k f1 f2 by auto
    have b': "rb l" "rb r" "bh r = bh l" "\<not> red l" "\<not> red r" using b by auto
    note z' = z[unfolded f1 f2] and go = insert_fixup_go[OF z[unfolded f1] TrueI]
    show ?thesis
    proof (cases "red u")
      case True
      then obtain ul ux ur where u: "u = Nd True ul ux ur" by (cases u) auto
      let ?g = "nd d2 True (nd d1 False ?t p v) g (Nd False ul ux ur)"
      obtain s' where s': "insert_fixup_step s (Some (fst x)) = Some (Some (fst g), s')" "zrep Q s' fs2 ?g"
        using insert_step_recolour[OF z' u] by blast
      have bg: "rb ?g" "bh ?g = Suc (bh l)" using b' c u by (auto simp: rb_nd bh_nd)
      have "\<exists>s'' T. insert_fixup s' (Some (fst g)) = Some s'' \<and> rep Q s'' T \<and> rb T \<and> \<not> red T \<and> inorder T = inorder (plug fs2 ?g)"
        using less.hyps[of fs2 s' _ g] s'(2) bg c(7) f1 f2 by (cases d2) auto
      moreover have "inorder (plug fs2 ?g) = inorder (plug fs ?t)" unfolding f1 f2 using u by (cases d1; cases d2) (auto intro!: inorder_plug)
      ultimately show ?thesis using go[OF s'(1)] by simp
    next
      case False
      have fin: ?thesis if "insert_fixup_step s (Some (fst x)) = Some (Some (fst gx), s')" "zrep Q s' fs2 (Nd False C y D)"
        "C = Nd e gl gx gr \<or> D = Nd e gl gx gr" "rb (Nd False C y D)" "bh (Nd False C y D) = Suc (bh l)"
        "inorder (Nd False C y D) = inorder (nd d2 c2 (nd d1 True ?t p v) g u)" for s' gx C y D e gl gr
        using insert_finish[OF that(2-4) _ that(6)] that(5) c(7) go[OF that(1)] unfolding f1 f2 by simp
      consider "d1 = L" "d2 = L" | "d1 = R" "d2 = L" | "d1 = L" "d2 = R" | "d1 = R" "d2 = R" by (cases d1; cases d2)
      then show ?thesis
      proof cases
        case 1
        obtain s' where s': "insert_fixup_step s (Some (fst x)) = Some (Some (fst x), s')" "zrep Q s' fs2 (Nd False ?t p (Nd True v g u))"
          using insert_step_LL[OF z'[unfolded 1] False] by blast
        show ?thesis by (rule fin[OF s' disjI1[OF refl]]) (use b' c False 1 in auto)
      next
        case 2
        obtain s' where s': "insert_fixup_step s (Some (fst x)) = Some (Some (fst p), s')" "zrep Q s' fs2 (Nd False (Nd True v p l) x (Nd True r g u))"
          using insert_step_LR[OF z'[unfolded 2] False] by blast
        show ?thesis by (rule fin[OF s' disjI1[OF refl]]) (use b' c False 2 in auto)
      next
        case 3
        obtain s' where s': "insert_fixup_step s (Some (fst x)) = Some (Some (fst p), s')" "zrep Q s' fs2 (Nd False (Nd True u g l) x (Nd True r p v))"
          using insert_step_RL[OF z'[unfolded 3] False] by blast
        show ?thesis by (rule fin[OF s' disjI2[OF refl]]) (use b' c False 3 in auto)
      next
        case 4
        obtain s' where s': "insert_fixup_step s (Some (fst x)) = Some (Some (fst x), s')" "zrep Q s' fs2 (Nd False (Nd True u g v) p ?t)"
          using insert_step_RR[OF z'[unfolded 4] False] by blast
        show ?thesis by (rule fin[OF s' disjI2[OF refl]]) (use b' c False 4 in auto)
      qed
    qed
  qed
qed

section \<open>Insertion\<close>

definition ks :: "item \<Rightarrow> u64" where
  "ks x = fst (snd x)"

definition ordered :: "rbt \<Rightarrow> bool" where
  "ordered t \<longleftrightarrow> sorted_wrt (\<lambda>x y. ks x < ks y) (inorder t)"

lemma ordered_simps [simp]:
  "ordered Lf"
  "ordered (Nd c l x r) \<longleftrightarrow> ordered l \<and> ordered r \<and> (\<forall>y\<in>set (inorder l). ks y < ks x) \<and> (\<forall>y\<in>set (inorder r). ks x < ks y) \<and>
     (\<forall>y\<in>set (inorder l). \<forall>z\<in>set (inorder r). ks y < ks z)"
  by (auto simp: ordered_def sorted_wrt_append)

lemma insort_left: "ks y < ks x \<Longrightarrow> insort_key ks y (l @ x # r) = insort_key ks y l @ x # r"
  by (induction l) auto

lemma insort_right: "ks x < ks y \<Longrightarrow> \<forall>z\<in>set l. ks z < ks y \<Longrightarrow> insort_key ks y (l @ x # r) = l @ x # insort_key ks y r"
  by (induction l) auto

lemma plug_append [simp]: "plug (gs @ fs) t = plug fs (plug gs t)"
  by (induction gs t rule: plug.induct) auto

lemma cok_of_rb: "rb (plug fs t) \<Longrightarrow> \<not> red (plug fs t) \<Longrightarrow> cok fs (bh t) \<and> rb t \<and> (red t \<longrightarrow> fs \<noteq> [] \<and> \<not> cred fs)"
proof (induction fs t rule: plug.induct)
  case (2 d c x u fs t)
  then have "cok fs (bh (nd d c t x u))" "rb (nd d c t x u)" "red (nd d c t x u) \<longrightarrow> fs \<noteq> [] \<and> \<not> cred fs" by auto
  then show ?case by (auto simp: rb_nd bh_nd)
qed simp

text \<open>The descent ends at the leaf where the new node belongs.\<close>

definition leaf_for :: "u64 \<Rightarrow> frame list \<Rightarrow> rbt \<Rightarrow> bool" where
  "leaf_for k gs t \<longleftrightarrow> plug gs Lf = t \<and> (\<forall>y c. ks y = k \<longrightarrow> inorder (plug gs (Nd c Lf y Lf)) = insort_key ks y (inorder t)) \<and>
     (\<forall>d c p u hs. gs = Fr d c p u # hs \<longrightarrow> (d = L \<longleftrightarrow> k < ks p))"

lemma leaf_for_L:
  assumes "leaf_for k gs l" "k < ks x"
  shows "leaf_for k (gs @ [Fr L c x r]) (Nd c l x r)"
proof -
  have "(d = L) = (k < ks p)" if "gs @ [Fr L c x r] = Fr d e p u # hs" for d e p u hs
    using assms that by (cases gs) (auto simp: leaf_for_def simp del: split_paired_All)
  then show ?thesis using assms unfolding leaf_for_def by (auto simp: insort_left simp del: split_paired_All)
qed

lemma leaf_for_R:
  assumes "leaf_for k gs r" "ks x < k" "\<forall>z\<in>set (inorder l). ks z < k"
  shows "leaf_for k (gs @ [Fr R c x l]) (Nd c l x r)"
proof -
  have "(d = L) = (k < ks p)" if "gs @ [Fr R c x l] = Fr d e p u # hs" for d e p u hs
    using assms that by (cases gs) (auto simp: leaf_for_def simp del: split_paired_All)
  then show ?thesis using assms unfolding leaf_for_def by (auto simp: insort_right simp del: split_paired_All)
qed

lemma insert_find_ok:
  assumes "zrep Q s fs t" "ordered t"
  shows "if k \<in> ks ` set (inorder t) then insert_find s k (ptr t) (cpar fs) = Some (Inl ())
    else \<exists>gs. insert_find s k (ptr t) (cpar fs) = Some (Inr (cpar (gs @ fs))) \<and> leaf_for k gs t"
  using assms
proof (induction t arbitrary: fs)
  case Lf
  have "insert_find s k (ptr Lf) (cpar fs) = Some (Inr (cpar ([] @ fs)))" by (simp add: insert_find.simps)
  moreover have "leaf_for k [] Lf" by (simp add: leaf_for_def)
  ultimately have "\<exists>gs. insert_find s k (ptr Lf) (cpar fs) = Some (Inr (cpar (gs @ fs))) \<and> leaf_for k gs Lf" by blast
  then show ?case by simp
next
  case (Nd c l x r)
  note h = zrep_here[OF Nd.prems(1)]
  have l: "zrep Q s (Fr L c x r # fs) l" and r: "zrep Q s (Fr R c x l # fs) r" using Nd.prems(1) by (simp_all add: zrep_up)
  consider (lt) "k < ks x" | (gt) "k > ks x" | (eq) "k = ks x" by linarith
  then show ?case
  proof cases
    case eq
    then show ?thesis using h by (subst insert_find.simps) (simp add: ks_def)
  next
    case lt
    have e: "insert_find s k (ptr (Nd c l x r)) (cpar fs) = insert_find s k (ptr l) (cpar (Fr L c x r # fs))"
      using h lt by (subst insert_find.simps) (simp add: ks_def)
    have m: "k \<in> ks ` set (inorder (Nd c l x r)) \<longleftrightarrow> k \<in> ks ` set (inorder l)" using lt Nd.prems(2) by auto
    show ?thesis
    proof (cases "k \<in> ks ` set (inorder l)")
      case True
      then show ?thesis using Nd.IH(1)[OF l] Nd.prems(2) m e by simp
    next
      case False
      then obtain gs where gs: "insert_find s k (ptr l) (cpar (Fr L c x r # fs)) = Some (Inr (cpar (gs @ Fr L c x r # fs)))" "leaf_for k gs l"
        using Nd.IH(1)[OF l] Nd.prems(2) by auto
      have "leaf_for k (gs @ [Fr L c x r]) (Nd c l x r)"
        using gs(2) lt by (rule leaf_for_L)
      then show ?thesis using gs(1) m False e by (auto intro!: exI[of _ "gs @ [Fr L c x r]"])
    qed
  next
    case gt
    have e: "insert_find s k (ptr (Nd c l x r)) (cpar fs) = insert_find s k (ptr r) (cpar (Fr R c x l # fs))"
      using h gt by (subst insert_find.simps) (simp add: ks_def)
    have m: "k \<in> ks ` set (inorder (Nd c l x r)) \<longleftrightarrow> k \<in> ks ` set (inorder r)" using gt Nd.prems(2) by auto
    show ?thesis
    proof (cases "k \<in> ks ` set (inorder r)")
      case True
      then show ?thesis using Nd.IH(2)[OF r] Nd.prems(2) m e by simp
    next
      case False
      then obtain gs where gs: "insert_find s k (ptr r) (cpar (Fr R c x l # fs)) = Some (Inr (cpar (gs @ Fr R c x l # fs)))" "leaf_for k gs r"
        using Nd.IH(2)[OF r] Nd.prems(2) by auto
      have "\<forall>z\<in>set (inorder l). ks z < k" using gt Nd.prems(2) by auto
      then have "leaf_for k (gs @ [Fr R c x l]) (Nd c l x r)" by (rule leaf_for_R[OF gs(2) gt])
      then show ?thesis using gs(1) m False e by (auto intro!: exI[of _ "gs @ [Fr R c x l]"])
    qed
  qed
qed

lemma link_new:
  assumes z: "zrep Q s fs Lf" and n: "rb_heap s a = Some n" "a \<notin> set (caddrs fs)"
    and p: "\<forall>d c p u hs. fs = Fr d c p u # hs \<longrightarrow> (d = L \<longleftrightarrow> key_start n < ks p)"
  shows "\<exists>s'. do {
      s \<leftarrow> wr (set_parent (cpar fs)) s (Some a); s \<leftarrow> wr (set_left None) s (Some a); s \<leftarrow> wr (set_right None) s (Some a);
      s \<leftarrow> wr (set_red True) s (Some a);
      s \<leftarrow> (if cpar fs \<noteq> None
             then do {
               k \<leftarrow> rd key_start s (Some a);
               pk \<leftarrow> rd key_start s (cpar fs);
               if k < pk then wr (set_left (Some a)) s (cpar fs) else wr (set_right (Some a)) s (cpar fs) }
             else Some (s\<lparr>rb_root := Some a\<rparr>));
      insert_fixup s (Some a) } = insert_fixup s' (Some a) \<and> zrep Q s' fs (Nd True Lf (a, key_start n, key_end n) Lf)"
proof (cases fs)
  case Nil
  then show ?thesis using z n by (auto simp: zrep_def node_def intro!: exI conjI)
next
  case (Cons f gs)
  obtain d c x u where f: "f = Fr d c x u" by (cases f)
  have "d = L \<longleftrightarrow> key_start n < ks x" using p Cons f by blast
  then show ?thesis using z n unfolding Cons f by (cases d) (auto simp: zrep_def ks_def intro!: exI[of _ "s\<lparr>rb_heap := h\<rparr>" for h])
qed

text \<open>What a store that holds a balanced search tree keeps.\<close>

definition rbtree_ok :: "(nat \<rightharpoonup> nvgpu_rbtree_node) \<Rightarrow> rbtree \<Rightarrow> item list \<Rightarrow> bool" where
  "rbtree_ok Q s xs \<longleftrightarrow> (\<exists>t. rep Q s t \<and> rb t \<and> \<not> red t \<and> ordered t \<and> inorder t = xs)"

lemma rbtree_okE:
  assumes "rbtree_ok Q s xs"
  obtains t where "rep Q s t" "rb t" "\<not> red t" "ordered t" "inorder t = xs"
  using assms by (auto simp: rbtree_ok_def)

lemma set_addrs: "set (addrs t) = fst ` set (inorder t)"
  by (induction t) auto

lemma caddrs_plug: "set (addrs (plug fs t)) = set (addrs t) \<union> set (caddrs fs)"
proof (induction fs t rule: plug.induct)
  case (2 d c x u fs t)
  then show ?case by (cases d) auto
qed simp

lemma sorted_insort_ks:
  "sorted_wrt (\<lambda>x y. ks x < ks y) xs \<Longrightarrow> ks y \<notin> ks ` set xs \<Longrightarrow> sorted_wrt (\<lambda>x y. ks x < ks y) (insort_key ks y xs)"
  by (induction xs) (auto simp: set_insort_key not_le)

lemma insert_ok:
  assumes ok: "rbtree_ok Q s xs" and n: "rb_heap s a = Some n" "a \<notin> fst ` set xs"
  shows "if key_start n \<in> ks ` set xs then nvgpu_rbtree_insert s (Some a) = Some s
    else \<exists>s'. nvgpu_rbtree_insert s (Some a) = Some s' \<and> rbtree_ok Q s' (insort_key ks (a, key_start n, key_end n) xs)"
proof -
  obtain t where t: "rep Q s t" "rb t" "\<not> red t" "ordered t" "inorder t = xs" using ok by (rule rbtree_okE)
  have root: "rb_root s = ptr t" using zrep_root[OF t(1)] by simp
  note F = insert_find_ok[OF t(1,4), of "key_start n", folded root]
  show ?thesis
  proof (cases "key_start n \<in> ks ` set xs")
    case True
    then show ?thesis using F t(5) n by (simp add: nvgpu_rbtree_insert_def)
  next
    case False
    let ?x = "(a, key_start n, key_end n)"
    obtain fs where fs: "insert_find s (key_start n) (rb_root s) None = Some (Inr (cpar fs))" "leaf_for (key_start n) fs t"
      using F False t(5) by auto
    have pl: "plug fs Lf = t" using fs(2) by (simp add: leaf_for_def)
    have z: "zrep Q s fs Lf" using t(1) pl zrep_plug by blast
    have a: "a \<notin> set (caddrs fs)" using caddrs_plug[of fs Lf] pl n(2) t(5) by (simp add: set_addrs)
    have kx: "ks ?x = key_start n" by (simp add: ks_def)
    obtain s1 where s1: "nvgpu_rbtree_insert s (Some a) = insert_fixup s1 (Some a)" "zrep Q s1 fs (Nd True Lf ?x Lf)"
      using link_new[OF z n(1) a] fs n(1) unfolding leaf_for_def by (simp add: nvgpu_rbtree_insert_def) blast
    have "cok fs 0" using cok_of_rb[of fs Lf] t pl by simp
    then obtain s2 T where s2: "insert_fixup s1 (Some a) = Some s2" "rep Q s2 T" "rb T" "\<not> red T"
      "inorder T = inorder (plug fs (Nd True Lf ?x Lf))" using insert_fixup_ok[OF s1(2)] by auto
    have i: "inorder T = insort_key ks ?x xs" using s2(5) fs(2) t(5) kx by (simp add: leaf_for_def)
    have "ordered T" using t(4,5) False i sorted_insort_ks[of xs ?x] kx by (simp add: ordered_def)
    then have "rbtree_ok Q s2 (insort_key ks ?x xs)" using s2 i unfolding rbtree_ok_def by blast
    then show ?thesis using s1(1) s2(1) False by simp
  qed
qed

end
