(* ===== verification/Rbtree_Unlink.thy ===== *)
theory Rbtree_Unlink
  imports Rbtree_Proofs
begin

text \<open>
  Removal from the red-black tree: the loop of \<open>delete_fixup\<close> takes a tree in which one position is a black node
  short to a balanced one with the same nodes, and unlinking removes exactly its node.
\<close>

section \<open>The sibling has been made black\<close>

lemma black_children:
  assumes "zrep Q s fs (Nd c l x r)"
  shows "black_child left s (Some (fst x)) = Some (\<not> red l)" "black_child right s (Some (fst x)) = Some (\<not> red r)"
    "has_no_red_children s (Some (fst x)) = Some (\<not> red l \<and> \<not> red r)"
proof -
  have l: "zrep Q s (Fr L c x r # fs) l" and r: "zrep Q s (Fr R c x l # fs) r" using assms by (simp_all add: zrep_up)
  show 1: "black_child left s (Some (fst x)) = Some (\<not> red l)"
    using zrep_here[OF assms] l by (cases l) (auto simp: black_child_def dest: zrep_here)
  show 2: "black_child right s (Some (fst x)) = Some (\<not> red r)"
    using zrep_here[OF assms] r by (cases r) (auto simp: black_child_def dest: zrep_here)
  show "has_no_red_children s (Some (fst x)) = Some (\<not> red l \<and> \<not> red r)" using 1 2 by (simp add: has_no_red_children_def)
qed

definition left_rest :: "rbtree \<Rightarrow> ptr \<Rightarrow> ptr \<Rightarrow> (ptr \<times> rbtree) option" where
  "left_rest s p w =
     do {
       no_red \<leftarrow> has_no_red_children s w;
       if no_red
       then do {
         s \<leftarrow> (if w \<noteq> None then wr (set_red True) s w else Some s);
         Some (p, s) }
       else do {
         far_black \<leftarrow> black_child right s w;
         (w, s) \<leftarrow>
           (if far_black
            then do {
              wl \<leftarrow> rd left s w;
              s \<leftarrow> wr (set_red False) s wl;
              s \<leftarrow> wr (set_red True) s w;
              s \<leftarrow> rotate_right s w;
              w \<leftarrow> rd right s p;
              Some (w, s) }
            else Some (w, s));
         c \<leftarrow> rd is_red s p;
         s \<leftarrow> wr (set_red c) s w;
         s \<leftarrow> wr (set_red False) s p;
         wr' \<leftarrow> rd right s w;
         s \<leftarrow> wr (set_red False) s wr';
         s \<leftarrow> rotate_left s p;
         Some (rb_root s, s) } }"

lemma left_rest_recolour:
  assumes z: "zrep Q s (Fr L c p (Nd cw wl wx w2) # fs) X" and n: "\<not> red wl" "\<not> red w2"
  shows "\<exists>s'. left_rest s (Some (fst p)) (Some (fst wx)) = Some (Some (fst p), s') \<and> zrep Q s' fs (Nd c X p (Nd True wl wx w2))"
proof -
  have zw: "zrep Q s (Fr R c p X # fs) (Nd cw wl wx w2)" using z by (simp add: zrep_up)
  obtain s' where "wr (set_red True) s (Some (fst wx)) = Some s'" "zrep Q s' (Fr R c p X # fs) (Nd True wl wx w2)" by (rule zrep_red[OF zw])
  then show ?thesis using black_children(3)[OF zw] n by (simp add: left_rest_def zrep_up del: wr_simps rd_simps)
qed

text \<open>The last rotation, with a red far child.\<close>

lemma left_finish:
  assumes z: "zrep Q s (Fr L c p (Nd cw wl wx (Nd cr a y b)) # fs) X"
  shows "\<exists>s'. do {
      c \<leftarrow> rd is_red s (Some (fst p));
      s \<leftarrow> wr (set_red c) s (Some (fst wx));
      s \<leftarrow> wr (set_red False) s (Some (fst p));
      wr' \<leftarrow> rd right s (Some (fst wx));
      s \<leftarrow> wr (set_red False) s wr';
      s \<leftarrow> rotate_left s (Some (fst p));
      Some (rb_root s, s) } = Some (rb_root s', s') \<and> zrep Q s' fs (Nd c (Nd False X p wl) wx (Nd False a y b))"
proof -
  have z0: "zrep Q s fs (Nd c X p (Nd cw wl wx (Nd cr a y b)))" using z by (simp add: zrep_up)
  have c: "rd is_red s (Some (fst p)) = Some c" using zrep_here[OF z0] by simp
  obtain s1 where s1: "wr (set_red c) s (Some (fst wx)) = Some s1" "zrep Q s1 (Fr R c p X # fs) (Nd c wl wx (Nd cr a y b))"
    using zrep_red[of Q s "Fr R c p X # fs" cw wl wx "Nd cr a y b" c] z0 by (auto simp: zrep_up simp del: wr_simps)
  obtain s2 where s2: "wr (set_red False) s1 (Some (fst p)) = Some s2" "zrep Q s2 fs (Nd False X p (Nd c wl wx (Nd cr a y b)))"
    using zrep_red[of Q s1 fs c X p "Nd c wl wx (Nd cr a y b)" False] s1(2) by (auto simp: zrep_up simp del: wr_simps)
  have z2: "zrep Q s2 (Fr R False p X # fs) (Nd c wl wx (Nd cr a y b))" "zrep Q s2 (Fr R c wx wl # Fr R False p X # fs) (Nd cr a y b)"
    using s2(2) by (simp_all add: zrep_up)
  have r: "rd right s2 (Some (fst wx)) = Some (Some (fst y))" using zrep_here[OF z2(1)] by simp
  obtain s3 where s3: "wr (set_red False) s2 (Some (fst y)) = Some s3" "zrep Q s3 (Fr R c wx wl # Fr R False p X # fs) (Nd False a y b)"
    by (rule zrep_red[OF z2(2)])
  have z3: "zrep Q s3 fs (Nd False X p (Nd c wl wx (Nd False a y b)))" using s3(2) by (simp add: zrep_up)
  obtain s4 where s4: "rotate_left s3 (Some (fst p)) = Some s4" "zrep Q s4 fs (Nd c (Nd False X p wl) wx (Nd False a y b))"
    by (rule rotate_left_ok[OF z3])
  show ?thesis using c s1(1) s2(1) r s3(1) s4 by (simp del: wr_simps rd_simps)
qed

lemma left_rest_far:
  assumes z: "zrep Q s (Fr L c p (Nd cw wl wx (Nd True a y b)) # fs) X"
  shows "\<exists>s'. left_rest s (Some (fst p)) (Some (fst wx)) = Some (rb_root s', s') \<and> zrep Q s' fs (Nd c (Nd False X p wl) wx (Nd False a y b))"
proof -
  have zw: "zrep Q s (Fr R c p X # fs) (Nd cw wl wx (Nd True a y b))" using z by (simp add: zrep_up)
  show ?thesis using black_children[OF zw] left_finish[OF z] by (simp add: left_rest_def del: wr_simps rd_simps)
qed

lemma left_rest_near:
  assumes z: "zrep Q s (Fr L c p (Nd cw (Nd True a y b) wx w2) # fs) X" and n: "\<not> red w2"
  shows "\<exists>s'. left_rest s (Some (fst p)) (Some (fst wx)) = Some (rb_root s', s') \<and>
    zrep Q s' fs (Nd c (Nd False X p a) y (Nd False b wx w2))"
proof -
  have zw: "zrep Q s (Fr R c p X # fs) (Nd cw (Nd True a y b) wx w2)" using z by (simp add: zrep_up)
  have l: "rd left s (Some (fst wx)) = Some (Some (fst y))" using zrep_here[OF zw] by simp
  obtain s1 where s1: "wr (set_red False) s (Some (fst y)) = Some s1" "zrep Q s1 (Fr L cw wx w2 # Fr R c p X # fs) (Nd False a y b)"
    using zrep_red[of Q s "Fr L cw wx w2 # Fr R c p X # fs" True a y b False] zw by (auto simp: zrep_up simp del: wr_simps)
  obtain s2 where s2: "wr (set_red True) s1 (Some (fst wx)) = Some s2" "zrep Q s2 (Fr R c p X # fs) (Nd True (Nd False a y b) wx w2)"
    using zrep_red[of Q s1 "Fr R c p X # fs" cw "Nd False a y b" wx w2 True] s1(2) by (auto simp: zrep_up simp del: wr_simps)
  obtain s3 where s3: "rotate_right s2 (Some (fst wx)) = Some s3" "zrep Q s3 (Fr R c p X # fs) (Nd False a y (Nd True b wx w2))"
    by (rule rotate_right_ok[OF s2(2)])
  have z3: "zrep Q s3 (Fr L c p (Nd False a y (Nd True b wx w2)) # fs) X" "zrep Q s3 fs (Nd c X p (Nd False a y (Nd True b wx w2)))"
    using s3(2) by (simp_all add: zrep_up)
  have r: "rd right s3 (Some (fst p)) = Some (Some (fst y))" using zrep_here[OF z3(2)] by simp
  show ?thesis using black_children[OF zw] n l s1(1) s2(1) s3(1) r left_finish[OF z3(1)]
    by (simp add: left_rest_def del: wr_simps rd_simps)
qed

text \<open>The mirror image.\<close>

definition right_rest :: "rbtree \<Rightarrow> ptr \<Rightarrow> ptr \<Rightarrow> (ptr \<times> rbtree) option" where
  "right_rest s p w =
     do {
       no_red \<leftarrow> has_no_red_children s w;
       if no_red
       then do {
         s \<leftarrow> (if w \<noteq> None then wr (set_red True) s w else Some s);
         Some (p, s) }
       else do {
         far_black \<leftarrow> black_child left s w;
         (w, s) \<leftarrow>
           (if far_black
            then do {
              w_r \<leftarrow> rd right s w;
              s \<leftarrow> wr (set_red False) s w_r;
              s \<leftarrow> wr (set_red True) s w;
              s \<leftarrow> rotate_left s w;
              w \<leftarrow> rd left s p;
              Some (w, s) }
            else Some (w, s));
         c \<leftarrow> rd is_red s p;
         s \<leftarrow> wr (set_red c) s w;
         s \<leftarrow> wr (set_red False) s p;
         wl \<leftarrow> rd left s w;
         s \<leftarrow> wr (set_red False) s wl;
         s \<leftarrow> rotate_right s p;
         Some (rb_root s, s) } }"

lemma right_rest_recolour:
  assumes z: "zrep Q s (Fr R c p (Nd cw wl wx w2) # fs) X" and n: "\<not> red wl" "\<not> red w2"
  shows "\<exists>s'. right_rest s (Some (fst p)) (Some (fst wx)) = Some (Some (fst p), s') \<and> zrep Q s' fs (Nd c (Nd True wl wx w2) p X)"
proof -
  have zw: "zrep Q s (Fr L c p X # fs) (Nd cw wl wx w2)" using z by (simp add: zrep_up)
  obtain s' where "wr (set_red True) s (Some (fst wx)) = Some s'" "zrep Q s' (Fr L c p X # fs) (Nd True wl wx w2)" by (rule zrep_red[OF zw])
  then show ?thesis using black_children(3)[OF zw] n by (simp add: right_rest_def zrep_up del: wr_simps rd_simps)
qed

lemma right_finish:
  assumes z: "zrep Q s (Fr R c p (Nd cw (Nd cr a y b) wx w2) # fs) X"
  shows "\<exists>s'. do {
      c \<leftarrow> rd is_red s (Some (fst p));
      s \<leftarrow> wr (set_red c) s (Some (fst wx));
      s \<leftarrow> wr (set_red False) s (Some (fst p));
      wl \<leftarrow> rd left s (Some (fst wx));
      s \<leftarrow> wr (set_red False) s wl;
      s \<leftarrow> rotate_right s (Some (fst p));
      Some (rb_root s, s) } = Some (rb_root s', s') \<and> zrep Q s' fs (Nd c (Nd False a y b) wx (Nd False w2 p X))"
proof -
  have z0: "zrep Q s fs (Nd c (Nd cw (Nd cr a y b) wx w2) p X)" using z by (simp add: zrep_up)
  have c: "rd is_red s (Some (fst p)) = Some c" using zrep_here[OF z0] by simp
  obtain s1 where s1: "wr (set_red c) s (Some (fst wx)) = Some s1" "zrep Q s1 (Fr L c p X # fs) (Nd c (Nd cr a y b) wx w2)"
    using zrep_red[of Q s "Fr L c p X # fs" cw "Nd cr a y b" wx w2 c] z0 by (auto simp: zrep_up simp del: wr_simps)
  obtain s2 where s2: "wr (set_red False) s1 (Some (fst p)) = Some s2" "zrep Q s2 fs (Nd False (Nd c (Nd cr a y b) wx w2) p X)"
    using zrep_red[of Q s1 fs c "Nd c (Nd cr a y b) wx w2" p X False] s1(2) by (auto simp: zrep_up simp del: wr_simps)
  have z2: "zrep Q s2 (Fr L False p X # fs) (Nd c (Nd cr a y b) wx w2)" "zrep Q s2 (Fr L c wx w2 # Fr L False p X # fs) (Nd cr a y b)"
    using s2(2) by (simp_all add: zrep_up)
  have r: "rd left s2 (Some (fst wx)) = Some (Some (fst y))" using zrep_here[OF z2(1)] by simp
  obtain s3 where s3: "wr (set_red False) s2 (Some (fst y)) = Some s3" "zrep Q s3 (Fr L c wx w2 # Fr L False p X # fs) (Nd False a y b)"
    by (rule zrep_red[OF z2(2)])
  have z3: "zrep Q s3 fs (Nd False (Nd c (Nd False a y b) wx w2) p X)" using s3(2) by (simp add: zrep_up)
  obtain s4 where s4: "rotate_right s3 (Some (fst p)) = Some s4" "zrep Q s4 fs (Nd c (Nd False a y b) wx (Nd False w2 p X))"
    by (rule rotate_right_ok[OF z3])
  show ?thesis using c s1(1) s2(1) r s3(1) s4 by (simp del: wr_simps rd_simps)
qed

lemma right_rest_far:
  assumes z: "zrep Q s (Fr R c p (Nd cw (Nd True a y b) wx w2) # fs) X"
  shows "\<exists>s'. right_rest s (Some (fst p)) (Some (fst wx)) = Some (rb_root s', s') \<and> zrep Q s' fs (Nd c (Nd False a y b) wx (Nd False w2 p X))"
proof -
  have zw: "zrep Q s (Fr L c p X # fs) (Nd cw (Nd True a y b) wx w2)" using z by (simp add: zrep_up)
  show ?thesis using black_children[OF zw] right_finish[OF z] by (simp add: right_rest_def del: wr_simps rd_simps)
qed

lemma right_rest_near:
  assumes z: "zrep Q s (Fr R c p (Nd cw wl wx (Nd True a y b)) # fs) X" and n: "\<not> red wl"
  shows "\<exists>s'. right_rest s (Some (fst p)) (Some (fst wx)) = Some (rb_root s', s') \<and>
    zrep Q s' fs (Nd c (Nd False wl wx a) y (Nd False b p X))"
proof -
  have zw: "zrep Q s (Fr L c p X # fs) (Nd cw wl wx (Nd True a y b))" using z by (simp add: zrep_up)
  have l: "rd right s (Some (fst wx)) = Some (Some (fst y))" using zrep_here[OF zw] by simp
  obtain s1 where s1: "wr (set_red False) s (Some (fst y)) = Some s1" "zrep Q s1 (Fr R cw wx wl # Fr L c p X # fs) (Nd False a y b)"
    using zrep_red[of Q s "Fr R cw wx wl # Fr L c p X # fs" True a y b False] zw by (auto simp: zrep_up simp del: wr_simps)
  obtain s2 where s2: "wr (set_red True) s1 (Some (fst wx)) = Some s2" "zrep Q s2 (Fr L c p X # fs) (Nd True wl wx (Nd False a y b))"
    using zrep_red[of Q s1 "Fr L c p X # fs" cw wl wx "Nd False a y b" True] s1(2) by (auto simp: zrep_up simp del: wr_simps)
  obtain s3 where s3: "rotate_left s2 (Some (fst wx)) = Some s3" "zrep Q s3 (Fr L c p X # fs) (Nd False (Nd True wl wx a) y b)"
    by (rule rotate_left_ok[OF s2(2)])
  have z3: "zrep Q s3 (Fr R c p (Nd False (Nd True wl wx a) y b) # fs) X" "zrep Q s3 fs (Nd c (Nd False (Nd True wl wx a) y b) p X)"
    using s3(2) by (simp_all add: zrep_up)
  have r: "rd left s3 (Some (fst p)) = Some (Some (fst y))" using zrep_here[OF z3(2)] by simp
  show ?thesis using black_children[OF zw] n l s1(1) s2(1) s3(1) r right_finish[OF z3(1)]
    by (simp add: right_rest_def del: wr_simps rd_simps)
qed

section \<open>One round of the loop\<close>

text \<open>What a round leaves: either \<open>x\<close> has moved to the parent, which is a black node short, or the
  tree is balanced.\<close>

definition one_round :: "(nat \<rightharpoonup> nvgpu_rbtree_node) \<Rightarrow> nat \<Rightarrow> item list \<Rightarrow> nat \<Rightarrow> (ptr \<times> rbtree) option \<Rightarrow> bool" where
  "one_round Q n xs p r \<longleftrightarrow>
     (\<exists>s gs P. r = Some (Some p, s) \<and> zrep Q s gs P \<and> ptr P = Some p \<and> rb (blacken P) \<and> cok gs (Suc (bh P)) \<and>
        inorder (plug gs P) = xs \<and> (length gs < n \<or> red P \<and> gs \<noteq> [])) \<or>
     (\<exists>s gs T. r = Some (rb_root s, s) \<and> zrep Q s gs T \<and> T \<noteq> Lf \<and> rb (plug gs T) \<and> inorder (plug gs T) = xs)"

lemma one_round_up:
  assumes "r = Some (Some (fst p), s)" "zrep Q s gs (Nd c A p B)" "rb (blacken (Nd c A p B))" "cok gs (Suc (bh (Nd c A p B)))"
    "inorder (plug gs (Nd c A p B)) = xs" "length gs < n \<or> c \<and> gs \<noteq> []"
  shows "one_round Q n xs (fst p) r"
  unfolding one_round_def by (rule disjI1) (use assms in \<open>intro exI[of _ s] exI[of _ gs] exI[of _ "Nd c A p B"], auto\<close>)

lemma one_round_done:
  assumes "r = Some (rb_root s, s)" "zrep Q s gs (Nd c A y B)" "rb (Nd c A y B)" "cok gs (bh (Nd c A y B))" "c \<longrightarrow> \<not> cred gs"
    "inorder (plug gs (Nd c A y B)) = xs"
  shows "one_round Q n xs p r"
  unfolding one_round_def using assms(1,2,6) rb_plug[OF assms(4,3)] assms(5)
  by (intro disjI2 exI[of _ s] exI[of _ gs] exI[of _ "Nd c A y B"]) auto

lemma left_rest_ok:
  assumes z: "zrep Q s (Fr L c p (Nd False wl wx w2) # fs) X" and X: "rb X" "\<not> red X"
    and k: "cok (Fr L c p (Nd False wl wx w2) # fs) (Suc (bh X))" and n: "length fs < n \<or> c \<and> fs \<noteq> []"
  shows "one_round Q n (inorder (plug (Fr L c p (Nd False wl wx w2) # fs) X)) (fst p) (left_rest s (Some (fst p)) (Some (fst wx)))"
proof -
  have b: "rb wl" "rb w2" "bh wl = bh X" "bh w2 = bh X" "cok fs (if c then Suc (bh X) else Suc (Suc (bh X)))" "c \<longrightarrow> \<not> cred fs"
    using k by auto
  consider (rec) "\<not> red wl" "\<not> red w2" | (far) a y b where "w2 = Nd True a y b" | (near) a y b where "wl = Nd True a y b" "\<not> red w2"
    by (cases wl; cases w2) auto
  then show ?thesis
  proof cases
    case rec
    obtain s' where s': "left_rest s (Some (fst p)) (Some (fst wx)) = Some (Some (fst p), s')" "zrep Q s' fs (Nd c X p (Nd True wl wx w2))"
      using left_rest_recolour[OF z rec] by blast
    show ?thesis by (rule one_round_up[OF s']) (use X b rec n in \<open>auto intro!: inorder_plug\<close>)
  next
    case far
    obtain s' where s': "left_rest s (Some (fst p)) (Some (fst wx)) = Some (rb_root s', s')" "zrep Q s' fs (Nd c (Nd False X p wl) wx (Nd False a y b))"
      using left_rest_far z far by blast
    show ?thesis by (rule one_round_done[OF s']) (use X b far in \<open>auto intro!: inorder_plug\<close>)
  next
    case near
    obtain s' where s': "left_rest s (Some (fst p)) (Some (fst wx)) = Some (rb_root s', s')" "zrep Q s' fs (Nd c (Nd False X p a) y (Nd False b wx w2))"
      using left_rest_near[OF _ near(2)] z near(1) by blast
    show ?thesis by (rule one_round_done[OF s']) (use X b near in \<open>auto intro!: inorder_plug\<close>)
  qed
qed

lemma right_rest_ok:
  assumes z: "zrep Q s (Fr R c p (Nd False wl wx w2) # fs) X" and X: "rb X" "\<not> red X"
    and k: "cok (Fr R c p (Nd False wl wx w2) # fs) (Suc (bh X))" and n: "length fs < n \<or> c \<and> fs \<noteq> []"
  shows "one_round Q n (inorder (plug (Fr R c p (Nd False wl wx w2) # fs) X)) (fst p) (right_rest s (Some (fst p)) (Some (fst wx)))"
proof -
  have b: "rb wl" "rb w2" "bh wl = bh X" "bh w2 = bh X" "cok fs (if c then Suc (bh X) else Suc (Suc (bh X)))" "c \<longrightarrow> \<not> cred fs"
    using k by auto
  consider (rec) "\<not> red wl" "\<not> red w2" | (far) a y b where "wl = Nd True a y b" | (near) a y b where "w2 = Nd True a y b" "\<not> red wl"
    by (cases wl; cases w2) auto
  then show ?thesis
  proof cases
    case rec
    obtain s' where s': "right_rest s (Some (fst p)) (Some (fst wx)) = Some (Some (fst p), s')" "zrep Q s' fs (Nd c (Nd True wl wx w2) p X)"
      using right_rest_recolour[OF z rec] by blast
    show ?thesis by (rule one_round_up[OF s']) (use X b rec n in \<open>auto intro!: inorder_plug\<close>)
  next
    case far
    obtain s' where s': "right_rest s (Some (fst p)) (Some (fst wx)) = Some (rb_root s', s')" "zrep Q s' fs (Nd c (Nd False a y b) wx (Nd False w2 p X))"
      using right_rest_far z far by blast
    show ?thesis by (rule one_round_done[OF s']) (use X b far in \<open>auto intro!: inorder_plug\<close>)
  next
    case near
    obtain s' where s': "right_rest s (Some (fst p)) (Some (fst wx)) = Some (rb_root s', s')" "zrep Q s' fs (Nd c (Nd False wl wx a) y (Nd False b p X))"
      using right_rest_near[OF _ near(2)] z near(1) by blast
    show ?thesis by (rule one_round_done[OF s']) (use X b near in \<open>auto intro!: inorder_plug\<close>)
  qed
qed

lemma left_child_ok:
  assumes z: "zrep Q s (Fr L c p w # fs) X" and X: "rb X" "\<not> red X" and k: "cok (Fr L c p w # fs) (Suc (bh X))"
  shows "one_round Q (Suc (length fs)) (inorder (plug (Fr L c p w # fs) X)) (fst p) (delete_fixup_left_child s (Some (fst p)))"
proof -
  obtain cw wl wx w2 where w: "w = Nd cw wl wx w2" using k by (cases w) auto
  note z = z[unfolded w] and k = k[unfolded w]
  have z0: "zrep Q s fs (Nd c X p (Nd cw wl wx w2))" and zw: "zrep Q s (Fr R c p X # fs) (Nd cw wl wx w2)" using z by (simp_all add: zrep_up)
  have rd: "rd right s (Some (fst p)) = Some (Some (fst wx))" "rd is_red s (Some (fst wx)) = Some cw"
    using zrep_here[OF z0] zrep_here[OF zw] by simp_all
  show ?thesis
  proof (cases cw)
    case False
    then have "delete_fixup_left_child s (Some (fst p)) = left_rest s (Some (fst p)) (Some (fst wx))"
      using rd by (simp add: delete_fixup_left_child_def left_rest_def del: rd_simps wr_simps)
    then show ?thesis using left_rest_ok[OF z[simplified False] X] k False w by auto
  next
    case True
    have nc: "\<not> c" using k True by auto
    then obtain l1 lx l2 where wl: "wl = Nd False l1 lx l2" using k True by (cases wl) auto
    obtain s1 where s1: "wr (set_red False) s (Some (fst wx)) = Some s1" "zrep Q s1 (Fr R c p X # fs) (Nd False wl wx w2)" by (rule zrep_red[OF zw])
    obtain s2 where s2: "wr (set_red True) s1 (Some (fst p)) = Some s2" "zrep Q s2 fs (Nd True X p (Nd False wl wx w2))"
      using zrep_red[of Q s1 fs c X p "Nd False wl wx w2" True] s1(2) by (auto simp: zrep_up simp del: wr_simps)
    obtain s3 where s3: "rotate_left s2 (Some (fst p)) = Some s3" "zrep Q s3 fs (Nd False (Nd True X p wl) wx w2)" by (rule rotate_left_ok[OF s2(2)])
    have z3: "zrep Q s3 (Fr L True p wl # Fr L False wx w2 # fs) X" "zrep Q s3 (Fr L False wx w2 # fs) (Nd True X p wl)"
      using s3(2) by (simp_all add: zrep_up)
    have r3: "rd right s3 (Some (fst p)) = Some (Some (fst lx))" using zrep_here[OF z3(2)] wl by simp
    have "delete_fixup_left_child s (Some (fst p)) = left_rest s3 (Some (fst p)) (Some (fst lx))"
      using rd True s1(1) s2(1) s3(1) r3 by (simp add: delete_fixup_left_child_def left_rest_def del: rd_simps wr_simps)
    moreover have "one_round Q (Suc (length fs)) (inorder (plug (Fr L True p wl # Fr L False wx w2 # fs) X)) (fst p) (left_rest s3 (Some (fst p)) (Some (fst lx)))"
      unfolding wl by (rule left_rest_ok[OF z3(1)[unfolded wl] X]) (use k True nc wl in auto)
    moreover have "inorder (plug (Fr L True p wl # Fr L False wx w2 # fs) X) = inorder (plug (Fr L c p w # fs) X)"
      unfolding w by (auto intro!: inorder_plug)
    ultimately show ?thesis by simp
  qed
qed

lemma right_child_ok:
  assumes z: "zrep Q s (Fr R c p w # fs) X" and X: "rb X" "\<not> red X" and k: "cok (Fr R c p w # fs) (Suc (bh X))"
  shows "one_round Q (Suc (length fs)) (inorder (plug (Fr R c p w # fs) X)) (fst p) (delete_fixup_right_child s (Some (fst p)))"
proof -
  obtain cw wl wx w2 where w: "w = Nd cw wl wx w2" using k by (cases w) auto
  note z = z[unfolded w] and k = k[unfolded w]
  have z0: "zrep Q s fs (Nd c (Nd cw wl wx w2) p X)" and zw: "zrep Q s (Fr L c p X # fs) (Nd cw wl wx w2)" using z by (simp_all add: zrep_up)
  have rd: "rd left s (Some (fst p)) = Some (Some (fst wx))" "rd is_red s (Some (fst wx)) = Some cw"
    using zrep_here[OF z0] zrep_here[OF zw] by simp_all
  show ?thesis
  proof (cases cw)
    case False
    then have "delete_fixup_right_child s (Some (fst p)) = right_rest s (Some (fst p)) (Some (fst wx))"
      using rd by (simp add: delete_fixup_right_child_def right_rest_def del: rd_simps wr_simps)
    then show ?thesis using right_rest_ok[OF z[simplified False] X] k False w by auto
  next
    case True
    have nc: "\<not> c" using k True by auto
    then obtain l1 lx l2 where w2: "w2 = Nd False l1 lx l2" using k True by (cases w2) auto
    obtain s1 where s1: "wr (set_red False) s (Some (fst wx)) = Some s1" "zrep Q s1 (Fr L c p X # fs) (Nd False wl wx w2)" by (rule zrep_red[OF zw])
    obtain s2 where s2: "wr (set_red True) s1 (Some (fst p)) = Some s2" "zrep Q s2 fs (Nd True (Nd False wl wx w2) p X)"
      using zrep_red[of Q s1 fs c "Nd False wl wx w2" p X True] s1(2) by (auto simp: zrep_up simp del: wr_simps)
    obtain s3 where s3: "rotate_right s2 (Some (fst p)) = Some s3" "zrep Q s3 fs (Nd False wl wx (Nd True w2 p X))" by (rule rotate_right_ok[OF s2(2)])
    have z3: "zrep Q s3 (Fr R True p w2 # Fr R False wx wl # fs) X" "zrep Q s3 (Fr R False wx wl # fs) (Nd True w2 p X)"
      using s3(2) by (simp_all add: zrep_up)
    have r3: "rd left s3 (Some (fst p)) = Some (Some (fst lx))" using zrep_here[OF z3(2)] w2 by simp
    have "delete_fixup_right_child s (Some (fst p)) = right_rest s3 (Some (fst p)) (Some (fst lx))"
      using rd True s1(1) s2(1) s3(1) r3 by (simp add: delete_fixup_right_child_def right_rest_def del: rd_simps wr_simps)
    moreover have "one_round Q (Suc (length fs)) (inorder (plug (Fr R True p w2 # Fr R False wx wl # fs) X)) (fst p) (right_rest s3 (Some (fst p)) (Some (fst lx)))"
      unfolding w2 by (rule right_rest_ok[OF z3(1)[unfolded w2] X]) (use k True nc w2 in auto)
    moreover have "inorder (plug (Fr R True p w2 # Fr R False wx wl # fs) X) = inorder (plug (Fr R c p w # fs) X)"
      unfolding w by (auto intro!: inorder_plug)
    ultimately show ?thesis by simp
  qed
qed

section \<open>The loop\<close>

definition balanced_as :: "(nat \<rightharpoonup> nvgpu_rbtree_node) \<Rightarrow> item list \<Rightarrow> rbtree option \<Rightarrow> bool" where
  "balanced_as Q xs r \<longleftrightarrow> (\<exists>s T. r = Some s \<and> rep Q s T \<and> rb T \<and> \<not> red T \<and> inorder T = xs)"

lemma delete_fixup_root:
  assumes z: "zrep Q s gs T" and b: "rb (blacken (plug gs T))"
  shows "balanced_as Q (inorder (plug gs T)) (delete_fixup s q (rb_root s))"
proof (cases "plug gs T = Lf")
  case True
  then have "rb_root s = None" using zrep_root[OF z] by simp
  moreover have "rep Q s (plug gs T)" using z zrep_plug by blast
  ultimately show ?thesis using True by (subst delete_fixup.simps) (auto simp: balanced_as_def intro: exI[of _ s] exI[of _ Lf])
next
  case False
  obtain s' where s': "wr (set_red False) s (rb_root s) = Some s'" "rep Q s' (blacken (plug gs T))" by (rule blacken_root[OF z False])
  moreover have "rb_root s \<noteq> None" using zrep_root[OF z] False by (cases "plug gs T") auto
  ultimately show ?thesis using b by (subst delete_fixup.simps) (auto simp: balanced_as_def simp del: wr_simps)
qed

lemma delete_fixup_red:
  assumes z: "zrep Q s fs X" and X: "red X" "rb (blacken X)" "cok fs (Suc (bh X))" "fs \<noteq> []"
  shows "balanced_as Q (inorder (plug fs X)) (delete_fixup s q (ptr X))"
proof -
  obtain l x r where x: "X = Nd True l x r" using X(1) by (cases X) auto
  obtain d c p u gs where fs: "fs = Fr d c p u # gs" using X(4) by (cases fs rule: cred.cases) auto
  obtain s' where s': "wr (set_red False) s (Some (fst x)) = Some s'" "zrep Q s' fs (Nd False l x r)" by (rule zrep_red[OF z[unfolded x]])
  have "rb_root s \<noteq> Some (fst x)" using not_root z x fs by blast
  moreover have "rd is_red s (Some (fst x)) = Some True" using zrep_here[OF z[unfolded x]] by simp
  ultimately have "delete_fixup s q (ptr X) = Some s'" using s'(1) x by (subst delete_fixup.simps) (simp del: wr_simps rd_simps)
  moreover have "rep Q s' (plug fs (Nd False l x r))" using s'(2) zrep_plug by blast
  moreover have "rb (plug fs (Nd False l x r))" using rb_plug[of fs "Nd False l x r"] X x by simp
  moreover have "\<not> red (plug fs (Nd False l x r))" using red_plug[OF X(3,4)] .
  moreover have "inorder (plug fs (Nd False l x r)) = inorder (plug fs X)" unfolding x by (rule inorder_plug) simp
  ultimately show ?thesis unfolding balanced_as_def by blast
qed

lemma delete_fixup_go:
  assumes z: "zrep Q s (Fr d c p w # fs) X" and X: "\<not> red X" and w: "w \<noteq> Lf"
  shows "delete_fixup s (Some (fst p)) (ptr X) =
    Option.bind (case d of L \<Rightarrow> delete_fixup_left_child s (Some (fst p)) | R \<Rightarrow> delete_fixup_right_child s (Some (fst p)))
      (\<lambda>(x, s). Option.bind (rd parent s x) (\<lambda>q. delete_fixup s q x))"
proof -
  have r: "ptr X \<noteq> rb_root s"
  proof (cases X)
    case Lf
    then show ?thesis using zrep_root[OF z] by (cases "plug (Fr d c p w # fs) X") (auto simp: plug_Lf)
  next
    case (Nd e l x u)
    then show ?thesis using not_root z by fastforce
  qed
  have c: "(if ptr X = None then Some True else map_option Not (rd is_red s (ptr X))) = Some True"
  proof (cases X)
    case (Nd e l x u)
    then show ?thesis using zrep_here[OF z[unfolded Nd]] X by simp
  qed simp
  have "zrep Q s fs (nd d c X p w)" using z by (simp add: zrep_up)
  then have l: "rd left s (Some (fst p)) = Some (case d of L \<Rightarrow> ptr X | R \<Rightarrow> ptr w)" using zrep_here_nd by fastforce
  have "ptr X \<noteq> ptr w" using w zrep_distinct[OF z] by (cases X; cases w) auto
  then show ?thesis using r c l by (subst delete_fixup.simps) (cases d; simp del: rd_simps)
qed

lemma delete_fixup_ok:
  assumes "zrep Q s fs X" "rb (blacken X)" "cok fs (Suc (bh X))"
  shows "balanced_as Q (inorder (plug fs X)) (delete_fixup s (cpar fs) (ptr X))"
  using assms
proof (induction "length fs" arbitrary: fs s X rule: less_induct)
  case less
  note z = less.prems(1) and b = less.prems(2) and k = less.prems(3)
  consider (root) "fs = []" | (red) "fs \<noteq> []" "red X" | (go) "fs \<noteq> []" "\<not> red X" by blast
  then show ?case
  proof cases
    case root
    then show ?thesis using delete_fixup_root[OF z, of "cpar fs"] b zrep_root[OF z] by simp
  next
    case red
    then show ?thesis using delete_fixup_red[OF z _ b k] by simp
  next
    case go
    then obtain d c p w gs where fs: "fs = Fr d c p w # gs" by (cases fs rule: cred.cases) auto
    have w: "w \<noteq> Lf" using k fs by auto
    have X: "rb X" using b go(2) by simp
    let ?r = "case d of L \<Rightarrow> delete_fixup_left_child s (Some (fst p)) | R \<Rightarrow> delete_fixup_right_child s (Some (fst p))"
    have o: "one_round Q (length fs) (inorder (plug fs X)) (fst p) ?r"
      using left_child_ok[of Q s c p w gs X] right_child_ok[of Q s c p w gs X] z k X go(2) unfolding fs by (cases d) auto
    have e: "delete_fixup s (cpar fs) (ptr X) = Option.bind ?r (\<lambda>(x, s). Option.bind (rd parent s x) (\<lambda>q. delete_fixup s q x))"
      using delete_fixup_go[OF z[unfolded fs] go(2) w] unfolding fs by simp
    from o[unfolded one_round_def] show ?thesis
    proof (elim disjE exE conjE)
      fix s' hs P assume a: "?r = Some (Some (fst p), s')" "zrep Q s' hs P" "ptr P = Some (fst p)" "rb (blacken P)" "cok hs (Suc (bh P))"
        "inorder (plug hs P) = inorder (plug fs X)" "length hs < length fs"
      then have "rd parent s' (Some (fst p)) = Some (cpar hs)" by (cases P) (auto dest: zrep_here)
      then show ?thesis using e a less.hyps[OF a(7,2,4,5)] by (simp del: rd_simps)
    next
      fix s' hs P assume a: "?r = Some (Some (fst p), s')" "zrep Q s' hs P" "ptr P = Some (fst p)" "rb (blacken P)" "cok hs (Suc (bh P))"
        "inorder (plug hs P) = inorder (plug fs X)" "red P" "hs \<noteq> []"
      then have "rd parent s' (Some (fst p)) = Some (cpar hs)" by (cases P) (auto dest: zrep_here)
      then show ?thesis using e a delete_fixup_red[OF a(2,7,4,5,8), of "cpar hs"] by (simp del: rd_simps)
    next
      fix s' hs T assume a: "?r = Some (rb_root s', s')" "zrep Q s' hs T" "T \<noteq> Lf" "rb (plug hs T)" "inorder (plug hs T) = inorder (plug fs X)"
      have t: "rep Q s' (plug hs T)" using a(2) zrep_plug by blast
      then have "rd parent s' (rb_root s') = Some None"
        using zrep_root[OF a(2)] a(3) by (cases "plug hs T") (auto simp: plug_Lf dest: zrep_here)
      then show ?thesis using e a delete_fixup_root[OF a(2), of None] by (simp del: rd_simps)
    qed
  qed
qed

section \<open>Unlinking\<close>

lemma remove_node:
  assumes z: "zrep Q s fs (Nd c l y r)" and e: "l = Lf \<or> r = Lf" and X: "X = (if l \<noteq> Lf then l else r)"
  shows "\<exists>s'. Option.bind (if ptr X \<noteq> None then wr (set_parent (cpar fs)) s (ptr X) else Some s)
      (\<lambda>s. swap_in_new_child s (Some (fst y)) (ptr X)) = Some s' \<and>
    zrep (Q(fst y \<mapsto> node y c (cpar fs) (ptr l) (ptr r))) s' fs X"
proof (cases fs)
  case Nil
  then show ?thesis using z e unfolding X by (cases l; cases r) (auto simp: zrep_def swap_in_new_child_def)
next
  case (Cons f gs)
  obtain d c' p u where f: "f = Fr d c' p u" by (cases f)
  show ?thesis using z e unfolding X Cons f by (cases l; cases r; cases d) (auto simp: zrep_def swap_in_new_child_def)
qed

text \<open>In between, the parent points to the new node but the children still to the old one.\<close>

definition midway :: "rbtree \<Rightarrow> rbtree \<Rightarrow> frame list \<Rightarrow> rbt \<Rightarrow> nat \<Rightarrow> nvgpu_rbtree_node \<Rightarrow> bool" where
  "midway s s' fs t a n \<longleftrightarrow> holds (rb_heap s') (lay (cpar fs) t) \<and> holds (rb_heap s') (layc (Some a) fs) \<and> rb_root s' = croot (Some a) fs \<and>
     rb_heap s' a = Some n \<and> (\<forall>b. b \<notin> set (addrs t @ caddrs fs) \<longrightarrow> b \<noteq> a \<longrightarrow> rb_heap s' b = rb_heap s b)"

lemma replace_above:
  assumes z: "zrep Q s fs (Nd c l x r)" and n: "rb_heap s (fst y) = Some (node y c0 p0 l0 r0)" "fst y \<notin> set (addrs (Nd c l x r) @ caddrs fs)"
  shows "\<exists>s'. Option.bind (wr (set_parent (cpar fs)) s (Some (fst y))) (\<lambda>s. swap_in_new_child s (Some (fst x)) (Some (fst y))) = Some s' \<and>
    midway s s' fs (Nd c l x r) (fst y) (node y c0 (cpar fs) l0 r0)"
proof (cases fs)
  case Nil
  show ?thesis using z n unfolding Nil by (simp add: zrep_def swap_in_new_child_def midway_def)
next
  case (Cons f gs)
  obtain d c' p u where f: "f = Fr d c' p u" by (cases f)
  have "ptr u \<noteq> Some (fst x)" using zrep_distinct[OF z] unfolding Cons f by simp
  then show ?thesis using z n unfolding Cons f by (cases d) (simp_all add: zrep_def swap_in_new_child_def midway_def del: ptr_in)
qed

lemma replace_below:
  assumes m: "midway s0 s fs (Nd c l x r) (fst y) (node y c0 (cpar fs) l0 r0)"
    and d: "distinct (fst y # addrs (Nd c l x r) @ caddrs fs)" and q: "\<forall>b. b \<notin> set (addrs (Nd c l x r) @ caddrs fs) \<longrightarrow> rb_heap s0 b = Q b"
  shows "\<exists>s'. do { z_red \<leftarrow> rd is_red s (Some (fst x)); s \<leftarrow> wr (set_red z_red) s (Some (fst y)); adopt_children s (Some (fst x)) (Some (fst y)) } = Some s' \<and>
    zrep (Q(fst x \<mapsto> node x c (cpar fs) (ptr l) (ptr r))) s' fs (Nd c l y r)"
  using assms by (cases l; cases r; simp add: zrep_def adopt_children_def midway_def del: ptr_in)

lemma replace_node:
  assumes z: "zrep Q s fs (Nd c l x r)" and n: "rb_heap s (fst y) = Some (node y c0 p0 l0 r0)" "fst y \<notin> set (addrs (Nd c l x r) @ caddrs fs)"
  shows "\<exists>s'. do { zp \<leftarrow> rd parent s (Some (fst x)); s \<leftarrow> wr (set_parent zp) s (Some (fst y)); s \<leftarrow> swap_in_new_child s (Some (fst x)) (Some (fst y));
      z_red \<leftarrow> rd is_red s (Some (fst x)); s \<leftarrow> wr (set_red z_red) s (Some (fst y)); adopt_children s (Some (fst x)) (Some (fst y)) } = Some s' \<and>
    zrep (Q(fst x \<mapsto> node x c (cpar fs) (ptr l) (ptr r))) s' fs (Nd c l y r)"
proof -
  obtain s1 where s1: "Option.bind (wr (set_parent (cpar fs)) s (Some (fst y))) (\<lambda>s. swap_in_new_child s (Some (fst x)) (Some (fst y))) = Some s1"
    "midway s s1 fs (Nd c l x r) (fst y) (node y c0 (cpar fs) l0 r0)" using replace_above[OF z n] by blast
  obtain s2 where s2: "do { z_red \<leftarrow> rd is_red s1 (Some (fst x)); s \<leftarrow> wr (set_red z_red) s1 (Some (fst y)); adopt_children s (Some (fst x)) (Some (fst y)) } = Some s2"
    "zrep (Q(fst x \<mapsto> node x c (cpar fs) (ptr l) (ptr r))) s2 fs (Nd c l y r)"
    using replace_below[OF s1(2), of Q] z n(2) by (auto simp: zrep_def)
  have "rd parent s (Some (fst x)) = Some (cpar fs)" using zrep_here[OF z] by simp
  moreover obtain s' where "wr (set_parent (cpar fs)) s (Some (fst y)) = Some s'" "swap_in_new_child s' (Some (fst x)) (Some (fst y)) = Some s1"
    using s1(1) by (auto simp: bind_eq_Some_conv simp del: wr_simps)
  ultimately show ?thesis using s2 by (simp del: rd_simps wr_simps)
qed

lemma zrep_append: "zrep Q s (gs @ fs) t \<longleftrightarrow> zrep Q s fs (plug gs t)"
  by (induction gs t rule: plug.induct) (simp_all add: zrep_up)

lemma leftmost_ok:
  assumes "zrep Q s fs t" "t \<noteq> Lf"
  shows "\<exists>ls c y r zs. leftmost s (ptr t) = Some (Some (fst y)) \<and> t = plug ls (Nd c Lf y r) \<and> (\<forall>X. inorder (plug ls X) = inorder X @ zs)"
  using assms
proof (induction t arbitrary: fs)
  case (Nd c l x r)
  note h = zrep_here[OF Nd.prems(1)]
  show ?case
  proof (cases "l = Lf")
    case True
    then have "leftmost s (ptr (Nd c l x r)) = Some (Some (fst x))" using h by (subst leftmost.simps) simp
    then show ?thesis using True by (intro exI[of _ "[]"] exI[of _ c] exI[of _ x] exI[of _ r] exI[of _ "[]"]) simp
  next
    case False
    have "zrep Q s (Fr L c x r # fs) l" using Nd.prems(1) by (simp add: zrep_up)
    then obtain ls c' y r' zs where i: "leftmost s (ptr l) = Some (Some (fst y))" "l = plug ls (Nd c' Lf y r')" "\<forall>X. inorder (plug ls X) = inorder X @ zs"
      using Nd.IH(1) False by blast
    have "leftmost s (ptr (Nd c l x r)) = leftmost s (ptr l)" using h False by (subst leftmost.simps) (cases l; simp)
    then show ?thesis using i
      by (intro exI[of _ "ls @ [Fr L c x r]"] exI[of _ c'] exI[of _ y] exI[of _ r'] exI[of _ "zs @ x # inorder r"]) simp
  qed
qed simp

lemma inorder_ctx: "\<exists>ps qs. \<forall>t. inorder (plug fs t) = ps @ inorder t @ qs"
proof (induction fs)
  case Nil
  show ?case by (intro exI[of _ "[]"]) simp
next
  case (Cons f fs)
  obtain d c x u where f: "f = Fr d c x u" by (cases f)
  obtain ps qs where p: "\<forall>t. inorder (plug fs t) = ps @ inorder t @ qs" using Cons by blast
  show ?case
  proof (cases d)
    case L
    then show ?thesis using p f by (intro exI[of _ ps] exI[of _ "x # inorder u @ qs"]) simp
  next
    case R
    then show ?thesis using p f by (intro exI[of _ "ps @ inorder u @ [x]"] exI[of _ qs]) simp
  qed
qed

lemma find_position: "x \<in> set (inorder t) \<Longrightarrow> \<exists>fs c l r. t = plug fs (Nd c l x r)"
proof (induction t)
  case (Nd c l y r)
  then consider "x = y" | "x \<in> set (inorder l)" | "x \<in> set (inorder r)" by auto
  then show ?case
  proof cases
    case 1
    then show ?thesis by (metis plug.simps(1))
  next
    case 2
    then obtain fs c' l' r' where "l = plug fs (Nd c' l' x r')" using Nd.IH(1) by blast
    then have "Nd c l y r = plug (fs @ [Fr L c y r]) (Nd c' l' x r')" by simp
    then show ?thesis by blast
  next
    case 3
    then obtain fs c' l' r' where "r = plug fs (Nd c' l' x r')" using Nd.IH(2) by blast
    then have "Nd c l y r = plug (fs @ [Fr R c y l]) (Nd c' l' x r')" by simp
    then show ?thesis by blast
  qed
qed simp

lemma sorted_distinct: "sorted_wrt (\<lambda>x y. ks x < ks y) xs \<Longrightarrow> distinct xs"
  by (induction xs) auto

text \<open>The rest of \<open>nvgpu_rbtree_unlink\<close> once \<open>y\<close> is known.\<close>

lemma unlink_rest_ok:
  assumes z: "zrep Q s fs X" and b: "rb X" "cok fs (if c then bh X else Suc (bh X))" "c \<longrightarrow> \<not> red X \<and> fs \<noteq> []"
  shows "balanced_as Q (inorder (plug fs X)) (if \<not> c then delete_fixup s (cpar fs) (ptr X) else Some s)"
proof (cases c)
  case True
  then have "rb (plug fs X)" "\<not> red (plug fs X)" using rb_plug[of fs X] red_plug[of fs _ X] b by auto
  moreover have "rep Q s (plug fs X)" using z zrep_plug by blast
  ultimately show ?thesis using True by (auto simp: balanced_as_def)
next
  case False
  then show ?thesis using delete_fixup_ok[OF z] b by simp
qed

lemma unlink_one_child:
  assumes z: "zrep Q s fs (Nd c l x r)" and e: "l = Lf \<or> r = Lf" and b: "rb (plug fs (Nd c l x r))" "\<not> red (plug fs (Nd c l x r))"
  shows "balanced_as (Q(fst x \<mapsto> node x c (cpar fs) (ptr l) (ptr r))) (inorder (plug fs (if l \<noteq> Lf then l else r))) (nvgpu_rbtree_unlink s (Some (fst x)))"
proof -
  define X where "X = (if l \<noteq> Lf then l else r)"
  let ?Q = "Q(fst x \<mapsto> node x c (cpar fs) (ptr l) (ptr r))"
  have k: "cok fs (bh (Nd c l x r))" "rb (Nd c l x r)" "c \<longrightarrow> fs \<noteq> []" using cok_of_rb[OF b] by auto
  obtain s1 where s1: "Option.bind (if ptr X \<noteq> None then wr (set_parent (cpar fs)) s (ptr X) else Some s)
      (\<lambda>s. swap_in_new_child s (Some (fst x)) (ptr X)) = Some s1" "zrep ?Q s1 fs X" using remove_node[OF z e X_def] by blast
  then obtain s' where s': "(if ptr X \<noteq> None then wr (set_parent (cpar fs)) s (ptr X) else Some s) = Some s'" "swap_in_new_child s' (Some (fst x)) (ptr X) = Some s1"
    by (auto simp: bind_eq_Some_conv simp del: wr_simps)
  have "fst x \<notin> set (addrs X @ caddrs fs)" using zrep_distinct[OF z] by (auto simp: X_def)
  then have h: "rb_heap s1 (fst x) = Some (node x c (cpar fs) (ptr l) (ptr r))" using s1(2) by (auto simp: zrep_def)
  have "nvgpu_rbtree_unlink s (Some (fst x)) = (if \<not> c then delete_fixup s1 (cpar fs) (ptr X) else Some s1)"
  proof (cases "l = Lf")
    case True
    then have x: "X = r" by (simp add: X_def)
    show ?thesis using zrep_here[OF z] s'[unfolded x] h True unfolding x
      by (cases "ptr r") (simp_all add: nvgpu_rbtree_unlink_def Let_def del: wr_simps)
  next
    case False
    then have x: "X = l" by (simp add: X_def)
    obtain a where "ptr l = Some a" "r = Lf" using e False by (cases l) auto
    then show ?thesis using zrep_here[OF z] s'[unfolded x] h unfolding x by (simp add: nvgpu_rbtree_unlink_def Let_def del: wr_simps)
  qed
  moreover have "rb X" "cok fs (if c then bh X else Suc (bh X))" "c \<longrightarrow> \<not> red X \<and> fs \<noteq> []" using k e by (auto simp: X_def)
  ultimately show ?thesis using unlink_rest_ok[OF s1(2)] by (simp only: X_def)
qed

lemma cpar_append: "gs \<noteq> [] \<Longrightarrow> cpar (gs @ fs) = cpar gs"
  by (cases gs rule: cpar.cases) auto

lemma cpar_in: "cpar fs = Some a \<Longrightarrow> a \<in> set (caddrs fs)"
  by (cases fs rule: cpar.cases) auto

lemma cok_rename: "cok (gs @ Fr d c x u # fs) n \<longleftrightarrow> cok (gs @ Fr d c y u # fs) n"
proof (induction gs arbitrary: n)
  case (Cons f gs)
  obtain e c' z v where f: "f = Fr e c' z v" by (cases f)
  have "cred (gs @ Fr d c x u # fs) = cred (gs @ Fr d c y u # fs)" by (cases gs rule: cred.cases) auto
  then show ?case using Cons f by simp
qed simp

lemma caddrs_append: "caddrs (gs @ fs) = caddrs gs @ caddrs fs"
  by (induction gs rule: caddrs.induct) auto

lemma unlink_two_children:
  assumes z: "zrep Q s fs (Nd c l x r)" and e: "l \<noteq> Lf" "r \<noteq> Lf" and b: "rb (plug fs (Nd c l x r))" "\<not> red (plug fs (Nd c l x r))"
  shows "\<exists>n T. balanced_as (Q(fst x \<mapsto> n)) (inorder (plug fs T)) (nvgpu_rbtree_unlink s (Some (fst x))) \<and> inorder T = inorder l @ inorder r"
proof -
  have zr: "zrep Q s (Fr R c x l # fs) r" using z by (simp add: zrep_up)
  obtain ls cy y yr zs where lm: "leftmost s (ptr r) = Some (Some (fst y))" "r = plug ls (Nd cy Lf y yr)" "\<forall>X. inorder (plug ls X) = inorder X @ zs"
    using leftmost_ok[OF zr e(2)] by blast
  let ?f = "ls @ Fr R c x l # fs" and ?g = "ls @ Fr R c y l # fs"
  have zy: "zrep Q s ?f (Nd cy Lf y yr)" using zr lm(2) by (simp add: zrep_append)
  have py: "plug fs (Nd c l x r) = plug ?f (Nd cy Lf y yr)" using lm(2) by simp
  have k: "cok ?f (bh (Nd cy Lf y yr))" "rb (Nd cy Lf y yr)" using cok_of_rb[OF b[unfolded py]] by auto
  let ?ny = "node y cy (cpar ?f) None (ptr yr)"
  obtain s1 where s1: "Option.bind (if ptr yr \<noteq> None then wr (set_parent (cpar ?f)) s (ptr yr) else Some s)
      (\<lambda>s. swap_in_new_child s (Some (fst y)) (ptr yr)) = Some s1" "zrep (Q(fst y \<mapsto> ?ny)) s1 ?f yr" using remove_node[OF zy, of yr] by auto
  then obtain s' where s': "(if ptr yr \<noteq> None then wr (set_parent (cpar ?f)) s (ptr yr) else Some s) = Some s'" "swap_in_new_child s' (Some (fst y)) (ptr yr) = Some s1"
    by (auto simp: bind_eq_Some_conv simp del: wr_simps)
  let ?r = "plug ls yr"
  have z1: "zrep (Q(fst y \<mapsto> ?ny)) s1 fs (Nd c l x ?r)" using s1(2) by (simp add: zrep_append zrep_up)
  have "fst y \<notin> set (addrs yr @ caddrs ?f)" using zrep_distinct[OF zy] by auto
  then have out: "fst y \<notin> set (addrs (Nd c l x ?r) @ caddrs fs)" by (auto simp: caddrs_append caddrs_plug)
  then have hy: "rb_heap s1 (fst y) = Some ?ny" using z1 by (auto simp: zrep_def)
  have neq: "fst y \<noteq> fst x" using out by simp
  let ?nx = "node x c (cpar fs) (ptr l) (ptr ?r)"
  obtain s2 where s2: "do { zp \<leftarrow> rd parent s1 (Some (fst x)); s \<leftarrow> wr (set_parent zp) s1 (Some (fst y)); s \<leftarrow> swap_in_new_child s (Some (fst x)) (Some (fst y));
      z_red \<leftarrow> rd is_red s (Some (fst x)); s \<leftarrow> wr (set_red z_red) s (Some (fst y)); adopt_children s (Some (fst x)) (Some (fst y)) } = Some s2"
    "zrep (Q(fst y \<mapsto> ?ny, fst x \<mapsto> ?nx)) s2 fs (Nd c l y ?r)" using replace_node[OF z1 hy out] by blast
  have z2: "zrep (Q(fst x \<mapsto> ?nx)) s2 ?g yr"
  proof -
    have "zrep (Q(fst x \<mapsto> ?nx)) s2 fs (Nd c l y ?r)" using s2(2) by (auto simp: zrep_def)
    then show ?thesis by (simp add: zrep_append zrep_up)
  qed
  have pe: "(if cpar ?f = Some (fst x) then Some (fst y) else cpar ?f) = cpar ?g"
  proof (cases "ls = []")
    case False
    have "cpar ls \<noteq> Some (fst x)" using zrep_distinct[OF zy] cpar_in[of ls "fst x"] by (auto simp: caddrs_append)
    then show ?thesis using False by (simp add: cpar_append)
  qed simp
  obtain la ra where pp: "ptr l = Some la" "ptr r = Some ra" using e by (cases l; cases r) auto
  have "nvgpu_rbtree_unlink s (Some (fst x)) = (if \<not> cy then delete_fixup s2 (cpar ?g) (ptr yr) else Some s2)"
  proof -
    obtain zp sa sb zc sc where d: "rd parent s1 (Some (fst x)) = Some zp" "wr (set_parent zp) s1 (Some (fst y)) = Some sa"
      "swap_in_new_child sa (Some (fst x)) (Some (fst y)) = Some sb" "rd is_red sb (Some (fst x)) = Some zc"
      "wr (set_red zc) sb (Some (fst y)) = Some sc" "adopt_children sc (Some (fst x)) (Some (fst y)) = Some s2"
      using s2(1) unfolding bind_eq_Some_conv by blast
    have r: "rd left s (Some (fst x)) = Some (Some la)" "rd right s (Some (fst x)) = Some (Some ra)" "rd left s (Some (fst y)) = Some None"
      "rd right s (Some (fst y)) = Some (ptr yr)" "rd parent s (Some (fst y)) = Some (cpar ?f)" "rd is_red s1 (Some (fst y)) = Some cy"
      using zrep_here[OF z] zrep_here[OF zy] hy pp by simp_all
    show ?thesis unfolding nvgpu_rbtree_unlink_def Let_def pe[symmetric]
      using r d s' lm(1)[unfolded pp(2)] neq by (cases "ptr yr") (simp_all del: wr_simps rd_simps)
  qed
  moreover have "cok ?g (if cy then bh yr else Suc (bh yr))" using k cok_rename[of ls R c x l fs _ y] by (cases cy) auto
  ultimately have "balanced_as (Q(fst x \<mapsto> ?nx)) (inorder (plug ?g yr)) (nvgpu_rbtree_unlink s (Some (fst x)))"
    using unlink_rest_ok[OF z2, of cy] k(2) by simp
  moreover have "inorder (Nd c l y ?r) = inorder l @ inorder r" using lm(2,3) by simp
  ultimately show ?thesis by (intro exI[of _ ?nx] exI[of _ "Nd c l y ?r"]) simp
qed

lemma unlink_ok:
  assumes ok: "rbtree_ok Q s xs" and x: "x \<in> set xs"
  shows "\<exists>s' n. nvgpu_rbtree_unlink s (Some (fst x)) = Some s' \<and> rbtree_ok (Q(fst x \<mapsto> n)) s' (remove1 x xs)"
proof -
  obtain t where t: "rep Q s t" "rb t" "\<not> red t" "ordered t" "inorder t = xs" using ok by (rule rbtree_okE)
  obtain fs c l r where p: "t = plug fs (Nd c l x r)" using find_position[of x t] x t(5) by blast
  have z: "zrep Q s fs (Nd c l x r)" using t(1) p zrep_plug by blast
  obtain ps qs where i: "\<forall>t. inorder (plug fs t) = ps @ inorder t @ qs" using inorder_ctx by blast
  have xs: "xs = (ps @ inorder l) @ x # (inorder r @ qs)" using t(5) p i by simp
  have so: "sorted_wrt (\<lambda>x y. ks x < ks y) xs" using t(4,5) by (simp add: ordered_def)
  have rm: "remove1 x xs = (ps @ inorder l) @ inorder r @ qs" using sorted_distinct[OF so] unfolding xs by (auto simp: remove1_append)
  have so': "sorted_wrt (\<lambda>x y. ks x < ks y) (remove1 x xs)" using so unfolding rm unfolding xs by (auto simp: sorted_wrt_append)
  have fin: ?thesis if "balanced_as (Q(fst x \<mapsto> n)) (remove1 x xs) (nvgpu_rbtree_unlink s (Some (fst x)))" for n
    using that so' unfolding balanced_as_def rbtree_ok_def ordered_def by metis
  note b = t(2,3)[unfolded p]
  show ?thesis
  proof (cases "l = Lf \<or> r = Lf")
    case True
    then have "inorder (plug fs (if l \<noteq> Lf then l else r)) = remove1 x xs" using i rm by auto
    then show ?thesis using fin unlink_one_child[OF z True b] by simp
  next
    case False
    then obtain n T where "balanced_as (Q(fst x \<mapsto> n)) (inorder (plug fs T)) (nvgpu_rbtree_unlink s (Some (fst x)))" "inorder T = inorder l @ inorder r"
      using unlink_two_children[OF z _ _ b] by blast
    then show ?thesis using fin[of n] i rm by simp
  qed
qed

end
