(* ===== verification/Rbtree_Index.thy ===== *)
theory Rbtree_Index
  imports Rbtree_Unlink Interval_Index
begin

text \<open>
  The red-black tree implements the key-ordered index the allocators work on: the searches and the enumeration
  against the sequence of nodes, the interpretation of the interface \<open>ordered_index\<close>, and the depth of the tree.
\<close>

section \<open>Searches\<close>

lemma find_append: "find P (xs @ ys) = (case find P xs of None \<Rightarrow> find P ys | Some x \<Rightarrow> Some x)"
  by (induction xs) auto

lemma find_none: "\<forall>x\<in>set xs. \<not> P x \<Longrightarrow> find P xs = None"
  by (induction xs) auto

lemma zrep_children:
  assumes "zrep Q s fs (Nd c l x r)"
  shows "zrep Q s (Fr L c x r # fs) l" "zrep Q s (Fr R c x l # fs) r"
    "rd key_start s (Some (fst x)) = Some (ks x)" "rd left s (Some (fst x)) = Some (ptr l)" "rd right s (Some (fst x)) = Some (ptr r)"
    "rd key_end s (Some (fst x)) = Some (snd (snd x))"
  using assms zrep_here[OF assms] by (simp_all add: zrep_up ks_def)

lemma search_ok:
  assumes "zrep Q s fs t" "ordered t"
  shows "rb_search s k (ptr t) = Some (map_option fst (find (\<lambda>x. ks x = k) (inorder t)))"
  using assms
proof (induction t arbitrary: fs)
  case Lf
  then show ?case by (simp add: rb_search.simps)
next
  case (Nd c l x r)
  note C = zrep_children[OF Nd.prems(1)]
  have l: "find (\<lambda>x. ks x = k) (inorder l) = None" if "k \<ge> ks x" using that Nd.prems(2) by (intro find_none) auto
  have r: "find (\<lambda>x. ks x = k) (inorder r) = None" if "k \<le> ks x" using that Nd.prems(2) by (intro find_none) auto
  show ?case using Nd.IH(1)[OF C(1)] Nd.IH(2)[OF C(2)] Nd.prems(2) C(3-5) l r
    by (subst rb_search.simps) (auto simp: find_append simp del: rd_simps split: option.split)
qed

text \<open>Ranges that do not overlap, as the clients keep them.\<close>

definition apart :: "item list \<Rightarrow> bool" where
  "apart xs \<longleftrightarrow> sorted_wrt (\<lambda>x y. snd (snd x) \<le> ks y) xs"

lemma range_search_ok:
  assumes "zrep Q s fs t" "ordered t" "apart (inorder t)"
  shows "rb_range_search s k (ptr t) = Some (map_option fst (find (\<lambda>x. ks x \<le> k \<and> k < snd (snd x)) (inorder t)))"
  using assms
proof (induction t arbitrary: fs)
  case Lf
  then show ?case by (simp add: rb_range_search.simps)
next
  case (Nd c l x r)
  let ?P = "\<lambda>x. ks x \<le> k \<and> k < snd (snd x)"
  note C = zrep_children[OF Nd.prems(1)]
  have a: "apart (inorder l)" "apart (inorder r)" "\<forall>y\<in>set (inorder l). snd (snd y) \<le> ks x"
    using Nd.prems(3) by (auto simp: apart_def sorted_wrt_append)
  have l: "find ?P (inorder l) = None" if "k \<ge> ks x" using that a(3) by (intro find_none) auto
  have r: "find ?P (inorder r) = None" if "k < ks x" using that Nd.prems(2) by (intro find_none) auto
  show ?case using Nd.IH(1)[OF C(1) _ a(1)] Nd.IH(2)[OF C(2) _ a(2)] Nd.prems(2) C(3-6) l r
    by (subst rb_range_search.simps) (auto simp: find_append simp del: rd_simps split: option.split)
qed

lemma less_than_ok:
  assumes "zrep Q s fs t" "ordered t"
  shows "rb_less_than s k (ptr t) q =
    Some (let ys = filter (\<lambda>x. ks x < k) (inorder t) in if ys = [] then q else Some (fst (last ys)))"
  using assms
proof (induction t arbitrary: fs q)
  case Lf
  then show ?case by (simp add: rb_less_than.simps)
next
  case (Nd c l x r)
  note C = zrep_children[OF Nd.prems(1)]
  show ?case
  proof (cases "k \<le> ks x")
    case True
    then have "filter (\<lambda>x. ks x < k) (inorder r) = []" using Nd.prems(2) by (auto simp: filter_empty_conv)
    then show ?thesis using Nd.IH(1)[OF C(1)] Nd.prems(2) C(3-5) True by (subst rb_less_than.simps) (simp add: Let_def del: rd_simps)
  next
    case False
    then have "rb_less_than s k (ptr (Nd c l x r)) q = rb_less_than s k (ptr r) (Some (fst x))"
      using C(3-5) by (subst rb_less_than.simps) (simp del: rd_simps)
    then show ?thesis using Nd.IH(2)[OF C(2)] Nd.prems(2) False by (simp add: Let_def)
  qed
qed

lemma enum_start_ok:
  assumes "zrep Q s fs t" "ordered t"
  shows "rb_enum_start s k (ptr t) q = Some (case find (\<lambda>x. k \<le> ks x) (inorder t) of None \<Rightarrow> q | Some x \<Rightarrow> Some (fst x))"
  using assms
proof (induction t arbitrary: fs q)
  case Lf
  then show ?case by (simp add: rb_enum_start.simps)
next
  case (Nd c l x r)
  note C = zrep_children[OF Nd.prems(1)]
  have l: "find (\<lambda>x. k \<le> ks x) (inorder l) = None" if "k \<ge> ks x" using that Nd.prems(2) by (intro find_none) auto
  show ?case using Nd.IH(1)[OF C(1)] Nd.IH(2)[OF C(2)] Nd.prems(2) C(3-5) l
    by (subst rb_enum_start.simps) (auto simp: find_append simp del: rd_simps split: option.split)
qed

section \<open>The next node\<close>

fun pre :: "frame list \<Rightarrow> item list" where
  "pre [] = []"
| "pre (Fr L c x u # fs) = pre fs"
| "pre (Fr R c x u # fs) = pre fs @ inorder u @ [x]"

fun post :: "frame list \<Rightarrow> item list" where
  "post [] = []"
| "post (Fr L c x u # fs) = x # inorder u @ post fs"
| "post (Fr R c x u # fs) = post fs"

lemma inorder_pre_post: "inorder (plug fs t) = pre fs @ inorder t @ post fs"
  by (induction fs arbitrary: t rule: pre.induct) auto

definition first :: "item list \<Rightarrow> ptr" where
  "first xs = (case xs of [] \<Rightarrow> None | x # _ \<Rightarrow> Some (fst x))"

lemma climb_ok:
  assumes "zrep Q s fs t" "\<forall>x\<in>set (pre fs). ks x \<le> k" "\<forall>x\<in>set (post fs). k < ks x"
  shows "climb s k (cpar fs) = Some (first (post fs))"
  using assms
proof (induction fs arbitrary: t)
  case Nil
  then show ?case by (subst climb.simps) (simp add: first_def)
next
  case (Cons f fs)
  obtain d c x u where f: "f = Fr d c x u" by (cases f)
  have z: "zrep Q s fs (nd d c t x u)" using Cons.prems(1) f by (simp add: zrep_up)
  have r: "rd key_start s (Some (fst x)) = Some (ks x)" "rd parent s (Some (fst x)) = Some (cpar fs)"
    using zrep_here_nd[OF z] by (simp_all add: ks_def)
  have IH: "d = R \<Longrightarrow> climb s k (cpar fs) = Some (first (post fs))" using Cons.IH[OF z] Cons.prems f by (cases d) auto
  have k: "ks x > k \<longleftrightarrow> d = L" using Cons.prems f by (cases d) auto
  show ?case using IH r k f by (subst climb.simps) (cases d; simp add: first_def del: rd_simps)
qed

lemma leftmost_first: "zrep Q s fs t \<Longrightarrow> t \<noteq> Lf \<Longrightarrow> leftmost s (ptr t) = Some (first (inorder t))"
  using leftmost_ok[of Q s fs t] by (force simp: first_def)

lemma enum_next_ok:
  assumes ok: "rbtree_ok Q s (ys @ x # zs)"
  shows "nvgpu_rbtree_enum_next s (Some (fst x)) = Some (first zs)"
proof -
  obtain t where t: "rep Q s t" "ordered t" "inorder t = ys @ x # zs" using ok by (rule rbtree_okE)
  obtain fs c l r where p: "t = plug fs (Nd c l x r)" using find_position[of x t] t(3) by auto
  have z: "zrep Q s fs (Nd c l x r)" using t(1) p zrep_plug by blast
  have so: "sorted_wrt (\<lambda>x y. ks x < ks y) (ys @ x # zs)" using t(2,3) by (simp add: ordered_def)
  have i: "(pre fs @ inorder l) @ x # (inorder r @ post fs) = ys @ x # zs" using t(3) p by (simp add: inorder_pre_post)
  have "x \<notin> set (pre fs @ inorder l)" using sorted_distinct[OF so] unfolding i[symmetric] by auto
  then have zs: "zs = inorder r @ post fs" using i sorted_distinct[OF so]
    by (metis append_Cons_eq_iff distinct_append distinct.simps(2) not_distinct_conv_prefix)
  have lt: "\<forall>y\<in>set (pre fs). ks y < ks x" "\<forall>y\<in>set (post fs). ks x < ks y"
    using so unfolding i[symmetric] by (auto simp: sorted_wrt_append)
  note C = zrep_children[OF z]
  have root: "rb_root s \<noteq> None" using zrep_root[OF z] by (cases "plug fs (Nd c l x r)") (auto simp: plug_Lf)
  show ?thesis
  proof (cases "r = Lf")
    case True
    have "rd parent s (Some (fst x)) = Some (cpar fs)" using zrep_here[OF z] by simp
    then show ?thesis using climb_ok[OF z, of "ks x"] lt C(3,5) True root zs
      by (simp add: nvgpu_rbtree_enum_next_def less_imp_le del: rd_simps)
  next
    case False
    then obtain a where "ptr r = Some a" by (cases r) auto
    then show ?thesis using leftmost_first[OF C(2) False] C(5) root zs False
      by (cases "inorder r") (auto simp: nvgpu_rbtree_enum_next_def first_def simp del: rd_simps, (cases r; simp))
  qed
qed

section \<open>The interface\<close>

definition entry :: "item \<Rightarrow> u64 \<times> nat" where
  "entry x = (ks x, fst x)"

definition rb_index :: "rbtree \<Rightarrow> nat index \<Rightarrow> bool" where
  "rb_index s xs \<longleftrightarrow> (\<exists>Q ys. rbtree_ok Q s ys \<and> xs = map entry ys)"

lemma rbtree_ok_sorted: "rbtree_ok Q s ys \<Longrightarrow> sorted_wrt (\<lambda>x y. ks x < ks y) ys"
  by (auto simp: rbtree_ok_def ordered_def)

lemma rbtree_ok_addrs: "rbtree_ok Q s ys \<Longrightarrow> distinct (map fst ys)"
proof -
  have "mset (addrs t) = mset (map fst (inorder t))" for t by (induction t) auto
  then show "rbtree_ok Q s ys \<Longrightarrow> distinct (map fst ys)"
    unfolding rbtree_ok_def zrep_def using mset_eq_imp_distinct_iff by fastforce
qed

lemma idx_sorted_entry: "sorted_wrt (\<lambda>x y. ks x < ks y) ys \<Longrightarrow> idx_sorted (map entry ys)"
  by (simp add: idx_sorted_def sorted_wrt_map entry_def)

lemma insort_entry: "ks y \<notin> ks ` set ys \<Longrightarrow> map entry (insort_key ks y ys) = idx_insert (ks y) (fst y) (map entry ys)"
  by (induction ys) (auto simp: entry_def)

lemma insert_present: "idx_sorted xs \<Longrightarrow> k \<in> fst ` set xs \<Longrightarrow> idx_insert k v xs = xs"
  by (induction k v xs rule: idx_insert.induct) auto

lemma unlink_entry: "sorted_wrt (\<lambda>x y. ks x < ks y) ys \<Longrightarrow> x \<in> set ys \<Longrightarrow> map entry (remove1 x ys) = idx_unlink (ks x) (map entry ys)"
proof (induction ys)
  case (Cons y ys)
  then show ?case
  proof (cases "x = y")
    case True
    then have "filter (\<lambda>p. fst p \<noteq> ks x) (map entry ys) = map entry ys" using Cons.prems(1) by (intro filter_True) (auto simp: entry_def)
    moreover have "fst (entry y) = ks y" by (simp add: entry_def)
    ultimately show ?thesis using True by (simp add: idx_unlink_def)
  next
    case False
    then have "ks y \<noteq> ks x" using Cons.prems by auto
    then show ?thesis using Cons False by (simp add: idx_unlink_def entry_def)
  qed
qed simp

lemma search_entry: "sorted_wrt (\<lambda>x y. ks x < ks y) ys \<Longrightarrow> map_option fst (find (\<lambda>x. ks x = k) ys) = idx_search k (map entry ys)"
  by (induction ys) (auto simp: idx_search_def entry_def)

lemma enum_entry: "map_option fst (find (\<lambda>x. k \<le> ks x) ys) = map_option snd (idx_enum_start k (map entry ys))"
  by (induction ys) (auto simp: idx_enum_start_def entry_def)

lemma rb_index_insert:
  assumes "rb_index s xs" "rb_heap s a = Some n" "a \<notin> snd ` set xs"
  shows "\<exists>s'. nvgpu_rbtree_insert s (Some a) = Some s' \<and> rb_index s' (idx_insert (key_start n) a xs)"
proof -
  obtain Q ys where y: "rbtree_ok Q s ys" "xs = map entry ys" using assms(1) by (auto simp: rb_index_def)
  have a: "a \<notin> fst ` set ys" using assms(3) y(2) by (auto simp: entry_def image_image)
  have so: "idx_sorted xs" using idx_sorted_entry[OF rbtree_ok_sorted[OF y(1)]] y(2) by simp
  have k: "key_start n \<in> ks ` set ys \<longleftrightarrow> key_start n \<in> fst ` set xs" using y(2) by (auto simp: entry_def image_image)
  show ?thesis
  proof (cases "key_start n \<in> ks ` set ys")
    case True
    then show ?thesis using insert_ok[OF y(1) assms(2) a] insert_present[OF so] k assms(1) by auto
  next
    case False
    then obtain s' where "nvgpu_rbtree_insert s (Some a) = Some s'" "rbtree_ok Q s' (insort_key ks (a, key_start n, key_end n) ys)"
      using insert_ok[OF y(1) assms(2) a] by auto
    moreover have "map entry (insort_key ks (a, key_start n, key_end n) ys) = idx_insert (key_start n) a xs"
      using insort_entry[of "(a, key_start n, key_end n)" ys] False y(2) by (simp add: ks_def)
    ultimately show ?thesis unfolding rb_index_def by metis
  qed
qed

lemma rb_index_unlink:
  assumes "rb_index s xs" "(k, a) \<in> set xs"
  shows "\<exists>s'. nvgpu_rbtree_unlink s (Some a) = Some s' \<and> rb_index s' (idx_unlink k xs)"
proof -
  obtain Q ys where y: "rbtree_ok Q s ys" "xs = map entry ys" using assms(1) by (auto simp: rb_index_def)
  obtain x where x: "x \<in> set ys" "ks x = k" "fst x = a" using assms(2) y(2) by (auto simp: entry_def)
  obtain s' n where "nvgpu_rbtree_unlink s (Some a) = Some s'" "rbtree_ok (Q(a \<mapsto> n)) s' (remove1 x ys)"
    using unlink_ok[OF y(1) x(1)] x(3) by blast
  moreover have "map entry (remove1 x ys) = idx_unlink k xs" using unlink_entry[OF rbtree_ok_sorted[OF y(1)] x(1)] x(2) y(2) by simp
  ultimately show ?thesis unfolding rb_index_def by metis
qed

lemma rb_index_enum_next:
  assumes "rb_index s (us @ (k, a) # vs)"
  shows "nvgpu_rbtree_enum_next s (Some a) = Some (case vs of [] \<Rightarrow> None | z # _ \<Rightarrow> Some (snd z))"
proof -
  obtain Q ys where y: "rbtree_ok Q s ys" "us @ (k, a) # vs = map entry ys" using assms by (auto simp: rb_index_def)
  obtain ys1 x ys2 where s: "ys = ys1 @ x # ys2" "entry x = (k, a)" "map entry ys2 = vs" using y(2) by (auto simp: map_eq_append_conv append_eq_map_conv Cons_eq_map_conv)
  show ?thesis using enum_next_ok[of Q s ys1 x ys2] y(1) s by (cases ys2) (auto simp: entry_def first_def)
qed

lemma rb_index_search: "rb_index s xs \<Longrightarrow> nvgpu_rbtree_search s k = Some (idx_search k xs)"
proof -
  assume "rb_index s xs"
  then obtain Q ys where y: "rbtree_ok Q s ys" "xs = map entry ys" by (auto simp: rb_index_def)
  obtain t where t: "rep Q s t" "ordered t" "inorder t = ys" using y(1) by (rule rbtree_okE)
  show ?thesis using search_ok[OF t(1,2), of k] zrep_root[OF t(1)] t(3) search_entry[OF rbtree_ok_sorted[OF y(1)]] y(2)
    by (simp add: nvgpu_rbtree_search_def)
qed

lemma rb_index_enum_start: "rb_index s xs \<Longrightarrow> nvgpu_rbtree_enum_start s k = Some (map_option snd (idx_enum_start k xs))"
proof -
  assume "rb_index s xs"
  then obtain Q ys where y: "rbtree_ok Q s ys" "xs = map entry ys" by (auto simp: rb_index_def)
  obtain t where t: "rep Q s t" "ordered t" "inorder t = ys" using y(1) by (rule rbtree_okE)
  have "nvgpu_rbtree_enum_start s k = Some (map_option fst (find (\<lambda>x. k \<le> ks x) ys))"
    using enum_start_ok[OF t(1,2), of k None] zrep_root[OF t(1)] t(3) by (simp add: nvgpu_rbtree_enum_start_def split: option.split)
  then show ?thesis using enum_entry y(2) by simp
qed

interpretation rbi: ordered_index rb_index "\<lambda>s a. map_option key_start (rb_heap s a)" "\<lambda>s a. nvgpu_rbtree_insert s (Some a)"
  "\<lambda>s a. nvgpu_rbtree_unlink s (Some a)" nvgpu_rbtree_search nvgpu_rbtree_enum_start "\<lambda>s a. nvgpu_rbtree_enum_next s (Some a)"
proof unfold_locales
  fix s xs assume "rb_index s xs"
  then show "idx_sorted xs" using idx_sorted_entry rbtree_ok_sorted by (auto simp: rb_index_def)
qed (use rb_index_insert rb_index_unlink rb_index_enum_next rb_index_search rb_index_enum_start in \<open>auto\<close>)

section \<open>Depth\<close>

fun height :: "rbt \<Rightarrow> nat" where
  "height Lf = 0"
| "height (Nd c l x r) = Suc (max (height l) (height r))"

lemma height_bh: "rb t \<Longrightarrow> height t \<le> 2 * bh t + (if red t then 1 else 0)"
  by (induction t) (auto split: if_splits)

lemma bh_size: "rb t \<Longrightarrow> 2 ^ bh t \<le> Suc (length (inorder t))"
proof (induction t)
  case (Nd c l x r)
  then have "2 ^ bh l \<le> Suc (length (inorder l))" "2 ^ bh l \<le> Suc (length (inorder r))" by auto
  then show ?case by simp
qed simp

lemma height_size:
  assumes "rb t" "\<not> red t"
  shows "2 ^ height t \<le> (Suc (length (inorder t)))\<^sup>2"
proof -
  have "(2 :: nat) ^ height t \<le> 2 ^ (2 * bh t)" using height_bh[OF assms(1)] assms(2) by (intro power_increasing) auto
  also have "\<dots> = (2 ^ bh t)\<^sup>2" by (simp add: power_mult power2_eq_square mult.commute[of 2] flip: power_mult_distrib)
  also have "\<dots> \<le> (Suc (length (inorder t)))\<^sup>2" using bh_size[OF assms(1)] by (rule power_mono) simp
  finally show ?thesis .
qed

text \<open>Following left and right pointers.\<close>

fun descend :: "rbtree \<Rightarrow> dir list \<Rightarrow> ptr \<Rightarrow> ptr option" where
  "descend s [] p = Some p"
| "descend s (d # ds) p = do { q \<leftarrow> rd (case d of L \<Rightarrow> left | R \<Rightarrow> right) s p; descend s ds q }"

lemma descend_height: "zrep Q s fs t \<Longrightarrow> descend s ds (ptr t) = Some (Some a) \<Longrightarrow> length ds < height t"
proof (induction ds arbitrary: fs t)
  case Nil
  then show ?case by (cases t) auto
next
  case (Cons d ds)
  then obtain c l x r where t: "t = Nd c l x r" by (cases t) auto
  note C = zrep_children[OF Cons.prems(1)[unfolded t]]
  show ?case using Cons.IH[OF C(1)] Cons.IH[OF C(2)] Cons.prems(2) C(4,5) t by (cases d) (auto simp del: rd_simps)
qed

section \<open>Properties\<close>

text \<open>Stores that clients reach: an empty tree; inserting an allocated node that is not in it; unlinking one that
  is; and anything a client does to nodes that are not in the tree, such as allocating and keying one.\<close>

inductive rb_reach :: "rbtree \<Rightarrow> nat index \<Rightarrow> bool" where
  empty: "rb_root s = None \<Longrightarrow> rb_reach s []"
| inserted: "rb_reach s xs \<Longrightarrow> rb_heap s a = Some n \<Longrightarrow> a \<notin> snd ` set xs \<Longrightarrow> nvgpu_rbtree_insert s (Some a) = Some s' \<Longrightarrow>
     rb_reach s' (idx_insert (key_start n) a xs)"
| unlinked: "rb_reach s xs \<Longrightarrow> (k, a) \<in> set xs \<Longrightarrow> nvgpu_rbtree_unlink s (Some a) = Some s' \<Longrightarrow> rb_reach s' (idx_unlink k xs)"
| other: "rb_reach s xs \<Longrightarrow> \<forall>a\<in>snd ` set xs. h a = rb_heap s a \<Longrightarrow> rb_reach (s\<lparr>rb_heap := h\<rparr>) xs"

lemma zrep_elsewhere:
  assumes "rep Q s t" "\<forall>a\<in>set (addrs t). h a = rb_heap s a"
  shows "rep h (s\<lparr>rb_heap := h\<rparr>) t"
proof -
  have "holds h (lay None t) = holds (rb_heap s) (lay None t)"
    using assms(2) arg_cong[OF lay_addrs[of None t], of set] by (force simp: holds_def)
  then show ?thesis using assms(1) by (simp add: zrep_def)
qed

lemma rb_reach_index: "rb_reach s xs \<Longrightarrow> rb_index s xs"
proof (induction rule: rb_reach.induct)
  case (empty s)
  then have "rep (rb_heap s) s Lf" by (simp add: zrep_def)
  then have "rbtree_ok (rb_heap s) s []" unfolding rbtree_ok_def by (intro exI[of _ Lf]) simp
  then show ?case unfolding rb_index_def by (metis list.simps(8))
next
  case (inserted s xs a n s')
  then show ?case using rb_index_insert by fastforce
next
  case (unlinked s xs k a s')
  then show ?case using rb_index_unlink by fastforce
next
  case (other s xs h)
  then obtain Q ys t where y: "rep Q s t" "rb t" "\<not> red t" "ordered t" "inorder t = ys" "xs = map entry ys"
    by (auto simp: rb_index_def rbtree_ok_def)
  have "set (addrs t) = snd ` set xs" using y(5,6) by (auto simp: set_addrs entry_def image_image)
  then have "rep h (s\<lparr>rb_heap := h\<rparr>) t" using zrep_elsewhere[OF y(1)] other.hyps(2) by auto
  then show ?case unfolding rb_index_def rbtree_ok_def using y(2-6) by blast
qed

text \<open>A node with the given range, allocated and inserted.\<close>

definition fresh_node :: "u64 \<Rightarrow> u64 \<Rightarrow> nvgpu_rbtree_node" where
  "fresh_node k e = \<lparr>key_start = k, key_end = e, is_red = False, parent = None, left = None, right = None\<rparr>"

definition alloc_node :: "nat \<Rightarrow> u64 \<Rightarrow> rbtree \<Rightarrow> rbtree" where
  "alloc_node a k s = s\<lparr>rb_heap := (rb_heap s)(a \<mapsto> fresh_node k (k + 10))\<rparr>"

lemma reach_add:
  assumes "rb_reach s xs" "a \<notin> snd ` set xs"
  obtains s' where "nvgpu_rbtree_insert (alloc_node a k s) (Some a) = Some s'" "rb_reach s' (idx_insert k a xs)"
proof -
  have r: "rb_reach (alloc_node a k s) xs" unfolding alloc_node_def by (rule rb_reach.other[OF assms(1)]) (use assms(2) in auto)
  have n: "rb_heap (alloc_node a k s) a = Some (fresh_node k (k + 10))" by (simp add: alloc_node_def)
  obtain s' where s': "nvgpu_rbtree_insert (alloc_node a k s) (Some a) = Some s'" using rb_index_insert[OF rb_reach_index[OF r] n assms(2)] by blast
  then show ?thesis using that rb_reach.inserted[OF r n assms(2) s'] by (simp add: fresh_node_def)
qed

lemma reach_three:
  "\<exists>s1 s2 s3. nvgpu_rbtree_insert (alloc_node 1 20 \<lparr>rb_heap = Map.empty, rb_root = None\<rparr>) (Some 1) = Some s1 \<and>
     nvgpu_rbtree_insert (alloc_node 2 40 s1) (Some 2) = Some s2 \<and> nvgpu_rbtree_insert (alloc_node 3 60 s2) (Some 3) = Some s3 \<and>
     rb_reach s3 [(20, 1), (40, 2), (60, 3)]"
proof -
  have e: "rb_reach \<lparr>rb_heap = Map.empty, rb_root = None\<rparr> []" by (rule rb_reach.empty) simp
  obtain s1 where s1: "nvgpu_rbtree_insert (alloc_node 1 20 \<lparr>rb_heap = Map.empty, rb_root = None\<rparr>) (Some 1) = Some s1"
    "rb_reach s1 (idx_insert 20 1 [])" by (rule reach_add[OF e, of 1 20]) simp_all
  obtain s2 where s2: "nvgpu_rbtree_insert (alloc_node 2 40 s1) (Some 2) = Some s2" "rb_reach s2 (idx_insert 40 2 (idx_insert 20 1 []))"
    by (rule reach_add[OF s1(2), of 2 40]) simp_all
  obtain s3 where s3: "nvgpu_rbtree_insert (alloc_node 3 60 s2) (Some 3) = Some s3"
    "rb_reach s3 (idx_insert 60 3 (idx_insert 40 2 (idx_insert 20 1 [])))" by (rule reach_add[OF s2(2), of 3 60]) simp_all
  then show ?thesis using s1(1) s2(1) s3(1) by auto
qed

text \<open>C1: The red-black tree implements a key-ordered index. Whatever nodes have been inserted and unlinked, in
  whatever order, and whatever happens to nodes outside the tree, inserting an allocated node and unlinking
  a node of the tree return; a search finds the node with the key, if there is one; an enumeration from any key starts at the
  first node not below it; an enumeration from the start visits every node once, in the order of the keys, and ends;
  and unlinking the first node over and over removes every node.\<close>

theorem rbtree_refines_index:
  assumes "rb_reach s xs"
  shows "idx_sorted xs \<and> nvgpu_rbtree_search s k = Some (idx_search k xs) \<and>
    nvgpu_rbtree_enum_start s k = Some (map_option snd (idx_enum_start k xs)) \<and>
    (\<forall>a n. rb_heap s a = Some n \<longrightarrow> a \<notin> snd ` set xs \<longrightarrow> nvgpu_rbtree_insert s (Some a) \<noteq> None) \<and>
    (\<forall>a\<in>snd ` set xs. nvgpu_rbtree_unlink s (Some a) \<noteq> None) \<and>
    (\<exists>p. nvgpu_rbtree_enum_start s 0 = Some p \<and> rbi.visit s (length xs) p = Some (map snd xs, None)) \<and>
    (\<exists>s'. rbi.drain (length xs) s = Some (map snd xs, s') \<and> rb_root s' = None)"
proof -
  note i = rb_reach_index[OF assms]
  have "rb_root s' = None" if "rb_index s' []" for s'
    using that zrep_root by (fastforce simp: rb_index_def rbtree_ok_def elim!: inorder.elims)
  then have "\<exists>s'. rbi.drain (length xs) s = Some (map snd xs, s') \<and> rb_root s' = None" using rbi.drain_all[OF i] by blast
  moreover have "nvgpu_rbtree_insert s (Some a) \<noteq> None" if "rb_heap s a = Some n" "a \<notin> snd ` set xs" for a n
    using rb_index_insert[OF i that] by auto
  moreover have "nvgpu_rbtree_unlink s (Some a) \<noteq> None" if "a \<in> snd ` set xs" for a
    using that rb_index_unlink[OF i] by fastforce
  ultimately show ?thesis
    using rbi.ok_sorted[OF i] rbi.search_law[OF i] rbi.enum_start_law[OF i] rbi.enumerate_all[OF i] by blast
qed

theorem rbtree_refines_index_witness:
  "\<exists>s1 s2 s3. nvgpu_rbtree_insert (alloc_node 1 20 \<lparr>rb_heap = Map.empty, rb_root = None\<rparr>) (Some 1) = Some s1 \<and>
     nvgpu_rbtree_insert (alloc_node 2 40 s1) (Some 2) = Some s2 \<and> nvgpu_rbtree_insert (alloc_node 3 60 s2) (Some 3) = Some s3 \<and>
     nvgpu_rbtree_search s3 40 = Some (Some 2) \<and> nvgpu_rbtree_enum_start s3 41 = Some (Some 3)"
proof -
  obtain s1 s2 s3 where s: "nvgpu_rbtree_insert (alloc_node 1 20 \<lparr>rb_heap = Map.empty, rb_root = None\<rparr>) (Some 1) = Some s1"
    "nvgpu_rbtree_insert (alloc_node 2 40 s1) (Some 2) = Some s2" "nvgpu_rbtree_insert (alloc_node 3 60 s2) (Some 3) = Some s3"
    "rb_reach s3 [(20, 1), (40, 2), (60, 3)]" using reach_three by blast
  show ?thesis using s(1-3) rbtree_refines_index[OF s(4), of 40] rbtree_refines_index[OF s(4), of 41]
    by (auto simp: idx_search_def idx_enum_start_def)
qed

text \<open>C2: The tree stays balanced: whatever nodes have been inserted and unlinked, a way from the root along \<open>left\<close> and
  \<open>right\<close> pointers to a node passes at most 2 log2 (n + 1) nodes, where n is the number of nodes.\<close>

theorem rbtree_depth:
  assumes "rb_reach s xs" "descend s ds (rb_root s) = Some (Some a)"
  shows "2 ^ Suc (length ds) \<le> (Suc (length xs))\<^sup>2"
proof -
  obtain Q ys t where t: "rep Q s t" "rb t" "\<not> red t" "inorder t = ys" "xs = map entry ys"
    using rb_reach_index[OF assms(1)] by (auto simp: rb_index_def rbtree_ok_def)
  have "Suc (length ds) \<le> height t" using descend_height[OF t(1), of ds a] assms(2) zrep_root[OF t(1)] by simp
  then have "(2 :: nat) ^ Suc (length ds) \<le> 2 ^ height t" by (rule power_increasing) simp
  also have "\<dots> \<le> (Suc (length xs))\<^sup>2" using height_size[OF t(2,3)] t(4,5) by simp
  finally show ?thesis .
qed

theorem rbtree_depth_witness:
  "\<exists>s1 s2 s3. nvgpu_rbtree_insert (alloc_node 1 20 \<lparr>rb_heap = Map.empty, rb_root = None\<rparr>) (Some 1) = Some s1 \<and>
     nvgpu_rbtree_insert (alloc_node 2 40 s1) (Some 2) = Some s2 \<and> nvgpu_rbtree_insert (alloc_node 3 60 s2) (Some 3) = Some s3 \<and>
     (\<exists>a. descend s3 [] (rb_root s3) = Some (Some a)) \<and> (2 :: nat) ^ Suc (length ([] :: dir list)) \<le> (Suc (length [(20, 1), (40, 2), (60, 3 :: nat)]))\<^sup>2"
proof -
  obtain s1 s2 s3 where s: "nvgpu_rbtree_insert (alloc_node 1 20 \<lparr>rb_heap = Map.empty, rb_root = None\<rparr>) (Some 1) = Some s1"
    "nvgpu_rbtree_insert (alloc_node 2 40 s1) (Some 2) = Some s2" "nvgpu_rbtree_insert (alloc_node 3 60 s2) (Some 3) = Some s3"
    "rb_reach s3 [(20, 1), (40, 2), (60, 3)]" using reach_three by blast
  obtain Q t where t: "rep Q s3 t" "map entry (inorder t) = [(20, 1), (40, 2), (60, 3)]"
    using rb_reach_index[OF s(4)] unfolding rb_index_def rbtree_ok_def by metis
  have "t \<noteq> Lf" using t(2) by auto
  then obtain a where "rb_root s3 = Some a" using zrep_root[OF t(1)] by (cases t) auto
  then have d: "descend s3 [] (rb_root s3) = Some (Some a)" by simp
  show ?thesis using s(1-3) d rbtree_depth[OF s(4) d] by (intro exI[of _ s1] exI[of _ s2] exI[of _ s3]) auto
qed

text \<open>When the ranges of the nodes do not overlap, \<open>nvgpu_rbtree_range_search\<close> finds the node whose range
  holds the key, if there is one, and \<open>nvgpu_rbtree_less_than_search\<close> finds the node with the greatest key below the given one,
  and leaves the variable of its caller alone when there is none.\<close>

theorem rbtree_range_search_correct:
  assumes "rbtree_ok Q s xs" "apart xs"
  shows "nvgpu_rbtree_range_search s k = Some (map_option fst (find (\<lambda>x. ks x \<le> k \<and> k < snd (snd x)) xs)) \<and>
    nvgpu_rbtree_less_than_search s k q =
      Some (let ys = filter (\<lambda>x. ks x < k) xs in if ys = [] then q else Some (fst (last ys)))"
proof -
  obtain t where t: "rep Q s t" "ordered t" "inorder t = xs" using assms(1) by (rule rbtree_okE)
  show ?thesis using range_search_ok[OF t(1,2)] less_than_ok[OF t(1,2)] zrep_root[OF t(1)] t(3) assms(2)
    by (simp add: nvgpu_rbtree_range_search_def nvgpu_rbtree_less_than_search_def)
qed

theorem rbtree_range_search_correct_witness:
  "\<exists>s. nvgpu_rbtree_insert (alloc_node 1 20 \<lparr>rb_heap = Map.empty, rb_root = None\<rparr>) (Some 1) = Some s \<and>
     nvgpu_rbtree_range_search s 29 = Some (Some 1) \<and> nvgpu_rbtree_range_search s 30 = Some None"
proof -
  let ?s = "alloc_node 1 20 \<lparr>rb_heap = Map.empty, rb_root = None\<rparr>"
  have "rep (rb_heap ?s) ?s Lf" by (simp add: zrep_def alloc_node_def)
  then have "rbtree_ok (rb_heap ?s) ?s []" unfolding rbtree_ok_def by (intro exI[of _ Lf]) simp
  then obtain s where s: "nvgpu_rbtree_insert ?s (Some 1) = Some s" "rbtree_ok (rb_heap ?s) s [(1, 20, 30)]"
    using insert_ok[of "rb_heap ?s" ?s "[]" 1 "fresh_node 20 30"] by (auto simp: alloc_node_def fresh_node_def)
  have a: "apart [(1, 20, 30)]" by (simp add: apart_def)
  show ?thesis using s(1) rbtree_range_search_correct[OF s(2) a, of 29] rbtree_range_search_correct[OF s(2) a, of 30] by (simp add: ks_def)
qed

end
