(* ===== verification/Buddy.thy ===== *)
theory Buddy
  imports Allocator Interval_Index Log2
begin

text \<open>
  The buddy allocator, \<^verbatim>\<open>common/mm/allocators/buddy_allocator.c\<close> and \<^verbatim>\<open>buddy_allocator_priv.h\<close>. Buddies are nodes of a
  store with pointers to their parent, their buddy and their halves; each is in at most one list, that of its
  order or that of a fixed allocation. The lists are sequences of addresses, with the head first; the trees of
  outstanding allocations are used through their key-ordered view. Which requests to the cache of buddies
  fail is a function of the number of the request. All operations run under the allocator's lock.
\<close>

section \<open>State\<close>

abbreviation (input) GPU_BALLOC_MAX_ORDER :: nat where "GPU_BALLOC_MAX_ORDER \<equiv> 63"
abbreviation (input) GPU_ALLOC_GVA_SPACE :: nat where "GPU_ALLOC_GVA_SPACE \<equiv> 0"
abbreviation (input) BALLOC_PTE_SIZE_ANY :: u32 where "BALLOC_PTE_SIZE_ANY \<equiv> U32_MAX"
abbreviation (input) BALLOC_PTE_SIZE_INVALID :: u32 where "BALLOC_PTE_SIZE_INVALID \<equiv> 0"
abbreviation (input) BALLOC_PTE_SIZE_SMALL :: u32 where "BALLOC_PTE_SIZE_SMALL \<equiv> 1"
abbreviation (input) BALLOC_PTE_SIZE_BIG :: u32 where "BALLOC_PTE_SIZE_BIG \<equiv> 2"

record nvgpu_buddy =
  bd_parent :: "nat option"
  bd_buddy :: "nat option"
  bd_left :: "nat option"
  bd_right :: "nat option"
  bd_start :: u64
  bd_end :: u64
  bd_order :: u64
  bd_alloced :: bool
  bd_split :: bool
  bd_in_list :: bool
  bd_pte_size :: u32

record nvgpu_fixed_alloc =
  fa_buddies :: "nat list"
  fa_start :: u64
  fa_end :: u64

text \<open>What the allocator uses of an address space: its page sizes and how much a page directory entry covers.\<close>

record buddy_vm =
  bv_big_page_size :: u32
  bv_big_pages :: bool
  bv_pde_bits :: nat

record nvgpu_buddy_allocator =
  by_vm :: "buddy_vm option"
  by_base :: u64
  by_length :: u64
  by_blk_size :: u64
  by_blk_shift :: u64
  by_start :: u64
  by_end :: u64
  by_count :: u64
  by_blks :: u64
  by_max_order :: u64
  by_alloced_buddies :: "nat index"
  by_fixed_allocs :: "nvgpu_fixed_alloc index"
  by_co_list :: "nvgpu_alloc_carveout list"
  by_heap :: "nat \<rightharpoonup> nvgpu_buddy"
  by_fresh :: nat
  by_requests :: nat
  by_list :: "nat \<Rightarrow> nat list"
  by_list_len :: "nat \<Rightarrow> u64"
  by_list_split :: "nat \<Rightarrow> u64"
  by_list_alloced :: "nat \<Rightarrow> u64"
  by_pte_blk_order :: u64
  by_initialized :: bool
  by_alloc_made :: bool
  by_flags :: u64
  by_bytes_alloced :: u64
  by_bytes_alloced_real :: u64
  by_bytes_freed :: u64

definition gva :: "nvgpu_buddy_allocator \<Rightarrow> bool" where
  "gva a = bit (by_flags a) GPU_ALLOC_GVA_SPACE"

text \<open>The arrays indexed by an order have \<open>GPU_BALLOC_ORDER_LIST_LEN\<close> entries.\<close>

definition in_orders :: "u64 \<Rightarrow> unit option" where
  "in_orders n = nvgpu_assert (n \<le> GPU_BALLOC_MAX_ORDER)"

definition upd_bud :: "nat \<Rightarrow> (nvgpu_buddy \<Rightarrow> nvgpu_buddy) \<Rightarrow> nvgpu_buddy_allocator \<Rightarrow> nvgpu_buddy_allocator option" where
  "upd_bud p f a = do { b \<leftarrow> by_heap a p; Some (a\<lparr>by_heap := (by_heap a)(p \<mapsto> f b)\<rparr>) }"

definition cache_free :: "nat \<Rightarrow> nvgpu_buddy_allocator \<Rightarrow> nvgpu_buddy_allocator" where
  "cache_free p a = a\<lparr>by_heap := (by_heap a)(p := None)\<rparr>"

section \<open>Sizes\<close>

definition balloc_order_to_len :: "nvgpu_buddy_allocator \<Rightarrow> u64 \<Rightarrow> u64 option" where
  "balloc_order_to_len a order = do { in_orders order; nvgpu_safe_mult_u64 (2 ^ order) (by_blk_size a) }"

definition balloc_base_shift :: "nvgpu_buddy_allocator \<Rightarrow> u64 \<Rightarrow> u64 option" where
  "balloc_base_shift a base = nvgpu_safe_sub_u64 base (by_start a)"

definition balloc_base_unshift :: "nvgpu_buddy_allocator \<Rightarrow> u64 \<Rightarrow> u64 option" where
  "balloc_base_unshift a base = nvgpu_safe_add_u64 base (by_start a)"

definition nvgpu_balloc_page_size_to_pte_size :: "nvgpu_buddy_allocator \<Rightarrow> u32 \<Rightarrow> u32 option" where
  "nvgpu_balloc_page_size_to_pte_size a page_size =
     (if \<not> gva a then Some BALLOC_PTE_SIZE_ANY
      else do {
        vm \<leftarrow> by_vm a;
        Some (if page_size = bv_big_page_size vm then BALLOC_PTE_SIZE_BIG
              else if page_size = 4096 then BALLOC_PTE_SIZE_SMALL
              else if page_size = BALLOC_PTE_SIZE_ANY then BALLOC_PTE_SIZE_SMALL
              else BALLOC_PTE_SIZE_INVALID) })"

definition balloc_compute_max_order :: "nvgpu_buddy_allocator \<Rightarrow> nvgpu_buddy_allocator option" where
  "balloc_compute_max_order a =
     do {
       true_max_order \<leftarrow> nvgpu_ilog2 (by_blks a);
       nvgpu_assert (\<not> true_max_order > GPU_BALLOC_MAX_ORDER);
       Some (if by_max_order a = 0 \<or> by_max_order a > true_max_order then a\<lparr>by_max_order := true_max_order\<rparr> else a) }"

definition balloc_allocator_align :: "nvgpu_buddy_allocator \<Rightarrow> (unit result \<times> nvgpu_buddy_allocator) option" where
  "balloc_allocator_align a =
     do {
       st \<leftarrow> NVGPU_ALIGN (by_base a) (by_blk_size a);
       nvgpu_assert (by_blk_size a > 0);
       e \<leftarrow> nvgpu_safe_add_u64 (by_base a) (by_length a);
       let en = and_not64 e (by_blk_size a - 1);
       cnt \<leftarrow> nvgpu_safe_sub_u64 en st;
       let a = a\<lparr>by_start := st, by_end := en, by_count := cnt\<rparr>;
       let blks = cnt div 2 ^ by_blk_shift a;
       Some (if blks = 0 then (Inl EINVAL, a) else (Inr (), a\<lparr>by_blks := blks\<rparr>)) }"

definition balloc_get_order :: "nvgpu_buddy_allocator \<Rightarrow> u64 \<Rightarrow> u64" where
  "balloc_get_order a len = (if len = 0 then 0 else nvgpu_fls ((len - 1) div 2 ^ by_blk_shift a))"

definition balloc_max_order_in :: "nvgpu_buddy_allocator \<Rightarrow> u64 \<Rightarrow> u64 \<Rightarrow> u64 option" where
  "balloc_max_order_in a st en =
     do {
       d \<leftarrow> nvgpu_safe_sub_u64 en st;
       let sz = d div 2 ^ by_blk_shift a;
       if sz > 0 then do { l \<leftarrow> nvgpu_ilog2 sz; Some (min l (by_max_order a)) } else Some GPU_BALLOC_MAX_ORDER }"

section \<open>Buddies and their lists\<close>

definition balloc_new_buddy ::
    "(nat \<Rightarrow> bool) \<Rightarrow> nvgpu_buddy_allocator \<Rightarrow> nat option \<Rightarrow> u64 \<Rightarrow> u64 \<Rightarrow> (nat option \<times> nvgpu_buddy_allocator) option" where
  "balloc_new_buddy oom a par st order =
     (let n = by_requests a; a = a\<lparr>by_requests := n + 1\<rparr> in
      if oom n then Some (None, a)
      else do {
        len \<leftarrow> balloc_order_to_len a order;
        en \<leftarrow> nvgpu_safe_add_u64 len st;
        let p = by_fresh a;
        Some (Some p, a\<lparr>by_fresh := p + 1, by_heap := (by_heap a)(p \<mapsto>
          \<lparr>bd_parent = par, bd_buddy = None, bd_left = None, bd_right = None, bd_start = st, bd_end = en, bd_order = order,
           bd_alloced = False, bd_split = False, bd_in_list = False, bd_pte_size = BALLOC_PTE_SIZE_ANY\<rparr>)\<rparr>) })"

definition balloc_buddy_list_do_add ::
    "nvgpu_buddy_allocator \<Rightarrow> nat \<Rightarrow> nat list \<Rightarrow> (nat list \<times> nvgpu_buddy_allocator) option" where
  "balloc_buddy_list_do_add a p l =
     do {
       b \<leftarrow> by_heap a p;
       nvgpu_assert (\<not> bd_in_list b);
       a \<leftarrow> upd_bud p (\<lambda>b. b\<lparr>bd_in_list := True\<rparr>) a;
       Some (if gva a \<and> bd_pte_size b = BALLOC_PTE_SIZE_BIG then l @ [p] else p # l, a) }"

text \<open>\<open>nvgpu_list_del\<close> takes the entry out of whichever list it is in.\<close>

definition balloc_buddy_list_do_rem :: "nvgpu_buddy_allocator \<Rightarrow> nat \<Rightarrow> nvgpu_buddy_allocator option" where
  "balloc_buddy_list_do_rem a p =
     do {
       b \<leftarrow> by_heap a p;
       nvgpu_assert (bd_in_list b);
       upd_bud p (\<lambda>b. b\<lparr>bd_in_list := False\<rparr>) (a\<lparr>by_list := (\<lambda>n. removeAll p (by_list a n))\<rparr>) }"

definition balloc_blist_add :: "nvgpu_buddy_allocator \<Rightarrow> nat \<Rightarrow> nvgpu_buddy_allocator option" where
  "balloc_blist_add a p =
     do {
       b \<leftarrow> by_heap a p;
       in_orders (bd_order b);
       (l, a) \<leftarrow> balloc_buddy_list_do_add a p (by_list a (bd_order b));
       n \<leftarrow> nvgpu_safe_add_u64 (by_list_len a (bd_order b)) 1;
       Some (a\<lparr>by_list := (by_list a)(bd_order b := l), by_list_len := (by_list_len a)(bd_order b := n)\<rparr>) }"

definition balloc_blist_rem :: "nvgpu_buddy_allocator \<Rightarrow> nat \<Rightarrow> nvgpu_buddy_allocator option" where
  "balloc_blist_rem a p =
     do {
       a \<leftarrow> balloc_buddy_list_do_rem a p;
       b \<leftarrow> by_heap a p;
       in_orders (bd_order b);
       nvgpu_assert (by_list_len a (bd_order b) > 0);
       Some (a\<lparr>by_list_len := (by_list_len a)(bd_order b := by_list_len a (bd_order b) - 1)\<rparr>) }"

text \<open>The loop that covers the range from \<open>bstart\<close> on with free buddies; false when a buddy can not be had.\<close>

partial_function (option) init_loop ::
    "(nat \<Rightarrow> bool) \<Rightarrow> u64 \<Rightarrow> nvgpu_buddy_allocator \<Rightarrow> (bool \<times> nvgpu_buddy_allocator) option" where
  "init_loop oom bstart a =
     (if bstart < by_end a
      then Option.bind (balloc_max_order_in a bstart (by_end a)) (\<lambda>order.
        Option.bind (balloc_new_buddy oom a None bstart order) (\<lambda>(b, a).
          case b of
            None \<Rightarrow> Some (False, a)
          | Some p \<Rightarrow> Option.bind (balloc_blist_add a p) (\<lambda>a.
              Option.bind (balloc_order_to_len a order) (\<lambda>len.
                Option.bind (nvgpu_safe_add_u64 bstart len) (\<lambda>bstart. init_loop oom bstart a)))))
      else Some (True, a))"

text \<open>The clean-up takes the first buddy of every list.\<close>

fun init_cleanup :: "nat list \<Rightarrow> nvgpu_buddy_allocator \<Rightarrow> nvgpu_buddy_allocator option" where
  "init_cleanup [] a = Some a"
| "init_cleanup (i # is) a =
     (case by_list a i of
        [] \<Rightarrow> init_cleanup is a
      | p # _ \<Rightarrow> do { a \<leftarrow> balloc_blist_rem a p; init_cleanup is (cache_free p a) })"

definition balloc_init_lists :: "(nat \<Rightarrow> bool) \<Rightarrow> nvgpu_buddy_allocator \<Rightarrow> (unit result \<times> nvgpu_buddy_allocator) option" where
  "balloc_init_lists oom a =
     do {
       (done, a) \<leftarrow> init_loop oom (by_start a) (a\<lparr>by_list := (\<lambda>_. [])\<rparr>);
       if done then Some (Inr (), a)
       else do { a \<leftarrow> init_cleanup [0..<GPU_BALLOC_MAX_ORDER + 1] a; Some (Inl ENOMEM, a) } }"

text \<open>One round of \<open>balloc_coalesce\<close>: \<open>p\<close> and its buddy \<open>q\<close> become their parent again.\<close>

definition coalesce_step :: "nat \<Rightarrow> nat \<Rightarrow> nat \<Rightarrow> nvgpu_buddy_allocator \<Rightarrow> nvgpu_buddy_allocator option" where
  "coalesce_step p q par a =
     do {
       a \<leftarrow> balloc_blist_rem a p;
       a \<leftarrow> balloc_blist_rem a q;
       a \<leftarrow> upd_bud par (\<lambda>b. b\<lparr>bd_split := False\<rparr>) a;
       pb \<leftarrow> by_heap a par;
       in_orders (bd_order pb);
       nvgpu_assert (by_list_split a (bd_order pb) > 0);
       a \<leftarrow> balloc_blist_add (a\<lparr>by_list_split := (by_list_split a)(bd_order pb := by_list_split a (bd_order pb) - 1)\<rparr>) par;
       Some (cache_free p (cache_free q a)) }"

partial_function (option) balloc_coalesce :: "nat \<Rightarrow> nvgpu_buddy_allocator \<Rightarrow> nvgpu_buddy_allocator option" where
  "balloc_coalesce p a =
     Option.bind (by_heap a p) (\<lambda>b.
       if \<not> bd_alloced b \<and> \<not> bd_split b
       then (case bd_buddy b of
         None \<Rightarrow> Some a
       | Some q \<Rightarrow> Option.bind (by_heap a q) (\<lambda>bq.
           if bd_alloced bq \<or> bd_split bq then Some a
           else Option.bind (bd_parent b) (\<lambda>par. Option.bind (coalesce_step p q par a) (balloc_coalesce par))))
       else Some a)"

definition balloc_split_buddy ::
    "(nat \<Rightarrow> bool) \<Rightarrow> nvgpu_buddy_allocator \<Rightarrow> nat \<Rightarrow> u32 \<Rightarrow> (unit result \<times> nvgpu_buddy_allocator) option" where
  "balloc_split_buddy oom a p pte_size =
     do {
       b \<leftarrow> by_heap a p;
       nvgpu_assert (bd_order b > 0);
       (l, a) \<leftarrow> balloc_new_buddy oom a (Some p) (bd_start b) (bd_order b - 1);
       (case l of
          None \<Rightarrow> Some (Inl ENOMEM, a)
        | Some l \<Rightarrow> do {
            d \<leftarrow> nvgpu_safe_sub_u64 (bd_end b) (bd_start b);
            st \<leftarrow> nvgpu_safe_add_u64 (bd_start b) (d div 2);
            (r, a) \<leftarrow> balloc_new_buddy oom a (Some p) st (bd_order b - 1);
            (case r of
               None \<Rightarrow> Some (Inl ENOMEM, cache_free l a)
             | Some r \<Rightarrow> do {
                 a \<leftarrow> upd_bud p (\<lambda>b. b\<lparr>bd_split := True\<rparr>) a;
                 in_orders (bd_order b);
                 n \<leftarrow> nvgpu_safe_add_u64 (by_list_split a (bd_order b)) 1;
                 let a = a\<lparr>by_list_split := (by_list_split a)(bd_order b := n)\<rparr>;
                 a \<leftarrow> upd_bud p (\<lambda>b. b\<lparr>bd_left := Some l, bd_right := Some r\<rparr>) a;
                 a \<leftarrow> upd_bud l (\<lambda>x. x\<lparr>bd_buddy := Some r, bd_parent := Some p\<rparr>) a;
                 a \<leftarrow> upd_bud r (\<lambda>x. x\<lparr>bd_buddy := Some l, bd_parent := Some p\<rparr>) a;
                 a \<leftarrow> (if gva a \<and> bd_order b - 1 < by_pte_blk_order a
                        then do {
                          a \<leftarrow> upd_bud l (\<lambda>x. x\<lparr>bd_pte_size := pte_size\<rparr>) a;
                          upd_bud r (\<lambda>x. x\<lparr>bd_pte_size := pte_size\<rparr>) a }
                        else Some a);
                 a \<leftarrow> balloc_blist_rem a p;
                 a \<leftarrow> balloc_blist_add a l;
                 a \<leftarrow> balloc_blist_add a r;
                 Some (Inr (), a) }) }) }"

definition balloc_alloc_buddy :: "nvgpu_buddy_allocator \<Rightarrow> nat \<Rightarrow> nvgpu_buddy_allocator option" where
  "balloc_alloc_buddy a p =
     do {
       b \<leftarrow> by_heap a p;
       let a = a\<lparr>by_alloced_buddies := idx_insert (bd_start b) p (by_alloced_buddies a)\<rparr>;
       a \<leftarrow> upd_bud p (\<lambda>b. b\<lparr>bd_alloced := True\<rparr>) a;
       in_orders (bd_order b);
       n \<leftarrow> nvgpu_safe_add_u64 (by_list_alloced a (bd_order b)) 1;
       Some (a\<lparr>by_list_alloced := (by_list_alloced a)(bd_order b := n)\<rparr>) }"

definition balloc_free_buddy :: "nvgpu_buddy_allocator \<Rightarrow> u64 \<Rightarrow> (nat option \<times> nvgpu_buddy_allocator) option" where
  "balloc_free_buddy a addr =
     (case idx_search addr (by_alloced_buddies a) of
        None \<Rightarrow> Some (None, a)
      | Some p \<Rightarrow> do {
          let a = a\<lparr>by_alloced_buddies := idx_unlink addr (by_alloced_buddies a)\<rparr>;
          a \<leftarrow> upd_bud p (\<lambda>b. b\<lparr>bd_alloced := False\<rparr>) a;
          b \<leftarrow> by_heap a p;
          in_orders (bd_order b);
          nvgpu_assert (by_list_alloced a (bd_order b) > 0);
          Some (Some p, a\<lparr>by_list_alloced := (by_list_alloced a)(bd_order b := by_list_alloced a (bd_order b) - 1)\<rparr>) })"

definition balloc_find_buddy :: "nvgpu_buddy_allocator \<Rightarrow> u64 \<Rightarrow> u32 \<Rightarrow> nat option option" where
  "balloc_find_buddy a order pte_size =
     (if order > by_max_order a then Some None
      else do {
        in_orders order;
        (case by_list a order of
           [] \<Rightarrow> Some None
         | l \<Rightarrow> do {
             let p = (if gva a \<and> pte_size = BALLOC_PTE_SIZE_BIG then last l else hd l);
             b \<leftarrow> by_heap a p;
             Some (if pte_size \<noteq> BALLOC_PTE_SIZE_ANY \<and> pte_size \<noteq> bd_pte_size b \<and> bd_pte_size b \<noteq> BALLOC_PTE_SIZE_ANY
                   then None else Some p) }) })"

section \<open>Allocation\<close>

text \<open>The search for a buddy of at least the given order.\<close>

function find_from :: "nvgpu_buddy_allocator \<Rightarrow> u64 \<Rightarrow> u32 \<Rightarrow> nat option option" where
  "find_from a split_order pte_size =
     (if split_order \<le> by_max_order a
      then do {
        bud \<leftarrow> balloc_find_buddy a split_order pte_size;
        (case bud of Some p \<Rightarrow> Some (Some p) | None \<Rightarrow> find_from a (split_order + 1) pte_size) }
      else Some None)"
  by pat_completeness auto
termination by (relation "measure (\<lambda>(a, n, _). by_max_order a + 1 - n)") auto

declare find_from.simps [simp del]

text \<open>Splitting \<open>p\<close> and its left halves down to the order.\<close>

partial_function (option) split_down ::
    "(nat \<Rightarrow> bool) \<Rightarrow> u64 \<Rightarrow> u32 \<Rightarrow> nat \<Rightarrow> nvgpu_buddy_allocator \<Rightarrow> (nat option \<times> nvgpu_buddy_allocator) option" where
  "split_down oom order pte_size p a =
     Option.bind (by_heap a p) (\<lambda>b.
       if bd_order b \<noteq> order
       then Option.bind (balloc_split_buddy oom a p pte_size) (\<lambda>(err, a).
         case err of
           Inl _ \<Rightarrow> Option.bind (balloc_coalesce p a) (\<lambda>a. Some (None, a))
         | Inr _ \<Rightarrow> Option.bind (by_heap a p) (\<lambda>b. Option.bind (bd_left b) (\<lambda>l. split_down oom order pte_size l a)))
       else Some (Some p, a))"

definition balloc_do_alloc ::
    "(nat \<Rightarrow> bool) \<Rightarrow> nvgpu_buddy_allocator \<Rightarrow> u64 \<Rightarrow> u32 \<Rightarrow> (u64 \<times> nvgpu_buddy_allocator) option" where
  "balloc_do_alloc oom a order pte_size =
     do {
       bud \<leftarrow> find_from a order pte_size;
       (case bud of
          None \<Rightarrow> Some (0, a)
        | Some p \<Rightarrow> do {
            (bud, a) \<leftarrow> split_down oom order pte_size p a;
            (case bud of
               None \<Rightarrow> Some (0, a)
             | Some p \<Rightarrow> do {
                 a \<leftarrow> balloc_blist_rem a p;
                 a \<leftarrow> balloc_alloc_buddy a p;
                 b \<leftarrow> by_heap a p;
                 Some (bd_start b, a) }) }) }"

definition nvgpu_buddy_balloc_pte ::
    "(nat \<Rightarrow> bool) \<Rightarrow> nvgpu_buddy_allocator \<Rightarrow> u64 \<Rightarrow> u32 \<Rightarrow> (u64 \<times> nvgpu_buddy_allocator) option" where
  "nvgpu_buddy_balloc_pte oom a len page_size =
     (if len = 0 then Some (0, a)
      else do {
        let order = balloc_get_order a len;
        if order > by_max_order a then Some (0, a)
        else do {
          pte_size \<leftarrow> nvgpu_balloc_page_size_to_pte_size a page_size;
          if pte_size = BALLOC_PTE_SIZE_INVALID then Some (0, a)
          else do {
            (addr, a) \<leftarrow> balloc_do_alloc oom a order pte_size;
            if addr \<noteq> 0
            then do {
              n \<leftarrow> balloc_order_to_len a order;
              Some (addr, a\<lparr>by_bytes_alloced := wrap64 (by_bytes_alloced a + len),
                            by_bytes_alloced_real := wrap64 (by_bytes_alloced_real a + n), by_alloc_made := True\<rparr>) }
            else Some (0, a) } } })"

definition nvgpu_buddy_balloc ::
    "(nat \<Rightarrow> bool) \<Rightarrow> nvgpu_buddy_allocator \<Rightarrow> u64 \<Rightarrow> (u64 \<times> nvgpu_buddy_allocator) option" where
  "nvgpu_buddy_balloc oom a len = nvgpu_buddy_balloc_pte oom a len BALLOC_PTE_SIZE_ANY"

section \<open>Fixed allocations\<close>

text \<open>The walk of \<open>balloc_is_range_free\<close> over the outstanding allocations in the order of their addresses.\<close>

fun range_free_from :: "nvgpu_buddy_allocator \<Rightarrow> nat index \<Rightarrow> u64 \<Rightarrow> u64 \<Rightarrow> bool option" where
  "range_free_from a [] base en = Some True"
| "range_free_from a ((_, p) # xs) base en =
     do {
       b \<leftarrow> by_heap a p;
       if bd_start b < en
       then (if bd_start b > base \<and> bd_start b < en \<or> bd_end b > base \<and> bd_end b < en then Some False
             else range_free_from a xs base en)
       else Some True }"

definition balloc_is_range_free :: "nvgpu_buddy_allocator \<Rightarrow> u64 \<Rightarrow> u64 \<Rightarrow> bool option" where
  "balloc_is_range_free a base en = range_free_from a (by_alloced_buddies a) base en"

definition balloc_alloc_fixed :: "nvgpu_buddy_allocator \<Rightarrow> nvgpu_fixed_alloc \<Rightarrow> nvgpu_buddy_allocator" where
  "balloc_alloc_fixed a f = a\<lparr>by_fixed_allocs := idx_insert (fa_start f) f (by_fixed_allocs a)\<rparr>"

definition balloc_free_fixed :: "nvgpu_buddy_allocator \<Rightarrow> u64 \<Rightarrow> nvgpu_fixed_alloc option \<times> nvgpu_buddy_allocator" where
  "balloc_free_fixed a addr =
     (case idx_search addr (by_fixed_allocs a) of
        None \<Rightarrow> (None, a)
      | Some f \<Rightarrow> (Some f, a\<lparr>by_fixed_allocs := idx_unlink addr (by_fixed_allocs a)\<rparr>))"

definition balloc_get_parent_range :: "nvgpu_buddy_allocator \<Rightarrow> u64 \<Rightarrow> u64 \<Rightarrow> (u64 \<times> u64) option" where
  "balloc_get_parent_range a base order =
     do {
       shifted_base \<leftarrow> balloc_base_shift a base;
       nvgpu_assert (order < 63);
       let order = order + 1;
       m \<leftarrow> nvgpu_safe_sub_u64 (wrap64 (by_blk_size a * 2 ^ order)) 1;
       pbase \<leftarrow> balloc_base_unshift a (and_not64 shifted_base m);
       Some (pbase, order) }"

partial_function (option) balloc_get_target_buddy ::
    "(nat \<Rightarrow> bool) \<Rightarrow> u64 \<Rightarrow> u64 \<Rightarrow> u32 \<Rightarrow> nat \<Rightarrow> nvgpu_buddy_allocator \<Rightarrow> (nat option \<times> nvgpu_buddy_allocator) option" where
  "balloc_get_target_buddy oom base order pte_size p a =
     Option.bind (by_heap a p) (\<lambda>b.
       if bd_start b \<noteq> base \<or> bd_order b \<noteq> order
       then Option.bind (balloc_split_buddy oom a p pte_size) (\<lambda>(err, a).
         case err of
           Inl _ \<Rightarrow> Option.bind (balloc_coalesce p a) (\<lambda>a. Some (None, a))
         | Inr _ \<Rightarrow> Option.bind (by_heap a p) (\<lambda>b. Option.bind (bd_right b) (\<lambda>r. Option.bind (by_heap a r) (\<lambda>br.
             Option.bind (if base < bd_start br then bd_left b else Some r) (\<lambda>q.
               balloc_get_target_buddy oom base order pte_size q a)))))
       else Some (Some p, a))"

text \<open>The buddy of a list that starts at an address, if there is one.\<close>

fun find_start :: "nvgpu_buddy_allocator \<Rightarrow> nat list \<Rightarrow> u64 \<Rightarrow> nat option option" where
  "find_start a [] base = Some None"
| "find_start a (p # ps) base = do { b \<leftarrow> by_heap a p; if bd_start b = base then Some (Some p) else find_start a ps base }"

text \<open>The climb through the orders: the buddy found, if any, or \<open>Inl\<close> when its page size does not fit.\<close>

function climb_orders :: "nvgpu_buddy_allocator \<Rightarrow> u64 \<Rightarrow> u64 \<Rightarrow> u32 \<Rightarrow> (unit + nat option) option" where
  "climb_orders a cur_base cur_order pte_size =
     (if cur_order \<le> by_max_order a \<and> cur_order \<le> GPU_BALLOC_MAX_ORDER
      then do {
        found \<leftarrow> find_start a (by_list a cur_order) cur_base;
        (case found of
           Some p \<Rightarrow> do {
             b \<leftarrow> by_heap a p;
             Some (if bd_order b \<le> by_pte_blk_order a \<and> bd_pte_size b \<noteq> BALLOC_PTE_SIZE_ANY \<and> bd_pte_size b \<noteq> pte_size
                   then Inl () else Inr (Some p)) }
         | None \<Rightarrow>
             (case balloc_get_parent_range a cur_base cur_order of
                None \<Rightarrow> None
              | Some (pbase, _) \<Rightarrow> climb_orders a pbase (cur_order + 1) pte_size)) }
      else if cur_order \<le> by_max_order a then None
      else Some (Inr None))"
  by pat_completeness auto
termination by (relation "measure (\<lambda>(a, _, n, _). by_max_order a + 1 - n)") auto

declare climb_orders.simps [simp del]

definition balloc_make_fixed_buddy ::
    "(nat \<Rightarrow> bool) \<Rightarrow> nvgpu_buddy_allocator \<Rightarrow> u64 \<Rightarrow> u64 \<Rightarrow> u32 \<Rightarrow> (nat option \<times> nvgpu_buddy_allocator) option" where
  "balloc_make_fixed_buddy oom a base order pte_size =
     do {
       found \<leftarrow> climb_orders a base order pte_size;
       (case found of
          Inr (Some p) \<Rightarrow> balloc_get_target_buddy oom base order pte_size p a
        | _ \<Rightarrow> Some (None, a)) }"

text \<open>Giving back the buddies of a fixed allocation; \<open>count\<close> says whether they enter the statistics.\<close>

fun release_buddies :: "bool \<Rightarrow> nat list \<Rightarrow> nvgpu_buddy_allocator \<Rightarrow> nvgpu_buddy_allocator option" where
  "release_buddies count [] a = Some a"
| "release_buddies count (p # ps) a =
     do {
       a \<leftarrow> balloc_buddy_list_do_rem a p;
       b \<leftarrow> by_heap a p;
       (_, a) \<leftarrow> balloc_free_buddy a (bd_start b);
       a \<leftarrow> balloc_blist_add a p;
       a \<leftarrow> (if count
              then do {
                n \<leftarrow> balloc_order_to_len a (bd_order b);
                n \<leftarrow> nvgpu_safe_add_u64 (by_bytes_freed a) n;
                Some (a\<lparr>by_bytes_freed := n\<rparr>) }
              else Some a);
       a \<leftarrow> balloc_coalesce p a;
       release_buddies count ps a }"

text \<open>The loop of \<open>balloc_do_alloc_fixed\<close>: the buddies found so far, the last first, and whether all were found.\<close>

partial_function (option) fixed_loop ::
    "(nat \<Rightarrow> bool) \<Rightarrow> u64 \<Rightarrow> u64 \<Rightarrow> u32 \<Rightarrow> u64 \<Rightarrow> u64 \<Rightarrow> nat list \<Rightarrow> nvgpu_buddy_allocator \<Rightarrow>
       (bool \<times> nat list \<times> nvgpu_buddy_allocator) option" where
  "fixed_loop oom shifted_base len pte_size inc_base align_order ps a =
     Option.bind (nvgpu_safe_add_u64 shifted_base len) (\<lambda>lim.
       if inc_base < lim
       then Option.bind (balloc_order_to_len a align_order) (\<lambda>order_len.
         Option.bind (balloc_base_unshift a inc_base) (\<lambda>base.
         Option.bind (balloc_make_fixed_buddy oom a base align_order pte_size) (\<lambda>(bud, a).
           case bud of
             None \<Rightarrow> Some (False, ps, a)
           | Some p \<Rightarrow>
               Option.bind (balloc_blist_rem a p) (\<lambda>a.
               Option.bind (balloc_alloc_buddy a p) (\<lambda>a.
               Option.bind (balloc_buddy_list_do_add a p ps) (\<lambda>(ps, a).
               Option.bind (nvgpu_safe_add_u64 inc_base order_len) (\<lambda>inc_base.
               Option.bind (nvgpu_safe_sub_u64 (nvgpu_ffs (inc_base div 2 ^ by_blk_shift a)) 1) (\<lambda>align_order.
               Option.bind (balloc_order_to_len a align_order) (\<lambda>order_len.
               Option.bind (if order_len > wsub64 (wrap64 (shifted_base + len)) inc_base
                            then Option.bind (nvgpu_safe_add_u64 inc_base (wsub64 (wrap64 (shifted_base + len)) inc_base))
                                   (balloc_max_order_in a inc_base)
                            else Some align_order) (\<lambda>align_order.
                 fixed_loop oom shifted_base len pte_size inc_base align_order ps a))))))))))
       else Some (True, ps, a))"

definition balloc_do_alloc_fixed ::
    "(nat \<Rightarrow> bool) \<Rightarrow> nvgpu_buddy_allocator \<Rightarrow> u64 \<Rightarrow> u64 \<Rightarrow> u32 \<Rightarrow> (u64 \<times> nat list \<times> nvgpu_buddy_allocator) option" where
  "balloc_do_alloc_fixed oom a base len pte_size =
     do {
       nvgpu_assert (pte_size \<noteq> BALLOC_PTE_SIZE_INVALID);
       shifted_base \<leftarrow> balloc_base_shift a base;
       len_order \<leftarrow> nvgpu_safe_sub_u64 (nvgpu_ffs (len div 2 ^ by_blk_shift a)) 1;
       align_order \<leftarrow> (if shifted_base = 0 then Some len_order
                        else do {
                          o' \<leftarrow> nvgpu_safe_sub_u64 (nvgpu_ffs (shifted_base div 2 ^ by_blk_shift a)) 1;
                          Some (min o' len_order) });
       if align_order > by_max_order a then Some (0, [], a)
       else do {
         (done, ps, a) \<leftarrow> fixed_loop oom shifted_base len pte_size shifted_base align_order [] a;
         if done then Some (base, ps, a)
         else do { a \<leftarrow> release_buddies False ps a; Some (0, [], a) } } }"

definition balloc_do_free_fixed :: "nvgpu_buddy_allocator \<Rightarrow> nvgpu_fixed_alloc \<Rightarrow> nvgpu_buddy_allocator option" where
  "balloc_do_free_fixed a f = release_buddies True (fa_buddies f) a"

fun sum_lengths :: "nvgpu_buddy_allocator \<Rightarrow> nat list \<Rightarrow> u64 \<Rightarrow> u64 option" where
  "sum_lengths a [] n = Some n"
| "sum_lengths a (p # ps) n =
     do { b \<leftarrow> by_heap a p; d \<leftarrow> nvgpu_safe_sub_u64 (bd_end b) (bd_start b); n \<leftarrow> nvgpu_safe_add_u64 n d; sum_lengths a ps n }"

definition nvgpu_balloc_fixed_buddy_locked ::
    "bool \<Rightarrow> (nat \<Rightarrow> bool) \<Rightarrow> nvgpu_buddy_allocator \<Rightarrow> u64 \<Rightarrow> u64 \<Rightarrow> u32 \<Rightarrow> (u64 \<times> nvgpu_buddy_allocator) option" where
  "nvgpu_balloc_fixed_buddy_locked kmalloc_ok oom a base len page_size =
     do {
       nvgpu_assert (by_blk_size a > 0);
       if base AND (by_blk_size a - 1) \<noteq> 0 then Some (0, a)
       else if len = 0 then Some (0, a)
       else if base < by_start a then Some (0, a)
       else do {
         e \<leftarrow> nvgpu_safe_add_u64 base len;
         if by_end a < e then Some (0, a)
         else do {
           pte_size \<leftarrow> nvgpu_balloc_page_size_to_pte_size a page_size;
           if pte_size = BALLOC_PTE_SIZE_INVALID then Some (0, a)
           else if \<not> kmalloc_ok then Some (0, a)
           else do {
             range_free \<leftarrow> balloc_is_range_free a base (wrap64 (base + len));
             if \<not> range_free then Some (0, a)
             else do {
               (ret, ps, a) \<leftarrow> balloc_do_alloc_fixed oom a base len pte_size;
               if ret = 0 then Some (0, a)
               else do {
                 let a = balloc_alloc_fixed a \<lparr>fa_buddies = ps, fa_start = base, fa_end = wrap64 (base + len)\<rparr>;
                 real_bytes \<leftarrow> sum_lengths a ps 0;
                 n \<leftarrow> nvgpu_safe_add_u64 (by_bytes_alloced a) len;
                 m \<leftarrow> nvgpu_safe_add_u64 (by_bytes_alloced_real a) real_bytes;
                 Some (base, a\<lparr>by_bytes_alloced := n, by_bytes_alloced_real := m\<rparr>) } } } } } }"

definition nvgpu_balloc_fixed_buddy ::
    "bool \<Rightarrow> (nat \<Rightarrow> bool) \<Rightarrow> nvgpu_buddy_allocator \<Rightarrow> u64 \<Rightarrow> u64 \<Rightarrow> u32 \<Rightarrow> (u64 \<times> nvgpu_buddy_allocator) option" where
  "nvgpu_balloc_fixed_buddy kmalloc_ok oom a base len page_size =
     do {
       (r, a) \<leftarrow> nvgpu_balloc_fixed_buddy_locked kmalloc_ok oom a base len page_size;
       Some (r, if r \<noteq> 0 then a\<lparr>by_alloc_made := True\<rparr> else a) }"

section \<open>Release\<close>

definition nvgpu_buddy_bfree_locked :: "nvgpu_buddy_allocator \<Rightarrow> u64 \<Rightarrow> nvgpu_buddy_allocator option" where
  "nvgpu_buddy_bfree_locked a addr =
     (case balloc_free_fixed a addr of
        (Some f, a) \<Rightarrow> balloc_do_free_fixed a f
      | (None, a) \<Rightarrow> do {
          (bud, a) \<leftarrow> balloc_free_buddy a addr;
          (case bud of
             None \<Rightarrow> Some a
           | Some p \<Rightarrow> do {
               a \<leftarrow> balloc_blist_add a p;
               b \<leftarrow> by_heap a p;
               n \<leftarrow> balloc_order_to_len a (bd_order b);
               n \<leftarrow> nvgpu_safe_add_u64 (by_bytes_freed a) n;
               balloc_coalesce p (a\<lparr>by_bytes_freed := n\<rparr>) }) })"

definition nvgpu_buddy_bfree :: "nvgpu_buddy_allocator \<Rightarrow> u64 \<Rightarrow> nvgpu_buddy_allocator option" where
  "nvgpu_buddy_bfree a addr = (if addr = 0 then Some a else nvgpu_buddy_bfree_locked a addr)"

section \<open>Carveouts\<close>

fun reserve_is_possible :: "nvgpu_alloc_carveout list \<Rightarrow> u64 \<Rightarrow> u64 \<Rightarrow> bool option" where
  "reserve_is_possible [] co_start co_end = Some True"
| "reserve_is_possible (t # ts) co_start co_end =
     do {
       tmp_end \<leftarrow> nvgpu_safe_add_u64 (co_base t) (co_length t);
       if co_start \<ge> co_base t \<and> co_start < tmp_end \<or> co_end \<ge> co_base t \<and> co_end < tmp_end then Some False
       else reserve_is_possible ts co_start co_end }"

definition nvgpu_buddy_reserve_is_possible :: "nvgpu_buddy_allocator \<Rightarrow> nvgpu_alloc_carveout \<Rightarrow> bool option" where
  "nvgpu_buddy_reserve_is_possible a co =
     do { co_end \<leftarrow> nvgpu_safe_add_u64 (co_base co) (co_length co); reserve_is_possible (by_co_list a) (co_base co) co_end }"

definition nvgpu_buddy_reserve_co ::
    "bool \<Rightarrow> (nat \<Rightarrow> bool) \<Rightarrow> nvgpu_buddy_allocator \<Rightarrow> nvgpu_alloc_carveout \<Rightarrow> (unit result \<times> nvgpu_buddy_allocator) option" where
  "nvgpu_buddy_reserve_co kmalloc_ok oom a co =
     (if co_base co < by_start a then Some (Inl EINVAL, a)
      else do {
        e \<leftarrow> nvgpu_safe_add_u64 (co_base co) (co_length co);
        if e > by_end a then Some (Inl EINVAL, a)
        else if by_alloc_made a then Some (Inl EINVAL, a)
        else do {
          possible \<leftarrow> nvgpu_buddy_reserve_is_possible a co;
          if \<not> possible then Some (Inl EBUSY, a)
          else do {
            (addr, a) \<leftarrow> nvgpu_balloc_fixed_buddy_locked kmalloc_ok oom a (co_base co) (co_length co) BALLOC_PTE_SIZE_ANY;
            if addr = 0 then Some (Inl ENOMEM, a)
            else Some (Inr (), a\<lparr>by_co_list := co # by_co_list a\<rparr>) } } })"

definition nvgpu_buddy_release_co :: "nvgpu_buddy_allocator \<Rightarrow> nvgpu_alloc_carveout \<Rightarrow> nvgpu_buddy_allocator option" where
  "nvgpu_buddy_release_co a co = nvgpu_buddy_bfree_locked (a\<lparr>by_co_list := remove1 co (by_co_list a)\<rparr>) (co_base co)"

section \<open>Queries\<close>

definition nvgpu_buddy_alloc_length :: "nvgpu_buddy_allocator \<Rightarrow> u64" where
  "nvgpu_buddy_alloc_length a = by_length a"

definition nvgpu_buddy_alloc_base :: "nvgpu_buddy_allocator \<Rightarrow> u64" where
  "nvgpu_buddy_alloc_base a = by_start a"

definition nvgpu_buddy_alloc_inited :: "nvgpu_buddy_allocator \<Rightarrow> bool" where
  "nvgpu_buddy_alloc_inited a = by_initialized a"

definition nvgpu_buddy_alloc_end :: "nvgpu_buddy_allocator \<Rightarrow> u64" where
  "nvgpu_buddy_alloc_end a = by_end a"

definition nvgpu_buddy_alloc_space :: "nvgpu_buddy_allocator \<Rightarrow> u64 option" where
  "nvgpu_buddy_alloc_space a =
     do {
       space \<leftarrow> nvgpu_safe_sub_u64 (by_end a) (by_start a);
       used \<leftarrow> nvgpu_safe_sub_u64 (by_bytes_alloced_real a) (by_bytes_freed a);
       nvgpu_safe_sub_u64 space used }"

section \<open>Setting up and tearing down\<close>

partial_function (option) destroy_fixed :: "nvgpu_buddy_allocator \<Rightarrow> nvgpu_buddy_allocator option" where
  "destroy_fixed a =
     (case idx_enum_start 0 (by_fixed_allocs a) of
        None \<Rightarrow> Some a
      | Some (k, f) \<Rightarrow> Option.bind (balloc_do_free_fixed (a\<lparr>by_fixed_allocs := idx_unlink k (by_fixed_allocs a)\<rparr>) f) destroy_fixed)"

partial_function (option) destroy_alloced :: "nvgpu_buddy_allocator \<Rightarrow> nvgpu_buddy_allocator option" where
  "destroy_alloced a =
     (case idx_enum_start 0 (by_alloced_buddies a) of
        None \<Rightarrow> Some a
      | Some (k, p) \<Rightarrow>
          Option.bind (by_heap a p) (\<lambda>b.
          Option.bind (balloc_free_buddy a (bd_start b)) (\<lambda>(_, a).
          Option.bind (balloc_blist_add a p) (\<lambda>a.
          Option.bind (balloc_coalesce p a) destroy_alloced))))"

partial_function (option) destroy_list :: "nat \<Rightarrow> nvgpu_buddy_allocator \<Rightarrow> nvgpu_buddy_allocator option" where
  "destroy_list i a =
     (case by_list a i of
        [] \<Rightarrow> Some a
      | p # _ \<Rightarrow> Option.bind (balloc_blist_rem a p) (\<lambda>a. destroy_list i (cache_free p a)))"

fun destroy_lists :: "nat list \<Rightarrow> nvgpu_buddy_allocator \<Rightarrow> nvgpu_buddy_allocator option" where
  "destroy_lists [] a = Some a"
| "destroy_lists (i # is) a =
     do {
       nvgpu_assert (by_list_alloced a i = 0);
       a \<leftarrow> destroy_list i a;
       nvgpu_assert (by_list_len a i = 0);
       nvgpu_assert (by_list_split a i = 0);
       nvgpu_assert (by_list_alloced a i = 0);
       destroy_lists is a }"

definition nvgpu_buddy_allocator_destroy :: "nvgpu_buddy_allocator \<Rightarrow> nvgpu_buddy_allocator option" where
  "nvgpu_buddy_allocator_destroy a =
     do {
       a \<leftarrow> destroy_fixed a;
       a \<leftarrow> destroy_alloced a;
       destroy_lists [0..<GPU_BALLOC_MAX_ORDER + 1] a }"

definition nvgpu_buddy_check_argument_limits :: "buddy_vm option \<Rightarrow> u64 \<Rightarrow> u64 \<Rightarrow> u64 \<Rightarrow> u64 \<Rightarrow> unit result" where
  "nvgpu_buddy_check_argument_limits vm sz blk_size max_order flags =
     (if blk_size = 0 then Inl EINVAL
      else if blk_size AND (blk_size - 1) \<noteq> 0 then Inl EINVAL
      else if max_order > GPU_BALLOC_MAX_ORDER then Inl EINVAL
      else if sz = 0 then Inl EINVAL
      else if bit flags GPU_ALLOC_GVA_SPACE \<and> vm = None then Inl EINVAL
      else Inr ())"

definition nvgpu_buddy_set_attributes ::
    "nvgpu_buddy_allocator \<Rightarrow> buddy_vm option \<Rightarrow> u64 \<Rightarrow> u64 \<Rightarrow> u64 \<Rightarrow> u64 \<Rightarrow> u64 \<Rightarrow> (unit result \<times> nvgpu_buddy_allocator) option" where
  "nvgpu_buddy_set_attributes a vm base sz blk_size max_order flags =
     do {
       shift \<leftarrow> nvgpu_safe_sub_u64 (nvgpu_ffs blk_size) 1;
       let a = a\<lparr>by_base := base, by_length := sz, by_blk_size := blk_size, by_blk_shift := shift\<rparr>;
       a \<leftarrow> (if by_base a = 0
              then do { l \<leftarrow> nvgpu_safe_sub_u64 (by_length a) (by_blk_size a); Some (a\<lparr>by_base := by_blk_size a, by_length := l\<rparr>) }
              else Some a);
       let a = a\<lparr>by_vm := vm\<rparr>;
       (err, a) \<leftarrow>
         (if bit flags GPU_ALLOC_GVA_SPACE
          then do {
            v \<leftarrow> vm;
            nvgpu_assert (bv_pde_bits v < 64);
            let pde_size = 2 ^ bv_pde_bits v;
            let a = a\<lparr>by_pte_blk_order := balloc_get_order a pde_size\<rparr>;
            let m = pde_size - 1;
            Some (bv_big_pages v \<and> (by_base a AND m \<noteq> 0 \<or> by_length a AND m \<noteq> 0), a) }
          else Some (False, a));
       Some (if err then (Inl EINVAL, a) else (Inr (), a\<lparr>by_flags := flags, by_max_order := max_order\<rparr>)) }"

definition zero_buddy_allocator :: nvgpu_buddy_allocator where
  "zero_buddy_allocator =
     \<lparr>by_vm = None, by_base = 0, by_length = 0, by_blk_size = 0, by_blk_shift = 0, by_start = 0, by_end = 0, by_count = 0, by_blks = 0,
      by_max_order = 0, by_alloced_buddies = [], by_fixed_allocs = [], by_co_list = [], by_heap = Map.empty, by_fresh = 0, by_requests = 0,
      by_list = (\<lambda>_. []), by_list_len = (\<lambda>_. 0), by_list_split = (\<lambda>_. 0), by_list_alloced = (\<lambda>_. 0), by_pte_blk_order = 0,
      by_initialized = False, by_alloc_made = False, by_flags = 0, by_bytes_alloced = 0, by_bytes_alloced_real = 0, by_bytes_freed = 0\<rparr>"

text \<open>On an error the allocator is freed; the second component is what the cache of buddies still holds.\<close>

definition nvgpu_buddy_allocator_init ::
    "bool \<Rightarrow> bool \<Rightarrow> (nat \<Rightarrow> bool) \<Rightarrow> buddy_vm option \<Rightarrow> u64 \<Rightarrow> u64 \<Rightarrow> u64 \<Rightarrow> u64 \<Rightarrow> u64 \<Rightarrow>
       (nvgpu_buddy_allocator result \<times> (nat \<rightharpoonup> nvgpu_buddy)) option" where
  "nvgpu_buddy_allocator_init kzalloc_ok cache_ok oom vm base sz blk_size max_order flags =
     (case nvgpu_buddy_check_argument_limits vm sz blk_size max_order flags of
        Inl e \<Rightarrow> Some (Inl e, Map.empty)
      | Inr _ \<Rightarrow>
          if \<not> kzalloc_ok then Some (Inl ENOMEM, Map.empty)
          else do {
            (err, a) \<leftarrow> nvgpu_buddy_set_attributes zero_buddy_allocator vm base sz blk_size max_order flags;
            (case err of
               Inl e \<Rightarrow> Some (Inl e, Map.empty)
             | Inr _ \<Rightarrow> do {
                 (err, a) \<leftarrow> balloc_allocator_align a;
                 (case err of
                    Inl e \<Rightarrow> Some (Inl e, Map.empty)
                  | Inr _ \<Rightarrow> do {
                      a \<leftarrow> balloc_compute_max_order a;
                      if \<not> cache_ok then Some (Inl ENOMEM, Map.empty)
                      else do {
                        (err, a) \<leftarrow> balloc_init_lists oom (a\<lparr>by_alloced_buddies := [], by_fixed_allocs := [], by_co_list := []\<rparr>);
                        Some (case err of
                                Inl e \<Rightarrow> (Inl e, by_heap a)
                              | Inr _ \<Rightarrow> (Inr (a\<lparr>by_initialized := True\<rparr>), by_heap a)) } }) }) })"

end
