(* ===== verification/Buddy_Core.thy ===== *)
theory Buddy_Core
  imports Buddy
begin

text \<open>
  The structure of the buddies, apart from their flags and lists: a forest of blocks in which every split block
  is the disjoint union of its halves, so that the blocks that are not split tile the range. Splitting a block
  and joining two halves keep this.
\<close>

record bcore =
  c_parent :: "nat option"
  c_buddy :: "nat option"
  c_left :: "nat option"
  c_right :: "nat option"
  c_split :: bool
  c_start :: u64
  c_end :: u64
  c_order :: u64

text \<open>The range, the size of a block and the greatest order.\<close>

record bcfg =
  g_start :: nat
  g_end :: nat
  g_blk :: nat
  g_max :: nat

definition core_ok :: "bcfg \<Rightarrow> nat \<Rightarrow> nat \<Rightarrow> bcore \<Rightarrow> bool" where
  "core_ok G n p c \<longleftrightarrow> p < n \<and> c_order c \<le> g_max G \<and> c_end c = c_start c + 2 ^ c_order c * g_blk G \<and>
     g_start G \<le> c_start c \<and> c_end c \<le> g_end G \<and> (c_start c - g_start G) mod (2 ^ c_order c * g_blk G) = 0"

definition kids_ok :: "(nat \<rightharpoonup> bcore) \<Rightarrow> nat \<Rightarrow> bcore \<Rightarrow> bool" where
  "kids_ok h p c \<longleftrightarrow> (\<exists>l r cl cr. c_left c = Some l \<and> c_right c = Some r \<and> l \<noteq> r \<and> h l = Some cl \<and> h r = Some cr \<and>
     c_parent cl = Some p \<and> c_parent cr = Some p \<and> c_buddy cl = Some r \<and> c_buddy cr = Some l \<and>
     Suc (c_order cl) = c_order c \<and> Suc (c_order cr) = c_order c \<and> c_start cl = c_start c \<and> c_start cr = c_end cl)"

definition par_ok :: "(nat \<rightharpoonup> bcore) \<Rightarrow> nat \<Rightarrow> bcore \<Rightarrow> bool" where
  "par_ok h p c \<longleftrightarrow> (case c_parent c of
     None \<Rightarrow> c_buddy c = None
   | Some q \<Rightarrow> \<exists>cq. h q = Some cq \<and> c_split cq \<and> (c_left cq = Some p \<or> c_right cq = Some p))"

definition leaf_at :: "(nat \<rightharpoonup> bcore) \<Rightarrow> nat \<Rightarrow> nat \<Rightarrow> bool" where
  "leaf_at h x p \<longleftrightarrow> (\<exists>c. h p = Some c \<and> \<not> c_split c \<and> c_start c \<le> x \<and> x < c_end c)"

definition forest :: "bcfg \<Rightarrow> nat \<Rightarrow> (nat \<rightharpoonup> bcore) \<Rightarrow> bool" where
  "forest G n h \<longleftrightarrow> 0 < g_blk G \<and>
     (\<forall>p c. h p = Some c \<longrightarrow> core_ok G n p c \<and> par_ok h p c \<and> (c_split c \<longrightarrow> kids_ok h p c)) \<and>
     (\<forall>x. g_start G \<le> x \<longrightarrow> x < g_end G \<longrightarrow> (\<exists>!p. leaf_at h x p))"

lemma forestD:
  assumes "forest G n h" "h p = Some c"
  shows "core_ok G n p c" "par_ok h p c" "c_split c \<Longrightarrow> kids_ok h p c"
  using assms by (auto simp: forest_def)

lemma forest_tile: "forest G n h \<Longrightarrow> g_start G \<le> x \<Longrightarrow> x < g_end G \<Longrightarrow> \<exists>!p. leaf_at h x p"
  by (simp add: forest_def)

lemma forestI:
  "0 < g_blk G \<Longrightarrow> (\<And>p c. h p = Some c \<Longrightarrow> core_ok G n p c \<and> par_ok h p c \<and> (c_split c \<longrightarrow> kids_ok h p c)) \<Longrightarrow>
   (\<And>x. g_start G \<le> x \<Longrightarrow> x < g_end G \<Longrightarrow> \<exists>!p. leaf_at h x p) \<Longrightarrow> forest G n h"
  by (simp add: forest_def)

lemma forest_mono:
  assumes f: "forest G n h" and n: "n \<le> n'"
  shows "forest G n' h"
proof (rule forestI)
  show "0 < g_blk G" using f by (simp add: forest_def)
  show "core_ok G n' p c \<and> par_ok h p c \<and> (c_split c \<longrightarrow> kids_ok h p c)" if "h p = Some c" for p c
    using forestD[OF f that] n by (auto simp: core_ok_def)
  show "\<exists>!p. leaf_at h x p" if "g_start G \<le> x" "x < g_end G" for x by (rule forest_tile[OF f that])
qed

lemma core_len: "core_ok G n p c \<Longrightarrow> 0 < g_blk G \<Longrightarrow> c_start c < c_end c"
  by (simp add: core_ok_def)

text \<open>Two leaves with a common point are one.\<close>

lemma leaf_unique:
  assumes f: "forest G n h" and p: "h p = Some c" "\<not> c_split c" "c_start c \<le> x" "x < c_end c"
    and q: "h q = Some d" "\<not> c_split d" "c_start d \<le> x" "x < c_end d"
  shows "p = q"
proof -
  have "g_start G \<le> x" "x < g_end G" using forestD(1)[OF f p(1)] p by (auto simp: core_ok_def)
  then have "\<exists>!p. leaf_at h x p" using f by (auto simp: forest_def)
  moreover have "leaf_at h x p" "leaf_at h x q" using p q by (auto simp: leaf_at_def)
  ultimately show ?thesis by blast
qed

lemma leaf_disjoint:
  assumes f: "forest G n h" and p: "h p = Some c" "\<not> c_split c" and q: "h q = Some d" "\<not> c_split d" and ne: "p \<noteq> q"
  shows "c_end c \<le> c_start d \<or> c_end d \<le> c_start c"
proof (rule ccontr)
  assume a: "\<not> ?thesis"
  have "0 < g_blk G" using f by (simp add: forest_def)
  then have "c_start c < c_end c" "c_start d < c_end d"
    using core_len[OF forestD(1)[OF f p(1)]] core_len[OF forestD(1)[OF f q(1)]] by auto
  then have "c_start c \<le> max (c_start c) (c_start d)" "max (c_start c) (c_start d) < c_end c"
    "c_start d \<le> max (c_start c) (c_start d)" "max (c_start c) (c_start d) < c_end d" using a by auto
  then show False using leaf_unique[OF f p _ _ q] ne by blast
qed

lemma half_len: "0 < (n::nat) \<Longrightarrow> 2 ^ n * k = 2 ^ (n - 1) * k + 2 ^ (n - 1) * (k::nat)"
  by (cases n) auto

section \<open>Splitting\<close>

definition split_core :: "nat \<Rightarrow> bcore \<Rightarrow> nat \<Rightarrow> nat \<Rightarrow> nat \<Rightarrow> (nat \<rightharpoonup> bcore) \<Rightarrow> (nat \<rightharpoonup> bcore)" where
  "split_core p c l r k h = h(
     p \<mapsto> c\<lparr>c_split := True, c_left := Some l, c_right := Some r\<rparr>,
     l \<mapsto> \<lparr>c_parent = Some p, c_buddy = Some r, c_left = None, c_right = None, c_split = False, c_start = c_start c,
           c_end = c_start c + 2 ^ (c_order c - 1) * k, c_order = c_order c - 1\<rparr>,
     r \<mapsto> \<lparr>c_parent = Some p, c_buddy = Some l, c_left = None, c_right = None, c_split = False,
           c_start = c_start c + 2 ^ (c_order c - 1) * k, c_end = c_end c, c_order = c_order c - 1\<rparr>)"

lemma forest_split:
  assumes f: "forest G n h" and p: "h p = Some c" "\<not> c_split c" "0 < c_order c" and l: "n \<le> l" "l < r" "r < n'"
  shows "forest G n' (split_core p c l r (g_blk G) h)"
proof -
  let ?h = "split_core p c l r (g_blk G) h" and ?half = "2 ^ (c_order c - 1) * g_blk G"
  have b: "0 < g_blk G" using f by (simp add: forest_def)
  have old: "q < n" if "h q = Some d" for q d using forestD(1)[OF f that] by (simp add: core_ok_def)
  have new: "h l = None" "h r = None" "p \<noteq> l" "p \<noteq> r" "l \<noteq> r" using old[of l] old[of r] old[OF p(1)] l by fastforce+
  have cp: "core_ok G n p c" by (rule forestD(1)[OF f p(1)])
  have len: "c_end c = c_start c + ?half + ?half" "0 < ?half" using cp half_len[OF p(3), of "g_blk G"] b by (auto simp: core_ok_def)
  have hp: "?h p = Some (c\<lparr>c_split := True, c_left := Some l, c_right := Some r\<rparr>)" using new by (simp add: split_core_def)
  have ho: "?h q = h q" if "q \<noteq> p" "q \<noteq> l" "q \<noteq> r" for q using that by (simp add: split_core_def)
  have nodes: "core_ok G n' q d \<and> par_ok ?h q d \<and> (c_split d \<longrightarrow> kids_ok ?h q d)" if d: "?h q = Some d" for q d
  proof -
    consider "q = p" | "q = l" | "q = r" | "q \<noteq> p" "q \<noteq> l" "q \<noteq> r" by blast
    then show ?thesis
    proof cases
      case 1
      then have e: "d = c\<lparr>c_split := True, c_left := Some l, c_right := Some r\<rparr>" using d hp by simp
      have "core_ok G n' q d" using cp l e 1 by (simp add: core_ok_def)
      moreover have "par_ok ?h q d"
        using forestD(2)[OF f p(1)] old new l p(1,2) unfolding par_ok_def e 1
        by (auto split: option.splits simp: split_core_def)
      moreover have "kids_ok ?h q d" unfolding kids_ok_def e 1 using new p(3) by (simp add: split_core_def)
      ultimately show ?thesis by blast
    next
      case 2
      have m: "(c_start c - g_start G) mod ?half = 0"
        using cp half_len[OF p(3), of "g_blk G"] unfolding core_ok_def by (metis dvd_eq_mod_eq_0 dvd_add_triv_right_iff dvd_trans dvd_refl mult_2 dvd_triv_right mod_0_imp_dvd)
      then show ?thesis using d 2 new cp l len p(3) unfolding core_ok_def par_ok_def
        by (auto simp: split_core_def)
    next
      case 3
      have m: "(c_start c - g_start G) mod ?half = 0"
        using cp half_len[OF p(3), of "g_blk G"] unfolding core_ok_def by (metis dvd_eq_mod_eq_0 dvd_add_triv_right_iff dvd_trans dvd_refl mult_2 dvd_triv_right mod_0_imp_dvd)
      then have "(c_start c + ?half - g_start G) mod ?half = 0" using cp unfolding core_ok_def by (metis add.commute diff_add_assoc2 mod_add_self2)
      then show ?thesis using d 3 new cp l len p(3) unfolding core_ok_def par_ok_def
        by (auto simp: split_core_def)
    next
      case 4
      then have hq: "h q = Some d" using d ho by simp
      have "par_ok ?h q d" using forestD(2)[OF f hq] old new l p unfolding par_ok_def
        by (auto split: option.splits simp: split_core_def)
      moreover have "kids_ok ?h q d" if sp: "c_split d"
      proof -
        obtain a e ca ce where k: "c_left d = Some a" "c_right d = Some e" "a \<noteq> e" "h a = Some ca" "h e = Some ce"
          "c_parent ca = Some q" "c_parent ce = Some q" "c_buddy ca = Some e" "c_buddy ce = Some a"
          "Suc (c_order ca) = c_order d" "Suc (c_order ce) = c_order d" "c_start ca = c_start d" "c_start ce = c_end ca"
          using forestD(3)[OF f hq sp] by (auto simp: kids_ok_def)
        have "a \<noteq> l" "a \<noteq> r" "e \<noteq> l" "e \<noteq> r" using k(4,5) new by auto
        then show ?thesis unfolding kids_ok_def using k p(1) by (intro exI[of _ a] exI[of _ e]) (auto simp: split_core_def)
      qed
      ultimately show ?thesis using forestD(1)[OF f hq] l by (auto simp: core_ok_def)
    qed
  qed
  have tile: "\<exists>!q. leaf_at ?h x q" if x: "g_start G \<le> x" "x < g_end G" for x
  proof -
    obtain q where q: "leaf_at h x q" "\<And>q'. leaf_at h x q' \<Longrightarrow> q' = q" using forest_tile[OF f x] by (elim ex1E) blast
    show ?thesis
    proof (cases "c_start c \<le> x \<and> x < c_end c")
      case True
      then have "q = p" using q(2)[of p] p by (auto simp: leaf_at_def)
      then have o: "\<not> leaf_at h x q'" if "q' \<noteq> p" for q' using q(2) that by blast
      show ?thesis
      proof (cases "x < c_start c + ?half")
        case True
        show ?thesis using \<open>c_start c \<le> x \<and> x < c_end c\<close> True o new
          by (intro ex1I[of _ l]) (auto simp: leaf_at_def split_core_def split: if_splits)
      next
        case False
        then show ?thesis using \<open>c_start c \<le> x \<and> x < c_end c\<close> o new
          by (intro ex1I[of _ r]) (auto simp: leaf_at_def split_core_def split: if_splits)
      qed
    next
      case False
      then have "leaf_at ?h x y = leaf_at h x y" for y using p new len by (auto simp: leaf_at_def split_core_def split: if_splits)
      then show ?thesis using forest_tile[OF f x] by simp
    qed
  qed
  show ?thesis
  proof (rule forestI[OF b])
    show "core_ok G n' x e \<and> par_ok ?h x e \<and> (c_split e \<longrightarrow> kids_ok ?h x e)" if "?h x = Some e" for x e by (rule nodes[OF that])
    show "\<exists>!p. leaf_at ?h x p" if "g_start G \<le> x" "x < g_end G" for x by (rule tile[OF that])
  qed
qed

section \<open>Joining\<close>

definition merge_core :: "nat \<Rightarrow> nat \<Rightarrow> nat \<Rightarrow> bcore \<Rightarrow> (nat \<rightharpoonup> bcore) \<Rightarrow> (nat \<rightharpoonup> bcore)" where
  "merge_core p q par cp h = h(par \<mapsto> cp\<lparr>c_split := False\<rparr>, p := None, q := None)"

text \<open>A block with a parent is one of its halves, and the other half is its buddy.\<close>

lemma forest_family:
  assumes f: "forest G n h" and p: "h p = Some c" and par: "c_parent c = Some par"
  obtains cp q d where "h par = Some cp" "c_split cp" "c_buddy c = Some q" "h q = Some d" "p \<noteq> q" "par \<noteq> p" "par \<noteq> q"
    "c_parent d = Some par" "c_buddy d = Some p" "Suc (c_order c) = c_order cp" "c_order d = c_order c"
    "c_left cp = Some p \<and> c_right cp = Some q \<and> c_start c = c_start cp \<and> c_start d = c_end c \<and> c_end d = c_end cp \<or>
     c_left cp = Some q \<and> c_right cp = Some p \<and> c_start d = c_start cp \<and> c_start c = c_end d \<and> c_end c = c_end cp"
proof -
  obtain cp where cp: "h par = Some cp" "c_split cp" "c_left cp = Some p \<or> c_right cp = Some p"
    using forestD(2)[OF f p] par by (auto simp: par_ok_def)
  obtain l r cl cr where k: "c_left cp = Some l" "c_right cp = Some r" "l \<noteq> r" "h l = Some cl" "h r = Some cr"
    "c_parent cl = Some par" "c_parent cr = Some par" "c_buddy cl = Some r" "c_buddy cr = Some l"
    "Suc (c_order cl) = c_order cp" "Suc (c_order cr) = c_order cp" "c_start cl = c_start cp" "c_start cr = c_end cl"
    using forestD(3)[OF f cp(1,2)] by (auto simp: kids_ok_def)
  have e: "c_end cr = c_end cp"
    using forestD(1)[OF f k(4)] forestD(1)[OF f k(5)] forestD(1)[OF f cp(1)] k(10-13)
    by (cases "c_order cp") (auto simp: core_ok_def)
  have "par \<noteq> l" "par \<noteq> r" using k cp by auto
  then show thesis using that[OF cp(1,2)] cp(3) k e p by auto
qed

lemma forest_merge:
  assumes f: "forest G n h" and p: "h p = Some c" "\<not> c_split c" and q: "c_buddy c = Some q" "h q = Some d" "\<not> c_split d"
    and par: "c_parent c = Some par" "h par = Some cp"
  shows "forest G n (merge_core p q par cp h)"
proof -
  let ?h = "merge_core p q par cp h"
  note fam = forest_family[OF f p(1) par(1)]
  have w: "c_split cp" "p \<noteq> q" "par \<noteq> p" "par \<noteq> q" "c_parent d = Some par"
    "c_left cp = Some p \<and> c_right cp = Some q \<and> c_start c = c_start cp \<and> c_start d = c_end c \<and> c_end d = c_end cp \<or>
     c_left cp = Some q \<and> c_right cp = Some p \<and> c_start d = c_start cp \<and> c_start c = c_end d \<and> c_end c = c_end cp"
    using fam par(2) q by (metis option.inject)+
  have b: "0 < g_blk G" using f by (simp add: forest_def)
  have lens: "c_start c < c_end c" "c_start d < c_end d" using core_len[OF forestD(1)[OF f p(1)] b] core_len[OF forestD(1)[OF f q(2)] b] by auto
  have nodes: "core_ok G n x e \<and> par_ok ?h x e \<and> (c_split e \<longrightarrow> kids_ok ?h x e)" if e: "?h x = Some e" for x e
  proof -
    have x: "x \<noteq> p" "x \<noteq> q" using e by (auto simp: merge_core_def split: if_splits)
    obtain e0 where e0: "h x = Some e0" "e = (if x = par then cp\<lparr>c_split := False\<rparr> else e0)" "x = par \<Longrightarrow> e0 = cp"
      using e x par(2) by (auto simp: merge_core_def split: if_splits)
    have kids: "kids_ok ?h x e" if sp: "c_split e"
    proof -
      have ne: "x \<noteq> par" "e = e0" using sp e0 by (auto split: if_splits)
      obtain u v cu cv where k: "c_left e = Some u" "c_right e = Some v" "u \<noteq> v" "h u = Some cu" "h v = Some cv"
        "c_parent cu = Some x" "c_parent cv = Some x" "c_buddy cu = Some v" "c_buddy cv = Some u"
        "Suc (c_order cu) = c_order e" "Suc (c_order cv) = c_order e" "c_start cu = c_start e" "c_start cv = c_end cu"
        using forestD(3)[OF f e0(1)] sp ne(2) by (auto simp: kids_ok_def)
      have "u \<noteq> p" "u \<noteq> q" "v \<noteq> p" "v \<noteq> q" using k ne(1) p(1) q(2) par(1) w(5) by auto
      then show ?thesis unfolding kids_ok_def using k par(2)
        by (intro exI[of _ u] exI[of _ v]) (auto simp: merge_core_def)
    qed
    have "par_ok ?h x e0"
    proof (cases "c_parent e0")
      case None
      then show ?thesis using forestD(2)[OF f e0(1)] by (simp add: par_ok_def)
    next
      case (Some s)
      then obtain cs where cs: "h s = Some cs" "c_split cs" "c_left cs = Some x \<or> c_right cs = Some x"
        using forestD(2)[OF f e0(1)] by (auto simp: par_ok_def)
      have "s \<noteq> p" "s \<noteq> q" using cs p q by auto
      moreover have "s \<noteq> par" using cs par(2) w(6) x by auto
      ultimately show ?thesis using Some cs by (auto simp: par_ok_def merge_core_def)
    qed
    then have "par_ok ?h x e" using e0 by (auto simp: par_ok_def split: option.splits)
    moreover have "core_ok G n x e" using forestD(1)[OF f e0(1)] e0 by (auto simp: core_ok_def)
    ultimately show ?thesis using kids by blast
  qed
  have tile: "\<exists>!x. leaf_at ?h y x" if y: "g_start G \<le> y" "y < g_end G" for y
  proof -
    obtain x where x: "leaf_at h y x" "\<And>x'. leaf_at h y x' \<Longrightarrow> x' = x" using forest_tile[OF f y] by (elim ex1E) blast
    show ?thesis
    proof (cases "c_start cp \<le> y \<and> y < c_end cp")
      case True
      then have "leaf_at h y p \<or> leaf_at h y q" using w(6) p q by (auto simp: leaf_at_def)
      then have o: "\<not> leaf_at h y x'" if "x' \<noteq> p" "x' \<noteq> q" for x' using x(2) that by blast
      show ?thesis using True o w(3,4) by (intro ex1I[of _ par]) (auto simp: leaf_at_def merge_core_def split: if_splits)
    next
      case False
      then have "leaf_at ?h y z = leaf_at h y z" for z using p q par(2) w lens by (auto simp: leaf_at_def merge_core_def split: if_splits)
      then show ?thesis using forest_tile[OF f y] by simp
    qed
  qed
  show ?thesis
  proof (rule forestI[OF b])
    show "core_ok G n x e \<and> par_ok ?h x e \<and> (c_split e \<longrightarrow> kids_ok ?h x e)" if "?h x = Some e" for x e by (rule nodes[OF that])
    show "\<exists>!p. leaf_at ?h x p" if "g_start G \<le> x" "x < g_end G" for x by (rule tile[OF that])
  qed
qed

section \<open>Counting\<close>

text \<open>At the start of a block there is a leaf, of a lesser order if the block is split.\<close>

lemma first_leaf:
  assumes f: "forest G n h"
  shows "h p = Some c \<Longrightarrow> \<exists>q d. h q = Some d \<and> \<not> c_split d \<and> c_start d = c_start c \<and> c_order d \<le> c_order c \<and> (c_split c \<longrightarrow> c_order d < c_order c)"
proof (induction "c_order c" arbitrary: p c rule: less_induct)
  case less
  show ?case
  proof (cases "c_split c")
    case True
    then obtain l cl where l: "h l = Some cl" "Suc (c_order cl) = c_order c" "c_start cl = c_start c"
      using forestD(3)[OF f less.prems] by (auto simp: kids_ok_def)
    then show ?thesis using less.hyps[of cl l] by fastforce
  qed (use less.prems in blast)
qed

lemma node_unique:
  assumes f: "forest G n h"
  shows "h p = Some c \<Longrightarrow> h q = Some d \<Longrightarrow> c_start c = c_start d \<Longrightarrow> c_order c = c_order d \<Longrightarrow> p = q"
proof (induction "c_order c" arbitrary: p c q d rule: less_induct)
  case less
  have b: "0 < g_blk G" using f by (simp add: forest_def)
  have leaf: "c_order e = c_order e'" if "h x = Some e" "\<not> c_split e" "h x' = Some e'" "\<not> c_split e'" "c_start e = c_start e'" for x e x' e'
    using leaf_unique[OF f that(1,2) _ _ that(3,4), of "c_start e"] core_len[OF forestD(1)[OF f that(1)] b] core_len[OF forestD(1)[OF f that(3)] b] that
    by auto
  consider "c_split c" "c_split d" | "\<not> c_split c" "\<not> c_split d" | "c_split c" "\<not> c_split d" | "\<not> c_split c" "c_split d" by blast
  then show ?case
  proof cases
    case 1
    obtain l cl where l: "h l = Some cl" "Suc (c_order cl) = c_order c" "c_start cl = c_start c" "c_parent cl = Some p"
      using forestD(3)[OF f less.prems(1) 1(1)] by (auto simp: kids_ok_def)
    obtain r cr where r: "h r = Some cr" "Suc (c_order cr) = c_order d" "c_start cr = c_start d" "c_parent cr = Some q"
      using forestD(3)[OF f less.prems(2) 1(2)] by (auto simp: kids_ok_def)
    have "l = r" using less.hyps[of cl l r cr] l r less.prems by simp
    then show ?thesis using l r by simp
  next
    case 2
    then show ?thesis using leaf_unique[OF f less.prems(1) _ _ _ less.prems(2), of "c_start c"] less.prems
        core_len[OF forestD(1)[OF f less.prems(1)] b] core_len[OF forestD(1)[OF f less.prems(2)] b] by auto
  next
    case 3
    obtain x e where "h x = Some e" "\<not> c_split e" "c_start e = c_start c" "c_order e < c_order c" using first_leaf[OF f less.prems(1)] 3 by auto
    then show ?thesis using leaf[OF less.prems(2) 3(2), of x e] less.prems by simp
  next
    case 4
    obtain x e where "h x = Some e" "\<not> c_split e" "c_start e = c_start d" "c_order e < c_order d" using first_leaf[OF f less.prems(2)] 4 by auto
    then show ?thesis using leaf[OF less.prems(1) 4(1), of x e] less.prems by simp
  qed
qed

text \<open>So the range bounds the number of blocks of one order.\<close>

lemma forest_finite:
  assumes "forest G n h"
  shows "finite (dom h)"
proof (rule finite_subset)
  show "dom h \<subseteq> {..<n}" using forestD(1)[OF assms] by (auto simp: core_ok_def)
qed simp

lemma forest_card:
  assumes f: "forest G n h" and S: "\<And>p. p \<in> S \<Longrightarrow> \<exists>c. h p = Some c \<and> c_order c = k"
  shows "card S \<le> g_end G - g_start G"
proof -
  have b: "0 < g_blk G" using f by (simp add: forest_def)
  have "c_start c \<in> {g_start G..<g_end G}" if "h p = Some c" for p c
  proof -
    have "g_start G \<le> c_start c" "c_end c \<le> g_end G" using forestD(1)[OF f that] by (auto simp: core_ok_def)
    then show ?thesis using core_len[OF forestD(1)[OF f that] b] by simp
  qed
  then have "(\<lambda>p. c_start (the (h p))) ` S \<subseteq> {g_start G..<g_end G}" using S by fastforce
  moreover have "inj_on (\<lambda>p. c_start (the (h p))) S"
    by (rule inj_onI) (metis S node_unique[OF f] option.sel)
  ultimately show ?thesis using card_inj_on_le[of _ S "{g_start G..<g_end G}"] by simp
qed

end
