(* ===== verification/Buddy_Inv.thy ===== *)
theory Buddy_Inv
  imports Buddy_Core
begin

text \<open>
  The invariant of the buddy allocator and what its primitive operations do to it: adding a buddy to the list of
  its order and taking it out, splitting a buddy, joining two, marking one as allocated or free.
\<close>

section \<open>The invariant\<close>

definition core_of :: "nvgpu_buddy \<Rightarrow> bcore" where
  "core_of b = \<lparr>c_parent = bd_parent b, c_buddy = bd_buddy b, c_left = bd_left b, c_right = bd_right b, c_split = bd_split b,
     c_start = bd_start b, c_end = bd_end b, c_order = bd_order b\<rparr>"

definition cores :: "(nat \<rightharpoonup> nvgpu_buddy) \<Rightarrow> (nat \<rightharpoonup> bcore)" where
  "cores h = (\<lambda>p. map_option core_of (h p))"

lemma core_of_sel [simp]:
  "c_parent (core_of b) = bd_parent b" "c_buddy (core_of b) = bd_buddy b" "c_left (core_of b) = bd_left b"
  "c_right (core_of b) = bd_right b" "c_split (core_of b) = bd_split b" "c_start (core_of b) = bd_start b"
  "c_end (core_of b) = bd_end b" "c_order (core_of b) = bd_order b"
  by (simp_all add: core_of_def)

lemma core_of_upd [simp]:
  "core_of (b\<lparr>bd_in_list := x\<rparr>) = core_of b" "core_of (b\<lparr>bd_alloced := x\<rparr>) = core_of b" "core_of (b\<lparr>bd_pte_size := y\<rparr>) = core_of b"
  by (simp_all add: core_of_def)

lemma cores_apply [simp]: "cores h p = Some c \<longleftrightarrow> (\<exists>b. h p = Some b \<and> c = core_of b)"
  by (auto simp: cores_def)

lemma cores_None [simp]: "cores h p = None \<longleftrightarrow> h p = None"
  by (simp add: cores_def)

lemma cores_upd: "cores (h(p \<mapsto> b)) = (cores h)(p \<mapsto> core_of b)"
  by (auto simp: cores_def)

lemma cores_same: "h p = Some b \<Longrightarrow> core_of b' = core_of b \<Longrightarrow> cores (h(p \<mapsto> b')) = cores h"
  by (auto simp: cores_def)

definition gcfg :: "nvgpu_buddy_allocator \<Rightarrow> bcfg" where
  "gcfg a = \<lparr>g_start = by_start a, g_end = by_end a, g_blk = by_blk_size a, g_max = by_max_order a\<rparr>"

lemma gcfg_sel [simp]:
  "g_start (gcfg a) = by_start a" "g_end (gcfg a) = by_end a" "g_blk (gcfg a) = by_blk_size a" "g_max (gcfg a) = by_max_order a"
  by (simp_all add: gcfg_def)

definition cfg_ok :: "nvgpu_buddy_allocator \<Rightarrow> bool" where
  "cfg_ok a \<longleftrightarrow> by_blk_size a = 2 ^ by_blk_shift a \<and> by_max_order a \<le> 63 \<and> 0 < by_start a \<and> by_start a \<le> by_end a \<and>
     by_end a \<le> U64_MAX \<and> by_start a mod by_blk_size a = 0"

definition is_free :: "nvgpu_buddy \<Rightarrow> bool" where
  "is_free b \<longleftrightarrow> \<not> bd_alloced b \<and> \<not> bd_split b"

definition nodes :: "(nvgpu_buddy \<Rightarrow> bool) \<Rightarrow> (nat \<rightharpoonup> nvgpu_buddy) \<Rightarrow> nat set" where
  "nodes P h = {p. \<exists>b. h p = Some b \<and> P b}"

lemma nodes_iff: "p \<in> nodes P h \<longleftrightarrow> (\<exists>b. h p = Some b \<and> P b)"
  by (simp add: nodes_def)

text \<open>The buddies \<open>L\<close> are in the lists of their orders and \<open>Y\<close> in lists of fixed allocations.\<close>

definition linked :: "nat set \<Rightarrow> nat set \<Rightarrow> nvgpu_buddy_allocator \<Rightarrow> bool" where
  "linked L Y a \<longleftrightarrow>
     (\<forall>n. distinct (by_list a n) \<and> by_list_len a n = length (by_list a n)) \<and>
     (\<forall>n p. p \<in> set (by_list a n) \<longleftrightarrow> p \<in> L \<and> p \<in> nodes (\<lambda>b. bd_order b = n) (by_heap a)) \<and>
     (\<forall>p b. by_heap a p = Some b \<longrightarrow> (bd_in_list b \<longleftrightarrow> p \<in> L \<or> p \<in> Y)) \<and> L \<subseteq> dom (by_heap a) \<and> L \<inter> Y = {}"

definition idx_ok :: "nvgpu_buddy_allocator \<Rightarrow> bool" where
  "idx_ok a \<longleftrightarrow> idx_sorted (by_alloced_buddies a) \<and>
     (\<forall>k p. (k, p) \<in> set (by_alloced_buddies a) \<longleftrightarrow> (\<exists>b. by_heap a p = Some b \<and> bd_alloced b \<and> bd_start b = k))"

definition counts_ok :: "nvgpu_buddy_allocator \<Rightarrow> bool" where
  "counts_ok a \<longleftrightarrow> (\<forall>n. by_list_split a n = card (nodes (\<lambda>b. bd_split b \<and> bd_order b = n) (by_heap a)) \<and>
     by_list_alloced a n = card (nodes (\<lambda>b. bd_alloced b \<and> bd_order b = n) (by_heap a)))"

text \<open>\<open>X\<close> are the free buddies an operation holds outside the lists.\<close>

definition bwf :: "nat set \<Rightarrow> nat set \<Rightarrow> nvgpu_buddy_allocator \<Rightarrow> bool" where
  "bwf X Y a \<longleftrightarrow> cfg_ok a \<and> forest (gcfg a) (by_fresh a) (cores (by_heap a)) \<and> linked (nodes is_free (by_heap a) - X) Y a \<and>
     X \<subseteq> nodes is_free (by_heap a) \<and> Y \<subseteq> nodes bd_alloced (by_heap a) \<and> (\<forall>p b. by_heap a p = Some b \<longrightarrow> \<not> (bd_alloced b \<and> bd_split b)) \<and> idx_ok a \<and> counts_ok a"

text \<open>What the operations on lists, and those on buddies, leave as it is.\<close>

definition frame :: "nvgpu_buddy_allocator \<Rightarrow> nvgpu_buddy_allocator" where
  "frame a = a\<lparr>by_heap := Map.empty, by_list := (\<lambda>_. []), by_list_len := (\<lambda>_. 0)\<rparr>"

definition rest :: "nvgpu_buddy_allocator \<Rightarrow> nvgpu_buddy_allocator" where
  "rest a = a\<lparr>by_heap := Map.empty, by_list := (\<lambda>_. []), by_list_len := (\<lambda>_. 0), by_list_split := (\<lambda>_. 0), by_list_alloced := (\<lambda>_. 0),
     by_alloced_buddies := [], by_fresh := 0, by_requests := 0\<rparr>"

lemma rest_frame: "rest (frame a) = rest a"
  by (simp add: rest_def frame_def)

lemma frame_rest: "frame a' = frame a \<Longrightarrow> rest a' = rest a"
  using rest_frame[of a] rest_frame[of a'] by simp

lemma frame_upd [simp]:
  "frame (a\<lparr>by_heap := h\<rparr>) = frame a" "frame (a\<lparr>by_list := l\<rparr>) = frame a" "frame (a\<lparr>by_list_len := n\<rparr>) = frame a"
  by (simp_all add: frame_def)

lemma rest_upd [simp]:
  "rest (a\<lparr>by_heap := h\<rparr>) = rest a" "rest (a\<lparr>by_list := l\<rparr>) = rest a" "rest (a\<lparr>by_list_len := n\<rparr>) = rest a"
  "rest (a\<lparr>by_list_split := n\<rparr>) = rest a" "rest (a\<lparr>by_list_alloced := n\<rparr>) = rest a" "rest (a\<lparr>by_alloced_buddies := x\<rparr>) = rest a"
  "rest (a\<lparr>by_fresh := k\<rparr>) = rest a" "rest (a\<lparr>by_requests := k\<rparr>) = rest a"
  by (simp_all add: rest_def)

lemma frame_sel:
  assumes "frame a' = frame a"
  shows "by_list_split a' = by_list_split a" "by_list_alloced a' = by_list_alloced a" "by_alloced_buddies a' = by_alloced_buddies a"
    "by_fresh a' = by_fresh a" "by_requests a' = by_requests a"
  using arg_cong[OF assms, of by_list_split] arg_cong[OF assms, of by_list_alloced] arg_cong[OF assms, of by_alloced_buddies]
    arg_cong[OF assms, of by_fresh] arg_cong[OF assms, of by_requests]
  by (simp_all add: frame_def)

lemma rest_sel:
  assumes "rest a' = rest a"
  shows "by_start a' = by_start a" "by_end a' = by_end a" "by_blk_size a' = by_blk_size a" "by_blk_shift a' = by_blk_shift a"
    "by_max_order a' = by_max_order a" "by_flags a' = by_flags a" "by_vm a' = by_vm a" "by_pte_blk_order a' = by_pte_blk_order a"
    "by_fixed_allocs a' = by_fixed_allocs a" "by_co_list a' = by_co_list a" "by_bytes_freed a' = by_bytes_freed a"
    "by_bytes_alloced a' = by_bytes_alloced a" "by_bytes_alloced_real a' = by_bytes_alloced_real a"
  using arg_cong[OF assms, of by_start] arg_cong[OF assms, of by_end] arg_cong[OF assms, of by_blk_size]
    arg_cong[OF assms, of by_blk_shift] arg_cong[OF assms, of by_max_order] arg_cong[OF assms, of by_flags]
    arg_cong[OF assms, of by_vm] arg_cong[OF assms, of by_pte_blk_order] arg_cong[OF assms, of by_fixed_allocs]
    arg_cong[OF assms, of by_co_list] arg_cong[OF assms, of by_bytes_freed] arg_cong[OF assms, of by_bytes_alloced]
    arg_cong[OF assms, of by_bytes_alloced_real]
  by (simp_all add: rest_def)

lemma rest_gcfg:
  assumes "rest a' = rest a"
  shows "gcfg a' = gcfg a"
  by (simp add: gcfg_def rest_sel[OF assms])

lemma rest_cfg_ok:
  assumes "rest a' = rest a"
  shows "cfg_ok a' = cfg_ok a"
  by (simp add: cfg_ok_def rest_sel[OF assms])

lemma rest_gva:
  assumes "rest a' = rest a"
  shows "gva a' = gva a"
  by (simp add: gva_def rest_sel[OF assms])

lemma gva_upd [simp]:
  "gva (a\<lparr>by_heap := h\<rparr>) = gva a" "gva (a\<lparr>by_list := l\<rparr>) = gva a" "gva (a\<lparr>by_list_len := n\<rparr>) = gva a"
  "gva (a\<lparr>by_list_split := n\<rparr>) = gva a" "gva (a\<lparr>by_fresh := k\<rparr>) = gva a" "gva (a\<lparr>by_requests := k\<rparr>) = gva a"
  by (simp_all add: gva_def)

lemma upd_bud_eq: "by_heap a p = Some b \<Longrightarrow> upd_bud p f a = Some (a\<lparr>by_heap := (by_heap a)(p \<mapsto> f b)\<rparr>)"
  by (simp add: upd_bud_def)

section \<open>Lists\<close>

text \<open>There is room in the counters for every buddy of an order.\<close>

definition small :: "(nat \<rightharpoonup> nvgpu_buddy) \<Rightarrow> bool" where
  "small h \<longleftrightarrow> finite (dom h) \<and> (\<forall>n. card (nodes (\<lambda>b. bd_order b = n) h) < U64_MAX)"

lemma small_forest:
  assumes f: "forest (gcfg a) n (cores h)" and c: "cfg_ok a"
  shows "small h"
proof -
  have "finite (dom h)" using forest_finite[OF f] by (simp add: cores_def dom_def)
  moreover have "card (nodes (\<lambda>b. bd_order b = k) h) \<le> by_end a - by_start a" for k
    using forest_card[OF f, of "nodes (\<lambda>b. bd_order b = k) h" k] by (fastforce simp: nodes_def)
  moreover have "by_end a - by_start a < U64_MAX" using c unfolding cfg_ok_def by linarith
  ultimately show ?thesis unfolding small_def by (meson le_less_trans)
qed

lemma nodes_finite: "finite (dom h) \<Longrightarrow> finite (nodes P h)"
  unfolding nodes_def by (rule finite_subset[of _ "dom h"]) auto

lemma small_mono:
  assumes "small h" "S \<subseteq> nodes (\<lambda>b. bd_order b = n) h"
  shows "card S < U64_MAX"
proof -
  have "card S \<le> card (nodes (\<lambda>b. bd_order b = n) h)"
    using assms nodes_finite by (intro card_mono) (auto simp: small_def)
  also have "\<dots> < U64_MAX" using assms(1) unfolding small_def by blast
  finally show ?thesis .
qed

lemma linked_cong:
  assumes "linked L Y a" "by_list a' = by_list a" "by_list_len a' = by_list_len a"
    and "\<And>q b. q \<in> L \<Longrightarrow> by_heap a q = Some b \<Longrightarrow> \<exists>b'. by_heap a' q = Some b' \<and> bd_order b' = bd_order b"
    and "\<And>q b. by_heap a' q = Some b \<Longrightarrow> bd_in_list b \<longleftrightarrow> q \<in> L \<or> q \<in> Y"
  shows "linked L Y a'"
proof -
  have eq: "q \<in> L \<and> q \<in> nodes (\<lambda>b. bd_order b = n) (by_heap a') \<longleftrightarrow> q \<in> L \<and> q \<in> nodes (\<lambda>b. bd_order b = n) (by_heap a)" for q n
  proof (cases "q \<in> L")
    case True
    then obtain b where "by_heap a q = Some b" using assms(1) by (auto simp: linked_def)
    then show ?thesis using assms(4)[OF True] by (auto simp: nodes_def)
  qed simp
  have "L \<subseteq> dom (by_heap a')"
  proof
    fix q assume q: "q \<in> L"
    then obtain b where "by_heap a q = Some b" using assms(1) by (auto simp: linked_def)
    then show "q \<in> dom (by_heap a')" using assms(4)[OF q] by auto
  qed
  then show ?thesis using assms(1) unfolding linked_def assms(2,3) eq by (simp add: assms(5))
qed

lemma blist_rem_ok:
  assumes l: "linked L Y a" and p: "p \<in> L" "by_heap a p = Some b" and o: "bd_order b \<le> 63"
  shows "\<exists>a'. balloc_blist_rem a p = Some a' \<and> frame a' = frame a \<and> by_heap a' = (by_heap a)(p \<mapsto> b\<lparr>bd_in_list := False\<rparr>) \<and>
    linked (L - {p}) Y a'"
proof -
  let ?n = "bd_order b"
  let ?a = "a\<lparr>by_list := (\<lambda>n. removeAll p (by_list a n)), by_heap := (by_heap a)(p \<mapsto> b\<lparr>bd_in_list := False\<rparr>),
    by_list_len := (by_list_len a)(?n := by_list_len a ?n - 1)\<rparr>"
  have mem: "p \<in> set (by_list a n) \<longleftrightarrow> n = ?n" for n using l p by (auto simp: linked_def nodes_def)
  have len: "length (removeAll p (by_list a n)) = (if n = ?n then length (by_list a n) - 1 else length (by_list a n))" for n
    using mem[of n] l distinct_remove1_removeAll[of "by_list a n" p] length_remove1[of p "by_list a n"] by (auto simp: linked_def)
  have "by_list a ?n \<noteq> []" using mem[of ?n] by fastforce
  then have "0 < by_list_len a ?n" using l by (simp add: linked_def)
  moreover have "bd_in_list b" using l p by (auto simp: linked_def)
  ultimately have "balloc_blist_rem a p = Some ?a" using p(2) o
    by (simp add: balloc_blist_rem_def balloc_buddy_list_do_rem_def upd_bud_def in_orders_def)
  moreover have "linked (L - {p}) Y ?a" using l len p unfolding linked_def
    by (auto simp: nodes_def distinct_removeAll)
  ultimately show ?thesis by (intro exI[of _ ?a]) simp
qed

lemma blist_add_ok:
  assumes l: "linked L Y a" and p: "p \<notin> L" "p \<notin> Y" "by_heap a p = Some b" and o: "bd_order b \<le> 63" and s: "small (by_heap a)"
  shows "\<exists>a'. balloc_blist_add a p = Some a' \<and> frame a' = frame a \<and> by_heap a' = (by_heap a)(p \<mapsto> b\<lparr>bd_in_list := True\<rparr>) \<and>
    linked (insert p L) Y a'"
proof -
  let ?n = "bd_order b"
  let ?l = "if gva a \<and> bd_pte_size b = BALLOC_PTE_SIZE_BIG then by_list a ?n @ [p] else p # by_list a ?n"
  let ?a = "a\<lparr>by_heap := (by_heap a)(p \<mapsto> b\<lparr>bd_in_list := True\<rparr>), by_list := (by_list a)(?n := ?l),
    by_list_len := (by_list_len a)(?n := by_list_len a ?n + 1)\<rparr>"
  have nin: "p \<notin> set (by_list a n)" for n using l p by (auto simp: linked_def)
  have "set (by_list a ?n) \<subseteq> nodes (\<lambda>b. bd_order b = ?n) (by_heap a)" using l by (auto simp: linked_def)
  then have "length (by_list a ?n) < U64_MAX" using small_mono[OF s, of "set (by_list a ?n)" ?n] l
    by (simp add: linked_def distinct_card)
  then have "by_list_len a ?n + 1 \<le> U64_MAX" using l by (simp add: linked_def)
  moreover have "\<not> bd_in_list b" using l p by (auto simp: linked_def)
  ultimately have "balloc_blist_add a p = Some ?a" using p(3) o
    by (simp add: balloc_blist_add_def balloc_buddy_list_do_add_def upd_bud_def in_orders_def gva_def safe_simps)
  moreover have "linked (insert p L) Y ?a" using l p nin unfolding linked_def
    by (auto simp: nodes_def)
  ultimately show ?thesis by (intro exI[of _ ?a]) simp
qed

section \<open>Reading the invariant\<close>

lemma bwfD:
  assumes "bwf X Y a"
  shows "cfg_ok a" "forest (gcfg a) (by_fresh a) (cores (by_heap a))" "linked (nodes is_free (by_heap a) - X) Y a"
    "X \<subseteq> nodes is_free (by_heap a)" "Y \<subseteq> nodes bd_alloced (by_heap a)"
    "by_heap a p = Some b \<Longrightarrow> \<not> (bd_alloced b \<and> bd_split b)" "idx_ok a" "counts_ok a" "small (by_heap a)"
  using assms small_forest by (auto simp: bwf_def)

lemma bwfI:
  assumes "cfg_ok a" "forest (gcfg a) (by_fresh a) (cores (by_heap a))" "linked (nodes is_free (by_heap a) - X) Y a"
    "X \<subseteq> nodes is_free (by_heap a)" "Y \<subseteq> nodes bd_alloced (by_heap a)"
    "\<And>p b. by_heap a p = Some b \<Longrightarrow> \<not> (bd_alloced b \<and> bd_split b)" "idx_ok a" "counts_ok a"
  shows "bwf X Y a"
  using assms by (auto simp: bwf_def)

lemma bwf_node:
  assumes w: "bwf X Y a" and p: "by_heap a p = Some b"
  shows "p < by_fresh a" "bd_order b \<le> by_max_order a" "bd_order b \<le> 63" "bd_end b = bd_start b + 2 ^ bd_order b * by_blk_size a"
    "by_start a \<le> bd_start b" "bd_end b \<le> by_end a" "bd_end b \<le> U64_MAX" "0 < bd_start b" "bd_start b < bd_end b" "0 < by_blk_size a"
    "(bd_start b - by_start a) mod (2 ^ bd_order b * by_blk_size a) = 0"
proof -
  have f: "forest (gcfg a) (by_fresh a) (cores (by_heap a))" and c: "cfg_ok a" using bwfD[OF w] by auto
  have "core_ok (gcfg a) (by_fresh a) p (core_of b)" by (rule forestD(1)[OF f]) (use p in simp)
  moreover have "0 < by_blk_size a" using c by (simp add: cfg_ok_def)
  ultimately show "p < by_fresh a" "bd_order b \<le> by_max_order a" "bd_order b \<le> 63" "bd_end b = bd_start b + 2 ^ bd_order b * by_blk_size a"
    "by_start a \<le> bd_start b" "bd_end b \<le> by_end a" "bd_end b \<le> U64_MAX" "0 < bd_start b" "bd_start b < bd_end b" "0 < by_blk_size a"
    "(bd_start b - by_start a) mod (2 ^ bd_order b * by_blk_size a) = 0"
    using c unfolding core_ok_def cfg_ok_def by auto
qed

lemma bwf_fresh: "bwf X Y a \<Longrightarrow> by_fresh a \<le> p \<Longrightarrow> by_heap a p = None"
  using bwf_node(1)[of X Y a p] by (cases "by_heap a p") auto

lemma order_to_len_ok:
  assumes "bwf X Y a" "by_heap a p = Some b" "n \<le> bd_order b" "by_blk_size a' = by_blk_size a"
  shows "balloc_order_to_len a' n = Some (2 ^ n * by_blk_size a)"
proof -
  have "2 ^ n * by_blk_size a \<le> 2 ^ bd_order b * by_blk_size a" using assms(3) by (simp add: power_increasing)
  then have "2 ^ n * by_blk_size a \<le> U64_MAX" using bwf_node[OF assms(1,2)] by linarith
  then show ?thesis using bwf_node(3)[OF assms(1,2)] assms by (simp add: balloc_order_to_len_def in_orders_def safe_simps)
qed

lemma nodes_upd: "nodes P (h(p \<mapsto> b)) = (if P b then insert p (nodes P h) else nodes P h - {p})"
  by (auto simp: nodes_def)

lemma nodes_del: "nodes P (h(p := None)) = nodes P h - {p}"
  by (auto simp: nodes_def)

text \<open>The counters of split and allocated buddies have room for another one.\<close>

lemma counts_room:
  assumes "bwf X Y a"
  shows "by_list_split a n < U64_MAX" "by_list_alloced a n < U64_MAX"
proof -
  have "nodes (\<lambda>b. bd_split b \<and> bd_order b = n) (by_heap a) \<subseteq> nodes (\<lambda>b. bd_order b = n) (by_heap a)"
    "nodes (\<lambda>b. bd_alloced b \<and> bd_order b = n) (by_heap a) \<subseteq> nodes (\<lambda>b. bd_order b = n) (by_heap a)" by (auto simp: nodes_def)
  from this[THEN small_mono[OF bwfD(9)[OF assms]]] show "by_list_split a n < U64_MAX" "by_list_alloced a n < U64_MAX"
    using bwfD(8)[OF assms] by (simp_all add: counts_ok_def)
qed

lemma bwf_cong:
  assumes "bwf X Y a" "rest a' = rest a" "by_heap a' = by_heap a" "by_list a' = by_list a" "by_list_len a' = by_list_len a"
    "by_list_split a' = by_list_split a" "by_list_alloced a' = by_list_alloced a" "by_alloced_buddies a' = by_alloced_buddies a"
    "by_fresh a \<le> by_fresh a'"
  shows "bwf X Y a'"
proof -
  have "forest (gcfg a) (by_fresh a') (cores (by_heap a))" using forest_mono[OF bwfD(2)[OF assms(1)] assms(9)] .
  then show ?thesis using assms(1) rest_gcfg[OF assms(2)] rest_cfg_ok[OF assms(2)]
    unfolding bwf_def linked_def idx_ok_def counts_ok_def by (simp add: assms(3-8))
qed

section \<open>Splitting a buddy\<close>

definition half :: "nat \<Rightarrow> nat \<Rightarrow> u64 \<Rightarrow> u64 \<Rightarrow> u64 \<Rightarrow> bool \<Rightarrow> u32 \<Rightarrow> nvgpu_buddy" where
  "half par bud st en ord lst pte = \<lparr>bd_parent = Some par, bd_buddy = Some bud, bd_left = None, bd_right = None, bd_start = st,
     bd_end = en, bd_order = ord, bd_alloced = False, bd_split = False, bd_in_list = lst, bd_pte_size = pte\<rparr>"

lemma half_sel [simp]:
  "bd_parent (half par bud st en ord lst pte) = Some par" "bd_buddy (half par bud st en ord lst pte) = Some bud"
  "bd_start (half par bud st en ord lst pte) = st" "bd_end (half par bud st en ord lst pte) = en"
  "bd_order (half par bud st en ord lst pte) = ord" "\<not> bd_alloced (half par bud st en ord lst pte)"
  "\<not> bd_split (half par bud st en ord lst pte)" "bd_in_list (half par bud st en ord lst pte) = lst"
  "is_free (half par bud st en ord lst pte)"
  by (simp_all add: half_def is_free_def)

definition split_heap :: "nat \<Rightarrow> nvgpu_buddy \<Rightarrow> nat \<Rightarrow> nat \<Rightarrow> bool \<Rightarrow> u32 \<Rightarrow> (nat \<rightharpoonup> nvgpu_buddy) \<Rightarrow> (nat \<rightharpoonup> nvgpu_buddy)" where
  "split_heap p b l r lst pte h = h(p \<mapsto> b\<lparr>bd_split := True, bd_left := Some l, bd_right := Some r, bd_in_list := \<not> lst\<rparr>,
     l \<mapsto> half p r (bd_start b) (bd_start b + (bd_end b - bd_start b) div 2) (bd_order b - 1) lst pte,
     r \<mapsto> half p l (bd_start b + (bd_end b - bd_start b) div 2) (bd_end b) (bd_order b - 1) lst pte)"

text \<open>A buddy that can not be had leaves everything as it was; otherwise the two halves take the buddy's place.\<close>

lemma split_steps:
  assumes w: "bwf X Y a" and p: "by_heap a p = Some b" "0 < bd_order b" "bd_in_list b"
  defines "l \<equiv> by_fresh a" and "r \<equiv> by_fresh a + 1"
  shows "(\<exists>m k. (\<exists>n. oom n) \<and> balloc_split_buddy oom a p pte_size = Some (Inl ENOMEM, a\<lparr>by_requests := m, by_fresh := by_fresh a + k\<rparr>)) \<or>
    (\<exists>pte. balloc_split_buddy oom a p pte_size =
       do { a \<leftarrow> balloc_blist_rem (a\<lparr>by_requests := by_requests a + 2, by_fresh := by_fresh a + 2,
               by_list_split := (by_list_split a)(bd_order b := by_list_split a (bd_order b) + 1),
               by_heap := split_heap p b l r False pte (by_heap a)\<rparr>) p;
            a \<leftarrow> balloc_blist_add a l; a \<leftarrow> balloc_blist_add a r; Some (Inr (), a) })"
proof -
  let ?n = "by_requests a"
  note nd = bwf_node[OF w p(1)]
  obtain k where k: "bd_order b = Suc k" using p(2) gr0_implies_Suc by blast
  define hl where "hl = 2 ^ k * by_blk_size a"
  have mid: "bd_start b + (hl + hl) = bd_end b" "(bd_end b - bd_start b) div 2 = hl" using nd(4) k by (auto simp: hl_def)
  then have fits: "hl + bd_start b \<le> U64_MAX" "hl + (bd_start b + hl) \<le> U64_MAX" using nd(7) by linarith+
  have o2l: "balloc_order_to_len a' k = Some hl" if "by_blk_size a' = by_blk_size a" for a'
    using order_to_len_ok[OF w p(1) _ that, of k] k by (simp add: hl_def)
  have np: "p \<noteq> l" "p \<noteq> r" "l \<noteq> r" using nd(1) by (auto simp: l_def r_def)
  have none: "by_heap a l = None" using bwf_fresh[OF w] by (simp add: l_def)
  have new: "balloc_new_buddy oom a' (Some p) st k =
      (if oom (by_requests a') then Some (None, a'\<lparr>by_requests := Suc (by_requests a')\<rparr>)
       else Some (Some (by_fresh a'), a'\<lparr>by_requests := Suc (by_requests a'), by_fresh := Suc (by_fresh a'), by_heap := (by_heap a')(by_fresh a' \<mapsto>
          \<lparr>bd_parent = Some p, bd_buddy = None, bd_left = None, bd_right = None, bd_start = st, bd_end = hl + st,
           bd_order = k, bd_alloced = False, bd_split = False, bd_in_list = False, bd_pte_size = BALLOC_PTE_SIZE_ANY\<rparr>)\<rparr>))"
    if "hl + st \<le> U64_MAX" "by_blk_size a' = by_blk_size a" for a' st
    using that by (simp add: balloc_new_buddy_def o2l safe_simps Let_def)
  show ?thesis
  proof (cases "oom ?n")
    case True
    then have "balloc_split_buddy oom a p pte_size = Some (Inl ENOMEM, a\<lparr>by_requests := ?n + 1, by_fresh := by_fresh a + 0\<rparr>)"
      unfolding balloc_split_buddy_def using p(1) k fits by (simp add: new)
    then show ?thesis using True by blast
  next
    case False
    show ?thesis
    proof (cases "oom (?n + 1)")
      case True
      have "(by_heap a)(l := None) = by_heap a" using none by auto
      then have "balloc_split_buddy oom a p pte_size = Some (Inl ENOMEM, a\<lparr>by_requests := ?n + 2, by_fresh := by_fresh a + 1\<rparr>)"
        unfolding balloc_split_buddy_def using p(1) k fits False True mid nd(7,9) by (simp add: new safe_simps cache_free_def l_def)
      then show ?thesis using True by blast
    next
      case False': False
      have bl_eq: "b\<lparr>bd_split := True, bd_left := u, bd_right := v, bd_in_list := True\<rparr> = b\<lparr>bd_split := True, bd_left := u, bd_right := v\<rparr>" for u v
        using p(3) by (cases b) simp
      have mid3: "hl + (bd_start b + hl) = bd_end b" "hl + bd_start b = bd_start b + hl" using mid(1) by simp_all
      define pte where "pte = (if gva a \<and> bd_order b - 1 < by_pte_blk_order a then pte_size else BALLOC_PTE_SIZE_ANY)"
      have "by_list_split a (bd_order b) + 1 \<le> U64_MAX" using counts_room(1)[OF w, of "bd_order b"] by simp
      then have "balloc_split_buddy oom a p pte_size =
       do { a \<leftarrow> balloc_blist_rem (a\<lparr>by_requests := by_requests a + 2, by_fresh := by_fresh a + 2,
               by_list_split := (by_list_split a)(bd_order b := by_list_split a (bd_order b) + 1),
               by_heap := split_heap p b l r False pte (by_heap a)\<rparr>) p;
            a \<leftarrow> balloc_blist_add a l; a \<leftarrow> balloc_blist_add a r; Some (Inr (), a) }"
        unfolding balloc_split_buddy_def using p(1) k fits False False' mid(2) nd(3,7,9) np
        by (cases "gva a"; cases "k < by_pte_blk_order a")
          (simp_all add: new safe_simps in_orders_def upd_bud_def l_def r_def split_heap_def half_def pte_def bl_eq mid3 fun_upd_twist)
      then show ?thesis by blast
    qed
  qed
qed

end
