(* ===== verification/Buddy_Ops.thy ===== *)
theory Buddy_Ops
  imports Buddy_Inv
begin

text \<open>
  The operations on single buddies keep the invariant: splitting a free buddy, joining two free halves, taking a
  buddy out of the lists and marking it as allocated, and giving it back.
\<close>

section \<open>Splitting\<close>

lemma cores_split_heap:
  assumes w: "bwf X Y a" and p: "by_heap a p = Some b" "0 < bd_order b" and l: "l \<noteq> p" "r \<noteq> p" "l \<noteq> r"
  shows "cores (split_heap p b l r lst pte (by_heap a)) = split_core p (core_of b) l r (by_blk_size a) (cores (by_heap a))"
proof -
  obtain k where k: "bd_order b = Suc k" using p(2) gr0_implies_Suc by blast
  have "(bd_end b - bd_start b) div 2 = 2 ^ k * by_blk_size a" using bwf_node(4)[OF w p(1)] k by simp
  then show ?thesis using l k unfolding split_heap_def split_core_def cores_def
    by (auto simp: fun_eq_iff core_of_def half_def)
qed

lemma forest_split_heap:
  assumes w: "bwf X Y a" and p: "by_heap a p = Some b" "0 < bd_order b" "\<not> bd_split b" and l: "by_fresh a \<le> l" "l < r" "r < n"
  shows "forest (gcfg a) n (cores (split_heap p b l r lst pte (by_heap a)))"
proof -
  have "l \<noteq> p" "r \<noteq> p" "l \<noteq> r" using bwf_node(1)[OF w p(1)] l by auto
  then have "cores (split_heap p b l r lst pte (by_heap a)) = split_core p (core_of b) l r (by_blk_size a) (cores (by_heap a))"
    by (rule cores_split_heap[OF w p(1,2)])
  then show ?thesis using forest_split[OF bwfD(2)[OF w], of p "core_of b" l r n] p l by simp
qed

lemma split_heap_lists:
  assumes w: "bwf X Y a" and p: "by_heap a p = Some b" "is_free b" "0 < bd_order b" "p \<notin> X"
    and l: "l = by_fresh a" "r = by_fresh a + 1"
    and a1: "by_heap a1 = split_heap p b l r False pte (by_heap a)" "by_list a1 = by_list a" "by_list_len a1 = by_list_len a"
      "rest a1 = rest a"
  shows "\<exists>a2 a3 a4. balloc_blist_rem a1 p = Some a2 \<and> balloc_blist_add a2 l = Some a3 \<and> balloc_blist_add a3 r = Some a4 \<and>
    frame a4 = frame a1 \<and> by_heap a4 = split_heap p b l r True pte (by_heap a) \<and>
    linked (insert r (insert l (nodes is_free (by_heap a) - X - {p}))) Y a4"
proof -
  let ?L = "nodes is_free (by_heap a) - X" and ?h = "by_heap a"
  have nl: "l \<noteq> p" "r \<noteq> p" "l \<noteq> r" "?h l = None" "?h r = None" using bwf_node(1)[OF w p(1)] bwf_fresh[OF w] l by auto
  have out: "l \<notin> ?L" "r \<notin> ?L" "l \<notin> Y" "r \<notin> Y" using nl bwfD(5)[OF w] by (auto simp: nodes_def)
  have lk: "linked ?L Y a" by (rule bwfD(3)[OF w])
  have pL: "p \<in> ?L" using p by (auto simp: nodes_def)
  have sp: "\<not> bd_split b" using p(2) by (simp add: is_free_def)
  have small: "small (by_heap a')" if "cores (by_heap a') = cores (split_heap p b l r True pte ?h)" for a'
    using small_forest[OF _ bwfD(1)[OF w], of "by_fresh a + 2" "by_heap a'"] forest_split_heap[OF w p(1,3) sp, of l r "by_fresh a + 2" True pte] l that
    by simp
  have "linked ?L Y a1"
  proof (rule linked_cong[OF lk a1(2,3)])
    show "\<exists>b'. by_heap a1 q = Some b' \<and> bd_order b' = bd_order c" if "q \<in> ?L" "by_heap a q = Some c" for q c
      using that out p(1) unfolding a1(1) split_heap_def by (cases "q = p") auto
    show "bd_in_list c \<longleftrightarrow> q \<in> ?L \<or> q \<in> Y" if "by_heap a1 q = Some c" for q c
      using that lk out pL nl unfolding a1(1) split_heap_def by (auto simp: linked_def split: if_splits)
  qed
  moreover have b1: "by_heap a1 p = Some (b\<lparr>bd_split := True, bd_left := Some l, bd_right := Some r, bd_in_list := True\<rparr>)"
    using nl by (simp add: a1(1) split_heap_def)
  ultimately obtain a2 where a2: "balloc_blist_rem a1 p = Some a2" "frame a2 = frame a1" "linked (?L - {p}) Y a2"
    "by_heap a2 = (by_heap a1)(p \<mapsto> b\<lparr>bd_split := True, bd_left := Some l, bd_right := Some r, bd_in_list := False\<rparr>)"
    using blist_rem_ok[of ?L Y a1 p, OF _ pL b1] bwf_node(3)[OF w p(1)] by auto
  have c2: "cores (by_heap a2) = cores (split_heap p b l r True pte ?h)" using nl
    by (auto simp: a2(4) a1(1) split_heap_def cores_def fun_eq_iff core_of_def half_def)
  have bl: "by_heap a2 l = Some (half p r (bd_start b) (bd_start b + (bd_end b - bd_start b) div 2) (bd_order b - 1) False pte)"
    using nl by (simp add: a2(4) a1(1) split_heap_def)
  have ord: "bd_order b - 1 \<le> 63" using bwf_node(3)[OF w p(1)] by simp
  obtain a3 where a3: "balloc_blist_add a2 l = Some a3" "frame a3 = frame a2" "linked (insert l (?L - {p})) Y a3"
    "by_heap a3 = (by_heap a2)(l \<mapsto> (half p r (bd_start b) (bd_start b + (bd_end b - bd_start b) div 2) (bd_order b - 1) False pte)\<lparr>bd_in_list := True\<rparr>)"
    using blist_add_ok[OF a2(3) _ out(3) bl _ small[OF c2]] out ord by auto
  have c3: "cores (by_heap a3) = cores (split_heap p b l r True pte ?h)" using c2 cores_same[where h = "by_heap a2" and p = l, OF bl] by (simp add: a3(4))
  have br: "by_heap a3 r = Some (half p l (bd_start b + (bd_end b - bd_start b) div 2) (bd_end b) (bd_order b - 1) False pte)"
    using nl by (simp add: a3(4) a2(4) a1(1) split_heap_def)
  obtain a4 where a4: "balloc_blist_add a3 r = Some a4" "frame a4 = frame a3" "linked (insert r (insert l (?L - {p}))) Y a4"
    "by_heap a4 = (by_heap a3)(r \<mapsto> (half p l (bd_start b + (bd_end b - bd_start b) div 2) (bd_end b) (bd_order b - 1) False pte)\<lparr>bd_in_list := True\<rparr>)"
    using blist_add_ok[OF a3(3) _ out(4) br _ small[OF c3]] out nl ord by auto
  have "by_heap a4 = split_heap p b l r True pte ?h" using nl
    by (auto simp: a4(4) a3(4) a2(4) a1(1) split_heap_def half_def fun_eq_iff)
  then show ?thesis using a2(1,2) a3(1,2) a4(1-3) by auto
qed

lemma split_ok:
  assumes w: "bwf X Y a" and p: "by_heap a p = Some b" "is_free b" "0 < bd_order b" "p \<notin> X"
  shows "(\<exists>a'. (\<exists>n. oom n) \<and> balloc_split_buddy oom a p pte_size = Some (Inl ENOMEM, a') \<and> bwf X Y a' \<and> by_heap a' = by_heap a \<and>
      by_alloced_buddies a' = by_alloced_buddies a \<and> rest a' = rest a) \<or>
    (\<exists>a' l r pte. balloc_split_buddy oom a p pte_size = Some (Inr (), a') \<and> bwf X Y a' \<and>
      by_alloced_buddies a' = by_alloced_buddies a \<and> rest a' = rest a \<and>
      l \<noteq> p \<and> r \<noteq> p \<and> l \<noteq> r \<and> by_heap a l = None \<and> by_heap a r = None \<and> by_heap a' = split_heap p b l r True pte (by_heap a))"
proof -
  let ?h = "by_heap a" and ?l = "by_fresh a" and ?r = "by_fresh a + 1"
  have "bd_in_list b" using bwfD(3)[OF w] p by (auto simp: linked_def nodes_def)
  from split_steps[OF w p(1,3) this, of oom pte_size] consider
    m k where "\<exists>n. oom n" "balloc_split_buddy oom a p pte_size = Some (Inl ENOMEM, a\<lparr>by_requests := m, by_fresh := by_fresh a + k\<rparr>)"
  | pte where "balloc_split_buddy oom a p pte_size =
       do { a \<leftarrow> balloc_blist_rem (a\<lparr>by_requests := by_requests a + 2, by_fresh := by_fresh a + 2,
               by_list_split := (by_list_split a)(bd_order b := by_list_split a (bd_order b) + 1),
               by_heap := split_heap p b ?l ?r False pte ?h\<rparr>) p;
            a \<leftarrow> balloc_blist_add a ?l; a \<leftarrow> balloc_blist_add a ?r; Some (Inr (), a) }" by blast
  then show ?thesis
  proof cases
    case 1
    have "bwf X Y (a\<lparr>by_requests := m, by_fresh := by_fresh a + k\<rparr>)" by (rule bwf_cong[OF w]) simp_all
    then show ?thesis using 1 by (intro disjI1 exI[of _ "a\<lparr>by_requests := m, by_fresh := by_fresh a + k\<rparr>"]) simp
  next
    case 2
    define a1 where "a1 = a\<lparr>by_requests := by_requests a + 2, by_fresh := by_fresh a + 2,
      by_list_split := (by_list_split a)(bd_order b := by_list_split a (bd_order b) + 1), by_heap := split_heap p b ?l ?r False pte ?h\<rparr>"
    obtain a2 a3 a4 where a4: "balloc_blist_rem a1 p = Some a2" "balloc_blist_add a2 ?l = Some a3" "balloc_blist_add a3 ?r = Some a4"
      "frame a4 = frame a1" "by_heap a4 = split_heap p b ?l ?r True pte ?h" "linked (insert ?r (insert ?l (nodes is_free ?h - X - {p}))) Y a4"
      using split_heap_lists[OF w p, of ?l ?r a1 pte] by (auto simp: a1_def)
    have nl: "?l \<noteq> p" "?r \<noteq> p" "?h ?l = None" "?h ?r = None" using bwf_node(1)[OF w p(1)] bwf_fresh[OF w] by auto
    have r: "rest a4 = rest a" using frame_rest[OF a4(4)] by (simp add: a1_def)
    note fr = frame_sel[OF a4(4)]
    have sp: "\<not> bd_split b" "\<not> bd_alloced b" using p(2) by (auto simp: is_free_def)
    have free: "nodes is_free (by_heap a4) = insert ?r (insert ?l (nodes is_free ?h - {p}))"
      using nl unfolding a4(5) split_heap_def nodes_upd by (auto simp: is_free_def)
    have al: "nodes (\<lambda>b. bd_alloced b \<and> Q b) (by_heap a4) = nodes (\<lambda>b. bd_alloced b \<and> Q b) ?h" for Q
      using nl sp p(1) unfolding a4(5) split_heap_def nodes_upd by (auto simp: nodes_def)
    have "bwf X Y a4"
    proof (rule bwfI)
      show "cfg_ok a4" using bwfD(1)[OF w] rest_cfg_ok[OF r] by simp
      show "forest (gcfg a4) (by_fresh a4) (cores (by_heap a4))" unfolding rest_gcfg[OF r] a4(5) fr(4)
        by (rule forest_split_heap[OF w p(1,3) sp(1)]) (auto simp: a1_def)
      have "insert ?r (insert ?l (nodes is_free ?h - {p})) - X = insert ?r (insert ?l (nodes is_free ?h - X - {p}))"
        using bwfD(4)[OF w] nl by (auto simp: nodes_def)
      then show "linked (nodes is_free (by_heap a4) - X) Y a4" using a4(6) free by simp
      show "X \<subseteq> nodes is_free (by_heap a4)" using bwfD(4)[OF w] p(4) free by auto
      show "Y \<subseteq> nodes bd_alloced (by_heap a4)" using bwfD(5)[OF w] al[of "\<lambda>_. True"] by simp
      show "\<not> (bd_alloced c \<and> bd_split c)" if "by_heap a4 q = Some c" for q c
        using that bwfD(6)[OF w] sp unfolding a4(5) split_heap_def by (auto split: if_splits)
      have "(\<exists>c. by_heap a4 q = Some c \<and> bd_alloced c \<and> bd_start c = k) \<longleftrightarrow> (\<exists>c. ?h q = Some c \<and> bd_alloced c \<and> bd_start c = k)" for q k
        using al[of "\<lambda>c. bd_start c = k"] unfolding nodes_def by blast
      then show "idx_ok a4" using bwfD(7)[OF w] fr(3) by (simp add: idx_ok_def a1_def)
      have split: "nodes (\<lambda>b. bd_split b \<and> bd_order b = n) (by_heap a4) =
          (if n = bd_order b then insert p (nodes (\<lambda>b. bd_split b \<and> bd_order b = n) ?h) else nodes (\<lambda>b. bd_split b \<and> bd_order b = n) ?h)" for n
        using nl p(1) sp unfolding a4(5) split_heap_def nodes_upd by (auto simp: nodes_def)
      have "p \<notin> nodes (\<lambda>b. bd_split b \<and> bd_order b = n) ?h" for n using p(1) sp by (auto simp: nodes_def)
      moreover have "finite (nodes P ?h)" for P using bwfD(9)[OF w] nodes_finite by (auto simp: small_def)
      ultimately show "counts_ok a4" using bwfD(8)[OF w] fr(1,2) unfolding counts_ok_def split al by (simp add: a1_def)
    qed
    moreover have "balloc_split_buddy oom a p pte_size = Some (Inr (), a4)" using 2 a4(1-3) by (simp add: a1_def)
    moreover have "by_alloced_buddies a4 = by_alloced_buddies a" using fr(3) by (simp add: a1_def)
    ultimately show ?thesis using r nl a4(5) by (intro disjI2 exI[of _ a4] exI[of _ ?l] exI[of _ ?r] exI[of _ pte]) simp
  qed
qed

section \<open>Joining\<close>

lemma small_cong:
  assumes "small h" "\<And>q. map_option bd_order (h' q) = map_option bd_order (h q)"
  shows "small h'"
proof -
  have "h' q = None \<longleftrightarrow> h q = None" for q using assms(2)[of q] by (cases "h q"; cases "h' q") auto
  then have "dom h' = dom h" by (simp add: dom_def)
  moreover have "nodes (\<lambda>b. bd_order b = n) h' = nodes (\<lambda>b. bd_order b = n) h" for n
    using assms(2) unfolding nodes_def by (metis (no_types, lifting) map_option_eq_Some)
  ultimately show ?thesis using assms(1) by (simp add: small_def)
qed

definition merge_heap :: "nat \<Rightarrow> nat \<Rightarrow> nat \<Rightarrow> nvgpu_buddy \<Rightarrow> (nat \<rightharpoonup> nvgpu_buddy) \<Rightarrow> (nat \<rightharpoonup> nvgpu_buddy)" where
  "merge_heap p q par pb h = h(par \<mapsto> pb\<lparr>bd_split := False, bd_in_list := True\<rparr>, p := None, q := None)"

text \<open>The parent of a buddy that has a buddy.\<close>

lemma bwf_family:
  assumes w: "bwf X Y a" and p: "by_heap a p = Some b" and par: "bd_parent b = Some par"
  obtains pb q c where "by_heap a par = Some pb" "bd_split pb" "bd_buddy b = Some q" "by_heap a q = Some c" "p \<noteq> q" "par \<noteq> p" "par \<noteq> q"
    "bd_parent c = Some par" "bd_buddy c = Some p" "bd_order pb = Suc (bd_order b)" "bd_order c = bd_order b"
    "bd_left pb = Some p \<and> bd_right pb = Some q \<or> bd_left pb = Some q \<and> bd_right pb = Some p"
proof -
  have c: "cores (by_heap a) p = Some (core_of b)" "c_parent (core_of b) = Some par" using p par by simp_all
  obtain cp q d where f: "cores (by_heap a) par = Some cp" "c_split cp" "c_buddy (core_of b) = Some q" "cores (by_heap a) q = Some d"
    "p \<noteq> q" "par \<noteq> p" "par \<noteq> q" "c_parent d = Some par" "c_buddy d = Some p" "Suc (c_order (core_of b)) = c_order cp"
    "c_order d = c_order (core_of b)" "c_left cp = Some p \<and> c_right cp = Some q \<or> c_left cp = Some q \<and> c_right cp = Some p"
    using forest_family[OF bwfD(2)[OF w] c] by blast
  obtain pb e where "by_heap a par = Some pb" "cp = core_of pb" "by_heap a q = Some e" "d = core_of e" using f(1,4) by auto
  then show thesis using f by (intro that[of pb q e]) simp_all
qed

lemma bwf_parent:
  assumes w: "bwf X Y a" and p: "by_heap a p = Some b" and q: "bd_buddy b = Some q"
  obtains par where "bd_parent b = Some par"
  using forestD(2)[OF bwfD(2)[OF w], of p "core_of b"] p q by (auto simp: par_ok_def split: option.splits)

lemma coalesce_step_ok:
  assumes w: "bwf {} Y a" and p: "by_heap a p = Some b" "is_free b" and q: "bd_buddy b = Some q" "by_heap a q = Some c" "is_free c"
    and par: "bd_parent b = Some par" "by_heap a par = Some pb"
  shows "\<exists>a'. coalesce_step p q par a = Some a' \<and> bwf {} Y a' \<and> rest a' = rest a \<and> by_alloced_buddies a' = by_alloced_buddies a \<and>
    by_heap a' = merge_heap p q par pb (by_heap a)"
proof -
  let ?L = "nodes is_free (by_heap a)" and ?h = "by_heap a" and ?n = "bd_order pb"
  have fam: "bd_split pb" "p \<noteq> q" "par \<noteq> p" "par \<noteq> q" using bwf_family[OF w p(1) par(1)] par(2) q by (metis option.inject)+
  have L: "p \<in> ?L" "q \<in> ?L" "par \<notin> ?L" using p q par(2) fam(1) by (auto simp: nodes_def is_free_def)
  have npar: "\<not> bd_alloced pb" "\<not> bd_in_list pb" using bwfD(6)[OF w par(2)] fam(1) bwfD(3,5)[OF w] L par(2) by (auto simp: linked_def nodes_def)
  have parY: "par \<notin> Y" using bwfD(5)[OF w] npar par(2) by (auto simp: nodes_def)
  have lk: "linked ?L Y a" using bwfD(3)[OF w] by simp
  obtain a1 where a1: "balloc_blist_rem a p = Some a1" "frame a1 = frame a" "by_heap a1 = ?h(p \<mapsto> b\<lparr>bd_in_list := False\<rparr>)" "linked (?L - {p}) Y a1"
    using blist_rem_ok[OF lk L(1) p(1)] bwf_node(3)[OF w p(1)] by auto
  have "by_heap a1 q = Some c" using a1(3) q fam by simp
  then obtain a2 where a2: "balloc_blist_rem a1 q = Some a2" "frame a2 = frame a" "by_heap a2 = (by_heap a1)(q \<mapsto> c\<lparr>bd_in_list := False\<rparr>)"
    "linked (?L - {p} - {q}) Y a2"
    using blist_rem_ok[OF a1(4), of q c] bwf_node(3)[OF w q(2)] L fam a1(2) by auto
  have h2: "by_heap a2 par = Some pb" using a1(3) a2(3) fam par(2) by simp
  define a3 where "a3 = a2\<lparr>by_heap := (by_heap a2)(par \<mapsto> pb\<lparr>bd_split := False\<rparr>), by_list_split := (by_list_split a)(?n := by_list_split a ?n - 1)\<rparr>"
  have lk3: "linked (?L - {p} - {q}) Y a3"
  proof (rule linked_cong[OF a2(4)])
    show "\<exists>b'. by_heap a3 x = Some b' \<and> bd_order b' = bd_order e" if "by_heap a2 x = Some e" for x e
      using that h2 by (cases "x = par") (auto simp: a3_def)
    show "bd_in_list e \<longleftrightarrow> x \<in> ?L - {p} - {q} \<or> x \<in> Y" if "by_heap a3 x = Some e" for x e
      using that a2(4) L(3) npar(2) parY by (cases "x = par") (auto simp: a3_def linked_def)
  qed (simp_all add: a3_def)
  have sm: "small (by_heap a3)"
    by (rule small_cong[OF bwfD(9)[OF w]]) (use p q par(2) in \<open>auto simp: a3_def a2(3) a1(3)\<close>)
  obtain a4 where a4: "balloc_blist_add a3 par = Some a4" "frame a4 = frame a3"
    "by_heap a4 = (by_heap a3)(par \<mapsto> pb\<lparr>bd_split := False, bd_in_list := True\<rparr>)" "linked (insert par (?L - {p} - {q})) Y a4"
    using blist_add_ok[OF lk3 _ parY _ _ sm, of "pb\<lparr>bd_split := False\<rparr>"] L(3) bwf_node(3)[OF w par(2)] by (auto simp: a3_def)
  define a5 where "a5 = cache_free p (cache_free q a4)"
  have h5: "by_heap a5 = merge_heap p q par pb ?h"
    using fam unfolding a5_def cache_free_def a4(3) a3_def a2(3) a1(3) merge_heap_def by (auto simp: fun_eq_iff)
  have f2: "by_list_split a2 = by_list_split a" by (rule frame_sel(1)[OF a2(2)])
  have "par \<in> nodes (\<lambda>b. bd_split b \<and> bd_order b = ?n) ?h" using par(2) fam(1) by (auto simp: nodes_def)
  then have cnt: "0 < by_list_split a ?n" using bwfD(8,9)[OF w] nodes_finite unfolding counts_ok_def small_def by (metis card_gt_0_iff empty_iff)
  have step: "coalesce_step p q par a = Some a5"
    using a1(1) a2(1) h2 bwf_node(3)[OF w par(2)] cnt f2 a4(1)
    by (simp add: coalesce_step_def upd_bud_def in_orders_def a5_def a3_def)
  have r: "rest a5 = rest a" using frame_rest[OF a4(2)] frame_rest[OF a2(2)] by (simp add: a5_def cache_free_def a3_def)
  have fr: "by_list_alloced a5 = by_list_alloced a" "by_alloced_buddies a5 = by_alloced_buddies a" "by_fresh a5 = by_fresh a"
    "by_list_split a5 = (by_list_split a)(?n := by_list_split a ?n - 1)"
    using frame_sel[OF a4(2)] frame_sel[OF a2(2)] by (simp_all add: a5_def cache_free_def a3_def)
  have free: "nodes is_free (by_heap a5) = insert par (?L - {p} - {q})"
    using fam npar unfolding h5 merge_heap_def nodes_del nodes_upd by (auto simp: is_free_def)
  have al: "nodes (\<lambda>b. bd_alloced b \<and> Q b) (by_heap a5) = nodes (\<lambda>b. bd_alloced b \<and> Q b) ?h" for Q
    using fam npar p q par(2) unfolding h5 merge_heap_def nodes_del nodes_upd by (auto simp: nodes_def is_free_def)
  have split: "nodes (\<lambda>b. bd_split b \<and> bd_order b = n) (by_heap a5) = nodes (\<lambda>b. bd_split b \<and> bd_order b = n) ?h - (if n = ?n then {par} else {})" for n
    using fam p q par(2) unfolding h5 merge_heap_def nodes_del nodes_upd by (auto simp: nodes_def is_free_def)
  have "bwf {} Y a5"
  proof (rule bwfI)
    show "cfg_ok a5" using bwfD(1)[OF w] rest_cfg_ok[OF r] by simp
    have "cores (by_heap a5) = merge_core p q par (core_of pb) (cores ?h)"
      unfolding h5 merge_heap_def merge_core_def cores_def by (auto simp: fun_eq_iff core_of_def)
    then show "forest (gcfg a5) (by_fresh a5) (cores (by_heap a5))"
      using forest_merge[OF bwfD(2)[OF w], of p "core_of b" q "core_of c" par "core_of pb"] p q par rest_gcfg[OF r] fr(3)
      by (simp add: is_free_def)
    have "linked (insert par (?L - {p} - {q})) Y a5"
    proof (rule linked_cong[OF a4(4)])
      show "\<exists>b'. by_heap a5 x = Some b' \<and> bd_order b' = bd_order e" if "x \<in> insert par (?L - {p} - {q})" "by_heap a4 x = Some e" for x e
        using that fam by (auto simp: a5_def cache_free_def)
      show "bd_in_list e \<longleftrightarrow> x \<in> insert par (?L - {p} - {q}) \<or> x \<in> Y" if "by_heap a5 x = Some e" for x e
        using that a4(4) by (auto simp: a5_def cache_free_def linked_def split: if_splits)
    qed (simp_all add: a5_def cache_free_def)
    then show "linked (nodes is_free (by_heap a5) - {}) Y a5" using free by simp
    show "{} \<subseteq> nodes is_free (by_heap a5)" by simp
    show "Y \<subseteq> nodes bd_alloced (by_heap a5)" using bwfD(5)[OF w] al[of "\<lambda>_. True"] by simp
    show "\<not> (bd_alloced e \<and> bd_split e)" if "by_heap a5 x = Some e" for x e
      using that bwfD(6)[OF w] npar unfolding h5 merge_heap_def by (auto split: if_splits)
    have "(\<exists>c. by_heap a5 q = Some c \<and> bd_alloced c \<and> bd_start c = k) \<longleftrightarrow> (\<exists>c. ?h q = Some c \<and> bd_alloced c \<and> bd_start c = k)" for q k
      using al[of "\<lambda>c. bd_start c = k"] unfolding nodes_def by blast
    then show "idx_ok a5" using bwfD(7)[OF w] fr(2) by (simp add: idx_ok_def)
    show "counts_ok a5" using bwfD(8)[OF w] \<open>par \<in> _\<close> fr unfolding counts_ok_def split al by (auto simp: card_Diff_singleton)
  qed
  then show ?thesis using step r fr(2) h5 by blast
qed

section \<open>Marking buddies\<close>

lemma bwf_leaf_unique:
  assumes w: "bwf X Y a" and p: "by_heap a p = Some b" "\<not> bd_split b" and q: "by_heap a q = Some c" "\<not> bd_split c" and x: "bd_start b = bd_start c"
  shows "p = q"
  using leaf_unique[OF bwfD(2)[OF w], of p "core_of b" "bd_start b" q "core_of c"] p q x bwf_node(9)[OF w p(1)] bwf_node(9)[OF w q(1)] by simp

lemma bwf_leaf_disjoint:
  assumes w: "bwf X Y a" and p: "by_heap a p = Some b" "\<not> bd_split b" and q: "by_heap a q = Some c" "\<not> bd_split c" and ne: "p \<noteq> q"
  shows "bd_end b \<le> bd_start c \<or> bd_end c \<le> bd_start b"
  using leaf_disjoint[OF bwfD(2)[OF w], of p "core_of b" q "core_of c"] p q ne by simp

text \<open>A change of the flags of one buddy, the counters and the lists apart.\<close>

lemma bwf_flag:
  assumes w: "bwf X Y a" and p: "by_heap a p = Some b" and b': "core_of b' = core_of b" "\<not> (bd_alloced b' \<and> bd_split b')"
    and a': "by_heap a' = (by_heap a)(p \<mapsto> b')" "rest a' = rest a" "by_fresh a' = by_fresh a" "by_list_split a' = by_list_split a"
    and l: "linked (nodes is_free (by_heap a') - X') Y' a'" "X' \<subseteq> nodes is_free (by_heap a')" "Y' \<subseteq> nodes bd_alloced (by_heap a')"
    and i: "idx_ok a'" "\<And>n. by_list_alloced a' n = card (nodes (\<lambda>b. bd_alloced b \<and> bd_order b = n) (by_heap a'))"
  shows "bwf X' Y' a'"
proof (rule bwfI)
  show "cfg_ok a'" using bwfD(1)[OF w] rest_cfg_ok[OF a'(2)] by simp
  show "forest (gcfg a') (by_fresh a') (cores (by_heap a'))"
    using bwfD(2)[OF w] rest_gcfg[OF a'(2)] cores_same[where h = "by_heap a", OF p b'(1)] a'(1,3) by simp
  show "\<not> (bd_alloced c \<and> bd_split c)" if "by_heap a' q = Some c" for q c
    using that bwfD(6)[OF w, of q c] b'(2) unfolding a'(1) by (auto split: if_splits)
  have "bd_split b' = bd_split b" "bd_order b' = bd_order b" using b'(1) by (auto simp: core_of_def)
  then have "nodes (\<lambda>b. bd_split b \<and> bd_order b = n) (by_heap a') = nodes (\<lambda>b. bd_split b \<and> bd_order b = n) (by_heap a)" for n
    using p unfolding a'(1) nodes_upd by (auto simp: nodes_def)
  then show "counts_ok a'" using bwfD(8)[OF w] a'(4) i(2) by (simp add: counts_ok_def)
qed (fact l i(1))+

lemma idx_ok_flag:
  assumes "idx_ok a" "by_heap a p = Some b" "by_heap a' = (by_heap a)(p \<mapsto> b')" "bd_alloced b' = bd_alloced b" "bd_start b' = bd_start b"
    "by_alloced_buddies a' = by_alloced_buddies a"
  shows "idx_ok a'"
  using assms unfolding idx_ok_def by auto

lemma alloced_flag:
  assumes "by_heap a p = Some b" "by_heap a' = (by_heap a)(p \<mapsto> b')" "bd_alloced b' = bd_alloced b" "bd_order b' = bd_order b"
  shows "nodes (\<lambda>b. bd_alloced b \<and> bd_order b = n) (by_heap a') = nodes (\<lambda>b. bd_alloced b \<and> bd_order b = n) (by_heap a)"
  using assms(1,3,4) unfolding assms(2) nodes_upd by (auto simp: nodes_def)

lemma nodes_same:
  assumes "h p = Some b" "P b' = P b"
  shows "nodes P (h(p \<mapsto> b')) = nodes P h"
  using assms unfolding nodes_upd by (auto simp: nodes_def)

lemma is_free_in_list [simp]: "is_free (b\<lparr>bd_in_list := x\<rparr>) = is_free b"
  by (simp add: is_free_def)

lemma take_ok:
  assumes w: "bwf X Y a" and p: "by_heap a p = Some b" "is_free b" "p \<notin> X"
  shows "\<exists>a'. balloc_blist_rem a p = Some a' \<and> bwf (insert p X) Y a' \<and> rest a' = rest a \<and> frame a' = frame a \<and>
    by_heap a' = (by_heap a)(p \<mapsto> b\<lparr>bd_in_list := False\<rparr>)"
proof -
  have pL: "p \<in> nodes is_free (by_heap a) - X" using p by (auto simp: nodes_def)
  obtain a' where a': "balloc_blist_rem a p = Some a'" "frame a' = frame a" "by_heap a' = (by_heap a)(p \<mapsto> b\<lparr>bd_in_list := False\<rparr>)"
    "linked (nodes is_free (by_heap a) - X - {p}) Y a'" using blist_rem_ok[OF bwfD(3)[OF w] pL p(1)] bwf_node(3)[OF w p(1)] by auto
  note fr = frame_sel[OF a'(2)] and r = frame_rest[OF a'(2)]
  have free: "nodes is_free (by_heap a') = nodes is_free (by_heap a)" unfolding a'(3) by (rule nodes_same[where h = "by_heap a" and p = p, OF p(1)]) simp
  have "bwf (insert p X) Y a'"
  proof (rule bwf_flag[OF w p(1) _ _ a'(3) r fr(4,1)])
    show "linked (nodes is_free (by_heap a') - insert p X) Y a'" using a'(4) free Diff_insert[of "nodes is_free (by_heap a)" p X] by simp
    show "insert p X \<subseteq> nodes is_free (by_heap a')" unfolding free using bwfD(4)[OF w] pL by blast
    show "Y \<subseteq> nodes bd_alloced (by_heap a')" using bwfD(5)[OF w] nodes_same[where h = "by_heap a" and p = p and P = bd_alloced, OF p(1)] unfolding a'(3) by simp
    show "idx_ok a'" by (rule idx_ok_flag[OF bwfD(7)[OF w] p(1) a'(3) _ _ fr(3)]) simp_all
    show "by_list_alloced a' n = card (nodes (\<lambda>b. bd_alloced b \<and> bd_order b = n) (by_heap a'))" for n
      using bwfD(8)[OF w] alloced_flag[OF p(1) a'(3)] fr(2) by (simp add: counts_ok_def)
  qed (use bwfD(6)[OF w p(1)] in simp_all)
  then show ?thesis using a' r by blast
qed

lemma give_ok:
  assumes w: "bwf X Y a" and p: "by_heap a p = Some b" "p \<in> X"
  shows "\<exists>a'. balloc_blist_add a p = Some a' \<and> bwf (X - {p}) Y a' \<and> rest a' = rest a \<and> frame a' = frame a \<and>
    by_heap a' = (by_heap a)(p \<mapsto> b\<lparr>bd_in_list := True\<rparr>)"
proof -
  have f: "is_free b" using bwfD(4)[OF w] p by (auto simp: nodes_def)
  then have pY: "p \<notin> Y" using bwfD(5)[OF w] p(1) by (auto simp: nodes_def is_free_def)
  obtain a' where a': "balloc_blist_add a p = Some a'" "frame a' = frame a" "by_heap a' = (by_heap a)(p \<mapsto> b\<lparr>bd_in_list := True\<rparr>)"
    "linked (insert p (nodes is_free (by_heap a) - X)) Y a'"
    using blist_add_ok[OF bwfD(3)[OF w] _ pY p(1) _ bwfD(9)[OF w]] bwf_node(3)[OF w p(1)] p by auto
  note fr = frame_sel[OF a'(2)] and r = frame_rest[OF a'(2)]
  have free: "nodes is_free (by_heap a') = nodes is_free (by_heap a)" unfolding a'(3) by (rule nodes_same[where h = "by_heap a" and p = p, OF p(1)]) simp
  have "bwf (X - {p}) Y a'"
  proof (rule bwf_flag[OF w p(1) _ _ a'(3) r fr(4,1)])
    have "insert p (nodes is_free (by_heap a) - X) = nodes is_free (by_heap a) - (X - {p})" using p f by (auto simp: nodes_def)
    then show "linked (nodes is_free (by_heap a') - (X - {p})) Y a'" using a'(4) free by simp
    show "X - {p} \<subseteq> nodes is_free (by_heap a')" unfolding free using bwfD(4)[OF w] by blast
    show "Y \<subseteq> nodes bd_alloced (by_heap a')" using bwfD(5)[OF w] nodes_same[where h = "by_heap a" and p = p and P = bd_alloced, OF p(1)] unfolding a'(3) by simp
    show "idx_ok a'" by (rule idx_ok_flag[OF bwfD(7)[OF w] p(1) a'(3) _ _ fr(3)]) simp_all
    show "by_list_alloced a' n = card (nodes (\<lambda>b. bd_alloced b \<and> bd_order b = n) (by_heap a'))" for n
      using bwfD(8)[OF w] alloced_flag[OF p(1) a'(3)] fr(2) by (simp add: counts_ok_def)
  qed (use bwfD(6)[OF w p(1)] in simp_all)
  then show ?thesis using a' r by blast
qed

lemma alloc_buddy_ok:
  assumes w: "bwf {p} Y a" and p: "by_heap a p = Some b"
  shows "\<exists>a'. balloc_alloc_buddy a p = Some a' \<and> bwf {} Y a' \<and> rest a' = rest a \<and>
    by_alloced_buddies a' = idx_insert (bd_start b) p (by_alloced_buddies a) \<and> by_heap a' = (by_heap a)(p \<mapsto> b\<lparr>bd_alloced := True\<rparr>)"
proof -
  let ?n = "bd_order b"
  define a' where "a' = a\<lparr>by_alloced_buddies := idx_insert (bd_start b) p (by_alloced_buddies a), by_heap := (by_heap a)(p \<mapsto> b\<lparr>bd_alloced := True\<rparr>),
    by_list_alloced := (by_list_alloced a)(?n := by_list_alloced a ?n + 1)\<rparr>"
  have f: "is_free b" "\<not> bd_alloced b" "\<not> bd_split b" using bwfD(4)[OF w] p by (auto simp: nodes_def is_free_def)
  have call: "balloc_alloc_buddy a p = Some a'" using p bwf_node(3)[OF w p] counts_room(2)[OF w, of ?n]
    by (simp add: balloc_alloc_buddy_def upd_bud_def in_orders_def safe_simps a'_def)
  have free: "nodes is_free (by_heap a') = nodes is_free (by_heap a) - {p}" by (auto simp: a'_def nodes_upd is_free_def)
  have al: "nodes (\<lambda>b. bd_alloced b \<and> bd_order b = n) (by_heap a') =
      (if n = ?n then insert p (nodes (\<lambda>b. bd_alloced b \<and> bd_order b = n) (by_heap a)) else nodes (\<lambda>b. bd_alloced b \<and> bd_order b = n) (by_heap a))" for n
    using p f by (auto simp: a'_def nodes_def)
  have "bwf {} Y a'"
  proof (rule bwf_flag[OF w p, of "b\<lparr>bd_alloced := True\<rparr>"])
    show "linked (nodes is_free (by_heap a') - {}) Y a'" unfolding free
    proof (rule linked_cong)
      show "linked (nodes is_free (by_heap a) - {p} - {}) Y a" using bwfD(3)[OF w] by simp
      show "bd_in_list c \<longleftrightarrow> q \<in> nodes is_free (by_heap a) - {p} - {} \<or> q \<in> Y" if "by_heap a' q = Some c" for q c
        using that bwfD(3)[OF w] p by (cases "q = p") (auto simp: a'_def linked_def)
      show "\<exists>b'. by_heap a' q = Some b' \<and> bd_order b' = bd_order c" if "by_heap a q = Some c" for q c
        using that p by (cases "q = p") (auto simp: a'_def)
    qed (simp_all add: a'_def)
    show "Y \<subseteq> nodes bd_alloced (by_heap a')" using bwfD(5)[OF w] by (auto simp: a'_def nodes_def)
    have "idx_search (bd_start b) (by_alloced_buddies a) = None"
    proof (rule ccontr)
      assume "idx_search (bd_start b) (by_alloced_buddies a) \<noteq> None"
      then obtain q where "(bd_start b, q) \<in> set (by_alloced_buddies a)" using idx_search_in by fastforce
      then obtain c where q: "by_heap a q = Some c" "bd_alloced c" "bd_start c = bd_start b" using bwfD(7)[OF w] by (auto simp: idx_ok_def)
      then have "q = p" using bwf_leaf_unique[OF w q(1) _ p f(3) q(3)] bwfD(6)[OF w q(1)] by auto
      then show False using q p f by simp
    qed
    then show "idx_ok a'" using bwfD(7)[OF w] p f unfolding idx_ok_def by (auto simp: a'_def set_idx_insert_new split: if_splits)
    have "p \<notin> nodes (\<lambda>b. bd_alloced b \<and> bd_order b = n) (by_heap a)" for n using p f by (auto simp: nodes_def)
    moreover have "finite (nodes P (by_heap a))" for P using bwfD(9)[OF w] nodes_finite by (auto simp: small_def)
    ultimately show "by_list_alloced a' n = card (nodes (\<lambda>b. bd_alloced b \<and> bd_order b = n) (by_heap a'))" for n
      using bwfD(8)[OF w] unfolding al by (simp add: counts_ok_def a'_def)
  qed (use f in \<open>simp_all add: a'_def\<close>)
  then show ?thesis using call by (auto simp: a'_def)
qed

lemma free_buddy_ok:
  assumes w: "bwf {} Y a" and p: "by_heap a p = Some b" "bd_alloced b" "p \<notin> Y"
  shows "\<exists>a'. balloc_free_buddy a (bd_start b) = Some (Some p, a') \<and> bwf {p} Y a' \<and> rest a' = rest a \<and>
    by_alloced_buddies a' = idx_unlink (bd_start b) (by_alloced_buddies a) \<and> by_heap a' = (by_heap a)(p \<mapsto> b\<lparr>bd_alloced := False\<rparr>)"
proof -
  let ?n = "bd_order b"
  define a' where "a' = a\<lparr>by_alloced_buddies := idx_unlink (bd_start b) (by_alloced_buddies a), by_heap := (by_heap a)(p \<mapsto> b\<lparr>bd_alloced := False\<rparr>),
    by_list_alloced := (by_list_alloced a)(?n := by_list_alloced a ?n - 1)\<rparr>"
  have f: "\<not> bd_split b" using bwfD(6)[OF w p(1)] p by simp
  have fin: "finite (nodes P (by_heap a))" for P using bwfD(9)[OF w] nodes_finite by (auto simp: small_def)
  have srch: "idx_search (bd_start b) (by_alloced_buddies a) = Some p" using bwfD(7)[OF w] p by (simp add: idx_ok_def idx_search_iff)
  have pA: "p \<in> nodes (\<lambda>b. bd_alloced b \<and> bd_order b = ?n) (by_heap a)" using p by (auto simp: nodes_def)
  then have "0 < by_list_alloced a ?n" using bwfD(8)[OF w] fin by (auto simp: counts_ok_def card_gt_0_iff)
  then have call: "balloc_free_buddy a (bd_start b) = Some (Some p, a')" using p srch bwf_node(3)[OF w p(1)]
    by (simp add: balloc_free_buddy_def upd_bud_def in_orders_def a'_def)
  have free: "nodes is_free (by_heap a') = insert p (nodes is_free (by_heap a))" using f by (auto simp: a'_def nodes_upd is_free_def)
  have pF: "p \<notin> nodes is_free (by_heap a)" using p by (auto simp: nodes_def is_free_def)
  have al: "nodes (\<lambda>b. bd_alloced b \<and> bd_order b = n) (by_heap a') = nodes (\<lambda>b. bd_alloced b \<and> bd_order b = n) (by_heap a) - (if n = ?n then {p} else {})" for n
    using p f by (auto simp: a'_def nodes_def)
  have "bwf {p} Y a'"
  proof (rule bwf_flag[OF w p(1), of "b\<lparr>bd_alloced := False\<rparr>"])
    have e: "nodes is_free (by_heap a') - {p} = nodes is_free (by_heap a) - {}" using free pF by auto
    show "linked (nodes is_free (by_heap a') - {p}) Y a'" unfolding e
    proof (rule linked_cong[OF bwfD(3)[OF w]])
      show "bd_in_list c \<longleftrightarrow> q \<in> nodes is_free (by_heap a) - {} \<or> q \<in> Y" if "by_heap a' q = Some c" for q c
        using that bwfD(3)[OF w] p by (cases "q = p") (auto simp: a'_def linked_def)
      show "\<exists>b'. by_heap a' q = Some b' \<and> bd_order b' = bd_order c" if "by_heap a q = Some c" for q c
        using that p by (cases "q = p") (auto simp: a'_def)
    qed (simp_all add: a'_def)
    show "{p} \<subseteq> nodes is_free (by_heap a')" using free by simp
    show "Y \<subseteq> nodes bd_alloced (by_heap a')" using bwfD(5)[OF w] p(3) by (auto simp: a'_def nodes_def)
    have uq: "q = p" if "by_heap a q = Some c" "bd_alloced c" "bd_start c = bd_start b" for q c
      using bwf_leaf_unique[OF w that(1) _ p(1) f that(3)] bwfD(6)[OF w that(1)] that(2) by auto
    have "(k, q) \<in> set (by_alloced_buddies a') \<longleftrightarrow> (\<exists>c. by_heap a' q = Some c \<and> bd_alloced c \<and> bd_start c = k)" for k q
    proof (cases "q = p")
      case True
      then show ?thesis using bwfD(7)[OF w] p by (auto simp: a'_def set_idx_unlink idx_ok_def)
    next
      case False
      then show ?thesis using bwfD(7)[OF w] uq by (fastforce simp: a'_def set_idx_unlink idx_ok_def)
    qed
    moreover have "idx_sorted (by_alloced_buddies a')" using bwfD(7)[OF w] by (simp add: a'_def idx_ok_def)
    ultimately show "idx_ok a'" by (simp add: idx_ok_def)
    show "by_list_alloced a' n = card (nodes (\<lambda>b. bd_alloced b \<and> bd_order b = n) (by_heap a'))" for n
      using bwfD(8)[OF w] pA unfolding al by (auto simp: counts_ok_def a'_def card_Diff_singleton)
  qed (use f in \<open>simp_all add: a'_def\<close>)
  then show ?thesis using call by (auto simp: a'_def)
qed

end
