(* ===== verification/Buddy_Alloc.thy ===== *)
theory Buddy_Alloc
  imports Buddy_Ops
begin

text \<open>
  Allocation and release. Besides the invariant they keep the buddies joined: no buddy is split into two free
  halves. The allocated buddies change only by the one that is asked for or given back.
\<close>

section \<open>Joined buddies\<close>

text \<open>The split buddies with two free halves.\<close>

definition both_free :: "(nat \<rightharpoonup> nvgpu_buddy) \<Rightarrow> nat \<Rightarrow> bool" where
  "both_free h x \<longleftrightarrow> (\<exists>b l r bl br. h x = Some b \<and> bd_split b \<and> bd_left b = Some l \<and> bd_right b = Some r \<and>
     h l = Some bl \<and> is_free bl \<and> h r = Some br \<and> is_free br)"

definition merged :: "nat set \<Rightarrow> (nat \<rightharpoonup> nvgpu_buddy) \<Rightarrow> bool" where
  "merged E h \<longleftrightarrow> (\<forall>x. both_free h x \<longrightarrow> x \<in> E)"

text \<open>The allocated buddies.\<close>

definition acts :: "(nat \<rightharpoonup> nvgpu_buddy) \<Rightarrow> (nat \<times> nvgpu_buddy) set" where
  "acts h = {(p, b). h p = Some b \<and> bd_alloced b}"

lemma merged_family:
  assumes w: "bwf X Y a" and m: "merged (set_option (bd_parent b)) (by_heap a)" and p: "by_heap a p = Some b"
    and q: "\<And>q c. bd_buddy b = Some q \<Longrightarrow> by_heap a q = Some c \<Longrightarrow> \<not> is_free c \<or> \<not> is_free b"
  shows "merged {} (by_heap a)"
proof (cases "bd_parent b")
  case None
  then show ?thesis using m by simp
next
  case (Some par)
  obtain pb q c where f: "by_heap a par = Some pb" "bd_buddy b = Some q" "by_heap a q = Some c"
    "bd_left pb = Some p \<and> bd_right pb = Some q \<or> bd_left pb = Some q \<and> bd_right pb = Some p"
    using bwf_family[OF w p Some] by metis
  then have "\<not> both_free (by_heap a) par" using q[OF f(2,3)] p by (auto simp: both_free_def)
  then show ?thesis using m Some by (auto simp: merged_def)
qed

lemma merged_merge:
  assumes w: "bwf {} Y a" and m: "merged (set_option (bd_parent b)) (by_heap a)" and p: "by_heap a p = Some b"
    and q: "bd_buddy b = Some q" and par: "bd_parent b = Some par" "by_heap a par = Some pb"
    and w': "bwf {} Y a'" and h': "by_heap a' = merge_heap p q par pb (by_heap a)"
  shows "merged (set_option (bd_parent pb)) (by_heap a')"
proof -
  have ne: "par \<noteq> p" "par \<noteq> q" using bwf_family[OF w p par(1)] q by (metis option.inject)+
  have "x \<in> set_option (bd_parent pb)" if x: "both_free (by_heap a') x" for x
  proof -
    obtain b0 l r bl br where k: "by_heap a' x = Some b0" "bd_split b0" "bd_left b0 = Some l" "bd_right b0 = Some r"
      "by_heap a' l = Some bl" "is_free bl" "by_heap a' r = Some br" "is_free br" using x by (auto simp: both_free_def)
    have xp: "x \<noteq> par" using k(1,2) ne by (auto simp: h' merge_heap_def)
    then have hx: "by_heap a x = Some b0" using k(1) by (auto simp: h' merge_heap_def split: if_splits)
    have kid: "bd_parent e = Some x" if "by_heap a' y = Some e" "y = l \<or> y = r" for y e
      using forestD(3)[OF bwfD(2)[OF w'], of x "core_of b0"] k(1-4) that by (auto simp: kids_ok_def)
    show ?thesis
    proof (cases "l = par \<or> r = par")
      case True
      then show ?thesis using kid[of par "pb\<lparr>bd_split := False, bd_in_list := True\<rparr>"] ne by (auto simp: h' merge_heap_def)
    next
      case False
      then have "by_heap a l = Some bl" "by_heap a r = Some br" using k(5,7) by (auto simp: h' merge_heap_def split: if_splits)
      then have "both_free (by_heap a) x" using hx k by (auto simp: both_free_def)
      then show ?thesis using m par(1) xp by (auto simp: merged_def)
    qed
  qed
  then show ?thesis by (simp add: merged_def)
qed

lemma acts_merge:
  assumes "h p = Some b" "is_free b" "h q = Some c" "is_free c" "h par = Some pb" "\<not> bd_alloced pb" "par \<noteq> p" "par \<noteq> q"
  shows "acts (merge_heap p q par pb h) = acts h"
  using assms unfolding acts_def merge_heap_def is_free_def by (auto split: if_splits)

text \<open>Joining ends, because the order grows, and leaves no pair of free halves.\<close>

lemma coalesce_ok:
  assumes "bwf {} Y a" "by_heap a p = Some b" "is_free b" "merged (set_option (bd_parent b)) (by_heap a)"
  shows "\<exists>a'. balloc_coalesce p a = Some a' \<and> bwf {} Y a' \<and> rest a' = rest a \<and> by_alloced_buddies a' = by_alloced_buddies a \<and>
    merged {} (by_heap a') \<and> acts (by_heap a') = acts (by_heap a)"
  using assms
proof (induction "by_max_order a - bd_order b" arbitrary: p b a rule: less_induct)
  case less
  note w = less.prems(1) and p = less.prems(2,3) and m = less.prems(4)
  show ?case
  proof (cases "bd_buddy b")
    case None
    then have "balloc_coalesce p a = Some a" using p by (simp add: balloc_coalesce.simps[of p a] is_free_def)
    moreover have "merged {} (by_heap a)" using merged_family[OF w m p(1)] None by simp
    ultimately show ?thesis using w by blast
  next
    case (Some q)
    obtain par where par: "bd_parent b = Some par" using bwf_parent[OF w p(1) Some] .
    obtain pb c where f: "by_heap a par = Some pb" "bd_split pb" "by_heap a q = Some c" "p \<noteq> q" "par \<noteq> p" "par \<noteq> q" "bd_order pb = Suc (bd_order b)"
      using bwf_family[OF w p(1) par] Some by (metis option.inject)
    show ?thesis
    proof (cases "is_free c")
      case False
      then have "balloc_coalesce p a = Some a" using p Some f by (auto simp: balloc_coalesce.simps[of p a] is_free_def)
      moreover have "merged {} (by_heap a)" by (rule merged_family[OF w m p(1)]) (use Some f(3) False in auto)
      ultimately show ?thesis using w by blast
    next
      case True
      obtain a1 where a1: "coalesce_step p q par a = Some a1" "bwf {} Y a1" "rest a1 = rest a" "by_alloced_buddies a1 = by_alloced_buddies a"
        "by_heap a1 = merge_heap p q par pb (by_heap a)" using coalesce_step_ok[OF w p Some f(3) True par f(1)] by blast
      have al: "\<not> bd_alloced pb" using bwfD(6)[OF w f(1)] f(2) by simp
      let ?b = "pb\<lparr>bd_split := False, bd_in_list := True\<rparr>"
      have b1: "by_heap a1 par = Some ?b" "is_free ?b" using f(5,6) al by (auto simp: a1(5) merge_heap_def is_free_def)
      have m1: "merged (set_option (bd_parent ?b)) (by_heap a1)" using merged_merge[OF w m p(1) Some par f(1) a1(2,5)] by simp
      have "by_max_order a1 - bd_order ?b < by_max_order a - bd_order b"
        using rest_sel(5)[OF a1(3)] f(7) bwf_node(2)[OF w f(1)] by simp
      from less.hyps[OF this a1(2) b1 m1] obtain a2 where a2: "balloc_coalesce par a1 = Some a2" "bwf {} Y a2" "rest a2 = rest a1"
        "by_alloced_buddies a2 = by_alloced_buddies a1" "merged {} (by_heap a2)" "acts (by_heap a2) = acts (by_heap a1)" by blast
      have "balloc_coalesce p a = Some a2" using p Some f(3) True par a1(1) a2(1) by (simp add: balloc_coalesce.simps[of p a] is_free_def)
      moreover have "acts (by_heap a1) = acts (by_heap a)" unfolding a1(5) by (rule acts_merge[OF p f(3) True f(1) al f(5,6)])
      ultimately show ?thesis using a2 a1 by auto
    qed
  qed
qed

section \<open>Splitting down to an order\<close>

lemma merged_split:
  assumes w: "bwf {} Y a" and m: "merged (set_option (bd_parent b)) (by_heap a)" and p: "by_heap a p = Some b" "is_free b"
    and lr: "by_heap a l = None" "by_heap a r = None" "l \<noteq> p" "r \<noteq> p" "l \<noteq> r"
  shows "merged {p} (split_heap p b l r True pte (by_heap a))"
proof -
  have "x = p" if x: "both_free (split_heap p b l r True pte (by_heap a)) x" for x
  proof (rule ccontr)
    assume xp: "x \<noteq> p"
    let ?h = "split_heap p b l r True pte (by_heap a)"
    obtain b0 u v bu bv where k: "?h x = Some b0" "bd_split b0" "bd_left b0 = Some u" "bd_right b0 = Some v"
      "?h u = Some bu" "is_free bu" "?h v = Some bv" "is_free bv" using x by (auto simp: both_free_def)
    have "x \<noteq> l" "x \<noteq> r" using k(1,2) by (auto simp: split_heap_def split: if_splits)
    then have hx: "by_heap a x = Some b0" using k(1) xp by (simp add: split_heap_def)
    obtain cu cv where kd: "by_heap a u = Some cu" "by_heap a v = Some cv" "bd_parent cu = Some x" "bd_parent cv = Some x"
      using forestD(3)[OF bwfD(2)[OF w], of x "core_of b0"] hx k(2-4) by (auto simp: kids_ok_def)
    have "u \<noteq> p" "v \<noteq> p" using k(5-8) lr(3,4) by (auto simp: split_heap_def is_free_def)
    moreover have "u \<noteq> l" "u \<noteq> r" "v \<noteq> l" "v \<noteq> r" using kd lr by auto
    ultimately have "both_free (by_heap a) x" using hx k by (auto simp: both_free_def split_heap_def)
    then have par: "bd_parent b = Some x" using m by (auto simp: merged_def)
    show False using bwf_family[OF w p(1) par] hx k(3,4) \<open>u \<noteq> p\<close> \<open>v \<noteq> p\<close> by (metis option.inject)
  qed
  then show ?thesis by (simp add: merged_def)
qed

lemma acts_split:
  assumes "h p = Some b" "is_free b" "h l = None" "h r = None" "l \<noteq> p" "r \<noteq> p" "l \<noteq> r"
  shows "acts (split_heap p b l r lst pte h) = acts h"
  using assms unfolding acts_def split_heap_def is_free_def by (auto split: if_splits)

lemma split_down_ok:
  assumes "bwf {} Y a" "by_heap a p = Some b" "is_free b" "merged (set_option (bd_parent b)) (by_heap a)" "order \<le> bd_order b"
  shows "\<exists>q a'. split_down oom order pte_size p a = Some (q, a') \<and> bwf {} Y a' \<and> rest a' = rest a \<and>
    by_alloced_buddies a' = by_alloced_buddies a \<and> acts (by_heap a') = acts (by_heap a) \<and>
    (case q of None \<Rightarrow> merged {} (by_heap a') \<and> (\<exists>n. oom n)
     | Some q \<Rightarrow> \<exists>c. by_heap a' q = Some c \<and> is_free c \<and> bd_order c = order \<and> bd_start c = bd_start b \<and>
         merged (set_option (bd_parent c)) (by_heap a'))"
  using assms
proof (induction "bd_order b - order" arbitrary: p b a)
  case 0
  then have "bd_order b = order" by simp
  then show ?case using 0 by (auto simp: split_down.simps[of oom order pte_size p a])
next
  case (Suc n)
  note w = Suc.prems(1) and p = Suc.prems(2,3) and m = Suc.prems(4)
  have o: "0 < bd_order b" "bd_order b \<noteq> order" using Suc.hyps(2) by auto
  from split_ok[OF w p o(1), of oom pte_size] consider
    a1 where "\<exists>n. oom n" "balloc_split_buddy oom a p pte_size = Some (Inl ENOMEM, a1)" "bwf {} Y a1" "by_heap a1 = by_heap a"
      "by_alloced_buddies a1 = by_alloced_buddies a" "rest a1 = rest a"
  | a1 l r pte where "balloc_split_buddy oom a p pte_size = Some (Inr (), a1)" "bwf {} Y a1" "by_alloced_buddies a1 = by_alloced_buddies a"
      "rest a1 = rest a" "l \<noteq> p" "r \<noteq> p" "l \<noteq> r" "by_heap a l = None" "by_heap a r = None" "by_heap a1 = split_heap p b l r True pte (by_heap a)"
    by auto
  then show ?case
  proof cases
    case 1
    obtain a2 where a2: "balloc_coalesce p a1 = Some a2" "bwf {} Y a2" "rest a2 = rest a1" "by_alloced_buddies a2 = by_alloced_buddies a1"
      "merged {} (by_heap a2)" "acts (by_heap a2) = acts (by_heap a1)"
      using coalesce_ok[OF 1(3), of p b] p m 1(4) by auto
    have "split_down oom order pte_size p a = Some (None, a2)" using p o 1(2) a2(1) by (simp add: split_down.simps[of oom order pte_size p a])
    then show ?thesis using a2 1 by auto
  next
    case 2
    let ?l = "half p r (bd_start b) (bd_start b + (bd_end b - bd_start b) div 2) (bd_order b - 1) True pte"
    have h1: "by_heap a1 l = Some ?l" "bd_left (the (by_heap a1 p)) = Some l" "by_heap a1 p \<noteq> None"
      using 2(5-7) by (auto simp: 2(10) split_heap_def)
    have m1: "merged (set_option (bd_parent ?l)) (by_heap a1)" using merged_split[OF w m p 2(8,9,5,6,7)] by (simp add: 2(10))
    have "n = bd_order ?l - order" "order \<le> bd_order ?l" using Suc.hyps(2) by auto
    from Suc.hyps(1)[OF this(1) 2(2) h1(1) half_sel(9) m1 this(2), unfolded half_sel] obtain q a2 where a2: "split_down oom order pte_size l a1 = Some (q, a2)" "bwf {} Y a2"
      "rest a2 = rest a1" "by_alloced_buddies a2 = by_alloced_buddies a1" "acts (by_heap a2) = acts (by_heap a1)"
      "case q of None \<Rightarrow> merged {} (by_heap a2) \<and> (\<exists>n. oom n) | Some q \<Rightarrow> \<exists>c. by_heap a2 q = Some c \<and> is_free c \<and> bd_order c = order \<and> bd_start c = bd_start b \<and>
         merged (set_option (bd_parent c)) (by_heap a2)" by blast
    have "split_down oom order pte_size p a = Some (q, a2)" using p o 2(1) h1(2,3) a2(1)
      by (auto simp: split_down.simps[of oom order pte_size p a])
    moreover have "acts (by_heap a1) = acts (by_heap a)" unfolding 2(10) by (rule acts_split[OF p 2(8,9,5,6,7)])
    ultimately show ?thesis using a2 2(3,4) by auto
  qed
qed

section \<open>Finding a buddy\<close>

lemma find_buddy_ok:
  assumes w: "bwf {} Y a" and n: "n \<le> by_max_order a"
  shows "\<exists>r. balloc_find_buddy a n pte_size = Some r \<and> (\<forall>p. r = Some p \<longrightarrow> (\<exists>b. by_heap a p = Some b \<and> is_free b \<and> bd_order b = n)) \<and>
    (r = None \<longrightarrow> pte_size = BALLOC_PTE_SIZE_ANY \<longrightarrow> (\<forall>p b. by_heap a p = Some b \<longrightarrow> is_free b \<longrightarrow> bd_order b \<noteq> n))"
proof -
  have o: "n \<le> 63" using n bwfD(1)[OF w] by (simp add: cfg_ok_def)
  have l: "p \<in> set (by_list a n) \<longleftrightarrow> p \<in> nodes (\<lambda>b. is_free b \<and> bd_order b = n) (by_heap a)" for p
    using bwfD(3)[OF w] by (auto simp: linked_def nodes_def)
  show ?thesis
  proof (cases "by_list a n")
    case Nil
    then have "balloc_find_buddy a n pte_size = Some None" using n o by (simp add: balloc_find_buddy_def in_orders_def)
    moreover have "p \<notin> nodes (\<lambda>b. is_free b \<and> bd_order b = n) (by_heap a)" for p using l[of p] Nil by simp
    ultimately show ?thesis by (auto simp: nodes_def)
  next
    case (Cons x xs)
    define p where "p = (if gva a \<and> pte_size = BALLOC_PTE_SIZE_BIG then last (by_list a n) else hd (by_list a n))"
    have "p \<in> set (by_list a n)" unfolding p_def using Cons last_in_set[of "by_list a n"] hd_in_set[of "by_list a n"] by (simp split: if_splits)
    then obtain b where b: "by_heap a p = Some b" "is_free b" "bd_order b = n" using l[of p] by (auto simp: nodes_def)
    have "balloc_find_buddy a n pte_size =
        Option.bind (by_heap a p) (\<lambda>b. Some (if pte_size \<noteq> BALLOC_PTE_SIZE_ANY \<and> pte_size \<noteq> bd_pte_size b \<and> bd_pte_size b \<noteq> BALLOC_PTE_SIZE_ANY then None else Some p))"
      using n o by (simp only: balloc_find_buddy_def in_orders_def p_def Let_def Cons list.case) simp
    then show ?thesis using b by auto
  qed
qed

lemma find_from_ok:
  assumes w: "bwf {} Y a"
  shows "\<exists>r. find_from a n pte_size = Some r \<and> (\<forall>p. r = Some p \<longrightarrow> (\<exists>b. by_heap a p = Some b \<and> is_free b \<and> n \<le> bd_order b)) \<and>
    (r = None \<longrightarrow> pte_size = BALLOC_PTE_SIZE_ANY \<longrightarrow> (\<forall>p b. by_heap a p = Some b \<longrightarrow> is_free b \<longrightarrow> bd_order b < n))"
proof (induction "by_max_order a + 1 - n" arbitrary: n)
  case 0
  have "bd_order b < n" if "by_heap a p = Some b" for p b using bwf_node(2)[OF w that] 0 by simp
  then show ?case using 0 by (auto simp: find_from.simps[of a n])
next
  case (Suc k)
  have n: "n \<le> by_max_order a" using Suc.hyps(2) by simp
  obtain r where r: "balloc_find_buddy a n pte_size = Some r"
    "\<forall>p. r = Some p \<longrightarrow> (\<exists>b. by_heap a p = Some b \<and> is_free b \<and> bd_order b = n)"
    "r = None \<longrightarrow> pte_size = BALLOC_PTE_SIZE_ANY \<longrightarrow> (\<forall>p b. by_heap a p = Some b \<longrightarrow> is_free b \<longrightarrow> bd_order b \<noteq> n)"
    using find_buddy_ok[OF w n, of pte_size] by blast
  show ?case
  proof (cases r)
    case None
    obtain r' where r': "find_from a (Suc n) pte_size = Some r'" "\<forall>p. r' = Some p \<longrightarrow> (\<exists>b. by_heap a p = Some b \<and> is_free b \<and> Suc n \<le> bd_order b)"
      "r' = None \<longrightarrow> pte_size = BALLOC_PTE_SIZE_ANY \<longrightarrow> (\<forall>p b. by_heap a p = Some b \<longrightarrow> is_free b \<longrightarrow> bd_order b < Suc n)"
      using Suc.hyps(1)[of "Suc n"] Suc.hyps(2) n by (auto simp: Suc_diff_le)
    have "find_from a n pte_size = Some r'" using n r(1) None r'(1) by (simp add: find_from.simps[of a n])
    moreover have "\<forall>p. r' = Some p \<longrightarrow> (\<exists>b. by_heap a p = Some b \<and> is_free b \<and> n \<le> bd_order b)" using r'(2) Suc_leD by blast
    moreover have "r' = None \<longrightarrow> pte_size = BALLOC_PTE_SIZE_ANY \<longrightarrow> (\<forall>p b. by_heap a p = Some b \<longrightarrow> is_free b \<longrightarrow> bd_order b < n)"
      using r'(3) r(3) None by (auto simp: less_Suc_eq)
    ultimately show ?thesis by blast
  next
    case (Some p)
    then show ?thesis using n r(1,2) by (auto simp: find_from.simps[of a n])
  qed
qed

section \<open>Allocation\<close>

lemma both_free_flag:
  assumes "both_free (h(p \<mapsto> b')) x" "h p = Some b" "core_of b' = core_of b" "is_free b' \<Longrightarrow> is_free b"
  shows "both_free h x"
proof -
  have c: "bd_split b' = bd_split b" "bd_left b' = bd_left b" "bd_right b' = bd_right b" using assms(3) by (auto simp: core_of_def)
  obtain b0 l r bl br where k: "(h(p \<mapsto> b')) x = Some b0" "bd_split b0" "bd_left b0 = Some l" "bd_right b0 = Some r"
    "(h(p \<mapsto> b')) l = Some bl" "is_free bl" "(h(p \<mapsto> b')) r = Some br" "is_free br" using assms(1) by (auto simp: both_free_def)
  have "\<exists>c. h y = Some c \<and> is_free c" if "(h(p \<mapsto> b')) y = Some d" "is_free d" for y d
    using that assms(2,4) by (cases "y = p") auto
  then obtain cl cr where "h l = Some cl" "is_free cl" "h r = Some cr" "is_free cr" using k by blast
  moreover have "\<exists>c. h x = Some c \<and> bd_split c \<and> bd_left c = Some l \<and> bd_right c = Some r" using k(1-4) c assms(2) by (cases "x = p") auto
  ultimately show ?thesis by (auto simp: both_free_def)
qed

lemma merged_flag:
  assumes "merged E h" "h p = Some b" "core_of b' = core_of b" "is_free b' \<Longrightarrow> is_free b"
  shows "merged E (h(p \<mapsto> b'))"
  using assms(1) both_free_flag[of h p b' _ b] assms(2-4) unfolding merged_def by blast

text \<open>Taking a free buddy: the buddy becomes allocated and nothing else changes.\<close>

lemma take_alloc_ok:
  assumes w: "bwf {} Y a" and p: "by_heap a p = Some b" "is_free b" and m: "merged (set_option (bd_parent b)) (by_heap a)"
  shows "\<exists>a1 a2. balloc_blist_rem a p = Some a1 \<and> balloc_alloc_buddy a1 p = Some a2 \<and> bwf {} Y a2 \<and> rest a2 = rest a \<and>
    by_alloced_buddies a2 = idx_insert (bd_start b) p (by_alloced_buddies a) \<and> merged {} (by_heap a2) \<and>
    by_heap a2 = (by_heap a)(p \<mapsto> b\<lparr>bd_in_list := False, bd_alloced := True\<rparr>) \<and>
    acts (by_heap a2) = insert (p, b\<lparr>bd_in_list := False, bd_alloced := True\<rparr>) (acts (by_heap a))"
proof -
  obtain a1 where a1: "balloc_blist_rem a p = Some a1" "bwf {p} Y a1" "rest a1 = rest a" "frame a1 = frame a"
    "by_heap a1 = (by_heap a)(p \<mapsto> b\<lparr>bd_in_list := False\<rparr>)" using take_ok[OF w p] by auto
  have h1: "by_heap a1 p = Some (b\<lparr>bd_in_list := False\<rparr>)" by (simp add: a1(5))
  let ?b = "b\<lparr>bd_in_list := False, bd_alloced := True\<rparr>"
  obtain a2 where a2: "balloc_alloc_buddy a1 p = Some a2" "bwf {} Y a2" "rest a2 = rest a1"
    "by_alloced_buddies a2 = idx_insert (bd_start b) p (by_alloced_buddies a1)" "by_heap a2 = (by_heap a1)(p \<mapsto> ?b)"
    using alloc_buddy_ok[OF a1(2) h1] by auto
  have h2: "by_heap a2 = (by_heap a)(p \<mapsto> ?b)" by (simp add: a2(5) a1(5))
  have "merged (set_option (bd_parent ?b)) (by_heap a2)"
    unfolding h2 by (rule merged_flag[where h = "by_heap a" and p = p, OF _ p(1)]) (use m p in simp_all)
  then have "merged {} (by_heap a2)" by (rule merged_family[OF a2(2), of _ p]) (simp_all add: h2 is_free_def)
  moreover have "acts (by_heap a2) = insert (p, ?b) (acts (by_heap a))" using p by (auto simp: h2 acts_def is_free_def split: if_splits)
  ultimately show ?thesis using a1 a2 frame_sel(3)[OF a1(4)] h2 by auto
qed

lemma do_alloc_ok:
  assumes w: "bwf {} Y a" and m: "merged {} (by_heap a)"
  shows "\<exists>addr a'. balloc_do_alloc oom a order pte_size = Some (addr, a') \<and> bwf {} Y a' \<and> rest a' = rest a \<and> merged {} (by_heap a') \<and>
    (if addr = 0 then acts (by_heap a') = acts (by_heap a) \<and> (pte_size = BALLOC_PTE_SIZE_ANY \<longrightarrow> (\<exists>n. oom n) \<or>
       (\<forall>p b. by_heap a p = Some b \<longrightarrow> is_free b \<longrightarrow> bd_order b < order))
     else \<exists>p b. acts (by_heap a') = insert (p, b) (acts (by_heap a)) \<and> by_heap a' p = Some b \<and> bd_start b = addr \<and> bd_order b = order \<and>
       p \<notin> fst ` acts (by_heap a) \<and> bd_alloced b)"
proof -
  obtain r where r: "find_from a order pte_size = Some r" "\<forall>p. r = Some p \<longrightarrow> (\<exists>b. by_heap a p = Some b \<and> is_free b \<and> order \<le> bd_order b)"
    "r = None \<longrightarrow> pte_size = BALLOC_PTE_SIZE_ANY \<longrightarrow> (\<forall>p b. by_heap a p = Some b \<longrightarrow> is_free b \<longrightarrow> bd_order b < order)"
    using find_from_ok[OF w, of order pte_size] by blast
  show ?thesis
  proof (cases r)
    case None
    then show ?thesis using r(1,3) w m by (auto simp: balloc_do_alloc_def)
  next
    case (Some p)
    then obtain b where b: "by_heap a p = Some b" "is_free b" "order \<le> bd_order b" using r(2) by auto
    have "merged (set_option (bd_parent b)) (by_heap a)" using m by (auto simp: merged_def)
    from split_down_ok[OF w b(1,2) this b(3), of oom pte_size] obtain q a1 where a1: "split_down oom order pte_size p a = Some (q, a1)"
      "bwf {} Y a1" "rest a1 = rest a" "acts (by_heap a1) = acts (by_heap a)"
      "case q of None \<Rightarrow> merged {} (by_heap a1) \<and> (\<exists>n. oom n) | Some q \<Rightarrow> \<exists>c. by_heap a1 q = Some c \<and> is_free c \<and> bd_order c = order \<and> bd_start c = bd_start b \<and>
         merged (set_option (bd_parent c)) (by_heap a1)" by blast
    show ?thesis
    proof (cases q)
      case None
      then show ?thesis using r(1) Some a1 by (auto simp: balloc_do_alloc_def)
    next
      case q: (Some q')
      then obtain c where c: "by_heap a1 q' = Some c" "is_free c" "bd_order c = order" "bd_start c = bd_start b"
        "merged (set_option (bd_parent c)) (by_heap a1)" using a1(5) by auto
      let ?c = "c\<lparr>bd_in_list := False, bd_alloced := True\<rparr>"
      obtain a2 a3 where a3: "balloc_blist_rem a1 q' = Some a2" "balloc_alloc_buddy a2 q' = Some a3" "bwf {} Y a3" "rest a3 = rest a1"
        "merged {} (by_heap a3)" "by_heap a3 = (by_heap a1)(q' \<mapsto> ?c)" "acts (by_heap a3) = insert (q', ?c) (acts (by_heap a1))"
        using take_alloc_ok[OF a1(2) c(1,2,5)] by blast
      have "balloc_do_alloc oom a order pte_size = Some (bd_start c, a3)"
        using r(1) Some a1(1) q a3(1,2,6) by (simp add: balloc_do_alloc_def)
      moreover have "q' \<notin> fst ` acts (by_heap a)" using c(1,2) a1(4)[symmetric] by (auto simp: acts_def is_free_def)
      moreover have "bd_start c \<noteq> 0" using bwf_node(8)[OF a1(2) c(1)] by simp
      ultimately show ?thesis using a3 a1(3,4) c(3) by (auto intro!: exI[of _ q'] exI[of _ ?c])
    qed
  qed
qed

section \<open>Release\<close>

lemma merged_free:
  assumes w: "bwf X Y a" and m: "merged {} (by_heap a)" and p: "by_heap a p = Some b" and b': "core_of b' = core_of b"
  shows "merged (set_option (bd_parent b)) ((by_heap a)(p \<mapsto> b'))"
proof -
  have "x \<in> set_option (bd_parent b)" if x: "both_free ((by_heap a)(p \<mapsto> b')) x" for x
  proof (rule ccontr)
    assume nx: "x \<notin> set_option (bd_parent b)"
    let ?h = "(by_heap a)(p \<mapsto> b')"
    obtain b0 l r bl br where k: "?h x = Some b0" "bd_split b0" "bd_left b0 = Some l" "bd_right b0 = Some r"
      "?h l = Some bl" "is_free bl" "?h r = Some br" "is_free br" using x by (auto simp: both_free_def)
    have c: "bd_split b' = bd_split b" "bd_left b' = bd_left b" "bd_right b' = bd_right b" using b' by (auto simp: core_of_def)
    obtain c0 where c0: "by_heap a x = Some c0" "bd_split c0" "bd_left c0 = Some l" "bd_right c0 = Some r"
      using k(1-4) c p by (cases "x = p") auto
    then obtain cl cr where "by_heap a l = Some cl" "by_heap a r = Some cr" "bd_parent cl = Some x" "bd_parent cr = Some x"
      using forestD(3)[OF bwfD(2)[OF w], of x "core_of c0"] by (auto simp: kids_ok_def)
    moreover from this have "l \<noteq> p" "r \<noteq> p" using nx p by auto
    ultimately have "both_free (by_heap a) x" using c0 k(5-8) by (auto simp: both_free_def)
    then show False using m by (simp add: merged_def)
  qed
  then show ?thesis by (simp add: merged_def)
qed

text \<open>Giving a buddy back: its flag is cleared, it enters the list of its order and is joined with its buddy.\<close>

lemma free_give_ok:
  assumes w: "bwf {} Y a" and m: "merged {} (by_heap a)" and p: "by_heap a p = Some b" "bd_alloced b" "p \<notin> Y"
  shows "\<exists>a1 a2. balloc_free_buddy a (bd_start b) = Some (Some p, a1) \<and> balloc_blist_add a1 p = Some a2 \<and> bwf {} Y a2 \<and> rest a2 = rest a \<and>
    by_alloced_buddies a2 = idx_unlink (bd_start b) (by_alloced_buddies a) \<and>
    by_heap a2 = (by_heap a)(p \<mapsto> b\<lparr>bd_alloced := False, bd_in_list := True\<rparr>) \<and> is_free (b\<lparr>bd_alloced := False, bd_in_list := True\<rparr>) \<and>
    merged (set_option (bd_parent b)) (by_heap a2) \<and> acts (by_heap a2) = acts (by_heap a) - {(p, b)}"
proof -
  obtain a1 where a1: "balloc_free_buddy a (bd_start b) = Some (Some p, a1)" "bwf {p} Y a1" "rest a1 = rest a"
    "by_alloced_buddies a1 = idx_unlink (bd_start b) (by_alloced_buddies a)" "by_heap a1 = (by_heap a)(p \<mapsto> b\<lparr>bd_alloced := False\<rparr>)"
    using free_buddy_ok[OF w p] by blast
  let ?b = "b\<lparr>bd_alloced := False, bd_in_list := True\<rparr>"
  have nb: "?b \<noteq> b" using p(2) by (metis nvgpu_buddy.select_convs(8) nvgpu_buddy.surjective nvgpu_buddy.update_convs(8,10))
  have h1: "by_heap a1 p = Some (b\<lparr>bd_alloced := False\<rparr>)" by (simp add: a1(5))
  obtain a2 where a2: "balloc_blist_add a1 p = Some a2" "bwf {} Y a2" "rest a2 = rest a1" "frame a2 = frame a1" "by_heap a2 = (by_heap a1)(p \<mapsto> ?b)"
    using give_ok[OF a1(2) h1] by auto
  have h2: "by_heap a2 = (by_heap a)(p \<mapsto> ?b)" by (simp add: a2(5) a1(5))
  have "merged (set_option (bd_parent b)) (by_heap a2)" unfolding h2 by (rule merged_free[OF w m p(1)]) simp
  moreover have "is_free ?b" using bwfD(6)[OF w p(1)] p(2) by (simp add: is_free_def)
  moreover have "acts (by_heap a2) = acts (by_heap a) - {(p, b)}" using p nb by (auto simp: h2 acts_def split: if_splits)
  ultimately show ?thesis using a1 a2 frame_sel(3)[OF a2(4)] h2 by auto
qed

lemma bwf_bytes [simp]: "bwf X Y (a\<lparr>by_bytes_freed := n\<rparr>) = bwf X Y a"
  by (simp add: bwf_def cfg_ok_def gcfg_def linked_def idx_ok_def counts_ok_def)

end
