(* ===== verification/Buddy_Properties.thy ===== *)
theory Buddy_Properties
  imports Buddy_Alloc
begin

text \<open>
  What the buddy allocator promises: requests return ranges that nobody else holds, of the least power of two that
  is enough; they fail only for lack of room or memory; a release makes the range available again and joins the
  free buddies.
\<close>

section \<open>The state between requests\<close>

definition fixed_buddies :: "nvgpu_buddy_allocator \<Rightarrow> nat list" where
  "fixed_buddies a = concat (map (fa_buddies \<circ> snd) (by_fixed_allocs a))"

definition buddy_inv :: "nvgpu_buddy_allocator \<Rightarrow> bool" where
  "buddy_inv a \<longleftrightarrow> bwf {} (set (fixed_buddies a)) a \<and> merged {} (by_heap a) \<and> distinct (fixed_buddies a) \<and>
     idx_sorted (by_fixed_allocs a) \<and> (\<forall>(k, f) \<in> set (by_fixed_allocs a). fa_start f = k) \<and> (gva a \<longrightarrow> by_vm a \<noteq> None)"

text \<open>What a request leaves as it is besides.\<close>

definition settings :: "nvgpu_buddy_allocator \<Rightarrow> nvgpu_buddy_allocator" where
  "settings a = (rest a)\<lparr>by_bytes_alloced := 0, by_bytes_alloced_real := 0, by_bytes_freed := 0, by_alloc_made := False\<rparr>"

lemma settings_sel:
  assumes "settings a' = settings a"
  shows "by_start a' = by_start a" "by_end a' = by_end a" "by_blk_size a' = by_blk_size a" "by_blk_shift a' = by_blk_shift a"
    "by_max_order a' = by_max_order a" "by_flags a' = by_flags a" "by_vm a' = by_vm a" "by_fixed_allocs a' = by_fixed_allocs a"
    "by_pte_blk_order a' = by_pte_blk_order a" "by_co_list a' = by_co_list a"
  using arg_cong[OF assms, of by_start] arg_cong[OF assms, of by_end] arg_cong[OF assms, of by_blk_size]
    arg_cong[OF assms, of by_blk_shift] arg_cong[OF assms, of by_max_order] arg_cong[OF assms, of by_flags]
    arg_cong[OF assms, of by_vm] arg_cong[OF assms, of by_fixed_allocs] arg_cong[OF assms, of by_pte_blk_order]
    arg_cong[OF assms, of by_co_list]
  by (simp_all add: settings_def rest_def)

lemma rest_settings: "rest a' = rest a \<Longrightarrow> settings a' = settings a"
  by (simp add: settings_def)

lemma settings_upd [simp]:
  "settings (a\<lparr>by_bytes_alloced := n\<rparr>) = settings a" "settings (a\<lparr>by_bytes_alloced_real := n\<rparr>) = settings a"
  "settings (a\<lparr>by_bytes_freed := n\<rparr>) = settings a" "settings (a\<lparr>by_alloc_made := x\<rparr>) = settings a"
  by (simp_all add: settings_def rest_def)

lemma bwf_stats [simp]:
  "bwf X Y (a\<lparr>by_bytes_alloced := n\<rparr>) = bwf X Y a" "bwf X Y (a\<lparr>by_bytes_alloced_real := n\<rparr>) = bwf X Y a"
  "bwf X Y (a\<lparr>by_alloc_made := x\<rparr>) = bwf X Y a"
  by (simp_all add: bwf_def cfg_ok_def gcfg_def linked_def idx_ok_def counts_ok_def)

lemma buddy_invI:
  assumes i: "buddy_inv a" and w: "bwf {} (set (fixed_buddies a)) a'" "merged {} (by_heap a')" and s: "settings a' = settings a"
  shows "buddy_inv a'"
proof -
  have "fixed_buddies a' = fixed_buddies a" "gva a' = gva a" by (simp_all add: fixed_buddies_def gva_def settings_sel[OF s])
  then show ?thesis using i w settings_sel[OF s] by (simp add: buddy_inv_def)
qed

section \<open>Sizes\<close>

lemma get_order_ok:
  assumes "cfg_ok a" "0 < len" "len \<le> U64_MAX"
  shows "len \<le> 2 ^ balloc_get_order a len * by_blk_size a"
    "balloc_get_order a len = 0 \<or> 2 ^ (balloc_get_order a len - 1) * by_blk_size a < len"
proof -
  let ?k = "by_blk_size a" and ?x = "(len - 1) div 2 ^ by_blk_shift a"
  have k: "?k = 2 ^ by_blk_shift a" using assms(1) by (simp add: cfg_ok_def)
  have o: "balloc_get_order a len = nvgpu_fls ?x" using assms(2) by (simp add: balloc_get_order_def)
  have "len \<le> 2 ^ nvgpu_fls ?x * ?k \<and> (nvgpu_fls ?x = 0 \<or> 2 ^ (nvgpu_fls ?x - 1) * ?k < len)"
  proof (cases "?x = 0")
    case True
    then have "len - 1 < ?k" unfolding k by (simp add: div_eq_0_iff)
    then show ?thesis unfolding True by simp
  next
    case False
    have "?x \<le> U64_MAX" using assms(3) by (meson diff_le_self div_le_dividend le_trans)
    then have f: "2 ^ (nvgpu_fls ?x - 1) \<le> ?x" "?x < 2 ^ nvgpu_fls ?x" using nvgpu_fls_correct[of ?x] False by auto
    have "len - 1 < 2 ^ nvgpu_fls ?x * ?k" unfolding k using f(2) by (simp add: div_less_iff_less_mult)
    moreover have "2 ^ (nvgpu_fls ?x - 1) * ?k \<le> len - 1" unfolding k using f(1) by (simp add: less_eq_div_iff_mult_less_eq)
    ultimately show ?thesis using assms(2) by linarith
  qed
  then show "len \<le> 2 ^ balloc_get_order a len * by_blk_size a"
    "balloc_get_order a len = 0 \<or> 2 ^ (balloc_get_order a len - 1) * by_blk_size a < len" unfolding o by auto
qed

section \<open>Requests\<close>

lemma balloc_pte_ok:
  assumes i: "buddy_inv a"
  shows "\<exists>addr a'. nvgpu_buddy_balloc_pte oom a len page_size = Some (addr, a') \<and> buddy_inv a' \<and> settings a' = settings a \<and>
    by_bytes_freed a' = by_bytes_freed a \<and>
    (if addr = 0 then acts (by_heap a') = acts (by_heap a) \<and> (\<not> gva a \<longrightarrow> 0 < len \<longrightarrow> (\<exists>n. oom n) \<or>
       (\<forall>p b. by_heap a p = Some b \<longrightarrow> is_free b \<longrightarrow> bd_order b < balloc_get_order a len))
     else 0 < len \<and> (\<exists>p b. acts (by_heap a') = insert (p, b) (acts (by_heap a)) \<and> by_heap a' p = Some b \<and> bd_start b = addr \<and>
       bd_order b = balloc_get_order a len \<and> p \<notin> fst ` acts (by_heap a) \<and> bd_alloced b))"
proof -
  have w: "bwf {} (set (fixed_buddies a)) a" "merged {} (by_heap a)" using i by (auto simp: buddy_inv_def)
  let ?n = "balloc_get_order a len"
  have keep: ?thesis if "nvgpu_buddy_balloc_pte oom a len page_size = Some (0, a)"
    "\<not> gva a \<Longrightarrow> 0 < len \<Longrightarrow> by_max_order a < ?n" using that i bwf_node(2)[OF w(1)] by (auto intro: le_less_trans)
  consider "len = 0 \<or> ?n > by_max_order a" | "0 < len" "?n \<le> by_max_order a" by linarith
  then show ?thesis
  proof cases
    case 1
    then show ?thesis by (intro keep) (auto simp: nvgpu_buddy_balloc_pte_def Let_def)
  next
    case 2
    obtain pte where pte: "nvgpu_balloc_page_size_to_pte_size a page_size = Some pte"
      and any: "\<not> gva a \<Longrightarrow> pte = BALLOC_PTE_SIZE_ANY"
      using i by (cases "gva a") (auto simp: nvgpu_balloc_page_size_to_pte_size_def buddy_inv_def)
    obtain addr a1 where a1: "balloc_do_alloc oom a ?n pte = Some (addr, a1)" "bwf {} (set (fixed_buddies a)) a1" "rest a1 = rest a"
      "merged {} (by_heap a1)" "if addr = 0 then acts (by_heap a1) = acts (by_heap a) \<and> (pte = BALLOC_PTE_SIZE_ANY \<longrightarrow> (\<exists>n. oom n) \<or>
       (\<forall>p b. by_heap a p = Some b \<longrightarrow> is_free b \<longrightarrow> bd_order b < ?n))
     else \<exists>p b. acts (by_heap a1) = insert (p, b) (acts (by_heap a)) \<and> by_heap a1 p = Some b \<and> bd_start b = addr \<and> bd_order b = ?n \<and>
       p \<notin> fst ` acts (by_heap a) \<and> bd_alloced b" using do_alloc_ok[OF w] by blast
    have r: "settings a1 = settings a" "by_bytes_freed a1 = by_bytes_freed a" using rest_settings[OF a1(3)] rest_sel[OF a1(3)] by simp_all
    have i1: "buddy_inv a1" by (rule buddy_invI[OF i a1(2,4) r(1)])
    show ?thesis
    proof (cases "pte = BALLOC_PTE_SIZE_INVALID")
      case True
      then show ?thesis using 2 pte any by (intro keep) (auto simp: nvgpu_buddy_balloc_pte_def Let_def)
    next
      case False
      show ?thesis
      proof (cases "addr = 0")
        case True
        then have "nvgpu_buddy_balloc_pte oom a len page_size = Some (0, a1)" using 2 pte False a1(1)
          by (simp add: nvgpu_buddy_balloc_pte_def Let_def)
        then show ?thesis using i1 r a1(5) True any by auto
      next
        case nz: False
        then obtain p b where p: "acts (by_heap a1) = insert (p, b) (acts (by_heap a))" "by_heap a1 p = Some b" "bd_start b = addr" "bd_order b = ?n"
          "p \<notin> fst ` acts (by_heap a)" "bd_alloced b" using a1(5) by auto
        have "balloc_order_to_len a1 ?n = Some (2 ^ ?n * by_blk_size a1)" using order_to_len_ok[OF a1(2) p(2), of ?n a1] p(4) by simp
        then obtain x y where f: "nvgpu_buddy_balloc_pte oom a len page_size =
            Some (addr, a1\<lparr>by_bytes_alloced := x, by_bytes_alloced_real := y, by_alloc_made := True\<rparr>)"
          using 2 pte False a1(1) nz by (simp add: nvgpu_buddy_balloc_pte_def Let_def)
        have "buddy_inv (a1\<lparr>by_bytes_alloced := x, by_bytes_alloced_real := y, by_alloc_made := True\<rparr>)"
          by (rule buddy_invI[OF i]) (use a1(2,4) r in simp_all)
        then show ?thesis using f p r 2 nz by auto
      qed
    qed
  qed
qed

text \<open>A release counts exactly the bytes of the buddy that starts at the address.\<close>

lemma bfree_exact:
  assumes i: "buddy_inv a" and none: "idx_search addr (by_fixed_allocs a) = None"
    and y: "\<And>p b. by_heap a p = Some b \<Longrightarrow> bd_alloced b \<Longrightarrow> bd_start b = addr \<Longrightarrow> p \<notin> set (fixed_buddies a)"
    and room: "\<And>p b. (p, b) \<in> acts (by_heap a) \<Longrightarrow> bd_start b = addr \<Longrightarrow> by_bytes_freed a + (bd_end b - bd_start b) \<le> U64_MAX"
  shows "\<exists>a'. nvgpu_buddy_bfree a addr = Some a' \<and> buddy_inv a' \<and> settings a' = settings a \<and>
    (if \<exists>p b. (p, b) \<in> acts (by_heap a) \<and> bd_start b = addr
     then \<exists>p b. (p, b) \<in> acts (by_heap a) \<and> bd_start b = addr \<and> by_bytes_freed a' = by_bytes_freed a + (bd_end b - bd_start b)
     else by_bytes_freed a' = by_bytes_freed a) \<and>
    acts (by_heap a') = {(p, b) \<in> acts (by_heap a). bd_start b \<noteq> addr}"
proof -
  have w: "bwf {} (set (fixed_buddies a)) a" "merged {} (by_heap a)" using i by (auto simp: buddy_inv_def)
  have idx: "idx_sorted (by_alloced_buddies a)"
    "\<And>k p. (k, p) \<in> set (by_alloced_buddies a) \<longleftrightarrow> (\<exists>b. by_heap a p = Some b \<and> bd_alloced b \<and> bd_start b = k)"
    using bwfD(7)[OF w(1)] by (auto simp: idx_ok_def)
  show ?thesis
  proof (cases "idx_search addr (by_alloced_buddies a)")
    case None
    have "(addr, p) \<notin> set (by_alloced_buddies a)" for p using None idx_search_iff[OF idx(1), of addr p] by simp
    then have no: "bd_start b \<noteq> addr" if "(p, b) \<in> acts (by_heap a)" for p b using idx(2) that by (auto simp: acts_def)
    then have "acts (by_heap a) = {(p, b) \<in> acts (by_heap a). bd_start b \<noteq> addr}" by auto
    moreover have "nvgpu_buddy_bfree a addr = Some a"
      using none None by (simp add: nvgpu_buddy_bfree_def nvgpu_buddy_bfree_locked_def balloc_free_fixed_def balloc_free_buddy_def)
    moreover have "\<not> (\<exists>p b. (p, b) \<in> acts (by_heap a) \<and> bd_start b = addr)" using no by blast
    ultimately show ?thesis using i by auto
  next
    case (Some p)
    then obtain b where b: "by_heap a p = Some b" "bd_alloced b" "bd_start b = addr"
      using idx_search_iff[OF idx(1), of addr p] idx(2) by auto
    note nd = bwf_node[OF w(1) b(1)]
    obtain a1 a2 where a2: "balloc_free_buddy a (bd_start b) = Some (Some p, a1)" "balloc_blist_add a1 p = Some a2" "bwf {} (set (fixed_buddies a)) a2"
      "rest a2 = rest a" "by_heap a2 = (by_heap a)(p \<mapsto> b\<lparr>bd_alloced := False, bd_in_list := True\<rparr>)"
      "is_free (b\<lparr>bd_alloced := False, bd_in_list := True\<rparr>)"
      "merged (set_option (bd_parent b)) (by_heap a2)" "acts (by_heap a2) = acts (by_heap a) - {(p, b)}"
      using free_give_ok[OF w b(1,2) y[OF b]] by blast
    let ?len = "2 ^ bd_order b * by_blk_size a" and ?b = "b\<lparr>bd_alloced := False, bd_in_list := True\<rparr>"
    have pb: "(p, b) \<in> acts (by_heap a)" "?len = bd_end b - bd_start b" using b(1,2) nd(4) by (simp_all add: acts_def)
    have len: "by_bytes_freed a + ?len \<le> U64_MAX" using room[OF pb(1) b(3)] pb(2) by simp
    have h2: "by_heap a2 p = Some ?b" by (simp add: a2(5))
    have o2l: "balloc_order_to_len a2 (bd_order b) = Some ?len"
      using order_to_len_ok[OF w(1) b(1), of "bd_order b" a2] rest_sel(3)[OF a2(4)] by simp
    have bf: "by_bytes_freed a2 = by_bytes_freed a" by (rule rest_sel(11)[OF a2(4)])
    define a3 where "a3 = a2\<lparr>by_bytes_freed := by_bytes_freed a + ?len\<rparr>"
    have "bwf {} (set (fixed_buddies a)) a3" "by_heap a3 p = Some ?b" "merged (set_option (bd_parent ?b)) (by_heap a3)"
      using a2(3,7) h2 by (simp_all add: a3_def)
    from coalesce_ok[OF this(1,2) a2(6) this(3)] obtain a4 where a4: "balloc_coalesce p a3 = Some a4" "bwf {} (set (fixed_buddies a)) a4" "rest a4 = rest a3"
      "merged {} (by_heap a4)" "acts (by_heap a4) = acts (by_heap a3)" by blast
    have s: "settings a4 = settings a" using rest_settings[OF a4(3)] rest_settings[OF a2(4)] by (simp add: a3_def)
    have uq: "q = p" if "by_heap a q = Some c" "bd_alloced c" "bd_start c = addr" for q c
    proof -
      have "(addr, q) \<in> set (by_alloced_buddies a)" using that idx(2) by blast
      then show ?thesis using Some idx_search_iff[OF idx(1), of addr q] by simp
    qed
    have "(q, c) = (p, b)" if "(q, c) \<in> acts (by_heap a)" "bd_start c = addr" for q c
      using uq[of q c] that b(1) by (auto simp: acts_def)
    then have "acts (by_heap a) - {(p, b)} = {(p, b) \<in> acts (by_heap a). bd_start b \<noteq> addr}" using b(3) by blast
    then have "acts (by_heap a4) = {(p, b) \<in> acts (by_heap a). bd_start b \<noteq> addr}" using a4(5) a2(8) by (simp add: a3_def)
    moreover have "nvgpu_buddy_bfree a addr = Some a4"
    proof -
      have "addr \<noteq> 0" using nd(8) b(3) by simp
      moreover have "by_bytes_freed a2 + ?len \<le> U64_MAX" using bf len by simp
      ultimately show ?thesis using none a2(1,2) h2 o2l a4(1) b(3) bf
        by (simp add: nvgpu_buddy_bfree_def nvgpu_buddy_bfree_locked_def balloc_free_fixed_def safe_simps a3_def)
    qed
    moreover have "by_bytes_freed a4 = by_bytes_freed a + (bd_end b - bd_start b)" using rest_sel(11)[OF a4(3)] pb(2) by (simp add: a3_def)
    ultimately show ?thesis using buddy_invI[OF i a4(2,4) s] s pb(1) b(3) by auto
  qed
qed

lemma bfree_ok:
  assumes i: "buddy_inv a" and none: "idx_search addr (by_fixed_allocs a) = None"
    and y: "\<And>p b. by_heap a p = Some b \<Longrightarrow> bd_alloced b \<Longrightarrow> bd_start b = addr \<Longrightarrow> p \<notin> set (fixed_buddies a)"
    and room: "by_bytes_freed a + (by_end a - by_start a) \<le> U64_MAX"
  shows "\<exists>a'. nvgpu_buddy_bfree a addr = Some a' \<and> buddy_inv a' \<and> settings a' = settings a \<and>
    by_bytes_freed a' \<le> by_bytes_freed a + (by_end a - by_start a) \<and>
    acts (by_heap a') = {(p, b) \<in> acts (by_heap a). bd_start b \<noteq> addr}"
proof -
  have w: "bwf {} (set (fixed_buddies a)) a" using i by (auto simp: buddy_inv_def)
  have l: "bd_end b - bd_start b \<le> by_end a - by_start a" if "(p, b) \<in> acts (by_heap a)" for p b
    using that bwf_node(4-6)[OF w, of p b] by (auto simp: acts_def)
  have "by_bytes_freed a + (bd_end b - bd_start b) \<le> U64_MAX" if "(p, b) \<in> acts (by_heap a)" for p b using l[OF that] room by linarith
  then have "\<exists>a'. nvgpu_buddy_bfree a addr = Some a' \<and> buddy_inv a' \<and> settings a' = settings a \<and>
    (if \<exists>p b. (p, b) \<in> acts (by_heap a) \<and> bd_start b = addr
     then \<exists>p b. (p, b) \<in> acts (by_heap a) \<and> bd_start b = addr \<and> by_bytes_freed a' = by_bytes_freed a + (bd_end b - bd_start b)
     else by_bytes_freed a' = by_bytes_freed a) \<and> acts (by_heap a') = {(p, b) \<in> acts (by_heap a). bd_start b \<noteq> addr}"
    by (intro bfree_exact[OF i none]) (use y in blast)+
  then obtain a' where a': "nvgpu_buddy_bfree a addr = Some a'" "buddy_inv a'" "settings a' = settings a"
    "if \<exists>p b. (p, b) \<in> acts (by_heap a) \<and> bd_start b = addr
     then \<exists>p b. (p, b) \<in> acts (by_heap a) \<and> bd_start b = addr \<and> by_bytes_freed a' = by_bytes_freed a + (bd_end b - bd_start b)
     else by_bytes_freed a' = by_bytes_freed a" "acts (by_heap a') = {(p, b) \<in> acts (by_heap a). bd_start b \<noteq> addr}" by blast
  moreover have "by_bytes_freed a' \<le> by_bytes_freed a + (by_end a - by_start a)" using a'(4) l by (fastforce split: if_splits)
  ultimately show ?thesis by blast
qed

section \<open>The contract of a range allocator\<close>

definition buddy_live :: "nvgpu_buddy_allocator \<Rightarrow> (u64 \<times> u64) set" where
  "buddy_live a = (\<lambda>(p, b). (bd_start b, bd_end b - bd_start b)) ` acts (by_heap a)"

definition buddy_plain :: "nvgpu_buddy_allocator \<Rightarrow> bool" where
  "buddy_plain a \<longleftrightarrow> buddy_inv a \<and> by_fixed_allocs a = []"

definition buddy_limits :: "nvgpu_buddy_allocator \<Rightarrow> u64 \<times> u64" where
  "buddy_limits a = (by_start a, by_end a)"

definition buddy_fits :: "nvgpu_buddy_allocator \<Rightarrow> u64 \<Rightarrow> bool" where
  "buddy_fits a len \<longleftrightarrow> len \<le> U64_MAX"

definition buddy_budget :: "nvgpu_buddy_allocator \<Rightarrow> nat \<Rightarrow> bool" where
  "buddy_budget a k \<longleftrightarrow> by_bytes_freed a + k * (by_end a - by_start a) \<le> U64_MAX"

lemma buddy_live_bounds:
  assumes w: "bwf X Y a" and l: "(k, l) \<in> buddy_live a"
  shows "0 < k \<and> 0 < l \<and> by_start a \<le> k \<and> k + l \<le> by_end a"
proof -
  obtain p b where b: "by_heap a p = Some b" "k = bd_start b" "l = bd_end b - bd_start b" using l by (auto simp: buddy_live_def acts_def)
  then show ?thesis using bwf_node[OF w b(1)] by simp
qed

lemma buddy_live_disjoint:
  assumes w: "bwf X Y a" and l: "(k, l) \<in> buddy_live a" "(k', l') \<in> buddy_live a" "(k, l) \<noteq> (k', l')"
  shows "ranges_disjoint k (k + l) k' (k' + l')"
proof -
  obtain p b where b: "by_heap a p = Some b" "bd_alloced b" "k = bd_start b" "l = bd_end b - bd_start b" using l by (auto simp: buddy_live_def acts_def)
  obtain q c where c: "by_heap a q = Some c" "bd_alloced c" "k' = bd_start c" "l' = bd_end c - bd_start c" using l by (auto simp: buddy_live_def acts_def)
  have "p \<noteq> q" using b c l(3) by auto
  moreover have "\<not> bd_split b" "\<not> bd_split c" using bwfD(6)[OF w b(1)] bwfD(6)[OF w c(1)] b c by auto
  ultimately show ?thesis using bwf_leaf_disjoint[OF w b(1) _ c(1)] bwf_node(9)[OF w b(1)] bwf_node(9)[OF w c(1)] b c
    by (auto simp: ranges_disjoint_def)
qed

interpretation buddy: range_allocator buddy_plain buddy_live buddy_limits buddy_fits buddy_budget nvgpu_buddy_balloc nvgpu_buddy_bfree
proof
  fix a k l
  assume "buddy_plain a" "(k, l) \<in> buddy_live a"
  then show "0 < k \<and> 0 < l \<and> fst (buddy_limits a) \<le> k \<and> k + l \<le> snd (buddy_limits a)"
    using buddy_live_bounds by (auto simp: buddy_plain_def buddy_inv_def buddy_limits_def)
next
  fix a k l k' l'
  assume "buddy_plain a" "(k, l) \<in> buddy_live a" "(k', l') \<in> buddy_live a" "(k, l) \<noteq> (k', l')"
  then show "ranges_disjoint k (k + l) k' (k' + l')" using buddy_live_disjoint by (auto simp: buddy_plain_def buddy_inv_def)
next
  fix a len k and oom :: "nat \<Rightarrow> bool"
  assume a: "buddy_plain a" "buddy_fits a len" "buddy_budget a (Suc k)"
  have i: "buddy_inv a" using a(1) by (simp add: buddy_plain_def)
  obtain addr a' where r: "nvgpu_buddy_balloc oom a len = Some (addr, a')" "buddy_inv a'" "settings a' = settings a" "by_bytes_freed a' = by_bytes_freed a"
    "if addr = 0 then acts (by_heap a') = acts (by_heap a) \<and> (\<not> gva a \<longrightarrow> 0 < len \<longrightarrow> (\<exists>n. oom n) \<or>
       (\<forall>p b. by_heap a p = Some b \<longrightarrow> is_free b \<longrightarrow> bd_order b < balloc_get_order a len))
     else 0 < len \<and> (\<exists>p b. acts (by_heap a') = insert (p, b) (acts (by_heap a)) \<and> by_heap a' p = Some b \<and> bd_start b = addr \<and>
       bd_order b = balloc_get_order a len \<and> p \<notin> fst ` acts (by_heap a) \<and> bd_alloced b)"
    using balloc_pte_ok[OF i, of oom len BALLOC_PTE_SIZE_ANY] unfolding nvgpu_buddy_balloc_def by blast
  note s = settings_sel[OF r(3)]
  have w': "bwf {} (set (fixed_buddies a')) a'" and w: "bwf {} (set (fixed_buddies a)) a" using r(2) a(1) by (auto simp: buddy_plain_def buddy_inv_def)
  have "\<exists>l\<ge>len. (addr, l) \<notin> buddy_live a \<and> buddy_live a' = insert (addr, l) (buddy_live a)" if nz: "addr \<noteq> 0"
  proof -
    obtain p b where b: "acts (by_heap a') = insert (p, b) (acts (by_heap a))" "by_heap a' p = Some b" "bd_start b = addr"
      "bd_order b = balloc_get_order a len" "p \<notin> fst ` acts (by_heap a)" "bd_alloced b" "0 < len" using r(5) nz by auto
    have "len \<le> bd_end b - bd_start b"
      using get_order_ok(1)[OF bwfD(1)[OF w] b(7)] a(2) bwf_node(4)[OF w' b(2)] b(4) s(3) by (simp add: buddy_fits_def)
    moreover have "buddy_live a' = insert (addr, bd_end b - bd_start b) (buddy_live a)" using b(1,3) by (simp add: buddy_live_def)
    moreover have "(addr, bd_end b - bd_start b) \<notin> buddy_live a"
    proof
      assume "(addr, bd_end b - bd_start b) \<in> buddy_live a"
      then obtain q c where c: "(q, c) \<in> acts (by_heap a)" "bd_start c = addr" by (auto simp: buddy_live_def)
      then have h: "by_heap a' q = Some c" "bd_alloced c" using b(1) by (auto simp: acts_def)
      have "q = p" using bwf_leaf_unique[OF w' h(1) _ b(2)] bwfD(6)[OF w' h(1)] bwfD(6)[OF w' b(2)] h(2) b(3,6) c(2) by simp
      then show False using c(1) b(5) by force
    qed
    ultimately show ?thesis by blast
  qed
  moreover have "buddy_live a' = buddy_live a" if "addr = 0" using r(5) that by (simp add: buddy_live_def)
  moreover have "buddy_budget a' k" using a(3) r(4) s by (simp add: buddy_budget_def)
  ultimately show "\<exists>addr a'. nvgpu_buddy_balloc oom a len = Some (addr, a') \<and> buddy_plain a' \<and> buddy_limits a' = buddy_limits a \<and>
      (\<forall>n. buddy_fits a' n = buddy_fits a n) \<and> buddy_budget a' k \<and>
      (if addr = 0 then buddy_live a' = buddy_live a else \<exists>l\<ge>len. (addr, l) \<notin> buddy_live a \<and> buddy_live a' = insert (addr, l) (buddy_live a))"
    using r(1,2) s a(1) by (intro exI[of _ addr] exI[of _ a']) (simp add: buddy_plain_def buddy_limits_def buddy_fits_def)
next
  fix a k addr
  assume a: "buddy_plain a" "buddy_budget a (Suc k)"
  obtain a' where r: "nvgpu_buddy_bfree a addr = Some a'" "buddy_inv a'" "settings a' = settings a"
    "by_bytes_freed a' \<le> by_bytes_freed a + (by_end a - by_start a)" "acts (by_heap a') = {(p, b) \<in> acts (by_heap a). bd_start b \<noteq> addr}"
    using bfree_ok[of a addr] a by (auto simp: buddy_plain_def buddy_budget_def fixed_buddies_def idx_search_def)
  note s = settings_sel[OF r(3)]
  have "buddy_live a' = {p \<in> buddy_live a. fst p \<noteq> addr}" unfolding buddy_live_def r(5) by force
  moreover have "buddy_budget a' k" using a(2) r(4) s by (simp add: buddy_budget_def)
  ultimately show "\<exists>a'. nvgpu_buddy_bfree a addr = Some a' \<and> buddy_plain a' \<and> buddy_limits a' = buddy_limits a \<and>
      (\<forall>n. buddy_fits a' n = buddy_fits a n) \<and> buddy_budget a' k \<and> buddy_live a' = {p \<in> buddy_live a. fst p \<noteq> addr}"
    using r(1,2) s a(1) by (intro exI[of _ a']) (simp add: buddy_plain_def buddy_limits_def buddy_fits_def)
qed

end
