(* ===== verification/Buddy_Destroy.thy ===== *)
theory Buddy_Destroy
  imports Buddy_Properties
begin

text \<open>
  Giving back fixed allocations, and tearing an allocator down: every assertion of the teardown holds and every
  buddy returns to the cache.
\<close>

section \<open>Fixed allocations\<close>

lemma do_rem_ok:
  assumes w: "bwf {} Y a" and p: "by_heap a p = Some b" "p \<in> Y"
  shows "\<exists>a'. balloc_buddy_list_do_rem a p = Some a' \<and> bwf {} (Y - {p}) a' \<and> rest a' = rest a \<and> by_alloced_buddies a' = by_alloced_buddies a \<and>
    by_heap a' = (by_heap a)(p \<mapsto> b\<lparr>bd_in_list := False\<rparr>)"
proof -
  have lk: "linked (nodes is_free (by_heap a) - {}) Y a" by (rule bwfD(3)[OF w])
  have "bd_in_list b" and nl: "\<And>n. p \<notin> set (by_list a n)" and pf: "p \<notin> nodes is_free (by_heap a)" using lk p by (auto simp: linked_def)
  let ?a = "a\<lparr>by_list := (\<lambda>n. removeAll p (by_list a n)), by_heap := (by_heap a)(p \<mapsto> b\<lparr>bd_in_list := False\<rparr>)\<rparr>"
  have l: "(\<lambda>n. removeAll p (by_list a n)) = by_list a" using nl by (simp add: fun_eq_iff removeAll_id)
  have call: "balloc_buddy_list_do_rem a p = Some ?a" using p \<open>bd_in_list b\<close> by (simp add: balloc_buddy_list_do_rem_def upd_bud_def)
  have free: "nodes is_free (by_heap ?a) = nodes is_free (by_heap a)"
    using nodes_same[where h = "by_heap a" and p = p and P = is_free, OF p(1)] by simp
  have "bwf {} (Y - {p}) ?a"
  proof (rule bwf_flag[OF w p(1), of "b\<lparr>bd_in_list := False\<rparr>"])
    show "linked (nodes is_free (by_heap ?a) - {}) (Y - {p}) ?a" unfolding free
    proof (rule linked_cong)
      show "linked (nodes is_free (by_heap a) - {}) (Y - {p}) (a\<lparr>by_heap := (by_heap a)(p \<mapsto> b\<lparr>bd_in_list := False\<rparr>)\<rparr>)"
        using lk p pf unfolding linked_def by (auto simp: nodes_def)
      show "bd_in_list c \<longleftrightarrow> q \<in> nodes is_free (by_heap a) - {} \<or> q \<in> Y - {p}" if "by_heap ?a q = Some c" for q c
        using that lk pf by (cases "q = p") (auto simp: linked_def)
    qed (simp_all add: l)
    show "Y - {p} \<subseteq> nodes bd_alloced (by_heap ?a)" using bwfD(5)[OF w] by (auto simp: nodes_def)
    show "idx_ok ?a" by (rule idx_ok_flag[OF bwfD(7)[OF w] p(1), of _ "b\<lparr>bd_in_list := False\<rparr>"]) simp_all
    show "by_list_alloced ?a n = card (nodes (\<lambda>b. bd_alloced b \<and> bd_order b = n) (by_heap ?a))" for n
      using bwfD(8)[OF w] alloced_flag[OF p(1), of ?a "b\<lparr>bd_in_list := False\<rparr>"] by (simp add: counts_ok_def)
  qed (use bwfD(6)[OF w p(1)] in simp_all)
  then show ?thesis using call by (intro exI[of _ ?a]) simp
qed

definition size_at :: "(nat \<rightharpoonup> nvgpu_buddy) \<Rightarrow> nat \<Rightarrow> nat" where
  "size_at h p = (case h p of Some b \<Rightarrow> bd_end b - bd_start b | None \<Rightarrow> 0)"

lemma acts_in_list:
  assumes "h p = Some b" "bd_alloced b"
  shows "acts (h(p \<mapsto> b\<lparr>bd_in_list := x\<rparr>)) = insert (p, b\<lparr>bd_in_list := x\<rparr>) {e \<in> acts h. fst e \<noteq> p}"
  using assms by (auto simp: acts_def split: if_splits)

text \<open>The buddies of a fixed allocation go back one by one, whether or not they are counted.\<close>

lemma release_ok:
  assumes "bwf {} Y a" "merged {} (by_heap a)" "distinct ps" "set ps \<subseteq> Y"
    and "count \<Longrightarrow> by_bytes_freed a + sum_list (map (size_at (by_heap a)) ps) \<le> U64_MAX"
  shows "\<exists>a'. release_buddies count ps a = Some a' \<and> bwf {} (Y - set ps) a' \<and> merged {} (by_heap a') \<and> settings a' = settings a \<and>
    by_bytes_alloced a' = by_bytes_alloced a \<and> by_bytes_alloced_real a' = by_bytes_alloced_real a \<and>
    by_bytes_freed a' = by_bytes_freed a + (if count then sum_list (map (size_at (by_heap a)) ps) else 0) \<and>
    acts (by_heap a') = {e \<in> acts (by_heap a). fst e \<notin> set ps}"
  using assms
proof (induction ps arbitrary: a Y)
  case Nil
  then show ?case by simp
next
  case (Cons p ps)
  note w = Cons.prems(1) and m = Cons.prems(2)
  obtain b where b: "by_heap a p = Some b" "bd_alloced b" using Cons.prems(4) bwfD(5)[OF w] by (auto simp: nodes_def)
  let ?b = "b\<lparr>bd_in_list := False\<rparr>" and ?len = "bd_end b - bd_start b"
  obtain a1 where a1: "balloc_buddy_list_do_rem a p = Some a1" "bwf {} (Y - {p}) a1" "rest a1 = rest a" "by_heap a1 = (by_heap a)(p \<mapsto> ?b)"
    using do_rem_ok[OF w b(1)] Cons.prems(4) by auto
  have h1: "by_heap a1 p = Some ?b" "bd_alloced ?b" using b by (simp_all add: a1(4))
  have m1: "merged {} (by_heap a1)" unfolding a1(4) using merged_flag[where h = "by_heap a" and p = p, OF m b(1), of ?b] by simp
  let ?c = "?b\<lparr>bd_alloced := False, bd_in_list := True\<rparr>"
  obtain a2 a3 where a3: "balloc_free_buddy a1 (bd_start ?b) = Some (Some p, a2)" "balloc_blist_add a2 p = Some a3" "bwf {} (Y - {p}) a3" "rest a3 = rest a1"
    "by_heap a3 = (by_heap a1)(p \<mapsto> ?c)" "is_free ?c" "merged (set_option (bd_parent ?b)) (by_heap a3)" "acts (by_heap a3) = acts (by_heap a1) - {(p, ?b)}"
    using free_give_ok[OF a1(2) m1 h1] by blast
  have len: "2 ^ bd_order b * by_blk_size a = ?len" using bwf_node(4)[OF w b(1)] by simp
  have r3: "rest a3 = rest a" using a3(4) a1(3) by simp
  define a4 where "a4 = (if count then a3\<lparr>by_bytes_freed := by_bytes_freed a + ?len\<rparr> else a3)"
  have o2l: "balloc_order_to_len a3 (bd_order b) = Some ?len" using order_to_len_ok[OF w b(1), of "bd_order b" a3] rest_sel(3)[OF r3] len by simp
  have add: "nvgpu_safe_add_u64 (by_bytes_freed a3) ?len = Some (by_bytes_freed a + ?len)" if count
    using Cons.prems(5)[OF that] rest_sel(11)[OF r3] b(1) by (simp add: size_at_def safe_simps)
  have h4: "by_heap a4 = by_heap a3" "bwf {} (Y - {p}) a4" "settings a4 = settings a" using a3(3) rest_settings[OF r3] by (simp_all add: a4_def)
  have "by_heap a4 p = Some ?c" "merged (set_option (bd_parent ?c)) (by_heap a4)" using a3(5,7) h4(1) by simp_all
  from coalesce_ok[OF h4(2) this(1) a3(6) this(2)] obtain a5 where a5: "balloc_coalesce p a4 = Some a5" "bwf {} (Y - {p}) a5" "rest a5 = rest a4"
    "merged {} (by_heap a5)" "acts (by_heap a5) = acts (by_heap a4)" by blast
  have acts5: "acts (by_heap a5) = {e \<in> acts (by_heap a). fst e \<noteq> p}"
    using a5(5) a3(8) acts_in_list[where h = "by_heap a" and p = p, OF b] unfolding h4(1) a1(4) by auto
  have sz: "size_at (by_heap a5) q = size_at (by_heap a) q" if "q \<in> set ps" for q
  proof -
    have "q \<in> Y" "q \<noteq> p" using that Cons.prems(3,4) by auto
    then obtain c where c: "by_heap a q = Some c" "bd_alloced c" using bwfD(5)[OF w] by (auto simp: nodes_def)
    then have "(q, c) \<in> acts (by_heap a5)" using \<open>q \<noteq> p\<close> unfolding acts5 by (simp add: acts_def)
    then show ?thesis using c by (simp add: size_at_def acts_def)
  qed
  then have szs: "map (size_at (by_heap a5)) ps = map (size_at (by_heap a)) ps" by simp
  have bf: "by_bytes_freed a5 = by_bytes_freed a + (if count then ?len else 0)"
    using rest_sel(11)[OF a5(3)] rest_sel(11)[OF r3] by (simp add: a4_def)
  have pl: "size_at (by_heap a) p = ?len" using b(1) by (simp add: size_at_def)
  have ds: "distinct ps" and sub: "set ps \<subseteq> Y - {p}" using Cons.prems(3,4) by auto
  have room: "by_bytes_freed a5 + sum_list (map (size_at (by_heap a5)) ps) \<le> U64_MAX" if count
    using Cons.prems(5)[OF that] that unfolding bf szs by (simp add: pl)
  obtain a6 where a6: "release_buddies count ps a5 = Some a6" "bwf {} (Y - {p} - set ps) a6" "merged {} (by_heap a6)" "settings a6 = settings a5"
    "by_bytes_alloced a6 = by_bytes_alloced a5" "by_bytes_alloced_real a6 = by_bytes_alloced_real a5"
    "by_bytes_freed a6 = by_bytes_freed a5 + (if count then sum_list (map (size_at (by_heap a)) ps) else 0)"
    "acts (by_heap a6) = {e \<in> acts (by_heap a5). fst e \<notin> set ps}"
    using Cons.IH[OF a5(2,4) ds sub room] unfolding szs by auto
  have "release_buddies count (p # ps) a = Some a6"
    using a1(1) h1(1) a3(1,2) o2l add a5(1) a6(1) by (cases count) (simp_all add: a4_def)
  moreover have "settings a6 = settings a" using a6(4) rest_settings[OF a5(3)] h4(3) by simp
  moreover have "by_bytes_alloced a6 = by_bytes_alloced a" "by_bytes_alloced_real a6 = by_bytes_alloced_real a"
    using a6(5,6) rest_sel(12,13)[OF a5(3)] rest_sel(12,13)[OF r3] by (simp_all add: a4_def)
  moreover have "Y - {p} - set ps = Y - set (p # ps)" by auto
  moreover have "{e \<in> acts (by_heap a5). fst e \<notin> set ps} = {e \<in> acts (by_heap a). fst e \<notin> set (p # ps)}" using acts5 by auto
  ultimately show ?case using a6(2,3,7,8) bf pl by simp
qed

section \<open>Teardown\<close>

lemma fixed_buddies_upd [simp]: "fixed_buddies (a\<lparr>by_fixed_allocs := xs\<rparr>) = concat (map (fa_buddies \<circ> snd) xs)"
  by (simp add: fixed_buddies_def)

lemma bwf_fixed [simp]: "bwf X Y (a\<lparr>by_fixed_allocs := xs\<rparr>) = bwf X Y a"
  by (simp add: bwf_def cfg_ok_def gcfg_def linked_def idx_ok_def counts_ok_def)

text \<open>Taking one fixed allocation out of the tree and giving its buddies back.\<close>

lemma free_fixed_ok:
  assumes i: "buddy_inv a" and f: "(k, f) \<in> set (by_fixed_allocs a)"
    and room: "by_bytes_freed a + sum_list (map (size_at (by_heap a)) (fa_buddies f)) \<le> U64_MAX"
  shows "\<exists>a'. balloc_do_free_fixed (a\<lparr>by_fixed_allocs := idx_unlink k (by_fixed_allocs a)\<rparr>) f = Some a' \<and> buddy_inv a' \<and>
    by_fixed_allocs a' = idx_unlink k (by_fixed_allocs a) \<and> settings a' = settings (a\<lparr>by_fixed_allocs := idx_unlink k (by_fixed_allocs a)\<rparr>) \<and>
    by_bytes_freed a' = by_bytes_freed a + sum_list (map (size_at (by_heap a)) (fa_buddies f)) \<and>
    acts (by_heap a') = {e \<in> acts (by_heap a). fst e \<notin> set (fa_buddies f)}"
proof -
  let ?a = "a\<lparr>by_fixed_allocs := idx_unlink k (by_fixed_allocs a)\<rparr>" and ?Y = "set (fixed_buddies a)"
  have w: "bwf {} ?Y ?a" "merged {} (by_heap ?a)" and so: "idx_sorted (by_fixed_allocs a)" and d: "distinct (fixed_buddies a)"
    using i by (auto simp: buddy_inv_def)
  obtain ys zs where yz: "by_fixed_allocs a = ys @ (k, f) # zs" using f split_list by fast
  have ne: "fst e \<noteq> k" if "e \<in> set ys \<or> e \<in> set zs" for e using so that unfolding yz idx_sorted_def by (auto simp: sorted_wrt_append)
  then have ul: "idx_unlink k (by_fixed_allocs a) = ys @ zs" unfolding yz idx_unlink_def by (auto intro!: filter_True)
  have fb: "fixed_buddies a = concat (map (fa_buddies \<circ> snd) ys) @ fa_buddies f @ concat (map (fa_buddies \<circ> snd) zs)"
    by (simp add: fixed_buddies_def yz)
  have "distinct (fa_buddies f)" "set (fa_buddies f) \<subseteq> ?Y" using d fb by auto
  then obtain a' where a': "release_buddies True (fa_buddies f) ?a = Some a'" "bwf {} (?Y - set (fa_buddies f)) a'" "merged {} (by_heap a')"
    "settings a' = settings ?a" "by_bytes_freed a' = by_bytes_freed a + sum_list (map (size_at (by_heap a)) (fa_buddies f))"
    "acts (by_heap a') = {e \<in> acts (by_heap a). fst e \<notin> set (fa_buddies f)}"
    using release_ok[OF w, of "fa_buddies f" True] room by auto
  have fx: "by_fixed_allocs a' = ys @ zs" using settings_sel(8)[OF a'(4)] ul by simp
  have "fixed_buddies a' = concat (map (fa_buddies \<circ> snd) ys) @ concat (map (fa_buddies \<circ> snd) zs)" by (simp add: fixed_buddies_def fx)
  then have "set (fixed_buddies a') = ?Y - set (fa_buddies f)" "distinct (fixed_buddies a')" using d unfolding fb by auto
  moreover have "idx_sorted (by_fixed_allocs a')" unfolding fx ul[symmetric] using so by simp
  moreover have "gva a' = gva a" using settings_sel(6)[OF a'(4)] by (simp add: gva_def)
  moreover have "\<forall>(k, f) \<in> set (by_fixed_allocs a'). fa_start f = k" using i unfolding buddy_inv_def fx yz by simp
  ultimately have "buddy_inv a'" using a'(2,3) settings_sel(7)[OF a'(4)] i by (simp add: buddy_inv_def)
  then show ?thesis using a' fx ul by (simp add: balloc_do_free_fixed_def)
qed

lemma destroy_fixed_ok:
  assumes "buddy_inv a" "by_bytes_freed a + sum_list (map (size_at (by_heap a)) (fixed_buddies a)) \<le> U64_MAX"
  shows "\<exists>a'. destroy_fixed a = Some a' \<and> buddy_inv a' \<and> by_fixed_allocs a' = []"
  using assms
proof (induction "length (by_fixed_allocs a)" arbitrary: a)
  case 0
  then show ?case by (simp add: destroy_fixed.simps[of a] idx_enum_start_0)
next
  case (Suc n)
  obtain k f xs where x: "by_fixed_allocs a = (k, f) # xs" using Suc.hyps(2) by (metis length_Suc_conv surj_pair)
  have so: "idx_sorted (by_fixed_allocs a)" using Suc.prems(1) by (simp add: buddy_inv_def)
  have ul: "idx_unlink k (by_fixed_allocs a) = xs" using idx_unlink_head[of k f xs] so unfolding x by simp
  have fb: "fixed_buddies a = fa_buddies f @ concat (map (fa_buddies \<circ> snd) xs)" by (simp add: fixed_buddies_def x)
  have "by_bytes_freed a + sum_list (map (size_at (by_heap a)) (fa_buddies f)) \<le> U64_MAX" using Suc.prems(2) unfolding fb by simp
  then obtain a1 where a1: "balloc_do_free_fixed (a\<lparr>by_fixed_allocs := xs\<rparr>) f = Some a1" "buddy_inv a1" "by_fixed_allocs a1 = xs"
    "by_bytes_freed a1 = by_bytes_freed a + sum_list (map (size_at (by_heap a)) (fa_buddies f))"
    "acts (by_heap a1) = {e \<in> acts (by_heap a). fst e \<notin> set (fa_buddies f)}"
    using free_fixed_ok[OF Suc.prems(1), of k f] ul x by auto
  have fb1: "fixed_buddies a1 = concat (map (fa_buddies \<circ> snd) xs)" by (simp add: fixed_buddies_def a1(3))
  have "size_at (by_heap a1) q = size_at (by_heap a) q" if "q \<in> set (fixed_buddies a1)" for q
  proof -
    have "q \<in> nodes bd_alloced (by_heap a1)" using a1(2) that bwfD(5) unfolding buddy_inv_def by blast
    then obtain c where c: "by_heap a1 q = Some c" "bd_alloced c" by (auto simp: nodes_def)
    then have "(q, c) \<in> acts (by_heap a)" using a1(5) by (auto simp: acts_def)
    then show ?thesis using c(1) by (simp add: size_at_def acts_def)
  qed
  then have e: "map (size_at (by_heap a1)) (fixed_buddies a1) = map (size_at (by_heap a)) (fixed_buddies a1)" by simp
  have "by_bytes_freed a1 + sum_list (map (size_at (by_heap a1)) (fixed_buddies a1)) \<le> U64_MAX"
    using Suc.prems(2) unfolding e[unfolded fb1] a1(4) fb fb1 by (simp only: map_append sum_list_append add.assoc)
  then obtain a2 where "destroy_fixed a1 = Some a2" "buddy_inv a2" "by_fixed_allocs a2 = []"
    using Suc.hyps(1)[of a1] a1(2,3) Suc.hyps(2) x by auto
  then show ?case using a1(1) ul x by (auto simp: destroy_fixed.simps[of a] idx_enum_start_0)
qed

lemma destroy_alloced_ok:
  assumes "bwf {} {} a" "merged {} (by_heap a)"
  shows "\<exists>a'. destroy_alloced a = Some a' \<and> bwf {} {} a' \<and> merged {} (by_heap a') \<and> acts (by_heap a') = {}"
  using assms
proof (induction "length (by_alloced_buddies a)" arbitrary: a rule: less_induct)
  case less
  note w = less.prems(1)
  have idx: "\<And>k p. (k, p) \<in> set (by_alloced_buddies a) \<longleftrightarrow> (\<exists>b. by_heap a p = Some b \<and> bd_alloced b \<and> bd_start b = k)"
    using bwfD(7)[OF w] by (auto simp: idx_ok_def)
  show ?case
  proof (cases "by_alloced_buddies a")
    case Nil
    then have "acts (by_heap a) = {}" using idx by (auto simp: acts_def)
    then show ?thesis using less.prems Nil by (simp add: destroy_alloced.simps[of a] idx_enum_start_0)
  next
    case (Cons x xs)
    obtain k p where x: "x = (k, p)" by fastforce
    then obtain b where b: "by_heap a p = Some b" "bd_alloced b" "bd_start b = k" using idx[of k p] Cons by auto
    let ?b = "b\<lparr>bd_alloced := False, bd_in_list := True\<rparr>"
    obtain a1 a2 where a2: "balloc_free_buddy a (bd_start b) = Some (Some p, a1)" "balloc_blist_add a1 p = Some a2" "bwf {} {} a2"
      "by_alloced_buddies a2 = idx_unlink (bd_start b) (by_alloced_buddies a)" "by_heap a2 = (by_heap a)(p \<mapsto> ?b)" "is_free ?b"
      "merged (set_option (bd_parent b)) (by_heap a2)" using free_give_ok[OF less.prems b(1,2)] by blast
    have "by_heap a2 p = Some ?b" "merged (set_option (bd_parent ?b)) (by_heap a2)" using a2(5,7) by simp_all
    from coalesce_ok[OF a2(3) this(1) a2(6) this(2)] obtain a3 where a3: "balloc_coalesce p a2 = Some a3" "bwf {} {} a3"
      "by_alloced_buddies a3 = by_alloced_buddies a2" "merged {} (by_heap a3)" by blast
    have "length (by_alloced_buddies a3) < length (by_alloced_buddies a)"
      using length_idx_unlink[of k p "by_alloced_buddies a"] a3(3) a2(4) b(3) Cons x by simp
    from less.hyps[OF this a3(2,4)] show ?thesis
      using Cons x b a2(1,2) a3(1) by (auto simp: destroy_alloced.simps[of a] idx_enum_start_0)
  qed
qed

text \<open>With nothing allocated every buddy has been joined.\<close>

lemma no_split:
  assumes w: "bwf X Y a" and m: "merged {} (by_heap a)" and e: "acts (by_heap a) = {}"
  shows "by_heap a p = Some b \<Longrightarrow> \<not> bd_split b"
proof (induction "bd_order b" arbitrary: p b rule: less_induct)
  case less
  show ?case
  proof
    assume s: "bd_split b"
    obtain l r cl cr where k: "bd_left b = Some l" "bd_right b = Some r" "by_heap a l = Some cl" "by_heap a r = Some cr"
      "Suc (bd_order cl) = bd_order b" "Suc (bd_order cr) = bd_order b"
      using forestD(3)[OF bwfD(2)[OF w], of p "core_of b"] less.prems s by (auto simp: kids_ok_def)
    have "\<not> bd_split cl" "\<not> bd_split cr" using less.hyps[OF _ k(3)] less.hyps[OF _ k(4)] k(5,6) by auto
    moreover have "\<not> bd_alloced cl" "\<not> bd_alloced cr" using e k(3,4) by (auto simp: acts_def)
    ultimately have "both_free (by_heap a) p" using less.prems s k by (auto simp: both_free_def is_free_def)
    then show False using m by (simp add: merged_def)
  qed
qed

lemma linked_free:
  assumes "linked L Y a" "p \<notin> L"
  shows "linked L Y (cache_free p a)"
proof (rule linked_cong[OF assms(1)])
  show "\<exists>b'. by_heap (cache_free p a) q = Some b' \<and> bd_order b' = bd_order b" if "q \<in> L" "by_heap a q = Some b" for q b
    using that assms(2) by (auto simp: cache_free_def)
  show "bd_in_list b \<longleftrightarrow> q \<in> L \<or> q \<in> Y" if "by_heap (cache_free p a) q = Some b" for q b
    using that assms(1) by (auto simp: cache_free_def linked_def split: if_splits)
qed (simp_all add: cache_free_def)

text \<open>A buddy of a list returns to the cache.\<close>

lemma rem_free_ok:
  assumes l: "linked L {} a" and d: "dom (by_heap a) = L" and o: "\<forall>p b. by_heap a p = Some b \<longrightarrow> bd_order b \<le> 63" and p: "p \<in> set (by_list a i)"
  shows "\<exists>a1. balloc_blist_rem a p = Some a1 \<and> linked (L - {p}) {} (cache_free p a1) \<and> frame (cache_free p a1) = frame a \<and>
    dom (by_heap (cache_free p a1)) = L - {p} \<and> (\<forall>q b. by_heap (cache_free p a1) q = Some b \<longrightarrow> by_heap a q = Some b) \<and>
    (\<forall>n. by_list (cache_free p a1) n = removeAll p (by_list a n))"
proof -
  obtain b where b: "by_heap a p = Some b" "bd_order b = i" "p \<in> L" using l p by (auto simp: linked_def nodes_def)
  obtain a1 where a1: "balloc_blist_rem a p = Some a1" "frame a1 = frame a" "by_heap a1 = (by_heap a)(p \<mapsto> b\<lparr>bd_in_list := False\<rparr>)" "linked (L - {p}) {} a1"
    using blist_rem_ok[OF l b(3,1)] o b(1) by auto
  have "by_list a1 n = removeAll p (by_list a n)" for n
    using a1(1) b(1) by (auto simp: balloc_blist_rem_def balloc_buddy_list_do_rem_def upd_bud_def in_orders_def split: if_splits)
  then show ?thesis using a1 linked_free[OF a1(4), of p] d by (auto simp: cache_free_def split: if_splits)
qed

lemma destroy_list_ok:
  assumes "linked L {} a" "dom (by_heap a) = L" "\<forall>p b. by_heap a p = Some b \<longrightarrow> bd_order b \<le> 63"
  shows "\<exists>a' L'. destroy_list i a = Some a' \<and> linked L' {} a' \<and> frame a' = frame a \<and> dom (by_heap a') = L' \<and> by_list a' i = [] \<and>
    (\<forall>q b. by_heap a' q = Some b \<longrightarrow> by_heap a q = Some b)"
  using assms
proof (induction "length (by_list a i)" arbitrary: a L rule: less_induct)
  case less
  show ?case
  proof (cases "by_list a i")
    case Nil
    then show ?thesis using less.prems by (auto simp: destroy_list.simps[of i a])
  next
    case (Cons p ps)
    obtain a1 where a1: "balloc_blist_rem a p = Some a1" "linked (L - {p}) {} (cache_free p a1)" "frame (cache_free p a1) = frame a"
      "dom (by_heap (cache_free p a1)) = L - {p}" "\<forall>q b. by_heap (cache_free p a1) q = Some b \<longrightarrow> by_heap a q = Some b"
      "\<forall>n. by_list (cache_free p a1) n = removeAll p (by_list a n)" using rem_free_ok[OF less.prems, of p i] Cons by auto
    have "length (by_list (cache_free p a1) i) < length (by_list a i)" using a1(6) Cons by (simp add: le_imp_less_Suc)
    have o1: "\<forall>q b. by_heap (cache_free p a1) q = Some b \<longrightarrow> bd_order b \<le> 63" using less.prems(3) a1(5) by blast
    from less.hyps[OF \<open>length _ < length _\<close> a1(2,4) o1] obtain a' L' where r: "destroy_list i (cache_free p a1) = Some a'" "linked L' {} a'"
      "frame a' = frame a" "dom (by_heap a') = L'" "by_list a' i = []" "\<forall>q b. by_heap a' q = Some b \<longrightarrow> by_heap (cache_free p a1) q = Some b"
      using a1(3) by auto
    then show ?thesis using Cons a1(1,5) by (auto simp: destroy_list.simps[of i a])
  qed
qed

lemma destroy_lists_ok:
  assumes "linked L {} a" "dom (by_heap a) = L" "\<forall>p b. by_heap a p = Some b \<longrightarrow> bd_order b \<le> 63"
    and "\<And>n. by_list_split a n = 0" "\<And>n. by_list_alloced a n = 0"
  shows "\<exists>a'. destroy_lists is a = Some a' \<and> (\<forall>q b. by_heap a' q = Some b \<longrightarrow> by_heap a q = Some b \<and> bd_order b \<notin> set is)"
  using assms
proof (induction "is" arbitrary: a L)
  case Nil
  then show ?case by simp
next
  case (Cons i "is")
  obtain a1 L1 where a1: "destroy_list i a = Some a1" "linked L1 {} a1" "frame a1 = frame a" "dom (by_heap a1) = L1" "by_list a1 i = []"
    "\<forall>q b. by_heap a1 q = Some b \<longrightarrow> by_heap a q = Some b" using destroy_list_ok[OF Cons.prems(1-3)] by blast
  have c: "by_list_split a1 n = 0" "by_list_alloced a1 n = 0" for n using frame_sel[OF a1(3)] Cons.prems(4,5) by simp_all
  have o: "\<forall>p b. by_heap a1 p = Some b \<longrightarrow> bd_order b \<le> 63" using a1(6) Cons.prems(3) by blast
  obtain a2 where a2: "destroy_lists is a1 = Some a2" "\<forall>q b. by_heap a2 q = Some b \<longrightarrow> by_heap a1 q = Some b \<and> bd_order b \<notin> set is"
    using Cons.IH[OF a1(2,4) o c] by blast
  have ne: "bd_order b \<noteq> i" if "by_heap a1 q = Some b" for q b
  proof -
    have "q \<in> L1" using that a1(4) by auto
    then show ?thesis using that a1(2,5) unfolding linked_def nodes_def by (metis (mono_tags, lifting) empty_iff list.set(1) mem_Collect_eq)
  qed
  have "by_list_len a1 i = 0" using a1(2,5) by (simp add: linked_def)
  then have "destroy_lists (i # is) a = Some a2" using a1(1) a2(1) c Cons.prems(5) by simp
  moreover have "by_heap a q = Some b \<and> bd_order b \<notin> set (i # is)" if "by_heap a2 q = Some b" for q b
    using a2(2) a1(6) ne[of q b] that by auto
  ultimately show ?case by blast
qed

lemma destroy_ok:
  assumes i: "buddy_inv a" and room: "by_bytes_freed a + sum_list (map (size_at (by_heap a)) (fixed_buddies a)) \<le> U64_MAX"
  shows "\<exists>a'. nvgpu_buddy_allocator_destroy a = Some a' \<and> by_heap a' = Map.empty"
proof -
  obtain a1 where a1: "destroy_fixed a = Some a1" "buddy_inv a1" "by_fixed_allocs a1 = []" using destroy_fixed_ok[OF i room] by blast
  then have "bwf {} {} a1" "merged {} (by_heap a1)" by (auto simp: buddy_inv_def fixed_buddies_def)
  then obtain a2 where a2: "destroy_alloced a1 = Some a2" "bwf {} {} a2" "merged {} (by_heap a2)" "acts (by_heap a2) = {}"
    using destroy_alloced_ok by blast
  have ns: "\<not> bd_split b" "\<not> bd_alloced b" if "by_heap a2 p = Some b" for p b
    using no_split[OF a2(2-4) that] a2(4) that by (auto simp: acts_def)
  have "nodes is_free (by_heap a2) = dom (by_heap a2)" using ns by (auto simp: nodes_def is_free_def)
  then have "linked (dom (by_heap a2)) {} a2" using bwfD(3)[OF a2(2)] by simp
  moreover have "nodes (\<lambda>b. bd_split b \<and> bd_order b = n) (by_heap a2) = {}" "nodes (\<lambda>b. bd_alloced b \<and> bd_order b = n) (by_heap a2) = {}" for n
    using ns by (auto simp: nodes_def)
  then have "by_list_split a2 n = 0" "by_list_alloced a2 n = 0" for n using bwfD(8)[OF a2(2)] by (simp_all add: counts_ok_def)
  ultimately obtain a3 where a3: "destroy_lists [0..<GPU_BALLOC_MAX_ORDER + 1] a2 = Some a3"
    "\<forall>q b. by_heap a3 q = Some b \<longrightarrow> by_heap a2 q = Some b \<and> bd_order b \<notin> set [0..<GPU_BALLOC_MAX_ORDER + 1]"
    using destroy_lists_ok[of "dom (by_heap a2)" a2 "[0..<GPU_BALLOC_MAX_ORDER + 1]"] bwf_node(3)[OF a2(2)] by blast
  have "by_heap a3 q = None" for q
  proof (cases "by_heap a3 q")
    case (Some b)
    then have "by_heap a2 q = Some b" "\<not> bd_order b < 64" using a3(2) by auto
    then show ?thesis using bwf_node(3)[OF a2(2), of q b] by simp
  qed
  then have "by_heap a3 = Map.empty" by (simp add: fun_eq_iff)
  then show ?thesis using a1(1) a2(1) a3(1) unfolding nvgpu_buddy_allocator_destroy_def by simp
qed

end
