(* ===== verification/Buddy_Fixed.thy ===== *)
theory Buddy_Fixed
  imports Buddy_Destroy
begin

text \<open>
  Fixed allocations: the requested range is covered with buddies, each the greatest that its address and the rest of
  the range allow; if one can not be had, those taken so far go back.
\<close>

section \<open>Arithmetic of aligned blocks\<close>

lemma round_down_twice: "0 < (A::nat) \<Longrightarrow> (t - t mod A) - (t - t mod A) mod (A * 2) = t - t mod (A * 2)"
proof -
  assume "0 < A"
  let ?u = "t div A"
  have "t - t mod A = A * ?u" "t - t mod (A * 2) = A * 2 * (?u div 2)" by (simp_all add: minus_mod_eq_mult_div div_mult2_eq)
  moreover have "A * ?u mod (A * 2) = A * (?u mod 2)" by (simp add: mult_mod_right[symmetric] mult.commute)
  moreover have "A * ?u - A * (?u mod 2) = A * 2 * (?u div 2)" by (metis diff_mult_distrib2 minus_mod_eq_mult_div mult.assoc)
  ultimately show ?thesis by simp
qed

lemma block_inside:
  assumes "(A::nat) dvd L" "A dvd x - s" "A dvd y - s" "s \<le> y" "y \<le> x" "x < y + L"
  shows "x + A \<le> y + L"
proof -
  have "A dvd (x - s) - (y - s)" using assms(2,3) by (rule dvd_diff_nat)
  moreover have "(x - s) - (y - s) = x - y" using assms(4,5) by simp
  ultimately obtain i where i: "x - y = A * i" by (auto elim: dvdE)
  obtain j where j: "L = A * j" using assms(1) by (auto elim: dvdE)
  have "A * i < A * j" using i j assms(5,6) by linarith
  then have "Suc i \<le> j" by simp
  then have "A * Suc i \<le> A * j" by (rule mult_le_mono2)
  then show ?thesis using i j assms(5) by simp
qed

section \<open>Looking for the buddy that holds an address\<close>

lemma find_start_ok:
  "\<forall>p\<in>set ps. by_heap a p \<noteq> None \<Longrightarrow> \<exists>r. find_start a ps base = Some r \<and> (\<forall>p. r = Some p \<longrightarrow> p \<in> set ps \<and> (\<exists>b. by_heap a p = Some b \<and> bd_start b = base))"
  by (induction ps) auto

lemma parent_range_ok:
  assumes c: "cfg_ok a" and n: "n + by_blk_shift a < 63" and t: "by_start a + t \<le> U64_MAX"
  shows "balloc_get_parent_range a (by_start a + (t - t mod (2 ^ n * by_blk_size a))) n =
    Some (by_start a + (t - t mod (2 ^ Suc n * by_blk_size a)), n + 1)"
proof -
  let ?A = "2 ^ n * by_blk_size a" and ?s = "n + 1 + by_blk_shift a"
  have b: "by_blk_size a = 2 ^ by_blk_shift a" using c by (simp add: cfg_ok_def)
  have w: "by_blk_size a * 2 ^ (n + 1) = 2 ^ ?s" by (simp add: b power_add)
  have "(2::nat) ^ ?s < 2 ^ 64" using n by (intro power_strict_increasing) auto
  then have wr: "wrap64 (by_blk_size a * 2 ^ (n + 1)) = 2 ^ ?s" unfolding w by (simp add: wrap64_def)
  have A: "2 ^ ?s = ?A * 2" by (simp add: b power_add)
  define u v where "u = t - t mod ?A" and "v = t - t mod (?A * 2)"
  have u: "u \<le> U64_MAX" "v \<le> t" using t by (simp_all add: u_def v_def)
  then have m: "and_not64 u (2 ^ ?s - 1) = v"
    using and_not64_mask[OF u(1), of ?s] n round_down_twice[of ?A t] b unfolding A u_def v_def by simp
  have p: "(1::nat) \<le> 2 ^ ?s" by simp
  have "balloc_get_parent_range a (by_start a + u) n = Some (by_start a + v, n + 1)" using n u t m p unfolding balloc_get_parent_range_def Let_def wr
    by (simp add: balloc_base_shift_def balloc_base_unshift_def safe_simps add.commute)
  moreover have "2 ^ Suc n * by_blk_size a = ?A * 2" by simp
  ultimately show ?thesis unfolding u_def v_def by metis
qed

lemma climb_orders_ok:
  assumes w: "bwf {} Y a" and m: "by_max_order a + by_blk_shift a < 63" and t: "by_start a + t < by_end a"
  shows "\<exists>r. climb_orders a (by_start a + (t - t mod (2 ^ n * by_blk_size a))) n pte_size = Some r \<and>
    (\<forall>p. r = Inr (Some p) \<longrightarrow> (\<exists>b. by_heap a p = Some b \<and> is_free b \<and> n \<le> bd_order b \<and> bd_start b \<le> by_start a + t \<and> by_start a + t < bd_end b))"
proof (induction "by_max_order a + 1 - n" arbitrary: n)
  case 0
  then show ?case by (simp add: climb_orders.simps[of a _ n])
next
  case (Suc k)
  have c: "cfg_ok a" by (rule bwfD(1)[OF w])
  have n: "n \<le> by_max_order a" "n \<le> 63" using Suc.hyps(2) c by (auto simp: cfg_ok_def)
  define x y where "x = by_start a + (t - t mod (2 ^ n * by_blk_size a))" and "y = by_start a + (t - t mod (2 ^ Suc n * by_blk_size a))"
  have l: "p \<in> set (by_list a n) \<longleftrightarrow> p \<in> nodes (\<lambda>b. is_free b \<and> bd_order b = n) (by_heap a)" for p
    using bwfD(3)[OF w] by (auto simp: linked_def nodes_def)
  then have "\<forall>p\<in>set (by_list a n). by_heap a p \<noteq> None" by (auto simp: nodes_def)
  then obtain r where r: "find_start a (by_list a n) x = Some r"
    "\<forall>p. r = Some p \<longrightarrow> p \<in> set (by_list a n) \<and> (\<exists>b. by_heap a p = Some b \<and> bd_start b = x)" using find_start_ok by blast
  show ?case
  proof (cases r)
    case None
    have "by_start a + t \<le> U64_MAX" using t c by (simp add: cfg_ok_def)
    then have "balloc_get_parent_range a x n = Some (y, n + 1)"
      using parent_range_ok[OF c, of n t] m n(1) unfolding x_def y_def by linarith
    then have "climb_orders a x n pte_size = climb_orders a y (Suc n) pte_size"
      using n r(1) None by (simp add: climb_orders.simps[of a x n])
    moreover have "k = by_max_order a + 1 - Suc n" using Suc.hyps(2) by simp
    ultimately show ?thesis using Suc.hyps(1)[of "Suc n"] unfolding x_def[symmetric] y_def[symmetric] by (fastforce dest: Suc_leD)
  next
    case (Some p)
    then obtain b where b: "by_heap a p = Some b" "bd_start b = x" "is_free b" "bd_order b = n" using r(2) l[of p] by (auto simp: nodes_def)
    have "0 < 2 ^ n * by_blk_size a" using bwf_node(10)[OF w b(1)] by simp
    then have "t mod (2 ^ n * by_blk_size a) < 2 ^ n * by_blk_size a" "t mod (2 ^ n * by_blk_size a) \<le> t" by simp_all
    then have "bd_start b \<le> by_start a + t" "by_start a + t < bd_end b" using bwf_node(4)[OF w b(1), unfolded b(4)] b(2) unfolding x_def by linarith+
    then show ?thesis using n r(1) Some b unfolding x_def[symmetric] by (auto simp: climb_orders.simps[of a x n])
  qed
qed

text \<open>Splitting down to the buddy at an address.\<close>

lemma target_ok:
  assumes "bwf {} Y a" "by_heap a p = Some b" "is_free b" "merged (set_option (bd_parent b)) (by_heap a)" "order \<le> bd_order b"
    and "bd_start b \<le> base" "base < bd_end b" "2 ^ order * by_blk_size a dvd base - by_start a"
  shows "\<exists>q a'. balloc_get_target_buddy oom base order pte_size p a = Some (q, a') \<and> bwf {} Y a' \<and> rest a' = rest a \<and> acts (by_heap a') = acts (by_heap a) \<and>
    (case q of None \<Rightarrow> merged {} (by_heap a')
     | Some q \<Rightarrow> \<exists>c. by_heap a' q = Some c \<and> is_free c \<and> bd_order c = order \<and> bd_start c = base \<and> merged (set_option (bd_parent c)) (by_heap a'))"
  using assms
proof (induction "bd_order b - order" arbitrary: p b a)
  case 0
  note nd = bwf_node[OF "0.prems"(1,2)]
  have o: "bd_order b = order" using 0 by simp
  have "base + 2 ^ order * by_blk_size a \<le> bd_start b + 2 ^ order * by_blk_size a"
    by (rule block_inside[where s = "by_start a"]) (use nd 0 o in \<open>auto simp: mod_eq_0_iff_dvd\<close>)
  then have "base = bd_start b" using "0.prems"(6) by simp
  then have "balloc_get_target_buddy oom base order pte_size p a = Some (Some p, a)"
    using "0.prems"(2) o by (subst balloc_get_target_buddy.simps) simp
  then show ?case using 0 o \<open>base = bd_start b\<close> by auto
next
  case (Suc n)
  note w = Suc.prems(1) and p = Suc.prems(2,3) and m = Suc.prems(4)
  have o: "0 < bd_order b" "bd_order b \<noteq> order" using Suc.hyps(2) by auto
  let ?mid = "bd_start b + (bd_end b - bd_start b) div 2"
  from split_ok[OF w p o(1), of oom pte_size] consider
    a1 where "balloc_split_buddy oom a p pte_size = Some (Inl ENOMEM, a1)" "bwf {} Y a1" "by_heap a1 = by_heap a" "rest a1 = rest a"
  | a1 l r pte where "balloc_split_buddy oom a p pte_size = Some (Inr (), a1)" "bwf {} Y a1"
      "rest a1 = rest a" "l \<noteq> p" "r \<noteq> p" "l \<noteq> r" "by_heap a l = None" "by_heap a r = None" "by_heap a1 = split_heap p b l r True pte (by_heap a)"
    by auto
  then show ?case
  proof cases
    case 1
    obtain a2 where a2: "balloc_coalesce p a1 = Some a2" "bwf {} Y a2" "rest a2 = rest a1" "merged {} (by_heap a2)" "acts (by_heap a2) = acts (by_heap a1)"
      using coalesce_ok[OF 1(2), of p b] p m 1(3) by auto
    have "balloc_get_target_buddy oom base order pte_size p a = Some (None, a2)"
      using p o 1(1) a2(1) by (simp add: balloc_get_target_buddy.simps[of oom base order pte_size p a])
    then show ?thesis using a2 1 by auto
  next
    case 2
    define q where "q = (if base < ?mid then l else r)"
    define c where "c = (if base < ?mid then half p r (bd_start b) ?mid (bd_order b - 1) True pte else half p l ?mid (bd_end b) (bd_order b - 1) True pte)"
    have h1: "by_heap a1 p = Some (b\<lparr>bd_split := True, bd_left := Some l, bd_right := Some r, bd_in_list := False\<rparr>)"
      "by_heap a1 r = Some (half p l ?mid (bd_end b) (bd_order b - 1) True pte)" "by_heap a1 q = Some c"
      using 2(4-6) by (auto simp: 2(9) split_heap_def q_def c_def)
    have c: "is_free c" "bd_order c = bd_order b - 1" "bd_parent c = Some p" "bd_start c \<le> base" "base < bd_end c"
      using Suc.prems(6,7) by (auto simp: c_def)
    have m1: "merged (set_option (bd_parent c)) (by_heap a1)" using merged_split[OF w m p 2(7,8,4,5,6)] c(3) by (simp add: 2(9))
    have "n = bd_order c - order" "order \<le> bd_order c" using Suc.hyps(2) c(2) by auto
    moreover have "2 ^ order * by_blk_size a1 dvd base - by_start a1" using Suc.prems(8) rest_sel[OF 2(3)] by simp
    ultimately obtain q' a2 where a2: "balloc_get_target_buddy oom base order pte_size q a1 = Some (q', a2)" "bwf {} Y a2"
      "rest a2 = rest a1" "acts (by_heap a2) = acts (by_heap a1)"
      "case q' of None \<Rightarrow> merged {} (by_heap a2) | Some q \<Rightarrow> \<exists>c. by_heap a2 q = Some c \<and> is_free c \<and> bd_order c = order \<and> bd_start c = base \<and>
         merged (set_option (bd_parent c)) (by_heap a2)" using Suc.hyps(1)[OF _ 2(2) h1(3) c(1) m1 _ c(4,5)] by blast
    have "balloc_get_target_buddy oom base order pte_size p a = Some (q', a2)" using p o 2(1) h1(1,2) a2(1)
      by (cases "base < ?mid") (simp_all add: balloc_get_target_buddy.simps[of oom base order pte_size p a] q_def)
    moreover have "acts (by_heap a1) = acts (by_heap a)" unfolding 2(9) by (rule acts_split[OF p 2(7,8,4,5,6)])
    ultimately show ?thesis using a2 2(3) by auto
  qed
qed

lemma make_fixed_ok:
  assumes w: "bwf {} Y a" and m: "merged {} (by_heap a)" and r: "by_max_order a + by_blk_shift a < 63" "by_start a + t < by_end a" "2 ^ order * by_blk_size a dvd t"
  shows "\<exists>q a'. balloc_make_fixed_buddy oom a (by_start a + t) order pte_size = Some (q, a') \<and> bwf {} Y a' \<and> rest a' = rest a \<and>
    acts (by_heap a') = acts (by_heap a) \<and>
    (case q of None \<Rightarrow> merged {} (by_heap a')
     | Some q \<Rightarrow> \<exists>c. by_heap a' q = Some c \<and> is_free c \<and> bd_order c = order \<and> bd_start c = by_start a + t \<and> merged (set_option (bd_parent c)) (by_heap a'))"
proof -
  have t: "t - t mod (2 ^ order * by_blk_size a) = t" using r(3) by (simp add: mod_eq_0_iff_dvd[symmetric])
  obtain res where res: "climb_orders a (by_start a + t) order pte_size = Some res" "\<forall>p. res = Inr (Some p) \<longrightarrow> (\<exists>b. by_heap a p = Some b \<and> is_free b \<and>
      order \<le> bd_order b \<and> bd_start b \<le> by_start a + t \<and> by_start a + t < bd_end b)" using climb_orders_ok[OF w r(1,2), of order pte_size] unfolding t by blast
  show ?thesis
  proof (cases "\<exists>p. res = Inr (Some p)")
    case False
    then have "balloc_make_fixed_buddy oom a (by_start a + t) order pte_size = Some (None, a)"
      using res(1) by (auto simp: balloc_make_fixed_buddy_def split: sum.splits option.splits)
    then show ?thesis using w m by auto
  next
    case True
    then obtain p b where p: "res = Inr (Some p)" "by_heap a p = Some b" "is_free b" "order \<le> bd_order b" "bd_start b \<le> by_start a + t"
      "by_start a + t < bd_end b" using res(2) by blast
    have "merged (set_option (bd_parent b)) (by_heap a)" using m by (auto simp: merged_def)
    moreover have "2 ^ order * by_blk_size a dvd by_start a + t - by_start a" using r(3) by simp
    ultimately show ?thesis using target_ok[OF w p(2,3) _ p(4-6), of oom pte_size] res(1) p(1) unfolding balloc_make_fixed_buddy_def by simp
  qed
qed

section \<open>Covering the range\<close>

text \<open>The buddy enters the list of a fixed allocation.\<close>

lemma do_add_ok:
  assumes w: "bwf {} Y a" and p: "by_heap a p = Some b" "bd_alloced b" "p \<notin> Y"
  shows "\<exists>a' ps'. balloc_buddy_list_do_add a p ps = Some (ps', a') \<and> set ps' = insert p (set ps) \<and> (distinct ps' \<longleftrightarrow> p \<notin> set ps \<and> distinct ps) \<and>
    (\<forall>f::nat \<Rightarrow> nat. sum_list (map f ps') = f p + sum_list (map f ps)) \<and>
    bwf {} (insert p Y) a' \<and> rest a' = rest a \<and> by_heap a' = (by_heap a)(p \<mapsto> b\<lparr>bd_in_list := True\<rparr>)"
proof -
  have lk: "linked (nodes is_free (by_heap a) - {}) Y a" by (rule bwfD(3)[OF w])
  have pf: "p \<notin> nodes is_free (by_heap a)" using p by (auto simp: nodes_def is_free_def)
  then have nb: "\<not> bd_in_list b" using lk p by (auto simp: linked_def)
  let ?a = "a\<lparr>by_heap := (by_heap a)(p \<mapsto> b\<lparr>bd_in_list := True\<rparr>)\<rparr>" and ?ps = "if gva a \<and> bd_pte_size b = BALLOC_PTE_SIZE_BIG then ps @ [p] else p # ps"
  have call: "balloc_buddy_list_do_add a p ps = Some (?ps, ?a)" using p(1) nb by (simp add: balloc_buddy_list_do_add_def upd_bud_def)
  have free: "nodes is_free (by_heap ?a) = nodes is_free (by_heap a)"
    using nodes_same[where h = "by_heap a" and p = p and P = is_free, OF p(1)] by simp
  have "bwf {} (insert p Y) ?a"
  proof (rule bwf_flag[OF w p(1), of "b\<lparr>bd_in_list := True\<rparr>"])
    show "linked (nodes is_free (by_heap ?a) - {}) (insert p Y) ?a" unfolding free using lk pf p(1) unfolding linked_def by (auto simp: nodes_def)
    show "insert p Y \<subseteq> nodes bd_alloced (by_heap ?a)" using bwfD(5)[OF w] p by (auto simp: nodes_def)
    show "idx_ok ?a" by (rule idx_ok_flag[OF bwfD(7)[OF w] p(1), of _ "b\<lparr>bd_in_list := True\<rparr>"]) simp_all
    show "by_list_alloced ?a n = card (nodes (\<lambda>b. bd_alloced b \<and> bd_order b = n) (by_heap ?a))" for n
      using bwfD(8)[OF w] alloced_flag[OF p(1), of ?a "b\<lparr>bd_in_list := True\<rparr>"] by (simp add: counts_ok_def)
  qed (use bwfD(6)[OF w p(1)] p(2) in simp_all)
  then show ?thesis using call by (intro exI[of _ ?a] exI[of _ ?ps]) auto
qed

definition block_at :: "(nat \<rightharpoonup> nvgpu_buddy) \<Rightarrow> nat \<Rightarrow> nat set" where
  "block_at h p = (case h p of Some b \<Rightarrow> {bd_start b..<bd_end b} | None \<Rightarrow> {})"

text \<open>The buddies \<open>ps\<close> taken so far cover the range up to \<open>inc\<close>; \<open>A\<close> are the buddies that were allocated before.\<close>

definition covering :: "nat set \<Rightarrow> (nat \<times> nvgpu_buddy) set \<Rightarrow> u64 \<Rightarrow> u64 \<Rightarrow> nat list \<Rightarrow> nvgpu_buddy_allocator \<Rightarrow> bool" where
  "covering Y A sb inc ps a \<longleftrightarrow> bwf {} (Y \<union> set ps) a \<and> merged {} (by_heap a) \<and> distinct ps \<and> set ps \<inter> Y = {} \<and> sb \<le> inc \<and>
     (\<Union>p\<in>set ps. block_at (by_heap a) p) = {by_start a + sb..<by_start a + inc} \<and> sum_list (map (size_at (by_heap a)) ps) = inc - sb \<and>
     {e \<in> acts (by_heap a). fst e \<notin> set ps} = A"

lemma cover_step:
  assumes cv: "covering Y A sb inc ps a" and r: "by_max_order a + by_blk_shift a < 63" "by_start a + inc < by_end a" "2 ^ order * by_blk_size a dvd inc"
  shows "\<exists>q a1. balloc_make_fixed_buddy oom a (by_start a + inc) order pte_size = Some (q, a1) \<and>
    (case q of None \<Rightarrow> covering Y A sb inc ps a1 \<and> rest a1 = rest a
     | Some p \<Rightarrow> \<exists>a2 a3 ps' a4. balloc_blist_rem a1 p = Some a2 \<and> balloc_alloc_buddy a2 p = Some a3 \<and> balloc_buddy_list_do_add a3 p ps = Some (ps', a4) \<and>
         covering Y A sb (inc + 2 ^ order * by_blk_size a) ps' a4 \<and> rest a4 = rest a)"
proof -
  let ?Y = "Y \<union> set ps"
  have w: "bwf {} ?Y a" "merged {} (by_heap a)" and c: "distinct ps" "set ps \<inter> Y = {}" "sb \<le> inc"
    "(\<Union>p\<in>set ps. block_at (by_heap a) p) = {by_start a + sb..<by_start a + inc}" "sum_list (map (size_at (by_heap a)) ps) = inc - sb"
    "{e \<in> acts (by_heap a). fst e \<notin> set ps} = A" using cv by (auto simp: covering_def)
  obtain q a1 where a1: "balloc_make_fixed_buddy oom a (by_start a + inc) order pte_size = Some (q, a1)" "bwf {} ?Y a1" "rest a1 = rest a"
    "acts (by_heap a1) = acts (by_heap a)"
    "case q of None \<Rightarrow> merged {} (by_heap a1)
     | Some q \<Rightarrow> \<exists>c. by_heap a1 q = Some c \<and> is_free c \<and> bd_order c = order \<and> bd_start c = by_start a + inc \<and> merged (set_option (bd_parent c)) (by_heap a1)"
    using make_fixed_ok[OF w r] by blast
  have same: "by_heap a' p = by_heap a p" if p: "p \<in> set ps" and ac: "acts (by_heap a) \<subseteq> acts (by_heap a')" for a' p
  proof -
    obtain b where b: "by_heap a p = Some b" "bd_alloced b" using bwfD(5)[OF w(1)] p by (auto simp: nodes_def)
    then have "(p, b) \<in> acts (by_heap a')" using ac by (auto simp: acts_def)
    then show ?thesis using b by (simp add: acts_def)
  qed
  have bl: "(\<Union>p\<in>set ps. block_at (by_heap a') p) = {by_start a + sb..<by_start a + inc}" "sum_list (map (size_at (by_heap a')) ps) = inc - sb"
    if "acts (by_heap a) \<subseteq> acts (by_heap a')" for a'
  proof -
    have e: "block_at (by_heap a') p = block_at (by_heap a) p" "size_at (by_heap a') p = size_at (by_heap a) p" if "p \<in> set ps" for p
      using same[OF that \<open>acts _ \<subseteq> _\<close>] by (simp_all add: block_at_def size_at_def)
    show "(\<Union>p\<in>set ps. block_at (by_heap a') p) = {by_start a + sb..<by_start a + inc}" using c(4) e(1) by simp
    have m: "map (size_at (by_heap a')) ps = map (size_at (by_heap a)) ps" using e(2) by simp
    show "sum_list (map (size_at (by_heap a')) ps) = inc - sb" unfolding m by (rule c(5))
  qed
  show ?thesis
  proof (cases q)
    case None
    have "covering Y A sb inc ps a1" using a1(2,4,5) None c bl[of a1] rest_sel(1)[OF a1(3)] by (simp add: covering_def)
    then show ?thesis using a1(1,3) None by auto
  next
    case (Some p)
    then obtain d where d: "by_heap a1 p = Some d" "is_free d" "bd_order d = order" "bd_start d = by_start a + inc" "merged (set_option (bd_parent d)) (by_heap a1)"
      using a1(5) by auto
    let ?d = "d\<lparr>bd_in_list := False, bd_alloced := True\<rparr>" and ?l = "2 ^ order * by_blk_size a"
    obtain a2 a3 where a3: "balloc_blist_rem a1 p = Some a2" "balloc_alloc_buddy a2 p = Some a3" "bwf {} ?Y a3" "rest a3 = rest a1" "merged {} (by_heap a3)"
      "by_heap a3 = (by_heap a1)(p \<mapsto> ?d)" "acts (by_heap a3) = insert (p, ?d) (acts (by_heap a1))" using take_alloc_ok[OF a1(2) d(1,2,5)] by blast
    have pY: "p \<notin> ?Y" using bwfD(5)[OF a1(2)] d(1,2) by (auto simp: nodes_def is_free_def)
    let ?e = "d\<lparr>bd_alloced := True, bd_in_list := True\<rparr>"
    obtain a4 ps' where a4: "balloc_buddy_list_do_add a3 p ps = Some (ps', a4)" "set ps' = insert p (set ps)" "distinct ps' \<longleftrightarrow> p \<notin> set ps \<and> distinct ps"
      "\<forall>f::nat \<Rightarrow> nat. sum_list (map f ps') = f p + sum_list (map f ps)" "bwf {} (insert p ?Y) a4" "rest a4 = rest a3" "by_heap a4 = (by_heap a3)(p \<mapsto> ?e)"
      using do_add_ok[OF a3(3), of p ?d ps] pY by (auto simp: a3(6))
    have h4: "by_heap a4 = (by_heap a1)(p \<mapsto> ?e)" by (simp add: a4(7) a3(6))
    have ac: "acts (by_heap a4) = insert (p, ?e) (acts (by_heap a1))" using d(1,2) by (auto simp: h4 acts_def is_free_def split: if_splits)
    have "e \<in> acts (by_heap a1) \<Longrightarrow> fst e \<noteq> p" for e using d(1,2) by (auto simp: acts_def is_free_def)
    then have pn: "e \<in> acts (by_heap a) \<Longrightarrow> fst e \<noteq> p" for e using a1(4) by blast
    have r4: "rest a4 = rest a" using a4(6) a3(4) a1(3) by simp
    have en: "bd_end d = by_start a + (inc + ?l)" using bwf_node(4)[OF a1(2) d(1)] d(3,4) rest_sel(3)[OF a1(3)] by simp
    have "merged {} (by_heap a4)" unfolding a4(7)
      by (rule merged_flag[where h = "by_heap a3" and p = p and b = ?d]) (use a3(5,6) in \<open>simp_all add: core_of_def is_free_def\<close>)
    moreover have sub: "acts (by_heap a) \<subseteq> acts (by_heap a4)" using ac a1(4) by blast
    have "block_at (by_heap a4) p = {by_start a + inc..<by_start a + (inc + ?l)}" using d(4) en by (simp add: h4 block_at_def)
    then have "(\<Union>q\<in>set ps'. block_at (by_heap a4) q) = {by_start a + inc..<by_start a + (inc + ?l)} \<union> {by_start a + sb..<by_start a + inc}"
      unfolding a4(2) using bl(1)[OF sub] by simp
    then have "(\<Union>q\<in>set ps'. block_at (by_heap a4) q) = {by_start a4 + sb..<by_start a4 + (inc + ?l)}" using c(3) rest_sel(1)[OF r4] by auto
    moreover have "size_at (by_heap a4) p = ?l" using d(4) en by (simp add: h4 size_at_def)
    then have "sum_list (map (size_at (by_heap a4)) ps') = inc + ?l - sb" using bl(2)[OF sub] a4(4) c(3) by simp
    moreover have "{e \<in> acts (by_heap a4). fst e \<notin> set ps'} = A" unfolding ac a1(4) a4(2) c(6)[symmetric] using pn by auto
    moreover have "bwf {} (Y \<union> set ps') a4" using a4(2,5) by (simp add: insert_is_Un[symmetric])
    ultimately have "covering Y A sb (inc + ?l) ps' a4" using pY c(1-3) a4(2,3) unfolding covering_def by auto
    then show ?thesis using a1(1) Some a3(1,2) a4(1) r4 by auto
  qed
qed

text \<open>The order of the next buddy: the alignment of its address, or what is left of the range.\<close>

lemma ffs_order_ok:
  assumes b: "by_blk_size a = 2 ^ by_blk_shift a" and x: "0 < x" "x \<le> U64_MAX" "by_blk_size a dvd x"
  obtains k where "nvgpu_safe_sub_u64 (nvgpu_ffs (x div 2 ^ by_blk_shift a)) 1 = Some k" "2 ^ k * by_blk_size a dvd x" "k \<le> 63"
    "balloc_order_to_len a k = Some (2 ^ k * by_blk_size a)"
proof -
  let ?y = "x div 2 ^ by_blk_shift a"
  have e: "?y * by_blk_size a = x" using x(3) b by simp
  have y: "0 < ?y" using e x(1) by (cases ?y) auto
  have "?y \<le> U64_MAX" using x(2) by (meson div_le_dividend le_trans)
  note f = nvgpu_ffs_correct[OF y this]
  let ?k = "nvgpu_ffs ?y - 1"
  have "2 ^ ?k * by_blk_size a dvd ?y * by_blk_size a" using f(3) by (intro mult_dvd_mono) auto
  then have d: "2 ^ ?k * by_blk_size a dvd x" unfolding e .
  have "2 ^ ?k * by_blk_size a \<le> U64_MAX" using dvd_imp_le[OF d x(1)] x(2) by linarith
  then have "balloc_order_to_len a ?k = Some (2 ^ ?k * by_blk_size a)" using f(2) by (simp add: balloc_order_to_len_def in_orders_def safe_simps)
  then show thesis using that[of ?k] f(1,2) d by (simp add: safe_simps)
qed

lemma next_order_ok:
  assumes b: "by_blk_size a = 2 ^ by_blk_shift a" "by_max_order a \<le> 63" and x: "0 < x" "x \<le> lim" "lim \<le> U64_MAX" "by_blk_size a dvd x" "by_blk_size a dvd lim"
  shows "\<exists>k j. nvgpu_safe_sub_u64 (nvgpu_ffs (x div 2 ^ by_blk_shift a)) 1 = Some k \<and> balloc_order_to_len a k = Some (2 ^ k * by_blk_size a) \<and>
    (if 2 ^ k * by_blk_size a > wsub64 (wrap64 lim) x then Option.bind (nvgpu_safe_add_u64 x (wsub64 (wrap64 lim) x)) (balloc_max_order_in a x) else Some k) = Some j \<and>
    (x < lim \<longrightarrow> 2 ^ j * by_blk_size a dvd x \<and> x + 2 ^ j * by_blk_size a \<le> lim \<and> j \<le> 63)"
proof -
  have "x \<le> U64_MAX" using x by linarith
  obtain k where k: "nvgpu_safe_sub_u64 (nvgpu_ffs (x div 2 ^ by_blk_shift a)) 1 = Some k" "2 ^ k * by_blk_size a dvd x" "k \<le> 63"
    "balloc_order_to_len a k = Some (2 ^ k * by_blk_size a)" by (rule ffs_order_ok[OF b(1) x(1) \<open>x \<le> U64_MAX\<close> x(4)])
  have ws: "wsub64 (wrap64 lim) x = lim - x" using x by simp
  have add: "nvgpu_safe_add_u64 x (lim - x) = Some lim" using x by (simp add: safe_simps)
  show ?thesis
  proof (cases "2 ^ k * by_blk_size a > lim - x")
    case False
    then show ?thesis using k ws by (intro exI[of _ k] conjI) (auto simp: not_less)
  next
    case gt: True
    define s where "s = (lim - x) div by_blk_size a"
    have e: "s * by_blk_size a = lim - x" unfolding s_def using x(4,5) by (simp add: dvd_diff_nat)
    show ?thesis
    proof (cases "s = 0")
      case True
      then have "x = lim" using e x(2) by simp
      moreover have "balloc_max_order_in a x lim = Some GPU_BALLOC_MAX_ORDER" using True x(2) unfolding s_def b(1)
        by (simp add: balloc_max_order_in_def safe_simps Let_def)
      ultimately show ?thesis using k gt ws add by auto
    next
      case False
      have "s \<le> U64_MAX" unfolding s_def using x(3) by (meson diff_le_self div_le_dividend le_trans)
      note f = nvgpu_fls_correct[OF _ this]
      let ?j = "min (nvgpu_fls s - 1) (by_max_order a)"
      have m: "balloc_max_order_in a x lim = Some ?j" using False f(1) x(2) unfolding s_def b(1)
        by (simp add: balloc_max_order_in_def safe_simps Let_def nvgpu_ilog2_def)
      have "2 ^ ?j \<le> (2::nat) ^ (nvgpu_fls s - 1)" by (intro power_increasing) auto
      then have "2 ^ ?j \<le> s" using f(3) False by (meson le_trans neq0_conv)
      then have le: "2 ^ ?j * by_blk_size a \<le> lim - x" unfolding e[symmetric] by (rule mult_le_mono1)
      then have "2 ^ ?j * by_blk_size a < 2 ^ k * by_blk_size a" using gt by linarith
      then have "(2::nat) ^ ?j < 2 ^ k" by simp
      then have "?j < k" by (rule power_less_imp_less_exp[rotated]) simp
      then have "2 ^ ?j * by_blk_size a dvd 2 ^ k * by_blk_size a" by (intro mult_dvd_mono le_imp_power_dvd) auto
      then have "2 ^ ?j * by_blk_size a dvd x" using k(2) by (rule dvd_trans)
      moreover have "x + 2 ^ ?j * by_blk_size a \<le> lim" using le x(2) by linarith
      ultimately show ?thesis using k gt ws add m b(2) by auto
    qed
  qed
qed

lemma fixed_loop_ok:
  assumes "covering Y A sb inc ps a" "inc \<le> sb + len" "by_start a + (sb + len) \<le> by_end a" "by_max_order a + by_blk_shift a < 63"
    and "by_blk_size a dvd inc" "by_blk_size a dvd sb + len"
    and "inc < sb + len \<longrightarrow> 2 ^ order * by_blk_size a dvd inc \<and> inc + 2 ^ order * by_blk_size a \<le> sb + len \<and> order \<le> 63"
  shows "\<exists>ok ps' a' inc'. fixed_loop oom sb len pte_size inc order ps a = Some (ok, ps', a') \<and> covering Y A sb inc' ps' a' \<and> rest a' = rest a \<and>
    (ok \<longrightarrow> inc' = sb + len)"
  using assms
proof (induction "sb + len - inc" arbitrary: inc order ps a rule: less_induct)
  case less
  note cv = less.prems(1)
  have w: "bwf {} (Y \<union> set ps) a" using cv by (simp add: covering_def)
  then have c: "by_blk_size a = 2 ^ by_blk_shift a" "by_max_order a \<le> 63" "by_end a \<le> U64_MAX" using bwfD(1)[OF w] by (auto simp: cfg_ok_def)
  have lim: "nvgpu_safe_add_u64 sb len = Some (sb + len)" "sb + len \<le> U64_MAX" using less.prems(3) c(3) by (simp_all add: safe_simps)
  show ?case
  proof (cases "inc < sb + len")
    case False
    then have "inc = sb + len" using less.prems(2) by simp
    then have "fixed_loop oom sb len pte_size inc order ps a = Some (True, ps, a)" using lim(1) by (subst fixed_loop.simps) simp
    then show ?thesis using cv \<open>inc = _\<close> by blast
  next
    case True
    let ?l = "2 ^ order * by_blk_size a"
    have o: "?l dvd inc" "inc + ?l \<le> sb + len" "order \<le> 63" using less.prems(7) True by auto
    have pos: "0 < ?l" using c(1) by simp
    have o2l: "balloc_order_to_len a order = Some ?l" using o lim(2) by (simp add: balloc_order_to_len_def in_orders_def safe_simps)
    have us: "balloc_base_unshift a inc = Some (by_start a + inc)" using True less.prems(3) c(3) by (simp add: balloc_base_unshift_def safe_simps add.commute)
    have "by_start a + inc < by_end a" using True less.prems(3) by linarith
    from cover_step[OF cv less.prems(4) this o(1), of oom pte_size] obtain q a1 where a1: "balloc_make_fixed_buddy oom a (by_start a + inc) order pte_size = Some (q, a1)"
      "case q of None \<Rightarrow> covering Y A sb inc ps a1 \<and> rest a1 = rest a
       | Some p \<Rightarrow> \<exists>a2 a3 ps' a4. balloc_blist_rem a1 p = Some a2 \<and> balloc_alloc_buddy a2 p = Some a3 \<and> balloc_buddy_list_do_add a3 p ps = Some (ps', a4) \<and>
         covering Y A sb (inc + ?l) ps' a4 \<and> rest a4 = rest a" by blast
    show ?thesis
    proof (cases q)
      case None
      then have "fixed_loop oom sb len pte_size inc order ps a = Some (False, ps, a1)" using True lim(1) o2l us a1(1) by (subst fixed_loop.simps) simp
      then show ?thesis using a1(2) None by auto
    next
      case (Some p)
      then obtain a2 a3 ps' a4 where s: "balloc_blist_rem a1 p = Some a2" "balloc_alloc_buddy a2 p = Some a3" "balloc_buddy_list_do_add a3 p ps = Some (ps', a4)"
        "covering Y A sb (inc + ?l) ps' a4" "rest a4 = rest a" using a1(2) by auto
      note rs = rest_sel[OF s(5)]
      have dv: "by_blk_size a4 dvd inc + ?l" using less.prems(5) rs(3) by simp
      have dl: "by_blk_size a4 dvd sb + len" using less.prems(6) rs(3) by simp
      have c4: "by_blk_size a4 = 2 ^ by_blk_shift a4" "by_max_order a4 \<le> 63" using c(1,2) rs by simp_all
      obtain k j where n: "nvgpu_safe_sub_u64 (nvgpu_ffs ((inc + ?l) div 2 ^ by_blk_shift a4)) 1 = Some k" "balloc_order_to_len a4 k = Some (2 ^ k * by_blk_size a4)"
        "(if 2 ^ k * by_blk_size a4 > wsub64 (wrap64 (sb + len)) (inc + ?l) then Option.bind (nvgpu_safe_add_u64 (inc + ?l) (wsub64 (wrap64 (sb + len)) (inc + ?l)))
           (balloc_max_order_in a4 (inc + ?l)) else Some k) = Some j"
        "inc + ?l < sb + len \<longrightarrow> 2 ^ j * by_blk_size a4 dvd inc + ?l \<and> inc + ?l + 2 ^ j * by_blk_size a4 \<le> sb + len \<and> j \<le> 63"
        using next_order_ok[OF c4 _ o(2) lim(2) dv dl] pos by auto
      have add: "nvgpu_safe_add_u64 inc ?l = Some (inc + ?l)" using o(2) lim(2) by (simp add: safe_simps)
      have run: "fixed_loop oom sb len pte_size inc order ps a = fixed_loop oom sb len pte_size (inc + ?l) j ps' a4"
        using True lim(1) o2l us a1(1) Some s(1-3) add n(1-3) by (subst fixed_loop.simps) simp
      have "sb + len - (inc + ?l) < sb + len - inc" using True pos by linarith
      from less.hyps[OF this s(4) o(2) _ _ dv _ n(4)] less.prems rs run s(5) show ?thesis by simp
    qed
  qed
qed

section \<open>Fixed requests\<close>

lemma do_alloc_fixed_ok:
  assumes w: "bwf {} Y a" "merged {} (by_heap a)" and m: "by_max_order a + by_blk_shift a < 63" and pte: "pte_size \<noteq> BALLOC_PTE_SIZE_INVALID"
    and r: "by_start a \<le> base" "base + len \<le> by_end a" "0 < len" "by_blk_size a dvd base" "by_blk_size a dvd len"
  shows "\<exists>res ps a'. balloc_do_alloc_fixed oom a base len pte_size = Some (res, ps, a') \<and> settings a' = settings a \<and>
    by_bytes_freed a' = by_bytes_freed a \<and> by_bytes_alloced a' = by_bytes_alloced a \<and> by_bytes_alloced_real a' = by_bytes_alloced_real a \<and>
    (if res = 0 then bwf {} Y a' \<and> merged {} (by_heap a') \<and> acts (by_heap a') = acts (by_heap a)
     else res = base \<and> covering Y (acts (by_heap a)) (base - by_start a) (base - by_start a + len) ps a')"
proof -
  have c: "by_blk_size a = 2 ^ by_blk_shift a" "0 < by_start a" "by_end a \<le> U64_MAX" "by_blk_size a dvd by_start a"
    using bwfD(1)[OF w(1)] by (auto simp: cfg_ok_def mod_eq_0_iff_dvd)
  define sb where "sb = base - by_start a"
  have sb: "by_blk_size a dvd sb" "by_start a + sb = base" "sb \<le> U64_MAX" "len \<le> U64_MAX" using r c by (auto simp: sb_def dvd_diff_nat)
  have shift: "balloc_base_shift a base = Some sb" using r(1) by (simp add: balloc_base_shift_def safe_simps sb_def)
  obtain kl where kl: "nvgpu_safe_sub_u64 (nvgpu_ffs (len div 2 ^ by_blk_shift a)) 1 = Some kl" "2 ^ kl * by_blk_size a dvd len" "kl \<le> 63"
    by (rule ffs_order_ok[OF c(1) r(3) sb(4) r(5)])
  obtain k where k: "(if sb = 0 then Some kl else do { o' \<leftarrow> nvgpu_safe_sub_u64 (nvgpu_ffs (sb div 2 ^ by_blk_shift a)) 1; Some (min o' kl) }) = Some k"
    "2 ^ k * by_blk_size a dvd sb" "k \<le> kl"
  proof (cases "sb = 0")
    case True
    then show thesis using that[of kl] by simp
  next
    case False
    then have "0 < sb" by simp
    obtain ks where ks: "nvgpu_safe_sub_u64 (nvgpu_ffs (sb div 2 ^ by_blk_shift a)) 1 = Some ks" "2 ^ ks * by_blk_size a dvd sb" "ks \<le> 63"
      by (rule ffs_order_ok[OF c(1) \<open>0 < sb\<close> sb(3,1)])
    have "2 ^ min ks kl * by_blk_size a dvd 2 ^ ks * by_blk_size a" by (intro mult_dvd_mono le_imp_power_dvd) auto
    then have "2 ^ min ks kl * by_blk_size a dvd sb" using ks(2) by (rule dvd_trans)
    then show thesis using that[of "min ks kl"] ks(1) False by simp
  qed
  have kd: "2 ^ k * by_blk_size a dvd 2 ^ kl * by_blk_size a" using k(3) by (intro mult_dvd_mono le_imp_power_dvd) auto
  then have "2 ^ k * by_blk_size a dvd len" using kl(2) by (rule dvd_trans)
  then have le: "2 ^ k * by_blk_size a \<le> len" using r(3) by (rule dvd_imp_le)
  show ?thesis
  proof (cases "k > by_max_order a")
    case True
    then have "balloc_do_alloc_fixed oom a base len pte_size = Some (0, [], a)" using pte shift kl(1) k(1) by (simp add: balloc_do_alloc_fixed_def)
    then show ?thesis using w by simp
  next
    case False
    have cv: "covering Y (acts (by_heap a)) sb sb [] a" using w by (simp add: covering_def)
    have "by_start a + (sb + len) \<le> by_end a" "by_blk_size a dvd sb + len" using r sb by auto
    moreover have "sb < sb + len \<longrightarrow> 2 ^ k * by_blk_size a dvd sb \<and> sb + 2 ^ k * by_blk_size a \<le> sb + len \<and> k \<le> 63" using k le kl(3) by simp
    ultimately obtain ok ps a1 inc where l: "fixed_loop oom sb len pte_size sb k [] a = Some (ok, ps, a1)" "covering Y (acts (by_heap a)) sb inc ps a1"
      "rest a1 = rest a" "ok \<longrightarrow> inc = sb + len" using fixed_loop_ok[OF cv _ _ m sb(1)] by (metis le_add1)
    note rs = rest_settings[OF l(3)] rest_sel(11-13)[OF l(3)]
    have run: "balloc_do_alloc_fixed oom a base len pte_size =
        (if ok then Some (base, ps, a1) else do { a \<leftarrow> release_buddies False ps a1; Some (0, [], a) })"
      using pte shift kl(1) k(1) False l(1) by (simp add: balloc_do_alloc_fixed_def)
    show ?thesis
    proof (cases ok)
      case True
      moreover have "base \<noteq> 0" using r(1) c(2) by simp
      ultimately show ?thesis using run l(2,4) rs unfolding sb_def by simp
    next
      case nok: False
      have cw: "bwf {} (Y \<union> set ps) a1" "merged {} (by_heap a1)" "distinct ps" "set ps \<inter> Y = {}" "{e \<in> acts (by_heap a1). fst e \<notin> set ps} = acts (by_heap a)"
        using l(2) by (auto simp: covering_def)
      obtain a2 where a2: "release_buddies False ps a1 = Some a2" "bwf {} (Y \<union> set ps - set ps) a2" "merged {} (by_heap a2)" "settings a2 = settings a1"
        "by_bytes_alloced a2 = by_bytes_alloced a1" "by_bytes_alloced_real a2 = by_bytes_alloced_real a1" "by_bytes_freed a2 = by_bytes_freed a1"
        "acts (by_heap a2) = {e \<in> acts (by_heap a1). fst e \<notin> set ps}" using release_ok[OF cw(1-3), of False] by auto
      have "Y \<union> set ps - set ps = Y" using cw(4) by auto
      then show ?thesis using run nok a2 cw(5) rs by simp
    qed
  qed
qed

lemma range_free_total: "\<forall>(k, p)\<in>set xs. by_heap a p \<noteq> None \<Longrightarrow> \<exists>r. range_free_from a xs base en = Some r"
  by (induction xs) auto

lemma sum_lengths_ok:
  assumes "\<forall>p\<in>set ps. \<exists>b. by_heap a p = Some b \<and> bd_start b \<le> bd_end b" "n + sum_list (map (size_at (by_heap a)) ps) \<le> U64_MAX"
  shows "sum_lengths a ps n = Some (n + sum_list (map (size_at (by_heap a)) ps))"
  using assms
proof (induction ps arbitrary: n)
  case (Cons p ps)
  then obtain b where b: "by_heap a p = Some b" "bd_start b \<le> bd_end b" by auto
  then have "size_at (by_heap a) p = bd_end b - bd_start b" by (simp add: size_at_def)
  then show ?case using Cons b by (simp add: safe_simps add.assoc)
qed simp

lemma idx_insert_split: "idx_search k xs = None \<Longrightarrow> \<exists>ys zs. xs = ys @ zs \<and> idx_insert k v xs = ys @ (k, v) # zs"
proof (induction k v xs rule: idx_insert.induct)
  case (2 k v k' v' xs)
  then show ?case
  proof (cases "k > k'")
    case True
    then obtain ys zs where "xs = ys @ zs" "idx_insert k v xs = ys @ (k, v) # zs" using 2 by (auto simp: idx_search_def split: if_splits)
    then show ?thesis using True by (intro exI[of _ "(k', v') # ys"] exI[of _ zs]) simp
  next
    case False
    then have "k < k'" using "2.prems" by (auto simp: idx_search_def split: if_splits)
    then show ?thesis by (intro exI[of _ "[]"] exI[of _ "(k', v') # xs"]) simp
  qed
qed simp

text \<open>The addresses of the allocated buddies, and what the tree of fixed allocations says of its entries.\<close>

definition held :: "nvgpu_buddy_allocator \<Rightarrow> nat set" where
  "held a = (\<Union>(p, b)\<in>acts (by_heap a). {bd_start b..<bd_end b})"

definition fixed_ok :: "nvgpu_buddy_allocator \<Rightarrow> bool" where
  "fixed_ok a \<longleftrightarrow> (\<forall>(k, f)\<in>set (by_fixed_allocs a). fa_start f < fa_end f \<and> (\<Union>p\<in>set (fa_buddies f). block_at (by_heap a) p) = {fa_start f..<fa_end f})"

lemma covering_held:
  assumes cv: "covering Y A sb inc ps a"
  shows "held a = (\<Union>(p, b)\<in>A. {bd_start b..<bd_end b}) \<union> {by_start a + sb..<by_start a + inc}"
    "(\<Union>(p, b)\<in>A. {bd_start b..<bd_end b}) \<inter> {by_start a + sb..<by_start a + inc} = {}"
proof -
  have w: "bwf {} (Y \<union> set ps) a" and A: "{e \<in> acts (by_heap a). fst e \<notin> set ps} = A" and u: "(\<Union>p\<in>set ps. block_at (by_heap a) p) = {by_start a + sb..<by_start a + inc}"
    using cv by (auto simp: covering_def)
  have ps: "\<exists>b. by_heap a p = Some b \<and> bd_alloced b \<and> block_at (by_heap a) p = {bd_start b..<bd_end b}" if "p \<in> set ps" for p
    using bwfD(5)[OF w] that by (auto simp: nodes_def block_at_def)
  have "held a = (\<Union>(p, b)\<in>A. {bd_start b..<bd_end b}) \<union> (\<Union>p\<in>set ps. block_at (by_heap a) p)"
  proof (rule set_eqI)
    fix x
    have "x \<in> held a \<longleftrightarrow> (\<exists>p b. (p, b) \<in> acts (by_heap a) \<and> bd_start b \<le> x \<and> x < bd_end b)" by (fastforce simp: held_def)
    also have "\<dots> \<longleftrightarrow> (\<exists>p b. (p, b) \<in> A \<and> bd_start b \<le> x \<and> x < bd_end b) \<or> (\<exists>p b. p \<in> set ps \<and> (p, b) \<in> acts (by_heap a) \<and> bd_start b \<le> x \<and> x < bd_end b)"
      unfolding A[symmetric] by auto
    also have "(\<exists>p b. p \<in> set ps \<and> (p, b) \<in> acts (by_heap a) \<and> bd_start b \<le> x \<and> x < bd_end b) \<longleftrightarrow> x \<in> (\<Union>p\<in>set ps. block_at (by_heap a) p)"
      using ps by (fastforce simp: acts_def block_at_def)
    also have "(\<exists>p b. (p, b) \<in> A \<and> bd_start b \<le> x \<and> x < bd_end b) \<longleftrightarrow> x \<in> (\<Union>(p, b)\<in>A. {bd_start b..<bd_end b})" by fastforce
    finally show "x \<in> held a \<longleftrightarrow> x \<in> (\<Union>(p, b)\<in>A. {bd_start b..<bd_end b}) \<union> (\<Union>p\<in>set ps. block_at (by_heap a) p)" by blast
  qed
  then show "held a = (\<Union>(p, b)\<in>A. {bd_start b..<bd_end b}) \<union> {by_start a + sb..<by_start a + inc}" unfolding u .
  have "{bd_start b..<bd_end b} \<inter> block_at (by_heap a) q = {}" if p: "(p, b) \<in> A" and q: "q \<in> set ps" for p b q
  proof -
    obtain c where c: "by_heap a q = Some c" "bd_alloced c" "block_at (by_heap a) q = {bd_start c..<bd_end c}" using ps[OF q] by blast
    have b: "by_heap a p = Some b" "bd_alloced b" "p \<noteq> q" using p q unfolding A[symmetric] by (auto simp: acts_def)
    have "bd_end b \<le> bd_start c \<or> bd_end c \<le> bd_start b"
      using bwf_leaf_disjoint[OF w b(1) _ c(1)] bwfD(6)[OF w b(1)] bwfD(6)[OF w c(1)] b c by auto
    then show ?thesis using c(3) by auto
  qed
  then show "(\<Union>(p, b)\<in>A. {bd_start b..<bd_end b}) \<inter> {by_start a + sb..<by_start a + inc} = {}" unfolding u[symmetric] by blast
qed

lemma fixed_ok_mono:
  assumes w: "bwf {} (set (fixed_buddies a)) a" and f: "fixed_ok a" and s: "acts (by_heap a) \<subseteq> acts (by_heap a')" "by_fixed_allocs a' = by_fixed_allocs a"
  shows "fixed_ok a'"
proof -
  have "block_at (by_heap a') p = block_at (by_heap a) p" if "(k, f) \<in> set (by_fixed_allocs a)" "p \<in> set (fa_buddies f)" for k f p
  proof -
    have "p \<in> set (fixed_buddies a)" using that by (force simp: fixed_buddies_def)
    then obtain b where b: "by_heap a p = Some b" "bd_alloced b" using bwfD(5)[OF w] by (auto simp: nodes_def)
    then have "(p, b) \<in> acts (by_heap a')" using s(1) by (auto simp: acts_def)
    then show ?thesis using b by (simp add: acts_def block_at_def)
  qed
  then have "(\<Union>p\<in>set (fa_buddies f). block_at (by_heap a') p) = (\<Union>p\<in>set (fa_buddies f). block_at (by_heap a) p)" if "(k, f) \<in> set (by_fixed_allocs a)" for k f
    using that by (intro SUP_cong) auto
  then show ?thesis using f s(2) by (fastforce simp: fixed_ok_def)
qed

text \<open>A fixed request either takes exactly the range it names or changes nothing.\<close>

lemma fixed_locked_ok:
  assumes i: "buddy_inv a" "fixed_ok a" and m: "by_max_order a + by_blk_shift a < 63" and r: "base + len \<le> U64_MAX" "by_blk_size a dvd len"
    and room: "by_bytes_alloced a + len \<le> U64_MAX" "by_bytes_alloced_real a + len \<le> U64_MAX"
  shows "\<exists>res a'. nvgpu_balloc_fixed_buddy_locked kmalloc_ok oom a base len page_size = Some (res, a') \<and> buddy_inv a' \<and> fixed_ok a' \<and>
    by_bytes_freed a' = by_bytes_freed a \<and> by_start a' = by_start a \<and> by_end a' = by_end a \<and> by_co_list a' = by_co_list a \<and>
    (if res = 0 then acts (by_heap a') = acts (by_heap a) \<and> by_fixed_allocs a' = by_fixed_allocs a
     else res = base \<and> 0 < len \<and> by_start a \<le> base \<and> base + len \<le> by_end a \<and> held a \<inter> {base..<base + len} = {} \<and> held a' = held a \<union> {base..<base + len} \<and>
       (\<exists>f. idx_search base (by_fixed_allocs a) = None \<and> by_fixed_allocs a' = idx_insert base f (by_fixed_allocs a) \<and> fa_start f = base \<and> fa_end f = base + len \<and>
         sum_list (map (size_at (by_heap a')) (fa_buddies f)) = len \<and> {e \<in> acts (by_heap a'). fst e \<notin> set (fa_buddies f)} = acts (by_heap a)))"
proof -
  let ?Y = "set (fixed_buddies a)" and ?run = "nvgpu_balloc_fixed_buddy_locked kmalloc_ok oom a base len page_size"
  have w: "bwf {} ?Y a" "merged {} (by_heap a)" using i by (auto simp: buddy_inv_def)
  have c: "cfg_ok a" by (rule bwfD(1)[OF w(1)])
  then have b: "by_blk_size a = 2 ^ by_blk_shift a" "0 < by_blk_size a" by (auto simp: cfg_ok_def)
  have keep: ?thesis if "?run = Some (0, a)" using that i by simp
  obtain pte where pte: "nvgpu_balloc_page_size_to_pte_size a page_size = Some pte"
    using i by (cases "gva a") (auto simp: nvgpu_balloc_page_size_to_pte_size_def buddy_inv_def)
  have "\<forall>(k, p)\<in>set (by_alloced_buddies a). by_heap a p \<noteq> None" using bwfD(7)[OF w(1)] by (auto simp: idx_ok_def)
  then obtain rf where rf: "balloc_is_range_free a base (wrap64 (base + len)) = Some rf" using range_free_total unfolding balloc_is_range_free_def by blast
  have add: "nvgpu_safe_add_u64 base len = Some (base + len)" "wrap64 (base + len) = base + len" using r(1) by (simp_all add: safe_simps)
  have al: "base AND (by_blk_size a - Suc 0) = base mod by_blk_size a" unfolding b(1) using and_mask_nat[of base "by_blk_shift a"] by simp
  note rf = rf[unfolded add(2)]
  show ?thesis
  proof (cases "base mod by_blk_size a \<noteq> 0 \<or> len = 0 \<or> base < by_start a \<or> by_end a < base + len \<or> pte = BALLOC_PTE_SIZE_INVALID \<or> \<not> kmalloc_ok \<or> \<not> rf")
    case True
    then show ?thesis by (intro keep) (auto simp: nvgpu_balloc_fixed_buddy_locked_def b(2) al add pte rf)
  next
    case False
    then have g: "by_start a \<le> base" "base + len \<le> by_end a" "0 < len" "by_blk_size a dvd base" "pte \<noteq> BALLOC_PTE_SIZE_INVALID" by (auto simp: mod_eq_0_iff_dvd)
    obtain res ps a1 where l: "balloc_do_alloc_fixed oom a base len pte = Some (res, ps, a1)" "settings a1 = settings a"
      "by_bytes_freed a1 = by_bytes_freed a" "by_bytes_alloced a1 = by_bytes_alloced a" "by_bytes_alloced_real a1 = by_bytes_alloced_real a"
      "if res = 0 then bwf {} ?Y a1 \<and> merged {} (by_heap a1) \<and> acts (by_heap a1) = acts (by_heap a)
       else res = base \<and> covering ?Y (acts (by_heap a)) (base - by_start a) (base - by_start a + len) ps a1"
      using do_alloc_fixed_ok[OF w m g(5,1-4) r(2)] by blast
    note ss = settings_sel[OF l(2)]
    have run: "?run = (if res = 0 then Some (0, a1) else do {
        let a = balloc_alloc_fixed a1 \<lparr>fa_buddies = ps, fa_start = base, fa_end = base + len\<rparr>;
        real_bytes \<leftarrow> sum_lengths a ps 0;
        n \<leftarrow> nvgpu_safe_add_u64 (by_bytes_alloced a) len;
        m \<leftarrow> nvgpu_safe_add_u64 (by_bytes_alloced_real a) real_bytes;
        Some (base, a\<lparr>by_bytes_alloced := n, by_bytes_alloced_real := m\<rparr>) })"
      using False by (auto simp: nvgpu_balloc_fixed_buddy_locked_def b(2) al add pte rf l(1))
    show ?thesis
    proof (cases "res = 0")
      case True
      then have a1: "bwf {} ?Y a1" "merged {} (by_heap a1)" "acts (by_heap a1) = acts (by_heap a)" using l(6) by auto
      have "buddy_inv a1" by (rule buddy_invI[OF i(1) a1(1,2) l(2)])
      moreover have "fixed_ok a1" using fixed_ok_mono[OF w(1) i(2)] a1(3) ss(8) by simp
      ultimately show ?thesis using run True a1(3) ss l(3) by simp
    next
      case nz: False
      then have cv: "covering ?Y (acts (by_heap a)) (base - by_start a) (base - by_start a + len) ps a1" and rb: "res = base" using l(6) by auto
      define f where "f = \<lparr>fa_buddies = ps, fa_start = base, fa_end = base + len\<rparr>"
      define a2 where "a2 = a1\<lparr>by_fixed_allocs := idx_insert base f (by_fixed_allocs a), by_bytes_alloced := by_bytes_alloced a + len,
        by_bytes_alloced_real := by_bytes_alloced_real a + len\<rparr>"
      have rng: "by_start a1 + (base - by_start a) = base" "by_start a1 + (base - by_start a + len) = base + len" using ss(1) g(1) by simp_all
      have h: "held a1 = held a \<union> {base..<base + len}" "held a \<inter> {base..<base + len} = {}"
        using covering_held[OF cv] unfolding rng by (simp_all add: held_def)
      have cw: "bwf {} (?Y \<union> set ps) a1" "merged {} (by_heap a1)" "distinct ps" "set ps \<inter> ?Y = {}" "(\<Union>p\<in>set ps. block_at (by_heap a1) p) = {base..<base + len}"
        "sum_list (map (size_at (by_heap a1)) ps) = len" "{e \<in> acts (by_heap a1). fst e \<notin> set ps} = acts (by_heap a)"
        using cv unfolding covering_def rng by auto
      have none: "idx_search base (by_fixed_allocs a) = None"
      proof (rule ccontr)
        assume "idx_search base (by_fixed_allocs a) \<noteq> None"
        then obtain g where g: "(base, g) \<in> set (by_fixed_allocs a)" using idx_search_in by fastforce
        then have "fa_start g = base" "fa_start g < fa_end g" "(\<Union>p\<in>set (fa_buddies g). block_at (by_heap a) p) = {fa_start g..<fa_end g}"
          using i unfolding fixed_ok_def buddy_inv_def by blast+
        then have "base \<in> (\<Union>p\<in>set (fa_buddies g). block_at (by_heap a) p)" by simp
        then obtain p where p: "p \<in> set (fa_buddies g)" "base \<in> block_at (by_heap a) p" by auto
        then have "p \<in> ?Y" using g by (force simp: fixed_buddies_def)
        then have "base \<in> held a" using bwfD(5)[OF w(1)] p(2) by (fastforce simp: nodes_def held_def acts_def block_at_def)
        then show False using h(2) \<open>0 < len\<close> by auto
      qed
      have "balloc_alloc_fixed a1 f = a1\<lparr>by_fixed_allocs := idx_insert base f (by_fixed_allocs a)\<rparr>" by (simp add: balloc_alloc_fixed_def f_def ss(8))
      moreover have "\<forall>p\<in>set ps. \<exists>b. by_heap a1 p = Some b \<and> bd_start b \<le> bd_end b"
      proof
        fix p
        assume "p \<in> set ps"
        then obtain b where "by_heap a1 p = Some b" using bwfD(5)[OF cw(1)] by (auto simp: nodes_def)
        then show "\<exists>b. by_heap a1 p = Some b \<and> bd_start b \<le> bd_end b" using bwf_node(9)[OF cw(1)] less_imp_le by blast
      qed
      then have "sum_lengths (a1\<lparr>by_fixed_allocs := xs\<rparr>) ps 0 = Some len" for xs
        using sum_lengths_ok[of ps "a1\<lparr>by_fixed_allocs := xs\<rparr>" 0] cw(6) r(1) by simp
      ultimately have run2: "?run = Some (base, a2)" using run nz room l(4,5) unfolding f_def[symmetric] by (simp add: a2_def safe_simps Let_def)
      obtain ys zs where yz: "by_fixed_allocs a = ys @ zs" "idx_insert base f (by_fixed_allocs a) = ys @ (base, f) # zs" using idx_insert_split[OF none] by blast
      have fs: "fa_buddies f = ps" "fa_start f = base" "fa_end f = base + len" by (simp_all add: f_def)
      have s2: "set (by_fixed_allocs a2) = insert (base, f) (set (by_fixed_allocs a))" by (simp add: a2_def set_idx_insert_new[OF none])
      have fb: "fixed_buddies a2 = concat (map (fa_buddies \<circ> snd) ys) @ ps @ concat (map (fa_buddies \<circ> snd) zs)" by (simp add: fixed_buddies_def a2_def yz(2) fs)
      have fa: "fixed_buddies a = concat (map (fa_buddies \<circ> snd) ys) @ concat (map (fa_buddies \<circ> snd) zs)" by (simp add: fixed_buddies_def yz(1))
      have Y2: "set (fixed_buddies a2) = ?Y \<union> set ps" unfolding fa fb by auto
      have "distinct (fixed_buddies a)" using i(1) by (simp add: buddy_inv_def)
      then have "distinct (fixed_buddies a2)" using cw(3,4) unfolding fa fb by auto
      moreover have "idx_sorted (by_fixed_allocs a2)" using i(1) by (simp add: a2_def buddy_inv_def)
      moreover have "gva a2 = gva a" "by_vm a2 = by_vm a" using ss by (simp_all add: a2_def gva_def)
      moreover have "\<forall>(k, f)\<in>set (by_fixed_allocs a2). fa_start f = k" using i(1) fs unfolding s2 by (simp add: buddy_inv_def)
      moreover have "bwf {} (?Y \<union> set ps) a2" using cw(1) by (simp add: a2_def)
      ultimately have inv: "buddy_inv a2" using i(1) cw(2) Y2 by (simp add: buddy_inv_def a2_def)
      have "acts (by_heap a) \<subseteq> acts (by_heap a1)" using cw(7) by blast
      then have "fixed_ok (a1\<lparr>by_fixed_allocs := by_fixed_allocs a\<rparr>)" using fixed_ok_mono[OF w(1) i(2)] by simp
      then have fo: "fixed_ok a2" using cw(5) \<open>0 < len\<close> fs unfolding fixed_ok_def s2 by (simp add: a2_def)
      have hd: "held a2 = held a \<union> {base..<base + len}" using h(1) by (simp add: held_def a2_def)
      have ex: "\<exists>f. idx_search base (by_fixed_allocs a) = None \<and> by_fixed_allocs a2 = idx_insert base f (by_fixed_allocs a) \<and> fa_start f = base \<and> fa_end f = base + len \<and>
         sum_list (map (size_at (by_heap a2)) (fa_buddies f)) = len \<and> {e \<in> acts (by_heap a2). fst e \<notin> set (fa_buddies f)} = acts (by_heap a)"
        by (intro exI[of _ f] conjI) (simp_all add: none fs cw(6,7) a2_def)
      have fl: "by_bytes_freed a2 = by_bytes_freed a" "by_start a2 = by_start a" "by_end a2 = by_end a" "by_co_list a2 = by_co_list a"
        by (simp_all add: a2_def l(3) ss)
      have nz: "base \<noteq> 0" using nz rb by simp
      show ?thesis using run2 inv fo h(2) hd ex fl nz g(1-3) by (intro exI[of _ base] exI[of _ a2]) simp
    qed
  qed
qed

end
