(* ===== verification/Buddy_Setup.thy ===== *)
theory Buddy_Setup
  imports Buddy_Destroy
begin

text \<open>
  Setting an allocator up: the range is rounded to blocks and covered with the greatest buddies that fit, from its
  start on.
\<close>

section \<open>Covering the range\<close>

lemma forest_empty: "0 < g_blk G \<Longrightarrow> g_end G \<le> g_start G \<Longrightarrow> forest G n Map.empty"
  by (simp add: forest_def)

definition root_core :: "nat \<Rightarrow> nat \<Rightarrow> nat \<Rightarrow> bcore" where
  "root_core st en ord = \<lparr>c_parent = None, c_buddy = None, c_left = None, c_right = None, c_split = False, c_start = st, c_end = en, c_order = ord\<rparr>"

lemma forest_root:
  assumes f: "forest G n h" and x: "g_start G \<le> g_end G" "(g_end G - g_start G) mod (2 ^ k * g_blk G) = 0" "k \<le> g_max G"
    and e: "e = g_end G + 2 ^ k * g_blk G"
  shows "forest (G\<lparr>g_end := e\<rparr>) (Suc n) (h(n \<mapsto> root_core (g_end G) e k))"
proof -
  let ?h = "h(n \<mapsto> root_core (g_end G) e k)" and ?G = "G\<lparr>g_end := e\<rparr>"
  have b: "0 < g_blk G" using f by (simp add: forest_def)
  have fresh: "h n = None" using forestD(1)[OF f, of n] by (cases "h n") (auto simp: core_ok_def)
  have nodes: "core_ok ?G (Suc n) p c \<and> par_ok ?h p c \<and> (c_split c \<longrightarrow> kids_ok ?h p c)" if c: "?h p = Some c" for p c
  proof (cases "p = n")
    case True
    then show ?thesis using c x e by (auto simp: core_ok_def par_ok_def root_core_def)
  next
    case False
    then have hp: "h p = Some c" using c by simp
    have "core_ok ?G (Suc n) p c" using forestD(1)[OF f hp] e by (auto simp: core_ok_def)
    moreover have "par_ok ?h p c" using forestD(2)[OF f hp] fresh by (auto simp: par_ok_def split: option.splits)
    moreover have "kids_ok ?h p c" if "c_split c" using forestD(3)[OF f hp that] fresh unfolding kids_ok_def by fastforce
    ultimately show ?thesis by blast
  qed
  have tile: "\<exists>!p. leaf_at ?h y p" if y: "g_start ?G \<le> y" "y < g_end ?G" for y
  proof (cases "y < g_end G")
    case True
    then have "leaf_at ?h y p = leaf_at h y p" for p using fresh by (auto simp: leaf_at_def root_core_def)
    then show ?thesis using forest_tile[OF f, of y] y True by simp
  next
    case False
    then have "\<not> leaf_at h y p" for p using forestD(1)[OF f, of p] by (fastforce simp: leaf_at_def core_ok_def)
    then show ?thesis using False y by (intro ex1I[of _ n]) (auto simp: leaf_at_def root_core_def split: if_splits)
  qed
  show ?thesis
  proof (rule forestI)
    show "0 < g_blk ?G" using b by simp
    show "core_ok ?G (Suc n) p c \<and> par_ok ?h p c \<and> (c_split c \<longrightarrow> kids_ok ?h p c)" if "?h p = Some c" for p c by (rule nodes[OF that])
    show "\<exists>!p. leaf_at ?h y p" if "g_start ?G \<le> y" "y < g_end ?G" for y by (rule tile[OF that])
  qed
qed

text \<open>The state while the part of the range before \<open>x\<close> is covered with free buddies.\<close>

definition init_inv :: "nat \<Rightarrow> nvgpu_buddy_allocator \<Rightarrow> bool" where
  "init_inv x a \<longleftrightarrow> cfg_ok a \<and> by_start a \<le> x \<and> x \<le> by_end a \<and> forest ((gcfg a)\<lparr>g_end := x\<rparr>) (by_fresh a) (cores (by_heap a)) \<and>
     linked (nodes is_free (by_heap a)) {} a \<and> nodes is_free (by_heap a) = dom (by_heap a) \<and>
     by_alloced_buddies a = [] \<and> (\<forall>n. by_list_split a n = 0 \<and> by_list_alloced a n = 0)"

text \<open>What the greatest buddies leave is a multiple of every size that still fits.\<close>

definition greedy :: "nat \<Rightarrow> nvgpu_buddy_allocator \<Rightarrow> bool" where
  "greedy x a \<longleftrightarrow> (by_end a - x) mod by_blk_size a = 0 \<and>
     (\<forall>k\<le>by_max_order a. 2 ^ k * by_blk_size a \<le> by_end a - x \<longrightarrow> (x - by_start a) mod (2 ^ k * by_blk_size a) = 0)"

lemma max_order_in_ok:
  assumes c: "cfg_ok a" and x: "by_start a \<le> x" "x < by_end a" and g: "greedy x a"
  shows "\<exists>k. balloc_max_order_in a x (by_end a) = Some k \<and> k \<le> by_max_order a \<and> 2 ^ k * by_blk_size a \<le> by_end a - x \<and>
    (\<forall>j\<le>by_max_order a. 2 ^ j * by_blk_size a \<le> by_end a - x \<longrightarrow> j \<le> k)"
proof -
  let ?b = "by_blk_size a" and ?s = "(by_end a - x) div by_blk_size a"
  have b: "?b = 2 ^ by_blk_shift a" "by_end a \<le> U64_MAX" using c by (auto simp: cfg_ok_def)
  have e: "?s * ?b = by_end a - x" using g by (auto simp: greedy_def)
  then have s: "0 < ?s" using x(2) by (cases ?s) auto
  have "?s \<le> U64_MAX" using b(2) by (meson diff_le_self div_le_dividend le_trans)
  note fls = nvgpu_fls_correct[OF s this]
  define l where "l = nvgpu_fls ?s - 1"
  have l: "2 ^ l \<le> ?s" "?s < 2 ^ Suc l" using fls by (auto simp: l_def)
  have call: "balloc_max_order_in a x (by_end a) = Some (min l (by_max_order a))"
    using x(2) s fls(1) unfolding balloc_max_order_in_def b(1)[symmetric] by (simp add: safe_simps nvgpu_ilog2_def l_def Let_def)
  have p2: "2 ^ min l (by_max_order a) \<le> ?s" using l(1) by (meson le_trans min.cobounded1 one_le_numeral power_increasing)
  show ?thesis
  proof (intro exI conjI allI impI)
    show "balloc_max_order_in a x (by_end a) = Some (min l (by_max_order a))" by (rule call)
    have "2 ^ min l (by_max_order a) * ?b \<le> ?s * ?b" using p2 by (rule mult_le_mono1)
    then show "2 ^ min l (by_max_order a) * ?b \<le> by_end a - x" using e by simp
    show "j \<le> min l (by_max_order a)" if j: "j \<le> by_max_order a" "2 ^ j * ?b \<le> by_end a - x" for j
    proof -
      have "2 ^ j * ?b \<le> ?s * ?b" using j(2) e by simp
      then have "2 ^ j \<le> ?s" using b(1) by simp
      then have "(2::nat) ^ j < 2 ^ Suc l" using l(2) by linarith
      then have "j < Suc l" by (rule power_less_imp_less_exp[rotated]) simp
      then show ?thesis using j(1) by simp
    qed
  qed simp
qed

lemma greedy_step:
  assumes g: "greedy x a" and x: "by_start a \<le> x" and k: "k \<le> by_max_order a" "2 ^ k * by_blk_size a \<le> by_end a - x"
    "\<forall>j\<le>by_max_order a. 2 ^ j * by_blk_size a \<le> by_end a - x \<longrightarrow> j \<le> k"
  shows "greedy (x + 2 ^ k * by_blk_size a) a"
proof -
  let ?l = "2 ^ k * by_blk_size a"
  have "by_blk_size a dvd by_end a - x" using g by (auto simp: greedy_def)
  then have "by_blk_size a dvd (by_end a - x) - ?l" by (rule dvd_diff_nat) simp
  then have "(by_end a - (x + ?l)) mod by_blk_size a = 0" by (simp add: diff_diff_left mod_eq_0_iff_dvd)
  moreover have "(x + ?l - by_start a) mod (2 ^ j * by_blk_size a) = 0" if j: "j \<le> by_max_order a" "2 ^ j * by_blk_size a \<le> by_end a - (x + ?l)" for j
  proof -
    have le: "2 ^ j * by_blk_size a \<le> by_end a - x" using j(2) by linarith
    have "2 ^ j * by_blk_size a dvd ?l" using k(3) j(1) le by (simp add: le_imp_power_dvd mult_dvd_mono)
    moreover have "2 ^ j * by_blk_size a dvd x - by_start a" using g j(1) le by (auto simp: greedy_def)
    ultimately have "2 ^ j * by_blk_size a dvd (x - by_start a) + ?l" by (rule dvd_add[rotated])
    then show ?thesis using x by (simp add: mod_eq_0_iff_dvd)
  qed
  ultimately show ?thesis by (simp add: greedy_def)
qed

lemma init_step_ok:
  assumes i: "init_inv x a" and g: "greedy x a" and x: "x < by_end a" and k: "balloc_max_order_in a x (by_end a) = Some k"
    "k \<le> by_max_order a" "2 ^ k * by_blk_size a \<le> by_end a - x" and oom: "\<not> oom (by_requests a)"
  shows "\<exists>a1 a2. balloc_new_buddy oom a None x k = Some (Some (by_fresh a), a1) \<and> balloc_blist_add a1 (by_fresh a) = Some a2 \<and>
    rest a2 = rest a \<and> init_inv (x + 2 ^ k * by_blk_size a) a2"
proof -
  let ?l = "2 ^ k * by_blk_size a" and ?p = "by_fresh a" and ?h = "by_heap a"
  define b where "b = \<lparr>bd_parent = None, bd_buddy = None, bd_left = None, bd_right = None, bd_start = x, bd_end = ?l + x, bd_order = k,
    bd_alloced = False, bd_split = False, bd_in_list = False, bd_pte_size = BALLOC_PTE_SIZE_ANY\<rparr>"
  have c: "cfg_ok a" "by_start a \<le> x" and f: "forest ((gcfg a)\<lparr>g_end := x\<rparr>) ?p (cores ?h)" and lk: "linked (nodes is_free ?h) {} a"
    and fr: "nodes is_free ?h = dom ?h" and z: "by_alloced_buddies a = []" "\<And>n. by_list_split a n = 0" "\<And>n. by_list_alloced a n = 0"
    using i by (auto simp: init_inv_def)
  have bounds: "k \<le> 63" "?l + x \<le> by_end a" "by_end a \<le> U64_MAX" using c k(2,3) x by (auto simp: cfg_ok_def)
  have o2l: "balloc_order_to_len (a\<lparr>by_requests := m\<rparr>) k = Some ?l" for m
    using bounds by (simp add: balloc_order_to_len_def in_orders_def safe_simps)
  define a1 where "a1 = a\<lparr>by_requests := Suc (by_requests a), by_fresh := Suc ?p, by_heap := ?h(?p \<mapsto> b)\<rparr>"
  have new: "balloc_new_buddy oom a None x k = Some (Some ?p, a1)"
    using oom bounds by (simp add: balloc_new_buddy_def o2l safe_simps a1_def b_def Let_def)
  have fresh: "?h ?p = None"
    using forestD(1)[OF f, of ?p] by (cases "?h ?p") (auto simp: core_ok_def)
  have "cores (by_heap a1) = (cores ?h)(?p \<mapsto> root_core x (x + ?l) k)"
    by (simp add: a1_def cores_upd core_of_def b_def root_core_def add.commute)
  then have f1: "forest ((gcfg a)\<lparr>g_end := x + ?l\<rparr>) (Suc ?p) (cores (by_heap a1))"
    using forest_root[OF f, of k "x + ?l"] c(2) g k(2,3) by (simp add: greedy_def)
  then have "forest (gcfg (a\<lparr>by_end := x + ?l\<rparr>)) (Suc ?p) (cores (by_heap a1))" by (simp add: gcfg_def)
  then have sm: "small (by_heap a1)" by (rule small_forest) (use c bounds in \<open>auto simp: cfg_ok_def\<close>)
  have l1: "linked (nodes is_free ?h) {} a1"
  proof (rule linked_cong[OF lk])
    show "\<exists>b'. by_heap a1 q = Some b' \<and> bd_order b' = bd_order e" if "by_heap a q = Some e" for q e
      using that fresh by (auto simp: a1_def)
    show "bd_in_list e \<longleftrightarrow> q \<in> nodes is_free ?h \<or> q \<in> {}" if "by_heap a1 q = Some e" for q e
      using that lk fresh fr by (cases "q = ?p") (auto simp: a1_def b_def linked_def)
  qed (simp_all add: a1_def)
  have "?p \<notin> nodes is_free ?h" "by_heap a1 ?p = Some b" using fresh by (auto simp: nodes_def a1_def)
  then obtain a2 where a2: "balloc_blist_add a1 ?p = Some a2" "frame a2 = frame a1" "by_heap a2 = (by_heap a1)(?p \<mapsto> b\<lparr>bd_in_list := True\<rparr>)"
    "linked (insert ?p (nodes is_free ?h)) {} a2" using blist_add_ok[OF l1, of ?p b] sm bounds(1) by (auto simp: b_def)
  have r: "rest a2 = rest a" using frame_rest[OF a2(2)] by (simp add: a1_def)
  have h2: "by_heap a2 = ?h(?p \<mapsto> b\<lparr>bd_in_list := True\<rparr>)" by (simp add: a2(3) a1_def)
  have nf: "nodes is_free (by_heap a2) = insert ?p (nodes is_free ?h)" by (auto simp: h2 nodes_def b_def is_free_def)
  have "cores (by_heap a2) = cores (by_heap a1)" by (simp add: h2 a1_def cores_upd)
  moreover have "by_fresh a2 = Suc ?p" "by_alloced_buddies a2 = []" "by_list_split a2 = by_list_split a" "by_list_alloced a2 = by_list_alloced a"
    using frame_sel[OF a2(2)] z by (simp_all add: a1_def)
  moreover have "insert ?p (nodes is_free ?h) = dom (by_heap a2)" using fr by (simp add: h2)
  ultimately have "init_inv (x + ?l) a2" unfolding init_inv_def rest_gcfg[OF r] rest_cfg_ok[OF r] rest_sel(1,2)[OF r] nf
    using c f1 a2(4) z bounds(2) by simp
  then show ?thesis using new a2(1) r by blast
qed

lemma init_loop_ok:
  assumes "init_inv x a" "greedy x a"
  shows "\<exists>ok a' y. init_loop oom x a = Some (ok, a') \<and> rest a' = rest a \<and> init_inv y a' \<and> (ok \<longrightarrow> y = by_end a) \<and> (\<not> ok \<longrightarrow> (\<exists>n. oom n))"
  using assms
proof (induction "by_end a - x" arbitrary: x a rule: less_induct)
  case less
  have c: "cfg_ok a" "by_start a \<le> x" "x \<le> by_end a" using less.prems(1) by (auto simp: init_inv_def)
  show ?case
  proof (cases "x < by_end a")
    case False
    then have "init_loop oom x a = Some (True, a)" by (simp add: init_loop.simps[of oom x a])
    moreover have "x = by_end a" using False c(3) by simp
    ultimately show ?thesis using less.prems(1) by auto
  next
    case True
    obtain k where k: "balloc_max_order_in a x (by_end a) = Some k" "k \<le> by_max_order a" "2 ^ k * by_blk_size a \<le> by_end a - x"
      "\<forall>j\<le>by_max_order a. 2 ^ j * by_blk_size a \<le> by_end a - x \<longrightarrow> j \<le> k" using max_order_in_ok[OF c(1,2) True less.prems(2)] by blast
    show ?thesis
    proof (cases "oom (by_requests a)")
      case o: True
      let ?a = "a\<lparr>by_requests := Suc (by_requests a)\<rparr>"
      have "balloc_new_buddy oom a None x k = Some (None, ?a)" using o by (simp add: balloc_new_buddy_def Let_def)
      then have "init_loop oom x a = Some (False, ?a)" using True k(1) by (simp add: init_loop.simps[of oom x a])
      moreover have eqs: "gcfg ?a = gcfg a" "cfg_ok ?a = cfg_ok a" "linked L {} ?a = linked L {} a" for L by (simp_all add: gcfg_def cfg_ok_def linked_def)
      have "init_inv x ?a" using less.prems(1) unfolding init_inv_def eqs by auto
      ultimately show ?thesis using o by (intro exI[of _ False] exI[of _ ?a] exI[of _ x]) auto
    next
      case False
      let ?l = "2 ^ k * by_blk_size a"
      obtain a1 a2 where s: "balloc_new_buddy oom a None x k = Some (Some (by_fresh a), a1)" "balloc_blist_add a1 (by_fresh a) = Some a2"
        "rest a2 = rest a" "init_inv (x + ?l) a2" using init_step_ok[OF less.prems True k(1-3)] False by blast
      note rs = rest_sel[OF s(3)]
      have b: "k \<le> 63" "x + ?l \<le> U64_MAX" "0 < ?l" using c(1) k(2,3) True by (auto simp: cfg_ok_def)
      then have o2l: "balloc_order_to_len a2 k = Some ?l" using rs(3) by (simp add: balloc_order_to_len_def in_orders_def safe_simps)
      have g2: "greedy (x + ?l) a2" using greedy_step[OF less.prems(2) c(2) k(2-4)] rs by (simp add: greedy_def)
      have "by_end a2 - (x + ?l) < by_end a - x" using b(3) True rs(2) by linarith
      from less.hyps[OF this s(4) g2] obtain ok a' y where "init_loop oom (x + ?l) a2 = Some (ok, a')" "rest a' = rest a" "init_inv y a'"
        "ok \<longrightarrow> y = by_end a" "\<not> ok \<longrightarrow> (\<exists>n. oom n)" using s(3) rs(2) by auto
      moreover have "init_loop oom x a = init_loop oom (x + ?l) a2"
        using True k(1) s(1,2) o2l b(2) by (simp add: init_loop.simps[of oom x a] safe_simps)
      ultimately show ?thesis by auto
    qed
  qed
qed

lemma init_cleanup_ok:
  assumes "linked L {} a" "dom (by_heap a) = L" "\<forall>p b. by_heap a p = Some b \<longrightarrow> bd_order b \<le> 63"
  shows "\<exists>a'. init_cleanup is a = Some a'"
  using assms
proof (induction "is" arbitrary: a L)
  case (Cons i "is")
  show ?case
  proof (cases "by_list a i")
    case Nil
    then show ?thesis using Cons by simp
  next
    case l: (Cons p ps)
    obtain a1 where a1: "balloc_blist_rem a p = Some a1" "linked (L - {p}) {} (cache_free p a1)" "dom (by_heap (cache_free p a1)) = L - {p}"
      "\<forall>q b. by_heap (cache_free p a1) q = Some b \<longrightarrow> by_heap a q = Some b" using rem_free_ok[OF Cons.prems, of p i] l by auto
    have o: "\<forall>q b. by_heap (cache_free p a1) q = Some b \<longrightarrow> bd_order b \<le> 63" using a1(4) Cons.prems(3) by blast
    show ?thesis using Cons.IH[OF a1(2,3) o] a1(1) l by simp
  qed
qed simp

lemma init_done:
  assumes i: "init_inv (by_end a) a" and f: "by_fixed_allocs a = []" and v: "gva a \<longrightarrow> by_vm a \<noteq> None"
  shows "buddy_plain a" "buddy_live a = {}"
proof -
  have fr: "is_free b" if b: "by_heap a p = Some b" for p b
  proof -
    have "p \<in> nodes is_free (by_heap a)" using i b by (auto simp: init_inv_def)
    then show ?thesis using b by (simp add: nodes_def)
  qed
  then have n: "nodes (\<lambda>b. bd_split b \<and> bd_order b = n) (by_heap a) = {}" "nodes (\<lambda>b. bd_alloced b \<and> bd_order b = n) (by_heap a) = {}" for n
    by (auto simp: nodes_def is_free_def)
  have g: "(gcfg a)\<lparr>g_end := by_end a\<rparr> = gcfg a" by (simp add: gcfg_def)
  have "forest (gcfg a) (by_fresh a) (cores (by_heap a))" using i unfolding init_inv_def g by blast
  then have "bwf {} {} a" using i fr n by (intro bwfI) (auto simp: init_inv_def idx_ok_def counts_ok_def is_free_def)
  moreover have "merged {} (by_heap a)" using fr by (auto simp: merged_def both_free_def is_free_def)
  ultimately show "buddy_plain a" using f v by (simp add: buddy_plain_def buddy_inv_def fixed_buddies_def)
  show "buddy_live a = {}" using fr by (auto simp: buddy_live_def acts_def is_free_def)
qed

section \<open>Attributes\<close>

lemma align_ok:
  assumes b: "by_blk_size a = 2 ^ by_blk_shift a" "by_blk_shift a < 64" and r: "0 < by_base a" "by_base a + by_blk_size a \<le> U64_MAX"
    "by_base a + by_length a \<le> U64_MAX" "by_blk_size a \<le> by_length a"
  obtains st en where "balloc_allocator_align a =
      (let a' = a\<lparr>by_start := st, by_end := en, by_count := en - st\<rparr> in
       Some (if (en - st) div by_blk_size a = 0 then (Inl EINVAL, a') else (Inr (), a'\<lparr>by_blks := (en - st) div by_blk_size a\<rparr>)))"
    "by_base a \<le> st" "st < by_base a + by_blk_size a" "st \<le> en" "en \<le> by_base a + by_length a" "by_base a + by_length a < en + by_blk_size a"
    "st mod by_blk_size a = 0" "en mod by_blk_size a = 0"
proof -
  let ?b = "by_blk_size a" and ?e = "by_base a + by_length a"
  obtain st where st: "NVGPU_ALIGN (by_base a) ?b = Some st" "by_base a \<le> st" "st < by_base a + ?b" "st mod ?b = 0"
    using NVGPU_ALIGN_power2[OF b(2), of "by_base a"] r(2) b(1) by auto
  define en where "en = ?e - ?e mod ?b"
  have pos: "0 < ?b" using b(1) by simp
  have "?e mod ?b < ?b" "?e mod ?b \<le> ?e" using pos by simp_all
  then have en: "en \<le> ?e" "?e < en + ?b" unfolding en_def by linarith+
  have em: "en mod ?b = 0" unfolding en_def minus_mod_eq_mult_div by simp
  have m: "and_not64 ?e (?b - 1) = en" using and_not64_mask[OF r(3) b(2)] b(1) by (simp add: en_def)
  have "st \<le> en"
  proof (rule ccontr)
    assume n: "\<not> st \<le> en"
    moreover have "?b dvd st - en" using st(4) em by (simp add: dvd_diff_nat mod_eq_0_iff_dvd)
    ultimately have "?b \<le> st - en" by (simp add: dvd_imp_le)
    then show False using n st(3) en(2) r(4) by linarith
  qed
  then have "balloc_allocator_align a =
      (let a' = a\<lparr>by_start := st, by_end := en, by_count := en - st\<rparr> in
       Some (if (en - st) div by_blk_size a = 0 then (Inl EINVAL, a') else (Inr (), a'\<lparr>by_blks := (en - st) div by_blk_size a\<rparr>)))"
    using st(1) pos r(3) m by (simp add: balloc_allocator_align_def b(1)[symmetric] safe_simps Let_def)
  then show thesis using that[OF _ st(2,3) \<open>st \<le> en\<close> en st(4) em] by blast
qed

lemma compute_max_order_ok:
  assumes "0 < by_blks a" "by_blks a \<le> U64_MAX"
  shows "\<exists>m. m \<le> 63 \<and> 2 ^ m \<le> by_blks a \<and> balloc_compute_max_order a = Some (a\<lparr>by_max_order := m\<rparr>)"
proof -
  note fls = nvgpu_fls_correct[OF assms]
  let ?m = "if by_max_order a = 0 \<or> by_max_order a > nvgpu_fls (by_blks a) - 1 then nvgpu_fls (by_blks a) - 1 else by_max_order a"
  have "balloc_compute_max_order a = Some (a\<lparr>by_max_order := ?m\<rparr>)"
    using fls(1,2) by (auto simp: balloc_compute_max_order_def nvgpu_ilog2_def)
  moreover have le: "?m \<le> nvgpu_fls (by_blks a) - 1" by simp
  have "2 ^ ?m \<le> (2::nat) ^ (nvgpu_fls (by_blks a) - 1)" by (rule power_increasing[OF le]) simp
  then have "2 ^ ?m \<le> by_blks a" using fls(3) by (rule le_trans)
  moreover have "?m \<le> 63" using le fls(2) by linarith
  ultimately show ?thesis by blast
qed

lemma init_lists_ok:
  assumes c: "cfg_ok a" and m: "(by_end a - by_start a) mod by_blk_size a = 0"
    and e: "by_heap a = Map.empty" "by_list_len a = (\<lambda>_. 0)" "by_list_split a = (\<lambda>_. 0)" "by_list_alloced a = (\<lambda>_. 0)"
      "by_alloced_buddies a = []" "by_fixed_allocs a = []" and v: "gva a \<longrightarrow> by_vm a \<noteq> None"
  shows "\<exists>r a'. balloc_init_lists oom a = Some (r, a') \<and>
    (case r of Inr _ \<Rightarrow> buddy_plain a' \<and> buddy_live a' = {} \<and> rest a' = rest a | Inl er \<Rightarrow> er = ENOMEM \<and> (\<exists>n. oom n))"
proof -
  let ?a = "a\<lparr>by_list := (\<lambda>_. [])\<rparr>"
  have "forest ((gcfg a)\<lparr>g_end := by_start a\<rparr>) (by_fresh a) (cores Map.empty)"
    using forest_empty[of "(gcfg a)\<lparr>g_end := by_start a\<rparr>"] c by (simp add: cores_def cfg_ok_def)
  moreover have eqs: "gcfg ?a = gcfg a" "cfg_ok ?a = cfg_ok a" by (simp_all add: gcfg_def cfg_ok_def)
  have "by_start a \<le> by_end a" using c by (simp add: cfg_ok_def)
  ultimately have i: "init_inv (by_start ?a) ?a" unfolding init_inv_def eqs using c e by (simp add: linked_def nodes_def)
  have g: "greedy (by_start ?a) ?a" using m by (simp add: greedy_def)
  obtain ok a' y where l: "init_loop oom (by_start ?a) ?a = Some (ok, a')" "rest a' = rest ?a" "init_inv y a'" "ok \<longrightarrow> y = by_end ?a" "\<not> ok \<longrightarrow> (\<exists>n. oom n)"
    using init_loop_ok[OF i g] by blast
  have r: "rest a' = rest a" using l(2) by simp
  show ?thesis
  proof (cases ok)
    case True
    then have "init_inv (by_end a') a'" using l(3,4) rest_sel(2)[OF r] by simp
    from init_done[OF this] have "buddy_plain a'" "buddy_live a' = {}" using v e(6) rest_sel[OF r] by (simp_all add: gva_def)
    moreover have "balloc_init_lists oom a = Some (Inr (), a')" using l(1) True by (simp add: balloc_init_lists_def)
    ultimately show ?thesis using r by auto
  next
    case False
    have o: "\<forall>p b. by_heap a' p = Some b \<longrightarrow> bd_order b \<le> 63"
    proof (intro allI impI)
      fix p b
      assume "by_heap a' p = Some b"
      then have "core_ok ((gcfg a')\<lparr>g_end := y\<rparr>) (by_fresh a') p (core_of b)" using l(3) forestD(1)[of "(gcfg a')\<lparr>g_end := y\<rparr>" _ "cores (by_heap a')" p]
        by (simp add: init_inv_def)
      moreover have "by_max_order a' \<le> 63" using l(3) by (simp add: init_inv_def cfg_ok_def)
      ultimately show "bd_order b \<le> 63" by (simp add: core_ok_def)
    qed
    have "linked (dom (by_heap a')) {} a'" using l(3) by (auto simp: init_inv_def)
    from init_cleanup_ok[OF this _ o, of "[0..<GPU_BALLOC_MAX_ORDER + 1]"]
    obtain a'' where a'': "init_cleanup [0..<GPU_BALLOC_MAX_ORDER + 1] a' = Some a''" by blast
    then have "balloc_init_lists oom a = Some (Inl ENOMEM, a'')" using l(1) False unfolding balloc_init_lists_def by simp
    then show ?thesis using l(5) False by auto
  qed
qed

lemma set_attributes_ok:
  assumes b: "blk = 2 ^ k" "k < 64" and z: "base = 0 \<longrightarrow> blk \<le> sz" and v: "bit flags GPU_ALLOC_GVA_SPACE \<longrightarrow> (\<exists>v. vm = Some v \<and> bv_pde_bits v < 64)"
  shows "\<exists>r x m. nvgpu_buddy_set_attributes zero_buddy_allocator vm base sz blk max_order flags =
    Some (r, zero_buddy_allocator\<lparr>by_base := if base = 0 then blk else base, by_length := if base = 0 then sz - blk else sz, by_blk_size := blk,
      by_blk_shift := k, by_vm := vm, by_pte_blk_order := x, by_flags := (if r = Inr () then flags else 0), by_max_order := m\<rparr>) \<and>
    (r = Inr () \<or> r = Inl EINVAL \<and> bit flags GPU_ALLOC_GVA_SPACE)"
proof -
  have ffs: "nvgpu_safe_sub_u64 (nvgpu_ffs blk) 1 = Some k" using b by (simp add: safe_simps)
  have zs: "base = 0 \<Longrightarrow> nvgpu_safe_sub_u64 sz blk = Some (sz - blk)" using z by (simp add: safe_simps)
  show ?thesis
  proof (cases "bit flags GPU_ALLOC_GVA_SPACE")
    case False
    then show ?thesis using ffs zs
      by (cases "base = 0") (auto simp: nvgpu_buddy_set_attributes_def zero_buddy_allocator_def Let_def)
  next
    case True
    then obtain w where w: "vm = Some w" "bv_pde_bits w < 64" using v by auto
    show ?thesis using True w ffs zs
      by (cases "base = 0") (auto simp: nvgpu_buddy_set_attributes_def zero_buddy_allocator_def Let_def)
  qed
qed

lemma buddy_init_total:
  assumes lim: "nvgpu_buddy_check_argument_limits vm sz blk max_order flags = Inr ()" "blk \<le> U64_MAX"
    and v: "\<forall>v. vm = Some v \<longrightarrow> bv_pde_bits v < 64"
    and r: "b = (if base = 0 then blk else base)" "l = (if base = 0 then sz - blk else sz)" "base = 0 \<longrightarrow> blk \<le> sz"
      "blk \<le> l" "b + blk \<le> U64_MAX" "b + l \<le> U64_MAX"
  shows "\<exists>res h. nvgpu_buddy_allocator_init kzalloc_ok cache_ok oom vm base sz blk max_order flags = Some (res, h) \<and>
    (case res of
       Inr a \<Rightarrow> buddy_plain a \<and> buddy_live a = {} \<and> by_bytes_alloced a = 0 \<and> by_bytes_alloced_real a = 0 \<and> by_bytes_freed a = 0 \<and> by_blk_size a = blk \<and> b \<le> by_start a \<and> by_start a < b + blk \<and>
         by_end a \<le> b + l \<and> b + l < by_end a + blk \<and> 2 ^ by_max_order a * blk \<le> by_end a - by_start a \<and> gva a = bit flags GPU_ALLOC_GVA_SPACE
     | Inl e \<Rightarrow> e = ENOMEM \<and> (\<not> kzalloc_ok \<or> \<not> cache_ok \<or> (\<exists>n. oom n)) \<or> e = EINVAL \<and> (bit flags GPU_ALLOC_GVA_SPACE \<or> l < 2 * blk))"
proof (cases kzalloc_ok)
  case False
  then show ?thesis using lim(1) by (simp add: nvgpu_buddy_allocator_init_def)
next
  case True
  have pos: "0 < blk" "blk AND (blk - 1) = 0" "bit flags GPU_ALLOC_GVA_SPACE \<longrightarrow> vm \<noteq> None"
    using lim(1) by (auto simp: nvgpu_buddy_check_argument_limits_def split: if_splits)
  obtain k where k: "blk = 2 ^ k" using pow2_test[OF pos(1)] pos(2) by auto
  have "(2::nat) ^ k < 2 ^ 64" using lim(2) k by simp
  then have k64: "k < 64" by (rule power_less_imp_less_exp[rotated]) simp
  obtain e x m where at: "nvgpu_buddy_set_attributes zero_buddy_allocator vm base sz blk max_order flags = Some (e, zero_buddy_allocator\<lparr>by_base := b, by_length := l,
      by_blk_size := blk, by_blk_shift := k, by_vm := vm, by_pte_blk_order := x, by_flags := (if e = Inr () then flags else 0), by_max_order := m\<rparr>)"
    "e = Inr () \<or> e = Inl EINVAL \<and> bit flags GPU_ALLOC_GVA_SPACE"
    using set_attributes_ok[OF k k64 r(3), of flags vm max_order] v pos(3) r(1,2) by auto
  show ?thesis
  proof (cases "e = Inr ()")
    case False
    then show ?thesis using at True lim(1) by (auto simp: nvgpu_buddy_allocator_init_def)
  next
    case ok: True
    define a0 where "a0 = zero_buddy_allocator\<lparr>by_base := b, by_length := l, by_blk_size := blk, by_blk_shift := k, by_vm := vm, by_pte_blk_order := x,
      by_flags := flags, by_max_order := m\<rparr>"
    have a0: "by_blk_size a0 = blk" "by_base a0 = b" "by_length a0 = l" "by_blk_shift a0 = k" by (simp_all add: a0_def)
    have "0 < b" using r(1) pos(1) by simp
    obtain st en where al: "balloc_allocator_align a0 =
        (let a' = a0\<lparr>by_start := st, by_end := en, by_count := en - st\<rparr> in
         Some (if (en - st) div blk = 0 then (Inl EINVAL, a') else (Inr (), a'\<lparr>by_blks := (en - st) div blk\<rparr>)))"
      "b \<le> st" "st < b + blk" "st \<le> en" "en \<le> b + l" "b + l < en + blk" "st mod blk = 0" "en mod blk = 0"
      by (rule align_ok[of a0, unfolded a0, OF k k64 \<open>0 < b\<close> r(5,6,4)])
    show ?thesis
    proof (cases "(en - st) div blk = 0")
      case z: True
      have "blk dvd en - st" using al(7,8) by (simp add: mod_eq_0_iff_dvd dvd_diff_nat)
      then have "en - st = 0" using z dvd_div_eq_0_iff by blast
      then have "l < 2 * blk" using al(3-6) by linarith
      then show ?thesis using z al(1) at(1) ok True lim(1) unfolding a0_def by (simp add: nvgpu_buddy_allocator_init_def Let_def)
    next
      case nz: False
      let ?a1 = "a0\<lparr>by_start := st, by_end := en, by_count := en - st, by_blks := (en - st) div blk\<rparr>"
      have "by_blks ?a1 \<le> U64_MAX" using al(5) r(6) by (simp add: le_trans[OF div_le_dividend])
      then obtain mo where mo: "mo \<le> 63" "2 ^ mo \<le> (en - st) div blk" "balloc_compute_max_order ?a1 = Some (?a1\<lparr>by_max_order := mo\<rparr>)"
        using compute_max_order_ok[of ?a1] nz by auto
      define a2 where "a2 = ?a1\<lparr>by_max_order := mo, by_alloced_buddies := [], by_fixed_allocs := [], by_co_list := []\<rparr>"
      have c: "cfg_ok a2" using mo(1) al \<open>0 < b\<close> r(6) k by (simp add: cfg_ok_def a2_def a0)
      have d: "(by_end a2 - by_start a2) mod by_blk_size a2 = 0" using al(7,8) by (simp add: a2_def a0 mod_eq_0_iff_dvd dvd_diff_nat)
      have gv: "gva a2 = bit flags GPU_ALLOC_GVA_SPACE" by (simp add: gva_def a2_def a0_def)
      obtain res a3 where l3: "balloc_init_lists oom a2 = Some (res, a3)"
        "case res of Inr _ \<Rightarrow> buddy_plain a3 \<and> buddy_live a3 = {} \<and> rest a3 = rest a2 | Inl er \<Rightarrow> er = ENOMEM \<and> (\<exists>n. oom n)"
        using init_lists_ok[OF c d, of oom] pos(3) gv by (auto simp: a2_def a0_def zero_buddy_allocator_def)
      have run: "nvgpu_buddy_allocator_init kzalloc_ok cache_ok oom vm base sz blk max_order flags =
          (if \<not> cache_ok then Some (Inl ENOMEM, Map.empty)
           else Some (case res of Inl e \<Rightarrow> (Inl e, by_heap a3) | Inr _ \<Rightarrow> (Inr (a3\<lparr>by_initialized := True\<rparr>), by_heap a3)))"
        using True lim(1) at(1) ok al(1) nz mo(3) l3(1) unfolding a0_def[symmetric] a2_def
        by (simp add: nvgpu_buddy_allocator_init_def Let_def a0_def)
      show ?thesis
      proof (cases "cache_ok \<and> res = Inr ()")
        case False
        then show ?thesis using run l3(2) by (cases res) auto
      next
        case True
        then have p: "buddy_plain a3" "buddy_live a3 = {}" "rest a3 = rest a2" using l3(2) by auto
        let ?a = "a3\<lparr>by_initialized := True\<rparr>"
        have "bwf {} Y ?a = bwf {} Y a3" for Y by (simp add: bwf_def cfg_ok_def gcfg_def linked_def idx_ok_def counts_ok_def)
        then have "buddy_plain ?a" using p(1) by (auto simp: buddy_plain_def buddy_inv_def fixed_buddies_def gva_def)
        moreover have "buddy_live ?a = {}" using p(2) by (simp add: buddy_live_def)
        moreover have "gva ?a = bit flags GPU_ALLOC_GVA_SPACE" using rest_gva[OF p(3)] gv by (simp add: gva_def)
        moreover have "2 ^ mo * blk \<le> en - st" using mo(2) pos(1) by (simp add: less_eq_div_iff_mult_less_eq)
        ultimately show ?thesis using run True al rest_sel[OF p(3)] by (simp add: a2_def a0 a0_def zero_buddy_allocator_def)
      qed
    qed
  qed
qed

end
