(* ===== verification/Buddy_Contract.thy ===== *)
theory Buddy_Contract
  imports Buddy_Fixed Buddy_Setup
begin

text \<open>
  The properties of the buddy allocator, from its set-up to its teardown, for every outcome of the requests to the
  cache of buddies.
\<close>

lemma idx_unlink_insert: "idx_search k xs = None \<Longrightarrow> idx_sorted xs \<Longrightarrow> idx_unlink k (idx_insert k v xs) = xs"
proof (induction k v xs rule: idx_insert.induct)
  case (2 k v k' v' xs)
  then show ?case by (cases "k = k'") (auto simp: idx_search_def idx_unlink_def intro!: filter_True)
qed (simp add: idx_unlink_def)

section \<open>Set-up\<close>

text \<open>C10: \<open>nvgpu_buddy_allocator_init\<close> on arguments within its limits always returns. An allocator it returns satisfies the
  invariant, has nothing allocated, and manages the whole blocks of the requested range (a base of 0 is moved up by one block); the
  only errors are \<open>-ENOMEM\<close>, when memory can not be had, and \<open>-EINVAL\<close>, when the range holds no whole block or, for an address space,
  is not aligned to its page directories.\<close>

theorem buddy_init_ok:
  assumes "nvgpu_buddy_check_argument_limits vm sz blk max_order flags = Inr ()" "blk \<le> U64_MAX"
    and "\<forall>v. vm = Some v \<longrightarrow> bv_pde_bits v < 64"
    and "b = (if base = 0 then blk else base)" "l = (if base = 0 then sz - blk else sz)" "base = 0 \<longrightarrow> blk \<le> sz"
      "blk \<le> l" "b + blk \<le> U64_MAX" "b + l \<le> U64_MAX"
  shows "\<exists>res h. nvgpu_buddy_allocator_init kzalloc_ok cache_ok oom vm base sz blk max_order flags = Some (res, h) \<and>
    (case res of
       Inr a \<Rightarrow> buddy_plain a \<and> buddy_live a = {} \<and> by_bytes_alloced a = 0 \<and> by_bytes_alloced_real a = 0 \<and> by_bytes_freed a = 0 \<and> by_blk_size a = blk \<and> b \<le> by_start a \<and> by_start a < b + blk \<and>
         by_end a \<le> b + l \<and> b + l < by_end a + blk \<and> 2 ^ by_max_order a * blk \<le> by_end a - by_start a \<and> gva a = bit flags GPU_ALLOC_GVA_SPACE
     | Inl e \<Rightarrow> e = ENOMEM \<and> (\<not> kzalloc_ok \<or> \<not> cache_ok \<or> (\<exists>n. oom n)) \<or> e = EINVAL \<and> (bit flags GPU_ALLOC_GVA_SPACE \<or> l < 2 * blk))"
  using buddy_init_total[OF assms] .

theorem buddy_init_ok_witness:
  "\<exists>a h. nvgpu_buddy_allocator_init True True (\<lambda>_. False) None 0 69632 4096 0 0 = Some (Inr a, h) \<and> buddy_plain a \<and> buddy_live a = {}"
proof -
  have "nvgpu_buddy_check_argument_limits None 69632 4096 0 0 = Inr ()"
    using and_mask_nat[of 4096 12] by (simp add: nvgpu_buddy_check_argument_limits_def)
  from buddy_init_ok[OF this, of 4096 0 65536 True True "\<lambda>_. False"] obtain res h where
    r: "nvgpu_buddy_allocator_init True True (\<lambda>_. False) None 0 69632 4096 0 0 = Some (res, h)"
    "case res of
       Inr a \<Rightarrow> buddy_plain a \<and> buddy_live a = {} \<and> by_bytes_alloced a = 0 \<and> by_bytes_alloced_real a = 0 \<and> by_bytes_freed a = 0 \<and> by_blk_size a = 4096 \<and> 4096 \<le> by_start a \<and> by_start a < 4096 + 4096 \<and>
         by_end a \<le> 4096 + 65536 \<and> 4096 + 65536 < by_end a + 4096 \<and> 2 ^ by_max_order a * 4096 \<le> by_end a - by_start a \<and> gva a = bit (0::nat) GPU_ALLOC_GVA_SPACE
     | Inl e \<Rightarrow> e = ENOMEM \<and> (\<not> True \<or> \<not> True \<or> (\<exists>n::nat. False)) \<or> e = EINVAL \<and> (bit (0::nat) GPU_ALLOC_GVA_SPACE \<or> 65536 < 2 * (4096::nat))"
    by auto
  then show ?thesis by (cases res) auto
qed

lemma fls_eqI:
  assumes "2 ^ k \<le> x" "x < 2 ^ Suc k" "x \<le> U64_MAX"
  shows "nvgpu_fls x = Suc k"
proof -
  have "0 < x" using assms(1) by (meson less_le_trans zero_less_numeral zero_less_power)
  note f = nvgpu_fls_correct[OF this assms(3)]
  have b: "(2::nat) ^ (nvgpu_fls x - 1) < 2 ^ Suc k" "(2::nat) ^ k < 2 ^ nvgpu_fls x" using f(3,4) assms(1,2) by linarith+
  have "nvgpu_fls x - 1 < Suc k" using power_less_imp_less_exp[OF _ b(1)] by simp
  moreover have "k < nvgpu_fls x" using power_less_imp_less_exp[OF _ b(2)] by simp
  ultimately show ?thesis by linarith
qed

lemma leak_values:
  "nvgpu_ffs 4096 = 13" "NVGPU_ALIGN 4096 4096 = Some 4096" "and_not64 28672 4095 = 28672" "nvgpu_fls 6 = 3" "nvgpu_fls 4 = 3" "nvgpu_fls 2 = 2"
  "(4096::nat) AND 4095 = 0"
  using nvgpu_ffs_power2[of 12] NVGPU_ALIGN_aligned[of 12 4096] and_not64_mask[of 28672 12] fls_eqI[of 2 6] fls_eqI[of 2 4] fls_eqI[of 1 2]
    and_mask_nat[of 4096 12] by simp_all

definition leaky_buddy :: nvgpu_buddy_allocator where
  "leaky_buddy = zero_buddy_allocator\<lparr>by_base := 4096, by_length := 24576, by_blk_size := 4096, by_blk_shift := 12, by_max_order := 1,
     by_start := 4096, by_end := 28672, by_count := 24576, by_blks := 6\<rparr>"

lemma leaky_init:
  "nvgpu_buddy_allocator_init True True oom None 4096 24576 4096 1 0 =
     do { (err, a) \<leftarrow> balloc_init_lists oom leaky_buddy;
          Some (case err of Inl e \<Rightarrow> (Inl e, by_heap a) | Inr _ \<Rightarrow> (Inr (a\<lparr>by_initialized := True\<rparr>), by_heap a)) }"
  by (simp add: nvgpu_buddy_allocator_init_def nvgpu_buddy_check_argument_limits_def nvgpu_buddy_set_attributes_def leak_values safe_simps
      balloc_allocator_align_def balloc_compute_max_order_def nvgpu_ilog2_def zero_buddy_allocator_def leaky_buddy_def Let_def)

lemma leaky_loop:
  "\<exists>a b. init_loop (\<lambda>n. n = 2) 4096 leaky_buddy = Some (False, a) \<and> by_list a = (\<lambda>_. [])(1 := [1, 0]) \<and> by_list_len a 1 = 2 \<and>
     by_heap a 0 \<noteq> None \<and> by_heap a 1 = Some b \<and> bd_in_list b \<and> bd_order b = 1"
  by (simp add: leaky_buddy_def zero_buddy_allocator_def init_loop.simps[of _ 4096] init_loop.simps[of _ 12288] init_loop.simps[of _ 20480]
      balloc_max_order_in_def balloc_new_buddy_def balloc_order_to_len_def balloc_blist_add_def in_orders_def balloc_buddy_list_do_add_def
      upd_bud_def nvgpu_ilog2_def leak_values safe_simps gva_def Let_def)

lemma cleanup_skip: "\<forall>i\<in>set is. by_list a i = [] \<Longrightarrow> init_cleanup is a = Some a"
  by (induction "is") auto

text \<open>When a buddy can not be had during the set-up, \<open>balloc_init_lists\<close> means to give back the buddies it has made, but it takes only
  the first one out of every list: with a greatest order of 1 and six blocks, a failure of the third request leaves a buddy in the
  cache that nothing refers to any more.\<close>

theorem buddy_init_leak:
  "\<exists>h. nvgpu_buddy_allocator_init True True (\<lambda>n. n = 2) None 4096 24576 4096 1 0 = Some (Inl ENOMEM, h) \<and> h 0 \<noteq> None"
proof -
  obtain a b where l: "init_loop (\<lambda>n. n = 2) 4096 leaky_buddy = Some (False, a)" "by_list a = (\<lambda>_. [])(1 := [1, 0])" "by_list_len a 1 = 2"
    "by_heap a 0 \<noteq> None" "by_heap a 1 = Some b" "bd_in_list b" "bd_order b = 1" using leaky_loop by blast
  let ?a1 = "a\<lparr>by_list := (\<lambda>n. removeAll 1 (by_list a n)), by_heap := (by_heap a)(1 \<mapsto> b\<lparr>bd_in_list := False\<rparr>), by_list_len := (by_list_len a)(1 := 1)\<rparr>"
  have rem: "balloc_blist_rem a 1 = Some ?a1"
    using l by (simp add: balloc_blist_rem_def balloc_buddy_list_do_rem_def upd_bud_def in_orders_def)
  have "[0..<GPU_BALLOC_MAX_ORDER + 1] = [0, 1] @ [2..<GPU_BALLOC_MAX_ORDER + 1]" by (simp add: upt_rec)
  moreover have "init_cleanup [2..<GPU_BALLOC_MAX_ORDER + 1] (cache_free 1 ?a1) = Some (cache_free 1 ?a1)"
    by (rule cleanup_skip) (simp add: l(2) cache_free_def)
  ultimately have c: "init_cleanup [0..<GPU_BALLOC_MAX_ORDER + 1] a = Some (cache_free 1 ?a1)" using rem l(2) by simp
  have "leaky_buddy\<lparr>by_list := (\<lambda>_. [])\<rparr> = leaky_buddy" "by_start leaky_buddy = 4096" by (simp_all add: leaky_buddy_def zero_buddy_allocator_def)
  then have "balloc_init_lists (\<lambda>n. n = 2) leaky_buddy = Some (Inl ENOMEM, cache_free 1 ?a1)"
    unfolding balloc_init_lists_def using l(1) c by simp
  then show ?thesis using leaky_init[of "\<lambda>n. n = 2"] l(4) by (simp add: cache_free_def)
qed

section \<open>Requests and releases\<close>

text \<open>An allocator to try the operations on: two blocks of 4096 bytes, set up as one buddy.\<close>

definition pair_buddy :: nvgpu_buddy_allocator where
  "pair_buddy = zero_buddy_allocator\<lparr>by_base := 4096, by_length := 8192, by_blk_size := 4096, by_blk_shift := 12, by_max_order := 1,
     by_start := 4096, by_end := 12288, by_count := 8192, by_blks := 2, by_initialized := True, by_fresh := 1, by_requests := 1,
     by_heap := [0 \<mapsto> \<lparr>bd_parent = None, bd_buddy = None, bd_left = None, bd_right = None, bd_start = 4096, bd_end = 12288, bd_order = 1,
       bd_alloced = False, bd_split = False, bd_in_list = True, bd_pte_size = BALLOC_PTE_SIZE_ANY\<rparr>],
     by_list := (\<lambda>_. [])(1 := [0]), by_list_len := (\<lambda>_. 0)(1 := 1)\<rparr>"

lemma pair_init: "nvgpu_buddy_allocator_init True True (\<lambda>_. False) None 4096 8192 4096 0 0 = Some (Inr pair_buddy, by_heap pair_buddy)"
  using NVGPU_ALIGN_aligned[of 12 4096] and_not64_mask[of 12288 12]
  by (simp add: nvgpu_buddy_allocator_init_def nvgpu_buddy_check_argument_limits_def nvgpu_buddy_set_attributes_def leak_values safe_simps
      balloc_allocator_align_def balloc_compute_max_order_def nvgpu_ilog2_def zero_buddy_allocator_def pair_buddy_def Let_def
      balloc_init_lists_def init_loop.simps[of _ 4096] init_loop.simps[of _ 12288]
      balloc_max_order_in_def balloc_new_buddy_def balloc_order_to_len_def balloc_blist_add_def in_orders_def balloc_buddy_list_do_add_def
      upd_bud_def gva_def)
lemma pair_plain: "buddy_plain pair_buddy" "buddy_live pair_buddy = {}"
proof -
  have "nvgpu_buddy_check_argument_limits None 8192 4096 0 0 = Inr ()"
    by (simp add: nvgpu_buddy_check_argument_limits_def leak_values)
  from buddy_init_total[OF this, of 4096 4096 8192 True True "\<lambda>_. False"] show "buddy_plain pair_buddy" "buddy_live pair_buddy = {}"
    by (simp_all add: pair_init)
qed

lemma pair_sel:
  "by_start pair_buddy = 4096" "by_end pair_buddy = 12288" "by_blk_size pair_buddy = 4096" "by_blk_shift pair_buddy = 12" "by_max_order pair_buddy = 1"
  "by_co_list pair_buddy = []" "by_alloc_made pair_buddy = False" "by_bytes_alloced pair_buddy = 0" "by_bytes_alloced_real pair_buddy = 0" "by_bytes_freed pair_buddy = 0" "by_fixed_allocs pair_buddy = []"
  by (simp_all add: pair_buddy_def zero_buddy_allocator_def)

lemma pair_first: "\<exists>a. nvgpu_buddy_balloc (\<lambda>_. False) pair_buddy 4096 = Some (4096, a)"
  by (simp add: nvgpu_buddy_balloc_def nvgpu_buddy_balloc_pte_def pair_buddy_def zero_buddy_allocator_def balloc_get_order_def
      nvgpu_balloc_page_size_to_pte_size_def gva_def balloc_do_alloc_def find_from.simps[of _ 0] find_from.simps[of _ "Suc 0"] balloc_find_buddy_def in_orders_def
      split_down.simps[of _ _ _ 0] split_down.simps[of _ _ _ "Suc 0"] balloc_split_buddy_def balloc_new_buddy_def balloc_order_to_len_def safe_simps upd_bud_def
      balloc_blist_add_def balloc_blist_rem_def balloc_buddy_list_do_add_def balloc_buddy_list_do_rem_def balloc_alloc_buddy_def Let_def leak_values)

lemma pair_fixed: "\<exists>a. nvgpu_balloc_fixed_buddy_locked True (\<lambda>_. False) pair_buddy 4096 8192 page_size = Some (4096, a)"
  using nvgpu_ffs_power2[of 1]
  by (simp add: nvgpu_balloc_fixed_buddy_locked_def leak_values safe_simps nvgpu_balloc_page_size_to_pte_size_def gva_def
      pair_buddy_def zero_buddy_allocator_def balloc_is_range_free_def balloc_do_alloc_fixed_def balloc_base_shift_def fixed_loop.simps[of _ _ _ _ 0]
      fixed_loop.simps[of _ _ _ _ 8192] balloc_order_to_len_def in_orders_def balloc_base_unshift_def balloc_make_fixed_buddy_def
      climb_orders.simps[of _ _ "Suc 0"] balloc_max_order_in_def balloc_get_target_buddy.simps upd_bud_def balloc_blist_add_def balloc_blist_rem_def
      balloc_buddy_list_do_add_def balloc_buddy_list_do_rem_def balloc_alloc_buddy_def Let_def balloc_alloc_fixed_def)

text \<open>C4: The range that \<open>nvgpu_buddy_balloc\<close> returns is the caller's alone: whatever requests and releases of other addresses follow,
  all of them return, the range stays allocated, and a later request gets a range of at least the size it asks for, inside the
  limits of the allocator and disjoint from it.\<close>

theorem buddy_alloc_exclusive:
  assumes "buddy_plain s" "len \<le> U64_MAX" "buddy_budget s (Suc (length ops + 1))" "buddy.sizes_fit s ops" "len2 \<le> U64_MAX"
    and "nvgpu_buddy_balloc oom s len = Some (a, s1)" "a \<noteq> 0" "Op_free a \<notin> set ops"
  shows "\<exists>l rs s2 b s3. len \<le> l \<and> buddy.run_ops ops s1 = Some (rs, s2) \<and> (a, l) \<in> buddy_live s2 \<and>
    nvgpu_buddy_balloc oom2 s2 len2 = Some (b, s3) \<and>
    (b \<noteq> 0 \<longrightarrow> (\<exists>l2\<ge>len2. (b, l2) \<in> buddy_live s3 \<and> ranges_disjoint a (a + l) b (b + l2) \<and> by_start s \<le> b \<and> b + l2 \<le> by_end s))"
  using buddy.alloc_exclusive[of s len ops len2 oom a s1 oom2] assms by (simp add: buddy_fits_def buddy_limits_def)

theorem buddy_alloc_exclusive_witness:
  "\<exists>s1 l rs s2 b s3. nvgpu_buddy_balloc (\<lambda>_. False) pair_buddy 4096 = Some (4096, s1) \<and>
     buddy.run_ops [Op_alloc (\<lambda>_. False) 4096, Op_free 8192] s1 = Some (rs, s2) \<and> 4096 \<le> l \<and> (4096, l) \<in> buddy_live s2 \<and>
     nvgpu_buddy_balloc (\<lambda>_. False) s2 4096 = Some (b, s3)"
proof -
  obtain s1 where s1: "nvgpu_buddy_balloc (\<lambda>_. False) pair_buddy 4096 = Some (4096, s1)" using pair_first by blast
  show ?thesis
    using buddy_alloc_exclusive[of pair_buddy 4096 "[Op_alloc (\<lambda>_. False) 4096, Op_free 8192]" 4096 "\<lambda>_. False" 4096 s1 "\<lambda>_. False"] s1 pair_plain(1)
    by (auto simp: buddy_fits_def buddy_budget_def pair_sel)
qed

text \<open>C5: \<open>nvgpu_buddy_balloc_pte\<close> always returns. On success it hands out one more block, aligned to its size within the range, whose size
  is the least power of two of blocks that holds the request. Otherwise nothing is allocated, and it has one of four reasons: the
  request is empty, memory for a buddy could not be had, every free buddy is smaller than the request, or the allocator serves a GPU
  address space, where a large enough free buddy may be set aside for the other page size and an unknown page size is refused.\<close>

theorem buddy_alloc_smallest:
  assumes "buddy_inv a" "len \<le> U64_MAX"
  shows "\<exists>addr a'. nvgpu_buddy_balloc_pte oom a len page_size = Some (addr, a') \<and> buddy_inv a' \<and>
    (if addr = 0 then buddy_live a' = buddy_live a \<and>
       (len = 0 \<or> (\<exists>n. oom n) \<or> (\<forall>p b. by_heap a p = Some b \<longrightarrow> is_free b \<longrightarrow> bd_end b - bd_start b < len) \<or> gva a)
     else \<exists>k. buddy_live a' = insert (addr, 2 ^ k * by_blk_size a) (buddy_live a) \<and> (addr - by_start a) mod (2 ^ k * by_blk_size a) = 0 \<and>
       len \<le> 2 ^ k * by_blk_size a \<and> (k = 0 \<or> 2 ^ (k - 1) * by_blk_size a < len))"
proof -
  let ?k = "balloc_get_order a len"
  have w: "bwf {} (set (fixed_buddies a)) a" using assms(1) by (simp add: buddy_inv_def)
  obtain addr a' where r: "nvgpu_buddy_balloc_pte oom a len page_size = Some (addr, a')" "buddy_inv a'" "settings a' = settings a"
    "if addr = 0 then acts (by_heap a') = acts (by_heap a) \<and> (\<not> gva a \<longrightarrow> 0 < len \<longrightarrow> (\<exists>n. oom n) \<or>
       (\<forall>p b. by_heap a p = Some b \<longrightarrow> is_free b \<longrightarrow> bd_order b < ?k))
     else 0 < len \<and> (\<exists>p b. acts (by_heap a') = insert (p, b) (acts (by_heap a)) \<and> by_heap a' p = Some b \<and> bd_start b = addr \<and>
       bd_order b = ?k \<and> p \<notin> fst ` acts (by_heap a) \<and> bd_alloced b)" using balloc_pte_ok[OF assms(1)] by blast
  show ?thesis
  proof (cases "addr = 0")
    case True
    have small: "bd_end b - bd_start b < len" if b: "by_heap a p = Some b" "bd_order b < ?k" and l: "0 < len" for p b
    proof -
      have "2 ^ bd_order b * by_blk_size a \<le> 2 ^ (?k - 1) * by_blk_size a" using b(2) by (intro mult_le_mono1 power_increasing) auto
      also have "\<dots> < len" using get_order_ok(2)[OF bwfD(1)[OF w] l assms(2)] b(2) by auto
      finally show ?thesis using bwf_node(4)[OF w b(1)] by simp
    qed
    have "buddy_live a' = buddy_live a" using r(4) True by (simp add: buddy_live_def)
    moreover have "len = 0 \<or> (\<exists>n. oom n) \<or> (\<forall>p b. by_heap a p = Some b \<longrightarrow> is_free b \<longrightarrow> bd_end b - bd_start b < len) \<or> gva a"
      using r(4) True small by (cases "len = 0"; cases "gva a") (auto 0 4)
    ultimately show ?thesis using r(1,2) True by auto
  next
    case False
    then obtain p b where b: "acts (by_heap a') = insert (p, b) (acts (by_heap a))" "by_heap a' p = Some b" "bd_start b = addr" "bd_order b = ?k" "0 < len"
      using r(4) by auto
    have w': "bwf {} (set (fixed_buddies a')) a'" using r(2) by (simp add: buddy_inv_def)
    note nd = bwf_node[OF w' b(2)] and s = settings_sel[OF r(3)]
    have "buddy_live a' = insert (addr, 2 ^ ?k * by_blk_size a) (buddy_live a)" using b nd(4) s(3) by (simp add: buddy_live_def)
    moreover have "(addr - by_start a) mod (2 ^ ?k * by_blk_size a) = 0" using nd(11) b(3,4) s(1,3) by simp
    ultimately show ?thesis using r(1,2) False get_order_ok[OF bwfD(1)[OF w] b(5) assms(2)] by auto
  qed
qed

theorem buddy_alloc_smallest_witness:
  "\<exists>addr a'. nvgpu_buddy_balloc_pte (\<lambda>_. False) pair_buddy 5000 0 = Some (addr, a') \<and> buddy_inv a'"
  using buddy_alloc_smallest[of pair_buddy 5000 "\<lambda>_. False" 0] pair_plain(1) by (auto simp: buddy_plain_def)

section \<open>Fixed allocations\<close>

text \<open>C6: \<open>nvgpu_balloc_fixed_buddy\<close> on a length that is a multiple of the block size always returns, and either changes nothing that is
  allocated or takes exactly the addresses from \<open>base\<close> to \<open>base + len\<close>, none of which was allocated before; in particular it never
  grants a range that an outstanding allocation covers, although \<open>balloc_is_range_free\<close> does not look for such an allocation.\<close>

theorem buddy_fixed_exact:
  assumes "buddy_inv a" "fixed_ok a" "by_max_order a + by_blk_shift a < 63" "base + len \<le> U64_MAX" "by_blk_size a dvd len"
    and "by_bytes_alloced a + len \<le> U64_MAX" "by_bytes_alloced_real a + len \<le> U64_MAX"
  shows "\<exists>res a'. nvgpu_balloc_fixed_buddy kmalloc_ok oom a base len page_size = Some (res, a') \<and> buddy_inv a' \<and> fixed_ok a' \<and>
    (if res = 0 then held a' = held a \<and> by_fixed_allocs a' = by_fixed_allocs a
     else res = base \<and> 0 < len \<and> by_start a \<le> base \<and> base + len \<le> by_end a \<and> held a \<inter> {base..<base + len} = {} \<and> held a' = held a \<union> {base..<base + len})"
proof -
  obtain res a1 where r: "nvgpu_balloc_fixed_buddy_locked kmalloc_ok oom a base len page_size = Some (res, a1)" "buddy_inv a1" "fixed_ok a1"
    "if res = 0 then acts (by_heap a1) = acts (by_heap a) \<and> by_fixed_allocs a1 = by_fixed_allocs a
     else res = base \<and> 0 < len \<and> by_start a \<le> base \<and> base + len \<le> by_end a \<and> held a \<inter> {base..<base + len} = {} \<and> held a1 = held a \<union> {base..<base + len}"
    using fixed_locked_ok[OF assms, of kmalloc_ok oom page_size] by (auto split: if_splits)
  let ?a = "if res \<noteq> 0 then a1\<lparr>by_alloc_made := True\<rparr> else a1"
  have "nvgpu_balloc_fixed_buddy kmalloc_ok oom a base len page_size = Some (res, ?a)" using r(1) by (simp add: nvgpu_balloc_fixed_buddy_def)
  moreover have "buddy_inv ?a" using r(2) by (simp add: buddy_inv_def fixed_buddies_def gva_def)
  moreover have "fixed_ok ?a" "held ?a = held a1" using r(3) by (simp_all add: fixed_ok_def held_def)
  moreover have "by_fixed_allocs ?a = by_fixed_allocs a1" by simp
  moreover have "held a1 = held a" if "res = 0" using r(4) that by (simp add: held_def)
  ultimately show ?thesis using r(4) by (intro exI[of _ res] exI[of _ ?a]) (cases "res = 0"; simp)
qed

lemma pair_fixed_ok: "fixed_ok pair_buddy"
  by (simp add: fixed_ok_def pair_sel)

theorem buddy_fixed_exact_witness:
  "\<exists>a'. nvgpu_balloc_fixed_buddy True (\<lambda>_. False) pair_buddy 4096 8192 0 = Some (4096, a') \<and> held a' = held pair_buddy \<union> {4096..<12288}"
proof -
  obtain a where "nvgpu_balloc_fixed_buddy True (\<lambda>_. False) pair_buddy 4096 8192 0 = Some (4096, a)"
    using pair_fixed[of 0] by (auto simp: nvgpu_balloc_fixed_buddy_def)
  then show ?thesis using buddy_fixed_exact[of pair_buddy 4096 8192 True "\<lambda>_. False" 0] pair_plain(1) pair_fixed_ok
    by (auto simp: buddy_plain_def pair_sel)
qed

text \<open>Freeing the base of a fixed allocation that has just been made, whatever flags were set and carveouts recorded since.\<close>

lemma fixed_then_free:
  assumes "buddy_inv a" "fixed_ok a" "by_max_order a + by_blk_shift a < 63" "base + len \<le> U64_MAX" "by_blk_size a dvd len"
    and "by_bytes_alloced a + len \<le> U64_MAX" "by_bytes_alloced_real a + len \<le> U64_MAX" and room: "by_bytes_freed a + len \<le> U64_MAX"
    and run: "nvgpu_balloc_fixed_buddy_locked kmalloc_ok oom a base len page_size = Some (base, a0)" and nz: "base \<noteq> 0"
    and a1: "a1 = a0\<lparr>by_alloc_made := m, by_co_list := cs\<rparr>"
  shows "\<exists>a2. nvgpu_buddy_bfree_locked a1 base = Some a2 \<and> buddy_inv a2 \<and> by_fixed_allocs a2 = by_fixed_allocs a \<and>
    acts (by_heap a2) = acts (by_heap a) \<and> by_bytes_freed a2 = by_bytes_freed a + len \<and> by_co_list a2 = cs"
proof -
  obtain f where f: "buddy_inv a0" "by_bytes_freed a0 = by_bytes_freed a" "idx_search base (by_fixed_allocs a) = None"
    "by_fixed_allocs a0 = idx_insert base f (by_fixed_allocs a)" "sum_list (map (size_at (by_heap a0)) (fa_buddies f)) = len"
    "{e \<in> acts (by_heap a0). fst e \<notin> set (fa_buddies f)} = acts (by_heap a)"
    using fixed_locked_ok[OF assms(1-7), of kmalloc_ok oom page_size] run nz by auto
  have so: "idx_sorted (by_fixed_allocs a)" using assms(1) by (simp add: buddy_inv_def)
  have w: "bwf X Y (a0\<lparr>by_alloc_made := m, by_co_list := cs\<rparr>) = bwf X Y a0" for X Y
    by (simp add: bwf_def cfg_ok_def gcfg_def linked_def idx_ok_def counts_ok_def)
  have i1: "buddy_inv a1" using f(1) unfolding a1 buddy_inv_def w by (simp add: fixed_buddies_def gva_def)
  have mem: "(base, f) \<in> set (by_fixed_allocs a1)" by (simp add: a1 f(4) set_idx_insert_new[OF f(3)])
  have ul: "idx_unlink base (by_fixed_allocs a1) = by_fixed_allocs a" using idx_unlink_insert[OF f(3) so] by (simp add: a1 f(4))
  obtain a2 where a2: "balloc_do_free_fixed (a1\<lparr>by_fixed_allocs := by_fixed_allocs a\<rparr>) f = Some a2" "buddy_inv a2" "by_fixed_allocs a2 = by_fixed_allocs a"
    "settings a2 = settings (a1\<lparr>by_fixed_allocs := by_fixed_allocs a\<rparr>)" "by_bytes_freed a2 = by_bytes_freed a + len" "acts (by_heap a2) = acts (by_heap a)"
    using free_fixed_ok[OF i1 mem] room f(2,5,6) unfolding ul by (auto simp: a1)
  have "idx_search base (by_fixed_allocs a1) = Some f" using idx_search_insert[OF so] f(3,4) by (simp add: a1)
  then have "nvgpu_buddy_bfree_locked a1 base = Some a2" using a2(1) ul by (simp add: nvgpu_buddy_bfree_locked_def balloc_free_fixed_def)
  then show ?thesis using a2 settings_sel(10)[OF a2(4)] by (simp add: a1)
qed

text \<open>C7: Freeing the base address that \<open>nvgpu_balloc_fixed_buddy\<close> was given undoes the request: every buddy it took goes back and
  is merged, the same buddies and fixed allocations are outstanding as before, and the bytes freed grow by exactly the length.\<close>

theorem buddy_fixed_roundtrip:
  assumes "buddy_inv a" "fixed_ok a" "by_max_order a + by_blk_shift a < 63" "base + len \<le> U64_MAX" "by_blk_size a dvd len"
    and "by_bytes_alloced a + len \<le> U64_MAX" "by_bytes_alloced_real a + len \<le> U64_MAX" "by_bytes_freed a + len \<le> U64_MAX"
    and "nvgpu_balloc_fixed_buddy kmalloc_ok oom a base len page_size = Some (base, a1)" "base \<noteq> 0"
  shows "\<exists>a2. nvgpu_buddy_bfree a1 base = Some a2 \<and> buddy_inv a2 \<and> by_fixed_allocs a2 = by_fixed_allocs a \<and>
    acts (by_heap a2) = acts (by_heap a) \<and> by_bytes_freed a2 = by_bytes_freed a + len"
proof -
  obtain a0 where a0: "nvgpu_balloc_fixed_buddy_locked kmalloc_ok oom a base len page_size = Some (base, a0)" "a1 = a0\<lparr>by_alloc_made := True\<rparr>"
    using assms(9,10) by (auto simp: nvgpu_balloc_fixed_buddy_def split: bind_splits)
  then show ?thesis using fixed_then_free[OF assms(1-8) a0(1) assms(10), of a1 "by_co_list a0" True] assms(10) by (auto simp: nvgpu_buddy_bfree_def)
qed

theorem buddy_fixed_roundtrip_witness:
  "\<exists>a1 a2. nvgpu_balloc_fixed_buddy True (\<lambda>_. False) pair_buddy 4096 8192 0 = Some (4096, a1) \<and> nvgpu_buddy_bfree a1 4096 = Some a2 \<and>
     acts (by_heap a2) = acts (by_heap pair_buddy) \<and> by_bytes_freed a2 = 8192"
proof -
  obtain a1 where a1: "nvgpu_balloc_fixed_buddy True (\<lambda>_. False) pair_buddy 4096 8192 0 = Some (4096, a1)"
    using pair_fixed[of 0] by (auto simp: nvgpu_balloc_fixed_buddy_def)
  then show ?thesis using buddy_fixed_roundtrip[of pair_buddy 4096 8192 True "\<lambda>_. False" 0 a1] pair_plain(1) pair_fixed_ok
    by (auto simp: buddy_plain_def pair_sel)
qed

section \<open>Carveouts\<close>

lemma reserve_possible_total: "\<forall>t\<in>set ts. co_base t + co_length t \<le> U64_MAX \<Longrightarrow> \<exists>r. reserve_is_possible ts b e = Some r"
  by (induction ts) (auto simp: safe_simps)

text \<open>C8: Reserving a carveout of whole blocks always returns. It succeeds only before the first allocation and inside the range, and then exactly
  the addresses of the carveout, none of which was taken, are held, so that no allocation can be given them; otherwise
  what is held stays the same. Releasing the carveout gives them back and forgets it.\<close>

theorem buddy_carveout_roundtrip:
  assumes "buddy_inv a" "fixed_ok a" "by_max_order a + by_blk_shift a < 63" "co_base co + co_length co \<le> U64_MAX" "by_blk_size a dvd co_length co"
    and "by_bytes_alloced a + co_length co \<le> U64_MAX" "by_bytes_alloced_real a + co_length co \<le> U64_MAX" "by_bytes_freed a + co_length co \<le> U64_MAX"
    and "\<forall>t\<in>set (by_co_list a). co_base t + co_length t \<le> U64_MAX"
  shows "\<exists>r a1. nvgpu_buddy_reserve_co kmalloc_ok oom a co = Some (r, a1) \<and>
    (case r of
       Inl e \<Rightarrow> held a1 = held a \<and> by_co_list a1 = by_co_list a \<and> e \<in> {EINVAL, EBUSY, ENOMEM}
     | Inr _ \<Rightarrow> \<not> by_alloc_made a \<and> by_start a \<le> co_base co \<and> co_base co + co_length co \<le> by_end a \<and>
         held a \<inter> {co_base co..<co_base co + co_length co} = {} \<and> held a1 = held a \<union> {co_base co..<co_base co + co_length co} \<and>
         by_co_list a1 = co # by_co_list a \<and>
         (\<exists>a2. nvgpu_buddy_release_co a1 co = Some a2 \<and> buddy_inv a2 \<and> held a2 = held a \<and> by_fixed_allocs a2 = by_fixed_allocs a \<and> by_co_list a2 = by_co_list a))"
proof -
  let ?b = "co_base co" and ?l = "co_length co"
  obtain p where p: "reserve_is_possible (by_co_list a) ?b (?b + ?l) = Some p" using reserve_possible_total[OF assms(9)] by blast
  obtain res a0 where r: "nvgpu_balloc_fixed_buddy_locked kmalloc_ok oom a ?b ?l BALLOC_PTE_SIZE_ANY = Some (res, a0)" "by_co_list a0 = by_co_list a"
    "if res = 0 then acts (by_heap a0) = acts (by_heap a) else res = ?b \<and> held a \<inter> {?b..<?b + ?l} = {} \<and> held a0 = held a \<union> {?b..<?b + ?l}"
    using fixed_locked_ok[OF assms(1-7), of kmalloc_ok oom BALLOC_PTE_SIZE_ANY] by (auto split: if_splits)
  have add: "nvgpu_safe_add_u64 ?b ?l = Some (?b + ?l)" using assms(4) by (simp add: safe_simps)
  note run = nvgpu_buddy_reserve_co_def[of kmalloc_ok oom a co] nvgpu_buddy_reserve_is_possible_def[of a co] add p r(1)
  show ?thesis
  proof (cases "?b < by_start a \<or> by_end a < ?b + ?l \<or> by_alloc_made a \<or> \<not> p \<or> res = 0")
    case True
    then show ?thesis using r(2,3) by (auto simp: run held_def)
  next
    case False
    then have g: "nvgpu_buddy_reserve_co kmalloc_ok oom a co = Some (Inr (), a0\<lparr>by_co_list := co # by_co_list a\<rparr>)" "res = ?b" "?b \<noteq> 0"
      using r(2,3) by (auto simp: run)
    have "a0\<lparr>by_co_list := by_co_list a\<rparr> = a0\<lparr>by_alloc_made := by_alloc_made a0, by_co_list := by_co_list a\<rparr>" by simp
    from fixed_then_free[OF assms(1-8) r(1)[unfolded g(2)] g(3) this] obtain a2 where a2: "nvgpu_buddy_release_co (a0\<lparr>by_co_list := co # by_co_list a\<rparr>) co = Some a2"
      "buddy_inv a2" "by_fixed_allocs a2 = by_fixed_allocs a" "acts (by_heap a2) = acts (by_heap a)" "by_co_list a2 = by_co_list a"
      by (auto simp: nvgpu_buddy_release_co_def)
    have "held a2 = held a" "held (a0\<lparr>by_co_list := co # by_co_list a\<rparr>) = held a0" using a2(4) by (simp_all add: held_def)
    moreover have "held a \<inter> {?b..<?b + ?l} = {}" "held a0 = held a \<union> {?b..<?b + ?l}" using r(3) g(2,3) by simp_all
    ultimately show ?thesis using g(1) a2 False
      by (intro exI[of _ "Inr ()"] exI[of _ "a0\<lparr>by_co_list := co # by_co_list a\<rparr>"]) simp
  qed
qed

theorem buddy_carveout_roundtrip_witness:
  "\<exists>a1 a2. nvgpu_buddy_reserve_co True (\<lambda>_. False) pair_buddy \<lparr>co_name = [], co_base = 4096, co_length = 8192\<rparr> = Some (Inr (), a1) \<and>
     held a1 = held pair_buddy \<union> {4096..<12288} \<and>
     nvgpu_buddy_release_co a1 \<lparr>co_name = [], co_base = 4096, co_length = 8192\<rparr> = Some a2 \<and> held a2 = held pair_buddy"
proof -
  let ?co = "\<lparr>co_name = [], co_base = 4096, co_length = 8192\<rparr>"
  obtain a0 where "nvgpu_balloc_fixed_buddy_locked True (\<lambda>_. False) pair_buddy 4096 8192 BALLOC_PTE_SIZE_ANY = Some (4096, a0)"
    using pair_fixed by blast
  then have "\<exists>a1. nvgpu_buddy_reserve_co True (\<lambda>_. False) pair_buddy ?co = Some (Inr (), a1)"
    by (simp add: nvgpu_buddy_reserve_co_def nvgpu_buddy_reserve_is_possible_def safe_simps pair_sel)
  then show ?thesis using buddy_carveout_roundtrip[of pair_buddy ?co True "\<lambda>_. False"] pair_plain(1) pair_fixed_ok
    by (auto simp: buddy_plain_def pair_sel)
qed

section \<open>Teardown\<close>

text \<open>C9: \<open>nvgpu_buddy_allocator_destroy\<close> returns whatever is still allocated, by plain or fixed requests: all of it merges back until
  no buddy is split, the counts its assertions test are 0, and every buddy has gone back to the cache.\<close>

theorem buddy_destroy_clean:
  assumes "buddy_inv a" "by_bytes_freed a + sum_list (map (size_at (by_heap a)) (fixed_buddies a)) \<le> U64_MAX"
  shows "\<exists>a'. nvgpu_buddy_allocator_destroy a = Some a' \<and> by_heap a' = Map.empty"
  using destroy_ok[OF assms] .

theorem buddy_destroy_clean_witness:
  "\<exists>a'. nvgpu_buddy_allocator_destroy pair_buddy = Some a' \<and> by_heap a' = Map.empty"
  using buddy_destroy_clean[of pair_buddy] pair_plain(1) by (simp add: buddy_plain_def fixed_buddies_def pair_sel)

end
