(* ===== verification/Page_Allocator.thy ===== *)
theory Page_Allocator
  imports Buddy
begin

text \<open>
  The page allocator, \<^verbatim>\<open>common/mm/allocators/page_allocator.c\<close> and \<^verbatim>\<open>include/nvgpu/page_allocator.h\<close>: allocations made of
  chunks of pages that come from a buddy allocator, and small allocations cut out of slab pages. The source
  allocator's entry points lead to the operations of \<^verbatim>\<open>buddy_allocator.c\<close>. Allocation records and slab pages are
  objects at addresses; the scatter-gather list of an allocation is the sequence of its nodes, and
  \<open>pg_sgls\<close> counts the nodes that have been allocated and not freed. Every operation runs under the allocator's lock.
\<close>

section \<open>State\<close>

abbreviation (input) GPU_ALLOC_4K_VIDMEM_PAGES :: nat where "GPU_ALLOC_4K_VIDMEM_PAGES \<equiv> 2"
abbreviation (input) GPU_ALLOC_FORCE_CONTIG :: nat where "GPU_ALLOC_FORCE_CONTIG \<equiv> 3"
abbreviation (input) GPU_ALLOC_NO_SCATTER_GATHER :: nat where "GPU_ALLOC_NO_SCATTER_GATHER \<equiv> 4"

datatype slab_page_state = SP_EMPTY | SP_PARTIAL | SP_FULL | SP_NONE

text \<open>The three lists of a slab and their counters, by the state of the pages they hold.\<close>

record page_alloc_slab =
  sl_list :: "slab_page_state \<Rightarrow> nat list"
  sl_nr :: "slab_page_state \<Rightarrow> u32"
  sl_slab_size :: u32

text \<open>The bitmap is a single word; the owner is the position of the slab.\<close>

record page_alloc_slab_page =
  sp_bitmap :: "ulong list"
  sp_page_addr :: u64
  sp_slab_size :: u32
  sp_nr_objects :: u32
  sp_nr_objects_alloced :: u32
  sp_state :: slab_page_state
  sp_owner :: nat

record nvgpu_mem_sgl =
  sg_phys :: u64
  sg_dma :: u64
  sg_length :: u64

record nvgpu_page_alloc =
  al_sgl :: "nvgpu_mem_sgl list"
  al_nr_chunks :: nat
  al_length :: u64
  al_base :: u64
  al_slab_page :: "nat option"

record nvgpu_page_allocator =
  pg_source :: nvgpu_buddy_allocator
  pg_base :: u64
  pg_length :: u64
  pg_page_size :: u64
  pg_page_shift :: u32
  pg_allocs :: "nat index"
  pg_slabs :: "page_alloc_slab list"
  pg_nr_slabs :: u32
  pg_flags :: u64
  pg_nr_allocs :: u64
  pg_nr_frees :: u64
  pg_nr_fixed_allocs :: u64
  pg_nr_fixed_frees :: u64
  pg_nr_slab_allocs :: u64
  pg_nr_slab_frees :: u64
  pg_pages_alloced :: u64
  pg_pages_freed :: u64
  pg_heap :: "nat \<rightharpoonup> nvgpu_page_alloc"
  pg_slab_heap :: "nat \<rightharpoonup> page_alloc_slab_page"
  pg_fresh :: nat
  pg_requests :: nat
  pg_sgls :: nat

text \<open>What the environment decides: which requests for buddies and for other memory fail, and what a new object of the cache of
  allocation records contains.\<close>

record page_env =
  pe_oom :: "nat \<Rightarrow> bool"
  pe_nomem :: "nat \<Rightarrow> bool"
  pe_junk :: nvgpu_page_alloc

definition pg_request :: "page_env \<Rightarrow> nvgpu_page_allocator \<Rightarrow> bool \<times> nvgpu_page_allocator" where
  "pg_request e a = (\<not> pe_nomem e (pg_requests a), a\<lparr>pg_requests := pg_requests a + 1\<rparr>)"

definition nvgpu_safe_cast_u64_to_u32 :: "u64 \<Rightarrow> u32 option" where
  "nvgpu_safe_cast_u64_to_u32 x = (if x > U32_MAX then BUG else Some x)"

text \<open>The file's own \<open>PAGE_ALIGN\<close>: the mask is a complement at 32 bits.\<close>

definition page_align_vid :: "u64 \<Rightarrow> u64 option" where
  "page_align_vid addr = do { s \<leftarrow> nvgpu_safe_add_u64 addr (4096 - 1); Some (s AND 4294963200) }"

section \<open>Lists of slab pages\<close>

definition add_slab_page :: "slab_page_state \<Rightarrow> nat \<Rightarrow> nat \<Rightarrow> nvgpu_page_allocator \<Rightarrow> nvgpu_page_allocator option" where
  "add_slab_page st i p a =
     do {
       sp \<leftarrow> pg_slab_heap a p;
       nvgpu_assert (sp_state sp = SP_NONE);
       s \<leftarrow> load (pg_slabs a) i;
       nvgpu_assert (sl_nr s st < U32_MAX);
       Some (a\<lparr>pg_slabs := (pg_slabs a)[i := s\<lparr>sl_list := (sl_list s)(st := p # sl_list s st), sl_nr := (sl_nr s)(st := sl_nr s st + 1)\<rparr>],
               pg_slab_heap := (pg_slab_heap a)(p \<mapsto> sp\<lparr>sp_state := st\<rparr>)\<rparr>) }"

definition add_slab_page_to_empty :: "nat \<Rightarrow> nat \<Rightarrow> nvgpu_page_allocator \<Rightarrow> nvgpu_page_allocator option" where
  "add_slab_page_to_empty = add_slab_page SP_EMPTY"

definition add_slab_page_to_partial :: "nat \<Rightarrow> nat \<Rightarrow> nvgpu_page_allocator \<Rightarrow> nvgpu_page_allocator option" where
  "add_slab_page_to_partial = add_slab_page SP_PARTIAL"

definition add_slab_page_to_full :: "nat \<Rightarrow> nat \<Rightarrow> nvgpu_page_allocator \<Rightarrow> nvgpu_page_allocator option" where
  "add_slab_page_to_full = add_slab_page SP_FULL"

text \<open>\<open>nvgpu_list_del\<close> takes the page out of whichever list it is in.\<close>

definition del_slab_page :: "slab_page_state \<Rightarrow> nat \<Rightarrow> nat \<Rightarrow> nvgpu_page_allocator \<Rightarrow> nvgpu_page_allocator option" where
  "del_slab_page st i p a =
     do {
       sp \<leftarrow> pg_slab_heap a p;
       s \<leftarrow> load (pg_slabs a) i;
       nvgpu_assert (sl_nr s st > 0);
       Some (a\<lparr>pg_slabs := (pg_slabs a)[i := s\<lparr>sl_list := (\<lambda>t. removeAll p (sl_list s t)), sl_nr := (sl_nr s)(st := sl_nr s st - 1)\<rparr>],
               pg_slab_heap := (pg_slab_heap a)(p \<mapsto> sp\<lparr>sp_state := SP_NONE\<rparr>)\<rparr>) }"

definition del_slab_page_from_empty :: "nat \<Rightarrow> nat \<Rightarrow> nvgpu_page_allocator \<Rightarrow> nvgpu_page_allocator option" where
  "del_slab_page_from_empty = del_slab_page SP_EMPTY"

definition del_slab_page_from_partial :: "nat \<Rightarrow> nat \<Rightarrow> nvgpu_page_allocator \<Rightarrow> nvgpu_page_allocator option" where
  "del_slab_page_from_partial = del_slab_page SP_PARTIAL"

definition del_slab_page_from_full :: "nat \<Rightarrow> nat \<Rightarrow> nvgpu_page_allocator \<Rightarrow> nvgpu_page_allocator option" where
  "del_slab_page_from_full = del_slab_page SP_FULL"

section \<open>Queries and carveouts\<close>

definition nvgpu_page_alloc_length :: "nvgpu_page_allocator \<Rightarrow> u64" where
  "nvgpu_page_alloc_length a = nvgpu_buddy_alloc_length (pg_source a)"

definition nvgpu_page_alloc_base :: "nvgpu_page_allocator \<Rightarrow> u64" where
  "nvgpu_page_alloc_base a = nvgpu_buddy_alloc_base (pg_source a)"

definition nvgpu_page_alloc_inited :: "nvgpu_page_allocator \<Rightarrow> bool" where
  "nvgpu_page_alloc_inited a = nvgpu_buddy_alloc_inited (pg_source a)"

definition nvgpu_page_alloc_end :: "nvgpu_page_allocator \<Rightarrow> u64" where
  "nvgpu_page_alloc_end a = nvgpu_buddy_alloc_end (pg_source a)"

definition nvgpu_page_alloc_space :: "nvgpu_page_allocator \<Rightarrow> u64 option" where
  "nvgpu_page_alloc_space a = nvgpu_buddy_alloc_space (pg_source a)"

definition nvgpu_page_reserve_co ::
    "page_env \<Rightarrow> nvgpu_page_allocator \<Rightarrow> nvgpu_alloc_carveout \<Rightarrow> (unit result \<times> nvgpu_page_allocator) option" where
  "nvgpu_page_reserve_co e a co =
     (let (ok, a) = pg_request e a in do {
        (r, s) \<leftarrow> nvgpu_buddy_reserve_co ok (pe_oom e) (pg_source a) co;
        Some (r, a\<lparr>pg_source := s\<rparr>) })"

definition nvgpu_page_release_co :: "nvgpu_page_allocator \<Rightarrow> nvgpu_alloc_carveout \<Rightarrow> nvgpu_page_allocator option" where
  "nvgpu_page_release_co a co = do { s \<leftarrow> nvgpu_buddy_release_co (pg_source a) co; Some (a\<lparr>pg_source := s\<rparr>) }"

section \<open>Records of allocations\<close>

definition alloc_record :: "page_env \<Rightarrow> nvgpu_page_alloc \<Rightarrow> nvgpu_page_allocator \<Rightarrow> nat option \<times> nvgpu_page_allocator" where
  "alloc_record e al a =
     (case pg_request e a of
        (ok, a) \<Rightarrow>
          if ok then (Some (pg_fresh a), a\<lparr>pg_heap := (pg_heap a)(pg_fresh a \<mapsto> al), pg_fresh := pg_fresh a + 1\<rparr>) else (None, a))"

definition free_record :: "nat \<Rightarrow> nvgpu_page_allocator \<Rightarrow> nvgpu_page_allocator" where
  "free_record p a = a\<lparr>pg_heap := (pg_heap a)(p := None)\<rparr>"

text \<open>Giving chunks back to the source, one after the other.\<close>

fun free_chunks :: "nvgpu_mem_sgl list \<Rightarrow> nvgpu_buddy_allocator \<Rightarrow> nvgpu_buddy_allocator option" where
  "free_chunks [] s = Some s"
| "free_chunks (c # cs) s = do { s \<leftarrow> nvgpu_buddy_bfree s (sg_phys c); free_chunks cs s }"

text \<open>The walk that frees the chunks leaves its pointer at the end of the list, where the one that frees the nodes starts.\<close>

definition nvgpu_page_alloc_sgl_proper_free :: "nvgpu_mem_sgl list \<Rightarrow> nvgpu_page_allocator \<Rightarrow> nvgpu_page_allocator" where
  "nvgpu_page_alloc_sgl_proper_free sgl a = a\<lparr>pg_sgls := pg_sgls a - length sgl\<rparr>"

definition nvgpu_page_alloc_free_pages :: "nat \<Rightarrow> bool \<Rightarrow> nvgpu_page_allocator \<Rightarrow> nvgpu_page_allocator option" where
  "nvgpu_page_alloc_free_pages p free_buddy_alloc a =
     do {
       al \<leftarrow> pg_heap a p;
       (sgl, a) \<leftarrow>
         (if free_buddy_alloc
          then do { s \<leftarrow> free_chunks (al_sgl al) (pg_source a); Some ([], a\<lparr>pg_source := s\<rparr>) }
          else Some (al_sgl al, a));
       Some (free_record p (nvgpu_page_alloc_sgl_proper_free sgl a)) }"

definition insert_page_alloc :: "nat \<Rightarrow> nvgpu_page_allocator \<Rightarrow> nvgpu_page_allocator option" where
  "insert_page_alloc p a =
     do {
       al \<leftarrow> pg_heap a p;
       key_end \<leftarrow> nvgpu_safe_add_u64 (al_base al) (al_length al);
       Some (a\<lparr>pg_allocs := idx_insert (al_base al) p (pg_allocs a)\<rparr>) }"

definition find_page_alloc :: "u64 \<Rightarrow> nvgpu_page_allocator \<Rightarrow> nat option \<times> nvgpu_page_allocator" where
  "find_page_alloc addr a =
     (case idx_search addr (pg_allocs a) of
        None \<Rightarrow> (None, a)
      | Some p \<Rightarrow> (Some p, a\<lparr>pg_allocs := idx_unlink addr (pg_allocs a)\<rparr>))"

section \<open>Slabs\<close>

definition alloc_slab_page :: "page_env \<Rightarrow> nat \<Rightarrow> nvgpu_page_allocator \<Rightarrow> (nat option \<times> nvgpu_page_allocator) option" where
  "alloc_slab_page e i a =
     (case pg_request e a of
        (ok, a) \<Rightarrow>
          if \<not> ok then Some (None, a)
          else do {
          (addr, s) \<leftarrow> nvgpu_buddy_balloc (pe_oom e) (pg_source a) (pg_page_size a);
          let a = a\<lparr>pg_source := s\<rparr>;
          if addr = 0 then Some (None, a)
          else do {
            slab \<leftarrow> load (pg_slabs a) i;
            sz \<leftarrow> nvgpu_safe_cast_u64_to_u32 (pg_page_size a);
            nvgpu_assert (sl_slab_size slab > 0);
            nvgpu_assert (pg_pages_alloced a < U64_MAX);
            let p = pg_fresh a;
            Some (Some p, a\<lparr>pg_fresh := p + 1, pg_pages_alloced := pg_pages_alloced a + 1, pg_slab_heap := (pg_slab_heap a)(p \<mapsto>
              \<lparr>sp_bitmap = [0], sp_page_addr = addr, sp_slab_size = sl_slab_size slab, sp_nr_objects = sz div sl_slab_size slab,
               sp_nr_objects_alloced = 0, sp_state = SP_NONE, sp_owner = i\<rparr>)\<rparr>) } })"

definition free_slab_page :: "nat \<Rightarrow> nvgpu_page_allocator \<Rightarrow> nvgpu_page_allocator option" where
  "free_slab_page p a =
     do {
       sp \<leftarrow> pg_slab_heap a p;
       nvgpu_assert (\<not> (sp_state sp \<noteq> SP_NONE \<and> sp_state sp \<noteq> SP_EMPTY \<or> sp_nr_objects_alloced sp \<noteq> 0 \<or> sp_bitmap sp \<noteq> [0]));
       s \<leftarrow> nvgpu_buddy_bfree (pg_source a) (sp_page_addr sp);
       nvgpu_assert (pg_pages_freed a < U64_MAX);
       Some (a\<lparr>pg_source := s, pg_pages_freed := pg_pages_freed a + 1, pg_slab_heap := (pg_slab_heap a)(p := None)\<rparr>) }"

text \<open>The page to cut the next object from: a partial one, an empty one, or a new one.\<close>

definition take_slab_page :: "page_env \<Rightarrow> nat \<Rightarrow> nvgpu_page_allocator \<Rightarrow> (nat option \<times> nvgpu_page_allocator) option" where
  "take_slab_page e i a =
     do {
       slab \<leftarrow> load (pg_slabs a) i;
       (case sl_list slab SP_PARTIAL of
          p # _ \<Rightarrow> do { a \<leftarrow> del_slab_page_from_partial i p a; Some (Some p, a) }
        | [] \<Rightarrow>
            (case sl_list slab SP_EMPTY of
               p # _ \<Rightarrow> do { a \<leftarrow> del_slab_page_from_empty i p a; Some (Some p, a) }
             | [] \<Rightarrow> alloc_slab_page e i a)) }"

definition do_slab_alloc ::
    "page_env \<Rightarrow> nat \<Rightarrow> nvgpu_page_alloc \<Rightarrow> nvgpu_page_allocator \<Rightarrow> (nvgpu_page_alloc result \<times> nvgpu_page_allocator) option" where
  "do_slab_alloc e i al a =
     do {
       (page, a) \<leftarrow> take_slab_page e i a;
       (case page of
          None \<Rightarrow> Some (Inl ENOMEM, a)
        | Some p \<Rightarrow> do {
            sp \<leftarrow> pg_slab_heap a p;
            offs \<leftarrow> bitmap_find_next_zero_area (sp_bitmap sp) (sp_nr_objects sp) 0 1 0;
            if offs \<ge> sp_nr_objects sp
            then do { a \<leftarrow> add_slab_page_to_full i p a; Some (Inl ENOMEM, a) }
            else do {
              nvgpu_assert (offs \<le> U32_MAX);
              m \<leftarrow> nvgpu_bitmap_set (sp_bitmap sp) offs 1;
              nvgpu_assert (sp_nr_objects_alloced sp < U32_MAX);
              let sp = sp\<lparr>sp_bitmap := m, sp_nr_objects_alloced := sp_nr_objects_alloced sp + 1\<rparr>;
              let a = a\<lparr>pg_slab_heap := (pg_slab_heap a)(p \<mapsto> sp)\<rparr>;
              a \<leftarrow> (if sp_nr_objects_alloced sp < sp_nr_objects sp then add_slab_page_to_partial i p a
                     else if sp_nr_objects_alloced sp = sp_nr_objects sp then add_slab_page_to_full i p a
                     else BUG);
              off \<leftarrow> nvgpu_safe_mult_u64 offs (sp_slab_size sp);
              base \<leftarrow> nvgpu_safe_add_u64 (sp_page_addr sp) off;
              Some (Inr (al\<lparr>al_slab_page := Some p, al_nr_chunks := 1, al_length := sp_slab_size sp, al_base := base,
                           al_sgl := [\<lparr>sg_phys = base, sg_dma = base, sg_length = sp_slab_size sp\<rparr>]\<rparr>), a) } }) }"

definition nvgpu_alloc_slab :: "page_env \<Rightarrow> u64 \<Rightarrow> nvgpu_page_allocator \<Rightarrow> (nat option \<times> nvgpu_page_allocator) option" where
  "nvgpu_alloc_slab e len a =
     do {
       n \<leftarrow> page_align_vid len;
       let aligned_page = n div 2 ^ 12;
       if aligned_page = 0 then Some (None, a)
       else do {
         slab_nr \<leftarrow> nvgpu_ilog2 aligned_page;
         (case alloc_record e (pe_junk e) a of
            (None, a) \<Rightarrow> Some (None, a)
          | (Some p, a) \<Rightarrow>
              (case pg_request e a of
                 (ok, a) \<Rightarrow>
                   if \<not> ok then Some (None, free_record p a)
                   else do {
                   (r, a) \<leftarrow> do_slab_alloc e slab_nr (pe_junk e) (a\<lparr>pg_sgls := pg_sgls a + 1\<rparr>);
                   (case r of
                      Inl _ \<Rightarrow> Some (None, free_record p (a\<lparr>pg_sgls := pg_sgls a - 1\<rparr>))
                    | Inr al \<Rightarrow> do {
                        nvgpu_assert (pg_nr_slab_allocs a < U64_MAX);
                        Some (Some p, a\<lparr>pg_heap := (pg_heap a)(p \<mapsto> al), pg_nr_slab_allocs := pg_nr_slab_allocs a + 1\<rparr>) }) })) } }"

definition nvgpu_free_slab :: "nat \<Rightarrow> nvgpu_page_allocator \<Rightarrow> nvgpu_page_allocator option" where
  "nvgpu_free_slab p a =
     do {
       al \<leftarrow> pg_heap a p;
       q \<leftarrow> al_slab_page al;
       sp \<leftarrow> pg_slab_heap a q;
       let i = sp_owner sp;
       d \<leftarrow> nvgpu_safe_sub_u64 (al_base al) (sp_page_addr sp);
       d \<leftarrow> nvgpu_safe_cast_u64_to_u32 d;
       nvgpu_assert (sp_slab_size sp > 0);
       m \<leftarrow> nvgpu_bitmap_clear (sp_bitmap sp) (d div sp_slab_size sp) 1;
       nvgpu_assert (sp_nr_objects_alloced sp < U32_MAX);
       let sp = sp\<lparr>sp_bitmap := m, sp_nr_objects_alloced := wsub32 (sp_nr_objects_alloced sp) 1\<rparr>;
       let a = a\<lparr>pg_slab_heap := (pg_slab_heap a)(q \<mapsto> sp)\<rparr>;
       let new_state = (if sp_nr_objects_alloced sp = 0 then SP_EMPTY else SP_PARTIAL);
       a \<leftarrow> (if new_state \<noteq> sp_state sp
              then do {
                a \<leftarrow> (if sp_state sp = SP_PARTIAL then del_slab_page_from_partial i q a else del_slab_page_from_full i q a);
                if new_state = SP_EMPTY
                then do {
                  slab \<leftarrow> load (pg_slabs a) i;
                  if sl_list slab SP_EMPTY = [] then add_slab_page_to_empty i q a else free_slab_page q a }
                else add_slab_page_to_partial i q a }
              else Some a);
       a \<leftarrow> nvgpu_page_alloc_free_pages p False a;
       nvgpu_assert (pg_nr_slab_frees a < U64_MAX);
       Some (a\<lparr>pg_nr_slab_frees := pg_nr_slab_frees a + 1\<rparr>) }"

section \<open>Pages\<close>

text \<open>The inner loop: the address found (0 for none), the length it has or the length given up at, and the new limit.\<close>

partial_function (option) find_chunk ::
    "page_env \<Rightarrow> u64 \<Rightarrow> u64 \<Rightarrow> u64 \<Rightarrow> nvgpu_buddy_allocator \<Rightarrow> (u64 \<times> u64 \<times> u64 \<times> nvgpu_buddy_allocator) option" where
  "find_chunk e page_size chunk_len max_chunk_len s =
     Option.bind (nvgpu_buddy_balloc (pe_oom e) s chunk_len) (\<lambda>(chunk_addr, s).
       if chunk_addr \<noteq> 0 then Some (chunk_addr, chunk_len, max_chunk_len, s)
       else if chunk_len div 2 \<ge> page_size then find_chunk e page_size (chunk_len div 2) (chunk_len div 2) s
       else Some (0, chunk_len div 2, chunk_len div 2, s))"

text \<open>The outer loop: whether all pages were had, how many chunks they are, and the chunks.\<close>

partial_function (option) alloc_chunks ::
    "page_env \<Rightarrow> u64 \<Rightarrow> u64 \<Rightarrow> nat \<Rightarrow> nvgpu_mem_sgl list \<Rightarrow> nvgpu_page_allocator \<Rightarrow>
       (bool \<times> nat \<times> nvgpu_mem_sgl list \<times> nvgpu_page_allocator) option" where
  "alloc_chunks e pages max_chunk_len i sgl a =
     (if pages = 0 then Some (True, i, sgl, a)
      else if bit (pg_flags a) GPU_ALLOC_FORCE_CONTIG \<and> i \<noteq> 0 then Some (False, i, sgl, a)
      else Option.bind (find_chunk e (pg_page_size a) (min (wrap64 (2 ^ (nvgpu_fls pages - 1) * 2 ^ pg_page_shift a)) max_chunk_len)
                          max_chunk_len (pg_source a)) (\<lambda>(chunk_addr, chunk_len, max_chunk_len, s).
        if chunk_addr = 0 then Some (False, i, sgl, a\<lparr>pg_source := s\<rparr>)
        else case pg_request e (a\<lparr>pg_source := s\<rparr>) of (ok, a) \<Rightarrow>
          if \<not> ok then Option.bind (nvgpu_buddy_bfree (pg_source a) chunk_addr) (\<lambda>s. Some (False, i, sgl, a\<lparr>pg_source := s\<rparr>))
          else Option.bind (nvgpu_safe_sub_u64 pages (chunk_len div 2 ^ pg_page_shift a)) (\<lambda>pages.
            alloc_chunks e pages max_chunk_len (i + 1) (sgl @ [\<lparr>sg_phys = chunk_addr, sg_dma = chunk_addr, sg_length = chunk_len\<rparr>])
              (a\<lparr>pg_sgls := pg_sgls a + 1\<rparr>))))"

definition do_nvgpu_alloc_pages :: "page_env \<Rightarrow> u64 \<Rightarrow> nvgpu_page_allocator \<Rightarrow> (nat option \<times> nvgpu_page_allocator) option" where
  "do_nvgpu_alloc_pages e pages a =
     (let len = wrap64 (pages * 2 ^ pg_page_shift a);
          al = \<lparr>al_sgl = [], al_nr_chunks = 0, al_length = len, al_base = 0, al_slab_page = None\<rparr> in
      case alloc_record e al a of
        (None, a) \<Rightarrow> Some (None, a)
      | (Some p, a) \<Rightarrow> do {
          (done, i, sgl, a) \<leftarrow> alloc_chunks e pages len 0 [] a;
          if done
          then (case sgl of
                  [] \<Rightarrow> None
                | c # _ \<Rightarrow> Some (Some p, a\<lparr>pg_heap := (pg_heap a)(p \<mapsto> al\<lparr>al_sgl := sgl, al_nr_chunks := i, al_base := sg_phys c\<rparr>)\<rparr>))
          else do {
            s \<leftarrow> free_chunks sgl (pg_source a);
            Some (None, free_record p (a\<lparr>pg_source := s, pg_sgls := pg_sgls a - length sgl\<rparr>)) } })"

definition nvgpu_alloc_pages :: "page_env \<Rightarrow> u64 \<Rightarrow> nvgpu_page_allocator \<Rightarrow> (nat option \<times> nvgpu_page_allocator) option" where
  "nvgpu_alloc_pages e len a = do { n \<leftarrow> NVGPU_ALIGN len (pg_page_size a); do_nvgpu_alloc_pages e (n div 2 ^ pg_page_shift a) a }"

section \<open>Requests and releases\<close>

definition nvgpu_page_palloc :: "page_env \<Rightarrow> nvgpu_page_allocator \<Rightarrow> u64 \<Rightarrow> (u64 \<times> nvgpu_page_allocator) option" where
  "nvgpu_page_palloc e a len =
     do {
       real_len \<leftarrow> (if bit (pg_flags a) GPU_ALLOC_FORCE_CONTIG then roundup_pow_of_two len else Some len);
       (alloc, a) \<leftarrow> (if bit (pg_flags a) GPU_ALLOC_4K_VIDMEM_PAGES \<and> real_len \<le> pg_page_size a div 2
                       then nvgpu_alloc_slab e real_len a else nvgpu_alloc_pages e real_len a);
       (case alloc of
          None \<Rightarrow> Some (0, a)
        | Some p \<Rightarrow> do {
            a \<leftarrow> insert_page_alloc p a;
            nvgpu_assert (pg_nr_allocs a < U64_MAX);
            al \<leftarrow> pg_heap a p;
            let a = a\<lparr>pg_nr_allocs := pg_nr_allocs a + 1\<rparr>;
            let a = (if real_len > pg_page_size a div 2
                     then a\<lparr>pg_pages_alloced := wrap64 (pg_pages_alloced a + al_length al div 2 ^ pg_page_shift a)\<rparr> else a);
            Some (if bit (pg_flags a) GPU_ALLOC_NO_SCATTER_GATHER then al_base al else p, a) }) }"

definition nvgpu_page_free :: "nvgpu_page_allocator \<Rightarrow> u64 \<Rightarrow> nvgpu_page_allocator option" where
  "nvgpu_page_free a base =
     do {
       addr \<leftarrow> (if bit (pg_flags a) GPU_ALLOC_NO_SCATTER_GATHER then Some base else map_option al_base (pg_heap a base));
       (case find_page_alloc addr a of
          (None, a) \<Rightarrow> Some a
        | (Some p, a) \<Rightarrow> do {
            nvgpu_assert (pg_nr_frees a < U64_MAX);
            let a = a\<lparr>pg_nr_frees := pg_nr_frees a + 1\<rparr>;
            al \<leftarrow> pg_heap a p;
            if al_slab_page al \<noteq> None then nvgpu_free_slab p a
            else do {
              n \<leftarrow> nvgpu_safe_add_u64 (pg_pages_freed a) (al_length al div 2 ^ pg_page_shift a);
              nvgpu_page_alloc_free_pages p True (a\<lparr>pg_pages_freed := n\<rparr>) } }) }"

text \<open>The record and the node are both requested before either is looked at. The request reaches the source through
  \<open>nvgpu_alloc_fixed\<close>, which answers 0 without asking it when the end of the range is beyond the largest address.\<close>

definition nvgpu_alloc_pages_fixed :: "page_env \<Rightarrow> u64 \<Rightarrow> u64 \<Rightarrow> nvgpu_page_allocator \<Rightarrow> (nat option \<times> nvgpu_page_allocator) option" where
  "nvgpu_alloc_pages_fixed e base len a =
     (case alloc_record e (pe_junk e) a of
        (r, a) \<Rightarrow> (case pg_request e a of
          (ok, a) \<Rightarrow>
            (case r of
               None \<Rightarrow> Some (None, a)
             | Some p \<Rightarrow>
                 if \<not> ok then Some (None, free_record p a)
                 else if U64_MAX - base < len then Some (None, free_record p a)
                 else (case pg_request e a of
                   (kmalloc_ok, a) \<Rightarrow> do {
                     (addr, s) \<leftarrow> nvgpu_balloc_fixed_buddy kmalloc_ok (pe_oom e) (pg_source a) base len 0;
                     let a = a\<lparr>pg_source := s\<rparr>;
                     if addr = 0 then Some (None, free_record p a)
                     else Some (Some p, a\<lparr>pg_sgls := pg_sgls a + 1, pg_heap := (pg_heap a)(p \<mapsto> (pe_junk e)\<lparr>al_base := addr, al_nr_chunks := 1, al_length := len,
                       al_sgl := [\<lparr>sg_phys = addr, sg_dma = addr, sg_length = len\<rparr>]\<rparr>)\<rparr>) }))))"

definition nvgpu_page_palloc_fixed :: "page_env \<Rightarrow> nvgpu_page_allocator \<Rightarrow> u64 \<Rightarrow> u64 \<Rightarrow> u32 \<Rightarrow> (u64 \<times> nvgpu_page_allocator) option" where
  "nvgpu_page_palloc_fixed e a base len page_size =
     do {
       aligned_len \<leftarrow> NVGPU_ALIGN len (pg_page_size a);
       let pages = aligned_len div 2 ^ pg_page_shift a;
       (alloc, a) \<leftarrow> nvgpu_alloc_pages_fixed e base aligned_len a;
       (case alloc of
          None \<Rightarrow> Some (0, a)
        | Some p \<Rightarrow> do {
            a \<leftarrow> insert_page_alloc p a;
            nvgpu_assert (pg_nr_fixed_allocs a < U64_MAX);
            n \<leftarrow> nvgpu_safe_add_u64 (pg_pages_alloced a) pages;
            al \<leftarrow> pg_heap a p;
            Some (if bit (pg_flags a) GPU_ALLOC_NO_SCATTER_GATHER then al_base al else p,
                  a\<lparr>pg_nr_fixed_allocs := pg_nr_fixed_allocs a + 1, pg_pages_alloced := n\<rparr>) }) }"

text \<open>With scatter-gather lists the record is not taken out of the tree.\<close>

definition nvgpu_page_free_fixed :: "nvgpu_page_allocator \<Rightarrow> u64 \<Rightarrow> u64 \<Rightarrow> nvgpu_page_allocator option" where
  "nvgpu_page_free_fixed a base len =
     (case (if bit (pg_flags a) GPU_ALLOC_NO_SCATTER_GATHER then find_page_alloc base a else (Some base, a)) of
        (None, a) \<Rightarrow> Some a
      | (Some p, a) \<Rightarrow> do {
          al \<leftarrow> pg_heap a p;
          nvgpu_assert (pg_nr_fixed_frees a < U64_MAX);
          n \<leftarrow> nvgpu_safe_add_u64 (pg_pages_freed a) (al_length al div 2 ^ pg_page_shift a);
          nvgpu_page_alloc_free_pages p True (a\<lparr>pg_nr_fixed_frees := pg_nr_fixed_frees a + 1, pg_pages_freed := n\<rparr>) })"

section \<open>Setting up and tearing down\<close>

text \<open>Only the structure itself is freed; the result is what stays allocated: records, slab pages, nodes, and the buddies of the source.\<close>

definition nvgpu_page_allocator_destroy ::
    "nvgpu_page_allocator \<Rightarrow> (nat \<rightharpoonup> nvgpu_page_alloc) \<times> (nat \<rightharpoonup> page_alloc_slab_page) \<times> nat \<times> (nat \<rightharpoonup> nvgpu_buddy)" where
  "nvgpu_page_allocator_destroy a = (pg_heap a, pg_slab_heap a, pg_sgls a, by_heap (pg_source a))"

definition new_slab :: "nat \<Rightarrow> page_alloc_slab" where
  "new_slab i = \<lparr>sl_list = (\<lambda>_. []), sl_nr = (\<lambda>_. 0), sl_slab_size = 2 ^ (i + 12)\<rparr>"

definition nvgpu_page_alloc_init_slabs :: "bool \<Rightarrow> nvgpu_page_allocator \<Rightarrow> (unit result \<times> nvgpu_page_allocator) option" where
  "nvgpu_page_alloc_init_slabs kcalloc_ok a =
     (let aligned_page_size = pg_page_size a div 2 ^ 12 in
      if aligned_page_size = 0 then Some (Inl EINVAL, a)
      else do {
        n \<leftarrow> nvgpu_ilog2 aligned_page_size;
        nr_slabs \<leftarrow> nvgpu_safe_cast_u64_to_u32 n;
        Some (if nr_slabs > 20 then (Inl EINVAL, a)
              else if \<not> kcalloc_ok then (Inl ENOMEM, a)
              else (Inr (), a\<lparr>pg_nr_slabs := nr_slabs, pg_slabs := map new_slab [0..<nr_slabs]\<rparr>)) })"

definition zero_page_allocator :: nvgpu_page_allocator where
  "zero_page_allocator =
     \<lparr>pg_source = zero_buddy_allocator, pg_base = 0, pg_length = 0, pg_page_size = 0, pg_page_shift = 0, pg_allocs = [], pg_slabs = [],
      pg_nr_slabs = 0, pg_flags = 0, pg_nr_allocs = 0, pg_nr_frees = 0, pg_nr_fixed_allocs = 0, pg_nr_fixed_frees = 0, pg_nr_slab_allocs = 0,
      pg_nr_slab_frees = 0, pg_pages_alloced = 0, pg_pages_freed = 0, pg_heap = Map.empty, pg_slab_heap = Map.empty, pg_fresh = 1,
      pg_requests = 0, pg_sgls = 0\<rparr>"

text \<open>The outcomes of the requests for the structure, the two caches and the array of slabs, and those of the source allocator.\<close>

record page_init_env =
  pi_kzalloc_ok :: bool
  pi_alloc_cache_ok :: bool
  pi_slab_cache_ok :: bool
  pi_kcalloc_ok :: bool
  pi_src_kzalloc_ok :: bool
  pi_src_cache_ok :: bool
  pi_oom :: "nat \<Rightarrow> bool"

definition nvgpu_page_allocator_init ::
    "page_init_env \<Rightarrow> string \<Rightarrow> u64 \<Rightarrow> u64 \<Rightarrow> u64 \<Rightarrow> u64 \<Rightarrow> nvgpu_page_allocator result option" where
  "nvgpu_page_allocator_init e name base len blk_size flags =
     (if blk_size < 4096 then Some (Inl EINVAL)
      else if length name \<ge> 32 - 5 then Some (Inl EINVAL)
      else if \<not> pi_kzalloc_ok e then Some (Inl ENOMEM)
      else if \<not> pi_alloc_cache_ok e \<or> \<not> pi_slab_cache_ok e then Some (Inl ENOMEM)
      else do {
        page_shift \<leftarrow> nvgpu_safe_cast_u64_to_u32 (wsub64 (nvgpu_ffs blk_size) 1);
        let a = zero_page_allocator\<lparr>pg_base := base, pg_length := len, pg_page_size := blk_size, pg_page_shift := page_shift, pg_flags := flags\<rparr>;
        (r, a) \<leftarrow> (if bit flags GPU_ALLOC_4K_VIDMEM_PAGES \<and> blk_size > 4096 then nvgpu_page_alloc_init_slabs (pi_kcalloc_ok e) a
                    else Some (Inr (), a));
        (case r of
           Inl err \<Rightarrow> Some (Inl err)
         | Inr _ \<Rightarrow> do {
             (r, _) \<leftarrow> nvgpu_buddy_allocator_init (pi_src_kzalloc_ok e) (pi_src_cache_ok e) (pi_oom e) None base len blk_size 0 0;
             Some (case r of Inl err \<Rightarrow> Inl err | Inr s \<Rightarrow> Inr (a\<lparr>pg_source := s\<rparr>)) }) })"

end
