(* ===== verification/Page_Source.thy ===== *)
theory Page_Source
  imports Page_Allocator Buddy_Properties
begin

text \<open>
  What the page allocator relies on of its source: the laws of the buddy allocator's contract with exact bookkeeping, the
  bounds that disjointness puts on what can be outstanding, and from them the loops that gather chunks and give them back.
\<close>

section \<open>The source\<close>

definition live_sum :: "nvgpu_buddy_allocator \<Rightarrow> nat" where
  "live_sum s = sum snd (buddy_live s)"

lemma live_key:
  assumes "buddy_plain s" "(k, l) \<in> buddy_live s" "(k, l') \<in> buddy_live s"
  shows "l = l'"
  using buddy.live_disjoint[OF assms] buddy.live_bounds[OF assms(1,2)] buddy.live_bounds[OF assms(1,3)] by (auto simp: ranges_disjoint_def)

lemma live_finite: "buddy_plain s \<Longrightarrow> finite (buddy_live s)"
proof -
  assume p: "buddy_plain s"
  have "buddy_live s \<subseteq> {..by_end s} \<times> {..by_end s}" using buddy.live_bounds[OF p] by (fastforce simp: buddy_limits_def)
  then show ?thesis by (rule finite_subset) simp
qed

lemma live_sum_le:
  assumes p: "buddy_plain s"
  shows "live_sum s \<le> by_end s - by_start s"
proof -
  have f: "finite (buddy_live s)" by (rule live_finite[OF p])
  have dj: "{k..<k + l} \<inter> {k'..<k' + l'} = {}" if "(k, l) \<in> buddy_live s" "(k', l') \<in> buddy_live s" "(k, l) \<noteq> (k', l')" for k l k' l'
    using buddy.live_disjoint[OF p that] by (auto simp: ranges_disjoint_def)
  have "live_sum s = (\<Sum>x\<in>buddy_live s. card {fst x..<fst x + snd x})" by (simp add: live_sum_def)
  also have "\<dots> = card (\<Union>x\<in>buddy_live s. {fst x..<fst x + snd x})" 
  proof (rule card_UN_disjoint[symmetric])
    show "\<forall>x\<in>buddy_live s. \<forall>y\<in>buddy_live s. x \<noteq> y \<longrightarrow> {fst x..<fst x + snd x} \<inter> {fst y..<fst y + snd y} = {}"
      using dj by (metis prod.collapse)
  qed (use f in simp_all)
  also have "\<dots> \<le> card {by_start s..<by_end s}"
    by (rule card_mono) (use buddy.live_bounds[OF p] in \<open>fastforce simp: buddy_limits_def\<close>)+
  finally show ?thesis by simp
qed

lemma src_alloc:
  assumes p: "buddy_plain s" and len: "len \<le> U64_MAX"
  shows "\<exists>addr s'. nvgpu_buddy_balloc oom s len = Some (addr, s') \<and> buddy_plain s' \<and> buddy_limits s' = buddy_limits s \<and> by_blk_size s' = by_blk_size s \<and>
    by_bytes_freed s' = by_bytes_freed s \<and>
    (if addr = 0 then buddy_live s' = buddy_live s
     else \<exists>l\<ge>len. 0 < len \<and> addr \<notin> fst ` buddy_live s \<and> buddy_live s' = insert (addr, l) (buddy_live s))"
proof -
  have i: "buddy_inv s" using p by (simp add: buddy_plain_def)
  obtain addr s' where r: "nvgpu_buddy_balloc oom s len = Some (addr, s')" "buddy_inv s'" "settings s' = settings s" "by_bytes_freed s' = by_bytes_freed s"
    "if addr = 0 then acts (by_heap s') = acts (by_heap s) \<and> (\<not> gva s \<longrightarrow> 0 < len \<longrightarrow> (\<exists>n. oom n) \<or>
       (\<forall>p b. by_heap s p = Some b \<longrightarrow> is_free b \<longrightarrow> bd_order b < balloc_get_order s len))
     else 0 < len \<and> (\<exists>p b. acts (by_heap s') = insert (p, b) (acts (by_heap s)) \<and> by_heap s' p = Some b \<and> bd_start b = addr \<and>
       bd_order b = balloc_get_order s len \<and> p \<notin> fst ` acts (by_heap s) \<and> bd_alloced b)"
    using balloc_pte_ok[OF i, of oom len BALLOC_PTE_SIZE_ANY] unfolding nvgpu_buddy_balloc_def by blast
  note ss = settings_sel[OF r(3)]
  have p': "buddy_plain s'" using r(2) p ss(8) by (simp add: buddy_plain_def)
  have w: "bwf {} (set (fixed_buddies s)) s" "bwf {} (set (fixed_buddies s')) s'" using i r(2) by (auto simp: buddy_inv_def)
  have "\<exists>l\<ge>len. 0 < len \<and> addr \<notin> fst ` buddy_live s \<and> buddy_live s' = insert (addr, l) (buddy_live s)" if nz: "addr \<noteq> 0"
  proof -
    obtain q b where b: "acts (by_heap s') = insert (q, b) (acts (by_heap s))" "by_heap s' q = Some b" "bd_start b = addr" "bd_order b = balloc_get_order s len"
      "q \<notin> fst ` acts (by_heap s)" "bd_alloced b" "0 < len" using r(5) nz by auto
    let ?l = "bd_end b - bd_start b"
    have live: "buddy_live s' = insert (addr, ?l) (buddy_live s)" using b(1,3) by (simp add: buddy_live_def)
    have "len \<le> ?l" using get_order_ok(1)[OF bwfD(1)[OF w(1)] b(7) len] bwf_node(4)[OF w(2) b(2)] b(4) ss(3) by simp
    moreover have "addr \<notin> fst ` buddy_live s"
    proof
      assume "addr \<in> fst ` buddy_live s"
      then obtain q' c where c: "(q', c) \<in> acts (by_heap s)" "bd_start c = addr" by (auto simp: buddy_live_def)
      then have h: "by_heap s' q' = Some c" "bd_alloced c" using b(1) by (auto simp: acts_def)
      have "q' = q" using bwf_leaf_unique[OF w(2) h(1) _ b(2)] bwfD(6)[OF w(2) h(1)] bwfD(6)[OF w(2) b(2)] h(2) b(3,6) c(2) by simp
      then show False using c(1) b(5) by force
    qed
    ultimately show ?thesis using live b(7) by blast
  qed
  moreover have "buddy_live s' = buddy_live s" if "addr = 0" using r(5) that by (simp add: buddy_live_def)
  ultimately show ?thesis using r(1,4) p' ss by (intro exI[of _ addr] exI[of _ s']) (simp add: buddy_limits_def)
qed

text \<open>Whatever the source has counted as freed, and what could still be: the sum does not grow when something is freed.\<close>

definition src_room :: "nvgpu_buddy_allocator \<Rightarrow> bool" where
  "src_room s \<longleftrightarrow> by_bytes_freed s + live_sum s \<le> U64_MAX"

lemma src_free:
  assumes p: "buddy_plain s" and k: "(k, l) \<in> buddy_live s" and room: "src_room s"
  shows "\<exists>s'. nvgpu_buddy_bfree s k = Some s' \<and> buddy_plain s' \<and> buddy_limits s' = buddy_limits s \<and> by_blk_size s' = by_blk_size s \<and>
    buddy_live s' = {x \<in> buddy_live s. fst x \<noteq> k} \<and> by_bytes_freed s' + live_sum s' = by_bytes_freed s + live_sum s"
proof -
  have i: "buddy_inv s" and n: "idx_search k (by_fixed_allocs s) = None" "fixed_buddies s = []"
    using p by (auto simp: buddy_plain_def idx_search_def fixed_buddies_def)
  have f: "finite (buddy_live s)" by (rule live_finite[OF p])
  have le: "l \<le> live_sum s" using member_le_sum[OF k, of snd] f by (simp add: live_sum_def)
  have sz: "bd_end b - bd_start b = l" if "(q, b) \<in> acts (by_heap s)" "bd_start b = k" for q b
    using live_key[OF p _ k, of "bd_end b - bd_start b"] that by (force simp: buddy_live_def)
  have "\<exists>s'. nvgpu_buddy_bfree s k = Some s' \<and> buddy_inv s' \<and> settings s' = settings s \<and>
    (if \<exists>q b. (q, b) \<in> acts (by_heap s) \<and> bd_start b = k
     then \<exists>q b. (q, b) \<in> acts (by_heap s) \<and> bd_start b = k \<and> by_bytes_freed s' = by_bytes_freed s + (bd_end b - bd_start b)
     else by_bytes_freed s' = by_bytes_freed s) \<and> acts (by_heap s') = {(q, b) \<in> acts (by_heap s). bd_start b \<noteq> k}"
  proof (rule bfree_exact[OF i n(1)])
    show "by_bytes_freed s + (bd_end b - bd_start b) \<le> U64_MAX" if "(q, b) \<in> acts (by_heap s)" "bd_start b = k" for q b
      using sz[OF that] le room by (simp add: src_room_def)
  qed (simp add: n(2))
  then obtain s' where s': "nvgpu_buddy_bfree s k = Some s'" "buddy_inv s'" "settings s' = settings s"
    "if \<exists>q b. (q, b) \<in> acts (by_heap s) \<and> bd_start b = k
     then \<exists>q b. (q, b) \<in> acts (by_heap s) \<and> bd_start b = k \<and> by_bytes_freed s' = by_bytes_freed s + (bd_end b - bd_start b)
     else by_bytes_freed s' = by_bytes_freed s" "acts (by_heap s') = {(q, b) \<in> acts (by_heap s). bd_start b \<noteq> k}" by blast
  note ss = settings_sel[OF s'(3)]
  have live: "buddy_live s' = {x \<in> buddy_live s. fst x \<noteq> k}" unfolding buddy_live_def s'(5) by force
  have "\<exists>q b. (q, b) \<in> acts (by_heap s) \<and> bd_start b = k" using k by (force simp: buddy_live_def)
  then have "by_bytes_freed s' = by_bytes_freed s + l" using s'(4) sz by auto
  moreover have "buddy_live s = insert (k, l) (buddy_live s')" unfolding live using k live_key[OF p _ k] by fastforce
  moreover have "(k, l) \<notin> buddy_live s'" "finite (buddy_live s')" unfolding live using f by simp_all
  ultimately have "by_bytes_freed s' + live_sum s' = by_bytes_freed s + live_sum s" by (simp add: live_sum_def)
  moreover have "buddy_plain s'" using s'(2) p ss(8) by (simp add: buddy_plain_def)
  ultimately show ?thesis using s'(1) live ss by (intro exI[of _ s']) (simp add: buddy_limits_def)
qed

section \<open>Chunks\<close>

text \<open>The source \<open>s\<close> holds the chunks \<open>cs\<close> besides the ranges \<open>L\<close> that were outstanding before.\<close>

definition grown :: "(u64 \<times> u64) set \<Rightarrow> nvgpu_mem_sgl list \<Rightarrow> nvgpu_buddy_allocator \<Rightarrow> bool" where
  "grown L cs s \<longleftrightarrow> buddy_plain s \<and> L = {x \<in> buddy_live s. fst x \<notin> sg_phys ` set cs} \<and> distinct (map sg_phys cs) \<and>
     (\<forall>c\<in>set cs. sg_dma c = sg_phys c \<and> 0 < sg_length c \<and> (\<exists>l\<ge>sg_length c. (sg_phys c, l) \<in> buddy_live s))"

lemma grown_Nil: "buddy_plain s \<Longrightarrow> grown (buddy_live s) [] s"
  by (simp add: grown_def)

lemma grown_snoc:
  assumes "grown L cs s" "buddy_plain s'" "buddy_live s' = insert (addr, l) (buddy_live s)" "addr \<notin> fst ` buddy_live s" "len \<le> l" "0 < len"
  shows "grown L (cs @ [\<lparr>sg_phys = addr, sg_dma = addr, sg_length = len\<rparr>]) s'"
proof -
  have "addr \<notin> sg_phys ` set cs" using assms(1,4) unfolding grown_def by force
  then show ?thesis using assms unfolding grown_def by (auto simp: image_iff)
qed

lemma grown_free:
  assumes "grown L (c # cs) s" "buddy_plain s'" "buddy_live s' = {x \<in> buddy_live s. fst x \<noteq> sg_phys c}"
  shows "grown L cs s'"
  using assms unfolding grown_def by (auto simp: image_iff)

lemma free_chunks_ok:
  assumes "grown L cs s" "src_room s"
  shows "\<exists>s'. free_chunks cs s = Some s' \<and> grown L [] s' \<and> buddy_limits s' = buddy_limits s \<and> by_blk_size s' = by_blk_size s \<and>
    by_bytes_freed s' + live_sum s' = by_bytes_freed s + live_sum s"
  using assms
proof (induction cs arbitrary: s)
  case (Cons c cs)
  obtain l where "buddy_plain s" "(sg_phys c, l) \<in> buddy_live s" using Cons.prems(1) by (auto simp: grown_def)
  then obtain s1 where s1: "nvgpu_buddy_bfree s (sg_phys c) = Some s1" "buddy_plain s1" "buddy_limits s1 = buddy_limits s" "by_blk_size s1 = by_blk_size s"
    "buddy_live s1 = {x \<in> buddy_live s. fst x \<noteq> sg_phys c}" "by_bytes_freed s1 + live_sum s1 = by_bytes_freed s + live_sum s"
    using src_free Cons.prems(2) by blast
  have "grown L cs s1" by (rule grown_free[OF Cons.prems(1) s1(2,5)])
  from Cons.IH[OF this] obtain s2 where "free_chunks cs s1 = Some s2" "grown L [] s2" "buddy_limits s2 = buddy_limits s1" "by_blk_size s2 = by_blk_size s1"
    "by_bytes_freed s2 + live_sum s2 = by_bytes_freed s1 + live_sum s1" using s1(6) Cons.prems(2) by (auto simp: src_room_def)
  then show ?case using s1 by simp
qed simp

text \<open>The inner loop halves the length until a chunk of it can be had or it falls below the page size.\<close>

lemma find_chunk_ok:
  assumes "buddy_plain s" "0 < m"
  shows "2 ^ j * m \<le> U64_MAX \<Longrightarrow> \<exists>addr n mx s'. find_chunk e m (2 ^ j * m) mx0 s = Some (addr, n, mx, s') \<and>
    buddy_plain s' \<and> buddy_limits s' = buddy_limits s \<and> by_blk_size s' = by_blk_size s \<and> by_bytes_freed s' = by_bytes_freed s \<and>
    (if addr = 0 then buddy_live s' = buddy_live s
     else \<exists>l\<ge>n. addr \<notin> fst ` buddy_live s \<and> buddy_live s' = insert (addr, l) (buddy_live s) \<and>
       (\<exists>i\<le>j. n = 2 ^ i * m \<and> (mx = mx0 \<and> i = j \<or> mx = n)))"
  using assms
proof (induction j arbitrary: s mx0)
  case 0
  obtain addr s' where a: "nvgpu_buddy_balloc (pe_oom e) s m = Some (addr, s')" "buddy_plain s'" "buddy_limits s' = buddy_limits s" "by_blk_size s' = by_blk_size s"
    "by_bytes_freed s' = by_bytes_freed s"
    "if addr = 0 then buddy_live s' = buddy_live s else \<exists>l\<ge>m. 0 < m \<and> addr \<notin> fst ` buddy_live s \<and> buddy_live s' = insert (addr, l) (buddy_live s)"
    using src_alloc[OF 0(2), of m "pe_oom e"] 0(1) by (simp only: power_0 mult_1) blast
  have "m div 2 < m" using 0(3) by simp
  then have f: "find_chunk e m m mx0 s = Some (if addr = 0 then (0, m div 2, m div 2, s') else (addr, m, mx0, s'))"
    using a(1) by (simp add: find_chunk.simps[of e m m])
  show ?case
  proof (cases "addr = 0")
    case True
    then show ?thesis using f a by auto
  next
    case False
    then obtain l where "l \<ge> m" "addr \<notin> fst ` buddy_live s" "buddy_live s' = insert (addr, l) (buddy_live s)" using a(6) by auto
    then show ?thesis using f a(2-5) False by (intro exI[of _ addr] exI[of _ m] exI[of _ mx0] exI[of _ s']) auto
  qed
next
  case (Suc j)
  let ?n = "2 ^ Suc j * m"
  obtain addr s1 where a: "nvgpu_buddy_balloc (pe_oom e) s ?n = Some (addr, s1)" "buddy_plain s1" "buddy_limits s1 = buddy_limits s" "by_blk_size s1 = by_blk_size s"
    "by_bytes_freed s1 = by_bytes_freed s"
    "if addr = 0 then buddy_live s1 = buddy_live s else \<exists>l\<ge>?n. 0 < ?n \<and> addr \<notin> fst ` buddy_live s \<and> buddy_live s1 = insert (addr, l) (buddy_live s)"
    using src_alloc[OF Suc.prems(2) Suc.prems(1), of "pe_oom e"] by blast
  show ?case
  proof (cases "addr = 0")
    case False
    then have f: "find_chunk e m ?n mx0 s = Some (addr, ?n, mx0, s1)" unfolding find_chunk.simps[of e m ?n mx0 s] a(1) by simp
    obtain l where l: "l \<ge> ?n" "addr \<notin> fst ` buddy_live s" "buddy_live s1 = insert (addr, l) (buddy_live s)" using a(6) False by auto
    have "\<exists>i\<le>Suc j. ?n = 2 ^ i * m \<and> (mx0 = mx0 \<and> i = Suc j \<or> mx0 = ?n)" by blast
    then have "\<exists>l\<ge>?n. addr \<notin> fst ` buddy_live s \<and> buddy_live s1 = insert (addr, l) (buddy_live s) \<and>
      (\<exists>i\<le>Suc j. ?n = 2 ^ i * m \<and> (mx0 = mx0 \<and> i = Suc j \<or> mx0 = ?n))" using l by blast
    then show ?thesis using f a(2-5) False by (simp del: power_Suc)
  next
    case True
    have h: "?n div 2 = 2 ^ j * m" "m \<le> 2 ^ j * m" by simp_all
    have "find_chunk e m ?n mx0 s = find_chunk e m (2 ^ j * m) (2 ^ j * m) s1" unfolding find_chunk.simps[of e m ?n mx0 s] a(1) h(1) using True h(2) by simp
    moreover have "2 ^ j * m \<le> U64_MAX" using Suc.prems(1) by simp
    from Suc.IH[OF this a(2) Suc.prems(3), of "2 ^ j * m"] obtain ad n mx s' where i: "find_chunk e m (2 ^ j * m) (2 ^ j * m) s1 = Some (ad, n, mx, s')"
      "buddy_plain s'" "buddy_limits s' = buddy_limits s1" "by_blk_size s' = by_blk_size s1" "by_bytes_freed s' = by_bytes_freed s1"
      "if ad = 0 then buddy_live s' = buddy_live s1
       else \<exists>l\<ge>n. ad \<notin> fst ` buddy_live s1 \<and> buddy_live s' = insert (ad, l) (buddy_live s1) \<and> (\<exists>i\<le>j. n = 2 ^ i * m \<and> (mx = 2 ^ j * m \<and> i = j \<or> mx = n))" by blast
    have "buddy_live s1 = buddy_live s" using a(6) True by simp
    moreover have "\<exists>i\<le>Suc j. n = 2 ^ i * m \<and> (mx = mx0 \<and> i = Suc j \<or> mx = n)" if "\<exists>i\<le>j. n = 2 ^ i * m \<and> (mx = 2 ^ j * m \<and> i = j \<or> mx = n)"
      using that le_SucI by metis
    ultimately show ?thesis using i a(3-5) by (intro exI[of _ ad] exI[of _ n] exI[of _ mx] exI[of _ s']) (auto split: if_splits)
  qed
qed

text \<open>The outer loop: it returns, with every page in exactly one chunk when it succeeds, and in any case with nothing but the chunks it names
  taken from the source.\<close>

definition chunk_limit :: "u64 \<Rightarrow> u64 \<Rightarrow> u64 \<Rightarrow> bool" where
  "chunk_limit m pages mx \<longleftrightarrow> pages * m \<le> mx \<or> (\<exists>i. mx = 2 ^ i * m)"

lemma chunk_len_ok:
  assumes "0 < pages" "pages * m \<le> U64_MAX" "chunk_limit m pages mx" "0 < m"
  shows "\<exists>j. min (wrap64 (2 ^ (nvgpu_fls pages - 1) * m)) mx = 2 ^ j * m \<and> 2 ^ j \<le> pages \<and> 2 ^ j * m \<le> U64_MAX"
proof -
  let ?j = "nvgpu_fls pages - 1"
  have "pages \<le> pages * m" using assms(4) by simp
  then have le: "2 ^ ?j \<le> pages" using nvgpu_fls_correct(3)[OF assms(1)] assms(2) by linarith
  then have "2 ^ ?j * m \<le> pages * m" by simp
  then have w2: "2 ^ ?j * m \<le> U64_MAX" using assms(2) by (rule le_trans)
  note w = wrap64_id[OF w2] w2
  show ?thesis
  proof (cases "2 ^ ?j * m \<le> mx")
    case True
    then show ?thesis using w le by (intro exI[of _ ?j]) simp
  next
    case False
    then have "\<not> pages * m \<le> mx" using \<open>2 ^ ?j * m \<le> pages * m\<close> le_trans by blast
    then obtain i where i: "mx = 2 ^ i * m" using assms(3) by (auto simp: chunk_limit_def)
    then have "2 ^ i * m < 2 ^ ?j * m" using False by simp
    then have "(2::nat) ^ i < 2 ^ ?j" using assms(4) by (metis nat_mult_less_cancel_disj mult.commute)
    then have "2 ^ i \<le> pages" "2 ^ i * m \<le> U64_MAX" "min (2 ^ ?j * m) mx = 2 ^ i * m" using w(2) le i \<open>2 ^ i * m < 2 ^ ?j * m\<close> by linarith+
    then show ?thesis unfolding w(1) by blast
  qed
qed

lemma alloc_chunks_ok:
  assumes "grown L sgl (pg_source a)" "pg_page_size a = 2 ^ pg_page_shift a" "pages * pg_page_size a \<le> U64_MAX"
    and "chunk_limit (pg_page_size a) pages mx" "buddy_limits (pg_source a) = (lo, hi)" "by_bytes_freed (pg_source a) + (hi - lo) \<le> U64_MAX"
  shows "\<exists>ok i' cs s r. alloc_chunks e pages mx i sgl a = Some (ok, i', sgl @ cs, a\<lparr>pg_source := s, pg_requests := r, pg_sgls := pg_sgls a + length cs\<rparr>) \<and>
    grown L (sgl @ cs) s \<and> buddy_limits s = (lo, hi) \<and> by_blk_size s = by_blk_size (pg_source a) \<and>
    by_bytes_freed s + live_sum s \<le> by_bytes_freed (pg_source a) + (hi - lo) \<and>
    (ok \<longrightarrow> by_bytes_freed s = by_bytes_freed (pg_source a) \<and> i' = i + length cs \<and> sum_list (map sg_length cs) = pages * pg_page_size a \<and>
       (pages = 0 \<longleftrightarrow> cs = []) \<and> (bit (pg_flags a) GPU_ALLOC_FORCE_CONTIG \<longrightarrow> i + length cs \<le> max 1 i))"
  using assms
proof (induction pages arbitrary: a mx i sgl rule: less_induct)
  case (less pages)
  let ?s = "pg_source a" and ?m = "pg_page_size a"
  have p: "buddy_plain ?s" and lim: "hi = by_end ?s" "lo = by_start ?s" using less.prems(1,5) by (auto simp: grown_def buddy_limits_def)
  have cap: "by_bytes_freed ?s + live_sum ?s \<le> by_bytes_freed ?s + (hi - lo)" using live_sum_le[OF p] lim by simp
  have m: "0 < ?m" using less.prems(2) by simp
  show ?case
  proof (cases "pages = 0 \<or> bit (pg_flags a) GPU_ALLOC_FORCE_CONTIG \<and> i \<noteq> 0")
    case True
    have "a = a\<lparr>pg_source := ?s, pg_requests := pg_requests a, pg_sgls := pg_sgls a + length []\<rparr>" by simp
    then have "alloc_chunks e pages mx i sgl a =
      Some (pages = 0, i, sgl @ [], a\<lparr>pg_source := ?s, pg_requests := pg_requests a, pg_sgls := pg_sgls a + length ([]::nvgpu_mem_sgl list)\<rparr>)"
      using True by (auto simp: alloc_chunks.simps[of e pages])
    moreover have "grown L (sgl @ []) ?s" using less.prems(1) by simp
    moreover have "pages = 0 \<longrightarrow> by_bytes_freed ?s = by_bytes_freed ?s \<and> i = i + length ([]::nvgpu_mem_sgl list) \<and> sum_list (map sg_length []) = pages * ?m \<and>
       (pages = 0 \<longleftrightarrow> ([]::nvgpu_mem_sgl list) = []) \<and> (bit (pg_flags a) GPU_ALLOC_FORCE_CONTIG \<longrightarrow> i + length ([]::nvgpu_mem_sgl list) \<le> max 1 i)" by simp
    ultimately show ?thesis using less.prems(5) cap by blast
  next
    case False
    then have pos: "0 < pages" and cont: "\<not> (bit (pg_flags a) GPU_ALLOC_FORCE_CONTIG \<and> i \<noteq> 0)" by auto
    let ?l = "min (wrap64 (2 ^ (nvgpu_fls pages - 1) * 2 ^ pg_page_shift a)) mx"
    obtain j where j: "?l = 2 ^ j * ?m" "2 ^ j \<le> pages" "2 ^ j * ?m \<le> U64_MAX"
      using chunk_len_ok[OF pos less.prems(3,4) m] unfolding less.prems(2) by blast
    obtain addr n mx' s1 where f: "find_chunk e ?m (2 ^ j * ?m) mx ?s = Some (addr, n, mx', s1)" "buddy_plain s1" "buddy_limits s1 = buddy_limits ?s"
      "by_blk_size s1 = by_blk_size ?s" "by_bytes_freed s1 = by_bytes_freed ?s"
      "if addr = 0 then buddy_live s1 = buddy_live ?s
       else \<exists>l\<ge>n. addr \<notin> fst ` buddy_live ?s \<and> buddy_live s1 = insert (addr, l) (buddy_live ?s) \<and> (\<exists>k\<le>j. n = 2 ^ k * ?m \<and> (mx' = mx \<and> k = j \<or> mx' = n))"
      using find_chunk_ok[OF p m j(3), of e mx] by blast
    have lim1: "buddy_limits s1 = (lo, hi)" "hi = by_end s1" "lo = by_start s1" using f(3) less.prems(5) by (auto simp: buddy_limits_def)
    have cap1: "by_bytes_freed s1 + live_sum s1 \<le> by_bytes_freed ?s + (hi - lo)" using live_sum_le[OF f(2)] lim1 f(5) by simp
    note step = alloc_chunks.simps[of e pages mx i sgl a, unfolded j(1) f(1)]
    show ?thesis
    proof (cases "addr = 0")
      case True
      have "grown L (sgl @ []) s1" using less.prems(1) f(2,6) True by (simp add: grown_def)
      moreover have "alloc_chunks e pages mx i sgl a = Some (False, i, sgl @ [], a\<lparr>pg_source := s1, pg_requests := pg_requests a, pg_sgls := pg_sgls a + length ([]::nvgpu_mem_sgl list)\<rparr>)"
        unfolding step using pos cont True by auto
      ultimately show ?thesis using lim1(1) f(4) cap1 by blast
    next
      case nz: False
      then obtain l k where l: "n \<le> l" "addr \<notin> fst ` buddy_live ?s" "buddy_live s1 = insert (addr, l) (buddy_live ?s)"
        and k: "k \<le> j" "n = 2 ^ k * ?m" "mx' = mx \<and> k = j \<or> mx' = n" using f(6) by auto
      have npos: "0 < n" using k(2) m by simp
      let ?c = "\<lparr>sg_phys = addr, sg_dma = addr, sg_length = n\<rparr>"
      have g: "grown L (sgl @ [?c]) s1" by (rule grown_snoc[OF less.prems(1) f(2) l(3,2,1) npos])
      show ?thesis
      proof (cases "pe_nomem e (pg_requests a)")
        case True
        have "src_room s1" using cap1 less.prems(6) by (simp add: src_room_def)
        then obtain s2 where s2: "nvgpu_buddy_bfree s1 addr = Some s2" "buddy_plain s2" "buddy_limits s2 = buddy_limits s1" "by_blk_size s2 = by_blk_size s1"
          "buddy_live s2 = {x \<in> buddy_live s1. fst x \<noteq> addr}" "by_bytes_freed s2 + live_sum s2 = by_bytes_freed s1 + live_sum s1"
          using src_free[OF f(2), of addr l] l(3) by auto
        have "buddy_live s2 = buddy_live ?s" unfolding s2(5) l(3) using l(2) by force
        then have "grown L (sgl @ []) s2" using less.prems(1) s2(2) by (simp add: grown_def)
        moreover have "alloc_chunks e pages mx i sgl a =
            Some (False, i, sgl @ [], a\<lparr>pg_source := s2, pg_requests := pg_requests a + 1, pg_sgls := pg_sgls a + length ([]::nvgpu_mem_sgl list)\<rparr>)"
          unfolding step using pos cont nz True s2(1) by (auto simp: pg_request_def)
        moreover have "buddy_limits s2 = (lo, hi)" "by_blk_size s2 = by_blk_size ?s" "by_bytes_freed s2 + live_sum s2 \<le> by_bytes_freed ?s + (hi - lo)"
          using lim1(1) s2(3,4,6) f(4) cap1 by simp_all
        ultimately show ?thesis by blast
      next
        case False
        define a1 where "a1 = a\<lparr>pg_source := s1, pg_requests := pg_requests a + 1, pg_sgls := pg_sgls a + 1\<rparr>"
        have a1: "pg_source a1 = s1" "pg_page_size a1 = ?m" "pg_page_shift a1 = pg_page_shift a" "pg_flags a1 = pg_flags a" "pg_sgls a1 = pg_sgls a + 1"
          by (simp_all add: a1_def)
        have kj: "2 ^ k \<le> pages" using k(1) j(2) power_increasing[of k j "2::nat"] by linarith
        have "n div 2 ^ pg_page_shift a = 2 ^ k" using k(2) less.prems(2) by simp
        then have go: "alloc_chunks e pages mx i sgl a = alloc_chunks e (pages - 2 ^ k) mx' (i + 1) (sgl @ [?c]) a1"
          unfolding step using pos cont nz False kj by (auto simp: pg_request_def safe_simps a1_def)
        have le: "(pages - 2 ^ k) * ?m \<le> pages * ?m" by simp
        then have le2: "(pages - 2 ^ k) * ?m \<le> U64_MAX" using less.prems(3) by (rule le_trans)
        have "chunk_limit ?m (pages - 2 ^ k) mx'" using le k(2,3) less.prems(4) unfolding chunk_limit_def by (metis le_trans)
        then have prems: "grown L (sgl @ [?c]) (pg_source a1)" "pg_page_size a1 = 2 ^ pg_page_shift a1" "(pages - 2 ^ k) * pg_page_size a1 \<le> U64_MAX"
          "chunk_limit (pg_page_size a1) (pages - 2 ^ k) mx'" "buddy_limits (pg_source a1) = (lo, hi)" "by_bytes_freed (pg_source a1) + (hi - lo) \<le> U64_MAX"
          using g less.prems(2,6) le2 lim1(1) f(5) unfolding a1 by simp_all
        have "pages - 2 ^ k < pages" using pos by simp
        from less.IH[OF this prems, of "i + 1"] obtain ok i' cs s r where
          r: "alloc_chunks e (pages - 2 ^ k) mx' (i + 1) (sgl @ [?c]) a1 = Some (ok, i', (sgl @ [?c]) @ cs, a1\<lparr>pg_source := s, pg_requests := r, pg_sgls := pg_sgls a1 + length cs\<rparr>)"
          "grown L ((sgl @ [?c]) @ cs) s" "buddy_limits s = (lo, hi)" "by_blk_size s = by_blk_size s1" "by_bytes_freed s + live_sum s \<le> by_bytes_freed s1 + (hi - lo)"
          "ok \<Longrightarrow> by_bytes_freed s = by_bytes_freed s1 \<and> i' = i + 1 + length cs \<and> sum_list (map sg_length cs) = (pages - 2 ^ k) * ?m \<and>
             (bit (pg_flags a) GPU_ALLOC_FORCE_CONTIG \<longrightarrow> i + 1 + length cs \<le> max 1 (i + 1))" unfolding a1 by blast
        have e: "a1\<lparr>pg_source := s, pg_requests := r, pg_sgls := pg_sgls a1 + length cs\<rparr> = a\<lparr>pg_source := s, pg_requests := r, pg_sgls := pg_sgls a + length (?c # cs)\<rparr>"
          by (simp add: a1_def)
        have run: "alloc_chunks e pages mx i sgl a = Some (ok, i', sgl @ (?c # cs), a\<lparr>pg_source := s, pg_requests := r, pg_sgls := pg_sgls a + length (?c # cs)\<rparr>)"
          unfolding go r(1) e by simp
        have "n + (pages - 2 ^ k) * ?m = pages * ?m" unfolding k(2) using kj by (simp add: algebra_simps)
        moreover have "i + 1 + length cs \<le> max 1 i" if "bit (pg_flags a) GPU_ALLOC_FORCE_CONTIG" "i + 1 + length cs \<le> max 1 (i + 1)"
          using that cont by simp
        ultimately have "ok \<longrightarrow> by_bytes_freed s = by_bytes_freed ?s \<and> i' = i + length (?c # cs) \<and> sum_list (map sg_length (?c # cs)) = pages * ?m \<and>
             (pages = 0 \<longleftrightarrow> ?c # cs = []) \<and> (bit (pg_flags a) GPU_ALLOC_FORCE_CONTIG \<longrightarrow> i + length (?c # cs) \<le> max 1 i)"
          using r(6) f(5) pos by simp
        moreover have "grown L (sgl @ (?c # cs)) s" "by_bytes_freed s + live_sum s \<le> by_bytes_freed ?s + (hi - lo)" "by_blk_size s = by_blk_size ?s"
          using r(2,4,5) f(4,5) by simp_all
        ultimately show ?thesis using run r(3) by blast
      qed
    qed
  qed
qed

end
