(* ===== verification/Page_Slabs.thy ===== *)
theory Page_Slabs
  imports Page_Source
begin

text \<open>
  The slabs of the page allocator: a page is in the list of its slab that its state names, and its state says how many of
  its objects are taken. Lemmas on taking a page out of a list, putting it into one, and on its bitmap.
\<close>

section \<open>Lists\<close>

definition slabs_linked :: "page_alloc_slab list \<Rightarrow> (nat \<rightharpoonup> page_alloc_slab_page) \<Rightarrow> bool" where
  "slabs_linked ss h \<longleftrightarrow> (\<forall>i<length ss. \<forall>st. distinct (sl_list (ss ! i) st) \<and> sl_nr (ss ! i) st = length (sl_list (ss ! i) st) \<and>
     set (sl_list (ss ! i) st) = {q. \<exists>sp. h q = Some sp \<and> sp_owner sp = i \<and> sp_state sp = st \<and> st \<noteq> SP_NONE})"

lemma slabs_linkedD:
  assumes "slabs_linked ss h" "i < length ss"
  shows "distinct (sl_list (ss ! i) st)" "sl_nr (ss ! i) st = length (sl_list (ss ! i) st)"
    "set (sl_list (ss ! i) st) = {q. \<exists>sp. h q = Some sp \<and> sp_owner sp = i \<and> sp_state sp = st \<and> st \<noteq> SP_NONE}"
  using assms by (auto simp: slabs_linked_def)

lemma slabs_linked_cong:
  assumes "slabs_linked ss h"
    and "\<And>q st i. st \<noteq> SP_NONE \<Longrightarrow> (\<exists>sp. h' q = Some sp \<and> sp_owner sp = i \<and> sp_state sp = st) \<longleftrightarrow> (\<exists>sp. h q = Some sp \<and> sp_owner sp = i \<and> sp_state sp = st)"
  shows "slabs_linked ss h'"
proof -
  have "{q. \<exists>sp. h' q = Some sp \<and> sp_owner sp = i \<and> sp_state sp = st \<and> st \<noteq> SP_NONE} =
    {q. \<exists>sp. h q = Some sp \<and> sp_owner sp = i \<and> sp_state sp = st \<and> st \<noteq> SP_NONE}" for i st using assms(2)[of st _ i] by blast
  then show ?thesis using assms(1) by (simp add: slabs_linked_def)
qed

lemma slab_list_short:
  assumes l: "slabs_linked ss h" "i < length ss" and q: "h q = Some sp" "sp_state sp = SP_NONE" and c: "finite (dom h)" "card (dom h) \<le> U32_MAX"
  shows "length (sl_list (ss ! i) st) < U32_MAX"
proof -
  have "q \<notin> set (sl_list (ss ! i) st)" "set (sl_list (ss ! i) st) \<subseteq> dom h" unfolding slabs_linkedD(3)[OF l] using q by auto
  then have "set (sl_list (ss ! i) st) \<subset> dom h" using q(1) by blast
  then have "card (set (sl_list (ss ! i) st)) < card (dom h)" by (rule psubset_card_mono[OF c(1)])
  then show ?thesis using c(2) distinct_card[OF slabs_linkedD(1)[OF l, of st]] by simp
qed

lemma add_slab_page_ok:
  assumes l: "slabs_linked (pg_slabs a) (pg_slab_heap a)" and q: "pg_slab_heap a q = Some sp" "sp_state sp = SP_NONE" "sp_owner sp = i"
    and i: "i < length (pg_slabs a)" and st: "st \<noteq> SP_NONE" and c: "finite (dom (pg_slab_heap a))" "card (dom (pg_slab_heap a)) \<le> U32_MAX"
  shows "\<exists>ss. add_slab_page st i q a = Some (a\<lparr>pg_slabs := ss, pg_slab_heap := (pg_slab_heap a)(q \<mapsto> sp\<lparr>sp_state := st\<rparr>)\<rparr>) \<and>
    slabs_linked ss ((pg_slab_heap a)(q \<mapsto> sp\<lparr>sp_state := st\<rparr>)) \<and> map sl_slab_size ss = map sl_slab_size (pg_slabs a)"
proof -
  let ?s = "pg_slabs a ! i" and ?h = "pg_slab_heap a"
  let ?s' = "?s\<lparr>sl_list := (sl_list ?s)(st := q # sl_list ?s st), sl_nr := (sl_nr ?s)(st := sl_nr ?s st + 1)\<rparr>"
  let ?ss = "(pg_slabs a)[i := ?s']" and ?h' = "?h(q \<mapsto> sp\<lparr>sp_state := st\<rparr>)"
  note d = slabs_linkedD[OF l i]
  have "length (sl_list ?s st) < U32_MAX" by (rule slab_list_short[OF l i q(1,2) c])
  then have call: "add_slab_page st i q a = Some (a\<lparr>pg_slabs := ?ss, pg_slab_heap := ?h'\<rparr>)" using q i d(2)[of st] by (simp add: add_slab_page_def load_def)
  have "slabs_linked ?ss ?h'" unfolding slabs_linked_def
  proof (intro allI impI)
    fix j t
    assume "j < length ?ss"
    then have j: "j < length (pg_slabs a)" by simp
    have set_j: "{x. \<exists>y. ?h' x = Some y \<and> sp_owner y = j \<and> sp_state y = t \<and> t \<noteq> SP_NONE} =
      (if j = i \<and> t = st then insert q (set (sl_list (pg_slabs a ! j) t)) else set (sl_list (pg_slabs a ! j) t))"
      unfolding slabs_linkedD(3)[OF l j] using q st by auto
    have nq: "q \<notin> set (sl_list ?s st)" unfolding d(3) using q by auto
    show "distinct (sl_list (?ss ! j) t) \<and> sl_nr (?ss ! j) t = length (sl_list (?ss ! j) t) \<and>
      set (sl_list (?ss ! j) t) = {x. \<exists>y. ?h' x = Some y \<and> sp_owner y = j \<and> sp_state y = t \<and> t \<noteq> SP_NONE}"
      unfolding set_j using slabs_linkedD(1,2)[OF l j] nq i by (cases "j = i"; cases "t = st") auto
  qed
  moreover have "map sl_slab_size ?ss = map sl_slab_size (pg_slabs a)" using i by (simp add: map_update list_update_same_conv)
  ultimately show ?thesis using call by blast
qed

lemma del_slab_page_ok:
  assumes l: "slabs_linked (pg_slabs a) (pg_slab_heap a)" and q: "pg_slab_heap a q = Some sp" "sp_state sp = st" "sp_owner sp = i"
    and i: "i < length (pg_slabs a)" and st: "st \<noteq> SP_NONE"
  shows "\<exists>ss. del_slab_page st i q a = Some (a\<lparr>pg_slabs := ss, pg_slab_heap := (pg_slab_heap a)(q \<mapsto> sp\<lparr>sp_state := SP_NONE\<rparr>)\<rparr>) \<and>
    slabs_linked ss ((pg_slab_heap a)(q \<mapsto> sp\<lparr>sp_state := SP_NONE\<rparr>)) \<and> map sl_slab_size ss = map sl_slab_size (pg_slabs a)"
proof -
  let ?s = "pg_slabs a ! i" and ?h = "pg_slab_heap a"
  let ?s' = "?s\<lparr>sl_list := (\<lambda>t. removeAll q (sl_list ?s t)), sl_nr := (sl_nr ?s)(st := sl_nr ?s st - 1)\<rparr>"
  let ?ss = "(pg_slabs a)[i := ?s']" and ?h' = "?h(q \<mapsto> sp\<lparr>sp_state := SP_NONE\<rparr>)"
  note d = slabs_linkedD[OF l i]
  have mem: "q \<in> set (sl_list ?s t) \<longleftrightarrow> t = st" for t unfolding d(3) using q st by auto
  then have "0 < sl_nr ?s st" unfolding d(2) by (metis length_pos_if_in_set)
  then have call: "del_slab_page st i q a = Some (a\<lparr>pg_slabs := ?ss, pg_slab_heap := ?h'\<rparr>)" using q i by (simp add: del_slab_page_def load_def)
  have len: "length (removeAll q (sl_list ?s t)) = length (sl_list ?s t) - (if t = st then 1 else 0)" for t
    using d(1)[of t] mem[of t] by (auto simp: distinct_remove1_removeAll[symmetric] length_remove1)
  have "slabs_linked ?ss ?h'" unfolding slabs_linked_def
  proof (intro allI impI)
    fix j t
    assume "j < length ?ss"
    then have j: "j < length (pg_slabs a)" by simp
    have set_j: "{x. \<exists>y. ?h' x = Some y \<and> sp_owner y = j \<and> sp_state y = t \<and> t \<noteq> SP_NONE} =
      (if j = i then set (sl_list (pg_slabs a ! j) t) - {q} else set (sl_list (pg_slabs a ! j) t))"
      unfolding slabs_linkedD(3)[OF l j] using q st by auto
    show "distinct (sl_list (?ss ! j) t) \<and> sl_nr (?ss ! j) t = length (sl_list (?ss ! j) t) \<and>
      set (sl_list (?ss ! j) t) = {x. \<exists>y. ?h' x = Some y \<and> sp_owner y = j \<and> sp_state y = t \<and> t \<noteq> SP_NONE}"
      unfolding set_j using slabs_linkedD(1,2)[OF l j] len[of t] i by (cases "j = i"; cases "t = st") (auto simp: distinct_removeAll)
  qed
  moreover have "map sl_slab_size ?ss = map sl_slab_size (pg_slabs a)" using i by (simp add: map_update list_update_same_conv)
  ultimately show ?thesis using call by blast
qed

section \<open>Objects\<close>

definition objs :: "page_alloc_slab_page \<Rightarrow> nat set" where
  "objs sp = {k. bit (sp_bitmap sp ! 0) k}"

definition st_of :: "nat \<Rightarrow> nat \<Rightarrow> slab_page_state" where
  "st_of n m = (if n = 0 then SP_EMPTY else if n < m then SP_PARTIAL else SP_FULL)"

text \<open>A slab page of an allocator with pages of \<open>2 ^ shift\<close> bytes; \<open>taken\<close> says that the operation at hand has taken it out of its list.\<close>

definition page_fits :: "nat \<Rightarrow> nat \<Rightarrow> bool \<Rightarrow> page_alloc_slab_page \<Rightarrow> bool" where
  "page_fits shift n taken sp \<longleftrightarrow> sp_owner sp < n \<and> sp_slab_size sp = 2 ^ (12 + sp_owner sp) \<and> sp_nr_objects sp = 2 ^ (shift - 12 - sp_owner sp) \<and>
     length (sp_bitmap sp) = 1 \<and> (\<forall>k\<in>objs sp. k < sp_nr_objects sp) \<and> sp_nr_objects_alloced sp = card (objs sp) \<and>
     sp_state sp = (if taken then SP_NONE else st_of (card (objs sp)) (sp_nr_objects sp))"

definition pages_ok :: "nat \<Rightarrow> nat \<Rightarrow> nat set \<Rightarrow> (nat \<rightharpoonup> page_alloc_slab_page) \<Rightarrow> bool" where
  "pages_ok shift n X h \<longleftrightarrow> (\<forall>q sp. h q = Some sp \<longrightarrow> page_fits shift n (q \<in> X) sp)"

lemma tb_word: "length m = 1 \<Longrightarrow> k < 64 \<Longrightarrow> tb m k = bit (m ! 0) k"
  by (simp add: tb_def)

lemma objs_bound: "finite (objs sp)" "k \<in> objs sp \<Longrightarrow> k < 64"
proof -
  show b: "k \<in> objs sp \<Longrightarrow> k < 64" for k using bit_imp_le_length[of "sp_bitmap sp ! 0" k] by (auto simp: objs_def)
  then have "objs sp \<subseteq> {..<64}" by auto
  then show "finite (objs sp)" by (rule finite_subset) simp
qed

text \<open>The search in the bitmap of a page with room finds a free object, and the bitmap operations add and remove one.\<close>

lemma find_object:
  assumes p: "page_fits shift n taken sp" and sh: "shift \<le> 18" and room: "card (objs sp) < sp_nr_objects sp"
  shows "\<exists>k < sp_nr_objects sp. bitmap_find_next_zero_area (sp_bitmap sp) (sp_nr_objects sp) 0 1 0 = Some k \<and> k \<notin> objs sp"
proof -
  let ?n = "sp_nr_objects sp"
  have l: "length (sp_bitmap sp) = 1" "?n = 2 ^ (shift - 12 - sp_owner sp)" using p by (auto simp: page_fits_def)
  have "(2::nat) ^ (shift - 12 - sp_owner sp) \<le> 2 ^ 6" using sh by (intro power_increasing) auto
  then have n64: "?n \<le> 64" using l(2) by simp
  obtain r where r: "bitmap_find_next_zero_area (sp_bitmap sp) ?n 0 1 0 = Some r"
    "first_from (\<lambda>s. s + 1 \<le> ?n \<and> free_area (sp_bitmap sp) s 1) 0 ?n r"
    using bitmap_find_next_zero_area_first[of ?n "sp_bitmap sp" 1 0] n64 l(1) by auto
  have fa: "free_area (sp_bitmap sp) s 1 \<longleftrightarrow> s \<notin> objs sp" if "s < ?n" for s
    using that n64 tb_word[OF l(1), of s] by (auto simp: free_area_def objs_def dest: le_antisym)
  have "\<not> {..<?n} \<subseteq> objs sp" using card_mono[OF objs_bound(1), of "{..<?n}" sp] room by auto
  then obtain j where "j < ?n" "j \<notin> objs sp" by auto
  then have "r \<le> j" using r(2) fa[of j] by (auto simp: first_from_def not_less[symmetric])
  then have "r < ?n" using \<open>j < ?n\<close> by simp
  then show ?thesis using r fa by (auto simp: first_from_def)
qed

lemma set_object:
  assumes "length m = 1" "k < 64"
  shows "\<exists>m'. nvgpu_bitmap_set m k 1 = Some m' \<and> length m' = 1 \<and> {i. bit (m' ! 0) i} = insert k {i. bit (m ! 0) i}"
proof -
  obtain m' where m': "nvgpu_bitmap_set m k 1 = Some m'" "length m' = length m" "\<forall>i. tb m' i = (k \<le> i \<and> i < k + 1 \<or> tb m i)"
    using nvgpu_bitmap_set_correct[of k 1 m] assms by auto
  have "bit (m' ! 0) i \<longleftrightarrow> i = k \<or> bit (m ! 0) i" for i
  proof (cases "i < 64")
    case True
    then show ?thesis using m'(3)[rule_format, of i] tb_word[OF _ True, of m'] tb_word[OF _ True, of m] m'(2) assms(1) by auto
  next
    case False
    then show ?thesis using bit_imp_le_length[of "m' ! 0" i] bit_imp_le_length[of "m ! 0" i] assms(2) by auto
  qed
  then show ?thesis using m' assms(1) by auto
qed

lemma clear_object:
  assumes "length m = 1" "k < 64"
  shows "\<exists>m'. nvgpu_bitmap_clear m k 1 = Some m' \<and> length m' = 1 \<and> {i. bit (m' ! 0) i} = {i. bit (m ! 0) i} - {k}"
proof -
  obtain m' where m': "nvgpu_bitmap_clear m k 1 = Some m'" "length m' = length m" "\<forall>i. tb m' i = (\<not> (k \<le> i \<and> i < k + 1) \<and> tb m i)"
    using nvgpu_bitmap_clear_correct[of k 1 m] assms by auto
  have "bit (m' ! 0) i \<longleftrightarrow> i \<noteq> k \<and> bit (m ! 0) i" for i
  proof (cases "i < 64")
    case True
    then show ?thesis using m'(3)[rule_format, of i] tb_word[OF _ True, of m'] tb_word[OF _ True, of m] m'(2) assms(1) by auto
  next
    case False
    then show ?thesis using bit_imp_le_length[of "m' ! 0" i] bit_imp_le_length[of "m ! 0" i] by auto
  qed
  then show ?thesis using m' assms(1) by auto
qed

end
