(* ===== verification/Page_Inv.thy ===== *)
theory Page_Inv
  imports Page_Slabs
begin

text \<open>
  The invariant of the page allocator. Every range outstanding in the source has exactly one owner, a record of an
  allocation or a slab page; every record of a small allocation stands for one taken object of a slab page; the tree holds
  exactly the records.
\<close>

section \<open>Owners\<close>

definition chunks_of :: "(nat \<rightharpoonup> nvgpu_page_alloc) \<Rightarrow> ((nat + nat) \<times> u64 \<times> u64) set" where
  "chunks_of h = {(Inl p, sg_phys c, sg_length c) | p c al. h p = Some al \<and> al_slab_page al = None \<and> c \<in> set (al_sgl al)}"

definition slab_ranges :: "u64 \<Rightarrow> (nat \<rightharpoonup> page_alloc_slab_page) \<Rightarrow> ((nat + nat) \<times> u64 \<times> u64) set" where
  "slab_ranges m sh = {(Inr q, sp_page_addr sp, m) | q sp. sh q = Some sp}"

definition keys :: "((nat + nat) \<times> u64 \<times> u64) set \<Rightarrow> u64 set" where
  "keys H = {k. \<exists>x n. (x, k, n) \<in> H}"

definition owners_ok :: "(u64 \<times> u64) set \<Rightarrow> ((nat + nat) \<times> u64 \<times> u64) set \<Rightarrow> bool" where
  "owners_ok L H \<longleftrightarrow> (\<forall>x k n. (x, k, n) \<in> H \<longrightarrow> 0 < n \<and> (\<exists>l\<ge>n. (k, l) \<in> L)) \<and>
     (\<forall>x k n x' n'. (x, k, n) \<in> H \<longrightarrow> (x', k, n') \<in> H \<longrightarrow> x' = x) \<and> fst ` L \<subseteq> keys H"

lemma owners_okD:
  assumes "owners_ok L H" "(x, k, n) \<in> H"
  shows "0 < n" "\<exists>l\<ge>n. (k, l) \<in> L" "(x', k, n') \<in> H \<Longrightarrow> x' = x"
proof -
  show "0 < n" "\<exists>l\<ge>n. (k, l) \<in> L" using assms unfolding owners_ok_def by blast+
  show "(x', k, n') \<in> H \<Longrightarrow> x' = x" using assms unfolding owners_ok_def by metis
qed

lemma owners_ok_add:
  assumes "owners_ok L H" "L \<subseteq> L'" "fst ` L' \<subseteq> fst ` L \<union> keys N"
    and "\<And>x k n. (x, k, n) \<in> N \<Longrightarrow> x = y \<and> 0 < n \<and> k \<notin> fst ` L \<and> (\<exists>l\<ge>n. (k, l) \<in> L')"
  shows "owners_ok L' (H \<union> N)"
proof -
  have k: "k \<in> fst ` L" if "(x, k, n) \<in> H" for x k n using owners_okD(2)[OF assms(1) that] by force
  have 1: "0 < n \<and> (\<exists>l\<ge>n. (k, l) \<in> L')" if "(x, k, n) \<in> H \<union> N" for x k n
    using that assms(2) assms(4)[of x k n] owners_okD(1,2)[OF assms(1), of x k n] by blast
  have 2: "x' = x" if "(x, k, n) \<in> H \<union> N" "(x', k, n') \<in> H \<union> N" for x k n x' n'
  proof (cases "(x, k, n) \<in> H")
    case True
    then have "(x', k, n') \<in> H" using that(2) assms(4)[of x' k n'] k by blast
    then show ?thesis using owners_okD(3)[OF assms(1) True] by blast
  next
    case False
    then have n: "(x, k, n) \<in> N" using that(1) by blast
    then have "(x', k, n') \<in> N" using that(2) assms(4)[of x k n] k by blast
    then show ?thesis using assms(4)[OF n] assms(4)[of x' k n'] by simp
  qed
  have "fst ` L \<subseteq> keys H" using assms(1) by (simp add: owners_ok_def)
  moreover have "keys (H \<union> N) = keys H \<union> keys N" by (auto simp: keys_def)
  ultimately have 3: "fst ` L' \<subseteq> keys (H \<union> N)" using subset_trans[OF assms(3), of "keys H \<union> keys N"] by (simp add: Un_mono le_supI1)
  show ?thesis unfolding owners_ok_def
  proof (intro conjI allI impI)
    show "x' = x" if "(x, k, n) \<in> H \<union> N" "(x', k, n') \<in> H \<union> N" for x k n x' n' by (rule 2[OF that])
  qed (use 1 3 in blast)+
qed

lemma owners_ok_del:
  assumes "owners_ok L H" "H' = {t \<in> H. fst t \<noteq> y}" "L' = {t \<in> L. fst t \<notin> keys {t \<in> H. fst t = y}}"
  shows "owners_ok L' H'"
proof -
  have 1: "0 < n \<and> (\<exists>l\<ge>n. (k, l) \<in> L')" if "(x, k, n) \<in> H'" for x k n
  proof -
    have h: "(x, k, n) \<in> H" "x \<noteq> y" using that assms(2) by auto
    obtain l where "l \<ge> n" "(k, l) \<in> L" using owners_okD(2)[OF assms(1) h(1)] by blast
    moreover have "k \<notin> keys {t \<in> H. fst t = y}" using owners_okD(3)[OF assms(1) h(1)] h(2) by (auto simp: keys_def)
    ultimately show ?thesis using assms(3) owners_okD(1)[OF assms(1) h(1)] by auto
  qed
  have 2: "x' = x" if "(x, k, n) \<in> H'" "(x', k, n') \<in> H'" for x k n x' n'
    using that owners_okD(3)[OF assms(1), of x k n x' n'] assms(2) by auto
  have 3: "fst ` L' \<subseteq> keys H'"
  proof
    fix k
    assume "k \<in> fst ` L'"
    then have k: "k \<in> fst ` L" "k \<notin> keys {t \<in> H. fst t = y}" using assms(3) by auto
    then obtain x n where "(x, k, n) \<in> H" using assms(1) unfolding owners_ok_def keys_def by blast
    then show "k \<in> keys H'" using k(2) assms(2) by (auto simp: keys_def)
  qed
  show ?thesis unfolding owners_ok_def
  proof (intro conjI allI impI)
    show "x' = x" if "(x, k, n) \<in> H'" "(x', k, n') \<in> H'" for x k n x' n' by (rule 2[OF that])
  qed (use 1 3 in blast)+
qed

section \<open>Records\<close>

definition rec_ok :: "(nat \<rightharpoonup> page_alloc_slab_page) \<Rightarrow> nvgpu_page_alloc \<Rightarrow> bool" where
  "rec_ok sh al \<longleftrightarrow> al_nr_chunks al = length (al_sgl al) \<and> sum_list (map sg_length (al_sgl al)) = al_length al \<and>
     (\<forall>c\<in>set (al_sgl al). sg_dma c = sg_phys c) \<and> al_sgl al \<noteq> [] \<and> al_base al = sg_phys (hd (al_sgl al)) \<and> distinct (map sg_phys (al_sgl al)) \<and>
     (\<forall>q. al_slab_page al = Some q \<longrightarrow> length (al_sgl al) = 1 \<and>
        (\<exists>sp k. sh q = Some sp \<and> k \<in> objs sp \<and> al_base al = sp_page_addr sp + k * sp_slab_size sp \<and> al_length al = sp_slab_size sp))"

definition recs_ok :: "(nat \<rightharpoonup> nvgpu_page_alloc) \<Rightarrow> (nat \<rightharpoonup> page_alloc_slab_page) \<Rightarrow> bool" where
  "recs_ok h sh \<longleftrightarrow> (\<forall>p al. h p = Some al \<longrightarrow> rec_ok sh al) \<and>
     (\<forall>q sp k. sh q = Some sp \<longrightarrow> k \<in> objs sp \<longrightarrow> (\<exists>p al. h p = Some al \<and> al_slab_page al = Some q \<and> al_base al = sp_page_addr sp + k * sp_slab_size sp))"

definition index_ok :: "(nat \<rightharpoonup> nvgpu_page_alloc) \<Rightarrow> nat index \<Rightarrow> bool" where
  "index_ok h idx \<longleftrightarrow> idx_sorted idx \<and> set idx = {(al_base al, p) | p al. h p = Some al}"

definition ids_ok :: "nat \<Rightarrow> (nat \<rightharpoonup> nvgpu_page_alloc) \<Rightarrow> (nat \<rightharpoonup> page_alloc_slab_page) \<Rightarrow> bool" where
  "ids_ok fresh h sh \<longleftrightarrow> 0 < fresh \<and> (\<forall>p\<in>dom h \<union> dom sh. 0 < p \<and> p < fresh)"

definition geo :: "nvgpu_page_allocator \<Rightarrow> bool" where
  "geo a \<longleftrightarrow> buddy_plain (pg_source a) \<and> pg_page_size a = 2 ^ pg_page_shift a \<and> 12 \<le> pg_page_shift a \<and> pg_page_shift a < 63 \<and>
     (pg_slabs a \<noteq> [] \<longrightarrow> pg_page_shift a \<le> 18 \<and> length (pg_slabs a) = pg_page_shift a - 12) \<and>
     map sl_slab_size (pg_slabs a) = map (\<lambda>i. 2 ^ (12 + i)) [0..<length (pg_slabs a)] \<and>
     (bit (pg_flags a) GPU_ALLOC_4K_VIDMEM_PAGES \<longrightarrow> pg_slabs a \<noteq> []) \<and>
     by_end (pg_source a) + (by_end (pg_source a) - by_start (pg_source a)) \<le> U64_MAX \<and>
     by_end (pg_source a) - by_start (pg_source a) < 2 ^ 32 * pg_page_size a"

text \<open>\<open>X\<close> are the slab pages an operation has taken out of the lists.\<close>

definition pinv :: "nat set \<Rightarrow> nvgpu_page_allocator \<Rightarrow> bool" where
  "pinv X a \<longleftrightarrow> geo a \<and> slabs_linked (pg_slabs a) (pg_slab_heap a) \<and> pages_ok (pg_page_shift a) (length (pg_slabs a)) X (pg_slab_heap a) \<and>
     owners_ok (buddy_live (pg_source a)) (chunks_of (pg_heap a) \<union> slab_ranges (pg_page_size a) (pg_slab_heap a)) \<and>
     recs_ok (pg_heap a) (pg_slab_heap a) \<and> index_ok (pg_heap a) (pg_allocs a) \<and> ids_ok (pg_fresh a) (pg_heap a) (pg_slab_heap a)"

lemma pinvD:
  assumes "pinv X a"
  shows "geo a" "slabs_linked (pg_slabs a) (pg_slab_heap a)" "pages_ok (pg_page_shift a) (length (pg_slabs a)) X (pg_slab_heap a)"
    "owners_ok (buddy_live (pg_source a)) (chunks_of (pg_heap a) \<union> slab_ranges (pg_page_size a) (pg_slab_heap a))"
    "recs_ok (pg_heap a) (pg_slab_heap a)" "index_ok (pg_heap a) (pg_allocs a)" "ids_ok (pg_fresh a) (pg_heap a) (pg_slab_heap a)"
  using assms by (auto simp: pinv_def)

lemma geoD:
  assumes "geo a"
  shows "buddy_plain (pg_source a)" "pg_page_size a = 2 ^ pg_page_shift a" "0 < pg_page_size a"
    "pg_slabs a \<noteq> [] \<Longrightarrow> pg_page_shift a \<le> 18" "pg_slabs a \<noteq> [] \<Longrightarrow> length (pg_slabs a) = pg_page_shift a - 12"
    "i < length (pg_slabs a) \<Longrightarrow> sl_slab_size (pg_slabs a ! i) = 2 ^ (12 + i)" "12 \<le> pg_page_shift a" "pg_page_shift a < 63"
    "by_end (pg_source a) + (by_end (pg_source a) - by_start (pg_source a)) \<le> U64_MAX"
    "by_end (pg_source a) - by_start (pg_source a) < 2 ^ 32 * pg_page_size a" "bit (pg_flags a) GPU_ALLOC_4K_VIDMEM_PAGES \<Longrightarrow> pg_slabs a \<noteq> []"
proof -
  show "sl_slab_size (pg_slabs a ! i) = 2 ^ (12 + i)" if "i < length (pg_slabs a)"
  proof -
    have "map sl_slab_size (pg_slabs a) ! i = map (\<lambda>i. 2 ^ (12 + i)) [0..<length (pg_slabs a)] ! i" using assms unfolding geo_def by metis
    then show ?thesis using that by simp
  qed
qed (use assms in \<open>auto simp: geo_def\<close>)

text \<open>A slab page takes at least a page of the source, so there are fewer than \<open>2 ^ 32\<close> of them.\<close>

lemma slab_pages_few:
  assumes i: "pinv X a"
  shows "finite (dom (pg_slab_heap a))" "card (dom (pg_slab_heap a)) \<le> U32_MAX"
proof -
  let ?h = "pg_slab_heap a" and ?L = "buddy_live (pg_source a)" and ?m = "pg_page_size a"
  note g = geoD[OF pinvD(1)[OF i]] and o = pinvD(4)[OF i]
  have fin: "finite ?L" by (rule live_finite[OF g(1)])
  show fd: "finite (dom ?h)"
  proof (rule finite_subset)
    show "dom ?h \<subseteq> {..<pg_fresh a}" using pinvD(7)[OF i] by (auto simp: ids_ok_def)
  qed simp
  have own: "(Inr q, sp_page_addr sp, ?m) \<in> chunks_of (pg_heap a) \<union> slab_ranges ?m ?h" if "?h q = Some sp" for q sp
    using that by (auto simp: slab_ranges_def)
  have "\<exists>x. x \<in> ?L \<and> ?m \<le> snd x \<and> fst x = sp_page_addr (the (?h q))" if "q \<in> dom ?h" for q
    using owners_okD(2)[OF o own, of q] that by fastforce
  then obtain f where f: "\<And>q. q \<in> dom ?h \<Longrightarrow> f q \<in> ?L \<and> ?m \<le> snd (f q) \<and> fst (f q) = sp_page_addr (the (?h q))" by metis
  have inj: "inj_on f (dom ?h)"
  proof (rule inj_onI)
    fix q q'
    assume q: "q \<in> dom ?h" "q' \<in> dom ?h" "f q = f q'"
    then obtain sp sp' where s: "?h q = Some sp" "?h q' = Some sp'" by auto
    then have "sp_page_addr sp = sp_page_addr sp'" using f[OF q(1)] f[OF q(2)] q(3) by simp
    then show "q = q'" using owners_okD(3)[OF o own[OF s(1)], of "Inr q'" ?m] own[OF s(2)] by simp
  qed
  have "card (dom ?h) * ?m \<le> (\<Sum>q\<in>dom ?h. snd (f q))" using f sum_bounded_below[of "dom ?h" ?m "snd \<circ> f"] by simp
  also have "\<dots> = sum snd (f ` dom ?h)" using sum.reindex[OF inj, of snd] by simp
  also have "\<dots> \<le> live_sum (pg_source a)" unfolding live_sum_def by (rule sum_mono2[OF fin]) (use f in blast)+
  also have "\<dots> < 2 ^ 32 * ?m" using live_sum_le[OF g(1)] g(10) by simp
  finally have "card (dom ?h) < 2 ^ 32" using g(3) by simp
  then show "card (dom ?h) \<le> U32_MAX" by simp
qed

section \<open>Where records lie\<close>

text \<open>The base of a record is in a range of the source that belongs to the record or to its slab page.\<close>

lemma object_inside:
  assumes p: "page_fits shift n taken sp" and k: "k \<in> objs sp" and n: "sp_owner sp < shift - 12"
  shows "k * sp_slab_size sp + sp_slab_size sp \<le> 2 ^ shift"
proof -
  have f: "k < sp_nr_objects sp" "sp_slab_size sp = 2 ^ (12 + sp_owner sp)" "sp_nr_objects sp = 2 ^ (shift - 12 - sp_owner sp)"
    using p k by (auto simp: page_fits_def)
  have "k * sp_slab_size sp + sp_slab_size sp = Suc k * sp_slab_size sp" by simp
  also have "\<dots> \<le> sp_nr_objects sp * sp_slab_size sp" using f(1) by (intro mult_le_mono1) simp
  also have "\<dots> = 2 ^ shift" unfolding f(2,3) power_add[symmetric] using n by simp
  finally show ?thesis .
qed

lemma slab_page_facts:
  assumes i: "pinv X a" and q: "pg_slab_heap a q = Some sp"
  shows "page_fits (pg_page_shift a) (length (pg_slabs a)) (q \<in> X) sp" "pg_slabs a \<noteq> []" "sp_owner sp < pg_page_shift a - 12" "pg_page_shift a \<le> 18"
    "k \<in> objs sp \<Longrightarrow> k * sp_slab_size sp + sp_slab_size sp \<le> pg_page_size a"
    "(Inr q, sp_page_addr sp, pg_page_size a) \<in> chunks_of (pg_heap a) \<union> slab_ranges (pg_page_size a) (pg_slab_heap a)"
proof -
  show f: "page_fits (pg_page_shift a) (length (pg_slabs a)) (q \<in> X) sp" using pinvD(3)[OF i] q by (simp add: pages_ok_def)
  then have o: "sp_owner sp < length (pg_slabs a)" by (simp add: page_fits_def)
  then show ne: "pg_slabs a \<noteq> []" by auto
  note g = geoD[OF pinvD(1)[OF i]]
  show o2: "sp_owner sp < pg_page_shift a - 12" "pg_page_shift a \<le> 18" using o g(4,5)[OF ne] by simp_all
  show "k \<in> objs sp \<Longrightarrow> k * sp_slab_size sp + sp_slab_size sp \<le> pg_page_size a" using object_inside[OF f _ o2(1)] g(2) by simp
  show "(Inr q, sp_page_addr sp, pg_page_size a) \<in> chunks_of (pg_heap a) \<union> slab_ranges (pg_page_size a) (pg_slab_heap a)"
    using q by (auto simp: slab_ranges_def)
qed

text \<open>Every chunk of a record lies in a range of the source that belongs to the record or to its slab page.\<close>

lemma chunk_range:
  assumes i: "pinv X a" and p: "pg_heap a p = Some al" and c: "c \<in> set (al_sgl al)"
  shows "\<exists>x k n l. (x, k, n) \<in> chunks_of (pg_heap a) \<union> slab_ranges (pg_page_size a) (pg_slab_heap a) \<and> (k, l) \<in> buddy_live (pg_source a) \<and>
    k \<le> sg_phys c \<and> sg_phys c + sg_length c \<le> k + l \<and> 0 < sg_length c \<and>
    (case al_slab_page al of
       None \<Rightarrow> x = Inl p \<and> k = sg_phys c
     | Some q \<Rightarrow> x = Inr q \<and> (\<exists>sp j. pg_slab_heap a q = Some sp \<and> k = sp_page_addr sp \<and> j \<in> objs sp \<and> sg_phys c = k + j * sp_slab_size sp \<and>
         sg_phys c = al_base al \<and> sg_length c = sp_slab_size sp))"
proof (cases "al_slab_page al")
  case None
  then have m: "(Inl p, sg_phys c, sg_length c) \<in> chunks_of (pg_heap a) \<union> slab_ranges (pg_page_size a) (pg_slab_heap a)"
    using p c by (auto simp: chunks_of_def)
  obtain l where "l \<ge> sg_length c" "(sg_phys c, l) \<in> buddy_live (pg_source a)" using owners_okD(2)[OF pinvD(4)[OF i] m] by blast
  then show ?thesis using m owners_okD(1)[OF pinvD(4)[OF i] m] None by fastforce
next
  case (Some q)
  have r: "rec_ok (pg_slab_heap a) al" using pinvD(5)[OF i] p by (auto simp: recs_ok_def)
  then obtain sp j where s: "pg_slab_heap a q = Some sp" "j \<in> objs sp" "al_base al = sp_page_addr sp + j * sp_slab_size sp" "al_length al = sp_slab_size sp"
    and one: "length (al_sgl al) = 1" using Some unfolding rec_ok_def by auto
  then have "al_sgl al = [c]" using c by (auto simp: length_Suc_conv)
  then have cc: "sg_phys c = al_base al" "sg_length c = sp_slab_size sp" using r s(4) by (auto simp: rec_ok_def)
  note f = slab_page_facts[OF i s(1)]
  obtain l where l: "l \<ge> pg_page_size a" "(sp_page_addr sp, l) \<in> buddy_live (pg_source a)" using owners_okD(2)[OF pinvD(4)[OF i] f(6)] by blast
  have "0 < sp_slab_size sp" using f(1) by (simp add: page_fits_def)
  moreover have "sg_phys c + sg_length c \<le> sp_page_addr sp + l" using f(5)[OF s(2)] l(1) cc s(3) by simp
  ultimately show ?thesis using f(6) l(2) cc s Some
    by (intro exI[of _ "Inr q"] exI[of _ "sp_page_addr sp"] exI[of _ "pg_page_size a"] exI[of _ l]) auto
qed

lemma base_unique:
  assumes "index_ok h idx" "h p = Some al" "h p' = Some al'" "al_base al = al_base al'"
  shows "p = p'"
proof -
  have "(al_base al, p) \<in> set idx" "(al_base al, p') \<in> set idx" using assms by (force simp: index_ok_def)+
  then show ?thesis using idx_search_iff[of idx "al_base al"] assms(1) by (metis index_ok_def option.inject)
qed

text \<open>No address is in two chunks.\<close>

lemma chunks_disjoint:
  assumes i: "pinv X a" and p: "pg_heap a p = Some al" "c \<in> set (al_sgl al)" and p': "pg_heap a p' = Some al'" "c' \<in> set (al_sgl al')"
    and ne: "p \<noteq> p' \<or> c \<noteq> c'"
  shows "ranges_disjoint (sg_phys c) (sg_phys c + sg_length c) (sg_phys c') (sg_phys c' + sg_length c')"
proof -
  obtain x k n l where r: "(x, k, n) \<in> chunks_of (pg_heap a) \<union> slab_ranges (pg_page_size a) (pg_slab_heap a)" "(k, l) \<in> buddy_live (pg_source a)"
    "k \<le> sg_phys c" "sg_phys c + sg_length c \<le> k + l" "0 < sg_length c"
    "case al_slab_page al of
       None \<Rightarrow> x = Inl p \<and> k = sg_phys c
     | Some q \<Rightarrow> x = Inr q \<and> (\<exists>sp j. pg_slab_heap a q = Some sp \<and> k = sp_page_addr sp \<and> j \<in> objs sp \<and> sg_phys c = k + j * sp_slab_size sp \<and>
         sg_phys c = al_base al \<and> sg_length c = sp_slab_size sp)" using chunk_range[OF i p] by blast
  obtain x' k' n' l' where r': "(x', k', n') \<in> chunks_of (pg_heap a) \<union> slab_ranges (pg_page_size a) (pg_slab_heap a)" "(k', l') \<in> buddy_live (pg_source a)"
    "k' \<le> sg_phys c'" "sg_phys c' + sg_length c' \<le> k' + l'" "0 < sg_length c'"
    "case al_slab_page al' of
       None \<Rightarrow> x' = Inl p' \<and> k' = sg_phys c'
     | Some q \<Rightarrow> x' = Inr q \<and> (\<exists>sp j. pg_slab_heap a q = Some sp \<and> k' = sp_page_addr sp \<and> j \<in> objs sp \<and> sg_phys c' = k' + j * sp_slab_size sp \<and>
         sg_phys c' = al_base al' \<and> sg_length c' = sp_slab_size sp)" using chunk_range[OF i p'] by blast
  note g = geoD[OF pinvD(1)[OF i]]
  show ?thesis
  proof (cases "k = k'")
    case False
    then have "ranges_disjoint k (k + l) k' (k' + l')" using buddy.live_disjoint[OF g(1) r(2) r'(2)] by blast
    then show ?thesis using r(3,4,5) r'(3,4,5) by (auto simp: ranges_disjoint_def)
  next
    case True
    then have x: "x' = x" using owners_okD(3)[OF pinvD(4)[OF i] r(1)] r'(1) by blast
    show ?thesis
    proof (cases "al_slab_page al")
      case None
      then have "x = Inl p" "k = sg_phys c" using r(6) by auto
      then have "p' = p" "sg_phys c' = sg_phys c" using r'(6) x True by (auto split: option.splits)
      moreover have "distinct (map sg_phys (al_sgl al))" using pinvD(5)[OF i] p(1) by (auto simp: recs_ok_def rec_ok_def)
      ultimately have "c = c'" using p p' by (auto simp: distinct_map inj_on_def)
      then show ?thesis using ne \<open>p' = p\<close> by simp
    next
      case (Some q)
      then obtain sp j where s: "x = Inr q" "pg_slab_heap a q = Some sp" "k = sp_page_addr sp" "sg_phys c = k + j * sp_slab_size sp" "sg_phys c = al_base al"
        "sg_length c = sp_slab_size sp" using r(6) unfolding Some option.case by blast
      have q': "al_slab_page al' = Some q" using r'(6) x s(1) by (auto split: option.splits)
      have "pg_slab_heap a q = Some sp'' \<Longrightarrow> sp'' = sp" for sp'' using s(2) by simp
      then obtain j' where s': "sg_phys c' = k + j' * sp_slab_size sp" "sg_phys c' = al_base al'" "sg_length c' = sp_slab_size sp"
        using r'(6) unfolding q' option.case True by blast
      have "j \<noteq> j'"
      proof
        assume "j = j'"
        then have b: "al_base al = al_base al'" using s(4,5) s'(1,2) by simp
        have pp: "p = p'" by (rule base_unique[OF pinvD(6)[OF i] p(1) p'(1) b])
        then have "al' = al" using p(1) p'(1) by simp
        moreover have "length (al_sgl al) = 1" using pinvD(5)[OF i] p(1) Some by (auto simp: recs_ok_def rec_ok_def)
        ultimately have "c = c'" using p(2) p'(2) by (auto simp: length_Suc_conv)
        then show False using ne pp by simp
      qed
      then consider "Suc j \<le> j'" | "Suc j' \<le> j" by linarith
      then show ?thesis
      proof cases
        case 1
        then have "Suc j * sp_slab_size sp \<le> j' * sp_slab_size sp" by (rule mult_le_mono1)
        then show ?thesis using s(4,6) s'(1,3) by (auto simp: ranges_disjoint_def)
      next
        case 2
        then have "Suc j' * sp_slab_size sp \<le> j * sp_slab_size sp" by (rule mult_le_mono1)
        then show ?thesis using s(4,6) s'(1,3) by (auto simp: ranges_disjoint_def)
      qed
    qed
  qed
qed

end
