(* ===== verification/Page_Ops.thy ===== *)
theory Page_Ops
  imports Page_Inv
begin

text \<open>
  The operations of the page allocator keep its invariant: gathering and releasing chunks of pages, cutting objects out of slab
  pages and putting them back.
\<close>

section \<open>Frames\<close>

text \<open>Everything a client sees but for the records: the settings and the range.\<close>

definition pcfg :: "nvgpu_page_allocator \<Rightarrow> u64 \<times> u32 \<times> u64 \<times> u64 \<times> u64" where
  "pcfg a = (pg_page_size a, pg_page_shift a, pg_flags a, buddy_limits (pg_source a))"

lemma geo_cong:
  assumes "geo a" "pcfg a' = pcfg a" "buddy_plain (pg_source a')" "map sl_slab_size (pg_slabs a') = map sl_slab_size (pg_slabs a)"
  shows "geo a'" "length (pg_slabs a') = length (pg_slabs a)"
proof -
  show l: "length (pg_slabs a') = length (pg_slabs a)" using assms(4) by (metis length_map)
  then have n: "pg_slabs a' = [] \<longleftrightarrow> pg_slabs a = []" by (metis length_0_conv)
  show "geo a'" using assms unfolding geo_def n l by (simp add: pcfg_def buddy_limits_def)
qed

lemma ids_ok_mono: "ids_ok f h sh \<Longrightarrow> f \<le> f' \<Longrightarrow> ids_ok f' h sh"
  unfolding ids_ok_def by (meson less_le_trans)

lemma pinv_cong:
  assumes i: "pinv X a" and eq: "pg_page_size a' = pg_page_size a" "pg_page_shift a' = pg_page_shift a" "pg_flags a' = pg_flags a"
      "pg_slabs a' = pg_slabs a" "pg_slab_heap a' = pg_slab_heap a" "pg_heap a' = pg_heap a" "pg_allocs a' = pg_allocs a" "pg_fresh a \<le> pg_fresh a'"
    and src: "buddy_plain (pg_source a')" "buddy_limits (pg_source a') = buddy_limits (pg_source a)" "buddy_live (pg_source a') = buddy_live (pg_source a)"
  shows "pinv X a'"
proof -
  have "geo a'" by (rule geo_cong(1)[OF pinvD(1)[OF i] _ src(1)]) (simp_all add: pcfg_def eq(1-4) src(2))
  moreover have "ids_ok (pg_fresh a') (pg_heap a') (pg_slab_heap a')" unfolding eq(5,6) by (rule ids_ok_mono[OF pinvD(7)[OF i] eq(8)])
  ultimately show ?thesis using i unfolding pinv_def eq(1,2,4-7) src(3) by blast
qed

lemma index_ok_insert:
  assumes "index_ok h idx" "h p = None" "\<And>p' al'. h p' = Some al' \<Longrightarrow> al_base al' \<noteq> al_base al"
  shows "index_ok (h(p \<mapsto> al)) (idx_insert (al_base al) p idx)"
proof -
  have s: "idx_sorted idx" "set idx = {(al_base al, p) | p al. h p = Some al}" using assms(1) by (auto simp: index_ok_def)
  have "(al_base al, p') \<notin> set idx" for p'
  proof
    assume "(al_base al, p') \<in> set idx"
    then obtain al' where "h p' = Some al'" "al_base al' = al_base al" unfolding s(2) by auto
    then show False using assms(3) by blast
  qed
  then have "idx_search (al_base al) idx = None" using idx_search_iff[OF s(1)] by (metis not_None_eq)
  then have "set (idx_insert (al_base al) p idx) = insert (al_base al, p) (set idx)" by (rule set_idx_insert_new)
  moreover have "{(al_base al', p') | p' al'. (h(p \<mapsto> al)) p' = Some al'} = insert (al_base al, p) (set idx)"
  proof (intro equalityI subsetI)
    fix t
    assume "t \<in> {(al_base al', p') | p' al'. (h(p \<mapsto> al)) p' = Some al'}"
    then show "t \<in> insert (al_base al, p) (set idx)" unfolding s(2) by (auto split: if_splits)
  next
    fix t
    assume "t \<in> insert (al_base al, p) (set idx)"
    then show "t \<in> {(al_base al', p') | p' al'. (h(p \<mapsto> al)) p' = Some al'}"
    proof
      assume "t \<in> set idx"
      then obtain p' al' where t: "t = (al_base al', p')" "h p' = Some al'" unfolding s(2) by blast
      then have "(h(p \<mapsto> al)) p' = Some al'" using assms(2) by auto
      then show ?thesis using t(1) by blast
    qed auto
  qed
  ultimately show ?thesis using s(1) by (simp add: index_ok_def)
qed

lemma index_ok_delete:
  assumes "index_ok h idx" "h p = Some al"
  shows "index_ok (h(p := None)) (idx_unlink (al_base al) idx)"
proof -
  have s: "idx_sorted idx" "set idx = {(al_base al, p) | p al. h p = Some al}" using assms(1) by (auto simp: index_ok_def)
  have "(k, p') \<in> set (idx_unlink (al_base al) idx) \<longleftrightarrow> (k, p') \<in> {(al_base al', p') | p' al'. (h(p := None)) p' = Some al'}" for k p'
  proof -
    have "(k, p') \<in> set (idx_unlink (al_base al) idx) \<longleftrightarrow> (\<exists>al'. h p' = Some al' \<and> al_base al' = k \<and> k \<noteq> al_base al)"
      unfolding set_idx_unlink s(2) by auto
    also have "\<dots> \<longleftrightarrow> (\<exists>al'. p' \<noteq> p \<and> h p' = Some al' \<and> al_base al' = k)" using base_unique[OF assms(1) assms(2), of p'] assms(2) by auto
    finally show ?thesis by auto
  qed
  then have "set (idx_unlink (al_base al) idx) = {(al_base al', p') | p' al'. (h(p := None)) p' = Some al'}" by (intro set_eqI) (simp only: split_paired_all)
  then show ?thesis using s(1) by (simp add: index_ok_def)
qed

lemma chunks_ofI: "h p = Some al \<Longrightarrow> al_slab_page al = None \<Longrightarrow> c \<in> set (al_sgl al) \<Longrightarrow> (Inl p, sg_phys c, sg_length c) \<in> chunks_of h"
  unfolding chunks_of_def by blast

lemma chunks_ofE:
  assumes "t \<in> chunks_of h"
  obtains p al c where "t = (Inl p, sg_phys c, sg_length c)" "h p = Some al" "al_slab_page al = None" "c \<in> set (al_sgl al)"
  using assms unfolding chunks_of_def by blast

lemma chunks_of_insert:
  assumes "h p = None" "al_slab_page al = None"
  shows "chunks_of (h(p \<mapsto> al)) = chunks_of h \<union> {(Inl p, sg_phys c, sg_length c) | c. c \<in> set (al_sgl al)}"
proof (intro equalityI subsetI)
  fix t
  assume "t \<in> chunks_of (h(p \<mapsto> al))"
  then obtain p' al' c where t: "t = (Inl p', sg_phys c, sg_length c)" "(h(p \<mapsto> al)) p' = Some al'" "al_slab_page al' = None" "c \<in> set (al_sgl al')"
    by (rule chunks_ofE)
  show "t \<in> chunks_of h \<union> {(Inl p, sg_phys c, sg_length c) | c. c \<in> set (al_sgl al)}"
  proof (cases "p' = p")
    case True
    then show ?thesis using t by auto
  next
    case False
    then have "t \<in> chunks_of h" unfolding t(1) using t by (intro chunks_ofI) auto
    then show ?thesis ..
  qed
next
  fix t
  assume "t \<in> chunks_of h \<union> {(Inl p, sg_phys c, sg_length c) | c. c \<in> set (al_sgl al)}"
  then show "t \<in> chunks_of (h(p \<mapsto> al))"
  proof
    assume "t \<in> chunks_of h"
    then obtain p' al' c where t: "t = (Inl p', sg_phys c, sg_length c)" "h p' = Some al'" "al_slab_page al' = None" "c \<in> set (al_sgl al')"
      by (rule chunks_ofE)
    have "p' \<noteq> p" using t(2) assms(1) by auto
    then show ?thesis unfolding t(1) using t by (intro chunks_ofI[of _ p' al']) auto
  next
    assume "t \<in> {(Inl p, sg_phys c, sg_length c) | c. c \<in> set (al_sgl al)}"
    then obtain c where "t = (Inl p, sg_phys c, sg_length c)" "c \<in> set (al_sgl al)" by blast
    then show ?thesis using assms(2) chunks_ofI[of "h(p \<mapsto> al)" p al c] by simp
  qed
qed

section \<open>Pages\<close>

lemma new_record_base:
  assumes i: "pinv X a" and g: "grown (buddy_live (pg_source a)) cs s" and p: "pg_heap a p = Some al" and c: "c \<in> set cs"
  shows "al_base al \<noteq> sg_phys c"
proof
  assume b: "al_base al = sg_phys c"
  have "al_sgl al \<noteq> []" "al_base al = sg_phys (hd (al_sgl al))" using pinvD(5)[OF i] p by (auto simp: recs_ok_def rec_ok_def)
  then obtain d where d: "d \<in> set (al_sgl al)" "al_base al = sg_phys d" using hd_in_set by blast
  obtain x k n l where r: "(k, l) \<in> buddy_live (pg_source a)" "k \<le> sg_phys d" "sg_phys d + sg_length d \<le> k + l" "0 < sg_length d"
    using chunk_range[OF i p d(1)] by blast
  obtain l' where c': "(sg_phys c, l') \<in> buddy_live s" "buddy_plain s" "(k, l) \<in> buddy_live s" "k \<noteq> sg_phys c"
    using g c r(1) unfolding grown_def by fastforce
  have "ranges_disjoint k (k + l) (sg_phys c) (sg_phys c + l')" using buddy.live_disjoint[OF c'(2,3,1)] c'(4) by blast
  moreover have "0 < l'" using buddy.live_bounds[OF c'(2,1)] by simp
  ultimately show False using r b d(2) by (auto simp: ranges_disjoint_def)
qed

lemma add_pages_record:
  assumes i: "pinv {} a" and al: "al_slab_page al = None" "grown (buddy_live (pg_source a)) (al_sgl al) s" "rec_ok (pg_slab_heap a) al"
    and p: "pg_heap a p = None" "p = pg_fresh a" and lim: "buddy_limits s = buddy_limits (pg_source a)"
    and a': "pg_source a' = s" "pg_heap a' = (pg_heap a)(p \<mapsto> al)" "pg_allocs a' = idx_insert (al_base al) p (pg_allocs a)" "pg_fresh a' = p + 1"
      "pg_page_size a' = pg_page_size a" "pg_page_shift a' = pg_page_shift a" "pg_flags a' = pg_flags a" "pg_slabs a' = pg_slabs a" "pg_slab_heap a' = pg_slab_heap a"
  shows "pinv {} a'"
proof -
  let ?L = "buddy_live (pg_source a)" and ?N = "{(Inl p, sg_phys c, sg_length c) | c. c \<in> set (al_sgl al)} :: ((nat + nat) \<times> u64 \<times> u64) set"
  have ch: "chunks_of ((pg_heap a)(p \<mapsto> al)) = chunks_of (pg_heap a) \<union> ?N" by (rule chunks_of_insert) (fact p(1) al(1))+
  have L: "?L \<subseteq> buddy_live s" "fst ` buddy_live s \<subseteq> fst ` ?L \<union> keys ?N" using al(2) by (auto simp: grown_def keys_def image_iff)
  have N: "x = Inl p \<and> 0 < n \<and> k \<notin> fst ` ?L \<and> (\<exists>l\<ge>n. (k, l) \<in> buddy_live s)" if "(x, k, n) \<in> ?N" for x k n
    using that al(2) by (auto simp: grown_def)
  have "owners_ok (buddy_live s) ((chunks_of (pg_heap a) \<union> slab_ranges (pg_page_size a) (pg_slab_heap a)) \<union> ?N)"
    by (rule owners_ok_add[OF pinvD(4)[OF i] L N])
  moreover have "(chunks_of (pg_heap a) \<union> slab_ranges (pg_page_size a) (pg_slab_heap a)) \<union> ?N = chunks_of (pg_heap a') \<union> slab_ranges (pg_page_size a') (pg_slab_heap a')"
    unfolding a' ch by blast
  ultimately have "owners_ok (buddy_live (pg_source a')) (chunks_of (pg_heap a') \<union> slab_ranges (pg_page_size a') (pg_slab_heap a'))" unfolding a'(1) by simp
  moreover have "geo a'" using pinvD(1)[OF i] al(2) by (rule_tac geo_cong(1)[of a]) (auto simp: a' pcfg_def lim grown_def)
  moreover have "recs_ok (pg_heap a') (pg_slab_heap a')"
  proof -
    have "\<exists>p' al'. ((pg_heap a)(p \<mapsto> al)) p' = Some al' \<and> al_slab_page al' = Some q \<and> al_base al' = b"
      if "\<exists>p' al'. pg_heap a p' = Some al' \<and> al_slab_page al' = Some q \<and> al_base al' = b" for q b using that p(1) by (metis fun_upd_other option.distinct(1))
    then show ?thesis using pinvD(5)[OF i] al(3) unfolding a' recs_ok_def by auto
  qed
  moreover have "index_ok (pg_heap a') (pg_allocs a')" unfolding a'
  proof (rule index_ok_insert[OF pinvD(6)[OF i] p(1)])
    show "al_base al' \<noteq> al_base al" if "pg_heap a p' = Some al'" for p' al'
      using new_record_base[OF i al(2) that, of "hd (al_sgl al)"] al(3) by (simp add: rec_ok_def)
  qed
  moreover have "ids_ok (pg_fresh a') (pg_heap a') (pg_slab_heap a')" using pinvD(7)[OF i] p(2) unfolding a' ids_ok_def by (auto simp: less_Suc_eq)
  ultimately show ?thesis using pinvD(2,3)[OF i] unfolding pinv_def a'(6,8,9) by blast
qed

lemma fresh_free: "pinv X a \<Longrightarrow> pg_heap a (pg_fresh a) = None \<and> pg_slab_heap a (pg_fresh a) = None"
  using pinvD(7)[of X a] by (force simp: ids_ok_def)

lemma do_alloc_pages_ok:
  assumes i: "pinv {} a" and pages: "0 < pages" "pages * pg_page_size a \<le> U64_MAX" and lim: "buddy_limits (pg_source a) = (lo, hi)"
    and room: "by_bytes_freed (pg_source a) + (hi - lo) \<le> U64_MAX"
  shows "(\<exists>s r f. do_nvgpu_alloc_pages e pages a = Some (None, a\<lparr>pg_source := s, pg_requests := r, pg_fresh := f\<rparr>) \<and> pg_fresh a \<le> f \<and> buddy_plain s \<and>
      buddy_limits s = (lo, hi) \<and> buddy_live s = buddy_live (pg_source a) \<and> by_bytes_freed s \<le> by_bytes_freed (pg_source a) + (hi - lo)) \<or>
    (\<exists>s r al. do_nvgpu_alloc_pages e pages a = Some (Some (pg_fresh a), a\<lparr>pg_source := s, pg_requests := r, pg_fresh := pg_fresh a + 1,
        pg_sgls := pg_sgls a + length (al_sgl al), pg_heap := (pg_heap a)(pg_fresh a \<mapsto> al)\<rparr>) \<and>
      buddy_limits s = (lo, hi) \<and> grown (buddy_live (pg_source a)) (al_sgl al) s \<and> by_bytes_freed s = by_bytes_freed (pg_source a) \<and>
      al_slab_page al = None \<and> rec_ok (pg_slab_heap a) al \<and> al_length al = pages * pg_page_size a \<and>
      (bit (pg_flags a) GPU_ALLOC_FORCE_CONTIG \<longrightarrow> length (al_sgl al) = 1))"
proof -
  let ?s = "pg_source a" and ?p = "pg_fresh a" and ?len = "pages * pg_page_size a"
  note g = geoD[OF pinvD(1)[OF i]]
  define al where "al = \<lparr>al_sgl = [], al_nr_chunks = 0, al_length = ?len, al_base = 0, al_slab_page = None\<rparr>"
  have w: "wrap64 (pages * 2 ^ pg_page_shift a) = ?len" using pages(2) unfolding g(2) by simp
  show ?thesis
  proof (cases "pe_nomem e (pg_requests a)")
    case True
    have "do_nvgpu_alloc_pages e pages a = Some (None, a\<lparr>pg_source := ?s, pg_requests := pg_requests a + 1, pg_fresh := pg_fresh a\<rparr>)"
      using True by (simp add: do_nvgpu_alloc_pages_def alloc_record_def pg_request_def)
    then show ?thesis using g(1) lim by (intro disjI1) force
  next
    case False
    define a1 where "a1 = a\<lparr>pg_requests := pg_requests a + 1, pg_heap := (pg_heap a)(?p \<mapsto> al), pg_fresh := ?p + 1\<rparr>"
    have a1: "pg_source a1 = ?s" "pg_page_size a1 = pg_page_size a" "pg_page_shift a1 = pg_page_shift a" "pg_flags a1 = pg_flags a" "pg_sgls a1 = pg_sgls a"
      by (simp_all add: a1_def)
    have rec: "alloc_record e al a = (Some ?p, a1)" using False by (simp add: alloc_record_def pg_request_def a1_def)
    have prems: "grown (buddy_live ?s) [] (pg_source a1)" "pg_page_size a1 = 2 ^ pg_page_shift a1" "pages * pg_page_size a1 \<le> U64_MAX"
      "chunk_limit (pg_page_size a1) pages ?len" "buddy_limits (pg_source a1) = (lo, hi)" "by_bytes_freed (pg_source a1) + (hi - lo) \<le> U64_MAX"
      unfolding a1 using grown_Nil[OF g(1)] g(2) pages(2) lim room by (simp_all add: chunk_limit_def)
    obtain ok n cs s r where c: "alloc_chunks e pages ?len 0 [] a1 = Some (ok, n, cs, a1\<lparr>pg_source := s, pg_requests := r, pg_sgls := pg_sgls a + length cs\<rparr>)"
      "grown (buddy_live ?s) cs s" "buddy_limits s = (lo, hi)" "by_bytes_freed s + live_sum s \<le> by_bytes_freed ?s + (hi - lo)"
      "ok \<longrightarrow> by_bytes_freed s = by_bytes_freed ?s \<and> n = length cs \<and> sum_list (map sg_length cs) = ?len \<and> (pages = 0 \<longleftrightarrow> cs = []) \<and>
         (bit (pg_flags a) GPU_ALLOC_FORCE_CONTIG \<longrightarrow> length cs \<le> 1)"
      using alloc_chunks_ok[OF prems, of e 0] unfolding a1 by auto
    note run = do_nvgpu_alloc_pages_def[of e pages a, unfolded Let_def w, folded al_def, unfolded rec]
    show ?thesis
    proof (cases ok)
      case True
      then have ok: "by_bytes_freed s = by_bytes_freed ?s" "n = length cs" "sum_list (map sg_length cs) = ?len" "cs \<noteq> []"
        "bit (pg_flags a) GPU_ALLOC_FORCE_CONTIG \<Longrightarrow> length cs \<le> 1" using c(5) pages(1) by auto
      define al' where "al' = al\<lparr>al_sgl := cs, al_nr_chunks := n, al_base := sg_phys (hd cs)\<rparr>"
      have "rec_ok (pg_slab_heap a) al'" using ok(2-4) c(2) by (auto simp: al'_def al_def rec_ok_def grown_def)
      moreover have "do_nvgpu_alloc_pages e pages a = Some (Some ?p, a\<lparr>pg_source := s, pg_requests := r, pg_fresh := ?p + 1,
        pg_sgls := pg_sgls a + length (al_sgl al'), pg_heap := (pg_heap a)(?p \<mapsto> al')\<rparr>)"
        using run c(1) True ok(4) by (cases cs) (simp_all add: al'_def a1_def)
      moreover have "al_sgl al' = cs" "al_slab_page al' = None" "al_length al' = ?len" by (simp_all add: al'_def al_def)
      moreover have "length cs = 1" if "bit (pg_flags a) GPU_ALLOC_FORCE_CONTIG" using ok(4) ok(5)[OF that] by (cases cs) auto
      ultimately show ?thesis using c(2,3) ok(1) by (intro disjI2) (metis (no_types, lifting))
    next
      case no: False
      have "src_room s" using c(4) room by (simp add: src_room_def)
      from free_chunks_ok[OF c(2) this] obtain s' where s': "free_chunks cs s = Some s'" "grown (buddy_live ?s) [] s'" "buddy_limits s' = buddy_limits s"
        "by_bytes_freed s' + live_sum s' = by_bytes_freed s + live_sum s" by blast
      have "do_nvgpu_alloc_pages e pages a = Some (None, a\<lparr>pg_source := s', pg_requests := r, pg_fresh := ?p + 1\<rparr>)"
        using run c(1) no s'(1) fresh_free[OF i] by (simp add: a1_def free_record_def fun_upd_idem)
      moreover have "buddy_plain s'" "buddy_live s' = buddy_live ?s" using s'(2) by (simp_all add: grown_def)
      moreover have "by_bytes_freed s' \<le> by_bytes_freed ?s + (hi - lo)" using s'(4) c(4) by simp
      ultimately show ?thesis using s'(3) c(3) by (intro disjI1) force
    qed
  qed
qed

end
