(* ===== verification/Page_Slab_Ops.thy ===== *)
theory Page_Slab_Ops
  imports Page_Ops
begin

text \<open>
  Slab pages: taking one that has room out of its list, cutting an object out of it, giving an object back, and putting
  the page into the list it belongs to or back to the source.
\<close>

section \<open>Records and objects\<close>

definition same_place :: "page_alloc_slab_page \<Rightarrow> page_alloc_slab_page \<Rightarrow> bool" where
  "same_place sp sp' \<longleftrightarrow> sp_page_addr sp' = sp_page_addr sp \<and> sp_slab_size sp' = sp_slab_size sp"

lemma rec_ok_cong:
  assumes "rec_ok sh al" "\<And>q sp k. al_slab_page al = Some q \<Longrightarrow> sh q = Some sp \<Longrightarrow> k \<in> objs sp \<Longrightarrow> al_base al = sp_page_addr sp + k * sp_slab_size sp \<Longrightarrow>
    \<exists>sp'. sh' q = Some sp' \<and> same_place sp sp' \<and> k \<in> objs sp'"
  shows "rec_ok sh' al"
proof -
  have "\<exists>sp k. sh' q = Some sp \<and> k \<in> objs sp \<and> al_base al = sp_page_addr sp + k * sp_slab_size sp \<and> al_length al = sp_slab_size sp"
    if q: "al_slab_page al = Some q" for q
  proof -
    obtain sp k where s: "sh q = Some sp" "k \<in> objs sp" "al_base al = sp_page_addr sp + k * sp_slab_size sp" "al_length al = sp_slab_size sp"
      using assms(1) q unfolding rec_ok_def by blast
    obtain sp' where "sh' q = Some sp'" "same_place sp sp'" "k \<in> objs sp'" using assms(2)[OF q s(1-3)] by blast
    then show ?thesis using s(3,4) unfolding same_place_def by metis
  qed
  then show ?thesis using assms(1) unfolding rec_ok_def by blast
qed

lemma recs_okD:
  assumes "recs_ok h sh"
  shows "h p = Some al \<Longrightarrow> rec_ok sh al"
    "sh q = Some sp \<Longrightarrow> k \<in> objs sp \<Longrightarrow> \<exists>p al. h p = Some al \<and> al_slab_page al = Some q \<and> al_base al = sp_page_addr sp + k * sp_slab_size sp"
  using assms unfolding recs_ok_def by blast+

lemma recs_ok_cut:
  assumes r: "recs_ok h sh" and q: "sh q = Some sp" "same_place sp sp'" "objs sp' = insert k (objs sp)"
    and p: "h p = None" "rec_ok (sh(q \<mapsto> sp')) al" "al_slab_page al = Some q" "al_base al = sp_page_addr sp + k * sp_slab_size sp"
  shows "recs_ok (h(p \<mapsto> al)) (sh(q \<mapsto> sp'))"
proof -
  have 1: "rec_ok (sh(q \<mapsto> sp')) al'" if "(h(p \<mapsto> al)) p' = Some al'" for p' al'
  proof (cases "p' = p")
    case False
    then have "rec_ok sh al'" using that recs_okD(1)[OF r] by simp
    then show ?thesis
    proof (rule rec_ok_cong)
      show "\<exists>sp'' . (sh(q \<mapsto> sp')) q' = Some sp'' \<and> same_place s sp'' \<and> j \<in> objs sp''" if "sh q' = Some s" "j \<in> objs s" for q' s j
        using that q by (cases "q' = q") (simp_all add: same_place_def)
    qed
  qed (use that p(2) in simp)
  have 2: "\<exists>p' al'. (h(p \<mapsto> al)) p' = Some al' \<and> al_slab_page al' = Some q' \<and> al_base al' = sp_page_addr s + j * sp_slab_size s"
    if s: "(sh(q \<mapsto> sp')) q' = Some s" "j \<in> objs s" for q' s j
  proof (cases "q' = q \<and> j = k")
    case True
    then have "s = sp'" using s(1) by simp
    then show ?thesis using True p(3,4) q(2) by (intro exI[of _ p] exI[of _ al]) (simp add: same_place_def)
  next
    case False
    obtain s0 where s0: "sh q' = Some s0" "j \<in> objs s0" "same_place s0 s" using s q False by (cases "q' = q") (auto simp: same_place_def)
    obtain p' al' where o: "h p' = Some al'" "al_slab_page al' = Some q'" "al_base al' = sp_page_addr s0 + j * sp_slab_size s0"
      using recs_okD(2)[OF r s0(1,2)] by blast
    then have "(h(p \<mapsto> al)) p' = Some al'" using p(1) by auto
    then show ?thesis using o(2,3) s0(3) unfolding same_place_def by metis
  qed
  show ?thesis unfolding recs_ok_def using 1 2 by blast
qed

lemma recs_ok_drop:
  assumes r: "recs_ok h sh" and ix: "index_ok h idx" and q: "sh q = Some sp" "same_place sp sp'" "objs sp' = objs sp - {k}" "0 < sp_slab_size sp"
    and p: "h p = Some al" "al_base al = sp_page_addr sp + k * sp_slab_size sp" "al_slab_page al = Some q"
  shows "recs_ok (h(p := None)) (sh(q \<mapsto> sp'))"
proof -
  have 1: "rec_ok (sh(q \<mapsto> sp')) al'" if h: "(h(p := None)) p' = Some al'" for p' al'
  proof -
    have p': "p' \<noteq> p" "h p' = Some al'" using h by (auto split: if_splits)
    show ?thesis
    proof (rule rec_ok_cong[OF recs_okD(1)[OF r p'(2)]])
      show "\<exists>sp'' . (sh(q \<mapsto> sp')) q' = Some sp'' \<and> same_place s sp'' \<and> j \<in> objs sp''"
        if s: "sh q' = Some s" "j \<in> objs s" "al_base al' = sp_page_addr s + j * sp_slab_size s" for q' s j
      proof (cases "q' = q")
        case True
        then have "s = sp" using s(1) q(1) by simp
        moreover have "j \<noteq> k"
        proof
          assume "j = k"
          then have b: "al_base al = al_base al'" using s(3) p(2) \<open>s = sp\<close> by simp
          show False using base_unique[OF ix p(1) p'(2) b] p'(1) by simp
        qed
        ultimately show ?thesis using True q s(2) by simp
      next
        case False
        then show ?thesis using s by (simp add: same_place_def)
      qed
    qed
  qed
  have 2: "\<exists>p' al'. (h(p := None)) p' = Some al' \<and> al_slab_page al' = Some q' \<and> al_base al' = sp_page_addr s + j * sp_slab_size s"
    if s: "(sh(q \<mapsto> sp')) q' = Some s" "j \<in> objs s" for q' s j
  proof -
    obtain s0 where s0: "sh q' = Some s0" "j \<in> objs s0" "same_place s0 s" "q' = q \<longrightarrow> s0 = sp \<and> j \<noteq> k" using s q by (cases "q' = q") (auto simp: same_place_def)
    obtain p' al' where o: "h p' = Some al'" "al_slab_page al' = Some q'" "al_base al' = sp_page_addr s0 + j * sp_slab_size s0"
      using recs_okD(2)[OF r s0(1,2)] by blast
    have "p' \<noteq> p"
    proof
      assume "p' = p"
      then have "al' = al" using o(1) p(1) by simp
      then have "q' = q" using o(2) p(3) by simp
      then show False using o(3) p(2) \<open>al' = al\<close> s0(4) q(4) by simp
    qed
    then have "(h(p := None)) p' = Some al'" using o(1) by simp
    then show ?thesis using o(2,3) s0(3) unfolding same_place_def by metis
  qed
  show ?thesis unfolding recs_ok_def using 1 2 by blast
qed


lemma recs_ok_state:
  assumes r: "recs_ok h sh" and q: "sh q = Some sp" "same_place sp sp'" "objs sp' = objs sp"
  shows "recs_ok h (sh(q \<mapsto> sp'))"
proof -
  have 1: "rec_ok (sh(q \<mapsto> sp')) al" if "h p = Some al" for p al
  proof (rule rec_ok_cong[OF recs_okD(1)[OF r that]])
    show "\<exists>s'. (sh(q \<mapsto> sp')) q' = Some s' \<and> same_place s s' \<and> j \<in> objs s'" if "sh q' = Some s" "j \<in> objs s" for q' s j
      using that q by (cases "q' = q") (simp_all add: same_place_def)
  qed
  have 2: "\<exists>p al. h p = Some al \<and> al_slab_page al = Some q' \<and> al_base al = sp_page_addr s + j * sp_slab_size s"
    if s: "(sh(q \<mapsto> sp')) q' = Some s" "j \<in> objs s" for q' s j
  proof (cases "q' = q")
    case True
    then show ?thesis using s q recs_okD(2)[OF r q(1), of j] by (simp add: same_place_def)
  next
    case False
    then show ?thesis using s recs_okD(2)[OF r, of q' s j] by simp
  qed
  show ?thesis unfolding recs_ok_def using 1 2 by blast
qed

text \<open>One slab page changes, in place, with its record and its entry in the tree.\<close>

lemma pinv_slab_page:
  assumes i: "pinv X a" and q: "pg_slab_heap a q = Some sp" "same_place sp sp'" "page_fits (pg_page_shift a) (length (pg_slabs a)) (q \<in> X') sp'" "X' - {q} = X - {q}"
    and ss: "slabs_linked ss ((pg_slab_heap a)(q \<mapsto> sp'))" "map sl_slab_size ss = map sl_slab_size (pg_slabs a)"
    and h: "chunks_of h' = chunks_of (pg_heap a)" "recs_ok h' ((pg_slab_heap a)(q \<mapsto> sp'))" "index_ok h' idx'" "\<forall>p\<in>dom h'. 0 < p \<and> p < pg_fresh a"
    and a': "pg_source a' = pg_source a" "pg_heap a' = h'" "pg_allocs a' = idx'" "pg_slabs a' = ss" "pg_slab_heap a' = (pg_slab_heap a)(q \<mapsto> sp')"
      "pg_page_size a' = pg_page_size a" "pg_page_shift a' = pg_page_shift a" "pg_flags a' = pg_flags a" "pg_fresh a' = pg_fresh a"
  shows "pinv X' a'"
proof -
  note g = geo_cong[OF pinvD(1)[OF i], of a'] and d = geoD[OF pinvD(1)[OF i]]
  have g: "geo a'" "length (pg_slabs a') = length (pg_slabs a)" using g d(1) by (simp_all add: pcfg_def a' ss(2))
  have "slab_ranges (pg_page_size a) ((pg_slab_heap a)(q \<mapsto> sp')) = slab_ranges (pg_page_size a) (pg_slab_heap a)"
  proof -
    have "(\<exists>s. ((pg_slab_heap a)(q \<mapsto> sp')) q' = Some s \<and> sp_page_addr s = k) \<longleftrightarrow> (\<exists>s. pg_slab_heap a q' = Some s \<and> sp_page_addr s = k)" for q' k
      using q(1,2) by (auto simp: same_place_def)
    then show ?thesis unfolding slab_ranges_def by (metis (no_types, lifting))
  qed
  then have "owners_ok (buddy_live (pg_source a')) (chunks_of (pg_heap a') \<union> slab_ranges (pg_page_size a') (pg_slab_heap a'))"
    using pinvD(4)[OF i] by (simp add: a' h(1))
  moreover have "pages_ok (pg_page_shift a') (length (pg_slabs a')) X' (pg_slab_heap a')" unfolding pages_ok_def g(2) a'(5,7)
  proof (intro allI impI)
    fix q' s
    assume s: "((pg_slab_heap a)(q \<mapsto> sp')) q' = Some s"
    show "page_fits (pg_page_shift a) (length (pg_slabs a)) (q' \<in> X') s"
    proof (cases "q' = q")
      case False
      then have "q' \<in> X' \<longleftrightarrow> q' \<in> X" using q(4) by blast
      then show ?thesis using pinvD(3)[OF i] s False by (simp add: pages_ok_def)
    qed (use s q(3) in simp)
  qed
  moreover have "ids_ok (pg_fresh a') (pg_heap a') (pg_slab_heap a')"
    using pinvD(7)[OF i] h(4) q(1) unfolding ids_ok_def a' by auto
  ultimately show ?thesis unfolding pinv_def using g(1) ss(1) h(2,3) by (simp only: a' simp_thms)
qed

lemma objs_upd: "objs (sp\<lparr>sp_bitmap := m, sp_nr_objects_alloced := n\<rparr>) = {k. bit (m ! 0) k}" "objs (sp\<lparr>sp_state := st\<rparr>) = objs sp"
  by (simp_all add: objs_def)

text \<open>A state of a page with which it can be in the lists.\<close>

lemma page_fits_objs:
  assumes "page_fits shift n t sp" "length m = 1" "{j. bit (m ! 0) j} = K" "\<forall>k\<in>K. k < sp_nr_objects sp" "x = card K"
    "st = (if t' then SP_NONE else st_of (card K) (sp_nr_objects sp))"
  shows "page_fits shift n t' (sp\<lparr>sp_bitmap := m, sp_nr_objects_alloced := x, sp_state := st\<rparr>)"
  using assms unfolding page_fits_def by (simp add: objs_def)

lemma fresh_object_base:
  assumes i: "pinv X a" and q: "pg_slab_heap a q = Some sp" and k: "k \<notin> objs sp" "k < sp_nr_objects sp" and p: "pg_heap a p = Some al"
  shows "al_base al \<noteq> sp_page_addr sp + k * sp_slab_size sp"
proof
  assume b: "al_base al = sp_page_addr sp + k * sp_slab_size sp"
  note g = geoD[OF pinvD(1)[OF i]] and f = slab_page_facts[OF i q]
  have fit: "0 < sp_slab_size sp" "sp_slab_size sp = 2 ^ (12 + sp_owner sp)" "sp_nr_objects sp = 2 ^ (pg_page_shift a - 12 - sp_owner sp)" using f(1) by (simp_all add: page_fits_def)
  have "sp_nr_objects sp * sp_slab_size sp = pg_page_size a" unfolding fit(2,3) g(2) power_add[symmetric] using f(3) by simp
  then have kin: "k * sp_slab_size sp < pg_page_size a" using k(2) fit(1) by (metis mult_less_mono1)
  have ne: "al_sgl al \<noteq> []" "al_base al = sg_phys (hd (al_sgl al))" using recs_okD(1)[OF pinvD(5)[OF i] p] by (auto simp: rec_ok_def)
  define c where "c = hd (al_sgl al)"
  have c: "c \<in> set (al_sgl al)" "sg_phys c = al_base al" using ne by (simp_all add: c_def)
  obtain x k' n l where r: "(x, k', n) \<in> chunks_of (pg_heap a) \<union> slab_ranges (pg_page_size a) (pg_slab_heap a)" "(k', l) \<in> buddy_live (pg_source a)"
    "k' \<le> sg_phys c" "sg_phys c + sg_length c \<le> k' + l" "0 < sg_length c"
    "case al_slab_page al of
       None \<Rightarrow> x = Inl p \<and> k' = sg_phys c
     | Some q \<Rightarrow> x = Inr q \<and> (\<exists>sp j. pg_slab_heap a q = Some sp \<and> k' = sp_page_addr sp \<and> j \<in> objs sp \<and> sg_phys c = k' + j * sp_slab_size sp \<and>
         sg_phys c = al_base al \<and> sg_length c = sp_slab_size sp)" using chunk_range[OF i p c(1)] by blast
  obtain l' where l': "l' \<ge> pg_page_size a" "(sp_page_addr sp, l') \<in> buddy_live (pg_source a)" using owners_okD(2)[OF pinvD(4)[OF i] f(6)] by blast
  have kk: "k' = sp_page_addr sp"
  proof (rule ccontr)
    assume "k' \<noteq> sp_page_addr sp"
    then have "ranges_disjoint k' (k' + l) (sp_page_addr sp) (sp_page_addr sp + l')" using buddy.live_disjoint[OF g(1) r(2) l'(2)] by blast
    then show False using r(3-5) c(2) b kin l'(1) by (auto simp: ranges_disjoint_def)
  qed
  then have "x = Inr q" using owners_okD(3)[OF pinvD(4)[OF i] f(6)] r(1) by blast
  then have sq: "al_slab_page al = Some q" using r(6) by (auto split: option.splits)
  obtain sp' j where j: "pg_slab_heap a q = Some sp'" "j \<in> objs sp'" "sg_phys c = k' + j * sp_slab_size sp'" using r(6) unfolding sq option.case by blast
  then have "sp' = sp" using q by simp
  then have "j = k" using j(3) c(2) b kk fit(1) by simp
  then show False using j(2) k(1) \<open>sp' = sp\<close> by simp
qed

end
