(* ===== verification/Page_Slab_Alloc.thy ===== *)
theory Page_Slab_Alloc
  imports Page_Slab_Ops
begin

text \<open>Small allocations: a slab page is found or made, and an object of it becomes the one chunk of the allocation.\<close>

section \<open>New slab pages\<close>

lemma chunks_of_cong:
  assumes "\<And>p al. al_slab_page al = None \<Longrightarrow> h' p = Some al \<longleftrightarrow> h p = Some al"
  shows "chunks_of h' = chunks_of h"
  unfolding chunks_of_def using assms by blast

lemma slab_ranges_insert:
  assumes "sh q = None"
  shows "slab_ranges m (sh(q \<mapsto> sp)) = slab_ranges m sh \<union> {(Inr q, sp_page_addr sp, m)}"
proof -
  have mem: "t \<in> slab_ranges m sh' \<longleftrightarrow> (\<exists>q' k. t = (Inr q', k, m) \<and> (\<exists>s. sh' q' = Some s \<and> sp_page_addr s = k))" for t sh'
    unfolding slab_ranges_def by blast
  have upd: "(\<exists>s. (sh(q \<mapsto> sp)) q' = Some s \<and> sp_page_addr s = k) \<longleftrightarrow> (\<exists>s. sh q' = Some s \<and> sp_page_addr s = k) \<or> q' = q \<and> sp_page_addr sp = k" for q' k
    using assms by auto
  show ?thesis unfolding set_eq_iff Un_iff mem upd by blast
qed

lemma slab_ranges_delete:
  "slab_ranges m (sh(q := None)) = {t \<in> slab_ranges m sh. fst t \<noteq> Inr q}"
  unfolding slab_ranges_def by (auto split: if_splits)

lemma recs_ok_new_page:
  assumes "recs_ok h sh" "sh q = None" "objs sp = {}"
  shows "recs_ok h (sh(q \<mapsto> sp))"
proof -
  have 1: "rec_ok (sh(q \<mapsto> sp)) al" if "h p = Some al" for p al
  proof (rule rec_ok_cong[OF recs_okD(1)[OF assms(1) that]])
    show "\<exists>s'. (sh(q \<mapsto> sp)) q' = Some s' \<and> same_place s s' \<and> j \<in> objs s'" if "sh q' = Some s" "j \<in> objs s" for q' s j
      using that assms(2) by (cases "q' = q") (simp_all add: same_place_def)
  qed
  have 2: "\<exists>p al. h p = Some al \<and> al_slab_page al = Some q' \<and> al_base al = sp_page_addr s + j * sp_slab_size s"
    if "(sh(q \<mapsto> sp)) q' = Some s" "j \<in> objs s" for q' s j
    using that assms(3) recs_okD(2)[OF assms(1), of q' s j] by (cases "q' = q") simp_all
  show ?thesis unfolding recs_ok_def using 1 2 by blast
qed

lemma recs_ok_drop_page:
  assumes "recs_ok h sh" "sh q = Some sp" "objs sp = {}"
  shows "recs_ok h (sh(q := None))"
proof -
  have 1: "rec_ok (sh(q := None)) al" if "h p = Some al" for p al
  proof (rule rec_ok_cong[OF recs_okD(1)[OF assms(1) that]])
    show "\<exists>s'. (sh(q := None)) q' = Some s' \<and> same_place s s' \<and> j \<in> objs s'" if "sh q' = Some s" "j \<in> objs s" for q' s j
      using that assms(2,3) by (cases "q' = q") (simp_all add: same_place_def)
  qed
  have 2: "\<exists>p al. h p = Some al \<and> al_slab_page al = Some q' \<and> al_base al = sp_page_addr s + j * sp_slab_size s"
    if "(sh(q := None)) q' = Some s" "j \<in> objs s" for q' s j
    using that recs_okD(2)[OF assms(1), of q' s j] by (cases "q' = q") simp_all
  show ?thesis unfolding recs_ok_def using 1 2 by blast
qed

lemma alloc_slab_page_ok:
  assumes i: "pinv {} (a\<lparr>pg_heap := h\<rparr>)" and n: "i < length (pg_slabs a)" and room: "pg_pages_alloced a < U64_MAX"
  shows "\<exists>s r. buddy_limits s = buddy_limits (pg_source a) \<and> by_bytes_freed s = by_bytes_freed (pg_source a) \<and>
    (alloc_slab_page e i a = Some (None, a\<lparr>pg_source := s, pg_requests := r\<rparr>) \<and> buddy_plain s \<and> buddy_live s = buddy_live (pg_source a) \<or>
     (\<exists>sp. alloc_slab_page e i a = Some (Some (pg_fresh a), a\<lparr>pg_source := s, pg_requests := r, pg_fresh := pg_fresh a + 1,
          pg_pages_alloced := pg_pages_alloced a + 1, pg_slab_heap := (pg_slab_heap a)(pg_fresh a \<mapsto> sp)\<rparr>) \<and> sp_owner sp = i \<and> objs sp = {} \<and>
        pinv {pg_fresh a} (a\<lparr>pg_source := s, pg_requests := r, pg_fresh := pg_fresh a + 1,
          pg_pages_alloced := pg_pages_alloced a + 1, pg_slab_heap := (pg_slab_heap a)(pg_fresh a \<mapsto> sp), pg_heap := h\<rparr>)))"
proof (cases "pe_nomem e (pg_requests a)")
  case True
  then have "alloc_slab_page e i a = Some (None, a\<lparr>pg_source := pg_source a, pg_requests := pg_requests a + 1\<rparr>)"
    by (simp add: alloc_slab_page_def pg_request_def)
  moreover have "buddy_plain (pg_source a)" using geoD(1)[OF pinvD(1)[OF i]] by simp
  ultimately show ?thesis by blast
next
  case ok: False
  let ?s = "pg_source a" and ?m = "pg_page_size a" and ?q = "pg_fresh a" and ?h = "pg_slab_heap a"
  note g = geoD[OF pinvD(1)[OF i], simplified]
  have ne: "pg_slabs a \<noteq> []" using n by auto
  have sh: "pg_page_shift a \<le> 18" "i < pg_page_shift a - 12" using g(4,5)[OF ne] n by simp_all
  have "?m \<le> 2 ^ 18" unfolding g(2) using sh(1) by (intro power_increasing) auto
  then have m: "?m \<le> U32_MAX" "?m \<le> U64_MAX" by simp_all
  obtain addr s where s: "nvgpu_buddy_balloc (pe_oom e) ?s ?m = Some (addr, s)" "buddy_plain s" "buddy_limits s = buddy_limits ?s"
    "by_bytes_freed s = by_bytes_freed ?s"
    "if addr = 0 then buddy_live s = buddy_live ?s else \<exists>l\<ge>?m. 0 < ?m \<and> addr \<notin> fst ` buddy_live ?s \<and> buddy_live s = insert (addr, l) (buddy_live ?s)"
    using src_alloc[OF g(1) m(2), of "pe_oom e"] by blast
  show ?thesis
  proof (cases "addr = 0")
    case True
    have "alloc_slab_page e i a = Some (None, a\<lparr>pg_source := s, pg_requests := pg_requests a + 1\<rparr>)"
      using ok s(1) True by (simp add: alloc_slab_page_def pg_request_def)
    then show ?thesis using s True by force
  next
    case False
    then obtain l where l: "l \<ge> ?m" "addr \<notin> fst ` buddy_live ?s" "buddy_live s = insert (addr, l) (buddy_live ?s)" using s(5) by auto
    define sp where "sp = \<lparr>sp_bitmap = [0], sp_page_addr = addr, sp_slab_size = 2 ^ (12 + i), sp_nr_objects = ?m div 2 ^ (12 + i), sp_nr_objects_alloced = 0,
      sp_state = SP_NONE, sp_owner = i\<rparr>"
    let ?a = "a\<lparr>pg_source := s, pg_requests := pg_requests a + 1, pg_fresh := ?q + 1, pg_pages_alloced := pg_pages_alloced a + 1, pg_slab_heap := ?h(?q \<mapsto> sp)\<rparr>"
    have run: "alloc_slab_page e i a = Some (Some ?q, ?a)"
      using ok s(1) False n g(6)[OF n] m(1) room by (simp add: alloc_slab_page_def pg_request_def load_def nvgpu_safe_cast_u64_to_u32_def sp_def Let_def)
    have o: "objs sp = {}" by (simp add: sp_def objs_def)
    have "?m div 2 ^ (12 + i) = 2 ^ (pg_page_shift a - 12 - i)" unfolding g(2) using sh(2) by (simp add: power_diff[symmetric] power_add[symmetric] flip: power_add)
    then have fit: "page_fits (pg_page_shift a) (length (pg_slabs a)) True sp" using n o by (simp add: page_fits_def) (simp add: sp_def)
    have q: "h ?q = None" "?h ?q = None" using fresh_free[OF i] by simp_all
    let ?b = "a\<lparr>pg_source := s, pg_requests := pg_requests a + 1, pg_fresh := ?q + 1, pg_pages_alloced := pg_pages_alloced a + 1, pg_slab_heap := ?h(?q \<mapsto> sp), pg_heap := h\<rparr>"
    have "geo ?b" by (rule geo_cong(1)[OF pinvD(1)[OF i]]) (simp_all add: pcfg_def s(2,3))
    moreover have "slabs_linked (pg_slabs a) (?h(?q \<mapsto> sp))"
      by (rule slabs_linked_cong[OF pinvD(2)[OF i, simplified]]) (use q in \<open>auto simp: sp_def\<close>)
    moreover have "pages_ok (pg_page_shift a) (length (pg_slabs a)) {?q} (?h(?q \<mapsto> sp))"
      using pinvD(3)[OF i] fit by (auto simp: pages_ok_def)
    moreover have "owners_ok (buddy_live s) ((chunks_of h \<union> slab_ranges ?m ?h) \<union> {(Inr ?q, addr, ?m)})"
    proof (rule owners_ok_add[where y = "Inr ?q"])
      show "owners_ok (buddy_live ?s) (chunks_of h \<union> slab_ranges ?m ?h)" using pinvD(4)[OF i] by simp
    qed (use l g(3) in \<open>auto simp: keys_def\<close>)
    then have "owners_ok (buddy_live s) (chunks_of h \<union> slab_ranges ?m (?h(?q \<mapsto> sp)))" unfolding slab_ranges_insert[of ?h, OF q(2)] by (simp add: sp_def Un_assoc)
    moreover have "recs_ok h (?h(?q \<mapsto> sp))" using pinvD(5)[OF i] q(2) o by (intro recs_ok_new_page) simp_all
    moreover have "ids_ok (?q + 1) h (?h(?q \<mapsto> sp))" using pinvD(7)[OF i] by (auto simp: ids_ok_def less_Suc_eq)
    ultimately have "pinv {?q} ?b" using pinvD(6)[OF i] by (simp add: pinv_def)
    moreover have "sp_owner sp = i" by (simp add: sp_def)
    ultimately show ?thesis using run o s(3,4) by blast
  qed
qed


section \<open>Finding a page\<close>

lemma del_page_ok:
  assumes i: "pinv {} (a\<lparr>pg_heap := h\<rparr>)" and n: "i < length (pg_slabs a)" and q: "q \<in> set (sl_list (pg_slabs a ! i) st)"
  shows "\<exists>sp ss. pg_slab_heap a q = Some sp \<and> sp_owner sp = i \<and> st_of (card (objs sp)) (sp_nr_objects sp) = st \<and>
    del_slab_page st i q a = Some (a\<lparr>pg_slabs := ss, pg_slab_heap := (pg_slab_heap a)(q \<mapsto> sp\<lparr>sp_state := SP_NONE\<rparr>)\<rparr>) \<and> length ss = length (pg_slabs a) \<and>
    pinv {q} (a\<lparr>pg_slabs := ss, pg_slab_heap := (pg_slab_heap a)(q \<mapsto> sp\<lparr>sp_state := SP_NONE\<rparr>), pg_heap := h\<rparr>)"
proof -
  note l = pinvD(2)[OF i, simplified]
  obtain sp where sp: "pg_slab_heap a q = Some sp" "sp_owner sp = i" "sp_state sp = st" "st \<noteq> SP_NONE" using q unfolding slabs_linkedD(3)[OF l n] by blast
  let ?sp = "sp\<lparr>sp_state := SP_NONE\<rparr>"
  obtain ss where ss: "del_slab_page st i q a = Some (a\<lparr>pg_slabs := ss, pg_slab_heap := (pg_slab_heap a)(q \<mapsto> ?sp)\<rparr>)"
    "slabs_linked ss ((pg_slab_heap a)(q \<mapsto> ?sp))" "map sl_slab_size ss = map sl_slab_size (pg_slabs a)"
    using del_slab_page_ok[OF l sp(1,3,2) n sp(4)] by blast
  have f: "page_fits (pg_page_shift a) (length (pg_slabs a)) False sp" using pinvD(3)[OF i] sp(1) by (simp add: pages_ok_def)
  then have st: "st_of (card (objs sp)) (sp_nr_objects sp) = st" using sp(3) by (simp add: page_fits_def)
  have f': "page_fits (pg_page_shift a) (length (pg_slabs a)) True ?sp" using f by (auto simp: page_fits_def objs_upd)
  have r: "recs_ok h ((pg_slab_heap a)(q \<mapsto> ?sp))"
    by (rule recs_ok_state[OF pinvD(5)[OF i, simplified] sp(1)]) (simp_all add: same_place_def objs_upd)
  have "pinv {q} (a\<lparr>pg_slabs := ss, pg_slab_heap := (pg_slab_heap a)(q \<mapsto> ?sp), pg_heap := h\<rparr>)"
    by (rule pinv_slab_page[OF i, where q = q and sp = sp and sp' = ?sp and ss = ss and h' = h and idx' = "pg_allocs a"])
      (use sp(1) f' ss r pinvD(6,7)[OF i] in \<open>auto simp: same_place_def ids_ok_def\<close>)
  moreover have "length ss = length (pg_slabs a)" using ss(3) by (metis length_map)
  ultimately show ?thesis using sp(1,2) st ss(1) by blast
qed

lemma nr_objects_2:
  assumes "pinv X a" "pg_slab_heap a q = Some sp"
  shows "2 \<le> sp_nr_objects sp" "sp_nr_objects sp \<le> 64"
proof -
  note f = slab_page_facts[OF assms]
  have n: "sp_nr_objects sp = 2 ^ (pg_page_shift a - 12 - sp_owner sp)" using f(1) by (simp add: page_fits_def)
  have "(2::nat) ^ 1 \<le> 2 ^ (pg_page_shift a - 12 - sp_owner sp)" using f(3) by (intro power_increasing) auto
  then show "2 \<le> sp_nr_objects sp" using n by simp
  have "(2::nat) ^ (pg_page_shift a - 12 - sp_owner sp) \<le> 2 ^ 6" using f(4) by (intro power_increasing) auto
  then show "sp_nr_objects sp \<le> 64" using n by simp
qed

lemma take_slab_page_ok:
  assumes i: "pinv {} (a\<lparr>pg_heap := h\<rparr>)" and n: "i < length (pg_slabs a)" and room: "pg_pages_alloced a < U64_MAX"
  shows "(\<exists>s r. take_slab_page e i a = Some (None, a\<lparr>pg_source := s, pg_requests := r\<rparr>) \<and> buddy_plain s \<and> buddy_live s = buddy_live (pg_source a) \<and>
      buddy_limits s = buddy_limits (pg_source a) \<and> by_bytes_freed s = by_bytes_freed (pg_source a)) \<or>
    (\<exists>q sp s r f m ss sh. take_slab_page e i a = Some (Some q, a\<lparr>pg_source := s, pg_requests := r, pg_fresh := f, pg_pages_alloced := m, pg_slabs := ss, pg_slab_heap := sh\<rparr>) \<and>
      pinv {q} (a\<lparr>pg_source := s, pg_requests := r, pg_fresh := f, pg_pages_alloced := m, pg_slabs := ss, pg_slab_heap := sh, pg_heap := h\<rparr>) \<and>
      sh q = Some sp \<and> sp_owner sp = i \<and> card (objs sp) < sp_nr_objects sp \<and> length ss = length (pg_slabs a) \<and> pg_fresh a \<le> f \<and> m \<le> pg_pages_alloced a + 1 \<and>
      buddy_limits s = buddy_limits (pg_source a) \<and> by_bytes_freed s = by_bytes_freed (pg_source a))"
proof -
  let ?sl = "pg_slabs a ! i"
  have del: ?thesis if q: "q \<in> set (sl_list ?sl st)" "st = SP_PARTIAL \<or> st = SP_EMPTY"
    and run: "\<And>b. del_slab_page st i q a = Some b \<Longrightarrow> take_slab_page e i a = Some (Some q, b)" for q st
  proof -
    obtain sp ss where sp: "pg_slab_heap a q = Some sp" "sp_owner sp = i" "st_of (card (objs sp)) (sp_nr_objects sp) = st"
      "del_slab_page st i q a = Some (a\<lparr>pg_slabs := ss, pg_slab_heap := (pg_slab_heap a)(q \<mapsto> sp\<lparr>sp_state := SP_NONE\<rparr>)\<rparr>)" "length ss = length (pg_slabs a)"
      "pinv {q} (a\<lparr>pg_slabs := ss, pg_slab_heap := (pg_slab_heap a)(q \<mapsto> sp\<lparr>sp_state := SP_NONE\<rparr>), pg_heap := h\<rparr>)"
      using del_page_ok[OF i n q(1)] by blast
    have c: "card (objs sp) < sp_nr_objects sp" using sp(3) q(2) nr_objects_2(1)[OF i, of q sp] sp(1) by (auto simp: st_of_def split: if_splits)
    let ?sh = "(pg_slab_heap a)(q \<mapsto> sp\<lparr>sp_state := SP_NONE\<rparr>)"
    have eq: "a\<lparr>pg_slabs := ss, pg_slab_heap := ?sh\<rparr> =
      a\<lparr>pg_source := pg_source a, pg_requests := pg_requests a, pg_fresh := pg_fresh a, pg_pages_alloced := pg_pages_alloced a, pg_slabs := ss, pg_slab_heap := ?sh\<rparr>" by simp
    note run = run[OF sp(4)[unfolded eq]] and inv = sp(6)
    have "pinv {q} (a\<lparr>pg_source := pg_source a, pg_requests := pg_requests a, pg_fresh := pg_fresh a, pg_pages_alloced := pg_pages_alloced a, pg_slabs := ss, pg_slab_heap := ?sh, pg_heap := h\<rparr>)"
      using inv by simp
    moreover have "?sh q = Some (sp\<lparr>sp_state := SP_NONE\<rparr>)" by simp
    moreover have "sp_owner (sp\<lparr>sp_state := SP_NONE\<rparr>) = i" "card (objs (sp\<lparr>sp_state := SP_NONE\<rparr>)) < sp_nr_objects (sp\<lparr>sp_state := SP_NONE\<rparr>)"
      using sp(2) c by (simp_all add: objs_upd)
    moreover have "pg_fresh a \<le> pg_fresh a" "pg_pages_alloced a \<le> pg_pages_alloced a + 1" by simp_all
    ultimately show ?thesis using run sp(5) by blast
  qed
  have ld: "load (pg_slabs a) i = Some ?sl" using n by (simp add: load_def)
  show ?thesis
  proof (cases "sl_list ?sl SP_PARTIAL")
    case (Cons q qs)
    then show ?thesis by (intro del[of q SP_PARTIAL]) (simp_all add: take_slab_page_def ld del_slab_page_from_partial_def)
  next
    case p: Nil
    show ?thesis
    proof (cases "sl_list ?sl SP_EMPTY")
      case (Cons q qs)
      then show ?thesis using p by (intro del[of q SP_EMPTY]) (simp_all add: take_slab_page_def ld del_slab_page_from_empty_def)
    next
      case Nil
      then have run: "take_slab_page e i a = alloc_slab_page e i a" using p by (simp add: take_slab_page_def ld)
      obtain s r where s: "buddy_limits s = buddy_limits (pg_source a)" "by_bytes_freed s = by_bytes_freed (pg_source a)"
        "alloc_slab_page e i a = Some (None, a\<lparr>pg_source := s, pg_requests := r\<rparr>) \<and> buddy_plain s \<and> buddy_live s = buddy_live (pg_source a) \<or>
         (\<exists>sp. alloc_slab_page e i a = Some (Some (pg_fresh a), a\<lparr>pg_source := s, pg_requests := r, pg_fresh := pg_fresh a + 1,
              pg_pages_alloced := pg_pages_alloced a + 1, pg_slab_heap := (pg_slab_heap a)(pg_fresh a \<mapsto> sp)\<rparr>) \<and> sp_owner sp = i \<and> objs sp = {} \<and>
            pinv {pg_fresh a} (a\<lparr>pg_source := s, pg_requests := r, pg_fresh := pg_fresh a + 1,
              pg_pages_alloced := pg_pages_alloced a + 1, pg_slab_heap := (pg_slab_heap a)(pg_fresh a \<mapsto> sp), pg_heap := h\<rparr>))"
        using alloc_slab_page_ok[OF i n room, of e] by blast
      show ?thesis using s(3)
      proof
        assume "alloc_slab_page e i a = Some (None, a\<lparr>pg_source := s, pg_requests := r\<rparr>) \<and> buddy_plain s \<and> buddy_live s = buddy_live (pg_source a)"
        then show ?thesis unfolding run using s(1,2) by blast
      next
        let ?f = "pg_fresh a + 1" and ?m = "pg_pages_alloced a + 1"
        assume "\<exists>sp. alloc_slab_page e i a = Some (Some (pg_fresh a), a\<lparr>pg_source := s, pg_requests := r, pg_fresh := ?f,
              pg_pages_alloced := ?m, pg_slab_heap := (pg_slab_heap a)(pg_fresh a \<mapsto> sp)\<rparr>) \<and> sp_owner sp = i \<and> objs sp = {} \<and>
            pinv {pg_fresh a} (a\<lparr>pg_source := s, pg_requests := r, pg_fresh := ?f, pg_pages_alloced := ?m, pg_slab_heap := (pg_slab_heap a)(pg_fresh a \<mapsto> sp), pg_heap := h\<rparr>)"
        then obtain sp where sp: "alloc_slab_page e i a = Some (Some (pg_fresh a), a\<lparr>pg_source := s, pg_requests := r, pg_fresh := ?f,
              pg_pages_alloced := ?m, pg_slab_heap := (pg_slab_heap a)(pg_fresh a \<mapsto> sp)\<rparr>)" "sp_owner sp = i" "objs sp = {}"
            and inv: "pinv {pg_fresh a} (a\<lparr>pg_source := s, pg_requests := r, pg_fresh := ?f, pg_pages_alloced := ?m, pg_slab_heap := (pg_slab_heap a)(pg_fresh a \<mapsto> sp), pg_heap := h\<rparr>)"
          by blast
        let ?sh = "(pg_slab_heap a)(pg_fresh a \<mapsto> sp)"
        have c: "card (objs sp) < sp_nr_objects sp" using nr_objects_2(1)[OF inv, of "pg_fresh a" sp] sp(3) by simp
        have "take_slab_page e i a = Some (Some (pg_fresh a), a\<lparr>pg_source := s, pg_requests := r, pg_fresh := ?f, pg_pages_alloced := ?m, pg_slabs := pg_slabs a, pg_slab_heap := ?sh\<rparr>)"
          unfolding run sp(1) by simp
        moreover have "pinv {pg_fresh a} (a\<lparr>pg_source := s, pg_requests := r, pg_fresh := ?f, pg_pages_alloced := ?m, pg_slabs := pg_slabs a, pg_slab_heap := ?sh, pg_heap := h\<rparr>)"
          using inv by simp
        moreover have "?sh (pg_fresh a) = Some sp" by simp
        moreover have "pg_fresh a \<le> ?f" "?m \<le> pg_pages_alloced a + 1" by simp_all
        ultimately show ?thesis using sp(2) c s(1,2) by blast
      qed
    qed
  qed
qed


section \<open>Cutting an object\<close>

lemma put_page:
  assumes i: "pinv X b" and q: "pg_slab_heap a = (pg_slab_heap b)(q \<mapsto> sp')" "pg_slab_heap b q = Some sp" "same_place sp sp'" "sp_owner sp' = sp_owner sp"
      "sp_state sp' = SP_NONE" "sp_state sp = SP_NONE" "pg_slabs a = pg_slabs b" "st \<noteq> SP_NONE"
  shows "\<exists>ss. add_slab_page st (sp_owner sp) q a = Some (a\<lparr>pg_slabs := ss, pg_slab_heap := (pg_slab_heap b)(q \<mapsto> sp'\<lparr>sp_state := st\<rparr>)\<rparr>) \<and>
    slabs_linked ss ((pg_slab_heap b)(q \<mapsto> sp'\<lparr>sp_state := st\<rparr>)) \<and> map sl_slab_size ss = map sl_slab_size (pg_slabs b)"
proof -
  have l: "slabs_linked (pg_slabs a) (pg_slab_heap a)" unfolding q(1,7)
    by (rule slabs_linked_cong[OF pinvD(2)[OF i]]) (use q in auto)
  have d: "dom (pg_slab_heap a) = dom (pg_slab_heap b)" using q(2) by (auto simp: q(1))
  have n: "sp_owner sp < length (pg_slabs a)" using slab_page_facts(1)[OF i q(2)] q(7) by (simp add: page_fits_def)
  have "pg_slab_heap a q = Some sp'" using q(1) by simp
  from add_slab_page_ok[OF l this q(5,4) n q(8)] show ?thesis using slab_pages_few[OF i] unfolding d by (simp add: q(1,7))
qed

lemma do_slab_alloc_ok:
  assumes i: "pinv {} (a\<lparr>pg_heap := h\<rparr>)" and n: "i < length (pg_slabs a)" and room: "pg_pages_alloced a < U64_MAX" and p: "h p = None" "0 < p" "p < pg_fresh a"
  shows "(\<exists>s r. do_slab_alloc e i al a = Some (Inl ENOMEM, a\<lparr>pg_source := s, pg_requests := r\<rparr>) \<and> buddy_plain s \<and> buddy_live s = buddy_live (pg_source a) \<and>
      buddy_limits s = buddy_limits (pg_source a) \<and> by_bytes_freed s = by_bytes_freed (pg_source a)) \<or>
    (\<exists>al' s r f m ss sh. do_slab_alloc e i al a = Some (Inr al', a\<lparr>pg_source := s, pg_requests := r, pg_fresh := f, pg_pages_alloced := m, pg_slabs := ss, pg_slab_heap := sh\<rparr>) \<and>
      pinv {} (a\<lparr>pg_source := s, pg_requests := r, pg_fresh := f, pg_pages_alloced := m, pg_slabs := ss, pg_slab_heap := sh, pg_heap := h(p \<mapsto> al'),
        pg_allocs := idx_insert (al_base al') p (pg_allocs a)\<rparr>) \<and>
      al_slab_page al' \<noteq> None \<and> al_length al' = 2 ^ (12 + i) \<and> m \<le> pg_pages_alloced a + 1 \<and>
      buddy_limits s = buddy_limits (pg_source a) \<and> by_bytes_freed s = by_bytes_freed (pg_source a))"
  using take_slab_page_ok[OF i n room, of e]
proof (elim disjE)
  assume "\<exists>s r. take_slab_page e i a = Some (None, a\<lparr>pg_source := s, pg_requests := r\<rparr>) \<and> buddy_plain s \<and> buddy_live s = buddy_live (pg_source a) \<and>
      buddy_limits s = buddy_limits (pg_source a) \<and> by_bytes_freed s = by_bytes_freed (pg_source a)"
  then obtain s r where s: "take_slab_page e i a = Some (None, a\<lparr>pg_source := s, pg_requests := r\<rparr>)" "buddy_plain s" "buddy_live s = buddy_live (pg_source a)"
    "buddy_limits s = buddy_limits (pg_source a)" "by_bytes_freed s = by_bytes_freed (pg_source a)" by blast
  then have "do_slab_alloc e i al a = Some (Inl ENOMEM, a\<lparr>pg_source := s, pg_requests := r\<rparr>)" by (simp add: do_slab_alloc_def)
  then show ?thesis using s(2-5) by blast
next
  assume "\<exists>q sp s r f m ss sh. take_slab_page e i a = Some (Some q, a\<lparr>pg_source := s, pg_requests := r, pg_fresh := f, pg_pages_alloced := m, pg_slabs := ss, pg_slab_heap := sh\<rparr>) \<and>
      pinv {q} (a\<lparr>pg_source := s, pg_requests := r, pg_fresh := f, pg_pages_alloced := m, pg_slabs := ss, pg_slab_heap := sh, pg_heap := h\<rparr>) \<and>
      sh q = Some sp \<and> sp_owner sp = i \<and> card (objs sp) < sp_nr_objects sp \<and> length ss = length (pg_slabs a) \<and> pg_fresh a \<le> f \<and> m \<le> pg_pages_alloced a + 1 \<and>
      buddy_limits s = buddy_limits (pg_source a) \<and> by_bytes_freed s = by_bytes_freed (pg_source a)"
  then obtain q sp s r f m ss sh where
    t: "take_slab_page e i a = Some (Some q, a\<lparr>pg_source := s, pg_requests := r, pg_fresh := f, pg_pages_alloced := m, pg_slabs := ss, pg_slab_heap := sh\<rparr>)"
    and b: "pinv {q} (a\<lparr>pg_source := s, pg_requests := r, pg_fresh := f, pg_pages_alloced := m, pg_slabs := ss, pg_slab_heap := sh, pg_heap := h\<rparr>)"
    and sp: "sh q = Some sp" "sp_owner sp = i" "card (objs sp) < sp_nr_objects sp" "pg_fresh a \<le> f" "m \<le> pg_pages_alloced a + 1"
    and s: "buddy_limits s = buddy_limits (pg_source a)" "by_bytes_freed s = by_bytes_freed (pg_source a)" by blast
  let ?b = "a\<lparr>pg_source := s, pg_requests := r, pg_fresh := f, pg_pages_alloced := m, pg_slabs := ss, pg_slab_heap := sh, pg_heap := h\<rparr>"
  let ?a = "a\<lparr>pg_source := s, pg_requests := r, pg_fresh := f, pg_pages_alloced := m, pg_slabs := ss, pg_slab_heap := sh\<rparr>"
  have hq: "pg_slab_heap ?b q = Some sp" using sp(1) by simp
  note f = slab_page_facts[OF b hq] and two = nr_objects_2[OF b hq] and g = geoD[OF pinvD(1)[OF b]]
  have fit: "sp_state sp = SP_NONE" "sp_slab_size sp = 2 ^ (12 + i)" "sp_nr_objects_alloced sp = card (objs sp)" "length (sp_bitmap sp) = 1"
    "\<forall>k\<in>objs sp. k < sp_nr_objects sp" using f(1) sp(2) by (auto simp: page_fits_def)
  obtain k where k: "k < sp_nr_objects sp" "bitmap_find_next_zero_area (sp_bitmap sp) (sp_nr_objects sp) 0 1 0 = Some k" "k \<notin> objs sp"
    using find_object[OF f(1) f(4) sp(3)] by blast
  have k64: "k < 64" using k(1) two(2) by simp
  obtain w where w: "nvgpu_bitmap_set (sp_bitmap sp) k 1 = Some w" "length w = 1" "{j. bit (w ! 0) j} = insert k (objs sp)"
    using set_object[OF fit(4) k64] unfolding objs_def by blast
  have card: "card (insert k (objs sp)) = card (objs sp) + 1" using objs_bound(1)[of sp] k(3) by simp
  let ?c = "card (objs sp) + 1"
  define sp1 where "sp1 = sp\<lparr>sp_bitmap := w, sp_nr_objects_alloced := ?c\<rparr>"
  define st where "st = st_of ?c (sp_nr_objects sp)"
  have st: "st = (if ?c < sp_nr_objects sp then SP_PARTIAL else SP_FULL)" "st \<noteq> SP_NONE" by (simp_all add: st_def st_of_def)
  let ?a1 = "?a\<lparr>pg_slab_heap := sh(q \<mapsto> sp1)\<rparr>" and ?sp = "sp1\<lparr>sp_state := st\<rparr>"
  have pa: "pg_slab_heap ?a1 = (pg_slab_heap ?b)(q \<mapsto> sp1)" "same_place sp sp1" "sp_owner sp1 = sp_owner sp" "sp_state sp1 = SP_NONE" "pg_slabs ?a1 = pg_slabs ?b"
    using fit(1) by (simp_all add: sp1_def same_place_def)
  obtain ss' where ss': "add_slab_page st i q ?a1 = Some (?a1\<lparr>pg_slabs := ss', pg_slab_heap := sh(q \<mapsto> ?sp)\<rparr>)" "slabs_linked ss' (sh(q \<mapsto> ?sp))"
    "map sl_slab_size ss' = map sl_slab_size ss" using put_page[OF b pa(1) hq pa(2-4) fit(1) pa(5) st(2)] sp(2) by auto
  let ?base = "sp_page_addr sp + k * sp_slab_size sp"
  obtain l where l: "l \<ge> pg_page_size a" "(sp_page_addr sp, l) \<in> buddy_live s" using owners_okD(2)[OF pinvD(4)[OF b] f(6)] by auto
  have "sp_page_addr sp + l \<le> by_end s" using buddy.live_bounds[OF g(1), of "sp_page_addr sp" l] l(2) by (simp add: buddy_limits_def)
  moreover have "k * sp_slab_size sp \<le> pg_page_size a"
  proof -
    have "k * sp_slab_size sp \<le> sp_nr_objects sp * sp_slab_size sp" using k(1) by simp
    also have "\<dots> = pg_page_size a" using f(1,3) g(2) by (simp add: page_fits_def power_add[symmetric])
    finally show ?thesis .
  qed
  ultimately have b64: "?base \<le> U64_MAX" using l(1) g(9) by simp
  define al' where "al' = al\<lparr>al_slab_page := Some q, al_nr_chunks := 1, al_length := sp_slab_size sp, al_base := ?base,
                           al_sgl := [\<lparr>sg_phys = ?base, sg_dma = ?base, sg_length = sp_slab_size sp\<rparr>]\<rparr>"
  have run: "do_slab_alloc e i al a = Some (Inr al', ?a1\<lparr>pg_slabs := ss', pg_slab_heap := sh(q \<mapsto> ?sp)\<rparr>)"
  proof -
    have c32: "card (objs sp) < U32_MAX" "k \<le> U32_MAX" using sp(3) two(2) k64 by simp_all
    have off: "nvgpu_safe_mult_u64 k (sp_slab_size sp) = Some (k * sp_slab_size sp)" "nvgpu_safe_add_u64 (sp_page_addr sp) (k * sp_slab_size sp) = Some ?base"
      using b64 less_eq_div_iff_mult_less_eq[of "sp_slab_size sp" k U64_MAX] fit(2) by (simp_all add: nvgpu_safe_mult_u64_def nvgpu_safe_add_u64_def not_less)
    have pick: "?c < sp_nr_objects sp \<Longrightarrow> add_slab_page_to_partial i q ?a1 = add_slab_page st i q ?a1"
      "\<not> ?c < sp_nr_objects sp \<Longrightarrow> add_slab_page_to_full i q ?a1 = add_slab_page st i q ?a1"
      by (simp_all add: st(1) add_slab_page_to_partial_def add_slab_page_to_full_def)
    note facts = t sp(1) k(1,2) w(1) c32 fit(3) off
    show ?thesis
    proof (cases "?c < sp_nr_objects sp")
      case True
      then show ?thesis using facts pick(1)[OF True] ss'(1)[unfolded sp1_def] by (simp add: do_slab_alloc_def Let_def al'_def sp1_def)
    next
      case False
      then have "Suc (card (objs sp)) = sp_nr_objects sp" using sp(3) by simp
      then show ?thesis using facts pick(2)[OF False] ss'(1)[unfolded sp1_def] by (simp add: do_slab_alloc_def Let_def al'_def sp1_def)
    qed
  qed
  have o: "objs ?sp = insert k (objs sp)" using w(3) by (simp add: objs_def sp1_def)
  have "pinv {} (a\<lparr>pg_source := s, pg_requests := r, pg_fresh := f, pg_pages_alloced := m, pg_slabs := ss', pg_slab_heap := sh(q \<mapsto> ?sp), pg_heap := h(p \<mapsto> al'),
        pg_allocs := idx_insert (al_base al') p (pg_allocs a)\<rparr>)"
  proof (rule pinv_slab_page[OF b, where q = q and sp = sp and sp' = ?sp and ss = ss' and h' = "h(p \<mapsto> al')" and idx' = "idx_insert (al_base al') p (pg_allocs a)"])
    show "pg_slab_heap ?b q = Some sp" "same_place sp ?sp" "{} - {q} = {q} - {q}" using sp(1) by (simp_all add: same_place_def sp1_def)
    have "page_fits (pg_page_shift a) (length ss) False (sp\<lparr>sp_bitmap := w, sp_nr_objects_alloced := ?c, sp_state := st\<rparr>)"
      by (rule page_fits_objs[where K = "insert k (objs sp)" and t = True]) (use f(1) w fit(5) k(1) card in \<open>simp_all add: st_def\<close>)
    then show "page_fits (pg_page_shift ?b) (length (pg_slabs ?b)) (q \<in> {}) ?sp" by (simp add: sp1_def)
    show "slabs_linked ss' ((pg_slab_heap ?b)(q \<mapsto> ?sp))" "map sl_slab_size ss' = map sl_slab_size (pg_slabs ?b)" using ss'(2,3) by simp_all
    show "chunks_of (h(p \<mapsto> al')) = chunks_of (pg_heap ?b)" by (rule chunks_of_cong) (use p(1) in \<open>auto simp: al'_def\<close>)
    have "rec_ok (sh(q \<mapsto> ?sp)) al'" unfolding rec_ok_def using o by (auto simp: al'_def sp1_def)
    then show "recs_ok (h(p \<mapsto> al')) ((pg_slab_heap ?b)(q \<mapsto> ?sp))"
      using recs_ok_cut[OF pinvD(5)[OF b], of q sp ?sp k p al'] sp(1) o p(1) by (simp add: same_place_def sp1_def al'_def)
    show "index_ok (h(p \<mapsto> al')) (idx_insert (al_base al') p (pg_allocs a))"
    proof (rule index_ok_insert)
      show "index_ok h (pg_allocs a)" using pinvD(6)[OF b] by simp
      show "al_base al'' \<noteq> al_base al'" if "h p' = Some al''" for p' al''
        using fresh_object_base[OF b hq k(3,1), of p' al''] that by (simp add: al'_def)
    qed (rule p(1))
    show "\<forall>p'\<in>dom (h(p \<mapsto> al')). 0 < p' \<and> p' < pg_fresh ?b" using pinvD(7)[OF b] p(2,3) sp(4) by (auto simp: ids_ok_def)
  qed simp_all
  moreover have "al_slab_page al' \<noteq> None" "al_length al' = 2 ^ (12 + i)" using fit(2) by (simp_all add: al'_def)
  ultimately show ?thesis using run sp(5) s by (intro disjI2) (simp, blast)
qed

end
