(* ===== verification/Page_Requests.thy ===== *)
theory Page_Requests
  imports Page_Slab_Alloc
begin

text \<open>
  The requests to the page allocator as a client makes them: each returns, keeps the invariant, and adds or takes
  away exactly one record.
\<close>

section \<open>Small allocations\<close>

lemma page_align_pages:
  assumes "len \<le> 2 ^ 31"
  shows "\<exists>n. page_align_vid len = Some n \<and> n div 2 ^ 12 = (len + 4095) div 4096"
proof -
  let ?x = "len + 4095"
  have "drop_bit 12 (4294963200::nat) = mask 20" by (simp add: mask_eq_exp_minus_1 drop_bit_eq_div)
  then have "drop_bit 12 (?x AND 4294963200) = take_bit 20 (drop_bit 12 ?x)" by (simp only: drop_bit_and take_bit_eq_mask)
  then have "(?x AND 4294963200) div 2 ^ 12 = take_bit 20 (?x div 2 ^ 12)" by (simp only: drop_bit_eq_div)
  moreover have "?x div 2 ^ 12 < 2 ^ 20" using assms by (simp add: less_mult_imp_div_less)
  ultimately have "(?x AND 4294963200) div 2 ^ 12 = ?x div 4096" by (simp add: take_bit_eq_mod)
  then show ?thesis using assms by (simp add: page_align_vid_def nvgpu_safe_add_u64_def)
qed

definition slab_nr_of :: "u64 \<Rightarrow> nat" where
  "slab_nr_of len = nvgpu_fls ((len + 4095) div 4096) - 1"

lemma slab_nr_ok:
  assumes len: "0 < len" "len \<le> 2 ^ sh div 2" and sh: "12 < sh" "sh \<le> 18"
  shows "\<exists>n. page_align_vid len = Some n \<and> n div 2 ^ 12 \<noteq> 0 \<and> nvgpu_ilog2 (n div 2 ^ 12) = Some (slab_nr_of len)"
    "slab_nr_of len < sh - 12" "2 ^ slab_nr_of len \<le> (len + 4095) div 4096" "(len + 4095) div 4096 < 2 * 2 ^ slab_nr_of len"
proof -
  let ?k = "(len + 4095) div 4096"
  have "(2::nat) ^ sh \<le> 2 ^ 18" using sh(2) by (intro power_increasing) auto
  then have l: "len \<le> 2 ^ 31" using len(2) by simp
  have k: "0 < ?k" "?k \<le> U64_MAX" using len(1) l by (simp_all add: div_greater_zero_iff)
  note f = nvgpu_fls_correct[OF k]
  obtain n where n: "page_align_vid len = Some n" "n div 2 ^ 12 = ?k" using page_align_pages[OF l] by blast
  have "nvgpu_ilog2 ?k = Some (slab_nr_of len)" using f(1) by (simp add: nvgpu_ilog2_def slab_nr_of_def)
  then show "\<exists>n. page_align_vid len = Some n \<and> n div 2 ^ 12 \<noteq> 0 \<and> nvgpu_ilog2 (n div 2 ^ 12) = Some (slab_nr_of len)" using n k(1) by simp
  show lo: "2 ^ slab_nr_of len \<le> ?k" using f(3) by (simp add: slab_nr_of_def)
  have "nvgpu_fls ?k = Suc (slab_nr_of len)" using f(1) by (simp add: slab_nr_of_def)
  then show "?k < 2 * 2 ^ slab_nr_of len" using f(4) by simp
  have "sh = sh - 13 + 13" using sh(1) by simp
  then have "(2::nat) ^ sh = 2 ^ (sh - 13) * 2 ^ 13" by (metis power_add)
  then have "len \<le> 2 ^ (sh - 13) * 4096" using len(2) by simp
  then have "?k \<le> 2 ^ (sh - 13)" by simp
  then have "(2::nat) ^ slab_nr_of len \<le> 2 ^ (sh - 13)" using lo by (rule order_trans[rotated])
  then have "slab_nr_of len \<le> sh - 13" by simp
  then show "slab_nr_of len < sh - 12" using sh(1) by simp
qed

lemma alloc_slab_ok:
  assumes i: "pinv {} a" and len: "0 < len" "len \<le> pg_page_size a div 2" and k4: "bit (pg_flags a) GPU_ALLOC_4K_VIDMEM_PAGES"
    and room: "pg_pages_alloced a < U64_MAX" "pg_nr_slab_allocs a < U64_MAX"
  shows "(\<exists>s r f. nvgpu_alloc_slab e len a = Some (None, a\<lparr>pg_source := s, pg_requests := r, pg_fresh := f\<rparr>) \<and> pg_fresh a \<le> f \<and>
      buddy_plain s \<and> buddy_live s = buddy_live (pg_source a) \<and> buddy_limits s = buddy_limits (pg_source a) \<and> by_bytes_freed s = by_bytes_freed (pg_source a)) \<or>
    (\<exists>al s r f m ss sh. nvgpu_alloc_slab e len a = Some (Some (pg_fresh a), a\<lparr>pg_source := s, pg_requests := r, pg_fresh := f, pg_pages_alloced := m,
        pg_slabs := ss, pg_slab_heap := sh, pg_heap := (pg_heap a)(pg_fresh a \<mapsto> al), pg_sgls := pg_sgls a + 1, pg_nr_slab_allocs := pg_nr_slab_allocs a + 1\<rparr>) \<and>
      pinv {} (a\<lparr>pg_source := s, pg_requests := r, pg_fresh := f, pg_pages_alloced := m, pg_slabs := ss, pg_slab_heap := sh,
        pg_heap := (pg_heap a)(pg_fresh a \<mapsto> al), pg_allocs := idx_insert (al_base al) (pg_fresh a) (pg_allocs a)\<rparr>) \<and>
      al_slab_page al \<noteq> None \<and> al_length al = 2 ^ (12 + slab_nr_of len) \<and> m \<le> pg_pages_alloced a + 1 \<and>
      buddy_limits s = buddy_limits (pg_source a) \<and> by_bytes_freed s = by_bytes_freed (pg_source a))"
proof -
  let ?p = "pg_fresh a" and ?j = "slab_nr_of len" and ?s = "pg_source a"
  note g = geoD[OF pinvD(1)[OF i]]
  have ne: "pg_slabs a \<noteq> []" by (rule g(11)[OF k4])
  note sh = g(4)[OF ne] and n = g(5)[OF ne]
  have sh12: "12 < pg_page_shift a" using ne n by (metis length_greater_0_conv zero_less_diff)
  have len': "len \<le> 2 ^ pg_page_shift a div 2" using len(2) unfolding g(2) .
  note j = slab_nr_ok[OF len(1) len' sh12 sh]
  obtain x where x: "page_align_vid len = Some x" "x div 2 ^ 12 \<noteq> 0" "nvgpu_ilog2 (x div 2 ^ 12) = Some ?j" using j(1) by blast
  note ff = fresh_free[OF i]
  have fail: ?thesis if "nvgpu_alloc_slab e len a = Some (None, a\<lparr>pg_source := s, pg_requests := r, pg_fresh := f\<rparr>)" "?p \<le> f"
    "buddy_plain s" "buddy_live s = buddy_live ?s" "buddy_limits s = buddy_limits ?s" "by_bytes_freed s = by_bytes_freed ?s" for s r f using that by blast
  show ?thesis
  proof (cases "pe_nomem e (pg_requests a)")
    case True
    show ?thesis by (rule fail[where s = ?s and r = "pg_requests a + 1" and f = ?p]) (use True x g(1) in \<open>simp_all add: nvgpu_alloc_slab_def alloc_record_def pg_request_def Let_def\<close>)
  next
    case ok1: False
    let ?h = "(pg_heap a)(?p \<mapsto> pe_junk e)"
    show ?thesis
    proof (cases "pe_nomem e (pg_requests a + 1)")
      case True
      show ?thesis
        by (rule fail[where s = ?s and r = "pg_requests a + 2" and f = "?p + 1"])
          (use True ok1 x g(1) ff in \<open>simp_all add: nvgpu_alloc_slab_def alloc_record_def pg_request_def Let_def free_record_def fun_upd_idem\<close>)
    next
      case ok2: False
      define a1 where "a1 = a\<lparr>pg_heap := ?h, pg_fresh := ?p + 1, pg_requests := pg_requests a + 2, pg_sgls := pg_sgls a + 1\<rparr>"
      have p1: "pinv {} (a1\<lparr>pg_heap := pg_heap a\<rparr>)" by (rule pinv_cong[OF i]) (simp_all add: a1_def g(1))
      have run: "nvgpu_alloc_slab e len a =
        do { (r, a) \<leftarrow> do_slab_alloc e ?j (pe_junk e) a1;
             (case r of
                Inl _ \<Rightarrow> Some (None, free_record ?p (a\<lparr>pg_sgls := pg_sgls a - 1\<rparr>))
              | Inr al \<Rightarrow> do {
                  nvgpu_assert (pg_nr_slab_allocs a < U64_MAX);
                  Some (Some ?p, a\<lparr>pg_heap := (pg_heap a)(?p \<mapsto> al), pg_nr_slab_allocs := pg_nr_slab_allocs a + 1\<rparr>) }) }"
        using x ok1 ok2 by (simp add: nvgpu_alloc_slab_def alloc_record_def pg_request_def Let_def a1_def)
      have prems: "?j < length (pg_slabs a1)" "pg_pages_alloced a1 < U64_MAX" "pg_heap a ?p = None" "0 < ?p" "?p < pg_fresh a1"
        using j(2) n room(1) ff pinvD(7)[OF i] by (simp_all add: a1_def ids_ok_def)
      show ?thesis using do_slab_alloc_ok[OF p1 prems, of e "pe_junk e"]
      proof
        assume "\<exists>s r. do_slab_alloc e ?j (pe_junk e) a1 = Some (Inl ENOMEM, a1\<lparr>pg_source := s, pg_requests := r\<rparr>) \<and> buddy_plain s \<and> buddy_live s = buddy_live (pg_source a1) \<and>
          buddy_limits s = buddy_limits (pg_source a1) \<and> by_bytes_freed s = by_bytes_freed (pg_source a1)"
        then obtain s r where s: "do_slab_alloc e ?j (pe_junk e) a1 = Some (Inl ENOMEM, a1\<lparr>pg_source := s, pg_requests := r\<rparr>)" "buddy_plain s"
          "buddy_live s = buddy_live (pg_source a1)" "buddy_limits s = buddy_limits (pg_source a1)" "by_bytes_freed s = by_bytes_freed (pg_source a1)" by blast
        show ?thesis by (rule fail[where s = s and r = r and f = "?p + 1"]) (use run s ff in \<open>simp_all add: a1_def free_record_def fun_upd_idem\<close>)
      next
        assume "\<exists>al' s r f m ss sh. do_slab_alloc e ?j (pe_junk e) a1 = Some (Inr al', a1\<lparr>pg_source := s, pg_requests := r, pg_fresh := f, pg_pages_alloced := m, pg_slabs := ss, pg_slab_heap := sh\<rparr>) \<and>
          pinv {} (a1\<lparr>pg_source := s, pg_requests := r, pg_fresh := f, pg_pages_alloced := m, pg_slabs := ss, pg_slab_heap := sh, pg_heap := (pg_heap a)(?p \<mapsto> al'),
            pg_allocs := idx_insert (al_base al') ?p (pg_allocs a1)\<rparr>) \<and>
          al_slab_page al' \<noteq> None \<and> al_length al' = 2 ^ (12 + ?j) \<and> m \<le> pg_pages_alloced a1 + 1 \<and>
          buddy_limits s = buddy_limits (pg_source a1) \<and> by_bytes_freed s = by_bytes_freed (pg_source a1)"
        then obtain al s r f m ss sh where
          r: "do_slab_alloc e ?j (pe_junk e) a1 = Some (Inr al, a1\<lparr>pg_source := s, pg_requests := r, pg_fresh := f, pg_pages_alloced := m, pg_slabs := ss, pg_slab_heap := sh\<rparr>)"
          and inv: "pinv {} (a1\<lparr>pg_source := s, pg_requests := r, pg_fresh := f, pg_pages_alloced := m, pg_slabs := ss, pg_slab_heap := sh, pg_heap := (pg_heap a)(?p \<mapsto> al),
            pg_allocs := idx_insert (al_base al) ?p (pg_allocs a1)\<rparr>)"
          and al: "al_slab_page al \<noteq> None" "al_length al = 2 ^ (12 + ?j)" "m \<le> pg_pages_alloced a + 1" "buddy_limits s = buddy_limits ?s" "by_bytes_freed s = by_bytes_freed ?s"
          unfolding a1_def by auto
        have "nvgpu_alloc_slab e len a = Some (Some ?p, a\<lparr>pg_source := s, pg_requests := r, pg_fresh := f, pg_pages_alloced := m,
          pg_slabs := ss, pg_slab_heap := sh, pg_heap := (pg_heap a)(?p \<mapsto> al), pg_sgls := pg_sgls a + 1, pg_nr_slab_allocs := pg_nr_slab_allocs a + 1\<rparr>)"
          using run r room(2) by (simp add: a1_def)
        moreover have "pinv {} (a\<lparr>pg_source := s, pg_requests := r, pg_fresh := f, pg_pages_alloced := m, pg_slabs := ss, pg_slab_heap := sh,
          pg_heap := (pg_heap a)(?p \<mapsto> al), pg_allocs := idx_insert (al_base al) ?p (pg_allocs a)\<rparr>)"
          by (rule pinv_cong[OF inv]) (use geoD(1)[OF pinvD(1)[OF inv]] in \<open>simp_all add: a1_def\<close>)
        ultimately show ?thesis using al by blast
      qed
    qed
  qed
qed


section \<open>Requests\<close>

text \<open>How far the statistics have got, and what one request can add to any of them.\<close>

definition spent :: "nat \<Rightarrow> nvgpu_page_allocator \<Rightarrow> bool" where
  "spent w a \<longleftrightarrow> pg_nr_allocs a \<le> w \<and> pg_nr_frees a \<le> w \<and> pg_nr_slab_allocs a \<le> w \<and> pg_nr_slab_frees a \<le> w \<and> pg_pages_alloced a \<le> w \<and>
     pg_pages_freed a \<le> w \<and> by_bytes_freed (pg_source a) \<le> w"

definition cost :: "nvgpu_page_allocator \<Rightarrow> nat" where
  "cost a = by_end (pg_source a) - by_start (pg_source a) + 1"

lemma pcfgD:
  assumes "pcfg a' = pcfg a"
  shows "pg_page_size a' = pg_page_size a" "pg_page_shift a' = pg_page_shift a" "pg_flags a' = pg_flags a" "buddy_limits (pg_source a') = buddy_limits (pg_source a)" "cost a' = cost a"
  using assms by (auto simp: pcfg_def cost_def buddy_limits_def)

lemma record_total:
  assumes i: "pinv X a" and p: "pg_heap a p = Some al"
  shows "0 < al_base al" "0 < al_length al" "al_length al < cost a" "al_base al + al_length al \<le> U64_MAX" "0 < p"
proof -
  let ?s = "pg_source a" and ?cs = "al_sgl al"
  note g = geoD[OF pinvD(1)[OF i]]
  have r: "rec_ok (pg_slab_heap a) al" by (rule recs_okD(1)[OF pinvD(5)[OF i] p])
  then have ne: "?cs \<noteq> []" "al_base al = sg_phys (hd ?cs)" and tot: "sum_list (map sg_length ?cs) = al_length al" and dj: "distinct (map sg_phys ?cs)" by (auto simp: rec_ok_def)
  have h: "hd ?cs \<in> set ?cs" using ne(1) by simp
  obtain x k n l where c: "(k, l) \<in> buddy_live ?s" "k \<le> sg_phys (hd ?cs)" "sg_phys (hd ?cs) + sg_length (hd ?cs) \<le> k + l" "0 < sg_length (hd ?cs)"
    using chunk_range[OF i p h] by blast
  have b: "0 < k" "by_start ?s \<le> k" "k + l \<le> by_end ?s" using buddy.live_bounds[OF g(1) c(1)] by (auto simp: buddy_limits_def)
  show "0 < al_base al" using c(2) b(1) ne(2) by simp
  have "sg_length (hd ?cs) \<in> set (map sg_length ?cs)" using h by simp
  then have "sg_length (hd ?cs) \<le> al_length al" unfolding tot[symmetric] by (rule member_le_sum_list) simp
  then show "0 < al_length al" using c(4) by simp
  have le: "al_length al \<le> by_end ?s - by_start ?s"
  proof (cases "al_slab_page al")
    case (Some q)
    then have "length ?cs = 1" using r by (auto simp: rec_ok_def)
    then have "?cs = [hd ?cs]" by (metis length_0_conv length_Suc_conv list.sel(1) One_nat_def)
    then have "al_length al = sg_length (hd ?cs)" using tot by (metis add.right_neutral list.simps(8,9) sum_list.Cons sum_list.Nil)
    then show ?thesis using c b by linarith
  next
    case None
    have "\<exists>x. x \<in> buddy_live ?s \<and> sg_length d \<le> snd x \<and> fst x = sg_phys d" if "d \<in> set ?cs" for d
      using owners_okD(2)[OF pinvD(4)[OF i], of "Inl p" "sg_phys d" "sg_length d"] chunks_ofI[of "pg_heap a" p al d, OF p None that] by fastforce
    then obtain f where f: "\<And>d. d \<in> set ?cs \<Longrightarrow> f d \<in> buddy_live ?s \<and> sg_length d \<le> snd (f d) \<and> fst (f d) = sg_phys d" by metis
    have inj: "inj_on f (set ?cs)" using f dj unfolding distinct_map inj_on_def by metis
    have "al_length al = (\<Sum>d\<in>set ?cs. sg_length d)" using tot dj by (simp add: distinct_map sum_list_distinct_conv_sum_set)
    also have "\<dots> \<le> (\<Sum>d\<in>set ?cs. snd (f d))" using f by (intro sum_mono) blast
    also have "\<dots> = sum snd (f ` set ?cs)" using sum.reindex[OF inj, of snd] by simp
    also have "\<dots> \<le> live_sum ?s" unfolding live_sum_def by (rule sum_mono2[OF live_finite[OF g(1)]]) (use f in blast)+
    finally show ?thesis using live_sum_le[OF g(1)] by simp
  qed
  then show "al_length al < cost a" by (simp add: cost_def)
  have "al_base al \<le> by_end ?s" using ne(2) c(3) b(3) by simp
  then show "al_base al + al_length al \<le> U64_MAX" using le g(9) by linarith
  show "0 < p" using pinvD(7)[OF i] p by (auto simp: ids_ok_def)
qed

text \<open>The length a request is rounded to before it is looked at, and what the record of a granted one says.\<close>

definition real_len_of :: "nvgpu_page_allocator \<Rightarrow> u64 \<Rightarrow> u64 option" where
  "real_len_of a len = (if bit (pg_flags a) GPU_ALLOC_FORCE_CONTIG then roundup_pow_of_two len else Some len)"

definition small_request :: "nvgpu_page_allocator \<Rightarrow> u64 \<Rightarrow> bool" where
  "small_request a rl \<longleftrightarrow> bit (pg_flags a) GPU_ALLOC_4K_VIDMEM_PAGES \<and> rl \<le> pg_page_size a div 2"

definition request_met :: "nvgpu_page_allocator \<Rightarrow> u64 \<Rightarrow> nvgpu_page_alloc \<Rightarrow> bool" where
  "request_met a rl al \<longleftrightarrow>
     (if small_request a rl then al_slab_page al \<noteq> None \<and> al_length al = 2 ^ (12 + slab_nr_of rl)
      else al_slab_page al = None \<and> rl \<le> al_length al \<and> al_length al < rl + pg_page_size a \<and> al_length al mod pg_page_size a = 0 \<and>
        (bit (pg_flags a) GPU_ALLOC_FORCE_CONTIG \<longrightarrow> length (al_sgl al) = 1))"

lemma real_len_ok:
  assumes "0 < len" "len \<le> 2 ^ 63"
  shows "\<exists>rl. real_len_of a len = Some rl \<and> len \<le> rl \<and> 0 < rl \<and> rl \<le> 2 ^ 63 \<and> (bit (pg_flags a) GPU_ALLOC_FORCE_CONTIG \<longrightarrow> (\<exists>k\<le>63. rl = 2 ^ k))"
proof -
  obtain k where k: "k \<le> 63" "roundup_pow_of_two len = Some (2 ^ k)" "len \<le> 2 ^ k" using roundup_pow_of_two_correct[OF assms] by blast
  have "(2::nat) ^ k \<le> 2 ^ 63" using k(1) by (intro power_increasing) auto
  then show ?thesis using assms k by (auto simp: real_len_of_def)
qed

lemma alloc_pages_ok:
  assumes i: "pinv {} a" and rl: "0 < rl" "rl \<le> 2 ^ 63" "\<not> small_request a rl" and lim: "buddy_limits (pg_source a) = (lo, hi)"
    and room: "by_bytes_freed (pg_source a) + (hi - lo) \<le> U64_MAX"
  shows "(\<exists>s r f. nvgpu_alloc_pages e rl a = Some (None, a\<lparr>pg_source := s, pg_requests := r, pg_fresh := f\<rparr>) \<and> pg_fresh a \<le> f \<and> buddy_plain s \<and>
      buddy_limits s = (lo, hi) \<and> buddy_live s = buddy_live (pg_source a) \<and> by_bytes_freed s \<le> by_bytes_freed (pg_source a) + (hi - lo)) \<or>
    (\<exists>s r al. nvgpu_alloc_pages e rl a = Some (Some (pg_fresh a), a\<lparr>pg_source := s, pg_requests := r, pg_fresh := pg_fresh a + 1,
        pg_sgls := pg_sgls a + length (al_sgl al), pg_heap := (pg_heap a)(pg_fresh a \<mapsto> al)\<rparr>) \<and>
      buddy_limits s = (lo, hi) \<and> by_bytes_freed s = by_bytes_freed (pg_source a) \<and> request_met a rl al \<and>
      pinv {} (a\<lparr>pg_source := s, pg_requests := r, pg_fresh := pg_fresh a + 1, pg_sgls := pg_sgls a + length (al_sgl al), pg_heap := (pg_heap a)(pg_fresh a \<mapsto> al),
        pg_allocs := idx_insert (al_base al) (pg_fresh a) (pg_allocs a)\<rparr>))"
proof -
  let ?m = "pg_page_size a"
  note g = geoD[OF pinvD(1)[OF i]]
  have "(2::nat) ^ pg_page_shift a \<le> 2 ^ 62" using g(8) by (intro power_increasing) auto
  then have m: "?m \<le> 2 ^ 62" using g(2) by simp
  then have "rl + ?m \<le> U64_MAX" using rl(2) by simp
  then obtain y where y: "NVGPU_ALIGN rl ?m = Some y" "rl \<le> y" "y < rl + ?m" "y mod ?m = 0"
    using NVGPU_ALIGN_power2[of "pg_page_shift a" rl] g(2,8) by auto
  define n where "n = y div ?m"
  have yn: "y = n * ?m" using y(4) unfolding n_def by (metis add.right_neutral div_mult_mod_eq)
  have n: "0 < n" "n * ?m \<le> U64_MAX" using yn y(2,3) rl(1) \<open>rl + ?m \<le> U64_MAX\<close> by (auto intro: Nat.gr0I)
  have run: "nvgpu_alloc_pages e rl a = do_nvgpu_alloc_pages e n a" using y(1) by (simp add: nvgpu_alloc_pages_def n_def g(2))
  show ?thesis using do_alloc_pages_ok[OF i n lim room, of e]
  proof
    assume "\<exists>s r f. do_nvgpu_alloc_pages e n a = Some (None, a\<lparr>pg_source := s, pg_requests := r, pg_fresh := f\<rparr>) \<and> pg_fresh a \<le> f \<and> buddy_plain s \<and>
      buddy_limits s = (lo, hi) \<and> buddy_live s = buddy_live (pg_source a) \<and> by_bytes_freed s \<le> by_bytes_freed (pg_source a) + (hi - lo)"
    then show ?thesis unfolding run by (rule disjI1)
  next
    assume "\<exists>s r al. do_nvgpu_alloc_pages e n a = Some (Some (pg_fresh a), a\<lparr>pg_source := s, pg_requests := r, pg_fresh := pg_fresh a + 1,
        pg_sgls := pg_sgls a + length (al_sgl al), pg_heap := (pg_heap a)(pg_fresh a \<mapsto> al)\<rparr>) \<and>
      buddy_limits s = (lo, hi) \<and> grown (buddy_live (pg_source a)) (al_sgl al) s \<and> by_bytes_freed s = by_bytes_freed (pg_source a) \<and>
      al_slab_page al = None \<and> rec_ok (pg_slab_heap a) al \<and> al_length al = n * ?m \<and> (bit (pg_flags a) GPU_ALLOC_FORCE_CONTIG \<longrightarrow> length (al_sgl al) = 1)"
    then obtain s r al where r: "do_nvgpu_alloc_pages e n a = Some (Some (pg_fresh a), a\<lparr>pg_source := s, pg_requests := r, pg_fresh := pg_fresh a + 1,
        pg_sgls := pg_sgls a + length (al_sgl al), pg_heap := (pg_heap a)(pg_fresh a \<mapsto> al)\<rparr>)"
      and al: "buddy_limits s = (lo, hi)" "grown (buddy_live (pg_source a)) (al_sgl al) s" "by_bytes_freed s = by_bytes_freed (pg_source a)"
        "al_slab_page al = None" "rec_ok (pg_slab_heap a) al" "al_length al = n * ?m" "bit (pg_flags a) GPU_ALLOC_FORCE_CONTIG \<longrightarrow> length (al_sgl al) = 1" by blast
    have "pinv {} (a\<lparr>pg_source := s, pg_requests := r, pg_fresh := pg_fresh a + 1, pg_sgls := pg_sgls a + length (al_sgl al), pg_heap := (pg_heap a)(pg_fresh a \<mapsto> al),
        pg_allocs := idx_insert (al_base al) (pg_fresh a) (pg_allocs a)\<rparr>)"
      by (rule add_pages_record[OF i al(4,2,5), of "pg_fresh a"]) (use fresh_free[OF i] al(1) lim in simp_all)
    moreover have "request_met a rl al" using al(4,6,7) rl(3) y(2,3) yn by (simp add: request_met_def)
    ultimately show ?thesis using r al(1,3) unfolding run by blast
  qed
qed


lemma palloc_ok:
  assumes i: "pinv {} a" and w: "spent w a" "w + cost a \<le> U64_MAX" and len: "0 < len" "len \<le> 2 ^ 63"
  shows "\<exists>ret a'. nvgpu_page_palloc e a len = Some (ret, a') \<and> pinv {} a' \<and> pcfg a' = pcfg a \<and> spent (w + cost a) a' \<and>
    (if ret = 0 then (\<exists>s r f. a' = a\<lparr>pg_source := s, pg_requests := r, pg_fresh := f\<rparr> \<and> buddy_live s = buddy_live (pg_source a))
     else \<exists>p al rl. pg_heap a p = None \<and> pg_heap a' = (pg_heap a)(p \<mapsto> al) \<and> ret = (if bit (pg_flags a) GPU_ALLOC_NO_SCATTER_GATHER then al_base al else p) \<and>
       pg_sgls a' = pg_sgls a + length (al_sgl al) \<and> real_len_of a len = Some rl \<and> request_met a rl al)"
proof -
  let ?s = "pg_source a" and ?p = "pg_fresh a"
  obtain rl where rl: "real_len_of a len = Some rl" "0 < rl" "rl \<le> 2 ^ 63" using real_len_ok[OF len, of a] by blast
  define alloc where "alloc = (if small_request a rl then nvgpu_alloc_slab e rl a else nvgpu_alloc_pages e rl a)"
  have run: "nvgpu_page_palloc e a len =
     do { (alloc, a) \<leftarrow> alloc;
       (case alloc of
          None \<Rightarrow> Some (0, a)
        | Some p \<Rightarrow> do {
            a \<leftarrow> insert_page_alloc p a;
            nvgpu_assert (pg_nr_allocs a < U64_MAX);
            al \<leftarrow> pg_heap a p;
            let a = a\<lparr>pg_nr_allocs := pg_nr_allocs a + 1\<rparr>;
            let a = (if rl > pg_page_size a div 2
                     then a\<lparr>pg_pages_alloced := wrap64 (pg_pages_alloced a + al_length al div 2 ^ pg_page_shift a)\<rparr> else a);
            Some (if bit (pg_flags a) GPU_ALLOC_NO_SCATTER_GATHER then al_base al else p, a) }) }"
    unfolding nvgpu_page_palloc_def real_len_of_def[of a len, symmetric] rl(1) bind.bind_lunit small_request_def[symmetric] alloc_def[symmetric] ..
  have c1: "0 < cost a" "hi - lo < cost a" if "buddy_limits ?s = (lo, hi)" for lo hi using that by (auto simp: cost_def buddy_limits_def)
  have room: "pg_pages_alloced a < U64_MAX" "pg_nr_slab_allocs a < U64_MAX" "pg_nr_allocs a < U64_MAX" using w c1(1) unfolding spent_def by (auto simp: cost_def)
  obtain lo hi where lim: "buddy_limits ?s = (lo, hi)" by (cases "buddy_limits ?s")
  have broom: "by_bytes_freed ?s + (hi - lo) \<le> U64_MAX" using w c1(2)[OF lim] by (simp add: spent_def)
  have fail: ?thesis if r: "alloc = Some (None, a\<lparr>pg_source := s, pg_requests := r, pg_fresh := f\<rparr>)" "?p \<le> f" "buddy_plain s" "buddy_live s = buddy_live ?s"
    "buddy_limits s = buddy_limits ?s" "by_bytes_freed s \<le> by_bytes_freed ?s + (hi - lo)" for s r f
  proof -
    let ?a = "a\<lparr>pg_source := s, pg_requests := r, pg_fresh := f\<rparr>"
    have "pinv {} ?a" by (rule pinv_cong[OF i]) (use r in simp_all)
    moreover have "pcfg ?a = pcfg a" "spent (w + cost a) ?a" using r(5,6) w(1) c1(2)[OF lim] by (auto simp: pcfg_def spent_def)
    moreover have "nvgpu_page_palloc e a len = Some (0, ?a)" using run r(1) by simp
    ultimately show ?thesis using r(4) by (intro exI[of _ 0] exI[of _ ?a]) (simp, blast)
  qed
  have good: ?thesis
    if r: "alloc = Some (Some ?p, b)" and b: "pinv {} (b\<lparr>pg_allocs := idx_insert (al_base al) ?p (pg_allocs b)\<rparr>)" "pg_heap b = (pg_heap a)(?p \<mapsto> al)" "pcfg b = pcfg a"
      "pg_nr_allocs b = pg_nr_allocs a" "pg_nr_frees b = pg_nr_frees a" "pg_nr_slab_allocs b \<le> pg_nr_slab_allocs a + 1" "pg_nr_slab_frees b = pg_nr_slab_frees a"
      "pg_pages_alloced b + (if rl > pg_page_size a div 2 then al_length al else 0) \<le> w + cost a" "pg_pages_freed b = pg_pages_freed a"
      "by_bytes_freed (pg_source b) = by_bytes_freed ?s" "pg_sgls b = pg_sgls a + length (al_sgl al)" "request_met a rl al" for b al
  proof -
    let ?b = "b\<lparr>pg_allocs := idx_insert (al_base al) ?p (pg_allocs b)\<rparr>"
    have hp: "pg_heap ?b ?p = Some al" using b(2) by simp
    note t = record_total[OF b(1) hp] and cf = pcfgD[OF b(3)]
    have ins: "insert_page_alloc ?p b = Some ?b" using t(4) hp by (simp add: insert_page_alloc_def nvgpu_safe_add_u64_def)
    define n where "n = (if rl > pg_page_size a div 2 then wrap64 (pg_pages_alloced b + al_length al div 2 ^ pg_page_shift a) else pg_pages_alloced b)"
    let ?a = "?b\<lparr>pg_nr_allocs := pg_nr_allocs b + 1, pg_pages_alloced := n\<rparr>" and ?ret = "if bit (pg_flags a) GPU_ALLOC_NO_SCATTER_GATHER then al_base al else ?p"
    have res: "nvgpu_page_palloc e a len = Some (?ret, ?a)"
      using run r ins hp b(2) room(3) b(4) by (simp add: cf Let_def n_def)
    have "wrap64 (x + y div z) \<le> x + y" for x y z by (simp add: wrap64_def) (meson add_left_mono div_le_dividend le_trans mod_less_eq_dividend)
    then have "n \<le> pg_pages_alloced b + (if rl > pg_page_size a div 2 then al_length al else 0)" unfolding n_def by simp
    then have sp: "spent (w + cost a) ?a" using b(4-10) w(1) c1(1)[OF lim] unfolding spent_def by simp
    have "pinv {} ?a" by (rule pinv_cong[OF b(1)]) (use geoD(1)[OF pinvD(1)[OF b(1)]] in simp_all)
    moreover have "pcfg ?a = pcfg a" using b(3) by (simp add: pcfg_def)
    moreover have "?ret \<noteq> 0" using t(1,5) by simp
    moreover have "pg_heap a ?p = None" using fresh_free[OF i] by simp
    ultimately show ?thesis using res sp b(2,11,12) rl(1) by (intro exI[of _ ?ret] exI[of _ ?a]) (simp, blast)
  qed
  show ?thesis
  proof (cases "small_request a rl")
    case True
    then have al: "alloc = nvgpu_alloc_slab e rl a" and k4: "bit (pg_flags a) GPU_ALLOC_4K_VIDMEM_PAGES" "rl \<le> pg_page_size a div 2" by (simp_all add: alloc_def small_request_def)
    show ?thesis using alloc_slab_ok[OF i rl(2) k4(2,1) room(1,2), of e]
    proof (elim disjE exE conjE)
      fix s r f
      assume "nvgpu_alloc_slab e rl a = Some (None, a\<lparr>pg_source := s, pg_requests := r, pg_fresh := f\<rparr>)" "?p \<le> f" "buddy_plain s" "buddy_live s = buddy_live ?s"
        "buddy_limits s = buddy_limits ?s" "by_bytes_freed s = by_bytes_freed ?s"
      then show ?thesis unfolding al[symmetric] by (intro fail[where s = s and r = r and f = f]) simp_all
    next
      fix al' s r f m ss sh
      let ?b = "a\<lparr>pg_source := s, pg_requests := r, pg_fresh := f, pg_pages_alloced := m,
        pg_slabs := ss, pg_slab_heap := sh, pg_heap := (pg_heap a)(pg_fresh a \<mapsto> al'), pg_sgls := pg_sgls a + 1, pg_nr_slab_allocs := pg_nr_slab_allocs a + 1\<rparr>"
      assume r: "nvgpu_alloc_slab e rl a = Some (Some ?p, ?b)"
        and inv: "pinv {} (a\<lparr>pg_source := s, pg_requests := r, pg_fresh := f, pg_pages_alloced := m, pg_slabs := ss, pg_slab_heap := sh,
        pg_heap := (pg_heap a)(pg_fresh a \<mapsto> al'), pg_allocs := idx_insert (al_base al') (pg_fresh a) (pg_allocs a)\<rparr>)"
        and f: "al_slab_page al' \<noteq> None" "al_length al' = 2 ^ (12 + slab_nr_of rl)" "m \<le> pg_pages_alloced a + 1"
        "buddy_limits s = buddy_limits ?s" "by_bytes_freed s = by_bytes_freed ?s"
      have one: "length (al_sgl al') = 1" using recs_okD(1)[OF pinvD(5)[OF inv], of ?p al'] f(1) by (auto simp: rec_ok_def)
      have "pinv {} (?b\<lparr>pg_allocs := idx_insert (al_base al') ?p (pg_allocs ?b)\<rparr>)"
        by (rule pinv_cong[OF inv]) (use geoD(1)[OF pinvD(1)[OF inv]] in simp_all)
      moreover have "request_met a rl al'" using True f(1,2) by (simp add: request_met_def)
      moreover have "m \<le> w + cost a" using f(3) w(1) c1(1)[OF lim] by (simp add: spent_def)
      ultimately show ?thesis using f(4,5) k4(2) one by (intro good[OF r[folded al]]) (simp_all add: pcfg_def)
    qed
  next
    case False
    then have al: "alloc = nvgpu_alloc_pages e rl a" by (simp add: alloc_def)
    show ?thesis using alloc_pages_ok[OF i rl(2,3) False lim broom, of e]
    proof (elim disjE exE conjE)
      fix s r f
      assume "nvgpu_alloc_pages e rl a = Some (None, a\<lparr>pg_source := s, pg_requests := r, pg_fresh := f\<rparr>)" "?p \<le> f" "buddy_plain s" "buddy_limits s = (lo, hi)"
        "buddy_live s = buddy_live ?s" "by_bytes_freed s \<le> by_bytes_freed ?s + (hi - lo)"
      then show ?thesis unfolding al[symmetric] lim[symmetric] by (intro fail[where s = s and r = r and f = f]) simp_all
    next
      fix s r al'
      let ?b = "a\<lparr>pg_source := s, pg_requests := r, pg_fresh := ?p + 1, pg_sgls := pg_sgls a + length (al_sgl al'), pg_heap := (pg_heap a)(?p \<mapsto> al')\<rparr>"
      assume r: "nvgpu_alloc_pages e rl a = Some (Some ?p, ?b)" and f: "buddy_limits s = (lo, hi)" "by_bytes_freed s = by_bytes_freed ?s" "request_met a rl al'"
        and inv: "pinv {} (a\<lparr>pg_source := s, pg_requests := r, pg_fresh := ?p + 1, pg_sgls := pg_sgls a + length (al_sgl al'), pg_heap := (pg_heap a)(?p \<mapsto> al'),
          pg_allocs := idx_insert (al_base al') ?p (pg_allocs a)\<rparr>)"
      have "al_length al' < cost a" using record_total(3)[OF inv, of ?p al'] f(1) lim by (simp add: cost_def buddy_limits_def)
      then have "pg_pages_alloced a + al_length al' \<le> w + cost a" using w(1) by (simp add: spent_def)
      then show ?thesis using f lim inv by (intro good[OF r[folded al]]) (simp_all add: pcfg_def)
    qed
  qed
qed

end
