(* ===== verification/Page_Release.thy ===== *)
theory Page_Release
  imports Page_Requests
begin

text \<open>Releases: the chunks of an allocation go back to the source, an object back to its slab page.\<close>

section \<open>Allocations of pages\<close>

lemma chunks_of_delete: "chunks_of (h(p := None)) = {t \<in> chunks_of h. fst t \<noteq> Inl p}"
proof (intro equalityI subsetI)
  fix t
  assume "t \<in> chunks_of (h(p := None))"
  then obtain p' al c where t: "t = (Inl p', sg_phys c, sg_length c)" "(h(p := None)) p' = Some al" "al_slab_page al = None" "c \<in> set (al_sgl al)" by (rule chunks_ofE)
  then have "p' \<noteq> p" "h p' = Some al" by (auto split: if_splits)
  then show "t \<in> {t \<in> chunks_of h. fst t \<noteq> Inl p}" using t chunks_ofI[of h p' al c] by simp
next
  fix t
  assume "t \<in> {t \<in> chunks_of h. fst t \<noteq> Inl p}"
  then have "t \<in> chunks_of h" "fst t \<noteq> Inl p" by simp_all
  then obtain p' al c where t: "t = (Inl p', sg_phys c, sg_length c)" "h p' = Some al" "al_slab_page al = None" "c \<in> set (al_sgl al)" by (blast elim: chunks_ofE)
  then show "t \<in> chunks_of (h(p := None))" using \<open>fst t \<noteq> Inl p\<close> chunks_ofI[of "h(p := None)" p' al c] by simp
qed

lemma owner_keys:
  assumes "pg_heap a p = Some al" "al_slab_page al = None"
  shows "keys {t \<in> chunks_of (pg_heap a) \<union> slab_ranges m sh. fst t = Inl p} = sg_phys ` set (al_sgl al)"
proof (intro equalityI subsetI)
  fix k
  assume "k \<in> keys {t \<in> chunks_of (pg_heap a) \<union> slab_ranges m sh. fst t = Inl p}"
  then obtain n where "(Inl p, k, n) \<in> chunks_of (pg_heap a)" by (auto simp: keys_def slab_ranges_def)
  then obtain p' al' c where t: "(Inl p, k, n) = (Inl p', sg_phys c, sg_length c)" "pg_heap a p' = Some al'" "c \<in> set (al_sgl al')" by (blast elim: chunks_ofE)
  then show "k \<in> sg_phys ` set (al_sgl al)" using assms(1) by simp
next
  fix k
  assume "k \<in> sg_phys ` set (al_sgl al)"
  then obtain c where "c \<in> set (al_sgl al)" "k = sg_phys c" by blast
  then show "k \<in> keys {t \<in> chunks_of (pg_heap a) \<union> slab_ranges m sh. fst t = Inl p}"
    using chunks_ofI[of "pg_heap a" p al c] assms by (auto simp: keys_def)
qed

lemma src_room_spent:
  assumes "pinv X a" "spent w a" "w + cost a \<le> U64_MAX"
  shows "src_room (pg_source a)"
  using live_sum_le[OF geoD(1)[OF pinvD(1)[OF assms(1)]]] assms(2,3) by (simp add: src_room_def spent_def cost_def)

text \<open>What is counted as freed in the source after some of it was freed.\<close>

lemma freed_le:
  assumes "buddy_plain s" "by_bytes_freed s' + live_sum s' = by_bytes_freed s + live_sum s" "by_bytes_freed s \<le> w"
  shows "by_bytes_freed s' \<le> w + (by_end s - by_start s)"
  using live_sum_le[OF assms(1)] assms(2,3) by linarith

lemma free_pages_ok:
  assumes i: "pinv {} a" and p: "pg_heap a p = Some al" "al_slab_page al = None" and room: "src_room (pg_source a)"
    and b: "pg_heap b = pg_heap a" "pg_source b = pg_source a" "pg_allocs b = idx_unlink (al_base al) (pg_allocs a)" "pg_page_size b = pg_page_size a" "pg_page_shift b = pg_page_shift a"
      "pg_flags b = pg_flags a" "pg_slabs b = pg_slabs a" "pg_slab_heap b = pg_slab_heap a" "pg_fresh b = pg_fresh a"
  shows "\<exists>s. nvgpu_page_alloc_free_pages p True b = Some (b\<lparr>pg_source := s, pg_heap := (pg_heap a)(p := None)\<rparr>) \<and>
    pinv {} (b\<lparr>pg_source := s, pg_heap := (pg_heap a)(p := None)\<rparr>) \<and> buddy_limits s = buddy_limits (pg_source a) \<and>
    by_bytes_freed s + live_sum s = by_bytes_freed (pg_source a) + live_sum (pg_source a)"
proof -
  let ?s = "pg_source a" and ?L = "{x \<in> buddy_live (pg_source a). fst x \<notin> sg_phys ` set (al_sgl al)}"
  let ?H = "chunks_of (pg_heap a) \<union> slab_ranges (pg_page_size a) (pg_slab_heap a)" and ?h = "(pg_heap a)(p := None)"
  note g = geoD[OF pinvD(1)[OF i]]
  have r: "rec_ok (pg_slab_heap a) al" by (rule recs_okD(1)[OF pinvD(5)[OF i] p(1)])
  have "0 < sg_length c \<and> (\<exists>l\<ge>sg_length c. (sg_phys c, l) \<in> buddy_live ?s)" if c: "c \<in> set (al_sgl al)" for c
  proof -
    have "(Inl p, sg_phys c, sg_length c) \<in> ?H" using chunks_ofI[of "pg_heap a" p al c] p c by blast
    then show ?thesis using owners_okD(1,2)[OF pinvD(4)[OF i]] by blast
  qed
  then have "grown ?L (al_sgl al) ?s" using g(1) r by (auto simp: grown_def rec_ok_def)
  from free_chunks_ok[OF this room] obtain s where s: "free_chunks (al_sgl al) ?s = Some s" "grown ?L [] s" "buddy_limits s = buddy_limits ?s"
    "by_bytes_freed s + live_sum s = by_bytes_freed ?s + live_sum ?s" by blast
  have run: "nvgpu_page_alloc_free_pages p True b = Some (b\<lparr>pg_source := s, pg_heap := ?h\<rparr>)"
    using p(1) s(1) by (simp add: nvgpu_page_alloc_free_pages_def nvgpu_page_alloc_sgl_proper_free_def free_record_def b(1,2))
  have sp: "buddy_plain s" "buddy_live s = ?L" using s(2) by (auto simp: grown_def)
  let ?b = "b\<lparr>pg_source := s, pg_heap := ?h\<rparr>"
  have "geo ?b" by (rule geo_cong(1)[OF pinvD(1)[OF i]]) (simp_all add: pcfg_def b s(3) sp(1))
  moreover have "owners_ok (buddy_live s) (chunks_of ?h \<union> slab_ranges (pg_page_size a) (pg_slab_heap a))"
  proof (rule owners_ok_del[OF pinvD(4)[OF i], where y = "Inl p"])
    show "chunks_of ?h \<union> slab_ranges (pg_page_size a) (pg_slab_heap a) = {t \<in> ?H. fst t \<noteq> Inl p}"
      unfolding chunks_of_delete by (auto simp: slab_ranges_def)
    show "buddy_live s = {t \<in> buddy_live ?s. fst t \<notin> keys {t \<in> ?H. fst t = Inl p}}" unfolding owner_keys[OF p] sp(2) ..
  qed
  moreover have "recs_ok ?h (pg_slab_heap a)"
  proof -
    have 1: "rec_ok (pg_slab_heap a) al'" if "?h p' = Some al'" for p' al' using recs_okD(1)[OF pinvD(5)[OF i]] that by (auto split: if_splits)
    have 2: "\<exists>p' al'. ?h p' = Some al' \<and> al_slab_page al' = Some q \<and> al_base al' = sp_page_addr sp + k * sp_slab_size sp"
      if q: "pg_slab_heap a q = Some sp" "k \<in> objs sp" for q sp k
    proof -
      obtain p' al' where o: "pg_heap a p' = Some al'" "al_slab_page al' = Some q" "al_base al' = sp_page_addr sp + k * sp_slab_size sp"
        using recs_okD(2)[OF pinvD(5)[OF i] q] by blast
      then have "p' \<noteq> p" using p by auto
      then have "?h p' = Some al'" using o(1) by simp
      then show ?thesis using o(2,3) by blast
    qed
    show ?thesis unfolding recs_ok_def using 1 2 by blast
  qed
  moreover have "index_ok ?h (idx_unlink (al_base al) (pg_allocs a))" by (rule index_ok_delete[where h = "pg_heap a", OF pinvD(6)[OF i] p(1)])
  moreover have "ids_ok (pg_fresh a) ?h (pg_slab_heap a)" using pinvD(7)[OF i] by (auto simp: ids_ok_def)
  ultimately have "pinv {} ?b" using pinvD(2,3)[OF i] by (simp add: pinv_def b)
  then show ?thesis using run s(3,4) by blast
qed

section \<open>Objects\<close>

lemma free_slab_page_ok:
  assumes i: "pinv {q} (c\<lparr>pg_heap := h\<rparr>)" and q: "pg_slab_heap c q = Some sp" "objs sp = {}" and room: "src_room (pg_source c)" "pg_pages_freed c < U64_MAX"
  shows "\<exists>s. free_slab_page q c = Some (c\<lparr>pg_source := s, pg_pages_freed := pg_pages_freed c + 1, pg_slab_heap := (pg_slab_heap c)(q := None)\<rparr>) \<and>
    pinv {} (c\<lparr>pg_source := s, pg_pages_freed := pg_pages_freed c + 1, pg_slab_heap := (pg_slab_heap c)(q := None), pg_heap := h\<rparr>) \<and>
    buddy_limits s = buddy_limits (pg_source c) \<and> by_bytes_freed s + live_sum s = by_bytes_freed (pg_source c) + live_sum (pg_source c)"
proof -
  let ?s = "pg_source c" and ?sh = "pg_slab_heap c" and ?m = "pg_page_size c"
  let ?H = "chunks_of h \<union> slab_ranges ?m ?sh"
  note g = geoD[OF pinvD(1)[OF i], simplified]
  have hq: "pg_slab_heap (c\<lparr>pg_heap := h\<rparr>) q = Some sp" using q(1) by simp
  note f = slab_page_facts[OF i hq, simplified]
  have fit: "sp_state sp = SP_NONE" "sp_nr_objects_alloced sp = 0" "length (sp_bitmap sp) = 1" using f(1) q(2) by (auto simp: page_fits_def)
  have "sp_bitmap sp ! 0 = 0" using q(2) by (intro bit_eqI) (auto simp: objs_def)
  then have bm: "sp_bitmap sp = [0]" using fit(3) by (cases "sp_bitmap sp") auto
  obtain l where l: "(sp_page_addr sp, l) \<in> buddy_live ?s" using owners_okD(2)[OF pinvD(4)[OF i], of "Inr q"] f(6) by auto
  obtain s where s: "nvgpu_buddy_bfree ?s (sp_page_addr sp) = Some s" "buddy_plain s" "buddy_limits s = buddy_limits ?s"
    "buddy_live s = {x \<in> buddy_live ?s. fst x \<noteq> sp_page_addr sp}" "by_bytes_freed s + live_sum s = by_bytes_freed ?s + live_sum ?s"
    using src_free[OF g(1) l room(1)] by blast
  let ?c = "c\<lparr>pg_source := s, pg_pages_freed := pg_pages_freed c + 1, pg_slab_heap := ?sh(q := None)\<rparr>"
  have run: "free_slab_page q c = Some ?c" using q(1) fit bm s(1) room(2) by (simp add: free_slab_page_def)
  have "geo (?c\<lparr>pg_heap := h\<rparr>)" by (rule geo_cong(1)[OF pinvD(1)[OF i]]) (simp_all add: pcfg_def s(2,3))
  moreover have "slabs_linked (pg_slabs c) (?sh(q := None))"
    by (rule slabs_linked_cong[OF pinvD(2)[OF i, simplified]]) (use q fit(1) in auto)
  moreover have "pages_ok (pg_page_shift c) (length (pg_slabs c)) {} (?sh(q := None))" unfolding pages_ok_def
  proof (intro allI impI)
    fix q' s'
    assume "(?sh(q := None)) q' = Some s'"
    then have "q' \<noteq> q" "?sh q' = Some s'" by (auto split: if_splits)
    then show "page_fits (pg_page_shift c) (length (pg_slabs c)) (q' \<in> {}) s'" using slab_page_facts(1)[OF i, of q' s'] by simp
  qed
  moreover have "owners_ok (buddy_live s) (chunks_of h \<union> slab_ranges ?m (?sh(q := None)))"
  proof (rule owners_ok_del[where y = "Inr q"])
    show "owners_ok (buddy_live ?s) ?H" using pinvD(4)[OF i] by simp
    show "chunks_of h \<union> slab_ranges ?m (?sh(q := None)) = {t \<in> ?H. fst t \<noteq> Inr q}" unfolding slab_ranges_delete by (auto simp: chunks_of_def)
    have "keys {t \<in> ?H. fst t = Inr q} = {sp_page_addr sp}" using q(1) by (auto simp: keys_def chunks_of_def slab_ranges_def)
    then show "buddy_live s = {t \<in> buddy_live ?s. fst t \<notin> keys {t \<in> ?H. fst t = Inr q}}" using s(4) by simp
  qed
  moreover have "recs_ok h (?sh(q := None))" by (rule recs_ok_drop_page[where sp = sp]) (use pinvD(5)[OF i] q in simp_all)
  moreover have "ids_ok (pg_fresh c) h (?sh(q := None))" using pinvD(7)[OF i] by (auto simp: ids_ok_def)
  ultimately have "pinv {} (?c\<lparr>pg_heap := h\<rparr>)" using pinvD(6)[OF i] by (simp add: pinv_def)
  then show ?thesis using run s(3,5) by (intro exI[of _ s]) simp
qed


lemma drop_object:
  assumes i: "pinv {} a" and p: "pg_heap a p = Some al" "al_slab_page al = Some q" "al_base al = sp_page_addr sp + k * sp_slab_size sp"
    and q: "pg_slab_heap a q = Some sp" "same_place sp sp'" "objs sp' = objs sp - {k}" "page_fits (pg_page_shift a) (length (pg_slabs a)) (q \<in> X') sp'" "X' \<subseteq> {q}"
    and ss: "slabs_linked ss ((pg_slab_heap a)(q \<mapsto> sp'))" "map sl_slab_size ss = map sl_slab_size (pg_slabs a)"
    and a': "pg_source a' = pg_source a" "pg_heap a' = (pg_heap a)(p := None)" "pg_allocs a' = idx_unlink (al_base al) (pg_allocs a)" "pg_slabs a' = ss"
      "pg_slab_heap a' = (pg_slab_heap a)(q \<mapsto> sp')" "pg_page_size a' = pg_page_size a" "pg_page_shift a' = pg_page_shift a" "pg_flags a' = pg_flags a" "pg_fresh a' = pg_fresh a"
  shows "pinv X' a'"
proof (rule pinv_slab_page[OF i q(1,2,4) _ ss _ _ _ _ a'])
  show "X' - {q} = {} - {q}" using q(5) by blast
  show "chunks_of ((pg_heap a)(p := None)) = chunks_of (pg_heap a)" by (rule chunks_of_cong) (use p(1,2) in auto)
  have "0 < sp_slab_size sp" using slab_page_facts(1)[OF i q(1)] by (simp add: page_fits_def)
  then show "recs_ok ((pg_heap a)(p := None)) ((pg_slab_heap a)(q \<mapsto> sp'))"
    by (intro recs_ok_drop[OF pinvD(5)[OF i] pinvD(6)[OF i] q(1-3) _ p(1) p(3,2)])
  show "index_ok ((pg_heap a)(p := None)) (idx_unlink (al_base al) (pg_allocs a))" by (rule index_ok_delete[where h = "pg_heap a", OF pinvD(6)[OF i] p(1)])
  show "\<forall>p'\<in>dom ((pg_heap a)(p := None)). 0 < p' \<and> p' < pg_fresh a" using pinvD(7)[OF i] by (auto simp: ids_ok_def)
qed


text \<open>The state of the page decides whether it stays in its list, moves to another one, or leaves.\<close>

definition settle :: "slab_page_state \<Rightarrow> nat \<Rightarrow> nat \<Rightarrow> nvgpu_page_allocator \<Rightarrow> nvgpu_page_allocator option" where
  "settle old i q a =
     do {
       sp \<leftarrow> pg_slab_heap a q;
       let new_state = (if sp_nr_objects_alloced sp = 0 then SP_EMPTY else SP_PARTIAL);
       if new_state \<noteq> old
       then do {
         a \<leftarrow> (if old = SP_PARTIAL then del_slab_page_from_partial i q a else del_slab_page_from_full i q a);
         if new_state = SP_EMPTY
         then do {
           slab \<leftarrow> load (pg_slabs a) i;
           if sl_list slab SP_EMPTY = [] then add_slab_page_to_empty i q a else free_slab_page q a }
         else add_slab_page_to_partial i q a }
       else Some a }"

lemma settle_ok:
  assumes i: "pinv {} a" and p: "pg_heap a p = Some al" "al_slab_page al = Some q" "al_base al = sp_page_addr sp + k * sp_slab_size sp"
    and q: "pg_slab_heap a q = Some sp" "k \<in> objs sp" "length m = 1" "{j. bit (m ! 0) j} = objs sp - {k}"
    and room: "src_room (pg_source a)" "pg_pages_freed a < U64_MAX"
    and b: "b = a\<lparr>pg_allocs := idx_unlink (al_base al) (pg_allocs a), pg_nr_frees := pg_nr_frees a + 1,
      pg_slab_heap := (pg_slab_heap a)(q \<mapsto> sp\<lparr>sp_bitmap := m, sp_nr_objects_alloced := card (objs sp) - 1\<rparr>)\<rparr>"
  shows "\<exists>s n ss sh. settle (sp_state sp) (sp_owner sp) q b = Some (b\<lparr>pg_source := s, pg_pages_freed := n, pg_slabs := ss, pg_slab_heap := sh\<rparr>) \<and>
    n \<le> pg_pages_freed a + 1 \<and> pinv {} (b\<lparr>pg_source := s, pg_pages_freed := n, pg_slabs := ss, pg_slab_heap := sh, pg_heap := (pg_heap a)(p := None)\<rparr>) \<and>
    buddy_limits s = buddy_limits (pg_source a) \<and> by_bytes_freed s + live_sum s = by_bytes_freed (pg_source a) + live_sum (pg_source a)"
proof -
  let ?sh = "pg_slab_heap a" and ?c = "card (objs sp)" and ?n = "sp_nr_objects sp" and ?i = "sp_owner sp" and ?h = "(pg_heap a)(p := None)"
  define sp1 where "sp1 = sp\<lparr>sp_bitmap := m, sp_nr_objects_alloced := ?c - 1\<rparr>"
  note g = geoD[OF pinvD(1)[OF i]] and f = slab_page_facts[OF i q(1)] and two = nr_objects_2[OF i q(1)]
  have b1: "b = a\<lparr>pg_allocs := idx_unlink (al_base al) (pg_allocs a), pg_nr_frees := pg_nr_frees a + 1, pg_slab_heap := ?sh(q \<mapsto> sp1)\<rparr>" unfolding b sp1_def ..
  have fit: "sp_state sp = st_of ?c ?n" "\<forall>j\<in>objs sp. j < ?n" "?i < length (pg_slabs a)" using f(1) by (auto simp: page_fits_def)
  have o1: "objs sp1 = objs sp - {k}" "card (objs sp - {k}) = ?c - 1" using q(2,4) objs_bound(1)[of sp] by (simp_all add: sp1_def objs_def)
  have c1: "1 \<le> ?c" using q(2) objs_bound(1)[of sp] by (simp add: Suc_le_eq card_gt_0_iff) blast
  have "objs sp \<subseteq> {..<?n}" using fit(2) by auto
  then have cn: "?c \<le> ?n" using card_mono[of "{..<?n}" "objs sp"] by simp
  have sp1: "same_place sp (sp1\<lparr>sp_state := st\<rparr>)" "objs (sp1\<lparr>sp_state := st\<rparr>) = objs sp - {k}" "sp_owner sp1 = ?i" "sp_state sp1 = sp_state sp" "sp_nr_objects_alloced sp1 = ?c - 1"
    "sp1\<lparr>sp_state := sp_state sp\<rparr> = sp1" for st
    using o1(1) by (simp_all add: sp1_def same_place_def objs_upd)
  have fits1: "page_fits (pg_page_shift a) (length (pg_slabs a)) t (sp1\<lparr>sp_state := st\<rparr>)" if "st = (if t then SP_NONE else st_of (?c - 1) ?n)" for st t
    unfolding sp1_def by (rule page_fits_objs[OF f(1) q(3,4)]) (use fit(2) o1(2) that in simp_all)
  have linked1: "slabs_linked (pg_slabs b) (pg_slab_heap b)" unfolding b1
    by (simp, rule slabs_linked_cong[OF pinvD(2)[OF i]]) (use q(1) in \<open>auto simp: sp1_def\<close>)
  have bq: "pg_slab_heap b q = Some sp1" "pg_slabs b = pg_slabs a" "pg_source b = pg_source a" "pg_pages_freed b = pg_pages_freed a" by (simp_all add: b1)
  show ?thesis
  proof (cases "(if ?c - 1 = 0 then SP_EMPTY else SP_PARTIAL) = sp_state sp")
    case True
    have "settle (sp_state sp) ?i q b = Some (b\<lparr>pg_source := pg_source a, pg_pages_freed := pg_pages_freed a, pg_slabs := pg_slabs a, pg_slab_heap := pg_slab_heap b\<rparr>)"
      using True bq sp1(5) by (simp add: settle_def b1)
    moreover have "pinv {} (b\<lparr>pg_source := pg_source a, pg_pages_freed := pg_pages_freed a, pg_slabs := pg_slabs a, pg_slab_heap := pg_slab_heap b, pg_heap := ?h\<rparr>)"
    proof (rule drop_object[OF i p q(1) sp1(1,2), where X' = "{}" and ss = "pg_slabs a"])
      have st: "sp_state sp = st_of (?c - 1) ?n" using True fit(1) c1 cn by (auto simp: st_of_def split: if_splits)
      show "page_fits (pg_page_shift a) (length (pg_slabs a)) (q \<in> {}) (sp1\<lparr>sp_state := sp_state sp\<rparr>)" by (rule fits1) (simp add: st)
      show "slabs_linked (pg_slabs a) (?sh(q \<mapsto> sp1\<lparr>sp_state := sp_state sp\<rparr>))" unfolding sp1(6) using linked1 by (simp add: b1)
    qed (simp_all add: b1 sp1(6))
    ultimately show ?thesis by (intro exI[of _ "pg_source a"] exI[of _ "pg_pages_freed a"] exI[of _ "pg_slabs a"] exI[of _ "pg_slab_heap b"]) simp
  next
    case False
    define new where "new = st_of (?c - 1) ?n"
    have old: "sp_state sp = SP_PARTIAL \<and> new = SP_EMPTY \<or> sp_state sp = SP_FULL \<and> new = SP_PARTIAL" and new: "(if ?c - 1 = 0 then SP_EMPTY else SP_PARTIAL) = new"
      using False fit(1) c1 cn two(1) by (auto simp: st_of_def new_def split: if_splits)
    then have ne: "sp_state sp \<noteq> SP_NONE" "new \<noteq> SP_NONE" by auto
    let ?q0 = "sp1\<lparr>sp_state := SP_NONE\<rparr>"
    have n: "?i < length (pg_slabs b)" using fit(3) bq(2) by simp
    obtain ss where ss: "del_slab_page (sp_state sp) ?i q b = Some (b\<lparr>pg_slabs := ss, pg_slab_heap := (pg_slab_heap b)(q \<mapsto> ?q0)\<rparr>)"
      "slabs_linked ss ((pg_slab_heap b)(q \<mapsto> ?q0))" "map sl_slab_size ss = map sl_slab_size (pg_slabs b)"
      using del_slab_page_ok[OF linked1 bq(1) sp1(4,3) n ne(1)] by blast
    have len: "length ss = length (pg_slabs a)" using ss(3) bq(2) by (metis length_map)
    have sh2: "(pg_slab_heap b)(q \<mapsto> x) = ?sh(q \<mapsto> x)" for x by (simp add: b1)
    let ?d = "b\<lparr>pg_slabs := ss, pg_slab_heap := ?sh(q \<mapsto> ?q0)\<rparr>"
    have inv: "pinv {q} (?d\<lparr>pg_heap := ?h\<rparr>)"
      by (rule drop_object[OF i p q(1) sp1(1,2), where X' = "{q}" and ss = ss]) (use ss(2,3) fits1[of SP_NONE True] in \<open>simp_all add: sh2 b1\<close>)
    have dq: "pg_slab_heap ?d q = Some ?q0" by simp
    have run: "settle (sp_state sp) ?i q b =
      (if new = SP_EMPTY then (if sl_list (ss ! ?i) SP_EMPTY = [] then add_slab_page_to_empty ?i q ?d else free_slab_page q ?d) else add_slab_page_to_partial ?i q ?d)"
      using old new False bq(1) sp1(5) ss(1) fit(3) len
      by (auto simp: settle_def sh2 load_def del_slab_page_from_partial_def del_slab_page_from_full_def Let_def)
    have add: ?thesis if r: "settle (sp_state sp) ?i q b = add_slab_page new ?i q ?d"
    proof -
      have l2: "slabs_linked (pg_slabs ?d) (pg_slab_heap ?d)" using ss(2) by (simp add: sh2)
      have d2: "dom (pg_slab_heap ?d) = dom ?sh" using q(1) by auto
      have p2: "sp_state ?q0 = SP_NONE" "sp_owner ?q0 = ?i" "?i < length (pg_slabs ?d)" using sp1(3) fit(3) len by simp_all
      obtain ss2 where a2: "add_slab_page new ?i q ?d = Some (?d\<lparr>pg_slabs := ss2, pg_slab_heap := (pg_slab_heap ?d)(q \<mapsto> ?q0\<lparr>sp_state := new\<rparr>)\<rparr>)"
        "slabs_linked ss2 ((pg_slab_heap ?d)(q \<mapsto> ?q0\<lparr>sp_state := new\<rparr>))" "map sl_slab_size ss2 = map sl_slab_size (pg_slabs ?d)"
        using add_slab_page_ok[OF l2 dq p2 ne(2)] slab_pages_few[OF i] unfolding d2 by blast
      let ?sh3 = "?sh(q \<mapsto> sp1\<lparr>sp_state := new\<rparr>)"
      have "pinv {} (b\<lparr>pg_source := pg_source a, pg_pages_freed := pg_pages_freed a, pg_slabs := ss2, pg_slab_heap := ?sh3, pg_heap := ?h\<rparr>)"
        by (rule drop_object[OF i p q(1) sp1(1,2), where X' = "{}" and ss = ss2])
          (use a2(2,3) ss(3) bq(2) fits1[of new False] in \<open>simp_all add: b1 new_def\<close>)
      moreover have "settle (sp_state sp) ?i q b = Some (b\<lparr>pg_source := pg_source a, pg_pages_freed := pg_pages_freed a, pg_slabs := ss2, pg_slab_heap := ?sh3\<rparr>)"
        unfolding r a2(1) by (simp add: b1)
      ultimately show ?thesis by (intro exI[of _ "pg_source a"] exI[of _ "pg_pages_freed a"]) (auto intro: exI)
    qed
    show ?thesis
    proof (cases "new = SP_EMPTY \<and> sl_list (ss ! ?i) SP_EMPTY \<noteq> []")
      case False
      then show ?thesis using old run by (intro add) (auto simp: add_slab_page_to_empty_def add_slab_page_to_partial_def)
    next
      case True
      then have e: "objs ?q0 = {}" using new_def c1 sp1(2)[of SP_NONE] o1(2) objs_bound(1)[of sp] by (simp add: st_of_def split: if_splits)
      have r2: "src_room (pg_source ?d)" "pg_pages_freed ?d < U64_MAX" using room by (simp_all add: b1)
      obtain s where s: "free_slab_page q ?d = Some (?d\<lparr>pg_source := s, pg_pages_freed := pg_pages_freed ?d + 1, pg_slab_heap := (pg_slab_heap ?d)(q := None)\<rparr>)"
        "pinv {} (?d\<lparr>pg_source := s, pg_pages_freed := pg_pages_freed ?d + 1, pg_slab_heap := (pg_slab_heap ?d)(q := None), pg_heap := ?h\<rparr>)"
        "buddy_limits s = buddy_limits (pg_source ?d)" "by_bytes_freed s + live_sum s = by_bytes_freed (pg_source ?d) + live_sum (pg_source ?d)"
        using free_slab_page_ok[OF inv dq e r2] by blast
      let ?sh3 = "?sh(q := None)"
      have "settle (sp_state sp) ?i q b = Some (b\<lparr>pg_source := s, pg_pages_freed := pg_pages_freed a + 1, pg_slabs := ss, pg_slab_heap := ?sh3\<rparr>)"
        using run True s(1) by (simp add: b1)
      moreover have "pinv {} (b\<lparr>pg_source := s, pg_pages_freed := pg_pages_freed a + 1, pg_slabs := ss, pg_slab_heap := ?sh3, pg_heap := ?h\<rparr>)"
        by (rule pinv_cong[OF s(2)]) (use geoD(1)[OF pinvD(1)[OF s(2)]] in \<open>simp_all add: b1\<close>)
      ultimately show ?thesis using s(3,4) by (intro exI[of _ s] exI[of _ "pg_pages_freed a + 1"] exI[of _ ss] exI[of _ ?sh3]) (simp add: b1)
    qed
  qed
qed


lemma free_slab_ok:
  assumes i: "pinv {} a" and p: "pg_heap a p = Some al" "al_slab_page al = Some q"
    and room: "src_room (pg_source a)" "pg_pages_freed a < U64_MAX" "pg_nr_slab_frees a < U64_MAX"
    and b: "b = a\<lparr>pg_allocs := idx_unlink (al_base al) (pg_allocs a), pg_nr_frees := pg_nr_frees a + 1\<rparr>"
  shows "\<exists>a'. nvgpu_free_slab p b = Some a' \<and> pinv {} a' \<and> pcfg a' = pcfg a \<and> pg_heap a' = (pg_heap a)(p := None) \<and> pg_sgls a' = pg_sgls a - 1 \<and>
    pg_nr_allocs a' = pg_nr_allocs a \<and> pg_nr_frees a' = pg_nr_frees a + 1 \<and> pg_nr_slab_allocs a' = pg_nr_slab_allocs a \<and> pg_nr_slab_frees a' = pg_nr_slab_frees a + 1 \<and>
    pg_pages_alloced a' = pg_pages_alloced a \<and> pg_pages_freed a' \<le> pg_pages_freed a + 1 \<and>
    by_bytes_freed (pg_source a') + live_sum (pg_source a') = by_bytes_freed (pg_source a) + live_sum (pg_source a)"
proof -
  have r: "rec_ok (pg_slab_heap a) al" by (rule recs_okD(1)[OF pinvD(5)[OF i] p(1)])
  then obtain sp k where sp: "pg_slab_heap a q = Some sp" "k \<in> objs sp" "al_base al = sp_page_addr sp + k * sp_slab_size sp" and one: "length (al_sgl al) = 1"
    using p(2) unfolding rec_ok_def by blast
  note f = slab_page_facts[OF i sp(1)] and two = nr_objects_2[OF i sp(1)] and g = geoD[OF pinvD(1)[OF i]]
  have fit: "0 < sp_slab_size sp" "length (sp_bitmap sp) = 1" "k < sp_nr_objects sp" "sp_nr_objects_alloced sp = card (objs sp)" using f(1) sp(2) by (auto simp: page_fits_def)
  have "pg_page_size a \<le> 2 ^ 18" unfolding g(2) using f(4) by (intro power_increasing) auto
  then have d32: "k * sp_slab_size sp \<le> U32_MAX" using f(5)[OF sp(2)] by simp
  obtain m where m: "nvgpu_bitmap_clear (sp_bitmap sp) k 1 = Some m" "length m = 1" "{j. bit (m ! 0) j} = objs sp - {k}"
    using clear_object[OF fit(2), of k] fit(3) two(2) unfolding objs_def by fastforce
  have "card (objs sp) \<le> card {..<64::nat}" using objs_bound(2)[of _ sp] by (intro card_mono) auto
  then have c: "0 < card (objs sp)" "card (objs sp) < U32_MAX" using sp(2) objs_bound(1)[of sp] by (auto simp: card_gt_0_iff)
  then have w: "wsub32 (card (objs sp)) 1 = card (objs sp) - 1" by (subst wsub32_ge) simp_all
  let ?sp = "sp\<lparr>sp_bitmap := m, sp_nr_objects_alloced := card (objs sp) - 1\<rparr>"
  define b1 where "b1 = b\<lparr>pg_slab_heap := (pg_slab_heap a)(q \<mapsto> ?sp)\<rparr>"
  have b1: "b1 = a\<lparr>pg_allocs := idx_unlink (al_base al) (pg_allocs a), pg_nr_frees := pg_nr_frees a + 1, pg_slab_heap := (pg_slab_heap a)(q \<mapsto> ?sp)\<rparr>"
    by (simp add: b1_def b)
  obtain s n ss sh where st: "settle (sp_state sp) (sp_owner sp) q b1 = Some (b1\<lparr>pg_source := s, pg_pages_freed := n, pg_slabs := ss, pg_slab_heap := sh\<rparr>)"
    "n \<le> pg_pages_freed a + 1" "pinv {} (b1\<lparr>pg_source := s, pg_pages_freed := n, pg_slabs := ss, pg_slab_heap := sh, pg_heap := (pg_heap a)(p := None)\<rparr>)"
    "buddy_limits s = buddy_limits (pg_source a)" "by_bytes_freed s + live_sum s = by_bytes_freed (pg_source a) + live_sum (pg_source a)"
    using settle_ok[OF i p sp(3,1,2) m(2,3) room(1,2) b1] by blast
  let ?a = "b1\<lparr>pg_source := s, pg_pages_freed := n, pg_slabs := ss, pg_slab_heap := sh, pg_heap := (pg_heap a)(p := None), pg_sgls := pg_sgls a - 1,
    pg_nr_slab_frees := pg_nr_slab_frees a + 1\<rparr>"
  have "nvgpu_free_slab p b = do {
       a \<leftarrow> settle (sp_state sp) (sp_owner sp) q b1;
       a \<leftarrow> nvgpu_page_alloc_free_pages p False a;
       nvgpu_assert (pg_nr_slab_frees a < U64_MAX);
       Some (a\<lparr>pg_nr_slab_frees := pg_nr_slab_frees a + 1\<rparr>) }"
    using p sp(1,3) d32 fit m(1) c(2) w
    by (simp add: nvgpu_free_slab_def settle_def Let_def b1 b nvgpu_safe_sub_u64_def nvgpu_safe_cast_u64_to_u32_def)
  then have run: "nvgpu_free_slab p b = Some ?a"
    using st(1) p(1) one room(3) by (simp add: nvgpu_page_alloc_free_pages_def nvgpu_page_alloc_sgl_proper_free_def free_record_def b1)
  have "pinv {} ?a" by (rule pinv_cong[OF st(3)]) (use geoD(1)[OF pinvD(1)[OF st(3)]] in simp_all)
  then show ?thesis using run st(2,4,5) by (intro exI[of _ ?a]) (simp add: b1 pcfg_def)
qed


section \<open>Releases\<close>

text \<open>The address looked up for a release: with scatter-gather lists the caller names the record.\<close>

definition free_key :: "nvgpu_page_allocator \<Rightarrow> u64 \<Rightarrow> u64 option" where
  "free_key a base = (if bit (pg_flags a) GPU_ALLOC_NO_SCATTER_GATHER then Some base else map_option al_base (pg_heap a base))"

lemma pfree_ok:
  assumes i: "pinv {} a" and w: "spent w a" "w + cost a \<le> U64_MAX" and k: "free_key a base = Some addr"
  shows "\<exists>a'. nvgpu_page_free a base = Some a' \<and> pinv {} a' \<and> pcfg a' = pcfg a \<and> spent (w + cost a) a' \<and>
    (if \<exists>p al. pg_heap a p = Some al \<and> al_base al = addr
     then \<exists>p al. pg_heap a p = Some al \<and> al_base al = addr \<and> pg_heap a' = (pg_heap a)(p := None) \<and>
       pg_sgls a' = (if al_slab_page al = None then pg_sgls a else pg_sgls a - 1)
     else a' = a)"
proof (cases "idx_search addr (pg_allocs a)")
  case None
  have ix: "idx_sorted (pg_allocs a)" "set (pg_allocs a) = {(al_base al, p) | p al. pg_heap a p = Some al}" using pinvD(6)[OF i] by (auto simp: index_ok_def)
  have "(addr, p) \<notin> set (pg_allocs a)" for p using idx_search_iff[OF ix(1), of addr p] None by simp
  then have "\<not> (\<exists>p al. pg_heap a p = Some al \<and> al_base al = addr)" unfolding ix(2) by blast
  moreover have "nvgpu_page_free a base = Some a" unfolding nvgpu_page_free_def free_key_def[symmetric] k by (simp add: find_page_alloc_def None)
  moreover have "spent (w + cost a) a" using w(1) by (simp add: spent_def)
  ultimately show ?thesis using i by auto
next
  case (Some p)
  have ix: "idx_sorted (pg_allocs a)" "set (pg_allocs a) = {(al_base al, p) | p al. pg_heap a p = Some al}" using pinvD(6)[OF i] by (auto simp: index_ok_def)
  have "(addr, p) \<in> set (pg_allocs a)" using idx_search_iff[OF ix(1), of addr p] Some by simp
  then obtain al where al: "pg_heap a p = Some al" "al_base al = addr" unfolding ix(2) by blast
  note t = record_total[OF i al(1)] and room = src_room_spent[OF i w] and g = geoD[OF pinvD(1)[OF i]]
  define b where "b = a\<lparr>pg_allocs := idx_unlink (al_base al) (pg_allocs a), pg_nr_frees := pg_nr_frees a + 1\<rparr>"
  have lt: "pg_nr_frees a < U64_MAX" "pg_pages_freed a < U64_MAX" "pg_nr_slab_frees a < U64_MAX" using w by (auto simp: spent_def cost_def)
  have run: "nvgpu_page_free a base = (if al_slab_page al \<noteq> None then nvgpu_free_slab p b
    else do { n \<leftarrow> nvgpu_safe_add_u64 (pg_pages_freed b) (al_length al div 2 ^ pg_page_shift b); nvgpu_page_alloc_free_pages p True (b\<lparr>pg_pages_freed := n\<rparr>) })"
    unfolding nvgpu_page_free_def free_key_def[symmetric] k using Some al lt(1) by (simp add: find_page_alloc_def b_def Let_def)
  have ex: "\<exists>p al. pg_heap a p = Some al \<and> al_base al = addr" using al by blast
  have freed: "by_bytes_freed s' \<le> w + cost a" if "by_bytes_freed s' + live_sum s' = by_bytes_freed (pg_source a) + live_sum (pg_source a)" for s'
    using freed_le[OF g(1) that, of w] w(1) by (simp add: spent_def cost_def)
  show ?thesis
  proof (cases "al_slab_page al")
    case none: None
    let ?n = "pg_pages_freed a + al_length al div 2 ^ pg_page_shift a"
    have le: "al_length al div 2 ^ pg_page_shift a \<le> al_length al" by simp
    then have n: "?n \<le> w + cost a" using t(3) w(1) unfolding spent_def by linarith
    let ?b = "b\<lparr>pg_pages_freed := ?n\<rparr>"
    have "nvgpu_safe_add_u64 (pg_pages_freed a) (al_length al div 2 ^ pg_page_shift a) = Some ?n" using n w(2) by (auto simp: nvgpu_safe_add_u64_def)
    then have "nvgpu_page_free a base = nvgpu_page_alloc_free_pages p True ?b" using run none by (simp add: b_def)
    moreover obtain s where s: "nvgpu_page_alloc_free_pages p True ?b = Some (?b\<lparr>pg_source := s, pg_heap := (pg_heap a)(p := None)\<rparr>)"
      "pinv {} (?b\<lparr>pg_source := s, pg_heap := (pg_heap a)(p := None)\<rparr>)" "buddy_limits s = buddy_limits (pg_source a)"
      "by_bytes_freed s + live_sum s = by_bytes_freed (pg_source a) + live_sum (pg_source a)"
      using free_pages_ok[OF i al(1) none room, of ?b] by (auto simp: b_def)
    moreover have "spent (w + cost a) (?b\<lparr>pg_source := s, pg_heap := (pg_heap a)(p := None)\<rparr>)" using n w(1) freed[OF s(4)] by (simp add: spent_def b_def cost_def)
    moreover have "pcfg (?b\<lparr>pg_source := s, pg_heap := (pg_heap a)(p := None)\<rparr>) = pcfg a" using s(3) by (simp add: pcfg_def b_def)
    moreover have "\<exists>p' al'. pg_heap a p' = Some al' \<and> al_base al' = addr \<and> (pg_heap a)(p := None) = (pg_heap a)(p' := None) \<and>
      pg_sgls a = (if al_slab_page al' = None then pg_sgls a else pg_sgls a - 1)" using al none by (intro exI[of _ p] exI[of _ al]) simp
    ultimately show ?thesis using ex by (intro exI[of _ "?b\<lparr>pg_source := s, pg_heap := (pg_heap a)(p := None)\<rparr>"]) (simp add: b_def)
  next
    case sl: (Some q)
    obtain a' where a': "nvgpu_free_slab p b = Some a'" "pinv {} a'" "pcfg a' = pcfg a" "pg_heap a' = (pg_heap a)(p := None)" "pg_sgls a' = pg_sgls a - 1"
      "pg_nr_allocs a' = pg_nr_allocs a" "pg_nr_frees a' = pg_nr_frees a + 1" "pg_nr_slab_allocs a' = pg_nr_slab_allocs a" "pg_nr_slab_frees a' = pg_nr_slab_frees a + 1"
      "pg_pages_alloced a' = pg_pages_alloced a" "pg_pages_freed a' \<le> pg_pages_freed a + 1"
      "by_bytes_freed (pg_source a') + live_sum (pg_source a') = by_bytes_freed (pg_source a) + live_sum (pg_source a)"
      using free_slab_ok[OF i al(1) sl room lt(2,3) b_def] by blast
    have "spent (w + cost a) a'" using a'(6-11) w(1) freed[OF a'(12)] by (simp add: spent_def cost_def)
    moreover have "\<exists>p' al'. pg_heap a p' = Some al' \<and> al_base al' = addr \<and> pg_heap a' = (pg_heap a)(p' := None) \<and>
      pg_sgls a' = (if al_slab_page al' = None then pg_sgls a else pg_sgls a - 1)" using al sl a'(4,5) by (intro exI[of _ p] exI[of _ al]) simp
    moreover have "nvgpu_page_free a base = Some a'" using run sl a'(1) by simp
    ultimately show ?thesis using ex a'(2,3) by (intro exI[of _ a']) simp
  qed
qed

end
