(* ===== verification/Page_Setup.thy ===== *)
theory Page_Setup
  imports Page_Release Buddy_Contract
begin

text \<open>
  The set-up of the page allocator, the states its clients can bring it into, and the contract it keeps when it hands out
  contiguous ranges by address.
\<close>

section \<open>Set-up\<close>

text \<open>The arguments the invariant is claimed for: pages of \<open>2 ^ k\<close> bytes; with slabs, pages of 8 to 256 KiB, whose objects one bitmap word can
  hold; and a range whose end stays below half of the address space and that has fewer than \<open>2 ^ 32\<close> pages.\<close>

definition page_args :: "nat \<Rightarrow> u64 \<Rightarrow> u64 \<Rightarrow> u64 \<Rightarrow> bool" where
  "page_args k base len flags \<longleftrightarrow> 12 \<le> k \<and> k < 63 \<and> (bit flags GPU_ALLOC_4K_VIDMEM_PAGES \<longrightarrow> 12 < k \<and> k \<le> 18) \<and>
     (if base = 0 then 2 * 2 ^ k \<le> len else 2 ^ k \<le> len) \<and> 2 * (base + len) \<le> U64_MAX \<and> len < 2 ^ 32 * 2 ^ k"

lemma empty_pinv:
  assumes "geo a" "pg_heap a = Map.empty" "pg_slab_heap a = Map.empty" "pg_allocs a = []" "0 < pg_fresh a" "buddy_live (pg_source a) = {}"
    "\<forall>s\<in>set (pg_slabs a). sl_list s = (\<lambda>_. []) \<and> sl_nr s = (\<lambda>_. 0)"
  shows "pinv {} a"
proof -
  have "chunks_of Map.empty = {}" "slab_ranges m Map.empty = {}" for m by (simp_all add: chunks_of_def slab_ranges_def)
  moreover have "slabs_linked (pg_slabs a) Map.empty" unfolding slabs_linked_def using assms(7) by (auto dest: nth_mem)
  moreover have "idx_sorted ([] :: nat index)" by (simp add: idx_sorted_def)
  ultimately show ?thesis using assms(1,5) unfolding pinv_def assms(2-4,6)
    by (simp add: pages_ok_def owners_ok_def recs_ok_def index_ok_def ids_ok_def)
qed

lemma init_slabs_ok:
  assumes "pg_page_size a = 2 ^ k" "12 < k" "k \<le> 18"
  shows "nvgpu_page_alloc_init_slabs ok a = Some (if ok then (Inr (), a\<lparr>pg_nr_slabs := k - 12, pg_slabs := map new_slab [0..<k - 12]\<rparr>) else (Inl ENOMEM, a))"
proof -
  have "(2::nat) ^ k div 2 ^ 12 = 2 ^ (k - 12)" by (rule power_diff[symmetric]) (use assms(2) in simp_all)
  then have d: "(2::nat) ^ k div 4096 = 2 ^ (k - 12)" by simp
  have "(2::nat) ^ (k - 12) \<le> 2 ^ 6" using assms(3) by (intro power_increasing) auto
  then have "nvgpu_fls (2 ^ (k - 12)) = Suc (k - 12)" by (intro fls_eqI) simp_all
  then show ?thesis using assms by (simp add: nvgpu_page_alloc_init_slabs_def d Let_def nvgpu_ilog2_def nvgpu_safe_cast_u64_to_u32_def)
qed

lemma page_init_total:
  assumes args: "page_args k base len flags" and name: "length name < 27"
  shows "\<exists>res. nvgpu_page_allocator_init e name base len (2 ^ k) flags = Some res \<and>
    (case res of
       Inr a \<Rightarrow> pinv {} a \<and> pg_heap a = Map.empty \<and> spent 0 a \<and> pg_flags a = flags \<and> pg_page_size a = 2 ^ k \<and> base \<le> by_start (pg_source a) \<and>
         by_end (pg_source a) \<le> base + len \<and> by_start (pg_source a) + 2 ^ k \<le> by_end (pg_source a)
     | Inl err \<Rightarrow> err = ENOMEM \<and> (\<not> pi_kzalloc_ok e \<or> \<not> pi_alloc_cache_ok e \<or> \<not> pi_slab_cache_ok e \<or> \<not> pi_kcalloc_ok e \<or> \<not> pi_src_kzalloc_ok e \<or>
         \<not> pi_src_cache_ok e \<or> (\<exists>n. pi_oom e n)) \<or> err = EINVAL \<and> len < 3 * 2 ^ k)"
proof -
  let ?m = "(2::nat) ^ k" and ?l = "if base = 0 then len - 2 ^ k else len" and ?b = "if base = 0 then 2 ^ k else base"
  let ?src = "nvgpu_buddy_allocator_init (pi_src_kzalloc_ok e) (pi_src_cache_ok e) (pi_oom e) None base len ?m 0 0"
  have k: "12 \<le> k" "k < 63" "bit flags GPU_ALLOC_4K_VIDMEM_PAGES \<Longrightarrow> 12 < k \<and> k \<le> 18" using args by (auto simp: page_args_def)
  have m: "4096 \<le> ?m" "?m \<le> 2 ^ 62" using k power_increasing[of 12 k "2::nat"] power_increasing[of k 62 "2::nat"] by simp_all
  have r: "base = 0 \<longrightarrow> ?m \<le> len" "?m \<le> ?l" "?b + ?l = base + len" "2 * (base + len) \<le> U64_MAX" "len < 2 ^ 32 * ?m"
    using args by (auto simp: page_args_def split: if_splits)
  have lim: "nvgpu_buddy_check_argument_limits None len ?m 0 0 = Inr ()"
    using m(1) r(1,2) pow2_test[of ?m] by (auto simp: nvgpu_buddy_check_argument_limits_def split: if_splits)
  have "?m \<le> U64_MAX" "?b + ?m \<le> U64_MAX" "?b + ?l \<le> U64_MAX" using m(2) r by (auto split: if_splits)
  from buddy_init_total[OF lim this(1) _ refl refl r(1,2) this(2,3), of "pi_src_kzalloc_ok e" "pi_src_cache_ok e" "pi_oom e"]
  obtain res h where s: "?src = Some (res, h)"
    "case res of
       Inr a \<Rightarrow> buddy_plain a \<and> buddy_live a = {} \<and> by_bytes_alloced a = 0 \<and> by_bytes_alloced_real a = 0 \<and> by_bytes_freed a = 0 \<and> by_blk_size a = ?m \<and> ?b \<le> by_start a \<and>
         by_start a < ?b + ?m \<and> by_end a \<le> ?b + ?l \<and> ?b + ?l < by_end a + ?m \<and> 2 ^ by_max_order a * ?m \<le> by_end a - by_start a \<and> gva a = bit (0::nat) GPU_ALLOC_GVA_SPACE
     | Inl er \<Rightarrow> er = ENOMEM \<and> (\<not> pi_src_kzalloc_ok e \<or> \<not> pi_src_cache_ok e \<or> (\<exists>n. pi_oom e n)) \<or> er = EINVAL \<and> (bit (0::nat) GPU_ALLOC_GVA_SPACE \<or> ?l < 2 * ?m)" by auto
  define a0 where "a0 = zero_page_allocator\<lparr>pg_base := base, pg_length := len, pg_page_size := ?m, pg_page_shift := k, pg_flags := flags\<rparr>"
  define sl where "sl = (if bit flags GPU_ALLOC_4K_VIDMEM_PAGES \<and> ?m > 4096 then nvgpu_page_alloc_init_slabs (pi_kcalloc_ok e) a0 else Some (Inr (), a0))"
  have sh: "nvgpu_safe_cast_u64_to_u32 (wsub64 (nvgpu_ffs ?m) 1) = Some k" using nvgpu_ffs_power2[of k] k(2) by (simp add: nvgpu_safe_cast_u64_to_u32_def)
  have run: "nvgpu_page_allocator_init e name base len ?m flags =
    (if \<not> pi_kzalloc_ok e then Some (Inl ENOMEM) else if \<not> pi_alloc_cache_ok e \<or> \<not> pi_slab_cache_ok e then Some (Inl ENOMEM)
     else do { (r, a) \<leftarrow> sl; (case r of Inl err \<Rightarrow> Some (Inl err) | Inr _ \<Rightarrow> Some (case res of Inl err \<Rightarrow> Inl err | Inr s \<Rightarrow> Inr (a\<lparr>pg_source := s\<rparr>))) })"
    unfolding nvgpu_page_allocator_init_def Let_def sh bind.bind_lunit a0_def[symmetric] sl_def[symmetric] s(1) prod.case using m(1) name by simp
  have big: "bit flags GPU_ALLOC_4K_VIDMEM_PAGES \<Longrightarrow> 4096 < ?m" using k(3) power_strict_increasing[of 12 k "2::nat"] by simp
  have a0: "pg_page_size a0 = 2 ^ k" "a0\<lparr>pg_nr_slabs := 0, pg_slabs := []\<rparr> = a0" by (simp_all add: a0_def zero_page_allocator_def)
  define n where "n = (if bit flags GPU_ALLOC_4K_VIDMEM_PAGES then k - 12 else 0)"
  have sl: "sl = Some (if bit flags GPU_ALLOC_4K_VIDMEM_PAGES \<and> \<not> pi_kcalloc_ok e then (Inl ENOMEM, a0) else (Inr (), a0\<lparr>pg_nr_slabs := n, pg_slabs := map new_slab [0..<n]\<rparr>))"
    using init_slabs_ok[OF a0(1), of "pi_kcalloc_ok e"] k(3) big a0(2) by (simp add: sl_def n_def)
  show ?thesis
  proof (cases "\<exists>a. res = Inr a \<and> pi_kzalloc_ok e \<and> pi_alloc_cache_ok e \<and> pi_slab_cache_ok e \<and> (bit flags GPU_ALLOC_4K_VIDMEM_PAGES \<longrightarrow> pi_kcalloc_ok e)")
    case False
    then show ?thesis using run sl s(2) by (cases res) (auto split: if_splits)
  next
    case True
    then obtain s' where ok: "res = Inr s'" "pi_kzalloc_ok e" "pi_alloc_cache_ok e" "pi_slab_cache_ok e" "bit flags GPU_ALLOC_4K_VIDMEM_PAGES \<longrightarrow> pi_kcalloc_ok e" by blast
    have s': "buddy_plain s'" "buddy_live s' = {}" "by_bytes_freed s' = 0" "?b \<le> by_start s'" "by_end s' \<le> base + len" "2 ^ by_max_order s' * ?m \<le> by_end s' - by_start s'"
      using s(2) r(3) unfolding ok(1) by simp_all
    let ?a = "a0\<lparr>pg_nr_slabs := n, pg_slabs := map new_slab [0..<n], pg_source := s'\<rparr>"
    have res: "nvgpu_page_allocator_init e name base len ?m flags = Some (Inr ?a)" using run sl ok by auto
    have "1 * ?m \<le> 2 ^ by_max_order s' * ?m" by (intro mult_le_mono1) simp
    then have span: "by_start s' + ?m \<le> by_end s'" using s'(6) m(1) by linarith
    have "base \<le> ?b" "base \<noteq> 0 \<longrightarrow> ?b = base" by simp_all
    then have b: "base \<le> by_start s'" using s'(4) by linarith
    have "by_end s' - by_start s' \<le> len" "by_end s' - by_start s' \<le> base + len" using s'(5) b by simp_all
    then have "by_end s' + (by_end s' - by_start s') \<le> 2 * (base + len)" "by_end s' - by_start s' < 2 ^ 32 * ?m" using s'(5) le_less_trans[OF _ r(5)] by simp_all
    then have "by_end s' + (by_end s' - by_start s') \<le> U64_MAX" "by_end s' - by_start s' < 2 ^ 32 * ?m" using le_trans[OF _ r(4)] by blast+
    then have "geo ?a" using k s'(1) n_def by (auto simp: geo_def a0_def comp_def new_slab_def add.commute)
    moreover have "pinv {} ?a" by (rule empty_pinv) (use calculation s'(2) in \<open>auto simp: a0_def zero_page_allocator_def new_slab_def\<close>)
    moreover have "spent 0 ?a" using s'(3) by (simp add: spent_def a0_def zero_page_allocator_def)
    ultimately show ?thesis using res s'(5) b span by (intro exI[of _ "Inr ?a"]) (simp add: a0_def zero_page_allocator_def)
  qed
qed

section \<open>What clients can reach\<close>

text \<open>An allocator that was set up, and \<open>n\<close> requests and releases under any outcomes of the memory requests they make, as many as the
  statistics are sure to have room for. A release names what an earlier request returned: with scatter-gather lists an outstanding
  record, otherwise an address.\<close>

inductive page_reach :: "nat \<Rightarrow> nvgpu_page_allocator \<Rightarrow> bool" where
  init: "page_args k base len flags \<Longrightarrow> nvgpu_page_allocator_init e name base len (2 ^ k) flags = Some (Inr a) \<Longrightarrow> page_reach 0 a"
| alloc: "page_reach n a \<Longrightarrow> Suc n * cost a \<le> U64_MAX \<Longrightarrow> 0 < len \<Longrightarrow> len \<le> 2 ^ 63 \<Longrightarrow> nvgpu_page_palloc e a len = Some (r, a') \<Longrightarrow>
    page_reach (Suc n) a'"
| free: "page_reach n a \<Longrightarrow> Suc n * cost a \<le> U64_MAX \<Longrightarrow> free_key a base \<noteq> None \<Longrightarrow> nvgpu_page_free a base = Some a' \<Longrightarrow> page_reach (Suc n) a'"

lemma page_reach_inv: "page_reach n a \<Longrightarrow> pinv {} a \<and> spent (n * cost a) a"
proof (induction rule: page_reach.induct)
  case (init k base len flags e name a)
  then have "length name < 27" by (auto simp: nvgpu_page_allocator_init_def split: if_splits)
  from page_init_total[OF init(1) this, of e] show ?case using init(2) by simp
next
  case (alloc n a len e r a')
  then have "pinv {} a" "spent (n * cost a) a" "n * cost a + cost a \<le> U64_MAX" by auto
  from palloc_ok[OF this alloc.hyps(3,4), of e] have "pinv {} a'" "pcfg a' = pcfg a" "spent (n * cost a + cost a) a'" using alloc.hyps(5) by auto
  then show ?case using pcfgD(5)[of a' a] by (simp add: add.commute)
next
  case (free n a base a')
  then obtain addr where k: "free_key a base = Some addr" by auto
  have "pinv {} a" "spent (n * cost a) a" "n * cost a + cost a \<le> U64_MAX" using free by auto
  from pfree_ok[OF this k] have "pinv {} a'" "pcfg a' = pcfg a" "spent (n * cost a + cost a) a'" using free.hyps(4) by auto
  then show ?case using pcfgD(5)[of a' a] by (simp add: add.commute)
qed

section \<open>The contract of a range allocator\<close>

text \<open>With contiguous allocations named by their addresses the page allocator is a range allocator on top of another one.\<close>

definition page_contig :: "nvgpu_page_allocator \<Rightarrow> bool" where
  "page_contig a \<longleftrightarrow> pinv {} a \<and> bit (pg_flags a) GPU_ALLOC_FORCE_CONTIG \<and> bit (pg_flags a) GPU_ALLOC_NO_SCATTER_GATHER \<and>
     (\<forall>p al. pg_heap a p = Some al \<longrightarrow> length (al_sgl al) = 1)"

definition page_live :: "nvgpu_page_allocator \<Rightarrow> (u64 \<times> u64) set" where
  "page_live a = {(al_base al, al_length al) | p al. pg_heap a p = Some al}"

definition page_limits :: "nvgpu_page_allocator \<Rightarrow> u64 \<times> u64" where
  "page_limits a = buddy_limits (pg_source a)"

definition page_fits_len :: "nvgpu_page_allocator \<Rightarrow> u64 \<Rightarrow> bool" where
  "page_fits_len a len \<longleftrightarrow> 0 < len \<and> len \<le> 2 ^ 63"

definition page_budget :: "nvgpu_page_allocator \<Rightarrow> nat \<Rightarrow> bool" where
  "page_budget a k \<longleftrightarrow> k * cost a \<le> U64_MAX \<and> spent (U64_MAX - k * cost a) a"

lemma page_budget_step:
  assumes "page_budget a (Suc k)"
  shows "spent (U64_MAX - Suc k * cost a) a" "U64_MAX - Suc k * cost a + cost a \<le> U64_MAX"
    "spent (U64_MAX - Suc k * cost a + cost a) a' \<Longrightarrow> cost a' = cost a \<Longrightarrow> page_budget a' k"
  using assms by (auto simp: page_budget_def)

text \<open>A request rounded up to a power of two gets an object of that size, or one of 4 KiB.\<close>

lemma contig_met:
  assumes i: "pinv {} a" and c: "bit (pg_flags a) GPU_ALLOC_FORCE_CONTIG" and len: "0 < len" "len \<le> 2 ^ 63"
    and r: "real_len_of a len = Some rl" "request_met a rl al"
  shows "len \<le> al_length al"
proof -
  obtain j where j: "rl = 2 ^ j" "len \<le> rl" "0 < rl" using real_len_ok[OF len, of a] c r(1) by auto
  show ?thesis
  proof (cases "small_request a rl")
    case False
    then show ?thesis using r(2) j(2) by (simp add: request_met_def)
  next
    case True
    note g = geoD[OF pinvD(1)[OF i]]
    have t: "bit (pg_flags a) GPU_ALLOC_4K_VIDMEM_PAGES" "rl \<le> 2 ^ pg_page_shift a div 2" "al_length al = 2 ^ (12 + slab_nr_of rl)"
      using True r(2) g(2) by (auto simp: small_request_def request_met_def)
    have ne: "pg_slabs a \<noteq> []" by (rule g(11)[OF t(1)])
    have sh: "12 < pg_page_shift a" using ne g(5)[OF ne] by (metis length_greater_0_conv zero_less_diff)
    note s = slab_nr_ok[OF j(3) t(2) sh g(4)[OF ne]]
    show ?thesis
    proof (cases "j \<le> 12")
      case True
      then have "rl \<le> 2 ^ (12 + slab_nr_of rl)" unfolding j(1) by (intro power_increasing) auto
      then show ?thesis using j(2) t(3) by simp
    next
      case False
      then have "rl = 2 ^ (j - 12) * 4096" unfolding j(1) using power_add[of "2::nat" "j - 12" 12] by simp
      then have "(rl + 4095) div 4096 = 2 ^ (j - 12)" by simp
      then have "(2::nat) ^ (j - 12) < 2 ^ Suc (slab_nr_of rl)" using s(4) by simp
      then have "j - 12 < Suc (slab_nr_of rl)" by (rule power_less_imp_less_exp[rotated]) simp
      then have "rl \<le> 2 ^ (12 + slab_nr_of rl)" unfolding j(1) using False by (intro power_increasing) auto
      then show ?thesis using j(2) t(3) by simp
    qed
  qed
qed

lemma contig_chunk:
  assumes "page_contig a" "pg_heap a p = Some al"
  shows "al_sgl al = [hd (al_sgl al)]" "sg_phys (hd (al_sgl al)) = al_base al" "sg_length (hd (al_sgl al)) = al_length al"
proof -
  have r: "rec_ok (pg_slab_heap a) al" "length (al_sgl al) = 1" using assms recs_okD(1)[OF pinvD(5)] by (auto simp: page_contig_def)
  then obtain c where "al_sgl al = [c]" by (auto simp: length_Suc_conv)
  then show "al_sgl al = [hd (al_sgl al)]" "sg_phys (hd (al_sgl al)) = al_base al" "sg_length (hd (al_sgl al)) = al_length al"
    using r(1) by (auto simp: rec_ok_def)
qed


interpretation pages: range_allocator page_contig page_live page_limits page_fits_len page_budget nvgpu_page_palloc nvgpu_page_free
proof
  fix a k l
  assume a: "page_contig a" "(k, l) \<in> page_live a"
  then obtain p al where p: "pg_heap a p = Some al" "k = al_base al" "l = al_length al" by (auto simp: page_live_def)
  note c = contig_chunk[OF a(1) p(1)]
  have i: "pinv {} a" using a(1) by (simp add: page_contig_def)
  have "hd (al_sgl al) \<in> set (al_sgl al)" using c(1) by (metis list.set_intros(1))
  then obtain b n where r: "(b, n) \<in> buddy_live (pg_source a)" "b \<le> k" "k + l \<le> b + n" using chunk_range[OF i p(1)] c(2,3) p(2,3) by metis
  then show "0 < k \<and> 0 < l \<and> fst (page_limits a) \<le> k \<and> k + l \<le> snd (page_limits a)"
    using buddy.live_bounds[OF geoD(1)[OF pinvD(1)[OF i]] r(1)] record_total(1,2)[OF i p(1)] p(2,3) by (simp add: page_limits_def)
next
  fix a k l k' l'
  assume a: "page_contig a" "(k, l) \<in> page_live a" "(k', l') \<in> page_live a" "(k, l) \<noteq> (k', l')"
  then obtain p al p' al' where p: "pg_heap a p = Some al" "k = al_base al" "l = al_length al" and p': "pg_heap a p' = Some al'" "k' = al_base al'" "l' = al_length al'"
    by (auto simp: page_live_def)
  note c = contig_chunk[OF a(1) p(1)] and c' = contig_chunk[OF a(1) p'(1)]
  have "hd (al_sgl al) \<in> set (al_sgl al)" "hd (al_sgl al') \<in> set (al_sgl al')" "p \<noteq> p'" using c(1) c'(1) p p' a(4) by (metis list.set_intros(1), metis list.set_intros(1), auto)
  then show "ranges_disjoint k (k + l) k' (k' + l')"
    using chunks_disjoint[of "{}" a p al "hd (al_sgl al)" p' al' "hd (al_sgl al')"] a(1) p p' c(2,3) c'(2,3) by (simp add: page_contig_def)
next
  fix a len k and e :: page_env
  assume a: "page_contig a" "page_fits_len a len" "page_budget a (Suc k)"
  have i: "pinv {} a" "bit (pg_flags a) GPU_ALLOC_FORCE_CONTIG" "bit (pg_flags a) GPU_ALLOC_NO_SCATTER_GATHER" using a(1) by (simp_all add: page_contig_def)
  have len: "0 < len" "len \<le> 2 ^ 63" using a(2) by (simp_all add: page_fits_len_def)
  note bs = page_budget_step[OF a(3)]
  obtain ret a' where r: "nvgpu_page_palloc e a len = Some (ret, a')" "pinv {} a'" "pcfg a' = pcfg a" "spent (U64_MAX - Suc k * cost a + cost a) a'"
    "if ret = 0 then \<exists>s r f. a' = a\<lparr>pg_source := s, pg_requests := r, pg_fresh := f\<rparr> \<and> buddy_live s = buddy_live (pg_source a)
     else \<exists>p al rl. pg_heap a p = None \<and> pg_heap a' = (pg_heap a)(p \<mapsto> al) \<and> ret = (if bit (pg_flags a) GPU_ALLOC_NO_SCATTER_GATHER then al_base al else p) \<and>
       pg_sgls a' = pg_sgls a + length (al_sgl al) \<and> real_len_of a len = Some rl \<and> request_met a rl al"
    using palloc_ok[OF i(1) bs(1,2) len, of e] by blast
  note cf = pcfgD[OF r(3)]
  have b: "page_budget a' k" by (rule bs(3)[OF r(4) cf(5)])
  have "page_contig a' \<and> (if ret = 0 then page_live a' = page_live a else \<exists>l\<ge>len. (ret, l) \<notin> page_live a \<and> page_live a' = insert (ret, l) (page_live a))"
  proof (cases "ret = 0")
    case True
    then have "pg_heap a' = pg_heap a" using r(5) by auto
    then show ?thesis using True a(1) r(2) cf(3) by (simp add: page_contig_def page_live_def)
  next
    case False
    then obtain p al rl where p: "pg_heap a p = None" "pg_heap a' = (pg_heap a)(p \<mapsto> al)" "ret = al_base al" "real_len_of a len = Some rl" "request_met a rl al"
      using r(5) i(3) by auto
    have h: "pg_heap a' p = Some al" using p(2) by simp
    have one: "length (al_sgl al) = 1" using p(5) i(2) recs_okD(1)[OF pinvD(5)[OF r(2)] h] by (auto simp: request_met_def rec_ok_def split: if_splits)
    have live: "page_live a' = insert (ret, al_length al) (page_live a)" unfolding page_live_def p(2,3) using p(1) by auto (metis fun_upd_other option.distinct(1))
    have "(ret, al_length al) \<notin> page_live a"
    proof
      assume "(ret, al_length al) \<in> page_live a"
      then obtain p' al' where q: "pg_heap a p' = Some al'" "al_base al' = al_base al" using p(3) by (auto simp: page_live_def)
      then have "pg_heap a' p' = Some al'" using p(1,2) by auto
      then have "p' = p" using base_unique[OF pinvD(6)[OF r(2)] _ h] q(2) by blast
      then show False using q(1) p(1) by simp
    qed
    moreover have "page_contig a'" using a(1) r(2) cf(3) one p(2) by (simp add: page_contig_def)
    moreover have "len \<le> al_length al" by (rule contig_met[OF i(1,2) len p(4,5)])
    ultimately show ?thesis using False live by auto
  qed
  then show "\<exists>ret a'. nvgpu_page_palloc e a len = Some (ret, a') \<and> page_contig a' \<and> page_limits a' = page_limits a \<and> (\<forall>n. page_fits_len a' n = page_fits_len a n) \<and>
      page_budget a' k \<and> (if ret = 0 then page_live a' = page_live a else \<exists>l\<ge>len. (ret, l) \<notin> page_live a \<and> page_live a' = insert (ret, l) (page_live a))"
    using r(1) b cf(4) by (intro exI[of _ ret] exI[of _ a']) (simp add: page_limits_def page_fits_len_def)
next
  fix a k addr
  assume a: "page_contig a" "page_budget a (Suc k)"
  have i: "pinv {} a" "bit (pg_flags a) GPU_ALLOC_NO_SCATTER_GATHER" using a(1) by (simp_all add: page_contig_def)
  note bs = page_budget_step[OF a(2)]
  have "free_key a addr = Some addr" using i(2) by (simp add: free_key_def)
  from pfree_ok[OF i(1) bs(1,2) this] obtain a' where r: "nvgpu_page_free a addr = Some a'" "pinv {} a'" "pcfg a' = pcfg a" "spent (U64_MAX - Suc k * cost a + cost a) a'"
    "if \<exists>p al. pg_heap a p = Some al \<and> al_base al = addr
     then \<exists>p al. pg_heap a p = Some al \<and> al_base al = addr \<and> pg_heap a' = (pg_heap a)(p := None) \<and> pg_sgls a' = (if al_slab_page al = None then pg_sgls a else pg_sgls a - 1)
     else a' = a" by blast
  note cf = pcfgD[OF r(3)]
  have b: "page_budget a' k" by (rule bs(3)[OF r(4) cf(5)])
  have "page_contig a' \<and> page_live a' = {x \<in> page_live a. fst x \<noteq> addr}"
  proof (cases "\<exists>p al. pg_heap a p = Some al \<and> al_base al = addr")
    case False
    have "a' = a" using r(5) False by (simp only: if_False)
    moreover have "fst x \<noteq> addr" if "x \<in> page_live a" for x using that False unfolding page_live_def by fastforce
    ultimately show ?thesis using a(1) by auto
  next
    case True
    then obtain p al where p: "pg_heap a p = Some al" "al_base al = addr" "pg_heap a' = (pg_heap a)(p := None)" using r(5) by auto
    have u: "al_base al' = addr \<longleftrightarrow> p' = p" if "pg_heap a p' = Some al'" for p' al'
      using base_unique[OF pinvD(6)[OF i(1)] that p(1)] p(1,2) that by auto
    have "x \<in> page_live a' \<longleftrightarrow> x \<in> page_live a \<and> fst x \<noteq> addr" for x
    proof -
      have "x \<in> page_live a' \<longleftrightarrow> (\<exists>p' al'. x = (al_base al', al_length al') \<and> pg_heap a p' = Some al' \<and> p' \<noteq> p)" unfolding page_live_def p(3) by auto
      also have "\<dots> \<longleftrightarrow> (\<exists>p' al'. x = (al_base al', al_length al') \<and> pg_heap a p' = Some al' \<and> al_base al' \<noteq> addr)" using u by blast
      finally show ?thesis by (auto simp: page_live_def)
    qed
    then have "page_live a' = {x \<in> page_live a. fst x \<noteq> addr}" by blast
    moreover have "page_contig a'" using a(1) r(2) cf(3) p(3) by (auto simp: page_contig_def split: if_splits)
    ultimately show ?thesis by simp
  qed
  then show "\<exists>a'. nvgpu_page_free a addr = Some a' \<and> page_contig a' \<and> page_limits a' = page_limits a \<and> (\<forall>n. page_fits_len a' n = page_fits_len a n) \<and>
      page_budget a' k \<and> page_live a' = {x \<in> page_live a. fst x \<noteq> addr}"
    using r(1) b cf(4) by (intro exI[of _ a']) (simp add: page_limits_def page_fits_len_def)
qed

end
