(* ===== verification/Page_Contract.thy ===== *)
theory Page_Contract
  imports Page_Setup
begin

text \<open>The properties of the page allocator, for every outcome of the memory requests its operations make.\<close>

section \<open>An allocator to try the operations on\<close>

text \<open>Two pages of 64 KiB, set up as one buddy.\<close>

definition wide_buddy :: nvgpu_buddy_allocator where
  "wide_buddy = zero_buddy_allocator\<lparr>by_base := 65536, by_length := 131072, by_blk_size := 65536, by_blk_shift := 16, by_max_order := 1,
     by_start := 65536, by_end := 196608, by_count := 131072, by_blks := 2, by_initialized := True, by_fresh := 1, by_requests := 1,
     by_heap := [0 \<mapsto> \<lparr>bd_parent = None, bd_buddy = None, bd_left = None, bd_right = None, bd_start = 65536, bd_end = 196608, bd_order = 1,
       bd_alloced = False, bd_split = False, bd_in_list = True, bd_pte_size = BALLOC_PTE_SIZE_ANY\<rparr>],
     by_list := (\<lambda>_. [])(1 := [0]), by_list_len := (\<lambda>_. 0)(1 := 1)\<rparr>"

lemma wide_values: "nvgpu_ffs 65536 = 17" "NVGPU_ALIGN 65536 65536 = Some 65536" "and_not64 196608 65535 = 196608" "(65536::nat) AND 65535 = 0"
  using nvgpu_ffs_power2[of 16] NVGPU_ALIGN_aligned[of 16 65536] and_not64_mask[of 196608 16] and_mask_nat[of 65536 16] by simp_all

lemma wide_buddy_init: "nvgpu_buddy_allocator_init True True (\<lambda>_. False) None 65536 131072 65536 0 0 = Some (Inr wide_buddy, by_heap wide_buddy)"
  by (simp add: nvgpu_buddy_allocator_init_def nvgpu_buddy_check_argument_limits_def nvgpu_buddy_set_attributes_def leak_values wide_values safe_simps
      balloc_allocator_align_def balloc_compute_max_order_def nvgpu_ilog2_def zero_buddy_allocator_def wide_buddy_def Let_def
      balloc_init_lists_def init_loop.simps[of _ 65536] init_loop.simps[of _ 196608]
      balloc_max_order_in_def balloc_new_buddy_def balloc_order_to_len_def balloc_blist_add_def in_orders_def balloc_buddy_list_do_add_def
      upd_bud_def gva_def)

lemma wide_first: "\<exists>a. nvgpu_buddy_balloc (\<lambda>_. False) wide_buddy 65536 = Some (65536, a)"
  by (simp add: nvgpu_buddy_balloc_def nvgpu_buddy_balloc_pte_def wide_buddy_def zero_buddy_allocator_def balloc_get_order_def
      nvgpu_balloc_page_size_to_pte_size_def gva_def balloc_do_alloc_def find_from.simps[of _ 0] find_from.simps[of _ "Suc 0"] balloc_find_buddy_def in_orders_def
      split_down.simps[of _ _ _ 0] split_down.simps[of _ _ _ "Suc 0"] balloc_split_buddy_def balloc_new_buddy_def balloc_order_to_len_def safe_simps upd_bud_def
      balloc_blist_add_def balloc_blist_rem_def balloc_buddy_list_do_add_def balloc_buddy_list_do_rem_def balloc_alloc_buddy_def Let_def leak_values wide_values)

definition all_ok :: page_env where
  "all_ok = \<lparr>pe_oom = (\<lambda>_. False), pe_nomem = (\<lambda>_. False), pe_junk = \<lparr>al_sgl = [], al_nr_chunks = 0, al_length = 0, al_base = 0, al_slab_page = None\<rparr>\<rparr>"

definition init_all_ok :: page_init_env where
  "init_all_ok = \<lparr>pi_kzalloc_ok = True, pi_alloc_cache_ok = True, pi_slab_cache_ok = True, pi_kcalloc_ok = True, pi_src_kzalloc_ok = True, pi_src_cache_ok = True,
     pi_oom = (\<lambda>_. False)\<rparr>"

definition wide_pages :: "u64 \<Rightarrow> nvgpu_page_allocator" where
  "wide_pages flags = (let n = if bit flags GPU_ALLOC_4K_VIDMEM_PAGES then 4 else 0 in
     zero_page_allocator\<lparr>pg_base := 65536, pg_length := 131072, pg_page_size := 65536, pg_page_shift := 16, pg_flags := flags, pg_nr_slabs := n,
       pg_slabs := map new_slab [0..<n], pg_source := wide_buddy\<rparr>)"

lemma wide_init: "nvgpu_page_allocator_init init_all_ok ''video'' 65536 131072 65536 flags = Some (Inr (wide_pages flags))"
  using init_slabs_ok[of "zero_page_allocator\<lparr>pg_base := 65536, pg_length := 131072, pg_page_size := 65536, pg_page_shift := 16, pg_flags := flags\<rparr>" 16 True]
  by (simp add: nvgpu_page_allocator_init_def init_all_ok_def wide_values wide_buddy_init nvgpu_safe_cast_u64_to_u32_def wide_pages_def Let_def zero_page_allocator_def)

lemma wide_reach: "page_reach 0 (wide_pages flags)"
  using page_reach.init[of 16 65536 131072 flags init_all_ok "''video''"] wide_init[of flags] by (simp add: page_args_def)

lemma wide_cost: "cost (wide_pages flags) = 131073"
  by (simp add: cost_def wide_pages_def Let_def wide_buddy_def)

lemma wide_pages_alloc: "\<not> bit flags GPU_ALLOC_4K_VIDMEM_PAGES \<Longrightarrow>
  \<exists>a. nvgpu_page_palloc all_ok (wide_pages flags) 65536 = Some (if bit flags GPU_ALLOC_NO_SCATTER_GATHER then 65536 else 1, a)"
proof -
  assume k4: "\<not> bit flags GPU_ALLOC_4K_VIDMEM_PAGES"
  obtain s where s: "nvgpu_buddy_balloc (\<lambda>_. False) wide_buddy 65536 = Some (65536, s)" using wide_first by blast
  have r: "roundup_pow_of_two 65536 = Some 65536" using fls_eqI[of 15 65535] by (simp add: roundup_pow_of_two_def)
  let ?c = "\<lparr>sg_phys = 65536, sg_dma = 65536, sg_length = 65536\<rparr>" and ?al = "\<lparr>al_sgl = [], al_nr_chunks = 0, al_length = 65536, al_base = 0, al_slab_page = None\<rparr>"
  define a where "a = wide_pages flags"
  have sel: "pg_page_size a = 65536" "pg_page_shift a = 16" "pg_source a = wide_buddy" "pg_flags a = flags" "pg_requests a = 0" "pg_fresh a = 1" "pg_sgls a = 0" "pg_nr_allocs a = 0"
    by (simp_all add: a_def wide_pages_def Let_def zero_page_allocator_def)
  have fc: "find_chunk all_ok 65536 65536 65536 wide_buddy = Some (65536, 65536, 65536, s)" using s by (simp add: find_chunk.simps[of _ _ 65536] all_ok_def)
  have fls: "nvgpu_fls (Suc 0) = Suc 0" using fls_eqI[of 0 1] by simp
  have ac: "alloc_chunks all_ok 1 65536 0 [] b = Some (True, 1, [?c], b\<lparr>pg_source := s, pg_requests := pg_requests b + 1, pg_sgls := pg_sgls b + 1\<rparr>)"
    if "pg_page_size b = 65536" "pg_page_shift b = 16" "pg_source b = wide_buddy" for b
    using that fc fls by (simp add: alloc_chunks.simps[of _ 1] alloc_chunks.simps[of _ "Suc 0"] alloc_chunks.simps[of _ 0] wrap64_def pg_request_def all_ok_def safe_simps)
  have "do_nvgpu_alloc_pages all_ok 1 a = Some (Some 1, a\<lparr>pg_requests := 2, pg_heap := (pg_heap a)(1 \<mapsto> ?al\<lparr>al_sgl := [?c], al_nr_chunks := 1, al_base := 65536\<rparr>),
      pg_fresh := 2, pg_source := s, pg_sgls := 1\<rparr>)"
    using ac by (simp add: do_nvgpu_alloc_pages_def sel wrap64_def alloc_record_def pg_request_def all_ok_def)
  moreover have "nvgpu_alloc_pages all_ok 65536 a = do_nvgpu_alloc_pages all_ok 1 a" by (simp add: nvgpu_alloc_pages_def sel wide_values)
  ultimately have "\<exists>b. nvgpu_page_palloc all_ok a 65536 = Some (if bit flags GPU_ALLOC_NO_SCATTER_GATHER then 65536 else 1, b)"
    using k4 r by (simp add: nvgpu_page_palloc_def sel insert_page_alloc_def safe_simps Let_def)
  then show ?thesis by (simp add: a_def)
qed

lemma wide_slab_alloc: "\<exists>a. nvgpu_page_palloc all_ok (wide_pages 4) 12288 = Some (1, a)"
proof -
  obtain s where s: "nvgpu_buddy_balloc (\<lambda>_. False) wide_buddy 65536 = Some (65536, s)" using wide_first by blast
  define sp where "sp = \<lparr>sp_bitmap = [0], sp_page_addr = 65536, sp_slab_size = 8192, sp_nr_objects = 8, sp_nr_objects_alloced = 0, sp_state = SP_NONE, sp_owner = 1\<rparr>"
  have o: "objs sp = {}" by (simp add: sp_def objs_def)
  then have "page_fits 16 4 True sp" by (simp add: page_fits_def) (simp add: sp_def)
  from find_object[OF this] obtain k where k: "k < 8" "bitmap_find_next_zero_area [0] 8 0 (Suc 0) 0 = Some k" using o by (auto simp: sp_def)
  obtain m where m: "nvgpu_bitmap_set [0] k (Suc 0) = Some m" using set_object[of "[0]" k] k(1) by auto
  have al: "page_align_vid 12288 = Some 12288" by (simp add: page_align_vid_def safe_simps)
  have b: "bit (4::nat) 2" "\<not> bit (4::nat) 3" "\<not> bit (4::nat) 4" by (simp_all add: bit_iff_odd)
  have f: "nvgpu_fls 3 = 2" using fls_eqI[of 1 3] by simp
  have l: "[0..<4] = [0, 1, 2, 3::nat]" by (simp add: upt_rec)
  show ?thesis using s k m
    by (simp add: nvgpu_page_palloc_def nvgpu_alloc_slab_def al b f nvgpu_ilog2_def wide_pages_def zero_page_allocator_def all_ok_def alloc_record_def pg_request_def
      do_slab_alloc_def take_slab_page_def load_def l new_slab_def alloc_slab_page_def nvgpu_safe_cast_u64_to_u32_def add_slab_page_to_partial_def add_slab_page_def
      safe_simps insert_page_alloc_def Let_def bit_0)
qed

text \<open>One request later: an object of 8 KiB is outstanding.\<close>

lemma wide_slab_reach:
  "\<exists>a al. nvgpu_page_palloc all_ok (wide_pages 4) 12288 = Some (1, a) \<and> page_reach 1 a \<and> pg_heap a 1 = Some al \<and> al_sgl al \<noteq> [] \<and> buddy_live (pg_source a) \<noteq> {} \<and>
     2 * cost a \<le> U64_MAX \<and> free_key a 1 = Some (al_base al)"
proof -
  obtain a where a: "nvgpu_page_palloc all_ok (wide_pages 4) 12288 = Some (1, a)" using wide_slab_alloc by blast
  have r: "page_reach (Suc 0) a" using page_reach.alloc[OF wide_reach _ _ _ a] by (simp add: wide_cost)
  have i: "pinv {} (wide_pages 4)" "spent (0 * cost (wide_pages 4)) (wide_pages 4)" using page_reach_inv[OF wide_reach[of 4]] by auto
  have f: "pg_flags (wide_pages 4) = 4" "\<not> bit (4::nat) 4" by (simp_all add: wide_pages_def Let_def bit_iff_odd)
  from palloc_ok[OF i, of 12288 all_ok] a f obtain p al where p: "pcfg a = pcfg (wide_pages 4)" "pg_heap a p = Some al" "p = 1"
    by (auto simp: wide_cost)
  have ii: "pinv {} a" using page_reach_inv[OF r] by simp
  have ne: "al_sgl al \<noteq> []" using recs_okD(1)[OF pinvD(5)[OF ii] p(2)] by (simp add: rec_ok_def)
  then have "hd (al_sgl al) \<in> set (al_sgl al)" by simp
  from chunk_range[OF ii p(2) this] have "buddy_live (pg_source a) \<noteq> {}" by blast
  moreover have "cost a = 131073" using pcfgD(5)[OF p(1)] by (simp add: wide_cost)
  moreover have "free_key a 1 = Some (al_base al)" using pcfgD(3)[OF p(1)] f p(2,3) by (simp add: free_key_def)
  ultimately show ?thesis using a r p(2,3) ne by (intro exI[of _ a] exI[of _ al]) simp
qed


section \<open>Set-up\<close>

text \<open>C16: \<open>nvgpu_page_allocator_init\<close> with pages of a power of two of bytes always returns. An allocator it returns satisfies the invariant, has no
  allocations and manages whole pages inside the requested range; the only errors are \<open>-ENOMEM\<close>, when some memory could not be had, and
  \<open>-EINVAL\<close>, when the range may not hold a whole page.\<close>

theorem page_init_ok:
  assumes "page_args k base len flags" "length name < 27"
  shows "\<exists>res. nvgpu_page_allocator_init e name base len (2 ^ k) flags = Some res \<and>
    (case res of
       Inr a \<Rightarrow> pinv {} a \<and> pg_heap a = Map.empty \<and> spent 0 a \<and> pg_flags a = flags \<and> pg_page_size a = 2 ^ k \<and> base \<le> by_start (pg_source a) \<and>
         by_end (pg_source a) \<le> base + len \<and> by_start (pg_source a) + 2 ^ k \<le> by_end (pg_source a)
     | Inl err \<Rightarrow> err = ENOMEM \<and> (\<not> pi_kzalloc_ok e \<or> \<not> pi_alloc_cache_ok e \<or> \<not> pi_slab_cache_ok e \<or> \<not> pi_kcalloc_ok e \<or> \<not> pi_src_kzalloc_ok e \<or>
         \<not> pi_src_cache_ok e \<or> (\<exists>n. pi_oom e n)) \<or> err = EINVAL \<and> len < 3 * 2 ^ k)"
  by (rule page_init_total[OF assms])

theorem page_init_ok_witness:
  "\<exists>a. nvgpu_page_allocator_init init_all_ok ''video'' 65536 131072 65536 4 = Some (Inr a) \<and> pinv {} a \<and> 65536 \<le> by_start (pg_source a) \<and> by_end (pg_source a) \<le> 196608"
  using page_init_ok[of 16 65536 131072 4 "''video''" init_all_ok] by (simp add: wide_init page_args_def)

section \<open>Requests and releases\<close>

text \<open>C11: With contiguous allocations named by address the page allocator keeps the contract its source keeps: the range that
  \<open>nvgpu_page_palloc\<close> returns is the caller's alone. Whatever requests and releases of other addresses follow, all of them return, the range
  stays allocated, and a later request gets a range of at least the size it asks for, inside the limits and disjoint from it.\<close>

theorem page_alloc_exclusive:
  assumes "page_contig s" "0 < len" "len \<le> 2 ^ 63" "page_budget s (Suc (length ops + 1))" "pages.sizes_fit s ops" "0 < len2" "len2 \<le> 2 ^ 63"
    and "nvgpu_page_palloc e s len = Some (a, s1)" "a \<noteq> 0" "Op_free a \<notin> set ops"
  shows "\<exists>l rs s2 b s3. len \<le> l \<and> pages.run_ops ops s1 = Some (rs, s2) \<and> (a, l) \<in> page_live s2 \<and> nvgpu_page_palloc e2 s2 len2 = Some (b, s3) \<and>
    (b \<noteq> 0 \<longrightarrow> (\<exists>l2\<ge>len2. (b, l2) \<in> page_live s3 \<and> ranges_disjoint a (a + l) b (b + l2) \<and> by_start (pg_source s) \<le> b \<and> b + l2 \<le> by_end (pg_source s)))"
  using pages.alloc_exclusive[of s len ops len2 e a s1 e2] assms by (simp add: page_fits_len_def page_limits_def buddy_limits_def)

theorem page_alloc_exclusive_witness:
  "\<exists>s1 l rs s2 b s3. nvgpu_page_palloc all_ok (wide_pages 24) 65536 = Some (65536, s1) \<and>
     pages.run_ops [Op_alloc all_ok 4096, Op_free 131072] s1 = Some (rs, s2) \<and> 65536 \<le> l \<and> (65536, l) \<in> page_live s2 \<and>
     nvgpu_page_palloc all_ok s2 65536 = Some (b, s3)"
proof -
  have b: "bit (24::nat) 3" "bit (24::nat) 4" "\<not> bit (24::nat) 2" by (simp_all add: bit_iff_odd)
  obtain s1 where s1: "nvgpu_page_palloc all_ok (wide_pages 24) 65536 = Some (65536, s1)" using wide_pages_alloc[OF b(3)] b(2) by auto
  have i: "pinv {} (wide_pages 24)" "spent 0 (wide_pages 24)" using page_reach_inv[OF wide_reach[of 24]] by auto
  have f: "pg_flags (wide_pages 24) = 24" "pg_heap (wide_pages 24) = Map.empty" by (simp_all add: wide_pages_def Let_def zero_page_allocator_def)
  have "page_contig (wide_pages 24)" using i(1) b(1,2) f by (simp add: page_contig_def)
  moreover have "page_budget (wide_pages 24) (Suc (Suc (Suc (Suc 0))))" using i(2) by (simp add: page_budget_def wide_cost spent_def)
  ultimately show ?thesis
    using page_alloc_exclusive[of "wide_pages 24" 65536 "[Op_alloc all_ok 4096, Op_free 131072]" 65536 all_ok 65536 s1 all_ok] s1
    by (auto simp: page_fits_len_def)
qed

text \<open>C12: In every state that requests and releases can lead to, every chunk of every outstanding allocation, a chunk of pages or an object of a slab
  page alike, lies inside the range of the allocator, and no two chunks share an address.\<close>

theorem page_chunks_disjoint:
  assumes "page_reach n a" "pg_heap a p = Some al" "c \<in> set (al_sgl al)"
  shows "by_start (pg_source a) \<le> sg_phys c \<and> 0 < sg_length c \<and> sg_phys c + sg_length c \<le> by_end (pg_source a) \<and>
    (\<forall>p' al' c'. pg_heap a p' = Some al' \<longrightarrow> c' \<in> set (al_sgl al') \<longrightarrow> (p', c') \<noteq> (p, c) \<longrightarrow>
       ranges_disjoint (sg_phys c) (sg_phys c + sg_length c) (sg_phys c') (sg_phys c' + sg_length c'))"
proof -
  have i: "pinv {} a" using page_reach_inv[OF assms(1)] by simp
  obtain k l where r: "(k, l) \<in> buddy_live (pg_source a)" "k \<le> sg_phys c" "sg_phys c + sg_length c \<le> k + l" "0 < sg_length c"
    using chunk_range[OF i assms(2,3)] by blast
  have "by_start (pg_source a) \<le> k" "k + l \<le> by_end (pg_source a)" using buddy.live_bounds[OF geoD(1)[OF pinvD(1)[OF i]] r(1)] by (simp_all add: buddy_limits_def)
  moreover have "ranges_disjoint (sg_phys c) (sg_phys c + sg_length c) (sg_phys c') (sg_phys c' + sg_length c')"
    if "pg_heap a p' = Some al'" "c' \<in> set (al_sgl al')" "(p', c') \<noteq> (p, c)" for p' al' c'
    using chunks_disjoint[OF i assms(2,3) that(1,2)] that(3) by blast
  ultimately show ?thesis using r by (meson le_trans)
qed

theorem page_chunks_disjoint_witness:
  "\<exists>a al c. page_reach 1 a \<and> pg_heap a 1 = Some al \<and> c \<in> set (al_sgl al) \<and> by_start (pg_source a) \<le> sg_phys c \<and> sg_phys c + sg_length c \<le> by_end (pg_source a)"
proof -
  obtain a al where a: "page_reach 1 a" "pg_heap a 1 = Some al" "al_sgl al \<noteq> []" using wide_slab_reach by blast
  then have m: "hd (al_sgl al) \<in> set (al_sgl al)" by simp
  have "by_start (pg_source a) \<le> sg_phys (hd (al_sgl al))" "sg_phys (hd (al_sgl al)) + sg_length (hd (al_sgl al)) \<le> by_end (pg_source a)"
    using page_chunks_disjoint[OF a(1,2) m] by simp_all
  then show ?thesis using a m by blast
qed

text \<open>What can own a range of the source: the chunk at a position of the list of an allocation that is not cut from a slab
  page, or a slab page.\<close>

definition source_owner :: "nvgpu_page_allocator \<Rightarrow> u64 \<Rightarrow> u64 \<Rightarrow> nat \<times> nat + nat \<Rightarrow> bool" where
  "source_owner a k l x \<longleftrightarrow> (case x of
     Inl (p, i) \<Rightarrow> (\<exists>al. pg_heap a p = Some al \<and> al_slab_page al = None \<and> i < length (al_sgl al) \<and> sg_phys (al_sgl al ! i) = k \<and> sg_length (al_sgl al ! i) \<le> l)
   | Inr q \<Rightarrow> (\<exists>sp. pg_slab_heap a q = Some sp \<and> sp_page_addr sp = k \<and> pg_page_size a \<le> l))"

lemma source_owner_range:
  assumes "source_owner a k l x"
  shows "\<exists>m. ((case x of Inl (p, i) \<Rightarrow> Inl p | Inr q \<Rightarrow> Inr q), k, m) \<in> chunks_of (pg_heap a) \<union> slab_ranges (pg_page_size a) (pg_slab_heap a)"
  using assms by (auto simp: source_owner_def chunks_of_def slab_ranges_def split: sum.splits prod.splits)

lemma source_owner_exists:
  assumes "(x, k, m) \<in> chunks_of (pg_heap a) \<union> slab_ranges (pg_page_size a) (pg_slab_heap a)" "m \<le> l"
  shows "\<exists>y. source_owner a k l y"
proof (cases "(x, k, m) \<in> chunks_of (pg_heap a)")
  case True
  then obtain p al c where c: "k = sg_phys c" "m = sg_length c" "pg_heap a p = Some al" "al_slab_page al = None" "c \<in> set (al_sgl al)"
    by (auto simp: chunks_of_def)
  then obtain i where "i < length (al_sgl al)" "al_sgl al ! i = c" by (auto simp: in_set_conv_nth)
  then have "source_owner a k l (Inl (p, i))" using c assms(2) by (auto simp: source_owner_def)
  then show ?thesis by blast
next
  case False
  then obtain q where "source_owner a k l (Inr q)" using assms by (auto simp: slab_ranges_def source_owner_def)
  then show ?thesis by blast
qed

lemma source_owner_unique:
  assumes i: "pinv {} a" and x: "source_owner a k l x" and y: "source_owner a k l y"
  shows "x = y"
proof -
  have same: "(case x of Inl (p, i) \<Rightarrow> Inl p | Inr q \<Rightarrow> Inr q) = (case y of Inl (p, i) \<Rightarrow> Inl p | Inr q \<Rightarrow> Inr q)"
    using owners_okD(3)[OF pinvD(4)[OF i]] source_owner_range[OF x] source_owner_range[OF y] by blast
  show ?thesis
  proof (cases x)
    case (Inl pi)
    obtain p n where pn: "x = Inl (p, n)" using Inl by (cases pi) auto
    then obtain n' where n': "y = Inl (p, n')" using same by (cases y) auto
    obtain al where al: "pg_heap a p = Some al" "n < length (al_sgl al)" "n' < length (al_sgl al)" "sg_phys (al_sgl al ! n) = sg_phys (al_sgl al ! n')"
      using x y pn n' by (auto simp: source_owner_def)
    have "distinct (map sg_phys (al_sgl al))" using recs_okD(1)[OF pinvD(5)[OF i] al(1)] by (simp add: rec_ok_def)
    then show ?thesis using al(2-4) pn n' nth_eq_iff_index_eq[of "map sg_phys (al_sgl al)" n n'] by simp
  next
    case (Inr q)
    then show ?thesis using same by (cases y) auto
  qed
qed

text \<open>C13: Nothing of the source is ever lost: in every reachable state each range that is outstanding in the source has exactly one owner, one position
  in the list of one allocation of pages or one slab page; and every object taken from a slab page belongs to exactly one outstanding allocation.\<close>

theorem page_source_owned:
  assumes "page_reach n a" "(k, l) \<in> buddy_live (pg_source a)"
  shows "(\<exists>!x. source_owner a k l x) \<and>
    (\<forall>q sp j. pg_slab_heap a q = Some sp \<longrightarrow> bit (sp_bitmap sp ! 0) j \<longrightarrow>
       (\<exists>!p. \<exists>al. pg_heap a p = Some al \<and> al_slab_page al = Some q \<and> al_base al = sp_page_addr sp + j * sp_slab_size sp \<and> al_length al = sp_slab_size sp))"
proof -
  let ?H = "chunks_of (pg_heap a) \<union> slab_ranges (pg_page_size a) (pg_slab_heap a)"
  have i: "pinv {} a" using page_reach_inv[OF assms(1)] by simp
  note o = pinvD(4)[OF i] and g = geoD[OF pinvD(1)[OF i]]
  have "k \<in> fst ` buddy_live (pg_source a)" using assms(2) by force
  then obtain x m where x: "(x, k, m) \<in> ?H" using o unfolding owners_ok_def keys_def by blast
  obtain l' where "l' \<ge> m" "(k, l') \<in> buddy_live (pg_source a)" using owners_okD(2)[OF o x] by blast
  then have "m \<le> l" using live_key[OF g(1) assms(2)] by auto
  then have "\<exists>!x. source_owner a k l x" using source_owner_exists[OF x] source_owner_unique[OF i] by (meson ex_ex1I)
  moreover have "\<exists>!p. \<exists>al. pg_heap a p = Some al \<and> al_slab_page al = Some q \<and> al_base al = sp_page_addr sp + j * sp_slab_size sp \<and> al_length al = sp_slab_size sp"
    if q: "pg_slab_heap a q = Some sp" "bit (sp_bitmap sp ! 0) j" for q sp j
  proof -
    obtain p al where p: "pg_heap a p = Some al" "al_slab_page al = Some q" "al_base al = sp_page_addr sp + j * sp_slab_size sp"
      using recs_okD(2)[OF pinvD(5)[OF i] q(1), of j] q(2) by (auto simp: objs_def)
    then have "al_length al = sp_slab_size sp" using recs_okD(1)[OF pinvD(5)[OF i] p(1)] q(1) by (auto simp: rec_ok_def)
    then show ?thesis using p base_unique[OF pinvD(6)[OF i]] by (intro ex1I[of _ p]) (blast, metis)
  qed
  ultimately show ?thesis by blast
qed

theorem page_source_owned_witness:
  "\<exists>a k l. page_reach 1 a \<and> (k, l) \<in> buddy_live (pg_source a) \<and> (\<exists>!x. source_owner a k l x)"
proof -
  obtain a where a: "page_reach 1 a" "buddy_live (pg_source a) \<noteq> {}" using wide_slab_reach by blast
  then obtain k l where k: "(k, l) \<in> buddy_live (pg_source a)" by (metis ex_in_conv prod.collapse)
  show ?thesis using a(1) k conjunct1[OF page_source_owned[OF a(1) k]] by blast
qed



text \<open>C15: In every reachable state \<open>nvgpu_page_free\<close> of an outstanding allocation returns, the state it leaves is reachable, and exactly that allocation is
  gone; a release of an address that is no allocation's changes nothing. The node of the scatter-gather list of a small allocation is freed;
  those of an allocation of pages are not: \<open>nvgpu_page_alloc_free_pages\<close> walks to the end of the list when it frees the chunks and has no list
  left to free.\<close>

theorem page_release_exact:
  assumes "page_reach n a" "Suc n * cost a \<le> U64_MAX" "free_key a base = Some addr"
  shows "\<exists>a'. nvgpu_page_free a base = Some a' \<and> page_reach (Suc n) a' \<and>
    (if \<exists>p al. pg_heap a p = Some al \<and> al_base al = addr
     then \<exists>p al. pg_heap a p = Some al \<and> al_base al = addr \<and> pg_heap a' = (pg_heap a)(p := None) \<and>
       pg_sgls a' = (if al_slab_page al = None then pg_sgls a else pg_sgls a - 1)
     else a' = a)"
proof -
  have i: "pinv {} a" "spent (n * cost a) a" "n * cost a + cost a \<le> U64_MAX" using page_reach_inv[OF assms(1)] assms(2) by simp_all
  from pfree_ok[OF i assms(3)] obtain a' where r: "nvgpu_page_free a base = Some a'"
    "if \<exists>p al. pg_heap a p = Some al \<and> al_base al = addr
     then \<exists>p al. pg_heap a p = Some al \<and> al_base al = addr \<and> pg_heap a' = (pg_heap a)(p := None) \<and>
       pg_sgls a' = (if al_slab_page al = None then pg_sgls a else pg_sgls a - 1)
     else a' = a" by blast
  moreover have "page_reach (Suc n) a'" using page_reach.free[OF assms(1,2) _ r(1)] assms(3) by simp
  ultimately show ?thesis by blast
qed

theorem page_release_exact_witness:
  "\<exists>a a' al. page_reach 1 a \<and> pg_heap a 1 = Some al \<and> nvgpu_page_free a 1 = Some a' \<and> page_reach 2 a' \<and> (\<exists>p. pg_heap a' = (pg_heap a)(p := None) \<and> pg_heap a p \<noteq> None)"
proof -
  obtain a al where a: "page_reach 1 a" "pg_heap a 1 = Some al" "2 * cost a \<le> U64_MAX" "free_key a 1 = Some (al_base al)" using wide_slab_reach by blast
  then have "Suc 1 * cost a \<le> U64_MAX" by simp
  from page_release_exact[OF a(1) this a(4)] obtain a' where r: "nvgpu_page_free a 1 = Some a'" "page_reach (Suc 1) a'"
    "\<exists>p al'. pg_heap a p = Some al' \<and> al_base al' = al_base al \<and> pg_heap a' = (pg_heap a)(p := None)" using a(2) by (metis (no_types, lifting))
  then show ?thesis using a(1,2) by (intro exI[of _ a] exI[of _ a'] exI[of _ al]) (auto simp: numeral_2_eq_2)
qed

text \<open>C17: An allocator with slabs that does not round requests to powers of two hands out too little: \<open>nvgpu_alloc_slab\<close> takes the logarithm of the number
  of 4 KiB units rounded down, so a request for more than \<open>2 ^ j\<close> and fewer than \<open>2 ^ (j + 1)\<close> units gets an object of \<open>2 ^ j\<close> units.\<close>

theorem page_slab_undersized:
  assumes "page_reach n a" "Suc n * cost a \<le> U64_MAX" "bit (pg_flags a) GPU_ALLOC_4K_VIDMEM_PAGES" "\<not> bit (pg_flags a) GPU_ALLOC_FORCE_CONTIG"
    and len: "len \<le> pg_page_size a div 2" "2 ^ j * 4096 < len" "len \<le> (2 * 2 ^ j - 1) * 4096"
    and run: "nvgpu_page_palloc e a len = Some (ret, a')" "ret \<noteq> 0"
  shows "\<exists>p al. pg_heap a p = None \<and> pg_heap a' p = Some al \<and> al_length al = 2 ^ j * 4096 \<and> al_length al < len"
proof -
  have i: "pinv {} a" "spent (n * cost a) a" "n * cost a + cost a \<le> U64_MAX" using page_reach_inv[OF assms(1)] assms(2) by simp_all
  note g = geoD[OF pinvD(1)[OF i(1)]]
  have ne: "pg_slabs a \<noteq> []" by (rule g(11)[OF assms(3)])
  have sh: "12 < pg_page_shift a" using ne g(5)[OF ne] by (metis length_greater_0_conv zero_less_diff)
  have l: "0 < len" "len \<le> 2 ^ pg_page_shift a div 2" using len(1,2) unfolding g(2) by simp_all
  have "(2::nat) ^ pg_page_shift a \<le> 2 ^ 18" using g(4)[OF ne] by (intro power_increasing) auto
  then have l63: "len \<le> 2 ^ 63" using l(2) by simp
  note s = slab_nr_ok[OF l sh g(4)[OF ne]]
  have q: "2 ^ j \<le> (len + 4095) div 4096" "(len + 4095) div 4096 < 2 ^ Suc j" using len(2,3) by (simp_all add: less_mult_imp_div_less less_eq_div_iff_mult_less_eq)
  have "(len + 4095) div 4096 \<le> U64_MAX" using l63 by simp
  from fls_eqI[OF q this] have j: "slab_nr_of len = j" by (simp add: slab_nr_of_def)
  from palloc_ok[OF i l(1) l63, of e] obtain p al rl where p: "pg_heap a p = None" "pg_heap a' = (pg_heap a)(p \<mapsto> al)" "real_len_of a len = Some rl" "request_met a rl al"
    using run by auto
  have "al_length al = 2 ^ (12 + j)" using p(3,4) assms(3,4) len(1) j by (simp add: real_len_of_def request_met_def small_request_def)
  then show ?thesis using p(1,2) len(2) by (intro exI[of _ p] exI[of _ al]) (simp add: power_add)
qed

theorem page_slab_undersized_witness:
  "\<exists>a' p al. nvgpu_page_palloc all_ok (wide_pages 4) 12288 = Some (1, a') \<and> pg_heap a' p = Some al \<and> al_length al = 8192"
proof -
  have f: "pg_flags (wide_pages 4) = 4" "pg_page_size (wide_pages 4) = 65536" "bit (4::nat) 2" "\<not> bit (4::nat) 3" by (simp_all add: wide_pages_def Let_def bit_iff_odd)
  obtain a where a: "nvgpu_page_palloc all_ok (wide_pages 4) 12288 = Some (1, a)" using wide_slab_alloc by blast
  show ?thesis using page_slab_undersized[OF wide_reach[of 4], of 12288 1 all_ok 1 a] a f by (auto simp: wide_cost)
qed

end
