(* ===== verification/Pd_Cache.thy ===== *)
theory Pd_Cache
  imports Bitops Interval_Index Log2
begin

text \<open>
  The cache of page directories, \<^verbatim>\<open>common/mm/gmmu/pd_cache.c\<close> with \<^verbatim>\<open>pd_cache_priv.h\<close> and \<^verbatim>\<open>include/nvgpu/pd_cache.h\<close>: page directories
  smaller than 64 KiB are packed into entries of that size, larger ones get memory of their own. Memory objects and entries live
  at addresses; an entry and the memory object inside it have the same one. The contents of memory are words of 32 bits.
  Everything but the pass-through for large directories runs under the cache's lock.

  The constants are those of the user-space build, where the cache serves directories of 256 bytes to 32 KiB; memory is system
  memory, which the CPU reaches. New memory objects and entries get addresses that were not used before.
\<close>

section \<open>State\<close>

abbreviation (input) NVGPU_PD_CACHE_MIN :: nat where "NVGPU_PD_CACHE_MIN \<equiv> 256"
abbreviation (input) NVGPU_PD_CACHE_MIN_SHIFT :: nat where "NVGPU_PD_CACHE_MIN_SHIFT \<equiv> 9"
abbreviation (input) NVGPU_PD_CACHE_COUNT :: nat where "NVGPU_PD_CACHE_COUNT \<equiv> 8"
abbreviation (input) NVGPU_PD_CACHE_SIZE :: nat where "NVGPU_PD_CACHE_SIZE \<equiv> 65536"

record nvgpu_mem =
  mem_words :: "u32 list"
  mem_cpu_va :: bool

record nvgpu_pd_mem_entry =
  pe_pd_size :: u32
  pe_alloc_map :: "ulong list"
  pe_allocs :: u32

record nvgpu_pd_cache =
  pc_full :: "nat \<Rightarrow> nat list"
  pc_partial :: "nat \<Rightarrow> nat list"
  pc_mem_tree :: "nat index"

record nvgpu_gmmu_pd =
  pd_mem :: "nat option"
  pd_mem_offs :: u32
  pd_cached :: bool
  pd_pd_size :: u32

record pd_mm =
  mm_pd_cache :: "nvgpu_pd_cache option"
  mm_entries :: "nat \<rightharpoonup> nvgpu_pd_mem_entry"
  mm_mems :: "nat \<rightharpoonup> nvgpu_mem"
  mm_fresh :: nat

text \<open>Outcomes of the requests an operation makes: for an entry and its memory, and for a memory object and its memory.\<close>

record pd_env =
  pv_kzalloc_entry :: bool
  pv_dma_entry :: "errno option"
  pv_kzalloc_mem :: bool
  pv_dma_direct :: "errno option"

text \<open>The memory that \<^verbatim>\<open>os/posix/posix-dma.c\<close> gives: cleared, and mapped for the CPU. The words are those of the size asked for; the rest
  of the last page is never used.\<close>

definition nvgpu_dma_alloc_flags :: "nat \<Rightarrow> nvgpu_mem" where
  "nvgpu_dma_alloc_flags bytes = \<lparr>mem_words = replicate (bytes div 4) 0, mem_cpu_va = True\<rparr>"

section \<open>Sizes, addresses and writes\<close>

definition nvgpu_pd_cache_nr :: "u32 \<Rightarrow> u32 option" where
  "nvgpu_pd_cache_nr bytes =
     do {
       let bytes_shift = bytes div 2 ^ (NVGPU_PD_CACHE_MIN_SHIFT - 1);
       nvgpu_assert (bytes_shift > 0);
       tmp \<leftarrow> nvgpu_ilog2 bytes_shift;
       nvgpu_assert (tmp \<le> U32_MAX);
       Some tmp }"

definition nvgpu_pd_cache_get_nr_entries :: "nvgpu_pd_mem_entry \<Rightarrow> u32 option" where
  "nvgpu_pd_cache_get_nr_entries pentry = do { nvgpu_assert (pe_pd_size pentry \<noteq> 0); Some (NVGPU_PD_CACHE_SIZE div pe_pd_size pentry) }"

text \<open>The address of a memory object is the platform's: physical with NVLINK, as the device sees it otherwise.\<close>

definition nvgpu_pd_gpu_addr :: "bool \<Rightarrow> (nat \<Rightarrow> u64) \<Rightarrow> (nat \<Rightarrow> u64) \<Rightarrow> nvgpu_gmmu_pd \<Rightarrow> u64 option" where
  "nvgpu_pd_gpu_addr nvlink phys_addr addr pd =
     do { m \<leftarrow> pd_mem pd; nvgpu_safe_add_u64 (if nvlink then phys_addr m else addr m) (pd_mem_offs pd) }"

definition nvgpu_pd_offset_from_index :: "u32 \<Rightarrow> u32 \<Rightarrow> u32 option" where
  "nvgpu_pd_offset_from_index entry_size pd_idx = do { n \<leftarrow> nvgpu_safe_mult_u32 pd_idx entry_size; Some (n div 4) }"

definition nvgpu_mem_wr32 :: "nat \<Rightarrow> nat \<Rightarrow> u32 \<Rightarrow> pd_mm \<Rightarrow> pd_mm option" where
  "nvgpu_mem_wr32 p w data mm =
     do {
       m \<leftarrow> mm_mems mm p;
       nvgpu_assert (mem_cpu_va m \<and> w < length (mem_words m));
       Some (mm\<lparr>mm_mems := (mm_mems mm)(p \<mapsto> m\<lparr>mem_words := (mem_words m)[w := data]\<rparr>)\<rparr>) }"

definition nvgpu_pd_write :: "nvgpu_gmmu_pd \<Rightarrow> u64 \<Rightarrow> u32 \<Rightarrow> pd_mm \<Rightarrow> pd_mm option" where
  "nvgpu_pd_write pd w data mm =
     do {
       tmp_offset \<leftarrow> nvgpu_safe_add_u64 (pd_mem_offs pd div 4) w;
       nvgpu_assert (tmp_offset \<le> U32_MAX);
       p \<leftarrow> pd_mem pd;
       nvgpu_mem_wr32 p tmp_offset data mm }"

section \<open>Setting up and tearing down\<close>

definition nvgpu_pd_cache_init :: "bool \<Rightarrow> pd_mm \<Rightarrow> unit result \<times> pd_mm" where
  "nvgpu_pd_cache_init kzalloc_ok mm =
     (if mm_pd_cache mm \<noteq> None then (Inr (), mm)
      else if \<not> kzalloc_ok then (Inl ENOMEM, mm)
      else (Inr (), mm\<lparr>mm_pd_cache := Some \<lparr>pc_full = (\<lambda>_. []), pc_partial = (\<lambda>_. []), pc_mem_tree = []\<rparr>\<rparr>))"

definition nvgpu_pd_cache_fini :: "pd_mm \<Rightarrow> pd_mm option" where
  "nvgpu_pd_cache_fini mm =
     (case mm_pd_cache mm of
        None \<Rightarrow> Some mm
      | Some cache \<Rightarrow> do {
          nvgpu_assert (\<forall>i\<in>set [0..<NVGPU_PD_CACHE_COUNT]. pc_full cache i = [] \<and> pc_partial cache i = []);
          Some (mm\<lparr>mm_pd_cache := None\<rparr>) })"

section \<open>Requests\<close>

text \<open>When the memory can not be had the object is freed, but the directory keeps its address.\<close>

definition nvgpu_pd_cache_alloc_direct :: "pd_env \<Rightarrow> nvgpu_gmmu_pd \<Rightarrow> u32 \<Rightarrow> pd_mm \<Rightarrow> unit result \<times> nvgpu_gmmu_pd \<times> pd_mm" where
  "nvgpu_pd_cache_alloc_direct e pd bytes mm =
     (if \<not> pv_kzalloc_mem e then (Inl ENOMEM, pd\<lparr>pd_mem := None\<rparr>, mm)
      else (let p = mm_fresh mm; pd = pd\<lparr>pd_mem := Some p\<rparr>; mm = mm\<lparr>mm_fresh := p + 1\<rparr> in
        if pv_dma_direct e \<noteq> None then (Inl ENOMEM, pd, mm)
        else (Inr (), pd\<lparr>pd_cached := False, pd_mem_offs := 0\<rparr>, mm\<lparr>mm_mems := (mm_mems mm)(p \<mapsto> nvgpu_dma_alloc_flags bytes)\<rparr>)))"

definition nvgpu_pd_cache_alloc_new ::
    "pd_env \<Rightarrow> nvgpu_pd_cache \<Rightarrow> nvgpu_gmmu_pd \<Rightarrow> u32 \<Rightarrow> pd_mm \<Rightarrow> (unit result \<times> nvgpu_gmmu_pd \<times> pd_mm) option" where
  "nvgpu_pd_cache_alloc_new e cache pd bytes mm =
     (if \<not> pv_kzalloc_entry e then Some (Inl ENOMEM, pd, mm)
      else let p = mm_fresh mm; mm = mm\<lparr>mm_fresh := p + 1\<rparr> in
      (case pv_dma_entry e of
         Some err \<Rightarrow> Some (if err = ENOMEM then nvgpu_pd_cache_alloc_direct e pd bytes mm else (Inl ENOMEM, pd, mm))
       | None \<Rightarrow> do {
           i \<leftarrow> nvgpu_pd_cache_nr bytes;
           nvgpu_assert (i < NVGPU_PD_CACHE_COUNT);
           m \<leftarrow> nvgpu_set_bit 0 (replicate 4 0);
           let cache = cache\<lparr>pc_partial := (pc_partial cache)(i := p # pc_partial cache i), pc_mem_tree := idx_insert p p (pc_mem_tree cache)\<rparr>;
           Some (Inr (), pd\<lparr>pd_mem := Some p, pd_mem_offs := 0, pd_cached := True\<rparr>,
             mm\<lparr>mm_pd_cache := Some cache, mm_mems := (mm_mems mm)(p \<mapsto> nvgpu_dma_alloc_flags NVGPU_PD_CACHE_SIZE),
                mm_entries := (mm_entries mm)(p \<mapsto> \<lparr>pe_pd_size = bytes, pe_alloc_map = m, pe_allocs = 1\<rparr>)\<rparr>) }))"

text \<open>\<open>nvgpu_list_del\<close> takes the entry out of whichever list it is in.\<close>

definition pc_list_del :: "nat \<Rightarrow> nvgpu_pd_cache \<Rightarrow> nvgpu_pd_cache" where
  "pc_list_del p cache = cache\<lparr>pc_full := (\<lambda>i. removeAll p (pc_full cache i)), pc_partial := (\<lambda>i. removeAll p (pc_partial cache i))\<rparr>"

definition nvgpu_pd_cache_alloc_from_partial ::
    "nvgpu_pd_cache \<Rightarrow> nat \<Rightarrow> nvgpu_gmmu_pd \<Rightarrow> pd_mm \<Rightarrow> (unit result \<times> nvgpu_gmmu_pd \<times> pd_mm) option" where
  "nvgpu_pd_cache_alloc_from_partial cache p pd mm =
     do {
       pentry \<leftarrow> mm_entries mm p;
       nr_bits \<leftarrow> nvgpu_pd_cache_get_nr_entries pentry;
       bit_offs \<leftarrow> find_first_zero_bit (pe_alloc_map pentry) nr_bits;
       nvgpu_assert (bit_offs \<le> U32_MAX);
       mem_offs \<leftarrow> nvgpu_safe_mult_u32 bit_offs (pe_pd_size pentry);
       nvgpu_assert (bit_offs < nr_bits);
       m \<leftarrow> nvgpu_set_bit bit_offs (pe_alloc_map pentry);
       n \<leftarrow> nvgpu_safe_add_u32 (pe_allocs pentry) 1;
       let pd = pd\<lparr>pd_mem := Some p, pd_mem_offs := mem_offs, pd_cached := True\<rparr>;
       let mm = mm\<lparr>mm_entries := (mm_entries mm)(p \<mapsto> pentry\<lparr>pe_alloc_map := m, pe_allocs := n\<rparr>)\<rparr>;
       if n \<ge> nr_bits
       then do {
         i \<leftarrow> nvgpu_pd_cache_nr (pe_pd_size pentry);
         nvgpu_assert (i < NVGPU_PD_CACHE_COUNT);
         let cache = pc_list_del p cache;
         Some (Inr (), pd, mm\<lparr>mm_pd_cache := Some (cache\<lparr>pc_full := (pc_full cache)(i := p # pc_full cache i)\<rparr>)\<rparr>) }
       else Some (Inr (), pd, mm) }"

definition nvgpu_pd_cache_get_partial :: "nvgpu_pd_cache \<Rightarrow> u32 \<Rightarrow> nat option option" where
  "nvgpu_pd_cache_get_partial cache bytes =
     do {
       i \<leftarrow> nvgpu_pd_cache_nr bytes;
       nvgpu_assert (i < NVGPU_PD_CACHE_COUNT);
       Some (case pc_partial cache i of [] \<Rightarrow> None | p # _ \<Rightarrow> Some p) }"

definition nvgpu_pd_cache_alloc ::
    "pd_env \<Rightarrow> nvgpu_pd_cache \<Rightarrow> nvgpu_gmmu_pd \<Rightarrow> u32 \<Rightarrow> pd_mm \<Rightarrow> (unit result \<times> nvgpu_gmmu_pd \<times> pd_mm) option" where
  "nvgpu_pd_cache_alloc e cache pd bytes mm =
     (if \<not> (bytes \<ge> NVGPU_PD_CACHE_MIN \<and> bytes AND (bytes - 1) = 0) then Some (Inl EINVAL, pd, mm)
      else do {
        nvgpu_assert (bytes < NVGPU_PD_CACHE_SIZE);
        pentry \<leftarrow> nvgpu_pd_cache_get_partial cache bytes;
        (case pentry of
           None \<Rightarrow> nvgpu_pd_cache_alloc_new e cache pd bytes mm
         | Some p \<Rightarrow> nvgpu_pd_cache_alloc_from_partial cache p pd mm) })"

definition nvgpu_pd_alloc :: "pd_env \<Rightarrow> nvgpu_gmmu_pd \<Rightarrow> u32 \<Rightarrow> pd_mm \<Rightarrow> (unit result \<times> nvgpu_gmmu_pd \<times> pd_mm) option" where
  "nvgpu_pd_alloc e pd bytes mm =
     do {
       (err, pd, mm) \<leftarrow>
         (if bytes \<ge> NVGPU_PD_CACHE_SIZE then Some (nvgpu_pd_cache_alloc_direct e pd bytes mm)
          else do { cache \<leftarrow> mm_pd_cache mm; nvgpu_pd_cache_alloc e cache pd bytes mm });
       Some (err, case err of Inl _ \<Rightarrow> pd | Inr _ \<Rightarrow> pd\<lparr>pd_pd_size := bytes\<rparr>, mm) }"

section \<open>Releases\<close>

definition nvgpu_pd_cache_free_direct :: "nvgpu_gmmu_pd \<Rightarrow> pd_mm \<Rightarrow> (nvgpu_gmmu_pd \<times> pd_mm) option" where
  "nvgpu_pd_cache_free_direct pd mm =
     (case pd_mem pd of
        None \<Rightarrow> Some (pd, mm)
      | Some p \<Rightarrow> do { m \<leftarrow> mm_mems mm p; Some (pd\<lparr>pd_mem := None\<rparr>, mm\<lparr>mm_mems := (mm_mems mm)(p := None)\<rparr>) })"

definition nvgpu_pd_cache_free_mem_entry :: "nvgpu_pd_cache \<Rightarrow> nat \<Rightarrow> pd_mm \<Rightarrow> pd_mm" where
  "nvgpu_pd_cache_free_mem_entry cache p mm =
     (let cache = pc_list_del p cache in
      mm\<lparr>mm_pd_cache := Some (cache\<lparr>pc_mem_tree := idx_unlink p (pc_mem_tree cache)\<rparr>),
         mm_mems := (mm_mems mm)(p := None), mm_entries := (mm_entries mm)(p := None)\<rparr>)"

text \<open>Clearing a range of words.\<close>

definition clear_words :: "nat \<Rightarrow> nat \<Rightarrow> u32 list \<Rightarrow> u32 list" where
  "clear_words start n ws = take start ws @ replicate (min n (length ws - start)) 0 @ drop (start + n) ws"

definition nvgpu_pd_cache_do_free :: "nvgpu_pd_cache \<Rightarrow> nat \<Rightarrow> nvgpu_gmmu_pd \<Rightarrow> pd_mm \<Rightarrow> (nvgpu_gmmu_pd \<times> pd_mm) option" where
  "nvgpu_pd_cache_do_free cache p pd mm =
     do {
       pentry \<leftarrow> mm_entries mm p;
       nvgpu_assert (pe_pd_size pentry \<noteq> 0);
       m \<leftarrow> nvgpu_clear_bit (pd_mem_offs pd div pe_pd_size pentry) (pe_alloc_map pentry);
       n \<leftarrow> nvgpu_safe_sub_u32 (pe_allocs pentry) 1;
       let mm = mm\<lparr>mm_entries := (mm_entries mm)(p \<mapsto> pentry\<lparr>pe_alloc_map := m, pe_allocs := n\<rparr>)\<rparr>;
       mm \<leftarrow>
         (if n > 0
          then do {
            q \<leftarrow> pd_mem pd;
            mem \<leftarrow> mm_mems mm q;
            let mem = (if mem_cpu_va mem then mem\<lparr>mem_words := clear_words (pd_mem_offs pd div 4) (pd_pd_size pd div 4) (mem_words mem)\<rparr> else mem);
            i \<leftarrow> nvgpu_pd_cache_nr (pe_pd_size pentry);
            nvgpu_assert (i < NVGPU_PD_CACHE_COUNT);
            let cache = pc_list_del p cache;
            Some (mm\<lparr>mm_mems := (mm_mems mm)(q \<mapsto> mem),
                     mm_pd_cache := Some (cache\<lparr>pc_partial := (pc_partial cache)(i := p # pc_partial cache i)\<rparr>)\<rparr>) }
          else Some (nvgpu_pd_cache_free_mem_entry cache p mm));
       Some (pd\<lparr>pd_mem := None\<rparr>, mm) }"

definition nvgpu_pd_cache_look_up :: "nvgpu_pd_cache \<Rightarrow> nvgpu_gmmu_pd \<Rightarrow> nat option" where
  "nvgpu_pd_cache_look_up cache pd = (case pd_mem pd of None \<Rightarrow> idx_search 0 (pc_mem_tree cache) | Some p \<Rightarrow> idx_search p (pc_mem_tree cache))"

definition nvgpu_pd_cache_free :: "nvgpu_pd_cache \<Rightarrow> nvgpu_gmmu_pd \<Rightarrow> pd_mm \<Rightarrow> (nvgpu_gmmu_pd \<times> pd_mm) option" where
  "nvgpu_pd_cache_free cache pd mm = do { p \<leftarrow> nvgpu_pd_cache_look_up cache pd; nvgpu_pd_cache_do_free cache p pd mm }"

definition nvgpu_pd_free :: "nvgpu_gmmu_pd \<Rightarrow> pd_mm \<Rightarrow> (nvgpu_gmmu_pd \<times> pd_mm) option" where
  "nvgpu_pd_free pd mm =
     (if \<not> pd_cached pd then nvgpu_pd_cache_free_direct pd mm
      else do { cache \<leftarrow> mm_pd_cache mm; nvgpu_pd_cache_free cache pd mm })"

end
