(* ===== verification/Pd_Cache_Inv.thy ===== *)
theory Pd_Cache_Inv
  imports Pd_Cache
begin

text \<open>
  The invariant of the cache of page directories, for the directories \<open>out\<close> its clients hold: every slot that is taken belongs to one of them, the
  entries are in the lists their fill says, and the words of a free slot are zero.
\<close>

section \<open>Entries\<close>

definition slots :: "nvgpu_pd_mem_entry \<Rightarrow> nat set" where
  "slots e = {k. k < 64 * length (pe_alloc_map e) \<and> tb (pe_alloc_map e) k}"

definition cap :: "nvgpu_pd_mem_entry \<Rightarrow> nat" where
  "cap e = NVGPU_PD_CACHE_SIZE div pe_pd_size e"

definition entry_ok :: "nvgpu_pd_mem_entry \<Rightarrow> bool" where
  "entry_ok e \<longleftrightarrow> (\<exists>i<8. pe_pd_size e = 2 ^ (8 + i)) \<and> length (pe_alloc_map e) = 4 \<and> (\<forall>k\<in>slots e. k < cap e) \<and> pe_allocs e = card (slots e) \<and> slots e \<noteq> {}"

lemma size_facts:
  assumes "pe_pd_size e = 2 ^ (8 + i)" "i < 8"
  shows "cap e = 2 ^ (8 - i)" "cap e * pe_pd_size e = 65536" "cap e * (pe_pd_size e div 4) = 16384" "cap e \<le> 256" "0 < pe_pd_size e div 4" "4 dvd pe_pd_size e"
    "nvgpu_pd_cache_nr (pe_pd_size e) = Some i" "k * pe_pd_size e div 4 = k * (pe_pd_size e div 4)" "2 \<le> cap e"
proof -
  have p: "(65536::nat) = 2 ^ (8 - i) * 2 ^ (8 + i)" using assms(2) by (simp flip: power_add)
  show c: "cap e = 2 ^ (8 - i)" unfolding cap_def assms(1) p by simp
  show "cap e * pe_pd_size e = 65536" unfolding c assms(1) using p by simp
  have d: "(2::nat) ^ (8 + i) = 4 * 2 ^ (6 + i)" by (simp add: power_add)
  then have q: "pe_pd_size e div 4 = 2 ^ (6 + i)" "4 dvd pe_pd_size e" using assms(1) by simp_all
  then show "0 < pe_pd_size e div 4" "4 dvd pe_pd_size e" by simp_all
  show "cap e * (pe_pd_size e div 4) = 16384" unfolding c q(1) using assms(2) by (simp flip: power_add)
  have "(2::nat) ^ (8 - i) \<le> 2 ^ 8" by (intro power_increasing) auto
  then show "cap e \<le> 256" using c by simp
  show "k * pe_pd_size e div 4 = k * (pe_pd_size e div 4)" using q(2) by (rule div_mult_swap[symmetric])
  have "(2::nat) ^ 1 \<le> 2 ^ (8 - i)" using assms(2) by (intro power_increasing) auto
  then show "2 \<le> cap e" using c by simp
  have s: "(2::nat) ^ (8 + i) div 2 ^ 8 = 2 ^ i" by (simp add: power_add)
  have "(2::nat) ^ i \<le> 2 ^ 7" using assms(2) by (intro power_increasing) auto
  then have "(0::nat) < 2 ^ i" "(2::nat) ^ i \<le> U64_MAX" by simp_all
  note f = nvgpu_fls_correct[OF this]
  obtain n where n: "nvgpu_fls (2 ^ i) = Suc n" using f(1) by (cases "nvgpu_fls (2 ^ i)") auto
  have "(2::nat) ^ n \<le> 2 ^ i" "(2::nat) ^ i < 2 ^ Suc n" using f(3,4) n by simp_all
  then have "n \<le> i" "i < Suc n" using power_le_imp_le_exp[of "2::nat" n i] power_less_imp_less_exp[of "2::nat" i "Suc n"] by simp_all
  then have "nvgpu_ilog2 (2 ^ i) = Some i" using n by (simp add: nvgpu_ilog2_def)
  then show "nvgpu_pd_cache_nr (pe_pd_size e) = Some i" unfolding nvgpu_pd_cache_nr_def assms(1) using s assms(2) by simp
qed

lemma entry_okD:
  assumes "entry_ok e"
  obtains i where "i < 8" "pe_pd_size e = 2 ^ (8 + i)"
  using assms by (auto simp: entry_ok_def)

lemma slots_finite: "entry_ok e \<Longrightarrow> finite (slots e)" "entry_ok e \<Longrightarrow> card (slots e) \<le> cap e"
proof -
  assume "entry_ok e"
  then have "slots e \<subseteq> {..<cap e}" by (auto simp: entry_ok_def)
  then show "finite (slots e)" "card (slots e) \<le> cap e" using finite_subset[of "slots e" "{..<cap e}"] card_mono[of "{..<cap e}" "slots e"] by simp_all
qed

definition mem_ok :: "nvgpu_pd_mem_entry \<Rightarrow> nvgpu_mem \<Rightarrow> bool" where
  "mem_ok e m \<longleftrightarrow> mem_cpu_va m \<and> length (mem_words m) = 16384 \<and>
     (\<forall>k<cap e. k \<notin> slots e \<longrightarrow> (\<forall>j<pe_pd_size e div 4. mem_words m ! (k * (pe_pd_size e div 4) + j) = 0))"

definition entries_ok :: "(nat \<rightharpoonup> nvgpu_pd_mem_entry) \<Rightarrow> (nat \<rightharpoonup> nvgpu_mem) \<Rightarrow> bool" where
  "entries_ok E M \<longleftrightarrow> (\<forall>p e. E p = Some e \<longrightarrow> entry_ok e \<and> (\<exists>m. M p = Some m \<and> mem_ok e m))"

definition lists_ok :: "nvgpu_pd_cache \<Rightarrow> (nat \<rightharpoonup> nvgpu_pd_mem_entry) \<Rightarrow> bool" where
  "lists_ok c E \<longleftrightarrow> (\<forall>i<8. set (pc_partial c i) = {p. \<exists>e. E p = Some e \<and> pe_pd_size e = 2 ^ (8 + i) \<and> card (slots e) < cap e} \<and>
     set (pc_full c i) = {p. \<exists>e. E p = Some e \<and> pe_pd_size e = 2 ^ (8 + i) \<and> \<not> card (slots e) < cap e})"

definition tree_ok :: "nvgpu_pd_cache \<Rightarrow> (nat \<rightharpoonup> nvgpu_pd_mem_entry) \<Rightarrow> bool" where
  "tree_ok c E \<longleftrightarrow> idx_sorted (pc_mem_tree c) \<and> set (pc_mem_tree c) = {(p, p) | p. p \<in> dom E}"

section \<open>Directories\<close>

text \<open>The words of a directory.\<close>

definition pd_words :: "(nat \<rightharpoonup> nvgpu_mem) \<Rightarrow> nvgpu_gmmu_pd \<Rightarrow> u32 list" where
  "pd_words M pd = map (\<lambda>j. mem_words (the (M (the (pd_mem pd)))) ! (pd_mem_offs pd div 4 + j)) [0..<pd_pd_size pd div 4]"

definition handle_ok :: "(nat \<rightharpoonup> nvgpu_pd_mem_entry) \<Rightarrow> (nat \<rightharpoonup> nvgpu_mem) \<Rightarrow> nvgpu_gmmu_pd \<Rightarrow> bool" where
  "handle_ok E M pd \<longleftrightarrow> (\<exists>p. pd_mem pd = Some p \<and>
     (if pd_cached pd then \<exists>e k. E p = Some e \<and> k \<in> slots e \<and> pd_mem_offs pd = k * pe_pd_size e \<and> pd_pd_size pd = pe_pd_size e
      else E p = None \<and> pd_mem_offs pd = 0 \<and> (\<exists>m. M p = Some m \<and> mem_cpu_va m \<and> length (mem_words m) = pd_pd_size pd div 4)))"

definition owned :: "(nat \<rightharpoonup> nvgpu_gmmu_pd) \<Rightarrow> nat \<Rightarrow> nat \<Rightarrow> bool" where
  "owned out p offs \<longleftrightarrow> (\<exists>h pd. out h = Some pd \<and> pd_mem pd = Some p \<and> pd_mem_offs pd = offs)"

definition handles_ok :: "(nat \<rightharpoonup> nvgpu_pd_mem_entry) \<Rightarrow> (nat \<rightharpoonup> nvgpu_mem) \<Rightarrow> (nat \<rightharpoonup> nvgpu_gmmu_pd) \<Rightarrow> bool" where
  "handles_ok E M out \<longleftrightarrow> (\<forall>h pd. out h = Some pd \<longrightarrow> handle_ok E M pd) \<and>
     (\<forall>h pd h' pd'. out h = Some pd \<longrightarrow> out h' = Some pd' \<longrightarrow> pd_mem pd = pd_mem pd' \<longrightarrow> pd_mem_offs pd = pd_mem_offs pd' \<longrightarrow> h = h') \<and>
     (\<forall>p e k. E p = Some e \<longrightarrow> k \<in> slots e \<longrightarrow> owned out p (k * pe_pd_size e)) \<and> (\<forall>p m. M p = Some m \<longrightarrow> E p = None \<longrightarrow> owned out p 0)"

definition pd_inv :: "pd_mm \<Rightarrow> (nat \<rightharpoonup> nvgpu_gmmu_pd) \<Rightarrow> bool" where
  "pd_inv mm out \<longleftrightarrow> (\<exists>c. mm_pd_cache mm = Some c \<and> lists_ok c (mm_entries mm) \<and> tree_ok c (mm_entries mm)) \<and> entries_ok (mm_entries mm) (mm_mems mm) \<and>
     handles_ok (mm_entries mm) (mm_mems mm) out \<and> (\<forall>p\<in>dom (mm_mems mm). p < mm_fresh mm)"

lemma handles_okD:
  assumes "handles_ok E M out"
  shows "out h = Some pd \<Longrightarrow> handle_ok E M pd"
    "out h = Some pd \<Longrightarrow> out h' = Some pd' \<Longrightarrow> pd_mem pd = pd_mem pd' \<Longrightarrow> pd_mem_offs pd = pd_mem_offs pd' \<Longrightarrow> h = h'"
    "E p = Some e \<Longrightarrow> k \<in> slots e \<Longrightarrow> owned out p (k * pe_pd_size e)" "M p = Some m \<Longrightarrow> E p = None \<Longrightarrow> owned out p 0"
  using assms unfolding handles_ok_def by blast+

lemma pd_invD:
  assumes "pd_inv mm out"
  shows "\<exists>c. mm_pd_cache mm = Some c \<and> lists_ok c (mm_entries mm) \<and> tree_ok c (mm_entries mm)" "entries_ok (mm_entries mm) (mm_mems mm)"
    "handles_ok (mm_entries mm) (mm_mems mm) out" "p \<in> dom (mm_mems mm) \<Longrightarrow> p < mm_fresh mm"
    "mm_entries mm p = Some e \<Longrightarrow> entry_ok e" "mm_entries mm p = Some e \<Longrightarrow> \<exists>m. mm_mems mm p = Some m \<and> mem_ok e m"
  using assms unfolding pd_inv_def entries_ok_def by blast+

lemma fresh_unused:
  assumes "pd_inv mm out"
  shows "mm_mems mm (mm_fresh mm) = None" "mm_entries mm (mm_fresh mm) = None" "out h = Some pd \<Longrightarrow> pd_mem pd \<noteq> Some (mm_fresh mm)"
proof -
  have n: "mm_fresh mm \<notin> dom (mm_mems mm)" using pd_invD(4)[OF assms] by blast
  show "mm_mems mm (mm_fresh mm) = None" using n by (simp add: domIff)
  show e: "mm_entries mm (mm_fresh mm) = None"
  proof (cases "mm_entries mm (mm_fresh mm)")
    case (Some e)
    then show ?thesis using pd_invD(6)[OF assms Some] n by auto
  qed
  show "out h = Some pd \<Longrightarrow> pd_mem pd \<noteq> Some (mm_fresh mm)"
    using handles_okD(1)[OF pd_invD(3)[OF assms], of h pd] n e by (auto simp: handle_ok_def split: if_splits)
qed

text \<open>Two directories in the same memory are slots of the same entry, and do not overlap.\<close>

lemma handles_apart:
  assumes i: "pd_inv mm out" and h: "out h = Some pd" "out h' = Some pd'" "h \<noteq> h'" "pd_mem pd = Some p" "pd_mem pd' = Some p"
  shows "pd_mem_offs pd div 4 + pd_pd_size pd div 4 \<le> pd_mem_offs pd' div 4 \<or> pd_mem_offs pd' div 4 + pd_pd_size pd' div 4 \<le> pd_mem_offs pd div 4"
proof -
  note H = handles_okD[OF pd_invD(3)[OF i]]
  have ne: "pd_mem_offs pd \<noteq> pd_mem_offs pd'" using H(2)[OF h(1,2)] h(3-5) by auto
  have c: "pd_cached pd" "pd_cached pd'" using H(1)[OF h(1)] H(1)[OF h(2)] h(4,5) ne by (auto simp: handle_ok_def split: if_splits)
  obtain e k where e: "mm_entries mm p = Some e" "pd_mem_offs pd = k * pe_pd_size e" "pd_pd_size pd = pe_pd_size e" using H(1)[OF h(1)] c h(4) by (auto simp: handle_ok_def)
  obtain k' where e': "pd_mem_offs pd' = k' * pe_pd_size e" "pd_pd_size pd' = pe_pd_size e" using H(1)[OF h(2)] c h(5) e(1) by (auto simp: handle_ok_def)
  obtain j where j: "j < 8" "pe_pd_size e = 2 ^ (8 + j)" using entry_okD[OF pd_invD(5)[OF i e(1)]] by blast
  note s = size_facts(8)[OF j(2,1)]
  have "k \<noteq> k'" using ne e(2) e'(1) by auto
  then consider "Suc k \<le> k'" | "Suc k' \<le> k" by linarith
  then show ?thesis
  proof cases
    case 1
    then have "Suc k * (pe_pd_size e div 4) \<le> k' * (pe_pd_size e div 4)" by (rule mult_le_mono1)
    then show ?thesis unfolding e(2,3) e'(1) s by simp
  next
    case 2
    then have "Suc k' * (pe_pd_size e div 4) \<le> k * (pe_pd_size e div 4)" by (rule mult_le_mono1)
    then show ?thesis unfolding e(2) e'(1,2) s by simp
  qed
qed

lemma handle_inside:
  assumes i: "pd_inv mm out" and h: "out h = Some pd"
  shows "\<exists>p m. pd_mem pd = Some p \<and> mm_mems mm p = Some m \<and> mem_cpu_va m \<and> pd_mem_offs pd div 4 + pd_pd_size pd div 4 \<le> length (mem_words m)"
proof -
  note H = handles_okD(1)[OF pd_invD(3)[OF i] h]
  show ?thesis
  proof (cases "pd_cached pd")
    case False
    then show ?thesis using H by (auto simp: handle_ok_def)
  next
    case True
    then obtain p e k where e: "pd_mem pd = Some p" "mm_entries mm p = Some e" "k \<in> slots e" "pd_mem_offs pd = k * pe_pd_size e" "pd_pd_size pd = pe_pd_size e"
      using H by (auto simp: handle_ok_def)
    obtain m where m: "mm_mems mm p = Some m" "mem_ok e m" using pd_invD(6)[OF i e(2)] by blast
    have ok: "entry_ok e" by (rule pd_invD(5)[OF i e(2)])
    obtain j where j: "j < 8" "pe_pd_size e = 2 ^ (8 + j)" using entry_okD[OF ok] by blast
    note s = size_facts[OF j(2,1)]
    have "Suc k \<le> cap e" using ok e(3) by (auto simp: entry_ok_def Suc_le_eq)
    then have "Suc k * (pe_pd_size e div 4) \<le> cap e * (pe_pd_size e div 4)" by (rule mult_le_mono1)
    then have "pd_mem_offs pd div 4 + pd_pd_size pd div 4 \<le> 16384" unfolding e(4,5) s(8) s(3) by simp
    then show ?thesis using e(1) m by (auto simp: mem_ok_def)
  qed
qed

lemma pd_words_cong:
  assumes "pd_mem pd = Some p" "\<And>j. j < pd_pd_size pd div 4 \<Longrightarrow> mem_words (the (M' p)) ! (pd_mem_offs pd div 4 + j) = mem_words (the (M p)) ! (pd_mem_offs pd div 4 + j)"
  shows "pd_words M' pd = pd_words M pd"
  using assms by (simp add: pd_words_def)

end
