(* ===== verification/Pd_Cache_Steps.thy ===== *)
theory Pd_Cache_Steps
  imports Pd_Cache_Inv
begin

text \<open>
  How the parts of the invariant of the page directory cache change when a directory is taken, given back or written.
\<close>

section \<open>Lists and the tree\<close>

lemma lists_ok_iff:
  "lists_ok c E \<longleftrightarrow> (\<forall>i<8. \<forall>q. (q \<in> set (pc_partial c i) \<longleftrightarrow> (\<exists>e. E q = Some e \<and> pe_pd_size e = 2 ^ (8 + i) \<and> card (slots e) < cap e)) \<and>
     (q \<in> set (pc_full c i) \<longleftrightarrow> (\<exists>e. E q = Some e \<and> pe_pd_size e = 2 ^ (8 + i) \<and> \<not> card (slots e) < cap e)))"
  unfolding lists_ok_def set_eq_iff mem_Collect_eq by blast

lemma lists_del:
  assumes "lists_ok c E"
  shows "lists_ok (pc_list_del p c) (E(p := None))"
  using assms unfolding lists_ok_iff pc_list_del_def by simp

lemma lists_add_partial:
  assumes "lists_ok c E" "E p = None" "pe_pd_size e = 2 ^ (8 + i)" "card (slots e) < cap e"
  shows "lists_ok (c\<lparr>pc_partial := (pc_partial c)(i := p # pc_partial c i)\<rparr>) (E(p \<mapsto> e))"
  using assms unfolding lists_ok_iff by auto

lemma lists_add_full:
  assumes "lists_ok c E" "E p = None" "pe_pd_size e = 2 ^ (8 + i)" "\<not> card (slots e) < cap e"
  shows "lists_ok (c\<lparr>pc_full := (pc_full c)(i := p # pc_full c i)\<rparr>) (E(p \<mapsto> e))"
  using assms unfolding lists_ok_iff by auto

lemma lists_stay:
  assumes "lists_ok c E" "E p = Some e" "pe_pd_size e' = pe_pd_size e" "card (slots e) < cap e" "card (slots e') < cap e'"
  shows "lists_ok c (E(p \<mapsto> e'))"
  using assms unfolding lists_ok_iff by auto

lemma lists_tree_cong: "lists_ok (c\<lparr>pc_mem_tree := t\<rparr>) E = lists_ok c E"
  by (simp add: lists_ok_def)

lemma tree_insert:
  assumes "tree_ok c E" "E p = None"
  shows "tree_ok (c\<lparr>pc_mem_tree := idx_insert p p (pc_mem_tree c)\<rparr>) (E(p \<mapsto> e))"
proof -
  have s: "idx_sorted (pc_mem_tree c)" "set (pc_mem_tree c) = {(p, p) | p. p \<in> dom E}" using assms(1) by (auto simp: tree_ok_def)
  have "idx_search p (pc_mem_tree c) \<noteq> Some v" for v unfolding idx_search_iff[OF s(1)] s(2) using assms(2) by auto
  then have "idx_search p (pc_mem_tree c) = None" by (cases "idx_search p (pc_mem_tree c)") auto
  then show ?thesis unfolding tree_ok_def using s by (auto simp: set_idx_insert_new)
qed

lemma tree_remove:
  assumes "tree_ok c E"
  shows "tree_ok (c\<lparr>pc_mem_tree := idx_unlink p (pc_mem_tree c)\<rparr>) (E(p := None))"
  using assms unfolding tree_ok_def by (auto simp: set_idx_unlink)

lemma tree_same:
  assumes "tree_ok c E" "E p = Some e" "pc_mem_tree c' = pc_mem_tree c"
  shows "tree_ok c' (E(p \<mapsto> e'))"
  using assms unfolding tree_ok_def by (auto simp: insert_absorb domI)

lemma tree_look_up:
  assumes "tree_ok c E" "E p = Some e" "pd_mem pd = Some p"
  shows "nvgpu_pd_cache_look_up c pd = Some p"
  using assms by (auto simp: nvgpu_pd_cache_look_up_def tree_ok_def idx_search_iff)

section \<open>Memory\<close>

lemma clear_words_nth:
  assumes "start + n \<le> length ws"
  shows "length (clear_words start n ws) = length ws" "i < length ws \<Longrightarrow> clear_words start n ws ! i = (if start \<le> i \<and> i < start + n then 0 else ws ! i)"
proof -
  have m: "min n (length ws - start) = n" using assms by simp
  show "length (clear_words start n ws) = length ws" using assms unfolding clear_words_def m by simp
  show "i < length ws \<Longrightarrow> clear_words start n ws ! i = (if start \<le> i \<and> i < start + n then 0 else ws ! i)"
    using assms unfolding clear_words_def m by (auto simp: nth_append)
qed

lemma slot_bound:
  assumes "entry_ok e" "k < cap e" "j < pe_pd_size e div 4"
  shows "k * (pe_pd_size e div 4) + j < 16384"
proof -
  obtain i where i: "i < 8" "pe_pd_size e = 2 ^ (8 + i)" using entry_okD[OF assms(1)] by blast
  have "Suc k * (pe_pd_size e div 4) \<le> cap e * (pe_pd_size e div 4)" using assms(2) by (intro mult_le_mono1) simp
  then show ?thesis using assms(3) unfolding size_facts(3)[OF i(2,1)] by simp
qed

lemma slots_apart:
  assumes "k \<noteq> (k'::nat)" "j < s" "j' < s"
  shows "k * s + j \<noteq> k' * s + j'"
proof
  assume "k * s + j = k' * s + j'"
  then have "(k * s + j) div s = (k' * s + j') div s" by simp
  then show False using assms by simp
qed

lemma mem_ok_fresh:
  assumes "entry_ok e"
  shows "mem_ok e (nvgpu_dma_alloc_flags NVGPU_PD_CACHE_SIZE)"
  using slot_bound[OF assms] by (auto simp: mem_ok_def nvgpu_dma_alloc_flags_def)

lemma mem_ok_take:
  assumes "mem_ok e m" "slots e \<subseteq> slots e'" "pe_pd_size e' = pe_pd_size e"
  shows "mem_ok e' m"
  using assms unfolding mem_ok_def cap_def by auto

lemma mem_ok_release:
  assumes m: "mem_ok e m" and e: "entry_ok e" "k \<in> slots e" "pd_mem_offs pd = k * pe_pd_size e" "pd_pd_size pd = pe_pd_size e"
    and e': "slots e' = slots e - {k}" "pe_pd_size e' = pe_pd_size e"
    and m': "m' = m\<lparr>mem_words := clear_words (pd_mem_offs pd div 4) (pd_pd_size pd div 4) (mem_words m)\<rparr>"
  shows "mem_ok e' m'" "i < 16384 \<Longrightarrow> mem_words m' ! i = (if k * (pe_pd_size e div 4) \<le> i \<and> i < k * (pe_pd_size e div 4) + pe_pd_size e div 4 then 0 else mem_words m ! i)"
proof -
  let ?s = "pe_pd_size e div 4"
  obtain i where i: "i < 8" "pe_pd_size e = 2 ^ (8 + i)" using entry_okD[OF e(1)] by blast
  have k: "k < cap e" using e(1,2) by (auto simp: entry_ok_def)
  have "Suc k * ?s \<le> cap e * ?s" using k by (intro mult_le_mono1) simp
  then have b: "k * ?s + ?s \<le> length (mem_words m)" using m unfolding size_facts(3)[OF i(2,1)] mem_ok_def by simp
  have o: "pd_mem_offs pd div 4 = k * ?s" "pd_pd_size pd div 4 = ?s" using e(3,4) size_facts(8)[OF i(2,1)] by simp_all
  have l: "length (mem_words m) = 16384" using m by (simp add: mem_ok_def)
  show w: "i < 16384 \<Longrightarrow> mem_words m' ! i = (if k * ?s \<le> i \<and> i < k * ?s + ?s then 0 else mem_words m ! i)" for i
    unfolding m' o using clear_words_nth(2)[OF b] l by simp
  have "mem_words m' ! (l * ?s + j) = 0" if l: "l < cap e" "l \<notin> slots e - {k}" "j < ?s" for l j
  proof (cases "l = k")
    case False
    then have "mem_words m ! (l * ?s + j) = 0" using l m by (auto simp: mem_ok_def)
    then show ?thesis using w[OF slot_bound[OF e(1) l(1,3)]] by simp
  qed (use w[OF slot_bound[OF e(1) l(1,3)]] l(3) in simp)
  then show "mem_ok e' m'" unfolding mem_ok_def e' using m clear_words_nth(1)[OF b] by (auto simp: m' o mem_ok_def cap_def e')
qed

section \<open>Directories\<close>

lemma handle_ok_away:
  assumes "handle_ok E M x" "pd_mem x \<noteq> Some p" "\<And>q. q \<noteq> p \<Longrightarrow> E' q = E q" "\<And>q. q \<noteq> p \<Longrightarrow> M' q = M q"
  shows "handle_ok E' M' x"
proof -
  obtain q where q: "pd_mem x = Some q" using assms(1) by (auto simp: handle_ok_def)
  then have "E' q = E q" "M' q = M q" using assms(2-4) by auto
  then show ?thesis using assms(1) q by (auto simp: handle_ok_def)
qed

lemma handles_take:
  assumes H: "handles_ok E M out" and new: "out h = None" and same: "\<And>q. q \<noteq> p \<Longrightarrow> E' q = E q" "\<And>q. q \<noteq> p \<Longrightarrow> M' q = M q"
    and e': "E' p = Some e'" "slots e' = insert k S" "k \<notin> S" "0 < pe_pd_size e'"
    and old: "E p = None \<and> M p = None \<and> S = {} \<or> (\<exists>e. E p = Some e \<and> slots e = S \<and> pe_pd_size e = pe_pd_size e')"
    and pd: "pd_mem pd = Some p" "pd_mem_offs pd = k * pe_pd_size e'" "pd_cached pd" "pd_pd_size pd = pe_pd_size e'"
  shows "handles_ok E' M' (out(h \<mapsto> pd))"
proof -
  note H' = handles_okD[OF H]
  have at: "\<exists>e j. E p = Some e \<and> j \<in> S \<and> pd_cached x \<and> pd_mem_offs x = j * pe_pd_size e' \<and> pd_pd_size x = pe_pd_size e'" if "out g = Some x" "pd_mem x = Some p" for g x
    using H'(1)[OF that(1)] that(2) old by (auto simp: handle_ok_def split: if_splits)
  have ok: "handle_ok E' M' x" if x: "out g = Some x" for g x
  proof (cases "pd_mem x = Some p")
    case True
    then show ?thesis using at[OF x True] e' by (auto simp: handle_ok_def)
  next
    case False
    then show ?thesis using handle_ok_away[OF H'(1)[OF x] False same] by simp
  qed
  have apart: "pd_mem_offs x \<noteq> pd_mem_offs pd" if "out g = Some x" "pd_mem x = Some p" for g x using at[OF that] e'(3,4) pd(2) by auto
  have own: "owned (out(h \<mapsto> pd)) q o'" if "owned out q o'" for q o' using that new unfolding owned_def by (metis fun_upd_other option.distinct(1))
  have own': "owned (out(h \<mapsto> pd)) p (k * pe_pd_size e')" using pd unfolding owned_def by (intro exI[of _ h] exI[of _ pd]) simp
  have own_slot: "owned (out(h \<mapsto> pd)) q (j * pe_pd_size f)" if q: "E' q = Some f" "j \<in> slots f" for q f j
  proof (cases "q = p")
    case True
    then have f: "f = e'" using q(1) e'(1) by simp
    show ?thesis
    proof (cases "j = k")
      case True
      then show ?thesis using own' \<open>q = p\<close> f by simp
    next
      case False
      then have "j \<in> S" using q(2) f e'(2) by simp
      then show ?thesis using own[OF H'(3)[of p _ j]] old \<open>q = p\<close> f by fastforce
    qed
  next
    case False
    then show ?thesis using own[OF H'(3)[OF _ q(2)]] same(1)[OF False] q(1) by simp
  qed
  have own_mem: "owned (out(h \<mapsto> pd)) q 0" if "M' q = Some m" "E' q = None" for q m
    using that own[OF H'(4)[of q m]] same[of q] e'(1) by (cases "q = p") auto
  have pdok: "handle_ok E' M' pd" using pd e' by (auto simp: handle_ok_def)
  have uniq: "g = g'" if "(out(h \<mapsto> pd)) g = Some x" "(out(h \<mapsto> pd)) g' = Some x'" "pd_mem x = pd_mem x'" "pd_mem_offs x = pd_mem_offs x'" for g g' x x'
    using that apart[of g x] apart[of g' x'] H'(2)[of g x g' x'] pd(1) by (auto split: if_splits)
  show ?thesis unfolding handles_ok_def
  proof (intro conjI allI impI)
    fix g x assume "(out(h \<mapsto> pd)) g = Some x"
    then show "handle_ok E' M' x" using ok[of g x] pdok by (auto split: if_splits)
  qed (fact uniq own_slot own_mem)+
qed

lemma handles_take_direct:
  assumes H: "handles_ok E M out" and new: "out h = None" "E p = None" "M p = None"
    and m: "mem_cpu_va m" "length (mem_words m) = pd_pd_size pd div 4"
    and pd: "pd_mem pd = Some p" "pd_mem_offs pd = 0" "\<not> pd_cached pd"
  shows "handles_ok E (M(p \<mapsto> m)) (out(h \<mapsto> pd))"
proof -
  note H' = handles_okD[OF H]
  have at: "pd_mem x \<noteq> Some p" if "out g = Some x" for g x using H'(1)[OF that] new by (auto simp: handle_ok_def split: if_splits)
  have ok: "handle_ok E (M(p \<mapsto> m)) x" if "out g = Some x" for g x using handle_ok_away[OF H'(1)[OF that] at[OF that]] by simp
  have own: "owned (out(h \<mapsto> pd)) q o'" if "owned out q o'" for q o' using that new unfolding owned_def by (metis fun_upd_other option.distinct(1))
  have own': "owned (out(h \<mapsto> pd)) p 0" using pd unfolding owned_def by (intro exI[of _ h] exI[of _ pd]) simp
  have own_mem: "owned (out(h \<mapsto> pd)) q 0" if "(M(p \<mapsto> m)) q = Some x" "E q = None" for q x
    using that own[OF H'(4)[of q x]] own' by (cases "q = p") auto
  have pdok: "handle_ok E (M(p \<mapsto> m)) pd" using pd m new by (auto simp: handle_ok_def)
  have uniq: "g = g'" if "(out(h \<mapsto> pd)) g = Some x" "(out(h \<mapsto> pd)) g' = Some x'" "pd_mem x = pd_mem x'" "pd_mem_offs x = pd_mem_offs x'" for g g' x x'
    using that at[of g x] at[of g' x'] H'(2)[of g x g' x'] pd(1) by (auto split: if_splits)
  show ?thesis unfolding handles_ok_def
  proof (intro conjI allI impI)
    fix g x assume "(out(h \<mapsto> pd)) g = Some x"
    then show "handle_ok E (M(p \<mapsto> m)) x" using ok[of g x] pdok by (auto split: if_splits)
  next
    fix q e k assume "E q = Some e" "k \<in> slots e"
    then show "owned (out(h \<mapsto> pd)) q (k * pe_pd_size e)" using own[OF H'(3)] by blast
  qed (fact uniq own_mem)+
qed

text \<open>Giving a directory back: its slot is free afterwards, or its entry is gone with it.\<close>

lemma owned_drop:
  assumes "owned out q o'" "out h = Some pd" "pd_mem pd \<noteq> Some q \<or> pd_mem_offs pd \<noteq> o'"
  shows "owned (out(h := None)) q o'"
  using assms unfolding owned_def by (metis fun_upd_other option.inject)

lemma handles_release:
  assumes H: "handles_ok E M out" and h: "out h = Some pd" "pd_mem pd = Some p" "pd_cached pd" "pd_mem_offs pd = k * pe_pd_size e"
    and same: "\<And>q. q \<noteq> p \<Longrightarrow> E' q = E q" "\<And>q. q \<noteq> p \<Longrightarrow> M' q = M q"
    and e: "E p = Some e" "0 < pe_pd_size e" "k \<in> slots e"
    and new: "E' p = None \<and> M' p = None \<and> slots e = {k} \<or> (\<exists>e'. E' p = Some e' \<and> slots e' = slots e - {k} \<and> pe_pd_size e' = pe_pd_size e)"
  shows "handles_ok E' M' (out(h := None))"
proof -
  note H' = handles_okD[OF H]
  have ok: "handle_ok E' M' x" if x: "out g = Some x" "g \<noteq> h" for g x
  proof (cases "pd_mem x = Some p")
    case True
    then obtain j where j: "j \<in> slots e" "pd_cached x" "pd_mem_offs x = j * pe_pd_size e" "pd_pd_size x = pe_pd_size e"
      using H'(1)[OF x(1)] e(1) by (auto simp: handle_ok_def split: if_splits)
    have "j \<noteq> k" using H'(2)[OF x(1) h(1)] True h(2,4) j(3) x(2) by auto
    then show ?thesis using j new True by (auto simp: handle_ok_def)
  next
    case False
    then show ?thesis using handle_ok_away[OF H'(1)[OF x(1)] False same] by simp
  qed
  have own_slot: "owned (out(h := None)) q (j * pe_pd_size f)" if q: "E' q = Some f" "j \<in> slots f" for q f j
  proof (cases "q = p")
    case True
    then have j: "j \<in> slots e" "j \<noteq> k" "pe_pd_size f = pe_pd_size e" using q new by auto
    then have "pd_mem_offs pd \<noteq> j * pe_pd_size e" using h(4) e(2) by simp
    then show ?thesis using owned_drop[OF H'(3)[OF e(1) j(1)] h(1)] True j(3) by simp
  next
    case False
    then show ?thesis using owned_drop[OF H'(3)[OF _ q(2)] h(1)] same(1)[OF False] q(1) h(2) by simp
  qed
  have own_mem: "owned (out(h := None)) q 0" if "M' q = Some m" "E' q = None" for q m
    using that owned_drop[OF H'(4)[of q m] h(1)] same[of q] new h(2) by (cases "q = p") auto
  show ?thesis unfolding handles_ok_def
  proof (intro conjI allI impI)
    fix g x g' x' assume "(out(h := None)) g = Some x" "(out(h := None)) g' = Some x'" "pd_mem x = pd_mem x'" "pd_mem_offs x = pd_mem_offs x'"
    then show "g = g'" using H'(2)[of g x g' x'] by (auto split: if_splits)
  next
    fix g x assume "(out(h := None)) g = Some x"
    then show "handle_ok E' M' x" using ok[of g x] by (auto split: if_splits)
  qed (fact own_slot own_mem)+
qed

lemma handles_release_direct:
  assumes H: "handles_ok E M out" and h: "out h = Some pd" "pd_mem pd = Some p" "\<not> pd_cached pd"
  shows "handles_ok E (M(p := None)) (out(h := None))"
proof -
  note H' = handles_okD[OF H]
  have p: "E p = None" "pd_mem_offs pd = 0" using H'(1)[OF h(1)] h(2,3) by (auto simp: handle_ok_def)
  have at: "pd_mem x \<noteq> Some p" if x: "out g = Some x" "g \<noteq> h" for g x
  proof
    assume q: "pd_mem x = Some p"
    then have "pd_mem_offs x = 0" using H'(1)[OF x(1)] p(1) by (auto simp: handle_ok_def split: if_splits)
    then show False using H'(2)[OF x(1) h(1)] q h(2) p(2) x(2) by simp
  qed
  show ?thesis unfolding handles_ok_def
  proof (intro conjI allI impI)
    fix g x assume "(out(h := None)) g = Some x"
    then have x: "out g = Some x" "g \<noteq> h" by (auto split: if_splits)
    then show "handle_ok E (M(p := None)) x" using handle_ok_away[OF H'(1)[OF x(1)] at[OF x]] by simp
  next
    fix g x g' x' assume "(out(h := None)) g = Some x" "(out(h := None)) g' = Some x'" "pd_mem x = pd_mem x'" "pd_mem_offs x = pd_mem_offs x'"
    then show "g = g'" using H'(2)[of g x g' x'] by (auto split: if_splits)
  next
    fix q e k assume q: "E q = Some e" "k \<in> slots e"
    then have "pd_mem pd \<noteq> Some q" using p h(2) by auto
    then show "owned (out(h := None)) q (k * pe_pd_size e)" using owned_drop[OF H'(3)[OF q] h(1)] by blast
  next
    fix q m assume "(M(p := None)) q = Some m" "E q = None"
    then have q: "M q = Some m" "E q = None" "q \<noteq> p" by (auto split: if_splits)
    then show "owned (out(h := None)) q 0" using owned_drop[OF H'(4)[OF q(1,2)] h(1)] h(2) by auto
  qed
qed

text \<open>Changing words changes no directory's place.\<close>

lemma handles_write:
  assumes H: "handles_ok E M out" and m: "M p = Some m" "mem_cpu_va m' = mem_cpu_va m" "length (mem_words m') = length (mem_words m)"
  shows "handles_ok E (M(p \<mapsto> m')) out"
proof -
  note H' = handles_okD[OF H]
  have ok: "handle_ok E (M(p \<mapsto> m')) x" if "out g = Some x" for g x
  proof (cases "pd_mem x = Some p")
    case True
    then show ?thesis using H'(1)[OF that] m by (auto simp: handle_ok_def split: if_splits)
  next
    case False
    then show ?thesis using handle_ok_away[OF H'(1)[OF that] False] by simp
  qed
  have "owned out q 0" if "(M(p \<mapsto> m')) q = Some x" "E q = None" for q x using that H'(4)[of q] m(1) by (auto split: if_splits)
  then show ?thesis unfolding handles_ok_def using ok H'(2,3) by blast
qed

end
