(* ===== verification/Pd_Cache_Ops.thy ===== *)
theory Pd_Cache_Ops
  imports Pd_Cache_Steps
begin

text \<open>
  The operations of the page directory cache on the directories its clients hold and the words in them.
\<close>

text \<open>What the clients see: each directory as its words.\<close>

definition view :: "(nat \<rightharpoonup> nvgpu_mem) \<Rightarrow> (nat \<rightharpoonup> nvgpu_gmmu_pd) \<Rightarrow> nat \<rightharpoonup> u32 list" where
  "view M out = (\<lambda>h. map_option (pd_words M) (out h))"

lemma view_upd:
  assumes "\<And>g x. out g = Some x \<Longrightarrow> g \<noteq> h \<Longrightarrow> pd_words M' x = pd_words M x"
  shows "view M' (out(h := v)) = (view M out)(h := map_option (pd_words M') v)"
proof
  show "view M' (out(h := v)) g = ((view M out)(h := map_option (pd_words M') v)) g" for g using assms[of g] by (cases "out g") (auto simp: view_def)
qed

lemma pd_words_away: "pd_mem x \<noteq> None \<Longrightarrow> pd_mem x \<noteq> Some p \<Longrightarrow> pd_words (M(p := m)) x = pd_words M x"
  by (auto simp: pd_words_def)

lemma pd_invI:
  assumes "mm_pd_cache mm = Some c" "lists_ok c (mm_entries mm)" "tree_ok c (mm_entries mm)" "entries_ok (mm_entries mm) (mm_mems mm)"
    "handles_ok (mm_entries mm) (mm_mems mm) out" "\<And>p. p \<in> dom (mm_mems mm) \<Longrightarrow> p < mm_fresh mm"
  shows "pd_inv mm out"
  using assms unfolding pd_inv_def by blast

lemma pd_invE:
  assumes "pd_inv mm out"
  obtains c where "mm_pd_cache mm = Some c" "lists_ok c (mm_entries mm)" "tree_ok c (mm_entries mm)" "entries_ok (mm_entries mm) (mm_mems mm)"
    "handles_ok (mm_entries mm) (mm_mems mm) out" "\<And>p. p \<in> dom (mm_mems mm) \<Longrightarrow> p < mm_fresh mm"
  using assms unfolding pd_inv_def by blast

lemma entries_ok_upd: "entries_ok E M \<Longrightarrow> entry_ok e \<Longrightarrow> mem_ok e m \<Longrightarrow> M p = Some m \<Longrightarrow> entries_ok (E(p \<mapsto> e)) M"
  unfolding entries_ok_def by simp

lemma entries_ok_mem: "entries_ok E M \<Longrightarrow> E p = None \<Longrightarrow> entries_ok E (M(p := m))"
  unfolding entries_ok_def by auto

lemma pd_mem_held: "pd_inv mm out \<Longrightarrow> out h = Some pd \<Longrightarrow> \<exists>p. pd_mem pd = Some p"
  using handles_okD(1)[OF pd_invD(3)] by (fastforce simp: handle_ok_def)

lemma fresh_le: "pd_inv mm out \<Longrightarrow> mm_fresh mm \<le> f \<Longrightarrow> pd_inv (mm\<lparr>mm_fresh := f\<rparr>) out"
  unfolding pd_inv_def by (auto dest!: bspec intro: less_le_trans)

section \<open>Requests\<close>

text \<open>What a request that is met gives: a directory of \<open>bytes\<close> bytes that reads as zero, next to the ones there were.\<close>

definition pd_given :: "pd_mm \<Rightarrow> (nat \<rightharpoonup> nvgpu_gmmu_pd) \<Rightarrow> nat \<Rightarrow> u32 \<Rightarrow> nvgpu_gmmu_pd \<Rightarrow> pd_mm \<Rightarrow> bool" where
  "pd_given mm out h bytes pd mm' \<longleftrightarrow> pd_inv mm' (out(h \<mapsto> pd)) \<and> view (mm_mems mm') (out(h \<mapsto> pd)) = (view (mm_mems mm) out)(h \<mapsto> replicate (bytes div 4) 0) \<and>
     pd_pd_size pd = bytes \<and> mm_fresh mm \<le> mm_fresh mm'"

lemma pd_words_fresh:
  assumes "M p = Some (nvgpu_dma_alloc_flags n)" "pd_mem pd = Some p" "pd_mem_offs pd = 0" "pd_pd_size pd \<le> n"
  shows "pd_words M pd = replicate (pd_pd_size pd div 4) 0"
proof -
  have "pd_pd_size pd div 4 \<le> n div 4" using assms(4) by (rule div_le_mono)
  then show ?thesis using assms(1-3) by (intro nth_equalityI) (auto simp: pd_words_def nvgpu_dma_alloc_flags_def)
qed

lemma alloc_direct_given:
  assumes i: "pd_inv mm out" and h: "out h = None" and e: "pv_kzalloc_mem e" "pv_dma_direct e = None"
  shows "\<exists>pd' mm'. nvgpu_pd_cache_alloc_direct e pd bytes mm = (Inr (), pd', mm') \<and> pd_given mm out h bytes (pd'\<lparr>pd_pd_size := bytes\<rparr>) mm'"
proof -
  let ?p = "mm_fresh mm" let ?M = "(mm_mems mm)(mm_fresh mm \<mapsto> nvgpu_dma_alloc_flags bytes)"
  let ?pd = "pd\<lparr>pd_mem := Some (mm_fresh mm), pd_cached := False, pd_mem_offs := 0\<rparr>" let ?mm = "mm\<lparr>mm_fresh := mm_fresh mm + 1, mm_mems := ?M\<rparr>"
  have r: "nvgpu_pd_cache_alloc_direct e pd bytes mm = (Inr (), ?pd, ?mm)" using e by (simp add: nvgpu_pd_cache_alloc_direct_def Let_def)
  note f = fresh_unused[OF i]
  obtain c where c: "mm_pd_cache mm = Some c" "lists_ok c (mm_entries mm)" "tree_ok c (mm_entries mm)" "entries_ok (mm_entries mm) (mm_mems mm)"
    "handles_ok (mm_entries mm) (mm_mems mm) out" "\<And>p. p \<in> dom (mm_mems mm) \<Longrightarrow> p < mm_fresh mm" using pd_invE[OF i] by blast
  have H: "handles_ok (mm_entries mm) ?M (out(h \<mapsto> ?pd\<lparr>pd_pd_size := bytes\<rparr>))"
    using handles_take_direct[OF c(5) h f(2,1), of "nvgpu_dma_alloc_flags bytes" "?pd\<lparr>pd_pd_size := bytes\<rparr>"] by (simp add: nvgpu_dma_alloc_flags_def)
  have b: "p \<in> dom (mm_mems ?mm) \<Longrightarrow> p < mm_fresh ?mm" for p using c(6)[of p] by (auto simp: less_Suc_eq)
  have "pd_inv ?mm (out(h \<mapsto> ?pd\<lparr>pd_pd_size := bytes\<rparr>))" by (rule pd_invI[of _ c]) (use c H b entries_ok_mem[OF c(4) f(2)] in simp_all)
  moreover have "pd_words ?M x = pd_words (mm_mems mm) x" if "out g = Some x" for g x using pd_words_away pd_mem_held[OF i that] f(3)[OF that] by auto
  then have "view ?M (out(h \<mapsto> ?pd\<lparr>pd_pd_size := bytes\<rparr>)) = (view (mm_mems mm) out)(h \<mapsto> replicate (bytes div 4) 0)"
    by (subst view_upd[of _ _ _ "mm_mems mm"]) (use pd_words_fresh[of ?M ?p bytes "?pd\<lparr>pd_pd_size := bytes\<rparr>"] in auto)
  ultimately show ?thesis unfolding r pd_given_def by simp
qed

lemma alloc_direct_refused:
  assumes "\<not> (pv_kzalloc_mem e \<and> pv_dma_direct e = None)"
  shows "\<exists>pd' f. nvgpu_pd_cache_alloc_direct e pd bytes mm = (Inl ENOMEM, pd', mm\<lparr>mm_fresh := f\<rparr>) \<and> mm_fresh mm \<le> f"
proof (cases "pv_kzalloc_mem e")
  case False
  then have "nvgpu_pd_cache_alloc_direct e pd bytes mm = (Inl ENOMEM, pd\<lparr>pd_mem := None\<rparr>, mm\<lparr>mm_fresh := mm_fresh mm\<rparr>)"
    by (simp add: nvgpu_pd_cache_alloc_direct_def)
  then show ?thesis by blast
next
  case True
  then have "nvgpu_pd_cache_alloc_direct e pd bytes mm = (Inl ENOMEM, pd\<lparr>pd_mem := Some (mm_fresh mm)\<rparr>, mm\<lparr>mm_fresh := mm_fresh mm + 1\<rparr>)"
    using assms by (simp add: nvgpu_pd_cache_alloc_direct_def Let_def)
  then show ?thesis by fastforce
qed

lemma alloc_new_given:
  assumes i: "pd_inv mm out" and h: "out h = None" and c0: "mm_pd_cache mm = Some c" and b: "bytes = 2 ^ (8 + i')" "i' < 8" and e: "pv_kzalloc_entry e" "pv_dma_entry e = None"
  shows "\<exists>pd' mm'. nvgpu_pd_cache_alloc_new e c pd bytes mm = Some (Inr (), pd', mm') \<and> pd_given mm out h bytes (pd'\<lparr>pd_pd_size := bytes\<rparr>) mm'"
proof -
  obtain m where m: "nvgpu_set_bit 0 (replicate 4 0) = Some m" "length m = 4" "\<And>k. tb m k = (k = 0 \<or> tb (replicate 4 0) k)"
    using nvgpu_set_bit_correct[of 0 "replicate 4 0"] by auto
  have z: "k < 256 \<Longrightarrow> \<not> tb (replicate 4 0) k" for k by (simp add: tb_def)
  let ?e = "\<lparr>pe_pd_size = bytes, pe_alloc_map = m, pe_allocs = 1\<rparr>"
  have sl: "slots ?e = {0}" using m(2,3) z by (auto simp: slots_def)
  have s: "pe_pd_size ?e = 2 ^ (8 + i')" using b by simp
  note sz = size_facts[OF s b(2)]
  have ok: "entry_ok ?e" unfolding entry_ok_def using sl m(2) sz(9) b by auto
  let ?p = "mm_fresh mm" let ?M = "(mm_mems mm)(mm_fresh mm \<mapsto> nvgpu_dma_alloc_flags NVGPU_PD_CACHE_SIZE)" let ?E = "(mm_entries mm)(mm_fresh mm \<mapsto> ?e)"
  let ?c = "c\<lparr>pc_partial := (pc_partial c)(i' := ?p # pc_partial c i'), pc_mem_tree := idx_insert ?p ?p (pc_mem_tree c)\<rparr>"
  let ?pd = "pd\<lparr>pd_mem := Some ?p, pd_mem_offs := 0, pd_cached := True\<rparr>"
  let ?mm = "mm\<lparr>mm_fresh := ?p + 1, mm_pd_cache := Some ?c, mm_mems := ?M, mm_entries := ?E\<rparr>"
  have "nvgpu_pd_cache_nr bytes = Some i'" using sz(7) by simp
  then have r: "nvgpu_pd_cache_alloc_new e c pd bytes mm = Some (Inr (), ?pd, ?mm)" using e m(1) b(2) by (simp add: nvgpu_pd_cache_alloc_new_def Let_def)
  note f = fresh_unused[OF i]
  have c: "lists_ok c (mm_entries mm)" "tree_ok c (mm_entries mm)" "entries_ok (mm_entries mm) (mm_mems mm)"
    "handles_ok (mm_entries mm) (mm_mems mm) out" "\<And>p. p \<in> dom (mm_mems mm) \<Longrightarrow> p < mm_fresh mm" using i c0 unfolding pd_inv_def by auto
  have "pe_pd_size ?e > 0" using b by simp
  then have H: "handles_ok ?E ?M (out(h \<mapsto> ?pd\<lparr>pd_pd_size := bytes\<rparr>))"
    using handles_take[OF c(4) h, of ?p ?E ?M ?e 0 "{}" "?pd\<lparr>pd_pd_size := bytes\<rparr>"] f(1,2) sl by simp
  have L: "lists_ok ?c ?E" using lists_add_partial[OF c(1) f(2) s] sl sz(9) by (simp add: lists_ok_def)
  have T: "tree_ok ?c ?E" using tree_insert[OF c(2) f(2), of ?e] by (simp add: tree_ok_def)
  have EO: "entries_ok ?E ?M" by (rule entries_ok_upd[OF entries_ok_mem[OF c(3) f(2)] ok mem_ok_fresh[OF ok]]) simp
  have bd: "p \<in> dom (mm_mems ?mm) \<Longrightarrow> p < mm_fresh ?mm" for p using c(5)[of p] by (auto simp: less_Suc_eq)
  have "pd_inv ?mm (out(h \<mapsto> ?pd\<lparr>pd_pd_size := bytes\<rparr>))" by (rule pd_invI[of _ ?c]) (use L T EO H bd in simp_all)
  moreover have "pd_words ?M x = pd_words (mm_mems mm) x" if "out g = Some x" for g x using pd_words_away pd_mem_held[OF i that] f(3)[OF that] by auto
  moreover have "bytes \<le> 65536" using power_increasing[of "8 + i'" 16 "2::nat"] b by simp
  ultimately have "view ?M (out(h \<mapsto> ?pd\<lparr>pd_pd_size := bytes\<rparr>)) = (view (mm_mems mm) out)(h \<mapsto> replicate (bytes div 4) 0)"
    by (subst view_upd[of _ _ _ "mm_mems mm"]) (use pd_words_fresh[of ?M ?p 65536 "?pd\<lparr>pd_pd_size := bytes\<rparr>"] in auto)
  then show ?thesis unfolding r pd_given_def using \<open>pd_inv ?mm _\<close> by simp
qed

lemma partial_has_room:
  assumes "entry_ok e" "card (slots e) < cap e"
  shows "\<exists>k<cap e. find_first_zero_bit (pe_alloc_map e) (cap e) = Some k \<and> k \<notin> slots e"
proof -
  obtain i where i: "i < 8" "pe_pd_size e = 2 ^ (8 + i)" using entry_okD[OF assms(1)] by blast
  have l: "length (pe_alloc_map e) = 4" using assms(1) by (simp add: entry_ok_def)
  have c: "cap e \<le> 64 * length (pe_alloc_map e)" "cap e \<le> U64_MAX" using size_facts(4)[OF i(2,1)] l by simp_all
  obtain k where k: "find_first_zero_bit (pe_alloc_map e) (cap e) = Some k" "first_from (\<lambda>i. \<not> tb (pe_alloc_map e) i) 0 (cap e) k"
    using find_first_zero_bit_correct[OF c] by blast
  have "\<not> {..<cap e} \<subseteq> slots e"
  proof
    assume "{..<cap e} \<subseteq> slots e"
    then have "card {..<cap e} \<le> card (slots e)" using slots_finite(1)[OF assms(1)] by (rule card_mono[rotated])
    then show False using assms(2) by simp
  qed
  then obtain j where "j < cap e" "\<not> tb (pe_alloc_map e) j" using c(1) by (auto simp: slots_def)
  then have "k < cap e" using k(2) by (cases "k = cap e") (auto simp: first_from_def)
  moreover have "k < cap e \<Longrightarrow> \<not> tb (pe_alloc_map e) k" using k(2) by (auto simp: first_from_def)
  ultimately show ?thesis using k(1) by (auto simp: slots_def)
qed

lemma slot_taken:
  assumes ok: "entry_ok e" and k: "k < cap e" "k \<notin> slots e"
  shows "\<exists>m. nvgpu_set_bit k (pe_alloc_map e) = Some m \<and> entry_ok (e\<lparr>pe_alloc_map := m, pe_allocs := pe_allocs e + 1\<rparr>) \<and>
    slots (e\<lparr>pe_alloc_map := m, pe_allocs := pe_allocs e + 1\<rparr>) = insert k (slots e)"
    "nvgpu_safe_mult_u32 k (pe_pd_size e) = Some (k * pe_pd_size e)" "nvgpu_safe_add_u32 (pe_allocs e) 1 = Some (pe_allocs e + 1)" "k \<le> U32_MAX"
proof -
  obtain i where i: "i < 8" "pe_pd_size e = 2 ^ (8 + i)" using entry_okD[OF ok] by blast
  note sz = size_facts[OF i(2,1)]
  have l: "length (pe_alloc_map e) = 4" "pe_allocs e = card (slots e)" using ok by (simp_all add: entry_ok_def)
  obtain m where m: "nvgpu_set_bit k (pe_alloc_map e) = Some m" "length m = 4" "\<And>j. tb m j = (j = k \<or> tb (pe_alloc_map e) j)"
    using nvgpu_set_bit_correct[of k "pe_alloc_map e"] k(1) sz(4) l by auto
  let ?e = "e\<lparr>pe_alloc_map := m, pe_allocs := pe_allocs e + 1\<rparr>"
  have sl: "slots ?e = insert k (slots e)" using m(2,3) l k(1) sz(4) by (auto simp: slots_def)
  then have "entry_ok ?e" using ok k m(2) slots_finite(1)[OF ok] by (auto simp: entry_ok_def cap_def)
  then show "\<exists>m. nvgpu_set_bit k (pe_alloc_map e) = Some m \<and> entry_ok (e\<lparr>pe_alloc_map := m, pe_allocs := pe_allocs e + 1\<rparr>) \<and>
    slots (e\<lparr>pe_alloc_map := m, pe_allocs := pe_allocs e + 1\<rparr>) = insert k (slots e)" using m(1) sl by blast
  have "k * pe_pd_size e \<le> cap e * pe_pd_size e" using k(1) by (intro mult_le_mono1) simp
  then show "nvgpu_safe_mult_u32 k (pe_pd_size e) = Some (k * pe_pd_size e)" using sz(2) by (intro safe_mult_u32_eq) simp
  show "nvgpu_safe_add_u32 (pe_allocs e) 1 = Some (pe_allocs e + 1)" using slots_finite(2)[OF ok] l(2) sz(4) by (intro safe_add_u32_eq) simp
  show "k \<le> U32_MAX" using k(1) sz(4) by simp
qed

lemma alloc_from_partial_given:
  assumes i: "pd_inv mm out" and h: "out h = None" and c0: "mm_pd_cache mm = Some c" and e: "mm_entries mm p = Some e" "card (slots e) < cap e"
  shows "\<exists>pd' mm'. nvgpu_pd_cache_alloc_from_partial c p pd mm = Some (Inr (), pd', mm') \<and> pd_given mm out h (pe_pd_size e) (pd'\<lparr>pd_pd_size := pe_pd_size e\<rparr>) mm'"
proof -
  have ok: "entry_ok e" by (rule pd_invD(5)[OF i e(1)])
  obtain i' where i': "i' < 8" "pe_pd_size e = 2 ^ (8 + i')" using entry_okD[OF ok] by blast
  note sz = size_facts[OF i'(2,1)]
  obtain k where k: "k < cap e" "find_first_zero_bit (pe_alloc_map e) (cap e) = Some k" "k \<notin> slots e" using partial_has_room[OF ok e(2)] by blast
  note st = slot_taken[OF ok k(1,3)]
  obtain m where m: "nvgpu_set_bit k (pe_alloc_map e) = Some m" "entry_ok (e\<lparr>pe_alloc_map := m, pe_allocs := pe_allocs e + 1\<rparr>)"
    "slots (e\<lparr>pe_alloc_map := m, pe_allocs := pe_allocs e + 1\<rparr>) = insert k (slots e)" using st(1) by blast
  let ?e = "e\<lparr>pe_alloc_map := m, pe_allocs := pe_allocs e + 1\<rparr>"
  have cd: "card (slots ?e) = pe_allocs e + 1" "cap ?e = cap e" using m(3) k(3) slots_finite(1)[OF ok] ok by (simp_all add: cap_def entry_ok_def)
  have nr: "nvgpu_pd_cache_get_nr_entries e = Some (cap e)" using i'(2) by (simp add: nvgpu_pd_cache_get_nr_entries_def cap_def)
  let ?E = "(mm_entries mm)(p \<mapsto> ?e)" let ?c = "if card (slots ?e) < cap ?e then c else (let c' = pc_list_del p c in c'\<lparr>pc_full := (pc_full c')(i' := p # pc_full c' i')\<rparr>)"
  let ?pd = "pd\<lparr>pd_mem := Some p, pd_mem_offs := k * pe_pd_size e, pd_cached := True\<rparr>" let ?mm = "mm\<lparr>mm_entries := ?E, mm_pd_cache := Some ?c\<rparr>"
  have same: "mm\<lparr>mm_entries := ?E\<rparr> = mm\<lparr>mm_entries := ?E, mm_pd_cache := Some c\<rparr>" using c0 by simp
  have r: "nvgpu_pd_cache_alloc_from_partial c p pd mm = Some (Inr (), ?pd, ?mm)"
    using e(1) nr k st(2-4) m(1) sz(7) i'(1) cd same by (simp add: nvgpu_pd_cache_alloc_from_partial_def Let_def)
  have c: "lists_ok c (mm_entries mm)" "tree_ok c (mm_entries mm)" "entries_ok (mm_entries mm) (mm_mems mm)"
    "handles_ok (mm_entries mm) (mm_mems mm) out" "\<And>p. p \<in> dom (mm_mems mm) \<Longrightarrow> p < mm_fresh mm" using i c0 unfolding pd_inv_def by auto
  obtain x where x: "mm_mems mm p = Some x" "mem_ok e x" using pd_invD(6)[OF i e(1)] by blast
  have x': "mem_ok ?e x" by (rule mem_ok_take[OF x(2)]) (use m(3) in auto)
  have H: "handles_ok ?E (mm_mems mm) (out(h \<mapsto> ?pd\<lparr>pd_pd_size := pe_pd_size e\<rparr>))"
    using handles_take[OF c(4) h, of p ?E "mm_mems mm" ?e k "slots e" "?pd\<lparr>pd_pd_size := pe_pd_size e\<rparr>"] e(1) m(3) k(3) i'(2) by simp
  have L: "lists_ok ?c ?E"
  proof (cases "card (slots ?e) < cap ?e")
    case True
    then show ?thesis using lists_stay[OF c(1) e(1) _ e(2) True] by simp
  next
    case False
    then show ?thesis using lists_add_full[OF lists_del[OF c(1)], of p p ?e i'] i'(2) by (simp add: Let_def)
  qed
  have T: "tree_ok ?c ?E" by (rule tree_same[OF c(2) e(1)]) (simp add: Let_def pc_list_del_def)
  have EO: "entries_ok ?E (mm_mems mm)" by (rule entries_ok_upd[OF c(3) m(2) x' x(1)])
  have "pd_inv ?mm (out(h \<mapsto> ?pd\<lparr>pd_pd_size := pe_pd_size e\<rparr>))" by (rule pd_invI[of _ ?c]) (use L T EO H c(5) in simp_all)
  moreover have "pd_words (mm_mems mm) (?pd\<lparr>pd_pd_size := pe_pd_size e\<rparr>) = replicate (pe_pd_size e div 4) 0"
    using x k(1,3) sz(8)[of k] by (intro nth_equalityI) (auto simp: pd_words_def mem_ok_def)
  then have "view (mm_mems mm) (out(h \<mapsto> ?pd\<lparr>pd_pd_size := pe_pd_size e\<rparr>)) = (view (mm_mems mm) out)(h \<mapsto> replicate (pe_pd_size e div 4) 0)"
    by (subst view_upd[of _ _ _ "mm_mems mm"]) auto
  ultimately show ?thesis unfolding r pd_given_def by simp
qed

text \<open>What a request comes to: a slot of a partly used entry, a slot of a new entry, memory of its own, or an error.\<close>

definition pd_outcome :: "pd_env \<Rightarrow> (nat \<rightharpoonup> nvgpu_pd_mem_entry) \<Rightarrow> u32 \<Rightarrow> unit result" where
  "pd_outcome e E bytes =
     (if bytes < NVGPU_PD_CACHE_SIZE \<and> \<not> (\<exists>k\<ge>8. bytes = 2 ^ k) then Inl EINVAL
      else if bytes < NVGPU_PD_CACHE_SIZE \<and> (\<exists>p x. E p = Some x \<and> pe_pd_size x = bytes \<and> card (slots x) < cap x) then Inr ()
      else if bytes < NVGPU_PD_CACHE_SIZE \<and> pv_kzalloc_entry e \<and> pv_dma_entry e = None then Inr ()
      else if (bytes < NVGPU_PD_CACHE_SIZE \<longrightarrow> pv_kzalloc_entry e \<and> pv_dma_entry e = Some ENOMEM) \<and> pv_kzalloc_mem e \<and> pv_dma_direct e = None then Inr ()
      else Inl ENOMEM)"

text \<open>A request does what its outcome says: the directory is there, or nothing but the supply of addresses has changed.\<close>

definition pd_served :: "unit result \<Rightarrow> pd_mm \<Rightarrow> (nat \<rightharpoonup> nvgpu_gmmu_pd) \<Rightarrow> nat \<Rightarrow> u32 \<Rightarrow> nvgpu_gmmu_pd \<Rightarrow> pd_mm \<Rightarrow> bool" where
  "pd_served r mm out h bytes pd mm' \<longleftrightarrow>
     (case r of Inr _ \<Rightarrow> pd_given mm out h bytes pd mm' | Inl _ \<Rightarrow> \<exists>f. mm' = mm\<lparr>mm_fresh := f\<rparr> \<and> mm_fresh mm \<le> f)"

definition sized :: "unit result \<Rightarrow> u32 \<Rightarrow> nvgpu_gmmu_pd \<Rightarrow> nvgpu_gmmu_pd" where
  "sized r bytes pd = (case r of Inl _ \<Rightarrow> pd | Inr _ \<Rightarrow> pd\<lparr>pd_pd_size := bytes\<rparr>)"

lemma alloc_direct_served:
  assumes "pd_inv mm out" "out h = None"
  shows "\<exists>pd' mm'. nvgpu_pd_cache_alloc_direct e pd bytes mm = (if pv_kzalloc_mem e \<and> pv_dma_direct e = None then Inr () else Inl ENOMEM, pd', mm') \<and>
    pd_served (if pv_kzalloc_mem e \<and> pv_dma_direct e = None then Inr () else Inl ENOMEM) mm out h bytes
      (sized (if pv_kzalloc_mem e \<and> pv_dma_direct e = None then Inr () else Inl ENOMEM) bytes pd') mm'"
  using alloc_direct_given[OF assms, of e pd bytes] alloc_direct_refused[of e pd bytes mm]
  by (cases "pv_kzalloc_mem e \<and> pv_dma_direct e = None") (auto simp: pd_served_def sized_def)

lemma pd_served_fresh: "pd_served r (mm\<lparr>mm_fresh := mm_fresh mm + 1\<rparr>) out h bytes pd mm' \<Longrightarrow> pd_served r mm out h bytes pd mm'"
  by (auto simp: pd_served_def pd_given_def split: sum.splits)

lemma alloc_new_served:
  assumes i: "pd_inv mm out" and h: "out h = None" and c: "mm_pd_cache mm = Some c" and b: "bytes = 2 ^ (8 + i')" "i' < 8" "\<not> (\<exists>p x. mm_entries mm p = Some x \<and> pe_pd_size x = bytes \<and> card (slots x) < cap x)"
  shows "\<exists>pd' mm'. nvgpu_pd_cache_alloc_new e c pd bytes mm = Some (pd_outcome e (mm_entries mm) bytes, pd', mm') \<and>
    pd_served (pd_outcome e (mm_entries mm) bytes) mm out h bytes (sized (pd_outcome e (mm_entries mm) bytes) bytes pd') mm'"
proof -
  have b': "bytes < 65536" "8 \<le> 8 + i'" using power_strict_increasing[of "8 + i'" 16 "2::nat"] b(1,2) by simp_all
  have o: "pd_outcome e (mm_entries mm) bytes = (if pv_kzalloc_entry e \<and> pv_dma_entry e = None \<or> pv_kzalloc_entry e \<and> pv_dma_entry e = Some ENOMEM \<and> pv_kzalloc_mem e \<and> pv_dma_direct e = None
      then Inr () else Inl ENOMEM)"
    unfolding pd_outcome_def using b(1,3) b' by auto
  show ?thesis
  proof (cases "pv_kzalloc_entry e")
    case False
    then have "nvgpu_pd_cache_alloc_new e c pd bytes mm = Some (Inl ENOMEM, pd, mm)" by (simp add: nvgpu_pd_cache_alloc_new_def)
    moreover have "pd_served (Inl ENOMEM) mm out h bytes pd mm" unfolding pd_served_def by (auto intro: exI[of _ "mm_fresh mm"])
    ultimately show ?thesis using False o by (simp add: sized_def)
  next
    case True
    show ?thesis
    proof (cases "pv_dma_entry e")
      case None
      then show ?thesis using alloc_new_given[OF i h c b(1,2) True None, of pd] o True by (auto simp: pd_served_def sized_def)
    next
      case (Some err)
      let ?mm = "mm\<lparr>mm_fresh := mm_fresh mm + 1\<rparr>"
      have r: "nvgpu_pd_cache_alloc_new e c pd bytes mm = Some (if err = ENOMEM then nvgpu_pd_cache_alloc_direct e pd bytes ?mm else (Inl ENOMEM, pd, ?mm))"
        using True Some by (simp add: nvgpu_pd_cache_alloc_new_def Let_def)
      show ?thesis
      proof (cases "err = ENOMEM")
        case False
        then show ?thesis using r o True Some by (auto simp: pd_served_def sized_def intro!: exI[of _ "mm_fresh mm + 1"])
      next
        case eq: True
        define d where "d = (if pv_kzalloc_mem e \<and> pv_dma_direct e = None then Inr () else Inl ENOMEM :: unit result)"
        have "pd_inv ?mm out" using fresh_le[OF i] by simp
        then obtain pd' mm' where s: "nvgpu_pd_cache_alloc_direct e pd bytes ?mm = (d, pd', mm')" "pd_served d ?mm out h bytes (sized d bytes pd') mm'"
          using alloc_direct_served[of ?mm out h e pd bytes] h unfolding d_def by blast
        have "pd_outcome e (mm_entries mm) bytes = d" unfolding o d_def using True Some eq by simp
        then show ?thesis using r s(1) pd_served_fresh[OF s(2)] eq by simp
      qed
    qed
  qed
qed

lemma pow2_size: "256 \<le> b \<and> b AND (b - 1) = 0 \<longleftrightarrow> (\<exists>k\<ge>8. b = 2 ^ k)" for b :: nat
proof -
  have p: "256 \<le> (2::nat) ^ k \<longleftrightarrow> 8 \<le> k" for k using power_increasing_iff[of "2::nat" 8 k] by simp
  have "b AND (b - 1) = 0 \<longleftrightarrow> (\<exists>k. b = 2 ^ k)" if "256 \<le> b" using is_power_of_2_iff[of b] that unfolding is_power_of_2_def by simp
  then show ?thesis using p by metis
qed

lemma pd_alloc_step:
  assumes i: "pd_inv mm out" and h: "out h = None"
  shows "\<exists>pd' mm'. nvgpu_pd_alloc e pd bytes mm = Some (pd_outcome e (mm_entries mm) bytes, pd', mm') \<and> pd_served (pd_outcome e (mm_entries mm) bytes) mm out h bytes pd' mm'"
proof -
  obtain c where c: "mm_pd_cache mm = Some c" "lists_ok c (mm_entries mm)" using pd_invE[OF i] by metis
  consider (large) "65536 \<le> bytes" | (bad) "bytes < 65536" "\<not> (\<exists>k\<ge>8. bytes = 2 ^ k)" | (ok) i' where "bytes < 65536" "bytes = 2 ^ (8 + i')" "i' < 8"
  proof -
    have "k < 16" if "(2::nat) ^ k < 65536" for k using power_less_imp_less_exp[of "2::nat" k 16] that by simp
    then have "\<exists>j<8. bytes = 2 ^ (8 + j)" if "bytes < 65536" "8 \<le> k" "bytes = 2 ^ k" for k
    proof (intro exI[of _ "k - 8"] conjI)
      have "k < 16" using \<open>\<And>k. (2::nat) ^ k < 65536 \<Longrightarrow> k < 16\<close>[of k] that by simp
      then show "k - 8 < 8" using that(2) by simp
    qed (use that in simp)
    then show thesis using that by (metis not_less)
  qed
  then show ?thesis
  proof cases
    case large
    have "nvgpu_pd_alloc e pd bytes mm = (let (r, pd, mm) = nvgpu_pd_cache_alloc_direct e pd bytes mm in Some (r, sized r bytes pd, mm))"
      using large by (simp add: nvgpu_pd_alloc_def sized_def case_prod_beta)
    moreover have "pd_outcome e (mm_entries mm) bytes = (if pv_kzalloc_mem e \<and> pv_dma_direct e = None then Inr () else Inl ENOMEM)" using large by (simp add: pd_outcome_def)
    ultimately show ?thesis using alloc_direct_served[OF i h, of e pd bytes] by force
  next
    case bad
    then have "nvgpu_pd_cache_alloc e c pd bytes mm = Some (Inl EINVAL, pd, mm)" using pow2_size[of bytes] by (simp add: nvgpu_pd_cache_alloc_def)
    then have "nvgpu_pd_alloc e pd bytes mm = Some (Inl EINVAL, pd, mm)" using bad(1) c(1) by (simp add: nvgpu_pd_alloc_def)
    moreover have "pd_outcome e (mm_entries mm) bytes = Inl EINVAL" using bad by (simp add: pd_outcome_def)
    moreover have "pd_served (Inl EINVAL) mm out h bytes pd mm" unfolding pd_served_def by (auto intro: exI[of _ "mm_fresh mm"])
    ultimately show ?thesis by simp
  next
    case ok
    have k: "\<exists>k\<ge>8. bytes = 2 ^ k" using ok(2) by (intro exI[of _ "8 + i'"]) simp
    have nr: "nvgpu_pd_cache_nr bytes = Some i'" using size_facts(7)[of "\<lparr>pe_pd_size = bytes, pe_alloc_map = [], pe_allocs = 0\<rparr>"] ok by simp
    have r: "nvgpu_pd_alloc e pd bytes mm = Option.bind (case pc_partial c i' of [] \<Rightarrow> nvgpu_pd_cache_alloc_new e c pd bytes mm | p # _ \<Rightarrow> nvgpu_pd_cache_alloc_from_partial c p pd mm)
        (\<lambda>(r, pd, mm). Some (r, sized r bytes pd, mm))"
      using ok pow2_size[of bytes] k c(1) nr
      by (simp add: nvgpu_pd_alloc_def nvgpu_pd_cache_alloc_def nvgpu_pd_cache_get_partial_def sized_def split: list.split)
    have L: "q \<in> set (pc_partial c i') \<longleftrightarrow> (\<exists>x. mm_entries mm q = Some x \<and> pe_pd_size x = bytes \<and> card (slots x) < cap x)" for q
      using c(2) ok(2,3) unfolding lists_ok_iff by blast
    show ?thesis
    proof (cases "pc_partial c i'")
      case Nil
      then show ?thesis using alloc_new_served[OF i h c(1) ok(2,3), of e pd] L r by auto
    next
      case (Cons p ps)
      then obtain x where x: "mm_entries mm p = Some x" "pe_pd_size x = bytes" "card (slots x) < cap x" using L[of p] by auto
      then have "pd_outcome e (mm_entries mm) bytes = Inr ()" using k ok(1) by (auto simp: pd_outcome_def)
      then show ?thesis using alloc_from_partial_given[OF i h c(1) x(1,3), of pd] x(2) Cons r by (auto simp: pd_served_def sized_def)
    qed
  qed
qed

end
