(* ===== verification/Pd_Cache_Release.thy ===== *)
theory Pd_Cache_Release
  imports Pd_Cache_Ops
begin

text \<open>
  Giving page directories back and writing to them.
\<close>

section \<open>Releases\<close>

text \<open>A release that returns: the directory is gone, the others are as they were.\<close>

definition pd_taken_back :: "pd_mm \<Rightarrow> (nat \<rightharpoonup> nvgpu_gmmu_pd) \<Rightarrow> nat \<Rightarrow> pd_mm \<Rightarrow> bool" where
  "pd_taken_back mm out h mm' \<longleftrightarrow> pd_inv mm' (out(h := None)) \<and> view (mm_mems mm') (out(h := None)) = (view (mm_mems mm) out)(h := None) \<and> mm_fresh mm' = mm_fresh mm"

lemma free_direct_step:
  assumes i: "pd_inv mm out" and h: "out h = Some pd" "\<not> pd_cached pd"
  shows "\<exists>mm'. nvgpu_pd_cache_free_direct pd mm = Some (pd\<lparr>pd_mem := None\<rparr>, mm') \<and> pd_taken_back mm out h mm'"
proof -
  note H = handles_okD[OF pd_invD(3)[OF i]]
  obtain p m where p: "pd_mem pd = Some p" "mm_entries mm p = None" "mm_mems mm p = Some m" "pd_mem_offs pd = 0" using H(1)[OF h(1)] h(2) by (auto simp: handle_ok_def)
  let ?M = "(mm_mems mm)(p := None)" let ?mm = "mm\<lparr>mm_mems := ?M\<rparr>"
  have r: "nvgpu_pd_cache_free_direct pd mm = Some (pd\<lparr>pd_mem := None\<rparr>, ?mm)" using p by (simp add: nvgpu_pd_cache_free_direct_def)
  obtain c where c: "mm_pd_cache mm = Some c" "lists_ok c (mm_entries mm)" "tree_ok c (mm_entries mm)" "entries_ok (mm_entries mm) (mm_mems mm)"
    "handles_ok (mm_entries mm) (mm_mems mm) out" "\<And>p. p \<in> dom (mm_mems mm) \<Longrightarrow> p < mm_fresh mm" using pd_invE[OF i] by blast
  have b: "q < mm_fresh mm" if "q \<in> dom ?M" for q using c(6)[of q] that by (auto split: if_splits)
  have "pd_inv ?mm (out(h := None))" by (rule pd_invI[of _ c]) (use c b handles_release_direct[OF c(5) h(1) p(1) h(2)] entries_ok_mem[OF c(4) p(2)] in simp_all)
  moreover have "pd_words ?M x = pd_words (mm_mems mm) x" if x: "out g = Some x" "g \<noteq> h" for g x
  proof (rule pd_words_away)
    show "pd_mem x \<noteq> None" using pd_mem_held[OF i x(1)] by auto
    show "pd_mem x \<noteq> Some p"
    proof
      assume q: "pd_mem x = Some p"
      then have "pd_mem_offs x = 0" using H(1)[OF x(1)] p(2) by (auto simp: handle_ok_def split: if_splits)
      then show False using H(2)[OF x(1) h(1)] q p(1,4) x(2) by simp
    qed
  qed
  then have "view ?M (out(h := None)) = (view (mm_mems mm) out)(h := None)" by (subst view_upd[of _ _ _ "mm_mems mm"]) auto
  ultimately show ?thesis unfolding r pd_taken_back_def by simp
qed

lemma slot_released:
  assumes ok: "entry_ok e" and k: "k \<in> slots e"
  shows "\<exists>m. nvgpu_clear_bit k (pe_alloc_map e) = Some m \<and> slots (e\<lparr>pe_alloc_map := m, pe_allocs := pe_allocs e - 1\<rparr>) = slots e - {k} \<and>
      (1 < pe_allocs e \<longrightarrow> entry_ok (e\<lparr>pe_alloc_map := m, pe_allocs := pe_allocs e - 1\<rparr>))"
    "nvgpu_safe_sub_u32 (pe_allocs e) 1 = Some (pe_allocs e - 1)" "\<not> 1 < pe_allocs e \<Longrightarrow> slots e = {k}" "k * pe_pd_size e div pe_pd_size e = k"
proof -
  have l: "length (pe_alloc_map e) = 4" "pe_allocs e = card (slots e)" "0 < pe_pd_size e" using ok by (auto simp: entry_ok_def)
  have f: "finite (slots e)" by (rule slots_finite(1)[OF ok])
  have k': "k < 64 * length (pe_alloc_map e)" using k by (simp add: slots_def)
  obtain m where m: "nvgpu_clear_bit k (pe_alloc_map e) = Some m" "length m = 4" "\<And>j. tb m j = (j \<noteq> k \<and> tb (pe_alloc_map e) j)"
    using nvgpu_clear_bit_correct[OF k'] l by auto
  let ?e = "e\<lparr>pe_alloc_map := m, pe_allocs := pe_allocs e - 1\<rparr>"
  have sl: "slots ?e = slots e - {k}" using m(2,3) l by (auto simp: slots_def)
  have cd: "card (slots e - {k}) = pe_allocs e - 1" using l(2) k f by simp
  have pos: "1 \<le> pe_allocs e" using l(2) k f by (simp add: Suc_le_eq card_gt_0_iff) blast
  have "entry_ok ?e" if "1 < pe_allocs e"
  proof -
    have "slots e - {k} \<noteq> {}" using that cd by (metis card.empty diff_is_0_eq not_less)
    then show ?thesis using ok sl m(2) cd by (auto simp: entry_ok_def cap_def)
  qed
  then show "\<exists>m. nvgpu_clear_bit k (pe_alloc_map e) = Some m \<and> slots (e\<lparr>pe_alloc_map := m, pe_allocs := pe_allocs e - 1\<rparr>) = slots e - {k} \<and>
      (1 < pe_allocs e \<longrightarrow> entry_ok (e\<lparr>pe_alloc_map := m, pe_allocs := pe_allocs e - 1\<rparr>))" using m(1) sl by blast
  show "nvgpu_safe_sub_u32 (pe_allocs e) 1 = Some (pe_allocs e - 1)" by (rule safe_sub_u32_eq[OF pos])
  show "slots e = {k}" if "\<not> 1 < pe_allocs e"
  proof -
    have "card (slots e) = 1" using that pos l(2) by simp
    then show ?thesis using k by (auto simp: card_1_singleton_iff)
  qed
  show "k * pe_pd_size e div pe_pd_size e = k" using l(3) by simp
qed

text \<open>The words of the other directories of an entry whose slot is cleared.\<close>

lemma words_other:
  assumes i: "pd_inv mm out" and h: "out h = Some pd" "pd_mem pd = Some p" and x: "out g = Some x" "g \<noteq> h" and M': "\<And>q. q \<noteq> p \<Longrightarrow> M' q = mm_mems mm q"
    and w: "\<And>j. j < length (mem_words (the (mm_mems mm p))) \<Longrightarrow> \<not> (pd_mem_offs pd div 4 \<le> j \<and> j < pd_mem_offs pd div 4 + pd_pd_size pd div 4) \<Longrightarrow>
      mem_words (the (M' p)) ! j = mem_words (the (mm_mems mm p)) ! j"
  shows "pd_words M' x = pd_words (mm_mems mm) x"
proof -
  obtain q m where q: "pd_mem x = Some q" "mm_mems mm q = Some m" "pd_mem_offs x div 4 + pd_pd_size x div 4 \<le> length (mem_words m)" using handle_inside[OF i x(1)] by blast
  show ?thesis
  proof (rule pd_words_cong[OF q(1)])
    fix j assume j: "j < pd_pd_size x div 4"
    show "mem_words (the (M' q)) ! (pd_mem_offs x div 4 + j) = mem_words (the (mm_mems mm q)) ! (pd_mem_offs x div 4 + j)"
    proof (cases "q = p")
      case True
      then show ?thesis using handles_apart[OF i x(1) h(1) x(2)] q j h(2) w[of "pd_mem_offs x div 4 + j"] by auto
    qed (simp add: M')
  qed
qed

lemma do_free_keeps_entry:
  assumes i: "pd_inv mm out" and h: "out h = Some pd" "pd_mem pd = Some p" "pd_cached pd" and c0: "mm_pd_cache mm = Some c"
    and e: "mm_entries mm p = Some e" "k \<in> slots e" "pd_mem_offs pd = k * pe_pd_size e" "pd_pd_size pd = pe_pd_size e" "1 < pe_allocs e"
  shows "\<exists>mm'. nvgpu_pd_cache_do_free c p pd mm = Some (pd\<lparr>pd_mem := None\<rparr>, mm') \<and> pd_taken_back mm out h mm'"
proof -
  have ok: "entry_ok e" by (rule pd_invD(5)[OF i e(1)])
  obtain i' where i': "i' < 8" "pe_pd_size e = 2 ^ (8 + i')" using entry_okD[OF ok] by blast
  note sz = size_facts[OF i'(2,1)] and sr = slot_released[OF ok e(2)]
  obtain m where m: "nvgpu_clear_bit k (pe_alloc_map e) = Some m" "slots (e\<lparr>pe_alloc_map := m, pe_allocs := pe_allocs e - 1\<rparr>) = slots e - {k}"
    "entry_ok (e\<lparr>pe_alloc_map := m, pe_allocs := pe_allocs e - 1\<rparr>)" using sr(1) e(5) by blast
  let ?e = "e\<lparr>pe_alloc_map := m, pe_allocs := pe_allocs e - 1\<rparr>"
  obtain x where x: "mm_mems mm p = Some x" "mem_ok e x" using pd_invD(6)[OF i e(1)] by blast
  define x' where "x' = x\<lparr>mem_words := clear_words (pd_mem_offs pd div 4) (pd_pd_size pd div 4) (mem_words x)\<rparr>"
  note mr = mem_ok_release[OF x(2) ok e(2-4) m(2) _ x'_def, simplified]
  let ?E = "(mm_entries mm)(p \<mapsto> ?e)" let ?M = "(mm_mems mm)(p \<mapsto> x')" let ?d = "pc_list_del p c"
  let ?c = "?d\<lparr>pc_partial := (pc_partial ?d)(i' := p # pc_partial ?d i')\<rparr>" let ?mm = "mm\<lparr>mm_entries := ?E, mm_mems := ?M, mm_pd_cache := Some ?c\<rparr>"
  have va: "mem_cpu_va x" "length (mem_words x) = 16384" using x(2) by (simp_all add: mem_ok_def)
  have r: "nvgpu_pd_cache_do_free c p pd mm = Some (pd\<lparr>pd_mem := None\<rparr>, ?mm)"
    using e h(2) m(1) sr(2,4) sz(5,7) i'(1) x(1) va by (simp add: nvgpu_pd_cache_do_free_def x'_def Let_def)
  have c: "lists_ok c (mm_entries mm)" "tree_ok c (mm_entries mm)" "entries_ok (mm_entries mm) (mm_mems mm)"
    "handles_ok (mm_entries mm) (mm_mems mm) out" "\<And>p. p \<in> dom (mm_mems mm) \<Longrightarrow> p < mm_fresh mm" using i c0 unfolding pd_inv_def by auto
  have H: "handles_ok ?E ?M (out(h := None))"
    using handles_release[OF c(4) h e(3), of ?E ?M] e(1,2) m(2) i'(2) by simp
  have "card (slots e - {k}) < card (slots e)" using e(2) slots_finite(1)[OF ok] by (intro psubset_card_mono) auto
  then have "card (slots ?e) < cap ?e" using m(2) slots_finite(2)[OF ok] by (simp add: cap_def)
  then have L: "lists_ok ?c ?E" using lists_add_partial[OF lists_del[OF c(1)], of p p ?e i'] i'(2) by simp
  have T: "tree_ok ?c ?E" by (rule tree_same[OF c(2) e(1)]) (simp add: pc_list_del_def)
  have "entries_ok ((mm_entries mm)(p := None)) ?M" using c(3) unfolding entries_ok_def by simp
  then have EO: "entries_ok ?E ?M" using entries_ok_upd[of "(mm_entries mm)(p := None)" ?M ?e x' p] m(3) mr(1) by simp
  have b: "q < mm_fresh mm" if "q \<in> dom ?M" for q using c(5)[of q] that x(1) by (auto split: if_splits)
  have "pd_inv ?mm (out(h := None))" by (rule pd_invI[of _ ?c]) (use L T EO H b in simp_all)
  moreover have "pd_words ?M y = pd_words (mm_mems mm) y" if "out g = Some y" "g \<noteq> h" for g y
    by (rule words_other[OF i h(1,2) that]) (use mr(2) va x(1) e(3,4) sz(8)[of k] in auto)
  then have "view ?M (out(h := None)) = (view (mm_mems mm) out)(h := None)" by (subst view_upd[of _ _ _ "mm_mems mm"]) auto
  ultimately show ?thesis unfolding r pd_taken_back_def by simp
qed

lemma do_free_drops_entry:
  assumes i: "pd_inv mm out" and h: "out h = Some pd" "pd_mem pd = Some p" "pd_cached pd" and c0: "mm_pd_cache mm = Some c"
    and e: "mm_entries mm p = Some e" "k \<in> slots e" "pd_mem_offs pd = k * pe_pd_size e" "\<not> 1 < pe_allocs e"
  shows "\<exists>mm'. nvgpu_pd_cache_do_free c p pd mm = Some (pd\<lparr>pd_mem := None\<rparr>, mm') \<and> pd_taken_back mm out h mm'"
proof -
  have ok: "entry_ok e" by (rule pd_invD(5)[OF i e(1)])
  then have pos: "0 < pe_pd_size e" by (auto simp: entry_ok_def)
  note sr = slot_released[OF ok e(2)]
  obtain m where m: "nvgpu_clear_bit k (pe_alloc_map e) = Some m" using sr(1) by blast
  let ?E = "(mm_entries mm)(p := None)" let ?M = "(mm_mems mm)(p := None)" let ?d = "pc_list_del p c"
  let ?c = "?d\<lparr>pc_mem_tree := idx_unlink p (pc_mem_tree ?d)\<rparr>" let ?mm = "mm\<lparr>mm_pd_cache := Some ?c, mm_mems := ?M, mm_entries := ?E\<rparr>"
  have r: "nvgpu_pd_cache_do_free c p pd mm = Some (pd\<lparr>pd_mem := None\<rparr>, ?mm)"
    using e m sr(2,4) pos by (simp add: nvgpu_pd_cache_do_free_def nvgpu_pd_cache_free_mem_entry_def Let_def)
  have c: "lists_ok c (mm_entries mm)" "tree_ok c (mm_entries mm)" "entries_ok (mm_entries mm) (mm_mems mm)"
    "handles_ok (mm_entries mm) (mm_mems mm) out" "\<And>p. p \<in> dom (mm_mems mm) \<Longrightarrow> p < mm_fresh mm" using i c0 unfolding pd_inv_def by auto
  have sl: "slots e = {k}" by (rule sr(3)[OF e(4)])
  have H: "handles_ok ?E ?M (out(h := None))" using handles_release[OF c(4) h e(3), of ?E ?M] e(1) sl pos by simp
  have L: "lists_ok ?c ?E" using lists_del[OF c(1)] by (simp add: lists_tree_cong)
  have T: "tree_ok ?c ?E" using tree_remove[OF c(2), of p] by (simp add: tree_ok_def pc_list_del_def)
  have EO: "entries_ok ?E ?M" using c(3) unfolding entries_ok_def by simp
  have b: "q < mm_fresh mm" if "q \<in> dom ?M" for q using c(5)[of q] that by (auto split: if_splits)
  have "pd_inv ?mm (out(h := None))" by (rule pd_invI[of _ ?c]) (use L T EO H b in simp_all)
  moreover have "pd_words ?M y = pd_words (mm_mems mm) y" if y: "out g = Some y" "g \<noteq> h" for g y
  proof (rule pd_words_away)
    show "pd_mem y \<noteq> None" using pd_mem_held[OF i y(1)] by auto
    note H' = handles_okD[OF c(4)]
    show "pd_mem y \<noteq> Some p" using H'(1)[OF y(1)] H'(2)[OF y(1) h(1)] y(2) h(2) e(1,3) sl by (auto simp: handle_ok_def split: if_splits)
  qed
  then have "view ?M (out(h := None)) = (view (mm_mems mm) out)(h := None)" by (subst view_upd[of _ _ _ "mm_mems mm"]) auto
  ultimately show ?thesis unfolding r pd_taken_back_def by simp
qed

lemma pd_free_step:
  assumes i: "pd_inv mm out" and h: "out h = Some pd"
  shows "\<exists>mm'. nvgpu_pd_free pd mm = Some (pd\<lparr>pd_mem := None\<rparr>, mm') \<and> pd_taken_back mm out h mm'"
proof (cases "pd_cached pd")
  case False
  then show ?thesis using free_direct_step[OF i h] by (simp add: nvgpu_pd_free_def)
next
  case True
  obtain c where c: "mm_pd_cache mm = Some c" "tree_ok c (mm_entries mm)" using pd_invE[OF i] by metis
  obtain p e k where e: "pd_mem pd = Some p" "mm_entries mm p = Some e" "k \<in> slots e" "pd_mem_offs pd = k * pe_pd_size e" "pd_pd_size pd = pe_pd_size e"
    using handles_okD(1)[OF pd_invD(3)[OF i] h] True by (auto simp: handle_ok_def)
  have "nvgpu_pd_free pd mm = nvgpu_pd_cache_do_free c p pd mm"
    using True c(1) tree_look_up[OF c(2) e(2,1)] by (simp add: nvgpu_pd_free_def nvgpu_pd_cache_free_def)
  then show ?thesis using do_free_keeps_entry[OF i h e(1) True c(1) e(2-5)] do_free_drops_entry[OF i h e(1) True c(1) e(2-4)] by (cases "1 < pe_allocs e") auto
qed

section \<open>Writes\<close>

lemma mem_ok_write:
  assumes "mem_ok e m" "k \<in> slots e" "w < pe_pd_size e div 4"
  shows "mem_ok e (m\<lparr>mem_words := (mem_words m)[k * (pe_pd_size e div 4) + w := v]\<rparr>)"
proof -
  have "(mem_words m)[k * (pe_pd_size e div 4) + w := v] ! (l * (pe_pd_size e div 4) + j) = mem_words m ! (l * (pe_pd_size e div 4) + j)"
    if "l \<notin> slots e" "j < pe_pd_size e div 4" for l j
  proof -
    have "k \<noteq> l" using that(1) assms(2) by blast
    then show ?thesis using slots_apart[of k l w "pe_pd_size e div 4" j] that(2) assms(3) by simp
  qed
  then show ?thesis using assms(1) by (simp add: mem_ok_def)
qed

lemma pd_write_step:
  assumes i: "pd_inv mm out" and h: "out h = Some pd" and w: "w < pd_pd_size pd div 4" "pd_pd_size pd \<le> U32_MAX"
  shows "\<exists>mm'. nvgpu_pd_write pd w data mm = Some mm' \<and> pd_inv mm' out \<and>
    view (mm_mems mm') out = (view (mm_mems mm) out)(h \<mapsto> (the (view (mm_mems mm) out h))[w := data]) \<and> mm_fresh mm' = mm_fresh mm"
proof -
  obtain p m where p: "pd_mem pd = Some p" "mm_mems mm p = Some m" "mem_cpu_va m" "pd_mem_offs pd div 4 + pd_pd_size pd div 4 \<le> length (mem_words m)"
    using handle_inside[OF i h] by blast
  let ?w = "pd_mem_offs pd div 4 + w" let ?m = "m\<lparr>mem_words := (mem_words m)[pd_mem_offs pd div 4 + w := data]\<rparr>" let ?M = "(mm_mems mm)(p \<mapsto> ?m)" let ?mm = "mm\<lparr>mm_mems := ?M\<rparr>"
  obtain c where c: "mm_pd_cache mm = Some c" "lists_ok c (mm_entries mm)" "tree_ok c (mm_entries mm)" "entries_ok (mm_entries mm) (mm_mems mm)"
    "handles_ok (mm_entries mm) (mm_mems mm) out" "\<And>p. p \<in> dom (mm_mems mm) \<Longrightarrow> p < mm_fresh mm" using pd_invE[OF i] by blast
  have EO: "?w \<le> U32_MAX \<and> entries_ok (mm_entries mm) ?M"
  proof (cases "pd_cached pd")
    case False
    then have "mm_entries mm p = None" "pd_mem_offs pd = 0" using handles_okD(1)[OF c(5) h] p(1) by (auto simp: handle_ok_def)
    then show ?thesis using entries_ok_mem[OF c(4)] w by auto
  next
    case True
    then obtain e k where e: "mm_entries mm p = Some e" "k \<in> slots e" "pd_mem_offs pd = k * pe_pd_size e" "pd_pd_size pd = pe_pd_size e"
      using handles_okD(1)[OF c(5) h] p(1) by (auto simp: handle_ok_def)
    have m: "mem_ok e m" using pd_invD(6)[OF i e(1)] p(2) by simp
    obtain i' where i': "i' < 8" "pe_pd_size e = 2 ^ (8 + i')" using entry_okD[OF pd_invD(5)[OF i e(1)]] by blast
    have "mem_ok e ?m" using mem_ok_write[OF m e(2), of w data] w(1) e(3,4) size_facts(8)[OF i'(2,1), of k] by simp
    then have "entries_ok (mm_entries mm) ?M" using c(4) e(1) unfolding entries_ok_def by simp
    moreover have "?w \<le> U32_MAX" using p(4) w(1) m by (simp add: mem_ok_def)
    ultimately show ?thesis by blast
  qed
  have r: "nvgpu_pd_write pd w data mm = Some ?mm"
    using EO p w(1) by (simp add: nvgpu_pd_write_def nvgpu_mem_wr32_def safe_add_u64_eq)
  have b: "q < mm_fresh mm" if "q \<in> dom ?M" for q using c(6)[of q] that p(2) by (auto split: if_splits)
  have "handles_ok (mm_entries mm) ?M out" by (rule handles_write[OF c(5) p(2)]) simp_all
  then have "pd_inv ?mm out" by (intro pd_invI[of _ c]) (use c EO b in simp_all)
  moreover have "pd_words ?M y = pd_words (mm_mems mm) y" if "out g = Some y" "g \<noteq> h" for g y
    by (rule words_other[OF i h p(1) that]) (use p(2) w(1) in \<open>auto simp: nth_list_update\<close>)
  then have "view ?M (out(h \<mapsto> pd)) = (view (mm_mems mm) out)(h \<mapsto> pd_words ?M pd)" by (subst view_upd[of _ _ _ "mm_mems mm"]) auto
  moreover have "out(h \<mapsto> pd) = out" using h by auto
  moreover have "pd_words ?M pd = (pd_words (mm_mems mm) pd)[w := data]"
    using p w(1) by (intro nth_equalityI) (auto simp: pd_words_def nth_list_update)
  ultimately show ?thesis unfolding r using h by (simp add: view_def)
qed

end
