(* ===== verification/Directory_Store.thy ===== *)
theory Directory_Store
  imports Nvgpu_Prelude
begin

text \<open>
  What the code that builds page tables relies on from the code that provides page directories (\<^verbatim>\<open>nvgpu_pd_alloc\<close>, \<^verbatim>\<open>nvgpu_pd_free\<close> and
  \<^verbatim>\<open>nvgpu_pd_write\<close>): a store of directories, each a block of 32-bit words, new ones zero and no two sharing a word. The interface is the locale
  \<open>directory_store\<close>; the sequences of requests a client makes are run against a store and against plain lists of words.
\<close>

type_synonym directories = "nat \<rightharpoonup> u32 list"

section \<open>Requests\<close>

datatype 'e pd_request = PdAlloc 'e nat u32 | PdFree nat | PdWrite nat u64 u32

text \<open>What a client may ask for: a directory it does not have yet, the release of one it has, a write inside one it has.\<close>

fun pd_allowed :: "'e pd_request \<Rightarrow> directories \<Rightarrow> bool" where
  "pd_allowed (PdAlloc e h bytes) A \<longleftrightarrow> A h = None \<and> bytes \<le> U32_MAX"
| "pd_allowed (PdFree h) A \<longleftrightarrow> A h \<noteq> None"
| "pd_allowed (PdWrite h w v) A \<longleftrightarrow> (case A h of None \<Rightarrow> False | Some ws \<Rightarrow> w < length ws)"

text \<open>What the requests mean for the directories; a request for one is met or not.\<close>

fun pd_effect :: "'e pd_request \<Rightarrow> bool \<Rightarrow> directories \<Rightarrow> directories" where
  "pd_effect (PdAlloc e h bytes) met A = (if met then A(h \<mapsto> replicate (bytes div 4) 0) else A)"
| "pd_effect (PdFree h) met A = A(h := None)"
| "pd_effect (PdWrite h w v) met A = A(h := map_option (\<lambda>ws. ws[w := v]) (A h))"

text \<open>A store runs the requests a client may make, in order, next to the directories as plain words.\<close>

fun pd_exec :: "('e \<Rightarrow> nat \<Rightarrow> u32 \<Rightarrow> 's \<Rightarrow> (unit result \<times> 's) option) \<Rightarrow> (nat \<Rightarrow> 's \<Rightarrow> 's option) \<Rightarrow> (nat \<Rightarrow> u64 \<Rightarrow> u32 \<Rightarrow> 's \<Rightarrow> 's option) \<Rightarrow>
    'e pd_request \<Rightarrow> 's \<Rightarrow> (bool \<times> 's) option" where
  "pd_exec al fr wr (PdAlloc e h bytes) s = do { (r, s) \<leftarrow> al e h bytes s; Some (r = Inr (), s) }"
| "pd_exec al fr wr (PdFree h) s = do { s \<leftarrow> fr h s; Some (True, s) }"
| "pd_exec al fr wr (PdWrite h w v) s = do { s \<leftarrow> wr h w v s; Some (True, s) }"

primrec pd_session :: "('e \<Rightarrow> nat \<Rightarrow> u32 \<Rightarrow> 's \<Rightarrow> (unit result \<times> 's) option) \<Rightarrow> (nat \<Rightarrow> 's \<Rightarrow> 's option) \<Rightarrow> (nat \<Rightarrow> u64 \<Rightarrow> u32 \<Rightarrow> 's \<Rightarrow> 's option) \<Rightarrow>
    'e pd_request list \<Rightarrow> 's \<Rightarrow> directories \<Rightarrow> ('s \<times> directories) option" where
  "pd_session al fr wr [] s A = Some (s, A)"
| "pd_session al fr wr (c # cs) s A =
     (if pd_allowed c A then do { (met, s) \<leftarrow> pd_exec al fr wr c s; pd_session al fr wr cs s (pd_effect c met A) }
      else pd_session al fr wr cs s A)"

text \<open>Writing consecutive words, as the code that fills in an entry does.\<close>

primrec write_words :: "(nat \<Rightarrow> u64 \<Rightarrow> u32 \<Rightarrow> 's \<Rightarrow> 's option) \<Rightarrow> nat \<Rightarrow> u64 \<Rightarrow> u32 list \<Rightarrow> 's \<Rightarrow> 's option" where
  "write_words wr h w [] s = Some s"
| "write_words wr h w (v # vs) s = do { s \<leftarrow> wr h w v s; write_words wr h (w + 1) vs s }"

section \<open>The interface\<close>

locale directory_store =
  fixes holds :: "'s \<Rightarrow> directories \<Rightarrow> bool"
    and al :: "'e \<Rightarrow> nat \<Rightarrow> u32 \<Rightarrow> 's \<Rightarrow> (unit result \<times> 's) option"
    and fr :: "nat \<Rightarrow> 's \<Rightarrow> 's option"
    and wr :: "nat \<Rightarrow> u64 \<Rightarrow> u32 \<Rightarrow> 's \<Rightarrow> 's option"
  assumes alloc_law: "holds s A \<Longrightarrow> A h = None \<Longrightarrow> bytes \<le> U32_MAX \<Longrightarrow>
      \<exists>r s'. al e h bytes s = Some (r, s') \<and> holds s' (if r = Inr () then A(h \<mapsto> replicate (bytes div 4) 0) else A)"
    and free_law: "holds s A \<Longrightarrow> A h = Some ws \<Longrightarrow> \<exists>s'. fr h s = Some s' \<and> holds s' (A(h := None))"
    and write_law: "holds s A \<Longrightarrow> A h = Some ws \<Longrightarrow> w < length ws \<Longrightarrow> \<exists>s'. wr h w v s = Some s' \<and> holds s' (A(h \<mapsto> ws[w := v]))"
begin

lemma exec_law:
  assumes "holds s A" "pd_allowed c A"
  shows "\<exists>met s'. pd_exec al fr wr c s = Some (met, s') \<and> holds s' (pd_effect c met A)"
  using assms
proof (cases c)
  case (PdAlloc e h bytes)
  then obtain r s' where "al e h bytes s = Some (r, s')" "holds s' (if r = Inr () then A(h \<mapsto> replicate (bytes div 4) 0) else A)"
    using alloc_law[OF assms(1), of h bytes e] assms(2) by auto
  then show ?thesis using PdAlloc by simp
next
  case (PdFree h)
  then show ?thesis using free_law[OF assms(1), of h] assms(2) by (auto intro!: exI[of _ True])
next
  case (PdWrite h w v)
  then obtain ws where "A h = Some ws" "w < length ws" using assms(2) by (auto split: option.splits)
  then show ?thesis using write_law[OF assms(1), of h ws w v] PdWrite by (auto intro!: exI[of _ True])
qed

text \<open>Every sequence of requests runs to its end, and what the store then holds is what the requests say.\<close>

lemma session_law:
  assumes "holds s A"
  shows "\<exists>s' A'. pd_session al fr wr cs s A = Some (s', A') \<and> holds s' A'"
  using assms
proof (induction cs arbitrary: s A)
  case (Cons c cs)
  show ?case
  proof (cases "pd_allowed c A")
    case True
    then obtain met s' where "pd_exec al fr wr c s = Some (met, s')" "holds s' (pd_effect c met A)" using exec_law[OF Cons.prems] by blast
    then show ?thesis using Cons.IH[of s' "pd_effect c met A"] True by simp
  qed (use Cons in simp)
qed simp

lemma write_words_law:
  assumes "holds s A" "A h = Some ws" "w + length vs \<le> length ws"
  shows "\<exists>s'. write_words wr h w vs s = Some s' \<and> holds s' (A(h \<mapsto> take w ws @ vs @ drop (w + length vs) ws))"
  using assms
proof (induction vs arbitrary: s A ws w)
  case Nil
  then show ?case by (simp add: fun_upd_idem)
next
  case (Cons v vs)
  then obtain s1 where s1: "wr h w v s = Some s1" "holds s1 (A(h \<mapsto> ws[w := v]))" using write_law[OF Cons.prems(1,2), of w v] by auto
  moreover have "take (w + 1) (ws[w := v]) = take w ws @ [v]" using Cons.prems(3) by (simp add: take_Suc_conv_app_nth)
  ultimately show ?case using Cons.IH[OF s1(2), of "ws[w := v]" "w + 1"] Cons.prems(3) by (simp cong: if_cong)
qed

end

end
