(* ===== verification/Pd_Cache_Contract.thy ===== *)
theory Pd_Cache_Contract
  imports Pd_Cache_Release Directory_Store
begin

text \<open>
  The results on the cache of page directories: it is a store of directories, whatever sequence of requests its clients make, and what a
  request, a release and the tear-down come to.
\<close>

section \<open>The cache as a store of directories\<close>

text \<open>The clients' view of the three operations: a directory is known by the \<open>nvgpu_gmmu_pd\<close> its client keeps.\<close>

type_synonym pd_state = "pd_mm \<times> (nat \<rightharpoonup> nvgpu_gmmu_pd)"

definition pds_alloc :: "(pd_env \<times> nvgpu_gmmu_pd) \<Rightarrow> nat \<Rightarrow> u32 \<Rightarrow> pd_state \<Rightarrow> (unit result \<times> pd_state) option" where
  "pds_alloc e h bytes s =
     do { (r, pd, mm) \<leftarrow> nvgpu_pd_alloc (fst e) (snd e) bytes (fst s); Some (r, mm, if r = Inr () then (snd s)(h \<mapsto> pd) else snd s) }"

definition pds_free :: "nat \<Rightarrow> pd_state \<Rightarrow> pd_state option" where
  "pds_free h s = do { pd \<leftarrow> snd s h; (pd, mm) \<leftarrow> nvgpu_pd_free pd (fst s); Some (mm, (snd s)(h := None)) }"

definition pds_write :: "nat \<Rightarrow> u64 \<Rightarrow> u32 \<Rightarrow> pd_state \<Rightarrow> pd_state option" where
  "pds_write h w v s = do { pd \<leftarrow> snd s h; mm \<leftarrow> nvgpu_pd_write pd w v (fst s); Some (mm, snd s) }"

definition pds_holds :: "pd_state \<Rightarrow> directories \<Rightarrow> bool" where
  "pds_holds s A \<longleftrightarrow> pd_inv (fst s) (snd s) \<and> A = view (mm_mems (fst s)) (snd s) \<and> (\<forall>h pd. snd s h = Some pd \<longrightarrow> pd_pd_size pd \<le> U32_MAX)"

lemma view_None [simp]: "view M out h = None \<longleftrightarrow> out h = None"
  by (simp add: view_def)

lemma view_Some: "view M out h = Some ws \<longleftrightarrow> (\<exists>pd. out h = Some pd \<and> ws = pd_words M pd)"
  by (auto simp: view_def)

interpretation pds: directory_store pds_holds pds_alloc pds_free pds_write
proof unfold_locales
  fix s A h bytes e assume s: "pds_holds s A" "A h = None" "bytes \<le> U32_MAX"
  obtain mm out where m: "s = (mm, out)" by fastforce
  have i: "pd_inv mm out" "out h = None" using s m by (auto simp: pds_holds_def)
  obtain pd' mm' where r: "nvgpu_pd_alloc (fst e) (snd e) bytes mm = Some (pd_outcome (fst e) (mm_entries mm) bytes, pd', mm')"
    "pd_served (pd_outcome (fst e) (mm_entries mm) bytes) mm out h bytes pd' mm'" using pd_alloc_step[OF i] by blast
  show "\<exists>r s'. pds_alloc e h bytes s = Some (r, s') \<and> pds_holds s' (if r = Inr () then A(h \<mapsto> replicate (bytes div 4) 0) else A)"
  proof (cases "pd_outcome (fst e) (mm_entries mm) bytes")
    case (Inl err)
    then show ?thesis using r s(1) m fresh_le[OF i(1)] by (auto simp: pds_alloc_def pds_holds_def pd_served_def)
  next
    case (Inr u)
    then show ?thesis using r s(1,3) m by (auto simp: pds_alloc_def pds_holds_def pd_served_def pd_given_def)
  qed
next
  fix s A h ws assume s: "pds_holds s A" "A h = Some ws"
  obtain mm out where m: "s = (mm, out)" by fastforce
  obtain pd where p: "pd_inv mm out" "out h = Some pd" using s m by (auto simp: pds_holds_def view_Some)
  show "\<exists>s'. pds_free h s = Some s' \<and> pds_holds s' (A(h := None))"
    using pd_free_step[OF p] p(2) m s(1) by (auto simp: pds_free_def pds_holds_def pd_taken_back_def)
next
  fix s A h ws w v assume s: "pds_holds s A" "A h = Some ws" "w < length ws"
  obtain mm out where m: "s = (mm, out)" by fastforce
  obtain pd where p: "pd_inv mm out" "out h = Some pd" "ws = pd_words (mm_mems mm) pd" using s m by (auto simp: pds_holds_def view_Some)
  have w: "w < pd_pd_size pd div 4" "pd_pd_size pd \<le> U32_MAX" using s(1,3) p(2,3) m by (auto simp: pds_holds_def pd_words_def)
  show "\<exists>s'. pds_write h w v s = Some s' \<and> pds_holds s' (A(h \<mapsto> ws[w := v]))"
    using pd_write_step[OF p(1,2) w, of v] p(2) m s(1,2) by (auto simp: pds_write_def pds_holds_def)
qed

section \<open>Set-up and tear-down\<close>

definition pd_unset :: pd_mm where
  "pd_unset = \<lparr>mm_pd_cache = None, mm_entries = Map.empty, mm_mems = Map.empty, mm_fresh = 1\<rparr>"

definition pd_boot :: pd_mm where
  "pd_boot = snd (nvgpu_pd_cache_init True pd_unset)"

lemma pd_boot_inv: "pds_holds (pd_boot, Map.empty) Map.empty"
  unfolding pds_holds_def pd_boot_def nvgpu_pd_cache_init_def pd_unset_def
  by (auto simp: pd_inv_def lists_ok_def tree_ok_def entries_ok_def handles_ok_def view_def)

lemma pd_fini_iff:
  assumes i: "pd_inv mm out"
  shows "nvgpu_pd_cache_fini mm = (if mm_entries mm = Map.empty then Some (mm\<lparr>mm_pd_cache := None\<rparr>) else None)"
proof -
  obtain c where c: "mm_pd_cache mm = Some c" "lists_ok c (mm_entries mm)" using pd_invE[OF i] by metis
  have "pc_full c j = [] \<and> pc_partial c j = []" if "mm_entries mm = Map.empty" "j < 8" for j
    using c(2) that unfolding lists_ok_def by auto
  moreover have "\<exists>j<8. \<not> (pc_full c j = [] \<and> pc_partial c j = [])" if ne: "mm_entries mm \<noteq> Map.empty"
  proof -
    obtain p e where e: "mm_entries mm p = Some e" using ne by (auto simp: fun_eq_iff)
    obtain j where j: "j < 8" "pe_pd_size e = 2 ^ (8 + j)" using entry_okD[OF pd_invD(5)[OF i e]] by blast
    have "p \<in> set (pc_partial c j) \<or> p \<in> set (pc_full c j)" using c(2) e j unfolding lists_ok_iff by blast
    then show ?thesis using j(1) by (intro exI[of _ j]) auto
  qed
  ultimately have "(\<forall>j\<in>set [0..<8]. pc_full c j = [] \<and> pc_partial c j = []) \<longleftrightarrow> mm_entries mm = Map.empty" by (cases "mm_entries mm = Map.empty") auto
  then show ?thesis unfolding nvgpu_pd_cache_fini_def c(1) option.case by simp
qed

lemma drained:
  assumes i: "pd_inv mm out"
  shows "mm_entries mm = Map.empty \<longleftrightarrow> (\<forall>h pd. out h = Some pd \<longrightarrow> \<not> pd_cached pd)" "out = Map.empty \<Longrightarrow> mm_mems mm = Map.empty"
proof -
  note H = handles_okD[OF pd_invD(3)[OF i]]
  have "\<exists>h pd. out h = Some pd \<and> pd_cached pd" if e: "mm_entries mm p = Some e" for p e
  proof -
    obtain k where k: "k \<in> slots e" using pd_invD(5)[OF i e] by (auto simp: entry_ok_def)
    obtain h pd where "out h = Some pd" "pd_mem pd = Some p" using H(3)[OF e k] by (auto simp: owned_def)
    then show ?thesis using H(1)[of h pd] e by (auto simp: handle_ok_def split: if_splits)
  qed
  moreover have "mm_entries mm \<noteq> Map.empty" if "out h = Some pd" "pd_cached pd" for h pd using H(1)[OF that(1)] that(2) by (auto simp: handle_ok_def)
  ultimately show *: "mm_entries mm = Map.empty \<longleftrightarrow> (\<forall>h pd. out h = Some pd \<longrightarrow> \<not> pd_cached pd)" by (metis not_Some_eq ext)
  have "mm_mems mm p = None" if "out = Map.empty" for p
  proof (cases "mm_mems mm p")
    case (Some m)
    then show ?thesis using H(4)[of p m] * that by (auto simp: owned_def)
  qed
  then show "out = Map.empty \<Longrightarrow> mm_mems mm = Map.empty" by (auto intro!: ext)
qed

section \<open>Results\<close>

text \<open>The states the cache can be brought into.\<close>

lemma session_holds:
  assumes "pd_session pds_alloc pds_free pds_write cs (pd_boot, Map.empty) Map.empty = Some (s, A)"
  shows "pds_holds s A"
  using pds.session_law[OF pd_boot_inv, of cs] assms by auto

text \<open>C18: The cache of page directories is a store of directories. Whatever sequence of requests, releases and writes its clients make after the
  set-up, with whichever requests for memory failing, every one of them returns; each directory reads as the words its client wrote since it was
  given, zero where it wrote none; two directories never share a word of memory; and when every directory is given back the cache holds no entry and
  no memory. The clients ask for a new directory, release one they have, or write inside one they have.\<close>

theorem pd_cache_refines:
  "\<exists>mm out A. pd_session pds_alloc pds_free pds_write cs (pd_boot, Map.empty) Map.empty = Some ((mm, out), A) \<and>
     (\<forall>h. A h = map_option (pd_words (mm_mems mm)) (out h)) \<and>
     (\<forall>h h' pd pd'. out h = Some pd \<and> out h' = Some pd' \<and> h \<noteq> h' \<longrightarrow>
        pd_mem pd \<noteq> pd_mem pd' \<or> pd_mem_offs pd div 4 + pd_pd_size pd div 4 \<le> pd_mem_offs pd' div 4 \<or> pd_mem_offs pd' div 4 + pd_pd_size pd' div 4 \<le> pd_mem_offs pd div 4) \<and>
     (out = Map.empty \<longrightarrow> mm_entries mm = Map.empty \<and> mm_mems mm = Map.empty)"
proof -
  obtain mm out A where s: "pd_session pds_alloc pds_free pds_write cs (pd_boot, Map.empty) Map.empty = Some ((mm, out), A)" "pds_holds (mm, out) A"
    using pds.session_law[OF pd_boot_inv, of cs] by (metis prod.exhaust)
  then have i: "pd_inv mm out" "A = view (mm_mems mm) out" by (simp_all add: pds_holds_def)
  have "pd_mem pd \<noteq> pd_mem pd' \<or> pd_mem_offs pd div 4 + pd_pd_size pd div 4 \<le> pd_mem_offs pd' div 4 \<or> pd_mem_offs pd' div 4 + pd_pd_size pd' div 4 \<le> pd_mem_offs pd div 4"
    if "out h = Some pd" "out h' = Some pd'" "h \<noteq> h'" for h h' pd pd' using handles_apart[OF i(1) that] pd_mem_held[OF i(1) that(1)] by auto
  then show ?thesis using s(1) i(2) drained[OF i(1)] by (auto simp: view_def)
qed

text \<open>Two directories of 256 bytes, the first one written at its second word, with memory at hand.\<close>

definition pd_plenty :: pd_env where
  "pd_plenty = \<lparr>pv_kzalloc_entry = True, pv_dma_entry = None, pv_kzalloc_mem = True, pv_dma_direct = None\<rparr>"

definition pd_blank :: nvgpu_gmmu_pd where
  "pd_blank = \<lparr>pd_mem = None, pd_mem_offs = 0, pd_cached = False, pd_pd_size = 0\<rparr>"

definition sample_requests :: "(pd_env \<times> nvgpu_gmmu_pd) pd_request list" where
  "sample_requests = [PdAlloc (pd_plenty, pd_blank) 0 256, PdAlloc (pd_plenty, pd_blank) 1 256, PdWrite 0 1 7]"

lemma plenty_alloc:
  assumes "pds_holds s A" "A h = None"
  shows "\<exists>s'. pds_alloc (pd_plenty, pd_blank) h 256 s = Some (Inr (), s') \<and> pds_holds s' (A(h \<mapsto> replicate 64 0))"
proof -
  have n: "(256::nat) \<le> U32_MAX" "(256::nat) div 4 = 64" by simp_all
  obtain r s' where r: "pds_alloc (pd_plenty, pd_blank) h 256 s = Some (r, s')" "pds_holds s' (if r = Inr () then A(h \<mapsto> replicate 64 0) else A)"
    using pds.alloc_law[OF assms n(1), of "(pd_plenty, pd_blank)"] unfolding n(2) by blast
  obtain mm out where m: "s = (mm, out)" by fastforce
  have i: "pd_inv mm out" "out h = None" using assms m by (auto simp: pds_holds_def)
  have "\<exists>k\<ge>8. (256::nat) = 2 ^ k" by (intro exI[of _ 8]) simp
  then have "pd_outcome pd_plenty (mm_entries mm) 256 = Inr ()" by (simp add: pd_outcome_def pd_plenty_def)
  then have "r = Inr ()" using pd_alloc_step[OF i, of pd_plenty pd_blank 256] r(1) m by (auto simp: pds_alloc_def)
  then show ?thesis using r by simp
qed

lemma sample_requests_run:
  "\<exists>s A. pd_session pds_alloc pds_free pds_write sample_requests (pd_boot, Map.empty) Map.empty = Some (s, A) \<and>
     A 0 = Some ((replicate 64 0)[1 := 7]) \<and> A 1 = Some (replicate 64 0)"
proof -
  obtain s1 where s1: "pds_alloc (pd_plenty, pd_blank) 0 256 (pd_boot, Map.empty) = Some (Inr (), s1)" "pds_holds s1 [0 \<mapsto> replicate 64 0]"
    using plenty_alloc[OF pd_boot_inv, of 0] by auto
  obtain s2 where s2: "pds_alloc (pd_plenty, pd_blank) 1 256 s1 = Some (Inr (), s2)" "pds_holds s2 [0 \<mapsto> replicate 64 0, 1 \<mapsto> replicate 64 0]"
    using plenty_alloc[OF s1(2), of 1] by auto
  obtain s3 where s3: "pds_write 0 1 7 s2 = Some s3" using pds.write_law[OF s2(2), of 0 "replicate 64 0" 1 7] by auto
  have n: "(256::nat) div 4 = 64" by simp
  show ?thesis using s1(1) s2(1) s3 unfolding sample_requests_def by (simp add: n)
qed

theorem pd_cache_refines_witness:
  "\<exists>mm out A pd pd'. pd_session pds_alloc pds_free pds_write sample_requests (pd_boot, Map.empty) Map.empty = Some ((mm, out), A) \<and>
     out 0 = Some pd \<and> out 1 = Some pd' \<and> pd_words (mm_mems mm) pd = (replicate 64 0)[1 := 7] \<and> pd_words (mm_mems mm) pd' = replicate 64 0 \<and>
     (pd_mem pd \<noteq> pd_mem pd' \<or> pd_mem_offs pd div 4 + pd_pd_size pd div 4 \<le> pd_mem_offs pd' div 4 \<or> pd_mem_offs pd' div 4 + pd_pd_size pd' div 4 \<le> pd_mem_offs pd div 4)"
proof -
  obtain mm out A where r: "pd_session pds_alloc pds_free pds_write sample_requests (pd_boot, Map.empty) Map.empty = Some ((mm, out), A)"
    "\<forall>h. A h = map_option (pd_words (mm_mems mm)) (out h)"
    "\<forall>h h' pd pd'. out h = Some pd \<and> out h' = Some pd' \<and> h \<noteq> h' \<longrightarrow>
        pd_mem pd \<noteq> pd_mem pd' \<or> pd_mem_offs pd div 4 + pd_pd_size pd div 4 \<le> pd_mem_offs pd' div 4 \<or> pd_mem_offs pd' div 4 + pd_pd_size pd' div 4 \<le> pd_mem_offs pd div 4"
    using pd_cache_refines[of sample_requests] by blast
  have A: "A 0 = Some ((replicate 64 0)[1 := 7])" "A 1 = Some (replicate 64 0)" using sample_requests_run r(1) by auto
  obtain pd pd' where o: "out 0 = Some pd" "pd_words (mm_mems mm) pd = (replicate 64 0)[1 := 7]" "out 1 = Some pd'" "pd_words (mm_mems mm) pd' = replicate 64 0"
    using r(2)[rule_format, of 0] r(2)[rule_format, of 1] A by (cases "out 0"; cases "out 1") simp_all
  show ?thesis using r(1) o r(3)[rule_format, of 0 pd 1 pd'] by auto
qed

text \<open>
  What a request for a directory of a given size comes to in every reachable state. Below 64 KiB the size has to be a power of two of at least
  256 bytes (\<^verbatim>\<open>-EINVAL\<close> otherwise); the directory is a slot of a partly used entry of that size if there is one, else of a new entry, else, when the
  entry's memory can not be had, memory of its own; from 64 KiB on it is memory of its own. What is given has the size asked for and reads as zero, and
  the other directories keep their words; a request that is not met changes nothing the cache holds.
\<close>

theorem pd_alloc_outcome:
  assumes "pd_session pds_alloc pds_free pds_write cs (pd_boot, Map.empty) Map.empty = Some ((mm, out), A)" and "out h = None"
  shows "\<exists>pd' mm'. nvgpu_pd_alloc e pd bytes mm = Some (pd_outcome e (mm_entries mm) bytes, pd', mm') \<and>
    (case pd_outcome e (mm_entries mm) bytes of
       Inl err \<Rightarrow> mm_pd_cache mm' = mm_pd_cache mm \<and> mm_entries mm' = mm_entries mm \<and> mm_mems mm' = mm_mems mm
     | Inr _ \<Rightarrow> pd_pd_size pd' = bytes \<and> pd_words (mm_mems mm') pd' = replicate (bytes div 4) 0 \<and>
         (\<forall>g x. out g = Some x \<longrightarrow> pd_words (mm_mems mm') x = pd_words (mm_mems mm) x))"
proof -
  have i: "pd_inv mm out" using session_holds[OF assms(1)] by (simp add: pds_holds_def)
  obtain pd' mm' where r: "nvgpu_pd_alloc e pd bytes mm = Some (pd_outcome e (mm_entries mm) bytes, pd', mm')"
    "pd_served (pd_outcome e (mm_entries mm) bytes) mm out h bytes pd' mm'" using pd_alloc_step[OF i assms(2)] by blast
  show ?thesis
  proof (cases "pd_outcome e (mm_entries mm) bytes")
    case (Inl err)
    then show ?thesis using r by (auto simp: pd_served_def)
  next
    case (Inr u)
    then have g: "view (mm_mems mm') (out(h \<mapsto> pd')) = (view (mm_mems mm) out)(h \<mapsto> replicate (bytes div 4) 0)" "pd_pd_size pd' = bytes"
      using r(2) by (auto simp: pd_served_def pd_given_def)
    have "pd_words (mm_mems mm') pd' = replicate (bytes div 4) 0" using fun_cong[OF g(1), of h] by (simp add: view_def)
    moreover have "pd_words (mm_mems mm') x = pd_words (mm_mems mm) x" if "out q = Some x" for q x
    proof -
      have "q \<noteq> h" using that assms(2) by auto
      then show ?thesis using fun_cong[OF g(1), of q] that by (simp add: view_def)
    qed
    ultimately show ?thesis using r(1) g(2) Inr by auto
  qed
qed

lemma pd_outcome_plenty: "pd_outcome pd_plenty E 4096 = Inr ()"
proof -
  have "\<exists>k\<ge>8. (4096::nat) = 2 ^ k" by (intro exI[of _ 12]) simp
  then show ?thesis by (simp add: pd_outcome_def pd_plenty_def)
qed

theorem pd_alloc_outcome_witness:
  "\<exists>pd' mm'. nvgpu_pd_alloc pd_plenty pd_blank 4096 pd_boot = Some (Inr (), pd', mm') \<and> pd_pd_size pd' = 4096 \<and> pd_words (mm_mems mm') pd' = replicate 1024 0"
  using pd_alloc_outcome[of "[]" pd_boot Map.empty Map.empty 0 pd_plenty pd_blank 4096] unfolding pd_outcome_plenty by auto

text \<open>
  Nothing is left behind: in every reachable state a release returns and leaves the words of every other directory alone, tearing the cache down is refused
  (the assertion stops the machine) exactly while a packed directory is still out, and when no directory is out the cache holds no entry
  and no memory.
\<close>

theorem pd_cache_drained:
  assumes "pd_session pds_alloc pds_free pds_write cs (pd_boot, Map.empty) Map.empty = Some ((mm, out), A)"
  shows "(\<forall>h pd. out h = Some pd \<longrightarrow> (\<exists>mm'. nvgpu_pd_free pd mm = Some (pd\<lparr>pd_mem := None\<rparr>, mm') \<and>
        (\<forall>g x. g \<noteq> h \<longrightarrow> out g = Some x \<longrightarrow> pd_words (mm_mems mm') x = pd_words (mm_mems mm) x))) \<and>
    nvgpu_pd_cache_fini mm = (if \<exists>h pd. out h = Some pd \<and> pd_cached pd then None else Some (mm\<lparr>mm_pd_cache := None\<rparr>)) \<and>
    (out = Map.empty \<longrightarrow> mm_entries mm = Map.empty \<and> mm_mems mm = Map.empty)"
proof -
  have i: "pd_inv mm out" using session_holds[OF assms] by (simp add: pds_holds_def)
  have "\<exists>mm'. nvgpu_pd_free pd mm = Some (pd\<lparr>pd_mem := None\<rparr>, mm') \<and> (\<forall>g x. g \<noteq> h \<longrightarrow> out g = Some x \<longrightarrow> pd_words (mm_mems mm') x = pd_words (mm_mems mm) x)"
    if h: "out h = Some pd" for h pd
  proof -
    obtain mm' where r: "nvgpu_pd_free pd mm = Some (pd\<lparr>pd_mem := None\<rparr>, mm')" "view (mm_mems mm') (out(h := None)) = (view (mm_mems mm) out)(h := None)"
      using pd_free_step[OF i h] by (auto simp: pd_taken_back_def)
    have "pd_words (mm_mems mm') x = pd_words (mm_mems mm) x" if "g \<noteq> h" "out g = Some x" for g x using fun_cong[OF r(2), of g] that by (simp add: view_def)
    then show ?thesis using r(1) by blast
  qed
  moreover have "(\<exists>h pd. out h = Some pd \<and> pd_cached pd) \<longleftrightarrow> mm_entries mm \<noteq> Map.empty" using drained(1)[OF i] by blast
  ultimately show ?thesis using pd_fini_iff[OF i] drained[OF i] by auto
qed

theorem pd_cache_drained_witness:
  "nvgpu_pd_cache_fini pd_boot = Some (pd_boot\<lparr>mm_pd_cache := None\<rparr>) \<and> mm_mems pd_boot = Map.empty"
  using pd_cache_drained[of "[]" pd_boot Map.empty Map.empty] by simp

end
