(* ===== verification/Spec2Isabelle.thy ===== *)
theory Spec2Isabelle
  imports Bitmap_Properties Job_List Priv_Cmdbuf Engine_Mem_Queue Semaphore_Proofs Runlist_Properties
    Nvs_Scheduler_Proofs Rbtree_Index Buddy_Contract Page_Contract Pd_Cache_Contract
begin

text \<open>
  A verification development of nvgpu, the NVIDIA driver for Tegra GPUs (\<^verbatim>\<open>src/drivers/gpu/nvgpu\<close>), and of its
  portable scheduler core (\<^verbatim>\<open>src/nvsched\<close>).

  \<^bold>\<open>The program.\<close> Work reaches the GPU through channels. A submit writes commands into a ring of private
  command fragments, records a job, and orders itself against other work with semaphores. Channels are
  grouped in time-slice groups (TSGs); the driver writes the TSGs and their active channels into runlists
  that the hardware scheduler walks. Each runlist holds scheduling domains; a worker switches all runlists from
  one domain to the next, in step with a scheduler that users talk to. Firmware on small processors
  (falcons) is driven through queues of commands in their memory. Addresses come from range allocators, and the
  page directories that map them from a cache that packs small directories together.

  \<^bold>\<open>Conventions\<close> (\<open>Nvgpu_Prelude\<close>). Fixed-width unsigned integers are naturals with the wrap-around written out
  (\<open>wrap32\<close>, \<open>wsub64\<close>, \<open>\<dots>\<close>); words of a bitmap, where bits matter, are \<open>64 word\<close>. The value \<open>None\<close> of an
  operation means that the machine stops: a failed assertion (\<open>nvgpu_safe_add_u64\<close> and the like, \<open>BUG\<close>), a
  null pointer, an access outside an array, or a loop that does not end. Error codes are \<open>Inl\<close> of a sum.
  What the code asks of the kernel, the firmware and the hardware (memory allocation, mapping,
  power state, clock, register access) is an argument of the operation, and theorems hold for every value of
  it unless they say otherwise. Operations that take a lock for their whole length are single steps;
  where two threads share data without one (the job list) their steps interleave.

  \<^bold>\<open>Theories and the code they model.\<close>
  \<^item> \<open>Nvgpu_Prelude\<close>: the integers and checked arithmetic (\<^verbatim>\<open>static_analysis.h\<close>), errors, arrays.
  \<^item> \<open>Bitops\<close>: \<^verbatim>\<open>os/posix/bitmap.c\<close>. The word-at-a-time scans and range operations against the view \<open>tb\<close> of a bitmap
    as a predicate on bit numbers; the free-area search is first fit.
  \<^item> \<open>Interval_Index\<close>: the key-ordered index through which allocators use the tree, as an interface (locale \<open>ordered_index\<close>).
  \<^item> \<open>Rbtree\<close>, \<open>Rbtree_Proofs\<close>, \<open>Rbtree_Unlink\<close>, \<open>Rbtree_Index\<close>: \<^verbatim>\<open>common/utils/rbtree.c\<close> on a store of nodes with pointers.
    A store represents a tree shape; a position is a path of frames to the root; rotations and recolourings
    change the shape as expected; the loops keep the order and restore the balance; the tree implements \<open>ordered_index\<close>.
  \<^item> \<open>Allocator\<close>: \<^verbatim>\<open>nvgpu_allocator.c\<close>, the table of operations and the contract every range allocator owes
    its clients (locale \<open>range_allocator\<close>: ranges handed out are disjoint until they are freed).
  \<^item> \<open>Bitmap_Allocator\<close>, \<open>Bitmap_Properties\<close>: \<^verbatim>\<open>bitmap_allocator.c\<close>, its invariant and the interpretation of the contract.
  \<^item> \<open>Buddy\<close>: \<^verbatim>\<open>buddy_allocator.c\<close> on a heap of buddies. \<open>Buddy_Core\<close> and \<open>Buddy_Inv\<close> hold its invariant (the buddies form complete
    binary trees over the range; lists, index and counts agree with them), \<open>Buddy_Ops\<close> and \<open>Buddy_Alloc\<close> show that splitting,
    taking, giving back and coalescing keep it, \<open>Buddy_Properties\<close> interprets the contract, \<open>Buddy_Setup\<close>,
    \<open>Buddy_Destroy\<close> and \<open>Buddy_Fixed\<close> treat set-up, teardown and fixed addresses, and \<open>Buddy_Contract\<close> states the results.
  \<^item> \<open>Page_Allocator\<close>: \<^verbatim>\<open>page_allocator.c\<close>, allocations made of chunks of pages from a buddy allocator and objects cut out of slab pages.
    \<open>Page_Source\<close> has the laws of the source and the loops that gather chunks and give them back, \<open>Page_Slabs\<close> the lists and bitmaps of slabs,
    \<open>Page_Inv\<close> the invariant (every range outstanding in the source has one owner, every taken object one record), \<open>Page_Ops\<close>,
    \<open>Page_Slab_Ops\<close>, \<open>Page_Slab_Alloc\<close>, \<open>Page_Requests\<close> and \<open>Page_Release\<close> that the operations return and keep it, \<open>Page_Setup\<close> the set-up, the
    reachable states and the interpretation of the contract on top of the source's, and \<open>Page_Contract\<close> the results.
  \<^item> \<open>Directory_Store\<close>: what page-table code relies on from the provider of page directories (locale \<open>directory_store\<close>: blocks of words, new
    ones zero, no two sharing a word). \<open>Pd_Cache\<close>: \<^verbatim>\<open>common/mm/gmmu/pd_cache.c\<close>, entries of 64 KiB cut into slots of one size, with a bitmap each,
    lists of full and partly used entries and a tree of all. \<open>Pd_Cache_Inv\<close> holds its invariant, \<open>Pd_Cache_Steps\<close>, \<open>Pd_Cache_Ops\<close> and
    \<open>Pd_Cache_Release\<close> that requests, writes and releases return and keep it, and \<open>Pd_Cache_Contract\<close> the interpretation and the results.
  \<^item> \<open>Log2\<close>: the power-of-two helpers and page alignment.
  \<^item> \<open>Ring\<close>: the interface of a ring buffer with a get and a put index (locale), used by
    \<open>Job_List\<close> (\<^verbatim>\<open>common/fifo/job.c\<close>), \<open>Priv_Cmdbuf\<close> (\<^verbatim>\<open>common/fifo/priv_cmdbuf.c\<close>) and the log of \<open>Nvsched\<close>.
  \<^item> \<open>Engine_Mem_Queue\<close>: \<^verbatim>\<open>common/engine_queues/engine_mem_queue.c\<close> and the reader of messages of \<^verbatim>\<open>common/pmu/ipc/pmu_msg.c\<close>: the
    writer and the reader of the driver agree on what is in a ring. The firmware at the other end of a real queue is not modelled.
  \<^item> \<open>Semaphore\<close>, \<open>Semaphore_Proofs\<close>: the sea, its pools and semaphores (\<^verbatim>\<open>common/semaphore/\<close>).
  \<^item> \<open>Runlist\<close>, \<open>Runlist_Proofs\<close>, \<open>Runlist_Properties\<close>: the first half of \<^verbatim>\<open>common/fifo/runlist.c\<close>: what is written
    for the hardware, equal to a reference sequence, the bookkeeping of active channels, and which buffer an update submits
    (\<open>gk20a_runlist_hw_submit\<close> of \<^verbatim>\<open>hal/fifo/runlist_fifo_gk20a_fusa.c\<close>, the entries it makes the hardware fetch).
  \<^item> \<open>Runlist_Domains\<close>, \<open>Runlist_Domains_Proofs\<close>, \<open>Runlist_Setup_Proofs\<close>: the second half of \<^verbatim>\<open>runlist.c\<close>: the domains of
    all runlists, the locks of recovery, setting up and tearing down.
  \<^item> \<open>Nvsched\<close>: \<^verbatim>\<open>nvsched/src/{domain,sched,logging}.c\<close>; the pointer-linked list of domains refines a list.
  \<^item> \<open>Nvs_Scheduler\<close>, \<open>Nvs_Scheduler_Proofs\<close>: \<^verbatim>\<open>common/nvs/nvs_sched.c\<close>; in every reachable state the scheduler and
    all runlists agree on the domains and on the active one; the request that breaks this, a failing addition of the very first domain, is
    excluded there and characterised in \<open>Runlist_Setup_Proofs\<close>.

  \<^bold>\<open>Loops.\<close> Loops bounded by their data are structural recursion or have a measure. Walks along pointers, the free-area search
  and the loops of the buddy and the page allocator are \<open>partial_function (option)\<close>, so that a walk that does not end is \<open>None\<close>; the
  theorems about them state that they return. No fuel is used.

  \<^bold>\<open>Not modelled.\<close> The per-chip register layers (\<^verbatim>\<open>hal/\<close>, \<^verbatim>\<open>include/nvgpu/hw\<close>, register lists, mock registers) are tables of
  numbers and register writes; the Linux, QNX and POSIX glue (\<^verbatim>\<open>os/\<close>), ioctls, debugfs and sysfs are
  kernel I/O; firmware loading and the power-management firmware protocol (\<^verbatim>\<open>common/pmu\<close>, \<^verbatim>\<open>common/acr\<close>,
  \<^verbatim>\<open>common/falcon\<close>), graphics context setup (\<^verbatim>\<open>common/gr\<close>), virtual GPUs (\<^verbatim>\<open>common/vgpu\<close>), page tables and address
  spaces (\<^verbatim>\<open>common/mm\<close> outside the three allocators and the cache of page directories) and the channel life cycle are left for later work; the unit tests
  (\<^verbatim>\<open>userspace/\<close>) are not part of the driver.
\<close>

end
